(* ===== verification/Prelude.thy ===== *)
theory Prelude
  imports Main "HOL-Library.Word"
begin

unbundle bit_operations_syntax

text \<open>
  Shared vocabulary of the development: the C integer types as the server's 32-bit
  little-endian target has them, byte encodings of integers, arrays as lists, the
  collections of simplification rules the component theories extend, and the ring-buffer
  interface (a locale) that the loopback queues and the reliable transport provide.

  Conventions.  A C \<open>int\<close> is an \<open>int\<close> that the operations keep between -2^31 and
  2^31-1: where an addition can leave that range the model wraps it with \<open>s32\<close> (the
  target is built with -O0, where gcc wraps).  An \<open>unsigned\<close> comparison, which
  \<open>sizeof\<close> forces in several guards, is written with \<open>u32\<close>.  A byte is an \<open>8 word\<close>.
  An array is a list of its full length; a store outside the array, undefined in C, is
  either a value of an error type or is shown not to happen by the lemmas of the component.
\<close>

section \<open>Machine integers\<close>

type_synonym byte = "8 word"
type_synonym bytes = "8 word list"

named_theorems arr_simps \<open>reading and writing arrays\<close>
named_theorems wire_simps \<open>byte encodings of integers\<close>

definition s32 :: "int \<Rightarrow> int" where
  "s32 x = signed_take_bit 31 x"

definition s16 :: "int \<Rightarrow> int" where
  "s16 x = signed_take_bit 15 x"

definition s8 :: "int \<Rightarrow> int" where
  "s8 x = signed_take_bit 7 x"

definition u32 :: "int \<Rightarrow> int" where
  "u32 x = x mod 2 ^ 32"

definition u16 :: "int \<Rightarrow> int" where
  "u16 x = x mod 2 ^ 16"

definition int_range :: "int \<Rightarrow> bool" where
  "int_range x \<longleftrightarrow> - (2 ^ 31) \<le> x \<and> x < 2 ^ 31"

lemma signed_take_bit_id:
  "- (2 ^ n) \<le> x \<Longrightarrow> x < 2 ^ n \<Longrightarrow> signed_take_bit n x = (x::int)"
  by (simp add: signed_take_bit_int_eq_self_iff)

lemma s32_id [simp]: "- (2 ^ 31) \<le> x \<Longrightarrow> x < 2 ^ 31 \<Longrightarrow> s32 x = x"
  unfolding s32_def by (rule signed_take_bit_id) simp_all

lemma s16_id [simp]: "- (2 ^ 15) \<le> x \<Longrightarrow> x < 2 ^ 15 \<Longrightarrow> s16 x = x"
  unfolding s16_def by (rule signed_take_bit_id) simp_all

lemma u32_id [simp]: "0 \<le> x \<Longrightarrow> x < 2 ^ 32 \<Longrightarrow> u32 x = x"
  unfolding u32_def by (rule mod_pos_pos_trivial) simp_all

lemma u16_id [simp]: "0 \<le> x \<Longrightarrow> x < 2 ^ 16 \<Longrightarrow> u16 x = x"
  unfolding u16_def by (rule mod_pos_pos_trivial) simp_all

lemma s32_range: "- (2 ^ 31) \<le> s32 x \<and> s32 x < 2 ^ 31"
  unfolding s32_def
  by (metis signed_take_bit_int_greater_eq_minus_exp signed_take_bit_int_less_exp)

lemma s16_range: "- (2 ^ 15) \<le> s16 x \<and> s16 x < 2 ^ 15"
  unfolding s16_def
  by (metis signed_take_bit_int_greater_eq_minus_exp signed_take_bit_int_less_exp)

lemma u32_range: "0 \<le> u32 x \<and> u32 x < 2 ^ 32"
  by (simp add: u32_def)

lemma s32_mod: "s32 (x mod 2 ^ 32) = s32 x"
proof -
  have "x mod 2 ^ 32 = take_bit 32 x" by (simp add: take_bit_eq_mod)
  then show ?thesis by (simp add: s32_def signed_take_bit_take_bit)
qed

lemma s16_mod: "s16 (x mod 2 ^ 16) = s16 x"
proof -
  have "x mod 2 ^ 16 = take_bit 16 x" by (simp add: take_bit_eq_mod)
  then show ?thesis by (simp add: s16_def signed_take_bit_take_bit)
qed

section \<open>Little-endian byte encodings\<close>

primrec le_bytes :: "nat \<Rightarrow> int \<Rightarrow> bytes" where
  "le_bytes 0 c = []"
| "le_bytes (Suc n) c = word_of_int c # le_bytes n (c div 256)"

primrec le_uint :: "bytes \<Rightarrow> int" where
  "le_uint [] = 0"
| "le_uint (b # bs) = uint b + 256 * le_uint bs"

lemma length_le_bytes [simp]: "length (le_bytes n c) = n"
  by (induction n arbitrary: c) auto

lemma le_bytes_eval:
  "le_bytes (numeral k) c = word_of_int c # le_bytes (pred_numeral k) (c div 256)"
  by (simp add: numeral_eq_Suc)

lemma uint_byte: "uint (word_of_int c :: byte) = c mod 256"
  by (simp add: uint_word_of_int)

lemma uint_byte_nat: "uint (word_of_nat n :: byte) = int n mod 256"
  using uint_byte [of "int n"] by simp

lemma le_uint_bytes [wire_simps]: "le_uint (le_bytes n c) = c mod 256 ^ n"
proof (induction n arbitrary: c)
  case 0
  then show ?case by simp
next
  case (Suc n)
  have "c mod (256 * 256 ^ n) = c mod 256 + 256 * (c div 256 mod 256 ^ n)"
    by (simp add: zmod_zmult2_eq)
  with Suc show ?case by (simp add: uint_byte)
qed

lemma le_uint_range: "0 \<le> le_uint bs \<and> le_uint bs < 256 ^ length bs"
proof (induction bs)
  case Nil
  then show ?case by simp
next
  case (Cons b bs)
  have "0 \<le> uint b" "uint b < 256" using uint_lt2p [of b] by simp_all
  with Cons show ?case by auto
qed

lemma s32_le_uint [wire_simps]: "s32 (le_uint (le_bytes 4 c)) = s32 c"
  using s32_mod [of c] by (simp add: le_uint_bytes)

lemma s16_le_uint [wire_simps]: "s16 (le_uint (le_bytes 2 c)) = s16 c"
  using s16_mod [of c] by (simp add: le_uint_bytes)

section \<open>Bytes and bits\<close>

lemma div_mod_8: "p = 8 * (p div 8) + p mod 8 \<and> 0 \<le> p mod 8 \<and> p mod 8 < (8::int)"
  by simp

lemma next_bit_new_byte: "(p + 1) mod 8 = 0 \<Longrightarrow> (p + 1) div 8 = p div 8 + (1::int)"
  using div_mod_8 [of p] div_mod_8 [of "p + 1"] by linarith

lemma next_bit_same_byte: "(p + 1) mod 8 \<noteq> 0 \<Longrightarrow> (p + 1) div 8 = p div (8::int)"
  using div_mod_8 [of p] div_mod_8 [of "p + 1"] by linarith

lemma earlier_byte: "q < p \<Longrightarrow> p mod 8 = 0 \<Longrightarrow> q div 8 \<noteq> p div (8::int)"
  using div_mod_8 [of p] div_mod_8 [of q] by linarith

lemma same_byte_mod_iff: "q div 8 = p div (8::int) \<Longrightarrow> q mod 8 = p mod 8 \<longleftrightarrow> q = p"
  using div_mod_8 [of p] div_mod_8 [of q] by linarith

section \<open>Arrays\<close>

definition idx :: "'a list \<Rightarrow> int \<Rightarrow> 'a" where
  "idx xs i = xs ! nat i"

definition put :: "int \<Rightarrow> 'a \<Rightarrow> 'a list \<Rightarrow> 'a list" where
  "put i v xs = (if i < 0 then xs else xs[nat i := v])"

primrec blit :: "nat \<Rightarrow> 'a list \<Rightarrow> 'a list \<Rightarrow> 'a list" where
  "blit i [] xs = xs"
| "blit i (b # bs) xs = blit (Suc i) bs (xs[i := b])"

lemma length_put [simp, arr_simps]: "length (put i v xs) = length xs"
  by (simp add: put_def)

lemma length_blit [simp, arr_simps]: "length (blit i bs xs) = length xs"
  by (induction bs arbitrary: i xs) auto

lemma idx_put_same [arr_simps]: "0 \<le> i \<Longrightarrow> nat i < length xs \<Longrightarrow> idx (put i v xs) i = v"
  by (simp add: idx_def put_def)

lemma idx_put_other [arr_simps]: "0 \<le> i \<Longrightarrow> 0 \<le> j \<Longrightarrow> i \<noteq> j \<Longrightarrow> idx (put i v xs) j = idx xs j"
  by (auto simp: idx_def put_def)

lemma blit_eq:
  "i + length bs \<le> length xs \<Longrightarrow> blit i bs xs = take i xs @ bs @ drop (i + length bs) xs"
proof (induction bs arbitrary: i xs)
  case Nil
  then show ?case by simp
next
  case (Cons b bs)
  then have "blit (Suc i) bs (xs[i := b]) =
      take (Suc i) (xs[i := b]) @ bs @ drop (Suc i + length bs) (xs[i := b])"
    by simp
  moreover have "take (Suc i) (xs[i := b]) = take i xs @ [b]"
    using Cons.prems by (simp add: take_Suc_conv_app_nth)
  ultimately show ?case by simp
qed

lemma put_nonneg: "0 \<le> i \<Longrightarrow> put i v xs = xs[nat i := v]"
  by (simp add: put_def)

lemma take_put_snoc:
  "0 \<le> i \<Longrightarrow> nat i < length xs \<Longrightarrow> take (nat (i + 1)) (put i v xs) = take (nat i) xs @ [v]"
  by (simp add: put_def nat_add_distrib take_Suc_conv_app_nth)

lemma take_put_le: "0 \<le> i \<Longrightarrow> n \<le> nat i \<Longrightarrow> take n (put i v xs) = take n xs"
  by (simp add: put_def)

lemma take_blit:
  "i + length bs \<le> length xs \<Longrightarrow> take (i + length bs) (blit i bs xs) = take i xs @ bs"
  by (simp add: blit_eq)

lemma take_blit_le: "n \<le> i \<Longrightarrow> take n (blit i bs xs) = take n xs"
  by (induction bs arbitrary: i xs) auto

section \<open>Ring buffers\<close>

text \<open>
  The transports number their packets consecutively and keep packet \<open>i\<close> in slot \<open>i mod cap\<close>
  of an array.  A client relies on four laws: a store is read back, it does not disturb the
  packets less than a capacity away, and it keeps the invariant and the capacity.  Then a
  window of at most \<open>cap\<close> consecutive numbers behaves like a list.
\<close>

locale ring =
  fixes rget :: "'s \<Rightarrow> int \<Rightarrow> 'e"
    and rput :: "int \<Rightarrow> 'e \<Rightarrow> 's \<Rightarrow> 's"
    and cap :: "'s \<Rightarrow> int"
    and rinv :: "'s \<Rightarrow> bool"
  assumes get_put_same: "rinv s \<Longrightarrow> 0 \<le> i \<Longrightarrow> rget (rput i e s) i = e"
    and get_put_other: "rinv s \<Longrightarrow> 0 \<le> i \<Longrightarrow> 0 \<le> j \<Longrightarrow> i \<noteq> j \<Longrightarrow> \<bar>i - j\<bar> < cap s \<Longrightarrow>
      rget (rput i e s) j = rget s j"
    and put_inv: "rinv s \<Longrightarrow> 0 \<le> i \<Longrightarrow> rinv (rput i e s)"
    and put_cap: "rinv s \<Longrightarrow> 0 \<le> i \<Longrightarrow> cap (rput i e s) = cap s"
begin

primrec rputs :: "int \<Rightarrow> 'e list \<Rightarrow> 's \<Rightarrow> 's" where
  "rputs i [] s = s"
| "rputs i (e # es) s = rputs (i + 1) es (rput i e s)"

lemma puts_inv: "rinv s \<Longrightarrow> 0 \<le> i \<Longrightarrow> rinv (rputs i es s) \<and> cap (rputs i es s) = cap s"
  by (induction es arbitrary: i s) (simp_all add: put_inv put_cap)

text \<open>Positions behind the written block, down to a capacity below its end, are kept.\<close>

lemma puts_behind:
  "rinv s \<Longrightarrow> 0 \<le> j \<Longrightarrow> j < i \<Longrightarrow> i + int (length es) - j \<le> cap s \<Longrightarrow>
   rget (rputs i es s) j = rget s j"
proof (induction es arbitrary: i s)
  case Nil
  then show ?case by simp
next
  case (Cons e es)
  then have "rget (rputs (i + 1) es (rput i e s)) j = rget (rput i e s) j"
    by (intro Cons.IH) (simp_all add: put_inv put_cap)
  moreover have "rget (rput i e s) j = rget s j"
    using Cons.prems by (intro get_put_other) simp_all
  ultimately show ?case by simp
qed

lemma puts_read:
  "rinv s \<Longrightarrow> 0 \<le> i \<Longrightarrow> int (length es) \<le> cap s \<Longrightarrow> k < length es \<Longrightarrow>
   rget (rputs i es s) (i + int k) = es ! k"
proof (induction es arbitrary: i s k)
  case Nil
  then show ?case by simp
next
  case (Cons e es)
  have s1: "rinv (rput i e s)" "cap (rput i e s) = cap s"
    using Cons.prems by (simp_all add: put_inv put_cap)
  show ?case
  proof (cases k)
    case 0
    have "rget (rputs (i + 1) es (rput i e s)) i = rget (rput i e s) i"
      using Cons.prems s1 by (intro puts_behind) simp_all
    then show ?thesis using 0 Cons.prems by (simp add: get_put_same)
  next
    case (Suc l)
    then have "rget (rputs (i + 1) es (rput i e s)) (i + 1 + int l) = es ! l"
      using Cons.prems s1 by (intro Cons.IH) simp_all
    then show ?thesis using Suc by (simp add: add.assoc)
  qed
qed

text \<open>A window that was right stays right when the next elements are stored behind it.\<close>

lemma window_extend:
  assumes "rinv s" "0 \<le> lo" "lo \<le> hi" "hi + int (length es) - lo \<le> cap s"
    and "\<forall>j. lo \<le> j \<and> j < hi \<longrightarrow> P j (rget s j)"
    and "\<forall>k < length es. P (hi + int k) (es ! k)"
  shows "\<forall>j. lo \<le> j \<and> j < hi + int (length es) \<longrightarrow> P j (rget (rputs hi es s) j)"
proof (intro allI impI)
  fix j assume j: "lo \<le> j \<and> j < hi + int (length es)"
  show "P j (rget (rputs hi es s) j)"
  proof (cases "j < hi")
    case True
    then have "rget (rputs hi es s) j = rget s j"
      using j assms(1,2,4) by (intro puts_behind) auto
    then show ?thesis using assms(5) j True by simp
  next
    case False
    define k where "k = nat (j - hi)"
    have k: "j = hi + int k" "k < length es" using False j by (auto simp: k_def)
    have "rget (rputs hi es s) j = es ! k"
      unfolding k(1) using assms(1-4) k(2) by (intro puts_read) simp_all
    then show ?thesis using assms(6) k by simp
  qed
qed

end

text \<open>Slots of the concrete arrays.\<close>

lemma mod_slot_eq: "0 < (n::int) \<Longrightarrow> \<bar>i - j\<bar> < n \<Longrightarrow> i mod n = j mod n \<longleftrightarrow> i = j"
proof
  assume "0 < n" "\<bar>i - j\<bar> < n" "i mod n = j mod n"
  then have "n dvd i - j" by (simp add: mod_eq_dvd_iff)
  then show "i = j" using \<open>\<bar>i - j\<bar> < n\<close> by (metis dvd_imp_le_int abs_of_pos \<open>0 < n\<close> eq_iff_diff_eq_0 not_le)
qed simp

section \<open>Operations that may fail\<close>

definition and_then :: "'e + 'a \<Rightarrow> ('a \<Rightarrow> 'e + 'b) \<Rightarrow> 'e + 'b" where
  "and_then r f = (case r of Inl e \<Rightarrow> Inl e | Inr a \<Rightarrow> f a)"

lemma and_then_simps [simp]:
  "and_then (Inl e) f = Inl e" "and_then (Inr a) f = f a"
  by (simp_all add: and_then_def)

lemma and_then_Inr: "and_then r f = Inr b \<longleftrightarrow> (\<exists>a. r = Inr a \<and> f a = Inr b)"
  by (cases r) simp_all

lemma and_then_Inl: "and_then r f = Inl e \<longleftrightarrow> r = Inl e \<or> (\<exists>a. r = Inr a \<and> f a = Inl e)"
  by (cases r) simp_all

end
