(* ===== verification/QString.thy ===== *)
theory QString
  imports Prelude
begin

text \<open>
  The character and string routines of src/src/qshared.c (first half).  A C string is the
  list of the characters before its terminating NUL; an array of \<open>char\<close> is the list of all
  its cells, and \<open>cstr\<close> reads the string it holds.  A \<open>char\<close> is signed on the target:
  \<open>sc\<close> is its value in an \<open>int\<close> expression, \<open>uc\<close> its value after a cast to \<open>byte\<close>.
  \<open>Com_Error\<close>, which does not return, is a value of \<open>qerr\<close>.
\<close>

section \<open>Characters\<close>

datatype qerr = ERR_FATAL | ERR_DROP

text \<open>
  An operation that stores to or reads from memory of its own can also leave an array; that
  is undefined in C and is the second value of the fault type.
\<close>

datatype fault = COM_ERROR qerr | OUT_OF_BOUNDS

abbreviation NUL :: char where "NUL \<equiv> CHR 0x00"
abbreviation DQUOTE :: char where "DQUOTE \<equiv> CHR 0x22"
abbreviation BSLASH :: char where "BSLASH \<equiv> CHR 0x5C"
abbreviation NEWLINE :: char where "NEWLINE \<equiv> CHR 0x0A"
abbreviation CRETURN :: char where "CRETURN \<equiv> CHR 0x0D"

definition uc :: "char \<Rightarrow> int" where
  "uc c = of_char c"

definition sc :: "char \<Rightarrow> int" where
  "sc c = s8 (uc c)"

definition chr0 :: "string \<Rightarrow> int" where
  "chr0 s = (case s of [] \<Rightarrow> 0 | c # _ \<Rightarrow> sc c)"

definition cstr :: "char list \<Rightarrow> string" where
  "cstr cells = takeWhile (\<lambda>c. c \<noteq> NUL) cells"

definition nul_free :: "string \<Rightarrow> bool" where
  "nul_free s \<longleftrightarrow> NUL \<notin> set s"

definition ShortSwap :: "int \<Rightarrow> int" where
  "ShortSwap l =
     (let b1 = l AND 255; b2 = drop_bit 8 l AND 255 in s16 (push_bit 8 b1 + b2))"

definition LongSwap :: "int \<Rightarrow> int" where
  "LongSwap l =
     (let b1 = l AND 255; b2 = drop_bit 8 l AND 255;
          b3 = drop_bit 16 l AND 255; b4 = drop_bit 24 l AND 255
      in s32 (push_bit 24 b1 + push_bit 16 b2 + push_bit 8 b3 + b4))"

definition Q_isprint :: "int \<Rightarrow> bool" where
  "Q_isprint c \<longleftrightarrow> 0x20 \<le> c \<and> c \<le> 0x7E"

definition Q_islower :: "int \<Rightarrow> bool" where
  "Q_islower c \<longleftrightarrow> 97 \<le> c \<and> c \<le> 122"

definition Q_isupper :: "int \<Rightarrow> bool" where
  "Q_isupper c \<longleftrightarrow> 65 \<le> c \<and> c \<le> 90"

definition Q_isalpha :: "int \<Rightarrow> bool" where
  "Q_isalpha c \<longleftrightarrow> (97 \<le> c \<and> c \<le> 122) \<or> (65 \<le> c \<and> c \<le> 90)"

fun Q_isprintstring :: "string \<Rightarrow> bool" where
  "Q_isprintstring [] = True"
| "Q_isprintstring (a # as) =
     (if sc a < 0x20 \<or> sc a > 0x7E then False else Q_isprintstring as)"

section \<open>Comparison\<close>

definition fold_up :: "int \<Rightarrow> int" where
  "fold_up c = (if 97 \<le> c \<and> c \<le> 122 then c - 32 else c)"

function stricmpn_loop :: "string \<Rightarrow> string \<Rightarrow> int \<Rightarrow> int" where
  "stricmpn_loop s1 s2 n =
     (let c1 = chr0 s1; c2 = chr0 s2 in
      if n = 0 then 0
      else if c1 \<noteq> c2 \<and> fold_up c1 \<noteq> fold_up c2
        then (if fold_up c1 < fold_up c2 then -1 else 1)
      else if s1 = [] \<or> c1 = 0 then 0
      else stricmpn_loop (tl s1) (tl s2) (n - 1))"
  by pat_completeness auto
termination
  by (relation "measure (\<lambda>(s1, s2, n). length s1)") auto

declare stricmpn_loop.simps [simp del]

definition Q_stricmpn :: "string option \<Rightarrow> string option \<Rightarrow> int \<Rightarrow> int" where
  "Q_stricmpn p1 p2 n =
     (case p1 of
        None \<Rightarrow> (case p2 of None \<Rightarrow> 0 | Some _ \<Rightarrow> -1)
      | Some s1 \<Rightarrow> (case p2 of None \<Rightarrow> 1 | Some s2 \<Rightarrow> stricmpn_loop s1 s2 n))"

function Q_strncmp :: "string \<Rightarrow> string \<Rightarrow> int \<Rightarrow> int" where
  "Q_strncmp s1 s2 n =
     (let c1 = chr0 s1; c2 = chr0 s2 in
      if n = 0 then 0
      else if c1 \<noteq> c2 then (if c1 < c2 then -1 else 1)
      else if s1 = [] \<or> c1 = 0 then 0
      else Q_strncmp (tl s1) (tl s2) (n - 1))"
  by pat_completeness auto
termination
  by (relation "measure (\<lambda>(s1, s2, n). length s1)") auto

declare Q_strncmp.simps [simp del]

definition Q_stricmp :: "string option \<Rightarrow> string option \<Rightarrow> int" where
  "Q_stricmp p1 p2 =
     (case (p1, p2) of (Some _, Some _) \<Rightarrow> Q_stricmpn p1 p2 99999 | _ \<Rightarrow> -1)"

abbreviation same_name :: "string \<Rightarrow> string \<Rightarrow> bool" where
  "same_name a b \<equiv> Q_stricmp (Some a) (Some b) = 0"

section \<open>Case conversion and copying\<close>

definition tolower_c :: "char \<Rightarrow> char" where
  "tolower_c c = (if Q_isupper (uc c) then char_of (uc c + 32) else c)"

definition toupper_c :: "char \<Rightarrow> char" where
  "toupper_c c = (if Q_islower (uc c) then char_of (uc c - 32) else c)"

fun Q_strlwr :: "string \<Rightarrow> string" where
  "Q_strlwr [] = []"
| "Q_strlwr (c # cs) = tolower_c c # Q_strlwr cs"

fun Q_strupr :: "string \<Rightarrow> string" where
  "Q_strupr [] = []"
| "Q_strupr (c # cs) = toupper_c c # Q_strupr cs"

text \<open>
  \<open>strncpy\<close> fills exactly \<open>n\<close> cells: the source's characters, then NULs.
  \<open>Q_strncpyz dest off src destsize\<close> is the C call with destination pointer
  \<open>dest + off\<close>.
\<close>

definition strncpy_cells :: "string \<Rightarrow> nat \<Rightarrow> char list" where
  "strncpy_cells src n = take n (src @ replicate n NUL)"

definition Q_strncpyz :: "char list \<Rightarrow> nat \<Rightarrow> string \<Rightarrow> int \<Rightarrow> qerr + char list" where
  "Q_strncpyz dest off src destsize =
     (if destsize < 1 then Inl ERR_FATAL
      else Inr (blit off (strncpy_cells src (nat (destsize - 1)) @ [NUL]) dest))"

definition Q_bstrcpy :: "char list \<Rightarrow> nat \<Rightarrow> string \<Rightarrow> char list" where
  "Q_bstrcpy dest off src = blit off (src @ [NUL]) dest"

definition Q_strcat :: "char list \<Rightarrow> int \<Rightarrow> string \<Rightarrow> qerr + char list" where
  "Q_strcat dest destsize src =
     (let l1 = length (cstr dest) in
      if destsize \<le> int l1 then Inl ERR_FATAL
      else Q_strncpyz dest l1 src (destsize - int l1))"

text \<open>
  \<open>Q_strlcat\<close> copies with \<open>memcpy\<close>, which does not stop at the source's NUL.  The source
  is therefore the list of the cells from the pointer to the end of its object, and a copy
  that runs past them is \<open>None\<close>.  \<open>destsize\<close> is unsigned and so are both comparisons.
\<close>

definition Q_strlcat :: "char list \<Rightarrow> int \<Rightarrow> char list \<Rightarrow> int \<Rightarrow> char list option" where
  "Q_strlcat dest destsize src cpylimit =
     (let l1 = int (length (cstr dest)) in
      if u32 destsize \<le> u32 l1 then Some dest
      else let n = (if u32 (destsize - l1) \<le> u32 cpylimit \<or> cpylimit < 0
                    then destsize - l1 - 1 else cpylimit)
           in if int (length src) < n then None
              else Some (blit (nat l1) (take (nat n) src @ [NUL]) dest))"

section \<open>Searching and measuring\<close>

definition Q_IsColorString :: "string \<Rightarrow> bool" where
  "Q_IsColorString p =
     (case p of c # d # _ \<Rightarrow> c = CHR ''^'' \<and> d \<noteq> NUL \<and> d \<noteq> CHR ''^'' | _ \<Rightarrow> False)"

definition up_c :: "char \<Rightarrow> char" where
  "up_c c = (if 97 \<le> sc c \<and> sc c \<le> 122 then char_of (uc c - 32) else c)"

fun stristr_from :: "string \<Rightarrow> char \<Rightarrow> string \<Rightarrow> string option" where
  "stristr_from [] c pat = None"
| "stristr_from (x # s) c pat =
     (if up_c x = c \<and> Q_stricmpn (Some s) (Some pat) (int (length pat)) = 0
      then Some (x # s) else stristr_from s c pat)"

definition Q_stristr :: "string \<Rightarrow> string \<Rightarrow> string option" where
  "Q_stristr s pat =
     (case pat of [] \<Rightarrow> Some s | c # rest \<Rightarrow> stristr_from s (up_c c) rest)"

fun strichr_from :: "string \<Rightarrow> char \<Rightarrow> int \<Rightarrow> int" where
  "strichr_from [] pat i = -1"
| "strichr_from (x # s) pat i =
     (if up_c x = pat then i else strichr_from s pat (i + 1))"

definition Q_strichr :: "string \<Rightarrow> char \<Rightarrow> int" where
  "Q_strichr s pat = strichr_from s (up_c pat) 0"

fun Q_PrintStrlen_from :: "string \<Rightarrow> int" where
  "Q_PrintStrlen_from [] = 0"
| "Q_PrintStrlen_from [c] = 1"
| "Q_PrintStrlen_from (c # d # s) =
     (if Q_IsColorString (c # d # s) then Q_PrintStrlen_from s
      else 1 + Q_PrintStrlen_from (d # s))"

definition Q_PrintStrlen :: "string option \<Rightarrow> int" where
  "Q_PrintStrlen p = (case p of None \<Rightarrow> 0 | Some s \<Rightarrow> Q_PrintStrlen_from s)"

fun Q_CleanStr :: "string \<Rightarrow> string" where
  "Q_CleanStr [] = []"
| "Q_CleanStr [c] = (if 0x20 \<le> uc c then [c] else [])"
| "Q_CleanStr (c # d # s) =
     (if Q_IsColorString (c # d # s) then Q_CleanStr s
      else if 0x20 \<le> uc c then c # Q_CleanStr (d # s)
      else Q_CleanStr (d # s))"

fun Q_CountChar :: "string \<Rightarrow> char \<Rightarrow> int" where
  "Q_CountChar [] tocount = 0"
| "Q_CountChar (c # s) tocount = (if c = tocount then 1 else 0) + Q_CountChar s tocount"

fun Q_strchrrepl :: "string \<Rightarrow> char \<Rightarrow> char \<Rightarrow> string" where
  "Q_strchrrepl [] torepl repl = []"
| "Q_strchrrepl (c # s) torepl repl =
     (if c = torepl then repl else c) # Q_strchrrepl s torepl repl"

definition TRUNCATE_LENGTH :: int where
  "TRUNCATE_LENGTH = 64"

definition Com_TruncateLongString :: "char list \<Rightarrow> string \<Rightarrow> qerr + char list" where
  "Com_TruncateLongString buffer s =
     (let len = int (length s) in
      if len \<le> TRUNCATE_LENGTH then Q_strncpyz buffer 0 s TRUNCATE_LENGTH
      else case Q_strncpyz buffer 0 s (TRUNCATE_LENGTH div 2 - 3) of
             Inl e \<Rightarrow> Inl e
           | Inr b1 \<Rightarrow>
             (case Q_strcat b1 TRUNCATE_LENGTH '' ... '' of
                Inl e \<Rightarrow> Inl e
              | Inr b2 \<Rightarrow> Q_strcat b2 TRUNCATE_LENGTH
                           (drop (nat (len - TRUNCATE_LENGTH div 2 + 3)) s)))"

section \<open>Characters: signed and unsigned values\<close>

lemma uc_range: "0 \<le> uc c \<and> uc c < 256"
proof -
  have "(of_char c :: int) = of_char c mod 256" by simp
  then show ?thesis unfolding uc_def by (metis Euclidean_Rings.pos_mod_bound Euclidean_Rings.pos_mod_sign zero_less_numeral)
qed

lemma s8_alt: "0 \<le> x \<Longrightarrow> x < 256 \<Longrightarrow> s8 x = (if x < 128 then x else x - 256)"
proof -
  assume x: "0 \<le> x" "x < 256"
  have "s8 x = (x + 128) mod 256 - 128"
    by (simp add: s8_def signed_take_bit_eq_take_bit_shift take_bit_eq_mod)
  also have "(x + 128) mod 256 = (if x < 128 then x + 128 else x - 128)"
    using x mod_pos_pos_trivial [of "x + 128" 256] mod_pos_pos_trivial [of "x - 128" 256]
      mod_add_self2 [of "x - 128" 256] by (auto simp: add.commute)
  finally show ?thesis by simp
qed

lemma sc_alt: "sc c = (if uc c < 128 then uc c else uc c - 256)"
  using uc_range [of c] by (simp add: sc_def s8_alt)

lemma uc_inj [simp]: "uc c = uc d \<longleftrightarrow> c = d"
  by (simp add: uc_def)

lemma sc_inj [simp]: "sc c = sc d \<longleftrightarrow> c = d"
  using uc_range [of c] uc_range [of d] uc_inj [of c d] by (auto simp: sc_alt split: if_splits)

lemma char_of_uc [simp]: "char_of (uc c) = c"
  by (simp add: uc_def)

lemma uc_NUL [simp]: "uc NUL = 0"
  by (simp add: uc_def)

lemma sc_zero [simp]: "sc c = 0 \<longleftrightarrow> c = NUL"
  using sc_inj [of c NUL] by (simp add: sc_alt)

lemma sc_NUL [simp]: "sc NUL = 0"
  by simp

lemma chr0_simps [simp]: "chr0 [] = 0" "chr0 (c # s) = sc c"
  by (simp_all add: chr0_def)

section \<open>Strings in arrays\<close>

lemma nul_free_simps [simp]:
  "nul_free []" "nul_free (c # s) \<longleftrightarrow> c \<noteq> NUL \<and> nul_free s"
  "nul_free (s @ t) \<longleftrightarrow> nul_free s \<and> nul_free t"
  by (auto simp: nul_free_def)

lemma nul_free_take [intro]: "nul_free s \<Longrightarrow> nul_free (take n s)"
  by (auto simp: nul_free_def dest: in_set_takeD)

lemma nul_free_drop [intro]: "nul_free s \<Longrightarrow> nul_free (drop n s)"
  by (auto simp: nul_free_def dest: in_set_dropD)

lemma nul_free_cstr [simp]: "nul_free (cstr cells)"
  by (auto simp: nul_free_def cstr_def dest: set_takeWhileD)

lemma cstr_string: "nul_free s \<Longrightarrow> cstr (s @ NUL # rest) = s"
  by (auto simp: cstr_def nul_free_def takeWhile_tail takeWhile_eq_all_conv)

lemma length_cstr: "length (cstr cells) \<le> length cells"
  by (simp add: cstr_def length_takeWhile_le)

lemma cstr_take: "take (length (cstr cells)) cells = cstr cells"
  by (metis cstr_def takeWhile_eq_take)

lemma strncpy_cells_split:
  "strncpy_cells s n = take n s @ replicate (n - length s) NUL"
  by (simp add: strncpy_cells_def)

lemma length_strncpy_cells [simp]: "length (strncpy_cells s n) = n"
  by (simp add: strncpy_cells_split)

lemma strncpy_cells_cstr:
  "nul_free s \<Longrightarrow> cstr (strncpy_cells s n @ NUL # rest) = take n s"
proof (cases "n \<le> length s")
  case True
  moreover assume "nul_free s"
  ultimately show ?thesis by (simp add: strncpy_cells_split cstr_string nul_free_take)
next
  case False
  moreover assume "nul_free s"
  moreover obtain k where "n - length s = Suc k" using False by (cases "n - length s") auto
  ultimately show ?thesis by (simp add: strncpy_cells_split cstr_string)
qed

lemma Q_strncpyz_ok:
  "1 \<le> destsize \<Longrightarrow> off + nat destsize \<le> length dest \<Longrightarrow>
   Q_strncpyz dest off src destsize =
     Inr (take off dest @ (strncpy_cells src (nat (destsize - 1)) @ [NUL])
          @ drop (off + nat destsize) dest)"
  by (simp add: Q_strncpyz_def blit_eq nat_diff_distrib)

lemma Q_strcat_ok:
  assumes "int (length (cstr dest)) < destsize" "nat destsize \<le> length dest" "nul_free src"
  shows "\<exists>d. Q_strcat dest destsize src = Inr d \<and> length d = length dest
     \<and> cstr d = take (nat (destsize - 1)) (cstr dest @ src)
     \<and> drop (nat destsize) d = drop (nat destsize) dest"
proof -
  define l where "l = length (cstr dest)"
  define k where "k = nat (destsize - int l - 1)"
  have sz: "nat destsize = l + k + 1" "nat (destsize - int l) = k + 1"
      "nat (destsize - 1) = l + k" "nat (destsize - (1 + int l)) = k"
    using assms(1) by (simp_all add: l_def k_def)
  have len: "l + k + 1 \<le> length dest" using assms(2) sz by simp
  let ?d = "cstr dest @ (strncpy_cells src k @ [NUL]) @ drop (l + k + 1) dest"
  have "Q_strcat dest destsize src = Inr ?d"
    using assms(1) len cstr_take [of dest] Q_strncpyz_ok [of "destsize - int l" l dest src]
    by (simp add: Q_strcat_def Let_def l_def [symmetric] sz k_def [symmetric] algebra_simps)
  moreover have "length ?d = length dest"
    using len by (simp add: l_def [symmetric])
  moreover have "cstr ?d = take (l + k) (cstr dest @ src)"
  proof -
    have "cstr ?d = cstr dest @ cstr (strncpy_cells src k @ NUL # drop (l + k + 1) dest)"
      using nul_free_cstr [of dest]
      by (simp add: cstr_def nul_free_def takeWhile_append)
    then show ?thesis
      using assms(3) by (simp add: strncpy_cells_cstr l_def)
  qed
  moreover have "drop (nat destsize) ?d = drop (nat destsize) dest"
    by (simp add: sz l_def [symmetric])
  ultimately show ?thesis by (metis sz(3))
qed

section \<open>Case-insensitive comparison\<close>

definition folded :: "string \<Rightarrow> int list" where
  "folded s = map (\<lambda>c. fold_up (sc c)) s"

lemma fold_up_zero [simp]: "fold_up c = 0 \<longleftrightarrow> c = 0"
  by (auto simp: fold_up_def)

lemma stricmpn_loop_cases [simp]:
  "stricmpn_loop [] [] n = 0"
  "stricmpn_loop [] (d # t) n =
     (if n = 0 \<or> d = NUL then 0 else if 0 < fold_up (sc d) then -1 else 1)"
  "stricmpn_loop (c # s) [] n =
     (if n = 0 \<or> c = NUL then 0 else if fold_up (sc c) < 0 then -1 else 1)"
  "stricmpn_loop (c # s) (d # t) n =
     (if n = 0 then 0
      else if fold_up (sc c) \<noteq> fold_up (sc d)
        then (if fold_up (sc c) < fold_up (sc d) then -1 else 1)
      else if c = NUL then 0 else stricmpn_loop s t (n - 1))"
     apply (subst stricmpn_loop.simps, simp)
    apply (subst stricmpn_loop.simps, auto simp: Let_def fold_up_def)[1]
   apply (subst stricmpn_loop.simps, auto simp: Let_def fold_up_def)[1]
  apply (subst stricmpn_loop.simps, auto simp: Let_def)
  done

lemma fold_up_0 [simp]: "fold_up 0 = 0"
  by (simp add: fold_up_def)

lemma stricmpn_loop_zero_iff:
  "nul_free s \<Longrightarrow> nul_free t \<Longrightarrow>
   stricmpn_loop s t (int n) = 0 \<longleftrightarrow> take n (folded s) = take n (folded t)"
proof (induction n arbitrary: s t)
  case 0
  then show ?case by (cases s; cases t) simp_all
next
  case (Suc n)
  then show ?case by (cases s; cases t) (auto simp: folded_def)
qed

lemma Q_stricmp_zero_iff:
  assumes "nul_free s" "nul_free t" "length s < 99999" "length t < 99999"
  shows "Q_stricmp (Some s) (Some t) = 0 \<longleftrightarrow> folded s = folded t"
  using assms stricmpn_loop_zero_iff [of s t 99999]
  by (simp add: Q_stricmp_def Q_stricmpn_def folded_def)

lemma fold_up_pos_neg: "d \<noteq> 0 \<Longrightarrow> \<not> 0 < fold_up d \<Longrightarrow> fold_up d < 0"
  by (auto simp: fold_up_def split: if_splits)

lemma stricmpn_loop_antisym: "stricmpn_loop s t n = - stricmpn_loop t s n"
proof (induction s arbitrary: t n)
  case Nil
  then show ?case by (cases t) (auto dest: fold_up_pos_neg)
next
  case (Cons c s)
  then show ?case by (cases t) (auto dest: fold_up_pos_neg)
qed

lemma Q_stricmp_refl [simp]: "Q_stricmp (Some s) (Some s) = 0"
proof -
  have "stricmpn_loop s s n = - stricmpn_loop s s n" for n by (rule stricmpn_loop_antisym)
  then have "stricmpn_loop s s n = 0" for n by (metis neg_equal_zero)
  then show ?thesis by (simp add: Q_stricmp_def Q_stricmpn_def)
qed

section \<open>Decimal numbers\<close>

text \<open>
  The C library's \<open>isspace\<close>, \<open>atoi\<close> (as the target's 32-bit \<open>strtol\<close>, which saturates) and
  the conversion \<open>%i\<close> of \<open>printf\<close>.
\<close>

definition isspace_c :: "char \<Rightarrow> bool" where
  "isspace_c c \<longleftrightarrow> uc c = 32 \<or> (9 \<le> uc c \<and> uc c \<le> 13)"

fun digits_value :: "string \<Rightarrow> int \<Rightarrow> int" where
  "digits_value [] acc = acc"
| "digits_value (c # s) acc =
     (if 48 \<le> uc c \<and> uc c \<le> 57 then digits_value s (10 * acc + (uc c - 48)) else acc)"

definition saturate32 :: "int \<Rightarrow> int" where
  "saturate32 x = max (- (2 ^ 31)) (min (2 ^ 31 - 1) x)"

definition atoi :: "string \<Rightarrow> int" where
  "atoi s =
     (case dropWhile isspace_c s of
        [] \<Rightarrow> 0
      | c # t \<Rightarrow> saturate32 (if c = CHR ''-'' then - digits_value t 0
                            else if c = CHR ''+'' then digits_value t 0
                            else digits_value (c # t) 0))"

definition digit :: "nat \<Rightarrow> char" where
  "digit d = char_of (48 + int d)"

fun nat_dec :: "nat \<Rightarrow> string" where
  "nat_dec n = (if n < 10 then [digit n] else nat_dec (n div 10) @ [digit (n mod 10)])"

declare nat_dec.simps [simp del]

definition int_dec :: "int \<Rightarrow> string" where
  "int_dec i = (if i < 0 then CHR ''-'' # nat_dec (nat (- i)) else nat_dec (nat i))"

lemma uc_digit: "d < 10 \<Longrightarrow> uc (digit d) = 48 + int d"
  by (simp add: uc_def digit_def)

lemma digits_value_append:
  "\<forall>c \<in> set s. 48 \<le> uc c \<and> uc c \<le> 57 \<Longrightarrow>
   digits_value (s @ t) acc = digits_value t (digits_value s acc)"
  by (induction s arbitrary: acc) simp_all

lemma nat_dec_digits: "c \<in> set (nat_dec n) \<Longrightarrow> 48 \<le> uc c \<and> uc c \<le> 57"
proof (induction n rule: nat_dec.induct)
  case (1 n)
  show ?case
  proof (cases "n < 10")
    case True
    then show ?thesis using 1 uc_digit [of n] by (simp add: nat_dec.simps [of n])
  next
    case False
    then show ?thesis
      using 1 uc_digit [of "n mod 10"] by (auto simp: nat_dec.simps [of n])
  qed
qed

lemma digits_value_nat_dec: "digits_value (nat_dec n) 0 = int n"
proof (induction n rule: nat_dec.induct)
  case (1 n)
  show ?case
  proof (cases "n < 10")
    case True
    then show ?thesis using uc_digit [of n] by (simp add: nat_dec.simps [of n])
  next
    case False
    have "digits_value (nat_dec n) 0 = 10 * int (n div 10) + int (n mod 10)"
      using False 1 uc_digit [of "n mod 10"] nat_dec_digits
      by (simp add: nat_dec.simps [of n] digits_value_append)
    then show ?thesis by (simp add: zdiv_int zmod_int)
  qed
qed

lemma nat_dec_nonempty: "\<exists>c s. nat_dec n = c # s"
  by (cases "nat_dec n") (auto simp: nat_dec.simps [of n] split: if_splits)

lemma atoi_int_dec:
  assumes "int_range i"
  shows "atoi (int_dec i) = i"
proof -
  have sat: "saturate32 i = i" using assms by (simp add: saturate32_def int_range_def)
  show ?thesis
  proof (cases "i < 0")
    case True
    then show ?thesis
      using sat digits_value_nat_dec [of "nat (- i)"]
      by (simp add: atoi_def int_dec_def isspace_c_def uc_def)
  next
    case False
    obtain c s where cs: "nat_dec (nat i) = c # s" using nat_dec_nonempty by blast
    then have c: "48 \<le> uc c \<and> uc c \<le> 57" using nat_dec_digits [of c "nat i"] by simp
    then have "c \<noteq> CHR ''-''" "c \<noteq> CHR ''+''" by (auto simp: uc_def)
    then show ?thesis
      using False sat c cs digits_value_nat_dec [of "nat i"]
      by (simp add: atoi_def int_dec_def isspace_c_def)
  qed
qed

lemma int_dec_chars: "c \<in> set (int_dec i) \<Longrightarrow> c = CHR ''-'' \<or> (48 \<le> uc c \<and> uc c \<le> 57)"
  using nat_dec_digits by (auto simp: int_dec_def split: if_splits)

end
