(* ===== verification/QInfo.thy ===== *)
theory QInfo
  imports QString
begin

text \<open>
  Info strings of src/src/qshared.c: key/value pairs written \<open>\key\value\key\value\<close>.
  The operations work on the string; a copy into one of the fixed local arrays
  (\<open>pkey\<close>, \<open>value\<close>, \<open>newi\<close>) that would run past its end is \<open>None\<close>.  The second half of
  the theory gives the abstract view (an association list) and shows that the operations
  implement it.
\<close>

section \<open>The operations\<close>

definition MAX_INFO_STRING :: nat where "MAX_INFO_STRING = 1024"
definition BIG_INFO_STRING :: nat where "BIG_INFO_STRING = 8192"

definition Info_Validate :: "string \<Rightarrow> bool" where
  "Info_Validate s =
     (if DQUOTE \<in> set s then False else if CHR '';'' \<in> set s then False else True)"

definition upto_bslash :: "string \<Rightarrow> string" where
  "upto_bslash s = takeWhile (\<lambda>c. c \<noteq> BSLASH) s"

definition from_bslash :: "string \<Rightarrow> string" where
  "from_bslash s = dropWhile (\<lambda>c. c \<noteq> BSLASH) s"

definition skip_bslash :: "string \<Rightarrow> string" where
  "skip_bslash s = (case s of c # r \<Rightarrow> (if c = BSLASH then r else s) | [] \<Rightarrow> [])"

definition lead_bslash :: "string \<Rightarrow> string" where
  "lead_bslash s = (case s of c # r \<Rightarrow> (if c = BSLASH then [BSLASH] else []) | [] \<Rightarrow> [])"

lemma from_bslash_length: "length (from_bslash s) \<le> length s"
  by (simp add: from_bslash_def length_dropWhile_le)

lemma skip_bslash_length: "length (skip_bslash s) \<le> length s"
  by (auto simp: skip_bslash_def split: list.splits)

lemma info_step_shrinks:
  "from_bslash (skip_bslash s) \<noteq> [] \<Longrightarrow>
   length (from_bslash (tl (from_bslash (skip_bslash s)))) < length s"
  using from_bslash_length [of "tl (from_bslash (skip_bslash s))"]
    from_bslash_length [of "skip_bslash s"] skip_bslash_length [of s]
  by (cases "from_bslash (skip_bslash s)") auto

text \<open>
  One turn of the \<open>while (1)\<close> loop of \<open>Info_RemoveKey\<close>: the result is what the string is
  from \<open>start\<close> on once the loop has returned.
\<close>

function remove_from :: "nat \<Rightarrow> string \<Rightarrow> string \<Rightarrow> string option" where
  "remove_from lim key start =
     (let s0 = skip_bslash start; pkey = upto_bslash s0; r1 = from_bslash s0 in
      if r1 = [] then (if lim < length pkey then None else Some start)
      else if lim \<le> length pkey then None
      else let value = upto_bslash (tl r1); s = from_bslash (tl r1) in
        if lim \<le> length value then None
        else if key = pkey then Some s
        else if s = [] then Some start
        else map_option (\<lambda>rest. lead_bslash start @ pkey @ [BSLASH] @ value @ rest)
               (remove_from lim key s))"
  by pat_completeness auto
termination
  by (relation "measure (\<lambda>(lim, key, s). length s)") (auto simp: info_step_shrinks)

declare remove_from.simps [simp del]

definition Info_RemoveKey :: "string \<Rightarrow> string \<Rightarrow> string option" where
  "Info_RemoveKey s key =
     (if BSLASH \<in> set key then Some s else remove_from 1024 key s)"

definition BigInfo_RemoveKey :: "string \<Rightarrow> string \<Rightarrow> string option" where
  "BigInfo_RemoveKey s key =
     (if BSLASH \<in> set key then Some s else remove_from 8192 key s)"

lemma value_step_shrinks:
  "from_bslash s \<noteq> [] \<Longrightarrow> from_bslash (tl (from_bslash s)) \<noteq> [] \<Longrightarrow>
   length (from_bslash (tl (from_bslash s))) - Suc 0 < length s"
  using from_bslash_length [of "tl (from_bslash s)"] from_bslash_length [of s]
  by (cases "from_bslash s") auto

function value_from :: "nat \<Rightarrow> string \<Rightarrow> string \<Rightarrow> string option" where
  "value_from lim key s =
     (let pkey = upto_bslash s; r1 = from_bslash s in
      if r1 = [] then (if lim < length pkey then None else Some [])
      else if lim \<le> length pkey then None
      else let value = upto_bslash (tl r1); s' = from_bslash (tl r1) in
        if lim \<le> length value then None
        else if Q_stricmp (Some key) (Some pkey) = 0 then Some value
        else if s' = [] then Some []
        else value_from lim key (tl s'))"
  by pat_completeness auto
termination
  by (relation "measure (\<lambda>(lim, key, s). length s)") (auto simp: value_step_shrinks)

declare value_from.simps [simp del]

definition Info_ValueForKey :: "string option \<Rightarrow> string option \<Rightarrow> string option" where
  "Info_ValueForKey p q =
     (case (p, q) of
        (Some s, Some key) \<Rightarrow> value_from 8192 key (skip_bslash s)
      | _ \<Rightarrow> Some [])"

text \<open>
  \<open>Com_sprintf (newi, sizeof(newi), ...)\<close> keeps at most \<open>sizeof(newi) - 1\<close> characters.
\<close>

definition sprintf_pair :: "nat \<Rightarrow> string \<Rightarrow> string \<Rightarrow> string" where
  "sprintf_pair cap key value = take (cap - 1) (BSLASH # key @ BSLASH # value)"

definition Info_SetValueForKey :: "string \<Rightarrow> string \<Rightarrow> string \<Rightarrow> string option" where
  "Info_SetValueForKey s key value =
     (if BSLASH \<in> set key then Some s
      else if BSLASH \<in> set value then Some s
      else if CHR '';'' \<in> set key then Some s
      else if CHR '';'' \<in> set value then Some s
      else if DQUOTE \<in> set key then Some s
      else if DQUOTE \<in> set value then Some s
      else case Info_RemoveKey s key of
        None \<Rightarrow> None
      | Some s1 \<Rightarrow>
          if value = [] then Some s1
          else let newi = sprintf_pair MAX_INFO_STRING key value in
            if MAX_INFO_STRING < length newi + length s1 then Some s1
            else if MAX_INFO_STRING \<le> length newi + length s1 then None
            else Some (newi @ s1))"

definition BigInfo_SetValueForKey ::
  "string option \<Rightarrow> string option \<Rightarrow> string option \<Rightarrow> string option" where
  "BigInfo_SetValueForKey p q r =
     (case (p, q, r) of
        (Some s, Some key, Some value) \<Rightarrow>
          if BIG_INFO_STRING \<le> length s then Some s
          else if BSLASH \<in> set key \<or> BSLASH \<in> set value then Some s
          else if CHR '';'' \<in> set key \<or> CHR '';'' \<in> set value then Some s
          else if DQUOTE \<in> set key \<or> DQUOTE \<in> set value then Some s
          else (case BigInfo_RemoveKey s key of
            None \<Rightarrow> None
          | Some s1 \<Rightarrow>
              if value = [] then Some s1
              else let newi = sprintf_pair BIG_INFO_STRING key value in
                if BIG_INFO_STRING < length newi + length s1 then Some s1
                else if BIG_INFO_STRING \<le> length newi + length s1 then None
                else Some (newi @ s1))
      | _ \<Rightarrow> p)"

text \<open>
  The strict comparison in both functions lets a total of exactly \<open>sizeof(newi)\<close>
  characters through, and \<open>strcat\<close> then writes the terminating NUL one cell past the
  array: the \<open>None\<close> branch after it.
\<close>

text \<open>What \<open>Info_Print\<close> prints: one line per pair, the key padded to 20 columns.\<close>

function print_from :: "string \<Rightarrow> string list" where
  "print_from s =
     (if s = [] then []
      else let key = upto_bslash s; r1 = from_bslash s;
               shown = (if length key < 20 then key @ replicate (20 - length key) CHR '' ''
                        else key) @ '' '' in
        if r1 = [] then [shown @ ''MISSING VALUE'' @ [NEWLINE]]
        else let value = upto_bslash (tl r1); s' = from_bslash (tl r1) in
          (shown @ value @ [NEWLINE]) # print_from (if s' = [] then [] else tl s'))"
  by pat_completeness auto
termination
  by (relation "measure length") (auto simp: value_step_shrinks)

declare print_from.simps [simp del]

definition Info_Print :: "string \<Rightarrow> string list" where
  "Info_Print s = print_from (skip_bslash s)"

section \<open>Association lists behind info strings\<close>

type_synonym pairs = "(string \<times> string) list"

definition info_string :: "pairs \<Rightarrow> string" where
  "info_string ps = concat (map (\<lambda>(k, v). BSLASH # k @ BSLASH # v) ps)"

definition word_ok :: "string \<Rightarrow> bool" where
  "word_ok w \<longleftrightarrow> BSLASH \<notin> set w \<and> nul_free w"

definition pairs_ok :: "pairs \<Rightarrow> bool" where
  "pairs_ok ps \<longleftrightarrow> (\<forall>(k, v) \<in> set ps. word_ok k \<and> word_ok v)"

fun del_first :: "string \<Rightarrow> pairs \<Rightarrow> pairs" where
  "del_first key [] = []"
| "del_first key ((k, v) # ps) = (if key = k then ps else (k, v) # del_first key ps)"

fun find_ci :: "string \<Rightarrow> pairs \<Rightarrow> string" where
  "find_ci key [] = []"
| "find_ci key ((k, v) # ps) =
     (if Q_stricmp (Some key) (Some k) = 0 then v else find_ci key ps)"

lemma info_string_simps [simp]:
  "info_string [] = []"
  "info_string ((k, v) # ps) = BSLASH # k @ BSLASH # v @ info_string ps"
  by (simp_all add: info_string_def)

lemma pairs_ok_simps [simp]:
  "pairs_ok []"
  "pairs_ok ((k, v) # ps) \<longleftrightarrow> word_ok k \<and> word_ok v \<and> pairs_ok ps"
  by (auto simp: pairs_ok_def)

lemma info_string_head: "info_string ps = [] \<or> (\<exists>r. info_string ps = BSLASH # r)"
  by (cases ps) auto

lemma split_at_bslash:
  "BSLASH \<notin> set w \<Longrightarrow> upto_bslash (w @ BSLASH # r) = w"
  "BSLASH \<notin> set w \<Longrightarrow> from_bslash (w @ BSLASH # r) = BSLASH # r"
  "BSLASH \<notin> set w \<Longrightarrow> upto_bslash w = w"
  "BSLASH \<notin> set w \<Longrightarrow> from_bslash w = []"
  by (auto simp: upto_bslash_def from_bslash_def takeWhile_tail dropWhile_append
      takeWhile_eq_all_conv)

lemma split_before_info:
  assumes "BSLASH \<notin> set w"
  shows "upto_bslash (w @ info_string ps) = w"
    and "from_bslash (w @ info_string ps) = info_string ps"
  using info_string_head [of ps] split_at_bslash [OF assms] by auto

lemma skip_bslash_simps [simp]:
  "skip_bslash (BSLASH # r) = r" "lead_bslash (BSLASH # r) = [BSLASH]"
  by (simp_all add: skip_bslash_def lead_bslash_def)

lemma remove_from_info:
  assumes "pairs_ok ps" "length (info_string ps) < lim"
  shows "remove_from lim key (info_string ps) = Some (info_string (del_first key ps))"
  using assms
proof (induction ps)
  case Nil
  then show ?case
    by (simp add: remove_from.simps skip_bslash_def upto_bslash_def from_bslash_def)
next
  case (Cons p ps)
  obtain k v where p: "p = (k, v)" by (cases p)
  have ok: "BSLASH \<notin> set k" "BSLASH \<notin> set v" "pairs_ok ps"
    using Cons.prems p by (auto simp: word_ok_def)
  have IH: "remove_from lim key (info_string ps) = Some (info_string (del_first key ps))"
    using Cons p by simp
  have "info_string (del_first key ps) = []" if "info_string ps = []"
    using that by (cases ps) auto
  then show ?case
    using Cons.prems(2) p ok IH
    by (simp add: remove_from.simps [of lim key "BSLASH # _"] Let_def split_at_bslash
        split_before_info)
qed

lemma value_from_info:
  assumes "pairs_ok ps" "length (info_string ps) < lim"
  shows "value_from lim key (skip_bslash (info_string ps)) = Some (find_ci key ps)"
  using assms
proof (induction ps)
  case Nil
  then show ?case
    by (simp add: value_from.simps skip_bslash_def upto_bslash_def from_bslash_def)
next
  case (Cons p ps)
  obtain k v where p: "p = (k, v)" by (cases p)
  have ok: "BSLASH \<notin> set k" "BSLASH \<notin> set v" "pairs_ok ps"
    using Cons.prems p by (auto simp: word_ok_def)
  have IH: "value_from lim key (skip_bslash (info_string ps)) = Some (find_ci key ps)"
    using Cons p by simp
  show ?case
  proof (cases ps)
    case Nil
    then show ?thesis
      using Cons.prems(2) p ok
      by (simp add: value_from.simps [of lim key "k @ _"] Let_def split_at_bslash)
  next
    case (Cons q qs)
    then obtain r where r: "info_string ps = BSLASH # r" by (cases q) simp
    then show ?thesis
      using Cons.prems(2) p ok IH
      by (simp add: value_from.simps [of lim key "k @ _"] Let_def split_at_bslash)
  qed
qed

section \<open>What setting a value does to the association list\<close>

definition field_ok :: "string \<Rightarrow> bool" where
  "field_ok w \<longleftrightarrow> word_ok w \<and> CHR '';'' \<notin> set w \<and> DQUOTE \<notin> set w"

lemma field_ok_word: "field_ok w \<Longrightarrow> word_ok w"
  by (simp add: field_ok_def)

lemma field_ok_not_in:
  "field_ok w \<Longrightarrow> BSLASH \<notin> set w \<and> CHR '';'' \<notin> set w \<and> DQUOTE \<notin> set w"
  by (simp add: field_ok_def word_ok_def)

definition set_pair :: "string \<Rightarrow> string \<Rightarrow> pairs \<Rightarrow> pairs" where
  "set_pair k v ps = (k, v) # del_first k ps"

lemma pairs_ok_del_first: "pairs_ok ps \<Longrightarrow> pairs_ok (del_first k ps)"
  by (induction k ps rule: del_first.induct) auto

lemma pairs_ok_set_pair:
  "pairs_ok ps \<Longrightarrow> field_ok k \<Longrightarrow> field_ok v \<Longrightarrow> pairs_ok (set_pair k v ps)"
  by (simp add: set_pair_def pairs_ok_del_first field_ok_word)

lemma keys_del_first: "set (map fst (del_first k ps)) \<subseteq> set (map fst ps)"
  by (induction k ps rule: del_first.induct) auto

lemma distinct_del_first:
  "distinct (map fst ps) \<Longrightarrow> distinct (map fst (del_first k ps)) \<and> k \<notin> fst ` set (del_first k ps)"
proof (induction k ps rule: del_first.induct)
  case (1 key)
  then show ?case by simp
next
  case (2 key k v ps)
  then show ?case using keys_del_first [of key ps] by auto
qed

lemma distinct_set_pair:
  "distinct (map fst ps) \<Longrightarrow> distinct (map fst (set_pair k v ps))"
  using distinct_del_first [of ps k] by (simp add: set_pair_def)

lemma length_del_first: "length (info_string (del_first k ps)) \<le> length (info_string ps)"
  by (induction k ps rule: del_first.induct) auto

lemma find_ci_set_pair_same [simp]: "find_ci k (set_pair k v ps) = v"
  by (simp add: set_pair_def)

lemma find_ci_set_pair_other:
  assumes "Q_stricmp (Some k') (Some k) \<noteq> 0"
  shows "find_ci k' (set_pair k v ps) = find_ci k' ps"
proof -
  have "find_ci k' (del_first k ps) = find_ci k' ps"
    using assms by (induction k ps rule: del_first.induct) auto
  then show ?thesis using assms by (simp add: set_pair_def)
qed

lemma Info_RemoveKey_info:
  "pairs_ok ps \<Longrightarrow> length (info_string ps) < MAX_INFO_STRING \<Longrightarrow> BSLASH \<notin> set k \<Longrightarrow>
   Info_RemoveKey (info_string ps) k = Some (info_string (del_first k ps))"
  by (simp add: Info_RemoveKey_def remove_from_info MAX_INFO_STRING_def)

lemma BigInfo_RemoveKey_info:
  "pairs_ok ps \<Longrightarrow> length (info_string ps) < BIG_INFO_STRING \<Longrightarrow> BSLASH \<notin> set k \<Longrightarrow>
   BigInfo_RemoveKey (info_string ps) k = Some (info_string (del_first k ps))"
  by (simp add: BigInfo_RemoveKey_def remove_from_info BIG_INFO_STRING_def)

lemma sprintf_pair_fits:
  "length (info_string ((k, v) # ps)) < cap \<Longrightarrow>
   sprintf_pair cap k v = BSLASH # k @ BSLASH # v"
  by (simp add: sprintf_pair_def)

lemma Info_SetValueForKey_info:
  assumes "pairs_ok ps" "field_ok k" "field_ok v" "v \<noteq> []"
    and "length (info_string ps) < MAX_INFO_STRING"
    and "length (info_string (set_pair k v ps)) < MAX_INFO_STRING"
  shows "Info_SetValueForKey (info_string ps) k v = Some (info_string (set_pair k v ps))"
  using assms field_ok_not_in [OF assms(2)] field_ok_not_in [OF assms(3)]
    sprintf_pair_fits [of k v "del_first k ps" MAX_INFO_STRING]
  by (simp add: Info_SetValueForKey_def Info_RemoveKey_info set_pair_def Let_def)

lemma BigInfo_SetValueForKey_info:
  assumes "pairs_ok ps" "field_ok k" "field_ok v" "v \<noteq> []"
    and "length (info_string ps) < BIG_INFO_STRING"
    and "length (info_string (set_pair k v ps)) < BIG_INFO_STRING"
  shows "BigInfo_SetValueForKey (Some (info_string ps)) (Some k) (Some v) =
     Some (info_string (set_pair k v ps))"
  using assms field_ok_not_in [OF assms(2)] field_ok_not_in [OF assms(3)]
    sprintf_pair_fits [of k v "del_first k ps" BIG_INFO_STRING]
  by (simp add: BigInfo_SetValueForKey_def BigInfo_RemoveKey_info set_pair_def Let_def)

lemma Info_ValueForKey_info:
  "pairs_ok ps \<Longrightarrow> length (info_string ps) < BIG_INFO_STRING \<Longrightarrow>
   Info_ValueForKey (Some (info_string ps)) (Some k) = Some (find_ci k ps)"
  by (simp add: Info_ValueForKey_def value_from_info BIG_INFO_STRING_def)

section \<open>The store interface\<close>

text \<open>
  What a user of info strings relies on: a setter for strings of at most \<open>cap - 1\<close>
  characters that prepends the pair and drops the old one.  Both setters of the code
  provide it; the laws a caller wants (get after set, other keys untouched, the shape of
  the string and the uniqueness of its keys kept) are proved once.
\<close>

locale info_store =
  fixes setv :: "string \<Rightarrow> string \<Rightarrow> string \<Rightarrow> string option"
    and cap :: nat
  assumes cap_le: "cap \<le> BIG_INFO_STRING"
    and set_law: "\<lbrakk>pairs_ok ps; field_ok k; field_ok v; v \<noteq> [];
        length (info_string ps) < cap; length (info_string (set_pair k v ps)) < cap\<rbrakk>
      \<Longrightarrow> setv (info_string ps) k v = Some (info_string (set_pair k v ps))"
begin

lemma store_get_same:
  assumes "pairs_ok ps" "field_ok k" "field_ok v" "v \<noteq> []"
    "length (info_string ps) < cap" "length (info_string (set_pair k v ps)) < cap"
  shows "\<exists>s. setv (info_string ps) k v = Some s \<and>
     Info_ValueForKey (Some s) (Some k) = Some v"
  using set_law [OF assms] assms(6) cap_le
    Info_ValueForKey_info [OF pairs_ok_set_pair [OF assms(1-3)]]
  by simp

lemma store_get_other:
  assumes "pairs_ok ps" "field_ok k" "field_ok v" "v \<noteq> []"
    "length (info_string ps) < cap" "length (info_string (set_pair k v ps)) < cap"
    "Q_stricmp (Some k') (Some k) \<noteq> 0"
  shows "\<exists>s. setv (info_string ps) k v = Some s \<and>
     Info_ValueForKey (Some s) (Some k') = Info_ValueForKey (Some (info_string ps)) (Some k')"
  using set_law [OF assms(1-6)] assms(1,5,6) cap_le
    Info_ValueForKey_info [OF pairs_ok_set_pair [OF assms(1-3)], where k = k']
    Info_ValueForKey_info [OF assms(1), where k = k'] find_ci_set_pair_other [OF assms(7)]
  by simp

lemma store_keys_distinct:
  assumes "pairs_ok ps" "field_ok k" "field_ok v" "v \<noteq> []"
    "length (info_string ps) < cap" "length (info_string (set_pair k v ps)) < cap"
    "distinct (map fst ps)"
  shows "\<exists>qs. setv (info_string ps) k v = Some (info_string qs) \<and> pairs_ok qs \<and>
     distinct (map fst qs)"
  using set_law [OF assms(1-6)] pairs_ok_set_pair [OF assms(1-3)] distinct_set_pair [OF assms(7)]
  by blast

end

interpretation info: info_store Info_SetValueForKey MAX_INFO_STRING
  by unfold_locales
     (simp_all add: Info_SetValueForKey_info MAX_INFO_STRING_def BIG_INFO_STRING_def)

interpretation biginfo: info_store
  "\<lambda>s k v. BigInfo_SetValueForKey (Some s) (Some k) (Some v)" BIG_INFO_STRING
  by unfold_locales (simp_all add: BigInfo_SetValueForKey_info)

section \<open>Properties\<close>

text \<open>Claim C26. Setting a valid key and value in a well-formed info string that stays below
  MAX_INFO_STRING succeeds, the value can be read back, and every key that differs from it
  (ignoring case) reads as before.\<close>
theorem Info_SetValueForKey_get:
  assumes "pairs_ok ps" "field_ok k" "field_ok v" "v \<noteq> []"
    "length (info_string ps) < MAX_INFO_STRING"
    "length (info_string (set_pair k v ps)) < MAX_INFO_STRING"
  shows "\<exists>s. Info_SetValueForKey (info_string ps) k v = Some s \<and>
     Info_ValueForKey (Some s) (Some k) = Some v \<and>
     (\<forall>k'. Q_stricmp (Some k') (Some k) \<noteq> 0 \<longrightarrow>
        Info_ValueForKey (Some s) (Some k') = Info_ValueForKey (Some (info_string ps)) (Some k'))"
  using info.store_get_same [OF assms] info.store_get_other [OF assms] by fastforce

theorem Info_SetValueForKey_get_witness:
  "\<exists>s. Info_SetValueForKey (info_string [(''rate'', ''25000''), (''name'', ''bob'')]) ''name'' ''eve'' = Some s \<and>
     Info_ValueForKey (Some s) (Some ''name'') = Some ''eve''"
proof -
  let ?ps = "[(''rate'', ''25000''), (''name'', ''bob'')]"
  have "pairs_ok ?ps" "field_ok ''name''" "field_ok ''eve''" "''eve'' \<noteq> []"
    "length (info_string ?ps) < MAX_INFO_STRING"
    "length (info_string (set_pair ''name'' ''eve'' ?ps)) < MAX_INFO_STRING"
    by (simp_all add: word_ok_def field_ok_def set_pair_def MAX_INFO_STRING_def nul_free_def)
  from Info_SetValueForKey_get [OF this] show ?thesis by blast
qed

text \<open>Claim C27. What Info_SetValueForKey does at every length.  The old pair of the key goes
  first.  The new one is printed into a local array of MAX_INFO_STRING cells, so it is cut after
  1023 characters, and put in front of the rest: below MAX_INFO_STRING characters in all, that is
  the result, which is the list of pairs with the new one if the pair was not cut; at exactly
  MAX_INFO_STRING characters the length check passes although strcat writes the terminating NUL
  one cell past the array; above it the warning branch returns, as does an empty value, with the
  old pair already removed.\<close>
theorem Info_SetValueForKey_lengths:
  assumes "pairs_ok ps" "field_ok k" "field_ok v" "length (info_string ps) < MAX_INFO_STRING"
  shows "Info_SetValueForKey (info_string ps) k v =
    (let new = take (MAX_INFO_STRING - 1) (info_string [(k, v)]);
         rest = info_string (del_first k ps); total = length new + length rest in
     if v = [] \<or> MAX_INFO_STRING < total then Some rest
     else if total = MAX_INFO_STRING then None
     else Some (new @ rest)) \<and>
    (length (info_string [(k, v)]) < MAX_INFO_STRING \<longrightarrow>
       take (MAX_INFO_STRING - 1) (info_string [(k, v)]) @ info_string (del_first k ps) =
         info_string (set_pair k v ps))"
  using assms field_ok_not_in [OF assms(2)] field_ok_not_in [OF assms(3)]
  by (simp add: Info_SetValueForKey_def Info_RemoveKey_info set_pair_def sprintf_pair_def Let_def)

theorem Info_SetValueForKey_lengths_witness:
  "Info_SetValueForKey (info_string [(''a'', replicate 1000 CHR ''x'')]) ''b'' (replicate 18 CHR ''y'') = None \<and>
   Info_SetValueForKey (info_string []) ''b'' (replicate 2000 CHR ''y'') =
     Some (BSLASH # CHR ''b'' # BSLASH # replicate 1020 CHR ''y'')"
proof -
  let ?ps = "[(''a'', replicate 1000 CHR ''x'')]" and ?v = "replicate 18 CHR ''y''" and ?w = "replicate 2000 CHR ''y''"
  have ok: "pairs_ok ?ps" "field_ok ''b''" "field_ok ?v" "field_ok ?w" "pairs_ok []"
    "length (info_string ?ps) < MAX_INFO_STRING" "length (info_string []) < MAX_INFO_STRING"
    by (simp_all add: word_ok_def field_ok_def MAX_INFO_STRING_def nul_free_def)
  from Info_SetValueForKey_lengths [OF ok(1,2,3,6)] Info_SetValueForKey_lengths [OF ok(5,2,4,7)] show ?thesis
    by (simp add: Let_def MAX_INFO_STRING_def)
qed

end
