(* ===== verification/QInfoCodec.thy ===== *)
theory QInfoCodec
  imports QInfo
begin

text \<open>
  The percent encoding of src/src/qshared.c that lets a value with backslashes, quotes,
  semicolons or control characters into an info string.  \<open>char\<close> arrays are lists of cells;
  a pointer into one is the list of the cells from it on, and a read past the object is
  \<open>None\<close>.  \<open>strtol\<close> with base 16 is modelled on the cells it may read.
\<close>

section \<open>Hexadecimal digits\<close>

definition hexchar :: "int \<Rightarrow> char" where
  "hexchar d = (if d < 10 then char_of (48 + d) else char_of (55 + d))"

definition hexX :: "int \<Rightarrow> string" where
  "hexX n = (if n < 16 then [hexchar n] else [hexchar (n div 16), hexchar (n mod 16)])"

definition hexval :: "char \<Rightarrow> int option" where
  "hexval c =
     (if 48 \<le> uc c \<and> uc c \<le> 57 then Some (uc c - 48)
      else if 65 \<le> uc c \<and> uc c \<le> 70 then Some (uc c - 55)
      else if 97 \<le> uc c \<and> uc c \<le> 102 then Some (uc c - 87)
      else None)"

fun strtol_digits :: "char list \<Rightarrow> int \<Rightarrow> int option" where
  "strtol_digits [] acc = None"
| "strtol_digits (c # cs) acc =
     (case hexval c of None \<Rightarrow> Some acc | Some d \<Rightarrow> strtol_digits cs (16 * acc + d))"

fun strtol_prefixed :: "char list \<Rightarrow> int option" where
  "strtol_prefixed [] = None"
| "strtol_prefixed [c] = strtol_digits [c] 0"
| "strtol_prefixed (c # x # cs) =
     (if c = CHR ''0'' \<and> (x = CHR ''x'' \<or> x = CHR ''X'')
      then (case cs of [] \<Rightarrow> None
            | d # _ \<Rightarrow> if hexval d = None then Some 0 else strtol_digits cs 0)
      else strtol_digits (c # x # cs) 0)"

definition strtol16 :: "char list \<Rightarrow> int option" where
  "strtol16 cells =
     (case dropWhile isspace_c cells of
        [] \<Rightarrow> None
      | c # cs \<Rightarrow>
          if c = CHR ''-'' then map_option uminus (strtol_prefixed cs)
          else if c = CHR ''+'' then strtol_prefixed cs
          else strtol_prefixed (c # cs))"

section \<open>Encoding\<close>

text \<open>
  \<open>Info_EncodeChar\<close> is \<open>sprintf\<close> with the format \<open>%%%X\<close>, which prints a one-digit
  number in one digit; its terminating NUL lands in the third cell then, and the caller
  always advances by three.
\<close>

definition Info_EncodeChar :: "char \<Rightarrow> char list" where
  "Info_EncodeChar chr = CHR ''%'' # hexX (sc chr mod 2 ^ 32) @ [NUL]"

definition must_encode :: "char \<Rightarrow> bool" where
  "must_encode c \<longleftrightarrow> c = BSLASH \<or> c = DQUOTE \<or> c = CHR '';'' \<or> uc c < 0x20"

fun encode_loop :: "char list \<Rightarrow> int \<Rightarrow> int \<Rightarrow> char list" where
  "encode_loop [] y len = []"
| "encode_loop (c # url) y len =
     (if y < len - 4 then
        (if must_encode c then take 3 (Info_EncodeChar c) @ encode_loop url (y + 3) len
         else c # encode_loop url (y + 1) len)
      else [])"

definition Info_Encode :: "char list \<Rightarrow> nat \<Rightarrow> int \<Rightarrow> char list" where
  "Info_Encode inurl encodelen len = encode_loop (take encodelen inurl) 0 len @ [NUL]"

section \<open>Decoding\<close>

definition Info_DecodeChar :: "char list \<Rightarrow> char option" where
  "Info_DecodeChar cells =
     (if length cells < 4 then None
      else if hd cells \<noteq> CHR ''%'' then Some CHR '' ''
      else map_option (\<lambda>v. char_of (v mod 256)) (strtol16 (take 3 (tl cells))))"

fun advance :: "nat \<Rightarrow> char list \<Rightarrow> char list" where
  "advance 0 cs = cs"
| "advance (Suc k) [] = []"
| "advance (Suc k) (c # cs) = (if c = NUL then c # cs else advance k cs)"

fun Info_Decode :: "char list \<Rightarrow> nat \<Rightarrow> string option" where
  "Info_Decode [] n = None"
| "Info_Decode (c # cs) 0 = Some []"
| "Info_Decode (c # cs) (Suc n) =
     (if c = NUL then Some []
      else if c = CHR ''%'' then
        (case Info_DecodeChar (c # cs) of
           None \<Rightarrow> None
         | Some d \<Rightarrow> map_option ((#) d) (Info_Decode (advance 3 (c # cs)) n))
      else map_option ((#) c) (Info_Decode cs n))"

definition BigInfo_SetEncodedValueForKey ::
  "string \<Rightarrow> string \<Rightarrow> char list \<Rightarrow> nat \<Rightarrow> string option" where
  "BigInfo_SetEncodedValueForKey s key value len =
     BigInfo_SetValueForKey (Some s) (Some key) (Some (cstr (Info_Encode value len 8192)))"

text \<open>\<open>stale\<close>: the cells of the static \<open>value\<close> buffer after the string it holds.\<close>

definition BigInfo_DecodedValueForKey ::
  "string \<Rightarrow> string \<Rightarrow> nat \<Rightarrow> char list \<Rightarrow> string option" where
  "BigInfo_DecodedValueForKey s key outbuflen stale =
     (case Info_ValueForKey (Some s) (Some key) of
        None \<Rightarrow> None
      | Some value \<Rightarrow> Info_Decode (value @ NUL # stale) outbuflen)"

text \<open>\<open>SV_ExpandNewlines\<close>: the static \<open>string\<close> has 1024 cells.\<close>

fun expand_loop :: "string \<Rightarrow> nat \<Rightarrow> string" where
  "expand_loop [] l = []"
| "expand_loop (c # cs) l =
     (if l < 1021 then
        (if c = NEWLINE then BSLASH # CHR ''n'' # expand_loop cs (l + 2)
         else c # expand_loop cs (l + 1))
      else [])"

definition SV_ExpandNewlines :: "string \<Rightarrow> string" where
  "SV_ExpandNewlines s = expand_loop s 0"

section \<open>Round trip\<close>

text \<open>
  \<open>encodable v\<close>: no control characters and no percent sign, and no encoded character
  directly before a hexadecimal digit.
\<close>

definition plain_char :: "char \<Rightarrow> bool" where
  "plain_char c \<longleftrightarrow> \<not> must_encode c \<and> c \<noteq> CHR ''%''"

definition special_char :: "char \<Rightarrow> bool" where
  "special_char c \<longleftrightarrow> c = BSLASH \<or> c = DQUOTE \<or> c = CHR '';''"

fun encodable :: "string \<Rightarrow> bool" where
  "encodable [] = True"
| "encodable (c # cs) =
     ((plain_char c \<or> special_char c \<and> (cs = [] \<or> hexval (hd cs) = None)) \<and> encodable cs)"

fun encoded :: "string \<Rightarrow> string" where
  "encoded [] = []"
| "encoded (c # cs) = (if special_char c then CHR ''%'' # hexX (uc c) else [c]) @ encoded cs"

lemma special_codes:
  "hexX (uc BSLASH) = ''5C''" "hexX (uc DQUOTE) = ''22''" "hexX (uc CHR '';'') = ''3B''"
  by (simp_all add: hexX_def hexchar_def uc_def char_of_def)

lemma hexval_not: "hexval CHR ''%'' = None" "hexval NUL = None"
  by (simp_all add: hexval_def uc_def)

lemma special_must: "special_char c \<Longrightarrow> must_encode c"
  by (auto simp: special_char_def must_encode_def)

lemma plain_not_special: "plain_char c \<Longrightarrow> \<not> special_char c"
  by (auto simp: plain_char_def special_must)

lemma plain_char_not: "plain_char c \<Longrightarrow> c \<noteq> NUL \<and> c \<noteq> CHR ''%'' \<and> field_ok [c]"
  by (auto simp: plain_char_def must_encode_def field_ok_def word_ok_def)

lemma special_encode:
  "special_char c \<Longrightarrow> take 3 (Info_EncodeChar c) = CHR ''%'' # hexX (uc c)"
  unfolding special_char_def
  by (elim disjE) (simp_all add: Info_EncodeChar_def sc_alt uc_def hexX_def)

lemma encode_loop_encoded:
  "encodable v \<Longrightarrow> y + 3 * int (length v) \<le> len - 4 \<Longrightarrow> encode_loop v y len = encoded v"
proof (induction v arbitrary: y)
  case Nil
  then show ?case by simp
next
  case (Cons c v)
  have rest: "encodable v" using Cons.prems(1) by simp
  show ?case
  proof (cases "special_char c")
    case True
    then show ?thesis
      using Cons.IH [of "y + 3"] Cons.prems rest
      by (simp add: special_must special_encode)
  next
    case False
    then have "\<not> must_encode c" using Cons.prems(1) by (auto simp: plain_char_def)
    then show ?thesis
      using Cons.IH [of "y + 1"] Cons.prems rest False by simp
  qed
qed

lemma strtol_two_digits:
  assumes "special_char c" "hexval x = None"
  shows "strtol16 (hexX (uc c) @ [x]) = Some (uc c)"
  using assms unfolding special_char_def
  by (elim disjE)
     (simp_all only: special_codes, simp_all add: strtol16_def isspace_c_def hexval_def uc_def)

lemma decode_special:
  assumes "special_char c" "hexval x = None"
  shows "Info_DecodeChar (CHR ''%'' # hexX (uc c) @ x # r) = Some c"
proof -
  have "length (hexX (uc c)) = 2"
    using assms(1) unfolding special_char_def by (elim disjE) (simp_all only: special_codes, simp_all)
  then obtain a b where ab: "hexX (uc c) = [a, b]"
    by (metis (no_types, lifting) length_0_conv length_Suc_conv numeral_2_eq_2)
  have "char_of (uc c mod 256) = c" by (simp add: uc_def)
  then show ?thesis
    using strtol_two_digits [OF assms] ab by (simp add: Info_DecodeChar_def)
qed

lemma encoded_next:
  "encodable cs \<Longrightarrow> cs = [] \<or> hexval (hd cs) = None \<Longrightarrow>
   \<exists>x r. encoded cs @ NUL # stale = x # r \<and> hexval x = None"
  by (cases cs) (auto simp: hexval_not)

lemma advance_special:
  "special_char c \<Longrightarrow> advance 3 (CHR ''%'' # hexX (uc c) @ r) = r"
  unfolding special_char_def
  by (elim disjE) (simp_all only: special_codes, simp_all add: numeral_3_eq_3)

lemma Info_Decode_encoded:
  "encodable v \<Longrightarrow> length v \<le> n \<Longrightarrow> Info_Decode (encoded v @ NUL # stale) n = Some v"
proof (induction v arbitrary: n)
  case Nil
  then show ?case by (cases n) simp_all
next
  case (Cons c v)
  then obtain m where n: "n = Suc m" by (cases n) auto
  have IH: "Info_Decode (encoded v @ NUL # stale) m = Some v"
    using Cons n by simp
  show ?case
  proof (cases "special_char c")
    case True
    then have "v = [] \<or> hexval (hd v) = None"
      using Cons.prems(1) plain_not_special by auto
    moreover have "encodable v" using Cons.prems(1) by simp
    ultimately obtain x r where x: "encoded v @ NUL # stale = x # r" "hexval x = None"
      using encoded_next [of v stale] by blast
    have "encoded (c # v) @ NUL # stale = CHR ''%'' # hexX (uc c) @ x # r"
      using True x(1) by simp
    moreover have "Info_Decode (CHR ''%'' # hexX (uc c) @ x # r) n = Some (c # v)"
      using decode_special [OF True x(2), of r] advance_special [OF True, of "x # r"] IH x(1) n
      by simp
    ultimately show ?thesis by simp
  next
    case False
    then have "c \<noteq> NUL" "c \<noteq> CHR ''%''"
      using Cons.prems(1) plain_char_not by auto
    then show ?thesis using False n IH by simp
  qed
qed

lemma nul_free_encoded: "encodable v \<Longrightarrow> nul_free (encoded v)"
proof (induction v)
  case Nil
  then show ?case by simp
next
  case (Cons c v)
  have "nul_free (CHR ''%'' # hexX (uc c))" if "special_char c"
    using that unfolding special_char_def by (elim disjE) (simp_all only: special_codes, simp_all)
  moreover have "c \<noteq> NUL" if "plain_char c"
    using that plain_char_not by blast
  ultimately show ?case using Cons by auto
qed

lemma field_ok_encoded: "encodable v \<Longrightarrow> field_ok (encoded v)"
proof (induction v)
  case Nil
  then show ?case by (simp add: field_ok_def word_ok_def)
next
  case (Cons c v)
  have "field_ok (CHR ''%'' # hexX (uc c))" if "special_char c"
    using that unfolding special_char_def
    by (elim disjE) (simp_all only: special_codes, simp_all add: field_ok_def word_ok_def)
  moreover have "field_ok [c]" if "plain_char c"
    using that plain_char_not by blast
  ultimately show ?case using Cons by (auto simp: field_ok_def word_ok_def)
qed

lemma encoded_not_Nil: "v \<noteq> [] \<Longrightarrow> encoded v \<noteq> []"
  by (cases v) auto

lemma cstr_Info_Encode:
  assumes "encodable v" "3 * int (length v) \<le> len - 4"
  shows "cstr (Info_Encode v (length v) len) = encoded v"
  using assms encode_loop_encoded [of v 0 len] cstr_string [OF nul_free_encoded [OF assms(1)], of "[]"]
  by (simp add: Info_Encode_def)

section \<open>Where decoding goes wrong\<close>

lemma strtol_three_digits:
  assumes "special_char c" "hexval x = Some d"
  shows "strtol16 (hexX (uc c) @ [x]) = None"
  using assms unfolding special_char_def
  by (elim disjE)
     (simp_all only: special_codes, simp_all add: strtol16_def isspace_c_def hexval_def uc_def)

lemma Info_DecodeChar_overread:
  assumes "special_char c" "hexval x = Some d"
  shows "Info_DecodeChar (CHR ''%'' # hexX (uc c) @ x # r) = None"
proof -
  have "length (hexX (uc c)) = 2"
    using assms(1) unfolding special_char_def by (elim disjE) (simp_all only: special_codes, simp_all)
  then have "take 3 (hexX (uc c) @ x # r) = hexX (uc c) @ [x]"
    "4 \<le> length (CHR ''%'' # hexX (uc c) @ x # r)" by simp_all
  then show ?thesis using strtol_three_digits [OF assms] by (simp add: Info_DecodeChar_def)
qed

lemma hexchar_not_NUL: "0 \<le> d \<Longrightarrow> d < 16 \<Longrightarrow> hexchar d \<noteq> NUL"
proof -
  assume d: "0 \<le> d" "d < 16"
  have "uc (hexchar d) = (if d < 10 then 48 + d else 55 + d)"
    using d by (simp add: hexchar_def uc_def)
  then have "uc (hexchar d) \<noteq> 0" using d by (cases "d < 10") auto
  then show ?thesis by auto
qed

section \<open>Properties\<close>

text \<open>Claim C28. A non-empty value without control characters and percent signs, in which no
  backslash, quote or semicolon stands directly before a hexadecimal digit, is read back
  unchanged after it was stored percent-encoded in a big info string it fits into.\<close>
theorem BigInfo_encoded_roundtrip:
  assumes "pairs_ok ps" "field_ok key" "encodable v" "v \<noteq> []" "3 * int (length v) \<le> 8188"
    "length (info_string ps) < BIG_INFO_STRING"
    "length (info_string (set_pair key (encoded v) ps)) < BIG_INFO_STRING"
    "length v \<le> n"
  shows "\<exists>s. BigInfo_SetEncodedValueForKey (info_string ps) key v (length v) = Some s \<and>
     BigInfo_DecodedValueForKey s key n stale = Some v"
proof -
  obtain s where
    "BigInfo_SetValueForKey (Some (info_string ps)) (Some key) (Some (encoded v)) = Some s"
    "Info_ValueForKey (Some s) (Some key) = Some (encoded v)"
    using biginfo.store_get_same [OF assms(1,2) field_ok_encoded encoded_not_Nil assms(6,7)]
      assms(3,4) by blast
  then show ?thesis
    using assms(3,5,8)
    by (simp add: BigInfo_SetEncodedValueForKey_def BigInfo_DecodedValueForKey_def
        cstr_Info_Encode Info_Decode_encoded)
qed

theorem BigInfo_encoded_roundtrip_witness:
  "\<exists>s. BigInfo_SetEncodedValueForKey (info_string [(''v'', ''1'')]) ''note'' (''a;'' @ [BSLASH, CHR ''z'']) 4 = Some s \<and>
     BigInfo_DecodedValueForKey s ''note'' 64 [] = Some (''a;'' @ [BSLASH, CHR ''z''])"
proof -
  let ?v = "''a;'' @ [BSLASH, CHR ''z'']"
  have "encodable ?v"
    by (simp add: plain_char_def special_char_def must_encode_def hexval_def uc_def)
  moreover have "encoded ?v = ''a%3B%5Cz''"
    by (simp add: special_char_def special_codes)
  moreover have four: "(4::nat) = length ?v" by simp
  moreover have "pairs_ok [(''v'', ''1'')]" "field_ok ''note''"
    by (simp_all add: word_ok_def field_ok_def)
  ultimately show ?thesis
    unfolding four
    by (intro BigInfo_encoded_roundtrip) (simp_all add: set_pair_def BIG_INFO_STRING_def)
qed

text \<open>The round trip fails outside that set of values: a backslash, quote or semicolon
  before a hexadecimal digit makes Info_DecodeChar parse three digits from an array without a
  terminator (strtol reads past encoded), and a control character below 16 is encoded in two
  characters although the caller advances by three, so its NUL cuts the value short.\<close>
theorem Info_Encode_not_invertible:
  assumes "special_char c" "hexval x = Some d" "1 \<le> uc k" "uc k < 16"
  shows "Info_Decode (encoded [c] @ x # rest) (Suc n) = None \<and>
    cstr (Info_Encode (c # x # v) (Suc (Suc m)) 8192) =
      encoded [c] @ cstr (encode_loop (take (Suc m) (x # v)) 3 8192 @ [NUL]) \<and>
    cstr (Info_Encode (k # v) (Suc m) 8192) = [CHR ''%'', hexchar (uc k)]"
proof (intro conjI)
  show "Info_Decode (encoded [c] @ x # rest) (Suc n) = None"
    using assms(1,2) Info_DecodeChar_overread [OF assms(1,2), of rest] by simp
next
  have "nul_free (encoded [c])" using assms(1) by (intro nul_free_encoded) simp
  moreover have "Info_Encode (c # x # v) (Suc (Suc m)) 8192 =
      encoded [c] @ encode_loop (take (Suc m) (x # v)) 3 8192 @ [NUL]"
    using assms(1) by (simp add: Info_Encode_def special_must special_encode)
  ultimately show "cstr (Info_Encode (c # x # v) (Suc (Suc m)) 8192) =
      encoded [c] @ cstr (encode_loop (take (Suc m) (x # v)) 3 8192 @ [NUL])"
    by (auto simp: cstr_def nul_free_def takeWhile_append)
next
  have "sc k = uc k" "hexX (uc k) = [hexchar (uc k)]" "hexchar (uc k) \<noteq> NUL"
    using assms(3,4) hexchar_not_NUL by (simp_all add: sc_alt hexX_def)
  then show "cstr (Info_Encode (k # v) (Suc m) 8192) = [CHR ''%'', hexchar (uc k)]"
    using assms(3,4)
    by (simp add: Info_Encode_def must_encode_def Info_EncodeChar_def cstr_def)
qed

theorem Info_Encode_not_invertible_witness:
  "Info_Decode (encoded [BSLASH] @ CHR ''a'' # [NUL]) 1 = None \<and>
    cstr (Info_Encode [BSLASH, CHR ''a''] 2 8192) = ''%5Ca'' \<and>
    cstr (Info_Encode [NEWLINE, CHR ''a''] 1 8192) = ''%A''"
proof -
  have "special_char BSLASH" "hexval CHR ''a'' = Some 10" "1 \<le> uc NEWLINE" "uc NEWLINE < 16"
    "\<not> must_encode CHR ''a''"
    by (simp_all add: special_char_def hexval_def uc_def must_encode_def)
  moreover have "encoded [BSLASH] = ''%5C''" by (simp add: special_char_def special_codes)
  moreover have "hexchar (uc NEWLINE) = CHR ''A''"
    by (simp add: hexchar_def uc_def char_of_def)
  ultimately show ?thesis
    using Info_Encode_not_invertible [of BSLASH "CHR ''a''" 10 NEWLINE "[NUL]" 0 "[]" 0]
      Info_Encode_not_invertible [of BSLASH "CHR ''a''" 10 NEWLINE "[NUL]" 0 "[CHR ''a'']" 0]
    by (simp add: cstr_def numeral_2_eq_2)
qed

end
