(* ===== verification/MsgBuffer.thy ===== *)
theory MsgBuffer
  imports QString
begin

text \<open>
  The message buffer \<open>msg_t\<close> of src/src/msg.h and its byte-level operations in
  src/src/msg.c.  \<open>data\<close> is the whole array the C pointer designates, \<open>splitData\<close> the
  second array (None: a NULL pointer).  A \<open>float\<close> is represented by its bit pattern.
  Abstractly a buffer is a queue of bytes: \<open>content\<close> is what has been written, \<open>unread\<close>
  what a reader has not consumed; \<open>msg_app\<close> and \<open>msg_adv\<close> are the two abstract operations,
  and the locale \<open>wire_codec\<close> states what a pair of a writer and a reader promises.
\<close>

section \<open>The buffer and its operations\<close>

record msg =
  overflowed :: bool
  readonly :: bool
  data :: bytes
  splitData :: "bytes option"
  maxsize :: int
  cursize :: int
  splitSize :: int
  readcount :: int
  bitpos :: int
  lastRefEntity :: int

definition MAX_STRING_CHARS :: int where "MAX_STRING_CHARS = 1024"
definition BIG_INFO_CHARS :: int where "BIG_INFO_CHARS = 8192"

definition MSG_Init :: "bytes \<Rightarrow> int \<Rightarrow> msg" where
  "MSG_Init buf len =
     \<lparr>overflowed = False, readonly = False, data = buf, splitData = None, maxsize = len,
      cursize = 0, splitSize = 0, readcount = 0, bitpos = 0, lastRefEntity = 0\<rparr>"

definition MSG_InitReadOnly :: "bytes \<Rightarrow> int \<Rightarrow> msg" where
  "MSG_InitReadOnly buf len = (MSG_Init buf len)\<lparr>cursize := len, readonly := True\<rparr>"

text \<open>\<open>MSG_InitReadOnlySplit\<close> leaves \<open>overflowed\<close>, \<open>bit\<close> and \<open>lastRefEntity\<close> alone.\<close>

definition MSG_InitReadOnlySplit :: "msg \<Rightarrow> bytes \<Rightarrow> int \<Rightarrow> bytes option \<Rightarrow> int \<Rightarrow> msg" where
  "MSG_InitReadOnlySplit m buf len split arg5 =
     m\<lparr>data := buf, cursize := len, readonly := True, splitData := split,
       maxsize := s32 (len + arg5), splitSize := arg5, readcount := 0\<rparr>"

definition MSG_Clear :: "msg \<Rightarrow> qerr + msg" where
  "MSG_Clear m =
     (if readonly m \<or> splitData m \<noteq> None then Inl ERR_FATAL
      else Inr (m\<lparr>cursize := 0, overflowed := False, bitpos := 0, readcount := 0\<rparr>))"

definition MSG_BeginReading :: "msg \<Rightarrow> msg" where
  "MSG_BeginReading m = m\<lparr>overflowed := False, readcount := 0, bitpos := 0\<rparr>"

definition MSG_Copy :: "bytes \<Rightarrow> int \<Rightarrow> msg \<Rightarrow> qerr + msg" where
  "MSG_Copy buf len src =
     (if len < cursize src then Inl ERR_DROP
      else Inr (src\<lparr>data := blit 0 (take (nat (cursize src)) (data src)) buf\<rparr>))"

definition msg_app :: "bytes \<Rightarrow> msg \<Rightarrow> msg" where
  "msg_app bs m =
     m\<lparr>data := blit (nat (cursize m)) bs (data m), cursize := cursize m + int (length bs)\<rparr>"

definition MSG_WriteByte :: "int \<Rightarrow> msg \<Rightarrow> msg" where
  "MSG_WriteByte c m =
     (if s32 (maxsize m - cursize m) < 1 then m\<lparr>overflowed := True\<rparr>
      else msg_app (le_bytes 1 c) m)"

definition MSG_WriteShort :: "int \<Rightarrow> msg \<Rightarrow> msg" where
  "MSG_WriteShort c m =
     (if s32 (maxsize m - cursize m) < 2 then m\<lparr>overflowed := True\<rparr>
      else msg_app (le_bytes 2 c) m)"

definition MSG_WriteLong :: "int \<Rightarrow> msg \<Rightarrow> msg" where
  "MSG_WriteLong c m =
     (if s32 (maxsize m - cursize m) < 4 then m\<lparr>overflowed := True\<rparr>
      else msg_app (le_bytes 4 c) m)"

text \<open>\<open>sizeof\<close> makes this comparison unsigned.\<close>

definition MSG_WriteInt64 :: "int \<Rightarrow> msg \<Rightarrow> msg" where
  "MSG_WriteInt64 c m =
     (if u32 (maxsize m - cursize m) < 8 then m\<lparr>overflowed := True\<rparr>
      else msg_app (le_bytes 8 c) m)"

definition MSG_WriteFloat :: "int \<Rightarrow> msg \<Rightarrow> msg" where
  "MSG_WriteFloat bits m =
     (if s32 (maxsize m - cursize m) < 4 then m\<lparr>overflowed := True\<rparr>
      else msg_app (le_bytes 4 bits) m)"

definition MSG_WriteVector :: "int \<Rightarrow> int \<Rightarrow> int \<Rightarrow> msg \<Rightarrow> msg" where
  "MSG_WriteVector x y z m =
     (if s32 (maxsize m - cursize m) < 12 then m\<lparr>overflowed := True\<rparr>
      else msg_app (le_bytes 4 x @ le_bytes 4 y @ le_bytes 4 z) m)"

text \<open>The list is the first \<open>length\<close> bytes of the C argument \<open>data\<close>.\<close>

fun MSG_WriteData :: "bytes \<Rightarrow> msg \<Rightarrow> msg" where
  "MSG_WriteData [] m = m"
| "MSG_WriteData (b # bs) m = MSG_WriteData bs (MSG_WriteByte (uint b) m)"

definition byte_of_char :: "char \<Rightarrow> byte" where
  "byte_of_char c = word_of_int (uc c)"

definition char_of_byte :: "byte \<Rightarrow> char" where
  "char_of_byte b = char_of (uint b)"

definition string_bytes :: "string \<Rightarrow> bytes" where
  "string_bytes s = map byte_of_char s @ [0]"

definition MSG_WriteString :: "string option \<Rightarrow> msg \<Rightarrow> msg" where
  "MSG_WriteString p m =
     (case p of
        None \<Rightarrow> MSG_WriteData [0] m
      | Some s \<Rightarrow>
          if MAX_STRING_CHARS \<le> int (length s) then MSG_WriteData [0] m
          else MSG_WriteData (string_bytes s) m)"

definition MSG_WriteBigString :: "string option \<Rightarrow> msg \<Rightarrow> msg" where
  "MSG_WriteBigString p m =
     (case p of
        None \<Rightarrow> MSG_WriteData [0] m
      | Some s \<Rightarrow>
          if BIG_INFO_CHARS \<le> int (length s) then MSG_WriteData [0] m
          else MSG_WriteData (string_bytes s) m)"

definition msg_adv :: "int \<Rightarrow> msg \<Rightarrow> msg" where
  "msg_adv n m = m\<lparr>readcount := readcount m + n\<rparr>"

definition bytes_at :: "int \<Rightarrow> int \<Rightarrow> bytes \<Rightarrow> bytes" where
  "bytes_at i n xs = take (nat n) (drop (nat i) xs)"

definition MSG_ReadByte :: "msg \<Rightarrow> int \<times> msg" where
  "MSG_ReadByte m =
     (if u32 (cursize m) < u32 (readcount m + 1) then (-1, m\<lparr>overflowed := True\<rparr>)
      else (le_uint (bytes_at (readcount m) 1 (data m)), msg_adv 1 m))"

definition MSG_ReadShort :: "msg \<Rightarrow> int \<times> msg" where
  "MSG_ReadShort m =
     (if u32 (cursize m) < u32 (readcount m + 2) then (-1, m\<lparr>overflowed := True\<rparr>)
      else (s16 (le_uint (bytes_at (readcount m) 2 (data m))), msg_adv 2 m))"

definition MSG_ReadLong :: "msg \<Rightarrow> int \<times> msg" where
  "MSG_ReadLong m =
     (if u32 (cursize m) < u32 (readcount m + 4) then (-1, m\<lparr>overflowed := True\<rparr>)
      else (s32 (le_uint (bytes_at (readcount m) 4 (data m))), msg_adv 4 m))"

definition MSG_ReadInt64 :: "msg \<Rightarrow> int \<times> msg" where
  "MSG_ReadInt64 m =
     (if u32 (cursize m) < u32 (readcount m + 8) then (-1, m\<lparr>overflowed := True\<rparr>)
      else (signed_take_bit 63 (le_uint (bytes_at (readcount m) 8 (data m))), msg_adv 8 m))"

text \<open>The failing branch returns -1.0f (0xBF800000) and, unlike the others, sets no flag.\<close>

definition MSG_ReadFloat :: "msg \<Rightarrow> int \<times> msg" where
  "MSG_ReadFloat m =
     (if u32 (cursize m) < u32 (readcount m + 4) then (0xBF800000, m)
      else (le_uint (bytes_at (readcount m) 4 (data m)), msg_adv 4 m))"

text \<open>
  \<open>MSG_ReadString\<close> and \<open>MSG_ReadStringLine\<close> are one do-while loop up to the extra
  terminator; a percent sign is read as a full stop.
\<close>

function read_string :: "int set \<Rightarrow> int \<Rightarrow> int \<Rightarrow> msg \<Rightarrow> string \<times> msg" where
  "read_string stops len l m =
     (let (c, m1) = MSG_ReadByte m in
      if c = -1 \<or> c = 0 \<or> c \<in> stops then ([], m1)
      else let ch = (if c = 37 then CHR ''.'' else char_of c) in
        if l + 1 < len - 1
        then let (s, m2) = read_string stops len (l + 1) m1 in (ch # s, m2)
        else ([ch], m1))"
  by pat_completeness auto
termination
  by (relation "measure (\<lambda>(stops, len, l, m). nat (len - 1 - l))") auto

declare read_string.simps [simp del]

definition MSG_ReadString :: "int \<Rightarrow> msg \<Rightarrow> string \<times> msg" where
  "MSG_ReadString len m = read_string {} len 0 m"

definition MSG_ReadStringLine :: "int \<Rightarrow> msg \<Rightarrow> string \<times> msg" where
  "MSG_ReadStringLine len m = read_string {10} len 0 m"

fun MSG_ReadData :: "nat \<Rightarrow> msg \<Rightarrow> bytes \<times> msg" where
  "MSG_ReadData 0 m = ([], m)"
| "MSG_ReadData (Suc n) m =
     (let (c, m1) = MSG_ReadByte m; (bs, m2) = MSG_ReadData n m1
      in (word_of_int c # bs, m2))"

definition MSG_ClearLastReferencedEntity :: "msg \<Rightarrow> msg" where
  "MSG_ClearLastReferencedEntity m = m\<lparr>lastRefEntity := -1\<rparr>"

text \<open>\<open>lengthoffset\<close> shares its storage with \<open>lastRefEntity\<close>.\<close>

definition MSG_BeginWriteMessageLength :: "msg \<Rightarrow> msg" where
  "MSG_BeginWriteMessageLength m =
     (if s32 (maxsize m - cursize m) < 1 then m\<lparr>overflowed := True\<rparr>
      else MSG_WriteLong 0 (m\<lparr>lastRefEntity := cursize m\<rparr>))"

definition MSG_EndWriteMessageLength :: "msg \<Rightarrow> msg" where
  "MSG_EndWriteMessageLength m =
     (let messageend = cursize m;
          messagestart = lastRefEntity m + 4
      in (MSG_WriteLong (messageend - messagestart) (m\<lparr>cursize := lastRefEntity m\<rparr>))
           \<lparr>cursize := messageend\<rparr>)"

definition I_CleanChar :: "int \<Rightarrow> int" where
  "I_CleanChar c = (if c = 146 then 39 else c)"

definition clean_command_char :: "char \<Rightarrow> char" where
  "clean_command_char c =
     (let d = char_of (I_CleanChar (uc c)) in if d = CHR ''%'' then CHR ''.'' else d)"

definition MSG_WriteReliableCommandToBuffer :: "string \<Rightarrow> int \<Rightarrow> string" where
  "MSG_WriteReliableCommandToBuffer source len =
     map clean_command_char (take (nat (len - 1)) source)"

section \<open>The buffer as a queue of bytes\<close>

definition msg_ok :: "msg \<Rightarrow> bool" where
  "msg_ok m \<longleftrightarrow> 0 \<le> readcount m \<and> readcount m \<le> cursize m \<and> cursize m \<le> maxsize m \<and>
     maxsize m \<le> int (length (data m)) \<and> maxsize m < 2 ^ 27"

definition content :: "msg \<Rightarrow> bytes" where
  "content m = take (nat (cursize m)) (data m)"

definition unread :: "msg \<Rightarrow> bytes" where
  "unread m = drop (nat (readcount m)) (content m)"

definition room :: "nat \<Rightarrow> msg \<Rightarrow> bool" where
  "room n m \<longleftrightarrow> cursize m + int n \<le> maxsize m"

named_theorems msg_simps \<open>reading and writing message buffers\<close>

lemma msg_okD:
  assumes "msg_ok m"
  shows "0 \<le> readcount m" "0 \<le> cursize m" "readcount m \<le> cursize m" "cursize m \<le> maxsize m"
    "maxsize m \<le> int (length (data m))" "maxsize m < 2 ^ 27" "cursize m < 2 ^ 27"
    "readcount m < 2 ^ 27" "nat (cursize m) \<le> length (data m)"
  using assms by (auto simp: msg_ok_def)

lemma blit_append: "blit i (bs @ cs) xs = blit (i + length bs) cs (blit i bs xs)"
  by (induction bs arbitrary: i xs) auto

lemma msg_app_ok: "msg_ok m \<Longrightarrow> room (length bs) m \<Longrightarrow> msg_ok (msg_app bs m)"
  by (auto simp: msg_ok_def room_def msg_app_def)

lemma msg_app_app [msg_simps]:
  "msg_ok m \<Longrightarrow> msg_app cs (msg_app bs m) = msg_app (bs @ cs) m"
  using msg_okD(2) [of m] by (simp add: msg_app_def blit_append nat_add_distrib)

lemma msg_app_Nil [simp]: "msg_app [] m = m"
  by (simp add: msg_app_def)

lemma room_app: "room n (msg_app bs m) \<longleftrightarrow> room (length bs + n) m"
  by (auto simp: room_def msg_app_def)

lemma room_mono: "room n m \<Longrightarrow> k \<le> n \<Longrightarrow> room k m"
  by (simp add: room_def)

lemma content_app:
  assumes "msg_ok m" "room (length bs) m"
  shows "content (msg_app bs m) = content m @ bs"
proof -
  have "nat (cursize m) + length bs \<le> length (data m)"
    using msg_okD [OF assms(1)] assms(2) by (simp add: room_def)
  moreover have "nat (cursize m + int (length bs)) = nat (cursize m) + length bs"
    using msg_okD(2) [OF assms(1)] by (simp add: nat_add_distrib)
  ultimately show ?thesis by (simp add: content_def msg_app_def take_blit)
qed

lemma length_content: "msg_ok m \<Longrightarrow> length (content m) = nat (cursize m)"
  using msg_okD(9) by (simp add: content_def)

lemma unread_app:
  "msg_ok m \<Longrightarrow> room (length bs) m \<Longrightarrow> unread (msg_app bs m) = unread m @ bs"
  using msg_okD [of m] length_content [of m]
  by (simp add: unread_def content_app) (simp add: msg_app_def)

lemma write_room [msg_simps]:
  "msg_ok m \<Longrightarrow> room 1 m \<Longrightarrow> MSG_WriteByte c m = msg_app (le_bytes 1 c) m"
  "msg_ok m \<Longrightarrow> room 2 m \<Longrightarrow> MSG_WriteShort c m = msg_app (le_bytes 2 c) m"
  "msg_ok m \<Longrightarrow> room 4 m \<Longrightarrow> MSG_WriteLong c m = msg_app (le_bytes 4 c) m"
  "msg_ok m \<Longrightarrow> room 8 m \<Longrightarrow> MSG_WriteInt64 c m = msg_app (le_bytes 8 c) m"
  "msg_ok m \<Longrightarrow> room 4 m \<Longrightarrow> MSG_WriteFloat c m = msg_app (le_bytes 4 c) m"
  using msg_okD [of m]
  by (auto simp: MSG_WriteByte_def MSG_WriteShort_def MSG_WriteLong_def MSG_WriteInt64_def
      MSG_WriteFloat_def room_def)

lemma write_no_room:
  "msg_ok m \<Longrightarrow> \<not> room 1 m \<Longrightarrow> MSG_WriteByte c m = m\<lparr>overflowed := True\<rparr>"
  "msg_ok m \<Longrightarrow> \<not> room 2 m \<Longrightarrow> MSG_WriteShort c m = m\<lparr>overflowed := True\<rparr>"
  "msg_ok m \<Longrightarrow> \<not> room 4 m \<Longrightarrow> MSG_WriteLong c m = m\<lparr>overflowed := True\<rparr>"
  "msg_ok m \<Longrightarrow> \<not> room 8 m \<Longrightarrow> MSG_WriteInt64 c m = m\<lparr>overflowed := True\<rparr>"
  using msg_okD [of m]
  by (auto simp: MSG_WriteByte_def MSG_WriteShort_def MSG_WriteLong_def MSG_WriteInt64_def
      room_def)

lemma WriteData_room [msg_simps]:
  "msg_ok m \<Longrightarrow> room (length bs) m \<Longrightarrow> MSG_WriteData bs m = msg_app bs m"
proof (induction bs arbitrary: m)
  case Nil
  then show ?case by simp
next
  case (Cons b bs)
  have r: "room 1 m" using Cons.prems(2) by (rule room_mono) simp
  have w: "MSG_WriteByte (uint b) m = msg_app [b] m"
    using write_room(1) [OF Cons.prems(1) r, of "uint b"] by simp
  have "msg_ok (msg_app [b] m)" "room (length bs) (msg_app [b] m)"
    using Cons.prems r by (simp_all add: msg_app_ok room_app)
  then show ?case
    using Cons.IH [of "msg_app [b] m"] Cons.prems(1) w by (simp add: msg_app_app)
qed

lemma WriteData_keeps_ok: "msg_ok m \<Longrightarrow> msg_ok (MSG_WriteData bs m)"
proof (induction bs arbitrary: m)
  case Nil
  then show ?case by simp
next
  case (Cons b bs)
  have "msg_ok (MSG_WriteByte c m)" for c
    using Cons.prems
    by (cases "room 1 m")
       (simp_all add: write_room write_no_room msg_app_ok, simp add: msg_ok_def)
  then show ?case using Cons.IH by simp
qed

section \<open>Reading\<close>

lemma bytes_at_unread:
  assumes "msg_ok m" "readcount m + int n \<le> cursize m"
  shows "bytes_at (readcount m) (int n) (data m) = take n (unread m)"
proof -
  have "nat (readcount m) + n \<le> nat (cursize m)" using assms by (auto dest: msg_okD)
  then have "min n (nat (cursize m) - nat (readcount m)) = n" by arith
  then show ?thesis
    by (simp add: bytes_at_def unread_def content_def drop_take)
qed

lemma length_unread: "msg_ok m \<Longrightarrow> int (length (unread m)) = cursize m - readcount m"
  using msg_okD [of m] length_content [of m] by (simp add: unread_def)

lemma adv_ok: "msg_ok m \<Longrightarrow> n \<le> length (unread m) \<Longrightarrow> msg_ok (msg_adv (int n) m)"
  using length_unread [of m] by (auto simp: msg_ok_def msg_adv_def)

lemma unread_adv:
  "msg_ok m \<Longrightarrow> n \<le> length (unread m) \<Longrightarrow> unread (msg_adv (int n) m) = drop n (unread m)"
  using msg_okD(1) [of m]
  by (simp add: unread_def msg_adv_def content_def nat_add_distrib add.commute)

lemma msg_adv_adv [msg_simps]: "msg_adv n (msg_adv k m) = msg_adv (k + n) m"
  by (simp add: msg_adv_def)

text \<open>
  \<open>readable m bs\<close>: what is left to read starts with \<open>bs\<close>.  Each reader turns it into the
  value read and the advanced buffer.
\<close>

definition readable :: "msg \<Rightarrow> bytes \<Rightarrow> bool" where
  "readable m bs \<longleftrightarrow> msg_ok m \<and> (\<exists>rest. unread m = bs @ rest)"

lemma readableD:
  assumes "readable m bs"
  shows "msg_ok m" "take (length bs) (unread m) = bs" "length bs \<le> length (unread m)"
    "readcount m + int (length bs) \<le> cursize m"
  using assms length_unread [of m] by (auto simp: readable_def)

lemma readable_append:
  "readable m (bs @ cs) \<longleftrightarrow> readable m bs \<and> readable (msg_adv (int (length bs)) m) cs"
proof
  assume r: "readable m (bs @ cs)"
  then obtain rest where u: "unread m = bs @ cs @ rest" by (auto simp: readable_def)
  have ok: "msg_ok m" using r by (simp add: readable_def)
  have le: "length bs \<le> length (unread m)" using u by simp
  show "readable m bs \<and> readable (msg_adv (int (length bs)) m) cs"
    using u ok adv_ok [OF ok le] unread_adv [OF ok le] by (auto simp: readable_def)
next
  assume r: "readable m bs \<and> readable (msg_adv (int (length bs)) m) cs"
  then have ok: "msg_ok m" and le: "length bs \<le> length (unread m)"
    and pre: "take (length bs) (unread m) = bs" by (auto dest: readableD)
  obtain rest where "drop (length bs) (unread m) = cs @ rest"
    using r unread_adv [OF ok le] by (auto simp: readable_def)
  then have "unread m = bs @ cs @ rest" using pre by (metis append_take_drop_id)
  then show "readable m (bs @ cs)" using ok by (auto simp: readable_def)
qed

lemma read_guard:
  assumes "readable m bs"
  shows "\<not> u32 (cursize m) < u32 (readcount m + int (length bs))"
  using readableD(1,4) [OF assms] msg_okD [of m] by simp

lemma bytes_at_readable:
  assumes "readable m bs"
  shows "bytes_at (readcount m) (int (length bs)) (data m) = bs"
  using bytes_at_unread [OF readableD(1) [OF assms] readableD(4) [OF assms]] readableD(2) [OF assms]
  by simp

lemma ReadByte_readable [msg_simps]:
  "readable m [b] \<Longrightarrow> MSG_ReadByte m = (uint b, msg_adv 1 m)"
  using read_guard [of m "[b]"] bytes_at_readable [of m "[b]"]
  by (simp add: MSG_ReadByte_def)

lemma ReadShort_readable [msg_simps]:
  "readable m (le_bytes 2 c) \<Longrightarrow> MSG_ReadShort m = (s16 c, msg_adv 2 m)"
  using read_guard [of m "le_bytes 2 c"] bytes_at_readable [of m "le_bytes 2 c"]
  by (simp add: MSG_ReadShort_def s16_le_uint del: le_bytes.simps)

lemma ReadLong_readable [msg_simps]:
  "readable m (le_bytes 4 c) \<Longrightarrow> MSG_ReadLong m = (s32 c, msg_adv 4 m)"
  using read_guard [of m "le_bytes 4 c"] bytes_at_readable [of m "le_bytes 4 c"]
  by (simp add: MSG_ReadLong_def s32_le_uint del: le_bytes.simps)

lemma ReadInt64_readable [msg_simps]:
  "readable m (le_bytes 8 c) \<Longrightarrow> MSG_ReadInt64 m = (signed_take_bit 63 c, msg_adv 8 m)"
proof -
  assume r: "readable m (le_bytes 8 c)"
  have "signed_take_bit 63 (c mod 2 ^ 64) = signed_take_bit 63 (take_bit 64 c)"
    by (simp add: take_bit_eq_mod)
  then have "signed_take_bit 63 (le_uint (le_bytes 8 c)) = signed_take_bit 63 c"
    by (simp add: le_uint_bytes signed_take_bit_take_bit)
  then show ?thesis
    using read_guard [OF r] bytes_at_readable [OF r]
    by (simp add: MSG_ReadInt64_def del: le_bytes.simps)
qed

lemma ReadFloat_readable [msg_simps]:
  "readable m (le_bytes 4 c) \<Longrightarrow> MSG_ReadFloat m = (u32 c, msg_adv 4 m)"
  using read_guard [of m "le_bytes 4 c"] bytes_at_readable [of m "le_bytes 4 c"]
  by (simp add: MSG_ReadFloat_def le_uint_bytes u32_def del: le_bytes.simps)

lemma ReadData_readable [msg_simps]:
  "readable m bs \<Longrightarrow> MSG_ReadData (length bs) m = (bs, msg_adv (int (length bs)) m)"
proof (induction bs arbitrary: m)
  case Nil
  then show ?case by (simp add: msg_adv_def)
next
  case (Cons b bs)
  have r: "readable m [b]" "readable (msg_adv 1 m) bs"
    using Cons.prems readable_append [of m "[b]" bs] by simp_all
  then show ?case
    using Cons.IH [OF r(2)] by (simp add: ReadByte_readable msg_adv_adv)
qed

lemma ReadByte_exhausted:
  "msg_ok m \<Longrightarrow> unread m = [] \<Longrightarrow> MSG_ReadByte m = (-1, m\<lparr>overflowed := True\<rparr>)"
  using msg_okD [of m] length_unread [of m] by (simp add: MSG_ReadByte_def)

section \<open>Strings\<close>

definition no_percent :: "char \<Rightarrow> char" where
  "no_percent c = (if c = CHR ''%'' then CHR ''.'' else c)"

lemma uint_byte_of_char: "uint (byte_of_char c) = uc c"
  using uc_range [of c] by (simp add: byte_of_char_def uint_byte)

lemma string_bytes_Cons [simp]: "string_bytes (c # s) = byte_of_char c # string_bytes s"
  by (simp add: string_bytes_def)

lemma length_string_bytes [simp]: "length (string_bytes s) = length s + 1"
  by (simp add: string_bytes_def)

lemma uc_percent: "uc c = 37 \<longleftrightarrow> c = CHR ''%''"
  using uc_inj [of c "CHR ''%''"] by (simp add: uc_def)

lemma uc_eq_0 [simp]: "uc c = 0 \<longleftrightarrow> c = NUL"
  using uc_inj [of c NUL] by simp

lemma read_string_readable:
  assumes "nul_free s" "\<forall>c \<in> set s. uc c \<notin> stops" "int (length s) + l < len - 1"
    and "readable m (string_bytes s)"
  shows "read_string stops len l m =
     (map no_percent s, msg_adv (int (length s) + 1) m)"
  using assms
proof (induction s arbitrary: l m)
  case Nil
  then have "readable m [0]" by (simp add: string_bytes_def)
  then show ?case by (simp add: read_string.simps ReadByte_readable)
next
  case (Cons c s)
  have r: "readable m [byte_of_char c]" "readable (msg_adv 1 m) (string_bytes s)"
    using Cons.prems(4) readable_append [of m "[byte_of_char c]" "string_bytes s"] by simp_all
  have IH: "read_string stops len (l + 1) (msg_adv 1 m) =
      (map no_percent s, msg_adv (int (length s) + 1) (msg_adv 1 m))"
    using Cons.IH [of "l + 1" "msg_adv 1 m"] Cons.prems r by simp
  have "uc c \<noteq> -1" "uc c \<noteq> 0" "uc c \<notin> stops" "l + 1 < len - 1"
    using uc_range [of c] Cons.prems by auto
  then show ?case
    using IH ReadByte_readable [OF r(1)]
    by (simp add: read_string.simps [of stops len l m] uint_byte_of_char no_percent_def
        uc_percent msg_adv_adv algebra_simps)
qed

lemma WriteString_room [msg_simps]:
  "msg_ok m \<Longrightarrow> room (length s + 1) m \<Longrightarrow> length s < 1024 \<Longrightarrow>
   MSG_WriteString (Some s) m = msg_app (string_bytes s) m"
  by (simp add: MSG_WriteString_def MAX_STRING_CHARS_def WriteData_room)

section \<open>The interface of a wire format\<close>

text \<open>
  A writer and a reader agree on an encoding: where the buffer has room the writer appends
  it, and where the reader finds it the reader returns the value and consumes exactly it.
  Then any list of values written in a row is read back in order.
\<close>

fun write_list :: "('v \<Rightarrow> msg \<Rightarrow> msg) \<Rightarrow> 'v list \<Rightarrow> msg \<Rightarrow> msg" where
  "write_list writer [] m = m"
| "write_list writer (v # vs) m = write_list writer vs (writer v m)"

fun read_list :: "(msg \<Rightarrow> 'v \<times> msg) \<Rightarrow> nat \<Rightarrow> msg \<Rightarrow> 'v list \<times> msg" where
  "read_list reader 0 m = ([], m)"
| "read_list reader (Suc n) m =
     (let (v, m1) = reader m; (vs, m2) = read_list reader n m1 in (v # vs, m2))"

locale wire_codec =
  fixes writer :: "'v \<Rightarrow> msg \<Rightarrow> msg"
    and reader :: "msg \<Rightarrow> 'v \<times> msg"
    and enc :: "'v \<Rightarrow> bytes"
    and valid :: "'v \<Rightarrow> bool"
  assumes write_law: "msg_ok m \<Longrightarrow> room (length (enc v)) m \<Longrightarrow> valid v \<Longrightarrow>
      writer v m = msg_app (enc v) m"
    and read_law: "valid v \<Longrightarrow> readable m (enc v) \<Longrightarrow>
      reader m = (v, msg_adv (int (length (enc v))) m)"
begin

lemma write_all:
  "msg_ok m \<Longrightarrow> room (length (concat (map enc vs))) m \<Longrightarrow> \<forall>v \<in> set vs. valid v \<Longrightarrow>
   write_list writer vs m = msg_app (concat (map enc vs)) m"
proof (induction vs arbitrary: m)
  case Nil
  then show ?case by simp
next
  case (Cons v vs)
  have r: "room (length (enc v)) m" using Cons.prems(2) by (rule room_mono) simp
  then show ?case
    using Cons.IH [of "msg_app (enc v) m"] Cons.prems
    by (simp add: write_law msg_app_ok room_app msg_app_app)
qed

lemma read_all:
  "readable m (concat (map enc vs)) \<Longrightarrow> \<forall>v \<in> set vs. valid v \<Longrightarrow>
   read_list reader (length vs) m = (vs, msg_adv (int (length (concat (map enc vs)))) m)"
proof (induction vs arbitrary: m)
  case Nil
  then show ?case by (simp add: msg_adv_def)
next
  case (Cons v vs)
  have r: "readable m (enc v)" "readable (msg_adv (int (length (enc v))) m) (concat (map enc vs))"
    using Cons.prems(1) readable_append [of m "enc v" "concat (map enc vs)"] by simp_all
  then show ?case
    using Cons.IH [OF r(2)] Cons.prems(2) read_law [OF _ r(1)] by (simp add: msg_adv_adv)
qed

lemma fifo:
  assumes "msg_ok m" "unread m = []" "room (length (concat (map enc vs))) m"
    and "\<forall>v \<in> set vs. valid v"
  shows "fst (read_list reader (length vs) (write_list writer vs m)) = vs"
proof -
  have "readable (msg_app (concat (map enc vs)) m) (concat (map enc vs))"
    using assms by (auto simp: readable_def msg_app_ok unread_app)
  then show ?thesis using assms write_all [of m vs] read_all by simp
qed

end

interpretation wire_byte: wire_codec MSG_WriteByte MSG_ReadByte "le_bytes 1" "\<lambda>c. 0 \<le> c \<and> c < 256"
  by unfold_locales (simp_all add: msg_simps uint_byte)

interpretation wire_short: wire_codec MSG_WriteShort MSG_ReadShort "le_bytes 2"
  "\<lambda>c. - (2 ^ 15) \<le> c \<and> c < 2 ^ 15"
  by unfold_locales (simp_all add: msg_simps del: le_bytes.simps)

interpretation wire_long: wire_codec MSG_WriteLong MSG_ReadLong "le_bytes 4"
  "\<lambda>c. - (2 ^ 31) \<le> c \<and> c < 2 ^ 31"
  by unfold_locales (simp_all add: msg_simps del: le_bytes.simps)

interpretation wire_int64: wire_codec MSG_WriteInt64 MSG_ReadInt64 "le_bytes 8"
  "\<lambda>c. - (2 ^ 63) \<le> c \<and> c < 2 ^ 63"
  by unfold_locales (simp_all add: msg_simps signed_take_bit_id del: le_bytes.simps)

interpretation wire_string: wire_codec "\<lambda>s. MSG_WriteString (Some s)" "MSG_ReadString 1024"
  string_bytes "\<lambda>s. nul_free s \<and> CHR ''%'' \<notin> set s \<and> length s < 1023"
proof unfold_locales
  fix m s
  assume "msg_ok m" "room (length (string_bytes s)) m"
    "nul_free s \<and> CHR ''%'' \<notin> set s \<and> length s < 1023"
  then show "MSG_WriteString (Some s) m = msg_app (string_bytes s) m"
    by (simp add: WriteString_room)
next
  fix s m
  assume v: "nul_free s \<and> CHR ''%'' \<notin> set s \<and> length s < 1023"
    and r: "readable m (string_bytes s)"
  then have "map no_percent s = s"
    by (auto simp: no_percent_def intro: map_idI)
  then show "MSG_ReadString 1024 m = (s, msg_adv (int (length (string_bytes s))) m)"
    using v r read_string_readable [of s "{}" 0 1024 m]
    by (simp add: MSG_ReadString_def add.commute)
qed

lemma content_overflowed [simp]: "content (m\<lparr>overflowed := True\<rparr>) = content m"
  by (simp add: content_def)

lemma blit_back:
  assumes "i + length bs \<le> length xs" "length cs = length bs"
  shows "blit i cs (blit i bs xs) = blit i cs xs"
  using assms by (simp add: blit_eq)

section \<open>Properties\<close>

text \<open>On a well-formed buffer every integer writer either appends exactly the
  little-endian bytes of its argument or, when they do not fit into maxsize, sets overflowed and
  leaves the content as it was; the buffer stays well-formed, so no store leaves the array.\<close>
theorem MSG_write_total:
  assumes "msg_ok m" "n \<in> {1, 2, 4, 8}"
    "w = (if n = 1 then MSG_WriteByte else if n = 2 then MSG_WriteShort
          else if n = 4 then MSG_WriteLong else MSG_WriteInt64)"
  shows "msg_ok (w c m) \<and> length (data (w c m)) = length (data m) \<and>
    (if room n m then content (w c m) = content m @ le_bytes n c \<and> overflowed (w c m) = overflowed m
     else content (w c m) = content m \<and> overflowed (w c m))"
proof (cases "room n m")
  case True
  then have "w c m = msg_app (le_bytes n c) m"
    using assms by (auto simp: write_room simp del: le_bytes.simps)
  moreover have "overflowed (msg_app bs m) = overflowed m" "length (data (msg_app bs m)) = length (data m)"
    for bs by (simp_all add: msg_app_def)
  ultimately show ?thesis
    using True assms(1) by (simp add: msg_app_ok content_app)
next
  case False
  then have "w c m = m\<lparr>overflowed := True\<rparr>"
    using assms by (auto simp: write_no_room)
  then show ?thesis using False assms(1) by (simp add: msg_ok_def)
qed

theorem MSG_write_total_witness:
  "msg_ok (MSG_WriteShort 258 (MSG_Init [7, 7, 7] 3)) \<and>
   content (MSG_WriteShort 258 (MSG_Init [7, 7, 7] 3)) = [2, 1] \<and>
   overflowed (MSG_WriteLong 258 (MSG_Init [7, 7, 7] 3))"
proof -
  have ok: "msg_ok (MSG_Init [7, 7, 7] 3)" by (simp add: msg_ok_def MSG_Init_def)
  have r: "room 2 (MSG_Init [7, 7, 7] 3)" "\<not> room 4 (MSG_Init [7, 7, 7] 3)"
    "content (MSG_Init [7, 7, 7] 3) = []"
    by (simp_all add: room_def MSG_Init_def content_def)
  show ?thesis
    using MSG_write_total [OF ok, of 2 MSG_WriteShort 258] r
      MSG_write_total [OF ok, of 4 MSG_WriteLong 258]
    by (simp add: le_bytes_eval)
qed

text \<open>Claim C29. Round trip of a mixed message: a long, a short, a byte, a string without percent
  signs and a block of data written in this order into a buffer with room for them are read back
  unchanged in the same order, and nothing is left unread.\<close>
theorem MSG_mixed_roundtrip:
  assumes "msg_ok m" "unread m = []" "room (8 + length s + length d) m"
    "int_range a" "- (2 ^ 15) \<le> b" "b < 2 ^ 15" "0 \<le> c" "c < 256"
    "nul_free s" "CHR ''%'' \<notin> set s" "length s < 1023"
    "m1 = MSG_WriteData d (MSG_WriteString (Some s) (MSG_WriteByte c (MSG_WriteShort b (MSG_WriteLong a m))))"
  shows "\<exists>r1 r2 r3 r4 r5. MSG_ReadLong m1 = (a, r1) \<and> MSG_ReadShort r1 = (b, r2) \<and>
    MSG_ReadByte r2 = (c, r3) \<and> MSG_ReadString 1024 r3 = (s, r4) \<and>
    MSG_ReadData (length d) r4 = (d, r5) \<and> unread r5 = []"
proof -
  let ?e = "le_bytes 4 a @ le_bytes 2 b @ le_bytes 1 c @ string_bytes s @ d"
  have r: "room 4 m" "room 6 m" "room 7 m" "room (8 + length s) m" "room (length ?e) m"
    using assms(3) by (auto elim: room_mono)
  have m1: "m1 = msg_app ?e m"
    using assms(1,3,11,12) r
    by (simp add: msg_simps msg_app_ok room_app del: le_bytes.simps)
  then have u: "unread m1 = ?e" "msg_ok m1" "length (unread m1) = length ?e"
    using assms(1,2) r(5) by (simp_all add: unread_app msg_app_ok)
  then have rd: "readable m1 ?e" by (auto simp: readable_def)
  let ?r2 = "msg_adv 4 m1" and ?r3 = "msg_adv 6 m1" and ?r4 = "msg_adv 7 m1"
  have q: "readable m1 (le_bytes 4 a)" "readable ?r2 (le_bytes 2 b)" "readable ?r3 (le_bytes 1 c)"
    "readable ?r4 (string_bytes s)" "readable (msg_adv (8 + int (length s)) m1) d"
    using rd by (simp_all add: readable_append msg_adv_adv algebra_simps del: le_bytes.simps)
  have "unread (msg_adv (int (length ?e)) m1) = []"
    using unread_adv [OF u(2), of "length ?e"] u(1) by simp
  then have "unread (msg_adv (8 + int (length s) + int (length d)) m1) = []"
    by (simp add: algebra_simps)
  moreover have "MSG_ReadString 1024 ?r4 = (s, msg_adv (8 + int (length s)) m1)"
    using wire_string.read_law [OF _ q(4)] assms(9-11) by (simp add: msg_adv_adv algebra_simps)
  ultimately show ?thesis
    using q assms(4-8) wire_byte.read_law [OF _ q(3)]
    by (simp add: msg_simps int_range_def algebra_simps del: le_bytes.simps)
qed

theorem MSG_mixed_roundtrip_witness:
  "\<exists>r1. MSG_ReadLong (MSG_WriteData [9, 8] (MSG_WriteString (Some ''hi'') (MSG_WriteByte 255
     (MSG_WriteShort (-2) (MSG_WriteLong (-5) (MSG_Init (replicate 32 0) 32)))))) = (-5, r1)"
proof -
  let ?m = "MSG_Init (replicate 32 0) 32"
  have "msg_ok ?m" "unread ?m = []" "room (8 + length ''hi'' + length [9::byte, 8]) ?m"
    by (simp_all add: msg_ok_def MSG_Init_def unread_def content_def room_def)
  from MSG_mixed_roundtrip [OF this, of "-5" "-2" 255] show ?thesis
    by (auto simp: int_range_def nul_free_def)
qed

text \<open>The length frame: what MSG_EndWriteMessageLength writes at the offset remembered
  by MSG_BeginWriteMessageLength is the number of bytes written in between, and those bytes and
  the content before are untouched.\<close>
theorem MSG_length_frame:
  assumes "msg_ok m" "room (4 + length bs) m"
  shows "content (MSG_EndWriteMessageLength (MSG_WriteData bs (MSG_BeginWriteMessageLength m))) =
    content m @ le_bytes 4 (int (length bs)) @ bs"
proof -
  let ?m1 = "m\<lparr>lastRefEntity := cursize m\<rparr>"
  have ok: "msg_ok ?m1" "room (4 + length bs) ?m1" using assms by (simp_all add: msg_ok_def room_def)
  have r4: "room 4 ?m1" using ok(2) by (rule room_mono) simp
  have guard: "\<not> s32 (maxsize m - cursize m) < 1"
    using msg_okD [OF assms(1)] assms(2) by (simp add: room_def)
  have b: "MSG_BeginWriteMessageLength m = msg_app (le_bytes 4 0) ?m1"
    using guard write_room(3) [OF ok(1) r4, of 0]
    by (simp add: MSG_BeginWriteMessageLength_def del: le_bytes.simps)
  have w: "MSG_WriteData bs (MSG_BeginWriteMessageLength m) = msg_app (le_bytes 4 0 @ bs) ?m1"
    using ok r4 by (simp add: b msg_simps msg_app_ok room_app del: le_bytes.simps)
  let ?m2 = "msg_app (le_bytes 4 0 @ bs) ?m1"
  let ?m3 = "?m2\<lparr>cursize := cursize m\<rparr>"
  have fields: "cursize ?m2 = cursize m + 4 + int (length bs)" "lastRefEntity ?m2 = cursize m"
    by (simp_all add: msg_app_def)
  have ok3: "msg_ok ?m3" "room 4 ?m3"
    using ok r4 by (simp_all add: msg_ok_def room_def msg_app_def)
  have e: "MSG_EndWriteMessageLength ?m2 =
      (msg_app (le_bytes 4 (int (length bs))) ?m3)\<lparr>cursize := cursize ?m2\<rparr>"
    using write_room(3) [OF ok3, of "int (length bs)"] fields
    by (simp add: MSG_EndWriteMessageLength_def Let_def del: le_bytes.simps)
  let ?i = "nat (cursize m)"
  have len: "?i + (4 + length bs) \<le> length (data m)"
    using msg_okD [OF assms(1)] assms(2) by (simp add: room_def)
  have "data (MSG_EndWriteMessageLength ?m2) =
      blit ?i (le_bytes 4 (int (length bs))) (blit ?i (le_bytes 4 0 @ bs) (data m))"
    unfolding e by (simp add: msg_app_def del: le_bytes.simps)
  also have "\<dots> = take ?i (data m) @ le_bytes 4 (int (length bs)) @ bs @ drop (?i + 4 + length bs) (data m)"
    using len by (simp add: blit_eq add.assoc del: le_bytes.simps)
  finally have "content (MSG_EndWriteMessageLength ?m2) =
      take (?i + 4 + length bs)
        (take ?i (data m) @ le_bytes 4 (int (length bs)) @ bs @ drop (?i + 4 + length bs) (data m))"
    unfolding content_def e using fields(1) msg_okD(2) [OF assms(1)]
    by (simp add: nat_add_distrib del: le_bytes.simps)
  also have "\<dots> = content m @ le_bytes 4 (int (length bs)) @ bs"
    using len by (simp add: content_def del: le_bytes.simps)
  finally show ?thesis unfolding w .
qed

theorem MSG_length_frame_witness:
  "content (MSG_EndWriteMessageLength (MSG_WriteData [1, 2, 3]
     (MSG_BeginWriteMessageLength (MSG_Init (replicate 16 0) 16)))) = [3, 0, 0, 0, 1, 2, 3]"
proof -
  have "msg_ok (MSG_Init (replicate 16 0) 16)" "room (4 + length [1::byte, 2, 3]) (MSG_Init (replicate 16 0) 16)"
    by (simp_all add: msg_ok_def MSG_Init_def room_def)
  from MSG_length_frame [OF this] show ?thesis
    by (simp add: content_def MSG_Init_def le_bytes_eval)
qed

text \<open>MSG_Copy takes over the source's maxsize although the destination array has only
  length cells: when the copied content fills the destination, the next MSG_WriteByte is not
  flagged as an overflow and stores past the end of the array.\<close>
theorem MSG_Copy_keeps_source_maxsize:
  assumes "msg_ok src" "cursize src = int (length buf)" "length buf < nat (maxsize src)"
  shows "\<exists>m. MSG_Copy buf (int (length buf)) src = Inr m \<and> content m = content src \<and>
     \<not> msg_ok m \<and> cursize m = int (length (data m)) \<and>
     MSG_WriteByte c m = msg_app (le_bytes 1 c) m"
proof -
  let ?m = "src\<lparr>data := blit 0 (take (nat (cursize src)) (data src)) buf\<rparr>"
  have "length (take (nat (cursize src)) (data src)) = length buf"
    using assms(2) msg_okD(9) [OF assms(1)] by simp
  then have "content ?m = content src" by (simp add: content_def blit_eq assms(2))
  moreover have "MSG_Copy buf (int (length buf)) src = Inr ?m"
    using assms(2) by (simp add: MSG_Copy_def)
  moreover have "\<not> msg_ok ?m" using assms(3) by (simp add: msg_ok_def not_le nat_less_iff) linarith
  moreover have "\<not> s32 (maxsize src - cursize src) < 1"
    using msg_okD [OF assms(1)] assms(2,3) by simp
  then have "MSG_WriteByte c ?m = msg_app (le_bytes 1 c) ?m"
    by (simp add: MSG_WriteByte_def)
  ultimately show ?thesis using assms(2) by auto
qed

theorem MSG_Copy_keeps_source_maxsize_witness:
  "\<exists>m. MSG_Copy [0, 0] 2 (MSG_WriteShort 5 (MSG_Init [0, 0, 0, 0] 4)) = Inr m \<and> \<not> msg_ok m"
proof -
  let ?s = "MSG_WriteShort 5 (MSG_Init [0, 0, 0, 0] 4)"
  have s: "?s = msg_app (le_bytes 2 5) (MSG_Init [0, 0, 0, 0] 4)"
    by (rule write_room) (simp_all add: msg_ok_def MSG_Init_def room_def)
  have "msg_ok ?s" "cursize ?s = int (length [0::byte, 0])" "length [0::byte, 0] < nat (maxsize ?s)"
    unfolding s by (simp_all add: msg_ok_def MSG_Init_def msg_app_def)
  from MSG_Copy_keeps_source_maxsize [OF this] show ?thesis by auto
qed

end
