(* ===== verification/MsgBits.thy ===== *)
theory MsgBits
  imports MsgBuffer
begin

text \<open>
  The bit-level operations of src/src/msg.c: single bits, bit fields, entity indices and the
  24-bit flag words.  A bit is stored in the byte numbered \<open>bit div 8\<close>; a fresh byte is
  taken from the byte stream whenever \<open>bit\<close> is a multiple of 8.  The abstract view of a
  buffer used for bits only is a bit stream: \<open>wpos m p\<close> and \<open>rpos m p\<close> say that the writer
  or reader stands at bit \<open>p\<close>, \<open>stream_bit\<close> reads a bit of the stream.
\<close>

section \<open>The operations\<close>

definition set_bit_at :: "int \<Rightarrow> bytes \<Rightarrow> bytes" where
  "set_bit_at p xs =
     put (p div 8) (idx xs (p div 8) OR push_bit (nat (p mod 8)) 1) xs"

definition fresh_bit_byte :: "msg \<Rightarrow> msg" where
  "fresh_bit_byte m =
     m\<lparr>bitpos := 8 * cursize m, data := put (cursize m) 0 (data m), cursize := cursize m + 1\<rparr>"

definition MSG_WriteBit0 :: "msg \<Rightarrow> msg" where
  "MSG_WriteBit0 m =
     (if bitpos m mod 8 = 0 then
        (if maxsize m \<le> cursize m then m\<lparr>overflowed := True\<rparr>
         else (fresh_bit_byte m)\<lparr>bitpos := 8 * cursize m + 1\<rparr>)
      else m\<lparr>bitpos := bitpos m + 1\<rparr>)"

definition MSG_WriteBit1 :: "msg \<Rightarrow> msg" where
  "MSG_WriteBit1 m =
     (if bitpos m mod 8 = 0 \<and> maxsize m \<le> cursize m then m\<lparr>overflowed := True\<rparr>
      else let m1 = (if bitpos m mod 8 = 0 then fresh_bit_byte m else m)
           in m1\<lparr>data := set_bit_at (bitpos m1) (data m1), bitpos := bitpos m1 + 1\<rparr>)"

primrec writebits_loop :: "nat \<Rightarrow> int \<Rightarrow> msg \<Rightarrow> msg" where
  "writebits_loop 0 bits m = m"
| "writebits_loop (Suc n) bits m =
     (let m1 = (if bitpos m mod 8 = 0 then fresh_bit_byte m else m);
          m2 = (if bits AND 1 \<noteq> 0
                then m1\<lparr>data := set_bit_at (bitpos m1) (data m1)\<rparr> else m1)
      in writebits_loop n (bits div 2) (m2\<lparr>bitpos := bitpos m2 + 1\<rparr>))"

definition MSG_WriteBits :: "int \<Rightarrow> nat \<Rightarrow> msg \<Rightarrow> msg" where
  "MSG_WriteBits bits bitcount m =
     (if s32 (maxsize m - cursize m) < 4 then m\<lparr>overflowed := True\<rparr>
      else writebits_loop bitcount bits m)"

text \<open>The byte that holds bit \<open>p\<close>: in \<open>data\<close> below \<open>cursize\<close>, else in \<open>splitData\<close>.\<close>

definition bit_source :: "msg \<Rightarrow> int \<Rightarrow> byte" where
  "bit_source m k =
     (if k < cursize m then idx (data m) k
      else case splitData m of None \<Rightarrow> 0 | Some s \<Rightarrow> idx s (k - cursize m))"

definition MSG_GetUsedBitCount :: "msg \<Rightarrow> int" where
  "MSG_GetUsedBitCount m = (cursize m + splitSize m) * 8 - ((8 - bitpos m) AND 7)"

definition MSG_ReadBit :: "msg \<Rightarrow> int \<times> msg" where
  "MSG_ReadBit m =
     (let oldbit7 = bitpos m mod 8 in
      if oldbit7 = 0 \<and> cursize m + splitSize m \<le> readcount m
      then (-1, m\<lparr>overflowed := True\<rparr>)
      else let m1 = (if oldbit7 = 0
                     then m\<lparr>bitpos := 8 * readcount m, readcount := readcount m + 1\<rparr> else m)
           in (of_bool (bit (bit_source m1 (bitpos m1 div 8)) (nat oldbit7)),
               m1\<lparr>bitpos := bitpos m1 + 1\<rparr>))"

text \<open>
  One round of the loop of \<open>MSG_ReadBits\<close>: an early return with its value, or the bit read.
\<close>

definition readbits_round :: "msg \<Rightarrow> int option \<times> bool \<times> msg" where
  "readbits_round m =
     (if bitpos m mod 8 = 0 \<and> splitSize m + cursize m \<le> readcount m
      then (Some (-1), False, m\<lparr>overflowed := True\<rparr>)
      else let m1 = (if bitpos m mod 8 = 0
                     then m\<lparr>bitpos := 8 * readcount m, readcount := readcount m + 1\<rparr> else m)
           in if cursize m1 \<le> bitpos m1 div 8 \<and> splitData m1 = None then (Some 0, False, m1)
              else (None, bit (bit_source m1 (bitpos m1 div 8)) (nat (bitpos m1 mod 8)),
                    m1\<lparr>bitpos := bitpos m1 + 1\<rparr>))"

text \<open>\<open>retval |= ((var >> (bit & 7)) & 1) << i\<close>, an \<open>int\<close>.\<close>

primrec readbits_loop :: "nat \<Rightarrow> nat \<Rightarrow> int \<Rightarrow> msg \<Rightarrow> int \<times> msg" where
  "readbits_loop 0 i retval m = (retval, m)"
| "readbits_loop (Suc n) i retval m =
     (case readbits_round m of
        (Some r, b, m1) \<Rightarrow> (r, m1)
      | (None, b, m1) \<Rightarrow> readbits_loop n (Suc i) (s32 (retval OR push_bit i (of_bool b))) m1)"

definition MSG_ReadBits :: "int \<Rightarrow> msg \<Rightarrow> int \<times> msg" where
  "MSG_ReadBits numBits m = readbits_loop (nat numBits) 0 0 m"

text \<open>
  \<open>MSG_Write24BitFlag\<close> scans for the lowest set bit of \<open>xorflags\<close>; with equal flag words
  that loop does not end (None).
\<close>

primrec lowest_bit :: "nat \<Rightarrow> int \<Rightarrow> int \<Rightarrow> int option" where
  "lowest_bit 0 x i = None"
| "lowest_bit (Suc n) x i = (if x AND 1 \<noteq> 0 then Some i else lowest_bit n (x div 2) (i + 1))"

definition MSG_Write24BitFlag :: "int \<Rightarrow> int \<Rightarrow> msg \<Rightarrow> msg option" where
  "MSG_Write24BitFlag oldFlags newFlags m =
     (let xorflags = newFlags XOR oldFlags in
      if s32 (xorflags - 1) AND xorflags \<noteq> 0 then
        Some (MSG_WriteByte (newFlags div 65536)
               (MSG_WriteByte (newFlags div 256)
                 (MSG_WriteByte newFlags (MSG_WriteBit1 m))))
      else case lowest_bit 32 xorflags 0 of
        None \<Rightarrow> None
      | Some i \<Rightarrow> Some (MSG_WriteBits i 5 (MSG_WriteBit0 m)))"

definition MSG_WriteEntityIndex :: "int \<Rightarrow> int \<Rightarrow> msg \<Rightarrow> msg" where
  "MSG_WriteEntityIndex index indexBits m =
     (if s32 (index - lastRefEntity m) = 1 then (MSG_WriteBit1 m)\<lparr>lastRefEntity := index\<rparr>
      else let m0 = MSG_WriteBit0 m in
        if indexBits \<noteq> 10 \<or> 15 < s32 (index - lastRefEntity m)
        then let m1 = (if indexBits = 10 then MSG_WriteBit1 m0 else m0)
             in (MSG_WriteBits index (nat indexBits) m1)\<lparr>lastRefEntity := index\<rparr>
        else (MSG_WriteBits (index - lastRefEntity m) 4 (MSG_WriteBit0 m0))
               \<lparr>lastRefEntity := index\<rparr>)"

definition MSG_ReadEntityIndex :: "int \<Rightarrow> msg \<Rightarrow> int \<times> msg" where
  "MSG_ReadEntityIndex numBits m =
     (let (b, m1) = MSG_ReadBit m in
      if b \<noteq> 0 then (let e = s32 (lastRefEntity m1 + 1) in (e, m1\<lparr>lastRefEntity := e\<rparr>))
      else let (full, m2) = (if numBits \<noteq> 10 then (1, m1) else MSG_ReadBit m1) in
        if full \<noteq> 0
        then let (e, m3) = MSG_ReadBits numBits m2 in (e, m3\<lparr>lastRefEntity := e\<rparr>)
        else let (d, m3) = MSG_ReadBits 4 m2; e = s32 (lastRefEntity m3 + d)
             in (e, m3\<lparr>lastRefEntity := e\<rparr>))"

section \<open>Bit streams\<close>

definition stream_bit :: "bytes \<Rightarrow> int \<Rightarrow> bool" where
  "stream_bit xs p = bit (idx xs (p div 8)) (nat (p mod 8))"

definition wpos :: "msg \<Rightarrow> int \<Rightarrow> bool" where
  "wpos m p \<longleftrightarrow> 0 \<le> p \<and> msg_ok m \<and>
     (if p mod 8 = 0 then cursize m = p div 8 \<and> bitpos m mod 8 = 0
      else cursize m = p div 8 + 1 \<and> bitpos m = p \<and>
        (\<forall>q. p \<le> q \<and> q div 8 = p div 8 \<longrightarrow> \<not> stream_bit (data m) q))"

definition rpos :: "msg \<Rightarrow> int \<Rightarrow> bool" where
  "rpos m p \<longleftrightarrow> 0 \<le> p \<and> splitSize m = 0 \<and> splitData m = None \<and>
     (if p mod 8 = 0 then readcount m = p div 8 \<and> bitpos m mod 8 = 0
      else readcount m = p div 8 + 1 \<and> bitpos m = p)"

definition stream_upto :: "bytes \<Rightarrow> bytes \<Rightarrow> int \<Rightarrow> bool" where
  "stream_upto xs ys p \<longleftrightarrow> (\<forall>q. 0 \<le> q \<and> q < p \<longrightarrow> stream_bit xs q = stream_bit ys q)"

lemma bit_or_one: "k < 8 \<Longrightarrow> n < 8 \<Longrightarrow> bit ((w :: byte) OR push_bit n 1) k \<longleftrightarrow> k = n \<or> bit w k"
  by (auto simp: bit_or_iff bit_exp_iff)

lemma stream_bit_set:
  assumes "0 \<le> p" "0 \<le> q" "p div 8 < int (length xs)"
  shows "stream_bit (set_bit_at p xs) q \<longleftrightarrow> q = p \<or> stream_bit xs q"
proof (cases "q div 8 = p div 8")
  case True
  have "nat (q mod 8) < 8" "nat (p mod 8) < 8" by simp_all
  moreover have "nat (q mod 8) = nat (p mod 8) \<longleftrightarrow> q = p"
  proof -
    have "q mod 8 = p mod 8 \<longleftrightarrow> q = p" using True by (rule same_byte_mod_iff)
    then show ?thesis by (simp add: eq_nat_nat_iff)
  qed
  moreover have "0 \<le> p div 8" "nat (p div 8) < length xs" using assms(1,3) by simp_all
  moreover have "idx (put (p div 8) v xs) (q div 8) = v" for v
    unfolding True using \<open>0 \<le> p div 8\<close> \<open>nat (p div 8) < length xs\<close> by (rule idx_put_same)
  ultimately show ?thesis
    unfolding stream_bit_def set_bit_at_def using True bit_or_one by metis
next
  case False
  then have "idx (put (p div 8) v xs) (q div 8) = idx xs (q div 8)" for v
    using assms(1,2) by (intro idx_put_other) auto
  then show ?thesis using False by (auto simp: stream_bit_def set_bit_at_def)
qed

lemma stream_bit_zero_byte:
  assumes "0 \<le> k" "0 \<le> q" "k < int (length xs)"
  shows "stream_bit (put k 0 xs) q \<longleftrightarrow> q div 8 \<noteq> k \<and> stream_bit xs q"
proof (cases "q div 8 = k")
  case True
  then show ?thesis using assms by (simp add: stream_bit_def idx_put_same)
next
  case False
  then show ?thesis using assms by (simp add: stream_bit_def idx_put_other)
qed

lemma length_set_bit_at [simp]: "length (set_bit_at p xs) = length xs"
  by (simp add: set_bit_at_def)

text \<open>The common effect of the three writers on one bit, when there is room.\<close>

definition step_bit :: "bool \<Rightarrow> msg \<Rightarrow> msg" where
  "step_bit b m =
     (let m1 = (if bitpos m mod 8 = 0 then fresh_bit_byte m else m)
      in (if b then m1\<lparr>data := set_bit_at (bitpos m1) (data m1)\<rparr> else m1)
           \<lparr>bitpos := bitpos m1 + 1\<rparr>)"

lemma msg_ok_resize:
  "msg_ok m \<Longrightarrow> cursize m \<le> c \<Longrightarrow> c \<le> maxsize m \<Longrightarrow> cursize m2 = c \<Longrightarrow> maxsize m2 = maxsize m \<Longrightarrow>
   length (data m2) = length (data m) \<Longrightarrow> readcount m2 = readcount m \<Longrightarrow> msg_ok m2"
  by (simp add: msg_ok_def)

lemma wpos_step:
  assumes "wpos m p" "p mod 8 = 0 \<Longrightarrow> cursize m < maxsize m" and m2_def: "m2 = step_bit b m"
  shows "wpos m2 (p + 1)" "stream_bit (data m2) p = b" "stream_upto (data m) (data m2) p"
    "cursize m2 = p div 8 + 1" "maxsize m2 = maxsize m" "length (data m2) = length (data m)"
    "readcount m2 = readcount m" "lastRefEntity m2 = lastRefEntity m"
proof -
  define m1 where "m1 = (if bitpos m mod 8 = 0 then fresh_bit_byte m else m)"
  have m2: "m2 = (if b then m1\<lparr>data := set_bit_at (bitpos m1) (data m1)\<rparr> else m1)
               \<lparr>bitpos := bitpos m1 + 1\<rparr>"
    by (simp add: m2_def step_bit_def m1_def Let_def)
  have p: "0 \<le> p" and ok: "msg_ok m" using assms(1) by (auto simp: wpos_def)
  have bp: "bitpos m mod 8 = 0 \<longleftrightarrow> p mod 8 = 0"
    using assms(1) by (auto simp: wpos_def split: if_splits)
  have m1: "bitpos m1 = p" "cursize m1 = p div 8 + 1" "maxsize m1 = maxsize m"
    "length (data m1) = length (data m)" "readcount m1 = readcount m"
    "lastRefEntity m1 = lastRefEntity m"
    using assms(1) m1_def bp by (auto simp: wpos_def fresh_bit_byte_def split: if_splits)
  have room: "p div 8 < maxsize m"
    using assms(1,2) msg_okD(4) [OF ok] by (auto simp: wpos_def split: if_splits)
  then have inlen: "p div 8 < int (length (data m))" using msg_okD(5) [OF ok] by simp
  have low: "stream_upto (data m) (data m1) p"
  proof (cases "p mod 8 = 0")
    case True
    then have "data m1 = put (p div 8) 0 (data m)"
      using assms(1) m1_def bp by (simp add: wpos_def fresh_bit_byte_def)
    moreover have "q div 8 \<noteq> p div 8" if "q < p" for q
      using that True by (rule earlier_byte)
    ultimately show ?thesis
      using p inlen by (auto simp: stream_upto_def stream_bit_zero_byte)
  next
    case False
    then show ?thesis using m1_def bp by (simp add: stream_upto_def)
  qed
  have clear: "\<not> stream_bit (data m1) q" if "p \<le> q" "q div 8 = p div 8" for q
  proof (cases "p mod 8 = 0")
    case True
    then have "data m1 = put (p div 8) 0 (data m)"
      using assms(1) m1_def bp by (simp add: wpos_def fresh_bit_byte_def)
    then show ?thesis using that p inlen by (simp add: stream_bit_zero_byte)
  next
    case False
    then show ?thesis using that assms(1) m1_def bp by (auto simp: wpos_def)
  qed
  have d2: "data m2 = (if b then set_bit_at p (data m1) else data m1)"
    using m2 m1(1) by simp
  have len1: "p div 8 < int (length (data m1))" using inlen m1(4) by simp
  have bits2: "stream_bit (data m2) q \<longleftrightarrow> (b \<and> q = p) \<or> stream_bit (data m1) q" if "0 \<le> q" for q
    using that stream_bit_set [OF p that len1] by (auto simp: d2)
  have grown: "cursize m \<le> p div 8 + 1" using assms(1) by (simp add: wpos_def split: if_splits)
  show "cursize m2 = p div 8 + 1" "maxsize m2 = maxsize m" "length (data m2) = length (data m)"
    "readcount m2 = readcount m" "lastRefEntity m2 = lastRefEntity m"
    using m2 m1 by simp_all
  then have ok2: "msg_ok m2"
    by (intro msg_ok_resize [OF ok _ _ \<open>cursize m2 = p div 8 + 1\<close>]) (use grown room in simp_all)
  show "stream_bit (data m2) p = b" using bits2 [OF p] clear [of p] by auto
  show "stream_upto (data m) (data m2) p"
    using low bits2 p by (auto simp: stream_upto_def)
  show "wpos m2 (p + 1)"
  proof (cases "(p + 1) mod 8 = 0")
    case True
    then have "(p + 1) div 8 = p div 8 + 1" by (rule next_bit_new_byte)
    then show ?thesis using True ok2 p m2 m1(1,2) by (simp add: wpos_def)
  next
    case False
    then have d: "(p + 1) div 8 = p div 8" by (rule next_bit_same_byte)
    have "\<not> stream_bit (data m2) q" if "p + 1 \<le> q" "q div 8 = p div 8" for q
      using that bits2 [of q] clear [of q] p by auto
    then show ?thesis using False d ok2 p m2 m1(1,2) by (simp add: wpos_def)
  qed
qed

lemma stream_upto_trans:
  "stream_upto xs ys p \<Longrightarrow> stream_upto ys zs r \<Longrightarrow> p \<le> r \<Longrightarrow> stream_upto xs zs p"
  by (auto simp: stream_upto_def)

lemma WriteBit_step:
  assumes "wpos m p" "p mod 8 = 0 \<Longrightarrow> cursize m < maxsize m"
  shows "MSG_WriteBit0 m = step_bit False m" "MSG_WriteBit1 m = step_bit True m"
proof -
  have "bitpos m mod 8 \<noteq> 0 \<or> \<not> maxsize m \<le> cursize m"
    using assms by (auto simp: wpos_def split: if_splits)
  then show "MSG_WriteBit0 m = step_bit False m" "MSG_WriteBit1 m = step_bit True m"
    by (cases "bitpos m mod 8 = 0";
        simp only: MSG_WriteBit0_def MSG_WriteBit1_def step_bit_def fresh_bit_byte_def Let_def;
        simp)+
qed

lemma writebits_step: "writebits_loop (Suc n) v m = writebits_loop n (v div 2) (step_bit (odd v) m)"
  by (simp add: step_bit_def Let_def and_one_eq odd_iff_mod_2_eq_one)

text \<open>What a write of one bit or of a field does to the stream.\<close>

definition wrote :: "msg \<Rightarrow> msg \<Rightarrow> int \<Rightarrow> bool list \<Rightarrow> bool" where
  "wrote m m' p bs \<longleftrightarrow>
     wpos m' (p + int (length bs)) \<and> stream_upto (data m) (data m') p \<and>
     (\<forall>i < length bs. stream_bit (data m') (p + int i) = bs ! i) \<and>
     maxsize m' = maxsize m \<and> lastRefEntity m' = lastRefEntity m"

lemma wrote_trans:
  assumes "wrote m m1 p bs" "wrote m1 m2 (p + int (length bs)) cs" "0 \<le> p"
  shows "wrote m m2 p (bs @ cs)"
proof -
  have "stream_bit (data m2) (p + int i) = (bs @ cs) ! i" if "i < length (bs @ cs)" for i
  proof (cases "i < length bs")
    case True
    then have "stream_bit (data m2) (p + int i) = stream_bit (data m1) (p + int i)"
      using assms(2,3) by (auto simp: wrote_def stream_upto_def)
    then show ?thesis using True assms(1) by (simp add: wrote_def nth_append)
  next
    case False
    define j where "j = i - length bs"
    have j: "i = length bs + j" "j < length cs" using False that by (auto simp: j_def)
    then have "stream_bit (data m2) (p + int (length bs) + int j) = cs ! j"
      using assms(2) by (simp add: wrote_def)
    then show ?thesis using j by (simp add: add.assoc)
  qed
  moreover have "stream_upto (data m) (data m2) p"
    using assms(1,2) by (auto simp: wrote_def intro: stream_upto_trans)
  ultimately show ?thesis
    using assms(1,2) by (simp add: wrote_def add.assoc)
qed

lemma wrote_step:
  assumes "wpos m p" "p mod 8 = 0 \<Longrightarrow> cursize m < maxsize m"
  shows "wrote m (step_bit b m) p [b]"
  using wpos_step [OF assms refl, where b = b] by (simp add: wrote_def)

lemma wrote_bit:
  assumes "wpos m p" "p mod 8 = 0 \<Longrightarrow> cursize m < maxsize m"
  shows "wrote m (MSG_WriteBit0 m) p [False]" "wrote m (MSG_WriteBit1 m) p [True]"
  using wrote_step [OF assms] WriteBit_step [OF assms] by simp_all

text \<open>The bits of a field, lowest first.\<close>

definition field_bits :: "nat \<Rightarrow> int \<Rightarrow> bool list" where
  "field_bits n v = map (bit v) [0..<n]"

lemma field_bits_Suc: "field_bits (Suc n) v = odd v # field_bits n (v div 2)"
  by (simp add: field_bits_def map_upt_Suc bit_0 bit_Suc del: upt_Suc)

lemma wrote_loop:
  "wpos m p \<Longrightarrow> (p + int n + 7) div 8 \<le> maxsize m \<Longrightarrow>
   wrote m (writebits_loop n v m) p (field_bits n v)"
proof (induction n arbitrary: m p v)
  case 0
  then show ?case by (simp add: wrote_def field_bits_def stream_upto_def)
next
  case (Suc n)
  let ?m2 = "step_bit (odd v) m"
  have p: "0 \<le> p" using Suc.prems(1) by (simp add: wpos_def)
  have r: "p mod 8 = 0 \<Longrightarrow> cursize m < maxsize m"
  proof -
    assume "p mod 8 = 0"
    then have "cursize m = p div 8" using Suc.prems(1) by (simp add: wpos_def)
    moreover have "p div 8 < (p + int (Suc n) + 7) div 8" by linarith
    ultimately show ?thesis using Suc.prems(2) by linarith
  qed
  note st = wpos_step [OF Suc.prems(1) r refl, where b = "odd v"]
  have one: "wrote m ?m2 p [odd v]" by (rule wrote_step [OF Suc.prems(1) r])
  have "wrote ?m2 (writebits_loop n (v div 2) ?m2) (p + 1) (field_bits n (v div 2))"
    using Suc.IH [OF st(1), of "v div 2"] Suc.prems(2) st(5) by (simp add: algebra_simps)
  then have "wrote m (writebits_loop n (v div 2) ?m2) p ([odd v] @ field_bits n (v div 2))"
    using wrote_trans [OF one _ p] by simp
  then show ?case unfolding writebits_step field_bits_Suc by simp
qed

section \<open>The reader\<close>

definition read_step :: "msg \<Rightarrow> msg" where
  "read_step m =
     (let m1 = (if bitpos m mod 8 = 0
                then m\<lparr>bitpos := 8 * readcount m, readcount := readcount m + 1\<rparr> else m)
      in m1\<lparr>bitpos := bitpos m1 + 1\<rparr>)"

text \<open>A read that moves the reader from \<open>p\<close> to \<open>q\<close> and leaves the rest.\<close>

definition reads :: "msg \<Rightarrow> msg \<Rightarrow> int \<Rightarrow> bool" where
  "reads r r' q \<longleftrightarrow> rpos r' q \<and> data r' = data r \<and> cursize r' = cursize r \<and>
     maxsize r' = maxsize r \<and> lastRefEntity r' = lastRefEntity r"

lemma reads_trans: "reads r r1 p \<Longrightarrow> reads r1 r2 q \<Longrightarrow> reads r r2 q"
  by (simp add: reads_def)

lemma rposD:
  assumes "rpos r p"
  shows "0 \<le> p" "splitSize r = 0" "splitData r = None" "bitpos r mod 8 = 0 \<longleftrightarrow> p mod 8 = 0"
    "bitpos r mod 8 = p mod 8"
    "p mod 8 = 0 \<Longrightarrow> readcount r = p div 8" "p mod 8 \<noteq> 0 \<Longrightarrow> readcount r = p div 8 + 1"
    "p mod 8 \<noteq> 0 \<Longrightarrow> bitpos r = p"
  using assms by (auto simp: rpos_def split: if_splits)

lemma reads_step:
  assumes "rpos r p"
  shows "reads r (read_step r) (p + 1)"
proof -
  note R = rposD [OF assms]
  have p8: "p mod 8 = 0 \<Longrightarrow> 8 * (p div 8) = p" using div_mod_8 [of p] by linarith
  have b: "bitpos (read_step r) = p + 1" "readcount (read_step r) = p div 8 + 1"
    using R p8 by (auto simp: read_step_def Let_def)
  have same: "data (read_step r) = data r" "cursize (read_step r) = cursize r"
    "maxsize (read_step r) = maxsize r" "lastRefEntity (read_step r) = lastRefEntity r"
    "splitSize (read_step r) = 0" "splitData (read_step r) = None"
    using R(2,3) by (simp_all add: read_step_def Let_def)
  have "rpos (read_step r) (p + 1)"
  proof (cases "(p + 1) mod 8 = 0")
    case True
    then show ?thesis using b same R(1) next_bit_new_byte [OF True] by (simp add: rpos_def)
  next
    case False
    then show ?thesis using b same R(1) next_bit_same_byte [OF False] by (simp add: rpos_def)
  qed
  then show ?thesis using same by (simp add: reads_def)
qed

lemma read_one:
  assumes "rpos r p" "p div 8 < cursize r"
  shows "readbits_round r = (None, stream_bit (data r) p, read_step r)"
    "MSG_ReadBit r = (of_bool (stream_bit (data r) p), read_step r)"
proof -
  note R = rposD [OF assms(1)]
  have p8: "p mod 8 = 0 \<Longrightarrow> 8 * (p div 8) = p" using div_mod_8 [of p] by linarith
  define r1 where "r1 = (if bitpos r mod 8 = 0
                         then r\<lparr>bitpos := 8 * readcount r, readcount := readcount r + 1\<rparr> else r)"
  have r1: "bitpos r1 = p" "cursize r1 = cursize r" "data r1 = data r"
    using R p8 by (auto simp: r1_def)
  have src: "bit_source r1 (p div 8) = idx (data r) (p div 8)"
    using assms(2) r1 by (simp add: bit_source_def)
  have go: "\<not> (bitpos r mod 8 = 0 \<and> splitSize r + cursize r \<le> readcount r)"
    using R assms(2) by auto
  then have go': "\<not> (bitpos r mod 8 = 0 \<and> cursize r + splitSize r \<le> readcount r)"
    by (simp add: add.commute)
  have st: "r1\<lparr>bitpos := bitpos r1 + 1\<rparr> = read_step r"
    unfolding read_step_def r1_def Let_def ..
  have more: "\<not> (cursize r1 \<le> bitpos r1 div 8 \<and> splitData r1 = None)" using assms(2) r1 by simp
  show "readbits_round r = (None, stream_bit (data r) p, read_step r)"
    unfolding readbits_round_def r1_def [symmetric] Let_def if_not_P [OF go] if_not_P [OF more] st
    by (simp add: r1 src stream_bit_def)
  show "MSG_ReadBit r = (of_bool (stream_bit (data r) p), read_step r)"
    unfolding MSG_ReadBit_def Let_def r1_def [symmetric] if_not_P [OF go'] st
    by (simp add: r1 src stream_bit_def R(5))
qed

lemma take_bit_snoc:
  "s32 (s32 (take_bit i v) OR push_bit i (of_bool (bit v i))) = s32 (take_bit (Suc i) v)"
proof -
  have "take_bit (Suc i) v = take_bit i v OR push_bit i (of_bool (bit v i) :: int)"
    by (rule bit_eqI) (auto simp: bit_or_iff bit_take_bit_iff bit_push_bit_iff bit_of_bool_iff
        less_Suc_eq)
  then show ?thesis unfolding s32_def
    by (simp add: bit_eq_iff bit_signed_take_bit_iff bit_or_iff)
qed

lemma readbits_loop_field:
  "rpos r p \<Longrightarrow> (p + int n + 7) div 8 \<le> cursize r \<Longrightarrow>
   \<forall>k < n. stream_bit (data r) (p + int k) = bit v (i + k) \<Longrightarrow>
   \<exists>r'. readbits_loop n i (s32 (take_bit i v)) r = (s32 (take_bit (i + n) v), r') \<and>
     reads r r' (p + int n)"
proof (induction n arbitrary: r p i)
  case 0
  then show ?case by (simp add: reads_def)
next
  case (Suc n)
  have inside: "p div 8 < cursize r" using Suc.prems(2) by linarith
  note one = reads_step [OF Suc.prems(1)] read_one [OF Suc.prems(1) inside]
  let ?r1 = "read_step r"
  have r1: "rpos ?r1 (p + 1)" "(p + 1 + int n + 7) div 8 \<le> cursize ?r1"
    using one(1) Suc.prems(2) by (simp_all add: reads_def algebra_simps)
  have bits: "stream_bit (data ?r1) (p + 1 + int k) = bit v (Suc i + k)" if "k < n" for k
    using Suc.prems(3) [rule_format, of "Suc k"] that one(1) by (simp add: reads_def algebra_simps)
  obtain r' where r': "readbits_loop n (Suc i) (s32 (take_bit (Suc i) v)) ?r1 =
      (s32 (take_bit (Suc i + n) v), r')" "reads ?r1 r' (p + 1 + int n)"
    using Suc.IH [OF r1] bits by blast
  have "stream_bit (data r) p = bit v i" using Suc.prems(3) [rule_format, of 0] by simp
  then have "readbits_loop (Suc n) i (s32 (take_bit i v)) r =
      (s32 (take_bit (Suc i + n) v), r')"
    using r'(1) one(2) by (simp add: take_bit_snoc)
  moreover have "reads r r' (p + int (Suc n))"
    using reads_trans [OF one(1) r'(2)] by (simp add: algebra_simps)
  ultimately show ?case by auto
qed

lemma ReadBits_field:
  assumes "rpos r p" "(p + int n + 7) div 8 \<le> cursize r"
    "\<forall>k < n. stream_bit (data r) (p + int k) = bit v k"
  obtains r' where "MSG_ReadBits (int n) r = (s32 (take_bit n v), r')" "reads r r' (p + int n)"
  using readbits_loop_field [OF assms(1,2), of v 0] assms(3) by (auto simp: MSG_ReadBits_def)

section \<open>Round trip of a sequence of flags and bit fields\<close>

datatype bit_field = Flag bool | Field nat int

primrec field_stream :: "bit_field \<Rightarrow> bool list" where
  "field_stream (Flag b) = [b]"
| "field_stream (Field n v) = field_bits n v"

primrec field_value :: "bit_field \<Rightarrow> int" where
  "field_value (Flag b) = of_bool b"
| "field_value (Field n v) = s32 (take_bit n v)"

primrec write_field :: "bit_field \<Rightarrow> msg \<Rightarrow> msg" where
  "write_field (Flag b) m = (if b then MSG_WriteBit1 m else MSG_WriteBit0 m)"
| "write_field (Field n v) m = MSG_WriteBits v n m"

primrec read_field :: "bit_field \<Rightarrow> msg \<Rightarrow> int \<times> msg" where
  "read_field (Flag b) r = MSG_ReadBit r"
| "read_field (Field n v) r = MSG_ReadBits (int n) r"

primrec read_fields :: "bit_field list \<Rightarrow> msg \<Rightarrow> int list \<times> msg" where
  "read_fields [] r = ([], r)"
| "read_fields (f # fs) r =
     (let (v, r1) = read_field f r; (vs, r2) = read_fields fs r1 in (v # vs, r2))"

definition stream_of :: "bit_field list \<Rightarrow> bool list" where
  "stream_of fs = concat (map field_stream fs)"

lemma length_field_bits [simp]: "length (field_bits n v) = n"
  by (simp add: field_bits_def)

lemma wpos_cursize: "wpos m p \<Longrightarrow> cursize m = (p + 7) div 8"
  using div_mod_8 [of p] div_mod_8 [of "p + 7"] by (simp add: wpos_def split: if_splits; linarith)

lemma wposD: "wpos m p \<Longrightarrow> 0 \<le> p" "wpos m p \<Longrightarrow> msg_ok m"
  by (simp_all add: wpos_def)

lemma wpos_room:
  "wpos m p \<Longrightarrow> (p + int n + 7) div 8 + 4 \<le> maxsize m \<Longrightarrow> s32 (maxsize m - cursize m) \<ge> 4"
  using wpos_cursize [of m p] msg_okD [OF wposD(2), of m p] wposD(1) [of m p]
  by (subst s32_id) (auto; linarith)+

lemma wrote_field:
  assumes "wpos m p" "(p + int (length (field_stream f)) + 7) div 8 + 4 \<le> maxsize m"
  shows "wrote m (write_field f m) p (field_stream f)"
proof (cases f)
  case (Flag b)
  have "cursize m < maxsize m" using wpos_cursize [OF assms(1)] assms(2) Flag by auto
  then show ?thesis using wrote_bit [OF assms(1)] Flag by auto
next
  case (Field n v)
  have "\<not> s32 (maxsize m - cursize m) < 4" using wpos_room [OF assms(1), of n] assms(2) Field by simp
  then show ?thesis using wrote_loop [OF assms(1), of n v] assms(2) Field by (simp add: MSG_WriteBits_def)
qed

lemma read_field_stream:
  assumes "rpos r p" "(p + int (length (field_stream f)) + 7) div 8 \<le> cursize r"
    "\<forall>k < length (field_stream f). stream_bit (data r) (p + int k) = field_stream f ! k"
  obtains r' where "read_field f r = (field_value f, r')"
    "reads r r' (p + int (length (field_stream f)))"
proof (cases f)
  case (Flag b)
  have "p div 8 < cursize r" using assms(2) Flag by auto
  then show ?thesis
    using read_one [OF assms(1)] reads_step [OF assms(1)] assms(3) Flag that by simp
next
  case (Field n v)
  then have "\<forall>k < n. stream_bit (data r) (p + int k) = bit v k"
    using assms(3) by (simp add: field_bits_def)
  then show ?thesis using ReadBits_field [OF assms(1), of n v] assms(2) Field that by auto
qed

lemma wrote_fields:
  "wpos m p \<Longrightarrow> (p + int (length (stream_of fs)) + 7) div 8 + 4 \<le> maxsize m \<Longrightarrow>
   wrote m (fold write_field fs m) p (stream_of fs)"
proof (induction fs arbitrary: m p)
  case Nil
  then show ?case by (simp add: wrote_def stream_of_def stream_upto_def)
next
  case (Cons f fs)
  let ?n = "length (field_stream f)"
  have split: "stream_of (f # fs) = field_stream f @ stream_of fs" by (simp add: stream_of_def)
  have one: "wrote m (write_field f m) p (field_stream f)"
  proof (rule wrote_field [OF Cons.prems(1)])
    have "(p + int ?n + 7) div 8 \<le> (p + int (length (stream_of (f # fs))) + 7) div 8"
      by (rule zdiv_mono1) (simp_all add: split)
    then show "(p + int ?n + 7) div 8 + 4 \<le> maxsize m" using Cons.prems(2) by linarith
  qed
  have "wrote (write_field f m) (fold write_field fs (write_field f m)) (p + int ?n) (stream_of fs)"
    using Cons.IH [of "write_field f m" "p + int ?n"] one Cons.prems(2)
    by (simp add: wrote_def split add.assoc)
  then show ?case
    using wrote_trans [OF one] wposD(1) [OF Cons.prems(1)] by (simp add: split)
qed

lemma read_fields_stream:
  "rpos r p \<Longrightarrow> (p + int (length (stream_of fs)) + 7) div 8 \<le> cursize r \<Longrightarrow>
   \<forall>k < length (stream_of fs). stream_bit (data r) (p + int k) = stream_of fs ! k \<Longrightarrow>
   fst (read_fields fs r) = map field_value fs"
proof (induction fs arbitrary: r p)
  case Nil
  then show ?case by simp
next
  case (Cons f fs)
  let ?n = "length (field_stream f)"
  have split: "stream_of (f # fs) = field_stream f @ stream_of fs" by (simp add: stream_of_def)
  have "(p + int ?n + 7) div 8 \<le> (p + int (length (stream_of (f # fs))) + 7) div 8"
    by (rule zdiv_mono1) (simp_all add: split)
  then have fits: "(p + int ?n + 7) div 8 \<le> cursize r" using Cons.prems(2) by linarith
  have "\<forall>k < ?n. stream_bit (data r) (p + int k) = field_stream f ! k"
    using Cons.prems(3) by (auto simp: split nth_append)
  then obtain r' where r': "read_field f r = (field_value f, r')" "reads r r' (p + int ?n)"
    using read_field_stream [OF Cons.prems(1) fits] by blast
  have "stream_bit (data r') (p + int ?n + int k) = stream_of fs ! k"
    if "k < length (stream_of fs)" for k
    using Cons.prems(3) [rule_format, of "?n + k"] that r'(2)
    by (simp add: split reads_def nth_append add.assoc)
  moreover have "(p + int ?n + int (length (stream_of fs)) + 7) div 8 \<le> cursize r'"
    using Cons.prems(2) r'(2) by (simp add: split reads_def add.assoc)
  ultimately have "fst (read_fields fs r') = map field_value fs"
    using Cons.IH [of r' "p + int ?n"] r'(2) by (simp add: reads_def)
  then show ?case using r'(1) by (simp add: case_prod_beta Let_def)
qed

text \<open>The reader of what a writer produced: the written bytes, handed to a fresh buffer.\<close>

lemma rpos_received:
  "rpos (MSG_BeginReading (MSG_InitReadOnly (content m) (cursize m))) 0"
  by (simp add: rpos_def MSG_BeginReading_def MSG_InitReadOnly_def MSG_Init_def)

lemma stream_bit_content:
  assumes "0 \<le> p" "p div 8 < cursize m" "msg_ok m"
  shows "stream_bit (content m) p = stream_bit (data m) p"
proof -
  have "nat (p div 8) < nat (cursize m)" using assms(1,2) by simp
  then show ?thesis by (simp add: stream_bit_def idx_def content_def)
qed

lemma wpos_init:
  "int (length buf) < 2 ^ 27 \<Longrightarrow> wpos (MSG_Init buf (int (length buf))) 0"
  by (simp add: wpos_def MSG_Init_def msg_ok_def)

text \<open>
  Claim C30. Flags and bit fields (\<open>MSG_WriteBit0\<close>, \<open>MSG_WriteBit1\<close>, \<open>MSG_WriteBits\<close>)
  written in any order to a fresh buffer come back, by \<open>MSG_ReadBit\<close> and \<open>MSG_ReadBits\<close>
  of the same widths on the written bytes, as the values of the fields cut to their width;
  the writer needs four spare bytes beyond the last field, which \<open>MSG_WriteBits\<close> insists on.
\<close>

theorem MSG_bits_roundtrip:
  assumes "int (length buf) < 2 ^ 27"
    and "(int (length (stream_of fs)) + 7) div 8 + 4 \<le> int (length buf)"
    and "m = fold write_field fs (MSG_Init buf (int (length buf)))"
  shows "fst (read_fields fs (MSG_BeginReading (MSG_InitReadOnly (content m) (cursize m)))) =
    map field_value fs"
proof -
  let ?n = "int (length (stream_of fs))" and ?m0 = "MSG_Init buf (int (length buf))"
  have w: "wrote ?m0 m 0 (stream_of fs)"
    using wrote_fields [OF wpos_init [OF assms(1)], of fs] assms(2,3) by (simp add: MSG_Init_def)
  then have wp: "wpos m ?n" by (simp add: wrote_def)
  have c: "cursize m = (?n + 7) div 8" by (rule wpos_cursize [OF wp])
  have "stream_bit (content m) (int k) = stream_of fs ! k" if k: "k < length (stream_of fs)" for k
  proof -
    have "int k div 8 < cursize m" unfolding c using k by linarith
    then show ?thesis
      using stream_bit_content [OF _ _ wposD(2) [OF wp], of "int k"] w k by (simp add: wrote_def)
  qed
  then show ?thesis
    using read_fields_stream [OF rpos_received, of fs m] c
    by (simp add: MSG_BeginReading_def MSG_InitReadOnly_def MSG_Init_def)
qed

theorem MSG_bits_roundtrip_witness:
  "fst (read_fields [Flag True, Field 5 21, Flag False, Field 12 (- 1)]
     (MSG_BeginReading (MSG_InitReadOnly
       (content (fold write_field [Flag True, Field 5 21, Flag False, Field 12 (- 1)]
          (MSG_Init (replicate 8 7) (int (length (replicate 8 (7 :: byte)))))))
       (cursize (fold write_field [Flag True, Field 5 21, Flag False, Field 12 (- 1)]
          (MSG_Init (replicate 8 7) (int (length (replicate 8 (7 :: byte))))))))))
   = [1, 21, 0, 4095]"
  by (subst MSG_bits_roundtrip [OF _ _ refl]) (simp_all add: stream_of_def take_bit_eq_mod)

section \<open>Entity indices\<close>

text \<open>
  A packet of entities lists their indices in ascending order; each is written relative to
  the last one (\<open>lastRefEntity\<close>): one bit for a successor, six for a step of at most 15,
  twelve for any other index.  In terms of fields:
\<close>

definition index_fields :: "int \<Rightarrow> int \<Rightarrow> bit_field list" where
  "index_fields l i =
     (if i = l + 1 then [Flag True]
      else if 15 < i - l then [Flag False, Flag True, Field 10 i]
      else [Flag False, Flag False, Field 4 (i - l)])"

primrec indices_fields :: "int \<Rightarrow> int list \<Rightarrow> bit_field list" where
  "indices_fields l [] = []"
| "indices_fields l (i # is) = index_fields l i @ indices_fields i is"

primrec write_indices :: "int list \<Rightarrow> msg \<Rightarrow> msg" where
  "write_indices [] m = m"
| "write_indices (i # is) m = write_indices is (MSG_WriteEntityIndex i 10 m)"

primrec read_indices :: "nat \<Rightarrow> msg \<Rightarrow> int list \<times> msg" where
  "read_indices 0 r = ([], r)"
| "read_indices (Suc n) r =
     (let (i, r1) = MSG_ReadEntityIndex 10 r; (is, r2) = read_indices n r1 in (i # is, r2))"

lemma stream_of_append: "stream_of (fs @ gs) = stream_of fs @ stream_of gs"
  by (simp add: stream_of_def)

lemma WriteEntityIndex_fields:
  assumes "wpos m p" "(p + int (length (stream_of (index_fields (lastRefEntity m) i))) + 7) div 8 + 4 \<le> maxsize m"
    "- 1 \<le> lastRefEntity m" "lastRefEntity m < i" "i < 1024"
  shows "MSG_WriteEntityIndex i 10 m =
    (fold write_field (index_fields (lastRefEntity m) i) m)\<lparr>lastRefEntity := i\<rparr>"
proof -
  let ?d = "i - lastRefEntity m"
  have d: "s32 ?d = ?d" using assms(3-5) by (intro s32_id) simp_all
  have room: "cursize m < maxsize m"
    using wpos_cursize [OF assms(1)] assms(2) by (auto; linarith)
  note st0 = wpos_step [OF assms(1) room refl, where b = False]
  have keep: "lastRefEntity (MSG_WriteBit0 m) = lastRefEntity m"
    using st0(8) WriteBit_step [OF assms(1) room] by simp
  consider "?d = 1" | "15 < ?d" | "2 \<le> ?d" "?d \<le> 15" using assms(4) by linarith
  then show ?thesis
    by cases (simp_all add: MSG_WriteEntityIndex_def index_fields_def d keep Let_def)
qed

lemma rpos_next [simp]: "rpos (r\<lparr>lastRefEntity := i\<rparr>) p = rpos r p"
  by (simp add: rpos_def)

lemma wpos_next [simp]: "wpos (m\<lparr>lastRefEntity := i\<rparr>) p = wpos m p"
  by (simp add: wpos_def msg_ok_def)

lemma ReadEntityIndex_stream:
  assumes "rpos r p" "- 1 \<le> lastRefEntity r" "lastRefEntity r < i" "i < 1024"
    and fs: "fs = index_fields (lastRefEntity r) i"
    and "(p + int (length (stream_of fs)) + 7) div 8 \<le> cursize r"
    and "\<forall>k < length (stream_of fs). stream_bit (data r) (p + int k) = stream_of fs ! k"
  obtains r' where "MSG_ReadEntityIndex 10 r = (i, r')" "rpos r' (p + int (length (stream_of fs)))"
    "data r' = data r" "cursize r' = cursize r" "lastRefEntity r' = i"
proof -
  let ?L = "lastRefEntity r" and ?r1 = "read_step r"
  let ?r2 = "read_step ?r1"
  have bit_at: "stream_bit (data r) (p + int k) = stream_of fs ! k" if "k < length (stream_of fs)" for k
    using assms(7) that by blast
  have len: "0 < length (stream_of fs)" by (simp add: fs index_fields_def stream_of_def)
  have in1: "p div 8 < cursize r" using assms(6) len by linarith
  note one = reads_step [OF assms(1)] read_one(2) [OF assms(1) in1]
  have rp1: "rpos ?r1 (p + 1)" and d1: "data ?r1 = data r" "cursize ?r1 = cursize r" "lastRefEntity ?r1 = ?L"
    using one(1) by (simp_all add: reads_def)
  consider (inc) "i = ?L + 1" | (full) "15 < i - ?L" | (delta) "2 \<le> i - ?L" "i - ?L \<le> 15"
    using assms(3) by linarith
  then show ?thesis
  proof cases
    case inc
    then have S: "stream_of fs = [True]" by (simp add: fs index_fields_def stream_of_def)
    have "MSG_ReadEntityIndex 10 r = (i, ?r1\<lparr>lastRefEntity := i\<rparr>)"
      using one(2) bit_at [of 0] S d1 inc assms(2,4)
      by (simp add: MSG_ReadEntityIndex_def Let_def)
    then show ?thesis using that rp1 d1 S by simp
  next
    case full
    then have S: "stream_of fs = [False, True] @ field_bits 10 i"
      by (simp add: fs index_fields_def stream_of_def)
    have in2: "(p + 1) div 8 < cursize ?r1" using assms(6) S d1(2) by simp
    note two = reads_step [OF rp1] read_one(2) [OF rp1 in2]
    have rp2: "rpos ?r2 (p + 2)" "data ?r2 = data r" "cursize ?r2 = cursize r"
      using two(1) d1 by (simp_all add: reads_def add.assoc)
    have "\<forall>k < 10. stream_bit (data ?r2) (p + 2 + int k) = bit i k"
      using bit_at [of "k + 2" for k] S rp2(2) by (simp add: field_bits_def algebra_simps)
    then obtain r' where r': "MSG_ReadBits (int 10) ?r2 = (s32 (take_bit 10 i), r')"
      "reads ?r2 r' (p + 2 + int 10)"
      using ReadBits_field [OF rp2(1), of 10 i] assms(6) S rp2(3) by (auto simp: add.assoc)
    have v: "s32 (take_bit 10 i) = i" using assms(2-4) by (simp add: take_bit_eq_mod)
    have "MSG_ReadEntityIndex 10 r = (i, r'\<lparr>lastRefEntity := i\<rparr>)"
      using one(2) two(2) bit_at [of 0] bit_at [of 1] S d1 r'(1) v
      by (simp add: MSG_ReadEntityIndex_def Let_def)
    then show ?thesis
      using that r'(2) rp2 S by (simp add: reads_def add.assoc)
  next
    case delta
    then have S: "stream_of fs = [False, False] @ field_bits 4 (i - ?L)"
      by (simp add: fs index_fields_def stream_of_def)
    have in2: "(p + 1) div 8 < cursize ?r1" using assms(6) S d1(2) by simp
    note two = reads_step [OF rp1] read_one(2) [OF rp1 in2]
    have rp2: "rpos ?r2 (p + 2)" "data ?r2 = data r" "cursize ?r2 = cursize r" "lastRefEntity ?r2 = ?L"
      using two(1) d1 by (simp_all add: reads_def add.assoc)
    have "\<forall>k < 4. stream_bit (data ?r2) (p + 2 + int k) = bit (i - ?L) k"
      using bit_at [of "k + 2" for k] S rp2(2) by (simp add: field_bits_def algebra_simps)
    then obtain r' where r': "MSG_ReadBits (int 4) ?r2 = (s32 (take_bit 4 (i - ?L)), r')"
      "reads ?r2 r' (p + 2 + int 4)"
      using ReadBits_field [OF rp2(1), of 4 "i - ?L"] assms(6) S rp2(3) by (auto simp: add.assoc)
    have v: "s32 (take_bit 4 (i - ?L)) = i - ?L" "s32 i = i"
      using delta assms(2,4) by (simp_all add: take_bit_eq_mod)
    have "MSG_ReadEntityIndex 10 r = (i, r'\<lparr>lastRefEntity := i\<rparr>)"
      using one(2) two(2) bit_at [of 0] bit_at [of 1] S d1 r' v rp2(4) assms(2,4)
      by (simp add: MSG_ReadEntityIndex_def reads_def Let_def)
    then show ?thesis
      using that r'(2) rp2 S by (simp add: reads_def add.assoc)
  qed
qed

definition ascending :: "int \<Rightarrow> int list \<Rightarrow> bool" where
  "ascending l is \<longleftrightarrow> - 1 \<le> l \<and> sorted_wrt (<) (l # is) \<and> (\<forall>i \<in> set is. i < 1024)"

lemma ascending_Cons: "ascending l (i # is) \<Longrightarrow> - 1 \<le> l \<and> l < i \<and> i < 1024 \<and> ascending i is"
  by (auto simp: ascending_def)

lemma wrote_indices:
  "wpos m p \<Longrightarrow> ascending (lastRefEntity m) is \<Longrightarrow>
   (p + int (length (stream_of (indices_fields (lastRefEntity m) is))) + 7) div 8 + 4 \<le> maxsize m \<Longrightarrow>
   wpos (write_indices is m) (p + int (length (stream_of (indices_fields (lastRefEntity m) is)))) \<and>
   stream_upto (data m) (data (write_indices is m)) p \<and>
   (\<forall>k < length (stream_of (indices_fields (lastRefEntity m) is)).
      stream_bit (data (write_indices is m)) (p + int k) =
      stream_of (indices_fields (lastRefEntity m) is) ! k)"
proof (induction "is" arbitrary: m p)
  case Nil
  then show ?case by (simp add: stream_of_def stream_upto_def)
next
  case (Cons i "is")
  let ?fs = "index_fields (lastRefEntity m) i" and ?gs = "indices_fields i is"
  let ?m1 = "fold write_field ?fs m" and ?n = "length (stream_of (index_fields (lastRefEntity m) i))"
  let ?m2 = "?m1\<lparr>lastRefEntity := i\<rparr>"
  note asc = ascending_Cons [OF Cons.prems(2)]
  have "(p + int ?n + 7) div 8 \<le>
      (p + int (length (stream_of (indices_fields (lastRefEntity m) (i # is)))) + 7) div 8"
    by (rule zdiv_mono1) (simp_all add: stream_of_append)
  then have fits: "(p + int ?n + 7) div 8 + 4 \<le> maxsize m" using Cons.prems(3) by linarith
  have one: "wrote m ?m1 p (stream_of ?fs)" by (rule wrote_fields [OF Cons.prems(1) fits])
  have m2: "write_indices (i # is) m = write_indices is ?m2"
    using WriteEntityIndex_fields [OF Cons.prems(1) fits] asc by simp
  have rest: "wpos (write_indices is ?m2) (p + int ?n + int (length (stream_of ?gs)))"
    "stream_upto (data ?m2) (data (write_indices is ?m2)) (p + int ?n)"
    "\<forall>k < length (stream_of ?gs).
       stream_bit (data (write_indices is ?m2)) (p + int ?n + int k) = stream_of ?gs ! k"
    using Cons.IH [of ?m2 "p + int ?n"] one asc Cons.prems(3)
    by (simp_all add: wrote_def stream_of_append add.assoc)
  have bits: "stream_bit (data (write_indices is ?m2)) (p + int k) =
      (stream_of ?fs @ stream_of ?gs) ! k" if "k < ?n + length (stream_of ?gs)" for k
  proof (cases "k < ?n")
    case True
    then show ?thesis
      using one rest(2) wposD(1) [OF Cons.prems(1)]
      by (simp add: wrote_def stream_upto_def nth_append)
  next
    case False
    define j where "j = k - ?n"
    have "k = ?n + j" "j < length (stream_of ?gs)" using False that by (auto simp: j_def)
    then show ?thesis using rest(3) by (simp add: add.assoc)
  qed
  have "stream_upto (data m) (data (write_indices is ?m2)) p"
    using one rest(2) by (auto simp: wrote_def intro: stream_upto_trans)
  then show ?case unfolding m2 using rest(1) bits by (simp add: stream_of_append add.assoc)
qed

lemma read_indices_stream:
  "rpos r p \<Longrightarrow> ascending (lastRefEntity r) is \<Longrightarrow> fs = indices_fields (lastRefEntity r) is \<Longrightarrow>
   (p + int (length (stream_of fs)) + 7) div 8 \<le> cursize r \<Longrightarrow>
   \<forall>k < length (stream_of fs). stream_bit (data r) (p + int k) = stream_of fs ! k \<Longrightarrow>
   fst (read_indices (length is) r) = is"
proof (induction "is" arbitrary: r p fs)
  case Nil
  then show ?case by simp
next
  case (Cons i "is")
  let ?es = "index_fields (lastRefEntity r) i" and ?gs = "indices_fields i is"
  let ?n = "length (stream_of ?es)"
  note asc = ascending_Cons [OF Cons.prems(2)]
  have fs: "stream_of fs = stream_of ?es @ stream_of ?gs"
    using Cons.prems(3) by (simp add: stream_of_append)
  have "(p + int ?n + 7) div 8 \<le> (p + int (length (stream_of fs)) + 7) div 8"
    by (rule zdiv_mono1) (simp_all add: fs)
  then have fits: "(p + int ?n + 7) div 8 \<le> cursize r" using Cons.prems(4) by linarith
  have bits: "\<forall>k < ?n. stream_bit (data r) (p + int k) = stream_of ?es ! k"
    using Cons.prems(5) by (auto simp: fs nth_append)
  obtain r' where r': "MSG_ReadEntityIndex 10 r = (i, r')" "rpos r' (p + int ?n)"
    "data r' = data r" "cursize r' = cursize r" "lastRefEntity r' = i"
    using ReadEntityIndex_stream [OF Cons.prems(1) _ _ _ refl fits bits] asc by blast
  have "stream_bit (data r') (p + int ?n + int k) = stream_of ?gs ! k"
    if "k < length (stream_of ?gs)" for k
    using Cons.prems(5) [rule_format, of "?n + k"] that r'(3) by (simp add: fs nth_append add.assoc)
  then have "fst (read_indices (length is) r') = is"
    using Cons.IH [OF r'(2), of ?gs] asc r'(4,5) Cons.prems(4) by (simp add: fs add.assoc)
  then show ?case using r'(1) by (simp add: case_prod_beta Let_def)
qed

text \<open>
  An ascending list of entity indices below 1024, written with
  \<open>MSG_WriteEntityIndex\<close> after \<open>MSG_ClearLastReferencedEntity\<close>, is read back index by
  index by \<open>MSG_ReadEntityIndex\<close> on the received bytes: the one-bit, six-bit and
  twelve-bit forms are told apart and the running \<open>lastRefEntity\<close> of both sides agrees.
\<close>

theorem MSG_entity_indices_roundtrip:
  assumes "int (length buf) < 2 ^ 27" and "ascending (- 1) is"
    and "(int (length (stream_of (indices_fields (- 1) is))) + 7) div 8 + 4 \<le> int (length buf)"
    and "m = write_indices is (MSG_ClearLastReferencedEntity (MSG_Init buf (int (length buf))))"
  shows "fst (read_indices (length is) (MSG_ClearLastReferencedEntity
      (MSG_BeginReading (MSG_InitReadOnly (content m) (cursize m))))) = is"
proof -
  let ?fs = "indices_fields (- 1) is"
  let ?n = "length (stream_of ?fs)"
  let ?m0 = "MSG_ClearLastReferencedEntity (MSG_Init buf (int (length buf)))"
  let ?r = "MSG_ClearLastReferencedEntity (MSG_BeginReading (MSG_InitReadOnly (content m) (cursize m)))"
  have m0: "wpos ?m0 0" "lastRefEntity ?m0 = - 1" "maxsize ?m0 = int (length buf)"
    using wpos_init [OF assms(1)] by (simp_all add: MSG_ClearLastReferencedEntity_def)
      (simp_all add: MSG_Init_def)
  have w: "wpos m (int ?n)" "\<forall>k < ?n. stream_bit (data m) (int k) = stream_of ?fs ! k"
    using wrote_indices [OF m0(1), of "is"] m0(2,3) assms(2-4) by simp_all
  have c: "cursize m = (int ?n + 7) div 8" by (rule wpos_cursize [OF w(1)])
  have "rpos ?r 0" using rpos_received [of m] by (simp add: MSG_ClearLastReferencedEntity_def)
  moreover have "lastRefEntity ?r = - 1" "cursize ?r = cursize m" "data ?r = content m"
    by (simp_all add: MSG_ClearLastReferencedEntity_def MSG_BeginReading_def MSG_InitReadOnly_def
        MSG_Init_def)
  ultimately have r: "rpos ?r 0" "lastRefEntity ?r = - 1" "cursize ?r = cursize m"
    "data ?r = content m" by auto
  have "stream_bit (data ?r) (0 + int k) = stream_of ?fs ! k" if k: "k < ?n" for k
  proof -
    have "int k div 8 < cursize m" unfolding c using k by linarith
    then show ?thesis using stream_bit_content [OF _ _ wposD(2) [OF w(1)], of "int k"] w(2) k r(4)
      by simp
  qed
  then show ?thesis
    by (intro read_indices_stream [OF r(1), of "is" ?fs]) (use assms(2) r c in simp_all)
qed

theorem MSG_entity_indices_roundtrip_witness:
  "fst (read_indices (length [0 :: int, 1, 9, 700, 1023]) (MSG_ClearLastReferencedEntity
      (MSG_BeginReading (MSG_InitReadOnly
        (content (write_indices [0, 1, 9, 700, 1023] (MSG_ClearLastReferencedEntity
           (MSG_Init (replicate 16 0) (int (length (replicate 16 (0 :: byte))))))))
        (cursize (write_indices [0, 1, 9, 700, 1023] (MSG_ClearLastReferencedEntity
           (MSG_Init (replicate 16 0) (int (length (replicate 16 (0 :: byte)))))))))))) =
   [0, 1, 9, 700, 1023]"
  by (rule MSG_entity_indices_roundtrip [OF _ _ _ refl])
    (simp_all add: ascending_def index_fields_def stream_of_def)

section \<open>Flag words\<close>

lemma lowest_bit_None: "lowest_bit n x i = None \<longleftrightarrow> (\<forall>k < n. \<not> bit x k)"
proof (induction n arbitrary: x i)
  case 0
  then show ?case by simp
next
  case (Suc n)
  have "(\<forall>k < Suc n. \<not> bit x k) \<longleftrightarrow> even x \<and> (\<forall>k < n. \<not> bit (x div 2) k)"
    by (simp add: All_less_Suc2 bit_0 bit_Suc)
  then show ?case using Suc by (simp add: and_one_eq odd_iff_mod_2_eq_one even_iff_mod_2_eq_zero)
qed

lemma lowest_bit_power: "k < n \<Longrightarrow> lowest_bit n (2 ^ k) i = Some (i + int k)"
proof (induction n arbitrary: k i)
  case 0
  then show ?case by simp
next
  case (Suc n)
  then show ?case by (cases k) (simp_all add: and_one_eq)
qed

lemma int_range_zero: "int_range x \<Longrightarrow> \<forall>k < 32. \<not> bit x k \<Longrightarrow> x = 0"
proof -
  assume r: "int_range x" and z: "\<forall>k < 32. \<not> bit x k"
  have "take_bit 32 x = 0" using z by (simp add: bit_eq_iff bit_take_bit_iff)
  then have "s32 x = s32 0" using s32_mod [of x] by (simp add: take_bit_eq_mod)
  then show "x = 0" using r by (simp add: int_range_def)
qed

lemma xor_zero_iff: "x XOR y = 0 \<longleftrightarrow> x = (y :: int)"
  by (auto simp: bit_eq_iff bit_xor_iff)

text \<open>
  For flag words whose difference is an \<open>int\<close>, \<open>MSG_Write24BitFlag\<close> returns
  exactly when the two words differ: for equal words its scan for the lowest changed bit
  never ends, so callers must not send an unchanged word.  A word that differs in one bit
  \<open>k\<close> is sent as a zero bit and \<open>k\<close> in five bits.
\<close>

theorem MSG_Write24BitFlag_terminates:
  assumes "int_range (newF XOR oldF)"
  shows "(MSG_Write24BitFlag oldF newF m \<noteq> None \<longleftrightarrow> oldF \<noteq> newF) \<and>
    (\<forall>k \<in> {..<31}. newF XOR oldF = 2 ^ k \<longrightarrow>
       MSG_Write24BitFlag oldF newF m = Some (MSG_WriteBits (int k) 5 (MSG_WriteBit0 m)))"
proof -
  let ?x = "newF XOR oldF"
  have none: "lowest_bit 32 ?x 0 = None \<longleftrightarrow> oldF = newF"
  proof -
    have "(\<forall>k < 32. \<not> bit ?x k) \<longleftrightarrow> ?x = 0" using int_range_zero [OF assms] by auto
    then show ?thesis by (auto simp: lowest_bit_None xor_zero_iff)
  qed
  have one: "s32 (2 ^ k - 1) AND 2 ^ k = 0" if "k < 31" for k
  proof -
    have "(2::int) ^ k \<le> 2 ^ 31" using that by (intro power_increasing) simp_all
    moreover have "(0::int) < 2 ^ k" by simp
    ultimately have "s32 (2 ^ k - 1) = 2 ^ k - 1" by (intro s32_id) linarith+
    then have "s32 (2 ^ k - 1) = mask k" by (simp add: mask_eq_exp_minus_1)
    moreover have "mask k AND 2 ^ k = (0::int)"
      by (rule bit_eqI) (auto simp: bit_and_iff bit_mask_iff bit_exp_iff)
    ultimately show ?thesis by simp
  qed
  have "MSG_Write24BitFlag oldF newF m = Some (MSG_WriteBits (int k) 5 (MSG_WriteBit0 m))"
    if "k < 31" "?x = 2 ^ k" for k
    using that one [OF that(1)] lowest_bit_power [of k 32 0] by (simp add: MSG_Write24BitFlag_def)
  moreover have "MSG_Write24BitFlag oldF newF m \<noteq> None \<longleftrightarrow> oldF \<noteq> newF"
    using none by (auto simp: MSG_Write24BitFlag_def Let_def split: option.splits)
  ultimately show ?thesis by auto
qed

theorem MSG_Write24BitFlag_terminates_witness:
  "(MSG_Write24BitFlag 5 4 (MSG_Init [0, 0] 2) \<noteq> None \<longleftrightarrow> (5::int) \<noteq> 4) \<and>
   MSG_Write24BitFlag 5 4 (MSG_Init [0, 0] 2) =
     Some (MSG_WriteBits 0 5 (MSG_WriteBit0 (MSG_Init [0, 0] 2)))"
  using MSG_Write24BitFlag_terminates [of 4 5 "MSG_Init [0, 0] 2", unfolded int_range_def]
  by (force dest: bspec [of _ _ 0])

end
