(* ===== verification/NetAddr.thy ===== *)
theory NetAddr
  imports Prelude
begin

text \<open>
  Network addresses: \<open>netadr_t\<close> of src/src/sys_net.h and the address comparisons of
  src/src/sys_net.c.  The union of the address bytes is the list \<open>adr_bytes\<close> of its 16
  cells, of which an IPv4 address uses the first four.  \<open>NA_BOT\<close> and \<open>NA_BAD\<close> are the
  same enumeration value in the source.
\<close>

datatype netadrtype =
  NA_BAD | NA_LOOPBACK | NA_BROADCAST | NA_IP | NA_IP6 | NA_TCP | NA_TCP6 | NA_MULTICAST6
| NA_UNSPEC | NA_DOWN

abbreviation NA_BOT :: netadrtype where "NA_BOT \<equiv> NA_BAD"

datatype netsrc = NS_CLIENT | NS_SERVER

record netadr =
  adr_type :: netadrtype
  scope_id :: int
  adr_port :: int
  adr_sock :: int
  adr_bytes :: bytes

definition mask_limit :: "int \<Rightarrow> int \<Rightarrow> int" where
  "mask_limit n netmask = (if netmask < 0 \<or> n < netmask then n else netmask)"

text \<open>The common tail: whole bytes by \<open>memcmp\<close>, then the remaining bits under a mask.\<close>

definition cmp_mask :: "int \<Rightarrow> byte" where
  "cmp_mask bits = push_bit (8 - nat bits) (2 ^ nat bits - 1)"

definition compare_prefix :: "bytes \<Rightarrow> bytes \<Rightarrow> int \<Rightarrow> bool" where
  "compare_prefix a b netmask =
     (let curbyte = netmask div 8; bits = netmask AND 7 in
      if curbyte \<noteq> 0 \<and> take (nat curbyte) a \<noteq> take (nat curbyte) b then False
      else if bits \<noteq> 0 then
        idx a curbyte AND cmp_mask bits = idx b curbyte AND cmp_mask bits
      else True)"

definition NET_CompareBaseAdrMask :: "netadr \<Rightarrow> netadr \<Rightarrow> int \<Rightarrow> bool" where
  "NET_CompareBaseAdrMask a b netmask =
     (if adr_type a \<noteq> adr_type b then False
      else if adr_type a = NA_LOOPBACK then True
      else if adr_type a = NA_IP \<or> adr_type a = NA_TCP then
        compare_prefix (adr_bytes a) (adr_bytes b) (mask_limit 32 netmask)
      else if adr_type a = NA_IP6 \<or> adr_type a = NA_TCP6 then
        compare_prefix (adr_bytes a) (adr_bytes b) (mask_limit 128 netmask)
      else False)"

definition NET_CompareBaseAdr :: "netadr \<Rightarrow> netadr \<Rightarrow> bool" where
  "NET_CompareBaseAdr a b = NET_CompareBaseAdrMask a b (-1)"

definition NET_CompareAdr :: "netadr \<Rightarrow> netadr \<Rightarrow> bool" where
  "NET_CompareAdr a b =
     (if \<not> NET_CompareBaseAdr a b then False
      else if adr_type a \<in> {NA_IP, NA_IP6, NA_TCP, NA_TCP6} then adr_port a = adr_port b
      else True)"

definition NET_IsLocalAddress :: "netadr \<Rightarrow> bool" where
  "NET_IsLocalAddress a \<longleftrightarrow> adr_type a = NA_LOOPBACK"

section \<open>The comparison is a prefix comparison of bits\<close>

definition adr_bit :: "bytes \<Rightarrow> nat \<Rightarrow> bool" where
  "adr_bit a k = bit (a ! (k div 8)) (7 - k mod 8)"

definition same_prefix :: "nat \<Rightarrow> bytes \<Rightarrow> bytes \<Rightarrow> bool" where
  "same_prefix n a b \<longleftrightarrow> (\<forall>k < n. adr_bit a k = adr_bit b k)"

definition netadr_ok :: "netadr \<Rightarrow> bool" where
  "netadr_ok a \<longleftrightarrow> length (adr_bytes a) = 16"

lemma byte_eq_bits: "(x :: byte) = y \<longleftrightarrow> (\<forall>k < 8. bit x (7 - k) = bit y (7 - k))"
proof
  assume h: "\<forall>k < 8. bit x (7 - k) = bit y (7 - k)"
  show "x = y"
  proof (rule bit_word_eqI)
    fix n assume "n < LENGTH(8)"
    then have "7 - n < 8" "7 - (7 - n) = n" by simp_all
    then show "bit x n = bit y n" using h by metis
  qed
qed simp

lemma bit_cmp_mask:
  assumes "0 \<le> m" "m < 8" "n < 8"
  shows "bit (cmp_mask m) n \<longleftrightarrow> 8 - nat m \<le> n"
proof -
  have "(2 :: byte) ^ nat m - 1 = mask (nat m)" by (simp add: mask_eq_exp_minus_1)
  then show ?thesis using assms
    by (auto simp: cmp_mask_def bit_push_bit_iff bit_mask_iff)
qed

lemma masked_eq:
  assumes "0 \<le> m" "m < 8"
  shows "(x :: byte) AND cmp_mask m = y AND cmp_mask m \<longleftrightarrow>
    (\<forall>k < nat m. bit x (7 - k) = bit y (7 - k))"
proof -
  have "(x AND cmp_mask m = y AND cmp_mask m) \<longleftrightarrow>
      (\<forall>n < 8. 8 - nat m \<le> n \<longrightarrow> bit x n = bit y n)"
    using assms by (auto simp: bit_eq_iff bit_and_iff bit_cmp_mask)
  also have "\<dots> \<longleftrightarrow> (\<forall>k < nat m. bit x (7 - k) = bit y (7 - k))"
  proof safe
    fix k assume "\<forall>n < 8. 8 - nat m \<le> n \<longrightarrow> bit x n = bit y n" "k < nat m"
    then show "bit x (7 - k) \<Longrightarrow> bit y (7 - k)" "bit y (7 - k) \<Longrightarrow> bit x (7 - k)" by auto
  next
    fix n :: nat assume h: "\<forall>k < nat m. bit x (7 - k) = bit y (7 - k)" and n: "n < 8" "8 - nat m \<le> n"
    then have "7 - n < nat m" "7 - (7 - n) = n" using assms by linarith+
    then show "bit x n \<Longrightarrow> bit y n" "bit y n \<Longrightarrow> bit x n" using h by metis+
  qed
  finally show ?thesis .
qed

lemma take_eq_bits:
  assumes "n \<le> length a" "n \<le> length b"
  shows "take n a = take n b \<longleftrightarrow> same_prefix (8 * n) a b"
proof -
  have "take n a = take n b \<longleftrightarrow> (\<forall>i < n. a ! i = b ! i)"
    using assms by (simp add: list_eq_iff_nth_eq)
  also have "\<dots> \<longleftrightarrow> (\<forall>i < n. \<forall>k < 8. adr_bit a (8 * i + k) = adr_bit b (8 * i + k))"
    by (simp add: byte_eq_bits adr_bit_def)
  also have "\<dots> \<longleftrightarrow> same_prefix (8 * n) a b"
  proof safe
    assume h: "\<forall>i < n. \<forall>k < 8. adr_bit a (8 * i + k) = adr_bit b (8 * i + k)"
    show "same_prefix (8 * n) a b" unfolding same_prefix_def
    proof (intro allI impI)
      fix k assume "k < 8 * n"
      then have "k div 8 < n" "k mod 8 < 8" by auto
      then have "adr_bit a (8 * (k div 8) + k mod 8) = adr_bit b (8 * (k div 8) + k mod 8)"
        using h by blast
      then show "adr_bit a k = adr_bit b k" by simp
    qed
  qed (auto simp: same_prefix_def)
  finally show ?thesis .
qed

lemma compare_prefix_iff:
  assumes "0 \<le> m" "m \<le> 128" "length a = 16" "length b = 16"
  shows "compare_prefix a b m \<longleftrightarrow> same_prefix (nat m) a b"
proof -
  define q r where "q = nat (m div 8)" and "r = nat (m mod 8)"
  have m7: "m AND 7 = m mod 8" using take_bit_eq_mask [of 3 m] by (simp add: take_bit_eq_mod mask_eq_exp_minus_1)
  have qr: "m div 8 = int q" "m mod 8 = int r" using assms(1) by (simp_all add: q_def r_def)
  then have "m = 8 * int q + int r" "int r < 8" using div_mod_8 [of m] by simp_all
  then have m: "m div 8 = int q" "m mod 8 = int r" "r < 8" "nat m = 8 * q + r" "q \<le> 16"
    using qr assms(2) by linarith+
  have whole: "take q a = take q b \<longleftrightarrow> same_prefix (8 * q) a b"
    using take_eq_bits [of q a b] m assms by simp
  have part: "(a ! q AND cmp_mask (int r) = b ! q AND cmp_mask (int r)) \<longleftrightarrow>
      (\<forall>k < r. adr_bit a (8 * q + k) = adr_bit b (8 * q + k))"
    using masked_eq [of "int r"] m(3) by (simp add: adr_bit_def)
  have join: "same_prefix (8 * q + r) a b \<longleftrightarrow> same_prefix (8 * q) a b \<and>
      (\<forall>k < r. adr_bit a (8 * q + k) = adr_bit b (8 * q + k))"
  proof safe
    assume h: "same_prefix (8 * q) a b" "\<forall>k < r. adr_bit a (8 * q + k) = adr_bit b (8 * q + k)"
    show "same_prefix (8 * q + r) a b" unfolding same_prefix_def
    proof (intro allI impI)
      fix k assume k: "k < 8 * q + r"
      show "adr_bit a k = adr_bit b k"
      proof (cases "k < 8 * q")
        case False
        then have "k - 8 * q < r" "8 * q + (k - 8 * q) = k" using k by simp_all
        then show ?thesis using h(2) by metis
      qed (use h(1) in \<open>simp add: same_prefix_def\<close>)
    qed
  qed (auto simp: same_prefix_def)
  have "compare_prefix a b m \<longleftrightarrow> (q = 0 \<or> take q a = take q b) \<and>
      (r = 0 \<or> a ! q AND cmp_mask (int r) = b ! q AND cmp_mask (int r))"
    by (auto simp: compare_prefix_def Let_def m7 m idx_def)
  then show ?thesis using whole part join m(4) by (auto simp: same_prefix_def)
qed
definition adr_bits :: "netadr \<Rightarrow> int" where
  "adr_bits a = (if adr_type a = NA_IP \<or> adr_type a = NA_TCP then 32
                 else if adr_type a = NA_IP6 \<or> adr_type a = NA_TCP6 then 128 else 0)"

text \<open>
  Claim C31. Two addresses match under a netmask exactly when they have the same type and,
  for an IP type, agree on the leading bits the mask names: all of them when the mask is
  negative or wider than the address, none when it is zero.  Loopback addresses always
  match and no other type matches anything.
\<close>

theorem NET_CompareBaseAdrMask_prefix:
  assumes "netadr_ok a" "netadr_ok b"
  shows "NET_CompareBaseAdrMask a b n \<longleftrightarrow> adr_type a = adr_type b \<and>
    (adr_type a = NA_LOOPBACK \<or>
     (adr_bits a \<noteq> 0 \<and>
      same_prefix (if n < 0 \<or> adr_bits a < n then nat (adr_bits a) else nat n)
        (adr_bytes a) (adr_bytes b)))"
proof -
  have p: "compare_prefix (adr_bytes a) (adr_bytes b) (mask_limit k n) \<longleftrightarrow>
      same_prefix (if n < 0 \<or> k < n then nat k else nat n) (adr_bytes a) (adr_bytes b)"
    if "0 \<le> k" "k \<le> 128" for k
  proof -
    have "0 \<le> mask_limit k n" "mask_limit k n \<le> 128" using that by (auto simp: mask_limit_def)
    then have "compare_prefix (adr_bytes a) (adr_bytes b) (mask_limit k n) \<longleftrightarrow>
        same_prefix (nat (mask_limit k n)) (adr_bytes a) (adr_bytes b)"
      using assms by (intro compare_prefix_iff) (simp_all add: netadr_ok_def)
    then show ?thesis by (simp add: mask_limit_def)
  qed
  show ?thesis
    by (cases "adr_type a"; cases "adr_type b = adr_type a")
      (simp_all add: NET_CompareBaseAdrMask_def adr_bits_def p)
qed

definition ip4 :: "bytes \<Rightarrow> int \<Rightarrow> netadr" where
  "ip4 bs port = \<lparr>adr_type = NA_IP, scope_id = 0, adr_port = port, adr_sock = 0,
     adr_bytes = bs @ replicate 12 0\<rparr>"

theorem NET_CompareBaseAdrMask_prefix_witness:
  "NET_CompareBaseAdrMask (ip4 [192, 168, 1, 7] 28960) (ip4 [192, 168, 200, 9] 28961) 16"
proof -
  have "same_prefix (8 * 2) ([192, 168, 1, 7] @ replicate 12 0) ([192, 168, 200, 9] @ replicate 12 0)"
    by (subst take_eq_bits [symmetric]) simp_all
  then show ?thesis
    by (subst NET_CompareBaseAdrMask_prefix) (simp_all add: netadr_ok_def adr_bits_def ip4_def)
qed

end
