(* ===== verification/Netchan.thy ===== *)
theory Netchan
  imports MsgBuffer NetAddr
begin

text \<open>
  The sequenced channel of src/src/netchan.c: datagrams with a sequence number, optionally
  split into fragments, and the loopback queues for a local client.  A datagram leaves
  through \<open>NET_SendPacket\<close>; the plugin hook, the socket and the configuration variable
  \<open>net_qport\<close> are the parameters of the model (\<open>netenv\<close>), the loopback queues and the list
  of datagrams handed to the socket its state (\<open>netio\<close>).  A store outside an array is the
  fault \<open>OUT_OF_BOUNDS\<close>.
\<close>

section \<open>Loopback queues and sending\<close>

definition MAX_LOOPBACK :: int where "MAX_LOOPBACK = 16"
definition MAX_PACKETLEN :: int where "MAX_PACKETLEN = 1400"
definition FRAGMENT_SIZE :: int where "FRAGMENT_SIZE = 1300"

record loopmsg =
  loop_data :: bytes
  datalen :: int

record loopback =
  loop_msgs :: "loopmsg list"
  loop_get :: int
  loop_send :: int

record netio =
  loop_client :: loopback
  loop_server :: loopback
  wire :: "(bytes \<times> netadr) list"

record netenv =
  ev_udpnetsend :: "netadr \<Rightarrow> bytes \<Rightarrow> bool"
  sys_sendpacket :: "bytes \<Rightarrow> netadr \<Rightarrow> bool"
  net_qport :: int

definition loop_of :: "netsrc \<Rightarrow> netio \<Rightarrow> loopback" where
  "loop_of sock io = (case sock of NS_CLIENT \<Rightarrow> loop_client io | NS_SERVER \<Rightarrow> loop_server io)"

definition set_loop :: "netsrc \<Rightarrow> loopback \<Rightarrow> netio \<Rightarrow> netio" where
  "set_loop sock l io =
     (case sock of NS_CLIENT \<Rightarrow> io\<lparr>loop_client := l\<rparr> | NS_SERVER \<Rightarrow> io\<lparr>loop_server := l\<rparr>)"

definition other_side :: "netsrc \<Rightarrow> netsrc" where
  "other_side sock = (case sock of NS_CLIENT \<Rightarrow> NS_SERVER | NS_SERVER \<Rightarrow> NS_CLIENT)"

text \<open>\<open>Com_Memset(net_from, 0, ...)\<close> and the loopback type.\<close>

definition loop_adr :: netadr where
  "loop_adr = \<lparr>adr_type = NA_LOOPBACK, scope_id = 0, adr_port = 0, adr_sock = 0,
     adr_bytes = replicate 16 0\<rparr>"

definition NET_GetLoopPacket ::
  "netsrc \<Rightarrow> msg \<Rightarrow> netio \<Rightarrow> fault + (bool \<times> netadr option \<times> msg \<times> netio)" where
  "NET_GetLoopPacket sock m io =
     (let l0 = loop_of sock io;
          l1 = (if MAX_LOOPBACK < s32 (loop_send l0 - loop_get l0)
                then l0\<lparr>loop_get := s32 (loop_send l0 - MAX_LOOPBACK)\<rparr> else l0)
      in if loop_send l1 \<le> loop_get l1 then Inr (False, None, m, set_loop sock l1 io)
         else let p = idx (loop_msgs l1) (loop_get l1 AND (MAX_LOOPBACK - 1));
                  l2 = l1\<lparr>loop_get := s32 (loop_get l1 + 1)\<rparr>;
                  n = nat (datalen p)
              in if length (data m) < n then Inl OUT_OF_BOUNDS
                 else Inr (True, Some loop_adr,
                        m\<lparr>data := blit 0 (take n (loop_data p)) (data m), cursize := datalen p\<rparr>,
                        set_loop sock l2 io))"

definition store_packet :: "bytes \<Rightarrow> loopmsg \<Rightarrow> loopmsg" where
  "store_packet bs p = p\<lparr>loop_data := blit 0 bs (loop_data p), datalen := int (length bs)\<rparr>"

definition NET_SendLoopPacket :: "netsrc \<Rightarrow> bytes \<Rightarrow> netio \<Rightarrow> fault + netio" where
  "NET_SendLoopPacket sock bs io =
     (let l = loop_of (other_side sock) io;
          i = loop_send l AND (MAX_LOOPBACK - 1);
          l1 = l\<lparr>loop_send := s32 (loop_send l + 1)\<rparr>
      in if MAX_PACKETLEN < int (length bs) then Inl OUT_OF_BOUNDS
         else Inr (set_loop (other_side sock)
                (l1\<lparr>loop_msgs := put i (store_packet bs (idx (loop_msgs l1) i)) (loop_msgs l1)\<rparr>) io))"

definition NET_SendPacket ::
  "netenv \<Rightarrow> netsrc \<Rightarrow> bytes \<Rightarrow> netadr \<Rightarrow> netio \<Rightarrow> fault + (bool \<times> netio)" where
  "NET_SendPacket env sock bs to io =
     (if ev_udpnetsend env to bs then Inr (True, io)
      else if adr_type to = NA_LOOPBACK then
        (case NET_SendLoopPacket sock bs io of
           Inl e \<Rightarrow> Inl e
         | Inr io' \<Rightarrow> Inr (True, io'))
      else if adr_type to = NA_BOT then Inr (False, io)
      else if adr_type to = NA_BAD then Inr (False, io)
      else Inr (sys_sendpacket env bs to, io\<lparr>wire := wire io @ [(bs, to)]\<rparr>))"

definition MAX_MSGLEN :: int where "MAX_MSGLEN = 0x20000"

text \<open>The array \<open>string\<close> of \<open>NET_OutOfBandData\<close> has \<open>MAX_MSGLEN\<close> cells and no check.\<close>

definition NET_OutOfBandData ::
  "netenv \<Rightarrow> netsrc \<Rightarrow> netadr \<Rightarrow> bytes \<Rightarrow> netio \<Rightarrow> fault + (bool \<times> netio)" where
  "NET_OutOfBandData env sock adr fmt io =
     (if MAX_MSGLEN < int (length fmt) + 4 then Inl OUT_OF_BOUNDS
      else NET_SendPacket env sock ([0xff, 0xff, 0xff, 0xff] @ fmt) adr io)"

text \<open>
  \<open>NET_CookieHash\<close>: the address, its port and a secret of 58 bytes fill the 64-byte block
  whose SHA-1 compression (a parameter, src/src/sha1.c is not modelled) gives the cookie.
\<close>

definition cookie_block :: "bytes \<Rightarrow> netadr \<Rightarrow> bytes" where
  "cookie_block secret from =
     (let n = (if adr_type from = NA_IP then 4 else 16)
      in take n (adr_bytes from) @ le_bytes 2 (adr_port from) @ take (62 - n) secret)"

definition NET_CookieHash :: "(bytes \<Rightarrow> int) \<Rightarrow> bytes \<Rightarrow> netadr \<Rightarrow> int" where
  "NET_CookieHash sha1_word secret from =
     (if adr_type from = NA_IP \<or> adr_type from = NA_IP6 then s32 (sha1_word (cookie_block secret from))
      else 0)"

section \<open>The channel\<close>

record netchan =
  outgoingSequence :: int
  nc_sock :: netsrc
  dropped :: int
  incomingSequence :: int
  nc_remoteAddress :: netadr
  nc_qport :: int
  fragmentSequence :: int
  fragmentLength :: int
  fragmentBuffer :: bytes
  fragmentBufferSize :: int
  unsentFragments :: bool
  unsentFragmentStart :: int
  unsentLength :: int
  unsentBuffer :: bytes
  unsentBufferSize :: int

definition Netchan_Setup ::
  "netsrc \<Rightarrow> netadr \<Rightarrow> int \<Rightarrow> bytes \<Rightarrow> int \<Rightarrow> bytes \<Rightarrow> int \<Rightarrow> netchan" where
  "Netchan_Setup sock adr qport unsent unsentSize frag fragSize =
     \<lparr>outgoingSequence = 1, nc_sock = sock, dropped = 0, incomingSequence = 0,
      nc_remoteAddress = adr, nc_qport = u16 qport, fragmentSequence = 0, fragmentLength = 0,
      fragmentBuffer = frag, fragmentBufferSize = fragSize, unsentFragments = False,
      unsentFragmentStart = 0, unsentLength = 0, unsentBuffer = unsent,
      unsentBufferSize = unsentSize\<rparr>"

text \<open>
  The header: the sequence number with the fragment bit taken out, the flag, and for a
  fragment its start and length.
\<close>

definition read_header :: "netsrc \<Rightarrow> msg \<Rightarrow> int \<times> bool \<times> int \<times> int \<times> msg" where
  "read_header sock m =
     (let (raw, m1) = MSG_ReadLong (MSG_BeginReading m);
          fragmented = raw < 0;
          sequence = (if fragmented then raw + 2 ^ 31 else raw);
          m2 = (if sock = NS_SERVER then snd (MSG_ReadShort m1) else m1)
      in if fragmented
         then let (start, m3) = MSG_ReadLong m2; (len, m4) = MSG_ReadShort m3
              in (sequence, True, start, len, m4)
         else (sequence, False, 0, 0, m2))"

text \<open>The last fragment has come: the whole message is put over the partial fragment.\<close>

definition deliver_fragments :: "int \<Rightarrow> netchan \<Rightarrow> msg \<Rightarrow> fault + (bool \<times> netchan \<times> msg)" where
  "deliver_fragments sequence c m =
     (if maxsize m < fragmentLength c then Inr (False, c, m)
      else if int (length (data m)) < fragmentLength c + 4 then Inl OUT_OF_BOUNDS
      else Inr (True, c\<lparr>fragmentLength := 0, incomingSequence := sequence\<rparr>,
             m\<lparr>data := blit 4 (take (nat (fragmentLength c)) (fragmentBuffer c))
                        (blit 0 (le_bytes 4 sequence) (data m)),
               cursize := fragmentLength c + 4, readcount := 4, bitpos := 32\<rparr>))"

definition Netchan_Process :: "netchan \<Rightarrow> msg \<Rightarrow> fault + (bool \<times> netchan \<times> msg)" where
  "Netchan_Process c m =
     (let (sequence, fragmented, start, len, m1) = read_header (nc_sock c) m in
      if sequence \<le> incomingSequence c then Inr (False, c, m1)
      else let c1 = c\<lparr>dropped := s32 (sequence - (incomingSequence c + 1))\<rparr> in
        if \<not> fragmented then Inr (True, c1\<lparr>incomingSequence := sequence\<rparr>, m1)
        else let c2 = (if sequence \<noteq> fragmentSequence c1
                       then c1\<lparr>fragmentSequence := sequence, fragmentLength := 0\<rparr> else c1)
          in if start \<noteq> fragmentLength c2 then Inr (False, c2, m1)
          else if len < 0 \<or> cursize m1 < readcount m1 + len
               \<or> fragmentBufferSize c2 < s32 (fragmentLength c2 + len) then Inr (False, c2, m1)
          else let c3 = c2\<lparr>fragmentBuffer := blit (nat (fragmentLength c2))
                                (bytes_at (readcount m1) len (data m1)) (fragmentBuffer c2),
                           fragmentLength := s32 (fragmentLength c2 + len)\<rparr>
            in if len = FRAGMENT_SIZE then Inr (False, c3, m1)
               else deliver_fragments sequence c3 m1)"

text \<open>The stack buffer of the senders holds unspecified bytes; only written cells are sent.\<close>

definition send_buf :: msg where
  "send_buf = MSG_Init (replicate 1400 0) MAX_PACKETLEN"

definition FRAGMENT_BIT :: int where "FRAGMENT_BIT = - (2 ^ 31)"

definition Netchan_TransmitNextFragment ::
  "netenv \<Rightarrow> netchan \<Rightarrow> netio \<Rightarrow> fault + (bool \<times> netchan \<times> netio)" where
  "Netchan_TransmitNextFragment env c io =
     (let s0 = MSG_WriteLong (outgoingSequence c OR FRAGMENT_BIT) send_buf;
          s1 = (if nc_sock c = NS_CLIENT then MSG_WriteShort (net_qport env) s0 else s0);
          final = unsentLength c < s32 (unsentFragmentStart c + FRAGMENT_SIZE);
          len = (if final then unsentLength c - unsentFragmentStart c else FRAGMENT_SIZE);
          s2 = MSG_WriteShort len (MSG_WriteLong (unsentFragmentStart c) s1);
          s3 = MSG_WriteData (bytes_at (unsentFragmentStart c) len (unsentBuffer c)) s2
      in case NET_SendPacket env (nc_sock c) (content s3) (nc_remoteAddress c) io of
           Inl e \<Rightarrow> Inl e
         | Inr (ok, io') \<Rightarrow>
             let c1 = c\<lparr>unsentFragmentStart := s32 (unsentFragmentStart c + len)\<rparr>
             in Inr (ok,
                  (if unsentFragmentStart c1 = unsentLength c1 \<and> final
                   then c1\<lparr>outgoingSequence := s32 (outgoingSequence c1 + 1), unsentFragments := False\<rparr>
                   else c1), io'))"

text \<open>The list is the first \<open>length\<close> bytes of the argument \<open>data\<close>.\<close>

definition Netchan_Transmit ::
  "netenv \<Rightarrow> netchan \<Rightarrow> bytes \<Rightarrow> netio \<Rightarrow> fault + (bool \<times> netchan \<times> netio)" where
  "Netchan_Transmit env c bs io =
     (if unsentBufferSize c < int (length bs) then Inl (COM_ERROR ERR_DROP)
      else let c1 = c\<lparr>unsentFragmentStart := 0\<rparr> in
        if FRAGMENT_SIZE \<le> int (length bs) then
          (case Netchan_TransmitNextFragment env
                  (c1\<lparr>unsentFragments := True, unsentLength := int (length bs),
                      unsentBuffer := blit 0 bs (unsentBuffer c1)\<rparr>) io of
             Inl e \<Rightarrow> Inl e
           | Inr (ok, c2, io') \<Rightarrow> Inr (True, c2, io'))
        else
          let s0 = MSG_WriteLong (outgoingSequence c1) send_buf;
              c2 = c1\<lparr>outgoingSequence := s32 (outgoingSequence c1 + 1)\<rparr>;
              s1 = (if nc_sock c = NS_CLIENT then MSG_WriteShort (net_qport env) s0 else s0);
              s2 = MSG_WriteData bs s1
          in case NET_SendPacket env (nc_sock c2) (content s2) (nc_remoteAddress c2) io of
               Inl e \<Rightarrow> Inl e
             | Inr (ok, io') \<Rightarrow> Inr (ok, c2, io'))"

section \<open>The loopback queues are bounded queues\<close>

definition lput :: "int \<Rightarrow> loopmsg \<Rightarrow> loopback \<Rightarrow> loopback" where
  "lput i p l = l\<lparr>loop_msgs := put (i AND 15) p (loop_msgs l)\<rparr>"

definition lget :: "loopback \<Rightarrow> int \<Rightarrow> loopmsg" where
  "lget l i = idx (loop_msgs l) (i AND 15)"

definition loop_shape :: "loopback \<Rightarrow> bool" where
  "loop_shape l \<longleftrightarrow> length (loop_msgs l) = 16"

lemma and_15: "(i :: int) AND 15 = i mod 16"
  using take_bit_eq_mask [of 4 i] by (simp add: take_bit_eq_mod mask_eq_exp_minus_1)

interpretation loopring: ring lget lput "\<lambda>_. 16" loop_shape
proof unfold_locales
  fix l :: loopback and i :: int and e
  assume "loop_shape l" "0 \<le> i"
  then show "lget (lput i e l) i = e"
    by (simp add: lget_def lput_def loop_shape_def and_15 idx_put_same)
next
  fix l :: loopback and i j :: int and e
  assume h: "loop_shape l" "0 \<le> i" "0 \<le> j" "i \<noteq> j" "\<bar>i - j\<bar> < 16"
  then have "i mod 16 \<noteq> j mod 16" using mod_slot_eq [of 16 i j] by simp
  then show "lget (lput i e l) j = lget l j"
    by (simp add: lget_def lput_def and_15 idx_put_other)
qed (simp_all add: loop_shape_def lput_def)

text \<open>A queue in use: the cells have their full size, the counters are in order.\<close>

definition loop_ok :: "loopback \<Rightarrow> bool" where
  "loop_ok l \<longleftrightarrow> loop_shape l \<and> 0 \<le> loop_get l \<and> loop_get l \<le> loop_send l \<and> loop_send l < 2 ^ 31 - 1 \<and>
     (\<forall>p \<in> set (loop_msgs l). length (loop_data p) = 1400) \<and>
     (\<forall>i. loop_get l \<le> i \<and> loop_send l - 16 \<le> i \<and> i < loop_send l \<longrightarrow> 0 \<le> datalen (lget l i) \<and> datalen (lget l i) \<le> 1400)"

definition packet_of :: "loopmsg \<Rightarrow> bytes" where
  "packet_of p = take (nat (datalen p)) (loop_data p)"

definition loop_queue :: "loopback \<Rightarrow> bytes list" where
  "loop_queue l = map (\<lambda>i. packet_of (lget l i)) [max (loop_get l) (loop_send l - 16) .. loop_send l - 1]"

definition newest :: "nat \<Rightarrow> 'a list \<Rightarrow> 'a list" where
  "newest n xs = drop (length xs - n) xs"

lemma packet_of_store:
  "length (loop_data p) = 1400 \<Longrightarrow> length bs \<le> 1400 \<Longrightarrow> packet_of (store_packet bs p) = bs"
  by (simp add: packet_of_def store_packet_def blit_eq)

lemma drop_upto: "drop n [i..j] = [i + int n..j]"
proof (induction n arbitrary: i)
  case 0
  then show ?case by simp
next
  case (Suc n)
  show ?case
  proof (cases "i \<le> j")
    case True
    then show ?thesis using Suc [of "i + 1"] by (simp add: upto_rec1 algebra_simps)
  next
    case False
    then show ?thesis by simp
  qed
qed

lemma lget_mem: "loop_shape l \<Longrightarrow> lget l i \<in> set (loop_msgs l)"
  by (simp add: lget_def loop_shape_def idx_def and_15)

lemma SendLoop_queue:
  assumes ok: "loop_ok l" and sz: "length bs \<le> 1400" and sd: "loop_send l < 2 ^ 31 - 2"
    and l': "l' = lput (loop_send l) (store_packet bs (lget l (loop_send l))) (l\<lparr>loop_send := loop_send l + 1\<rparr>)"
  shows "loop_ok l'" "loop_queue l' = newest 16 (loop_queue l @ [bs])"
proof -
  let ?s = "loop_send l" and ?p = "store_packet bs (lget l (loop_send l))"
  let ?l1 = "l\<lparr>loop_send := loop_send l + 1\<rparr>"
  have shape: "loop_shape l" "loop_shape ?l1" using ok by (simp_all add: loop_ok_def loop_shape_def)
  have s0: "0 \<le> ?s" using ok by (simp add: loop_ok_def)
  have len: "length (loop_data (lget l ?s)) = 1400"
    using ok lget_mem [OF shape(1)] by (simp add: loop_ok_def)
  have new: "lget l' ?s = ?p"
    using loopring.get_put_same [OF shape(2) s0] by (simp add: l')
  have old: "lget l' i = lget l i" if "0 \<le> i" "?s - 16 < i" "i < ?s" for i
    using loopring.get_put_other [OF shape(2) s0 that(1), of ?p] that by (simp add: l' lget_def)
  have f: "loop_get l' = loop_get l" "loop_send l' = ?s + 1" by (simp_all add: l' lput_def)
  have dl: "datalen ?p = int (length bs)" by (simp add: store_packet_def)
  have cells: "\<forall>p \<in> set (loop_msgs l'). length (loop_data p) = 1400"
  proof -
    have "set (loop_msgs l') \<subseteq> insert ?p (set (loop_msgs l))"
      using set_update_subset_insert by (simp add: l' lput_def put_def)
    then show ?thesis using ok len by (auto simp: loop_ok_def store_packet_def)
  qed
  show "loop_ok l'"
    unfolding loop_ok_def
  proof (intro conjI allI impI)
    fix i assume i: "loop_get l' \<le> i \<and> loop_send l' - 16 \<le> i \<and> i < loop_send l'"
    show "0 \<le> datalen (lget l' i)" "datalen (lget l' i) \<le> 1400"
      using i ok sz f new old [of i] dl by (cases "i = ?s"; auto simp: loop_ok_def)+
  qed (use ok f sd cells in \<open>auto simp: loop_ok_def loop_shape_def l' lput_def\<close>)
  let ?lo = "max (loop_get l) (?s - 16)" and ?lo' = "max (loop_get l) (?s - 15)"
  let ?g = "\<lambda>i. packet_of (lget l i)"
  have le: "?lo' \<le> ?s" using ok by (simp add: loop_ok_def)
  have "[?lo'..?s] = [?lo'..?s - 1] @ [?s]" using le by (simp add: upto_rec2)
  then have q': "loop_queue l' = map ?g [?lo'..?s - 1] @ [bs]"
    using new old packet_of_store [OF len sz] ok f
    by (simp add: loop_queue_def max_def loop_ok_def)
  have "newest 16 (loop_queue l @ [bs]) = drop (nat (?lo' - ?lo)) (loop_queue l @ [bs])"
    using ok by (auto simp: newest_def loop_queue_def loop_ok_def max_def)
  also have "\<dots> = map ?g [?lo'..?s - 1] @ [bs]"
  proof -
    have "int (nat (?lo' - ?lo)) = ?lo' - ?lo" by simp
    moreover have "nat (?lo' - ?lo) \<le> length [?lo..?s - 1]" using ok by (auto simp: loop_ok_def max_def)
    ultimately show ?thesis by (simp add: loop_queue_def drop_map drop_upto)
  qed
  finally show "loop_queue l' = newest 16 (loop_queue l @ [bs])" using q' by simp
qed

lemma loop_of_set [simp]:
  "loop_of s (set_loop s l io) = l" "s \<noteq> t \<Longrightarrow> loop_of t (set_loop s l io) = loop_of t io"
  by (cases s; cases t; simp add: loop_of_def set_loop_def)+

lemma GetLoop_queue:
  assumes ok: "loop_ok l" and big: "1400 \<le> length (data m)" and io: "loop_of sock io = l"
  obtains io' m' adr where
    "NET_GetLoopPacket sock m io = Inr (loop_queue l \<noteq> [], adr, m', io')"
    "loop_ok (loop_of sock io')" "loop_queue (loop_of sock io') = tl (loop_queue l)"
    "loop_queue l \<noteq> [] \<Longrightarrow> content m' = hd (loop_queue l) \<and> adr = Some loop_adr"
    "loop_queue l = [] \<Longrightarrow> m' = m"
proof -
  let ?lo = "max (loop_get l) (loop_send l - 16)" and ?s = "loop_send l"
  let ?g = "\<lambda>i. packet_of (lget l i)"
  have b: "0 \<le> loop_get l" "loop_get l \<le> ?s" "?s < 2 ^ 31 - 1" "loop_shape l"
    using ok by (auto simp: loop_ok_def)
  define l1 where "l1 = (if MAX_LOOPBACK < s32 (?s - loop_get l)
                then l\<lparr>loop_get := s32 (?s - MAX_LOOPBACK)\<rparr> else l)"
  have l1: "loop_get l1 = ?lo" "loop_send l1 = ?s" "loop_msgs l1 = loop_msgs l"
    using b by (auto simp: l1_def MAX_LOOPBACK_def)
  have lget1: "lget (l1\<lparr>loop_get := k\<rparr>) i = lget l i" "lget l1 i = lget l i" for i k
    by (simp_all add: lget_def l1)
  have q: "loop_queue l = map ?g [?lo..?s - 1]" by (simp add: loop_queue_def)
  show ?thesis
  proof (cases "?lo < ?s")
    case False
    then have e: "loop_queue l = []" "?lo = ?s" using b by (simp_all add: q)
    have "NET_GetLoopPacket sock m io = Inr (False, None, m, set_loop sock l1 io)"
      unfolding NET_GetLoopPacket_def io l1_def [symmetric] Let_def using e l1 by simp
    moreover have "loop_queue l1 = []" using e l1 by (simp add: loop_queue_def)
    moreover have "loop_ok l1"
      using ok e l1 by (auto simp: loop_ok_def loop_shape_def lget_def)
    ultimately show ?thesis using that [of None m] e(1) by simp
  next
    case True
    let ?p = "lget l ?lo"
    have qc: "loop_queue l = ?g ?lo # map ?g [?lo + 1..?s - 1]"
      using True by (simp add: q upto_rec1)
    have dl: "0 \<le> datalen ?p" "datalen ?p \<le> 1400"
      using ok True by (auto simp: loop_ok_def)
    have ld: "length (loop_data ?p) = 1400"
      using ok lget_mem [OF b(4)] by (simp add: loop_ok_def)
    define l2 where "l2 = l1\<lparr>loop_get := ?lo + 1\<rparr>"
    have p: "idx (loop_msgs l1) (loop_get l1 AND (MAX_LOOPBACK - 1)) = ?p"
      by (simp add: l1 lget_def MAX_LOOPBACK_def)
    have l2: "l1\<lparr>loop_get := s32 (loop_get l1 + 1)\<rparr> = l2"
      using b True by (simp add: l2_def l1)
    have fits: "\<not> length (data m) < nat (datalen ?p)" using dl big by simp
    let ?m = "m\<lparr>data := blit 0 (take (nat (datalen ?p)) (loop_data ?p)) (data m), cursize := datalen ?p\<rparr>"
    have ne: "\<not> loop_send l1 \<le> loop_get l1" using True l1 by simp
    have "NET_GetLoopPacket sock m io = Inr (True, Some loop_adr, ?m, set_loop sock l2 io)"
      unfolding NET_GetLoopPacket_def io l1_def [symmetric] Let_def p l2
      using fits ne by simp
    moreover have "loop_queue l2 = map ?g [?lo + 1..?s - 1]"
      using True by (simp add: loop_queue_def l2_def l1 lget_def)
    moreover have "loop_ok l2"
      using ok True b by (auto simp: loop_ok_def loop_shape_def l2_def l1 lget_def)
    moreover have "content ?m = ?g ?lo"
      using dl ld big by (simp add: content_def blit_eq packet_of_def)
    ultimately show ?thesis using that [of "Some loop_adr" ?m] qc by simp
  qed
qed

text \<open>
  The loopback queue of a socket is a queue of the newest sixteen packets.
  Sending a packet of at most 1400 bytes never fails and appends it, dropping the oldest
  packet when sixteen are already waiting, and leaves the other socket's queue alone;
  receiving returns the oldest waiting packet and removes it, or reports that there is none.
\<close>

theorem NET_loopback_queue:
  assumes "loop_ok (loop_of (other_side sock) io)" "length bs \<le> 1400"
    "loop_send (loop_of (other_side sock) io) < 2 ^ 31 - 2"
    "1400 \<le> length (data m)"
  shows "\<exists>io' m' adr io''.
     NET_SendLoopPacket sock bs io = Inr io' \<and> loop_of sock io' = loop_of sock io \<and>
     loop_queue (loop_of (other_side sock) io') =
       newest 16 (loop_queue (loop_of (other_side sock) io) @ [bs]) \<and>
     NET_GetLoopPacket (other_side sock) m io' = Inr (True, adr, m', io'') \<and>
     content m' = hd (newest 16 (loop_queue (loop_of (other_side sock) io) @ [bs])) \<and>
     loop_queue (loop_of (other_side sock) io'') =
       tl (newest 16 (loop_queue (loop_of (other_side sock) io) @ [bs])) \<and>
     loop_ok (loop_of (other_side sock) io'')"
proof -
  let ?l = "loop_of (other_side sock) io"
  define l' where "l' = lput (loop_send ?l) (store_packet bs (lget ?l (loop_send ?l)))
      (?l\<lparr>loop_send := loop_send ?l + 1\<rparr>)"
  define io1 where "io1 = set_loop (other_side sock) l' io"
  have o: "other_side sock \<noteq> sock" by (cases sock) (simp_all add: other_side_def)
  note S = SendLoop_queue [OF assms(1,2,3) l'_def]
  have "s32 (loop_send ?l + 1) = loop_send ?l + 1" using assms(1,3) by (simp add: loop_ok_def)
  then have send: "NET_SendLoopPacket sock bs io = Inr io1"
    using assms(2) by (simp add: NET_SendLoopPacket_def MAX_PACKETLEN_def MAX_LOOPBACK_def Let_def
        io1_def l'_def lput_def lget_def)
  have io1: "loop_of (other_side sock) io1 = l'" "loop_of sock io1 = loop_of sock io"
    using o by (simp_all add: io1_def)
  obtain io'' m' adr where g:
    "NET_GetLoopPacket (other_side sock) m io1 = Inr (loop_queue l' \<noteq> [], adr, m', io'')"
    "loop_ok (loop_of (other_side sock) io'')"
    "loop_queue (loop_of (other_side sock) io'') = tl (loop_queue l')"
    "loop_queue l' \<noteq> [] \<Longrightarrow> content m' = hd (loop_queue l') \<and> adr = Some loop_adr"
    using GetLoop_queue [OF S(1) assms(4) io1(1)] by metis
  have "loop_queue l' \<noteq> []" using S(2) by (simp add: newest_def)
  then show ?thesis using send g S(2) io1 by (intro exI [of _ io1]) auto
qed

definition empty_loop :: loopback where
  "empty_loop = \<lparr>loop_msgs = replicate 16 \<lparr>loop_data = replicate 1400 0, datalen = 0\<rparr>,
     loop_get = 0, loop_send = 0\<rparr>"

definition empty_io :: netio where
  "empty_io = \<lparr>loop_client = empty_loop, loop_server = empty_loop, wire = []\<rparr>"

theorem NET_loopback_queue_witness:
  "\<exists>io' m' adr io''. NET_SendLoopPacket NS_CLIENT [1, 2, 3] empty_io = Inr io' \<and>
     NET_GetLoopPacket NS_SERVER send_buf io' = Inr (True, adr, m', io'') \<and>
     content m' = [1, 2, 3]"
proof -
  have "loop_ok empty_loop" by (simp add: loop_ok_def loop_shape_def empty_loop_def)
  moreover have "loop_queue empty_loop = []" by (simp add: loop_queue_def empty_loop_def)
  ultimately show ?thesis
    using NET_loopback_queue [of NS_CLIENT empty_io "[1, 2, 3]" send_buf]
    by (auto simp: empty_io_def other_side_def loop_of_def newest_def send_buf_def MSG_Init_def
        empty_loop_def)
qed

section \<open>Processing a datagram\<close>

definition chan_ok :: "netchan \<Rightarrow> bool" where
  "chan_ok c \<longleftrightarrow> 0 \<le> incomingSequence c \<and> incomingSequence c < 2 ^ 31 \<and>
     0 \<le> fragmentLength c \<and> fragmentLength c \<le> fragmentBufferSize c \<and>
     fragmentBufferSize c = int (length (fragmentBuffer c)) \<and> fragmentBufferSize c < 2 ^ 27"

lemma chan_okD:
  assumes "chan_ok c"
  shows "0 \<le> incomingSequence c" "incomingSequence c < 2 ^ 31" "0 \<le> fragmentLength c"
    "fragmentLength c \<le> fragmentBufferSize c" "fragmentBufferSize c = int (length (fragmentBuffer c))"
    "fragmentBufferSize c < 2 ^ 27"
  using assms by (simp_all add: chan_ok_def)

text \<open>What no reader changes: the array and its bounds.\<close>

definition same_data :: "msg \<Rightarrow> msg \<Rightarrow> bool" where
  "same_data m m' \<longleftrightarrow> data m' = data m \<and> cursize m' = cursize m \<and> maxsize m' = maxsize m"

lemma same_data_trans: "same_data m m1 \<Longrightarrow> same_data m1 m2 \<Longrightarrow> same_data m m2"
  by (simp add: same_data_def)

lemma same_data_reads:
  "same_data m (snd (MSG_ReadByte m))" "same_data m (snd (MSG_ReadShort m))"
  "same_data m (snd (MSG_ReadLong m))" "same_data m (MSG_BeginReading m)"
  by (simp_all add: same_data_def MSG_ReadByte_def MSG_ReadShort_def MSG_ReadLong_def msg_adv_def
      MSG_BeginReading_def)

lemma ReadLong_range: "- (2 ^ 31) \<le> fst (MSG_ReadLong m) \<and> fst (MSG_ReadLong m) < 2 ^ 31"
  using s32_range by (simp add: MSG_ReadLong_def)

lemma ReadShort_range: "- (2 ^ 15) \<le> fst (MSG_ReadShort m) \<and> fst (MSG_ReadShort m) < 2 ^ 15"
  using s16_range by (simp add: MSG_ReadShort_def)

lemma read_header_facts:
  assumes "read_header sock m = (sequence, fragmented, start, len, m1)"
  shows "sequence < 2 ^ 31" "0 \<le> sequence" "same_data m m1" "len < 2 ^ 15"
proof -
  obtain raw m0 where raw: "MSG_ReadLong (MSG_BeginReading m) = (raw, m0)" by force
  define m2 where "m2 = (if sock = NS_SERVER then snd (MSG_ReadShort m0) else m0)"
  have r: "- (2 ^ 31) \<le> raw" "raw < 2 ^ 31"
    using ReadLong_range [of "MSG_BeginReading m"] raw by simp_all
  have s2: "same_data m m2"
    using same_data_reads(4) [of m] same_data_reads(3) [of "MSG_BeginReading m"]
      same_data_reads(2) [of m0] raw
    by (auto simp: m2_def intro: same_data_trans)
  have h: "read_header sock m = (if raw < 0
      then (raw + 2 ^ 31, True, fst (MSG_ReadLong m2), fst (MSG_ReadShort (snd (MSG_ReadLong m2))),
            snd (MSG_ReadShort (snd (MSG_ReadLong m2))))
      else (raw, False, 0, 0, m2))"
    by (simp add: read_header_def raw m2_def case_prod_beta Let_def)
  have s3: "same_data m (snd (MSG_ReadShort (snd (MSG_ReadLong m2))))"
    using s2 same_data_reads(2,3) same_data_trans by blast
  show "sequence < 2 ^ 31" "0 \<le> sequence" "same_data m m1" "len < 2 ^ 15"
    using assms h r s2 s3 ReadShort_range [of "snd (MSG_ReadLong m2)"] by (auto split: if_splits)
qed

text \<open>
  Claim C20. \<open>Netchan_Process\<close> never delivers a datagram twice or out of order and keeps
  the fragment buffer within its bounds, whatever bytes arrive: it accepts exactly when the
  incoming sequence number grows, never lowers it, and keeps the channel well-formed.  The
  only fault is the copy of a reassembled message: its length is checked against
  \<open>msg->maxsize\<close> but four bytes more are written, so a message buffer that holds less than
  the fragment buffer plus four bytes can be overrun.
\<close>

theorem Netchan_Process_safe:
  assumes "chan_ok c" "maxsize m \<le> int (length (data m))"
  shows "case Netchan_Process c m of
      Inl e \<Rightarrow> e = OUT_OF_BOUNDS \<and> maxsize m < fragmentBufferSize c + 4
    | Inr (r, c', m') \<Rightarrow> chan_ok c' \<and> incomingSequence c \<le> incomingSequence c' \<and>
        (r \<longleftrightarrow> incomingSequence c < incomingSequence c') \<and>
        fragmentBufferSize c' = fragmentBufferSize c"
proof -
  obtain sequence fragmented start len m1 where
    h: "read_header (nc_sock c) m = (sequence, fragmented, start, len, m1)"
    by (metis prod.exhaust_sel)
  note H = read_header_facts [OF h] and C = chan_okD [OF assms(1)]
  define c2 where "c2 = (if sequence \<noteq> fragmentSequence c
      then c\<lparr>dropped := s32 (sequence - (incomingSequence c + 1)), fragmentSequence := sequence,
             fragmentLength := 0\<rparr>
      else c\<lparr>dropped := s32 (sequence - (incomingSequence c + 1))\<rparr>)"
  have c2: "chan_ok c2" "incomingSequence c2 = incomingSequence c"
    "fragmentBufferSize c2 = fragmentBufferSize c"
    using C by (auto simp: chan_ok_def c2_def)
  note C2 = chan_okD [OF c2(1)]
  define c3 where "c3 = c2\<lparr>fragmentBuffer := blit (nat (fragmentLength c2))
      (bytes_at (readcount m1) len (data m1)) (fragmentBuffer c2),
      fragmentLength := s32 (fragmentLength c2 + len)\<rparr>"
  have P: "Netchan_Process c m =
     (if sequence \<le> incomingSequence c then Inr (False, c, m1)
      else if \<not> fragmented then
        Inr (True, c\<lparr>dropped := s32 (sequence - (incomingSequence c + 1)), incomingSequence := sequence\<rparr>, m1)
      else if start \<noteq> fragmentLength c2 then Inr (False, c2, m1)
      else if len < 0 \<or> cursize m1 < readcount m1 + len
           \<or> fragmentBufferSize c2 < s32 (fragmentLength c2 + len) then Inr (False, c2, m1)
      else if len = FRAGMENT_SIZE then Inr (False, c3, m1) else deliver_fragments sequence c3 m1)"
    by (simp add: Netchan_Process_def h c2_def c3_def Let_def cong: if_cong)
  have c3: "chan_ok c3" "incomingSequence c3 = incomingSequence c"
    "fragmentBufferSize c3 = fragmentBufferSize c" "fragmentLength c3 \<le> fragmentBufferSize c"
    if "\<not> len < 0" "\<not> fragmentBufferSize c2 < s32 (fragmentLength c2 + len)"
  proof -
    have "s32 (fragmentLength c2 + len) = fragmentLength c2 + len"
      using that(1) C2 H(4) by (intro s32_id) simp_all
    then show "chan_ok c3" "incomingSequence c3 = incomingSequence c"
      "fragmentBufferSize c3 = fragmentBufferSize c" "fragmentLength c3 \<le> fragmentBufferSize c"
      using that C2 c2 by (simp_all add: c3_def chan_ok_def)
  qed
  have "case deliver_fragments sequence c3 m1 of
      Inl e \<Rightarrow> e = OUT_OF_BOUNDS \<and> maxsize m < fragmentBufferSize c + 4
    | Inr (r, c', m') \<Rightarrow> chan_ok c' \<and> incomingSequence c \<le> incomingSequence c' \<and>
        (r \<longleftrightarrow> incomingSequence c < incomingSequence c') \<and>
        fragmentBufferSize c' = fragmentBufferSize c"
    if "\<not> sequence \<le> incomingSequence c" "\<not> len < 0"
      "\<not> fragmentBufferSize c2 < s32 (fragmentLength c2 + len)"
    using c3 [OF that(2,3)] that(1) H(1-3) assms(2) C
    by (auto simp: deliver_fragments_def same_data_def chan_ok_def)
  then show ?thesis
    unfolding P using assms(1) c2 c3 H(1,2) C by (auto simp: chan_ok_def)
qed

theorem Netchan_Process_safe_witness:
  "case Netchan_Process (Netchan_Setup NS_CLIENT loop_adr 1 [] 0 (replicate 16 0) 16)
       (MSG_InitReadOnly [1, 0, 0, 128, 0, 0, 0, 0, 2, 0, 7, 9, 0, 0, 0, 0] 12) of
     Inl e \<Rightarrow> e = OUT_OF_BOUNDS \<and> (12 :: int) < 16 + 4
   | Inr (r, c', m') \<Rightarrow> chan_ok c' \<and> 0 \<le> incomingSequence c' \<and>
       (r \<longleftrightarrow> 0 < incomingSequence c') \<and> fragmentBufferSize c' = 16"
proof -
  let ?c = "Netchan_Setup NS_CLIENT loop_adr 1 [] 0 (replicate 16 0) 16"
    and ?m = "MSG_InitReadOnly [1, 0, 0, 128, 0, 0, 0, 0, 2, 0, 7, 9, 0, 0, 0, 0] 12"
  have w: "chan_ok ?c" "maxsize ?m \<le> int (length (data ?m))" "incomingSequence ?c = 0"
    "fragmentBufferSize ?c = 16" "maxsize ?m = 12"
    by (simp_all add: chan_ok_def Netchan_Setup_def MSG_InitReadOnly_def MSG_Init_def)
  show ?thesis using Netchan_Process_safe [OF w(1,2)] unfolding w(3-5) .
qed

section \<open>A fragmented message from one side to the other\<close>

definition chunk :: "bytes \<Rightarrow> nat \<Rightarrow> bytes" where
  "chunk bs k = take 1300 (drop (1300 * k) bs)"

definition qport_bytes :: "netsrc \<Rightarrow> int \<Rightarrow> bytes" where
  "qport_bytes sock qp = (if sock = NS_CLIENT then le_bytes 2 qp else [])"

definition fragment_packet :: "netsrc \<Rightarrow> int \<Rightarrow> int \<Rightarrow> bytes \<Rightarrow> nat \<Rightarrow> bytes" where
  "fragment_packet sock qp sequence bs k =
     le_bytes 4 (sequence OR FRAGMENT_BIT) @ qport_bytes sock qp @ le_bytes 4 (int (1300 * k)) @
     le_bytes 2 (int (length (chunk bs k))) @ chunk bs k"

lemma length_chunk: "length (chunk bs k) = min 1300 (length bs - 1300 * k)"
  by (simp add: chunk_def)

lemma length_qport_bytes: "length (qport_bytes sock qp) \<le> 2"
  by (simp add: qport_bytes_def)

lemma chunks_concat: "concat (map (chunk bs) [0..<Suc (length bs div 1300)]) = bs"
proof -
  have "concat (map (chunk bs) [0..<k]) = take (1300 * k) bs" for k
  proof (induction k)
    case (Suc k)
    have "take (1300 * Suc k) bs = take (1300 * k) bs @ chunk bs k"
      using take_add [of "1300 * k" 1300 bs] by (simp add: chunk_def add.commute)
    then show ?case using Suc by simp
  qed simp
  moreover have "length bs \<le> 1300 * Suc (length bs div 1300)"
    using mult_div_mod_eq [of 1300 "length bs"] mod_less_divisor [of 1300 "length bs"] by simp
  ultimately show ?thesis by (simp del: upt_Suc)
qed

lemma send_buf_ok: "msg_ok send_buf" "content send_buf = []" "room n send_buf \<longleftrightarrow> n \<le> 1400"
  by (auto simp: msg_ok_def send_buf_def MSG_Init_def content_def room_def MAX_PACKETLEN_def)

lemma content_built: "length bs \<le> 1400 \<Longrightarrow> content (msg_app bs send_buf) = bs"
  using content_app [OF send_buf_ok(1), of bs] by (simp add: send_buf_ok)

lemma build_fragment:
  assumes "length d \<le> 1300"
  shows "MSG_WriteData d (MSG_WriteShort len (MSG_WriteLong start
      (if sock = NS_CLIENT then MSG_WriteShort qp (MSG_WriteLong x send_buf) else MSG_WriteLong x send_buf)))
    = msg_app (le_bytes 4 x @ qport_bytes sock qp @ le_bytes 4 start @ le_bytes 2 len @ d) send_buf"
  using assms
  by (cases sock) (simp_all add: qport_bytes_def msg_simps msg_app_ok send_buf_ok room_app
      del: le_bytes.simps)

lemma or_fragment_bit: "0 \<le> s \<Longrightarrow> s < 2 ^ 31 \<Longrightarrow> s OR FRAGMENT_BIT = s - 2 ^ 31"
proof -
  assume s: "0 \<le> s" "s < 2 ^ 31"
  have "FRAGMENT_BIT = NOT (mask 31)" by (simp add: FRAGMENT_BIT_def not_int_def mask_eq_exp_minus_1)
  moreover have "s AND NOT (mask 31) = 0"
  proof -
    have "take_bit 31 s = s" using s by (simp add: take_bit_int_eq_self_iff)
    then have "\<not> bit s n" if "31 \<le> n" for n
      using that by (metis bit_take_bit_iff not_le)
    then show ?thesis
      by (intro bit_eqI) (auto simp: bit_and_iff bit_not_iff bit_mask_iff not_less)
  qed
  ultimately have "s OR FRAGMENT_BIT = s + NOT (mask 31)"
    by (simp add: disjunctive_add_eq_or)
  then show ?thesis by (simp add: not_int_def mask_eq_exp_minus_1)
qed

text \<open>Network conditions of the round trip: no plugin swallows the datagram, a real address.\<close>

definition plain_net :: "netenv \<Rightarrow> netadr \<Rightarrow> bool" where
  "plain_net env to \<longleftrightarrow> (\<forall>bs. \<not> ev_udpnetsend env to bs) \<and> adr_type to \<notin> {NA_LOOPBACK, NA_BAD}"

lemma SendPacket_wire:
  "plain_net env to \<Longrightarrow> NET_SendPacket env sock bs to io =
     Inr (sys_sendpacket env bs to, io\<lparr>wire := wire io @ [(bs, to)]\<rparr>)"
  by (simp add: NET_SendPacket_def plain_net_def)

text \<open>A channel with the message \<open>bs\<close> to send, before its fragment \<open>k\<close>.\<close>

definition sending :: "netchan \<Rightarrow> bytes \<Rightarrow> nat \<Rightarrow> bool" where
  "sending c bs k \<longleftrightarrow> unsentLength c = int (length bs) \<and> length bs \<le> length (unsentBuffer c) \<and>
     take (length bs) (unsentBuffer c) = bs \<and> unsentFragmentStart c = int (1300 * k) \<and>
     unsentFragments c \<and> 1300 * k \<le> length bs \<and> length bs < 2 ^ 27 \<and>
     0 \<le> outgoingSequence c \<and> outgoingSequence c < 2 ^ 31 - 1"

lemma transmit_fragment:
  assumes "sending c bs k" and net: "plain_net env (nc_remoteAddress c)"
  obtains c' ok where "Netchan_TransmitNextFragment env c io = Inr (ok, c',
      io\<lparr>wire := wire io @ [(fragment_packet (nc_sock c) (net_qport env) (outgoingSequence c) bs k,
                           nc_remoteAddress c)]\<rparr>)"
    "nc_sock c' = nc_sock c" "nc_remoteAddress c' = nc_remoteAddress c"
    "1300 * Suc k \<le> length bs \<Longrightarrow> sending c' bs (Suc k) \<and> outgoingSequence c' = outgoingSequence c"
    "length bs < 1300 * Suc k \<Longrightarrow> \<not> unsentFragments c' \<and> outgoingSequence c' = outgoingSequence c + 1"
proof -
  let ?n = "length bs"
  note S = assms(1) [unfolded sending_def]
  define final where "final \<longleftrightarrow> ?n < 1300 * Suc k"
  have fin: "unsentLength c < s32 (unsentFragmentStart c + FRAGMENT_SIZE) \<longleftrightarrow> final"
  proof -
    have "s32 (int (1300 * k) + 1300) = int (1300 * k) + 1300" using S by (intro s32_id) simp_all
    then show ?thesis using S by (auto simp: final_def FRAGMENT_SIZE_def)
  qed
  have len: "(if final then unsentLength c - unsentFragmentStart c else FRAGMENT_SIZE) =
      int (length (chunk bs k))"
    using S by (auto simp: final_def FRAGMENT_SIZE_def length_chunk)
  have d: "bytes_at (unsentFragmentStart c) (int (length (chunk bs k))) (unsentBuffer c) = chunk bs k"
  proof -
    have "take (length (chunk bs k)) (drop (1300 * k) (unsentBuffer c)) =
        take (length (chunk bs k)) (drop (1300 * k) (take ?n (unsentBuffer c)))"
      by (simp add: length_chunk drop_take min_def)
    also have "\<dots> = chunk bs k" using S by (simp add: chunk_def min_def)
    finally show ?thesis using S by (simp only: bytes_at_def nat_int)
  qed
  have c1300: "length (chunk bs k) \<le> 1300" by (simp add: length_chunk)
  have pkt: "content (msg_app (le_bytes 4 (x OR FRAGMENT_BIT) @ qport_bytes (nc_sock c) qp @
        le_bytes 4 (unsentFragmentStart c) @ le_bytes 2 (int (length (chunk bs k))) @ chunk bs k) send_buf) =
      fragment_packet (nc_sock c) qp x bs k" for qp x
    using c1300 length_qport_bytes [of "nc_sock c" qp] S
    by (subst content_built) (simp_all add: fragment_packet_def)
  define c' where "c' = (let c1 = c\<lparr>unsentFragmentStart := s32 (unsentFragmentStart c + int (length (chunk bs k)))\<rparr> in
      if unsentFragmentStart c1 = unsentLength c1 \<and> final
      then c1\<lparr>outgoingSequence := s32 (outgoingSequence c1 + 1), unsentFragments := False\<rparr> else c1)"
  have "Netchan_TransmitNextFragment env c io = Inr (sys_sendpacket env
      (fragment_packet (nc_sock c) (net_qport env) (outgoingSequence c) bs k) (nc_remoteAddress c), c',
      io\<lparr>wire := wire io @ [(fragment_packet (nc_sock c) (net_qport env) (outgoingSequence c) bs k,
                           nc_remoteAddress c)]\<rparr>)"
    unfolding Netchan_TransmitNextFragment_def Let_def fin len d build_fragment [OF c1300]
    by (simp add: pkt SendPacket_wire [OF net] c'_def Let_def)
  moreover have "s32 (unsentFragmentStart c + int (length (chunk bs k))) =
      int (1300 * k + length (chunk bs k))"
    using S c1300 by (subst s32_id) simp_all
  moreover have "s32 (outgoingSequence c + 1) = outgoingSequence c + 1" using S by simp
  ultimately show ?thesis
    using that S by (auto simp: c'_def Let_def sending_def final_def length_chunk min_def)
qed

lemma begin_reading: "msg_ok m \<Longrightarrow> msg_ok (MSG_BeginReading m) \<and> unread (MSG_BeginReading m) = content m"
  by (auto simp: msg_ok_def MSG_BeginReading_def unread_def content_def)

lemma adv_fields [simp]:
  "data (msg_adv n m) = data m" "cursize (msg_adv n m) = cursize m" "maxsize (msg_adv n m) = maxsize m"
  "readcount (msg_adv n m) = readcount m + n"
  by (simp_all add: msg_adv_def)

lemma begin_fields [simp]:
  "data (MSG_BeginReading m) = data m" "cursize (MSG_BeginReading m) = cursize m"
  "maxsize (MSG_BeginReading m) = maxsize m" "readcount (MSG_BeginReading m) = 0"
  by (simp_all add: MSG_BeginReading_def)

lemma read_fragment_header:
  assumes "msg_ok m" "content m = fragment_packet sock qp sequence bs k"
    and "0 \<le> sequence" "sequence < 2 ^ 31" "int (1300 * k) < 2 ^ 31"
  obtains m1 where "read_header (other_side sock) m =
      (sequence, True, int (1300 * k), int (length (chunk bs k)), m1)"
    "same_data m m1" "bytes_at (readcount m1) (int (length (chunk bs k))) (data m1) = chunk bs k"
    "readcount m1 + int (length (chunk bs k)) = cursize m1" "msg_ok m1"
proof -
  let ?b = "MSG_BeginReading m" and ?d = "chunk bs k"
  let ?x = "sequence OR FRAGMENT_BIT" and ?q = "qport_bytes sock qp"
  let ?n = "int (length ?q)"
  have b: "msg_ok ?b" "unread ?b = fragment_packet sock qp sequence bs k"
    using begin_reading [OF assms(1)] assms(2) by simp_all
  have "readable ?b (fragment_packet sock qp sequence bs k)"
    using b by (auto simp: readable_def)
  then have r: "readable ?b (le_bytes 4 ?x)" "readable (msg_adv 4 ?b) ?q"
    "readable (msg_adv ?n (msg_adv 4 ?b)) (le_bytes 4 (int (1300 * k)))"
    "readable (msg_adv 4 (msg_adv ?n (msg_adv 4 ?b))) (le_bytes 2 (int (length ?d)))"
    "readable (msg_adv 2 (msg_adv 4 (msg_adv ?n (msg_adv 4 ?b)))) ?d"
    by (simp_all add: fragment_packet_def readable_append del: le_bytes.simps)
  let ?m1 = "msg_adv 2 (msg_adv 4 (msg_adv ?n (msg_adv 4 ?b)))"
  have x: "s32 ?x = sequence - 2 ^ 31" using or_fragment_bit assms(3,4) by simp
  have skip: "(if other_side sock = NS_SERVER then snd (MSG_ReadShort (msg_adv 4 ?b)) else msg_adv 4 ?b) =
      msg_adv ?n (msg_adv 4 ?b)"
    using r(2) ReadShort_readable
    by (cases sock) (simp_all add: other_side_def qport_bytes_def del: le_bytes.simps, simp add: msg_adv_def)
  have dl: "length ?d \<le> 1300" by (simp add: length_chunk)
  have v: "s32 (int (1300 * k)) = int (1300 * k)" "s16 (int (length ?d)) = int (length ?d)"
    using assms(5) dl by simp_all
  have "read_header (other_side sock) m = (sequence, True, int (1300 * k), int (length ?d), ?m1)"
    unfolding read_header_def ReadLong_readable [OF r(1)] x Let_def prod.case skip
      ReadLong_readable [OF r(3)] ReadShort_readable [OF r(4)] v
    using assms(4) by simp
  moreover have "same_data m ?m1" by (simp add: same_data_def)
  moreover have "bytes_at (readcount ?m1) (int (length ?d)) (data ?m1) = ?d"
    by (rule bytes_at_readable [OF r(5)])
  moreover have "readcount ?m1 + int (length ?d) = cursize ?m1"
  proof -
    have "int (length (content m)) = cursize m"
      using length_content [OF assms(1)] msg_okD(2) [OF assms(1)] by simp
    then show ?thesis unfolding assms(2) by (simp add: fragment_packet_def)
  qed
  moreover have "msg_ok ?m1" using r(5) by (simp add: readable_def)
  ultimately show ?thesis using that by blast
qed

text \<open>A receiver that holds the first \<open>k\<close> fragments of the message \<open>bs\<close>.\<close>

definition assembling :: "netchan \<Rightarrow> int \<Rightarrow> bytes \<Rightarrow> nat \<Rightarrow> bool" where
  "assembling c sequence bs k \<longleftrightarrow> chan_ok c \<and> incomingSequence c < sequence \<and>
     int (length bs) \<le> fragmentBufferSize c \<and>
     (if k = 0 then fragmentSequence c \<noteq> sequence \<or> fragmentLength c = 0
      else fragmentSequence c = sequence \<and> fragmentLength c = int (1300 * k) \<and>
        take (1300 * k) (fragmentBuffer c) = take (1300 * k) bs)"

lemma blit_extend:
  assumes "take i xs = take i bs" "i \<le> length bs" "length bs \<le> length xs" "d = take n (drop i bs)"
  shows "take (i + length d) (blit i d xs) = take (i + length d) bs"
proof -
  have le: "i + length d \<le> length xs" using assms by simp
  have "take (i + length d) (blit i d xs) = take i bs @ d" using take_blit [OF le] assms(1) by simp
  also have "\<dots> = take (i + length d) bs"
    using take_add [of i "length d" bs] assms(4) by (simp add: min_def)
  finally show ?thesis .
qed

lemma process_fragment:
  assumes asm: "assembling c sequence bs k" and sock: "nc_sock c = other_side sock"
    and m: "msg_ok m" "content m = fragment_packet sock qp sequence bs k"
    and seqb: "sequence < 2 ^ 31" and k: "1300 * k \<le> length bs"
    and room: "int (length bs) + 4 \<le> maxsize m"
  obtains r c' m' where "Netchan_Process c m = Inr (r, c', m')" "nc_sock c' = nc_sock c"
    "1300 * Suc k \<le> length bs \<Longrightarrow> \<not> r \<and> assembling c' sequence bs (Suc k)"
    "length bs < 1300 * Suc k \<Longrightarrow> r \<and> incomingSequence c' = sequence \<and> unread m' = bs \<and>
       take 4 (content m') = le_bytes 4 sequence \<and> chan_ok c'"
proof -
  let ?d = "chunk bs k"
  note A = asm [unfolded assembling_def]
  note C = chan_okD [OF conjunct1 [OF A]]
  have seq0: "0 \<le> sequence" "\<not> sequence \<le> incomingSequence c" using A C by simp_all
  have n27: "int (length bs) < 2 ^ 27" using A C by simp
  then have kb: "int (1300 * k) < 2 ^ 31" using k by simp
  obtain m1 where h: "read_header (other_side sock) m =
      (sequence, True, int (1300 * k), int (length ?d), m1)"
    and m1: "same_data m m1" "bytes_at (readcount m1) (int (length ?d)) (data m1) = ?d"
      "readcount m1 + int (length ?d) = cursize m1" "msg_ok m1"
    by (rule read_fragment_header [OF m seq0(1) seqb kb])
  define c2 where "c2 = (if sequence \<noteq> fragmentSequence c
      then c\<lparr>dropped := s32 (sequence - (incomingSequence c + 1)), fragmentSequence := sequence,
             fragmentLength := 0\<rparr>
      else c\<lparr>dropped := s32 (sequence - (incomingSequence c + 1))\<rparr>)"
  have c2: "fragmentLength c2 = int (1300 * k)" "fragmentSequence c2 = sequence"
    "take (1300 * k) (fragmentBuffer c2) = take (1300 * k) bs" "nc_sock c2 = nc_sock c"
    "fragmentBuffer c2 = fragmentBuffer c" "fragmentBufferSize c2 = fragmentBufferSize c"
    "incomingSequence c2 = incomingSequence c"
    using A by (auto simp: c2_def split: if_splits)
  define e where "e = 1300 * k + length ?d"
  have e: "e \<le> length bs" "e = (if 1300 * Suc k \<le> length bs then 1300 * Suc k else length bs)"
    using k by (auto simp: e_def length_chunk)
  have se: "s32 (int (1300 * k) + int (length ?d)) = int e"
    using n27 e(1) by (subst s32_id) (simp_all add: e_def)
  define c3 where "c3 = c2\<lparr>fragmentBuffer := blit (1300 * k) ?d (fragmentBuffer c2), fragmentLength := int e\<rparr>"
  have P: "Netchan_Process c m =
    (if int (length ?d) = FRAGMENT_SIZE then Inr (False, c3, m1) else deliver_fragments sequence c3 m1)"
  proof -
    have "Netchan_Process c m = (if int (length ?d) = FRAGMENT_SIZE
        then Inr (False, c2\<lparr>fragmentBuffer := blit (nat (fragmentLength c2)) ?d (fragmentBuffer c2),
               fragmentLength := int e\<rparr>, m1)
        else deliver_fragments sequence (c2\<lparr>fragmentBuffer := blit (nat (fragmentLength c2)) ?d
               (fragmentBuffer c2), fragmentLength := int e\<rparr>) m1)"
      unfolding Netchan_Process_def sock h Let_def prod.case
      using seq0 c2(1,6) m1(2,3) se e(1) A
      by (auto simp: c2_def [symmetric] cong: if_cong)
    then show ?thesis by (simp only: c3_def c2(1) nat_int)
  qed
  have buf: "take e (fragmentBuffer c3) = take e bs" "length (fragmentBuffer c3) = length (fragmentBuffer c)"
    using blit_extend [OF c2(3) k, of ?d 1300] A C c2(5)
    by (simp_all add: c3_def e_def chunk_def)
  have c3: "chan_ok c3" "fragmentLength c3 = int e" "fragmentSequence c3 = sequence"
    "incomingSequence c3 = incomingSequence c" "nc_sock c3 = nc_sock c"
    "fragmentBufferSize c3 = fragmentBufferSize c"
    using A C c2 buf e(1) by (auto simp: c3_def chan_ok_def)
  show ?thesis
  proof (cases "1300 * Suc k \<le> length bs")
    case True
    then have "int (length ?d) = FRAGMENT_SIZE" by (simp add: length_chunk FRAGMENT_SIZE_def)
    moreover have "e = 1300 * Suc k" using e(2) True by simp
    ultimately show ?thesis
      using that [of False c3 m1] P c3 buf A True by (simp add: assembling_def)
  next
    case False
    then have d: "int (length ?d) \<noteq> FRAGMENT_SIZE" "e = length bs"
      using e(2) by (simp_all add: length_chunk FRAGMENT_SIZE_def)
    let ?m = "m1\<lparr>data := blit 4 (take (nat (fragmentLength c3)) (fragmentBuffer c3))
                        (blit 0 (le_bytes 4 sequence) (data m1)),
               cursize := fragmentLength c3 + 4, readcount := 4, bitpos := 32\<rparr>"
    have mm: "maxsize m1 = maxsize m" "maxsize m1 \<le> int (length (data m1))"
      using m1(1) msg_okD(5) [OF m1(4)] by (simp_all add: same_data_def)
    have D: "deliver_fragments sequence c3 m1 =
        Inr (True, c3\<lparr>fragmentLength := 0, incomingSequence := sequence\<rparr>, ?m)"
      using room mm d(2) c3(2) by (simp add: deliver_fragments_def)
    have body: "take (nat (fragmentLength c3)) (fragmentBuffer c3) = bs"
      using buf(1) d(2) c3(2) by simp
    have len: "4 + length bs \<le> length (data m1)" using room mm by simp
    have cont: "content ?m = le_bytes 4 sequence @ bs"
    proof -
      have "blit 4 bs (blit 0 (le_bytes 4 sequence) (data m1)) =
          le_bytes 4 sequence @ bs @ drop (4 + length bs) (data m1)"
        using len by (simp add: blit_eq add.commute del: le_bytes.simps)
      then show ?thesis
        using body c3(2) d(2) by (simp add: content_def nat_add_distrib del: le_bytes.simps)
    qed
    have "unread ?m = bs" using cont by (simp add: unread_def del: le_bytes.simps)
    moreover have "chan_ok (c3\<lparr>fragmentLength := 0, incomingSequence := sequence\<rparr>)"
      using c3(1) seq0(1) seqb C(5) by (auto simp: chan_ok_def)
    ultimately show ?thesis
      using that [of True "c3\<lparr>fragmentLength := 0, incomingSequence := sequence\<rparr>" ?m] P D d(1) cont
        c3(5) False by (simp del: le_bytes.simps)
  qed
qed

text \<open>
  The sender calls \<open>Netchan_Transmit\<close> once and then \<open>Netchan_TransmitNextFragment\<close> as
  long as fragments are left (one call per server frame; the number bounds the calls).
  The receiver runs \<open>Netchan_Process\<close> on each datagram and collects the accepted messages.
\<close>

primrec transmit_rest :: "nat \<Rightarrow> netenv \<Rightarrow> netchan \<Rightarrow> netio \<Rightarrow> fault + (netchan \<times> netio)" where
  "transmit_rest 0 env c io = Inr (c, io)"
| "transmit_rest (Suc n) env c io =
     (if unsentFragments c then
        (case Netchan_TransmitNextFragment env c io of
           Inl e \<Rightarrow> Inl e
         | Inr (ok, c', io') \<Rightarrow> transmit_rest n env c' io')
      else Inr (c, io))"

definition send_message :: "nat \<Rightarrow> netenv \<Rightarrow> netchan \<Rightarrow> bytes \<Rightarrow> netio \<Rightarrow> fault + (netchan \<times> netio)" where
  "send_message n env c bs io =
     (case Netchan_Transmit env c bs io of
        Inl e \<Rightarrow> Inl e
      | Inr (ok, c', io') \<Rightarrow> transmit_rest n env c' io')"

primrec process_each :: "netchan \<Rightarrow> msg list \<Rightarrow> fault + (netchan \<times> msg list)" where
  "process_each c [] = Inr (c, [])"
| "process_each c (m # ms) =
     (case Netchan_Process c m of
        Inl e \<Rightarrow> Inl e
      | Inr (r, c', m') \<Rightarrow>
          (case process_each c' ms of
             Inl e \<Rightarrow> Inl e
           | Inr (c'', acc) \<Rightarrow> Inr (c'', (if r then m' # acc else acc))))"

lemma transmit_rest_fragments:
  "sending c bs k \<Longrightarrow> plain_net env (nc_remoteAddress c) \<Longrightarrow> length bs div 1300 = k + n \<Longrightarrow>
   \<exists>c'. transmit_rest (Suc n) env c io = Inr (c', io\<lparr>wire := wire io @
       map (\<lambda>j. (fragment_packet (nc_sock c) (net_qport env) (outgoingSequence c) bs j, nc_remoteAddress c))
         [k..<Suc (k + n)]\<rparr>) \<and>
     \<not> unsentFragments c' \<and> outgoingSequence c' = outgoingSequence c + 1"
proof (induction n arbitrary: c k io)
  case 0
  then have last: "length bs < 1300 * Suc k"
    using mult_div_mod_eq [of 1300 "length bs"] mod_less_divisor [of 1300 "length bs"] by simp
  obtain c' ok where t: "Netchan_TransmitNextFragment env c io = Inr (ok, c',
      io\<lparr>wire := wire io @ [(fragment_packet (nc_sock c) (net_qport env) (outgoingSequence c) bs k,
                           nc_remoteAddress c)]\<rparr>)"
    "\<not> unsentFragments c' \<and> outgoingSequence c' = outgoingSequence c + 1"
    using transmit_fragment [OF 0(1,2), of io] last by metis
  moreover have "unsentFragments c" using 0(1) by (simp add: sending_def)
  ultimately show ?case by simp
next
  case (Suc n)
  then have more: "1300 * Suc k \<le> length bs"
    using mult_div_mod_eq [of 1300 "length bs"] by simp
  obtain c' ok where t: "Netchan_TransmitNextFragment env c io = Inr (ok, c',
      io\<lparr>wire := wire io @ [(fragment_packet (nc_sock c) (net_qport env) (outgoingSequence c) bs k,
                           nc_remoteAddress c)]\<rparr>)"
    "nc_sock c' = nc_sock c" "nc_remoteAddress c' = nc_remoteAddress c"
    "sending c' bs (Suc k)" "outgoingSequence c' = outgoingSequence c"
    using transmit_fragment [OF Suc.prems(1,2), of io] more by metis
  have u: "unsentFragments c" using Suc.prems(1) by (simp add: sending_def)
  have rng: "[k..<Suc (k + Suc n)] = k # [Suc k..<Suc (Suc k + n)]"
    by (simp add: upt_conv_Cons del: upt_Suc)
  show ?case
    using Suc.IH [OF t(4), of "io\<lparr>wire := wire io @ [(fragment_packet (nc_sock c) (net_qport env)
          (outgoingSequence c) bs k, nc_remoteAddress c)]\<rparr>"] Suc.prems(2,3) t u
    unfolding rng by (simp del: upt_Suc)
qed

lemma process_fragments:
  "assembling c sequence bs k \<Longrightarrow> nc_sock c = other_side sock \<Longrightarrow> sequence < 2 ^ 31 \<Longrightarrow>
   length bs div 1300 = k + n \<Longrightarrow>
   map content ms = map (fragment_packet sock qp sequence bs) [k..<Suc (k + n)] \<Longrightarrow>
   \<forall>m \<in> set ms. msg_ok m \<and> int (length bs) + 4 \<le> maxsize m \<Longrightarrow>
   \<exists>c' m'. process_each c ms = Inr (c', [m']) \<and> unread m' = bs \<and> incomingSequence c' = sequence"
proof (induction n arbitrary: c k ms)
  case 0
  then obtain m where ms: "ms = [m]" "content m = fragment_packet sock qp sequence bs k"
    by (auto simp: map_eq_Cons_conv)
  have last: "length bs < 1300 * Suc k" "1300 * k \<le> length bs"
    using 0(4) mult_div_mod_eq [of 1300 "length bs"] mod_less_divisor [of 1300 "length bs"] by simp_all
  have ok: "msg_ok m" "int (length bs) + 4 \<le> maxsize m" using 0(6) ms(1) by simp_all
  obtain r c' m' where "Netchan_Process c m = Inr (r, c', m')"
    "r \<and> incomingSequence c' = sequence \<and> unread m' = bs"
    using process_fragment [OF 0(1,2) ok(1) ms(2) 0(3) last(2) ok(2)] last(1) by metis
  then show ?case using ms(1) by auto
next
  case (Suc n)
  have rng: "[k..<Suc (k + Suc n)] = k # [Suc k..<Suc (Suc k + n)]"
    by (simp add: upt_conv_Cons del: upt_Suc)
  obtain m ms' where ms: "ms = m # ms'" "content m = fragment_packet sock qp sequence bs k"
    "map content ms' = map (fragment_packet sock qp sequence bs) [Suc k..<Suc (Suc k + n)]"
    using Suc.prems(5) unfolding rng by (auto simp: map_eq_Cons_conv simp del: upt_Suc)
  have more: "1300 * Suc k \<le> length bs" "1300 * k \<le> length bs"
    using Suc.prems(4) mult_div_mod_eq [of 1300 "length bs"] by simp_all
  have ok: "msg_ok m" "int (length bs) + 4 \<le> maxsize m" using Suc.prems(6) ms(1) by simp_all
  obtain c' m' where p: "Netchan_Process c m = Inr (False, c', m')" "nc_sock c' = nc_sock c"
    "assembling c' sequence bs (Suc k)"
    using process_fragment [OF Suc.prems(1,2) ok(1) ms(2) Suc.prems(3) more(2) ok(2)] more(1) by metis
  have "\<exists>c'' m''. process_each c' ms' = Inr (c'', [m'']) \<and> unread m'' = bs \<and> incomingSequence c'' = sequence"
    using Suc.IH [OF p(3), of ms'] Suc.prems p(2) ms by simp
  then show ?case using ms(1) p(1) by auto
qed

text \<open>
  Claim C9. A message of at least 1300 bytes given to \<open>Netchan_Transmit\<close> and the following
  calls of \<open>Netchan_TransmitNextFragment\<close> leaves as \<open>n div 1300 + 1\<close> datagrams, the last one
  shorter than a full fragment (empty for an exact multiple), after which nothing is unsent
  and the sequence number has advanced by one.  A peer with a large enough fragment buffer
  that gets these datagrams in order accepts exactly one message, and it is the one sent.
\<close>

theorem Netchan_fragmentation_roundtrip:
  assumes "1300 \<le> length bs" "int (length bs) \<le> unsentBufferSize s"
    "unsentBufferSize s = int (length (unsentBuffer s))" "length bs < 2 ^ 27"
    and "0 \<le> outgoingSequence s" "outgoingSequence s < 2 ^ 31 - 1"
    and "plain_net env (nc_remoteAddress s)" "wire io = []"
    and "assembling r (outgoingSequence s) bs 0" "nc_sock r = other_side (nc_sock s)"
  shows "\<exists>s' io'. send_message (length bs div 1300) env s bs io = Inr (s', io') \<and>
    \<not> unsentFragments s' \<and> outgoingSequence s' = outgoingSequence s + 1 \<and>
    length (wire io') = length bs div 1300 + 1 \<and>
    (\<forall>ms. map content ms = map fst (wire io') \<and>
          (\<forall>m \<in> set ms. msg_ok m \<and> int (length bs) + 4 \<le> maxsize m) \<longrightarrow>
       (\<exists>r' m'. process_each r ms = Inr (r', [m']) \<and> unread m' = bs \<and>
          incomingSequence r' = outgoingSequence s))"
proof -
  let ?q = "length bs div 1300"
  let ?pk = "fragment_packet (nc_sock s) (net_qport env) (outgoingSequence s) bs"
  let ?c0 = "s\<lparr>unsentFragmentStart := 0, unsentFragments := True, unsentLength := int (length bs),
               unsentBuffer := blit 0 bs (unsentBuffer s)\<rparr>"
  let ?w = "\<lambda>js. io\<lparr>wire := map (\<lambda>j. (?pk j, nc_remoteAddress s)) js\<rparr>"
  have s0: "sending ?c0 bs 0" using assms(1-6) by (simp add: sending_def blit_eq)
  have q: "?q = 0 + Suc (?q - 1)" using assms(1) by (simp add: div_greater_zero_iff)
  have more: "1300 * Suc 0 \<le> length bs" using assms(1) by simp
  obtain c1 ok where t: "Netchan_TransmitNextFragment env ?c0 io = Inr (ok, c1, ?w [0])"
    "nc_sock c1 = nc_sock s" "nc_remoteAddress c1 = nc_remoteAddress s"
    "sending c1 bs (Suc 0)" "outgoingSequence c1 = outgoingSequence s"
    using transmit_fragment [OF s0, of env io] assms(7,8) more by auto metis
  have tr: "Netchan_Transmit env s bs io = Inr (True, c1, ?w [0])"
    using assms(1,2) t(1) by (simp add: Netchan_Transmit_def FRAGMENT_SIZE_def)
  have rng: "[0..<Suc ?q] = 0 # [Suc 0..<Suc (Suc 0 + (?q - 1))]"
    using q by (simp add: upt_conv_Cons del: upt_Suc)
  obtain s' where f: "transmit_rest (Suc (?q - 1)) env c1 (?w [0]) = Inr (s', ?w [0..<Suc ?q])"
    "\<not> unsentFragments s'" "outgoingSequence s' = outgoingSequence s + 1"
    using transmit_rest_fragments [OF t(4), of env "?q - 1" "?w [0]"] t(2,3,5) assms(7) q
    unfolding rng by (auto simp del: upt_Suc)
  have "?q = Suc (?q - 1)" using q by simp
  then have "send_message ?q env s bs io = Inr (s', ?w [0..<Suc ?q])"
    using f(1) tr by (simp add: send_message_def del: upt_Suc transmit_rest.simps)
  moreover have "\<exists>r' m'. process_each r ms = Inr (r', [m']) \<and> unread m' = bs \<and>
      incomingSequence r' = outgoingSequence s"
    if "map content ms = map fst (wire (?w [0..<Suc ?q]))"
      "\<forall>m \<in> set ms. msg_ok m \<and> int (length bs) + 4 \<le> maxsize m" for ms
    using process_fragments [OF assms(9,10), of ?q ms "net_qport env"] assms(6) that
    by (simp add: comp_def del: upt_Suc)
  ultimately show ?thesis using f(2,3) by (auto simp del: upt_Suc)
qed

definition quiet_env :: netenv where
  "quiet_env = \<lparr>ev_udpnetsend = (\<lambda>_ _. False), sys_sendpacket = (\<lambda>_ _. True), net_qport = 7\<rparr>"

theorem Netchan_fragmentation_roundtrip_witness:
  "\<exists>s' io'. send_message 1 quiet_env
       (Netchan_Setup NS_SERVER (ip4 [10, 0, 0, 1] 28960) 7 (replicate 2048 0) 2048 [] 0)
       (replicate 1300 42) empty_io = Inr (s', io') \<and>
     \<not> unsentFragments s' \<and> outgoingSequence s' = 2 \<and> length (wire io') = 2"
proof -
  let ?bs = "replicate 1300 42 :: bytes"
    and ?s = "Netchan_Setup NS_SERVER (ip4 [10, 0, 0, 1] 28960) 7 (replicate 2048 0) 2048 [] 0"
    and ?r = "Netchan_Setup NS_CLIENT (ip4 [10, 0, 0, 2] 28961) 7 [] 0 (replicate 2048 0) 2048"
  have w: "unsentBufferSize ?s = 2048" "length (unsentBuffer ?s) = 2048" "outgoingSequence ?s = 1"
    "plain_net quiet_env (nc_remoteAddress ?s)" "wire empty_io = []"
    "assembling ?r 1 ?bs 0" "nc_sock ?r = other_side (nc_sock ?s)"
    by (simp_all add: Netchan_Setup_def plain_net_def quiet_env_def ip4_def empty_io_def
        assembling_def chan_ok_def other_side_def)
  show ?thesis
    using Netchan_fragmentation_roundtrip [of ?bs ?s quiet_env empty_io ?r] w by auto
qed

end
