(* ===== verification/ReliableChan.thy ===== *)
theory ReliableChan
  imports Netchan
begin

text \<open>
  The reliable byte stream of src/src/net_reliabletransport.c: a sender cuts the stream into
  numbered fragments held in a ring until acknowledged, a receiver stores fragments in a
  ring of its own and hands out the bytes in order; every datagram carries the cumulative
  acknowledge and a list of selective ones.  The memory \<open>malloc\<close> returns is a parameter:
  None is NULL, Some an array of unspecified fragments of the requested length.
\<close>

definition MAX_FRAGMENT_SIZE :: int where "MAX_FRAGMENT_SIZE = 1200"
definition DEFAULT_BUFFER_SIZE :: int where "DEFAULT_BUFFER_SIZE = 32"

record fragment =
  fr_data :: bytes
  fr_len :: int
  fr_ack :: int
  fr_packetnum :: int
  fr_senttime :: int

record ratetracker =
  nextRateCntTime :: int
  rt_bytes :: int
  lastBytesSnap :: int
  bytesPerSec :: int
  bytesTotal :: int
  lastBytesSnapTotal :: int
  bytesPerSecTotal :: int

record framedata =
  fd_sequence :: int
  fd_bufferlen :: int
  fd_acknowledge :: int
  fd_selackoffset :: int
  fd_frame :: int
  fd_windowsize :: int
  fd_fragments :: "fragment list"
  fd_packets :: int
  fd_fragmentbuffer :: msg
  fd_rateInfo :: ratetracker
  fd_unsentmillipackets :: int

record reliable =
  txwindow :: framedata
  rxwindow :: framedata
  rm_sock :: netsrc
  rm_remoteAddress :: netadr
  rm_time :: int
  rm_nextacktime :: int
  rm_qport :: int

type_synonym memory = "int \<Rightarrow> fragment list option"

section \<open>Rate tracking\<close>

definition start_rate :: "int \<Rightarrow> ratetracker \<Rightarrow> ratetracker" where
  "start_rate now r =
     r\<lparr>nextRateCntTime := s32 (now + 1000), lastBytesSnap := rt_bytes r,
       lastBytesSnapTotal := bytesTotal r\<rparr>"

definition update_rate :: "int \<Rightarrow> ratetracker \<Rightarrow> ratetracker" where
  "update_rate now r =
     (if nextRateCntTime r < now then
        r\<lparr>bytesPerSec := s32 (rt_bytes r - lastBytesSnap r), lastBytesSnap := rt_bytes r,
          bytesPerSecTotal := s32 (bytesTotal r - lastBytesSnapTotal r),
          lastBytesSnapTotal := bytesTotal r, nextRateCntTime := s32 (now + 1000)\<rparr>
      else r)"

definition map_rate :: "(ratetracker \<Rightarrow> ratetracker) \<Rightarrow> framedata \<Rightarrow> framedata" where
  "map_rate f fd = fd\<lparr>fd_rateInfo := f (fd_rateInfo fd)\<rparr>"

definition ReliableMessageTrackRate :: "reliable \<Rightarrow> reliable" where
  "ReliableMessageTrackRate chan =
     (let f = (if nextRateCntTime (fd_rateInfo (rxwindow chan)) = 0
               then start_rate (rm_time chan) else update_rate (rm_time chan))
      in chan\<lparr>rxwindow := map_rate f (rxwindow chan), txwindow := map_rate f (txwindow chan)\<rparr>)"

section \<open>The send buffer\<close>

definition frag_at :: "framedata \<Rightarrow> int \<Rightarrow> fragment" where
  "frag_at fd i = idx (fd_fragments fd) (i mod fd_bufferlen fd)"

definition set_frag :: "int \<Rightarrow> fragment \<Rightarrow> framedata \<Rightarrow> framedata" where
  "set_frag i f fd = fd\<lparr>fd_fragments := put (i mod fd_bufferlen fd) f (fd_fragments fd)\<rparr>"

definition ReliableMessageGetUsedSendBufferSize :: "reliable \<Rightarrow> int" where
  "ReliableMessageGetUsedSendBufferSize chan =
     s32 (fd_sequence (txwindow chan) - fd_acknowledge (txwindow chan))"

definition clamp_len :: "int \<Rightarrow> int" where
  "clamp_len n = (if MAX_FRAGMENT_SIZE < n then MAX_FRAGMENT_SIZE else if n < 0 then 1 else n)"

definition copy_frag :: "fragment \<Rightarrow> fragment \<Rightarrow> fragment" where
  "copy_frag src dst =
     dst\<lparr>fr_data := blit 0 (take (nat (clamp_len (fr_len src))) (fr_data src)) (fr_data dst),
         fr_len := clamp_len (fr_len src), fr_ack := fr_ack src,
         fr_packetnum := fr_packetnum src, fr_senttime := fr_senttime src\<rparr>"

text \<open>\<open>for(i = acknowledge; i < sequence; ++i)\<close>, \<open>n\<close> rounds.\<close>

primrec copy_frags :: "nat \<Rightarrow> int \<Rightarrow> framedata \<Rightarrow> int \<Rightarrow> fragment list \<Rightarrow> fragment list" where
  "copy_frags 0 i fd newcount newfrags = newfrags"
| "copy_frags (Suc n) i fd newcount newfrags =
     copy_frags n (i + 1) fd newcount
       (put (i mod newcount) (copy_frag (frag_at fd i) (idx newfrags (i mod newcount))) newfrags)"

definition ReliableMessageChangeSendBufferSize :: "memory \<Rightarrow> reliable \<Rightarrow> int \<Rightarrow> int \<times> reliable" where
  "ReliableMessageChangeSendBufferSize malloc chan newcount0 =
     (let inuse = ReliableMessageGetUsedSendBufferSize chan;
          newcount = (if newcount0 \<le> DEFAULT_BUFFER_SIZE then DEFAULT_BUFFER_SIZE else newcount0);
          tx = txwindow chan
      in if newcount0 \<le> DEFAULT_BUFFER_SIZE \<and> fd_bufferlen tx = DEFAULT_BUFFER_SIZE
         then (DEFAULT_BUFFER_SIZE, chan)
         else if newcount \<le> inuse then (-1, chan)
         else case malloc newcount of
                None \<Rightarrow> (-1, chan)
              | Some mem \<Rightarrow>
                  let new0 = (if fd_acknowledge tx = 0 then map (\<lambda>f. f\<lparr>fr_ack := -1\<rparr>) mem else mem);
                      new = copy_frags (nat (fd_sequence tx - fd_acknowledge tx)) (fd_acknowledge tx)
                              tx newcount new0
                  in (newcount, chan\<lparr>txwindow := tx\<lparr>fd_fragments := new, fd_bufferlen := newcount\<rparr>\<rparr>))"

definition ReliableMessageGetAvailableSendBufferSize :: "reliable \<Rightarrow> int" where
  "ReliableMessageGetAvailableSendBufferSize chan =
     s32 (fd_bufferlen (txwindow chan) - s32 (fd_sequence (txwindow chan) - fd_acknowledge (txwindow chan)))"

section \<open>Acknowledges\<close>

primrec ack_run :: "nat \<Rightarrow> int \<Rightarrow> framedata \<Rightarrow> int" where
  "ack_run 0 i fd = i"
| "ack_run (Suc n) i fd =
     (if i < fd_windowsize fd \<and> fr_ack (frag_at fd (i + fd_sequence fd)) = i + fd_sequence fd
      then ack_run n (i + 1) fd else i)"

definition ReliableMessagesGetAcknowledge :: "framedata \<Rightarrow> int" where
  "ReliableMessagesGetAcknowledge fd = ack_run (nat (fd_windowsize fd)) 0 fd + fd_sequence fd"

text \<open>
  The loop of \<open>ReliableMessageWriteSelectiveAcklist\<close>: its variables \<open>i\<close>, \<open>inrange\<close>, \<open>count\<close>,
  \<open>lengthcnt\<close> and the message.
\<close>

primrec acklist_loop ::
  "nat \<Rightarrow> int \<Rightarrow> bool \<Rightarrow> int \<Rightarrow> int \<Rightarrow> framedata \<Rightarrow> msg \<Rightarrow> int \<times> bool \<times> int \<times> int \<times> msg" where
  "acklist_loop 0 i inrange count lengthcnt fd m = (i, inrange, count, lengthcnt, m)"
| "acklist_loop (Suc n) i inrange count lengthcnt fd m =
     (if fr_ack (frag_at fd (i + fd_sequence fd)) = i + fd_sequence fd then
        (if inrange then acklist_loop n (i + 1) True count (lengthcnt + 1) fd m
         else acklist_loop n (i + 1) True (count + 1) 1 fd (MSG_WriteShort i m))
      else if inrange then
        (let m1 = MSG_WriteShort lengthcnt m in
         if 3 \<le> count then (i, True, count, lengthcnt, m1)
         else acklist_loop n (i + 1) False count lengthcnt fd m1)
      else acklist_loop n (i + 1) False count lengthcnt fd m)"

definition ReliableMessageWriteSelectiveAcklist :: "framedata \<Rightarrow> msg \<Rightarrow> framedata \<times> msg" where
  "ReliableMessageWriteSelectiveAcklist fd m =
     (let numbytepos = cursize m;
          (i, inrange, count, lengthcnt, m1) =
            acklist_loop (nat (fd_windowsize fd - fd_selackoffset fd)) (fd_selackoffset fd)
              False 0 0 fd (MSG_WriteByte 0 m);
          m2 = (if inrange then MSG_WriteShort lengthcnt m1 else m1)
      in (fd\<lparr>fd_selackoffset := (if i < fd_windowsize fd then i else 1)\<rparr>,
          m2\<lparr>data := put numbytepos (word_of_int count) (data m2)\<rparr>))"

section \<open>Sending a datagram\<close>

text \<open>Reading a fragment beyond its array is the fault \<open>OUT_OF_BOUNDS\<close>.\<close>

text \<open>The part common to both datagrams, up to the window size.\<close>

definition write_packet_head :: "reliable \<Rightarrow> int \<Rightarrow> framedata \<times> msg" where
  "write_packet_head chan sequence =
     (let m1 = MSG_WriteShort (rm_qport chan) (MSG_WriteLong 0xfffffff0 send_buf);
          m2 = MSG_WriteLong (fd_sequence (rxwindow chan)) (MSG_WriteLong sequence m1);
          (rx, m3) = ReliableMessageWriteSelectiveAcklist (rxwindow chan) m2
      in (rx, MSG_WriteShort (fd_windowsize (txwindow chan)) m3))"

definition sent_packet :: "reliable \<Rightarrow> framedata \<Rightarrow> msg \<Rightarrow> reliable" where
  "sent_packet chan rx m =
     chan\<lparr>rxwindow := rx,
          txwindow := map_rate (\<lambda>r. r\<lparr>bytesTotal := s32 (bytesTotal r + cursize m)\<rparr>)
            ((txwindow chan)\<lparr>fd_packets := s32 (fd_packets (txwindow chan) + 1)\<rparr>),
          rm_nextacktime := s32 (rm_time chan + 350)\<rparr>"

definition next_frame :: "framedata \<Rightarrow> framedata" where
  "next_frame tx =
     (let f = s32 (fd_frame tx + 1) in
      tx\<lparr>fd_frame := (if s32 (fd_acknowledge tx + fd_windowsize tx) \<le> f
                     then fd_acknowledge tx else f)\<rparr>)"

definition ReliableMessagesTransmitNextFragment ::
  "netenv \<Rightarrow> reliable \<Rightarrow> netio \<Rightarrow> fault + (reliable \<times> netio)" where
  "ReliableMessagesTransmitNextFragment env chan io =
     (let tx = txwindow chan in
      if fd_acknowledge tx = fd_sequence tx then
        (if rm_nextacktime chan < rm_time chan then
           (let (rx, m) = write_packet_head chan (-1); m1 = MSG_WriteShort 0 m in
            case NET_SendPacket env (rm_sock chan) (content m1) (rm_remoteAddress chan) io of
              Inl e \<Rightarrow> Inl e
            | Inr (ok, io') \<Rightarrow> Inr (sent_packet chan rx m1, io'))
         else Inr (chan, io))
      else
        let tx1 = (if fd_frame tx < fd_acknowledge tx then tx\<lparr>fd_frame := fd_acknowledge tx\<rparr> else tx);
            chan1 = chan\<lparr>txwindow := tx1\<rparr>;
            sequence = fd_frame tx1;
            f = frag_at tx1 sequence
        in if fd_frame tx1 < fd_sequence tx1 \<and> fr_ack f \<noteq> sequence then
             if fr_len f < 0 \<or> int (length (fr_data f)) < fr_len f then Inl OUT_OF_BOUNDS
             else (let (rx, m) = write_packet_head chan1 sequence;
                  m1 = MSG_WriteData (take (nat (fr_len f)) (fr_data f)) (MSG_WriteShort (fr_len f) m) in
              case NET_SendPacket env (rm_sock chan1) (content m1) (rm_remoteAddress chan1) io of
                Inl e \<Rightarrow> Inl e
              | Inr (ok, io') \<Rightarrow>
                  (let chan2 = sent_packet chan1 rx m1
                   in Inr (chan2\<lparr>txwindow := next_frame (txwindow chan2)\<rparr>, io')))
           else Inr (chan1\<lparr>txwindow := next_frame tx1\<rparr>, io))"

section \<open>Receiving a datagram\<close>

text \<open>
  One selective acknowledge: fragments \<open>startack\<close>, ..., \<open>startack + length - 1\<close> are marked.
  Both variables are unsigned, so a negative length from the datagram means some four
  billion rounds.
\<close>

definition mark_acked :: "int \<Rightarrow> framedata \<Rightarrow> framedata" where
  "mark_acked k fd =
     fd\<lparr>fd_fragments := put (k mod fd_bufferlen fd)
          ((idx (fd_fragments fd) (k mod fd_bufferlen fd))\<lparr>fr_ack := s32 k\<rparr>) (fd_fragments fd)\<rparr>"

primrec mark_range :: "nat \<Rightarrow> int \<Rightarrow> framedata \<Rightarrow> framedata" where
  "mark_range 0 k fd = fd"
| "mark_range (Suc n) k fd = mark_range n (u32 (k + 1)) (mark_acked k fd)"

primrec read_sacks :: "nat \<Rightarrow> int \<Rightarrow> framedata \<Rightarrow> msg \<Rightarrow> bool \<times> framedata \<times> msg" where
  "read_sacks 0 acknowledge tx m = (True, tx, m)"
| "read_sacks (Suc n) acknowledge tx m =
     (let (s, m1) = MSG_ReadShort m;
          startack = u32 (s + acknowledge);
          (l, m2) = MSG_ReadShort m1;
          len = u32 l
      in if u32 (acknowledge + fd_windowsize tx) < u32 (startack + len) then (False, tx, m2)
         else read_sacks n acknowledge (mark_range (nat len) startack tx) m2)"

definition set_tx :: "reliable \<Rightarrow> framedata \<Rightarrow> reliable" where
  "set_tx chan tx = chan\<lparr>txwindow := tx\<rparr>"

definition acknowledge_to :: "memory \<Rightarrow> int \<Rightarrow> reliable \<Rightarrow> reliable" where
  "acknowledge_to malloc acknowledge chan =
     (let tx = txwindow chan in
      if fd_acknowledge tx < acknowledge then
        let chan1 = set_tx chan (tx\<lparr>fd_acknowledge := acknowledge\<rparr>);
            used = s32 (fd_sequence tx - acknowledge)
        in if used < DEFAULT_BUFFER_SIZE \<and> DEFAULT_BUFFER_SIZE < fd_bufferlen tx
           then snd (ReliableMessageChangeSendBufferSize malloc chan1 DEFAULT_BUFFER_SIZE)
           else chan1
      else chan)"

definition store_fragment :: "int \<Rightarrow> int \<Rightarrow> msg \<Rightarrow> framedata \<Rightarrow> framedata \<times> msg" where
  "store_fragment sequence fragmentsize m rx =
     (let (bs, m1) = MSG_ReadData (nat fragmentsize) m;
          f = frag_at rx sequence
      in (map_rate (\<lambda>r. r\<lparr>rt_bytes := s32 (rt_bytes r + fragmentsize)\<rparr>)
            (set_frag sequence
               (f\<lparr>fr_data := blit 0 bs (fr_data f), fr_len := fragmentsize, fr_ack := sequence\<rparr>) rx), m1))"

definition count_received :: "msg \<Rightarrow> framedata \<Rightarrow> framedata" where
  "count_received m rx =
     map_rate (\<lambda>r. r\<lparr>bytesTotal := s32 (bytesTotal r + cursize m)\<rparr>)
       (rx\<lparr>fd_packets := s32 (fd_packets rx + 1)\<rparr>)"

definition ReliableMessagesReceiveNextFragment :: "memory \<Rightarrow> reliable \<Rightarrow> msg \<Rightarrow> reliable \<times> msg" where
  "ReliableMessagesReceiveNextFragment malloc chan0 m =
     (let (sequence, m1) = MSG_ReadLong m; (acknowledge, m2) = MSG_ReadLong m1;
          chan = chan0\<lparr>rxwindow := count_received m (rxwindow chan0)\<rparr>;
          rx = rxwindow chan; tx = txwindow chan
      in if s32 (fd_sequence rx + fd_windowsize rx) \<le> sequence then (chan, m2)
         else if s32 (fd_acknowledge tx + fd_windowsize tx) < acknowledge then (chan, m2)
         else if acknowledge < fd_acknowledge tx then (chan, m2)
         else if fd_sequence tx < acknowledge then (chan, m2)
         else
           let (b, m3) = MSG_ReadByte m2; numselectiveack = u32 b in
           if 3 < numselectiveack then (chan, m3)
           else
             let (fine, tx1, m4) = read_sacks (nat numselectiveack) acknowledge tx m3;
                 chan1 = set_tx chan tx1
             in if \<not> fine then (chan1, m4)
                else
                  let (win, m5) = MSG_ReadShort m4; (sz, m6) = MSG_ReadShort m5;
                      fragmentsize = u32 sz
                  in if MAX_FRAGMENT_SIZE < fragmentsize then (chan1, m6)
                     else
                       let chan2 = acknowledge_to malloc acknowledge chan1 in
                       if sequence = -1 then (chan2, m6)
                       else if sequence < fd_sequence (rxwindow chan2) then (chan2, m6)
                       else let (rx2, m7) = store_fragment sequence fragmentsize m6 (rxwindow chan2)
                            in (chan2\<lparr>rxwindow := rx2\<rparr>, m7))"

section \<open>Handing out the bytes\<close>

text \<open>
  The loop of \<open>ReliableMessageReceive\<close>: round \<open>i\<close>, the bytes put into \<open>outdata\<close> so far and
  the cache for the rest of a fragment that did not fit.  A \<open>memcpy\<close> with a negative or
  too large size is the fault \<open>OUT_OF_BOUNDS\<close>.
\<close>

primrec receive_loop ::
  "nat \<Rightarrow> int \<Rightarrow> int \<Rightarrow> bytes \<Rightarrow> framedata \<Rightarrow> fault + (int \<times> bytes \<times> framedata)" where
  "receive_loop 0 i len out rx = Inr (i, out, rx)"
| "receive_loop (Suc n) i len out rx =
     (if int (length out) < len then
        let f = frag_at rx (fd_sequence rx + i); free = len - int (length out) in
        if fr_len f < 0 \<or> MAX_FRAGMENT_SIZE < fr_len f then Inl OUT_OF_BOUNDS
        else if fr_len f < free
          then receive_loop n (i + 1) len (out @ take (nat (fr_len f)) (fr_data f)) rx
        else
          (case MSG_Clear (fd_fragmentbuffer rx) of
             Inl e \<Rightarrow> Inl (COM_ERROR e)
           | Inr b \<Rightarrow>
               let rest = fr_len f - free;
                   b1 = b\<lparr>cursize := rest, data := blit 0 (bytes_at free rest (fr_data f)) (data b)\<rparr>
               in receive_loop n (i + 1) len (out @ take (nat free) (fr_data f))
                    (rx\<lparr>fd_fragmentbuffer := b1\<rparr>))
      else Inr (i, out, rx))"

definition ReliableMessageReceive :: "reliable \<Rightarrow> int \<Rightarrow> fault + (bytes \<times> reliable)" where
  "ReliableMessageReceive chan len =
     (let rx = rxwindow chan;
          availablefragments = s32 (ReliableMessagesGetAcknowledge rx - fd_sequence rx);
          b = fd_fragmentbuffer rx;
          cached = s32 (cursize b - readcount b);
          wlen = (if cached < len then cached else len)
      in if wlen < 0 then Inl OUT_OF_BOUNDS
         else let out = bytes_at (readcount b) wlen (data b);
                  rx1 = rx\<lparr>fd_fragmentbuffer := b\<lparr>readcount := s32 (readcount b + wlen)\<rparr>\<rparr>
              in case receive_loop (nat availablefragments) 0 len out rx1 of
                   Inl e \<Rightarrow> Inl e
                 | Inr (i, out1, rx2) \<Rightarrow>
                     Inr (out1, chan\<lparr>rxwindow := rx2\<lparr>fd_sequence := s32 (fd_sequence rx2 + i),
                       fd_selackoffset := (if 1 < i then 1 else fd_selackoffset rx2)\<rparr>\<rparr>))"

definition ReliableMessageReceiveSingleFragment :: "reliable \<Rightarrow> int \<Rightarrow> fault + (bytes \<times> reliable)" where
  "ReliableMessageReceiveSingleFragment chan len =
     (let rx = rxwindow chan; f = frag_at rx (fd_sequence rx) in
      if len < MAX_FRAGMENT_SIZE then Inr ([], chan)
      else if s32 (ReliableMessagesGetAcknowledge rx - fd_sequence rx) < 1 then Inr ([], chan)
      else if fr_len f < 0 \<or> MAX_FRAGMENT_SIZE < fr_len f then Inl OUT_OF_BOUNDS
      else Inr (take (nat (fr_len f)) (fr_data f),
                chan\<lparr>rxwindow := rx\<lparr>fd_sequence := s32 (fd_sequence rx + 1)\<rparr>\<rparr>))"

section \<open>Accepting bytes to send\<close>

definition enqueue_fragment :: "bytes \<Rightarrow> framedata \<Rightarrow> framedata" where
  "enqueue_fragment bs tx =
     (let f = frag_at tx (fd_sequence tx) in
      map_rate (\<lambda>r. r\<lparr>rt_bytes := s32 (rt_bytes r + int (length bs))\<rparr>)
        ((set_frag (fd_sequence tx)
            (f\<lparr>fr_data := blit 0 bs (fr_data f), fr_len := int (length bs), fr_ack := -1,
               fr_senttime := 0, fr_packetnum := 0\<rparr>) tx)
          \<lparr>fd_sequence := s32 (fd_sequence tx + 1)\<rparr>))"

text \<open>
  The \<open>memcpy\<close> of \<open>slen\<close> bytes at \<open>indata + at\<close> into the next fragment: a source or a destination
  outside its array is the fault \<open>OUT_OF_BOUNDS\<close>.
\<close>

definition copy_fits :: "bytes \<Rightarrow> int \<Rightarrow> int \<Rightarrow> framedata \<Rightarrow> bool" where
  "copy_fits indata at slen tx \<longleftrightarrow> 0 \<le> at \<and> 0 \<le> slen \<and> at + slen \<le> int (length indata) \<and>
     0 \<le> fd_sequence tx \<and> fd_sequence tx mod fd_bufferlen tx < int (length (fd_fragments tx)) \<and>
     slen \<le> int (length (fr_data (frag_at tx (fd_sequence tx))))"

primrec send_loop :: "nat \<Rightarrow> int \<Rightarrow> int \<Rightarrow> int \<Rightarrow> bytes \<Rightarrow> framedata \<Rightarrow> fault + (int \<times> framedata)" where
  "send_loop 0 i len sentlen indata tx = Inr (sentlen, tx)"
| "send_loop (Suc n) i len sentlen indata tx =
     (if 0 < len then
        let slen = (if MAX_FRAGMENT_SIZE \<le> len then MAX_FRAGMENT_SIZE else len)
        in if \<not> copy_fits indata (i * MAX_FRAGMENT_SIZE) slen tx then Inl OUT_OF_BOUNDS
           else send_loop n (i + 1) (len - slen) (sentlen + slen) indata
             (enqueue_fragment (bytes_at (i * MAX_FRAGMENT_SIZE) slen indata) tx)
      else Inr (sentlen, tx))"

definition ReliableMessageSend :: "memory \<Rightarrow> reliable \<Rightarrow> bytes \<Rightarrow> int \<Rightarrow> fault + (int \<times> reliable)" where
  "ReliableMessageSend malloc chan indata len =
     (let tx = txwindow chan;
          used = s32 (fd_sequence tx - fd_acknowledge tx);
          free0 = s32 (fd_bufferlen tx - used)
      in if len < 0 then Inl (COM_ERROR ERR_FATAL)
         else
           let (free, chan1) =
                 (if free0 < len div MAX_FRAGMENT_SIZE + 1 then
                    let need = len div MAX_FRAGMENT_SIZE + used + 1;
                        (r, chan') = ReliableMessageChangeSendBufferSize malloc chan (s32 (need + need div 2));
                        newfree = r - used
                    in (if 0 < newfree then newfree else free0, chan')
                  else (free0, chan))
           in case send_loop (nat free) 0 len 0 indata (txwindow chan1) of
                Inl e \<Rightarrow> Inl e
              | Inr (sentlen, tx1) \<Rightarrow> Inr (sentlen, chan1\<lparr>txwindow := tx1\<rparr>))"

section \<open>Set-up and the frame\<close>

definition zero_rate :: ratetracker where
  "zero_rate = \<lparr>nextRateCntTime = 0, rt_bytes = 0, lastBytesSnap = 0, bytesPerSec = 0,
     bytesTotal = 0, lastBytesSnapTotal = 0, bytesPerSecTotal = 0\<rparr>"

definition setup_window :: "int \<Rightarrow> fragment list \<Rightarrow> framedata" where
  "setup_window win mem =
     \<lparr>fd_sequence = 0, fd_bufferlen = DEFAULT_BUFFER_SIZE, fd_acknowledge = 0, fd_selackoffset = 0,
      fd_frame = 0, fd_windowsize = win, fd_fragments = mem, fd_packets = 0,
      fd_fragmentbuffer = MSG_Init (replicate 1200 0) MAX_FRAGMENT_SIZE,
      fd_rateInfo = zero_rate, fd_unsentmillipackets = 0\<rparr>"

text \<open>\<open>memset(fragments, -1, ...)\<close>\<close>

definition void_fragment :: fragment where
  "void_fragment = \<lparr>fr_data = replicate 1200 255, fr_len = -1, fr_ack = -1, fr_packetnum = -1,
     fr_senttime = -1\<rparr>"

text \<open>The flag says whether the channel itself could be allocated.\<close>

definition ReliableMessageSetup ::
  "bool \<Rightarrow> memory \<Rightarrow> memory \<Rightarrow> int \<Rightarrow> netsrc \<Rightarrow> netadr \<Rightarrow> reliable option" where
  "ReliableMessageSetup chanmem rxmalloc txmalloc qport sock remote =
     (if \<not> chanmem then None
      else case rxmalloc DEFAULT_BUFFER_SIZE of
        None \<Rightarrow> None
      | Some rxmem \<Rightarrow>
          (case txmalloc DEFAULT_BUFFER_SIZE of
             None \<Rightarrow> None
           | Some txmem \<Rightarrow>
               Some \<lparr>txwindow = setup_window 20 txmem,
                 rxwindow = setup_window 4 (replicate (length rxmem) void_fragment),
                 rm_sock = sock, rm_remoteAddress = remote, rm_time = 0, rm_nextacktime = 0,
                 rm_qport = qport\<rparr>))"

definition ReliableMessageSetCurrentTime :: "int \<Rightarrow> reliable \<Rightarrow> reliable" where
  "ReliableMessageSetCurrentTime ftime chan = chan\<lparr>rm_time := ftime\<rparr>"

definition ReliableMessageGetCurrentTime :: "reliable \<Rightarrow> int" where
  "ReliableMessageGetCurrentTime chan = rm_time chan"

primrec transmit_packets :: "nat \<Rightarrow> netenv \<Rightarrow> reliable \<Rightarrow> netio \<Rightarrow> fault + (reliable \<times> netio)" where
  "transmit_packets 0 env chan io = Inr (chan, io)"
| "transmit_packets (Suc n) env chan io =
     (case ReliableMessagesTransmitNextFragment env chan io of
        Inl e \<Rightarrow> Inl e
      | Inr (chan', io') \<Rightarrow> transmit_packets n env chan' io')"

text \<open>The divisions truncate towards zero.\<close>

definition quot1000 :: "int \<Rightarrow> int" where
  "quot1000 x = (if x < 0 then - ((- x) div 1000) else x div 1000)"

definition ReliableMessagesFrame :: "netenv \<Rightarrow> reliable \<Rightarrow> int \<Rightarrow> netio \<Rightarrow> fault + (reliable \<times> netio)" where
  "ReliableMessagesFrame env chan now io =
     (let elapsed = s32 (now - ReliableMessageGetCurrentTime chan);
          chan1 = ReliableMessageSetCurrentTime now chan
      in if 250 < elapsed then Inr (chan1, io)
         else
           let tx = txwindow chan1;
               millipackets = s32 (elapsed * fd_windowsize tx + fd_unsentmillipackets tx);
               packets = quot1000 millipackets;
               chan2 = set_tx chan1 (tx\<lparr>fd_unsentmillipackets := millipackets - 1000 * packets\<rparr>)
           in case transmit_packets (nat packets) env chan2 io of
                Inl e \<Rightarrow> Inl e
              | Inr (chan3, io') \<Rightarrow> Inr (ReliableMessageTrackRate chan3, io'))"

end
