(* ===== verification/ReliableWire.thy ===== *)
theory ReliableWire
  imports ReliableChan
begin

text \<open>
  The datagram format of the reliable stream.  \<open>dgram\<close> is its abstract syntax, \<open>encode_dgram\<close>
  its bytes.  The lemmas show that the transmitter of src/src/net_reliabletransport.c sends
  exactly encodings and that the receiver decodes them, so that the safety proof can speak
  of datagrams instead of bytes.
\<close>

record dgram =
  dg_seq :: int
  dg_ack :: int
  dg_sacks :: "(int \<times> int) list"
  dg_window :: int
  dg_payload :: bytes

definition sack_bytes :: "(int \<times> int) list \<Rightarrow> bytes" where
  "sack_bytes ss = concat (map (\<lambda>(s, l). le_bytes 2 s @ le_bytes 2 l) ss)"

definition encode_dgram :: "int \<Rightarrow> dgram \<Rightarrow> bytes" where
  "encode_dgram qport d =
     le_bytes 4 0xfffffff0 @ le_bytes 2 qport @ le_bytes 4 (dg_seq d) @ le_bytes 4 (dg_ack d) @
     [word_of_int (int (length (dg_sacks d)))] @ sack_bytes (dg_sacks d) @
     le_bytes 2 (dg_window d) @ le_bytes 2 (int (length (dg_payload d))) @ dg_payload d"

lemma sack_bytes_simps [simp]:
  "sack_bytes [] = []"
  "sack_bytes ((s, l) # ss) = le_bytes 2 s @ le_bytes 2 l @ sack_bytes ss"
  by (simp_all add: sack_bytes_def)

lemma length_sack_bytes [simp]: "length (sack_bytes ss) = 4 * length ss"
  by (induction ss) auto

section \<open>The list of selective acknowledges\<close>

text \<open>
  What the loop appends: if a range is open on entry, its length and then whole ranges;
  a range left open on exit lacks its length.
\<close>

definition appended :: "bool \<Rightarrow> nat \<Rightarrow> bytes \<Rightarrow> bool" where
  "appended inrange k bs \<longleftrightarrow>
     (if inrange then \<exists>l ss. bs = le_bytes 2 l @ sack_bytes ss \<and> length ss = k
      else \<exists>ss. bs = sack_bytes ss \<and> length ss = k)"

lemma appended_close: "appended False k bs \<Longrightarrow> appended True k (le_bytes 2 l @ bs)"
  by (auto simp: appended_def simp del: le_bytes.simps)

lemma appended_open: "appended True k bs \<Longrightarrow> appended False (Suc k) (le_bytes 2 s @ bs)"
proof -
  assume "appended True k bs"
  then obtain l ss where "bs = le_bytes 2 l @ sack_bytes ss" "length ss = k"
    by (auto simp: appended_def simp del: le_bytes.simps)
  then have "le_bytes 2 s @ bs = sack_bytes ((s, l) # ss) \<and> length ((s, l) # ss) = Suc k"
    by (simp del: le_bytes.simps)
  then show ?thesis unfolding appended_def by (metis (full_types))
qed

lemma WriteShort_app: "msg_ok m \<Longrightarrow> room 2 m \<Longrightarrow> MSG_WriteShort c m = msg_app (le_bytes 2 c) m"
  by (rule msg_simps)

lemma acklist_loop_appends:
  "msg_ok m \<Longrightarrow> room (2 * n) m \<Longrightarrow> 2 * count + int n \<le> (if inrange then 6 else 5) \<Longrightarrow>
   \<exists>inrange' k lengthcnt' bs. acklist_loop n i inrange count lengthcnt fd m =
       (i + int n, inrange', count + int k, lengthcnt', msg_app bs m) \<and>
     appended inrange k (bs @ (if inrange' then le_bytes 2 lengthcnt' else [])) \<and> length bs \<le> 2 * n"
proof (induction n arbitrary: i inrange count lengthcnt m)
  case 0
  have "appended True 0 (le_bytes 2 lengthcnt)" "appended False 0 []"
    by (auto simp: appended_def simp del: le_bytes.simps)
  then show ?case
    by (intro exI [of _ inrange] exI [of _ "0 :: nat"] exI [of _ lengthcnt] exI [of _ "[]"])
      (simp del: le_bytes.simps)
next
  case (Suc n)
  have r2: "room 2 m" using Suc.prems(2) by (rule room_mono) simp
  let ?m = "\<lambda>c. msg_app (le_bytes 2 c) m"
  have app: "msg_ok (?m c)" "room (2 * n) (?m c)" for c
    using Suc.prems(1,2) r2 by (simp_all add: msg_app_ok room_app)
  have keep: "room (2 * n) m" using Suc.prems(2) by (rule room_mono) simp
  let ?hit = "fr_ack (frag_at fd (i + fd_sequence fd)) = i + fd_sequence fd"
  consider (go) "?hit" inrange | (opens) "?hit" "\<not> inrange" | (closes) "\<not> ?hit" inrange
    | (skip) "\<not> ?hit" "\<not> inrange" by blast
  then show ?case
  proof cases
    case go
    then obtain b k l bs where "acklist_loop n (i + 1) True count (lengthcnt + 1) fd m =
        (i + 1 + int n, b, count + int k, l, msg_app bs m)"
      "appended True k (bs @ (if b then le_bytes 2 l else []))" "length bs \<le> 2 * n"
      using Suc.IH [OF Suc.prems(1) keep, of count True "i + 1" "lengthcnt + 1"] Suc.prems(3) by auto
    then show ?thesis using go by (auto simp: algebra_simps simp del: le_bytes.simps)
  next
    case opens
    then obtain b k l bs where "acklist_loop n (i + 1) True (count + 1) 1 fd (?m i) =
        (i + 1 + int n, b, count + 1 + int k, l, msg_app bs (?m i))"
      "appended True k (bs @ (if b then le_bytes 2 l else []))" "length bs \<le> 2 * n"
      using Suc.IH [OF app(1,2), of "count + 1" True "i + 1" 1 i] Suc.prems(3) by auto
    then show ?thesis
      using opens appended_open [of k _ i] WriteShort_app [OF Suc.prems(1) r2] Suc.prems(1)
      by (intro exI [of _ b] exI [of _ "Suc k"] exI [of _ l] exI [of _ "le_bytes 2 i @ bs"])
        (simp add: msg_app_app algebra_simps del: le_bytes.simps)
  next
    case closes
    then have "\<not> 3 \<le> count" using Suc.prems(3) by simp
    then obtain b k l bs where "acklist_loop n (i + 1) False count lengthcnt fd (?m lengthcnt) =
        (i + 1 + int n, b, count + int k, l, msg_app bs (?m lengthcnt))"
      "appended False k (bs @ (if b then le_bytes 2 l else []))" "length bs \<le> 2 * n"
      using Suc.IH [OF app(1,2), of count False "i + 1" lengthcnt lengthcnt] Suc.prems(3) closes by auto
    then show ?thesis
      using closes appended_close [of k _ lengthcnt] WriteShort_app [OF Suc.prems(1) r2] Suc.prems(1)
        \<open>\<not> 3 \<le> count\<close>
      by (intro exI [of _ b] exI [of _ k] exI [of _ l] exI [of _ "le_bytes 2 lengthcnt @ bs"])
        (simp add: msg_app_app algebra_simps del: le_bytes.simps)
  next
    case skip
    then obtain b k l bs where "acklist_loop n (i + 1) False count lengthcnt fd m =
        (i + 1 + int n, b, count + int k, l, msg_app bs m)"
      "appended False k (bs @ (if b then le_bytes 2 l else []))" "length bs \<le> 2 * n"
      using Suc.IH [OF Suc.prems(1) keep, of count False "i + 1" lengthcnt] Suc.prems(3) by auto
    then show ?thesis using skip by (auto simp: algebra_simps simp del: le_bytes.simps)
  qed
qed

lemma put_blit:
  "length (pre @ x # bs) \<le> length xs \<Longrightarrow>
   put (int (length pre)) v (blit 0 (pre @ x # bs) xs) = blit 0 (pre @ v # bs) xs"
  by (simp add: put_def blit_eq)

lemma patch_count:
  assumes "length (pre @ x # bs) \<le> 1400"
  shows "(msg_app (pre @ x # bs) send_buf)\<lparr>data := put (int (length pre)) v
      (data (msg_app (pre @ x # bs) send_buf))\<rparr> = msg_app (pre @ v # bs) send_buf"
  using put_blit [of pre x bs "data send_buf" v] assms
  by (simp add: msg_app_def send_buf_def MSG_Init_def)

lemma WriteSelectiveAcklist_sends:
  assumes "length pre \<le> 1300" "fd_windowsize fd = 4" "0 \<le> fd_selackoffset fd" "fd_selackoffset fd \<le> 4"
  obtains ss where "ReliableMessageWriteSelectiveAcklist fd (msg_app pre send_buf) =
      (fd\<lparr>fd_selackoffset := 1\<rparr>,
       msg_app (pre @ word_of_int (int (length ss)) # sack_bytes ss) send_buf)" "length ss \<le> 3"
proof -
  let ?m0 = "msg_app pre send_buf"
  let ?m1 = "msg_app (pre @ [0]) send_buf"
  let ?n = "nat (4 - fd_selackoffset fd)"
  have n: "?n \<le> 4" "fd_selackoffset fd + int ?n = 4" using assms(3,4) by simp_all
  have ok0: "msg_ok ?m0" "room 1 ?m0" using assms(1) by (simp_all add: send_buf_ok msg_app_ok room_app)
  have ok1: "msg_ok ?m1" "room (2 * ?n) ?m1" "room (2 * ?n + 2) ?m1"
    using assms(1) n(1) by (simp_all add: send_buf_ok msg_app_ok room_app)
  have w: "MSG_WriteByte 0 ?m0 = ?m1"
    using write_room(1) [OF ok0, of 0] by (simp add: msg_app_app send_buf_ok)
  have cs: "cursize ?m0 = int (length pre)" by (simp add: msg_app_def send_buf_def MSG_Init_def)
  obtain b k l bs where loop: "acklist_loop ?n (fd_selackoffset fd) False 0 0 fd ?m1 =
      (4, b, int k, l, msg_app bs ?m1)"
    and ap: "appended False k (bs @ (if b then le_bytes 2 l else []))" and lb: "length bs \<le> 2 * ?n"
    using acklist_loop_appends [OF ok1(1,2), of 0 False "fd_selackoffset fd" 0 fd] n by auto
  obtain ss where ss: "bs @ (if b then le_bytes 2 l else []) = sack_bytes ss" "length ss = k"
    using ap by (auto simp: appended_def)
  have app_bs: "msg_app bs ?m1 = msg_app (pre @ 0 # bs) send_buf"
    using send_buf_ok(1) by (simp add: msg_app_app)
  have r: "msg_ok (msg_app bs ?m1)" "room 2 (msg_app bs ?m1)"
    using ok1 lb by (simp_all add: msg_app_ok room_app room_mono)
  have last: "(if b then MSG_WriteShort l (msg_app bs ?m1) else msg_app bs ?m1) =
      msg_app (pre @ 0 # sack_bytes ss) send_buf"
    using WriteShort_app [OF r] send_buf_ok(1) ss(1) [symmetric]
    by (simp add: msg_app_app app_bs del: le_bytes.simps)
  have "length (sack_bytes ss) \<le> 2 * ?n + 2"
    using lb unfolding ss(1) [symmetric] by simp
  then have k3: "4 * length ss \<le> 10" using n(1) by simp
  have "length (pre @ 0 # sack_bytes ss) \<le> 1400" using assms(1) k3 by simp
  note patch = patch_count [OF this]
  have "ReliableMessageWriteSelectiveAcklist fd ?m0 = (fd\<lparr>fd_selackoffset := 1\<rparr>,
      msg_app (pre @ word_of_int (int (length ss)) # sack_bytes ss) send_buf)"
    unfolding ReliableMessageWriteSelectiveAcklist_def Let_def w assms(2) loop prod.case last cs patch
    by (simp add: ss(2))
  then show ?thesis using that k3 by simp
qed

text \<open>The head of a datagram, and the whole datagram.\<close>

definition dgram_head :: "int \<Rightarrow> dgram \<Rightarrow> bytes" where
  "dgram_head qport d =
     le_bytes 4 0xfffffff0 @ le_bytes 2 qport @ le_bytes 4 (dg_seq d) @ le_bytes 4 (dg_ack d) @
     word_of_int (int (length (dg_sacks d))) # sack_bytes (dg_sacks d) @ le_bytes 2 (dg_window d)"

lemma encode_dgram_head:
  "encode_dgram qport d =
   dgram_head qport d @ le_bytes 2 (int (length (dg_payload d))) @ dg_payload d"
  by (simp add: encode_dgram_def dgram_head_def del: le_bytes.simps)

definition rx_sender_ok :: "framedata \<Rightarrow> bool" where
  "rx_sender_ok rx \<longleftrightarrow> fd_windowsize rx = 4 \<and> 0 \<le> fd_selackoffset rx \<and> fd_selackoffset rx \<le> 4"

lemma write_packet_head_sends:
  assumes "rx_sender_ok (rxwindow chan)"
  obtains ss where "length ss \<le> 3" "write_packet_head chan sequence =
    ((rxwindow chan)\<lparr>fd_selackoffset := 1\<rparr>,
     msg_app (dgram_head (rm_qport chan) \<lparr>dg_seq = sequence, dg_ack = fd_sequence (rxwindow chan),
        dg_sacks = ss, dg_window = fd_windowsize (txwindow chan), dg_payload = bs\<rparr>) send_buf)"
proof -
  let ?pre = "le_bytes 4 0xfffffff0 @ le_bytes 2 (rm_qport chan) @ le_bytes 4 sequence @
      le_bytes 4 (fd_sequence (rxwindow chan))"
  have pre: "MSG_WriteLong (fd_sequence (rxwindow chan)) (MSG_WriteLong sequence
      (MSG_WriteShort (rm_qport chan) (MSG_WriteLong 0xfffffff0 send_buf))) = msg_app ?pre send_buf"
    by (simp add: msg_simps msg_app_ok send_buf_ok room_app del: le_bytes.simps)
  obtain ss where ss: "ReliableMessageWriteSelectiveAcklist (rxwindow chan) (msg_app ?pre send_buf) =
      ((rxwindow chan)\<lparr>fd_selackoffset := 1\<rparr>,
       msg_app (?pre @ word_of_int (int (length ss)) # sack_bytes ss) send_buf)" "length ss \<le> 3"
    using WriteSelectiveAcklist_sends [of ?pre "rxwindow chan"] assms
    by (auto simp: rx_sender_ok_def simp del: le_bytes.simps)
  have "MSG_WriteShort w (msg_app (?pre @ word_of_int (int (length ss)) # sack_bytes ss) send_buf) =
      msg_app ((?pre @ word_of_int (int (length ss)) # sack_bytes ss) @ le_bytes 2 w) send_buf" for w
    using ss(2) by (subst WriteShort_app) (simp_all add: msg_app_app msg_app_ok send_buf_ok room_app
        del: le_bytes.simps)
  then show ?thesis
    using that [OF ss(2)] by (simp add: write_packet_head_def pre ss(1) dgram_head_def
        del: le_bytes.simps)
qed

lemma length_dgram_head: "length (dgram_head qport d) = 17 + 4 * length (dg_sacks d)"
  by (simp add: dgram_head_def del: le_bytes.simps)

lemma complete_packet:
  assumes "length (dg_sacks d) \<le> 3" "length (dg_payload d) \<le> 1200"
  shows "content (MSG_WriteData (dg_payload d) (MSG_WriteShort (int (length (dg_payload d)))
      (msg_app (dgram_head qport d) send_buf))) = encode_dgram qport d"
proof -
  have "MSG_WriteData (dg_payload d) (MSG_WriteShort (int (length (dg_payload d)))
      (msg_app (dgram_head qport d) send_buf)) = msg_app (encode_dgram qport d) send_buf"
    using assms by (simp add: encode_dgram_head msg_simps msg_app_ok send_buf_ok room_app
        length_dgram_head del: le_bytes.simps)
  moreover have "length (encode_dgram qport d) \<le> 1400"
    using assms by (simp add: encode_dgram_head length_dgram_head)
  ultimately show ?thesis by (simp add: content_built)
qed

end
