(* ===== verification/ReliableSafety.thy ===== *)
theory ReliableSafety
  imports ReliableWire "HOL-Library.Sublist"
begin

text \<open>
  Safety of the reliable stream of src/src/net_reliabletransport.c.  The ghost list \<open>F\<close> is
  every fragment the sender ever accepted, in order; \<open>D\<close> the bytes the receiver has handed
  out.  \<open>tx_ok\<close> says that the send ring holds the unacknowledged part of \<open>F\<close>, \<open>rx_ok\<close> that
  every slot of the receive ring that claims to hold fragment \<open>i\<close> does hold it and that \<open>D\<close>
  followed by the cached bytes is the part of \<open>F\<close> consumed so far.  Every operation keeps
  both; the system of two endpoints and a network that loses, repeats and reorders
  datagrams is a step relation whose invariant gives the end-to-end theorem.
\<close>

section \<open>The two rings\<close>

definition frag_ring :: "framedata \<Rightarrow> bool" where
  "frag_ring fd \<longleftrightarrow> 0 < fd_bufferlen fd \<and> int (length (fd_fragments fd)) = fd_bufferlen fd"

lemma frag_slot:
  assumes "frag_ring fd"
  shows "0 \<le> i mod fd_bufferlen fd" "nat (i mod fd_bufferlen fd) < length (fd_fragments fd)"
proof -
  have "0 \<le> i mod fd_bufferlen fd" "i mod fd_bufferlen fd < int (length (fd_fragments fd))"
    using assms by (simp_all add: frag_ring_def)
  then show "0 \<le> i mod fd_bufferlen fd" "nat (i mod fd_bufferlen fd) < length (fd_fragments fd)"
    by linarith+
qed

interpretation fragring: ring frag_at set_frag fd_bufferlen frag_ring
proof unfold_locales
  fix fd :: framedata and i :: int and e
  assume "frag_ring fd" "0 \<le> i"
  then show "frag_at (set_frag i e fd) i = e"
    using frag_slot [of fd i] by (simp add: frag_at_def set_frag_def idx_put_same)
next
  fix fd :: framedata and i j :: int and e
  assume h: "frag_ring fd" "0 \<le> i" "0 \<le> j" "i \<noteq> j" "\<bar>i - j\<bar> < fd_bufferlen fd"
  then have "i mod fd_bufferlen fd \<noteq> j mod fd_bufferlen fd"
    using mod_slot_eq [of "fd_bufferlen fd" i j] by (simp add: frag_ring_def)
  then show "frag_at (set_frag i e fd) j = frag_at fd j"
    using h(1) by (simp add: frag_at_def set_frag_def idx_put_other frag_ring_def)
qed (simp_all add: frag_ring_def set_frag_def)

definition holds :: "fragment \<Rightarrow> bytes \<Rightarrow> bool" where
  "holds f b \<longleftrightarrow> fr_len f = int (length b) \<and> take (length b) (fr_data f) = b"

definition cells_ok :: "fragment list \<Rightarrow> bool" where
  "cells_ok fs \<longleftrightarrow> (\<forall>f \<in> set fs. length (fr_data f) = 1200)"

definition frags_ok :: "bytes list \<Rightarrow> bool" where
  "frags_ok F \<longleftrightarrow> (\<forall>b \<in> set F. length b \<le> 1200) \<and> int (length F) \<le> 2 ^ 30"

definition tx_ok :: "framedata \<Rightarrow> bytes list \<Rightarrow> bool" where
  "tx_ok tx F \<longleftrightarrow> frag_ring tx \<and> cells_ok (fd_fragments tx) \<and> frags_ok F \<and>
     fd_sequence tx = int (length F) \<and> 0 \<le> fd_acknowledge tx \<and> fd_acknowledge tx \<le> fd_sequence tx \<and>
     fd_sequence tx - fd_acknowledge tx \<le> fd_bufferlen tx \<and> fd_bufferlen tx < 2 ^ 31 \<and>
     32 \<le> fd_bufferlen tx \<and>
     fd_windowsize tx = 20 \<and> 0 \<le> fd_frame tx \<and> fd_frame tx \<le> 2 ^ 30 + 100 \<and>
     (\<forall>i. fd_acknowledge tx \<le> i \<and> i < fd_sequence tx \<longrightarrow> holds (frag_at tx i) (F ! nat i))"

lemma tx_okD:
  assumes "tx_ok tx F"
  shows "frag_ring tx" "cells_ok (fd_fragments tx)" "frags_ok F" "fd_sequence tx = int (length F)"
    "0 \<le> fd_acknowledge tx" "fd_acknowledge tx \<le> fd_sequence tx"
    "fd_sequence tx - fd_acknowledge tx \<le> fd_bufferlen tx" "fd_bufferlen tx < 2 ^ 31"
    "32 \<le> fd_bufferlen tx" "fd_windowsize tx = 20" "0 \<le> fd_frame tx" "fd_frame tx \<le> 2 ^ 30 + 100"
    "fd_sequence tx \<le> 2 ^ 30"
    "\<And>i. fd_acknowledge tx \<le> i \<Longrightarrow> i < fd_sequence tx \<Longrightarrow> holds (frag_at tx i) (F ! nat i)"
  using assms by (auto simp: tx_ok_def frags_ok_def)

definition slot_ok :: "bytes list \<Rightarrow> int \<Rightarrow> nat \<Rightarrow> fragment \<Rightarrow> bool" where
  "slot_ok F n k f \<longleftrightarrow> fr_ack f = -1 \<or>
     (0 \<le> fr_ack f \<and> fr_ack f < int (length F) \<and> fr_ack f mod n = int k \<and>
      holds f (F ! nat (fr_ack f)))"

definition cache_ok :: "msg \<Rightarrow> bool" where
  "cache_ok b \<longleftrightarrow> 0 \<le> readcount b \<and> readcount b \<le> cursize b \<and> cursize b \<le> 1200 \<and>
     length (data b) = 1200 \<and> \<not> readonly b \<and> splitData b = None"

definition rx_ok :: "framedata \<Rightarrow> bytes list \<Rightarrow> bytes \<Rightarrow> bool" where
  "rx_ok rx F D \<longleftrightarrow> frag_ring rx \<and> cells_ok (fd_fragments rx) \<and> fd_bufferlen rx = 32 \<and>
     rx_sender_ok rx \<and> 0 \<le> fd_sequence rx \<and> fd_sequence rx \<le> int (length F) \<and>
     (\<forall>k < 32. slot_ok F 32 k (fd_fragments rx ! k)) \<and> cache_ok (fd_fragmentbuffer rx) \<and>
     D @ unread (fd_fragmentbuffer rx) = concat (take (nat (fd_sequence rx)) F)"

lemma rx_okD:
  assumes "rx_ok rx F D"
  shows "frag_ring rx" "cells_ok (fd_fragments rx)" "fd_bufferlen rx = 32" "rx_sender_ok rx"
    "0 \<le> fd_sequence rx" "fd_sequence rx \<le> int (length F)"
    "\<And>k. k < 32 \<Longrightarrow> slot_ok F 32 k (fd_fragments rx ! k)" "cache_ok (fd_fragmentbuffer rx)"
    "D @ unread (fd_fragmentbuffer rx) = concat (take (nat (fd_sequence rx)) F)"
    "fd_windowsize rx = 4"
  using assms by (auto simp: rx_ok_def rx_sender_ok_def)

lemma frag_at_mem: "frag_ring fd \<Longrightarrow> frag_at fd i \<in> set (fd_fragments fd)"
  using frag_slot(2) [of fd i] by (simp add: frag_at_def idx_def)

lemma frag_at_cells: "frag_ring fd \<Longrightarrow> cells_ok (fd_fragments fd) \<Longrightarrow> length (fr_data (frag_at fd i)) = 1200"
  using frag_at_mem by (simp add: cells_ok_def)

lemma rx_holds:
  assumes "rx_ok rx F D" "0 \<le> i" "fr_ack (frag_at rx i) = i"
  shows "i < int (length F)" "holds (frag_at rx i) (F ! nat i)"
proof -
  have "slot_ok F 32 (nat (i mod 32)) (fd_fragments rx ! nat (i mod 32))"
    by (rule rx_okD(7) [OF assms(1)]) simp
  then have "slot_ok F 32 (nat (i mod 32)) (frag_at rx i)"
    by (simp add: frag_at_def idx_def rx_okD(3) [OF assms(1)])
  then show "i < int (length F)" "holds (frag_at rx i) (F ! nat i)"
    using assms(2,3) by (auto simp: slot_ok_def)
qed

section \<open>Transmitting\<close>

definition dgram_ok :: "bytes list \<Rightarrow> int \<Rightarrow> dgram \<Rightarrow> bool" where
  "dgram_ok F r d \<longleftrightarrow> 0 \<le> dg_ack d \<and> dg_ack d \<le> r \<and> length (dg_sacks d) \<le> 3 \<and>
     (dg_seq d = -1 \<and> dg_payload d = [] \<or>
      0 \<le> dg_seq d \<and> dg_seq d < int (length F) \<and> dg_payload d = F ! nat (dg_seq d))"

text \<open>Changes of counters that no invariant mentions.\<close>

lemma tx_ok_map_rate [simp]: "tx_ok (map_rate f fd) F = tx_ok fd F"
  by (simp add: tx_ok_def frag_ring_def map_rate_def frag_at_def)

lemma tx_ok_packets [simp]: "tx_ok (fd\<lparr>fd_packets := n\<rparr>) F = tx_ok fd F"
  by (simp add: tx_ok_def frag_ring_def frag_at_def)

lemma tx_ok_milli [simp]: "tx_ok (fd\<lparr>fd_unsentmillipackets := n\<rparr>) F = tx_ok fd F"
  by (simp add: tx_ok_def frag_ring_def frag_at_def)

lemma rx_ok_map_rate [simp]: "rx_ok (map_rate f fd) F D = rx_ok fd F D"
  by (simp add: rx_ok_def frag_ring_def map_rate_def rx_sender_ok_def)

lemma rx_ok_packets [simp]: "rx_ok (fd\<lparr>fd_packets := n\<rparr>) F D = rx_ok fd F D"
  by (simp add: rx_ok_def frag_ring_def rx_sender_ok_def)

lemma rx_ok_sack: "rx_ok fd F D \<Longrightarrow> rx_ok (fd\<lparr>fd_selackoffset := 1\<rparr>) F D"
  by (simp add: rx_ok_def frag_ring_def rx_sender_ok_def)

lemma tx_ok_frame:
  "tx_ok tx F \<Longrightarrow> 0 \<le> k \<Longrightarrow> k \<le> 2 ^ 30 + 100 \<Longrightarrow> tx_ok (tx\<lparr>fd_frame := k\<rparr>) F"
  by (simp add: tx_ok_def frag_ring_def frag_at_def)

lemma tx_ok_next_frame: "tx_ok tx F \<Longrightarrow> tx_ok (next_frame tx) F"
proof -
  assume t: "tx_ok tx F"
  note T = tx_okD [OF t]
  have w: "s32 (fd_acknowledge tx + fd_windowsize tx) = fd_acknowledge tx + 20"
    "s32 (fd_frame tx + 1) = fd_frame tx + 1"
    using T by simp_all
  have "tx_ok (tx\<lparr>fd_frame := fd_acknowledge tx\<rparr>) F" using t T by (intro tx_ok_frame) auto
  moreover have "tx_ok (tx\<lparr>fd_frame := fd_frame tx + 1\<rparr>) F" if "fd_frame tx + 1 < fd_acknowledge tx + 20"
    using t T that by (intro tx_ok_frame) auto
  ultimately show ?thesis by (simp add: next_frame_def w Let_def)
qed

text \<open>What an endpoint keeps while it only sends: its streams and where they stand.\<close>

definition keeps :: "reliable \<Rightarrow> reliable \<Rightarrow> bool" where
  "keeps c c' \<longleftrightarrow> fd_acknowledge (txwindow c') = fd_acknowledge (txwindow c) \<and>
     fd_sequence (rxwindow c') = fd_sequence (rxwindow c) \<and>
     rm_remoteAddress c' = rm_remoteAddress c \<and> rm_qport c' = rm_qport c \<and> rm_sock c' = rm_sock c"

lemma keeps_refl [simp]: "keeps c c"
  by (simp add: keeps_def)

lemma keeps_trans: "keeps a b \<Longrightarrow> keeps b c \<Longrightarrow> keeps a c"
  by (simp add: keeps_def)

definition sends :: "int \<Rightarrow> netadr \<Rightarrow> dgram list \<Rightarrow> netio \<Rightarrow> netio" where
  "sends qport to ds io = io\<lparr>wire := wire io @ map (\<lambda>d. (encode_dgram qport d, to)) ds\<rparr>"

lemma sends_Nil [simp]: "sends q to [] io = io"
  by (simp add: sends_def)

lemma sends_append: "sends q to es (sends q to ds io) = sends q to (ds @ es) io"
  by (simp add: sends_def)

text \<open>
  What any network environment makes of the datagrams: none of them is longer than 1400 bytes,
  so the loopback queue takes it too.
\<close>

primrec posts :: "netenv \<Rightarrow> netsrc \<Rightarrow> int \<Rightarrow> netadr \<Rightarrow> dgram list \<Rightarrow> netio \<Rightarrow> fault + netio" where
  "posts env sock q to [] io = Inr io"
| "posts env sock q to (d # ds) io =
     and_then (NET_SendPacket env sock (encode_dgram q d) to io) (\<lambda>(ok, io'). posts env sock q to ds io')"

definition short_dgram :: "int \<Rightarrow> dgram \<Rightarrow> bool" where
  "short_dgram q d \<longleftrightarrow> length (encode_dgram q d) \<le> 1400"

lemma short_dgramI: "length (dg_sacks d) \<le> 3 \<Longrightarrow> length (dg_payload d) \<le> 1200 \<Longrightarrow> short_dgram q d"
  by (simp add: short_dgram_def encode_dgram_head length_dgram_head)

lemma posts_append:
  "posts env sock q to (ds @ es) io = and_then (posts env sock q to ds io) (posts env sock q to es)"
  by (induction ds arbitrary: io) (auto simp: and_then_def split: sum.split)

lemma posts_plain: "plain_net env to \<Longrightarrow> posts env sock q to ds io = Inr (sends q to ds io)"
  by (induction ds arbitrary: io) (simp_all add: SendPacket_wire sends_def)

lemma posts_return: "\<forall>d \<in> set ds. short_dgram q d \<Longrightarrow> \<exists>io'. posts env sock q to ds io = Inr io'"
proof (induction ds arbitrary: io)
  case (Cons d ds)
  have "int (length (encode_dgram q d)) \<le> MAX_PACKETLEN" using Cons.prems by (simp add: short_dgram_def MAX_PACKETLEN_def)
  then have "\<exists>r. NET_SendPacket env sock (encode_dgram q d) to io = Inr r"
    by (auto simp: NET_SendPacket_def NET_SendLoopPacket_def Let_def)
  then obtain ok io1 where "NET_SendPacket env sock (encode_dgram q d) to io = Inr (ok, io1)" by auto
  then show ?case using Cons by simp
qed simp

lemma sent_packet_ok:
  assumes "tx_ok (txwindow c) F" "rx_ok (rxwindow c) G D"
  shows "tx_ok (txwindow (sent_packet c ((rxwindow c)\<lparr>fd_selackoffset := 1\<rparr>) m)) F"
    "rx_ok (rxwindow (sent_packet c ((rxwindow c)\<lparr>fd_selackoffset := 1\<rparr>) m)) G D"
    "keeps c (sent_packet c ((rxwindow c)\<lparr>fd_selackoffset := 1\<rparr>) m)"
  using assms rx_ok_sack by (simp_all add: sent_packet_def keeps_def map_rate_def [abs_def])
    (simp add: tx_ok_def frag_ring_def frag_at_def)

text \<open>
  The turn a transmission takes: \<open>cursor\<close> is the fragment it looks at, and unless the peer
  has that one already, it goes out; then the cursor moves on through the window.
\<close>

definition cursor :: "framedata \<Rightarrow> int" where
  "cursor tx = max (fd_frame tx) (fd_acknowledge tx)"

definition takes_turn :: "bytes list \<Rightarrow> framedata \<Rightarrow> framedata \<Rightarrow> dgram list \<Rightarrow> bool" where
  "takes_turn F tx tx' ds \<longleftrightarrow> (fd_acknowledge tx \<noteq> fd_sequence tx \<longrightarrow>
     frag_at tx' = frag_at tx \<and> fd_sequence tx' = fd_sequence tx \<and>
     fd_frame tx' = (if fd_acknowledge tx + 20 \<le> cursor tx + 1 then fd_acknowledge tx else cursor tx + 1) \<and>
     (cursor tx < fd_sequence tx \<and> fr_ack (frag_at tx (cursor tx)) \<noteq> cursor tx \<longrightarrow>
       (\<exists>d \<in> set ds. dg_seq d = cursor tx \<and> dg_payload d = F ! nat (cursor tx))))"

lemma next_frame_turn:
  assumes "tx_ok tx F"
  shows "fd_frame (next_frame tx) = (if fd_acknowledge tx + 20 \<le> fd_frame tx + 1 then fd_acknowledge tx
      else fd_frame tx + 1)"
    "frag_at (next_frame tx) = frag_at tx" "fd_sequence (next_frame tx) = fd_sequence tx"
proof -
  note T = tx_okD [OF assms]
  have "s32 (fd_acknowledge tx + fd_windowsize tx) = fd_acknowledge tx + 20"
    "s32 (fd_frame tx + 1) = fd_frame tx + 1"
    using T by simp_all
  then show "fd_frame (next_frame tx) = (if fd_acknowledge tx + 20 \<le> fd_frame tx + 1 then fd_acknowledge tx
      else fd_frame tx + 1)"
    by (simp add: next_frame_def)
qed (simp_all add: next_frame_def Let_def frag_at_def fun_eq_iff)

lemma transmit_posts:
  assumes tx: "tx_ok (txwindow c) F" and rx: "rx_ok (rxwindow c) G D"
  obtains c' ds where "ReliableMessagesTransmitNextFragment env c io =
      and_then (posts env (rm_sock c) (rm_qport c) (rm_remoteAddress c) ds io) (\<lambda>io'. Inr (c', io'))"
    "\<forall>d \<in> set ds. short_dgram (rm_qport c) d"
    "tx_ok (txwindow c') F" "rx_ok (rxwindow c') G D" "keeps c c'"
    "\<forall>d \<in> set ds. dgram_ok F (fd_sequence (rxwindow c)) d"
    "takes_turn F (txwindow c) (txwindow c') ds"
proof -
  note T = tx_okD [OF tx] and X = rx_okD [OF rx]
  let ?tx = "txwindow c" and ?q = "rm_qport c" and ?to = "rm_remoteAddress c"
  show ?thesis
  proof (cases "fd_acknowledge ?tx = fd_sequence ?tx")
    case True
    show ?thesis
    proof (cases "rm_nextacktime c < rm_time c")
      case False
      then show ?thesis using that [of "[]" c] True tx rx
        by (simp add: takes_turn_def ReliableMessagesTransmitNextFragment_def)
    next
      case ack: True
      obtain ss where ss: "length ss \<le> 3" "write_packet_head c (-1) =
          ((rxwindow c)\<lparr>fd_selackoffset := 1\<rparr>, msg_app (dgram_head ?q \<lparr>dg_seq = -1,
             dg_ack = fd_sequence (rxwindow c), dg_sacks = ss, dg_window = fd_windowsize ?tx,
             dg_payload = []\<rparr>) send_buf)"
        using write_packet_head_sends [OF X(4), of "-1" "[]"] by metis
      let ?d = "\<lparr>dg_seq = -1, dg_ack = fd_sequence (rxwindow c), dg_sacks = ss,
          dg_window = fd_windowsize ?tx, dg_payload = []\<rparr>"
      let ?m = "MSG_WriteShort 0 (msg_app (dgram_head ?q ?d) send_buf)"
      have "content ?m = encode_dgram ?q ?d" using complete_packet [of ?d ?q] ss(1) by simp
      then have "ReliableMessagesTransmitNextFragment env c io =
          and_then (posts env (rm_sock c) ?q ?to [?d] io)
            (\<lambda>io'. Inr (sent_packet c ((rxwindow c)\<lparr>fd_selackoffset := 1\<rparr>) ?m, io'))"
        using True ack ss(2)
        by (simp add: ReliableMessagesTransmitNextFragment_def Let_def and_then_def split: sum.split prod.split)
      moreover have "short_dgram ?q ?d" using ss(1) by (simp add: short_dgramI)
      moreover have "dgram_ok F (fd_sequence (rxwindow c)) ?d" using ss(1) X(5) by (simp add: dgram_ok_def)
      ultimately show ?thesis
        using that [of "[?d]" "sent_packet c ((rxwindow c)\<lparr>fd_selackoffset := 1\<rparr>) ?m"]
          sent_packet_ok [OF tx rx] True by (simp add: takes_turn_def)
    qed
  next
    case False
    define tx1 where "tx1 = (if fd_frame ?tx < fd_acknowledge ?tx
        then ?tx\<lparr>fd_frame := fd_acknowledge ?tx\<rparr> else ?tx)"
    define c1 where "c1 = c\<lparr>txwindow := tx1\<rparr>"
    have tx1: "tx_ok tx1 F" "fd_acknowledge tx1 \<le> fd_frame tx1" "fd_acknowledge tx1 = fd_acknowledge ?tx"
      "fd_windowsize tx1 = 20" "fd_sequence tx1 = fd_sequence ?tx" "fd_frame tx1 = cursor ?tx"
      "frag_at tx1 = frag_at ?tx"
      using tx T by (auto simp: tx1_def cursor_def frag_at_def fun_eq_iff intro!: tx_ok_frame)
    have c1: "tx_ok (txwindow c1) F" "rx_ok (rxwindow c1) G D" "keeps c c1" "rm_qport c1 = ?q"
      "rm_remoteAddress c1 = ?to" "rm_sock c1 = rm_sock c" "txwindow c1 = tx1" "rxwindow c1 = rxwindow c"
      using tx1 rx by (simp_all add: c1_def keeps_def)
    let ?i = "fd_frame tx1"
    let ?f = "frag_at tx1 ?i"
    have step: "ReliableMessagesTransmitNextFragment env c io =
      (if ?i < fd_sequence tx1 \<and> fr_ack ?f \<noteq> ?i then
         if fr_len ?f < 0 \<or> int (length (fr_data ?f)) < fr_len ?f then Inl OUT_OF_BOUNDS
         else (case write_packet_head c1 ?i of (rx, m) \<Rightarrow>
            let m1 = MSG_WriteData (take (nat (fr_len ?f)) (fr_data ?f)) (MSG_WriteShort (fr_len ?f) m) in
            case NET_SendPacket env (rm_sock c1) (content m1) (rm_remoteAddress c1) io of
              Inl e \<Rightarrow> Inl e
            | Inr (ok, io') \<Rightarrow> Inr ((sent_packet c1 rx m1)\<lparr>txwindow := next_frame (txwindow (sent_packet c1 rx m1))\<rparr>, io'))
       else Inr (c1\<lparr>txwindow := next_frame tx1\<rparr>, io))"
      unfolding ReliableMessagesTransmitNextFragment_def Let_def if_not_P [OF False]
        tx1_def [symmetric] c1_def [symmetric] ..
    show ?thesis
    proof (cases "?i < fd_sequence tx1 \<and> fr_ack ?f \<noteq> ?i")
      case False
      have "keeps c (c1\<lparr>txwindow := next_frame tx1\<rparr>)"
        using tx1(3) c1 by (simp add: keeps_def next_frame_def Let_def)
      moreover have "takes_turn F ?tx (next_frame tx1) []"
        using next_frame_turn [OF tx1(1)] False tx1 by (auto simp: takes_turn_def)
      ultimately show ?thesis
        using that [of "[]" "c1\<lparr>txwindow := next_frame tx1\<rparr>"] step False tx_ok_next_frame [OF tx1(1)] c1(2)
        by simp
    next
      case go: True
      let ?b = "F ! nat ?i"
      have h: "holds ?f ?b" using tx_okD(14) [OF tx1(1) tx1(2)] go by blast
      have i0: "0 \<le> ?i" "?i < int (length F)" using tx_okD(4,5,11) [OF tx1(1)] go by simp_all
      have lb: "length ?b \<le> 1200" using tx_okD(3) [OF tx1(1)] i0 by (simp add: frags_ok_def)
      have cell: "length (fr_data ?f) = 1200" using frag_at_cells [OF tx_okD(1,2) [OF tx1(1)], of ?i] by simp
      obtain ss where ss: "length ss \<le> 3" "write_packet_head c1 ?i =
          ((rxwindow c)\<lparr>fd_selackoffset := 1\<rparr>, msg_app (dgram_head ?q \<lparr>dg_seq = ?i,
             dg_ack = fd_sequence (rxwindow c), dg_sacks = ss, dg_window = 20, dg_payload = ?b\<rparr>) send_buf)"
        using write_packet_head_sends [of c1 ?i ?b] X(4) c1 tx1(4) by metis
      let ?d = "\<lparr>dg_seq = ?i, dg_ack = fd_sequence (rxwindow c), dg_sacks = ss, dg_window = 20,
          dg_payload = ?b\<rparr>"
      let ?m = "MSG_WriteData ?b (MSG_WriteShort (int (length ?b)) (msg_app (dgram_head ?q ?d) send_buf))"
      let ?c2 = "sent_packet c1 ((rxwindow c1)\<lparr>fd_selackoffset := 1\<rparr>) ?m"
      let ?c3 = "?c2\<lparr>txwindow := next_frame (txwindow ?c2)\<rparr>"
      have "content ?m = encode_dgram ?q ?d" using complete_packet [of ?d ?q] ss(1) lb by simp
      then have "ReliableMessagesTransmitNextFragment env c io =
          and_then (posts env (rm_sock c) ?q ?to [?d] io) (\<lambda>io'. Inr (?c3, io'))"
        unfolding step using go ss(2) h c1 cell lb
        by (simp add: holds_def Let_def and_then_def split: sum.split prod.split)
      moreover have "short_dgram ?q ?d" using ss(1) lb by (simp add: short_dgramI)
      moreover have "dgram_ok F (fd_sequence (rxwindow c)) ?d"
        using ss(1) X(5) i0 by (simp add: dgram_ok_def)
      moreover have "tx_ok (txwindow ?c3) F" "rx_ok (rxwindow ?c3) G D"
        using sent_packet_ok [OF c1(1,2)] tx_ok_next_frame by simp_all
      moreover have "keeps c ?c3"
        using keeps_trans [OF c1(3) sent_packet_ok(3) [OF c1(1,2)]]
        by (simp add: keeps_def next_frame_def Let_def)
      moreover have "takes_turn F ?tx (txwindow ?c3) [?d]"
        using next_frame_turn [OF sent_packet_ok(1) [OF c1(1,2)]] tx1 c1(7)
        by (simp add: takes_turn_def sent_packet_def frag_at_def fun_eq_iff map_rate_def)
      ultimately show ?thesis using that [of "[?d]" ?c3] by simp
    qed
  qed
qed

lemma transmit_sends:
  assumes "tx_ok (txwindow c) F" "rx_ok (rxwindow c) G D" "plain_net env (rm_remoteAddress c)"
  obtains c' ds where "ReliableMessagesTransmitNextFragment env c io =
      Inr (c', sends (rm_qport c) (rm_remoteAddress c) ds io)"
    "tx_ok (txwindow c') F" "rx_ok (rxwindow c') G D" "keeps c c'"
    "\<forall>d \<in> set ds. dgram_ok F (fd_sequence (rxwindow c)) d"
    "takes_turn F (txwindow c) (txwindow c') ds"
  by (rule transmit_posts [OF assms(1,2), of env io]) (simp add: posts_plain [OF assms(3)])

lemma transmit_packets_posts:
  "tx_ok (txwindow c) F \<Longrightarrow> rx_ok (rxwindow c) G D \<Longrightarrow>
   \<exists>c' ds. transmit_packets n env c io =
       and_then (posts env (rm_sock c) (rm_qport c) (rm_remoteAddress c) ds io) (\<lambda>io'. Inr (c', io')) \<and>
     tx_ok (txwindow c') F \<and> rx_ok (rxwindow c') G D \<and> keeps c c' \<and>
     (\<forall>d \<in> set ds. dgram_ok F (fd_sequence (rxwindow c)) d \<and> short_dgram (rm_qport c) d)"
proof (induction n arbitrary: c io)
  case 0
  then show ?case by (intro exI [of _ c] exI [of _ "[]"]) simp
next
  case (Suc n)
  let ?posts = "posts env (rm_sock c) (rm_qport c) (rm_remoteAddress c)"
  obtain c1 ds where one: "ReliableMessagesTransmitNextFragment env c io = and_then (?posts ds io) (\<lambda>io'. Inr (c1, io'))"
    "\<forall>d \<in> set ds. short_dgram (rm_qport c) d" "tx_ok (txwindow c1) F" "rx_ok (rxwindow c1) G D" "keeps c c1"
    "\<forall>d \<in> set ds. dgram_ok F (fd_sequence (rxwindow c)) d"
    using transmit_posts [OF Suc.prems] by metis
  have k: "rm_qport c1 = rm_qport c" "rm_remoteAddress c1 = rm_remoteAddress c" "rm_sock c1 = rm_sock c"
    "fd_sequence (rxwindow c1) = fd_sequence (rxwindow c)"
    using one(5) by (simp_all add: keeps_def)
  obtain io1 where io1: "?posts ds io = Inr io1" using posts_return [OF one(2)] by blast
  obtain c2 es where "transmit_packets n env c1 io1 = and_then (?posts es io1) (\<lambda>io'. Inr (c2, io'))"
    "tx_ok (txwindow c2) F" "rx_ok (rxwindow c2) G D" "keeps c1 c2"
    "\<forall>d \<in> set es. dgram_ok F (fd_sequence (rxwindow c)) d \<and> short_dgram (rm_qport c) d"
    using Suc.IH [OF one(3,4), of io1] k by auto
  then show ?case
    using one io1 by (intro exI [of _ c2] exI [of _ "ds @ es"]) (auto simp: posts_append intro: keeps_trans)
qed

lemma transmit_packets_sends:
  assumes "tx_ok (txwindow c) F" "rx_ok (rxwindow c) G D" "plain_net env (rm_remoteAddress c)"
  shows "\<exists>c' ds. transmit_packets n env c io = Inr (c', sends (rm_qport c) (rm_remoteAddress c) ds io) \<and>
     tx_ok (txwindow c') F \<and> rx_ok (rxwindow c') G D \<and> keeps c c' \<and>
     (\<forall>d \<in> set ds. dgram_ok F (fd_sequence (rxwindow c)) d)"
proof -
  obtain c' ds where "transmit_packets n env c io =
      and_then (posts env (rm_sock c) (rm_qport c) (rm_remoteAddress c) ds io) (\<lambda>io'. Inr (c', io'))"
    "tx_ok (txwindow c') F" "rx_ok (rxwindow c') G D" "keeps c c'"
    "\<forall>d \<in> set ds. dgram_ok F (fd_sequence (rxwindow c)) d"
    using transmit_packets_posts [OF assms(1,2), of n env io] by blast
  then show ?thesis by (intro exI [of _ c'] exI [of _ ds]) (simp add: posts_plain [OF assms(3)])
qed

lemma track_rate_ok:
  "tx_ok (txwindow (ReliableMessageTrackRate c)) F = tx_ok (txwindow c) F"
  "rx_ok (rxwindow (ReliableMessageTrackRate c)) G D = rx_ok (rxwindow c) G D"
  "keeps c (ReliableMessageTrackRate c)"
  by (simp_all add: ReliableMessageTrackRate_def Let_def keeps_def map_rate_def [abs_def]
      del: tx_ok_map_rate rx_ok_map_rate)
    (simp_all add: tx_ok_map_rate [unfolded map_rate_def] rx_ok_map_rate [unfolded map_rate_def])

lemma frame_posts:
  assumes "tx_ok (txwindow c) F" "rx_ok (rxwindow c) G D"
  obtains c' ds where "ReliableMessagesFrame env c now io =
      and_then (posts env (rm_sock c) (rm_qport c) (rm_remoteAddress c) ds io) (\<lambda>io'. Inr (c', io'))"
    "tx_ok (txwindow c') F" "rx_ok (rxwindow c') G D" "keeps c c'"
    "\<forall>d \<in> set ds. dgram_ok F (fd_sequence (rxwindow c)) d \<and> short_dgram (rm_qport c) d"
proof -
  define c1 where "c1 = ReliableMessageSetCurrentTime now c"
  define elapsed where "elapsed = s32 (now - ReliableMessageGetCurrentTime c)"
  have c1: "tx_ok (txwindow c1) F" "rx_ok (rxwindow c1) G D" "keeps c c1"
    using assms(1,2) by (simp_all add: c1_def ReliableMessageSetCurrentTime_def keeps_def)
  show ?thesis
  proof (cases "250 < elapsed")
    case True
    then show ?thesis using that [of "[]" c1] c1
      by (simp add: ReliableMessagesFrame_def elapsed_def c1_def)
  next
    case False
    define milli where "milli = s32 (elapsed * fd_windowsize (txwindow c1) + fd_unsentmillipackets (txwindow c1))"
    define c2 where "c2 = set_tx c1 ((txwindow c1)\<lparr>fd_unsentmillipackets := milli - 1000 * quot1000 milli\<rparr>)"
    have c2: "tx_ok (txwindow c2) F" "rx_ok (rxwindow c2) G D" "keeps c c2"
      using c1 by (simp_all add: c2_def set_tx_def keeps_def)
    then have k: "rm_qport c2 = rm_qport c" "rm_remoteAddress c2 = rm_remoteAddress c" "rm_sock c2 = rm_sock c"
      "fd_sequence (rxwindow c2) = fd_sequence (rxwindow c)"
      by (simp_all add: keeps_def)
    obtain c3 ds where t: "transmit_packets (nat (quot1000 milli)) env c2 io =
        and_then (posts env (rm_sock c) (rm_qport c) (rm_remoteAddress c) ds io) (\<lambda>io'. Inr (c3, io'))"
      "tx_ok (txwindow c3) F" "rx_ok (rxwindow c3) G D" "keeps c2 c3"
      "\<forall>d \<in> set ds. dgram_ok F (fd_sequence (rxwindow c)) d \<and> short_dgram (rm_qport c) d"
      using transmit_packets_posts [OF c2(1,2), of "nat (quot1000 milli)" env io] k by auto
    have "ReliableMessagesFrame env c now io =
        and_then (posts env (rm_sock c) (rm_qport c) (rm_remoteAddress c) ds io)
          (\<lambda>io'. Inr (ReliableMessageTrackRate c3, io'))"
      unfolding ReliableMessagesFrame_def Let_def elapsed_def [symmetric] c1_def [symmetric]
        milli_def [symmetric] c2_def [symmetric] if_not_P [OF False] t(1)
      by (simp add: and_then_def split: sum.split)
    then show ?thesis
      using that [of ds "ReliableMessageTrackRate c3"] t track_rate_ok keeps_trans c2(3) by metis
  qed
qed

lemma frame_sends:
  assumes "tx_ok (txwindow c) F" "rx_ok (rxwindow c) G D" "plain_net env (rm_remoteAddress c)"
  obtains c' ds where "ReliableMessagesFrame env c now io =
      Inr (c', sends (rm_qport c) (rm_remoteAddress c) ds io)"
    "tx_ok (txwindow c') F" "rx_ok (rxwindow c') G D" "keeps c c'"
    "\<forall>d \<in> set ds. dgram_ok F (fd_sequence (rxwindow c)) d"
  by (rule frame_posts [OF assms(1,2), of env now io]) (simp add: posts_plain [OF assms(3)])

lemma frame_returns:
  assumes "tx_ok (txwindow c) F" "rx_ok (rxwindow c) G D"
  shows "\<exists>c' io'. ReliableMessagesFrame env c now io = Inr (c', io')"
proof -
  obtain c' ds where f: "ReliableMessagesFrame env c now io =
      and_then (posts env (rm_sock c) (rm_qport c) (rm_remoteAddress c) ds io) (\<lambda>io'. Inr (c', io'))"
    "\<forall>d \<in> set ds. dgram_ok F (fd_sequence (rxwindow c)) d \<and> short_dgram (rm_qport c) d"
    by (rule frame_posts [OF assms, of env now io]) blast
  then obtain io' where "posts env (rm_sock c) (rm_qport c) (rm_remoteAddress c) ds io = Inr io'"
    using posts_return by blast
  then show ?thesis using f(1) by simp
qed

section \<open>Growing and shrinking the send ring\<close>

definition mem_law :: "memory \<Rightarrow> bool" where
  "mem_law malloc \<longleftrightarrow> (\<forall>n mem. malloc n = Some mem \<longrightarrow> int (length mem) = n \<and> cells_ok mem)"

lemma cells_ok_put: "cells_ok fs \<Longrightarrow> length (fr_data f) = 1200 \<Longrightarrow> cells_ok (put i f fs)"
  using set_update_subset_insert [of fs "nat i" f] by (auto simp: cells_ok_def put_def)

lemma holds_copy:
  assumes "holds src b" "length b \<le> 1200" "length (fr_data dst) = 1200"
  shows "holds (copy_frag src dst) b"
  using assms by (simp add: holds_def copy_frag_def clamp_len_def MAX_FRAGMENT_SIZE_def blit_eq)

lemma length_copy_frag [simp]: "length (fr_data (copy_frag src dst)) = length (fr_data dst)"
  by (simp add: copy_frag_def)

lemma copy_frags_at:
  "0 < nc \<Longrightarrow> int (length new) = nc \<Longrightarrow> cells_ok new \<Longrightarrow> 0 \<le> i \<Longrightarrow> int n \<le> nc \<Longrightarrow>
   length (copy_frags n i fd nc new) = length new \<and> cells_ok (copy_frags n i fd nc new) \<and>
   (\<forall>j. 0 \<le> j \<and> j < i \<and> i + int n - j \<le> nc \<longrightarrow>
      idx (copy_frags n i fd nc new) (j mod nc) = idx new (j mod nc)) \<and>
   (\<forall>j b. i \<le> j \<and> j < i + int n \<and> holds (frag_at fd j) b \<and> length b \<le> 1200 \<longrightarrow>
      holds (idx (copy_frags n i fd nc new) (j mod nc)) b)"
proof (induction n arbitrary: i new)
  case 0
  then show ?case by auto
next
  case (Suc n)
  let ?f = "copy_frag (frag_at fd i) (idx new (i mod nc))"
  let ?new = "put (i mod nc) ?f new"
  have slot: "0 \<le> i mod nc" "nat (i mod nc) < length new"
    using Suc.prems(1,2) pos_mod_bound [of nc i] by (simp_all add: nat_less_iff)
  have cell: "length (fr_data (idx new (i mod nc))) = 1200"
    using Suc.prems(3) slot by (simp add: cells_ok_def idx_def)
  have IH: "length (copy_frags n (i + 1) fd nc ?new) = length ?new"
    "cells_ok (copy_frags n (i + 1) fd nc ?new)"
    "\<And>j. 0 \<le> j \<Longrightarrow> j < i + 1 \<Longrightarrow> i + 1 + int n - j \<le> nc \<Longrightarrow>
      idx (copy_frags n (i + 1) fd nc ?new) (j mod nc) = idx ?new (j mod nc)"
    "\<And>j b. i + 1 \<le> j \<Longrightarrow> j < i + 1 + int n \<Longrightarrow> holds (frag_at fd j) b \<Longrightarrow> length b \<le> 1200 \<Longrightarrow>
      holds (idx (copy_frags n (i + 1) fd nc ?new) (j mod nc)) b"
    using Suc.IH [of ?new "i + 1"] Suc.prems cells_ok_put [of new ?f] cell by simp_all
  have other: "idx ?new (j mod nc) = idx new (j mod nc)" if "0 \<le> j" "j < i" "i - j < nc" for j
    using that mod_slot_eq [of nc i j] Suc.prems(1) slot by (intro idx_put_other) auto
  have same: "idx ?new (i mod nc) = ?f" using slot by (rule idx_put_same)
  have new: "holds (idx (copy_frags n (i + 1) fd nc ?new) (j mod nc)) b"
    if "i \<le> j" "j < i + int (Suc n)" "holds (frag_at fd j) b" "length b \<le> 1200" for j b
  proof (cases "j = i")
    case True
    then show ?thesis
      using IH(3) [of i] same holds_copy [OF _ that(4) cell] that(3) Suc.prems(4,5) by simp
  next
    case False
    then show ?thesis using IH(4) that by simp
  qed
  show ?case
    using IH(1,2,3) other new Suc.prems by simp
qed

lemma change_size_ok:
  assumes tx: "tx_ok (txwindow c) F" and mem: "mem_law malloc" and n: "n < 2 ^ 31"
    and res: "ReliableMessageChangeSendBufferSize malloc c n = (r, c')"
  shows "tx_ok (txwindow c') F" "keeps c c'" "rxwindow c' = rxwindow c"
    "r = -1 \<or> r = fd_bufferlen (txwindow c')"
    "c' = c \<or> r = fd_bufferlen (txwindow c') \<and> fd_sequence (txwindow c) - fd_acknowledge (txwindow c) < r"
proof -
  let ?tx = "txwindow c"
  note T = tx_okD [OF tx]
  define nc where "nc = (if n \<le> DEFAULT_BUFFER_SIZE then DEFAULT_BUFFER_SIZE else n)"
  define used where "used = fd_sequence ?tx - fd_acknowledge ?tx"
  have nc: "32 \<le> nc" "nc < 2 ^ 31" using n by (simp_all add: nc_def DEFAULT_BUFFER_SIZE_def)
  have used: "ReliableMessageGetUsedSendBufferSize c = used"
    using T by (simp add: ReliableMessageGetUsedSendBufferSize_def used_def)
  note res' = res [unfolded ReliableMessageChangeSendBufferSize_def used Let_def nc_def [symmetric]
      used_def [symmetric]]
  consider (same) "n \<le> DEFAULT_BUFFER_SIZE \<and> fd_bufferlen ?tx = DEFAULT_BUFFER_SIZE"
    | (full) "\<not> (n \<le> DEFAULT_BUFFER_SIZE \<and> fd_bufferlen ?tx = DEFAULT_BUFFER_SIZE)" "nc \<le> used"
    | (none) "\<not> (n \<le> DEFAULT_BUFFER_SIZE \<and> fd_bufferlen ?tx = DEFAULT_BUFFER_SIZE)" "\<not> nc \<le> used"
        "malloc nc = None"
    | (new) mem0 where "\<not> (n \<le> DEFAULT_BUFFER_SIZE \<and> fd_bufferlen ?tx = DEFAULT_BUFFER_SIZE)"
        "\<not> nc \<le> used" "malloc nc = Some mem0"
    by (cases "malloc nc") blast+
  then have "tx_ok (txwindow c') F \<and> keeps c c' \<and> rxwindow c' = rxwindow c \<and>
      (r = -1 \<or> r = fd_bufferlen (txwindow c')) \<and>
      (c' = c \<or> r = fd_bufferlen (txwindow c') \<and> used < r)"
  proof cases
    case same
    then have "c' = c \<and> r = fd_bufferlen ?tx" using res' by simp
    then show ?thesis using tx by simp
  next
    case full
    then have "c' = c \<and> r = -1" using res' unfolding if_not_P [OF full(1)] by simp
    then show ?thesis using tx by simp
  next
    case none
    then have "c' = c \<and> r = -1" using res' unfolding if_not_P [OF none(1)] by simp
    then show ?thesis using tx by simp
  next
    case new
    let ?mem = "if fd_acknowledge ?tx = 0 then map (\<lambda>f. f\<lparr>fr_ack := -1\<rparr>) mem0 else mem0"
    let ?fs = "copy_frags (nat used) (fd_acknowledge ?tx) ?tx nc ?mem"
    have eq: "nc = r \<and> c\<lparr>txwindow := ?tx\<lparr>fd_fragments := ?fs, fd_bufferlen := nc\<rparr>\<rparr> = c'"
      using res' unfolding if_not_P [OF new(1)] if_not_P [OF new(2)] new(3) option.case prod.inject .
    note c' = eq [THEN conjunct1, symmetric] eq [THEN conjunct2, symmetric]
    have m: "int (length ?mem) = nc" "cells_ok ?mem"
      using mem new(3) by (auto simp: mem_law_def cells_ok_def)
    have u: "0 \<le> used" "int (nat used) = used" "fd_acknowledge ?tx + used = fd_sequence ?tx"
      using T(6) by (simp_all add: used_def)
    have fs: "length ?fs = length ?mem" "cells_ok ?fs"
      "\<And>j b. fd_acknowledge ?tx \<le> j \<Longrightarrow> j < fd_sequence ?tx \<Longrightarrow>
         holds (frag_at ?tx j) b \<Longrightarrow> length b \<le> 1200 \<Longrightarrow> holds (idx ?fs (j mod nc)) b"
      using copy_frags_at [of nc ?mem "fd_acknowledge ?tx" "nat used" ?tx] nc m T(5) new(2) u by auto
    have frag: "length (F ! nat j) \<le> 1200" if "fd_acknowledge ?tx \<le> j" "j < fd_sequence ?tx" for j
      using T(3,4,5) that by (simp add: frags_ok_def)
    let ?t = "txwindow c'"
    have t: "fd_fragments ?t = ?fs" "fd_bufferlen ?t = nc" "fd_sequence ?t = fd_sequence ?tx"
      "fd_acknowledge ?t = fd_acknowledge ?tx" "fd_windowsize ?t = fd_windowsize ?tx"
      "fd_frame ?t = fd_frame ?tx"
      unfolding c'(2) by simp_all
    have at: "frag_at ?t j = idx ?fs (j mod nc)" for j
      unfolding frag_at_def t(1,2) ..
    have "tx_ok ?t F"
      unfolding tx_ok_def frag_ring_def at t
    proof (intro conjI allI impI)
      fix i assume "fd_acknowledge ?tx \<le> i \<and> i < fd_sequence ?tx"
      then show "holds (idx ?fs (i mod nc)) (F ! nat i)" using fs(3) T(14) frag by blast
    qed (use T nc m(1) fs(1,2) new(2) in \<open>simp_all add: used_def\<close>)
    moreover have "keeps c c'" "rxwindow c' = rxwindow c" unfolding c'(2) by (simp_all add: keeps_def)
    ultimately show ?thesis using c'(1) t(2) new(2) by simp
  qed
  then show "tx_ok (txwindow c') F" "keeps c c'" "rxwindow c' = rxwindow c"
    "r = -1 \<or> r = fd_bufferlen (txwindow c')"
    "c' = c \<or> r = fd_bufferlen (txwindow c') \<and> fd_sequence (txwindow c) - fd_acknowledge (txwindow c) < r"
    unfolding used_def by blast+
qed

section \<open>Accepting bytes\<close>

lemma set_frag_fields [simp]:
  "fd_sequence (set_frag i f fd) = fd_sequence fd" "fd_acknowledge (set_frag i f fd) = fd_acknowledge fd"
  "fd_bufferlen (set_frag i f fd) = fd_bufferlen fd" "fd_windowsize (set_frag i f fd) = fd_windowsize fd"
  "fd_frame (set_frag i f fd) = fd_frame fd" "fd_selackoffset (set_frag i f fd) = fd_selackoffset fd"
  "fd_fragmentbuffer (set_frag i f fd) = fd_fragmentbuffer fd"
  by (simp_all add: set_frag_def)

lemma cells_ok_set_frag:
  "cells_ok (fd_fragments fd) \<Longrightarrow> length (fr_data f) = 1200 \<Longrightarrow> cells_ok (fd_fragments (set_frag i f fd))"
  by (simp add: set_frag_def cells_ok_put)

lemma enqueue_ok:
  assumes tx: "tx_ok tx F" and b: "length b \<le> 1200" and len: "int (length F) + 1 \<le> 2 ^ 30"
    and free: "fd_sequence tx - fd_acknowledge tx < fd_bufferlen tx"
  shows "tx_ok (enqueue_fragment b tx) (F @ [b])"
    "fd_acknowledge (enqueue_fragment b tx) = fd_acknowledge tx"
    "fd_bufferlen (enqueue_fragment b tx) = fd_bufferlen tx"
    "fd_sequence (enqueue_fragment b tx) = fd_sequence tx + 1"
proof -
  note T = tx_okD [OF tx]
  let ?s = "fd_sequence tx"
  let ?f = "(frag_at tx ?s)\<lparr>fr_data := blit 0 b (fr_data (frag_at tx ?s)), fr_len := int (length b),
      fr_ack := -1, fr_senttime := 0, fr_packetnum := 0\<rparr>"
  let ?t = "set_frag ?s ?f tx"
  have s: "0 \<le> ?s" "s32 (?s + 1) = ?s + 1" using T by simp_all
  have e: "enqueue_fragment b tx = map_rate (\<lambda>r. r\<lparr>rt_bytes := s32 (rt_bytes r + int (length b))\<rparr>)
      (?t\<lparr>fd_sequence := ?s + 1\<rparr>)"
    using s(2) by (simp add: enqueue_fragment_def Let_def)
  have cell: "length (fr_data ?f) = 1200" using frag_at_cells [OF T(1,2), of ?s] by simp
  have hb: "holds ?f b"
    using b frag_at_cells [OF T(1,2), of ?s] by (simp add: holds_def blit_eq)
  have ring: "frag_ring ?t" using fragring.put_inv [OF T(1) s(1)] .
  have win: "\<forall>j. fd_acknowledge tx \<le> j \<and> j < ?s + int (length [?f]) \<longrightarrow>
      holds (frag_at (fragring.rputs ?s [?f] tx) j) ((F @ [b]) ! nat j)"
  proof (rule fragring.window_extend [OF T(1,5,6)])
    show "?s + int (length [?f]) - fd_acknowledge tx \<le> fd_bufferlen tx" using free by simp
    show "\<forall>j. fd_acknowledge tx \<le> j \<and> j < ?s \<longrightarrow> holds (frag_at tx j) ((F @ [b]) ! nat j)"
      using T(4,5,14) by (auto simp: nth_append)
    show "\<forall>k < length [?f]. holds ([?f] ! k) ((F @ [b]) ! nat (?s + int k))"
      using hb T(4) by (simp add: nth_append)
  qed
  have "tx_ok (?t\<lparr>fd_sequence := ?s + 1\<rparr>) (F @ [b])"
    using ring cells_ok_set_frag [OF T(2) cell] T b len free win
    by (simp add: tx_ok_def frag_ring_def frags_ok_def frag_at_def)
  then show "tx_ok (enqueue_fragment b tx) (F @ [b])" by (simp add: e)
  show "fd_acknowledge (enqueue_fragment b tx) = fd_acknowledge tx"
    "fd_bufferlen (enqueue_fragment b tx) = fd_bufferlen tx"
    "fd_sequence (enqueue_fragment b tx) = ?s + 1"
    by (simp_all add: e map_rate_def)
qed

lemma bytes_at_join:
  assumes "0 \<le> i" "0 \<le> n" "0 \<le> k"
  shows "bytes_at i n xs @ bytes_at (i + n) k xs = bytes_at i (n + k) xs"
proof -
  have "nat (i + n) = nat n + nat i" "nat (n + k) = nat n + nat k" using assms by simp_all
  then show ?thesis by (simp add: bytes_at_def take_add)
qed

lemma send_loop_ok:
  "tx_ok tx F \<Longrightarrow> 0 \<le> len \<Longrightarrow> 0 \<le> i \<Longrightarrow> i * 1200 + len \<le> int (length indata) \<Longrightarrow>
   fd_sequence tx - fd_acknowledge tx + int n \<le> fd_bufferlen tx \<Longrightarrow>
   (0 < len \<longrightarrow> int (length F) + len div 1200 + 1 \<le> 2 ^ 30) \<Longrightarrow>
   \<exists>k tx' G. send_loop n i len s indata tx = Inr (s + k, tx') \<and> tx_ok tx' (F @ G) \<and>
     0 \<le> k \<and> k \<le> len \<and> concat G = bytes_at (i * 1200) k indata \<and>
     fd_acknowledge tx' = fd_acknowledge tx"
proof (induction n arbitrary: tx F len i s)
  case 0
  then show ?case
    by (intro exI [of _ "0 :: int"] exI [of _ tx] exI [of _ "[]"]) (simp add: bytes_at_def)
next
  case (Suc n)
  show ?case
  proof (cases "0 < len")
    case False
    then show ?thesis using Suc.prems(1)
      by (intro exI [of _ "0 :: int"] exI [of _ tx] exI [of _ "[]"]) (simp add: bytes_at_def Suc.prems(2))
  next
    case True
    define sl where "sl = (if 1200 \<le> len then 1200 else len)"
    define b where "b = bytes_at (i * 1200) sl indata"
    have sl: "0 < sl" "sl \<le> 1200" "sl \<le> len" using True by (auto simp: sl_def)
    have lb: "int (length b) = sl"
      using sl Suc.prems(3,4) by (simp add: b_def bytes_at_def of_nat_diff)
    have "fd_sequence tx - fd_acknowledge tx < fd_bufferlen tx" using Suc.prems(5) by simp
    moreover have "0 \<le> len div 1200" using True by simp
    ultimately have E: "tx_ok (enqueue_fragment b tx) (F @ [b])"
      "fd_acknowledge (enqueue_fragment b tx) = fd_acknowledge tx"
      "fd_bufferlen (enqueue_fragment b tx) = fd_bufferlen tx"
      "fd_sequence (enqueue_fragment b tx) = fd_sequence tx + 1"
      using enqueue_ok [OF Suc.prems(1), of b] lb sl Suc.prems(6) True by auto
    have need: "0 < len - sl \<longrightarrow> int (length (F @ [b])) + (len - sl) div 1200 + 1 \<le> 2 ^ 30"
    proof
      assume p: "0 < len - sl"
      then have "sl = 1200" by (auto simp: sl_def split: if_splits)
      then have "(len - sl) div 1200 = len div 1200 - 1" by simp
      then show "int (length (F @ [b])) + (len - sl) div 1200 + 1 \<le> 2 ^ 30"
        using Suc.prems(6) True by simp
    qed
    have more: "(i + 1) * 1200 + (len - sl) \<le> int (length indata) \<or> len - sl = 0"
      using Suc.prems(4) by (auto simp: sl_def)
    have fits: "copy_fits indata (i * 1200) sl tx"
      unfolding copy_fits_def
    proof (intro conjI)
      note T = tx_okD [OF Suc.prems(1)]
      show "fd_sequence tx mod fd_bufferlen tx < int (length (fd_fragments tx))"
        using T(1) by (simp add: frag_ring_def)
      show "sl \<le> int (length (fr_data (frag_at tx (fd_sequence tx))))"
        using frag_at_cells [OF T(1,2), of "fd_sequence tx"] sl by simp
      show "0 \<le> fd_sequence tx" using T by simp
    qed (use sl Suc.prems(3,4) in simp_all)
    obtain k tx' G where IH: "send_loop n (i + 1) (len - sl) (s + sl) indata (enqueue_fragment b tx) =
        Inr (s + sl + k, tx')"
      "tx_ok tx' ((F @ [b]) @ G)" "0 \<le> k" "k \<le> len - sl"
      "concat G = bytes_at ((i + 1) * 1200) k indata" "fd_acknowledge tx' = fd_acknowledge tx"
    proof (cases "len - sl = 0")
      case True
      have "send_loop n (i + 1) 0 (s + sl) indata (enqueue_fragment b tx) = Inr (s + sl, enqueue_fragment b tx)"
        by (cases n) simp_all
      then show ?thesis using that [of 0 "enqueue_fragment b tx" "[]"] True E
        by (simp add: bytes_at_def)
    next
      case False
      then show ?thesis
        using Suc.IH [OF E(1), of "len - sl" "i + 1" "s + sl"] Suc.prems(3,5) sl need more E that
        by (auto simp: algebra_simps)
    qed
    have "sl = 1200 \<or> k = 0" using IH(3,4) by (auto simp: sl_def)
    then have join: "concat (b # G) = bytes_at (i * 1200) (sl + k) indata"
    proof
      assume "sl = 1200"
      then show ?thesis
        using IH(3,5) bytes_at_join [of "i * 1200" sl k indata] Suc.prems(3)
        by (simp add: b_def algebra_simps)
    next
      assume "k = 0"
      then show ?thesis using IH(5) by (simp add: b_def bytes_at_def)
    qed
    have "send_loop (Suc n) i len s indata tx = Inr (s + (sl + k), tx')"
      unfolding send_loop.simps if_P [OF True] MAX_FRAGMENT_SIZE_def Let_def sl_def [symmetric]
        b_def [symmetric] IH(1) using fits by (simp add: add.assoc)
    then show ?thesis
      using IH(2,3,4,6) join sl by (intro exI [of _ "sl + k"] exI [of _ tx'] exI [of _ "b # G"]) simp
  qed
qed

lemma send_ok:
  assumes tx: "tx_ok (txwindow c) F" and mem: "mem_law malloc"
    and len: "0 \<le> len" "len \<le> int (length indata)" "int (length F) + len div 1200 + 1 \<le> 2 ^ 30 - 1"
  obtains n c' G where "ReliableMessageSend malloc c indata len = Inr (n, c')"
    "tx_ok (txwindow c') (F @ G)" "concat G = take (nat n) indata" "0 \<le> n" "n \<le> len"
    "keeps c c'" "rxwindow c' = rxwindow c"
proof -
  let ?tx = "txwindow c"
  note T = tx_okD [OF tx]
  define used where "used = fd_sequence ?tx - fd_acknowledge ?tx"
  have u: "s32 (fd_sequence ?tx - fd_acknowledge ?tx) = used" "0 \<le> used" "used \<le> fd_bufferlen ?tx"
    "used \<le> 2 ^ 30"
    using T by (simp_all add: used_def)
  have f0: "s32 (fd_bufferlen ?tx - used) = fd_bufferlen ?tx - used" using T u by simp
  define need where "need = len div MAX_FRAGMENT_SIZE + used + 1"
  obtain r c0 where ch: "ReliableMessageChangeSendBufferSize malloc c (s32 (need + need div 2)) = (r, c0)"
    by force
  have "s32 (need + need div 2) < 2 ^ 31" using s32_range by simp
  note CH = change_size_ok [OF tx mem this ch]
  define res where "res = (if fd_bufferlen ?tx - used < len div MAX_FRAGMENT_SIZE + 1
      then (if 0 < r - used then r - used else fd_bufferlen ?tx - used, c0)
      else (fd_bufferlen ?tx - used, c))"
  obtain free c1 where fc: "res = (free, c1)" by force
  have c1: "tx_ok (txwindow c1) F" "keeps c c1" "rxwindow c1 = rxwindow c"
    using CH tx fc by (auto simp: res_def split: if_splits)
  then have ack: "fd_acknowledge (txwindow c1) = fd_acknowledge ?tx" by (simp add: keeps_def)
  have seq: "fd_sequence (txwindow c1) = fd_sequence ?tx" using tx_okD(4) [OF c1(1)] T(4) by simp
  have "free \<le> fd_bufferlen (txwindow c1) - used"
    using CH fc tx_okD(7) [OF CH(1)] ack seq u used_def by (auto simp: res_def split: if_splits)
  moreover have "0 \<le> fd_bufferlen (txwindow c1) - used"
    using tx_okD(7) [OF c1(1)] ack seq by (simp add: used_def)
  ultimately have room: "fd_sequence (txwindow c1) - fd_acknowledge (txwindow c1) + int (nat free) \<le>
      fd_bufferlen (txwindow c1)"
    using ack seq by (simp add: used_def)
  obtain k tx' G where L: "send_loop (nat free) 0 len 0 indata (txwindow c1) = Inr (k, tx')"
    "tx_ok tx' (F @ G)" "0 \<le> k" "k \<le> len" "concat G = bytes_at 0 k indata"
    "fd_acknowledge tx' = fd_acknowledge (txwindow c1)"
    using send_loop_ok [OF c1(1) len(1), of 0 indata "nat free" 0] room len(2,3) by auto
  have "ReliableMessageSend malloc c indata len = Inr (k, c1\<lparr>txwindow := tx'\<rparr>)"
  proof -
    have nl: "\<not> len < 0" using len(1) by simp
    show ?thesis
      unfolding ReliableMessageSend_def Let_def u(1) f0 need_def [symmetric] ch prod.case
        res_def [symmetric] fc if_not_P [OF nl] L(1) sum.case prod.case ..
  qed
  moreover have "keeps c (c1\<lparr>txwindow := tx'\<rparr>)" using c1(2) L(6) by (simp add: keeps_def)
  ultimately show ?thesis
    using that [of k "c1\<lparr>txwindow := tx'\<rparr>" G] L(2-5) c1(3) by (simp add: bytes_at_def)
qed

section \<open>Handing out bytes\<close>

lemma ack_run_hits:
  "i \<le> ack_run n i fd \<and> ack_run n i fd \<le> i + int n \<and>
   (\<forall>j. i \<le> j \<and> j < ack_run n i fd \<longrightarrow> fr_ack (frag_at fd (j + fd_sequence fd)) = j + fd_sequence fd)"
proof (induction n arbitrary: i)
  case 0
  then show ?case by simp
next
  case (Suc n)
  show ?case
  proof (cases "i < fd_windowsize fd \<and> fr_ack (frag_at fd (i + fd_sequence fd)) = i + fd_sequence fd")
    case True
    have "fr_ack (frag_at fd (j + fd_sequence fd)) = j + fd_sequence fd"
      if "i \<le> j" "j < ack_run n (i + 1) fd" for j
      using that True Suc [of "i + 1"] by (cases "j = i") auto
    then show ?thesis using True Suc [of "i + 1"] by simp
  next
    case False
    then show ?thesis by auto
  qed
qed

lemma cache_okD: "cache_ok b \<Longrightarrow> 0 \<le> readcount b" "cache_ok b \<Longrightarrow> readcount b \<le> cursize b"
  by (simp_all add: cache_ok_def)

lemma cache_unread:
  assumes "cache_ok b" "0 \<le> w" "w \<le> cursize b - readcount b"
  shows "bytes_at (readcount b) w (data b) = take (nat w) (unread b)"
    "cache_ok (b\<lparr>readcount := readcount b + w\<rparr>)"
    "unread (b\<lparr>readcount := readcount b + w\<rparr>) = drop (nat w) (unread b)"
proof -
  have n: "nat (readcount b + w) = nat w + nat (readcount b)"
    "nat w \<le> nat (cursize b) - nat (readcount b)"
    using assms(2) by (simp add: nat_add_distrib cache_okD(1) [OF assms(1)])
      (use assms(3) cache_okD(1) [OF assms(1)] in \<open>simp add: nat_diff_distrib [symmetric]\<close>)
  show "bytes_at (readcount b) w (data b) = take (nat w) (unread b)"
    using n(2) by (simp add: bytes_at_def unread_def content_def drop_take min_absorb1)
  show "cache_ok (b\<lparr>readcount := readcount b + w\<rparr>)" using assms by (simp add: cache_ok_def)
  show "unread (b\<lparr>readcount := readcount b + w\<rparr>) = drop (nat w) (unread b)"
    using n(1) by (simp add: unread_def content_def)
qed

lemma cache_fill:
  assumes "cache_ok b" "length d = 1200" "0 \<le> free" "free \<le> n" "n \<le> 1200"
  obtains b' where "MSG_Clear b = Inr b'"
    "cache_ok (b'\<lparr>cursize := n - free, data := blit 0 (bytes_at free (n - free) d) (data b')\<rparr>)"
    "unread (b'\<lparr>cursize := n - free, data := blit 0 (bytes_at free (n - free) d) (data b')\<rparr>) =
       drop (nat free) (take (nat n) d)"
proof -
  let ?b = "b\<lparr>cursize := 0, overflowed := False, bitpos := 0, readcount := 0\<rparr>"
  have "MSG_Clear b = Inr ?b" using assms(1) by (simp add: MSG_Clear_def cache_ok_def)
  moreover have "bytes_at free (n - free) d = drop (nat free) (take (nat n) d)"
    using assms(3,4) by (simp add: bytes_at_def drop_take nat_diff_distrib)
  moreover have "length (drop (nat free) (take (nat n) d)) = nat (n - free)"
    using assms by (simp add: nat_diff_distrib)
  ultimately show ?thesis
    using that [of ?b] assms by (simp add: cache_ok_def unread_def content_def blit_eq)
qed

lemma receive_loop_ok:
  "rx_ok rx F D \<Longrightarrow> 0 \<le> i \<Longrightarrow> cache_ok b \<Longrightarrow> int (length out) \<le> len \<Longrightarrow>
   (unread b \<noteq> [] \<Longrightarrow> int (length out) = len) \<Longrightarrow>
   D @ out @ unread b = concat (take (nat (fd_sequence rx + i)) F) \<Longrightarrow>
   \<forall>j. i \<le> j \<and> j < i + int n \<longrightarrow> fr_ack (frag_at rx (fd_sequence rx + j)) = fd_sequence rx + j \<Longrightarrow>
   frags_ok F \<Longrightarrow> fd_sequence rx + i \<le> int (length F) \<Longrightarrow>
   \<exists>i' out' b'. receive_loop n i len out (rx\<lparr>fd_fragmentbuffer := b\<rparr>) =
       Inr (i', out', rx\<lparr>fd_fragmentbuffer := b'\<rparr>) \<and>
     i \<le> i' \<and> i' \<le> i + int n \<and> cache_ok b' \<and> int (length out') \<le> len \<and> fd_sequence rx + i' \<le> int (length F) \<and>
     D @ out' @ unread b' = concat (take (nat (fd_sequence rx + i')) F)"
proof (induction n arbitrary: i out b)
  case 0
  then show ?case by (intro exI [of _ i] exI [of _ out] exI [of _ b]) simp
next
  case (Suc n)
  let ?rx = "rx\<lparr>fd_fragmentbuffer := b\<rparr>" and ?s = "fd_sequence rx"
  note X = rx_okD [OF Suc.prems(1)]
  show ?case
  proof (cases "int (length out) < len")
    case False
    then show ?thesis using Suc.prems
      by (intro exI [of _ i] exI [of _ out] exI [of _ b]) simp
  next
    case True
    then have u0: "unread b = []" using Suc.prems(5) by auto
    let ?f = "frag_at rx (?s + i)" and ?free = "len - int (length out)"
    let ?g = "F ! nat (?s + i)"
    have at: "frag_at ?rx k = frag_at rx k" for k by (simp add: frag_at_def)
    have "fr_ack ?f = ?s + i" using Suc.prems(7) by simp
    then have h: "?s + i < int (length F)" "holds ?f ?g"
      using rx_holds [OF Suc.prems(1), of "?s + i"] X(5) Suc.prems(2) by simp_all
    have lg: "length ?g \<le> 1200" using Suc.prems(8) h(1) X(5) Suc.prems(2) by (simp add: frags_ok_def)
    have fl: "fr_len ?f = int (length ?g)" "take (length ?g) (fr_data ?f) = ?g"
      using h(2) by (simp_all add: holds_def)
    have next_frag: "concat (take (nat (?s + (i + 1))) F) = concat (take (nat (?s + i)) F) @ ?g"
    proof -
      have "nat (?s + (i + 1)) = Suc (nat (?s + i))" "nat (?s + i) < length F"
        using X(5) Suc.prems(2) h(1) by simp_all
      then show ?thesis by (simp add: take_Suc_conv_app_nth)
    qed
    have rng: "\<forall>j. i + 1 \<le> j \<and> j < i + 1 + int n \<longrightarrow> fr_ack (frag_at rx (?s + j)) = ?s + j"
      using Suc.prems(7) by auto
    show ?thesis
    proof (cases "fr_len ?f < ?free")
      case less: True
      have "receive_loop (Suc n) i len out ?rx = receive_loop n (i + 1) len (out @ ?g) ?rx"
        using True less fl lg by (simp add: at Let_def MAX_FRAGMENT_SIZE_def)
      moreover have "D @ (out @ ?g) @ unread b = concat (take (nat (?s + (i + 1))) F)"
        using Suc.prems(6) u0 next_frag by simp
      ultimately show ?thesis
        using Suc.IH [of "i + 1" b "out @ ?g"] Suc.prems(1-3,8) less fl u0 rng h(1) by auto
    next
      case False
      then have fr: "0 \<le> ?free" "?free \<le> int (length ?g)" using True fl by simp_all
      have cell: "length (fr_data ?f) = 1200" by (rule frag_at_cells [OF X(1,2)])
      obtain b' where cl: "MSG_Clear b = Inr b'"
        and nb: "cache_ok (b'\<lparr>cursize := int (length ?g) - ?free,
            data := blit 0 (bytes_at ?free (int (length ?g) - ?free) (fr_data ?f)) (data b')\<rparr>)"
          "unread (b'\<lparr>cursize := int (length ?g) - ?free,
            data := blit 0 (bytes_at ?free (int (length ?g) - ?free) (fr_data ?f)) (data b')\<rparr>) =
           drop (nat ?free) (take (nat (int (length ?g))) (fr_data ?f))"
        using cache_fill [OF Suc.prems(3) cell fr] lg by auto
      define b1 where "b1 = b'\<lparr>cursize := int (length ?g) - ?free,
            data := blit 0 (bytes_at ?free (int (length ?g) - ?free) (fr_data ?f)) (data b')\<rparr>"
      have ub: "unread b1 = drop (nat ?free) ?g" "cache_ok b1" using nb fl(2) by (simp_all add: b1_def)
      let ?out = "out @ take (nat ?free) (fr_data ?f)"
      have tk: "take (nat ?free) (fr_data ?f) = take (nat ?free) ?g"
      proof -
        have "take (nat ?free) ?g = take (nat ?free) (take (length ?g) (fr_data ?f))" using fl(2) by simp
        then show ?thesis using fr(2) by (simp add: min_def split: if_splits)
      qed
      have "nat ?free \<le> length ?g" using fr(2) by (simp only: nat_le_iff)
      then have "length (take (nat ?free) ?g) = nat ?free" by simp
      then have lo: "int (length ?out) = len" using True by (simp only: tk length_append)
      have "receive_loop (Suc n) i len out ?rx = receive_loop n (i + 1) len ?out (rx\<lparr>fd_fragmentbuffer := b1\<rparr>)"
        using True False fl(1) lg cl by (simp add: at Let_def MAX_FRAGMENT_SIZE_def b1_def)
      moreover have "D @ ?out @ unread b1 = concat (take (nat (?s + (i + 1))) F)"
        using Suc.prems(6) u0 next_frag tk ub(1) by simp
      ultimately show ?thesis
        using Suc.IH [of "i + 1" b1 ?out] Suc.prems(1,2,8) lo ub(2) rng h(1) by auto
    qed
  qed
qed

lemma receive_ok:
  assumes rx: "rx_ok (rxwindow c) F D" and F: "frags_ok F" and len: "0 \<le> len"
  obtains out c' where "ReliableMessageReceive c len = Inr (out, c')" "rx_ok (rxwindow c') F (D @ out)"
    "fd_sequence (rxwindow c) \<le> fd_sequence (rxwindow c')" "txwindow c' = txwindow c"
    "int (length out) \<le> len" "rm_remoteAddress c' = rm_remoteAddress c" "rm_qport c' = rm_qport c"
proof -
  let ?rx = "rxwindow c"
  let ?b = "fd_fragmentbuffer ?rx" and ?s = "fd_sequence ?rx"
  note X = rx_okD [OF rx]
  have b: "0 \<le> readcount ?b" "readcount ?b \<le> cursize ?b" "cursize ?b \<le> 1200"
    using X(8) by (simp_all add: cache_ok_def)
  have cached: "s32 (cursize ?b - readcount ?b) = cursize ?b - readcount ?b" using b by simp
  define w where "w = (if cursize ?b - readcount ?b < len then cursize ?b - readcount ?b else len)"
  have w: "0 \<le> w" "w \<le> cursize ?b - readcount ?b" "w \<le> len" using len b by (auto simp: w_def)
  have srd: "s32 (readcount ?b + w) = readcount ?b + w" using b w by simp
  let ?b1 = "?b\<lparr>readcount := readcount ?b + w\<rparr>"
  note C = cache_unread [OF X(8) w(1,2)]
  have lu: "int (length (unread ?b)) = cursize ?b - readcount ?b"
  proof -
    have "length (unread ?b) = min 1200 (nat (cursize ?b)) - nat (readcount ?b)"
      using X(8) by (simp add: unread_def content_def cache_ok_def)
    also have "min 1200 (nat (cursize ?b)) = nat (cursize ?b)" using b by simp
    finally show ?thesis using b by (simp add: of_nat_diff nat_mono)
  qed
  define avail where "avail = ack_run (nat (fd_windowsize ?rx)) 0 ?rx"
  have av: "0 \<le> avail" "avail \<le> 4"
    "\<forall>j. 0 \<le> j \<and> j < avail \<longrightarrow> fr_ack (frag_at ?rx (?s + j)) = ?s + j"
    using ack_run_hits [of 0 "nat (fd_windowsize ?rx)" ?rx] X(10) by (auto simp: avail_def add.commute)
  have sa: "s32 (ReliableMessagesGetAcknowledge ?rx - ?s) = avail"
    using av(1,2) by (simp add: ReliableMessagesGetAcknowledge_def avail_def [symmetric])
  let ?out = "take (nat w) (unread ?b)"
  have lo: "int (length ?out) = w" using w lu by simp
  obtain i' out' b' where L: "receive_loop (nat avail) 0 len ?out (?rx\<lparr>fd_fragmentbuffer := ?b1\<rparr>) =
      Inr (i', out', ?rx\<lparr>fd_fragmentbuffer := b'\<rparr>)" "0 \<le> i'" "i' \<le> 0 + int (nat avail)" "cache_ok b'"
    "int (length out') \<le> len" "?s + i' \<le> int (length F)"
    "D @ out' @ unread b' = concat (take (nat (?s + i')) F)"
  proof -
    have full: "unread ?b1 \<noteq> [] \<Longrightarrow> int (length ?out) = len"
      using C(3) lu lo w by (auto simp: w_def split: if_splits)
    have "D @ ?out @ unread ?b1 = concat (take (nat (?s + 0)) F)"
      using X(9) C(3) by simp
    then show ?thesis
      using receive_loop_ok [OF rx order_refl C(2) _ full, where n = "nat avail"] that av F X(6) w(3) lo
      by auto
  qed
  have si: "s32 (?s + i') = ?s + i'" using L(2,6) X(5) F by (simp add: frags_ok_def)
  let ?c = "c\<lparr>rxwindow := ?rx\<lparr>fd_fragmentbuffer := b', fd_sequence := ?s + i',
      fd_selackoffset := (if 1 < i' then 1 else fd_selackoffset ?rx)\<rparr>\<rparr>"
  have nw: "\<not> w < 0" using w by simp
  have "ReliableMessageReceive c len = Inr (out', ?c)"
    unfolding ReliableMessageReceive_def Let_def sa cached w_def [symmetric] if_not_P [OF nw] srd C(1) L(1)
    by (simp add: si)
  moreover have "rx_ok (rxwindow ?c) F (D @ out')"
    using X L(2,4,6,7) by (auto simp: rx_ok_def frag_ring_def rx_sender_ok_def)
  ultimately show ?thesis using that [of out' ?c] L(2,5) by simp
qed

section \<open>Receiving a datagram\<close>

lemma mark_acked_ok: "tx_ok tx F \<Longrightarrow> 0 \<le> k \<Longrightarrow> tx_ok (mark_acked k tx) F"
proof -
  assume tx: "tx_ok tx F" and k: "0 \<le> k"
  note T = tx_okD [OF tx]
  let ?f = "(frag_at tx k)\<lparr>fr_ack := s32 k\<rparr>"
  have m: "mark_acked k tx = set_frag k ?f tx"
    by (simp add: mark_acked_def set_frag_def frag_at_def)
  have at: "holds (frag_at (set_frag k ?f tx) j) b = holds (frag_at tx j) b" for j b
  proof (cases "j mod fd_bufferlen tx = k mod fd_bufferlen tx")
    case True
    then show ?thesis using frag_slot [OF T(1), of k]
      by (simp add: frag_at_def set_frag_def idx_put_same holds_def)
  next
    case False
    then show ?thesis using frag_slot(1) [OF T(1)]
      by (simp add: frag_at_def set_frag_def idx_put_other)
  qed
  have "cells_ok (fd_fragments (set_frag k ?f tx))"
    using frag_at_cells [OF T(1,2), of k] by (intro cells_ok_set_frag [OF T(2)]) simp
  then show "tx_ok (mark_acked k tx) F"
    using fragring.put_inv [OF T(1) k, of ?f] T unfolding m tx_ok_def at by simp
qed

lemma mark_acked_fields:
  "fd_acknowledge (mark_acked k tx) = fd_acknowledge tx" "fd_sequence (mark_acked k tx) = fd_sequence tx"
  by (simp_all add: mark_acked_def)

lemma mark_range_ok:
  "tx_ok tx F \<Longrightarrow> 0 \<le> k \<Longrightarrow> tx_ok (mark_range n k tx) F \<and>
   fd_acknowledge (mark_range n k tx) = fd_acknowledge tx"
proof (induction n arbitrary: k tx)
  case 0
  then show ?case by simp
next
  case (Suc n)
  then show ?case
    using Suc.IH [OF mark_acked_ok [OF Suc.prems], of "u32 (k + 1)"] u32_range [of "k + 1"]
    by (simp add: mark_acked_fields)
qed

lemma read_sacks_ok:
  "tx_ok tx F \<Longrightarrow> readable m (sack_bytes ss) \<Longrightarrow>
   \<exists>fine tx' m'. read_sacks (length ss) a tx m = (fine, tx', m') \<and> tx_ok tx' F \<and>
     fd_acknowledge tx' = fd_acknowledge tx \<and> (fine \<longrightarrow> m' = msg_adv (int (4 * length ss)) m)"
proof (induction ss arbitrary: tx m)
  case Nil
  then show ?case by (auto simp: msg_adv_def)
next
  case (Cons p ss)
  obtain s l where p: "p = (s, l)" by force
  have r: "readable m (le_bytes 2 s)" "readable (msg_adv 2 m) (le_bytes 2 l)"
    "readable (msg_adv 4 m) (sack_bytes ss)"
    using Cons.prems(2) by (simp_all add: p readable_append msg_adv_adv del: le_bytes.simps)
  let ?st = "u32 (s16 s + a)" and ?len = "u32 (s16 l)"
  let ?tx = "mark_range (nat ?len) ?st tx"
  have mk: "tx_ok ?tx F" "fd_acknowledge ?tx = fd_acknowledge tx"
    using mark_range_ok [OF Cons.prems(1), of ?st "nat ?len"] u32_range by simp_all
  have rd: "MSG_ReadShort m = (s16 s, msg_adv 2 m)" "MSG_ReadShort (msg_adv 2 m) = (s16 l, msg_adv 4 m)"
    using ReadShort_readable [OF r(1)] ReadShort_readable [OF r(2)] by (simp_all add: msg_adv_adv)
  have step: "read_sacks (length (p # ss)) a tx m =
      (if u32 (a + fd_windowsize tx) < u32 (?st + ?len) then (False, tx, msg_adv 4 m)
       else read_sacks (length ss) a ?tx (msg_adv 4 m))"
    by (simp add: rd Let_def)
  show ?case
    using Cons.IH [OF mk(1) r(3)] mk(2) Cons.prems(1) unfolding step
    by (auto simp: msg_adv_adv algebra_simps)
qed

lemma acknowledge_to_ok:
  assumes tx: "tx_ok (txwindow c) F" and mem: "mem_law malloc" and a: "a \<le> int (length F)"
  shows "tx_ok (txwindow (acknowledge_to malloc a c)) F"
    "rxwindow (acknowledge_to malloc a c) = rxwindow c"
    "fd_acknowledge (txwindow (acknowledge_to malloc a c)) = max (fd_acknowledge (txwindow c)) a"
    "rm_remoteAddress (acknowledge_to malloc a c) = rm_remoteAddress c"
    "rm_qport (acknowledge_to malloc a c) = rm_qport c"
proof -
  let ?tx = "txwindow c"
  note T = tx_okD [OF tx]
  have "tx_ok (txwindow (acknowledge_to malloc a c)) F \<and>
      rxwindow (acknowledge_to malloc a c) = rxwindow c \<and>
      fd_acknowledge (txwindow (acknowledge_to malloc a c)) = max (fd_acknowledge ?tx) a \<and>
      rm_remoteAddress (acknowledge_to malloc a c) = rm_remoteAddress c \<and>
      rm_qport (acknowledge_to malloc a c) = rm_qport c"
  proof (cases "fd_acknowledge ?tx < a")
    case False
    then show ?thesis using tx by (simp add: acknowledge_to_def)
  next
    case True
    let ?c1 = "set_tx c (?tx\<lparr>fd_acknowledge := a\<rparr>)"
    have c1: "tx_ok (txwindow ?c1) F" "fd_acknowledge (txwindow ?c1) = a" "rxwindow ?c1 = rxwindow c"
      "rm_remoteAddress ?c1 = rm_remoteAddress c" "rm_qport ?c1 = rm_qport c"
      using T a True by (auto simp: tx_ok_def set_tx_def frag_ring_def frag_at_def)
    obtain r c2 where c2: "ReliableMessageChangeSendBufferSize malloc ?c1 DEFAULT_BUFFER_SIZE = (r, c2)"
      by force
    have "DEFAULT_BUFFER_SIZE < 2 ^ 31" by (simp add: DEFAULT_BUFFER_SIZE_def)
    note CH = change_size_ok [OF c1(1) mem this c2]
    have "acknowledge_to malloc a c = (if s32 (fd_sequence ?tx - a) < DEFAULT_BUFFER_SIZE \<and>
        DEFAULT_BUFFER_SIZE < fd_bufferlen ?tx then c2 else ?c1)"
      using True c2 by (simp add: acknowledge_to_def Let_def)
    then show ?thesis using c1 CH True by (simp add: keeps_def)
  qed
  then show "tx_ok (txwindow (acknowledge_to malloc a c)) F"
    "rxwindow (acknowledge_to malloc a c) = rxwindow c"
    "fd_acknowledge (txwindow (acknowledge_to malloc a c)) = max (fd_acknowledge ?tx) a"
    "rm_remoteAddress (acknowledge_to malloc a c) = rm_remoteAddress c"
    "rm_qport (acknowledge_to malloc a c) = rm_qport c"
    by blast+
qed

definition dgram_body :: "dgram \<Rightarrow> bytes" where
  "dgram_body d =
     le_bytes 4 (dg_seq d) @ le_bytes 4 (dg_ack d) @
     [word_of_int (int (length (dg_sacks d)))] @ sack_bytes (dg_sacks d) @
     le_bytes 2 (dg_window d) @ le_bytes 2 (int (length (dg_payload d))) @ dg_payload d"

lemma count_received_ok [simp]:
  "rx_ok (count_received m rx) G D = rx_ok rx G D"
  "fd_sequence (count_received m rx) = fd_sequence rx"
  by (simp add: count_received_def) (simp add: count_received_def map_rate_def)

lemma fragments_map_rate [simp]: "fd_fragments (map_rate f fd) = fd_fragments fd"
  "fd_sequence (map_rate f fd) = fd_sequence fd"
  by (simp_all add: map_rate_def)

lemma store_fragment_ok:
  assumes rx: "rx_ok rx G D" and i: "0 \<le> i" "i < int (length G)" "G ! nat i = b" "length b \<le> 1200"
    and m: "readable m b"
  shows "store_fragment i (int (length b)) m rx = (rx', m') \<Longrightarrow> rx_ok rx' G D \<and> fd_sequence rx' = fd_sequence rx"
proof -
  note X = rx_okD [OF rx]
  let ?f = "(frag_at rx i)\<lparr>fr_data := blit 0 b (fr_data (frag_at rx i)), fr_len := int (length b), fr_ack := i\<rparr>"
  have cell: "length (fr_data (frag_at rx i)) = 1200" by (rule frag_at_cells [OF X(1,2)])
  have "holds ?f b" using i(4) cell by (simp add: holds_def blit_eq)
  then have new: "slot_ok G 32 (nat (i mod 32)) ?f" using i by (simp add: slot_ok_def)
  have slots: "slot_ok G 32 k (fd_fragments (set_frag i ?f rx) ! k)" if "k < 32" for k
  proof (cases "k = nat (i mod 32)")
    case True
    then show ?thesis using new that X(1,3) by (simp add: set_frag_def put_nonneg frag_ring_def)
  next
    case False
    then show ?thesis using X(7) [OF that] X(3) by (simp add: set_frag_def put_nonneg)
  qed
  have "rx_ok (set_frag i ?f rx) G D"
    using X slots fragring.put_inv [OF X(1) i(1), of ?f] cells_ok_set_frag [OF X(2), of ?f i] cell
    by (simp add: rx_ok_def rx_sender_ok_def)
  moreover assume "store_fragment i (int (length b)) m rx = (rx', m')"
  moreover have "MSG_ReadData (length b) m = (b, msg_adv (int (length b)) m)"
    by (rule ReadData_readable [OF m])
  ultimately show "rx_ok rx' G D \<and> fd_sequence rx' = fd_sequence rx"
    by (auto simp: store_fragment_def Let_def)
qed

definition rm_same :: "reliable \<Rightarrow> reliable \<Rightarrow> bool" where
  "rm_same c c' \<longleftrightarrow> rm_remoteAddress c' = rm_remoteAddress c \<and> rm_qport c' = rm_qport c"

lemma receive_next_ok:
  assumes tx: "tx_ok (txwindow c) F" and rx: "rx_ok (rxwindow c) G D" and mem: "mem_law malloc"
    and G: "frags_ok G" and d: "dgram_ok G r d" and r: "r \<le> int (length F)"
    and m: "readable m (dgram_body d)"
    and res: "ReliableMessagesReceiveNextFragment malloc c m = (c', m')"
  shows "tx_ok (txwindow c') F \<and> rx_ok (rxwindow c') G D \<and>
    fd_sequence (rxwindow c') = fd_sequence (rxwindow c) \<and> rm_same c c' \<and>
    fd_acknowledge (txwindow c') \<le> max (fd_acknowledge (txwindow c)) r"
proof -
  let ?seq = "dg_seq d" and ?ack = "dg_ack d" and ?ss = "dg_sacks d" and ?b = "dg_payload d"
  note T = tx_okD [OF tx] and X = rx_okD [OF rx]
  have b: "length ?b \<le> 1200" "- 1 \<le> ?seq" "?seq < 2 ^ 30" "?seq \<noteq> -1 \<Longrightarrow> 0 \<le> ?seq \<and> ?seq < int (length G) \<and> G ! nat ?seq = ?b"
    "0 \<le> ?ack" "?ack \<le> r" "length ?ss \<le> 3"
    using d G by (auto simp: dgram_ok_def frags_ok_def)
  have small: "r \<le> 2 ^ 30" using r tx_okD(3) [OF tx] by (simp add: frags_ok_def)
  let ?m1 = "msg_adv 4 m" and ?m2 = "msg_adv 8 m" and ?m3 = "msg_adv 9 m"
  let ?m4 = "msg_adv (9 + int (4 * length ?ss)) m" and ?m6 = "msg_adv (13 + int (4 * length ?ss)) m"
  let ?m5 = "msg_adv (11 + int (4 * length ?ss)) m"
  have rd: "readable m (le_bytes 4 ?seq)" "readable ?m1 (le_bytes 4 ?ack)"
    "readable ?m2 [word_of_int (int (length ?ss))]" "readable ?m3 (sack_bytes ?ss)"
    "readable ?m4 (le_bytes 2 (dg_window d))" "readable ?m5 (le_bytes 2 (int (length ?b)))"
    "readable ?m6 ?b"
    using m by (simp_all add: dgram_body_def readable_append msg_adv_adv algebra_simps
        del: le_bytes.simps append_Cons)
  have r1: "MSG_ReadLong m = (?seq, ?m1)" "MSG_ReadLong ?m1 = (?ack, ?m2)"
    using ReadLong_readable [OF rd(1)] ReadLong_readable [OF rd(2)] b small by (simp_all add: msg_adv_adv)
  have r3: "MSG_ReadByte ?m2 = (int (length ?ss), ?m3)"
    using ReadByte_readable [OF rd(3)] b(7) by (simp add: msg_adv_adv uint_byte_nat)
  have r5: "MSG_ReadShort ?m4 = (s16 (dg_window d), ?m5)"
    using ReadShort_readable [OF rd(5)] by (simp add: msg_adv_adv algebra_simps)
  have r6: "MSG_ReadShort ?m5 = (int (length ?b), ?m6)"
    using ReadShort_readable [OF rd(6)] b(1) by (simp add: msg_adv_adv algebra_simps)
  define c0 where "c0 = c\<lparr>rxwindow := count_received m (rxwindow c)\<rparr>"
  have c0: "txwindow c0 = txwindow c" "rx_ok (rxwindow c0) G D"
    "fd_sequence (rxwindow c0) = fd_sequence (rxwindow c)" "rm_same c c0"
    using rx by (simp_all add: c0_def rm_same_def)
  obtain fine tx1 m4 where sk: "read_sacks (length ?ss) ?ack (txwindow c) ?m3 = (fine, tx1, m4)"
    "tx_ok tx1 F" "fd_acknowledge tx1 = fd_acknowledge (txwindow c)"
    "fine \<longrightarrow> m4 = msg_adv (int (4 * length ?ss)) ?m3"
    using read_sacks_ok [OF tx rd(4)] by blast
  have m4: "fine \<Longrightarrow> m4 = ?m4" using sk(4) by (simp add: msg_adv_adv algebra_simps)
  define c1 where "c1 = set_tx c0 tx1"
  have c1: "tx_ok (txwindow c1) F" "rx_ok (rxwindow c1) G D" "fd_sequence (rxwindow c1) = fd_sequence (rxwindow c)"
    "rm_same c c1" "fd_acknowledge (txwindow c1) = fd_acknowledge (txwindow c)"
    using c0 sk by (simp_all add: c1_def set_tx_def rm_same_def)
  define c2 where "c2 = acknowledge_to malloc ?ack c1"
  have "?ack \<le> int (length F)" using b(6) r by simp
  note AT = acknowledge_to_ok [OF c1(1) mem this]
  have c2: "tx_ok (txwindow c2) F" "rx_ok (rxwindow c2) G D" "fd_sequence (rxwindow c2) = fd_sequence (rxwindow c)"
    "rm_same c c2" "fd_acknowledge (txwindow c2) \<le> max (fd_acknowledge (txwindow c)) r"
    using AT c1 b(6) by (auto simp: c2_def rm_same_def)
  obtain rx2 m7 where st: "store_fragment ?seq (int (length ?b)) ?m6 (rxwindow c2) = (rx2, m7)" by force
  have rx2: "rx_ok rx2 G D \<and> fd_sequence rx2 = fd_sequence (rxwindow c)" if "?seq \<noteq> -1"
    using store_fragment_ok [OF c2(2) _ _ _ b(1) rd(7) st] b(4) [OF that] c2(3) by simp
  have n3: "u32 (int (length ?ss)) = int (length ?ss)" "\<not> 3 < int (length ?ss)" using b(7) by simp_all
  have fs: "u32 (int (length ?b)) = int (length ?b)" "\<not> MAX_FRAGMENT_SIZE < int (length ?b)"
    using b(1) by (simp_all add: MAX_FRAGMENT_SIZE_def)
  have "c' = c0 \<or> c' = c1 \<or> c' = c2 \<or> (?seq \<noteq> -1 \<and> c' = c2\<lparr>rxwindow := rx2\<rparr>)"
  proof (cases fine)
    case True
    note sk' = sk(1) [unfolded m4 [OF True] eqTrueI [OF True]]
    show ?thesis
      using res unfolding ReliableMessagesReceiveNextFragment_def Let_def r1 prod.case c0_def [symmetric]
        r3 c0(1) n3(1) nat_int sk' if_not_P [OF n3(2)] c1_def [symmetric] r5 r6 fs(1)
        if_not_P [OF fs(2)] c2_def [symmetric] st not_True_eq_False if_False
      by (simp split: if_splits)
  next
    case False
    show ?thesis
      using res unfolding ReliableMessagesReceiveNextFragment_def Let_def r1 prod.case c0_def [symmetric]
        r3 c0(1) n3(1) nat_int sk(1) if_not_P [OF n3(2)] c1_def [symmetric] if_P [OF False]
      by (simp split: if_splits)
  qed
  then show ?thesis using c0 c1 c2 rx2 tx by (auto simp: rm_same_def)
qed

end
