(* ===== verification/ReliableSystem.thy ===== *)
theory ReliableSystem
  imports ReliableSafety
begin

text \<open>
  Two endpoints of the reliable stream and the network between them, as a step relation.
  A datagram put on the wire stays available for ever: it may be delivered at any later
  moment, many times or never, and in any order, so the relation covers loss, duplication,
  delay and reordering.  Side \<open>s\<close> has the peer \<open>\<not> s\<close>.  The ghost fields \<open>accepted\<close> and
  \<open>delivered\<close> collect what \<open>ReliableMessageSend\<close> took and \<open>ReliableMessageReceive\<close> gave.
\<close>

record link =
  ch :: "bool \<Rightarrow> reliable"
  net :: "bool \<Rightarrow> bytes set"
  accepted :: "bool \<Rightarrow> bytes"
  delivered :: "bool \<Rightarrow> bytes"

text \<open>The server reads the sequence word and the port before it hands the packet over.\<close>

definition past_port :: "msg \<Rightarrow> msg" where
  "past_port m = snd (MSG_ReadShort (snd (MSG_ReadLong (MSG_BeginReading m))))"

inductive link_step :: "link \<Rightarrow> link \<Rightarrow> bool" where
  accept: "mem_law malloc \<Longrightarrow> 0 \<le> len \<Longrightarrow> len \<le> int (length indata) \<Longrightarrow>
     fd_sequence (txwindow (ch l s)) + len div 1200 + 1 < 2 ^ 30 \<Longrightarrow>
     ReliableMessageSend malloc (ch l s) indata len = Inr (n, c') \<Longrightarrow>
     link_step l (l\<lparr>ch := (ch l)(s := c'),
       accepted := (accepted l)(s := accepted l s @ take (nat n) indata)\<rparr>)"
| frame: "plain_net env (rm_remoteAddress (ch l s)) \<Longrightarrow> wire io = [] \<Longrightarrow>
     ReliableMessagesFrame env (ch l s) now io = Inr (c', io') \<Longrightarrow>
     link_step l (l\<lparr>ch := (ch l)(s := c'), net := (net l)(s := net l s \<union> fst ` set (wire io'))\<rparr>)"
| arrive: "mem_law malloc \<Longrightarrow> content m \<in> net l (\<not> s) \<Longrightarrow> msg_ok m \<Longrightarrow>
     ReliableMessagesReceiveNextFragment malloc (ch l s) (past_port m) = (c', m') \<Longrightarrow>
     link_step l (l\<lparr>ch := (ch l)(s := c')\<rparr>)"
| consume: "0 \<le> len \<Longrightarrow> ReliableMessageReceive (ch l s) len = Inr (out, c') \<Longrightarrow>
     link_step l (l\<lparr>ch := (ch l)(s := c'), delivered := (delivered l)(s := delivered l s @ out)\<rparr>)"

inductive_cases link_stepE [consumes 1, case_names accept frame arrive consume]: "link_step l l'"

definition link_start :: "link \<Rightarrow> bool" where
  "link_start l \<longleftrightarrow> (\<forall>s. \<exists>rxmem txmem qport sock adr. mem_law rxmem \<and> mem_law txmem \<and>
       ReliableMessageSetup True rxmem txmem qport sock adr = Some (ch l s) \<and>
       adr_type adr \<notin> {NA_LOOPBACK, NA_BAD}) \<and>
     (\<forall>s. net l s = {} \<and> accepted l s = [] \<and> delivered l s = [])"

definition link_inv :: "(bool \<Rightarrow> bytes list) \<Rightarrow> link \<Rightarrow> bool" where
  "link_inv F l \<longleftrightarrow> (\<forall>s. tx_ok (txwindow (ch l s)) (F s) \<and>
     rx_ok (rxwindow (ch l s)) (F (\<not> s)) (delivered l s) \<and> concat (F s) = accepted l s \<and>
     fd_acknowledge (txwindow (ch l s)) \<le> fd_sequence (rxwindow (ch l (\<not> s))) \<and>
     (\<forall>bs \<in> net l s. \<exists>q d. bs = encode_dgram q d \<and>
        dgram_ok (F s) (fd_sequence (rxwindow (ch l s))) d))"

lemma link_invD:
  assumes "link_inv F l"
  shows "tx_ok (txwindow (ch l s)) (F s)" "rx_ok (rxwindow (ch l s)) (F (\<not> s)) (delivered l s)"
    "concat (F s) = accepted l s" "frags_ok (F s)"
    "fd_acknowledge (txwindow (ch l s)) \<le> fd_sequence (rxwindow (ch l (\<not> s)))"
    "bs \<in> net l s \<Longrightarrow> \<exists>q d. bs = encode_dgram q d \<and> dgram_ok (F s) (fd_sequence (rxwindow (ch l s))) d"
    "fd_sequence (rxwindow (ch l s)) \<le> int (length (F (\<not> s)))"
  using assms tx_okD(3) rx_okD(6) unfolding link_inv_def by blast+

text \<open>A step of side \<open>s\<close> keeps the invariant if it keeps the part about \<open>s\<close>.\<close>

lemma dgram_ok_mono: "dgram_ok F r d \<Longrightarrow> r \<le> r' \<Longrightarrow> dgram_ok (F @ G) r' d"
  by (auto simp: dgram_ok_def nth_append)

lemma rx_ok_more: "rx_ok rx F D \<Longrightarrow> rx_ok rx (F @ G) D"
proof -
  assume r: "rx_ok rx F D"
  have "slot_ok (F @ G) 32 k f" if "slot_ok F 32 k f" for k f
    using that by (auto simp: slot_ok_def nth_append)
  then show "rx_ok rx (F @ G) D" using r by (auto simp: rx_ok_def)
qed

lemma link_inv_step:
  assumes inv: "link_inv F l"
    and l': "ch l' = (ch l)(s := c)" "net l' = (net l)(s := net l s \<union> N)"
      "accepted l' = (accepted l)(s := accepted l s @ concat G)"
      "delivered l' = (delivered l)(s := delivered l s @ out)"
    and tx: "tx_ok (txwindow c) (F s @ G)" and rx: "rx_ok (rxwindow c) (F (\<not> s)) (delivered l s @ out)"
    and seq: "fd_sequence (rxwindow (ch l s)) \<le> fd_sequence (rxwindow c)"
    and ack: "fd_acknowledge (txwindow c) \<le> fd_sequence (rxwindow (ch l (\<not> s)))"
    and N: "\<forall>bs \<in> N. \<exists>q d. bs = encode_dgram q d \<and> dgram_ok (F s) (fd_sequence (rxwindow (ch l s))) d"
  shows "link_inv (F(s := F s @ G)) l'"
  unfolding link_inv_def
proof
  fix t
  note I = link_invD [OF inv]
  let ?F = "F(s := F s @ G)"
  have dg: "\<exists>q d. bs = encode_dgram q d \<and> dgram_ok (?F t) (fd_sequence (rxwindow (ch l' t))) d"
    if "bs \<in> net l' t" for bs
  proof -
    have "\<exists>q d. bs = encode_dgram q d \<and> dgram_ok (F t) (fd_sequence (rxwindow (ch l t))) d"
      using that I(6) N by (cases "t = s") (auto simp: l')
    then show ?thesis
      using dgram_ok_mono [of "F t" _ _ _ "if t = s then G else []"] seq
      by (cases "t = s") (auto simp: l', fastforce+)
  qed
  show "tx_ok (txwindow (ch l' t)) (?F t) \<and> rx_ok (rxwindow (ch l' t)) (?F (\<not> t)) (delivered l' t) \<and>
     concat (?F t) = accepted l' t \<and>
     fd_acknowledge (txwindow (ch l' t)) \<le> fd_sequence (rxwindow (ch l' (\<not> t))) \<and>
     (\<forall>bs \<in> net l' t. \<exists>q d. bs = encode_dgram q d \<and>
        dgram_ok (?F t) (fd_sequence (rxwindow (ch l' t))) d)"
  proof (cases "t = s")
    case True
    then show ?thesis using tx rx I(3) ack dg by (auto simp: l')
  next
    case False
    then have "(\<not> t) = s" by auto
    moreover have "fd_acknowledge (txwindow (ch l t)) \<le> fd_sequence (rxwindow c)"
      using I(5) [of t] seq \<open>(\<not> t) = s\<close> by simp
    moreover have "rx_ok (rxwindow (ch l t)) (F s @ G) (delivered l t)"
      using rx_ok_more [OF I(2) [of t]] \<open>(\<not> t) = s\<close> by simp
    ultimately show ?thesis using False I(1,3) dg by (auto simp: l')
  qed
qed

lemma encode_body: "encode_dgram q d = (le_bytes 4 0xfffffff0 @ le_bytes 2 q) @ dgram_body d"
  by (simp add: encode_dgram_def dgram_body_def del: le_bytes.simps)

lemma past_port_readable:
  assumes "msg_ok m" "content m = encode_dgram q d"
  shows "readable (past_port m) (dgram_body d)"
proof -
  let ?b = "MSG_BeginReading m"
  have "readable ?b (encode_dgram q d)"
    using begin_reading [OF assms(1)] assms(2) by (auto simp: readable_def)
  then have r: "readable ?b (le_bytes 4 0xfffffff0)" "readable (msg_adv 4 ?b) (le_bytes 2 q)"
    "readable (msg_adv 2 (msg_adv 4 ?b)) (dgram_body d)"
    by (simp_all add: encode_body readable_append del: le_bytes.simps)
  then show ?thesis
    unfolding past_port_def ReadLong_readable [OF r(1)] snd_conv ReadShort_readable [OF r(2)] by simp
qed

lemma link_step_inv:
  assumes "link_step l l'" "link_inv F l"
  shows "\<exists>F'. link_inv F' l'"
  using assms(1)
proof (cases rule: link_stepE)
  case (accept malloc len indata s n c')
  note I = link_invD [OF assms(2)]
  have "int (length (F s)) + len div 1200 + 1 \<le> 2 ^ 30 - 1"
    using accept(5) tx_okD(4) [OF I(1) [of s]] by simp
  then obtain G where G: "tx_ok (txwindow c') (F s @ G)" "concat G = take (nat n) indata"
    "keeps (ch l s) c'" "rxwindow c' = rxwindow (ch l s)"
    using send_ok [OF I(1) [of s] accept(2-4)] accept(6) by (metis Pair_inject sum.inject(2))
  have "link_inv (F(s := F s @ G)) l'"
    by (rule link_inv_step [OF assms(2), of l' s c' "{}" G "[]"])
      (use accept(1) G I(2) [of s] I(5) [of s] in \<open>simp_all add: keeps_def\<close>)
  then show ?thesis by blast
next
  case (frame env s io now c' io')
  note I = link_invD [OF assms(2)]
  obtain ds where D: "io' = sends (rm_qport (ch l s)) (rm_remoteAddress (ch l s)) ds io"
    "tx_ok (txwindow c') (F s)" "rx_ok (rxwindow c') (F (\<not> s)) (delivered l s)" "keeps (ch l s) c'"
    "\<forall>d \<in> set ds. dgram_ok (F s) (fd_sequence (rxwindow (ch l s))) d"
    using frame_sends [OF I(1) [of s] I(2) [of s] frame(2), of now io] frame(4)
    by (metis Pair_inject sum.inject(2))
  have "link_inv (F(s := F s @ [])) l'"
    by (rule link_inv_step [OF assms(2), of l' s c' "fst ` set (wire io')" "[]" "[]"])
      (use frame(1,3) D I(5) [of s] in \<open>auto simp: keeps_def sends_def\<close>)
  then show ?thesis by blast
next
  case (arrive malloc m s c' m')
  note I = link_invD [OF assms(2)]
  obtain q d where d: "content m = encode_dgram q d"
    "dgram_ok (F (\<not> s)) (fd_sequence (rxwindow (ch l (\<not> s)))) d"
    using I(6) [OF arrive(3)] by blast
  have "fd_sequence (rxwindow (ch l (\<not> s))) \<le> int (length (F s))" using I(7) [of "\<not> s"] by simp
  note R = receive_next_ok [OF I(1) [of s] I(2) [of s] arrive(2) I(4) d(2) this
      past_port_readable [OF arrive(4) d(1)] arrive(5)]
  have "link_inv (F(s := F s @ [])) l'"
    by (rule link_inv_step [OF assms(2), of l' s c' "{}" "[]" "[]"])
      (use arrive(1) R I(5) [of s] in auto)
  then show ?thesis by blast
next
  case (consume len s out c')
  note I = link_invD [OF assms(2)]
  have R: "rx_ok (rxwindow c') (F (\<not> s)) (delivered l s @ out)"
    "fd_sequence (rxwindow (ch l s)) \<le> fd_sequence (rxwindow c')" "txwindow c' = txwindow (ch l s)"
    using receive_ok [OF I(2) [of s] I(4) consume(2)] consume(3) by (metis Pair_inject sum.inject(2))+
  have "link_inv (F(s := F s @ [])) l'"
    by (rule link_inv_step [OF assms(2), of l' s c' "{}" "[]" out])
      (use consume(1) R I(1) [of s] I(5) [of s] in auto)
  then show ?thesis by blast
qed

lemma link_start_inv:
  assumes "link_start l"
  shows "link_inv (\<lambda>_. []) l"
proof -
  have "tx_ok (txwindow (ch l s)) [] \<and> rx_ok (rxwindow (ch l s)) [] [] \<and>
      fd_acknowledge (txwindow (ch l s)) = 0 \<and> fd_sequence (rxwindow (ch l s)) = 0" for s
  proof -
    obtain rxmem txmem qport sock adr where mem: "mem_law rxmem" "mem_law txmem"
      and set: "ReliableMessageSetup True rxmem txmem qport sock adr = Some (ch l s)"
      using spec [OF conjunct1 [OF assms [unfolded link_start_def]], of s] by blast
    obtain rm tm where m: "rxmem 32 = Some rm" "txmem 32 = Some tm"
      using set by (auto simp: ReliableMessageSetup_def DEFAULT_BUFFER_SIZE_def split: option.splits)
    have len: "length rm = 32" "length tm = 32" "cells_ok tm"
      using mem m by (auto simp: mem_law_def dest!: spec)
    have w: "txwindow (ch l s) = setup_window 20 tm"
      "rxwindow (ch l s) = setup_window 4 (replicate 32 void_fragment)"
    proof -
      have "ch l s = the (ReliableMessageSetup True rxmem txmem qport sock adr)" by (simp add: set)
      then show "txwindow (ch l s) = setup_window 20 tm"
        "rxwindow (ch l s) = setup_window 4 (replicate 32 void_fragment)"
        by (simp_all add: ReliableMessageSetup_def DEFAULT_BUFFER_SIZE_def m len)
    qed
    have "slot_ok [] 32 k (replicate 32 void_fragment ! k)" if "k < 32" for k
      using that by (simp add: slot_ok_def void_fragment_def)
    moreover have "cache_ok (MSG_Init (replicate 1200 0) MAX_FRAGMENT_SIZE)"
      "unread (MSG_Init (replicate 1200 0) MAX_FRAGMENT_SIZE) = []"
      by (simp_all add: cache_ok_def MSG_Init_def unread_def content_def)
    ultimately show ?thesis
      unfolding w using len
      by (auto simp: tx_ok_def rx_ok_def setup_window_def frag_ring_def frags_ok_def rx_sender_ok_def
          DEFAULT_BUFFER_SIZE_def cells_ok_def void_fragment_def)
  qed
  then show ?thesis using assms by (simp add: link_inv_def link_start_def)
qed

lemma link_reachable_inv:
  assumes "link_step\<^sup>*\<^sup>* l0 l" "link_start l0"
  shows "\<exists>F. link_inv F l"
  using assms
proof (induction rule: rtranclp_induct)
  case base
  then show ?case using link_start_inv by blast
next
  case (step y z)
  then show ?case using link_step_inv by blast
qed

text \<open>The bytes a sender still holds from fragment \<open>lo\<close> on.\<close>

definition frag_bytes :: "fragment \<Rightarrow> bytes" where
  "frag_bytes f = take (nat (fr_len f)) (fr_data f)"

definition held_from :: "int \<Rightarrow> framedata \<Rightarrow> bytes" where
  "held_from lo tx = concat (map (\<lambda>i. frag_bytes (frag_at tx i)) [lo..fd_sequence tx - 1])"

lemma held_from_rest:
  assumes "tx_ok tx F" "fd_acknowledge tx \<le> lo" "lo \<le> int (length F)"
  shows "held_from lo tx = concat (drop (nat lo) F)"
proof -
  note T = tx_okD [OF assms(1)]
  have lo: "0 \<le> lo" using T(5) assms(2) by simp
  have "map (\<lambda>i. frag_bytes (frag_at tx i)) [lo..fd_sequence tx - 1] = drop (nat lo) F"
  proof (rule nth_equalityI)
    show "length (map (\<lambda>i. frag_bytes (frag_at tx i)) [lo..fd_sequence tx - 1]) = length (drop (nat lo) F)"
      using T(4) lo by simp
    fix k assume "k < length (map (\<lambda>i. frag_bytes (frag_at tx i)) [lo..fd_sequence tx - 1])"
    then have k: "lo + int k < fd_sequence tx" "k < length [lo..fd_sequence tx - 1]" by simp_all
    have "holds (frag_at tx (lo + int k)) (F ! nat (lo + int k))"
      using T(14) k(1) assms(2) by simp
    moreover have "nat (lo + int k) = nat lo + k" using lo by simp
    ultimately show "map (\<lambda>i. frag_bytes (frag_at tx i)) [lo..fd_sequence tx - 1] ! k = drop (nat lo) F ! k"
      using k T(4) lo by (simp add: nth_upto frag_bytes_def holds_def)
  qed
  then show ?thesis by (simp add: held_from_def)
qed

text \<open>
  Claim C1. End-to-end safety of the reliable stream.  Start two freshly set-up endpoints
  and let them send, run frames, receive datagrams and hand out bytes in any order over a
  network that loses, repeats, delays and reorders datagrams.  At every moment, and in both
  directions, the bytes accepted for sending are the bytes delivered to the peer, followed
  by those in the peer's cache, followed by those the sender still holds: nothing is lost,
  duplicated or reordered, and the sender never drops a fragment the peer has not consumed.
\<close>

theorem reliable_stream_safety:
  assumes "link_start l0" "link_step\<^sup>*\<^sup>* l0 l"
  shows "accepted l s = delivered l (\<not> s) @ unread (fd_fragmentbuffer (rxwindow (ch l (\<not> s)))) @
      held_from (fd_sequence (rxwindow (ch l (\<not> s)))) (txwindow (ch l s)) \<and>
    fd_acknowledge (txwindow (ch l s)) \<le> fd_sequence (rxwindow (ch l (\<not> s)))"
proof -
  obtain F where inv: "link_inv F l" using link_reachable_inv [OF assms(2,1)] by blast
  note I = link_invD [OF inv]
  let ?r = "fd_sequence (rxwindow (ch l (\<not> s)))"
  have "?r \<le> int (length (F s))" using I(7) [of "\<not> s"] by simp
  then have h: "held_from ?r (txwindow (ch l s)) = concat (drop (nat ?r) (F s))"
    by (rule held_from_rest [OF I(1) I(5)])
  have "delivered l (\<not> s) @ unread (fd_fragmentbuffer (rxwindow (ch l (\<not> s)))) = concat (take (nat ?r) (F s))"
    using rx_okD(9) [OF I(2) [of "\<not> s"]] by simp
  then have "delivered l (\<not> s) @ unread (fd_fragmentbuffer (rxwindow (ch l (\<not> s)))) @
      held_from ?r (txwindow (ch l s)) = concat (take (nat ?r) (F s) @ drop (nat ?r) (F s))"
    unfolding h concat_append append_assoc [symmetric] by simp
  then show ?thesis using I(3) [of s] I(5) [of s] by simp
qed

definition demo_memory :: memory where
  "demo_memory n = Some (replicate (nat n) void_fragment)"

definition demo_peer :: reliable where
  "demo_peer = the (ReliableMessageSetup True demo_memory demo_memory 7 NS_SERVER (ip4 [10, 0, 0, 1] 28960))"

definition demo_link :: link where
  "demo_link = \<lparr>ch = (\<lambda>_. demo_peer), net = (\<lambda>_. {}), accepted = (\<lambda>_. []), delivered = (\<lambda>_. [])\<rparr>"

text \<open>The same memory, refusing a negative size as \<open>malloc\<close> does.\<close>

definition lawful_memory :: memory where
  "lawful_memory n = (if n < 0 then None else demo_memory n)"

lemma lawful_memory_law: "mem_law lawful_memory"
  by (auto simp: mem_law_def lawful_memory_def demo_memory_def cells_ok_def void_fragment_def)

lemma demo_peer_setup:
  "ReliableMessageSetup True lawful_memory lawful_memory 7 NS_SERVER (ip4 [10, 0, 0, 1] 28960) = Some demo_peer"
  by (simp add: demo_peer_def ReliableMessageSetup_def lawful_memory_def demo_memory_def
      DEFAULT_BUFFER_SIZE_def)

lemma demo_link_start: "link_start demo_link"
proof -
  have "adr_type (ip4 [10, 0, 0, 1] 28960) \<notin> {NA_LOOPBACK, NA_BAD}" by (simp add: ip4_def)
  then show ?thesis
    using demo_peer_setup lawful_memory_law unfolding link_start_def demo_link_def by simp blast
qed

lemma demo_peer_fields:
  "fd_sequence (txwindow demo_peer) = 0" "fd_acknowledge (txwindow demo_peer) = 0"
  "fd_bufferlen (txwindow demo_peer) = 32"
  by (simp_all add: demo_peer_def ReliableMessageSetup_def demo_memory_def DEFAULT_BUFFER_SIZE_def
      setup_window_def)

lemma demo_fits: "copy_fits [1, 2, 3] 0 3 (txwindow demo_peer)"
  by (simp add: copy_fits_def demo_peer_def ReliableMessageSetup_def lawful_memory_def demo_memory_def
      DEFAULT_BUFFER_SIZE_def setup_window_def frag_at_def idx_def void_fragment_def)

lemma demo_send: "\<exists>c'. ReliableMessageSend lawful_memory demo_peer [1, 2, 3] 3 = Inr (3, c')"
  using demo_fits by (simp add: ReliableMessageSend_def Let_def demo_peer_fields MAX_FRAGMENT_SIZE_def numeral_eq_Suc)

theorem reliable_stream_safety_witness:
  "\<exists>l. link_step\<^sup>*\<^sup>* demo_link l \<and> accepted l True = [1, 2, 3] \<and>
     [1, 2, 3] = delivered l False @ unread (fd_fragmentbuffer (rxwindow (ch l False))) @
       held_from (fd_sequence (rxwindow (ch l False))) (txwindow (ch l True))"
proof -
  obtain c' where c': "ReliableMessageSend lawful_memory demo_peer [1, 2, 3] 3 = Inr (3, c')"
    using demo_send by blast
  define l where "l = demo_link\<lparr>ch := (ch demo_link)(True := c'),
      accepted := (accepted demo_link)(True := accepted demo_link True @ take (nat 3) [1, 2, 3])\<rparr>"
  have "link_step demo_link l"
    unfolding l_def
    by (rule link_step.accept [OF lawful_memory_law])
      (use c' in \<open>simp_all add: demo_link_def demo_peer_fields\<close>)
  then have run: "link_step\<^sup>*\<^sup>* demo_link l" by blast
  have acc: "accepted l True = [1, 2, 3]" by (simp add: l_def demo_link_def)
  show ?thesis
    using reliable_stream_safety [OF demo_link_start run, of True] run acc by (intro exI [of _ l]) simp
qed

text \<open>
  Claim C17.  No operation of a reachable endpoint faults, in any network environment.  Whatever
  datagrams arrived before, accepting bytes, running a frame and handing out bytes all return:
  no \<open>memcpy\<close> leaves its source or its fragment, no fragment is read beyond its array,
  \<open>MSG_Clear\<close> finds a writable buffer, no datagram outgrows its 1400 bytes or a slot of the
  loopback queue, and \<open>ReliableMessageReceive\<close> gives out at most the number of bytes asked for.
  The only error is the one the program raises itself for a negative length to send.  A sender
  may number up to \<open>2^30\<close> fragments.
\<close>

theorem reliable_never_faults:
  assumes "link_start l0" "link_step\<^sup>*\<^sup>* l0 l"
    and "mem_law malloc" "len \<le> int (length indata)" "0 \<le> want"
    and "fd_sequence (txwindow (ch l s)) + len div 1200 + 1 < 2 ^ 30"
  shows "(if len < 0 then ReliableMessageSend malloc (ch l s) indata len = Inl (COM_ERROR ERR_FATAL)
      else \<exists>n c'. ReliableMessageSend malloc (ch l s) indata len = Inr (n, c') \<and> 0 \<le> n \<and> n \<le> len) \<and>
    (\<exists>c' io'. ReliableMessagesFrame env (ch l s) now io = Inr (c', io')) \<and>
    (\<exists>out c'. ReliableMessageReceive (ch l s) want = Inr (out, c') \<and> int (length out) \<le> want)"
proof -
  obtain F where inv: "link_inv F l" using link_reachable_inv [OF assms(2,1)] by blast
  note I = link_invD [OF inv]
  have "int (length (F s)) + len div 1200 + 1 \<le> 2 ^ 30 - 1"
    using assms(6) tx_okD(4) [OF I(1) [of s]] by simp
  then have "\<exists>n c'. ReliableMessageSend malloc (ch l s) indata len = Inr (n, c') \<and> 0 \<le> n \<and> n \<le> len" if "0 \<le> len"
    using send_ok [OF I(1) [of s] assms(3) that assms(4)] by metis
  moreover have "ReliableMessageSend malloc (ch l s) indata len = Inl (COM_ERROR ERR_FATAL)" if "len < 0"
    using that by (simp add: ReliableMessageSend_def Let_def)
  moreover have "\<exists>c' io'. ReliableMessagesFrame env (ch l s) now io = Inr (c', io')"
    using frame_returns [OF I(1) [of s] I(2) [of s]] .
  moreover have "\<exists>out c'. ReliableMessageReceive (ch l s) want = Inr (out, c') \<and> int (length out) \<le> want"
    using receive_ok [OF I(2) [of s] I(4) assms(5)] by metis
  ultimately show ?thesis by simp
qed

theorem reliable_never_faults_witness:
  "\<exists>n c' out c1. ReliableMessageSend lawful_memory (ch demo_link True) [1, 2, 3] 3 = Inr (n, c') \<and> n \<le> 3 \<and>
     ReliableMessageReceive (ch demo_link True) 3 = Inr (out, c1) \<and> int (length out) \<le> 3"
proof -
  have "fd_sequence (txwindow (ch demo_link True)) = 0" by (simp add: demo_link_def demo_peer_fields)
  then have "(\<exists>n c'. ReliableMessageSend lawful_memory (ch demo_link True) [1, 2, 3] 3 = Inr (n, c') \<and> 0 \<le> n \<and> n \<le> 3) \<and>
      (\<exists>out c'. ReliableMessageReceive (ch demo_link True) 3 = Inr (out, c') \<and> int (length out) \<le> 3)"
    using reliable_never_faults [OF demo_link_start rtranclp.rtrancl_refl lawful_memory_law,
        of 3 "[1, 2, 3]" 3 True quiet_env 0 empty_io] by simp
  then show ?thesis by blast
qed

end
