(* ===== verification/ReliableLiveness.thy ===== *)
theory ReliableLiveness
  imports ReliableSystem
begin

text \<open>
  Progress of the reliable stream: the retransmission of src/src/net_reliabletransport.c is
  fair.  Each call of \<open>ReliableMessagesTransmitNextFragment\<close> looks at one fragment of the
  window and moves on, so no fragment the peer is missing waits for more than one round of
  the window, wherever the cursor stood.
\<close>

section \<open>One round of the window\<close>

text \<open>How many more turns pass before the cursor comes to fragment \<open>i\<close>.\<close>

definition turns_to :: "int \<Rightarrow> framedata \<Rightarrow> nat" where
  "turns_to i tx =
     (let f = cursor tx; a = fd_acknowledge tx in
      if f \<le> i then nat (i - f)
      else if f < a + 20 then nat (a + 20 - f + (i - a)) else nat (1 + (i - a)))"

lemma turns_to_bound:
  assumes "fd_acknowledge tx \<le> i" "i < fd_acknowledge tx + 20"
  shows "turns_to i tx \<le> 20"
  using assms by (auto simp: turns_to_def Let_def cursor_def)

text \<open>A fragment the peer misses: in the window, handed over, not marked as received.\<close>

definition missing :: "int \<Rightarrow> framedata \<Rightarrow> bool" where
  "missing i tx \<longleftrightarrow> fd_acknowledge tx \<le> i \<and> i < fd_acknowledge tx + fd_windowsize tx \<and>
     i < fd_sequence tx \<and> fr_ack (frag_at tx i) \<noteq> i"

lemma turn_counts_down:
  assumes turn: "takes_turn F tx tx' ds" and miss: "missing i tx" and w: "fd_windowsize tx = 20"
    "fd_windowsize tx' = 20" and ack: "fd_acknowledge tx' = fd_acknowledge tx"
  shows "turns_to i tx = 0 \<Longrightarrow> \<exists>d \<in> set ds. dg_seq d = i \<and> dg_payload d = F ! nat i"
    "0 < turns_to i tx \<Longrightarrow> turns_to i tx' < turns_to i tx"
    "missing i tx'"
proof -
  have ne: "fd_acknowledge tx \<noteq> fd_sequence tx" using miss by (auto simp: missing_def)
  have T: "frag_at tx' = frag_at tx" "fd_sequence tx' = fd_sequence tx"
    "fd_frame tx' = (if fd_acknowledge tx + 20 \<le> cursor tx + 1 then fd_acknowledge tx else cursor tx + 1)"
    "cursor tx < fd_sequence tx \<and> fr_ack (frag_at tx (cursor tx)) \<noteq> cursor tx \<Longrightarrow>
      \<exists>d \<in> set ds. dg_seq d = cursor tx \<and> dg_payload d = F ! nat (cursor tx)"
    using turn ne by (auto simp: takes_turn_def)
  have i: "fd_acknowledge tx \<le> i" "i < fd_acknowledge tx + 20" using miss w by (simp_all add: missing_def)
  have c: "fd_acknowledge tx \<le> cursor tx" by (simp add: cursor_def)
  have c': "cursor tx' = fd_frame tx'" using T(3) c by (simp add: cursor_def ack)
  show "missing i tx'" using miss T(1,2) ack w by (simp add: missing_def)
  show "\<exists>d \<in> set ds. dg_seq d = i \<and> dg_payload d = F ! nat i" if "turns_to i tx = 0"
  proof -
    have "cursor tx = i" using that i by (auto simp: turns_to_def Let_def split: if_splits)
    then show ?thesis using T(4) miss by (simp add: missing_def)
  qed
  show "turns_to i tx' < turns_to i tx" if "0 < turns_to i tx"
    using that i c unfolding turns_to_def Let_def c' ack unfolding T(3)
    by (auto split: if_splits)
qed

lemma transmit_round:
  "tx_ok (txwindow c) F \<Longrightarrow> rx_ok (rxwindow c) G D \<Longrightarrow> plain_net env (rm_remoteAddress c) \<Longrightarrow>
   missing i (txwindow c) \<Longrightarrow> turns_to i (txwindow c) < n \<Longrightarrow>
   \<exists>c' ds. transmit_packets n env c io = Inr (c', sends (rm_qport c) (rm_remoteAddress c) ds io) \<and>
     (\<exists>d \<in> set ds. dg_seq d = i \<and> dg_payload d = F ! nat i)"
proof (induction n arbitrary: c io)
  case 0
  then show ?case by simp
next
  case (Suc n)
  obtain c1 ds where one: "ReliableMessagesTransmitNextFragment env c io =
      Inr (c1, sends (rm_qport c) (rm_remoteAddress c) ds io)"
    "tx_ok (txwindow c1) F" "rx_ok (rxwindow c1) G D" "keeps c c1"
    "takes_turn F (txwindow c) (txwindow c1) ds"
    using transmit_sends [OF Suc.prems(1-3)] by metis
  have k: "rm_qport c1 = rm_qport c" "rm_remoteAddress c1 = rm_remoteAddress c"
    "fd_acknowledge (txwindow c1) = fd_acknowledge (txwindow c)"
    using one(4) by (simp_all add: keeps_def)
  note down = turn_counts_down [OF one(5) Suc.prems(4) tx_okD(10) [OF Suc.prems(1)] tx_okD(10) [OF one(2)] k(3)]
  let ?io = "sends (rm_qport c) (rm_remoteAddress c) ds io"
  show ?case
  proof (cases "turns_to i (txwindow c) = 0")
    case True
    obtain c2 es where "transmit_packets n env c1 ?io = Inr (c2, sends (rm_qport c1) (rm_remoteAddress c1) es ?io)"
      using transmit_packets_sends [OF one(2,3), of env n ?io] Suc.prems(3) k(2) by auto
    then show ?thesis
      using one(1) down(1) [OF True] k(1,2)
      by (intro exI [of _ c2] exI [of _ "ds @ es"]) (auto simp: sends_append)
  next
    case False
    then have "turns_to i (txwindow c1) < n" using down(2) Suc.prems(5) by simp
    then obtain c2 es where "transmit_packets n env c1 ?io =
        Inr (c2, sends (rm_qport c1) (rm_remoteAddress c1) es ?io)"
      "\<exists>d \<in> set es. dg_seq d = i \<and> dg_payload d = F ! nat i"
      using Suc.IH [OF one(2,3) _ down(3), of ?io] Suc.prems(3) k(2) by auto
    then show ?thesis
      using one(1) k(1,2) by (intro exI [of _ c2] exI [of _ "ds @ es"]) (auto simp: sends_append)
  qed
qed

section \<open>No fragment starves\<close>

text \<open>
  Claim C16. Retransmission is fair.  In every state two endpoints can reach over a network
  that loses, repeats and reorders datagrams, take a fragment of the send window that was
  handed over and that the peer has not been seen to have.  Then 21 transmissions, the
  window size and one turn to wrap around, put on the wire a datagram that carries exactly
  that fragment's number and its bytes as the send ring holds them, wherever the cursor
  stood and however often other fragments were sent before.
\<close>

theorem missing_fragment_resent:
  assumes "link_start l0" "link_step\<^sup>*\<^sup>* l0 l"
    and "plain_net env (rm_remoteAddress (ch l s))" "wire io = []"
    and "missing i (txwindow (ch l s))" "21 \<le> n"
  shows "\<exists>c' io' d. transmit_packets n env (ch l s) io = Inr (c', io') \<and>
     (encode_dgram (rm_qport (ch l s)) d, rm_remoteAddress (ch l s)) \<in> set (wire io') \<and>
     dg_seq d = i \<and> dg_payload d = frag_bytes (frag_at (txwindow (ch l s)) i)"
proof -
  obtain F where inv: "link_inv F l" using link_reachable_inv [OF assms(2,1)] by blast
  note I = link_invD [OF inv]
  note T = tx_okD [OF I(1) [of s]]
  have i: "fd_acknowledge (txwindow (ch l s)) \<le> i" "i < fd_acknowledge (txwindow (ch l s)) + 20"
    "i < fd_sequence (txwindow (ch l s))"
    using assms(5) T(10) by (simp_all add: missing_def)
  have "turns_to i (txwindow (ch l s)) < n" using turns_to_bound [OF i(1,2)] assms(6) by simp
  then obtain c' ds d where run: "transmit_packets n env (ch l s) io =
      Inr (c', sends (rm_qport (ch l s)) (rm_remoteAddress (ch l s)) ds io)"
    "d \<in> set ds" "dg_seq d = i" "dg_payload d = F s ! nat i"
    using transmit_round [OF I(1,2) assms(3,5)] by blast
  have "frag_bytes (frag_at (txwindow (ch l s)) i) = F s ! nat i"
    using T(14) [OF i(1,3)] by (simp add: holds_def frag_bytes_def)
  then show ?thesis using run by (auto simp: sends_def)
qed

text \<open>The peer of the demonstration after three bytes were accepted.\<close>

definition demo_sender :: reliable where
  "demo_sender = demo_peer\<lparr>txwindow := enqueue_fragment (bytes_at 0 3 [1, 2, 3]) (txwindow demo_peer)\<rparr>"

lemma demo_sender: "ReliableMessageSend lawful_memory demo_peer [1, 2, 3] 3 = Inr (3, demo_sender)"
  using demo_fits
  by (simp add: ReliableMessageSend_def Let_def demo_peer_fields MAX_FRAGMENT_SIZE_def numeral_eq_Suc demo_sender_def)

lemma demo_sender_misses: "missing 0 (txwindow demo_sender)"
  by (simp add: demo_sender_def demo_peer_def missing_def enqueue_fragment_def Let_def frag_at_def
      set_frag_def map_rate_def ReliableMessageSetup_def lawful_memory_def demo_memory_def idx_def put_nonneg
      DEFAULT_BUFFER_SIZE_def setup_window_def)

theorem missing_fragment_resent_witness:
  "\<exists>c' io' d. transmit_packets 21 quiet_env demo_sender empty_io = Inr (c', io') \<and>
     (encode_dgram 7 d, ip4 [10, 0, 0, 1] 28960) \<in> set (wire io') \<and> dg_seq d = 0"
proof -
  define l where "l = demo_link\<lparr>ch := (ch demo_link)(True := demo_sender),
      accepted := (accepted demo_link)(True := accepted demo_link True @ take (nat 3) [1, 2, 3])\<rparr>"
  have "link_step demo_link l"
    unfolding l_def
    by (rule link_step.accept [OF lawful_memory_law])
      (use demo_sender in \<open>simp_all add: demo_link_def demo_peer_fields\<close>)
  then have run: "link_step\<^sup>*\<^sup>* demo_link l" by blast
  have l: "ch l True = demo_sender" by (simp add: l_def)
  have p: "rm_remoteAddress demo_sender = ip4 [10, 0, 0, 1] 28960" "rm_qport demo_sender = 7"
    by (simp_all add: demo_sender_def demo_peer_def ReliableMessageSetup_def demo_memory_def DEFAULT_BUFFER_SIZE_def)
  have "plain_net quiet_env (rm_remoteAddress (ch l True))" "wire empty_io = []"
    by (simp_all add: l p plain_net_def quiet_env_def ip4_def empty_io_def)
  from missing_fragment_resent [OF demo_link_start run this, of 0 21] show ?thesis
    using demo_sender_misses unfolding l p by auto
qed
end
