(* ===== verification/CmdTokenizer.thy ===== *)
theory CmdTokenizer
  imports QString
begin

text \<open>
  The command tokenizer of src/src/cmd.c: the one static \<open>tokenStrings\<close> holds a stack of
  tokenized command lines, because a command may tokenize another line while it runs.
  \<open>cmd_argv\<close> holds offsets into \<open>cmd_tokenized\<close> (\<open>None\<close> is the NULL a never written entry
  has); the counts are never negative in C either, since \<open>Cmd_EndTokenizedString\<close> refuses to
  go below zero, so they are naturals here.  Console output is not part of the state.

  The second half relates the buffer to the list of token lists it stands for
  (\<open>tok_ok\<close>), gives a reference lexer without buffers (\<open>lex_line\<close>, \<open>fitting\<close>) and shows that
  the operations are push, pop and look-up of that stack; the locale \<open>arg_stack\<close> is the
  interface the command table relies on.
\<close>

section \<open>State\<close>

definition MAX_TOKENIZE_STRINGS :: nat where "MAX_TOKENIZE_STRINGS = 32"
definition MAX_STRING_TOKENS :: nat where "MAX_STRING_TOKENS = 1024"
definition TOKENIZED_SIZE :: nat where "TOKENIZED_SIZE = 8192 + 1024"

record tokenizer =
  currentString :: nat
  cmd_argc :: nat
  cmd_argcList :: "nat list"
  cmd_argv :: "nat option list"
  cmd_tokenized :: "char list"

definition tokenizer_zero :: tokenizer where
  "tokenizer_zero =
     \<lparr>currentString = 0, cmd_argc = 0, cmd_argcList = replicate MAX_TOKENIZE_STRINGS 0,
      cmd_argv = replicate MAX_STRING_TOKENS None,
      cmd_tokenized = replicate TOKENIZED_SIZE NUL\<rparr>"

section \<open>Reading the arguments\<close>

definition Cmd_Argc :: "tokenizer \<Rightarrow> nat" where
  "Cmd_Argc t =
     (if currentString t = 0 then 0 else cmd_argcList t ! (currentString t - 1))"

definition Cmd_Argv :: "tokenizer \<Rightarrow> int \<Rightarrow> fault + string" where
  "Cmd_Argv t arg =
     (let argc = Cmd_Argc t in
      if argc = 0 then Inr ''''
      else if int argc - arg \<le> 0 then Inr ''''
      else let i = int (cmd_argc t) - int argc + arg in
        if i < 0 \<or> int MAX_STRING_TOKENS \<le> i then Inl OUT_OF_BOUNDS
        else case cmd_argv t ! nat i of
               None \<Rightarrow> Inr ''''
             | Some p \<Rightarrow> Inr (cstr (drop p (cmd_tokenized t))))"

definition Cmd_ArgvBuffer :: "tokenizer \<Rightarrow> int \<Rightarrow> char list \<Rightarrow> int \<Rightarrow> fault + char list" where
  "Cmd_ArgvBuffer t arg buffer bufferLength =
     (case Cmd_Argv t arg of
        Inl e \<Rightarrow> Inl e
      | Inr s \<Rightarrow> (case Q_strncpyz buffer 0 s bufferLength of
                   Inl e \<Rightarrow> Inl (COM_ERROR e) | Inr b \<Rightarrow> Inr b))"

definition strcat_fault :: "char list \<Rightarrow> int \<Rightarrow> string \<Rightarrow> fault + char list" where
  "strcat_fault buff bufsize s =
     (case Q_strcat buff bufsize s of Inl e \<Rightarrow> Inl (COM_ERROR e) | Inr b \<Rightarrow> Inr b)"

function args_loop :: "tokenizer \<Rightarrow> int \<Rightarrow> char list \<Rightarrow> int \<Rightarrow> fault + char list" where
  "args_loop t i buff bufsize =
     (if int (Cmd_Argc t) \<le> i then Inr buff
      else case Cmd_Argv t i of
        Inl e \<Rightarrow> Inl e
      | Inr s \<Rightarrow> (case strcat_fault buff bufsize s of
          Inl e \<Rightarrow> Inl e
        | Inr b \<Rightarrow> (if i \<noteq> int (Cmd_Argc t) - 1
             then case strcat_fault b bufsize '' '' of
                    Inl e \<Rightarrow> Inl e
                  | Inr b2 \<Rightarrow> args_loop t (i + 1) b2 bufsize
             else args_loop t (i + 1) b bufsize)))"
  by pat_completeness auto
termination
  by (relation "measure (\<lambda>(t, i, buff, bufsize). nat (int (Cmd_Argc t) - i))") auto

declare args_loop.simps [simp del]

definition Cmd_Argsv :: "tokenizer \<Rightarrow> int \<Rightarrow> char list \<Rightarrow> int \<Rightarrow> fault + char list" where
  "Cmd_Argsv t arg buff bufsize = args_loop t arg (buff[0 := NUL]) bufsize"

definition Cmd_Args :: "tokenizer \<Rightarrow> char list \<Rightarrow> int \<Rightarrow> fault + char list" where
  "Cmd_Args t buff bufsize = args_loop t 1 (buff[0 := NUL]) bufsize"

definition Cmd_EndTokenizedString :: "tokenizer \<Rightarrow> fault + tokenizer" where
  "Cmd_EndTokenizedString t =
     (if currentString t \<le> 0 then Inl (COM_ERROR ERR_FATAL)
      else let c = currentString t - 1 in
        if c < MAX_TOKENIZE_STRINGS
        then Inr (t\<lparr>currentString := c, cmd_argc := cmd_argc t - cmd_argcList t ! c\<rparr>)
        else Inr (t\<lparr>currentString := c\<rparr>))"

section \<open>Tokenizing\<close>

text \<open>
  A character is blank when its unsigned value is at most the space's.  \<open>past_star\<close> stops
  at the closing star and slash of a comment, \<open>skip_blank\<close> returns the text at which the next
  token starts, \<open>None\<close> when all tokens are parsed.
\<close>

definition blank :: "char \<Rightarrow> bool" where
  "blank c \<longleftrightarrow> uc c \<le> 32"

fun lead2 :: "char \<Rightarrow> char \<Rightarrow> string \<Rightarrow> bool" where
  "lead2 a b (c # d # s) = (c = a \<and> d = b)"
| "lead2 a b s = False"

abbreviation slash_comment :: "string \<Rightarrow> bool" where
  "slash_comment \<equiv> lead2 (CHR ''/'') (CHR ''/'')"

abbreviation star_comment :: "string \<Rightarrow> bool" where
  "star_comment \<equiv> lead2 (CHR ''/'') (CHR ''*'')"

fun past_star :: "string \<Rightarrow> string" where
  "past_star [] = []"
| "past_star (c # s) = (if lead2 (CHR ''*'') (CHR ''/'') (c # s) then c # s else past_star s)"

lemma length_past_star: "length (past_star s) \<le> length s"
  by (induction s) auto

function skip_blank :: "string \<Rightarrow> string option" where
  "skip_blank text =
     (let t = dropWhile blank text in
      if t = [] then None
      else if slash_comment t then None
      else if star_comment t
        then (let u = past_star t in
              if u = [] then None else skip_blank (drop 2 u))
      else Some t)"
  by pat_completeness auto
termination
proof (relation "measure length")
  fix s t u :: string
  assume "t = dropWhile blank s" "u = past_star t" "u \<noteq> []"
  then have "length u \<le> length s" "u \<noteq> []"
    using length_past_star [of t] length_dropWhile_le [of blank s] by auto
  then show "(drop 2 u, s) \<in> measure length" by (cases u) auto
qed simp

declare skip_blank.simps [simp del]

text \<open>
  Both scanners return the characters they copy, the text they stop at and the cells that
  are left: they also stop when only one cell is left.
\<close>

fun scan_quoted :: "string \<Rightarrow> int \<Rightarrow> string \<times> string \<times> int" where
  "scan_quoted [] avail = ([], [], avail)"
| "scan_quoted (c # s) avail =
     (if c \<noteq> DQUOTE \<and> 1 < avail
      then (let (w, r, a) = scan_quoted s (avail - 1) in (c # w, r, a))
      else ([], c # s, avail))"

fun scan_regular :: "bool \<Rightarrow> string \<Rightarrow> int \<Rightarrow> string \<times> string \<times> int" where
  "scan_regular iq [] avail = ([], [], avail)"
| "scan_regular iq (c # s) avail =
     (if \<not> blank c \<and> 1 < avail \<and> \<not> (\<not> iq \<and> c = DQUOTE)
          \<and> \<not> slash_comment (c # s) \<and> \<not> star_comment (c # s)
      then (let (w, r, a) = scan_regular iq s (avail - 1) in (c # w, r, a))
      else ([], c # s, avail))"

text \<open>
  \<open>tparams\<close> is \<open>cmdTokenizeParams_t\<close> with the write position \<open>textOut\<close> and the two
  arrays the C pointers reach.  \<open>set_argv\<close> and \<open>put_token\<close> are the stores; \<open>argv[1024]\<close>
  lies behind the array.
\<close>

record tparams =
  p_argc :: nat
  availableBuf :: int
  textOut :: nat
  p_argv :: "nat option list"
  p_cells :: "char list"

definition set_argv :: "tparams \<Rightarrow> fault + tparams" where
  "set_argv p =
     (if length (p_argv p) \<le> p_argc p then Inl OUT_OF_BOUNDS
      else Inr (p\<lparr>p_argv := (p_argv p)[p_argc p := Some (textOut p)]\<rparr>))"

definition put_token :: "string \<Rightarrow> int \<Rightarrow> tparams \<Rightarrow> fault + tparams" where
  "put_token w avail p =
     (if length (p_cells p) < textOut p + length w + 1 then Inl OUT_OF_BOUNDS
      else Inr (p\<lparr>p_cells := blit (textOut p) (w @ [NUL]) (p_cells p),
                  textOut := textOut p + length w + 1, availableBuf := avail - 1\<rparr>))"

text \<open>
  One round after \<open>skip_blank\<close>: the token's start is recorded, the token and its NUL are
  written; without two free cells the function returns and the token is not counted,
  otherwise it is counted and the start of the next one recorded.  The result says whether
  the loop goes on, and with which text.
\<close>

definition take_token :: "bool \<Rightarrow> string \<Rightarrow> tparams \<Rightarrow> fault + (tparams \<times> string option)" where
  "take_token iq t p =
     (let quoted = (\<not> iq \<and> hd t = DQUOTE);
          (w, r, a) = (if quoted then scan_quoted (tl t) (availableBuf p)
                       else scan_regular iq t (availableBuf p)) in
      case set_argv p of
        Inl e \<Rightarrow> Inl e
      | Inr p1 \<Rightarrow> (case put_token w a p1 of
          Inl e \<Rightarrow> Inl e
        | Inr p2 \<Rightarrow>
           (if availableBuf p2 < 2 then Inr (p2, None)
            else case set_argv (p2\<lparr>p_argc := p_argc p2 + 1\<rparr>) of
              Inl e \<Rightarrow> Inl e
            | Inr p3 \<Rightarrow> Inr (p3, if r = [] then None
                                 else if quoted then Some (tl r) else Some r))))"
lemma skip_blank_Some:
  "skip_blank s = Some t \<Longrightarrow>
   length t \<le> length s \<and> t \<noteq> [] \<and> \<not> blank (hd t) \<and> \<not> slash_comment t \<and> \<not> star_comment t"
proof (induction s rule: skip_blank.induct)
  case (1 s)
  let ?t = "dropWhile blank s"
  let ?u = "past_star ?t"
  have len: "length ?t \<le> length s" by (rule length_dropWhile_le)
  show ?case
  proof (cases "star_comment ?t \<and> ?t \<noteq> [] \<and> \<not> slash_comment ?t")
    case True
    then have u: "?u \<noteq> []" and r: "skip_blank (drop 2 ?u) = Some t"
      using "1.prems" by (auto simp: skip_blank.simps [of s] Let_def split: if_splits)
    have "length (drop 2 ?u) \<le> length s"
      using length_past_star [of ?t] len by simp
    then show ?thesis
      using "1.IH" [OF refl _ _ _ refl u r] True by (meson le_trans)
  next
    case False
    then have "t = ?t" "?t \<noteq> []" "\<not> slash_comment ?t" "\<not> star_comment ?t"
      using "1.prems" by (auto simp: skip_blank.simps [of s] Let_def split: if_splits)
    then show ?thesis using len hd_dropWhile [of blank s] by auto
  qed
qed

lemma scan_quoted_length: "scan_quoted s n = (w, r, a) \<Longrightarrow> length r \<le> length s"
  by (induction s n arbitrary: w r a rule: scan_quoted.induct)
    (auto split: if_splits prod.splits simp: Let_def intro: le_SucI)

lemma scan_regular_length: "scan_regular iq s n = (w, r, a) \<Longrightarrow> length r \<le> length s"
  by (induction iq s n arbitrary: w r a rule: scan_regular.induct)
    (auto split: if_splits prod.splits simp: Let_def intro: le_SucI)

lemma put_token_avail: "put_token w a p = Inr p' \<Longrightarrow> availableBuf p' = a - 1"
  by (auto simp: put_token_def split: if_splits)

lemma take_token_shrinks:
  assumes "take_token iq t p = Inr (p', Some r)"
    and "t \<noteq> []" "\<not> blank (hd t)" "\<not> slash_comment t" "\<not> star_comment t"
  shows "length r < length t"
proof -
  obtain c s where t: "t = c # s" using assms(2) by (cases t) auto
  show ?thesis
  proof (cases "\<not> iq \<and> c = DQUOTE")
    case True
    obtain w r0 a where sq: "scan_quoted s (availableBuf p) = (w, r0, a)" by (metis prod_cases3)
    have "r = tl r0"
      using assms(1) True sq
      by (auto simp: t take_token_def Let_def split: sum.splits if_splits)
    then show ?thesis using scan_quoted_length [OF sq] by (simp add: t)
  next
    case False
    obtain w r0 a where sr: "scan_regular iq t (availableBuf p) = (w, r0, a)" by (metis prod_cases3)
    have r: "r = r0" and a: "3 \<le> a"
      using assms(1) False sr
      by (auto simp: t take_token_def Let_def dest: put_token_avail split: sum.splits if_splits)
    have "1 < availableBuf p"
    proof (rule ccontr)
      assume "\<not> 1 < availableBuf p"
      then show False using sr a by (simp add: t)
    qed
    then obtain w' where "scan_regular iq s (availableBuf p - 1) = (w', r0, a)"
      using sr False assms(3-5) by (auto simp: t split: prod.splits)
    then show ?thesis using scan_regular_length r by (fastforce simp: t)
  qed
qed

function tokenize_loop :: "bool \<Rightarrow> string \<Rightarrow> tparams \<Rightarrow> fault + tparams" where
  "tokenize_loop iq s p =
     (if p_argc p = MAX_STRING_TOKENS then Inr p
      else case skip_blank s of
        None \<Rightarrow> Inr p
      | Some t \<Rightarrow> (case take_token iq t p of
          Inl e \<Rightarrow> Inl e
        | Inr (p', rest) \<Rightarrow> (case rest of
            None \<Rightarrow> Inr p' | Some r \<Rightarrow> tokenize_loop iq r p')))"
  by pat_completeness auto
termination
proof (relation "measure (\<lambda>(iq, s, p). length s)")
  fix iq s and p p' :: tparams and t x rest r
  assume "skip_blank s = Some t" "take_token iq t p = Inr x" "(p', rest) = x" "rest = Some r"
  then have "length r < length s"
    using skip_blank_Some [of s t] take_token_shrinks [of iq t p p' r] by auto
  then show "((iq, r, p'), (iq, s, p)) \<in> measure (\<lambda>(iq, s, p). length s)" by simp
qed simp

declare tokenize_loop.simps [simp del]

definition Cmd_TokenizeStringInternal ::
  "string option \<Rightarrow> bool \<Rightarrow> tparams \<Rightarrow> fault + tparams" where
  "Cmd_TokenizeStringInternal text_in ignoreQuotes p =
     (case text_in of None \<Rightarrow> Inr p | Some s \<Rightarrow> tokenize_loop ignoreQuotes s p)"

definition Cmd_TokenizeString2 ::
  "string option \<Rightarrow> bool \<Rightarrow> tokenizer \<Rightarrow> fault + tokenizer" where
  "Cmd_TokenizeString2 text_in ignore_quotes t =
     (if currentString t < MAX_TOKENIZE_STRINGS
      then if 0 < currentString t \<and> MAX_STRING_TOKENS \<le> cmd_argc t then Inl OUT_OF_BOUNDS
        else if 0 < currentString t \<and> cmd_argv t ! cmd_argc t = None
        then Inl (COM_ERROR ERR_FATAL)
        else
          let out = (if 0 < currentString t then the (cmd_argv t ! cmd_argc t) else 0) in
          case Cmd_TokenizeStringInternal text_in ignore_quotes
                 \<lparr>p_argc = cmd_argc t, availableBuf = int TOKENIZED_SIZE - int out,
                  textOut = out, p_argv = cmd_argv t, p_cells = cmd_tokenized t\<rparr> of
            Inl e \<Rightarrow> Inl e
          | Inr p \<Rightarrow>
              Inr \<lparr>currentString = currentString t + 1, cmd_argc = p_argc p,
                   cmd_argcList =
                     (cmd_argcList t)[currentString t := p_argc p - cmd_argc t],
                   cmd_argv = p_argv p, cmd_tokenized = p_cells p\<rparr>
      else Inr t)"

definition Cmd_TokenizeStringIgnoreQuotes :: "string option \<Rightarrow> tokenizer \<Rightarrow> fault + tokenizer" where
  "Cmd_TokenizeStringIgnoreQuotes text_in t = Cmd_TokenizeString2 text_in True t"

definition Cmd_TokenizeString :: "string option \<Rightarrow> tokenizer \<Rightarrow> fault + tokenizer" where
  "Cmd_TokenizeString text_in t = Cmd_TokenizeString2 text_in False t"

section \<open>A reference lexer\<close>

text \<open>
  The same grammar without buffers: \<open>next_tok\<close> splits the first token off a text that starts
  with one, \<open>lex_line\<close> is the list of all tokens, and \<open>fitting n\<close> keeps those that, each with its
  NUL, leave two of \<open>n\<close> cells free.
\<close>

fun word :: "bool \<Rightarrow> string \<Rightarrow> string \<times> string" where
  "word iq [] = ([], [])"
| "word iq (c # s) =
     (if blank c \<or> (\<not> iq \<and> c = DQUOTE) \<or> slash_comment (c # s) \<or> star_comment (c # s)
      then ([], c # s) else (let (w, r) = word iq s in (c # w, r)))"

definition next_tok :: "bool \<Rightarrow> string \<Rightarrow> string \<times> string option" where
  "next_tok iq t =
     (if \<not> iq \<and> hd t = DQUOTE
      then (takeWhile (\<lambda>c. c \<noteq> DQUOTE) (tl t),
            case dropWhile (\<lambda>c. c \<noteq> DQUOTE) (tl t) of [] \<Rightarrow> None | _ # r \<Rightarrow> Some r)
      else (fst (word iq t), case snd (word iq t) of [] \<Rightarrow> None | c # r \<Rightarrow> Some (c # r)))"

lemma word_append: "s = fst (word iq s) @ snd (word iq s)"
  by (induction iq s rule: word.induct) (auto split: prod.splits)

lemma word_length: "length (snd (word iq s)) \<le> length s"
  using arg_cong [OF word_append, of length s iq] by simp

lemma next_tok_shrinks:
  assumes "next_tok iq t = (w, Some r)" and "skip_blank s = Some t"
  shows "length r < length s"
proof -
  have t: "length t \<le> length s" "t \<noteq> []" "\<not> blank (hd t)" "\<not> slash_comment t" "\<not> star_comment t"
    using skip_blank_Some [OF assms(2)] by auto
  then obtain c u where cu: "t = c # u" by (cases t) auto
  have "length r < length t"
  proof (cases "\<not> iq \<and> c = DQUOTE")
    case True
    then obtain d where "dropWhile (\<lambda>c. c \<noteq> DQUOTE) u = d # r"
      using assms(1) by (auto simp: next_tok_def cu simp del: dropWhile_eq_Cons_conv split: list.splits)
    then show ?thesis using length_dropWhile_le [of "\<lambda>c. c \<noteq> DQUOTE" u] by (simp add: cu)
  next
    case False
    then have "word iq t = (c # fst (word iq u), snd (word iq u))"
      using t by (auto simp: cu split: prod.splits)
    then have "r = snd (word iq u)"
      using assms(1) False by (auto simp: next_tok_def cu split: list.splits)
    then show ?thesis using word_length [of iq u] by (simp add: cu)
  qed
  then show ?thesis using t(1) by simp
qed

function lex_line :: "bool \<Rightarrow> string \<Rightarrow> string list" where
  "lex_line iq s =
     (case skip_blank s of
        None \<Rightarrow> []
      | Some t \<Rightarrow> fst (next_tok iq t) #
          (case snd (next_tok iq t) of None \<Rightarrow> [] | Some r \<Rightarrow> lex_line iq r))"
  by pat_completeness auto
termination
  by (relation "measure (\<lambda>(iq, s). length s)") (auto, metis next_tok_shrinks prod.collapse)

declare lex_line.simps [simp del]

fun fitting :: "int \<Rightarrow> string list \<Rightarrow> string list" where
  "fitting n [] = []"
| "fitting n (w # ws) =
     (if int (length w) + 3 \<le> n then w # fitting (n - int (length w) - 1) ws else [])"

section \<open>The buffer as a stack of token lists\<close>

definition pack :: "string list \<Rightarrow> string" where
  "pack ts = concat (map (\<lambda>w. w @ [NUL]) ts)"

definition tokens_in :: "nat option list \<Rightarrow> char list \<Rightarrow> string list \<Rightarrow> bool" where
  "tokens_in argv cells ts \<longleftrightarrow>
     length argv = MAX_STRING_TOKENS \<and> length cells = TOKENIZED_SIZE
     \<and> length ts < MAX_STRING_TOKENS \<and> length (pack ts) + 2 \<le> TOKENIZED_SIZE
     \<and> (\<forall>w \<in> set ts. nul_free w) \<and> take (length (pack ts)) cells = pack ts
     \<and> (\<forall>i < length ts. argv ! i = Some (length (pack (take i ts))))
     \<and> (argv ! length ts = Some (length (pack ts)) \<or> ts = [] \<and> argv ! 0 = None)"

definition tok_ok :: "tokenizer \<Rightarrow> string list list \<Rightarrow> bool" where
  "tok_ok t S \<longleftrightarrow>
     tokens_in (cmd_argv t) (cmd_tokenized t) (concat S)
     \<and> currentString t = length S \<and> length S \<le> MAX_TOKENIZE_STRINGS
     \<and> length (cmd_argcList t) = MAX_TOKENIZE_STRINGS
     \<and> (\<forall>i < length S. cmd_argcList t ! i = length (S ! i))
     \<and> cmd_argc t = length (concat S)"

definition params_ok :: "tparams \<Rightarrow> string list \<Rightarrow> bool" where
  "params_ok p ts \<longleftrightarrow>
     tokens_in (p_argv p) (p_cells p) ts \<and> p_argc p = length ts
     \<and> textOut p = length (pack ts) \<and> availableBuf p = int TOKENIZED_SIZE - int (textOut p)"

lemma pack_simps [simp]:
  "pack [] = []" "pack (w # ts) = w @ NUL # pack ts" "pack (ts @ us) = pack ts @ pack us"
  by (simp_all add: pack_def)

lemma tokenizer_zero_ok: "tok_ok tokenizer_zero []"
  by (simp add: tok_ok_def tokenizer_zero_def tokens_in_def MAX_STRING_TOKENS_def
      MAX_TOKENIZE_STRINGS_def TOKENIZED_SIZE_def)

text \<open>The scanners with a limit against the reference.\<close>

lemma scan_quoted_spec:
  assumes "1 \<le> n"
  shows "\<exists>w' r'. scan_quoted s n = (w', r', n - int (length w')) \<and> int (length w') < n
    \<and> set w' \<subseteq> set s
    \<and> (if int (length (takeWhile (\<lambda>c. c \<noteq> DQUOTE) s)) < n
       then w' = takeWhile (\<lambda>c. c \<noteq> DQUOTE) s \<and> r' = dropWhile (\<lambda>c. c \<noteq> DQUOTE) s
       else int (length w') + 1 = n)"
  using assms
proof (induction s arbitrary: n)
  case Nil
  then show ?case by simp
next
  case (Cons c s)
  show ?case
  proof (cases "c \<noteq> DQUOTE \<and> 1 < n")
    case True
    then have "1 \<le> n - 1" by simp
    from Cons.IH [OF this] True show ?thesis by (auto split: if_splits)
  next
    case False
    then show ?thesis using Cons.prems by auto
  qed
qed

lemma scan_regular_spec:
  assumes "1 \<le> n"
  shows "\<exists>w' r'. scan_regular iq s n = (w', r', n - int (length w')) \<and> int (length w') < n
    \<and> set w' \<subseteq> set s
    \<and> (if int (length (fst (word iq s))) < n
       then w' = fst (word iq s) \<and> r' = snd (word iq s)
       else int (length w') + 1 = n)"
  using assms
proof (induction s arbitrary: n)
  case Nil
  then show ?case by simp
next
  case (Cons c s)
  let ?stop = "blank c \<or> (\<not> iq \<and> c = DQUOTE) \<or> slash_comment (c # s) \<or> star_comment (c # s)"
  show ?case
  proof (cases "\<not> ?stop \<and> 1 < n")
    case True
    then have "1 \<le> n - 1" by simp
    from Cons.IH [OF this] True show ?thesis by (auto split: if_splits prod.splits)
  next
    case False
    then show ?thesis using Cons.prems by (auto split: prod.splits)
  qed
qed

lemma tokens_in_write:
  assumes "tokens_in argv cells ts" "length (pack ts) + length w + 1 \<le> TOKENIZED_SIZE"
  shows "tokens_in (argv[length ts := Some (length (pack ts))])
           (blit (length (pack ts)) (w @ [NUL]) cells) ts"
  using assms by (auto simp: tokens_in_def nth_list_update take_blit_le)

lemma tokens_in_extend:
  assumes "tokens_in argv cells ts" "length (pack ts) + length w + 3 \<le> TOKENIZED_SIZE"
    and "length ts + 1 < MAX_STRING_TOKENS" "nul_free w"
  shows "tokens_in (argv[length ts := Some (length (pack ts)),
                         Suc (length ts) := Some (length (pack ts) + length w + 1)])
           (blit (length (pack ts)) (w @ [NUL]) cells) (ts @ [w])"
proof -
  have "take (length (pack ts) + length (w @ [NUL])) (blit (length (pack ts)) (w @ [NUL]) cells)
      = take (length (pack ts)) cells @ w @ [NUL]"
    using assms by (intro take_blit) (auto simp: tokens_in_def)
  then show ?thesis
    using assms by (auto simp: tokens_in_def nth_list_update nth_append less_Suc_eq)
qed

lemma pack_room:
  assumes "params_ok p ts"
  shows "2 \<le> availableBuf p"
  using assms by (auto simp: params_ok_def tokens_in_def)

text \<open>One token: kept, dropped for lack of cells, or one too many.\<close>

lemma take_token_spec:
  assumes p: "params_ok p ts" and t: "t \<noteq> []" "nul_free t" and nt: "next_tok iq t = (w, rest)"
  shows "if availableBuf p < int (length w) + 3
         then \<exists>p'. take_token iq t p = Inr (p', None) \<and> params_ok (p'\<lparr>textOut := textOut p,
            availableBuf := availableBuf p\<rparr>) ts
         else if length ts + 1 = MAX_STRING_TOKENS then take_token iq t p = Inl OUT_OF_BOUNDS
         else \<exists>p'. take_token iq t p = Inr (p', rest) \<and> params_ok p' (ts @ [w])"
proof -
  define n where "n = availableBuf p"
  define q where "q \<longleftrightarrow> \<not> iq \<and> hd t = DQUOTE"
  define sc where "sc = (if q then scan_quoted (tl t) n else scan_regular iq t n)"
  have n: "2 \<le> n" using pack_room [OF p] by (simp add: n_def)
  have sub: "set (tl t) \<subseteq> set t" using t(1) by (simp add: list.set_sel(2) subsetI)
  obtain w' r' where s: "sc = (w', r', n - int (length w'))" "int (length w') < n" "set w' \<subseteq> set t"
    and cut: "if int (length w) < n then w' = w
         \<and> rest = (if r' = [] then None else if q then Some (tl r') else Some r')
       else int (length w') + 1 = n"
  proof (cases q)
    case True
    then have w: "w = takeWhile (\<lambda>c. c \<noteq> DQUOTE) (tl t)"
        "rest = (case dropWhile (\<lambda>c. c \<noteq> DQUOTE) (tl t) of [] \<Rightarrow> None | _ # r \<Rightarrow> Some r)"
      using nt by (auto simp: next_tok_def q_def)
    show thesis
      using scan_quoted_spec [of n "tl t"] n True sub w that
      by (auto simp: sc_def split: list.splits if_splits)
  next
    case False
    then have w: "w = fst (word iq t)"
        "rest = (case snd (word iq t) of [] \<Rightarrow> None | c # r \<Rightarrow> Some (c # r))"
      using nt by (auto simp: next_tok_def q_def)
    show thesis
      using scan_regular_spec [of n iq t] n False w that
      by (auto simp: sc_def split: list.splits if_splits)
  qed
  have free: "nul_free w'" using s(3) t(2) by (auto simp: nul_free_def)
  define p1 where "p1 = p\<lparr>p_argv := (p_argv p)[length ts := Some (length (pack ts))]\<rparr>"
  define p2 where "p2 = p1\<lparr>p_cells := blit (length (pack ts)) (w' @ [NUL]) (p_cells p),
      textOut := length (pack ts) + length w' + 1, availableBuf := n - int (length w') - 1\<rparr>"
  have lens: "length ts < MAX_STRING_TOKENS" "length (p_argv p) = MAX_STRING_TOKENS"
      "length (p_cells p) = TOKENIZED_SIZE" "p_argc p = length ts" "textOut p = length (pack ts)"
      "n = int TOKENIZED_SIZE - int (length (pack ts))"
    using p by (auto simp: params_ok_def tokens_in_def n_def)
  have st1: "set_argv p = Inr p1"
    using lens by (simp add: set_argv_def p1_def)
  have st2: "put_token w' (n - int (length w')) p1 = Inr p2"
    using lens s(2) by (simp add: put_token_def p2_def p1_def)
  have tt: "take_token iq t p =
      (if n - int (length w') - 1 < 2 then Inr (p2, None)
       else case set_argv (p2\<lparr>p_argc := p_argc p2 + 1\<rparr>) of
              Inl e \<Rightarrow> Inl e
            | Inr p3 \<Rightarrow> Inr (p3, if r' = [] then None else if q then Some (tl r') else Some r'))"
    unfolding take_token_def q_def [symmetric] n_def [symmetric] sc_def [symmetric] s(1) Let_def
      prod.case st1 sum.case st2
    by (simp add: p2_def)
  have keep: "params_ok (p2\<lparr>textOut := textOut p, availableBuf := availableBuf p\<rparr>) ts"
    using p lens s(2) tokens_in_write [of "p_argv p" "p_cells p" ts w']
    by (simp add: params_ok_def p2_def p1_def n_def)
  show ?thesis
  proof (cases "n < int (length w) + 3")
    case True
    then have "n - int (length w') - 1 < 2" using cut by (auto split: if_splits)
    then show ?thesis using tt keep True by (simp add: n_def)
  next
    case False
    then have w: "w' = w" "rest = (if r' = [] then None else if q then Some (tl r') else Some r')"
      using cut by auto
    show ?thesis
    proof (cases "length ts + 1 = MAX_STRING_TOKENS")
      case True
      then have "set_argv (p2\<lparr>p_argc := p_argc p2 + 1\<rparr>) = Inl OUT_OF_BOUNDS"
        using lens by (simp add: set_argv_def p2_def p1_def)
      then show ?thesis using tt w False True by (simp add: n_def)
    next
      case more: False
      let ?p3 = "p2\<lparr>p_argc := length ts + 1,
          p_argv := (p_argv p1)[length ts + 1 := Some (length (pack ts) + length w + 1)]\<rparr>"
      have "set_argv (p2\<lparr>p_argc := p_argc p2 + 1\<rparr>) = Inr ?p3"
        using lens more w(1) by (simp add: set_argv_def p2_def p1_def)
      then have "take_token iq t p = Inr (?p3, rest)" using tt w False by simp
      moreover have "params_ok ?p3 (ts @ [w])"
        using p lens more False free w(1) tokens_in_extend [of "p_argv p" "p_cells p" ts w]
        by (simp add: params_ok_def p2_def p1_def)
      ultimately show ?thesis using more False by (auto simp: n_def)
    qed
  qed
qed

lemma params_argv_irrelevant:
  "params_ok p ts \<Longrightarrow> p_argc p = length ts \<and> length ts < MAX_STRING_TOKENS"
  by (simp add: params_ok_def tokens_in_def)

lemma blank_nul: "blank NUL" by (simp add: blank_def)

lemma nul_free_suffix: "nul_free (u @ s) \<Longrightarrow> nul_free s" by simp

lemma past_star_suffix: "\<exists>u. s = u @ past_star s"
proof (induction s)
  case (Cons c s)
  then obtain u where "s = u @ past_star s" by blast
  then have "c # s = (c # u) @ past_star s" by simp
  moreover have "c # s = [] @ (c # s)" by simp
  ultimately show ?case unfolding past_star.simps(2) by (metis (full_types))
qed simp

lemma suffix_trans: "s = u @ t \<Longrightarrow> t = v @ r \<Longrightarrow> \<exists>w. s = w @ r"
  by auto

lemma skip_blank_suffix: "skip_blank s = Some t \<Longrightarrow> \<exists>u. s = u @ t"
proof (induction s rule: skip_blank.induct)
  case (1 s)
  let ?t = "dropWhile blank s"
  have st: "s = takeWhile blank s @ ?t" by simp
  show ?case
  proof (cases "star_comment ?t \<and> ?t \<noteq> [] \<and> \<not> slash_comment ?t")
    case True
    then have u: "past_star ?t \<noteq> []" and r: "skip_blank (drop 2 (past_star ?t)) = Some t"
      using "1.prems" by (auto simp: skip_blank.simps [of s] Let_def split: if_splits)
    obtain v where v: "drop 2 (past_star ?t) = v @ t"
      using "1.IH" [OF refl _ _ _ refl u r] True by blast
    have "\<exists>w. past_star ?t = w @ t"
      using suffix_trans [OF append_take_drop_id [of 2 "past_star ?t", symmetric] v] .
    then obtain w where w: "past_star ?t = w @ t" by (rule exE)
    obtain v2 where v2: "?t = v2 @ past_star ?t" using past_star_suffix [of ?t] by (rule exE)
    obtain w2 where w2: "?t = w2 @ t" using suffix_trans [OF v2 w] by (rule exE)
    show ?thesis by (rule suffix_trans [OF st w2])
  next
    case False
    then have "t = ?t"
      using "1.prems" by (auto simp: skip_blank.simps [of s] Let_def split: if_splits)
    then have "s = takeWhile blank s @ t" using st by (rule ssubst)
    then show ?thesis by (rule exI)
  qed
qed

lemma next_tok_suffix:
  "next_tok iq t = (w, Some r) \<Longrightarrow> t \<noteq> [] \<Longrightarrow> \<exists>u. t = u @ r"
proof -
  assume nt: "next_tok iq t = (w, Some r)" and "t \<noteq> []"
  then obtain c s where t: "t = c # s" by (cases t) auto
  show ?thesis
  proof (cases "\<not> iq \<and> c = DQUOTE")
    case True
    then obtain d where "dropWhile (\<lambda>c. c \<noteq> DQUOTE) s = d # r"
      using nt by (auto simp: next_tok_def t simp del: dropWhile_eq_Cons_conv split: list.splits)
    then have "t = (c # takeWhile (\<lambda>c. c \<noteq> DQUOTE) s @ [d]) @ r"
      using takeWhile_dropWhile_id [of "\<lambda>c. c \<noteq> DQUOTE" s] by (simp add: t)
    then show ?thesis by blast
  next
    case False
    define x where "x = word iq t"
    have x: "t = fst x @ snd x" unfolding x_def by (rule word_append)
    have "next_tok iq t = (fst x, case snd x of [] \<Rightarrow> None | c # r \<Rightarrow> Some (c # r))"
      unfolding next_tok_def x_def [symmetric] using False by (auto simp: t)
    then have "snd x = r" using nt by (auto split: list.splits)
    then have "t = fst x @ r" using x by simp
    then show ?thesis by (rule exI)
  qed
qed

lemma tokenize_loop_spec:
  "params_ok p ts \<Longrightarrow> nul_free s \<Longrightarrow>
   ws = fitting (availableBuf p) (lex_line iq s) \<Longrightarrow>
   (if length ts + length ws < MAX_STRING_TOKENS
    then \<exists>p'. tokenize_loop iq s p = Inr p' \<and> p_argc p' = length ts + length ws
            \<and> tokens_in (p_argv p') (p_cells p') (ts @ ws)
    else tokenize_loop iq s p = Inl OUT_OF_BOUNDS)"
proof (induction iq s p arbitrary: ts ws rule: tokenize_loop.induct)
  case (1 iq s p)
  have p: "p_argc p = length ts" "length ts < MAX_STRING_TOKENS" "p_argc p \<noteq> MAX_STRING_TOKENS"
    using params_argv_irrelevant [OF "1.prems"(1)] by auto
  have now: "tokens_in (p_argv p) (p_cells p) ts" using "1.prems"(1) by (simp add: params_ok_def)
  show ?case
  proof (cases "skip_blank s")
    case None
    then have "tokenize_loop iq s p = Inr p" "lex_line iq s = []"
      using p by (simp_all add: tokenize_loop.simps [of iq s] lex_line.simps [of iq s])
    then show ?thesis using "1.prems"(3) p now by simp
  next
    case (Some t)
    obtain w rest where nt: "next_tok iq t = (w, rest)" by (cases "next_tok iq t")
    have ft: "t \<noteq> []" "nul_free t"
      using skip_blank_Some [OF Some] skip_blank_suffix [OF Some] "1.prems"(2) by auto
    define more where "more = (case rest of None \<Rightarrow> [] | Some r \<Rightarrow> lex_line iq r)"
    have lx: "lex_line iq s = w # more"
      using Some nt by (simp add: lex_line.simps [of iq s] more_def)
    note spec = take_token_spec [OF "1.prems"(1) ft nt]
    have step: "tokenize_loop iq s p = (case take_token iq t p of
          Inl e \<Rightarrow> Inl e
        | Inr (p', rest) \<Rightarrow> (case rest of None \<Rightarrow> Inr p' | Some r \<Rightarrow> tokenize_loop iq r p'))"
      using p Some by (simp add: tokenize_loop.simps [of iq s])
    show ?thesis
    proof (cases "availableBuf p < int (length w) + 3")
      case True
      then obtain p' where tk: "take_token iq t p = Inr (p', None)"
          and ok: "params_ok (p'\<lparr>textOut := textOut p, availableBuf := availableBuf p\<rparr>) ts"
        using spec by auto
      have "tokenize_loop iq s p = Inr p'" using step tk by simp
      moreover have "ws = []" using "1.prems"(3) lx True by simp
      ultimately show ?thesis using p ok by (simp add: params_ok_def)
    next
      case False
      have ws: "ws = w # fitting (availableBuf p - int (length w) - 1) more"
        using "1.prems"(3) lx False by simp
      show ?thesis
      proof (cases "length ts + 1 = MAX_STRING_TOKENS")
        case True
        then have "take_token iq t p = Inl OUT_OF_BOUNDS" using spec False by simp
        then show ?thesis using step ws True by simp
      next
        case room: False
        then obtain p' where tk: "take_token iq t p = Inr (p', rest)" and ok: "params_ok p' (ts @ [w])"
          using spec False by auto
        have av: "availableBuf p' = availableBuf p - int (length w) - 1"
          using ok "1.prems"(1) by (simp add: params_ok_def)
        show ?thesis
        proof (cases rest)
          case None
          then have "tokenize_loop iq s p = Inr p'" "ws = [w]"
            using step tk ws by (simp_all add: more_def)
          then show ?thesis using ok p room by (simp add: params_ok_def)
        next
          case (Some r)
          have "nul_free r" using next_tok_suffix [of iq t w r] nt Some ft by auto
          define ws' where "ws' = fitting (availableBuf p') (lex_line iq r)"
          have "ws = w # ws'" using ws av Some by (simp add: ws'_def more_def)
          moreover have "tokenize_loop iq s p = tokenize_loop iq r p'"
            using step tk Some by simp
          ultimately show ?thesis
            using "1.IH" [OF p(3) \<open>skip_blank s = Some t\<close> tk refl Some ok \<open>nul_free r\<close> ws'_def]
            by (auto split: if_splits)
        qed
      qed
    qed
  qed
qed

section \<open>The operations on the stack\<close>

lemma tokens_in_nth:
  assumes "tokens_in argv cells ts" "i < length ts"
  shows "\<exists>p. argv ! i = Some p \<and> cstr (drop p cells) = ts ! i"
proof -
  have ts: "ts = take i ts @ ts ! i # drop (Suc i) ts"
    using assms(2) by (rule id_take_nth_drop)
  define p where "p = pack (take i ts)"
  define rest where "rest = drop (length (pack ts)) cells"
  have "cells = pack ts @ rest"
    using assms(1) append_take_drop_id [of "length (pack ts)" cells]
    by (auto simp: tokens_in_def rest_def)
  also have "pack ts = p @ ts ! i @ NUL # pack (drop (Suc i) ts)"
    using arg_cong [OF ts, of pack] by (simp add: p_def)
  finally have "cells = p @ ts ! i @ NUL # pack (drop (Suc i) ts) @ rest"
    by simp
  then have "drop (length p) cells
      = ts ! i @ NUL # pack (drop (Suc i) ts) @ rest"
    by (metis append_eq_conv_conj)
  moreover have "nul_free (ts ! i)" using assms by (simp add: tokens_in_def)
  ultimately have "cstr (drop (length p) cells) = ts ! i" by (simp add: cstr_string)
  moreover have "argv ! i = Some (length p)" using assms by (simp add: tokens_in_def p_def)
  ultimately show ?thesis by blast
qed

lemma Cmd_Argc_top: "tok_ok t S \<Longrightarrow> Cmd_Argc t = (if S = [] then 0 else length (last S))"
  by (simp add: tok_ok_def Cmd_Argc_def last_conv_nth)

lemma Cmd_Argv_top:
  assumes "tok_ok t S" "0 \<le> arg"
  shows "Cmd_Argv t arg =
    Inr (if S \<noteq> [] \<and> nat arg < length (last S) then last S ! nat arg else '''')"
proof (cases "S \<noteq> [] \<and> nat arg < length (last S)")
  case False
  then show ?thesis using assms Cmd_Argc_top [OF assms(1)] by (auto simp: Cmd_Argv_def Let_def)
next
  case True
  then have S: "concat S = concat (butlast S) @ last S"
    by (metis append_butlast_last_id concat.simps concat_append append_Nil2)
  define i where "i = length (concat (butlast S)) + nat arg"
  have len: "length (concat S) = length (concat (butlast S)) + length (last S)" using S by simp
  have argc: "cmd_argc t = length (concat S)" "Cmd_Argc t = length (last S)"
    using assms(1) True Cmd_Argc_top [OF assms(1)] by (simp_all add: tok_ok_def)
  have ti: "tokens_in (cmd_argv t) (cmd_tokenized t) (concat S)" and i: "i < length (concat S)"
    using assms True len by (simp_all add: tok_ok_def i_def)
  obtain p where p: "cmd_argv t ! i = Some p" "cstr (drop p (cmd_tokenized t)) = concat S ! i"
    using tokens_in_nth [OF ti i] by blast
  have no: "last S \<noteq> []" "\<not> int (length (last S)) \<le> arg"
    using True assms(2) by auto
  have "i < MAX_STRING_TOKENS" using ti i by (simp add: tokens_in_def)
  moreover have "int (cmd_argc t) - int (Cmd_Argc t) + arg = int i"
    using argc len assms(2) by (simp add: i_def)
  ultimately have "Cmd_Argv t arg = Inr (concat S ! i)"
    using True argc p no by (simp add: Cmd_Argv_def Let_def)
  moreover have "concat S ! i = last S ! nat arg" by (simp add: S i_def nth_append)
  ultimately show ?thesis using True by simp
qed

lemma Cmd_EndTokenizedString_pop:
  assumes "tok_ok t S"
  shows "if S = [] then Cmd_EndTokenizedString t = Inl (COM_ERROR ERR_FATAL)
         else \<exists>t'. Cmd_EndTokenizedString t = Inr t' \<and> tok_ok t' (butlast S)"
proof (cases "S = []")
  case True
  then show ?thesis using assms by (simp add: tok_ok_def Cmd_EndTokenizedString_def)
next
  case False
  define B where "B = butlast S"
  have S: "S = B @ [last S]" using False by (simp add: B_def)
  have ti: "tokens_in (cmd_argv t) (cmd_tokenized t) (concat B @ last S)"
    using assms arg_cong [OF S, of concat] by (simp add: tok_ok_def)
  have next_free: "cmd_argv t ! length (concat B) = Some (length (pack (concat B)))
      \<or> concat B = [] \<and> cmd_argv t ! 0 = None"
  proof (cases "last S = []")
    case True
    then show ?thesis using ti by (simp add: tokens_in_def)
  next
    case False
    then have "length (concat B) < length (concat B @ last S)" by simp
    then show ?thesis using ti by (simp add: tokens_in_def del: length_concat)
  qed
  have "take (length (pack (concat B))) (cmd_tokenized t) = pack (concat B)"
  proof -
    have "pack (concat B) = take (length (pack (concat B))) (pack (concat B @ last S))" by simp
    also have "\<dots> = take (length (pack (concat B))) (take (length (pack (concat B @ last S))) (cmd_tokenized t))"
      using ti by (simp add: tokens_in_def)
    finally show ?thesis by (simp add: min_def)
  qed
  moreover have "\<forall>i < length (concat B). cmd_argv t ! i = Some (length (pack (take i (concat B))))"
  proof (intro allI impI)
    fix i assume i: "i < length (concat B)"
    then have "i < length (concat B @ last S)" by simp
    then have "cmd_argv t ! i = Some (length (pack (take i (concat B @ last S))))"
      using ti by (simp only: tokens_in_def)
    then show "cmd_argv t ! i = Some (length (pack (take i (concat B))))" using i by simp
  qed
  ultimately have tb: "tokens_in (cmd_argv t) (cmd_tokenized t) (concat B)"
    using ti next_free by (auto simp: tokens_in_def)
  have len: "length S = Suc (length B)" "currentString t = Suc (length B)" "length B < MAX_TOKENIZE_STRINGS"
  proof -
    show l: "length S = Suc (length B)" using False by (simp add: B_def)
    have c: "currentString t = length S" "length S \<le> MAX_TOKENIZE_STRINGS"
      using assms by (simp_all add: tok_ok_def)
    show "currentString t = Suc (length B)" "length B < MAX_TOKENIZE_STRINGS"
      using c l by (metis, metis Suc_le_eq)
  qed
  have args: "\<forall>i < length B. cmd_argcList t ! i = length (B ! i)"
      "cmd_argcList t ! length B = length (last S)"
  proof -
    have a: "\<forall>i < length S. cmd_argcList t ! i = length (S ! i)"
      using assms by (simp add: tok_ok_def)
    have n: "\<forall>i < length B. S ! i = B ! i" "S ! length B = last S"
      using False by (simp_all add: B_def nth_butlast last_conv_nth)
    show "\<forall>i < length B. cmd_argcList t ! i = length (B ! i)"
      "cmd_argcList t ! length B = length (last S)"
      using a n len(1) by simp_all
  qed
  have "cmd_argc t - cmd_argcList t ! length B = length (concat B)"
    using assms args arg_cong [OF S, of concat] by (simp add: tok_ok_def)
  then have "Cmd_EndTokenizedString t = Inr (t\<lparr>currentString := length B, cmd_argc := length (concat B)\<rparr>)"
    using len by (simp add: Cmd_EndTokenizedString_def)
  moreover have "tok_ok (t\<lparr>currentString := length B, cmd_argc := length (concat B)\<rparr>) B"
    using assms tb len args by (simp add: tok_ok_def)
  ultimately show ?thesis using False by (auto simp: B_def)
qed

definition cells_left :: "string list list \<Rightarrow> int" where
  "cells_left S = int TOKENIZED_SIZE - int (length (pack (concat S)))"

text \<open>A fresh tokenizer has no place for a nested line before its first token is stored.\<close>

definition can_nest :: "tokenizer \<Rightarrow> string list list \<Rightarrow> bool" where
  "can_nest t S \<longleftrightarrow> S = [] \<or> concat S \<noteq> [] \<or> cmd_argv t ! 0 \<noteq> None"

lemma Cmd_TokenizeString2_push:
  assumes "tok_ok t S" "length S < MAX_TOKENIZE_STRINGS" "can_nest t S" "nul_free s"
    and ws: "ws = fitting (cells_left S) (lex_line iq s)"
  shows "if length (concat S) + length ws < MAX_STRING_TOKENS
         then \<exists>t'. Cmd_TokenizeString2 (Some s) iq t = Inr t' \<and> tok_ok t' (S @ [ws])
         else Cmd_TokenizeString2 (Some s) iq t = Inl OUT_OF_BOUNDS"
proof -
  define out where
    "out = (if 0 < currentString t then the (cmd_argv t ! cmd_argc t) else 0)"
  have ti: "tokens_in (cmd_argv t) (cmd_tokenized t) (concat S)"
      and st: "currentString t = length S" "cmd_argc t = length (concat S)"
        "length (cmd_argcList t) = MAX_TOKENIZE_STRINGS"
        "\<forall>i < length S. cmd_argcList t ! i = length (S ! i)"
    using assms(1) by (simp_all add: tok_ok_def)
  have nn: "0 < currentString t \<Longrightarrow> cmd_argv t ! cmd_argc t \<noteq> None"
    using ti assms(3) st by (auto simp: tokens_in_def can_nest_def)
  have out: "out = length (pack (concat S))"
  proof (cases "S = []")
    case True
    then show ?thesis using st by (simp add: out_def)
  next
    case False
    define C where "C = concat S"
    have a: "cmd_argv t ! length C = Some (length (pack C)) \<or> C = [] \<and> cmd_argv t ! 0 = None"
      using ti unfolding tokens_in_def C_def by blast
    have b: "cmd_argv t ! length C \<noteq> None" using nn st(1,2) False by (simp add: C_def)
    from a b have "cmd_argv t ! length C = Some (length (pack C))" by auto
    then show ?thesis using st(1,2) False by (simp add: out_def C_def)
  qed
  define p where "p = \<lparr>p_argc = cmd_argc t, availableBuf = int TOKENIZED_SIZE - int out,
      textOut = out, p_argv = cmd_argv t, p_cells = cmd_tokenized t\<rparr>"
  have p: "params_ok p (concat S)"
    using ti st out by (simp add: params_ok_def p_def)
  have "availableBuf p = cells_left S" by (simp add: p_def out cells_left_def)
  then have loop: "if length (concat S) + length ws < MAX_STRING_TOKENS
     then \<exists>p'. tokenize_loop iq s p = Inr p' \<and> p_argc p' = length (concat S) + length ws
            \<and> tokens_in (p_argv p') (p_cells p') (concat S @ ws)
     else tokenize_loop iq s p = Inl OUT_OF_BOUNDS"
    using p assms(4) ws by (intro tokenize_loop_spec) simp_all
  have few: "\<not> MAX_STRING_TOKENS \<le> cmd_argc t" using ti st by (simp add: tokens_in_def)
  have run: "Cmd_TokenizeString2 (Some s) iq t =
      (case tokenize_loop iq s p of
         Inl e \<Rightarrow> Inl e
       | Inr p \<Rightarrow> Inr \<lparr>currentString = currentString t + 1, cmd_argc = p_argc p,
           cmd_argcList = (cmd_argcList t)[currentString t := p_argc p - cmd_argc t],
           cmd_argv = p_argv p, cmd_tokenized = p_cells p\<rparr>)"
    unfolding Cmd_TokenizeString2_def Cmd_TokenizeStringInternal_def out_def [symmetric] Let_def
      p_def [symmetric]
    using nn few assms(2) st by auto
  show ?thesis
  proof (cases "length (concat S) + length ws < MAX_STRING_TOKENS")
    case True
    then obtain p' where p': "tokenize_loop iq s p = Inr p'"
        "p_argc p' = length (concat S) + length ws"
        "tokens_in (p_argv p') (p_cells p') (concat S @ ws)"
      using loop by auto
    define t' where "t' = \<lparr>currentString = length S + 1, cmd_argc = p_argc p',
        cmd_argcList = (cmd_argcList t)[length S := length ws],
        cmd_argv = p_argv p', cmd_tokenized = p_cells p'\<rparr>"
    have "Cmd_TokenizeString2 (Some s) iq t = Inr t'"
      using run p' st by (simp add: t'_def)
    moreover have "tok_ok t' (S @ [ws])"
      using p' st assms(2) by (auto simp: tok_ok_def t'_def nth_append nth_list_update less_Suc_eq)
    ultimately show ?thesis using True by auto
  next
    case False
    then show ?thesis using run loop by auto
  qed
qed

lemma Cmd_TokenizeString2_deep:
  "length S = MAX_TOKENIZE_STRINGS \<Longrightarrow> tok_ok t S \<Longrightarrow> Cmd_TokenizeString2 s iq t = Inr t"
  by (simp add: Cmd_TokenizeString2_def tok_ok_def)

text \<open>The joined arguments.\<close>

fun joined :: "string list \<Rightarrow> string" where
  "joined [] = ''''"
| "joined [w] = w"
| "joined (w # ws) = w @ '' '' @ joined ws"

lemma strcat_fault_ok:
  assumes "int (length (cstr dest) + length s) < n" "nat n \<le> length dest" "nul_free s"
  shows "\<exists>d. strcat_fault dest n s = Inr d \<and> length d = length dest \<and> cstr d = cstr dest @ s"
proof -
  obtain d where "Q_strcat dest n s = Inr d" "length d = length dest"
      "cstr d = take (nat (n - 1)) (cstr dest @ s)"
    using Q_strcat_ok [of dest n s] assms by auto
  moreover have "take (nat (n - 1)) (cstr dest @ s) = cstr dest @ s"
    using assms(1) by simp
  ultimately show ?thesis by (simp add: strcat_fault_def)
qed

lemma joined_Cons: "joined (w # ws) = (if ws = [] then w else w @ '' '' @ joined ws)"
  by (cases ws) simp_all

lemma tok_ok_nul_free: "tok_ok t S \<Longrightarrow> S \<noteq> [] \<Longrightarrow> w \<in> set (last S) \<Longrightarrow> nul_free w"
  by (auto simp: tok_ok_def tokens_in_def)

lemma args_loop_joined:
  assumes "tok_ok t S" "S \<noteq> []" "0 \<le> i"
    and "int (length (cstr buff) + length (joined (drop (nat i) (last S)))) < n" "nat n \<le> length buff"
  shows "\<exists>b. args_loop t i buff n = Inr b \<and> length b = length buff
           \<and> cstr b = cstr buff @ joined (drop (nat i) (last S))"
  using assms(3-5)
proof (induction "length (last S) - nat i" arbitrary: i buff)
  case 0
  have "int (length (last S)) \<le> i" using 0(1,2) by linarith
  then show ?case
    using Cmd_Argc_top [OF assms(1)] assms(2) by (simp add: args_loop.simps [of t i])
next
  case (Suc k)
  define A where "A = last S"
  have argc: "Cmd_Argc t = length A" using Cmd_Argc_top [OF assms(1)] assms(2) by (simp add: A_def)
  have i: "nat i < length A" "\<not> int (length A) \<le> i" using Suc.hyps(2) Suc.prems(1) by (auto simp: A_def)
  have argv: "Cmd_Argv t i = Inr (A ! nat i)"
    using Cmd_Argv_top [OF assms(1) Suc.prems(1)] i(1) assms(2) by (simp add: A_def)
  have free: "nul_free (A ! nat i)" using tok_ok_nul_free [OF assms(1,2)] i(1) by (simp add: A_def)
  have dr: "drop (nat i) A = A ! nat i # drop (nat (i + 1)) A"
    using i(1) Suc.prems(1) by (simp add: Cons_nth_drop_Suc nat_add_distrib)
  have j: "joined (drop (nat i) A) = (if i = int (length A) - 1 then A ! nat i
      else A ! nat i @ '' '' @ joined (drop (nat (i + 1)) A))"
    unfolding dr joined_Cons using i Suc.prems(1) by auto
  obtain d where d: "strcat_fault buff n (A ! nat i) = Inr d" "length d = length buff"
      "cstr d = cstr buff @ A ! nat i"
    using strcat_fault_ok [of buff "A ! nat i" n] Suc.prems(2,3) free j
    by (auto simp: A_def split: if_splits)
  have k: "k = length (last S) - nat (i + 1)" using Suc.hyps(2) Suc.prems(1) by (simp add: A_def nat_add_distrib)
  show ?case
  proof (cases "i = int (length A) - 1")
    case True
    then have "args_loop t (i + 1) d n = Inr d"
      using argc by (subst args_loop.simps) simp
    then have e: "args_loop t i buff n = Inr d"
      using argv d argc i(2) True by (subst args_loop.simps) (simp del: args_loop.simps)
    show ?thesis using e d j True by (simp add: A_def)
  next
    case False
    have "int (length (cstr d) + 1) < n" using Suc.prems(2) j False d(3) by (simp add: A_def)
    then obtain d2 where d2: "strcat_fault d n '' '' = Inr d2" "length d2 = length buff"
        "cstr d2 = cstr buff @ A ! nat i @ '' ''"
      using strcat_fault_ok [of d "'' ''" n] Suc.prems(3) d(2,3) by auto
    have e: "args_loop t i buff n = args_loop t (i + 1) d2 n"
      using argv d argc i(2) False d2(1) by (simp add: args_loop.simps [of t i])
    have "\<exists>b. args_loop t (i + 1) d2 n = Inr b \<and> length b = length d2
        \<and> cstr b = cstr d2 @ joined (drop (nat (i + 1)) (last S))"
      using Suc.prems j False d2 by (intro Suc.hyps(1) k) (auto simp: A_def)
    then show ?thesis using e d2 j False by (auto simp: A_def)
  qed
qed

section \<open>Plain tokens\<close>

text \<open>A token that needs no quotes and opens no comment; several joined by spaces lex back.\<close>

fun comment_free :: "string \<Rightarrow> bool" where
  "comment_free [] = True"
| "comment_free (c # s) =
     (\<not> slash_comment (c # s) \<and> \<not> star_comment (c # s) \<and> comment_free s)"

definition plain_token :: "string \<Rightarrow> bool" where
  "plain_token w \<longleftrightarrow>
     w \<noteq> [] \<and> comment_free w \<and> (\<forall>c \<in> set w. \<not> blank c \<and> c \<noteq> DQUOTE)"

definition at_gap :: "string \<Rightarrow> bool" where
  "at_gap r \<longleftrightarrow> r = [] \<or> hd r = CHR '' ''"

lemma blank_space [simp]: "blank (CHR '' '')"
  by (simp add: blank_def uc_def)

lemma lead2_gap:
  "at_gap r \<Longrightarrow> b \<noteq> CHR '' '' \<Longrightarrow> lead2 a b (c # s @ r) = lead2 a b (c # s)"
  by (cases s; cases r) (auto simp: at_gap_def)

lemma word_plain:
  "comment_free w \<Longrightarrow> \<forall>c \<in> set w. \<not> blank c \<and> c \<noteq> DQUOTE \<Longrightarrow> at_gap r \<Longrightarrow>
   word iq (w @ r) = (w, r)"
proof (induction w)
  case Nil
  then show ?case by (cases r) (auto simp: at_gap_def)
next
  case (Cons c w)
  then show ?case by (simp add: lead2_gap [of r])
qed

lemma skip_blank_plain:
  assumes "plain_token w" "at_gap r"
  shows "skip_blank (w @ r) = Some (w @ r)"
proof -
  obtain c v where w: "w = c # v" using assms(1) by (cases w) (auto simp: plain_token_def)
  then show ?thesis
    using assms by (simp add: plain_token_def skip_blank.simps [of "c # v @ r"] lead2_gap [of r])
qed

lemma skip_blank_space: "skip_blank (CHR '' '' # s) = skip_blank s"
  by (subst (1 2) skip_blank.simps) simp

lemma plain_token_nul_free: "plain_token w \<Longrightarrow> nul_free w"
  using blank_nul by (auto simp: plain_token_def nul_free_def)

lemma lex_space: "lex_line iq (CHR '' '' # s) = lex_line iq s"
  by (subst (1 2) lex_line.simps) (simp add: skip_blank_space)

lemma next_tok_plain:
  assumes "plain_token w" "at_gap r"
  shows "next_tok iq (w @ r) = (w, if r = [] then None else Some r)"
  using assms word_plain [of w r iq]
  by (cases w; cases r) (auto simp: next_tok_def plain_token_def)

lemma lex_joined: "\<forall>w \<in> set ws. plain_token w \<Longrightarrow> lex_line iq (joined ws) = ws"
proof (induction ws)
  case Nil
  then show ?case by (simp add: lex_line.simps skip_blank.simps)
next
  case (Cons w ws)
  show ?case
  proof (cases "ws = []")
    case True
    then show ?thesis
      using Cons.prems skip_blank_plain [of w "[]"] next_tok_plain [of w "[]" iq]
      by (simp add: lex_line.simps [of iq w] at_gap_def)
  next
    case False
    define r where "r = CHR '' '' # joined ws"
    have r: "at_gap r" "r \<noteq> []" by (simp_all add: at_gap_def r_def)
    have "joined (w # ws) = w @ r" using False by (simp add: joined_Cons r_def)
    moreover have "lex_line iq (w @ r) = w # lex_line iq r"
      using Cons.prems r skip_blank_plain [of w r] next_tok_plain [of w r iq]
      by (simp add: lex_line.simps [of iq "w @ r"])
    moreover have "lex_line iq r = ws"
      using Cons by (simp add: r_def lex_space)
    ultimately show ?thesis by simp
  qed
qed

lemma fitting_all: "int (length (pack ws)) + 2 \<le> n \<Longrightarrow> fitting n ws = ws"
  by (induction ws arbitrary: n) simp_all

lemma nul_free_joined: "\<forall>w \<in> set ws. nul_free w \<Longrightarrow> nul_free (joined ws)"
  by (induction ws) (auto simp: joined_Cons)

section \<open>The stack interface\<close>

text \<open>
  What a caller of the tokenizer relies on.  \<open>with_args\<close> is the shape of every caller: it
  tokenizes a line, runs code that may itself use the tokenizer, and ends its line.
\<close>

locale arg_stack =
  fixes rep :: "'a \<Rightarrow> string list list \<Rightarrow> bool"
    and push :: "string \<Rightarrow> 'a \<Rightarrow> fault + 'a"
    and pop :: "'a \<Rightarrow> fault + 'a"
    and count :: "'a \<Rightarrow> nat"
    and arg :: "'a \<Rightarrow> int \<Rightarrow> fault + string"
    and fits :: "'a \<Rightarrow> string list list \<Rightarrow> string \<Rightarrow> string list \<Rightarrow> bool"
  assumes push_law: "rep t S \<Longrightarrow> fits t S s ws \<Longrightarrow> \<exists>t'. push s t = Inr t' \<and> rep t' (S @ [ws])"
    and pop_law: "rep t (S @ [ws]) \<Longrightarrow> \<exists>t'. pop t = Inr t' \<and> rep t' S"
    and count_law: "rep t (S @ [ws]) \<Longrightarrow> count t = length ws"
    and arg_law: "rep t (S @ [ws]) \<Longrightarrow> 0 \<le> i \<Longrightarrow>
      arg t i = Inr (if nat i < length ws then ws ! nat i else '''')"
begin

definition with_args :: "string \<Rightarrow> ('a \<Rightarrow> fault + 'a) \<Rightarrow> 'a \<Rightarrow> fault + 'a" where
  "with_args s body t =
     (case push s t of Inl e \<Rightarrow> Inl e
      | Inr t1 \<Rightarrow> (case body t1 of Inl e \<Rightarrow> Inl e | Inr t2 \<Rightarrow> pop t2))"

definition balanced :: "('a \<Rightarrow> fault + 'a) \<Rightarrow> string list list \<Rightarrow> bool" where
  "balanced body S \<longleftrightarrow> (\<forall>t. rep t S \<longrightarrow> (\<exists>t'. body t = Inr t' \<and> rep t' S))"

lemma push_visible:
  assumes "rep t S" "fits t S s ws"
  shows "\<exists>t'. push s t = Inr t' \<and> rep t' (S @ [ws]) \<and> count t' = length ws
    \<and> (\<forall>i \<ge> 0. arg t' i = Inr (if nat i < length ws then ws ! nat i else ''''))
    \<and> (\<exists>t''. pop t' = Inr t'' \<and> rep t'' S)"
proof -
  obtain t' where t': "push s t = Inr t'" "rep t' (S @ [ws])" using push_law [OF assms] by blast
  then show ?thesis
    using pop_law [OF t'(2)] count_law [OF t'(2)] arg_law [OF t'(2)] by blast
qed

lemma with_args_balanced:
  assumes "rep t S" "fits t S s ws" "balanced body (S @ [ws])"
  shows "\<exists>t'. with_args s body t = Inr t' \<and> rep t' S"
proof -
  obtain t1 where t1: "push s t = Inr t1" "rep t1 (S @ [ws])"
    using push_law [OF assms(1,2)] by blast
  then obtain t2 where t2: "body t1 = Inr t2" "rep t2 (S @ [ws])"
    using assms(3) unfolding balanced_def by blast
  obtain t3 where "pop t2 = Inr t3" "rep t3 S" using pop_law [OF t2(2)] by blast
  then show ?thesis using t1 t2 by (simp add: with_args_def)
qed

end

definition line_fits :: "bool \<Rightarrow> tokenizer \<Rightarrow> string list list \<Rightarrow> string \<Rightarrow> string list \<Rightarrow> bool" where
  "line_fits iq t S s ws \<longleftrightarrow>
     length S < MAX_TOKENIZE_STRINGS \<and> can_nest t S \<and> nul_free s
     \<and> ws = fitting (cells_left S) (lex_line iq s)
     \<and> length (concat S) + length ws < MAX_STRING_TOKENS"

interpretation toks: arg_stack tok_ok "\<lambda>s. Cmd_TokenizeString2 (Some s) iq"
  Cmd_EndTokenizedString Cmd_Argc Cmd_Argv "line_fits iq" for iq
proof unfold_locales
  fix t S s ws
  assume "tok_ok t S" "line_fits iq t S s ws"
  then show "\<exists>t'. Cmd_TokenizeString2 (Some s) iq t = Inr t' \<and> tok_ok t' (S @ [ws])"
    using Cmd_TokenizeString2_push [of t S s ws iq] by (auto simp: line_fits_def split: if_splits)
next
  fix t S ws
  assume t: "tok_ok t (S @ [ws])"
  show "\<exists>t'. Cmd_EndTokenizedString t = Inr t' \<and> tok_ok t' S"
    using Cmd_EndTokenizedString_pop [OF t] by simp
  show "Cmd_Argc t = length ws" using Cmd_Argc_top [OF t] by simp
  show "Cmd_Argv t i = Inr (if nat i < length ws then ws ! nat i else '''')" if "0 \<le> i" for i
    using Cmd_Argv_top [OF t that] by simp
qed

section \<open>Properties\<close>

text \<open>
  Claim C19.  Tokenizing a line pushes the tokens the reference lexer finds, as many as
  the buffer has room for; \<open>Cmd_Argc\<close> and \<open>Cmd_Argv\<close> then show exactly these (an index past
  the end is the empty string), and \<open>Cmd_EndTokenizedString\<close> gives the caller's line back.
\<close>

theorem Cmd_TokenizeString_stack:
  assumes "tok_ok t S" "length S < MAX_TOKENIZE_STRINGS" "can_nest t S" "nul_free s"
    and "ws = fitting (cells_left S) (lex_line False s)"
    and "length (concat S) + length ws < MAX_STRING_TOKENS"
  shows "\<exists>t'. Cmd_TokenizeString (Some s) t = Inr t' \<and> tok_ok t' (S @ [ws])
    \<and> Cmd_Argc t' = length ws
    \<and> (\<forall>i \<ge> 0. Cmd_Argv t' i = Inr (if nat i < length ws then ws ! nat i else ''''))
    \<and> (\<exists>t''. Cmd_EndTokenizedString t' = Inr t'' \<and> tok_ok t'' S)"
  using toks.push_visible [of t S False s ws] assms
  by (simp add: Cmd_TokenizeString_def line_fits_def)

lemma lex_sample: "lex_line False ''say \"a b\"/*x*/c //d'' = [''say'', ''a b'', ''c'']"
  by (simp add: lex_line.simps skip_blank.simps next_tok_def blank_def uc_def Let_def)

theorem Cmd_TokenizeString_stack_witness:
  "\<exists>t'. Cmd_TokenizeString (Some ''say \"a b\"/*x*/c //d'') tokenizer_zero = Inr t'
     \<and> Cmd_Argc t' = 3 \<and> Cmd_Argv t' 1 = Inr ''a b'' \<and> Cmd_Argv t' 3 = Inr ''''"
proof -
  let ?ws = "[''say'', ''a b'', ''c'']"
  have "\<exists>t'. Cmd_TokenizeString (Some ''say \"a b\"/*x*/c //d'') tokenizer_zero = Inr t'
      \<and> tok_ok t' ([] @ [?ws]) \<and> Cmd_Argc t' = length ?ws
      \<and> (\<forall>i \<ge> 0. Cmd_Argv t' i = Inr (if nat i < length ?ws then ?ws ! nat i else ''''))
      \<and> (\<exists>t''. Cmd_EndTokenizedString t' = Inr t'' \<and> tok_ok t'' [])"
    using lex_sample
    by (intro Cmd_TokenizeString_stack)
      (simp_all add: tokenizer_zero_ok MAX_TOKENIZE_STRINGS_def can_nest_def cells_left_def
        TOKENIZED_SIZE_def MAX_STRING_TOKENS_def)
  then show ?thesis by fastforce
qed

text \<open>
  A line overruns the argument array exactly when, with the tokens of the lines
  it is nested in, it has at least \<open>MAX_STRING_TOKENS\<close> tokens that fit the buffer: after the
  last entry's token is counted the next start is stored at \<open>cmd_argv[1024]\<close>, before the loop
  looks at the limit.  Otherwise tokenizing a line never leaves its arrays.
\<close>

theorem Cmd_TokenizeString_overrun:
  assumes "tok_ok t S" "length S < MAX_TOKENIZE_STRINGS" "can_nest t S" "nul_free s"
  shows "Cmd_TokenizeString (Some s) t = Inl OUT_OF_BOUNDS \<longleftrightarrow>
    MAX_STRING_TOKENS \<le> length (concat S) + length (fitting (cells_left S) (lex_line False s))"
  using Cmd_TokenizeString2_push [OF assms refl, of False]
  by (auto simp: Cmd_TokenizeString_def split: if_splits)

lemma pack_replicate: "length (pack (replicate n w)) = n * (length w + 1)"
  by (induction n) simp_all

lemma lex_many: "lex_line iq (joined (replicate n ''a'')) = replicate n ''a''"
  by (rule lex_joined) (auto simp: plain_token_def blank_def uc_def dest!: in_set_replicate [THEN iffD1])

lemma nul_free_many: "nul_free (joined (replicate n ''a''))"
  by (rule nul_free_joined) (auto simp: nul_free_def)

theorem Cmd_TokenizeString_overrun_witness:
  "Cmd_TokenizeString (Some (joined (replicate 1024 ''a''))) tokenizer_zero = Inl OUT_OF_BOUNDS"
proof -
  have "fitting (cells_left []) (replicate 1024 ''a'') = replicate 1024 ''a''"
    by (rule fitting_all) (simp only: pack_replicate, simp add: cells_left_def TOKENIZED_SIZE_def)
  then have "length (fitting (cells_left []) (lex_line False (joined (replicate 1024 ''a'')))) = 1024"
    unfolding lex_many by (simp only: length_replicate)
  moreover have "can_nest tokenizer_zero []" by (simp add: can_nest_def)
  ultimately show ?thesis
    using Cmd_TokenizeString_overrun [OF tokenizer_zero_ok _ _ nul_free_many, of 1024]
    by (simp add: MAX_TOKENIZE_STRINGS_def MAX_STRING_TOKENS_def)
qed

text \<open>
  At the nesting limit a line is not tokenized but its end is: the 33rd nested
  line leaves the arguments of the 32nd visible, and ending it pops the 32nd.
\<close>

theorem Cmd_nesting_limit_unbalanced:
  assumes "tok_ok t S" "length S = MAX_TOKENIZE_STRINGS"
  shows "Cmd_TokenizeString (Some s) t = Inr t
    \<and> Cmd_Argc t = length (last S)
    \<and> (\<exists>t'. Cmd_EndTokenizedString t = Inr t' \<and> tok_ok t' (butlast S))"
proof -
  have "S \<noteq> []" using assms(2) by (auto simp: MAX_TOKENIZE_STRINGS_def)
  then show ?thesis
    using Cmd_TokenizeString2_deep [OF assms(2,1)] Cmd_Argc_top [OF assms(1)]
      Cmd_EndTokenizedString_pop [OF assms(1)]
    by (simp add: Cmd_TokenizeString_def)
qed

lemma nested_lines: "n \<le> 32 \<Longrightarrow> \<exists>t. tok_ok t (replicate n [''a''])"
proof (induction n)
  case 0
  then show ?case using tokenizer_zero_ok by auto
next
  case (Suc n)
  then obtain t where t: "tok_ok t (replicate n [''a''])" by auto
  have c: "concat (replicate n [''a'']) = replicate n ''a''" by (induction n) simp_all
  have "int (length (pack [''a''])) + 2 \<le> cells_left (replicate n [''a''])"
    using Suc.prems by (simp add: cells_left_def c pack_replicate TOKENIZED_SIZE_def)
  then have "fitting (cells_left (replicate n [''a''])) [''a''] = [''a'']" by (rule fitting_all)
  moreover have "lex_line False ''a'' = [''a'']" using lex_many [of False 1] by simp
  moreover have "can_nest t (replicate n [''a''])" by (cases n) (simp_all add: can_nest_def)
  ultimately have "line_fits False t (replicate n [''a'']) ''a'' [''a'']"
    using Suc.prems
    by (simp add: line_fits_def c MAX_TOKENIZE_STRINGS_def MAX_STRING_TOKENS_def
        del: length_concat)
  then show ?case
    using toks.push_law [OF t] by (metis replicate_Suc replicate_append_same)
qed

theorem Cmd_nesting_limit_unbalanced_witness:
  "\<exists>t t'. tok_ok t (replicate 32 [''a'']) \<and> Cmd_TokenizeString (Some ''b c'') t = Inr t
     \<and> Cmd_EndTokenizedString t = Inr t' \<and> tok_ok t' (butlast (replicate 32 [''a'']))"
proof -
  obtain t where t: "tok_ok t (replicate 32 [''a''])" using nested_lines [of 32] by auto
  have "length (replicate 32 [''a'']) = MAX_TOKENIZE_STRINGS"
    by (simp only: length_replicate MAX_TOKENIZE_STRINGS_def)
  from Cmd_nesting_limit_unbalanced [OF t this, of "''b c''"] t show ?thesis by blast
qed

text \<open>
  Arguments without blanks, quotes or comment marks survive \<open>Cmd_Argsv\<close>: the
  joined string, tokenized as a nested line, gives the arguments from that index on.
\<close>

theorem Cmd_Argsv_roundtrip:
  assumes "tok_ok t S" "S \<noteq> []" "length S < MAX_TOKENIZE_STRINGS"
    and "0 \<le> k" "nat k < length (last S)" "ws = drop (nat k) (last S)"
    and "\<forall>w \<in> set ws. plain_token w"
    and "int (length (joined ws)) < n" "nat n \<le> length buff"
    and "int (length (pack ws)) + 2 \<le> cells_left S"
    and "length (concat S) + length ws < MAX_STRING_TOKENS"
  shows "\<exists>b t'. Cmd_Argsv t k buff n = Inr b \<and> cstr b = joined ws
    \<and> Cmd_TokenizeString (Some (cstr b)) t = Inr t' \<and> tok_ok t' (S @ [ws])"
proof -
  have "buff \<noteq> []" using assms(8,9) by auto
  then have c0: "cstr (buff[0 := NUL]) = []" by (cases buff) (simp_all add: cstr_def)
  obtain b where b: "Cmd_Argsv t k buff n = Inr b" "cstr b = joined ws"
    using args_loop_joined [OF assms(1,2,4), of "buff[0 := NUL]" n] assms(6,8,9) c0
    by (auto simp: Cmd_Argsv_def)
  have ws: "ws = fitting (cells_left S) (lex_line False (joined ws))"
    using lex_joined [OF assms(7)] fitting_all [OF assms(10)] by simp
  have "can_nest t S"
  proof -
    have "last S \<noteq> []" "last S \<in> set S" using assms(2,5) by auto
    then have "concat S \<noteq> []" by auto
    then show ?thesis by (simp add: can_nest_def)
  qed
  moreover have "nul_free (joined ws)"
    using assms(7) plain_token_nul_free by (intro nul_free_joined) simp
  ultimately show ?thesis
    using Cmd_TokenizeString2_push [OF assms(1,3) _ _ ws] assms(11) b
    by (auto simp: Cmd_TokenizeString_def split: if_splits)
qed

theorem Cmd_Argsv_roundtrip_witness:
  "\<exists>t b t'. tok_ok t [[''map'', ''mp/x'']] \<and> Cmd_Argsv t 1 (replicate 8 NUL) 8 = Inr b
     \<and> Cmd_TokenizeString (Some (cstr b)) t = Inr t' \<and> tok_ok t' [[''map'', ''mp/x''], [''mp/x'']]"
proof -
  have "lex_line False ''map mp/x'' = [''map'', ''mp/x'']"
    by (simp add: lex_line.simps skip_blank.simps next_tok_def blank_def uc_def Let_def)
  then have "line_fits False tokenizer_zero [] ''map mp/x'' [''map'', ''mp/x'']"
    by (simp add: line_fits_def MAX_TOKENIZE_STRINGS_def can_nest_def cells_left_def
        TOKENIZED_SIZE_def MAX_STRING_TOKENS_def)
  then obtain t where t: "tok_ok t [[''map'', ''mp/x'']]"
    using toks.push_law [OF tokenizer_zero_ok] by fastforce
  have "\<exists>b t'. Cmd_Argsv t 1 (replicate 8 NUL) 8 = Inr b \<and> cstr b = joined [''mp/x'']
      \<and> Cmd_TokenizeString (Some (cstr b)) t = Inr t' \<and> tok_ok t' ([[''map'', ''mp/x'']] @ [[''mp/x'']])"
    by (rule Cmd_Argsv_roundtrip [OF t])
      (simp_all add: MAX_TOKENIZE_STRINGS_def plain_token_def blank_def uc_def cells_left_def
        TOKENIZED_SIZE_def MAX_STRING_TOKENS_def)
  then show ?thesis using t by auto
qed

end
