(* ===== verification/CmdBuffer.thy ===== *)
theory CmdBuffer
  imports CmdTokenizer
begin

text \<open>
  The command buffer of src/src/cmd.c: \<open>Cbuf_*\<close> and \<open>Cmd_Wait_f\<close>.  The text lies in the
  static array \<open>cmd_text_buf\<close> until it outgrows it, then in a heap block.  The heap is the
  parameter \<open>cbenv\<close>: the block \<open>realloc\<close> returns for a size, \<open>None\<close> when it fails, and the
  memory behind the static array, which the first growth copies although it lies outside.
  Sizes are naturals: texts of 2 GiB and more are not considered.

  The command interpreter is a parameter of \<open>Cbuf_Execute\<close>: it takes the line, the buffer
  and the rest of the server's state \<open>'w\<close>, because a command can add text or set the wait
  counter.  As commands can go on inserting themselves, the loop need not end: it takes
  fuel, and \<open>None\<close> says that the fuel did not suffice.

  The second half gives the abstraction: a buffer stands for the string \<open>content\<close>; adding
  appends, inserting prepends a line, executing removes and runs the first line.
\<close>

section \<open>State\<close>

definition MAX_CMD_BUFFER :: nat where "MAX_CMD_BUFFER = 1024"
definition MAX_CMD_LINE :: nat where "MAX_CMD_LINE = 8192"

record cbuf =
  cmd_text_buf :: "char list"
  heap_text :: "char list option"
  maxsize :: nat
  cursize :: nat
  cmd_wait :: int

record cbenv =
  realloc_fresh :: "nat \<Rightarrow> char list option"
  behind_buf :: "nat \<Rightarrow> char list"

definition text_cells :: "cbuf \<Rightarrow> char list" where
  "text_cells c = (case heap_text c of None \<Rightarrow> cmd_text_buf c | Some h \<Rightarrow> h)"

definition set_text_cells :: "char list \<Rightarrow> cbuf \<Rightarrow> cbuf" where
  "set_text_cells d c =
     (case heap_text c of
        None \<Rightarrow> c\<lparr>cmd_text_buf := d\<rparr> | Some _ \<Rightarrow> c\<lparr>heap_text := Some d\<rparr>)"

definition Cbuf_Init :: "cbuf \<Rightarrow> cbuf" where
  "Cbuf_Init c = c\<lparr>heap_text := None, maxsize := MAX_CMD_BUFFER, cursize := 0\<rparr>"

section \<open>Adding text\<close>

definition grow_text :: "cbenv \<Rightarrow> nat \<Rightarrow> cbuf \<Rightarrow> cbuf option" where
  "grow_text env len c =
     (let need = len + cursize c in
      if maxsize c < need
      then case realloc_fresh env need of
             None \<Rightarrow> None
           | Some new_buf \<Rightarrow>
               let filled =
                 (case heap_text c of
                    None \<Rightarrow> blit 0 (take need (cmd_text_buf c @ behind_buf env (need - length (cmd_text_buf c)))) new_buf
                  | Some h \<Rightarrow> blit 0 (take need h) new_buf)
               in Some (c\<lparr>heap_text := Some filled, maxsize := need\<rparr>)
      else Some c)"

definition Cbuf_AddText :: "cbenv \<Rightarrow> string \<Rightarrow> cbuf \<Rightarrow> cbuf" where
  "Cbuf_AddText env s c =
     (let len = length s + 1 in
      case grow_text env len c of
        None \<Rightarrow> c
      | Some c1 \<Rightarrow>
          (set_text_cells (blit (cursize c1) s (text_cells c1)) c1)
            \<lparr>cursize := cursize c1 + (len - 1)\<rparr>)"

primrec move_up :: "nat \<Rightarrow> nat \<Rightarrow> char list \<Rightarrow> char list" where
  "move_up 0 len d = d"
| "move_up (Suc i) len d = move_up i len (d[i + len := d ! i])"

definition Cbuf_InsertText :: "cbenv \<Rightarrow> string \<Rightarrow> cbuf \<Rightarrow> cbuf" where
  "Cbuf_InsertText env s c =
     (let len = length s + 1 in
      case grow_text env len c of
        None \<Rightarrow> c
      | Some c1 \<Rightarrow>
          (set_text_cells
             ((blit 0 s (move_up (cursize c1) len (text_cells c1)))[len - 1 := NEWLINE]) c1)
            \<lparr>cursize := cursize c1 + len\<rparr>)"

section \<open>Executing\<close>

text \<open>
  The search for the end of a line.  \<open>scan_char\<close> is the body of the loop at the character
  \<open>c\<close>, where \<open>next_char\<close> is the one behind it (\<open>None\<close> at the last position) and \<open>quotes\<close> the
  number of quotes before it: the loop stops at this index, stops at the next one (behind
  the star of a closing mark), or goes on.  In \<open>find_end\<close>, \<open>d\<close> are the cells and \<open>n\<close> is
  \<open>cursize\<close>; the result is the index it stops at and the two comment flags.
\<close>

datatype scan = Here bool bool | Behind bool bool | Go nat bool bool

definition scan_char :: "char \<Rightarrow> char option \<Rightarrow> nat \<Rightarrow> bool \<Rightarrow> bool \<Rightarrow> scan" where
  "scan_char c next_char quotes0 star0 slash0 =
     (let quotes = (if c = DQUOTE then quotes0 + 1 else quotes0);
          outside = even quotes;
          opens_slash = (outside \<and> \<not> star0 \<and> c = CHR ''/'' \<and> next_char = Some (CHR ''/''));
          opens_star = (outside \<and> \<not> opens_slash \<and> \<not> slash0 \<and> c = CHR ''/''
                        \<and> next_char = Some (CHR ''*''));
          closes_star = (outside \<and> \<not> opens_slash \<and> \<not> opens_star \<and> star0
                         \<and> c = CHR ''*'' \<and> next_char = Some (CHR ''/''));
          slash = (slash0 \<or> opens_slash);
          star = (star0 \<or> opens_star)
      in if closes_star then Behind False slash
         else if outside \<and> \<not> slash \<and> \<not> star \<and> c = CHR '';'' then Here star slash
         else if \<not> star \<and> (c = NEWLINE \<or> c = CRETURN) then Here star False
         else Go quotes star slash)"

function find_end :: "char list \<Rightarrow> nat \<Rightarrow> nat \<Rightarrow> nat \<Rightarrow> bool \<Rightarrow> bool \<Rightarrow> nat \<times> bool \<times> bool" where
  "find_end d n i quotes star slash =
     (if n \<le> i then (i, star, slash)
      else case scan_char (d ! i) (if i + 1 < n then Some (d ! (i + 1)) else None) quotes star slash of
        Here star1 slash1 \<Rightarrow> (i, star1, slash1)
      | Behind star1 slash1 \<Rightarrow> (i + 1, star1, slash1)
      | Go quotes1 star1 slash1 \<Rightarrow> find_end d n (i + 1) quotes1 star1 slash1)"
  by pat_completeness auto
termination
  by (relation "measure (\<lambda>(d, n, i, q, st, sl). n - i)") auto

declare find_end.simps [simp del]

text \<open>The next line is cut off the buffer; longer ones are cut at the size of \<open>line\<close>.\<close>

definition cut_line :: "bool \<Rightarrow> bool \<Rightarrow> cbuf \<Rightarrow> string \<times> bool \<times> bool \<times> cbuf" where
  "cut_line star slash c =
     (let d = text_cells c;
          (i0, star1, slash1) = find_end d (cursize c) 0 0 star slash;
          i = (if MAX_CMD_LINE - 1 \<le> i0 then MAX_CMD_LINE - 1 else i0);
          line = cstr (take i d)
      in if i = cursize c then (line, star1, slash1, c\<lparr>cursize := 0\<rparr>)
         else let j = i + 1; n = cursize c - j
              in (line, star1, slash1,
                  (set_text_cells (blit 0 (take n (drop j d)) d) c)\<lparr>cursize := n\<rparr>))"

type_synonym 'w exec = "string \<Rightarrow> cbuf \<times> 'w \<Rightarrow> fault + cbuf \<times> 'w"

primrec execute_loop ::
  "nat \<Rightarrow> 'w exec \<Rightarrow> bool \<Rightarrow> bool \<Rightarrow> cbuf \<times> 'w \<Rightarrow> (fault + cbuf \<times> 'w) option" where
  "execute_loop 0 exec star slash cw = None"
| "execute_loop (Suc k) exec star slash cw =
     (if cursize (fst cw) = 0 then Some (Inr cw)
      else if 0 < cmd_wait (fst cw)
        then Some (Inr ((fst cw)\<lparr>cmd_wait := cmd_wait (fst cw) - 1\<rparr>, snd cw))
      else let (line, star1, slash1, c1) = cut_line star slash (fst cw)
           in case exec line (c1, snd cw) of
                Inl e \<Rightarrow> Some (Inl e)
              | Inr cw1 \<Rightarrow> execute_loop k exec star1 slash1 cw1)"

definition release_text :: "cbuf \<Rightarrow> cbuf" where
  "release_text c =
     (if cursize c = 0 \<and> heap_text c \<noteq> None
      then c\<lparr>heap_text := None, maxsize := MAX_CMD_BUFFER\<rparr> else c)"

definition Cbuf_Execute ::
  "nat \<Rightarrow> 'w exec \<Rightarrow> cbuf \<times> 'w \<Rightarrow> (fault + cbuf \<times> 'w) option" where
  "Cbuf_Execute fuel exec cw =
     (case execute_loop fuel exec False False cw of
        None \<Rightarrow> None
      | Some (Inl e) \<Rightarrow> Some (Inl e)
      | Some (Inr cw1) \<Rightarrow> Some (Inr (release_text (fst cw1), snd cw1)))"

text \<open>\<open>strlen\<close> of NULL is a read outside memory.\<close>

definition Cbuf_ExecuteText ::
  "nat \<Rightarrow> cbenv \<Rightarrow> 'w exec \<Rightarrow> int \<Rightarrow> string option \<Rightarrow> cbuf \<times> 'w \<Rightarrow> (fault + cbuf \<times> 'w) option" where
  "Cbuf_ExecuteText fuel env exec exec_when txt cw =
     (if exec_when = 0
      then (if txt \<noteq> None \<and> the txt \<noteq> [] then Some (exec (the txt) cw)
            else Cbuf_Execute fuel exec cw)
      else if exec_when = 1
        then (case txt of None \<Rightarrow> Some (Inl OUT_OF_BOUNDS)
              | Some s \<Rightarrow> Some (Inr (Cbuf_InsertText env s (fst cw), snd cw)))
      else if exec_when = 2
        then (case txt of None \<Rightarrow> Some (Inl OUT_OF_BOUNDS)
              | Some s \<Rightarrow> Some (Inr (Cbuf_AddText env s (fst cw), snd cw)))
      else Some (Inl (COM_ERROR ERR_FATAL)))"

definition Cmd_Wait_f :: "tokenizer \<Rightarrow> cbuf \<Rightarrow> fault + cbuf" where
  "Cmd_Wait_f t c =
     (if Cmd_Argc t = 2
      then case Cmd_Argv t 1 of
             Inl e \<Rightarrow> Inl e
           | Inr s \<Rightarrow> Inr (c\<lparr>cmd_wait := (if atoi s < 0 then 1 else atoi s)\<rparr>)
      else Inr (c\<lparr>cmd_wait := 1\<rparr>))"

definition content :: "cbuf \<Rightarrow> string" where
  "content c = take (cursize c) (text_cells c)"

definition cbuf_ok :: "cbuf \<Rightarrow> bool" where
  "cbuf_ok c \<longleftrightarrow>
     length (cmd_text_buf c) = MAX_CMD_BUFFER \<and> length (text_cells c) = maxsize c
     \<and> cursize c \<le> maxsize c \<and> nul_free (content c)"

definition lawful_heap :: "cbenv \<Rightarrow> bool" where
  "lawful_heap env \<longleftrightarrow>
     (\<forall>n blk. realloc_fresh env n = Some blk \<longrightarrow> length blk = n)
     \<and> (\<forall>n. length (behind_buf env n) = n)"

section \<open>The buffer as a string\<close>

lemma content_set [simp]:
  "text_cells (set_text_cells d c) = d"
  "maxsize (set_text_cells d c) = maxsize c" "cursize (set_text_cells d c) = cursize c"
  "cmd_wait (set_text_cells d c) = cmd_wait c"
  "heap_text c = Some h \<Longrightarrow> cmd_text_buf (set_text_cells d c) = cmd_text_buf c"
  "text_cells (c\<lparr>cursize := n\<rparr>) = text_cells c"
  "text_cells (c\<lparr>cmd_wait := w\<rparr>) = text_cells c"
  by (auto simp: text_cells_def set_text_cells_def split: option.splits)

lemma static_length:
  "cbuf_ok c \<Longrightarrow> length d = length (text_cells c) \<Longrightarrow>
   length (cmd_text_buf (set_text_cells d c)) = MAX_CMD_BUFFER"
  by (auto simp: cbuf_ok_def text_cells_def set_text_cells_def split: option.splits)

lemma grow_text_ok:
  assumes "cbuf_ok c" "lawful_heap env"
  shows "case grow_text env len c of
      None \<Rightarrow> maxsize c < len + cursize c \<and> realloc_fresh env (len + cursize c) = None
    | Some c1 \<Rightarrow> cbuf_ok c1 \<and> content c1 = content c \<and> cursize c1 = cursize c
        \<and> len + cursize c \<le> maxsize c1 \<and> cmd_wait c1 = cmd_wait c"
proof (cases "maxsize c < len + cursize c")
  case False
  then show ?thesis using assms by (simp add: grow_text_def)
next
  case True
  show ?thesis
  proof (cases "realloc_fresh env (len + cursize c)")
    case None
    then show ?thesis using True by (simp add: grow_text_def)
  next
    case (Some blk)
    define need where "need = len + cursize c"
    define src where "src = take need (case heap_text c of
        None \<Rightarrow> cmd_text_buf c @ behind_buf env (need - length (cmd_text_buf c)) | Some h \<Rightarrow> h)"
    define c1 where "c1 = c\<lparr>heap_text := Some (blit 0 src blk), maxsize := need\<rparr>"
    have g: "grow_text env len c = Some c1"
      using True Some
      by (auto simp: grow_text_def Let_def c1_def src_def need_def split: option.splits)
    have blk: "length blk = need" using Some assms(2) by (simp add: lawful_heap_def need_def)
    have src: "length src \<le> need" by (simp add: src_def)
    have cells: "cursize c \<le> length (text_cells c)" using assms(1) by (simp add: cbuf_ok_def)
    then have "take (cursize c) src = take (cursize c) (text_cells c)"
      by (auto simp: src_def text_cells_def need_def min_def split: option.splits)
    moreover have "cursize c \<le> length src"
      using cells by (auto simp: src_def text_cells_def need_def split: option.splits)
    moreover have "text_cells c1 = src @ drop (length src) blk"
      using blk src by (simp add: c1_def text_cells_def blit_eq)
    ultimately have "content c1 = content c" by (simp add: content_def c1_def)
    moreover have "length (text_cells c1) = need" using blk by (simp add: c1_def text_cells_def)
    ultimately show ?thesis
      using assms(1) g by (simp add: cbuf_ok_def c1_def need_def)
  qed
qed

lemma grow_text_total: "\<forall>n. realloc_fresh env n \<noteq> None \<Longrightarrow> \<exists>c1. grow_text env len c = Some c1"
proof -
  assume "\<forall>n. realloc_fresh env n \<noteq> None"
  then obtain b where "realloc_fresh env (len + cursize c) = Some b" by blast
  then show ?thesis by (auto simp: grow_text_def Let_def split: option.splits)
qed

lemma length_move_up [simp]: "length (move_up i len d) = length d"
  by (induction i arbitrary: d) simp_all

lemma move_up_nth:
  "i + len \<le> length d \<Longrightarrow> k < length d \<Longrightarrow>
   move_up i len d ! k = (if len \<le> k \<and> k < i + len then d ! (k - len) else d ! k)"
proof (induction i arbitrary: d)
  case 0
  then show ?case by auto
next
  case (Suc i)
  then show ?case by (auto simp: nth_list_update)
qed

lemma Cbuf_AddText_content:
  assumes "cbuf_ok c" "lawful_heap env" "nul_free s"
  shows "cbuf_ok (Cbuf_AddText env s c)
    \<and> content (Cbuf_AddText env s c) =
        (if grow_text env (length s + 1) c = None then content c else content c @ s)
    \<and> cmd_wait (Cbuf_AddText env s c) = cmd_wait c"
proof (cases "grow_text env (length s + 1) c")
  case None
  then show ?thesis using assms by (simp add: Cbuf_AddText_def)
next
  case (Some c1)
  then have c1: "cbuf_ok c1" "content c1 = content c" "cursize c1 = cursize c"
      "length s + 1 + cursize c \<le> maxsize c1" "cmd_wait c1 = cmd_wait c"
    using grow_text_ok [OF assms(1,2), of "length s + 1"] by simp_all
  define d where "d = blit (cursize c1) s (text_cells c1)"
  define c2 where "c2 = (set_text_cells d c1)\<lparr>cursize := cursize c1 + length s\<rparr>"
  have c2: "Cbuf_AddText env s c = c2" using Some by (simp add: Cbuf_AddText_def c2_def d_def)
  have len: "length (text_cells c1) = maxsize c1" using c1(1) by (simp add: cbuf_ok_def)
  have "take (cursize c1 + length s) d = take (cursize c1) (text_cells c1) @ s"
    unfolding d_def using c1 len by (intro take_blit) simp
  then have con: "content c2 = content c @ s"
    using c1(2) by (simp add: c2_def content_def)
  have "length d = length (text_cells c1)" by (simp add: d_def)
  then have "cbuf_ok c2"
    using c1 con assms static_length [OF c1(1)] by (simp add: cbuf_ok_def c2_def)
  then show ?thesis using c2 con Some c1 by (simp add: c2_def)
qed

lemma Cbuf_InsertText_content:
  assumes "cbuf_ok c" "lawful_heap env" "nul_free s"
  shows "cbuf_ok (Cbuf_InsertText env s c)
    \<and> content (Cbuf_InsertText env s c) =
        (if grow_text env (length s + 1) c = None then content c else s @ NEWLINE # content c)
    \<and> cmd_wait (Cbuf_InsertText env s c) = cmd_wait c"
proof (cases "grow_text env (length s + 1) c")
  case None
  then show ?thesis using assms by (simp add: Cbuf_InsertText_def)
next
  case (Some c1)
  then have c1: "cbuf_ok c1" "content c1 = content c" "cursize c1 = cursize c"
      "length s + 1 + cursize c \<le> maxsize c1" "cmd_wait c1 = cmd_wait c"
    using grow_text_ok [OF assms(1,2), of "length s + 1"] by simp_all
  define m where "m = move_up (cursize c1) (length s + 1) (text_cells c1)"
  define d where "d = (blit 0 s m)[length s := NEWLINE]"
  define c2 where "c2 = (set_text_cells d c1)\<lparr>cursize := cursize c1 + (length s + 1)\<rparr>"
  have c2: "Cbuf_InsertText env s c = c2"
    using Some by (simp add: Cbuf_InsertText_def c2_def d_def m_def)
  have len: "length (text_cells c1) = maxsize c1" "length m = maxsize c1"
    using c1(1) by (simp_all add: cbuf_ok_def m_def)
  have d: "d = s @ NEWLINE # drop (length s + 1) m"
  proof -
    have "m ! length s # drop (length s + 1) m = drop (length s) m"
      using len c1(4) by (simp add: Cons_nth_drop_Suc)
    then have "blit 0 s m = s @ m ! length s # drop (length s + 1) m"
      using len c1(4) by (simp add: blit_eq)
    then show ?thesis by (simp add: d_def)
  qed
  have "take (cursize c1) (drop (length s + 1) m) = content c"
  proof (rule nth_equalityI)
    show l: "length (take (cursize c1) (drop (length s + 1) m)) = length (content c)"
      using len c1(1,3,4) c1(2) [symmetric] by (simp add: content_def cbuf_ok_def)
    fix k assume "k < length (take (cursize c1) (drop (length s + 1) m))"
    then have k: "k < cursize c1" "k + (length s + 1) < length (text_cells c1)"
      using len c1(3,4) by simp_all
    have "cursize c1 + (length s + 1) \<le> length (text_cells c1)" using c1 len by simp
    then have "m ! (length s + 1 + k) = text_cells c1 ! k"
      unfolding m_def using k by (subst move_up_nth) simp_all
    then show "take (cursize c1) (drop (length s + 1) m) ! k = content c ! k"
      unfolding c1(2) [symmetric] using k len c1(4) by (simp add: content_def)
  qed
  then have con: "content c2 = s @ NEWLINE # content c"
    using d by (simp add: c2_def content_def)
  have "length d = length (text_cells c1)" by (simp add: d_def m_def)
  then have "cbuf_ok c2"
    using c1 con assms static_length [OF c1(1)] by (simp add: cbuf_ok_def c2_def)
  then show ?thesis using c2 con Some c1 by (simp add: c2_def)
qed

text \<open>Cutting a line only depends on the content.\<close>

lemma find_end_cells:
  "take n d = take n e \<Longrightarrow> n \<le> length d \<Longrightarrow> n \<le> length e \<Longrightarrow>
   find_end d n i q star slash = find_end e n i q star slash"
proof (induction d n i q star slash rule: find_end.induct)
  case (1 d n i q star slash)
  have same: "j < n \<Longrightarrow> d ! j = e ! j" for j
    using "1.prems"(1) by (metis nth_take)
  show ?case
  proof (cases "n \<le> i")
    case True
    then show ?thesis by (subst (1 2) find_end.simps) simp
  next
    case False
    define nx where "nx = (if i + 1 < n then Some (d ! (i + 1)) else None)"
    have nx: "nx = (if i + 1 < n then Some (e ! (i + 1)) else None)"
      using same [of "i + 1"] by (simp add: nx_def)
    show ?thesis
      using False same [of i] "1.IH" [OF False] "1.prems"
      unfolding find_end.simps [of d n i] find_end.simps [of e n i] nx_def [symmetric] nx [symmetric]
      by (auto split: scan.splits)
  qed
qed

definition cut :: "bool \<Rightarrow> bool \<Rightarrow> string \<Rightarrow> string \<times> bool \<times> bool \<times> string" where
  "cut star slash s =
     (let (i0, star1, slash1) = find_end s (length s) 0 0 star slash;
          i = min i0 (MAX_CMD_LINE - 1)
      in (take i s, star1, slash1, drop (i + 1) s))"

lemma scan_behind: "scan_char c nx q star slash = Behind st sl \<Longrightarrow> nx \<noteq> None"
  by (auto simp: scan_char_def Let_def split: if_splits)

lemma find_end_le: "i \<le> n \<Longrightarrow> find_end d n i q star slash = (j, st, sl) \<Longrightarrow> i \<le> j \<and> j \<le> n"
proof (induction d n i q star slash rule: find_end.induct)
  case (1 d n i q star slash)
  show ?case
  proof (cases "n \<le> i")
    case True
    then have "find_end d n i q star slash = (i, star, slash)" by (subst find_end.simps) simp
    then show ?thesis using "1.prems" by simp
  next
    case False
    then show ?thesis
      using "1.prems"(2) "1.IH" [OF False]
      by (auto simp: find_end.simps [of d n i] split: scan.splits if_splits dest!: scan_behind)
  qed
qed

lemma nul_free_content_take: "cbuf_ok c \<Longrightarrow> cstr (take i (content c)) = take i (content c)"
proof -
  assume "cbuf_ok c"
  then have "nul_free (take i (content c))" by (auto simp: cbuf_ok_def)
  then show ?thesis by (auto simp: cstr_def nul_free_def takeWhile_eq_all_conv)
qed

lemma cut_line_content:
  assumes "cbuf_ok c" "cut star slash (content c) = (line, star1, slash1, rest)"
  shows "\<exists>c1. cut_line star slash c = (line, star1, slash1, c1) \<and> cbuf_ok c1
    \<and> content c1 = rest \<and> cmd_wait c1 = cmd_wait c"
proof -
  define n where "n = cursize c"
  have n: "n \<le> length (text_cells c)" "length (text_cells c) = maxsize c"
    using assms(1) by (simp_all add: cbuf_ok_def n_def)
  have len: "length (content c) = n" using n by (simp add: content_def n_def)
  obtain i0 where fe: "find_end (content c) n 0 0 star slash = (i0, star1, slash1)"
    using assms(2) len by (auto simp: cut_def Let_def split: prod.splits)
  have "take n (text_cells c) = take n (content c)" by (simp add: content_def n_def)
  then have fd: "find_end (text_cells c) n 0 0 star slash = (i0, star1, slash1)"
    using find_end_cells [of n "text_cells c" "content c"] n len fe by simp
  have i0: "i0 \<le> n" using find_end_le [OF _ fe] by simp
  define i where "i = min i0 (MAX_CMD_LINE - 1)"
  have i: "(if MAX_CMD_LINE - 1 \<le> i0 then MAX_CMD_LINE - 1 else i0) = i" "i \<le> n"
    using i0 by (auto simp: i_def)
  have out: "line = take i (content c)" "rest = drop (i + 1) (content c)"
    using assms(2) fe len by (simp_all add: cut_def i_def Let_def)
  have "take i (text_cells c) = take i (content c)" using i(2) by (simp add: content_def n_def)
  then have ln: "cstr (take i (text_cells c)) = line"
    using nul_free_content_take [OF assms(1)] out(1) by simp
  show ?thesis
  proof (cases "i = n")
    case True
    then have "cut_line star slash c = (line, star1, slash1, c\<lparr>cursize := 0\<rparr>)"
      using fd i(1) ln by (simp add: cut_line_def n_def Let_def)
    then show ?thesis
      using assms(1) out(2) len True by (simp add: cbuf_ok_def content_def)
  next
    case False
    define m where "m = n - (i + 1)"
    define d where "d = blit 0 (take m (drop (i + 1) (text_cells c))) (text_cells c)"
    define c1 where "c1 = (set_text_cells d c)\<lparr>cursize := m\<rparr>"
    have cl: "cut_line star slash c = (line, star1, slash1, c1)"
      using fd i(1) ln False by (simp add: cut_line_def n_def [symmetric] c1_def d_def m_def Let_def)
    have "m \<le> length (text_cells c)" "m + (i + 1) = n" using n i(2) False by (simp_all add: m_def)
    moreover from this have tl: "length (take m (drop (i + 1) (text_cells c))) = m"
      using n by simp
    ultimately have "take m d = take m (drop (i + 1) (text_cells c))"
      using take_blit [of 0 "take m (drop (i + 1) (text_cells c))" "text_cells c"]
      by (simp add: d_def)
    then have con: "content c1 = rest"
      using out(2) by (simp add: c1_def content_def n_def [symmetric] m_def drop_take)
    have ld: "length d = length (text_cells c)" by (simp add: d_def)
    have "nul_free rest" using assms(1) out(2) by (auto simp: cbuf_ok_def)
    then have "cbuf_ok c1"
      using assms(1) con ld n static_length [OF assms(1) ld] \<open>m \<le> length (text_cells c)\<close>
      by (simp add: cbuf_ok_def c1_def)
    then show ?thesis using cl con by (simp add: c1_def)
  qed
qed

section \<open>Scripts\<close>

text \<open>
  A line that is executed whole: no line break, semicolons and comment marks only between
  quotes, and the quotes closed.  A script is a list of such lines, each with the character
  that ends it.
\<close>

fun closed_line :: "bool \<Rightarrow> string \<Rightarrow> bool" where
  "closed_line q [] = (\<not> q)"
| "closed_line q (c # s) =
     (let q1 = (if c = DQUOTE then \<not> q else q) in
      c \<noteq> NEWLINE \<and> c \<noteq> CRETURN
      \<and> (q1 \<or> c \<noteq> CHR '';'' \<and> \<not> slash_comment (c # s) \<and> \<not> star_comment (c # s))
      \<and> closed_line q1 s)"

definition ends_line :: "char \<Rightarrow> bool" where
  "ends_line c \<longleftrightarrow> c = CHR '';'' \<or> c = NEWLINE \<or> c = CRETURN"

definition script :: "(string \<times> char) list \<Rightarrow> string" where
  "script ls = concat (map (\<lambda>(l, e). l @ [e]) ls)"

definition lines_ok :: "(string \<times> char) list \<Rightarrow> bool" where
  "lines_ok ls \<longleftrightarrow>
     (\<forall>(l, e) \<in> set ls. closed_line False l \<and> length l < MAX_CMD_LINE \<and> nul_free l \<and> ends_line e)"

lemma script_simps [simp]:
  "script [] = []" "script ((l, e) # ls) = l @ e # script ls"
  "script (ls @ ms) = script ls @ script ms"
  by (simp_all add: script_def)

lemma lines_ok_simps [simp]:
  "lines_ok []"
  "lines_ok ((l, e) # ls) \<longleftrightarrow>
     closed_line False l \<and> length l < MAX_CMD_LINE \<and> nul_free l \<and> ends_line e \<and> lines_ok ls"
  "lines_ok (ls @ ms) \<longleftrightarrow> lines_ok ls \<and> lines_ok ms"
  by (auto simp: lines_ok_def)

lemma nul_free_script: "lines_ok ls \<Longrightarrow> nul_free (script ls)"
  by (induction ls) (auto simp: ends_line_def)

definition lookahead :: "string \<Rightarrow> char option" where
  "lookahead s = (case s of [] \<Rightarrow> None | c # _ \<Rightarrow> Some c)"

lemma scan_char_closed:
  assumes "closed_line (odd q) (c # s)" "r = [] \<or> ends_line (hd r)"
  shows "scan_char c (lookahead (s @ r)) q False False =
    Go (if c = DQUOTE then q + 1 else q) False False"
proof -
  have "lead2 a b (c # s) \<longleftrightarrow> c = a \<and> lookahead (s @ r) = Some b"
    if "b = CHR ''/'' \<or> b = CHR ''*''" for a b
    using assms(2) that by (cases s; cases r) (auto simp: lookahead_def ends_line_def)
  then have lead: "slash_comment (c # s) \<longleftrightarrow> c = CHR ''/'' \<and> lookahead (s @ r) = Some (CHR ''/'')"
      "star_comment (c # s) \<longleftrightarrow> c = CHR ''/'' \<and> lookahead (s @ r) = Some (CHR ''*'')"
    by simp_all
  define q1 where "q1 = (if c = DQUOTE then q + 1 else q)"
  define la where "la = lookahead (s @ r)"
  have "odd q1 = (if c = DQUOTE then \<not> odd q else odd q)" by (simp add: q1_def)
  then have *: "c \<noteq> NEWLINE" "c \<noteq> CRETURN"
      "odd q1 \<or> c \<noteq> CHR '';'' \<and> \<not> (c = CHR ''/'' \<and> la = Some (CHR ''/''))
        \<and> \<not> (c = CHR ''/'' \<and> la = Some (CHR ''*''))"
    using assms(1) unfolding closed_line.simps Let_def lead la_def [symmetric] by simp_all
  show ?thesis
    unfolding scan_char_def Let_def q1_def [symmetric] la_def [symmetric]
    using * by (cases "odd q1") auto
qed

lemma find_end_step:
  assumes "drop i d = c # s" "n = length d"
  shows "find_end d n i q star slash =
    (case scan_char c (lookahead s) q star slash of
       Here star1 slash1 \<Rightarrow> (i, star1, slash1)
     | Behind star1 slash1 \<Rightarrow> (i + 1, star1, slash1)
     | Go quotes1 star1 slash1 \<Rightarrow> find_end d n (i + 1) quotes1 star1 slash1)"
proof -
  have i: "i < n" using assms by (metis drop_all leI list.distinct(1))
  have c: "d ! i = c" using assms i by (metis hd_drop_conv_nth list.sel(1))
  have s: "drop (i + 1) d = s" using assms(1) by (metis Suc_eq_plus1 drop_Suc list.sel(3) tl_drop)
  have "(if i + 1 < n then Some (d ! (i + 1)) else None) = lookahead s"
  proof (cases "i + 1 < n")
    case True
    then have "d ! (i + 1) = hd s" "s \<noteq> []" using s assms(2) by (auto simp: hd_drop_conv_nth)
    then show ?thesis using True by (cases s) (simp_all add: lookahead_def)
  next
    case False
    then show ?thesis using s assms(2) by (auto simp: lookahead_def)
  qed
  then show ?thesis using i c by (simp add: find_end.simps [of d n i])
qed

lemma find_end_closed:
  "drop i d = l @ r \<Longrightarrow> n = length d \<Longrightarrow> closed_line (odd q) l \<Longrightarrow>
   r = [] \<or> ends_line (hd r) \<Longrightarrow> find_end d n i q False False = (i + length l, False, False)"
proof (induction l arbitrary: i q)
  case Nil
  show ?case
  proof (cases r)
    case Nil
    then have "n \<le> i" using Nil.prems by simp
    then show ?thesis by (simp add: find_end.simps [of d n i])
  next
    case (Cons e s)
    then have "scan_char e (lookahead s) q False False = Here False False"
      using Nil.prems by (auto simp: scan_char_def ends_line_def Let_def)
    then show ?thesis using find_end_step [of i d e s n q False False] Nil.prems Cons by simp
  qed
next
  case (Cons c l)
  have "drop (i + 1) d = l @ r"
    using Cons.prems(1) by (metis Suc_eq_plus1 append_Cons drop_Suc list.sel(3) tl_drop)
  moreover have "closed_line (odd (if c = DQUOTE then q + 1 else q)) l"
    using Cons.prems(3) by (auto simp: Let_def split: if_splits)
  ultimately have "find_end d n (i + 1) (if c = DQUOTE then q + 1 else q) False False
      = (i + 1 + length l, False, False)"
    using Cons.prems by (intro Cons.IH) auto
  then show ?case
    using find_end_step [of i d c "l @ r" n q False False] Cons.prems
      scan_char_closed [of q c l r]
    by simp
qed

lemma cut_script:
  assumes "closed_line False l" "length l < MAX_CMD_LINE" "ends_line e"
  shows "cut False False (l @ e # s) = (l, False, False, s)"
proof -
  have "find_end (l @ e # s) (length (l @ e # s)) 0 0 False False = (0 + length l, False, False)"
    using assms by (intro find_end_closed [of _ _ _ "e # s"]) simp_all
  moreover have "min (length l) (MAX_CMD_LINE - 1) = length l" using assms(2) by simp
  ultimately show ?thesis by (simp add: cut_def)
qed

text \<open>
  The commands of a script language: a line either expands to a script that is inserted
  into the buffer, as \<open>vstr\<close> and \<open>exec\<close> do, or not; in both cases it changes the rest of the
  state.  \<open>expand\<close> is the reference: the list of lines that are executed.
\<close>

type_synonym macros = "string \<Rightarrow> (string \<times> char) list option"

definition exec_script :: "cbenv \<Rightarrow> macros \<Rightarrow> (string \<Rightarrow> 'w \<Rightarrow> 'w) \<Rightarrow> 'w exec" where
  "exec_script env macro f line cw =
     Inr (case macro line of
            None \<Rightarrow> fst cw
          | Some ls \<Rightarrow> Cbuf_InsertText env (butlast (script ls)) (fst cw),
          f line (snd cw))"

definition macros_ok :: "macros \<Rightarrow> bool" where
  "macros_ok macro \<longleftrightarrow>
     (\<forall>l ls. macro l = Some ls \<longrightarrow> lines_ok ls \<and> ls \<noteq> [] \<and> snd (last ls) = NEWLINE)"

primrec expand :: "nat \<Rightarrow> macros \<Rightarrow> (string \<times> char) list \<Rightarrow> string list option" where
  "expand 0 macro ls = None"
| "expand (Suc k) macro ls =
     (case ls of
        [] \<Rightarrow> Some []
      | l # ls \<Rightarrow> map_option (Cons (fst l))
          (expand k macro ((case macro (fst l) of None \<Rightarrow> [] | Some ms \<Rightarrow> ms) @ ls)))"

lemma script_butlast:
  "ls \<noteq> [] \<Longrightarrow> snd (last ls) = NEWLINE \<Longrightarrow> butlast (script ls) @ NEWLINE # s = script ls @ s"
proof (induction ls)
  case (Cons l ls)
  then show ?case by (cases l; cases ls) (auto simp: butlast_append)
qed simp

lemma script_eq_Nil: "script ls = [] \<longleftrightarrow> ls = []"
  by (cases ls) auto

lemma exec_script_content:
  assumes "cbuf_ok c" "lawful_heap env" "\<forall>n. realloc_fresh env n \<noteq> None" "macros_ok macro"
    and "content c = script ls" "lines_ok ls"
  shows "\<exists>c1. exec_script env macro f l (c, w) = Inr (c1, f l w) \<and> cbuf_ok c1
    \<and> content c1 = script ((case macro l of None \<Rightarrow> [] | Some ms \<Rightarrow> ms) @ ls)
    \<and> lines_ok ((case macro l of None \<Rightarrow> [] | Some ms \<Rightarrow> ms) @ ls)
    \<and> cmd_wait c1 = cmd_wait c"
proof (cases "macro l")
  case None
  then show ?thesis using assms by (simp add: exec_script_def)
next
  case (Some ms)
  then have ms: "lines_ok ms" "ms \<noteq> []" "snd (last ms) = NEWLINE"
    using assms(4) by (auto simp: macros_ok_def)
  have "nul_free (butlast (script ms))"
    using nul_free_script [OF ms(1)] by (auto simp: nul_free_def dest: in_set_butlastD)
  moreover obtain g where "grow_text env (length (butlast (script ms)) + 1) c = Some g"
    using grow_text_total [OF assms(3)] by blast
  ultimately show ?thesis
    using Cbuf_InsertText_content [OF assms(1,2), of "butlast (script ms)"] assms(5,6) ms
      script_butlast [OF ms(2,3), of "script ls"] Some
    by (simp add: exec_script_def)
qed

lemma execute_loop_script:
  assumes "lawful_heap env" "\<forall>n. realloc_fresh env n \<noteq> None" "macros_ok macro"
  shows "cbuf_ok c \<Longrightarrow> cmd_wait c \<le> 0 \<Longrightarrow> content c = script ls \<Longrightarrow> lines_ok ls \<Longrightarrow>
    (case expand k macro ls of
       None \<Rightarrow> execute_loop k (exec_script env macro f) False False (c, w) = None
     | Some log \<Rightarrow> \<exists>c1. execute_loop k (exec_script env macro f) False False (c, w)
           = Some (Inr (c1, fold f log w)) \<and> cbuf_ok c1 \<and> cursize c1 = 0)"
proof (induction k arbitrary: c ls w)
  case 0
  then show ?case by simp
next
  case (Suc k)
  have cur: "cursize c = 0 \<longleftrightarrow> ls = []"
    using Suc.prems(1,3) script_eq_Nil [of ls] by (auto simp: content_def cbuf_ok_def)
  show ?case
  proof (cases ls)
    case Nil
    then show ?thesis using cur Suc.prems by simp
  next
    case (Cons le rest)
    obtain l e where le: "le = (l, e)" by (cases le)
    have "cut False False (content c) = (l, False, False, script rest)"
      using cut_script Suc.prems(3,4) Cons le by simp
    then obtain c1 where c1: "cut_line False False c = (l, False, False, c1)" "cbuf_ok c1"
        "content c1 = script rest" "cmd_wait c1 = cmd_wait c"
      using cut_line_content [OF Suc.prems(1)] by blast
    define next_ls where "next_ls = (case macro l of None \<Rightarrow> [] | Some ms \<Rightarrow> ms) @ rest"
    obtain c2 where c2: "exec_script env macro f l (c1, w) = Inr (c2, f l w)" "cbuf_ok c2"
        "content c2 = script next_ls" "lines_ok next_ls" "cmd_wait c2 = cmd_wait c"
      using exec_script_content [OF c1(2) assms c1(3), of f l w] Suc.prems(4) Cons le c1(4)
      by (auto simp: next_ls_def)
    have ex: "execute_loop (Suc k) (exec_script env macro f) False False (c, w)
        = execute_loop k (exec_script env macro f) False False (c2, f l w)"
      using cur Cons Suc.prems(2) c1(1) c2(1) by simp
    have "expand (Suc k) macro ls = map_option (Cons l) (expand k macro next_ls)"
      using Cons le by (simp add: next_ls_def)
    then show ?thesis
      using ex Suc.IH [OF c2(2) _ c2(3,4), of "f l w"] c2(5) Suc.prems(2)
      by (auto split: option.splits)
  qed
qed

lemma release_text_ok:
  "cbuf_ok c \<Longrightarrow> cbuf_ok (release_text c) \<and> content (release_text c) = content c"
  by (auto simp: release_text_def cbuf_ok_def content_def text_cells_def)

section \<open>Properties\<close>

text \<open>
  Claim C21.  The buffer is a string: \<open>Cbuf_AddText\<close> appends, \<open>Cbuf_InsertText\<close> puts a
  line in front, through the static array, the first heap block and every later one; when
  \<open>realloc\<close> fails the text is dropped and the buffer is as before.
\<close>

theorem Cbuf_text_is_string:
  assumes "cbuf_ok c" "lawful_heap env" "nul_free s"
    and "fails = (maxsize c < length s + 1 + cursize c
                  \<and> realloc_fresh env (length s + 1 + cursize c) = None)"
  shows "cbuf_ok (Cbuf_AddText env s c) \<and> cbuf_ok (Cbuf_InsertText env s c)
    \<and> content (Cbuf_AddText env s c) = (if fails then content c else content c @ s)
    \<and> content (Cbuf_InsertText env s c) = (if fails then content c else s @ NEWLINE # content c)"
proof -
  have "grow_text env (length s + 1) c = None \<longleftrightarrow> fails"
    using assms(4) by (auto simp: grow_text_def Let_def split: option.splits)
  then show ?thesis
    using Cbuf_AddText_content [OF assms(1-3)] Cbuf_InsertText_content [OF assms(1-3)] by simp
qed

definition heap0 :: cbenv where
  "heap0 = \<lparr>realloc_fresh = (\<lambda>n. Some (replicate n NUL)), behind_buf = (\<lambda>n. replicate n CHR ''?'')\<rparr>"

definition cbuf0 :: cbuf where
  "cbuf0 = \<lparr>cmd_text_buf = replicate 1024 NUL, heap_text = None, maxsize = 1024, cursize = 0,
            cmd_wait = 0\<rparr>"

lemma heap0_lawful [simp]: "lawful_heap heap0" "realloc_fresh heap0 n \<noteq> None"
  by (simp_all add: heap0_def lawful_heap_def)

lemma cbuf0_ok [simp]:
  "cbuf_ok cbuf0" "content cbuf0 = []" "maxsize cbuf0 = 1024" "cursize cbuf0 = 0"
  "cmd_wait cbuf0 = 0" "heap_text cbuf0 = None"
  by (simp_all add: cbuf0_def cbuf_ok_def content_def text_cells_def MAX_CMD_BUFFER_def)

theorem Cbuf_text_is_string_witness:
  "content (Cbuf_InsertText heap0 ''a'' (Cbuf_AddText heap0 ''b;c'' cbuf0)) = ''a'' @ NEWLINE # ''b;c''"
proof -
  let ?c = "Cbuf_AddText heap0 ''b;c'' cbuf0"
  have c: "cbuf_ok ?c \<and> content ?c = ''b;c''"
    using Cbuf_text_is_string [of cbuf0 heap0 "''b;c''" False] by simp
  have "realloc_fresh heap0 n = None \<longleftrightarrow> False" for n by simp
  then show ?thesis
    using Cbuf_text_is_string [of ?c heap0 "''a''" False] c by simp
qed

text \<open>
  Claim C8.  Lines run one after the other in the order of the text, quoted semicolons
  inside them, and a line that inserts text (\<open>vstr\<close>, \<open>exec\<close>) is followed by the inserted
  lines, then by the rest.  \<open>Cbuf_Execute\<close> returns exactly when the expansion is finite (with
  enough fuel), and then leaves an empty buffer in the static array.
\<close>

theorem Cbuf_Execute_scripts:
  assumes "lawful_heap env" "\<forall>n. realloc_fresh env n \<noteq> None" "macros_ok macro"
    and "cbuf_ok c" "cmd_wait c \<le> 0" "content c = script ls" "lines_ok ls"
  shows "case expand k macro ls of
      None \<Rightarrow> Cbuf_Execute k (exec_script env macro f) (c, w) = None
    | Some log \<Rightarrow> \<exists>c1. Cbuf_Execute k (exec_script env macro f) (c, w) = Some (Inr (c1, fold f log w))
        \<and> cbuf_ok c1 \<and> content c1 = '''' \<and> heap_text c1 = None"
proof (cases "expand k macro ls")
  case None
  then show ?thesis
    using execute_loop_script [OF assms, of k f w] by (simp add: Cbuf_Execute_def)
next
  case (Some log)
  then obtain c1 where c1: "execute_loop k (exec_script env macro f) False False (c, w)
      = Some (Inr (c1, fold f log w))" "cbuf_ok c1" "cursize c1 = 0"
    using execute_loop_script [OF assms, of k f w] by auto
  have "content (release_text c1) = ''''" "heap_text (release_text c1) = None"
    using c1(3) by (auto simp: release_text_def content_def)
  then show ?thesis
    using Some c1 release_text_ok [OF c1(2)] by (simp add: Cbuf_Execute_def)
qed

definition vstr_sample :: macros where
  "vstr_sample l = (if l = ''vstr m'' then Some [(''x'', CHR '';''), (''y'', NEWLINE)] else None)"

theorem Cbuf_Execute_scripts_witness:
  "\<exists>c1. Cbuf_Execute 9 (exec_script heap0 vstr_sample (\<lambda>l w. w @ [l]))
     (Cbuf_AddText heap0 ''say \"a;b\";vstr m;z;'' cbuf0, [])
   = Some (Inr (c1, [''say \"a;b\"'', ''vstr m'', ''x'', ''y'', ''z'']))"
proof -
  let ?ls = "[(''say \"a;b\"'', CHR '';''), (''vstr m'', CHR '';''), (''z'', CHR '';'')]"
  let ?c = "Cbuf_AddText heap0 ''say \"a;b\";vstr m;z;'' cbuf0"
  have c: "cbuf_ok ?c \<and> content ?c = ''say \"a;b\";vstr m;z;'' \<and> cmd_wait ?c = 0"
    using Cbuf_AddText_content [of cbuf0 heap0 "''say \"a;b\";vstr m;z;''"]
      grow_text_ok [of cbuf0 heap0 "length ''say \"a;b\";vstr m;z;'' + 1"]
    by (auto split: option.splits)
  have m: "macros_ok vstr_sample"
    by (simp add: macros_ok_def vstr_sample_def ends_line_def MAX_CMD_LINE_def)
  have ls: "lines_ok ?ls" by (simp add: ends_line_def MAX_CMD_LINE_def)
  have e: "expand 9 vstr_sample ?ls = Some [''say \"a;b\"'', ''vstr m'', ''x'', ''y'', ''z'']"
    by (simp add: vstr_sample_def eval_nat_numeral)
  from Cbuf_Execute_scripts [of heap0 vstr_sample ?c ?ls 9 "\<lambda>l w. w @ [l]" "[]"] c m ls
  show ?thesis unfolding e by auto
qed

text \<open>
  A line that does not end within the size of the array \<open>line\<close> is cut there, and
  the character at the cut is lost: the next line starts one character behind it.
\<close>

theorem Cbuf_long_line_loses_character:
  assumes "cbuf_ok c" "content c = s" "closed_line False s" "MAX_CMD_LINE \<le> length s"
  shows "\<exists>c1. cut_line False False c = (take (MAX_CMD_LINE - 1) s, False, False, c1)
    \<and> cbuf_ok c1 \<and> content c1 = drop MAX_CMD_LINE s"
proof -
  have "find_end s (length s) 0 0 False False = (0 + length s, False, False)"
    using assms(3) by (intro find_end_closed [of _ _ _ "[]"]) simp_all
  moreover have "min (length s) (MAX_CMD_LINE - 1) = MAX_CMD_LINE - 1" "MAX_CMD_LINE - 1 + 1 = MAX_CMD_LINE"
    using assms(4) by (simp_all add: MAX_CMD_LINE_def)
  ultimately have "cut False False (content c)
      = (take (MAX_CMD_LINE - 1) s, False, False, drop MAX_CMD_LINE s)"
    using assms(2) by (simp add: cut_def)
  then show ?thesis using cut_line_content [OF assms(1)] by blast
qed

lemma closed_line_replicate: "closed_line False (replicate n (CHR ''x''))"
  by (induction n) (auto simp: neq_Nil_conv elim: lead2.elims)

theorem Cbuf_long_line_loses_character_witness:
  "\<exists>c c1. content c = replicate 8193 (CHR ''x'')
     \<and> cut_line False False c = (take 8191 (replicate 8193 (CHR ''x'')), False, False, c1)
     \<and> content c1 = drop 8192 (replicate 8193 (CHR ''x''))"
proof -
  define s :: string where "s = replicate 8193 (CHR ''x'')"
  have len: "length s = 8193" by (simp only: s_def length_replicate)
  have "nul_free s" by (simp add: s_def nul_free_def)
  moreover obtain g where "grow_text heap0 (length s + 1) cbuf0 = Some g"
    using grow_text_total [of heap0] by auto
  ultimately have c: "cbuf_ok (Cbuf_AddText heap0 s cbuf0)" "content (Cbuf_AddText heap0 s cbuf0) = s"
    using Cbuf_AddText_content [of cbuf0 heap0 s] by simp_all
  have "closed_line False s" unfolding s_def by (rule closed_line_replicate)
  from Cbuf_long_line_loses_character [OF c this] len c(2)
  show ?thesis unfolding s_def [symmetric] by (auto simp: MAX_CMD_LINE_def)
qed

text \<open>
  The first growth reads outside: the new block ends with a byte copied from
  behind \<open>cmd_text_buf\<close>, as \<open>memcpy\<close> takes the new size instead of the old contents.
\<close>

theorem Cbuf_growth_reads_behind:
  assumes "cbuf_ok c" "lawful_heap env" "heap_text c = None"
    and "maxsize c = MAX_CMD_BUFFER" "MAX_CMD_BUFFER < length s + 1 + cursize c"
    and "realloc_fresh env (length s + 1 + cursize c) \<noteq> None"
  shows "last (text_cells (Cbuf_AddText env s c))
    = last (behind_buf env (length s + 1 + cursize c - MAX_CMD_BUFFER))"
proof -
  define need where "need = length s + 1 + cursize c"
  define b where "b = behind_buf env (need - MAX_CMD_BUFFER)"
  obtain blk where blk: "realloc_fresh env need = Some blk" "length blk = need"
    using assms(2,6) unfolding lawful_heap_def need_def by blast
  have buf: "length (cmd_text_buf c) = MAX_CMD_BUFFER" using assms(1) by (simp add: cbuf_ok_def)
  have b: "length b = need - MAX_CMD_BUFFER" "b \<noteq> []"
  proof -
    show "length b = need - MAX_CMD_BUFFER" using assms(2) by (simp add: b_def lawful_heap_def)
    then have "0 < length b" using assms(5) by (simp add: need_def)
    then show "b \<noteq> []" by simp
  qed
  define src where "src = cmd_text_buf c @ b"
  have src: "length src = need" using buf b(1) assms(5) by (simp add: src_def need_def)
  have g: "grow_text env (length s + 1) c = Some (c\<lparr>heap_text := Some src, maxsize := need\<rparr>)"
  proof -
    have "length s + 1 + cursize c = need" "maxsize c < need"
      using assms(4,5) by (simp_all add: need_def)
    moreover have "blit 0 (take need (cmd_text_buf c @ b)) blk = src"
      using src blk(2) by (simp add: src_def blit_eq)
    ultimately show ?thesis
      unfolding grow_text_def Let_def
      using assms(3) blk(1) buf by (simp add: b_def)
  qed
  have "text_cells (Cbuf_AddText env s c) = blit (cursize c) s src"
    using g by (simp add: Cbuf_AddText_def text_cells_def set_text_cells_def)
  also have "\<dots> = take (cursize c) src @ s @ drop (cursize c + length s) src"
    using src by (intro blit_eq) (simp add: need_def)
  also have "drop (cursize c + length s) src = [last src]"
  proof -
    have "length (drop (cursize c + length s) src) = 1" using src by (simp add: need_def)
    then obtain x where "drop (cursize c + length s) src = [x]" by (cases "drop (cursize c + length s) src") auto
    then show ?thesis by (metis last_drop last_ConsL length_drop length_greater_0_conv list.discI zero_less_diff)
  qed
  finally have "last (text_cells (Cbuf_AddText env s c)) = last src" by simp
  then show ?thesis using b by (simp add: src_def b_def need_def)
qed

theorem Cbuf_growth_reads_behind_witness:
  "last (text_cells (Cbuf_AddText heap0 (replicate 1024 (CHR ''x'')) cbuf0)) = CHR ''?''"
proof -
  define s :: string where "s = replicate 1024 (CHR ''x'')"
  have len: "length s = 1024" by (simp only: s_def length_replicate)
  from Cbuf_growth_reads_behind [of cbuf0 heap0 s] len
  have "last (text_cells (Cbuf_AddText heap0 s cbuf0)) = last (behind_buf heap0 1)"
    by (simp add: MAX_CMD_BUFFER_def)
  then show ?thesis unfolding s_def by (simp only: heap0_def) (simp add: eval_nat_numeral)
qed

end
