(* ===== verification/CmdTable.thy ===== *)
theory CmdTable
  imports CmdBuffer QInfo "HOL-Library.Multiset"
begin

text \<open>
  The command table of src/src/cmd.c: registration, power levels and their configuration
  lines, completion, the invoker, and \<open>Cmd_ExecuteString\<close>.  The linked list
  \<open>cmd_functions\<close> is a list with its head first.  A C function is a number; what the
  functions do (and \<open>Cvar_Command\<close>, \<open>SV_GameCommand\<close>, which look at the tokenized line) is the
  parameter \<open>dispatch\<close>, as every command of the server is reached this way.  The PunkBuster
  branches are not compiled in.  Console output is not part of the state.
\<close>

section \<open>The table\<close>

record command =
  cmd_name :: string
  helptext :: "string option"
  minPower :: int
  complete :: "nat option"
  cmd_function :: "nat option"

definition MAX_TOKEN_CHARS :: int where "MAX_TOKEN_CHARS = 1024"

definition Cmd_AddCommandGeneric ::
  "string \<Rightarrow> string option \<Rightarrow> nat option \<Rightarrow> bool \<Rightarrow> int \<Rightarrow> command list \<Rightarrow> bool \<times> command list" where
  "Cmd_AddCommandGeneric name help fn warn lvl cmds =
     (if \<exists>cmd \<in> set cmds. name = cmd_name cmd then (False, cmds)
      else (True, \<lparr>cmd_name = name, helptext = help, minPower = lvl, complete = None,
                   cmd_function = fn\<rparr> # cmds))"

definition Cmd_AddPCommand :: "string \<Rightarrow> nat option \<Rightarrow> int \<Rightarrow> command list \<Rightarrow> bool \<times> command list" where
  "Cmd_AddPCommand name fn lvl cmds = Cmd_AddCommandGeneric name None fn True lvl cmds"

definition Cmd_AddCommand :: "string \<Rightarrow> nat option \<Rightarrow> command list \<Rightarrow> bool \<times> command list" where
  "Cmd_AddCommand name fn cmds = Cmd_AddCommandGeneric name None fn True 100 cmds"

definition Cmd_AddHCommand ::
  "string \<Rightarrow> string option \<Rightarrow> nat option \<Rightarrow> int \<Rightarrow> command list \<Rightarrow> bool \<times> command list" where
  "Cmd_AddHCommand name help fn lvl cmds = Cmd_AddCommandGeneric name None fn True lvl cmds"

fun Cmd_RemoveCommand :: "string \<Rightarrow> command list \<Rightarrow> bool \<times> command list" where
  "Cmd_RemoveCommand name [] = (False, [])"
| "Cmd_RemoveCommand name (cmd # cmds) =
     (if name = cmd_name cmd then (True, cmds)
      else (let (r, rest) = Cmd_RemoveCommand name cmds in (r, cmd # rest)))"

section \<open>Power levels\<close>

fun set_power :: "string \<Rightarrow> int \<Rightarrow> command list \<Rightarrow> bool \<times> command list" where
  "set_power name lvl [] = (False, [])"
| "set_power name lvl (cmd # cmds) =
     (if same_name name (cmd_name cmd)
      then (True, (if minPower cmd \<noteq> lvl then cmd\<lparr>minPower := lvl\<rparr> else cmd) # cmds)
      else (let (r, rest) = set_power name lvl cmds in (r, cmd # rest)))"

definition Cmd_SetPower :: "string option \<Rightarrow> int \<Rightarrow> command list \<Rightarrow> bool \<times> command list" where
  "Cmd_SetPower name lvl cmds =
     (if Q_stricmp name (Some ''ministatus'') = 0 \<and> 1 < lvl then (True, cmds)
      else case name of None \<Rightarrow> (False, cmds) | Some n \<Rightarrow> set_power n lvl cmds)"

fun Cmd_GetPower :: "string option \<Rightarrow> command list \<Rightarrow> int" where
  "Cmd_GetPower name [] = -1"
| "Cmd_GetPower name (cmd # cmds) =
     (if Q_stricmp name (Some (cmd_name cmd)) = 0
      then (if minPower cmd = 0 then 100 else minPower cmd)
      else Cmd_GetPower name cmds)"

definition Cmd_ResetPower :: "command list \<Rightarrow> command list" where
  "Cmd_ResetPower cmds = map (\<lambda>cmd. cmd\<lparr>minPower := 100\<rparr>) cmds"

definition INFO_NAME :: int where "INFO_NAME = 40"

text \<open>
  \<open>Cmd_InfoSetPower\<close> reads one line of the configuration; \<open>None\<close> is the overrun an info
  lookup can have.  \<open>Cmd_WritePowerConfig\<close> writes one info string per command.
\<close>

definition Cmd_InfoSetPower :: "string \<Rightarrow> command list \<Rightarrow> fault + bool \<times> command list" where
  "Cmd_InfoSetPower infostring cmds =
     (case Info_ValueForKey (Some infostring) (Some ''power'') of
        None \<Rightarrow> Inl OUT_OF_BOUNDS
      | Some pw \<Rightarrow> (case Info_ValueForKey (Some infostring) (Some ''cmd'') of
          None \<Rightarrow> Inl OUT_OF_BOUNDS
        | Some nm \<Rightarrow> (case Q_strncpyz (replicate (nat INFO_NAME) NUL) 0 nm INFO_NAME of
            Inl e \<Rightarrow> Inl (COM_ERROR e)
          | Inr cmdname \<Rightarrow> Inr (Cmd_SetPower (Some (cstr cmdname)) (atoi pw) cmds))))"

definition power_info :: "command \<Rightarrow> string option" where
  "power_info cmd =
     (case Info_SetValueForKey '''' ''type'' ''cmdMinPower'' of
        None \<Rightarrow> None
      | Some s1 \<Rightarrow> (case Info_SetValueForKey s1 ''cmd'' (cmd_name cmd) of
          None \<Rightarrow> None
        | Some s2 \<Rightarrow> Info_SetValueForKey s2 ''power'' (int_dec (minPower cmd))))"

fun write_powers :: "char list \<Rightarrow> int \<Rightarrow> command list \<Rightarrow> fault + char list" where
  "write_powers buffer bufsize [] = Inr buffer"
| "write_powers buffer bufsize (cmd # cmds) =
     (case power_info cmd of
        None \<Rightarrow> Inl OUT_OF_BOUNDS
      | Some info \<Rightarrow> (case strcat_fault buffer bufsize info of
          Inl e \<Rightarrow> Inl e
        | Inr b1 \<Rightarrow> (case strcat_fault b1 bufsize [BSLASH, NEWLINE] of
            Inl e \<Rightarrow> Inl e
          | Inr b2 \<Rightarrow> write_powers b2 bufsize cmds)))"

definition power_header :: string where
  "power_header = NEWLINE # ''//Minimum power settings'' @ [NEWLINE]"

definition Cmd_WritePowerConfig :: "char list \<Rightarrow> int \<Rightarrow> command list \<Rightarrow> fault + char list" where
  "Cmd_WritePowerConfig buffer bufsize cmds =
     (case strcat_fault buffer bufsize power_header of
        Inl e \<Rightarrow> Inl e | Inr b \<Rightarrow> write_powers b bufsize cmds)"

section \<open>Completion\<close>

text \<open>The names a completion callback gets, and the completion functions that are called.\<close>

definition Cmd_CommandCompletion :: "command list \<Rightarrow> string list" where
  "Cmd_CommandCompletion cmds = map cmd_name cmds"

fun Cmd_CompleteArgument :: "string \<Rightarrow> string \<Rightarrow> int \<Rightarrow> command list \<Rightarrow> (nat \<times> string \<times> int) list" where
  "Cmd_CompleteArgument name args argNum [] = []"
| "Cmd_CompleteArgument name args argNum (cmd # cmds) =
     (if same_name name (cmd_name cmd)
      then (case complete cmd of None \<Rightarrow> [] | Some f \<Rightarrow> [(f, args, argNum)]) else [])
     @ Cmd_CompleteArgument name args argNum cmds"

fun Cmd_SetCommandCompletionFunc :: "string \<Rightarrow> nat option \<Rightarrow> command list \<Rightarrow> command list" where
  "Cmd_SetCommandCompletionFunc name f [] = []"
| "Cmd_SetCommandCompletionFunc name f (cmd # cmds) =
     (if same_name name (cmd_name cmd) then cmd\<lparr>complete := f\<rparr> else cmd)
     # Cmd_SetCommandCompletionFunc name f cmds"

section \<open>The invoker\<close>

record invoker =
  currentCmdPower :: int
  clientnum :: int
  authserver :: bool
  steamid :: "64 word"
  inv_name :: "char list"

definition Cmd_GetInvokerClnum :: "invoker \<Rightarrow> int" where
  "Cmd_GetInvokerClnum v = clientnum v"

definition Cmd_GetInvokerPower :: "invoker \<Rightarrow> int" where
  "Cmd_GetInvokerPower v = currentCmdPower v"

definition Cmd_GetInvokerSteamID :: "invoker \<Rightarrow> 64 word" where
  "Cmd_GetInvokerSteamID v = steamid v"

definition Cmd_GetInvokerName :: "invoker \<Rightarrow> char list \<Rightarrow> int \<Rightarrow> qerr + char list" where
  "Cmd_GetInvokerName v buf len = Q_strncpyz buf 0 (cstr (inv_name v)) len"

definition Cmd_SetCurrentInvokerInfo ::
  "int \<Rightarrow> int \<Rightarrow> 64 word \<Rightarrow> string option \<Rightarrow> invoker \<Rightarrow> qerr + invoker" where
  "Cmd_SetCurrentInvokerInfo lvl client sid name v =
     (case Q_strncpyz (inv_name v) 0 (case name of None \<Rightarrow> ''NoName'' | Some n \<Rightarrow> n) 33 of
        Inl e \<Rightarrow> Inl e
      | Inr nm \<Rightarrow> Inr (v\<lparr>currentCmdPower := lvl, clientnum := client, inv_name := nm,
                          steamid := sid\<rparr>))"

definition Cmd_ResetInvokerInfo :: "invoker \<Rightarrow> qerr + invoker" where
  "Cmd_ResetInvokerInfo v =
     (case Q_strncpyz (inv_name v) 0 ''System/Rcon'' 33 of
        Inl e \<Rightarrow> Inl e
      | Inr nm \<Rightarrow> Inr (v\<lparr>currentCmdPower := 100, clientnum := -1, steamid := 0, inv_name := nm\<rparr>))"

text \<open>The function numbers \<open>fns\<close> stand for the six handlers of cmd.c, in this order.\<close>

definition Cmd_Init :: "(nat \<Rightarrow> nat) \<Rightarrow> command list \<times> invoker \<Rightarrow> qerr + command list \<times> invoker" where
  "Cmd_Init fns st =
     (let c1 = snd (Cmd_AddPCommand ''cmdlist'' (Some (fns 0)) 1 (fst st));
          c2 = snd (Cmd_AddPCommand ''AdminListCommands'' (Some (fns 1)) 95 c1);
          c3 = snd (Cmd_AddPCommand ''exec'' (Some (fns 2)) 98 c2);
          c4 = snd (Cmd_AddCommand ''vstr'' (Some (fns 3)) c3);
          c5 = snd (Cmd_AddCommand ''echo'' (Some (fns 4)) c4);
          c6 = snd (Cmd_AddCommand ''wait'' (Some (fns 5)) c5)
      in case Cmd_ResetInvokerInfo (snd st) of
           Inl e \<Rightarrow> Inl e | Inr v \<Rightarrow> Inr (c6, v))"

section \<open>Executing a line\<close>

definition legacy_name :: "string \<Rightarrow> string" where
  "legacy_name arg0 =
     (if Q_stricmpn (Some arg0) (Some ''dvar'') 4 = 0 then CHR ''c'' # tl arg0
      else if Q_stricmpn (Some arg0) (Some ''auth'') 4 = 0
        then (if same_name arg0 ''authChangePassword'' then ''changePassword''
              else if same_name arg0 ''authSetAdmin'' then ''AdminAddAdminWithPassword''
              else if same_name arg0 ''authUnsetAdmin'' then ''AdminRemoveAdmin''
              else if same_name arg0 ''authListAdmins'' then ''adminListAdmins''
              else arg0)
      else if same_name arg0 ''cmdpowerlist'' then ''AdminListCommands''
      else if same_name arg0 ''setCmdMinPower'' then ''AdminChangeCommandPower''
      else if same_name arg0 ''kickid'' then ''kick''
      else arg0)"

text \<open>The matching command moves to the front of the list.\<close>

fun take_command :: "string \<Rightarrow> command list \<Rightarrow> (command \<times> command list) option" where
  "take_command arg0 [] = None"
| "take_command arg0 (cmd # cmds) =
     (if same_name arg0 (cmd_name cmd) then Some (cmd, cmds)
      else case take_command arg0 cmds of
             None \<Rightarrow> None | Some (found, rest) \<Rightarrow> Some (found, cmd # rest))"

record 'w cmdsys =
  tokens :: tokenizer
  cmd_functions :: "command list"
  world :: 'w

text \<open>
  What \<open>Cmd_ExecuteString\<close> calls: the functions of the commands, \<open>Cvar_Command\<close> and
  \<open>SV_GameCommand\<close> (which answer whether they took the line), and the flag \<open>com_sv_running\<close>.
\<close>

record 'w dispatch =
  run_function :: "nat \<Rightarrow> 'w cmdsys \<Rightarrow> fault + 'w cmdsys"
  cvar_command :: "'w cmdsys \<Rightarrow> fault + bool \<times> 'w cmdsys"
  game_command :: "'w cmdsys \<Rightarrow> fault + bool \<times> 'w cmdsys"
  sv_running :: "'w cmdsys \<Rightarrow> bool"

datatype outcome = NO_TOKENS | RAN nat | CVAR | GAME | IGNORED | BAD_COMMAND string

definition end_line :: "outcome \<Rightarrow> 'w cmdsys \<Rightarrow> fault + outcome \<times> 'w cmdsys" where
  "end_line r st =
     (case Cmd_EndTokenizedString (tokens st) of
        Inl e \<Rightarrow> Inl e | Inr t \<Rightarrow> Inr (r, st\<lparr>tokens := t\<rparr>))"

definition unknown_command :: "string \<Rightarrow> outcome" where
  "unknown_command arg0 =
     (if Q_stricmpn (Some arg0) (Some ''bind'') 4 = 0 then IGNORED
      else if Q_stricmpn (Some arg0) (Some ''unbindall'') 9 = 0 then IGNORED
      else if Q_stricmpn (Some arg0) (Some ''con_showchannel'') 15 = 0 then IGNORED
      else BAD_COMMAND arg0)"

definition try_others :: "'w dispatch \<Rightarrow> string \<Rightarrow> 'w cmdsys \<Rightarrow> fault + outcome \<times> 'w cmdsys" where
  "try_others D arg0 st =
     (case cvar_command D st of
        Inl e \<Rightarrow> Inl e
      | Inr (done, st1) \<Rightarrow>
          if done then end_line CVAR st1
          else if sv_running D st1
            then (case game_command D st1 of
                    Inl e \<Rightarrow> Inl e
                  | Inr (done2, st2) \<Rightarrow>
                      if done2 then end_line GAME st2
                      else end_line (unknown_command arg0) st2)
            else end_line (unknown_command arg0) st1)"

definition Cmd_ExecuteString :: "'w dispatch \<Rightarrow> string \<Rightarrow> 'w cmdsys \<Rightarrow> fault + outcome \<times> 'w cmdsys" where
  "Cmd_ExecuteString D text_in st =
     (case Cmd_TokenizeString (Some text_in) (tokens st) of
        Inl e \<Rightarrow> Inl e
      | Inr t \<Rightarrow>
          let st1 = st\<lparr>tokens := t\<rparr> in
          if Cmd_Argc t = 0 then end_line NO_TOKENS st1
          else (case Cmd_Argv t 0 of
              Inl e \<Rightarrow> Inl e
            | Inr a \<Rightarrow>
               (case Q_strncpyz (replicate (nat MAX_TOKEN_CHARS) NUL) 0 a MAX_TOKEN_CHARS of
                  Inl e \<Rightarrow> Inl (COM_ERROR e)
                | Inr b \<Rightarrow>
                   let arg0 = legacy_name (cstr b) in
                   (case take_command arg0 (cmd_functions st1) of
                      None \<Rightarrow> try_others D arg0 st1
                    | Some (cmd, rest) \<Rightarrow>
                       let st2 = st1\<lparr>cmd_functions := cmd # rest\<rparr> in
                       (case cmd_function cmd of
                          None \<Rightarrow> try_others D arg0 st2
                        | Some f \<Rightarrow>
                           (case run_function D f st2 of
                              Inl e \<Rightarrow> Inl e
                            | Inr st3 \<Rightarrow> end_line (RAN f) st3))))))"

section \<open>The table as a map from folded names\<close>

definition name_ok :: "string \<Rightarrow> bool" where
  "name_ok n \<longleftrightarrow> field_ok n \<and> n \<noteq> [] \<and> length n < 40"

definition names_ok :: "command list \<Rightarrow> bool" where
  "names_ok cmds \<longleftrightarrow>
     (\<forall>cmd \<in> set cmds. name_ok (cmd_name cmd)) \<and> distinct (map (\<lambda>cmd. folded (cmd_name cmd)) cmds)"

definition powers :: "command list \<Rightarrow> int list \<rightharpoonup> int" where
  "powers cmds = map_of (map (\<lambda>cmd. (folded (cmd_name cmd), minPower cmd)) cmds)"

lemma names_ok_simps [simp]:
  "names_ok []"
  "names_ok (c # cs) \<longleftrightarrow> name_ok (cmd_name c) \<and> names_ok cs
     \<and> (\<forall>d \<in> set cs. folded (cmd_name d) \<noteq> folded (cmd_name c))"
  by (simp add: names_ok_def) (simp add: names_ok_def image_iff, metis)

lemma same_name_iff: "name_ok a \<Longrightarrow> name_ok b \<Longrightarrow> same_name a b \<longleftrightarrow> folded a = folded b"
  by (intro Q_stricmp_zero_iff) (auto simp: name_ok_def field_ok_def word_ok_def)

lemma Cmd_GetPower_powers:
  "name_ok n \<Longrightarrow> names_ok cmds \<Longrightarrow>
   Cmd_GetPower (Some n) cmds =
     (case powers cmds (folded n) of None \<Rightarrow> -1 | Some p \<Rightarrow> if p = 0 then 100 else p)"
  by (induction cmds) (auto simp: powers_def same_name_iff)

definition with_power :: "string \<Rightarrow> int \<Rightarrow> command list \<Rightarrow> command list" where
  "with_power n p cmds =
     map (\<lambda>c. if folded (cmd_name c) = folded n then c\<lparr>minPower := p\<rparr> else c) cmds"

lemma with_power_absent:
  "\<forall>c \<in> set cmds. folded (cmd_name c) \<noteq> folded n \<Longrightarrow> with_power n p cmds = cmds"
  by (auto simp: with_power_def intro: map_idI)

lemma set_power_spec:
  "name_ok n \<Longrightarrow> names_ok cmds \<Longrightarrow>
   set_power n p cmds = (\<exists>c \<in> set cmds. folded (cmd_name c) = folded n, with_power n p cmds)"
proof (induction cmds)
  case Nil
  then show ?case by (simp add: with_power_def)
next
  case (Cons c cmds)
  show ?case
  proof (cases "folded n = folded (cmd_name c)")
    case True
    then have "with_power n p cmds = cmds"
      using Cons.prems by (intro with_power_absent) auto
    then show ?thesis
      using Cons.prems True by (simp add: same_name_iff) (simp add: with_power_def)
  next
    case False
    then show ?thesis
      using Cons by (auto simp: same_name_iff with_power_def)
  qed
qed

lemma with_power_Cons:
  "with_power n p (c # cs) =
     (if folded (cmd_name c) = folded n then c\<lparr>minPower := p\<rparr> else c) # with_power n p cs"
  by (simp add: with_power_def)

lemma with_power_names:
  "(\<forall>d \<in> set (with_power n p cs). P (cmd_name d)) \<longleftrightarrow> (\<forall>d \<in> set cs. P (cmd_name d))"
  by (induction cs) (simp_all add: with_power_def)

lemma names_ok_with_power [simp]: "names_ok (with_power n p cmds) = names_ok cmds"
proof (induction cmds)
  case Nil
  then show ?case by (simp add: with_power_def)
next
  case (Cons c cmds)
  then show ?case
    using with_power_names [of n p cmds "\<lambda>m. folded m \<noteq> folded (cmd_name c)"]
    by (cases "folded (cmd_name c) = folded n") (simp_all add: with_power_Cons)
qed

lemma powers_with_power:
  "powers (with_power n p cmds) f =
     (if f = folded n \<and> powers cmds f \<noteq> None then Some p else powers cmds f)"
  by (induction cmds) (auto simp: powers_def with_power_def)

lemma powers_same_set:
  assumes "names_ok cmds" "mset cmds = mset cmds'"
  shows "names_ok cmds' \<and> powers cmds = powers cmds'"
proof -
  have s: "set cmds = set cmds'" using assms(2) by (rule mset_eq_setD)
  have "mset (map (\<lambda>cmd. folded (cmd_name cmd)) cmds) = mset (map (\<lambda>cmd. folded (cmd_name cmd)) cmds')"
    using assms(2) by simp
  then have d: "distinct (map (\<lambda>cmd. folded (cmd_name cmd)) cmds')"
    using assms(1) unfolding names_ok_def by (metis mset_eq_imp_distinct_iff)
  then have "names_ok cmds'" using assms(1) s by (simp add: names_ok_def)
  moreover have "powers cmds = powers cmds'"
    unfolding powers_def using assms(1) d s
    by (subst map_of_inject_set) (simp_all add: names_ok_def comp_def)
  ultimately show ?thesis by simp
qed

lemma take_command_mset:
  "take_command a cmds = Some (c, rest) \<Longrightarrow>
   mset cmds = mset (c # rest) \<and> same_name a (cmd_name c)"
  by (induction cmds arbitrary: rest) (auto split: if_splits option.splits prod.splits)

section \<open>Configuration lines\<close>

lemma value_from_rest:
  assumes "pairs_ok ps" "length (info_string ps) < lim" "\<exists>(k, v) \<in> set ps. same_name key k"
    and "rest = [] \<or> hd rest = BSLASH"
  shows "value_from lim key (skip_bslash (info_string ps @ rest)) = Some (find_ci key ps)"
  using assms(1-3)
proof (induction ps)
  case Nil
  then show ?case by simp
next
  case (Cons p ps)
  obtain k v where p: "p = (k, v)" by (cases p)
  have ok: "BSLASH \<notin> set k" "BSLASH \<notin> set v" "pairs_ok ps"
    using Cons.prems p by (auto simp: word_ok_def)
  have tail: "info_string ps @ rest = [] \<or> (\<exists>r. info_string ps @ rest = BSLASH # r)"
    using info_string_head [of ps] assms(4) by (cases rest) auto
  have sp: "upto_bslash (v @ info_string ps @ rest) = v"
      "from_bslash (v @ info_string ps @ rest) = info_string ps @ rest"
    using tail split_at_bslash [OF ok(2)] by auto
  show ?case
  proof (cases "same_name key k")
    case True
    then show ?thesis
      using Cons.prems(2) p ok sp
      by (simp add: value_from.simps [of lim key "k @ _"] Let_def split_at_bslash)
  next
    case False
    then have "\<exists>(k, v) \<in> set ps. same_name key k" using Cons.prems(3) p by auto
    then have IH: "value_from lim key (skip_bslash (info_string ps @ rest)) = Some (find_ci key ps)"
      and "ps \<noteq> []"
      using Cons p by auto
    then obtain r where "info_string ps @ rest = BSLASH # r"
      using tail by (cases ps) auto
    then show ?thesis
      using Cons.prems(2) p ok sp IH False
      by (simp add: value_from.simps [of lim key "k @ _"] Let_def split_at_bslash)
  qed
qed

definition power_pairs :: "command \<Rightarrow> pairs" where
  "power_pairs cmd =
     [(''power'', int_dec (minPower cmd)), (''cmd'', cmd_name cmd), (''type'', ''cmdMinPower'')]"

definition power_line :: "command \<Rightarrow> string" where
  "power_line cmd = info_string (power_pairs cmd) @ [BSLASH, NEWLINE]"

lemma length_nat_dec: "n < 10 ^ k \<Longrightarrow> 0 < k \<Longrightarrow> length (nat_dec n) \<le> k"
proof (induction n arbitrary: k rule: nat_dec.induct)
  case (1 n)
  show ?case
  proof (cases "n < 10")
    case True
    then show ?thesis using 1 by (simp add: nat_dec.simps [of n])
  next
    case False
    obtain j where k: "k = Suc j" using 1(3) by (cases k) auto
    have "j \<noteq> 0"
    proof
      assume "j = 0"
      then show False using 1(2) False k by simp
    qed
    then have j: "k = Suc j" "0 < j" using k by simp_all
    then have "n div 10 < 10 ^ j" using 1(2) by (simp add: div_less_iff_less_mult mult.commute)
    then show ?thesis using 1 False j by (simp add: nat_dec.simps [of n])
  qed
qed

lemma int_dec_ok: "field_ok (int_dec i) \<and> int_dec i \<noteq> []"
proof -
  have "c \<noteq> BSLASH \<and> c \<noteq> NUL \<and> c \<noteq> CHR '';'' \<and> c \<noteq> DQUOTE" if "c \<in> set (int_dec i)" for c
    using int_dec_chars [OF that] by (auto simp: uc_def)
  moreover have "int_dec i \<noteq> []" using nat_dec_nonempty by (auto simp: int_dec_def) (metis list.distinct(1))
  ultimately show ?thesis by (auto simp: field_ok_def word_ok_def nul_free_def)
qed

lemma length_int_dec:
  assumes "int_range i"
  shows "length (int_dec i) \<le> 11"
proof -
  have "nat (- i) < 10 ^ 10" "nat i < 10 ^ 10" using assms by (auto simp: int_range_def)
  then have "length (nat_dec (nat (- i))) \<le> 10" "length (nat_dec (nat i)) \<le> 10"
    by (auto intro: length_nat_dec)
  then show ?thesis by (simp add: int_dec_def)
qed

lemma power_info_pairs:
  assumes "name_ok (cmd_name cmd)" "int_range (minPower cmd)"
  shows "power_info cmd = Some (info_string (power_pairs cmd))"
    and "pairs_ok (power_pairs cmd)" and "length (info_string (power_pairs cmd)) < 100"
proof -
  have f: "field_ok ''type''" "field_ok ''cmdMinPower''" "field_ok ''cmd''" "field_ok ''power''"
    by (simp_all add: field_ok_def word_ok_def nul_free_def)
  have n: "field_ok (cmd_name cmd)" "cmd_name cmd \<noteq> []" "length (cmd_name cmd) < 40"
    using assms(1) by (simp_all add: name_ok_def)
  have i: "field_ok (int_dec (minPower cmd))" "int_dec (minPower cmd) \<noteq> []"
      "length (int_dec (minPower cmd)) \<le> 11"
    using int_dec_ok length_int_dec [OF assms(2)] by simp_all
  let ?p1 = "[(''type'', ''cmdMinPower'')]"
  let ?p2 = "(''cmd'', cmd_name cmd) # ?p1"
  have ok: "pairs_ok []" "pairs_ok ?p1" "pairs_ok ?p2"
    using f n(1) by (simp_all add: field_ok_word)
  have s1: "Info_SetValueForKey '''' ''type'' ''cmdMinPower'' = Some (info_string ?p1)"
    using Info_SetValueForKey_info [of "[]" "''type''" "''cmdMinPower''"] f
    by (simp add: set_pair_def MAX_INFO_STRING_def)
  have s2: "Info_SetValueForKey (info_string ?p1) ''cmd'' (cmd_name cmd) = Some (info_string ?p2)"
    using Info_SetValueForKey_info [OF ok(2) f(3) n(1,2)] n(3)
    by (simp add: set_pair_def MAX_INFO_STRING_def)
  have s3: "Info_SetValueForKey (info_string ?p2) ''power'' (int_dec (minPower cmd))
      = Some (info_string (power_pairs cmd))"
    using Info_SetValueForKey_info [OF ok(3) f(4) i(1,2)] n(3) i(3)
    by (simp add: set_pair_def MAX_INFO_STRING_def power_pairs_def)
  show "power_info cmd = Some (info_string (power_pairs cmd))"
    unfolding power_info_def s1 option.case s2 s3 by (rule refl)
  show "pairs_ok (power_pairs cmd)"
    using ok(3) f(4) i(1) by (simp add: power_pairs_def field_ok_word)
  show "length (info_string (power_pairs cmd)) < 100"
    using n(3) i(3) by (simp add: power_pairs_def)
qed

lemma distinct_keys:
  "same_name ''power'' ''power''" "\<not> same_name ''cmd'' ''power''" "same_name ''cmd'' ''cmd''"
  by (simp_all add: Q_stricmp_def Q_stricmpn_def fold_up_def sc_alt uc_def)

lemma Cmd_InfoSetPower_line:
  assumes "name_ok (cmd_name cmd)" "int_range (minPower cmd)"
  shows "Cmd_InfoSetPower (power_line cmd) cmds =
    Inr (Cmd_SetPower (Some (cmd_name cmd)) (minPower cmd) cmds)"
proof -
  note pw = power_info_pairs [OF assms]
  have v: "Info_ValueForKey (Some (power_line cmd)) (Some key) = Some (find_ci key (power_pairs cmd))"
    if "\<exists>(k, v) \<in> set (power_pairs cmd). same_name key k" for key
    using value_from_rest [OF pw(2) _ that, of 8192 "[BSLASH, NEWLINE]"] pw(3)
    by (simp add: Info_ValueForKey_def power_line_def)
  have a: "Info_ValueForKey (Some (power_line cmd)) (Some ''power'') = Some (int_dec (minPower cmd))"
    using v [of "''power''"] by (simp add: power_pairs_def)
  have b: "Info_ValueForKey (Some (power_line cmd)) (Some ''cmd'') = Some (cmd_name cmd)"
    using v [of "''cmd''"] distinct_keys(2) by (simp add: power_pairs_def)
  have n: "nul_free (cmd_name cmd)" "length (cmd_name cmd) < 40"
    using assms(1) by (simp_all add: name_ok_def field_ok_def word_ok_def)
  have c: "Q_strncpyz (replicate (nat INFO_NAME) NUL) 0 (cmd_name cmd) INFO_NAME
      = Inr (strncpy_cells (cmd_name cmd) 39 @ [NUL])"
    using Q_strncpyz_ok [of INFO_NAME 0 "replicate (nat INFO_NAME) NUL" "cmd_name cmd"]
    by (simp add: INFO_NAME_def)
  have "cstr (strncpy_cells (cmd_name cmd) 39 @ [NUL]) = cmd_name cmd"
    using strncpy_cells_cstr [OF n(1), of 39 "[]"] n(2) by simp
  then show ?thesis
    unfolding Cmd_InfoSetPower_def a b option.case c sum.case
    using atoi_int_dec [OF assms(2)] by simp
qed

text \<open>What a reader of the configuration does with the lines: one call for each.\<close>

fun load_powers :: "string list \<Rightarrow> command list \<Rightarrow> fault + command list" where
  "load_powers [] cmds = Inr cmds"
| "load_powers (l # ls) cmds =
     (case Cmd_InfoSetPower l cmds of Inl e \<Rightarrow> Inl e | Inr (r, c) \<Rightarrow> load_powers ls c)"

definition ministatus_ok :: "command list \<Rightarrow> bool" where
  "ministatus_ok cmds \<longleftrightarrow>
     (\<forall>c \<in> set cmds. int_range (minPower c) \<and> (same_name (cmd_name c) ''ministatus'' \<longrightarrow> minPower c \<le> 1))"

lemma load_powers_step:
  assumes "names_ok (done @ c # rest)" "ministatus_ok [c]"
    and "cmd_name d = cmd_name c" "d\<lparr>minPower := minPower c\<rparr> = c"
  shows "load_powers (power_line c # ls) (done @ d # Cmd_ResetPower rest)
    = load_powers ls (done @ c # Cmd_ResetPower rest)"
proof -
  let ?t = "done @ d # Cmd_ResetPower rest"
  have nc: "name_ok (cmd_name c)" "int_range (minPower c)"
    using assms(1,2) by (auto simp: names_ok_def ministatus_ok_def)
  have map_names: "map (\<lambda>c. cmd_name c) ?t = map (\<lambda>c. cmd_name c) (done @ c # rest)"
    using assms(3) by (simp add: Cmd_ResetPower_def)
  have nt: "names_ok ?t"
  proof -
    have "map (\<lambda>c. folded (cmd_name c)) ?t = map (\<lambda>c. folded (cmd_name c)) (done @ c # rest)"
      using assms(3) by (simp add: Cmd_ResetPower_def)
    moreover have "\<forall>x \<in> set ?t. name_ok (cmd_name x)"
      using assms(1,3) by (auto simp: names_ok_def Cmd_ResetPower_def)
    ultimately show ?thesis using assms(1) by (simp add: names_ok_def)
  qed
  have others: "\<forall>x \<in> set done \<union> set (Cmd_ResetPower rest). folded (cmd_name x) \<noteq> folded (cmd_name c)"
    using assms(1) by (auto simp: names_ok_def Cmd_ResetPower_def image_iff)
  have "with_power (cmd_name c) (minPower c) ?t
      = with_power (cmd_name c) (minPower c) done @ c # with_power (cmd_name c) (minPower c) (Cmd_ResetPower rest)"
    using assms(3,4) by (simp add: with_power_def)
  also have "\<dots> = done @ c # Cmd_ResetPower rest"
    using others by (simp add: with_power_absent)
  finally have w: "with_power (cmd_name c) (minPower c) ?t = done @ c # Cmd_ResetPower rest" .
  have "\<not> (same_name (cmd_name c) ''ministatus'' \<and> 1 < minPower c)"
    using assms(2) by (auto simp: ministatus_ok_def)
  then have "Cmd_SetPower (Some (cmd_name c)) (minPower c) ?t = set_power (cmd_name c) (minPower c) ?t"
    by (auto simp: Cmd_SetPower_def)
  then show ?thesis
    using Cmd_InfoSetPower_line [OF nc, of ?t] set_power_spec [OF nc(1) nt] w by simp
qed

lemma load_powers_all:
  "names_ok (done @ cmds) \<Longrightarrow> ministatus_ok cmds \<Longrightarrow>
   load_powers (map power_line cmds) (done @ Cmd_ResetPower cmds) = Inr (done @ cmds)"
proof (induction cmds arbitrary: "done")
  case Nil
  then show ?case by (simp add: Cmd_ResetPower_def)
next
  case (Cons c cmds)
  have "load_powers (power_line c # map power_line cmds) (done @ c\<lparr>minPower := 100\<rparr> # Cmd_ResetPower cmds)
      = load_powers (map power_line cmds) (done @ c # Cmd_ResetPower cmds)"
    using Cons.prems by (intro load_powers_step) (simp_all add: ministatus_ok_def)
  then show ?case
    using Cons.IH [of "done @ [c]"] Cons.prems
    by (simp add: Cmd_ResetPower_def ministatus_ok_def)
qed

lemma write_powers_spec:
  assumes "\<forall>c \<in> set cmds. name_ok (cmd_name c) \<and> int_range (minPower c)"
    and "int (length (cstr buffer) + length (concat (map power_line cmds))) < n"
    and "nat n \<le> length buffer"
  shows "\<exists>b. write_powers buffer n cmds = Inr b \<and> length b = length buffer
    \<and> cstr b = cstr buffer @ concat (map power_line cmds)"
  using assms
proof (induction cmds arbitrary: buffer)
  case Nil
  then show ?case by simp
next
  case (Cons c cmds)
  let ?s = "info_string (power_pairs c)"
  have nc: "name_ok (cmd_name c)" "int_range (minPower c)" using Cons.prems(1) by auto
  note pw = power_info_pairs [OF nc]
  have free: "nul_free ?s"
    using pw(2) by (simp add: power_pairs_def word_ok_def)
  have room: "int (length (cstr buffer) + length ?s + 2 + length (concat (map power_line cmds))) < n"
  proof -
    have "length (power_line c) = length ?s + 2" by (simp add: power_line_def)
    then show ?thesis using Cons.prems(2) by simp
  qed
  obtain b1 where b1: "strcat_fault buffer n ?s = Inr b1" "length b1 = length buffer"
      "cstr b1 = cstr buffer @ ?s"
    using strcat_fault_ok [of buffer ?s n] room free Cons.prems(3) by auto
  obtain b2 where b2: "strcat_fault b1 n [BSLASH, NEWLINE] = Inr b2" "length b2 = length buffer"
      "cstr b2 = cstr buffer @ power_line c"
    using strcat_fault_ok [of b1 "[BSLASH, NEWLINE]" n] room b1(2,3) Cons.prems(3)
    by (auto simp: power_line_def)
  have "\<exists>b. write_powers b2 n cmds = Inr b \<and> length b = length b2
      \<and> cstr b = cstr b2 @ concat (map power_line cmds)"
    using Cons.prems b2 by (intro Cons.IH) auto
  then show ?case using pw(1) b1(1) b2 by auto
qed

section \<open>Running a line\<close>

text \<open>A callee is balanced when it leaves the stack of token lists as it found it.\<close>

definition keeps_stack :: "string list list \<Rightarrow> ('w cmdsys \<Rightarrow> fault + 'w cmdsys) \<Rightarrow> bool" where
  "keeps_stack S f \<longleftrightarrow>
     (\<forall>st. tok_ok (tokens st) S \<longrightarrow> (\<exists>st'. f st = Inr st' \<and> tok_ok (tokens st') S))"

definition keeps_stack2 :: "string list list \<Rightarrow> ('w cmdsys \<Rightarrow> fault + bool \<times> 'w cmdsys) \<Rightarrow> bool" where
  "keeps_stack2 S f \<longleftrightarrow>
     (\<forall>st. tok_ok (tokens st) S \<longrightarrow> (\<exists>r st'. f st = Inr (r, st') \<and> tok_ok (tokens st') S))"

lemma end_line_pops:
  "tok_ok (tokens st) (S @ [ws]) \<Longrightarrow>
   \<exists>t. end_line r st = Inr (r, st\<lparr>tokens := t\<rparr>) \<and> tok_ok t S"
  using toks.pop_law [of "tokens st" S ws] by (auto simp: end_line_def)

lemma try_others_balanced:
  assumes "tok_ok (tokens st) (S @ [ws])"
    and "keeps_stack2 (S @ [ws]) (cvar_command D)" "keeps_stack2 (S @ [ws]) (game_command D)"
  shows "\<exists>r st'. try_others D a st = Inr (r, st') \<and> tok_ok (tokens st') S"
proof -
  obtain b st1 where st1: "cvar_command D st = Inr (b, st1)" "tok_ok (tokens st1) (S @ [ws])"
    using assms(1,2) unfolding keeps_stack2_def by blast
  obtain b2 st2 where st2: "game_command D st1 = Inr (b2, st2)" "tok_ok (tokens st2) (S @ [ws])"
    using st1(2) assms(3) unfolding keeps_stack2_def by blast
  show ?thesis
    using st1(1) st2(1) end_line_pops [OF st1(2), of CVAR] end_line_pops [OF st2(2), of GAME]
      end_line_pops [OF st1(2), of "unknown_command a"] end_line_pops [OF st2(2), of "unknown_command a"]
    by (auto simp: try_others_def)
qed

lemma arg0_cells:
  assumes "nul_free a"
  shows "\<exists>b. Q_strncpyz (replicate (nat MAX_TOKEN_CHARS) NUL) 0 a MAX_TOKEN_CHARS = Inr b
    \<and> cstr b = take 1023 a"
proof -
  have "Q_strncpyz (replicate (nat MAX_TOKEN_CHARS) NUL) 0 a MAX_TOKEN_CHARS
      = Inr (strncpy_cells a 1023 @ [NUL])"
    using Q_strncpyz_ok [of MAX_TOKEN_CHARS 0 "replicate (nat MAX_TOKEN_CHARS) NUL" a]
    by (simp add: MAX_TOKEN_CHARS_def)
  then show ?thesis using strncpy_cells_cstr [OF assms, of 1023 "[]"] by simp
qed

text \<open>What happens once the line is tokenized.\<close>

lemma Cmd_ExecuteString_line:
  assumes "tok_ok (tokens st) S" "line_fits False (tokens st) S s ws"
  shows "\<exists>t. tok_ok t (S @ [ws]) \<and> Cmd_ExecuteString D s st =
    (if ws = [] then end_line NO_TOKENS (st\<lparr>tokens := t\<rparr>)
     else let arg0 = legacy_name (take 1023 (hd ws)) in
       case take_command arg0 (cmd_functions st) of
         None \<Rightarrow> try_others D arg0 (st\<lparr>tokens := t\<rparr>)
       | Some (cmd, rest) \<Rightarrow>
          let st2 = st\<lparr>tokens := t, cmd_functions := cmd # rest\<rparr> in
          (case cmd_function cmd of
             None \<Rightarrow> try_others D arg0 st2
           | Some f \<Rightarrow> (case run_function D f st2 of
               Inl e \<Rightarrow> Inl e | Inr st3 \<Rightarrow> end_line (RAN f) st3)))"
proof -
  obtain t where t: "Cmd_TokenizeString2 (Some s) False (tokens st) = Inr t" "tok_ok t (S @ [ws])"
    using toks.push_law [OF assms] by blast
  have c: "Cmd_Argc t = length ws" by (rule toks.count_law [OF t(2)])
  show ?thesis
  proof (cases "ws = []")
    case True
    then show ?thesis using t c by (auto simp: Cmd_ExecuteString_def Cmd_TokenizeString_def)
  next
    case False
    have a: "Cmd_Argv t 0 = Inr (hd ws)"
      using toks.arg_law [OF t(2), of 0] False by (simp add: hd_conv_nth)
    have "nul_free (hd ws)" using tok_ok_nul_free [OF t(2)] False by simp
    then obtain b where b: "Q_strncpyz (replicate (nat MAX_TOKEN_CHARS) NUL) 0 (hd ws) MAX_TOKEN_CHARS = Inr b"
        "cstr b = take 1023 (hd ws)"
      using arg0_cells by blast
    have "Cmd_Argc t \<noteq> 0" using c False by simp
    then show ?thesis
      using t a b False
      by (intro exI [of _ t]) (simp add: Cmd_ExecuteString_def Cmd_TokenizeString_def Let_def)
  qed
qed

section \<open>Properties\<close>

text \<open>
  Claim C32.  In a table of distinct names (ignoring case), setting the power of a
  registered command is seen by every later look-up of it in any spelling, 0 counting as
  100, and by no other; only \<open>ministatus\<close> refuses a power above 1.
\<close>

theorem Cmd_SetPower_get:
  assumes "names_ok cmds" "name_ok n" "cmd \<in> set cmds" "folded (cmd_name cmd) = folded n"
    and "\<not> (same_name n ''ministatus'' \<and> 1 < p)"
  shows "\<exists>cmds'. Cmd_SetPower (Some n) p cmds = (True, cmds') \<and> names_ok cmds'
    \<and> (\<forall>m. name_ok m \<longrightarrow> Cmd_GetPower (Some m) cmds' =
        (if folded m = folded n then (if p = 0 then 100 else p) else Cmd_GetPower (Some m) cmds))"
proof -
  have "Cmd_SetPower (Some n) p cmds = (True, with_power n p cmds)"
    using set_power_spec [OF assms(2,1), of p] assms(3-5) by (auto simp: Cmd_SetPower_def)
  moreover have "powers cmds (folded n) \<noteq> None"
  proof -
    have "folded n \<in> (\<lambda>c. folded (cmd_name c)) ` set cmds" using assms(3) assms(4) [symmetric] by blast
    then show ?thesis by (simp add: powers_def map_of_eq_None_iff image_image)
  qed
  ultimately show ?thesis
    using assms(1) Cmd_GetPower_powers powers_with_power by auto
qed

definition table0 :: "command list" where
  "table0 = [\<lparr>cmd_name = ''kick'', helptext = None, minPower = 35, complete = None, cmd_function = Some 1\<rparr>,
             \<lparr>cmd_name = ''map'', helptext = None, minPower = 60, complete = None, cmd_function = Some 2\<rparr>]"

lemma table0_ok [simp]: "names_ok table0" "name_ok ''KICK''" "name_ok ''map''"
  by (simp_all add: table0_def name_ok_def field_ok_def word_ok_def folded_def fold_up_def
      sc_alt uc_def)

theorem Cmd_SetPower_get_witness:
  "\<exists>cmds'. Cmd_SetPower (Some ''KICK'') 0 table0 = (True, cmds')
     \<and> Cmd_GetPower (Some ''KICK'') cmds' = 100 \<and> Cmd_GetPower (Some ''map'') cmds' = 60"
proof -
  let ?k = "hd table0"
  have a: "?k \<in> set table0" "folded (cmd_name ?k) = folded ''KICK''" "folded ''map'' \<noteq> folded ''KICK''"
    by (simp_all add: table0_def folded_def fold_up_def sc_alt uc_def)
  have b: "\<not> (same_name ''KICK'' ''ministatus'' \<and> 1 < (0::int))" by simp
  have "Cmd_GetPower (Some ''map'') table0 = 60"
    by (simp add: table0_def Q_stricmp_def Q_stricmpn_def fold_up_def sc_alt uc_def)
  then show ?thesis
    using Cmd_SetPower_get [OF table0_ok(1,2) a(1,2) b] table0_ok(2,3) a(3) by fastforce
qed

text \<open>
  Claim C33.  The power settings survive the configuration file: the lines that
  \<open>Cmd_WritePowerConfig\<close> appends to the buffer, read back one by one by
  \<open>Cmd_InfoSetPower\<close> into the table with default powers, restore every power.
\<close>

theorem power_config_roundtrip:
  assumes "names_ok cmds" "ministatus_ok cmds" "nat n \<le> length buffer"
    and "int (length (cstr buffer) + length power_header + length (concat (map power_line cmds))) < n"
  shows "\<exists>b. Cmd_WritePowerConfig buffer n cmds = Inr b
    \<and> cstr b = cstr buffer @ power_header @ concat (map power_line cmds)
    \<and> load_powers (map power_line cmds) (Cmd_ResetPower cmds) = Inr cmds"
proof -
  have free: "nul_free power_header" by (simp add: power_header_def)
  obtain b1 where b1: "strcat_fault buffer n power_header = Inr b1" "length b1 = length buffer"
      "cstr b1 = cstr buffer @ power_header"
    using strcat_fault_ok [of buffer power_header n] free assms(3,4) by auto
  have "\<forall>c \<in> set cmds. name_ok (cmd_name c) \<and> int_range (minPower c)"
    using assms(1,2) by (simp add: names_ok_def ministatus_ok_def)
  then obtain b where "write_powers b1 n cmds = Inr b" "cstr b = cstr b1 @ concat (map power_line cmds)"
    using write_powers_spec [of cmds b1 n] b1 assms(3,4) by auto
  then show ?thesis
    using b1 load_powers_all [of "[]" cmds] assms(1,2) by (simp add: Cmd_WritePowerConfig_def)
qed

theorem power_config_roundtrip_witness:
  "\<exists>b. Cmd_WritePowerConfig (replicate 200 NUL) 200 table0 = Inr b
     \<and> load_powers (map power_line table0) (Cmd_ResetPower table0) = Inr table0"
proof -
  have m: "ministatus_ok table0"
    by (simp add: ministatus_ok_def table0_def int_range_def Q_stricmp_def Q_stricmpn_def fold_up_def
        sc_alt uc_def)
  have l: "length (int_dec 35) = 2" "length (int_dec 60) = 2"
    by (simp_all add: int_dec_def nat_dec.simps)
  have c: "cstr (replicate 200 NUL) = []" by (simp add: cstr_def)
  have s: "int (length (cstr (replicate 200 NUL)) + length power_header
      + length (concat (map power_line table0))) < 200"
    unfolding c by (simp add: power_header_def power_line_def power_pairs_def table0_def l)
  have n: "nat 200 \<le> length (replicate 200 NUL)" by (simp only: length_replicate)
  show ?thesis using power_config_roundtrip [OF table0_ok(1) m n s] by blast
qed

text \<open>
  Registration compares names exactly but every look-up ignores case: a command
  registered under another spelling of an existing name hides it, with its own power.
\<close>

theorem Cmd_AddCommand_shadows:
  assumes "names_ok cmds" "cmd \<in> set cmds" "name_ok n"
    and "folded n = folded (cmd_name cmd)" "\<forall>c \<in> set cmds. n \<noteq> cmd_name c" "p \<noteq> 0"
  shows "\<exists>cmds'. Cmd_AddPCommand n f p cmds = (True, cmds')
    \<and> Cmd_GetPower (Some (cmd_name cmd)) cmds' = p
    \<and> (\<exists>rest. take_command (cmd_name cmd) cmds' = Some (hd cmds', rest) \<and> cmd_function (hd cmds') = f)"
proof -
  have "name_ok (cmd_name cmd)" using assms(1,2) by (auto simp: names_ok_def)
  then have s: "same_name (cmd_name cmd) n" using assms(3,4) by (simp add: same_name_iff)
  have "Cmd_AddPCommand n f p cmds =
      (True, \<lparr>cmd_name = n, helptext = None, minPower = p, complete = None, cmd_function = f\<rparr> # cmds)"
    using assms(5) by (auto simp: Cmd_AddPCommand_def Cmd_AddCommandGeneric_def)
  then show ?thesis using s assms(6) by simp
qed

theorem Cmd_AddCommand_shadows_witness:
  "\<exists>cmds'. Cmd_AddPCommand ''KICK'' (Some 9) 1 table0 = (True, cmds')
     \<and> Cmd_GetPower (Some ''kick'') cmds' = 1"
proof -
  let ?k = "hd table0"
  have a: "?k \<in> set table0" "folded ''KICK'' = folded (cmd_name ?k)"
      "\<forall>c \<in> set table0. ''KICK'' \<noteq> cmd_name c" "cmd_name ?k = ''kick''"
    by (simp_all add: table0_def folded_def fold_up_def sc_alt uc_def)
  show ?thesis
    using Cmd_AddCommand_shadows [OF table0_ok(1) a(1) table0_ok(2) a(2,3), of 1 "Some 9"] a(4)
    by auto
qed

text \<open>
  Claim C34.  \<open>Cmd_ExecuteString\<close> runs the function of the first command in the table with
  the name of the line's first token (after the legacy renaming), with the line's tokens as
  its arguments; the command is moved to the front, which changes no look-up; and the
  caller's arguments are back afterwards, if the function keeps the stack.
\<close>

theorem Cmd_ExecuteString_runs:
  assumes "tok_ok (tokens st) S" "line_fits False (tokens st) S s ws" "ws \<noteq> []"
    and "take_command (legacy_name (take 1023 (hd ws))) (cmd_functions st) = Some (cmd, rest)"
    and "cmd_function cmd = Some f" "names_ok (cmd_functions st)"
    and "keeps_stack (S @ [ws]) (run_function D f)"
  shows "\<exists>t st1 t'. tok_ok t (S @ [ws])
    \<and> run_function D f (st\<lparr>tokens := t, cmd_functions := cmd # rest\<rparr>) = Inr st1
    \<and> Cmd_ExecuteString D s st = Inr (RAN f, st1\<lparr>tokens := t'\<rparr>) \<and> tok_ok t' S
    \<and> (\<forall>n. name_ok n \<longrightarrow> Cmd_GetPower (Some n) (cmd # rest) = Cmd_GetPower (Some n) (cmd_functions st))"
proof -
  obtain t where t: "tok_ok t (S @ [ws])"
      "Cmd_ExecuteString D s st =
        (case run_function D f (st\<lparr>tokens := t, cmd_functions := cmd # rest\<rparr>) of
           Inl e \<Rightarrow> Inl e | Inr st3 \<Rightarrow> end_line (RAN f) st3)"
    using Cmd_ExecuteString_line [OF assms(1,2), of D] assms(3-5) by (auto simp: Let_def)
  have "tok_ok (tokens (st\<lparr>tokens := t, cmd_functions := cmd # rest\<rparr>)) (S @ [ws])" using t(1) by simp
  then obtain st1 where st1: "run_function D f (st\<lparr>tokens := t, cmd_functions := cmd # rest\<rparr>) = Inr st1"
      "tok_ok (tokens st1) (S @ [ws])"
    using assms(7) unfolding keeps_stack_def by blast
  obtain t' where "end_line (RAN f) st1 = Inr (RAN f, st1\<lparr>tokens := t'\<rparr>)" "tok_ok t' S"
    using end_line_pops [OF st1(2)] by blast
  moreover have "names_ok (cmd # rest) \<and> powers (cmd_functions st) = powers (cmd # rest)"
    using powers_same_set [OF assms(6)] take_command_mset [OF assms(4)] by blast
  then have "\<forall>n. name_ok n \<longrightarrow> Cmd_GetPower (Some n) (cmd # rest) = Cmd_GetPower (Some n) (cmd_functions st)"
    using assms(6) Cmd_GetPower_powers by metis
  ultimately show ?thesis using t st1(1) by auto
qed

definition echo_dispatch :: "string dispatch" where
  "echo_dispatch =
     \<lparr>run_function = (\<lambda>f st. case Cmd_Argv (tokens st) 1 of
                        Inl e \<Rightarrow> Inl e | Inr a \<Rightarrow> Inr (st\<lparr>world := a\<rparr>)),
      cvar_command = (\<lambda>st. Inr (False, st)), game_command = (\<lambda>st. Inr (False, st)),
      sv_running = (\<lambda>st. False)\<rparr>"

definition system0 :: "string cmdsys" where
  "system0 = \<lparr>tokens = tokenizer_zero, cmd_functions = table0, world = ''''\<rparr>"

lemma kickid_line:
  "lex_line False ''kickid 7'' = [''kickid'', ''7'']"
  "line_fits False (tokens system0) [] ''kickid 7'' [''kickid'', ''7'']"
proof -
  show l: "lex_line False ''kickid 7'' = [''kickid'', ''7'']"
    by (simp add: lex_line.simps skip_blank.simps next_tok_def blank_def uc_def Let_def)
  then show "line_fits False (tokens system0) [] ''kickid 7'' [''kickid'', ''7'']"
    by (simp add: line_fits_def MAX_TOKENIZE_STRINGS_def can_nest_def cells_left_def
        TOKENIZED_SIZE_def MAX_STRING_TOKENS_def)
qed

lemma echo_keeps: "keeps_stack (S @ [ws]) (run_function echo_dispatch f)"
  using toks.arg_law [of _ S ws 1] by (auto simp: keeps_stack_def echo_dispatch_def)

theorem Cmd_ExecuteString_runs_witness:
  "\<exists>st'. Cmd_ExecuteString echo_dispatch ''kickid 7'' system0 = Inr (RAN 1, st')
     \<and> tok_ok (tokens st') [] \<and> world st' = ''7''"
proof -
  have ok: "tok_ok (tokens system0) []" "names_ok (cmd_functions system0)"
    by (simp_all add: system0_def tokenizer_zero_ok)
  have a: "take 1023 (hd [''kickid'', ''7'']) = ''kickid''" by simp
  have "legacy_name ''kickid'' = ''kick''"
    by (simp add: legacy_name_def Q_stricmp_def Q_stricmpn_def fold_up_def sc_alt uc_def)
  then have tc: "take_command (legacy_name (take 1023 (hd [''kickid'', ''7'']))) (cmd_functions system0)
      = Some (hd table0, tl table0)"
    unfolding a by (simp add: system0_def table0_def)
  have f: "cmd_function (hd table0) = Some 1" by (simp add: table0_def)
  obtain t st1 t' where r: "tok_ok t ([] @ [[''kickid'', ''7'']])"
      "run_function echo_dispatch 1 (system0\<lparr>tokens := t, cmd_functions := hd table0 # tl table0\<rparr>) = Inr st1"
      "Cmd_ExecuteString echo_dispatch ''kickid 7'' system0 = Inr (RAN 1, st1\<lparr>tokens := t'\<rparr>)" "tok_ok t' []"
    using Cmd_ExecuteString_runs [OF ok(1) kickid_line(2) _ tc f ok(2), of echo_dispatch] echo_keeps
    by blast
  moreover have "world st1 = ''7''"
    using r(2) toks.arg_law [OF r(1), of 1] by (auto simp: echo_dispatch_def)
  ultimately show ?thesis by auto
qed

text \<open>
  Claim C35.  Whatever a line turns out to be (nothing, a command, a variable, a game
  command, unknown), executing it returns with the caller's arguments in place, if all it
  calls keeps the stack: every path ends the tokenized line exactly once.
\<close>

theorem Cmd_ExecuteString_balanced:
  assumes "tok_ok (tokens st) S" "line_fits False (tokens st) S s ws"
    and "\<forall>f. keeps_stack (S @ [ws]) (run_function D f)"
    and "keeps_stack2 (S @ [ws]) (cvar_command D)" "keeps_stack2 (S @ [ws]) (game_command D)"
  shows "\<exists>r st'. Cmd_ExecuteString D s st = Inr (r, st') \<and> tok_ok (tokens st') S"
proof -
  obtain t where t: "tok_ok t (S @ [ws])" and ex: "Cmd_ExecuteString D s st =
    (if ws = [] then end_line NO_TOKENS (st\<lparr>tokens := t\<rparr>)
     else let arg0 = legacy_name (take 1023 (hd ws)) in
       case take_command arg0 (cmd_functions st) of
         None \<Rightarrow> try_others D arg0 (st\<lparr>tokens := t\<rparr>)
       | Some (cmd, rest) \<Rightarrow>
          let st2 = st\<lparr>tokens := t, cmd_functions := cmd # rest\<rparr> in
          (case cmd_function cmd of
             None \<Rightarrow> try_others D arg0 st2
           | Some f \<Rightarrow> (case run_function D f st2 of
               Inl e \<Rightarrow> Inl e | Inr st3 \<Rightarrow> end_line (RAN f) st3)))"
    using Cmd_ExecuteString_line [OF assms(1,2)] by blast
  have others: "\<exists>r st'. try_others D a st2 = Inr (r, st') \<and> tok_ok (tokens st') S"
    if "tokens st2 = t" for a st2
    using try_others_balanced [OF _ assms(4,5)] t that by simp
  have fn: "\<exists>r st'. (case run_function D f st2 of Inl e \<Rightarrow> Inl e | Inr st3 \<Rightarrow> end_line (RAN f) st3)
      = Inr (r, st') \<and> tok_ok (tokens st') S" if "tokens st2 = t" for f st2
  proof -
    have "tok_ok (tokens st2) (S @ [ws])" using t that by simp
    then obtain st3 where st3: "run_function D f st2 = Inr st3" "tok_ok (tokens st3) (S @ [ws])"
      using assms(3) unfolding keeps_stack_def by blast
    then show ?thesis using end_line_pops [OF st3(2), of "RAN f"] by auto
  qed
  show ?thesis
  proof (cases "ws = []")
    case True
    then show ?thesis using ex end_line_pops [of "st\<lparr>tokens := t\<rparr>" S ws NO_TOKENS] t by auto
  next
    case False
    define a where "a = legacy_name (take 1023 (hd ws))"
    show ?thesis
    proof (cases "take_command a (cmd_functions st)")
      case None
      then show ?thesis using ex False others [of "st\<lparr>tokens := t\<rparr>" a] by (simp add: a_def)
    next
      case (Some cr)
      obtain c rest where cr: "cr = (c, rest)" by (cases cr)
      define st2 where "st2 = st\<lparr>tokens := t, cmd_functions := c # rest\<rparr>"
      have st2: "tokens st2 = t" by (simp add: st2_def)
      show ?thesis
      proof (cases "cmd_function c")
        case None
        then have "Cmd_ExecuteString D s st = try_others D a st2"
          using ex False Some cr by (simp add: a_def st2_def Let_def)
        then show ?thesis using others [OF st2] by simp
      next
        case (Some f)
        then have "Cmd_ExecuteString D s st =
            (case run_function D f st2 of Inl e \<Rightarrow> Inl e | Inr st3 \<Rightarrow> end_line (RAN f) st3)"
          using ex False \<open>take_command a (cmd_functions st) = Some cr\<close> cr
          by (simp add: a_def st2_def Let_def)
        then show ?thesis using fn [OF st2] by simp
      qed
    qed
  qed
qed

theorem Cmd_ExecuteString_balanced_witness:
  "\<exists>r st'. Cmd_ExecuteString echo_dispatch ''kickid 7'' system0 = Inr (r, st') \<and> tok_ok (tokens st') []"
proof -
  have "keeps_stack2 S (cvar_command echo_dispatch)" "keeps_stack2 S (game_command echo_dispatch)" for S
    by (auto simp: keeps_stack2_def echo_dispatch_def)
  moreover have "tok_ok (tokens system0) []" by (simp add: system0_def tokenizer_zero_ok)
  ultimately show ?thesis
    using Cmd_ExecuteString_balanced [OF _ kickid_line(2)] echo_keeps by blast
qed

end
