(* ===== verification/HuffmanData.thy ===== *)
theory HuffmanData
  imports QString
begin

text \<open>
  The Huffman tree of src/src/huffman.c: its data structures, \<open>Huff_Init\<close> and
  \<open>Huff_BuildFromData\<close>.  A pointer to a node is its index in the array \<open>nodeList\<close>, as every
  node pointer of the file points into it; \<open>None\<close> is NULL.  The fields \<open>blocPtrs\<close>, \<open>freelist\<close> and
  \<open>nodePtrs\<close>, which no function of the file uses, are left out.  \<open>Huff_BuildFromData\<close> is a
  straight-line program of about 2300 assignments.  It is given here as the list of these
  assignments in the order of the source, cut into pieces of at most 150 source lines, and
  an interpreter for the kinds of assignment that occur.
\<close>

section \<open>Nodes and trees\<close>

definition HMAX :: nat where "HMAX = 256"
definition NYT :: int where "NYT = 256"
definition INTERNAL_NODE :: int where "INTERNAL_NODE = 257"

record hnode =
  left :: "nat option"
  right :: "nat option"
  parent :: "nat option"
  weight :: int
  symbol :: int

record huff =
  blocNode :: nat
  tree :: "nat option"
  loc :: "nat option list"
  nodeList :: "hnode list"

definition zero_node :: hnode where
  "zero_node = \<lparr>left = None, right = None, parent = None, weight = 0, symbol = 0\<rparr>"

definition zero_huff :: huff where
  "zero_huff = \<lparr>blocNode = 0, tree = None, loc = replicate 257 None, nodeList = replicate 768 zero_node\<rparr>"

definition Huff_Init :: huff where
  "Huff_Init =
     (let h = zero_huff; n = blocNode h
      in h\<lparr>blocNode := n + 1, tree := Some n, loc := (loc h)[nat NYT := Some n],
           nodeList := (nodeList h)[n := \<lparr>left = None, right = None, parent = None, weight = 0,
                                         symbol = NYT\<rparr>]\<rparr>)"

section \<open>Assignments\<close>

text \<open>
  \<open>Link f n m\<close> is \<open>nodeList[n].f = &nodeList[m]\<close>, \<open>Copy f n g m\<close> is
  \<open>nodeList[n].f = nodeList[m].g\<close>, \<open>Loc c n\<close> is \<open>loc[c] = &nodeList[n]\<close>.
\<close>

datatype link = LEFT | RIGHT | PARENT

datatype assign =
    Bloc nat | Root nat | Loc nat nat
  | Weight nat int | Symbol nat int | Link link nat nat | Copy link nat link nat

fun get_link :: "link \<Rightarrow> hnode \<Rightarrow> nat option" where
  "get_link LEFT n = left n"
| "get_link RIGHT n = right n"
| "get_link PARENT n = parent n"

fun set_link :: "link \<Rightarrow> nat option \<Rightarrow> hnode \<Rightarrow> hnode" where
  "set_link LEFT p n = n\<lparr>left := p\<rparr>"
| "set_link RIGHT p n = n\<lparr>right := p\<rparr>"
| "set_link PARENT p n = n\<lparr>parent := p\<rparr>"

definition node_update :: "nat \<Rightarrow> (hnode \<Rightarrow> hnode) \<Rightarrow> huff \<Rightarrow> huff" where
  "node_update n f h = h\<lparr>nodeList := (nodeList h)[n := f (nodeList h ! n)]\<rparr>"

fun run_assign :: "assign \<Rightarrow> huff \<Rightarrow> huff" where
  "run_assign (Bloc n) h = h\<lparr>blocNode := n\<rparr>"
| "run_assign (Root n) h = h\<lparr>tree := Some n\<rparr>"
| "run_assign (Loc c n) h = h\<lparr>loc := (loc h)[c := Some n]\<rparr>"
| "run_assign (Weight n w) h = node_update n (weight_update (\<lambda>_. w)) h"
| "run_assign (Symbol n s) h = node_update n (symbol_update (\<lambda>_. s)) h"
| "run_assign (Link f n m) h = node_update n (set_link f (Some m)) h"
| "run_assign (Copy f n g m) h = node_update n (set_link f (get_link g (nodeList h ! m))) h"

section \<open>The program\<close>

definition huff_data_1 :: "assign list" where
  "huff_data_1 =
    [
     Bloc 513, Link PARENT 511 512, Root 512, Link LEFT 508 1, Loc 0 1, Link LEFT 493 2,
     Loc 1 2, Link LEFT 480 3, Loc 2 3, Link RIGHT 479 4, Loc 3 4, Link LEFT 484 5, Loc 4 5,
     Link LEFT 478 6, Loc 5 6, Link LEFT 485 7, Loc 6 7, Link LEFT 465 8, Loc 7 8,
     Link RIGHT 442 9, Loc 8 9, Link RIGHT 434 10, Loc 9 10, Link LEFT 416 11, Loc 10 11,
     Link RIGHT 403 12, Loc 11 12, Link LEFT 392 13, Loc 12 13, Link LEFT 398 14, Loc 13 14,
     Link RIGHT 388 15, Loc 14 15, Link RIGHT 432 16, Loc 15 16, Link RIGHT 421 17, Loc 16 17,
     Link LEFT 429 18, Loc 17 18, Link RIGHT 369 19, Loc 18 19, Link LEFT 363 20, Loc 19 20,
     Link RIGHT 340 21, Loc 20 21, Link RIGHT 330 22, Loc 21 22, Link RIGHT 417 23, Loc 22 23,
     Link RIGHT 363 24, Loc 23 24, Link LEFT 364 25, Loc 24 25, Link LEFT 333 26, Loc 25 26,
     Link RIGHT 408 27, Loc 26 27, Link LEFT 344 28, Loc 27 28, Link RIGHT 371 29, Loc 28 29,
     Link LEFT 347 30, Loc 29 30, Link LEFT 368 31, Loc 30 31, Link LEFT 394 32, Loc 31 32,
     Link LEFT 468 33, Loc 32 33, Link LEFT 321 34, Loc 33 34, Link RIGHT 423 35, Loc 34 35,
     Link LEFT 340 36, Loc 35 36, Link RIGHT 312 37, Loc 36 37, Link LEFT 303 38, Loc 37 38,
     Link RIGHT 322 39, Loc 38 39, Link LEFT 313 40, Loc 39 40, Link LEFT 326 41, Loc 40 41,
     Link RIGHT 275 42, Loc 41 42, Link RIGHT 276 43, Loc 42 43, Link LEFT 282 44, Loc 43 44,
     Link RIGHT 357 45, Loc 44 45, Link LEFT 324 46, Loc 45 46, Link LEFT 320 47, Loc 46 47,
     Link RIGHT 300 48, Loc 47 48, Link LEFT 427 49, Loc 48 49, Link LEFT 424 50, Loc 49 50,
     Link RIGHT 411 51, Loc 50 51, Link LEFT 411 52, Loc 51 52, Link LEFT 399 53, Loc 52 53,
     Link LEFT 367 54, Loc 53 54, Link LEFT 362 55, Loc 54 55, Link RIGHT 362 56, Loc 55 56,
     Link LEFT 389 57, Loc 56 57, Link LEFT 343 58, Loc 57 58, Link RIGHT 331 59, Loc 58 59,
     Link LEFT 308 60, Loc 59 60, Link RIGHT 320 61, Loc 60 61, Link LEFT 334 62, Loc 61 62,
     Link LEFT 373 63, Loc 62 63, Link RIGHT 401 64, Loc 63 64, Link RIGHT 433 65, Loc 64 65,
     Link LEFT 383 66, Loc 65 66, Link RIGHT 410 67, Loc 66 67, Link LEFT 361 68, Loc 67 68,
     Link LEFT 419 69, Loc 68 69, Link LEFT 342 70, Loc 69 70, Link LEFT 318 71, Loc 70 71,
     Link LEFT 337 72, Loc 71 72, Link RIGHT 353 73, Loc 72 73, Link RIGHT 316 74]"

definition huff_data_2 :: "assign list" where
  "huff_data_2 =
    [
     Loc 73 74, Link RIGHT 326 75, Loc 74 75, Link LEFT 279 76, Loc 75 76, Link LEFT 299 77,
     Loc 76 77, Link RIGHT 341 78, Loc 77 78, Link RIGHT 427 79, Loc 78 79, Link RIGHT 438 80,
     Loc 79 80, Link LEFT 349 81, Loc 80 81, Link LEFT 265 82, Loc 81 82, Link LEFT 311 83,
     Loc 82 83, Link RIGHT 265 84, Loc 83 84, Link LEFT 296 85, Loc 84 85, Link LEFT 291 86,
     Loc 85 86, Link RIGHT 287 87, Loc 86 87, Link RIGHT 274 88, Loc 87 88, Link RIGHT 328 89,
     Loc 88 89, Link RIGHT 292 90, Loc 89 90, Link RIGHT 269 91, Loc 90 91, Link LEFT 312 92,
     Loc 91 92, Link LEFT 304 93, Loc 92 93, Link LEFT 267 94, Loc 93 94, Link RIGHT 272 95,
     Loc 94 95, Link RIGHT 367 96, Loc 95 96, Link RIGHT 405 97, Loc 96 97, Link LEFT 348 98,
     Loc 97 98, Link RIGHT 325 99, Loc 98 99, Link RIGHT 303 100, Loc 99 100, Link LEFT 346 101,
     Loc 100 101, Link RIGHT 296 102, Loc 101 102, Link LEFT 359 103, Loc 102 103,
     Link RIGHT 308 104, Loc 103 104, Link RIGHT 343 105, Loc 104 105, Link RIGHT 279 106,
     Loc 105 106, Link RIGHT 260 107, Loc 106 107, Link LEFT 278 108, Loc 107 108,
     Link LEFT 391 109, Loc 108 109, Link LEFT 323 110, Loc 109 110, Link RIGHT 317 111,
     Loc 110 111, Link LEFT 335 112, Loc 111 112, Link RIGHT 365 113, Loc 112 113,
     Link RIGHT 297 114, Loc 113 114, Link LEFT 341 115, Loc 114 115, Link LEFT 328 116,
     Loc 115 116, Link RIGHT 307 117, Loc 116 117, Link LEFT 264 118, Loc 117 118,
     Link LEFT 319 119, Loc 118 119, Link RIGHT 294 120, Loc 119 120, Link RIGHT 350 121,
     Loc 120 121, Link RIGHT 290 122, Loc 121 122, Link RIGHT 298 123, Loc 122 123,
     Link RIGHT 302 124, Loc 123 124, Link LEFT 339 125, Loc 124 125, Link LEFT 314 126,
     Loc 125 126, Link LEFT 360 127, Loc 126 127, Link LEFT 380 128, Loc 127 128,
     Link RIGHT 462 129, Loc 128 129, Link RIGHT 380 130, Loc 129 130, Link RIGHT 394 131,
     Loc 130 131, Link RIGHT 390 132, Loc 131 132, Link RIGHT 361 133, Loc 132 133,
     Link LEFT 273 134, Loc 133 134, Link LEFT 302 135, Loc 134 135, Link LEFT 309 136,
     Loc 135 136, Link LEFT 405 137, Loc 136 137, Link LEFT 293 138, Loc 137 138,
     Link RIGHT 273 139, Loc 138 139, Link LEFT 295 140, Loc 139 140, Link RIGHT 352 141,
     Loc 140 141, Link LEFT 284 142, Loc 141 142, Link RIGHT 407 143, Loc 142 143,
     Link LEFT 315 144, Loc 143 144, Link RIGHT 336 145, Loc 144 145, Link RIGHT 277 146,
     Loc 145 146, Link RIGHT 284 147, Loc 146 147, Link RIGHT 281 148, Loc 147 148,
     Link LEFT 305 149]"

definition huff_data_3 :: "assign list" where
  "huff_data_3 =
    [
     Loc 148 149, Link LEFT 260 150, Loc 149 150, Link LEFT 269 151, Loc 150 151,
     Link LEFT 266 152, Loc 151 152, Link RIGHT 306 153, Loc 152 153, Link RIGHT 291 154,
     Loc 153 154, Link LEFT 300 155, Loc 154 155, Link LEFT 289 156, Loc 155 156,
     Link RIGHT 319 157, Loc 156 157, Link RIGHT 268 158, Loc 157 158, Link LEFT 268 159,
     Loc 158 159, Link LEFT 327 160, Loc 159 160, Link RIGHT 373 161, Loc 160 161,
     Link RIGHT 271 162, Loc 161 162, Link LEFT 285 163, Loc 162 163, Link LEFT 262 164,
     Loc 163 164, Link RIGHT 295 165, Loc 164 165, Link RIGHT 261 166, Loc 165 166,
     Link RIGHT 266 167, Loc 166 167, Link LEFT 259 168, Loc 167 168, Link RIGHT 283 169,
     Loc 168 169, Link RIGHT 258 170, Loc 169 170, Link LEFT 317 171, Loc 170 171,
     Link RIGHT 264 172, Loc 171 172, Link LEFT 281 173, Loc 172 173, Link LEFT 331 174,
     Loc 173 174, Link LEFT 276 175, Loc 174 175, Link LEFT 274 176, Loc 175 176,
     Link RIGHT 386 177, Loc 176 177, Link RIGHT 311 178, Loc 177 178, Link LEFT 275 179,
     Loc 178 179, Link LEFT 270 180, Loc 179 180, Link LEFT 283 181, Loc 180 181,
     Link RIGHT 304 182, Loc 181 182, Link RIGHT 356 183, Loc 182 183, Link RIGHT 313 184,
     Loc 183 184, Link RIGHT 323 185, Loc 184 185, Link RIGHT 270 186, Loc 185 186,
     Link RIGHT 267 187, Loc 186 187, Link LEFT 297 188, Loc 187 188, Link LEFT 330 189,
     Loc 188 189, Link RIGHT 339 190, Loc 189 190, Link RIGHT 333 191, Loc 190 191,
     Link LEFT 350 192, Loc 191 192, Link RIGHT 424 193, Loc 192 193, Link RIGHT 376 194,
     Loc 193 194, Link LEFT 376 195, Loc 194 195, Link RIGHT 329 196, Loc 195 196,
     Link LEFT 366 197, Loc 196 197, Link LEFT 292 198, Loc 197 198, Link LEFT 290 199,
     Loc 198 199, Link RIGHT 305 200, Loc 199 200, Link RIGHT 348 201, Loc 200 201,
     Link RIGHT 280 202, Loc 201 202, Link RIGHT 263 203, Loc 202 203, Link RIGHT 259 204,
     Loc 203 204, Link LEFT 322 205, Loc 204 205, Link RIGHT 288 206, Loc 205 206,
     Link RIGHT 285 207, Loc 206 207, Link LEFT 306 208, Loc 207 208, Link RIGHT 338 209,
     Loc 208 209, Link LEFT 277 210, Loc 209 210, Link LEFT 301 211, Loc 210 211,
     Link RIGHT 278 212, Loc 211 212, Link LEFT 263 213, Loc 212 213, Link RIGHT 257 214,
     Loc 213 214, Link RIGHT 286 215, Loc 214 215, Link LEFT 271 216, Loc 215 216,
     Link RIGHT 381 217, Loc 216 217, Link RIGHT 289 218, Loc 217 218, Link RIGHT 262 219,
     Loc 218 219, Link LEFT 287 220, Loc 219 220, Link RIGHT 299 221, Loc 220 221,
     Link LEFT 288 222, Loc 221 222, Link RIGHT 334 223, Loc 222 223, Link LEFT 345 224]"

definition huff_data_4 :: "assign list" where
  "huff_data_4 =
    [
     Loc 223 224, Link LEFT 403 225, Loc 224 225, Link RIGHT 301 226, Loc 225 226,
     Link LEFT 307 227, Loc 226 227, Link LEFT 298 228, Loc 227 228, Link LEFT 310 229,
     Loc 228 229, Link LEFT 261 230, Loc 229 230, Link LEFT 272 231, Loc 230 231,
     Link RIGHT 310 232, Loc 231 232, Link RIGHT 327 233, Loc 232 233, Link LEFT 294 234,
     Loc 233 234, Link LEFT 286 235, Loc 234 235, Link LEFT 280 236, Loc 235 236,
     Link RIGHT 315 237, Loc 236 237, Link RIGHT 282 238, Loc 237 238, Link RIGHT 324 239,
     Loc 238 239, Link RIGHT 351 240, Loc 239 240, Link RIGHT 384 241, Loc 240 241,
     Link RIGHT 314 242, Loc 241 242, Link RIGHT 293 243, Loc 242 243, Link RIGHT 321 244,
     Loc 243 244, Link RIGHT 337 245, Loc 244 245, Link LEFT 316 246, Loc 245 246,
     Link RIGHT 318 247, Loc 246 247, Link RIGHT 347 248, Loc 247 248, Link LEFT 372 249,
     Loc 248 249, Link LEFT 336 250, Loc 249 250, Link RIGHT 374 251, Loc 250 251,
     Link LEFT 369 252, Loc 251 252, Link LEFT 379 253, Loc 252 253, Link RIGHT 383 254,
     Loc 253 254, Link RIGHT 393 255, Loc 254 255, Link LEFT 472 256, Loc 255 256,
     Link LEFT 257 0, Loc 256 0, Link LEFT 258 257, Link PARENT 0 257, Symbol 0 256,
     Link LEFT 511 508, Link PARENT 1 508, Weight 1 274054, Link LEFT 503 493,
     Link PARENT 2 493, Weight 2 68777, Symbol 2 1, Link RIGHT 496 480, Link PARENT 3 480,
     Weight 3 40460, Symbol 3 2, Link LEFT 496 479, Link PARENT 4 479, Weight 4 40266,
     Symbol 4 3, Link RIGHT 498 484, Link PARENT 5 484, Weight 5 48059, Symbol 5 4,
     Link RIGHT 495 478, Link PARENT 6 478, Weight 6 39006, Symbol 6 5, Link LEFT 499 485,
     Link PARENT 7 485, Weight 7 48630, Symbol 7 6, Link RIGHT 488 465, Link PARENT 8 465,
     Weight 8 27692, Symbol 8 7, Link RIGHT 474 442, Link PARENT 9 442, Weight 9 17712,
     Symbol 9 8, Link LEFT 470 434, Link PARENT 10 434, Weight 10 15439, Symbol 10 9,
     Link RIGHT 459 416, Link PARENT 11 416, Weight 11 12386, Symbol 11 10, Link LEFT 453 403,
     Link PARENT 12 403, Weight 12 10758, Symbol 12 11, Link RIGHT 447 392, Link PARENT 13 392,
     Weight 13 9420, Symbol 13 12, Link RIGHT 450 398, Link PARENT 14 398, Weight 14 9979,
     Symbol 14 13, Link RIGHT 445 388, Link PARENT 15 388, Weight 15 9346, Symbol 15 14,
     Link LEFT 469 432, Link PARENT 16 432, Weight 16 15256, Symbol 16 15, Link LEFT 462 421,
     Link PARENT 17 421, Weight 17 13184, Symbol 17 16, Link LEFT 467 429, Link PARENT 18 429,
     Weight 18 14319, Symbol 18 17, Link LEFT 435 369, Link PARENT 19 369, Weight 19 7750,
     Symbol 19 18]"

definition huff_data_5 :: "assign list" where
  "huff_data_5 =
    [
     Link RIGHT 430 363, Link PARENT 20 363, Weight 20 7221, Symbol 20 19, Link LEFT 414 340,
     Link PARENT 21 340, Weight 21 6095, Symbol 21 20, Link RIGHT 406 330, Link PARENT 22 330,
     Weight 22 5666, Symbol 22 21, Link LEFT 460 417, Link PARENT 23 417, Weight 23 12606,
     Symbol 23 22, Link PARENT 24 363, Weight 24 7263, Symbol 24 23, Link LEFT 431 364,
     Link PARENT 25 364, Weight 25 7322, Symbol 25 24, Link LEFT 409 333, Link PARENT 26 333,
     Weight 26 5807, Symbol 26 25, Link RIGHT 455 408, Link PARENT 27 408, Weight 27 11628,
     Symbol 27 26, Link RIGHT 416 344, Link PARENT 28 344, Weight 28 6199, Symbol 28 27,
     Link LEFT 436 371, Link PARENT 29 371, Weight 29 7826, Symbol 29 28, Link RIGHT 418 347,
     Link PARENT 30 347, Weight 30 6349, Symbol 30 29, Link LEFT 434 368, Link PARENT 31 368,
     Weight 31 7698, Symbol 31 30, Link RIGHT 448 394, Link PARENT 32 394, Weight 32 9656,
     Symbol 32 31, Link LEFT 490 468, Link PARENT 33 468, Weight 33 28968, Symbol 33 32,
     Link RIGHT 399 321, Link PARENT 34 321, Weight 34 5164, Symbol 34 33, Link RIGHT 463 423,
     Link PARENT 35 423, Weight 35 13629, Symbol 35 34, Copy PARENT 36 LEFT 414, Weight 36 6058,
     Symbol 36 35, Link RIGHT 392 312, Link PARENT 37 312, Weight 37 4745, Symbol 37 36,
     Link LEFT 385 303, Link PARENT 38 303, Weight 38 4519, Symbol 38 37, Link LEFT 400 322,
     Link PARENT 39 322, Weight 39 5199, Symbol 39 38, Link LEFT 393 313, Link PARENT 40 313,
     Weight 40 4807, Symbol 40 39, Link RIGHT 402 326, Link PARENT 41 326, Weight 41 5323,
     Symbol 41 40, Link LEFT 355 275, Link PARENT 42 275, Weight 42 3433, Symbol 42 41,
     Link RIGHT 355 276, Link PARENT 43 276, Weight 43 3455, Symbol 43 42, Link RIGHT 360 282,
     Link PARENT 44 282, Weight 44 3563, Symbol 44 43, Link LEFT 426 357, Link PARENT 45 357,
     Weight 45 6979, Symbol 45 44, Link LEFT 401 324, Link PARENT 46 324, Weight 46 5229,
     Symbol 46 45, Link RIGHT 398 320, Link PARENT 47 320, Weight 47 5002, Symbol 47 46,
     Link LEFT 382 300, Link PARENT 48 300, Weight 48 4423, Symbol 48 47, Link LEFT 466 427,
     Link PARENT 49 427, Weight 49 14108, Symbol 49 48, Link LEFT 464 424, Link PARENT 50 424,
     Weight 50 13631, Symbol 50 49, Link LEFT 457 411, Link PARENT 51 411, Weight 51 11908,
     Symbol 51 50, Link PARENT 52 411, Weight 52 11801, Symbol 52 51, Link LEFT 451 399,
     Link PARENT 53 399, Weight 53 10261, Symbol 53 52, Link LEFT 433 367, Link PARENT 54 367,
     Weight 54 7635, Symbol 54 53, Link LEFT 430 362, Link PARENT 55 362, Weight 55 7215,
     Symbol 55 54, Link PARENT 56 362, Weight 56 7218, Symbol 56 55, Link LEFT 446 389,
     Link PARENT 57 389, Weight 57 9353, Symbol 57 56, Link RIGHT 415 343, Link PARENT 58 343]"

definition huff_data_6 :: "assign list" where
  "huff_data_6 =
    [
     Weight 58 6161, Symbol 58 57, Link LEFT 407 331, Link PARENT 59 331, Weight 59 5689,
     Symbol 59 58, Link LEFT 388 308, Link PARENT 60 308, Weight 60 4649, Symbol 60 59,
     Copy PARENT 61 RIGHT 398, Weight 61 5026, Symbol 61 60, Link RIGHT 409 334,
     Link PARENT 62 334, Weight 62 5866, Symbol 62 61, Link LEFT 437 373, Link PARENT 63 373,
     Weight 63 8002, Symbol 63 62, Link LEFT 452 401, Link PARENT 64 401, Weight 64 10534,
     Symbol 64 63, Link RIGHT 469 433, Link PARENT 65 433, Weight 65 15381, Symbol 65 64,
     Link LEFT 443 383, Link PARENT 66 383, Weight 66 8874, Symbol 66 65, Link RIGHT 456 410,
     Link PARENT 67 410, Weight 67 11798, Symbol 67 66, Link RIGHT 429 361, Link PARENT 68 361,
     Weight 68 7199, Symbol 68 67, Link LEFT 461 419, Link PARENT 69 419, Weight 69 12814,
     Symbol 69 68, Link LEFT 415 342, Link PARENT 70 342, Weight 70 6103, Symbol 70 69,
     Link LEFT 397 318, Link PARENT 71 318, Weight 71 4982, Symbol 71 70, Link RIGHT 412 337,
     Link PARENT 72 337, Weight 72 5972, Symbol 72 71, Link RIGHT 422 353, Link PARENT 73 353,
     Weight 73 6779, Symbol 73 72, Link LEFT 396 316, Link PARENT 74 316, Weight 74 4929,
     Symbol 74 73, Copy PARENT 75 RIGHT 402, Weight 75 5333, Symbol 75 74, Link LEFT 358 279,
     Link PARENT 76 279, Weight 76 3503, Symbol 76 75, Link LEFT 381 299, Link PARENT 77 299,
     Weight 77 4345, Symbol 77 76, Link RIGHT 414 341, Link PARENT 78 341, Weight 78 6098,
     Symbol 78 77, Copy PARENT 79 LEFT 466, Weight 79 14117, Symbol 79 78, Link RIGHT 472 438,
     Link PARENT 80 438, Weight 80 16440, Symbol 80 79, Link LEFT 420 349, Link PARENT 81 349,
     Weight 81 6446, Symbol 81 80, Link RIGHT 342 265, Link PARENT 82 265, Weight 82 3062,
     Symbol 82 81, Link RIGHT 391 311, Link PARENT 83 311, Weight 83 4695, Symbol 83 82,
     Link PARENT 84 265, Weight 84 3085, Symbol 84 83, Link LEFT 378 296, Link PARENT 85 296,
     Weight 85 4198, Symbol 85 84, Link LEFT 374 291, Link PARENT 86 291, Weight 86 4013,
     Symbol 86 85, Link LEFT 370 287, Link PARENT 87 287, Weight 87 3878, Symbol 87 86,
     Link RIGHT 354 274, Link PARENT 88 274, Weight 88 3414, Symbol 88 87, Link RIGHT 404 328,
     Link PARENT 89 328, Weight 89 5514, Symbol 89 88, Link LEFT 375 292, Link PARENT 90 292,
     Weight 90 4092, Symbol 90 89, Link RIGHT 349 269, Link PARENT 91 269, Weight 91 3261,
     Symbol 91 90, Copy PARENT 92 RIGHT 392, Weight 92 4740, Symbol 92 91, Link RIGHT 385 304,
     Link PARENT 93 304, Weight 93 4544, Symbol 93 92, Link RIGHT 345 267, Link PARENT 94 267,
     Weight 94 3127, Symbol 94 93, Link LEFT 353 272, Link PARENT 95 272, Weight 95 3385,
     Symbol 95 94, Copy PARENT 96 LEFT 433, Weight 96 7688, Symbol 96 95, Link LEFT 454 405,
     Link PARENT 97 405]"

definition huff_data_7 :: "assign list" where
  "huff_data_7 =
    [
     Weight 97 11126, Symbol 97 96, Link RIGHT 419 348, Link PARENT 98 348, Weight 98 6417,
     Symbol 98 97, Link LEFT 402 325, Link PARENT 99 325, Weight 99 5297, Symbol 99 98,
     Copy PARENT 100 LEFT 385, Weight 100 4529, Symbol 100 99, Link LEFT 418 346,
     Link PARENT 101 346, Weight 101 6333, Symbol 101 100, Copy PARENT 102 LEFT 378,
     Weight 102 4210, Symbol 102 101, Link LEFT 428 359, Link PARENT 103 359, Weight 103 7056,
     Symbol 103 102, Copy PARENT 104 LEFT 388, Weight 104 4658, Symbol 104 103,
     Copy PARENT 105 RIGHT 415, Weight 105 6190, Symbol 105 104, Copy PARENT 106 LEFT 358,
     Weight 106 3512, Symbol 106 105, Link LEFT 329 260, Link PARENT 107 260, Weight 107 2843,
     Symbol 107 106, Link LEFT 357 278, Link PARENT 108 278, Weight 108 3479, Symbol 108 107,
     Link LEFT 447 391, Link PARENT 109 391, Weight 109 9369, Symbol 109 108,
     Link RIGHT 400 323, Link PARENT 110 323, Weight 110 5203, Symbol 110 109,
     Link RIGHT 396 317, Link PARENT 111 317, Weight 111 4980, Symbol 111 110,
     Link LEFT 410 335, Link PARENT 112 335, Weight 112 5881, Symbol 112 111,
     Link RIGHT 431 365, Link PARENT 113 365, Weight 113 7509, Symbol 113 112,
     Link RIGHT 378 297, Link PARENT 114 297, Weight 114 4292, Symbol 114 113,
     Copy PARENT 115 RIGHT 414, Weight 115 6097, Symbol 115 114, Copy PARENT 116 RIGHT 404,
     Weight 116 5492, Symbol 116 115, Link RIGHT 387 307, Link PARENT 117 307, Weight 117 4648,
     Symbol 117 116, Link LEFT 338 264, Link PARENT 118 264, Weight 118 2996, Symbol 118 117,
     Link RIGHT 397 319, Link PARENT 119 319, Weight 119 4988, Symbol 119 118,
     Link LEFT 377 294, Link PARENT 120 294, Weight 120 4163, Symbol 120 119,
     Link RIGHT 420 350, Link PARENT 121 350, Weight 121 6534, Symbol 121 120,
     Link RIGHT 372 290, Link PARENT 122 290, Weight 122 4001, Symbol 122 121,
     Link RIGHT 379 298, Link PARENT 123 298, Weight 123 4342, Symbol 123 122,
     Link LEFT 384 302, Link PARENT 124 302, Weight 124 4488, Symbol 124 123,
     Link RIGHT 413 339, Link PARENT 125 339, Weight 125 6039, Symbol 125 124,
     Link LEFT 395 314, Link PARENT 126 314, Weight 126 4827, Symbol 126 125,
     Link RIGHT 428 360, Link PARENT 127 360, Weight 127 7112, Symbol 127 126,
     Link LEFT 441 380, Link PARENT 128 380, Weight 128 8654, Symbol 128 127, Link LEFT 487 462,
     Link PARENT 129 462, Weight 129 26712, Symbol 129 128, Link PARENT 130 380,
     Weight 130 8688, Symbol 130 129, Copy PARENT 131 RIGHT 448, Weight 131 9677,
     Symbol 131 130, Link RIGHT 446 390, Link PARENT 132 390, Weight 132 9368, Symbol 132 131,
     Copy PARENT 133 RIGHT 429, Weight 133 7209, Symbol 133 132, Link LEFT 354 273,
     Link PARENT 134 273, Weight 134 3399, Symbol 134 133, Copy PARENT 135 LEFT 384,
     Weight 135 4473, Symbol 135 134, Link RIGHT 389 309, Link PARENT 136 309, Weight 136 4677,
     Symbol 136 135, Copy PARENT 137 LEFT 454, Weight 137 11087, Symbol 137 136]"

definition huff_data_8 :: "assign list" where
  "huff_data_8 =
    [
     Link RIGHT 375 293, Link PARENT 138 293, Weight 138 4094, Symbol 138 137,
     Link PARENT 139 273, Weight 139 3404, Symbol 139 138, Link RIGHT 377 295,
     Link PARENT 140 295, Weight 140 4176, Symbol 140 139, Link LEFT 422 352,
     Link PARENT 141 352, Weight 141 6733, Symbol 141 140, Link LEFT 365 284,
     Link PARENT 142 284, Weight 142 3702, Symbol 142 141, Link LEFT 455 407,
     Link PARENT 143 407, Weight 143 11420, Symbol 143 142, Link RIGHT 395 315,
     Link PARENT 144 315, Weight 144 4867, Symbol 144 143, Link LEFT 412 336,
     Link PARENT 145 336, Weight 145 5968, Symbol 145 144, Link LEFT 356 277,
     Link PARENT 146 277, Weight 146 3475, Symbol 146 145, Link PARENT 147 284, Weight 147 3722,
     Symbol 147 146, Link RIGHT 359 281, Link PARENT 148 281, Weight 148 3560, Symbol 148 147,
     Link LEFT 386 305, Link PARENT 149 305, Weight 149 4571, Symbol 149 148,
     Copy PARENT 150 LEFT 329, Weight 150 2720, Symbol 150 149, Copy PARENT 151 RIGHT 349,
     Weight 151 3189, Symbol 151 150, Link RIGHT 344 266, Link PARENT 152 266, Weight 152 3099,
     Symbol 152 151, Link LEFT 387 306, Link PARENT 153 306, Weight 153 4595, Symbol 153 152,
     Copy PARENT 154 LEFT 374, Weight 154 4044, Symbol 154 153, Copy PARENT 155 LEFT 382,
     Weight 155 4402, Symbol 155 154, Link LEFT 371 289, Link PARENT 156 289, Weight 156 3889,
     Symbol 156 155, Copy PARENT 157 RIGHT 397, Weight 157 4989, Symbol 157 156,
     Link RIGHT 346 268, Link PARENT 158 268, Weight 158 3186, Symbol 158 157,
     Link PARENT 159 268, Weight 159 3153, Symbol 159 158, Link LEFT 404 327,
     Link PARENT 160 327, Weight 160 5387, Symbol 160 159, Copy PARENT 161 LEFT 437,
     Weight 161 8020, Symbol 161 160, Link LEFT 352 271, Link PARENT 162 271, Weight 162 3322,
     Symbol 162 161, Link RIGHT 366 285, Link PARENT 163 285, Weight 163 3775, Symbol 163 162,
     Link RIGHT 332 262, Link PARENT 164 262, Weight 164 2886, Symbol 164 163,
     Copy PARENT 165 RIGHT 377, Weight 165 4191, Symbol 165 164, Link LEFT 332 261,
     Link PARENT 166 261, Weight 166 2879, Symbol 166 165, Copy PARENT 167 RIGHT 344,
     Weight 167 3110, Symbol 167 166, Link LEFT 325 259, Link PARENT 168 259, Weight 168 2576,
     Symbol 168 167, Link RIGHT 364 283, Link PARENT 169 283, Weight 169 3693, Symbol 169 168,
     Link PARENT 170 258, Weight 170 2436, Symbol 170 169, Copy PARENT 171 RIGHT 396,
     Weight 171 4935, Symbol 171 170, Copy PARENT 172 LEFT 338, Weight 172 3017, Symbol 172 171,
     Copy PARENT 173 RIGHT 359, Weight 173 3538, Symbol 173 172, Copy PARENT 174 LEFT 407,
     Weight 174 5688, Symbol 174 173, Copy PARENT 175 RIGHT 355, Weight 175 3444,
     Symbol 175 174, Copy PARENT 176 RIGHT 354, Weight 176 3410, Symbol 176 175,
     Link RIGHT 444 386, Link PARENT 177 386, Weight 177 9170, Symbol 177 176,
     Copy PARENT 178 RIGHT 391, Weight 178 4708, Symbol 178 177, Copy PARENT 179 LEFT 355,
     Weight 179 3425, Symbol 179 178, Link LEFT 351 270, Link PARENT 180 270]"

definition huff_data_9 :: "assign list" where
  "huff_data_9 =
    [
     Weight 180 3273, Symbol 180 179, Copy PARENT 181 RIGHT 364, Weight 181 3684,
     Symbol 181 180, Copy PARENT 182 RIGHT 385, Weight 182 4564, Symbol 182 181,
     Link RIGHT 425 356, Link PARENT 183 356, Weight 183 6957, Symbol 183 182,
     Copy PARENT 184 LEFT 393, Weight 184 4817, Symbol 184 183, Copy PARENT 185 RIGHT 400,
     Weight 185 5224, Symbol 185 184, Copy PARENT 186 LEFT 351, Weight 186 3285, Symbol 186 185,
     Copy PARENT 187 RIGHT 345, Weight 187 3143, Symbol 187 186, Copy PARENT 188 RIGHT 378,
     Weight 188 4227, Symbol 188 187, Copy PARENT 189 RIGHT 406, Weight 189 5630,
     Symbol 189 188, Copy PARENT 190 RIGHT 413, Weight 190 6053, Symbol 190 189,
     Copy PARENT 191 LEFT 409, Weight 191 5851, Symbol 191 190, Copy PARENT 192 RIGHT 420,
     Weight 192 6507, Symbol 192 191, Copy PARENT 193 LEFT 464, Weight 193 13692,
     Symbol 193 192, Link LEFT 439 376, Link PARENT 194 376, Weight 194 8270, Symbol 194 193,
     Link PARENT 195 376, Weight 195 8260, Symbol 195 194, Link LEFT 406 329,
     Link PARENT 196 329, Weight 196 5583, Symbol 196 195, Link LEFT 432 366,
     Link PARENT 197 366, Weight 197 7568, Symbol 197 196, Copy PARENT 198 LEFT 375,
     Weight 198 4082, Symbol 198 197, Copy PARENT 199 RIGHT 372, Weight 199 3984,
     Symbol 199 198, Copy PARENT 200 LEFT 386, Weight 200 4574, Symbol 200 199,
     Copy PARENT 201 RIGHT 419, Weight 201 6440, Symbol 201 200, Link RIGHT 358 280,
     Link PARENT 202 280, Weight 202 3533, Symbol 202 201, Link RIGHT 335 263,
     Link PARENT 203 263, Weight 203 2992, Symbol 203 202, Copy PARENT 204 LEFT 325,
     Weight 204 2708, Symbol 204 203, Copy PARENT 205 LEFT 400, Weight 205 5190, Symbol 205 204,
     Link RIGHT 370 288, Link PARENT 206 288, Weight 206 3889, Symbol 206 205,
     Copy PARENT 207 RIGHT 366, Weight 207 3799, Symbol 207 206, Copy PARENT 208 LEFT 387,
     Weight 208 4582, Symbol 208 207, Link LEFT 413 338, Link PARENT 209 338, Weight 209 6020,
     Symbol 209 208, Copy PARENT 210 LEFT 356, Weight 210 3464, Symbol 210 209,
     Link RIGHT 382 301, Link PARENT 211 301, Weight 211 4431, Symbol 211 210,
     Copy PARENT 212 LEFT 357, Weight 212 3495, Symbol 212 211, Copy PARENT 213 RIGHT 335,
     Weight 213 2906, Symbol 213 212, Copy PARENT 214 LEFT 258, Weight 214 2243, Symbol 214 213,
     Link RIGHT 368 286, Link PARENT 215 286, Weight 215 3856, Symbol 215 214,
     Copy PARENT 216 LEFT 352, Weight 216 3321, Symbol 216 215, Link RIGHT 441 381,
     Link PARENT 217 381, Weight 217 8759, Symbol 217 216, Copy PARENT 218 LEFT 371,
     Weight 218 3928, Symbol 218 217, Copy PARENT 219 RIGHT 332, Weight 219 2905,
     Symbol 219 218, Copy PARENT 220 LEFT 370, Weight 220 3875, Symbol 220 219,
     Copy PARENT 221 LEFT 381, Weight 221 4382, Symbol 221 220, Copy PARENT 222 RIGHT 370,
     Weight 222 3885, Symbol 222 221, Copy PARENT 223 RIGHT 409, Weight 223 5869,
     Symbol 223 222, Link LEFT 417 345, Link PARENT 224 345, Weight 224 6235, Symbol 224 223,
     Copy PARENT 225 LEFT 453, Weight 225 10685, Symbol 225 224, Copy PARENT 226 RIGHT 382]"

definition huff_data_10 :: "assign list" where
  "huff_data_10 =
    [
     Weight 226 4433, Symbol 226 225, Copy PARENT 227 RIGHT 387, Weight 227 4639,
     Symbol 227 226, Copy PARENT 228 RIGHT 379, Weight 228 4305, Symbol 228 227,
     Link LEFT 390 310, Link PARENT 229 310, Weight 229 4683, Symbol 229 228,
     Copy PARENT 230 LEFT 332, Weight 230 2849, Symbol 230 229, Copy PARENT 231 LEFT 353,
     Weight 231 3379, Symbol 231 230, Link PARENT 232 310, Weight 232 4683, Symbol 232 231,
     Copy PARENT 233 LEFT 404, Weight 233 5477, Symbol 233 232, Copy PARENT 234 LEFT 377,
     Weight 234 4127, Symbol 234 233, Copy PARENT 235 RIGHT 368, Weight 235 3853,
     Symbol 235 234, Copy PARENT 236 RIGHT 358, Weight 236 3515, Symbol 236 235,
     Copy PARENT 237 RIGHT 395, Weight 237 4913, Symbol 237 236, Copy PARENT 238 RIGHT 360,
     Weight 238 3601, Symbol 238 237, Copy PARENT 239 LEFT 401, Weight 239 5237, Symbol 239 238,
     Link LEFT 421 351, Link PARENT 240 351, Weight 240 6617, Symbol 240 239,
     Link RIGHT 443 384, Link PARENT 241 384, Weight 241 9019, Symbol 241 240,
     Copy PARENT 242 LEFT 395, Weight 242 4857, Symbol 242 241, Copy PARENT 243 RIGHT 375,
     Weight 243 4112, Symbol 243 242, Copy PARENT 244 RIGHT 399, Weight 244 5180,
     Symbol 244 243, Copy PARENT 245 RIGHT 412, Weight 245 5998, Symbol 245 244,
     Copy PARENT 246 LEFT 396, Weight 246 4925, Symbol 246 245, Copy PARENT 247 LEFT 397,
     Weight 247 4986, Symbol 247 246, Copy PARENT 248 RIGHT 418, Weight 248 6365,
     Symbol 248 247, Link RIGHT 436 372, Link PARENT 249 372, Weight 249 7930, Symbol 249 248,
     Copy PARENT 250 LEFT 412, Weight 250 5948, Symbol 250 249, Link RIGHT 437 374,
     Link PARENT 251 374, Weight 251 8085, Symbol 251 250, Copy PARENT 252 LEFT 435,
     Weight 252 7732, Symbol 252 251, Link RIGHT 440 379, Link PARENT 253 379, Weight 253 8643,
     Symbol 253 252, Copy PARENT 254 LEFT 443, Weight 254 8901, Symbol 254 253,
     Link LEFT 448 393, Link PARENT 255 393, Weight 255 9653, Symbol 255 254, Link LEFT 492 472,
     Link PARENT 256 472, Weight 256 32647, Symbol 256 255, Link PARENT 257 258,
     Weight 257 2243, Symbol 257 257, Copy PARENT 258 RIGHT 389, Weight 258 4679,
     Symbol 258 257, Copy PARENT 259 LEFT 402, Weight 259 5284, Symbol 259 257,
     Copy PARENT 260 LEFT 406, Weight 260 5563, Symbol 260 257, Link LEFT 408 332,
     Link PARENT 261 332, Weight 261 5728, Symbol 261 257, Link PARENT 262 332, Weight 262 5791,
     Symbol 262 257, Copy PARENT 263 LEFT 410, Weight 263 5898, Symbol 263 257,
     Copy PARENT 264 LEFT 413, Weight 264 6013, Symbol 264 257, Copy PARENT 265 LEFT 415,
     Weight 265 6147, Symbol 265 257, Copy PARENT 266 RIGHT 416, Weight 266 6209,
     Symbol 266 257, Copy PARENT 267 LEFT 417, Weight 267 6270, Symbol 267 257,
     Copy PARENT 268 LEFT 418, Weight 268 6339, Symbol 268 257, Copy PARENT 269 LEFT 420,
     Weight 269 6450, Symbol 269 257, Copy PARENT 270 LEFT 421, Weight 270 6558, Symbol 270 257,
     Copy PARENT 271 LEFT 422, Weight 271 6643, Symbol 271 257, Copy PARENT 272 RIGHT 422,
     Weight 272 6764, Symbol 272 257, Link LEFT 423 354]"

definition huff_data_11 :: "assign list" where
  "huff_data_11 =
    [
     Link PARENT 273 354, Weight 273 6803, Symbol 273 257, Link PARENT 274 354, Weight 274 6824,
     Symbol 274 257, Link LEFT 425 355, Link PARENT 275 355, Weight 275 6858, Symbol 275 257,
     Link PARENT 276 355, Weight 276 6899, Symbol 276 257, Copy PARENT 277 RIGHT 425,
     Weight 277 6939, Symbol 277 257, Copy PARENT 278 LEFT 426, Weight 278 6974, Symbol 278 257,
     Link RIGHT 426 358, Link PARENT 279 358, Weight 279 7015, Symbol 279 257,
     Link PARENT 280 358, Weight 280 7048, Symbol 280 257, Copy PARENT 281 LEFT 428,
     Weight 281 7098, Symbol 281 257, Copy PARENT 282 RIGHT 428, Weight 282 7164,
     Symbol 282 257, Copy PARENT 283 LEFT 431, Weight 283 7377, Symbol 283 257,
     Copy PARENT 284 RIGHT 431, Weight 284 7424, Symbol 284 257, Copy PARENT 285 LEFT 432,
     Weight 285 7574, Symbol 285 257, Copy PARENT 286 LEFT 434, Weight 286 7709, Symbol 286 257,
     Link RIGHT 435 370, Link PARENT 287 370, Weight 287 7753, Symbol 287 257,
     Link PARENT 288 370, Weight 288 7774, Symbol 288 257, Copy PARENT 289 LEFT 436,
     Weight 289 7817, Symbol 289 257, Copy PARENT 290 RIGHT 436, Weight 290 7985,
     Symbol 290 257, Copy PARENT 291 RIGHT 437, Weight 291 8057, Symbol 291 257,
     Link LEFT 438 375, Link PARENT 292 375, Weight 292 8174, Symbol 292 257,
     Link PARENT 293 375, Weight 293 8206, Symbol 293 257, Link RIGHT 439 377,
     Link PARENT 294 377, Weight 294 8290, Symbol 294 257, Link PARENT 295 377, Weight 295 8367,
     Symbol 295 257, Link LEFT 440 378, Link PARENT 296 378, Weight 296 8408, Symbol 296 257,
     Link PARENT 297 378, Weight 297 8519, Symbol 297 257, Copy PARENT 298 RIGHT 440,
     Weight 298 8647, Symbol 298 257, Copy PARENT 299 RIGHT 441, Weight 299 8727,
     Symbol 299 257, Link LEFT 442 382, Link PARENT 300 382, Weight 300 8825, Symbol 300 257,
     Link PARENT 301 382, Weight 301 8864, Symbol 301 257, Copy PARENT 302 RIGHT 443,
     Weight 302 8961, Symbol 302 257, Link LEFT 444 385, Link PARENT 303 385, Weight 303 9048,
     Symbol 303 257, Link PARENT 304 385, Weight 304 9108, Symbol 304 257,
     Copy PARENT 305 RIGHT 444, Weight 305 9145, Symbol 305 257, Link LEFT 445 387,
     Link PARENT 306 387, Weight 306 9177, Symbol 306 257, Link PARENT 307 387, Weight 307 9287,
     Symbol 307 257, Copy PARENT 308 RIGHT 445, Weight 308 9307, Symbol 308 257,
     Link RIGHT 309 258, Copy PARENT 309 LEFT 446, Weight 309 9356, Symbol 309 257,
     Copy PARENT 310 RIGHT 446, Weight 310 9366, Symbol 310 257, Copy PARENT 311 LEFT 447,
     Weight 311 9403, Symbol 311 257, Copy PARENT 312 RIGHT 447, Weight 312 9485,
     Symbol 312 257, Copy PARENT 313 LEFT 448, Weight 313 9624, Symbol 313 257,
     Link LEFT 449 395, Link PARENT 314 395, Weight 314 9684, Symbol 314 257,
     Link PARENT 315 395, Weight 315 9780, Symbol 315 257, Link RIGHT 449 396,
     Link PARENT 316 396, Weight 316 9854, Symbol 316 257, Link PARENT 317 396, Weight 317 9915,
     Symbol 317 257, Link LEFT 450 397, Link PARENT 318 397, Weight 318 9968]"

definition huff_data_12 :: "assign list" where
  "huff_data_12 =
    [
     Symbol 318 257, Link PARENT 319 397, Weight 319 9977, Symbol 319 257,
     Copy PARENT 320 RIGHT 450, Weight 320 10028, Symbol 320 257, Copy PARENT 321 LEFT 451,
     Weight 321 10344, Symbol 321 257, Link RIGHT 451 400, Link PARENT 322 400,
     Weight 322 10389, Symbol 322 257, Link PARENT 323 400, Weight 323 10427, Symbol 323 257,
     Copy PARENT 324 LEFT 452, Weight 324 10466, Symbol 324 257, Link RIGHT 452 402,
     Link PARENT 325 402, Weight 325 10581, Symbol 325 257, Link PARENT 326 402,
     Weight 326 10656, Symbol 326 257, Link RIGHT 453 404, Link PARENT 327 404,
     Weight 327 10864, Symbol 327 257, Link PARENT 328 404, Weight 328 11006, Symbol 328 257,
     Link RIGHT 454 406, Link PARENT 329 406, Weight 329 11146, Symbol 329 257,
     Link PARENT 330 406, Weight 330 11296, Symbol 330 257, Copy PARENT 331 LEFT 455,
     Weight 331 11377, Symbol 331 257, Copy PARENT 332 RIGHT 455, Weight 332 11519,
     Symbol 332 257, Link LEFT 456 409, Link PARENT 333 409, Weight 333 11658, Symbol 333 257,
     Link PARENT 334 409, Weight 334 11735, Symbol 334 257, Copy PARENT 335 RIGHT 456,
     Weight 335 11779, Symbol 335 257, Link RIGHT 457 412, Link PARENT 336 412,
     Weight 336 11916, Symbol 336 257, Link PARENT 337 412, Weight 337 11970, Symbol 337 257,
     Link LEFT 458 413, Link PARENT 338 413, Weight 338 12033, Symbol 338 257,
     Link PARENT 339 413, Weight 339 12092, Symbol 339 257, Link RIGHT 458 414,
     Link PARENT 340 414, Weight 340 12153, Symbol 340 257, Link PARENT 341 414,
     Weight 341 12195, Symbol 341 257, Link LEFT 459 415, Link PARENT 342 415, Weight 342 12250,
     Symbol 342 257, Link PARENT 343 415, Weight 343 12351, Symbol 343 257,
     Copy PARENT 344 RIGHT 459, Weight 344 12408, Symbol 344 257, Copy PARENT 345 LEFT 460,
     Weight 345 12505, Symbol 345 257, Link RIGHT 460 418, Link PARENT 346 418,
     Weight 346 12672, Symbol 346 257, Link PARENT 347 418, Weight 347 12714, Symbol 347 257,
     Copy PARENT 348 LEFT 461, Weight 348 12857, Symbol 348 257, Link RIGHT 461 420,
     Link PARENT 349 420, Weight 349 12896, Symbol 349 257, Link PARENT 350 420,
     Weight 350 13041, Symbol 350 257, Copy PARENT 351 LEFT 462, Weight 351 13175,
     Symbol 351 257, Link LEFT 463 422, Link PARENT 352 422, Weight 352 13376, Symbol 352 257,
     Link PARENT 353 422, Weight 353 13543, Symbol 353 257, Copy PARENT 354 RIGHT 463,
     Weight 354 13627, Symbol 354 257, Link RIGHT 464 425, Link PARENT 355 425,
     Weight 355 13757, Symbol 355 257, Link PARENT 356 425, Weight 356 13896, Symbol 356 257,
     Link RIGHT 465 426, Link PARENT 357 426, Weight 357 13953, Symbol 357 257,
     Link PARENT 358 426, Weight 358 14063, Symbol 358 257, Link RIGHT 466 428,
     Link PARENT 359 428, Weight 359 14154, Symbol 359 257, Link PARENT 360 428,
     Weight 360 14276, Symbol 360 257, Copy PARENT 361 LEFT 467, Weight 361 14408,
     Symbol 361 257, Link RIGHT 467 430, Link PARENT 362 430, Weight 362 14433, Symbol 362 257,
     Link PARENT 363 430]"

definition huff_data_13 :: "assign list" where
  "huff_data_13 =
    [
     Weight 363 14484, Symbol 363 257, Link RIGHT 468 431, Link PARENT 364 431,
     Weight 364 14699, Symbol 364 257, Link PARENT 365 431, Weight 365 14933, Symbol 365 257,
     Copy PARENT 366 LEFT 469, Weight 366 15142, Symbol 366 257, Copy PARENT 367 RIGHT 469,
     Weight 367 15323, Symbol 367 257, Copy PARENT 368 LEFT 470, Weight 368 15407,
     Symbol 368 257, Link RIGHT 470 435, Link PARENT 369 435, Weight 369 15482, Symbol 369 257,
     Link PARENT 370 435, Weight 370 15527, Symbol 370 257, Link LEFT 471 436,
     Link PARENT 371 436, Weight 371 15643, Symbol 371 257, Link PARENT 372 436,
     Weight 372 15915, Symbol 372 257, Link RIGHT 471 437, Link PARENT 373 437,
     Weight 373 16022, Symbol 373 257, Link PARENT 374 437, Weight 374 16142, Symbol 374 257,
     Copy PARENT 375 RIGHT 472, Weight 375 16380, Symbol 375 257, Link LEFT 473 439,
     Link PARENT 376 439, Weight 376 16530, Symbol 376 257, Link PARENT 377 439,
     Weight 377 16657, Symbol 377 257, Link RIGHT 473 440, Link PARENT 378 440,
     Weight 378 16927, Symbol 378 257, Link PARENT 379 440, Weight 379 17290, Symbol 379 257,
     Link LEFT 474 441, Link PARENT 380 441, Weight 380 17342, Symbol 380 257,
     Link PARENT 381 441, Weight 381 17486, Symbol 381 257, Copy PARENT 382 RIGHT 474,
     Weight 382 17689, Symbol 382 257, Link LEFT 475 443, Link PARENT 383 443, Weight 383 17775,
     Symbol 383 257, Link PARENT 384 443, Weight 384 17980, Symbol 384 257, Link RIGHT 475 444,
     Link PARENT 385 444, Weight 385 18156, Symbol 385 257, Link PARENT 386 444,
     Weight 386 18315, Symbol 386 257, Link LEFT 476 445, Link PARENT 387 445, Weight 387 18464,
     Symbol 387 257, Link PARENT 388 445, Weight 388 18653, Symbol 388 257, Link RIGHT 476 446,
     Link PARENT 389 446, Weight 389 18709, Symbol 389 257, Link PARENT 390 446,
     Weight 390 18734, Symbol 390 257, Link LEFT 477 447, Link PARENT 391 447, Weight 391 18772,
     Symbol 391 257, Link PARENT 392 447, Weight 392 18905, Symbol 392 257, Link RIGHT 477 448,
     Link PARENT 393 448, Weight 393 19277, Symbol 393 257, Link PARENT 394 448,
     Weight 394 19333, Symbol 394 257, Link RIGHT 478 449, Link PARENT 395 449,
     Weight 395 19464, Symbol 395 257, Link PARENT 396 449, Weight 396 19769, Symbol 396 257,
     Link LEFT 479 450, Link PARENT 397 450, Weight 397 19945, Symbol 397 257,
     Link PARENT 398 450, Weight 398 20007, Symbol 398 257, Link RIGHT 480 451,
     Link PARENT 399 451, Weight 399 20605, Symbol 399 257, Link PARENT 400 451,
     Weight 400 20816, Symbol 400 257, Link LEFT 481 452, Link PARENT 401 452, Weight 401 21000,
     Symbol 401 257, Link PARENT 402 452, Weight 402 21237, Symbol 402 257, Link RIGHT 481 453,
     Link PARENT 403 453, Weight 403 21443, Symbol 403 257, Link PARENT 404 453,
     Weight 404 21870, Symbol 404 257, Link LEFT 482 454, Link PARENT 405 454, Weight 405 22213,
     Symbol 405 257, Link PARENT 406 454, Weight 406 22442, Symbol 406 257]"

definition huff_data_14 :: "assign list" where
  "huff_data_14 =
    [
     Link RIGHT 482 455, Link PARENT 407 455, Weight 407 22797, Symbol 407 257,
     Link PARENT 408 455, Weight 408 23147, Symbol 408 257, Link LEFT 483 456,
     Link PARENT 409 456, Weight 409 23393, Symbol 409 257, Link PARENT 410 456,
     Weight 410 23577, Symbol 410 257, Link RIGHT 483 457, Link PARENT 411 457,
     Weight 411 23709, Symbol 411 257, Link PARENT 412 457, Weight 412 23886, Symbol 412 257,
     Link RIGHT 484 458, Link PARENT 413 458, Weight 413 24125, Symbol 413 257,
     Link PARENT 414 458, Weight 414 24348, Symbol 414 257, Link RIGHT 485 459,
     Link PARENT 415 459, Weight 415 24601, Symbol 415 257, Link PARENT 416 459,
     Weight 416 24794, Symbol 416 257, Link LEFT 486 460, Link PARENT 417 460, Weight 417 25111,
     Symbol 417 257, Link PARENT 418 460, Weight 418 25386, Symbol 418 257, Link RIGHT 486 461,
     Link PARENT 419 461, Weight 419 25671, Symbol 419 257, Link PARENT 420 461,
     Weight 420 25937, Symbol 420 257, Copy PARENT 421 LEFT 487, Weight 421 26359,
     Symbol 421 257, Link RIGHT 487 463, Link PARENT 422 463, Weight 422 26919, Symbol 422 257,
     Link PARENT 423 463, Weight 423 27256, Symbol 423 257, Link LEFT 488 464,
     Link PARENT 424 464, Weight 424 27323, Symbol 424 257, Link PARENT 425 464,
     Weight 425 27653, Symbol 425 257, Copy PARENT 426 RIGHT 488, Weight 426 28016,
     Symbol 426 257, Link LEFT 489 466, Link PARENT 427 466, Weight 427 28225, Symbol 427 257,
     Link PARENT 428 466, Weight 428 28430, Symbol 428 257, Link RIGHT 489 467,
     Link PARENT 429 467, Weight 429 28727, Symbol 429 257, Link PARENT 430 467,
     Weight 430 28917, Symbol 430 257, Copy PARENT 431 LEFT 490, Weight 431 29632,
     Symbol 431 257, Link RIGHT 490 469, Link PARENT 432 469, Weight 432 30398, Symbol 432 257,
     Link PARENT 433 469, Weight 433 30704, Symbol 433 257, Link LEFT 491 470,
     Link PARENT 434 470, Weight 434 30846, Symbol 434 257, Link PARENT 435 470,
     Weight 435 31009, Symbol 435 257, Link RIGHT 491 471, Link PARENT 436 471,
     Weight 436 31558, Symbol 436 257, Link PARENT 437 471, Weight 437 32164, Symbol 437 257,
     Copy PARENT 438 LEFT 492, Weight 438 32820, Symbol 438 257, Link RIGHT 492 473,
     Link PARENT 439 473, Weight 439 33187, Symbol 439 257, Link PARENT 440 473,
     Weight 440 34217, Symbol 440 257, Link PARENT 441 474, Weight 441 34828, Symbol 441 257,
     Link PARENT 442 474, Weight 442 35401, Symbol 442 257, Link LEFT 494 475,
     Link PARENT 443 475, Weight 443 35755, Symbol 443 257, Link PARENT 444 475,
     Weight 444 36471, Symbol 444 257, Link RIGHT 494 476, Link PARENT 445 476,
     Weight 445 37117, Symbol 445 257, Link PARENT 446 476, Weight 446 37443, Symbol 446 257,
     Link LEFT 495 477, Link PARENT 447 477, Weight 447 37677, Symbol 447 257,
     Link PARENT 448 477, Weight 448 38610, Symbol 448 257, Copy PARENT 449 RIGHT 495,
     Weight 449 39233, Symbol 449 257, Copy PARENT 450 LEFT 496, Weight 450 39952, Symbol 450 257]"

definition huff_data_15 :: "assign list" where
  "huff_data_15 =
    [
     Copy PARENT 451 RIGHT 496, Weight 451 41421, Symbol 451 257, Link LEFT 497 481,
     Link PARENT 452 481, Weight 452 42237, Symbol 452 257, Link PARENT 453 481,
     Weight 453 43313, Symbol 453 257, Link RIGHT 497 482, Link PARENT 454 482,
     Weight 454 44655, Symbol 454 257, Link PARENT 455 482, Weight 455 45944, Symbol 455 257,
     Link LEFT 498 483, Link PARENT 456 483, Weight 456 46970, Symbol 456 257,
     Link PARENT 457 483, Weight 457 47595, Symbol 457 257, Copy PARENT 458 RIGHT 498,
     Weight 458 48473, Symbol 458 257, Copy PARENT 459 LEFT 499, Weight 459 49395,
     Symbol 459 257, Link RIGHT 499 486, Link PARENT 460 486, Weight 460 50497, Symbol 460 257,
     Link PARENT 461 486, Weight 461 51608, Symbol 461 257, Link LEFT 500 487,
     Link PARENT 462 487, Weight 462 53071, Symbol 462 257, Link PARENT 463 487,
     Weight 463 54175, Symbol 463 257, Link RIGHT 500 488, Link PARENT 464 488,
     Weight 464 54976, Symbol 464 257, Link PARENT 465 488, Weight 465 55708, Symbol 465 257,
     Link LEFT 501 489, Link PARENT 466 489, Weight 466 56655, Symbol 466 257,
     Link PARENT 467 489, Weight 467 57644, Symbol 467 257, Link RIGHT 501 490,
     Link PARENT 468 490, Weight 468 58600, Symbol 468 257, Link PARENT 469 490,
     Weight 469 61102, Symbol 469 257, Link LEFT 502 491, Link PARENT 470 491, Weight 470 61855,
     Symbol 470 257, Link PARENT 471 491, Weight 471 63722, Symbol 471 257, Link RIGHT 502 492,
     Link PARENT 472 492, Weight 472 65467, Symbol 472 257, Link PARENT 473 492,
     Weight 473 67404, Symbol 473 257, Copy PARENT 474 LEFT 503, Weight 474 70229,
     Symbol 474 257, Link RIGHT 503 494, Link PARENT 475 494, Weight 475 72226, Symbol 475 257,
     Link PARENT 476 494, Weight 476 74560, Symbol 476 257, Link LEFT 504 495,
     Link PARENT 477 495, Weight 477 76287, Symbol 477 257, Link PARENT 478 495,
     Weight 478 78239, Symbol 478 257, Link RIGHT 504 496, Link PARENT 479 496,
     Weight 479 80218, Symbol 479 257, Link PARENT 480 496, Weight 480 81881, Symbol 480 257,
     Link LEFT 505 497, Link PARENT 481 497, Weight 481 85550, Symbol 481 257,
     Link PARENT 482 497, Weight 482 90599, Symbol 482 257, Link RIGHT 505 498,
     Link PARENT 483 498, Weight 483 94565, Symbol 483 257, Link PARENT 484 498,
     Weight 484 96532, Symbol 484 257, Link LEFT 506 499, Link PARENT 485 499, Weight 485 98025,
     Symbol 485 257, Link PARENT 486 499, Weight 486 102105, Symbol 486 257, Link RIGHT 506 500,
     Link PARENT 487 500, Weight 487 107246, Symbol 487 257, Link PARENT 488 500,
     Weight 488 110684, Symbol 488 257, Link PARENT 489 501, Weight 489 114299, Symbol 489 257,
     Link PARENT 490 501, Weight 490 119702, Symbol 490 257, Link PARENT 491 502,
     Weight 491 125577, Symbol 491 257, Link PARENT 492 502, Weight 492 132871, Symbol 492 257,
     Link RIGHT 493 474, Link RIGHT 508 503, Link PARENT 493 503, Weight 493 139006,
     Symbol 493 257, Link PARENT 494 503, Weight 494 146786]"

definition huff_data_16 :: "assign list" where
  "huff_data_16 =
    [
     Symbol 494 257, Link PARENT 495 504, Weight 495 154526, Symbol 495 257,
     Link PARENT 496 504, Weight 496 162099, Symbol 496 257, Link PARENT 497 505,
     Weight 497 176149, Symbol 497 257, Link PARENT 498 505, Weight 498 191097, Symbol 498 257,
     Link LEFT 510 506, Link PARENT 499 506, Weight 499 200130, Symbol 499 257,
     Link PARENT 500 506, Weight 500 217930, Symbol 500 257, Link RIGHT 510 507,
     Link PARENT 501 507, Weight 501 234001, Symbol 501 257, Link PARENT 502 507,
     Weight 502 258448, Symbol 502 257, Copy PARENT 503 LEFT 511, Weight 503 285792,
     Symbol 503 257, Link RIGHT 511 509, Link PARENT 504 509, Weight 504 316625, Symbol 504 257,
     Link PARENT 505 509, Weight 505 367246, Symbol 505 257, Link LEFT 512 510,
     Link PARENT 506 510, Weight 506 418060, Symbol 506 257, Link LEFT 507 501,
     Link RIGHT 507 502, Link PARENT 507 510, Weight 507 492449, Symbol 507 257,
     Link PARENT 508 511, Weight 508 559846, Symbol 508 257, Link LEFT 509 504,
     Link RIGHT 509 505, Link PARENT 509 511, Weight 509 683871, Symbol 509 257,
     Copy PARENT 510 PARENT 511, Weight 510 910509, Symbol 510 257, Weight 511 1243717,
     Symbol 511 257, Link RIGHT 512 511, Weight 512 2154226, Symbol 512 257]"

definition huff_data :: "assign list list" where
  "huff_data =
          [huff_data_1, huff_data_2, huff_data_3, huff_data_4, huff_data_5, huff_data_6,
      huff_data_7, huff_data_8, huff_data_9, huff_data_10, huff_data_11, huff_data_12,
      huff_data_13, huff_data_14, huff_data_15, huff_data_16]"

definition Huff_BuildFromData :: "huff \<Rightarrow> huff" where
  "Huff_BuildFromData h = fold (\<lambda>part h. fold run_assign part h) huff_data h"

text \<open>\<open>Huffman_InitMain\<close>: the static flag and the global tree.\<close>

definition Huffman_InitMain :: "bool \<times> huff \<Rightarrow> bool \<times> huff" where
  "Huffman_InitMain st = (if fst st then st else (True, Huff_BuildFromData Huff_Init))"

section \<open>What a coder needs of the tree\<close>

text \<open>
  \<open>climb\<close> goes from a node up to the root and collects the bits of the way down; every step
  checks that the parent is an internal node with this child.  \<open>reaches_leaf\<close> says that every
  way down ends at a leaf, within a depth.
\<close>

fun climb :: "nat \<Rightarrow> huff \<Rightarrow> nat \<Rightarrow> bool list \<Rightarrow> (nat \<times> bool list) option" where
  "climb 0 h n bs = None"
| "climb (Suc k) h n bs =
     (case parent (nodeList h ! n) of
        None \<Rightarrow> Some (n, bs)
      | Some p \<Rightarrow>
          if p < 768 \<and> symbol (nodeList h ! p) = INTERNAL_NODE
             \<and> (right (nodeList h ! p) = Some n \<or> left (nodeList h ! p) = Some n)
          then climb k h p ((right (nodeList h ! p) = Some n) # bs) else None)"

fun reaches_leaf :: "nat \<Rightarrow> huff \<Rightarrow> nat option \<Rightarrow> bool" where
  "reaches_leaf 0 h p = False"
| "reaches_leaf (Suc k) h p =
     (case p of
        None \<Rightarrow> False
      | Some n \<Rightarrow> n < 768
          \<and> (symbol (nodeList h ! n) = INTERNAL_NODE \<longrightarrow>
               reaches_leaf k h (left (nodeList h ! n)) \<and> reaches_leaf k h (right (nodeList h ! n))))"

text \<open>The code of a symbol.\<close>

definition symbol_code :: "huff \<Rightarrow> nat \<Rightarrow> bool list option" where
  "symbol_code h c =
     (case loc h ! c of
        None \<Rightarrow> None
      | Some n \<Rightarrow>
          if n < 768 \<and> symbol (nodeList h ! n) = int c
          then (case climb 12 h n [] of
                  None \<Rightarrow> None
                | Some (q, bs) \<Rightarrow> if tree h = Some q \<and> bs \<noteq> [] then Some bs else None)
          else None)"

section \<open>Evaluation\<close>

text \<open>
  To evaluate the program, the arrays are represented by binary tries over the numerals of
  the indices; \<open>tview\<close> keeps of a node what the coder looks at.
\<close>

datatype 'a trie = Tip | Fork "'a trie" 'a "'a trie"

fun tget :: "'a \<Rightarrow> num \<Rightarrow> 'a trie \<Rightarrow> 'a" where
  "tget d k Tip = d"
| "tget d num.One (Fork l v r) = v"
| "tget d (num.Bit0 k) (Fork l v r) = tget d k l"
| "tget d (num.Bit1 k) (Fork l v r) = tget d k r"

fun tput :: "'a \<Rightarrow> num \<Rightarrow> 'a \<Rightarrow> 'a trie \<Rightarrow> 'a trie" where
  "tput d num.One x Tip = Fork Tip x Tip"
| "tput d (num.Bit0 k) x Tip = Fork (tput d k x Tip) d Tip"
| "tput d (num.Bit1 k) x Tip = Fork Tip d (tput d k x Tip)"
| "tput d num.One x (Fork l v r) = Fork l x r"
| "tput d (num.Bit0 k) x (Fork l v r) = Fork (tput d k x l) v r"
| "tput d (num.Bit1 k) x (Fork l v r) = Fork l v (tput d k x r)"

lemma tget_tput: "tget d j (tput d k x t) = (if j = k then x else tget d j t)"
proof (induction d k x t arbitrary: j rule: tput.induct)
qed (case_tac j; simp)+

datatype tview = View "nat option" "nat option" "nat option" int

fun vget :: "link \<Rightarrow> tview \<Rightarrow> nat option" where
  "vget LEFT (View l r p s) = l"
| "vget RIGHT (View l r p s) = r"
| "vget PARENT (View l r p s) = p"

fun vset :: "link \<Rightarrow> nat option \<Rightarrow> tview \<Rightarrow> tview" where
  "vset LEFT x (View l r p s) = View x r p s"
| "vset RIGHT x (View l r p s) = View l x p s"
| "vset PARENT x (View l r p s) = View l r x s"

fun vsym :: "int \<Rightarrow> tview \<Rightarrow> tview" where
  "vsym x (View l r p s) = View l r p x"

definition view :: "hnode \<Rightarrow> tview" where
  "view n = View (left n) (right n) (parent n) (symbol n)"

definition key :: "nat \<Rightarrow> num" where
  "key n = num_of_nat (n + 1)"

definition none_view :: tview where "none_view = View None None None 0"

type_synonym tstate = "nat option \<times> nat option trie \<times> tview trie"

fun trun :: "assign \<Rightarrow> tstate \<Rightarrow> tstate" where
  "trun (Bloc n) (r, L, N) = (r, L, N)"
| "trun (Root n) (r, L, N) = (Some n, L, N)"
| "trun (Loc c n) (r, L, N) = (r, tput None (key c) (Some n) L, N)"
| "trun (Weight n w) (r, L, N) = (r, L, N)"
| "trun (Symbol n s) (r, L, N) =
     (r, L, tput none_view (key n) (vsym s (tget none_view (key n) N)) N)"
| "trun (Link f n m) (r, L, N) =
     (r, L, tput none_view (key n) (vset f (Some m) (tget none_view (key n) N)) N)"
| "trun (Copy f n g m) (r, L, N) =
     (r, L, tput none_view (key n)
        (vset f (vget g (tget none_view (key m) N)) (tget none_view (key n) N)) N)"

fun in_range :: "assign \<Rightarrow> bool" where
  "in_range (Bloc n) = True"
| "in_range (Root n) = True"
| "in_range (Loc c n) = (c < 257)"
| "in_range (Weight n w) = (n < 768)"
| "in_range (Symbol n s) = (n < 768)"
| "in_range (Link f n m) = (n < 768)"
| "in_range (Copy f n g m) = (n < 768 \<and> m < 768)"

definition tagrees :: "huff \<Rightarrow> tstate \<Rightarrow> bool" where
  "tagrees h s \<longleftrightarrow>
     tree h = fst s \<and> length (loc h) = 257 \<and> length (nodeList h) = 768
     \<and> (\<forall>c < 257. loc h ! c = tget None (key c) (fst (snd s)))
     \<and> (\<forall>n < 768. view (nodeList h ! n) = tget none_view (key n) (snd (snd s)))"

lemma key_inj [simp]: "key n = key m \<longleftrightarrow> n = m"
  unfolding key_def by (metis add_right_cancel nat_of_num_inverse nat_of_num_numeral num_of_nat_inverse zero_less_one add_pos_nonneg zero_le add.commute)

lemma view_set_link: "view (set_link f p n) = vset f p (view n)"
  by (cases f) (simp_all add: view_def)

lemma vget_view: "vget f (view n) = get_link f n"
  by (cases f) (simp_all add: view_def)

lemma view_updates:
  "view (symbol_update (\<lambda>_. x) n) = vsym x (view n)" "view (weight_update (\<lambda>_. w) n) = view n"
  by (simp_all add: view_def)

lemma tagrees_step: "tagrees h s \<Longrightarrow> in_range a \<Longrightarrow> tagrees (run_assign a h) (trun a s)"
  by (cases s; cases a)
    (auto simp: tagrees_def node_update_def nth_list_update tget_tput view_set_link view_updates
      vget_view [symmetric])

lemma tagrees_fold:
  "tagrees h s \<Longrightarrow> list_all in_range as \<Longrightarrow> tagrees (fold run_assign as h) (fold trun as s)"
  by (induction as arbitrary: h s) (simp_all add: tagrees_step)


section \<open>The evaluation\<close>

text \<open>
  The same three functions on tries, in a form that is evaluated by rewriting alone: each
  step matches on the node it has read.
\<close>

fun vsymbol :: "tview \<Rightarrow> int" where
  "vsymbol (View l r p s) = s"

fun is_child :: "nat \<Rightarrow> tview \<Rightarrow> bool" where
  "is_child n (View l r p s) = (s = 257 \<and> (r = Some n \<or> l = Some n))"

fun side :: "nat \<Rightarrow> tview \<Rightarrow> bool" where
  "side n (View l r p s) = (r = Some n)"

fun tclimb :: "nat \<Rightarrow> tview trie \<Rightarrow> nat \<Rightarrow> bool list \<Rightarrow> (nat \<times> bool list) option"
  and tclimb_up :: "nat \<Rightarrow> tview trie \<Rightarrow> nat \<Rightarrow> bool list \<Rightarrow> nat option \<Rightarrow> (nat \<times> bool list) option"
  and tclimb_at :: "nat \<Rightarrow> tview trie \<Rightarrow> nat \<Rightarrow> bool list \<Rightarrow> nat \<Rightarrow> tview \<Rightarrow> (nat \<times> bool list) option"
  where
  "tclimb 0 N n bs = None"
| "tclimb (Suc k) N n bs = tclimb_up k N n bs (vget PARENT (tget none_view (key n) N))"
| "tclimb_up k N n bs None = Some (n, bs)"
| "tclimb_up k N n bs (Some p) = tclimb_at k N n bs p (tget none_view (key p) N)"
| "tclimb_at k N n bs p v =
     (if p < 768 \<and> is_child n v then tclimb k N p (side n v # bs) else None)"

fun tleaf :: "nat \<Rightarrow> tview trie \<Rightarrow> nat option \<Rightarrow> bool"
  and tleaf_at :: "nat \<Rightarrow> tview trie \<Rightarrow> tview \<Rightarrow> bool" where
  "tleaf 0 N p = False"
| "tleaf (Suc k) N None = False"
| "tleaf (Suc k) N (Some n) = (n < 768 \<and> tleaf_at k N (tget none_view (key n) N))"
| "tleaf_at k N (View l r p s) = (if s = 257 then tleaf k N l \<and> tleaf k N r else True)"

fun tcode :: "tstate \<Rightarrow> nat \<Rightarrow> bool list option"
  and tcode_at :: "nat \<Rightarrow> nat option \<Rightarrow> nat option \<Rightarrow> tview trie \<Rightarrow> bool list option"
  and tcode_root :: "nat option \<Rightarrow> (nat \<times> bool list) option \<Rightarrow> bool list option" where
  "tcode (r, L, N) c = tcode_at c r (tget None (key c) L) N"
| "tcode_at c r None N = None"
| "tcode_at c r (Some n) N =
     (if n < 768 \<and> vsymbol (tget none_view (key n) N) = int c
      then tcode_root r (tclimb 12 N n []) else None)"
| "tcode_root r None = None"
| "tcode_root r (Some (q, bs)) = (if r = Some q \<and> bs \<noteq> [] then Some bs else None)"

fun all_coded :: "nat \<Rightarrow> tstate \<Rightarrow> bool" where
  "all_coded 0 s = True"
| "all_coded (Suc c) s = (tcode s c \<noteq> None \<and> all_coded c s)"

fun tree_ok :: "tstate \<Rightarrow> bool" where
  "tree_ok (r, L, N) =
     (tleaf 12 N r \<and> all_coded 256 (r, L, N)
      \<and> tcode (r, L, N) 0 = Some [True, False, False]
      \<and> tcode (r, L, N) 6 = Some [False, False, False, False, False]
      \<and> tcode (r, L, N) 223 = Some [False, False, False, True, False, False, False, False])"

lemma key_eval:
  "key 0 = num.One" "key 1 = num.Bit0 num.One" "key (Suc 0) = num.Bit0 num.One"
  "key (numeral k) = Num.inc k"
proof -
  have "numeral k + 1 = (numeral (Num.inc k) :: nat)"
    by (metis Num.add_One add_One_commute numeral_plus_one)
  then show "key (numeral k) = Num.inc k"
    unfolding key_def by (simp only: num_of_nat_numeral_eq)
qed (simp_all add: key_def)

lemma fuel_eval:
  "tclimb (numeral k) N n bs =
     tclimb_up (pred_numeral k) N n bs (vget PARENT (tget none_view (key n) N))"
  "tleaf (numeral k) N None = False"
  "tleaf (numeral k) N (Some n) = (n < 768 \<and> tleaf_at (pred_numeral k) N (tget none_view (key n) N))"
  "all_coded (numeral k) s = (tcode s (pred_numeral k) \<noteq> None \<and> all_coded (pred_numeral k) s)"
  "all_coded 1 s = (tcode s 0 \<noteq> None)"
  by (simp_all add: numeral_eq_Suc)

lemmas huff_data_defs = huff_data_def
  huff_data_1_def huff_data_2_def huff_data_3_def huff_data_4_def huff_data_5_def
  huff_data_6_def huff_data_7_def huff_data_8_def huff_data_9_def huff_data_10_def
  huff_data_11_def huff_data_12_def huff_data_13_def huff_data_14_def huff_data_15_def
  huff_data_16_def

lemmas eval_simps = fold_simps trun.simps key_eval Num.inc.simps tput.simps tget.simps
  vset.simps vget.simps vsym.simps none_view_def fst_conv snd_conv tclimb_up.simps
  tclimb_at.simps tleaf_at.simps tcode.simps tcode_at.simps tcode_root.simps all_coded.simps
  tree_ok.simps is_child.simps side.simps fuel_eval pred_numeral_simps Num.BitM.simps if_True if_False
  vsymbol.simps rel_simps semiring_norm option.inject option.distinct list.inject list.distinct simp_thms
  of_nat_numeral of_nat_0 of_nat_1

definition tstart :: tstate where
  "tstart = (Some 0, tput None (key 256) (Some 0) Tip,
             tput none_view (key 0) (View None None None 256) Tip)"

lemma tree_evaluated: "tree_ok (fold (fold trun) huff_data tstart)"
  unfolding tstart_def
  by (simp only: huff_data_defs eval_simps) simp

text \<open>The pieces only touch cells of the arrays.\<close>

lemma data_in_range: "list_all (list_all in_range) huff_data"
  by (simp only: huff_data_defs list.pred_inject in_range.simps rel_simps semiring_norm
      zero_less_numeral one_less_numeral_iff simp_thms)

section \<open>The tree that is built\<close>

lemma tclimb_agrees:
  assumes "tagrees h (r, L, N)"
  shows "n < 768 \<Longrightarrow> climb k h n bs = tclimb k N n bs"
proof (induction k arbitrary: n bs)
  case 0
  then show ?case by simp
next
  case (Suc k)
  have v: "m < 768 \<Longrightarrow> tget none_view (key m) N = view (nodeList h ! m)" for m
    using assms by (simp add: tagrees_def)
  show ?case
  proof (cases "parent (nodeList h ! n)")
    case None
    then show ?thesis using v [OF Suc.prems] by (simp add: view_def)
  next
    case (Some p)
    then show ?thesis
      using v [OF Suc.prems] v [of p] Suc.IH [of p]
      by (auto simp: view_def INTERNAL_NODE_def)
  qed
qed

lemma tleaf_agrees:
  assumes "tagrees h (r, L, N)"
  shows "tleaf k N p \<Longrightarrow> reaches_leaf k h p"
proof (induction k arbitrary: p)
  case 0
  then show ?case by simp
next
  case (Suc k)
  have v: "m < 768 \<Longrightarrow> tget none_view (key m) N = view (nodeList h ! m)" for m
    using assms by (simp add: tagrees_def)
  show ?case
    using Suc.prems v Suc.IH by (cases p) (auto simp: view_def INTERNAL_NODE_def split: if_splits)
qed

lemma tcode_agrees:
  assumes "tagrees h s" "c < 257"
  shows "symbol_code h c = tcode s c"
proof -
  obtain r L N where s: "s = (r, L, N)" by (cases s)
  have v: "m < 768 \<Longrightarrow> tget none_view (key m) N = view (nodeList h ! m)" for m
    using assms(1) s by (simp add: tagrees_def)
  have l: "tget None (key c) L = loc h ! c" "tree h = r" using assms s by (simp_all add: tagrees_def)
  show ?thesis
  proof (cases "loc h ! c")
    case None
    then show ?thesis using l by (simp add: s symbol_code_def)
  next
    case (Some n)
    then show ?thesis
      using l v [of n] tclimb_agrees [OF assms(1) [unfolded s], of n 12 "[]"]
      by (auto simp: s symbol_code_def view_def split: option.splits)
  qed
qed

lemma all_coded_below: "all_coded n s \<Longrightarrow> c < n \<Longrightarrow> tcode s c \<noteq> None"
  by (induction n) (auto simp: less_Suc_eq)

lemma tagrees_init: "tagrees Huff_Init tstart"
  by (auto simp: tagrees_def tstart_def Huff_Init_def zero_huff_def zero_node_def view_def
      none_view_def NYT_def tget_tput nth_list_update nth_Cons')

lemma tagrees_parts:
  "tagrees h s \<Longrightarrow> list_all (list_all in_range) parts \<Longrightarrow>
   tagrees (fold (\<lambda>part h. fold run_assign part h) parts h) (fold (fold trun) parts s)"
  by (induction parts arbitrary: h s) (simp_all add: tagrees_fold)

definition msgHuff :: huff where
  "msgHuff = snd (Huffman_InitMain (False, zero_huff))"

text \<open>
  The global tree: the code of every byte ends at its leaf, every way down ends at a leaf,
  and the codes of the bytes 0, 6 and 223.
\<close>

lemma msgHuff_tree:
  "reaches_leaf 12 msgHuff (tree msgHuff)"
  "c < 256 \<Longrightarrow> symbol_code msgHuff c \<noteq> None"
  "symbol_code msgHuff 0 = Some [True, False, False]"
  "symbol_code msgHuff 6 = Some [False, False, False, False, False]"
  "symbol_code msgHuff 223 = Some [False, False, False, True, False, False, False, False]"
proof -
  define s where "s = fold (fold trun) huff_data tstart"
  have a: "tagrees msgHuff s"
    unfolding s_def msgHuff_def Huffman_InitMain_def Huff_BuildFromData_def
    using tagrees_parts [OF tagrees_init data_in_range] by simp
  obtain r L N where s: "s = (r, L, N)" by (cases s)
  have ok: "tree_ok (r, L, N)" using tree_evaluated by (simp only: s_def [symmetric] s)
  have root: "tree msgHuff = r" using a s by (simp add: tagrees_def)
  have code: "c < 257 \<Longrightarrow> symbol_code msgHuff c = tcode (r, L, N) c" for c
    using tcode_agrees [OF a] s by simp
  show "reaches_leaf 12 msgHuff (tree msgHuff)"
    using tleaf_agrees [OF a [unfolded s], of 12 r] ok root by simp
  show "symbol_code msgHuff 0 = Some [True, False, False]"
    "symbol_code msgHuff 6 = Some [False, False, False, False, False]"
    "symbol_code msgHuff 223 = Some [False, False, False, True, False, False, False, False]"
    using ok code [of 0] code [of 6] code [of 223] by simp_all
  show "c < 256 \<Longrightarrow> symbol_code msgHuff c \<noteq> None"
    using ok all_coded_below [of 256 "(r, L, N)" c] code [of c] by simp
qed

end
