(* ===== verification/Huffman.thy ===== *)
theory Huffman
  imports HuffmanData
begin

text \<open>
  The Huffman coder of src/src/huffman.c, which packs every snapshot, demo frame and client
  command: bits are numbered from the start of the buffer, bit \<open>b\<close> in byte \<open>b div 8\<close>; the
  static \<open>bloc\<close> is the current one and is passed along.  The output buffer is a list of its
  full length, and a store behind it is \<open>OUT_OF_BOUNDS\<close>; the coder has no limit of its own.
  The input is the memory from the input pointer on, also behind the message, because
  \<open>get_bit\<close> does not look at its size.  The walks through the tree follow pointers, so they
  are partial functions: \<open>None\<close> means that they do not return.

  The codec is parametric in the tree; the properties are about the tree the program builds.
\<close>

section \<open>Bits\<close>

definition add_bit :: "bool \<Rightarrow> bytes \<times> nat \<Rightarrow> fault + bytes \<times> nat" where
  "add_bit b out =
     (let (fout, bloc) = out; i = bloc div 8 in
      if length fout \<le> i then Inl OUT_OF_BOUNDS
      else let f1 = (if bloc mod 8 = 0 then fout[i := 0] else fout)
           in Inr (f1[i := f1 ! i OR push_bit (bloc mod 8) (of_bool b)], bloc + 1))"

definition get_bit :: "(nat \<Rightarrow> byte) \<Rightarrow> nat \<Rightarrow> bool" where
  "get_bit fin bloc = bit (fin (bloc div 8)) (bloc mod 8)"

section \<open>One symbol\<close>

definition send_side :: "huff \<Rightarrow> nat \<Rightarrow> nat option \<Rightarrow> bytes \<times> nat \<Rightarrow> fault + bytes \<times> nat" where
  "send_side h node child out =
     (case child of
        None \<Rightarrow> Inr out
      | Some c \<Rightarrow> if right (nodeList h ! node) = Some c then add_bit True out else add_bit False out)"

partial_function (option) Huff_send ::
  "huff \<Rightarrow> nat \<Rightarrow> nat option \<Rightarrow> bytes \<times> nat \<Rightarrow> (fault + bytes \<times> nat) option" where
  "Huff_send h node child out =
     Option.bind
       (case parent (nodeList h ! node) of
          None \<Rightarrow> Some (Inr out)
        | Some p \<Rightarrow> Huff_send h p (Some node) out)
       (\<lambda>r. Some (case r of Inl e \<Rightarrow> Inl e | Inr out1 \<Rightarrow> send_side h node child out1))"

definition Huff_offsetTransmit :: "huff \<Rightarrow> nat \<Rightarrow> bytes \<times> nat \<Rightarrow> (fault + bytes \<times> nat) option" where
  "Huff_offsetTransmit h ch out =
     (case loc h ! ch of None \<Rightarrow> Some (Inl OUT_OF_BOUNDS) | Some n \<Rightarrow> Huff_send h n None out)"

partial_function (option) descend ::
  "huff \<Rightarrow> nat option \<Rightarrow> (nat \<Rightarrow> byte) \<Rightarrow> nat \<Rightarrow> (nat option \<times> nat) option" where
  "descend h node fin bloc =
     (case node of
        None \<Rightarrow> Some (None, bloc)
      | Some n \<Rightarrow>
          if symbol (nodeList h ! n) = INTERNAL_NODE
          then descend h (if get_bit fin bloc then right (nodeList h ! n) else left (nodeList h ! n))
                 fin (bloc + 1)
          else Some (Some n, bloc))"

definition Huff_offsetReceive :: "huff \<Rightarrow> (nat \<Rightarrow> byte) \<Rightarrow> nat \<Rightarrow> (int \<times> nat) option" where
  "Huff_offsetReceive h fin offset =
     Option.bind (descend h (tree h) fin offset)
       (\<lambda>(node, bloc). Some (case node of None \<Rightarrow> (0, offset) | Some n \<Rightarrow> (symbol (nodeList h ! n), bloc)))"

section \<open>A message\<close>

primrec write_symbols :: "huff \<Rightarrow> bytes \<Rightarrow> bytes \<times> nat \<Rightarrow> (fault + bytes \<times> nat) option" where
  "write_symbols h [] out = Some (Inr out)"
| "write_symbols h (b # bs) out =
     (case Huff_offsetTransmit h (unat b) out of
        None \<Rightarrow> None
      | Some (Inl e) \<Rightarrow> Some (Inl e)
      | Some (Inr out1) \<Rightarrow> write_symbols h bs out1)"

definition MSG_WriteBitsCompress ::
  "huff \<Rightarrow> bytes \<Rightarrow> bytes \<Rightarrow> int \<Rightarrow> (fault + bytes \<times> int) option" where
  "MSG_WriteBitsCompress h datasrc buffdest bytecount =
     (if bytecount \<le> 0 then Some (Inr (buffdest, 0))
      else if int (length datasrc) < bytecount then Some (Inl OUT_OF_BOUNDS)
      else case write_symbols h (take (nat bytecount) datasrc) (buffdest, 0) of
             None \<Rightarrow> None
           | Some (Inl e) \<Rightarrow> Some (Inl e)
           | Some (Inr (fout, offset)) \<Rightarrow> Some (Inr (fout, (int offset + 7) div 8)))"

primrec read_symbols :: "huff \<Rightarrow> nat \<Rightarrow> (nat \<Rightarrow> byte) \<Rightarrow> int \<Rightarrow> nat \<Rightarrow> bytes option" where
  "read_symbols h 0 fin limit offset = Some []"
| "read_symbols h (Suc k) fin limit offset =
     (if limit \<le> int offset then Some []
      else case Huff_offsetReceive h fin offset of
             None \<Rightarrow> None
           | Some (ch, offset1) \<Rightarrow> map_option (Cons (word_of_int ch)) (read_symbols h k fin limit offset1))"

definition MSG_ReadBitsCompress :: "huff \<Rightarrow> (nat \<Rightarrow> byte) \<Rightarrow> int \<Rightarrow> int \<Rightarrow> bytes option" where
  "MSG_ReadBitsCompress h fin readsize outputBufSize =
     (let limit = s32 (readsize * 8) in
      if limit \<le> 0 then Some [] else read_symbols h (nat outputBufSize) fin limit 0)"

section \<open>Writing bits\<close>

definition sbit :: "bytes \<Rightarrow> nat \<Rightarrow> bool" where
  "sbit f j = bit (f ! (j div 8)) (j mod 8)"

definition clean :: "bytes \<Rightarrow> nat \<Rightarrow> bool" where
  "clean f b \<longleftrightarrow> (\<forall>j. b \<le> j \<and> b mod 8 \<noteq> 0 \<and> j div 8 = b div 8 \<longrightarrow> \<not> sbit f j)"

fun put_bits :: "bool list \<Rightarrow> bytes \<times> nat \<Rightarrow> fault + bytes \<times> nat" where
  "put_bits [] out = Inr out"
| "put_bits (b # bs) out = (case add_bit b out of Inl e \<Rightarrow> Inl e | Inr out1 \<Rightarrow> put_bits bs out1)"

lemma put_bits_append:
  "put_bits (as @ bs) out = (case put_bits as out of Inl e \<Rightarrow> Inl e | Inr out1 \<Rightarrow> put_bits bs out1)"
  by (induction as arbitrary: out) (auto split: sum.splits)

lemma add_bit_ok:
  assumes "b div 8 < length f" "clean f b"
  shows "\<exists>f'. add_bit x (f, b) = Inr (f', b + 1) \<and> length f' = length f \<and> clean f' (b + 1)
    \<and> sbit f' b = x \<and> (\<forall>j < b. sbit f' j = sbit f j)"
proof -
  define i where "i = b div 8"
  define f1 where "f1 = (if b mod 8 = 0 then f[i := 0] else f)"
  define f' where "f' = f1[i := f1 ! i OR push_bit (b mod 8) (of_bool x)]"
  have i: "i < length f" "length f1 = length f" using assms(1) by (simp_all add: i_def f1_def)
  have "add_bit x (f, b) = Inr (f', b + 1)"
    using i(1) by (simp add: add_bit_def f'_def f1_def i_def Let_def)
  moreover have len: "length f' = length f" using i by (simp add: f'_def)
  have pos: "b mod 8 < 8" by simp
  have bits: "sbit f' j = (if j div 8 = i then bit (f1 ! i) (j mod 8) \<or> (j = b \<and> x) else sbit f j)" for j
  proof (cases "j div 8 = i")
    case True
    have "j mod 8 = b mod 8 \<longleftrightarrow> j = b"
      using True unfolding i_def by (metis div_mult_mod_eq)
    then show ?thesis
      using True i by (auto simp: sbit_def f'_def bit_or_iff bit_push_bit_iff bit_of_bool_iff)
  next
    case False
    then show ?thesis by (simp add: sbit_def f'_def f1_def)
  qed
  have above: "\<not> bit (f1 ! i) (j mod 8)" if "b \<le> j" "j div 8 = i" for j
  proof (cases "b mod 8 = 0")
    case True
    then show ?thesis using i by (simp add: f1_def)
  next
    case False
    then show ?thesis using assms(2) that by (simp add: f1_def clean_def sbit_def i_def)
  qed
  have below: "bit (f1 ! i) (j mod 8) = sbit f j" if "j < b" "j div 8 = i" for j
  proof -
    have "b mod 8 \<noteq> 0" using that unfolding i_def by (metis div_mult_mod_eq add.right_neutral le_add1 not_le)
    then show ?thesis using that by (simp add: f1_def sbit_def)
  qed
  have "sbit f' b = x" using bits [of b] above [of b] by (simp add: i_def)
  moreover have "\<forall>j < b. sbit f' j = sbit f j" using bits below by auto
  moreover have "clean f' (b + 1)"
    unfolding clean_def
  proof (intro allI impI)
    fix j assume "b + 1 \<le> j \<and> (b + 1) mod 8 \<noteq> 0 \<and> j div 8 = (b + 1) div 8"
    then have j: "b \<le> j" "j \<noteq> b" "(b + 1) mod 8 \<noteq> 0" "j div 8 = (b + 1) div 8" by simp_all
    have "(b + 1) div 8 = b div 8" using j(3) by presburger
    then have "j div 8 = i" unfolding i_def by (rule trans [OF j(4)])
    then show "\<not> sbit f' j" using bits [of j] above [OF j(1)] j(2) by metis
  qed
  ultimately show ?thesis using len by blast
qed

definition bits_at :: "(nat \<Rightarrow> bool) \<Rightarrow> nat \<Rightarrow> bool list \<Rightarrow> bool" where
  "bits_at g b bs \<longleftrightarrow> (\<forall>i < length bs. g (b + i) = bs ! i)"

lemma bits_at_Cons: "bits_at g b (x # bs) \<longleftrightarrow> g b = x \<and> bits_at g (b + 1) bs"
  by (auto simp: bits_at_def less_Suc_eq_0_disj all_conj_distrib nth_Cons' dest: spec [where x = 0])

lemma bits_at_append: "bits_at g b (as @ bs) \<longleftrightarrow> bits_at g b as \<and> bits_at g (b + length as) bs"
  by (induction as arbitrary: b) (simp_all add: bits_at_Cons, simp add: bits_at_def)

lemma put_bits_ok:
  "b + length bs \<le> 8 * length f \<Longrightarrow> clean f b \<Longrightarrow>
   \<exists>f'. put_bits bs (f, b) = Inr (f', b + length bs) \<and> length f' = length f
     \<and> clean f' (b + length bs) \<and> bits_at (sbit f') b bs \<and> (\<forall>j < b. sbit f' j = sbit f j)"
proof (induction bs arbitrary: f b)
  case Nil
  then show ?case by (simp add: bits_at_def)
next
  case (Cons x bs)
  have "b div 8 < length f" using Cons.prems(1) by simp
  then obtain f1 where f1: "add_bit x (f, b) = Inr (f1, b + 1)" "length f1 = length f"
      "clean f1 (b + 1)" "sbit f1 b = x" "\<forall>j < b. sbit f1 j = sbit f j"
    using add_bit_ok Cons.prems(2) by blast
  have "b + 1 + length bs \<le> 8 * length f1" using Cons.prems(1) f1(2) by simp
  then obtain f2 where f2: "put_bits bs (f1, b + 1) = Inr (f2, b + 1 + length bs)"
      "length f2 = length f1" "clean f2 (b + 1 + length bs)" "bits_at (sbit f2) (b + 1) bs"
      "\<forall>j < b + 1. sbit f2 j = sbit f1 j"
    using Cons.IH f1(3) by blast
  then show ?case
    using f1 by (intro exI [of _ f2]) (simp add: bits_at_Cons)
qed


section \<open>Sending a symbol is writing its code\<close>

lemma climb_root:
  assumes "parent (nodeList h ! n) = None"
  shows "Huff_send h n child out = Some (send_side h n child out)"
  by (subst Huff_send.simps) (simp add: assms)

lemma climb_step:
  assumes "parent (nodeList h ! n) = Some p" "Huff_send h p (Some n) out = Some r"
  shows "Huff_send h n child out = Some (case r of Inl e \<Rightarrow> Inl e | Inr out1 \<Rightarrow> send_side h n child out1)"
  by (subst Huff_send.simps) (simp add: assms)

lemma climb_descend:
  "climb k h n acc = Some (q, bs) \<Longrightarrow>
   \<exists>pre. bs = pre @ acc
     \<and> (\<forall>child out. Huff_send h n child out =
          Some (case put_bits pre out of Inl e \<Rightarrow> Inl e | Inr out1 \<Rightarrow> send_side h n child out1))
     \<and> (\<forall>fin b. bits_at (get_bit fin) b pre \<longrightarrow>
          descend h (Some q) fin b = descend h (Some n) fin (b + length pre))"
proof (induction k arbitrary: n acc)
  case 0
  then show ?case by simp
next
  case (Suc k)
  show ?case
  proof (cases "parent (nodeList h ! n)")
    case None
    then show ?thesis using Suc.prems by (simp add: climb_root)
  next
    case (Some p)
    let ?side = "right (nodeList h ! p) = Some n"
    have c: "symbol (nodeList h ! p) = INTERNAL_NODE" "?side \<or> left (nodeList h ! p) = Some n"
      "climb k h p (?side # acc) = Some (q, bs)"
      using Suc.prems Some by (auto split: if_splits)
    obtain pre where pre: "bs = pre @ ?side # acc"
      "\<And>child out. Huff_send h p child out =
          Some (case put_bits pre out of Inl e \<Rightarrow> Inl e | Inr out1 \<Rightarrow> send_side h p child out1)"
      "\<And>fin b. bits_at (get_bit fin) b pre \<Longrightarrow>
          descend h (Some q) fin b = descend h (Some p) fin (b + length pre)"
      using Suc.IH [OF c(3)] by blast
    have up: "send_side h p (Some n) out = put_bits [?side] out" for out
      by (simp add: send_side_def split: sum.split)
    have down: "descend h (Some p) fin b = descend h (Some n) fin (b + 1)"
      if "get_bit fin b = ?side" for fin b
      using that c(1,2) by (subst descend.simps) auto
    have "Huff_send h n child out =
        Some (case put_bits (pre @ [?side]) out of Inl e \<Rightarrow> Inl e | Inr out1 \<Rightarrow> send_side h n child out1)"
      for child out
      using climb_step [OF Some pre(2)]
      by (simp add: put_bits_append up split: sum.split)
    moreover have "descend h (Some q) fin b = descend h (Some n) fin (b + length (pre @ [?side]))"
      if "bits_at (get_bit fin) b (pre @ [?side])" for fin b
      using that pre(3) [of fin b] down [of fin "b + length pre"]
      by (simp add: bits_at_append bits_at_Cons)
    ultimately show ?thesis using pre(1) by (intro exI [of _ "pre @ [?side]"]) simp
  qed
qed

text \<open>The leaf of a byte, and what the coder does with its code.\<close>

lemma symbol_coded:
  assumes "symbol_code h c = Some bs" "c \<noteq> nat INTERNAL_NODE"
  shows "bs \<noteq> []" "Huff_offsetTransmit h c out = Some (put_bits bs out)"
    "bits_at (get_bit fin) b bs \<Longrightarrow> Huff_offsetReceive h fin b = Some (int c, b + length bs)"
proof -
  obtain n q where n: "loc h ! c = Some n" "symbol (nodeList h ! n) = int c"
      "climb 12 h n [] = Some (q, bs)" "tree h = Some q" "bs \<noteq> []"
    using assms(1) by (auto simp: symbol_code_def split: option.splits if_splits)
  have send: "\<And>child out. Huff_send h n child out =
          Some (case put_bits bs out of Inl e \<Rightarrow> Inl e | Inr out1 \<Rightarrow> send_side h n child out1)"
    and desc: "\<And>fin b. bits_at (get_bit fin) b bs \<Longrightarrow>
          descend h (Some q) fin b = descend h (Some n) fin (b + length bs)"
    using climb_descend [OF n(3)] by auto
  show "bs \<noteq> []" by (rule n(5))
  show "Huff_offsetTransmit h c out = Some (put_bits bs out)"
    using n(1) send [of None out]
    by (simp add: Huff_offsetTransmit_def send_side_def split: sum.split)
  have "int c \<noteq> INTERNAL_NODE" using assms(2) by (simp add: INTERNAL_NODE_def)
  then have "descend h (Some n) fin m = Some (Some n, m)" for m
    using n(2) by (subst descend.simps) simp
  then show "bits_at (get_bit fin) b bs \<Longrightarrow> Huff_offsetReceive h fin b = Some (int c, b + length bs)"
    using n(2,4) desc by (simp add: Huff_offsetReceive_def)
qed

lemma descend_total:
  "reaches_leaf k h p \<Longrightarrow> \<exists>n b'. descend h p fin b = Some (Some n, b') \<and> b \<le> b' \<and> b' < b + k"
proof (induction k arbitrary: p b)
  case 0
  then show ?case by simp
next
  case (Suc k)
  then obtain n where n: "p = Some n" by (auto split: option.splits)
  show ?case
  proof (cases "symbol (nodeList h ! n) = INTERNAL_NODE")
    case True
    let ?p = "if get_bit fin b then right (nodeList h ! n) else left (nodeList h ! n)"
    have "reaches_leaf k h ?p" using Suc.prems True n by simp
    then obtain m b' where "descend h ?p fin (b + 1) = Some (Some m, b')" "b + 1 \<le> b'" "b' < b + 1 + k"
      using Suc.IH [of ?p "b + 1"] by blast
    moreover have "descend h p fin b = descend h ?p fin (b + 1)"
      using True n by (subst descend.simps) simp
    ultimately show ?thesis by simp
  next
    case False
    then show ?thesis using n by (subst descend.simps) simp
  qed
qed


lemma climb_length: "climb k h n acc = Some (q, bs) \<Longrightarrow> length bs < k + length acc"
proof (induction k arbitrary: n acc)
  case (Suc k)
  then show ?case by (fastforce split: option.splits if_splits)
qed simp

lemma climb_internal:
  "climb k h n acc = Some (q, bs) \<Longrightarrow> (q = n \<and> bs = acc) \<or> symbol (nodeList h ! q) = INTERNAL_NODE"
proof (induction k arbitrary: n acc)
  case (Suc k)
  then show ?case by (fastforce split: option.splits if_splits)
qed simp

lemma symbol_code_length: "symbol_code h c = Some bs \<Longrightarrow> length bs < 12"
  using climb_length [of 12 h _ "[]"] by (auto simp: symbol_code_def split: option.splits if_splits)

lemma symbol_code_root:
  "symbol_code h c = Some bs \<Longrightarrow> \<exists>q. tree h = Some q \<and> symbol (nodeList h ! q) = INTERNAL_NODE"
  using climb_internal [of 12 h _ "[]"]
  by (fastforce simp: symbol_code_def split: option.splits if_splits)

section \<open>Messages\<close>

text \<open>A tree for the coder: every byte has a code and every way down ends at a leaf.\<close>

definition coder_tree :: "huff \<Rightarrow> bool" where
  "coder_tree h \<longleftrightarrow> reaches_leaf 12 h (tree h) \<and> (\<forall>c < 256. symbol_code h c \<noteq> None)"

lemma coder_tree_msgHuff: "coder_tree msgHuff"
  by (simp add: coder_tree_def msgHuff_tree)

definition codes :: "huff \<Rightarrow> bytes \<Rightarrow> bool list" where
  "codes h bs = concat (map (\<lambda>b. the (symbol_code h (unat b))) bs)"

lemma codes_simps [simp]:
  "codes h [] = []" "codes h (b # bs) = the (symbol_code h (unat b)) @ codes h bs"
  by (simp_all add: codes_def)

lemma byte_coded:
  assumes "coder_tree h"
  shows "\<exists>bs. symbol_code h (unat (b :: byte)) = Some bs \<and> unat b \<noteq> nat INTERNAL_NODE"
proof -
  have "unat b < 256" using unsigned_less [of b] by simp
  then show ?thesis using assms by (auto simp: coder_tree_def INTERNAL_NODE_def)
qed

lemma codes_length: "coder_tree h \<Longrightarrow> length (codes h bs) \<le> 11 * length bs"
proof (induction bs)
  case (Cons b bs)
  obtain c where "symbol_code h (unat b) = Some c" using byte_coded [OF Cons.prems] by blast
  then show ?case using Cons symbol_code_length by fastforce
qed simp

lemma write_symbols_codes:
  "coder_tree h \<Longrightarrow> write_symbols h bs out = Some (put_bits (codes h bs) out)"
proof (induction bs arbitrary: out)
  case (Cons b bs)
  obtain c where c: "symbol_code h (unat b) = Some c" "unat b \<noteq> nat INTERNAL_NODE"
    using byte_coded [OF Cons.prems] by blast
  show ?case
    using Cons symbol_coded(2) [OF c] by (simp add: c(1) put_bits_append split: sum.split)
qed simp

lemma read_symbols_codes:
  assumes "coder_tree h"
  shows "bits_at (get_bit fin) b (codes h bs) \<Longrightarrow> int (b + length (codes h bs)) \<le> limit \<Longrightarrow>
    read_symbols h (length bs + k) fin limit b =
      map_option (append bs) (read_symbols h k fin limit (b + length (codes h bs)))"
proof (induction bs arbitrary: b)
  case Nil
  then show ?case by (simp add: option.map_ident)
next
  case (Cons x bs)
  obtain c where c: "symbol_code h (unat x) = Some c" "unat x \<noteq> nat INTERNAL_NODE"
    using byte_coded [OF assms] by blast
  have "bits_at (get_bit fin) b c" "bits_at (get_bit fin) (b + length c) (codes h bs)"
    using Cons.prems(1) by (simp_all add: c(1) bits_at_append)
  moreover have "\<not> limit \<le> int b" using symbol_coded(1) [OF c] Cons.prems(2) by (cases c) (simp_all add: c(1))
  ultimately show ?case
    using Cons.prems(2) Cons.IH [of "b + length c"] symbol_coded(3) [OF c]
    by (simp add: c(1) option.map_comp comp_def add.assoc)
qed

lemma read_symbols_total:
  assumes "reaches_leaf 12 h (tree h)" "tree h = Some q" "symbol (nodeList h ! q) = INTERNAL_NODE"
  shows "\<exists>zs. read_symbols h k fin limit b = Some zs \<and> length zs \<le> k \<and> int (length zs) \<le> max 0 (limit - int b)"
proof (induction k arbitrary: b)
  case (Suc k)
  let ?p = "if get_bit fin b then right (nodeList h ! q) else left (nodeList h ! q)"
  have sub: "reaches_leaf 11 h ?p" using assms by (simp add: numeral_eq_Suc split: option.splits)
  have step: "descend h (tree h) fin b = descend h ?p fin (b + 1)"
    using assms(2,3) by (subst descend.simps) simp
  obtain n b' where d: "descend h (tree h) fin b = Some (Some n, b')" "b < b'"
    using descend_total [OF sub, of fin "b + 1"] step by auto
  obtain zs where "read_symbols h k fin limit b' = Some zs" "length zs \<le> k"
      "int (length zs) \<le> max 0 (limit - int b')"
    using Suc by blast
  moreover have "limit - int b' \<le> limit - int b - 1" using d(2) by simp
  ultimately show ?case using d by (cases "limit \<le> int b") (simp_all add: Huff_offsetReceive_def)
qed simp


lemma coder_tree_root:
  "coder_tree h \<Longrightarrow> \<exists>q. tree h = Some q \<and> symbol (nodeList h ! q) = INTERNAL_NODE"
  using symbol_code_root [of h 0] unfolding coder_tree_def by force

lemma get_bit_memory: "j < 8 * n \<Longrightarrow> \<forall>i < n. fin i = f ! i \<Longrightarrow> get_bit fin j = sbit f j"
  by (simp add: get_bit_def sbit_def less_mult_imp_div_less mult.commute)

lemma bits_at_memory:
  "bits_at (sbit f) 0 bs \<Longrightarrow> length bs \<le> 8 * n \<Longrightarrow> \<forall>i < n. fin i = f ! i \<Longrightarrow> bits_at (get_bit fin) 0 bs"
  unfolding bits_at_def using get_bit_memory [of _ n fin f] by (metis add_0 order_less_le_trans)

lemma MSG_WriteBitsCompress_codes:
  assumes "coder_tree h" "length (codes h bs) \<le> 8 * length f"
  shows "\<exists>f'. MSG_WriteBitsCompress h bs f (int (length bs)) =
        Some (Inr (f', int ((length (codes h bs) + 7) div 8)))
      \<and> length f' = length f \<and> bits_at (sbit f') 0 (codes h bs)"
proof (cases "bs = []")
  case True
  then show ?thesis by (simp add: MSG_WriteBitsCompress_def bits_at_def)
next
  case False
  have "clean f 0" by (simp add: clean_def)
  then obtain f' where "put_bits (codes h bs) (f, 0) = Inr (f', length (codes h bs))"
      "length f' = length f" "bits_at (sbit f') 0 (codes h bs)"
    using put_bits_ok [of 0 "codes h bs" f] assms(2) by auto
  then show ?thesis
    using False by (simp add: MSG_WriteBitsCompress_def write_symbols_codes [OF assms(1)] zdiv_int)
qed

lemma MSG_ReadBitsCompress_codes:
  assumes "coder_tree h" "bits_at (get_bit fin) 0 (codes h bs)"
    "length (codes h bs) \<le> 8 * n" "8 * n < length (codes h bs) + 8" "8 * n < 2 ^ 31" "length bs \<le> m"
  shows "\<exists>junk. MSG_ReadBitsCompress h fin (int n) (int m) = Some (bs @ junk)
      \<and> length junk \<le> 8 * n - length (codes h bs) \<and> length bs + length junk \<le> m"
proof (cases "n = 0")
  case True
  then have "bs = []" using assms(1,3) symbol_coded(1) byte_coded by (cases bs) fastforce+
  then show ?thesis using True by (simp add: MSG_ReadBitsCompress_def)
next
  case False
  have lim: "s32 (int n * 8) = int (8 * n)" using assms(5) by simp
  let ?b = "length (codes h bs)"
  obtain k where k: "m = length bs + k" using assms(6) le_Suc_ex by blast
  obtain q where q: "tree h = Some q" "symbol (nodeList h ! q) = INTERNAL_NODE"
    using coder_tree_root [OF assms(1)] by blast
  obtain zs where zs: "read_symbols h k fin (int (8 * n)) ?b = Some zs" "length zs \<le> k"
      "int (length zs) \<le> max 0 (int (8 * n) - int ?b)"
    using read_symbols_total [OF _ q] assms(1) unfolding coder_tree_def by blast
  then show ?thesis
    using read_symbols_codes [OF assms(1), of fin 0 bs "int (8 * n)" k] assms(2,3) False
    by (intro exI [of _ zs]) (auto simp: MSG_ReadBitsCompress_def lim k nat_add_distrib)
qed

section \<open>The properties\<close>

lemma zero_code:
  "bits_at (get_bit fin) b [True, False, False] \<Longrightarrow>
   Huff_offsetReceive msgHuff fin b = Some (0, b + 3)"
  using symbol_coded(3) [OF msgHuff_tree(3), of fin b] by (simp add: INTERNAL_NODE_def)

lemma six_code:
  "bits_at (get_bit fin) b [False, False, False, False, False] \<Longrightarrow>
   Huff_offsetReceive msgHuff fin b = Some (6, b + 5)"
  using symbol_coded(3) [OF msgHuff_tree(4), of fin b] by (simp add: INTERNAL_NODE_def)

lemma two23_code:
  "bits_at (get_bit fin) b [False, False, False, True, False, False, False, False] \<Longrightarrow>
   Huff_offsetReceive msgHuff fin b = Some (223, b + 8)"
  using symbol_coded(3) [OF msgHuff_tree(5), of fin b] by (simp add: INTERNAL_NODE_def)

text \<open>
  Claim C18.  Compression loses nothing: for every message whose code fits the buffer (11 bits
  for every byte are always enough) \<open>MSG_WriteBitsCompress\<close> returns with the number of bytes
  used, and \<open>MSG_ReadBitsCompress\<close> on any memory that holds these bytes gives the message back,
  followed by at most seven bytes decoded from the padding of the last byte, and by none when
  the caller's buffer is as long as the message.
\<close>

theorem MSG_compress_roundtrip:
  assumes "11 * length bs \<le> 8 * length buf" "8 * length buf < 2 ^ 31"
  shows "\<exists>out n. MSG_WriteBitsCompress msgHuff bs buf (int (length bs)) = Some (Inr (out, int n))
    \<and> length out = length buf \<and> n \<le> length buf \<and> 8 * n \<le> 11 * length bs + 7
    \<and> (\<forall>fin m. (\<forall>i < n. fin i = out ! i) \<and> length bs \<le> m \<longrightarrow>
         (\<exists>junk. MSG_ReadBitsCompress msgHuff fin (int n) (int m) = Some (bs @ junk)
            \<and> length junk \<le> 7 \<and> length bs + length junk \<le> m))"
proof -
  note h = coder_tree_msgHuff
  let ?b = "length (codes msgHuff bs)"
  let ?n = "(?b + 7) div 8"
  have fits: "?b \<le> 8 * length buf" "?b \<le> 11 * length bs"
    using codes_length [OF h, of bs] assms(1) by simp_all
  have n: "?b \<le> 8 * ?n" "8 * ?n < ?b + 8" "8 * ?n \<le> ?b + 7" by presburger+
  obtain out where out: "MSG_WriteBitsCompress msgHuff bs buf (int (length bs)) = Some (Inr (out, int ?n))"
      "length out = length buf" "bits_at (sbit out) 0 (codes msgHuff bs)"
    using MSG_WriteBitsCompress_codes [OF h fits(1)] by blast
  have "?n \<le> length buf" using fits(1) by presburger
  moreover have "\<exists>junk. MSG_ReadBitsCompress msgHuff fin (int ?n) (int m) = Some (bs @ junk)
            \<and> length junk \<le> 7 \<and> length bs + length junk \<le> m"
    if fin: "\<forall>i < ?n. fin i = out ! i" and m: "length bs \<le> m" for fin m
  proof -
    have lt: "8 * ?n < 2 ^ 31" using calculation assms(2) by simp
    obtain junk where "MSG_ReadBitsCompress msgHuff fin (int ?n) (int m) = Some (bs @ junk)"
        "length junk \<le> 8 * ?n - ?b" "length bs + length junk \<le> m"
      using MSG_ReadBitsCompress_codes [OF h bits_at_memory [OF out(3) n(1) fin] n(1,2) lt m] by blast
    moreover have "8 * ?n - ?b \<le> 7" using n(2) by simp
    ultimately show ?thesis by (meson le_trans)
  qed
  ultimately show ?thesis using out n fits by (intro exI [of _ out] exI [of _ ?n]) auto
qed

lemma MSG_compress_roundtrip_witness:
  "\<exists>out n. MSG_WriteBitsCompress msgHuff [6, 0, 6] (replicate 5 9) 3 = Some (Inr (out, int n))
    \<and> n \<le> 5 \<and> MSG_ReadBitsCompress msgHuff (\<lambda>i. out ! i) (int n) 3 = Some [6, 0, 6]"
proof -
  have p: "11 * length [6, 0, 6 :: byte] \<le> 8 * length (replicate 5 (9 :: byte))"
      "8 * length (replicate 5 (9 :: byte)) < 2 ^ 31" and len: "length [6, 0, 6 :: byte] = 3"
    by simp_all
  obtain out n where o: "MSG_WriteBitsCompress msgHuff [6, 0, 6] (replicate 5 9) 3 = Some (Inr (out, int n))"
      "n \<le> 5"
    "\<forall>fin m. (\<forall>i < n. fin i = out ! i) \<and> 3 \<le> m \<longrightarrow>
         (\<exists>junk. MSG_ReadBitsCompress msgHuff fin (int n) (int m) = Some ([6, 0, 6] @ junk)
            \<and> length junk \<le> 7 \<and> 3 + length junk \<le> m)"
    using MSG_compress_roundtrip [OF p] unfolding len by (elim exE conjE) (rule that; simp)
  show ?thesis using o(1,2) o(3) [rule_format, of "\<lambda>i. out ! i" 3] by auto
qed

text \<open>
  Claim C36.  \<open>MSG_ReadBitsCompress\<close> returns on every input, malformed ones included: no bit
  string leads out of the tree, it writes at most \<open>outputBufSize\<close> bytes and at most one for
  every bit of the input.
\<close>

theorem MSG_ReadBitsCompress_total:
  "\<exists>zs. MSG_ReadBitsCompress msgHuff fin readsize m = Some zs
     \<and> length zs \<le> nat m \<and> int (length zs) \<le> max 0 (s32 (readsize * 8))"
proof -
  obtain q where q: "tree msgHuff = Some q" "symbol (nodeList msgHuff ! q) = INTERNAL_NODE"
    using coder_tree_root [OF coder_tree_msgHuff] by blast
  show ?thesis
    using read_symbols_total [OF msgHuff_tree(1) q, of "nat m" fin "s32 (readsize * 8)" 0]
    by (auto simp: MSG_ReadBitsCompress_def Let_def)
qed

text \<open>
  What the reader makes of the end of a message: the padding of the last byte can
  decode to bytes that nobody sent (a message of one byte 0 comes back as the bytes 0, 6 in a
  larger buffer), and the last code is completed with bits from behind the input, so that the
  decoded message depends on memory after its end.
\<close>

theorem MSG_compress_ends:
  "MSG_WriteBitsCompress msgHuff [0] [x] 1 = Some (Inr ([1], 1))
   \<and> MSG_ReadBitsCompress msgHuff (\<lambda>i. if i = 0 then 1 else y) 1 2 = Some [0, 6]
   \<and> MSG_ReadBitsCompress msgHuff (\<lambda>i. 0) 1 2 = Some [6, 6]
   \<and> MSG_ReadBitsCompress msgHuff (\<lambda>i. if i = 0 then 0 else 1) 1 2 = Some [6, 223]"
proof (intro conjI)
  note h = coder_tree_msgHuff
  have lim: "s32 8 = 8" by simp
  show "MSG_WriteBitsCompress msgHuff [0] [x] 1 = Some (Inr ([1], 1))"
    by (simp add: MSG_WriteBitsCompress_def write_symbols_codes [OF h] msgHuff_tree(3) add_bit_def
        del: write_symbols.simps)
  show "MSG_ReadBitsCompress msgHuff (\<lambda>i. if i = 0 then 1 else y) 1 2 = Some [0, 6]"
    "MSG_ReadBitsCompress msgHuff (\<lambda>i. 0) 1 2 = Some [6, 6]"
    "MSG_ReadBitsCompress msgHuff (\<lambda>i. if i = 0 then 0 else 1) 1 2 = Some [6, 223]"
    by (simp_all add: MSG_ReadBitsCompress_def numeral_2_eq_2 zero_code six_code two23_code
        bits_at_Cons bits_at_def [of _ _ "[]"] get_bit_def bit_1_iff)
qed

end
