(* ===== verification/ZoneMemory.thy ===== *)
theory ZoneMemory
  imports MsgBuffer
begin

unbundle bit_operations_syntax

text \<open>
  The zone allocator of src/src/qcommon_mem.c at the level of its memory: \<open>ram\<close> gives the byte
  at every address, block headers and the zone structure lie in it, pointers are addresses
  and 0 is NULL.  The layout is that of the 32-bit build: a \<open>memblock_t\<close> is
  \<open>size, tag, next, prev, id\<close> in 20 bytes, a \<open>memzone_t\<close> is \<open>size, used\<close>, the sentinel
  \<open>blocklist\<close> and \<open>rover\<close> in 32 bytes.  Searches follow pointers, so they are partial
  functions, and \<open>None\<close> is a search that does not end.
\<close>

section \<open>Memory\<close>

type_synonym ram = "int \<Rightarrow> byte"

definition rd4 :: "ram \<Rightarrow> int \<Rightarrow> bytes" where
  "rd4 m a = [m a, m (a + 1), m (a + 2), m (a + 3)]"

definition rd_int :: "ram \<Rightarrow> int \<Rightarrow> int" where
  "rd_int m a = s32 (le_uint (rd4 m a))"

definition rd_ptr :: "ram \<Rightarrow> int \<Rightarrow> int" where
  "rd_ptr m a = le_uint (rd4 m a)"

definition wr4 :: "ram \<Rightarrow> int \<Rightarrow> int \<Rightarrow> ram" where
  "wr4 m a v = (\<lambda>x. if a \<le> x \<and> x < a + 4 then le_bytes 4 v ! nat (x - a) else m x)"

definition fill :: "ram \<Rightarrow> int \<Rightarrow> int \<Rightarrow> byte \<Rightarrow> ram" where
  "fill m a n b = (\<lambda>x. if a \<le> x \<and> x < a + n then b else m x)"

section \<open>Headers\<close>

definition ZONEID :: int where "ZONEID = 0x1d4a11db"
definition MINFRAGMENT :: int where "MINFRAGMENT = 64"
definition TAG_GENERAL :: int where "TAG_GENERAL = 1"
definition TAG_SMALL :: int where "TAG_SMALL = 4"
definition TAG_STATIC :: int where "TAG_STATIC = 5"

definition bsize :: "ram \<Rightarrow> int \<Rightarrow> int" where "bsize m a = rd_int m a"
definition btag :: "ram \<Rightarrow> int \<Rightarrow> int" where "btag m a = rd_int m (a + 4)"
definition bnext :: "ram \<Rightarrow> int \<Rightarrow> int" where "bnext m a = rd_ptr m (a + 8)"
definition bprev :: "ram \<Rightarrow> int \<Rightarrow> int" where "bprev m a = rd_ptr m (a + 12)"
definition bid :: "ram \<Rightarrow> int \<Rightarrow> int" where "bid m a = rd_int m (a + 16)"

definition set_bsize :: "ram \<Rightarrow> int \<Rightarrow> int \<Rightarrow> ram" where "set_bsize m a v = wr4 m a v"
definition set_btag :: "ram \<Rightarrow> int \<Rightarrow> int \<Rightarrow> ram" where "set_btag m a v = wr4 m (a + 4) v"
definition set_bnext :: "ram \<Rightarrow> int \<Rightarrow> int \<Rightarrow> ram" where "set_bnext m a v = wr4 m (a + 8) v"
definition set_bprev :: "ram \<Rightarrow> int \<Rightarrow> int \<Rightarrow> ram" where "set_bprev m a v = wr4 m (a + 12) v"
definition set_bid :: "ram \<Rightarrow> int \<Rightarrow> int \<Rightarrow> ram" where "set_bid m a v = wr4 m (a + 16) v"

definition zsize :: "ram \<Rightarrow> int \<Rightarrow> int" where "zsize m z = rd_int m z"
definition zused :: "ram \<Rightarrow> int \<Rightarrow> int" where "zused m z = rd_int m (z + 4)"
definition blocklist :: "int \<Rightarrow> int" where "blocklist z = z + 8"
definition zrover :: "ram \<Rightarrow> int \<Rightarrow> int" where "zrover m z = rd_ptr m (z + 28)"

definition set_zsize :: "ram \<Rightarrow> int \<Rightarrow> int \<Rightarrow> ram" where "set_zsize m z v = wr4 m z v"
definition set_zused :: "ram \<Rightarrow> int \<Rightarrow> int \<Rightarrow> ram" where "set_zused m z v = wr4 m (z + 4) v"
definition set_zrover :: "ram \<Rightarrow> int \<Rightarrow> int \<Rightarrow> ram" where "set_zrover m z v = wr4 m (z + 28) v"

text \<open>The global variables: the memory, the two zones and the static strings of \<open>CopyString\<close>.\<close>

record zones =
  ram :: ram
  mainzone :: int
  smallzone :: int
  emptystring :: int
  numberstring :: int

section \<open>Initialisation\<close>

definition Z_ClearZone :: "ram \<Rightarrow> int \<Rightarrow> int \<Rightarrow> ram" where
  "Z_ClearZone m zone sz =
     (let block = zone + 32; c = blocklist zone;
          m = set_bprev m c block; m = set_bnext m c block;
          m = set_btag m c 1; m = set_bid m c 0; m = set_bsize m c 0;
          m = set_zrover m zone block; m = set_zsize m zone sz; m = set_zused m zone 0;
          m = set_bnext m block c; m = set_bprev m block c;
          m = set_btag m block 0; m = set_bid m block ZONEID
      in set_bsize m block (s32 (sz - 32)))"

text \<open>\<open>p\<close> is what \<open>calloc\<close> returns, 0 on failure; the memory it returns is cleared.\<close>

definition Com_InitSmallZoneMemory :: "int \<Rightarrow> zones \<Rightarrow> fault + zones" where
  "Com_InitSmallZoneMemory p st =
     (if p = 0 then Inl (COM_ERROR ERR_FATAL)
      else Inr (st\<lparr>smallzone := p,
                   ram := Z_ClearZone (fill (ram st) p (1024 * 1024) 0) p (1024 * 1024)\<rparr>))"

definition Com_InitZoneMemory :: "int \<Rightarrow> int \<Rightarrow> zones \<Rightarrow> fault + zones" where
  "Com_InitZoneMemory com_zoneMegs p st =
     (let s_zoneTotal = s32 (com_zoneMegs * 1024 * 1024) in
      if p = 0 then Inl (COM_ERROR ERR_FATAL)
      else Inr (st\<lparr>mainzone := p,
                   ram := Z_ClearZone (fill (ram st) p (u32 s_zoneTotal) 0) p s_zoneTotal\<rparr>))"

text \<open>\<open>newmem\<close> is what \<open>calloc\<close> returns.\<close>

definition Mem_AlignedAlloc :: "int \<Rightarrow> int \<Rightarrow> int" where
  "Mem_AlignedAlloc align newmem = (if newmem = 0 then 0 else u32 (newmem + newmem mod align))"

section \<open>Freeing\<close>

text \<open>\<open>keep\<close> swallows its successor \<open>gone\<close>.\<close>

definition merge :: "ram \<Rightarrow> int \<Rightarrow> int \<Rightarrow> ram" where
  "merge m keep gone =
     (let m = set_bsize m keep (s32 (bsize m keep + bsize m gone));
          m = set_bnext m keep (bnext m gone)
      in set_bprev m (bnext m keep) keep)"

definition merge_prev :: "ram \<Rightarrow> int \<Rightarrow> int \<Rightarrow> ram \<times> int" where
  "merge_prev m zone block =
     (let other = bprev m block in
      if btag m other = 0 then
        let m = merge m other block;
            m = (if block = zrover m zone then set_zrover m zone other else m)
        in (m, other)
      else (m, block))"

definition merge_next :: "ram \<Rightarrow> int \<Rightarrow> int \<Rightarrow> ram" where
  "merge_next m zone block =
     (let other = bnext m block in
      if btag m other = 0 then
        let m = merge m block other
        in if other = zrover m zone then set_zrover m zone block else m
      else m)"

definition Z_Free :: "zones \<Rightarrow> int \<Rightarrow> fault + zones" where
  "Z_Free st ptr =
     (if ptr = 0 then Inl (COM_ERROR ERR_DROP)
      else
        let m = ram st; block = ptr - 20 in
        if bid m block \<noteq> ZONEID then Inl (COM_ERROR ERR_FATAL)
        else if btag m block = 0 then Inl (COM_ERROR ERR_FATAL)
        else if btag m block = TAG_STATIC then Inr st
        else if rd_int m (block + bsize m block - 4) \<noteq> ZONEID then Inl (COM_ERROR ERR_FATAL)
        else
          let zone = (if btag m block = TAG_SMALL then smallzone st else mainzone st);
              m = set_zused m zone (s32 (zused m zone - bsize m block))
          in if bsize m block < 20 then Inl OUT_OF_BOUNDS
             else
               let m = fill m ptr (bsize m block - 20) 0xaa;
                   m = set_btag m block 0;
                   (m, block) = merge_prev m zone block;
                   m = set_zrover m zone block
               in Inr (st\<lparr>ram := merge_next m zone block\<rparr>))"

definition FreeString :: "zones \<Rightarrow> int \<Rightarrow> fault + zones" where
  "FreeString st tofree = (if tofree \<noteq> 0 then Z_Free st tofree else Inr st)"

text \<open>The loop runs on the rover of the zone.\<close>

partial_function (option) free_tags :: "int \<Rightarrow> int \<Rightarrow> zones \<Rightarrow> (fault + zones) option" where
  "free_tags tag zone st =
     (let rover = zrover (ram st) zone;
          r = (if btag (ram st) rover = tag then Z_Free st (rover + 20)
               else Inr (st\<lparr>ram := set_zrover (ram st) zone (bnext (ram st) rover)\<rparr>))
      in case r of
           Inl e \<Rightarrow> Some (Inl e)
         | Inr st1 \<Rightarrow>
             if zrover (ram st1) zone \<noteq> blocklist zone then free_tags tag zone st1 else Some (Inr st1))"

definition Z_FreeTags :: "zones \<Rightarrow> int \<Rightarrow> (fault + zones) option" where
  "Z_FreeTags st tag =
     (let zone = (if tag = TAG_SMALL then smallzone st else mainzone st)
      in free_tags tag zone
           (st\<lparr>ram := set_zrover (ram st) zone (bnext (ram st) (blocklist zone))\<rparr>))"

section \<open>Allocating\<close>

definition block_size :: "int \<Rightarrow> int" where
  "block_size sz =
     (let sz = s32 (sz + 20); sz = s32 (sz + 4) in s32 (sz + 3) AND NOT 3)"

text \<open>
  The scan for a block: \<open>Some None\<close> says that it came around the ring, \<open>Some (Some base)\<close>
  is the block it found.
\<close>

partial_function (option) search :: "ram \<Rightarrow> int \<Rightarrow> int \<Rightarrow> int \<Rightarrow> int \<Rightarrow> int option option" where
  "search m start sz base rover =
     (if rover = start then Some None
      else
        let base = (if btag m rover \<noteq> 0 then bnext m rover else base);
            rover = bnext m rover
        in if btag m base \<noteq> 0 \<or> bsize m base < sz then search m start sz base rover
           else Some (Some base))"

definition split_block :: "ram \<Rightarrow> int \<Rightarrow> int \<Rightarrow> int \<Rightarrow> ram" where
  "split_block m base sz extra =
     (let new = base + sz;
          m = set_bsize m new extra; m = set_btag m new 0; m = set_bprev m new base;
          m = set_bid m new ZONEID; m = set_bnext m new (bnext m base);
          m = set_bprev m (bnext m new) new; m = set_bnext m base new
      in set_bsize m base sz)"

definition take_block :: "ram \<Rightarrow> int \<Rightarrow> int \<Rightarrow> int \<Rightarrow> int \<Rightarrow> ram" where
  "take_block m zone base sz tag =
     (let extra = s32 (bsize m base - sz);
          m = (if extra > MINFRAGMENT then split_block m base sz extra else m);
          m = set_btag m base tag;
          m = set_zrover m zone (bnext m base);
          m = set_zused m zone (s32 (zused m zone + bsize m base));
          m = set_bid m base ZONEID
      in wr4 m (base + bsize m base - 4) ZONEID)"

definition Z_TagMalloc :: "zones \<Rightarrow> int \<Rightarrow> int \<Rightarrow> (fault + zones \<times> int) option" where
  "Z_TagMalloc st sz tag =
     (if tag = 0 then Some (Inl (COM_ERROR ERR_FATAL))
      else
        let zone = (if tag = TAG_SMALL then smallzone st else mainzone st) in
        if zone = 0 then Some (Inl (COM_ERROR ERR_FATAL))
        else
          let allocSize = sz; sz = block_size sz; m = ram st;
              base = zrover m zone; start = bprev m base
          in case search m start sz base base of
               None \<Rightarrow> None
             | Some None \<Rightarrow> Some (Inl (COM_ERROR ERR_FATAL))
             | Some (Some base) \<Rightarrow>
                 if allocSize < 0 then Some (Inl OUT_OF_BOUNDS)
                 else Some (Inr (st\<lparr>ram := fill (take_block m zone base sz tag) (base + 20) allocSize 0\<rparr>,
                                 base + 20)))"

definition Z_Malloc :: "zones \<Rightarrow> int \<Rightarrow> (fault + zones \<times> int) option" where
  "Z_Malloc st sz = Z_TagMalloc st sz TAG_GENERAL"

definition S_Malloc :: "zones \<Rightarrow> int \<Rightarrow> (fault + zones \<times> int) option" where
  "S_Malloc st sz = Z_TagMalloc st sz TAG_SMALL"

section \<open>Checks and statistics\<close>

partial_function (option) check_from :: "ram \<Rightarrow> int \<Rightarrow> int \<Rightarrow> (fault + unit) option" where
  "check_from m zone block =
     (if bnext m block = blocklist zone then Some (Inr ())
      else if block + bsize m block \<noteq> bnext m block then Some (Inl (COM_ERROR ERR_FATAL))
      else if bprev m (bnext m block) \<noteq> block then Some (Inl (COM_ERROR ERR_FATAL))
      else if btag m block = 0 \<and> btag m (bnext m block) = 0 then Some (Inl (COM_ERROR ERR_FATAL))
      else check_from m zone (bnext m block))"

definition Z_CheckHeap :: "zones \<Rightarrow> (fault + unit) option" where
  "Z_CheckHeap st = check_from (ram st) (mainzone st) (bnext (ram st) (blocklist (mainzone st)))"

text \<open>The numbers that \<open>Z_PrintZoneHeap\<close> and \<open>Z_LogZoneHeap\<close> print: bytes, blocks, overhead.\<close>

partial_function (option) count_from :: "ram \<Rightarrow> int \<Rightarrow> int \<Rightarrow> int \<times> int \<Rightarrow> (int \<times> int) option" where
  "count_from m zone block acc =
     (if bnext m block = blocklist zone then Some acc
      else count_from m zone (bnext m block)
             (if btag m block \<noteq> 0 then (s32 (fst acc + bsize m block), snd acc + 1) else acc))"

definition Z_PrintZoneHeap :: "ram \<Rightarrow> int \<Rightarrow> (int \<times> int \<times> int) option" where
  "Z_PrintZoneHeap m zone =
     Option.bind (count_from m zone (bnext m (blocklist zone)) (0, 0))
       (\<lambda>(sz, numBlocks). Some (sz, numBlocks, s32 (sz - numBlocks * 20)))"

section \<open>Strings\<close>

fun strcpy :: "ram \<Rightarrow> int \<Rightarrow> string \<Rightarrow> ram" where
  "strcpy m a [] = m(a := 0)"
| "strcpy m a (ch # s) = strcpy (m(a := byte_of_char ch)) (a + 1) s"

definition CopyString :: "zones \<Rightarrow> string \<Rightarrow> (fault + zones \<times> int) option" where
  "CopyString st in_string =
     (case in_string of
        [] \<Rightarrow> Some (Inr (st, emptystring st + 20))
      | ch # rest \<Rightarrow>
          if rest = [] \<and> uc (CHR ''0'') \<le> uc ch \<and> uc ch \<le> uc (CHR ''9'')
          then Some (Inr (st, numberstring st + 24 * (uc ch - uc (CHR ''0'')) + 20))
          else case S_Malloc st (s32 (int (length in_string) + 1)) of
                 None \<Rightarrow> None
               | Some (Inl e) \<Rightarrow> Some (Inl e)
               | Some (Inr (st1, out)) \<Rightarrow> Some (Inr (st1\<lparr>ram := strcpy (ram st1) out in_string\<rparr>, out)))"

end
