(* ===== verification/ZoneBlocks.thy ===== *)
theory ZoneBlocks
  imports ZoneMemory
begin

text \<open>
  What the code of the zone allocator does to a well-formed zone, step by step: the layout of a
  zone as a list of blocks (address, size, tag), and how splitting, merging and marking a
  block changes that list.
\<close>

named_theorems ram_simps \<open>reading a field after a write\<close>

section \<open>Reading after writing\<close>

lemma rd4_wr4_same [ram_simps]: "rd4 (wr4 m a v) a = le_bytes 4 v"
  by (simp add: rd4_def wr4_def numeral_eq_Suc)

lemma rd4_cong: "(\<And>x. a \<le> x \<Longrightarrow> x < a + 4 \<Longrightarrow> m' x = m x) \<Longrightarrow> rd4 m' a = rd4 m a"
  by (simp add: rd4_def)

lemma rd4_wr4_other: "a + 4 \<le> b \<or> b + 4 \<le> a \<Longrightarrow> rd4 (wr4 m a v) b = rd4 m b"
  by (rule rd4_cong) (auto simp: wr4_def)

lemma rd4_range: "0 \<le> le_uint (rd4 m a) \<and> le_uint (rd4 m a) < 2 ^ 32"
  using le_uint_range [of "rd4 m a"] by (simp add: rd4_def del: le_uint.simps)

lemma rd_ptr_range: "0 \<le> rd_ptr m a \<and> rd_ptr m a < 2 ^ 32"
  unfolding rd_ptr_def by (rule rd4_range)

lemma rd_int_range: "- (2 ^ 31) \<le> rd_int m a \<and> rd_int m a < 2 ^ 31"
  unfolding rd_int_def by (rule s32_range)

lemma rd_wr4:
  "a = b \<or> a + 4 \<le> b \<or> b + 4 \<le> a \<Longrightarrow> rd_int (wr4 m a v) b = (if a = b then s32 v else rd_int m b)"
  "a = b \<or> a + 4 \<le> b \<or> b + 4 \<le> a \<Longrightarrow> rd_ptr (wr4 m a v) b = (if a = b then u32 v else rd_ptr m b)"
  using s32_mod [of v] by (auto simp: rd_int_def rd_ptr_def ram_simps rd4_wr4_other wire_simps u32_def)

lemma u32_rd_ptr [ram_simps]: "u32 (rd_ptr m a) = rd_ptr m a"
  using rd_ptr_range [of m a] by simp

lemma s32_rd_int [ram_simps]: "s32 (rd_int m a) = rd_int m a"
  using rd_int_range [of m a] by simp

text \<open>Two headers do not overlap unless they are the same, a header and the zone structure
  only in the sentinel.\<close>

definition hsep :: "int \<Rightarrow> int \<Rightarrow> bool" where
  "hsep a b \<longleftrightarrow> a = b \<or> a + 20 \<le> b \<or> b + 20 \<le> a"

definition zsep :: "int \<Rightarrow> int \<Rightarrow> bool" where
  "zsep z b \<longleftrightarrow> b = blocklist z \<or> b + 20 \<le> z \<or> z + 32 \<le> b"

lemmas field_defs = bsize_def btag_def bnext_def bprev_def bid_def
  set_bsize_def set_btag_def set_bnext_def set_bprev_def set_bid_def
  zsize_def zused_def zrover_def set_zsize_def set_zused_def set_zrover_def blocklist_def

lemma field_set [ram_simps]:
  assumes "hsep a b"
  shows "bsize (set_bsize m a v) b = (if a = b then s32 v else bsize m b)"
    "bsize (set_btag m a v) b = bsize m b" "bsize (set_bnext m a v) b = bsize m b"
    "bsize (set_bprev m a v) b = bsize m b" "bsize (set_bid m a v) b = bsize m b"
    "btag (set_btag m a v) b = (if a = b then s32 v else btag m b)"
    "btag (set_bsize m a v) b = btag m b" "btag (set_bnext m a v) b = btag m b"
    "btag (set_bprev m a v) b = btag m b" "btag (set_bid m a v) b = btag m b"
    "bnext (set_bnext m a v) b = (if a = b then u32 v else bnext m b)"
    "bnext (set_bsize m a v) b = bnext m b" "bnext (set_btag m a v) b = bnext m b"
    "bnext (set_bprev m a v) b = bnext m b" "bnext (set_bid m a v) b = bnext m b"
    "bprev (set_bprev m a v) b = (if a = b then u32 v else bprev m b)"
    "bprev (set_bsize m a v) b = bprev m b" "bprev (set_btag m a v) b = bprev m b"
    "bprev (set_bnext m a v) b = bprev m b" "bprev (set_bid m a v) b = bprev m b"
    "bid (set_bid m a v) b = (if a = b then s32 v else bid m b)"
    "bid (set_bsize m a v) b = bid m b" "bid (set_btag m a v) b = bid m b"
    "bid (set_bnext m a v) b = bid m b" "bid (set_bprev m a v) b = bid m b"
  using assms by (auto simp: hsep_def field_defs rd_wr4)

lemma field_set_zone [ram_simps]:
  assumes "zsep z b"
  shows "bsize (set_zused m z v) b = bsize m b" "btag (set_zused m z v) b = btag m b"
    "bnext (set_zused m z v) b = bnext m b" "bprev (set_zused m z v) b = bprev m b"
    "bid (set_zused m z v) b = bid m b"
    "bsize (set_zrover m z v) b = bsize m b" "btag (set_zrover m z v) b = btag m b"
    "bnext (set_zrover m z v) b = bnext m b" "bprev (set_zrover m z v) b = bprev m b"
    "bid (set_zrover m z v) b = bid m b"
    "bsize (set_zsize m z v) b = bsize m b" "btag (set_zsize m z v) b = btag m b"
    "bnext (set_zsize m z v) b = bnext m b" "bprev (set_zsize m z v) b = bprev m b"
    "bid (set_zsize m z v) b = bid m b"
  using assms by (auto simp: zsep_def field_defs rd_wr4)

lemma zone_set_field [ram_simps]:
  assumes "zsep z b"
  shows "zsize (set_bsize m b v) z = zsize m z" "zsize (set_btag m b v) z = zsize m z"
    "zsize (set_bnext m b v) z = zsize m z" "zsize (set_bprev m b v) z = zsize m z"
    "zsize (set_bid m b v) z = zsize m z"
    "zused (set_bsize m b v) z = zused m z" "zused (set_btag m b v) z = zused m z"
    "zused (set_bnext m b v) z = zused m z" "zused (set_bprev m b v) z = zused m z"
    "zused (set_bid m b v) z = zused m z"
    "zrover (set_bsize m b v) z = zrover m z" "zrover (set_btag m b v) z = zrover m z"
    "zrover (set_bnext m b v) z = zrover m z" "zrover (set_bprev m b v) z = zrover m z"
    "zrover (set_bid m b v) z = zrover m z"
  using assms by (auto simp: zsep_def field_defs rd_wr4)

lemma zone_set_zone [ram_simps]:
  "zsize (set_zsize m z v) z = s32 v" "zsize (set_zused m z v) z = zsize m z"
  "zsize (set_zrover m z v) z = zsize m z"
  "zused (set_zused m z v) z = s32 v" "zused (set_zsize m z v) z = zused m z"
  "zused (set_zrover m z v) z = zused m z"
  "zrover (set_zrover m z v) z = u32 v" "zrover (set_zsize m z v) z = zrover m z"
  "zrover (set_zused m z v) z = zrover m z"
  by (auto simp: field_defs rd_wr4)

lemma hsep_refl [simp]: "hsep a a"
  by (simp add: hsep_def)

text \<open>The bytes a write leaves alone.\<close>

definition same_in :: "ram \<Rightarrow> ram \<Rightarrow> int \<Rightarrow> int \<Rightarrow> bool" where
  "same_in m m' lo hi \<longleftrightarrow> (\<forall>x. lo \<le> x \<and> x < hi \<longrightarrow> m' x = m x)"

lemma rd_same_in:
  assumes "same_in m m' lo hi" "lo \<le> a" "a + 4 \<le> hi"
  shows "rd_int m' a = rd_int m a" "rd_ptr m' a = rd_ptr m a"
  using assms rd4_cong [of a m' m] by (simp_all add: rd_int_def rd_ptr_def same_in_def)

lemma fields_same_in:
  assumes "same_in m m' b (b + 20)"
  shows "bsize m' b = bsize m b" "btag m' b = btag m b" "bnext m' b = bnext m b"
    "bprev m' b = bprev m b" "bid m' b = bid m b"
  using rd_same_in [OF assms] by (simp_all add: field_defs)

lemma zone_same_in:
  assumes "same_in m m' z (z + 32)"
  shows "zsize m' z = zsize m z" "zused m' z = zused m z" "zrover m' z = zrover m z"
  using rd_same_in [OF assms] by (simp_all add: field_defs)

lemma wr4_outside: "x < a \<or> a + 4 \<le> x \<Longrightarrow> wr4 m a v x = m x"
  by (auto simp: wr4_def)

lemma set_outside:
  "x < a \<or> a + 20 \<le> x \<Longrightarrow> set_bsize m a v x = m x" "x < a \<or> a + 20 \<le> x \<Longrightarrow> set_btag m a v x = m x"
  "x < a \<or> a + 20 \<le> x \<Longrightarrow> set_bnext m a v x = m x" "x < a \<or> a + 20 \<le> x \<Longrightarrow> set_bprev m a v x = m x"
  "x < a \<or> a + 20 \<le> x \<Longrightarrow> set_bid m a v x = m x"
  "x < z \<or> z + 32 \<le> x \<Longrightarrow> set_zused m z v x = m x" "x < z \<or> z + 32 \<le> x \<Longrightarrow> set_zrover m z v x = m x"
  "x < z \<or> z + 32 \<le> x \<Longrightarrow> set_zsize m z v x = m x"
  by (auto simp: field_defs wr4_outside)

lemma fill_outside: "x < a \<or> a + n \<le> x \<Longrightarrow> fill m a n b x = m x"
  by (auto simp: fill_def)


section \<open>The layout of a zone\<close>

type_synonym blk = "int \<times> int \<times> int"

text \<open>There is never any space between blocks.\<close>

fun tiled :: "int \<Rightarrow> blk list \<Rightarrow> int \<Rightarrow> bool" where
  "tiled a [] e \<longleftrightarrow> a = e"
| "tiled a ((b, s, t) # bs) e \<longleftrightarrow> b = a \<and> 24 \<le> s \<and> tiled (a + s) bs e"

fun links :: "ram \<Rightarrow> int list \<Rightarrow> bool" where
  "links m (x # y # zs) \<longleftrightarrow> bnext m x = y \<and> bprev m y = x \<and> links m (y # zs)"
| "links m zs \<longleftrightarrow> True"

fun hdr_ok :: "ram \<Rightarrow> blk \<Rightarrow> bool" where
  "hdr_ok m (a, s, t) \<longleftrightarrow> bsize m a = s \<and> btag m a = t \<and> bid m a = ZONEID
     \<and> (t \<noteq> 0 \<longrightarrow> rd_int m (a + s - 4) = ZONEID)"

declare hdr_ok.simps [simp del]

definition addrs :: "blk list \<Rightarrow> int list" where
  "addrs bs = map fst bs"

definition zring :: "int \<Rightarrow> blk list \<Rightarrow> int list" where
  "zring z bs = blocklist z # addrs bs @ [blocklist z]"

definition heap_ok :: "ram \<Rightarrow> int \<Rightarrow> blk list \<Rightarrow> bool" where
  "heap_ok m z bs \<longleftrightarrow> 0 < z \<and> z + zsize m z \<le> 2 ^ 32 \<and> tiled (z + 32) bs (z + zsize m z)
     \<and> (\<forall>b \<in> set bs. hdr_ok m b) \<and> bsize m (blocklist z) = 0 \<and> btag m (blocklist z) = 1
     \<and> links m (zring z bs)"

lemma addrs_simps [simp]:
  "addrs [] = []" "addrs ((a, s, t) # bs) = a # addrs bs" "addrs (xs @ ys) = addrs xs @ addrs ys"
  by (simp_all add: addrs_def)

lemma tiled_append: "tiled a (xs @ ys) e \<longleftrightarrow> (\<exists>k. tiled a xs k \<and> tiled k ys e)"
  by (induction xs arbitrary: a) auto

lemma tiled_le: "tiled a bs e \<Longrightarrow> a \<le> e"
  by (induction bs arbitrary: a) (auto, fastforce)

lemma tiled_mem: "tiled a bs e \<Longrightarrow> (b, s, t) \<in> set bs \<Longrightarrow> a \<le> b \<and> b + s \<le> e \<and> 24 \<le> s"
proof (induction bs arbitrary: a)
  case (Cons x bs)
  obtain b' s' t' where x: "x = (b', s', t')" by (cases x)
  show ?case
  proof (cases "(b, s, t) = x")
    case True
    then show ?thesis using Cons.prems(1) tiled_le [of "a + s" bs e] by (auto simp: x)
  next
    case False
    then show ?thesis using Cons.prems Cons.IH [of "a + s'"] by (auto simp: x)
  qed
qed simp

lemma tiled_block:
  "tiled k (xs @ (a, s, t) # ys) e \<longleftrightarrow> tiled k xs a \<and> 24 \<le> s \<and> tiled (a + s) ys e"
  by (auto simp: tiled_append)

text \<open>A block splits the list in blocks in front of it and blocks behind it.\<close>

lemma tiled_sides:
  assumes "tiled k (xs @ (a, s, t) # ys) e"
  shows "(b, u, v) \<in> set xs \<Longrightarrow> k \<le> b \<and> b + u \<le> a \<and> 24 \<le> u"
    "(b, u, v) \<in> set ys \<Longrightarrow> a + s \<le> b \<and> b + u \<le> e \<and> 24 \<le> u" "k \<le> a" "a + s \<le> e" "24 \<le> s"
  using assms tiled_mem tiled_le by (auto simp: tiled_block)

lemma addrs_mem: "b \<in> set (addrs bs) \<Longrightarrow> \<exists>s t. (b, s, t) \<in> set bs"
  by (auto simp: addrs_def) blast

lemma tiled_addrs:
  assumes "tiled k (xs @ (a, s, t) # ys) e"
  shows "b \<in> set (addrs xs) \<Longrightarrow> k \<le> b \<and> b + 24 \<le> a" "b \<in> set (addrs ys) \<Longrightarrow> a + s \<le> b \<and> b + 24 \<le> e"
  using tiled_sides(1,2) [OF assms] addrs_mem by fastforce+

lemma links_join: "links m (A @ x # B) \<longleftrightarrow> links m (A @ [x]) \<and> links m (x # B)"
proof (induction A)
  case (Cons y A)
  then show ?case by (cases A) auto
qed (cases B; simp)

lemma links_cong:
  "(\<And>x. x \<in> set (butlast L) \<Longrightarrow> bnext m' x = bnext m x) \<Longrightarrow>
   (\<And>x. x \<in> set (tl L) \<Longrightarrow> bprev m' x = bprev m x) \<Longrightarrow> links m L \<Longrightarrow> links m' L"
proof (induction m L rule: links.induct)
  case (1 m x y zs)
  have "links m' (y # zs)"
    using 1 by (intro "1.IH") (auto split: if_splits intro: list.set_sel(2))
  then show ?case using 1(4) 1(2) [of x] 1(3) [of y] by simp
qed simp_all

text \<open>Every block and the sentinel are apart.\<close>

lemma heap_sep:
  assumes "heap_ok m z (xs @ (a, s, t) # ys)"
  shows "hsep (blocklist z) a" "hsep a (blocklist z)" "zsep z a" "zsep z (blocklist z)"
    "z + 32 \<le> a" "24 \<le> s" "a + s \<le> z + zsize m z"
    "b \<in> set (addrs xs) \<Longrightarrow> z + 32 \<le> b \<and> b + 24 \<le> a"
    "b \<in> set (addrs ys) \<Longrightarrow> a + s \<le> b \<and> b + 24 \<le> z + zsize m z"
  using tiled_sides [of "z + 32" xs a s t ys "z + zsize m z"]
    tiled_addrs [of "z + 32" xs a s t ys "z + zsize m z"] assms
  by (auto simp: heap_ok_def hsep_def zsep_def blocklist_def)

lemma hdr_ok_same:
  assumes "same_in m m' b (b + u)" "24 \<le> u" "hdr_ok m (b, u, v)"
  shows "hdr_ok m' (b, u, v)"
proof -
  have "same_in m m' b (b + 20)" using assms(1,2) by (simp add: same_in_def)
  note f = fields_same_in [OF this]
  have "rd_int m' (b + u - 4) = rd_int m (b + u - 4)"
    using assms(2) by (intro rd_same_in(1) [OF assms(1)]) simp_all
  then show ?thesis using assms(3) by (simp add: f hdr_ok.simps)
qed

text \<open>A zone does not depend on anything outside of it, nor on \<open>used\<close> and \<open>rover\<close>.\<close>

lemma heap_cong:
  assumes ok: "heap_ok m z bs"
    and same: "same_in m m' z (z + 4)" "same_in m m' (z + 8) (z + 28)"
      "same_in m m' (z + 32) (z + zsize m z)"
  shows "heap_ok m' z bs" "zsize m' z = zsize m z"
proof -
  have t: "tiled (z + 32) bs (z + zsize m z)" using ok by (simp add: heap_ok_def)
  show zs: "zsize m' z = zsize m z" using rd_same_in [OF same(1)] by (simp add: zsize_def)
  have c: "same_in m m' (blocklist z) (blocklist z + 20)" using same(2) by (simp add: blocklist_def same_in_def)
  have own: "same_in m m' b (b + u)" if "(b, u, v) \<in> set bs" for b u v
    using tiled_mem [OF t that] same(3) by (simp add: same_in_def)
  have hdr: "same_in m m' b (b + 20)" if "b \<in> set (addrs bs)" for b
  proof -
    obtain u v where b: "(b, u, v) \<in> set bs" using \<open>b \<in> _\<close> addrs_mem by blast
    then show ?thesis using own [OF b] tiled_mem [OF t b] by (simp add: same_in_def)
  qed
  have "links m' (zring z bs)"
  proof (rule links_cong)
    show "links m (zring z bs)" using ok by (simp add: heap_ok_def)
    fix x
    have "x \<in> insert (blocklist z) (set (addrs bs)) \<Longrightarrow> bnext m' x = bnext m x \<and> bprev m' x = bprev m x"
      using fields_same_in [OF c] fields_same_in [OF hdr] by blast
    then show "x \<in> set (butlast (zring z bs)) \<Longrightarrow> bnext m' x = bnext m x"
      "x \<in> set (tl (zring z bs)) \<Longrightarrow> bprev m' x = bprev m x"
      by (auto simp: zring_def butlast_append split: if_splits)
  qed
  moreover have "\<forall>b \<in> set bs. hdr_ok m' b"
    using ok hdr_ok_same [OF own] tiled_mem [OF t] unfolding heap_ok_def by auto
  ultimately show "heap_ok m' z bs" using ok fields_same_in [OF c] by (auto simp: heap_ok_def zs)
qed

lemma heap_rover_used:
  assumes "heap_ok m z bs"
  shows "heap_ok (set_zused m z v) z bs" "heap_ok (set_zrover m z v) z bs"
  by (rule heap_cong(1) [OF assms]; simp add: same_in_def field_defs wr4_outside)+

text \<open>
  Changing the tag and the payload of one block, \<open>used\<close>, \<open>rover\<close> and anything outside the zone.
\<close>

lemma heap_retag:
  assumes ok: "heap_ok m z (xs @ (a, s, t) # ys)"
    and same: "\<And>x. z \<le> x \<Longrightarrow> x < z + zsize m z \<Longrightarrow>
      \<not> (z + 4 \<le> x \<and> x < z + 8) \<Longrightarrow> \<not> (z + 28 \<le> x \<and> x < z + 32) \<Longrightarrow>
      \<not> (a + 4 \<le> x \<and> x < a + 8) \<Longrightarrow> \<not> (a + 16 \<le> x \<and> x < a + s) \<Longrightarrow> m' x = m x"
    and new: "btag m' a = t'" "bid m' a = ZONEID" "t' \<noteq> 0 \<Longrightarrow> rd_int m' (a + s - 4) = ZONEID"
  shows "heap_ok m' z (xs @ (a, s, t') # ys)"
    "zsize m' z = zsize m z"
proof -
  note sep = heap_sep [OF ok]
  have t: "tiled (z + 32) (xs @ (a, s, t) # ys) (z + zsize m z)" using ok by (simp add: heap_ok_def)
  have zin: "same_in m m' z (z + 4)" "same_in m m' (z + 8) (z + 28)"
    using same sep(5,6,7) by (simp_all add: same_in_def)
  show zone: "zsize m' z = zsize m z" using rd_same_in [OF zin(1)] by (simp add: zsize_def)
  have c: "same_in m m' (blocklist z) (blocklist z + 20)"
    using zin(2) by (simp add: same_in_def blocklist_def)
  have other: "same_in m m' b (b + u)" if "(b, u, v) \<in> set xs \<union> set ys" for b u v
    unfolding same_in_def
  proof (intro allI impI)
    fix x assume x: "b \<le> x \<and> x < b + u"
    have "z + 32 \<le> b \<and> b + u \<le> z + zsize m z \<and> (b + u \<le> a \<or> a + s \<le> b)"
      using that tiled_sides [OF t] by fastforce
    then show "m' x = m x" using x sep(6) by (intro same) linarith+
  qed
  have hdr: "same_in m m' b (b + 20)" if "b \<in> set (addrs xs) \<union> set (addrs ys)" for b
  proof -
    obtain u v where b: "(b, u, v) \<in> set xs \<union> set ys" using \<open>b \<in> _\<close> addrs_mem by blast
    then have "24 \<le> u" using tiled_sides(1,2) [OF t] by blast
    then show ?thesis using other [OF b] by (simp add: same_in_def)
  qed
  have keep: "hdr_ok m' (b, u, v)" if "(b, u, v) \<in> set xs \<union> set ys" for b u v
    using ok that tiled_sides(1,2) [OF t] hdr_ok_same [OF other [OF that]]
    unfolding heap_ok_def by auto
  have a4: "same_in m m' a (a + 4)" "same_in m m' (a + 8) (a + 16)"
    using same sep(5,6,7) by (auto simp: same_in_def)
  have own: "bsize m' a = bsize m a" "bnext m' a = bnext m a" "bprev m' a = bprev m a"
    using rd_same_in [OF a4(1)] rd_same_in [OF a4(2)] by (simp_all add: field_defs)
  have "bsize m a = s" using ok by (simp add: heap_ok_def hdr_ok.simps)
  then have mine: "hdr_ok m' (a, s, t')" using new own by (simp add: hdr_ok.simps)
  have ring: "links m' (zring z (xs @ (a, s, t') # ys))"
  proof (rule links_cong)
    show "links m (zring z (xs @ (a, s, t') # ys))" using ok by (simp add: heap_ok_def zring_def)
    fix x
    have "x \<in> {blocklist z, a} \<union> (set (addrs xs) \<union> set (addrs ys)) \<Longrightarrow>
        bnext m' x = bnext m x \<and> bprev m' x = bprev m x"
      using fields_same_in [OF c] own fields_same_in [OF hdr] by blast
    then show "x \<in> set (butlast (zring z (xs @ (a, s, t') # ys))) \<Longrightarrow> bnext m' x = bnext m x"
      "x \<in> set (tl (zring z (xs @ (a, s, t') # ys))) \<Longrightarrow> bprev m' x = bprev m x"
      by (auto simp: zring_def butlast_append split: if_splits)
  qed
  show "heap_ok m' z (xs @ (a, s, t') # ys)"
    using ok t ring mine keep fields_same_in [OF c]
    by (auto simp: heap_ok_def zone tiled_block)
qed


section \<open>Splitting and merging\<close>

text \<open>Inserting a node into the ring and taking one out.\<close>

lemma in_tl_snoc: "x \<in> set (tl (A @ [a])) \<Longrightarrow> x \<in> set A \<or> x = a"
  by (cases A) auto

lemma links_insert:
  assumes "links m (A @ [a, q] @ B)" "a \<notin> set A" "q \<notin> set (tl (A @ [a]))" "q \<notin> set B" "a \<notin> set (butlast (q # B))"
    "n \<notin> set (A @ [a, q] @ B)"
    and "\<And>x. x \<in> set (A @ [a, q] @ B) \<Longrightarrow> bnext m' x = (if x = a then n else bnext m x)"
    and "\<And>x. x \<in> set (A @ [a, q] @ B) \<Longrightarrow> bprev m' x = (if x = q then n else bprev m x)"
    and "bnext m' n = q" "bprev m' n = a"
  shows "links m' (A @ [a, n, q] @ B)"
proof -
  have old: "links m (A @ [a])" "links m (q # B)"
    using assms(1) links_join [of m A a "q # B"] by auto
  have tl: "bprev m' x = bprev m x" if "x \<in> set (tl (A @ [a]))" for x
    using that assms(3) in_tl_snoc [OF that] assms(8) [of x] by auto
  have bl: "bnext m' x = bnext m x" if "x \<in> set (butlast (q # B))" for x
    using that assms(5) in_set_butlastD [OF that] assms(7) [of x] by auto
  have "links m' (A @ [a])"
    using old(1) by (rule links_cong [rotated 2])
      (use assms(2,7,8) tl in \<open>auto simp: butlast_append\<close>)
  moreover have "links m' (q # B)"
    using old(2) by (rule links_cong [rotated 2]) (use assms(4,8) bl in auto)
  moreover have "bnext m' a = n" "bprev m' q = n" using assms(7) [of a] assms(8) [of q] by simp_all
  ultimately show ?thesis using assms(9,10) links_join [of m' A a "n # q # B"] by simp
qed

lemma links_remove:
  assumes "links m (A @ [a, n, q] @ B)" "a \<notin> set A" "q \<notin> set (tl (A @ [a]))" "q \<notin> set B" "a \<notin> set (butlast (q # B))"
    and "\<And>x. x \<in> set (A @ [a, q] @ B) \<Longrightarrow> bnext m' x = (if x = a then q else bnext m x)"
    and "\<And>x. x \<in> set (A @ [a, q] @ B) \<Longrightarrow> bprev m' x = (if x = q then a else bprev m x)"
  shows "links m' (A @ [a, q] @ B)"
proof -
  have old: "links m (A @ [a])" "links m (q # B)"
    using assms(1) links_join [of m A a "n # q # B"] by auto
  have tl: "bprev m' x = bprev m x" if "x \<in> set (tl (A @ [a]))" for x
    using that assms(3) in_tl_snoc [OF that] assms(7) [of x] by auto
  have bl: "bnext m' x = bnext m x" if "x \<in> set (butlast (q # B))" for x
    using that assms(5) in_set_butlastD [OF that] assms(6) [of x] by auto
  have "links m' (A @ [a])"
    using old(1) by (rule links_cong [rotated 2])
      (use assms(2,6,7) tl in \<open>auto simp: butlast_append\<close>)
  moreover have "links m' (q # B)"
    using old(2) by (rule links_cong [rotated 2]) (use assms(4,7) bl in auto)
  moreover have "bnext m' a = q" "bprev m' q = a" using assms(6) [of a] assms(7) [of q] by simp_all
  ultimately show ?thesis using links_join [of m' A a "q # B"] by simp
qed


lemma tiled_hsep:
  "tiled a bs e \<Longrightarrow> x \<in> set (addrs bs) \<Longrightarrow> y \<in> set (addrs bs) \<Longrightarrow> hsep x y"
proof (induction bs arbitrary: a)
  case (Cons b bs)
  obtain b' s t where b: "b = (b', s, t)" by (cases b)
  have "hsep a y \<and> hsep y a" if y: "y \<in> set (addrs bs)" for y
  proof -
    obtain u v where "(y, u, v) \<in> set bs" using addrs_mem [OF y] by blast
    then show ?thesis using Cons.prems(1) tiled_mem [of "a + s" bs e y u v] by (auto simp: b hsep_def)
  qed
  then show ?case using Cons by (auto simp: b hsep_def)
qed simp

lemma heap_hsep:
  assumes "heap_ok m z bs" "x \<in> insert (blocklist z) (set (addrs bs))"
    "y \<in> insert (blocklist z) (set (addrs bs))"
  shows "hsep x y" "zsep z x"
proof -
  have t: "tiled (z + 32) bs (z + zsize m z)" using assms(1) by (simp add: heap_ok_def)
  have lo: "b \<in> set (addrs bs) \<Longrightarrow> z + 32 \<le> b" for b
    using tiled_mem [OF t] addrs_mem by blast
  show "hsep x y" "zsep z x" using assms(2,3) tiled_hsep [OF t, of x y] lo [of x] lo [of y]
    by (auto simp: hsep_def zsep_def blocklist_def)
qed

text \<open>The block behind \<open>a\<close> in the ring.\<close>

lemma ring_at:
  "\<exists>q B. zring z (xs @ (a, s, t) # ys) = (blocklist z # addrs xs) @ [a, q] @ B
     \<and> addrs ys @ [blocklist z] = q # B"
  by (cases "addrs ys @ [blocklist z]") (auto simp: zring_def)

lemma split_fields:
  assumes "hsep a q" "hsep h a" "hsep h q" "hsep h (a + n)" "hsep (a + n) a" "hsep (a + n) q"
    "a + n \<noteq> a" "a + n \<noteq> q" "bnext m a = q" "zsep z a" "zsep z q" "zsep z (a + n)"
    "0 \<le> a" "0 \<le> n" "a + n < 2 ^ 32" "n < 2 ^ 31" "0 \<le> k" "k < 2 ^ 31"
  shows "bsize (split_block m a n k) h = (if h = a then n else if h = a + n then k else bsize m h)"
    "btag (split_block m a n k) h = (if h = a + n then 0 else btag m h)"
    "bid (split_block m a n k) h = (if h = a + n then ZONEID else bid m h)"
    "bnext (split_block m a n k) h = (if h = a then a + n else if h = a + n then q else bnext m h)"
    "bprev (split_block m a n k) h = (if h = q then a + n else if h = a + n then a else bprev m h)"
    "zused (split_block m a n k) z = zused m z" "zrover (split_block m a n k) z = zrover m z"
    "zsize (split_block m a n k) z = zsize m z"
    "x < a \<or> a + 20 \<le> x \<Longrightarrow> x < a + n \<or> a + n + 20 \<le> x \<Longrightarrow> x < q \<or> q + 20 \<le> x \<Longrightarrow>
      split_block m a n k x = m x"
proof -
  have q: "u32 q = q" using assms(9) by (auto simp: bnext_def ram_simps)
  have sym: "hsep x y \<Longrightarrow> hsep y x" for x y by (auto simp: hsep_def)
  have refl: "hsep x x" for x by (simp add: hsep_def)
  note s = assms(1-12) assms(1-6) [THEN sym] refl
  show "bsize (split_block m a n k) h = (if h = a then n else if h = a + n then k else bsize m h)"
    "btag (split_block m a n k) h = (if h = a + n then 0 else btag m h)"
    "bid (split_block m a n k) h = (if h = a + n then ZONEID else bid m h)"
    "bnext (split_block m a n k) h = (if h = a then a + n else if h = a + n then q else bnext m h)"
    "bprev (split_block m a n k) h = (if h = q then a + n else if h = a + n then a else bprev m h)"
    "zused (split_block m a n k) z = zused m z" "zrover (split_block m a n k) z = zrover m z"
    "zsize (split_block m a n k) z = zsize m z"
    "x < a \<or> a + 20 \<le> x \<Longrightarrow> x < a + n \<or> a + n + 20 \<le> x \<Longrightarrow> x < q \<or> q + 20 \<le> x \<Longrightarrow>
      split_block m a n k x = m x"
    using s assms(13-) by (auto simp: split_block_def Let_def ram_simps q ZONEID_def set_outside)
qed


lemma hdr_ok_other:
  assumes "hdr_ok m (b, u, v)" "bsize m' b = bsize m b" "btag m' b = btag m b" "bid m' b = bid m b"
    "same_in m m' (b + 20) (b + u)" "24 \<le> u"
  shows "hdr_ok m' (b, u, v)"
  using assms rd_same_in(1) [OF assms(5), of "b + u - 4"] by (simp add: hdr_ok.simps)

lemma tiled_apart:
  "tiled k bs e \<Longrightarrow> (b, u, v) \<in> set bs \<Longrightarrow> (b', u', v') \<in> set bs \<Longrightarrow>
   (b, u, v) = (b', u', v') \<or> b + u \<le> b' \<or> b' + u' \<le> b"
proof (induction bs arbitrary: k)
  case (Cons x bs)
  obtain a s t where x: "x = (a, s, t)" by (cases x)
  have "(d, w, g) \<in> set bs \<Longrightarrow> a + s \<le> d" for d w g
    using Cons.prems(1) tiled_mem [of "a + s" bs e] by (auto simp: x)
  then show ?case using Cons by (auto simp: x)
qed simp

lemma ring_distinct:
  assumes t: "tiled (z + 32) (xs @ (a, s, v) # ys) e" and q: "addrs ys @ [blocklist z] = q # B"
  shows "a \<notin> set (blocklist z # addrs xs)" "q \<notin> set (tl ((blocklist z # addrs xs) @ [a]))"
    "q \<notin> set B" "a \<notin> set (butlast (q # B))"
proof -
  have lo: "x \<in> set (addrs xs) \<Longrightarrow> z + 32 \<le> x \<and> x + 24 \<le> a" and hi: "x \<in> set (addrs ys) \<Longrightarrow> a + s \<le> x"
    and a: "z + 32 \<le> a" "24 \<le> s" for x
    using tiled_addrs [OF t] tiled_sides [OF t] by auto
  show "a \<notin> set (blocklist z # addrs xs)" using lo [of a] a by (auto simp: blocklist_def)
  have "butlast (q # B) = addrs ys" by (metis q butlast_snoc)
  then show "a \<notin> set (butlast (q # B))" using hi [of a] a by auto
  have "q = blocklist z \<or> q \<in> set (addrs ys)" using q by (cases ys; auto)
  then show "q \<notin> set (tl ((blocklist z # addrs xs) @ [a]))"
    using lo [of q] hi [of q] a by (auto simp: blocklist_def)
  show "q \<notin> set B"
  proof (cases ys)
    case (Cons y ys')
    obtain w k where y: "y = (q, w, k)" using q Cons by (cases y) auto
    have "tiled (a + s) ys e" using t by (simp add: tiled_block)
    then have "tiled (q + w) ys' e" "24 \<le> w" "a + s \<le> q" by (auto simp: Cons y)
    then have "x \<in> set (addrs ys') \<Longrightarrow> q + w \<le> x" for x using tiled_mem addrs_mem by blast
    then show ?thesis using q Cons y a \<open>24 \<le> w\<close> \<open>a + s \<le> q\<close> by (fastforce simp: blocklist_def)
  qed (use q in simp)
qed

text \<open>Replacing blocks by others in the same place.\<close>

lemma heap_rebuild:
  assumes ok: "heap_ok m z (xs @ mid @ ys)" and mid: "\<And>k e. tiled k mid e \<Longrightarrow> tiled k mid' e"
    and zs: "zsize m' z = zsize m z"
    and f: "\<And>b. b \<in> insert (blocklist z) (set (addrs (xs @ ys))) \<Longrightarrow>
      bsize m' b = bsize m b \<and> btag m' b = btag m b \<and> bid m' b = bid m b"
    and out: "\<And>x. (\<And>b. b \<in> insert (blocklist z) (set (addrs (xs @ mid' @ ys))) \<Longrightarrow>
      x < b \<or> b + 20 \<le> x) \<Longrightarrow> m' x = m x"
    and mine: "\<And>b. b \<in> set mid' \<Longrightarrow> hdr_ok m' b"
    and l: "links m' (zring z (xs @ mid' @ ys))"
  shows "heap_ok m' z (xs @ mid' @ ys)"
proof -
  let ?bs = "xs @ mid' @ ys"
  have t: "tiled (z + 32) ?bs (z + zsize m z)"
    using ok mid by (auto simp: heap_ok_def tiled_append)
  have "hdr_ok m' (b, u, v)" if b: "(b, u, v) \<in> set xs \<union> set ys" for b u v
  proof (rule hdr_ok_other)
    have "b \<in> insert (blocklist z) (set (addrs (xs @ ys)))" using b by (force simp: addrs_def)
    then show "bsize m' b = bsize m b" "btag m' b = btag m b" "bid m' b = bid m b" using f by blast+
    have bb: "(b, u, v) \<in> set ?bs" using b by auto
    show "24 \<le> u" "hdr_ok m (b, u, v)" using tiled_mem [OF t bb] ok b by (auto simp: heap_ok_def)
    show "same_in m m' (b + 20) (b + u)"
      unfolding same_in_def
    proof (intro allI impI out)
      fix x h assume x: "b + 20 \<le> x \<and> x < b + u" and "h \<in> insert (blocklist z) (set (addrs ?bs))"
      then consider "h = blocklist z" | w k where "(h, w, k) \<in> set ?bs" using addrs_mem by blast
      then show "x < h \<or> h + 20 \<le> x"
      proof cases
        case 1
        then show ?thesis using tiled_mem [OF t bb] x by (simp add: blocklist_def)
      next
        case 2
        then show ?thesis using tiled_apart [OF t bb 2] tiled_mem [OF t 2] x by auto
      qed
    qed
  qed
  then show ?thesis using ok t l mine f [of "blocklist z"] by (auto simp: heap_ok_def zs)
qed

lemma heap_split:
  assumes ok: "heap_ok m z (xs @ (a, s, 0) # ys)" and n: "24 \<le> n" "n + 24 \<le> s"
  shows "heap_ok (split_block m a n (s - n)) z (xs @ (a, n, 0) # (a + n, s - n, 0) # ys)"
    "zused (split_block m a n (s - n)) z = zused m z" "zrover (split_block m a n (s - n)) z = zrover m z"
    "zsize (split_block m a n (s - n)) z = zsize m z"
    "(\<And>b. b \<in> insert (blocklist z) (set (addrs (xs @ (a, n, 0) # (a + n, s - n, 0) # ys))) \<Longrightarrow>
        x < b \<or> b + 20 \<le> x) \<Longrightarrow> split_block m a n (s - n) x = m x"
proof -
  let ?m = "split_block m a n (s - n)" and ?c = "blocklist z"
  note sep = heap_sep [OF ok]
  have t: "tiled (z + 32) (xs @ (a, s, 0) # ys) (z + zsize m z)" and hdrs: "\<forall>b \<in> set (xs @ (a, s, 0) # ys). hdr_ok m b"
    and z: "0 < z" "z + zsize m z \<le> 2 ^ 32" "bsize m ?c = 0" "btag m ?c = 1"
    and l: "links m (zring z (xs @ (a, s, 0) # ys))"
    using ok by (simp_all add: heap_ok_def)
  have s: "bsize m a = s" "btag m a = 0" "bid m a = ZONEID" using hdrs by (simp_all add: hdr_ok.simps)
  have s31: "s < 2 ^ 31" using s(1) rd_int_range [of m a] by (simp add: bsize_def)
  obtain q B where q: "zring z (xs @ (a, s, 0) # ys) = (?c # addrs xs) @ [a, q] @ B"
    "addrs ys @ [?c] = q # B" using ring_at by blast
  let ?H = "insert ?c (set (addrs (xs @ (a, s, 0) # ys)))"
  have aq: "a \<in> ?H" "q \<in> ?H" using q(2) by (cases ys; auto)+
  have new: "hsep h (a + n)" "hsep (a + n) h" "a + n \<noteq> h" if "h \<in> ?H" for h
    using that sep n by (fastforce simp: hsep_def blocklist_def)+
  have nq: "bnext m a = q" using l links_join [of m "?c # addrs xs" a "q # B"] by (simp add: q(1))
  note hs = heap_hsep [OF ok]
  have za: "zsep z (a + n)" using sep(5) n by (simp add: zsep_def)
  note F = split_fields [OF hs(1) [OF aq] _ _ _ new(2) [OF aq(1)] new(2) [OF aq(2)] new(3) [OF aq(1)]
      new(3) [OF aq(2)] nq hs(2) [OF aq(1) aq(1)] hs(2) [OF aq(2) aq(1)] za, of _ "s - n"]
  have nums: "0 \<le> a" "0 \<le> n" "a + n < 2 ^ 32" "n < 2 ^ 31" "0 \<le> s - n" "s - n < 2 ^ 31"
    using sep(5,7) z n s31 by simp_all
  note old = F [OF hs(1) [OF _ aq(1)] hs(1) [OF _ aq(2)] new(1) nums]
  note fresh = F [OF new(2) [OF aq(1)] new(2) [OF aq(2)] hsep_refl nums]
  show zf: "zused ?m z = zused m z" "zrover ?m z = zrover m z" "zsize ?m z = zsize m z"
    using old(6,7,8) [OF aq(1)] by simp_all
  have out: "?m x = m x" if "x < a \<or> a + 20 \<le> x" "x < a + n \<or> a + n + 20 \<le> x" "x < q \<or> q + 20 \<le> x" for x
    using old(9) [OF aq(1) aq(1) aq(1)] that by blast
  have qx: "q = ?c \<or> q \<in> set (addrs ys)" using q(2) by (cases ys; auto)
  show "?m x = m x" if "\<And>b. b \<in> insert ?c (set (addrs (xs @ (a, n, 0) # (a + n, s - n, 0) # ys))) \<Longrightarrow>
        x < b \<or> b + 20 \<le> x"
    using qx by (intro out that) auto
  have ac: "a \<noteq> ?c" "?c \<noteq> a" using sep(5) by (simp_all add: blocklist_def)
  have mine: "hdr_ok ?m (a, n, 0)" "hdr_ok ?m (a + n, s - n, 0)"
    using old(1,2,3) [OF aq(1) aq(1) aq(1)] fresh(1,2,3) s n by (simp_all add: hdr_ok.simps)
  have "links ?m ((?c # addrs xs) @ [a, a + n, q] @ B)"
  proof (rule links_insert)
    show "links m ((?c # addrs xs) @ [a, q] @ B)" using l q(1) by simp
    show "bnext ?m (a + n) = q" "bprev ?m (a + n) = a"
      using fresh(4,5) new(3) [OF aq(1)] new(3) [OF aq(2)] by auto
    have H: "set ((?c # addrs xs) @ [a, q] @ B) \<subseteq> ?H" using q(2) by (auto; cases ys; auto)
    show "a + n \<notin> set ((?c # addrs xs) @ [a, q] @ B)" using H new(3) by blast
    show "bnext ?m x = (if x = a then a + n else bnext m x)" "bprev ?m x = (if x = q then a + n else bprev m x)"
      if "x \<in> set ((?c # addrs xs) @ [a, q] @ B)" for x
      using old(4,5) [of x] H that new(3) [of x] by auto
  qed (use ring_distinct [OF t q(2)] in auto)
  then have ring: "links ?m (zring z (xs @ [(a, n, 0), (a + n, s - n, 0)] @ ys))"
    using q(2) by (simp add: zring_def)
  have "heap_ok ?m z (xs @ [(a, n, 0), (a + n, s - n, 0)] @ ys)"
  proof (rule heap_rebuild [OF _ _ zf(3) _ _ _ ring])
    show "heap_ok m z (xs @ [(a, s, 0)] @ ys)" using ok by simp
    show "bsize ?m b = bsize m b \<and> btag ?m b = btag m b \<and> bid ?m b = bid m b"
      if "b \<in> insert ?c (set (addrs (xs @ ys)))" for b
      using that old(1,2,3) [of b] new(3) [of b] sep(8,9) [of b] ac sep(6) by auto
    show "?m x = m x" if "\<And>b. b \<in> insert ?c (set (addrs (xs @ [(a, n, 0), (a + n, s - n, 0)] @ ys))) \<Longrightarrow>
        x < b \<or> b + 20 \<le> x" for x
      using qx by (intro out that) auto
  qed (use n mine in auto)
  then show "heap_ok ?m z (xs @ (a, n, 0) # (a + n, s - n, 0) # ys)" by simp
qed


lemma merge_fields:
  assumes "hsep h p" "hsep h q" "hsep p q" "hsep a p" "p \<noteq> a" "bnext m a = q" "zsep z p" "zsep z q"
    "0 \<le> p" "p < 2 ^ 32" "- (2 ^ 31) \<le> bsize m p + bsize m a" "bsize m p + bsize m a < 2 ^ 31"
  shows "bsize (merge m p a) h = (if h = p then bsize m p + bsize m a else bsize m h)"
    "btag (merge m p a) h = btag m h" "bid (merge m p a) h = bid m h"
    "bnext (merge m p a) h = (if h = p then q else bnext m h)"
    "bprev (merge m p a) h = (if h = q then p else bprev m h)"
    "zused (merge m p a) z = zused m z" "zrover (merge m p a) z = zrover m z"
    "zsize (merge m p a) z = zsize m z"
    "x < p \<or> p + 20 \<le> x \<Longrightarrow> x < q \<or> q + 20 \<le> x \<Longrightarrow> merge m p a x = m x"
proof -
  have q: "u32 q = q" using assms(6) by (auto simp: bnext_def ram_simps)
  have sym: "hsep x y \<Longrightarrow> hsep y x" for x y by (auto simp: hsep_def)
  note s = assms(1-8) assms(1-4) [THEN sym]
  show "bsize (merge m p a) h = (if h = p then bsize m p + bsize m a else bsize m h)"
    "btag (merge m p a) h = btag m h" "bid (merge m p a) h = bid m h"
    "bnext (merge m p a) h = (if h = p then q else bnext m h)"
    "bprev (merge m p a) h = (if h = q then p else bprev m h)"
    "zused (merge m p a) z = zused m z" "zrover (merge m p a) z = zrover m z"
    "zsize (merge m p a) z = zsize m z"
    "x < p \<or> p + 20 \<le> x \<Longrightarrow> x < q \<or> q + 20 \<le> x \<Longrightarrow> merge m p a x = m x"
    using s assms(9-) by (auto simp: merge_def Let_def ram_simps q set_outside)
qed

lemma heap_merge:
  assumes ok: "heap_ok m z (xs @ (p, s1, 0) # (a, s2, t2) # ys)"
  shows "heap_ok (merge m p a) z (xs @ (p, s1 + s2, 0) # ys)"
    "zused (merge m p a) z = zused m z" "zrover (merge m p a) z = zrover m z"
    "zsize (merge m p a) z = zsize m z"
    "(\<And>b. b \<in> insert (blocklist z) (set (addrs (xs @ (p, s1 + s2, 0) # ys))) \<Longrightarrow>
        x < b \<or> b + 20 \<le> x) \<Longrightarrow> merge m p a x = m x"
proof -
  let ?m = "merge m p a" and ?c = "blocklist z" and ?bs = "xs @ (p, s1, 0) # (a, s2, t2) # ys"
  note sep = heap_sep [OF ok] and sep2 = heap_sep [of m z "xs @ [(p, s1, 0)]" a s2 t2 ys]
  have t: "tiled (z + 32) ?bs (z + zsize m z)" and hdrs: "\<forall>b \<in> set ?bs. hdr_ok m b"
    and z: "0 < z" "z + zsize m z \<le> 2 ^ 32" and l: "links m (zring z ?bs)"
    using ok by (simp_all add: heap_ok_def)
  have t': "tiled (z + 32) (xs @ (p, s1 + s2, 0) # ys) (z + zsize m z)" and pa: "a = p + s1" "24 \<le> s1" "24 \<le> s2"
    using t by (auto simp: tiled_block add.assoc)
  have s: "bsize m p = s1" "btag m p = 0" "bid m p = ZONEID" "bsize m a = s2"
    using hdrs by (simp_all add: hdr_ok.simps)
  have lim: "s1 + s2 < 2 ^ 31"
    using tiled_sides(4) [OF t'] sep(5) rd_int_range [of m z] by (simp add: zsize_def)
  obtain q B where q: "addrs ys @ [?c] = q # B" by (cases "addrs ys @ [?c]") auto
  have ringq: "zring z ?bs = (?c # addrs xs) @ [p, a, q] @ B" using q by (simp add: zring_def)
  let ?H = "insert ?c (set (addrs (xs @ (p, s1, 0) # ys)))"
  have H: "h \<in> ?H \<Longrightarrow> h \<in> insert ?c (set (addrs ?bs))" for h by auto
  have pq: "p \<in> ?H" "q \<in> ?H" using q by (cases ys; auto)+
  have nq: "bnext m a = q" using l links_join [of m "?c # addrs xs @ [p]" a "q # B"] by (simp add: ringq)
  note hs = heap_hsep [OF ok]
  have ap: "hsep a p" "p \<noteq> a" using pa by (simp_all add: hsep_def)
  have nums: "0 \<le> p" "p < 2 ^ 32" "- (2 ^ 31) \<le> bsize m p + bsize m a" "bsize m p + bsize m a < 2 ^ 31"
    using sep(5,7) z lim pa(2,3) unfolding s(1,4) by simp_all
  note old = merge_fields [OF hs(1) [OF H H [OF pq(1)]] hs(1) [OF H H [OF pq(2)]]
      hs(1) [OF H [OF pq(1)] H [OF pq(2)]] ap nq hs(2) [OF H [OF pq(1)] H [OF pq(1)]]
      hs(2) [OF H [OF pq(2)] H [OF pq(2)]] nums]
  show zf: "zused ?m z = zused m z" "zrover ?m z = zrover m z" "zsize ?m z = zsize m z"
    using old(6,7,8) [OF pq(1) pq(1)] by simp_all
  have qx: "q = ?c \<or> q \<in> set (addrs ys)" using q by (cases ys; auto)
  have out: "?m x = m x" if "\<And>b. b \<in> insert ?c (set (addrs (xs @ (p, s1 + s2, 0) # ys))) \<Longrightarrow>
      x < b \<or> b + 20 \<le> x" for x
    using qx by (intro old(9) [OF pq(1) pq(1)] that) auto
  show "?m x = m x" if "\<And>b. b \<in> insert ?c (set (addrs (xs @ (p, s1 + s2, 0) # ys))) \<Longrightarrow>
      x < b \<or> b + 20 \<le> x"
    using that by (rule out)
  have mine: "hdr_ok ?m (p, s1 + s2, 0)"
    using old(1,2,3) [OF pq(1) pq(1)] s by (simp add: hdr_ok.simps)
  have "links ?m ((?c # addrs xs) @ [p, q] @ B)"
  proof (rule links_remove)
    show "links m ((?c # addrs xs) @ [p, a, q] @ B)" using l ringq by simp
    have sub: "set ((?c # addrs xs) @ [p, q] @ B) \<subseteq> ?H" using q by (auto; cases ys; auto)
    show "bnext ?m x = (if x = p then q else bnext m x)" "bprev ?m x = (if x = q then p else bprev m x)"
      if "x \<in> set ((?c # addrs xs) @ [p, q] @ B)" for x
      using old(4,5) [of x] sub that by auto
  qed (use ring_distinct [OF t' q] in auto)
  then have ring: "links ?m (zring z (xs @ [(p, s1 + s2, 0)] @ ys))"
    using q by (simp add: zring_def)
  have pc: "p \<noteq> ?c" using sep(5) by (simp add: blocklist_def)
  have "heap_ok ?m z (xs @ [(p, s1 + s2, 0)] @ ys)"
  proof (rule heap_rebuild [OF _ _ zf(3) _ _ _ ring])
    show "heap_ok m z (xs @ [(p, s1, 0), (a, s2, t2)] @ ys)" using ok by simp
    show "bsize ?m b = bsize m b \<and> btag ?m b = btag m b \<and> bid ?m b = bid m b"
      if "b \<in> insert ?c (set (addrs (xs @ ys)))" for b
      using that old(1,2,3) [of b] sep(8,9) [of b] pc pa by auto
    show "?m x = m x" if "\<And>b. b \<in> insert ?c (set (addrs (xs @ [(p, s1 + s2, 0)] @ ys))) \<Longrightarrow>
        x < b \<or> b + 20 \<le> x" for x
      using that by (intro out) auto
  qed (use pa mine in \<open>auto simp: add.assoc\<close>)
  then show "heap_ok ?m z (xs @ (p, s1 + s2, 0) # ys)" by simp
qed

end
