(* ===== verification/ZoneSafety.thy ===== *)
theory ZoneSafety
  imports ZoneBlocks
begin

text \<open>
  What the zone allocator promises: allocation takes the first block that fits, behind the
  rover, and fails only when no block fits; freeing joins neighbours; a program that writes
  only to its own allocations reads back what it has written and never sees an error.
\<close>

section \<open>A zone in order\<close>

fun no_two_free :: "blk list \<Rightarrow> bool" where
  "no_two_free ((a, s, t) # (b, u, v) # bs) \<longleftrightarrow> (t \<noteq> 0 \<or> v \<noteq> 0) \<and> no_two_free ((b, u, v) # bs)"
| "no_two_free bs \<longleftrightarrow> True"

fun used_of :: "blk list \<Rightarrow> int" where
  "used_of [] = 0"
| "used_of ((a, s, t) # bs) = (if t = 0 then 0 else s) + used_of bs"

definition zone_ok :: "ram \<Rightarrow> int \<Rightarrow> blk list \<Rightarrow> bool" where
  "zone_ok m z bs \<longleftrightarrow> heap_ok m z bs \<and> bs \<noteq> [] \<and> no_two_free bs \<and> zused m z = used_of bs
     \<and> zrover m z \<in> insert (blocklist z) (set (addrs bs))"

lemma used_of_append [simp]: "used_of (xs @ ys) = used_of xs + used_of ys"
  by (induction xs rule: used_of.induct) simp_all

lemma used_of_range: "tiled a bs e \<Longrightarrow> 0 \<le> used_of bs \<and> used_of bs \<le> e - a"
  by (induction bs arbitrary: a rule: used_of.induct) fastforce+

text \<open>Two neighbours in a list of blocks, of which at most one may be free.\<close>

definition last_used :: "blk list \<Rightarrow> bool" where
  "last_used bs \<longleftrightarrow> bs = [] \<or> snd (snd (last bs)) \<noteq> 0"

definition first_used :: "blk list \<Rightarrow> bool" where
  "first_used bs \<longleftrightarrow> bs = [] \<or> snd (snd (hd bs)) \<noteq> 0"

lemma no_blocks_used [simp]: "last_used []" "first_used []"
  by (simp_all add: last_used_def first_used_def)

lemma no_two_free_join:
  "no_two_free (xs @ ys) \<longleftrightarrow> no_two_free xs \<and> no_two_free ys \<and> (last_used xs \<or> first_used ys)"
proof (induction xs)
  case Nil
  then show ?case by (simp add: last_used_def)
next
  case (Cons x xs)
  obtain a s t where x: "x = (a, s, t)" by (cases x)
  show ?case
  proof (cases xs)
    case Nil
    then show ?thesis by (cases ys) (auto simp: x last_used_def first_used_def)
  next
    case (Cons y zs)
    then show ?thesis using Cons.IH by (cases y) (auto simp: x last_used_def)
  qed
qed

lemma no_two_free_at:
  "no_two_free (xs @ (a, s, t) # ys) \<longleftrightarrow>
     no_two_free xs \<and> no_two_free ys \<and> (t = 0 \<longrightarrow> last_used xs \<and> first_used ys)"
  using no_two_free_join [of xs "(a, s, t) # ys"] no_two_free_join [of "[(a, s, t)]" ys]
  by (auto simp: first_used_def last_used_def)

section \<open>The search\<close>

text \<open>A walk along the ring on which no two neighbours are free.\<close>

fun walk :: "ram \<Rightarrow> int list \<Rightarrow> bool" where
  "walk m (x # y # zs) \<longleftrightarrow> bnext m x = y \<and> (btag m x \<noteq> 0 \<or> btag m y \<noteq> 0) \<and> walk m (y # zs)"
| "walk m zs \<longleftrightarrow> True"

definition fits :: "ram \<Rightarrow> int \<Rightarrow> int \<Rightarrow> bool" where
  "fits m n b \<longleftrightarrow> btag m b = 0 \<and> n \<le> bsize m b"

lemma walk_join: "walk m (A @ x # B) \<longleftrightarrow> walk m (A @ [x]) \<and> walk m (x # B)"
proof (induction A)
  case (Cons y A)
  then show ?case by (cases A) auto
qed (cases B; simp)

lemma walk_prefix: "walk m (A @ B) \<Longrightarrow> walk m A"
proof (induction A)
  case (Cons x A)
  then show ?case by (cases A) auto
qed simp

lemma search_ring:
  "walk m (x # xs) \<Longrightarrow> distinct (x # xs) \<Longrightarrow> last (x # xs) = start \<Longrightarrow>
   btag m x \<noteq> 0 \<or> base = x \<Longrightarrow> xs = [] \<longrightarrow> \<not> fits m n x \<Longrightarrow>
   search m start n base x = Some (find (fits m n) (x # xs))"
proof (induction xs arbitrary: x base)
  case Nil
  then show ?case by (subst search.simps) simp
next
  case (Cons w ws)
  have x: "x \<noteq> start" "bnext m x = w" using Cons.prems by (auto split: if_splits)
  have step: "search m start n base x =
      (let b = (if btag m x \<noteq> 0 then w else x)
       in if fits m n b then Some (Some b) else search m start n b w)"
    using x Cons.prems(4) by (subst search.simps) (auto simp: Let_def fits_def)
  have rest: "search m start n b w = Some (find (fits m n) (w # ws))"
    if "btag m w \<noteq> 0 \<or> b = w" "ws = [] \<longrightarrow> \<not> fits m n w" for b
    using Cons.prems(1,2,3) that by (intro Cons.IH) (auto split: if_splits)
  show ?case
  proof (cases "btag m x = 0")
    case True
    then have w: "btag m w \<noteq> 0" using Cons.prems(1) by simp
    then have "\<not> fits m n w" by (simp add: fits_def)
    then show ?thesis using rest [of x] w True by (simp add: step)
  next
    case False
    then have "\<not> fits m n x" by (simp add: fits_def)
    then show ?thesis using rest [of w] False by (cases "fits m n w") (simp_all add: step)
  qed
qed

text \<open>The ring from the rover on, and the search through it.\<close>

definition from_rover :: "int \<Rightarrow> int \<Rightarrow> blk list \<Rightarrow> int list" where
  "from_rover r z bs =
     (let L = blocklist z # addrs bs
      in dropWhile (\<lambda>x. x \<noteq> r) L @ takeWhile (\<lambda>x. x \<noteq> r) L)"

lemma zone_walk:
  assumes "heap_ok m z bs" "no_two_free bs"
  shows "walk m (zring z bs)"
proof -
  have c: "btag m (blocklist z) \<noteq> 0" and l: "links m (blocklist z # addrs bs @ [blocklist z])"
    and h: "\<forall>b \<in> set bs. hdr_ok m b"
    using assms(1) by (simp_all add: heap_ok_def zring_def)
  have "walk m (x # addrs bs @ [blocklist z])"
    if "links m (x # addrs bs @ [blocklist z])" "\<forall>b \<in> set bs. hdr_ok m b" "no_two_free bs"
      "btag m x \<noteq> 0 \<or> first_used bs" for x
    using that
  proof (induction bs arbitrary: x)
    case Nil
    then show ?case using c by simp
  next
    case (Cons b bs)
    obtain a s t where b: "b = (a, s, t)" by (cases b)
    have "walk m (a # addrs bs @ [blocklist z])"
      using Cons.prems Cons.IH [of a] no_two_free_at [of "[]" a s t bs]
      by (auto simp: b hdr_ok.simps)
    then show ?case using Cons.prems by (auto simp: b hdr_ok.simps first_used_def)
  qed
  then show ?thesis using l h c assms(2) by (simp add: zring_def)
qed

lemma ring_nodes_distinct:
  assumes "heap_ok m z bs"
  shows "distinct (blocklist z # addrs bs)"
proof -
  have t: "tiled (z + 32) bs (z + zsize m z)" using assms by (simp add: heap_ok_def)
  have "tiled k bs e \<Longrightarrow> distinct (addrs bs) \<and> (\<forall>x \<in> set (addrs bs). k \<le> x)" for k e
  proof (induction bs arbitrary: k)
    case (Cons b bs)
    obtain a s v where b: "b = (a, s, v)" by (cases b)
    then show ?case using Cons.IH [of "a + s"] Cons.prems by (fastforce simp: b)
  qed simp
  from this [OF t] show ?thesis by (auto simp: blocklist_def)
qed

lemma search_zone:
  assumes ok: "zone_ok m z bs"
  shows "search m (bprev m (zrover m z)) n (zrover m z) (zrover m z) =
    Some (find (fits m n) (from_rover (zrover m z) z bs))"
proof -
  let ?c = "blocklist z" and ?r = "zrover m z"
  define us where "us = takeWhile (\<lambda>x. x \<noteq> ?r) (?c # addrs bs)"
  have h: "heap_ok m z bs" and two: "no_two_free bs" and ne: "bs \<noteq> []"
    and r: "?r \<in> set (?c # addrs bs)" using ok by (auto simp: zone_ok_def)
  obtain vs where vs: "dropWhile (\<lambda>x. x \<noteq> ?r) (?c # addrs bs) = ?r # vs"
    using r by (metis (mono_tags, lifting) dropWhile_eq_Nil_conv hd_dropWhile list.exhaust_sel)
  have L: "?c # addrs bs = us @ ?r # vs"
    using takeWhile_dropWhile_id [of "\<lambda>x. x \<noteq> ?r" "?c # addrs bs"] vs by (simp add: us_def)
  have w: "walk m ((us @ ?r # vs) @ [?c])" and l: "links m ((us @ ?r # vs) @ [?c])"
    using zone_walk [OF h two] h unfolding heap_ok_def L [symmetric] by (simp_all add: zring_def)
  have d: "distinct (us @ ?r # vs)" using ring_nodes_distinct [OF h] unfolding L [symmetric] .
  have ad: "addrs bs \<noteq> []" using ne by (simp add: addrs_def)
  have "search m (bprev m ?r) n ?r ?r = Some (find (fits m n) (?r # (vs @ us)))"
  proof (cases us)
    case Nil
    then have rc: "?r = ?c" "vs = addrs bs" using L by simp_all
    have "(?c # butlast vs) @ last vs # [?c] = ?c # vs @ [?c]" using ad rc by simp
    then have "links m ((?c # butlast vs) @ last vs # [?c])" using l rc by (simp only: Nil) simp
    then have "links m [last vs, ?c]" by (metis links_join)
    then have "bprev m ?c = last vs" by simp
    then show ?thesis
      using walk_prefix [OF w] d ad rc by (intro search_ring) (simp_all add: Nil)
  next
    case (Cons y us')
    then have y: "y = ?c" using L by simp
    have "walk m ((?r # vs) @ [?c])" "walk m (us)"
      using w walk_join [of m us ?r "vs @ [?c]"] walk_prefix [of m us "?r # vs @ [?c]"] by simp_all
    then have "walk m (?r # vs @ us)"
      using walk_join [of m "?r # vs" ?c us'] Cons y by simp
    moreover have "links m (butlast us @ last us # ?r # vs @ [?c])"
      using l append_butlast_last_id [of us] Cons by (metis append.assoc append_Cons append_Nil list.distinct(1))
    then have "links m (last us # ?r # vs @ [?c])" by (metis links_join)
    then have "bprev m ?r = last us" by simp
    ultimately show ?thesis
      using d Cons by (intro search_ring) auto
  qed
  moreover have "from_rover ?r z bs = ?r # (vs @ us)"
    by (simp only: from_rover_def Let_def vs us_def append_Cons)
  ultimately show ?thesis by (simp only:)
qed


lemma from_rover_set:
  "set (from_rover r z bs) = insert (blocklist z) (set (addrs bs))"
proof -
  have "set (dropWhile P L) \<union> set (takeWhile P L) = set L" for P and L :: "int list"
    by (metis set_append sup_commute takeWhile_dropWhile_id)
  then show ?thesis by (metis from_rover_def list.simps(15) set_append)
qed

text \<open>The sizes and tags of the blocks, read off the list.\<close>

lemma block_fields:
  "heap_ok m z bs \<Longrightarrow> (a, s, t) \<in> set bs \<Longrightarrow> bsize m a = s \<and> btag m a = t \<and> bid m a = ZONEID"
  by (auto simp: heap_ok_def hdr_ok.simps)

lemma fits_block:
  assumes "heap_ok m z bs" "a \<in> insert (blocklist z) (set (addrs bs))"
  shows "fits m n a \<longleftrightarrow> (\<exists>s. (a, s, 0) \<in> set bs \<and> n \<le> s)"
proof (cases "a \<in> set (addrs bs)")
  case True
  then obtain s t where "(a, s, t) \<in> set bs" using addrs_mem by blast
  then show ?thesis using block_fields [OF assms(1)] unfolding fits_def by metis
next
  case False
  then have "a = blocklist z" "(a, s, 0) \<notin> set bs" for s
    using assms(2) by (auto simp: addrs_def image_iff)
  then show ?thesis using assms(1) by (simp add: fits_def heap_ok_def)
qed

text \<open>The first fit in the order of the ring.\<close>

definition first_fit :: "int \<Rightarrow> int \<Rightarrow> blk list \<Rightarrow> int \<Rightarrow> int option" where
  "first_fit r z bs n = find (\<lambda>a. \<exists>b \<in> set bs. fst b = a \<and> snd (snd b) = 0 \<and> n \<le> fst (snd b)) (from_rover r z bs)"

lemma search_first_fit:
  assumes "zone_ok m z bs"
  shows "search m (bprev m (zrover m z)) n (zrover m z) (zrover m z) = Some (first_fit (zrover m z) z bs n)"
proof -
  have h: "heap_ok m z bs" using assms by (simp add: zone_ok_def)
  have "find (fits m n) (from_rover (zrover m z) z bs) = first_fit (zrover m z) z bs n"
    unfolding first_fit_def
    by (rule find_cong) (auto simp: fits_block [OF h] from_rover_set Bex_def)
  then show ?thesis using search_zone [OF assms] by simp
qed

lemma first_fit_cases:
  assumes "heap_ok m z bs"
  shows "first_fit r z bs n = None \<longleftrightarrow> (\<forall>(a, s, t) \<in> set bs. t = 0 \<longrightarrow> s < n)"
    "first_fit r z bs n = Some a \<Longrightarrow> \<exists>s. (a, s, 0) \<in> set bs \<and> n \<le> s"
proof -
  have "fst b \<in> insert (blocklist z) (set (addrs bs))" if "b \<in> set bs" for b
    using that by (simp add: addrs_def)
  then show "first_fit r z bs n = None \<longleftrightarrow> (\<forall>(a, s, t) \<in> set bs. t = 0 \<longrightarrow> s < n)"
    by (fastforce simp: first_fit_def find_None_iff from_rover_set)
  show "first_fit r z bs n = Some a \<Longrightarrow> \<exists>s. (a, s, 0) \<in> set bs \<and> n \<le> s"
    by (auto simp: first_fit_def find_Some_iff)
qed


section \<open>Taking a block\<close>

text \<open>The size that is asked for a request: the header, the marker and rounding up to four.\<close>

lemma block_size_eq:
  assumes "0 \<le> sz" "sz < 2 ^ 31 - 28"
  shows "block_size sz = (sz + 27) div 4 * 4" "24 \<le> block_size sz" "sz + 24 \<le> block_size sz"
proof -
  have and3: "x AND NOT 3 = x div 4 * 4" for x :: int
  proof -
    have "x AND NOT (mask 2) = push_bit 2 (drop_bit 2 x)"
    proof (rule bit_eqI)
      fix n
      show "bit (x AND NOT (mask 2)) n = bit (push_bit 2 (drop_bit 2 x)) n"
      proof (cases "2 \<le> n")
        case True
        then obtain k where "n = 2 + k" using le_Suc_ex by blast
        then show ?thesis
          by (simp add: bit_and_iff bit_not_iff bit_mask_iff bit_push_bit_iff bit_drop_bit_eq)
      qed (simp add: bit_and_iff bit_not_iff bit_mask_iff bit_push_bit_iff)
    qed
    moreover have "mask 2 = (3 :: int)" by (simp add: mask_eq_exp_minus_1)
    moreover have "x div 4 * 4 = push_bit 2 (drop_bit 2 x)"
      by (simp add: push_bit_eq_mult drop_bit_eq_div)
    ultimately show ?thesis by simp
  qed
  show e: "block_size sz = (sz + 27) div 4 * 4"
    using assms and3 [of "sz + 27"] by (simp add: block_size_def add.commute)
  show "24 \<le> block_size sz" "sz + 24 \<le> block_size sz" using assms(1) unfolding e by presburger+
qed

text \<open>What becomes of a free block that is taken.\<close>

definition taken :: "int \<Rightarrow> int \<Rightarrow> int \<Rightarrow> int \<Rightarrow> blk list" where
  "taken a s n tag = (if s - n > MINFRAGMENT then [(a, n, tag), (a + n, s - n, 0)] else [(a, s, tag)])"

text \<open>The bytes outside the zone and the contents of the other blocks stay the same.\<close>

definition others_same :: "ram \<Rightarrow> ram \<Rightarrow> int \<Rightarrow> blk list \<Rightarrow> bool" where
  "others_same m m' z bs \<longleftrightarrow> (\<forall>x. x < z \<or> z + zsize m z \<le> x \<longrightarrow> m' x = m x)
     \<and> (\<forall>(b, u, v) \<in> set bs. same_in m m' (b + 20) (b + u))"

lemma next_in_ring:
  assumes "heap_ok m z bs" "a \<in> insert (blocklist z) (set (addrs bs))"
  shows "bnext m a \<in> insert (blocklist z) (set (addrs bs))"
proof -
  obtain xs ys where xy: "blocklist z # addrs bs = xs @ a # ys"
    using assms(2) split_list [of a "blocklist z # addrs bs"] by auto
  have "links m (xs @ a # ys @ [blocklist z])"
    using assms(1) unfolding heap_ok_def zring_def append_Cons [symmetric] xy by simp
  then have l: "links m (a # ys @ [blocklist z])" by (metis links_join)
  have "set ys \<subseteq> insert (blocklist z) (set (addrs bs))" by (metis xy Un_iff list.set_intros(2) list.simps(15) set_append subsetI)
  then show ?thesis using l by (cases ys) auto
qed

text \<open>Only headers, the zone structure and the block itself are written.\<close>

lemma tiled_disjoint_mid:
  assumes "tiled k (xs @ mid @ ys) e" "b \<in> set mid"
  shows "b \<notin> set (xs @ ys)"
proof -
  obtain a s t where b: "b = (a, s, t)" by (cases b)
  obtain p q where mid: "mid = p @ b # q" using assms(2) split_list by metis
  have t: "tiled k ((xs @ p) @ (a, s, t) # (q @ ys)) e" using assms(1) by (simp add: mid b)
  have "(a, s, t) \<notin> set xs" "(a, s, t) \<notin> set ys"
    using tiled_sides(1,2) [OF t, of a s t] by auto
  then show ?thesis by (simp add: b)
qed

lemma others_same_outside:
  assumes t: "tiled (z + 32) (xs @ mid @ ys) (z + zsize m z)"
    and out: "\<And>x. (\<And>b. b \<in> insert (blocklist z) (set (addrs (xs @ mid @ ys))) \<Longrightarrow> x < b \<or> b + 20 \<le> x) \<Longrightarrow>
      x < z \<or> z + 32 \<le> x \<Longrightarrow> (\<And>b u v. (b, u, v) \<in> set mid \<Longrightarrow> x < b \<or> b + u \<le> x) \<Longrightarrow> m' x = m x"
  shows "others_same m m' z (xs @ ys)"
  unfolding others_same_def
proof (intro conjI allI impI ballI)
  let ?bs = "xs @ mid @ ys"
  have hdr: "z + 32 \<le> b \<and> b + 24 \<le> z + zsize m z" if b: "b \<in> set (addrs ?bs)" for b
  proof -
    obtain u v where "(b, u, v) \<in> set ?bs" using addrs_mem [OF b] by blast
    then show ?thesis using tiled_mem [OF t] by fastforce
  qed
  have zs: "z + 32 \<le> z + zsize m z" using tiled_le [OF t] .
  show "m' x = m x" if "x < z \<or> z + zsize m z \<le> x" for x
  proof (rule out)
    show "x < z \<or> z + 32 \<le> x" using that zs by auto
    fix b assume "b \<in> insert (blocklist z) (set (addrs ?bs))"
    then show "x < b \<or> b + 20 \<le> x" using that zs hdr [of b] by (auto simp: blocklist_def)
  next
    fix b u v assume "(b, u, v) \<in> set mid"
    then show "x < b \<or> b + u \<le> x" using that tiled_mem [OF t, of b u v] by auto
  qed
  fix w assume w: "w \<in> set (xs @ ys)"
  obtain b u v where b: "w = (b, u, v)" by (cases w)
  have bb: "(b, u, v) \<in> set ?bs" using w b by auto
  have "m' x = m x" if x: "b + 20 \<le> x \<and> x < b + u" for x
  proof (rule out)
    show "x < z \<or> z + 32 \<le> x" using x tiled_mem [OF t bb] by auto
    fix h assume "h \<in> insert (blocklist z) (set (addrs ?bs))"
    then consider "h = blocklist z" | w k where "(h, w, k) \<in> set ?bs" using addrs_mem by blast
    then show "x < h \<or> h + 20 \<le> x"
    proof cases
      case 1
      then show ?thesis using tiled_mem [OF t bb] x by (simp add: blocklist_def)
    next
      case 2
      then show ?thesis using tiled_apart [OF t bb 2] tiled_mem [OF t 2] x by auto
    qed
  next
    fix h k g assume "(h, k, g) \<in> set mid"
    moreover from this have "(h, k, g) \<noteq> (b, u, v)"
      using tiled_disjoint_mid [OF t] w b by auto
    ultimately show "x < h \<or> h + k \<le> x" using tiled_apart [OF t bb, of h k g] x by auto
  qed
  then show "case w of (b, u, v) \<Rightarrow> same_in m m' (b + 20) (b + u)" by (simp add: b same_in_def)
qed


lemma take_block_ok:
  assumes ok: "zone_ok m z (xs @ (a, s, 0) # ys)" and n: "24 \<le> n" "n \<le> s"
    and tag: "tag \<noteq> 0" "int_range tag" and k: "0 \<le> k" "k + 24 \<le> n"
    and m': "m' = fill (take_block m z a n tag) (a + 20) k 0"
  shows "zone_ok m' z (xs @ taken a s n tag @ ys)" "others_same m m' z (xs @ ys)"
    "\<And>i. 0 \<le> i \<Longrightarrow> i < k \<Longrightarrow> m' (a + 20 + i) = 0" "zsize m' z = zsize m z"
proof -
  let ?c = "blocklist z" and ?S = "s - n > MINFRAGMENT"
  have h: "heap_ok m z (xs @ (a, s, 0) # ys)" using ok by (simp add: zone_ok_def)
  note sep = heap_sep [OF h]
  have s: "bsize m a = s" and s31: "s < 2 ^ 31"
    using block_fields [OF h, of a s 0] rd_int_range [of m a] by (auto simp: bsize_def)
  define m1 where "m1 = (if ?S then split_block m a n (s - n) else m)"
  define w where "w = (if ?S then n else s)"
  define ys1 where "ys1 = (if ?S then (a + n, s - n, 0) # ys else ys)"
  have w: "24 \<le> w" "n \<le> w" "w \<le> s" using n by (auto simp: w_def)
  have split: "heap_ok m1 z (xs @ (a, w, 0) # ys1)" "zused m1 z = zused m z" "zsize m1 z = zsize m z"
    using h heap_split(1,2,4) [OF h, of n] n
    by (auto simp: m1_def w_def ys1_def MINFRAGMENT_def)
  note sep1 = heap_sep [OF split(1)]
  have wa: "bsize m1 a = w" using block_fields [OF split(1), of a w 0] by simp
  define m2 where "m2 = set_bid (set_zused (set_zrover (set_btag m1 a tag) z (bnext m1 a)) z (used_of (xs @ ys) + w)) a ZONEID"
  have room: "0 \<le> used_of (xs @ ys) + w \<and> used_of (xs @ ys) + w < 2 ^ 31"
  proof -
    have "tiled (z + 32) (xs @ (a, w, tag) # ys1) (z + zsize m z)"
      using split(1) by (simp add: heap_ok_def split(3) tiled_block)
    from used_of_range [OF this] have "0 \<le> used_of (xs @ ys) + w" "used_of (xs @ ys) + w \<le> zsize m z"
      using tag(1) by (auto simp: ys1_def split: if_splits)
    then show ?thesis using rd_int_range [of m z] by (simp add: zsize_def)
  qed
  have sr: "s32 (s - n) = s - n" "s32 tag = tag" using n s31 tag(2) by (simp_all add: int_range_def)
  have used: "s32 (zused m z + w) = used_of (xs @ ys) + w"
    using ok room by (simp add: zone_ok_def)
  have take: "take_block m z a n tag = wr4 m2 (a + w - 4) ZONEID"
    using sep1 by (simp add: take_block_def Let_def s sr m1_def [symmetric] ram_simps wa split used m2_def)
  have m'w: "m' = fill (wr4 m2 (a + w - 4) ZONEID) (a + 20) k 0" using m' take by simp
  have same: "m' x = m2 x" if "x < a + 20 \<or> a + w \<le> x" for x
    unfolding m'w using that k w by (subst fill_outside; (subst wr4_outside)?) auto
  have hdr: "same_in m2 m' a (a + 20)" "same_in m2 m' z (z + 32)"
    using same sep(5) by (auto simp: same_in_def)
  have fields: "btag m' a = tag" "bid m' a = ZONEID" "zused m' z = used_of (xs @ ys) + w"
      "zrover m' z = bnext m1 a"
    using sep1 room sr(2) by (simp_all add: fields_same_in [OF hdr(1)] zone_same_in [OF hdr(2)] m2_def
        ram_simps) (simp_all add: ZONEID_def bnext_def ram_simps)
  have mark: "rd_int m' (a + w - 4) = ZONEID"
  proof -
    have "rd4 m' (a + w - 4) = rd4 (wr4 m2 (a + w - 4) ZONEID) (a + w - 4)"
      unfolding m'w using k w by (intro rd4_cong fill_outside) auto
    then show ?thesis by (simp add: rd_int_def ram_simps wire_simps ZONEID_def)
  qed
  have same1: "m2 x = m1 x" if "\<not> (z + 4 \<le> x \<and> x < z + 8)" "\<not> (z + 28 \<le> x \<and> x < z + 32)"
      "\<not> (a + 4 \<le> x \<and> x < a + 8)" "\<not> (a + 16 \<le> x \<and> x < a + 20)" for x
    using that by (auto simp: m2_def field_defs wr4_def)
  have re: "heap_ok m' z (xs @ (a, w, tag) # ys1)" "zsize m' z = zsize m1 z"
  proof (atomize (full), rule conjI)
    note r = heap_retag [OF split(1), of m' tag]
    have "m' x = m1 x" if "\<not> (z + 4 \<le> x \<and> x < z + 8)" "\<not> (z + 28 \<le> x \<and> x < z + 32)"
      "\<not> (a + 4 \<le> x \<and> x < a + 8)" "\<not> (a + 16 \<le> x \<and> x < a + w)" for x
      using that same [of x] same1 [of x] w by auto
    then show "heap_ok m' z (xs @ (a, w, tag) # ys1)" "zsize m' z = zsize m1 z"
      using r fields(1,2) mark by auto
  qed
  then show "zsize m' z = zsize m z" by (simp add: split(3))
  have bs: "xs @ (a, w, tag) # ys1 = xs @ taken a s n tag @ ys"
    by (simp add: taken_def w_def ys1_def)
  have "no_two_free (xs @ taken a s n tag @ ys)"
    using ok tag(1) unfolding bs [symmetric] zone_ok_def no_two_free_at
    by (auto simp: ys1_def no_two_free_at [of "[]" _ _ _ ys, simplified])
  moreover have "bnext m1 a \<in> insert ?c (set (addrs (xs @ taken a s n tag @ ys)))"
    using next_in_ring [OF split(1), of a] unfolding bs [symmetric] by simp
  ultimately show "zone_ok m' z (xs @ taken a s n tag @ ys)"
    using re(1) fields(3,4) tag(1) unfolding bs [symmetric] zone_ok_def
    by (auto simp: ys1_def)
  show "m' (a + 20 + i) = 0" if "0 \<le> i" "i < k" for i
    using that by (simp add: m'w fill_def)
  have t: "tiled (z + 32) (xs @ taken a s n tag @ ys) (z + zsize m z)"
    using re(1) unfolding bs [symmetric] by (simp add: heap_ok_def re(2) split(3))
  show "others_same m m' z (xs @ ys)"
  proof (rule others_same_outside [OF t])
    fix x
    assume x: "\<And>b. b \<in> insert ?c (set (addrs (xs @ taken a s n tag @ ys))) \<Longrightarrow> x < b \<or> b + 20 \<le> x"
      "x < z \<or> z + 32 \<le> x" "\<And>b u v. (b, u, v) \<in> set (taken a s n tag) \<Longrightarrow> x < b \<or> b + u \<le> x"
    have aw: "x < a \<or> a + w \<le> x" using x(3) [of a w tag] by (auto simp: taken_def w_def)
    have "m1 x = m x"
    proof (cases ?S)
      case True
      then have "taken a s n tag = [(a, n, tag), (a + n, s - n, 0)]" by (simp add: taken_def)
      then show ?thesis
        using True heap_split(5) [OF h, of n x] n x(1) by (simp add: m1_def MINFRAGMENT_def)
    qed (simp add: m1_def)
    then show "m' x = m x" using same [of x] same1 [of x] aw w x(2) by auto
  qed
qed


section \<open>Freeing a block\<close>

fun join_prev :: "blk list \<Rightarrow> int \<Rightarrow> int \<Rightarrow> blk list \<times> int \<times> int" where
  "join_prev xs a s =
     (if xs \<noteq> [] \<and> snd (snd (last xs)) = 0
      then (butlast xs, fst (last xs), fst (snd (last xs)) + s) else (xs, a, s))"

fun join_next :: "int \<Rightarrow> blk list \<Rightarrow> int \<times> blk list" where
  "join_next s [] = (s, [])"
| "join_next s ((b, u, v) # ys) = (if v = 0 then (s + u, ys) else (s, (b, u, v) # ys))"

text \<open>The blocks after the one at \<open>a\<close> has been freed.\<close>

definition freed :: "blk list \<Rightarrow> int \<Rightarrow> int \<Rightarrow> blk list \<Rightarrow> blk list" where
  "freed xs a s ys =
     (let (xs1, a1, s1) = join_prev xs a s; (s2, ys1) = join_next s1 ys in xs1 @ (a1, s2, 0) # ys1)"

definition off_headers :: "int \<Rightarrow> blk list \<Rightarrow> int \<Rightarrow> bool" where
  "off_headers z bs x \<longleftrightarrow> (x < z \<or> z + 32 \<le> x)
     \<and> (\<forall>b \<in> insert (blocklist z) (set (addrs bs)). x < b \<or> b + 20 \<le> x)"

lemma links_last: "L \<noteq> [] \<Longrightarrow> links m (L @ R) \<Longrightarrow> links m (last L # R)"
proof (cases L rule: rev_cases)
  case (snoc A x)
  then show "links m (L @ R) \<Longrightarrow> links m (last L # R)" using links_join [of m A x R] by simp
qed simp

lemma prev_in_ring:
  assumes "heap_ok m z (xs @ (a, s, t) # ys)"
  shows "bprev m a = last (blocklist z # addrs xs)" "bnext m a = hd (addrs ys @ [blocklist z])"
proof -
  let ?L = "blocklist z # addrs xs"
  have l: "links m (?L @ a # addrs ys @ [blocklist z])" using assms by (simp add: heap_ok_def zring_def)
  obtain q B where q: "addrs ys @ [blocklist z] = q # B" by (cases "addrs ys @ [blocklist z]") auto
  have "links m (last ?L # a # q # B)" using links_last [OF _ l] unfolding q by blast
  then show "bprev m a = last ?L" "bnext m a = hd (addrs ys @ [blocklist z])"
    unfolding q by (simp_all only: links.simps list.sel)
qed

lemma merge_prev_ok:
  assumes ok: "heap_ok m z (xs @ (a, s, 0) # ys)" and j: "join_prev xs a s = (xs1, a1, s1)"
  shows "snd (merge_prev m z a) = a1"
    "heap_ok (fst (merge_prev m z a)) z (xs1 @ (a1, s1, 0) # ys)"
    "zused (fst (merge_prev m z a)) z = zused m z" "zsize (fst (merge_prev m z a)) z = zsize m z"
    "off_headers z (xs1 @ (a1, s1, 0) # ys) x \<Longrightarrow> fst (merge_prev m z a) x = m x"
proof -
  let ?r = "merge_prev m z a"
  have "snd ?r = a1 \<and> heap_ok (fst ?r) z (xs1 @ (a1, s1, 0) # ys) \<and> zused (fst ?r) z = zused m z
    \<and> zsize (fst ?r) z = zsize m z \<and> (off_headers z (xs1 @ (a1, s1, 0) # ys) x \<longrightarrow> fst ?r x = m x)"
  proof (cases "xs \<noteq> [] \<and> snd (snd (last xs)) = 0")
    case True
    obtain p u where p: "last xs = (p, u, 0)" using True by (cases "last xs") auto
    have xs: "xs = xs1 @ [(p, u, 0)]" and r: "a1 = p" "s1 = u + s"
      using True j p append_butlast_last_id [of xs] by auto
    have ok': "heap_ok m z (xs1 @ (p, u, 0) # (a, s, 0) # ys)" using ok by (simp add: xs)
    have pp: "bprev m a = p" using prev_in_ring [OF ok] by (simp add: xs)
    have "btag m p = 0" using block_fields [OF ok', of p u 0] by simp
    then have e: "?r = (if a = zrover (merge m p a) z then set_zrover (merge m p a) z p else merge m p a, p)"
      by (simp add: merge_prev_def pp Let_def)
    note mm = heap_merge [OF ok']
    show ?thesis
      using mm heap_rover_used(2) [OF mm(1)]
      by (auto simp: e r zone_set_zone off_headers_def set_outside)
  next
    case False
    then have r: "xs1 = xs" "a1 = a" "s1 = s" using j by auto
    have "btag m (bprev m a) \<noteq> 0"
    proof (cases "xs = []")
      case True
      then show ?thesis using prev_in_ring [OF ok] ok by (simp add: heap_ok_def)
    next
      case xs: False
      obtain p u t where p: "last xs = (p, u, t)" by (cases "last xs")
      have "bprev m a = p" using prev_in_ring [OF ok] xs p by (simp add: addrs_def last_map)
      moreover have "(p, u, t) \<in> set (xs @ (a, s, 0) # ys)" using last_in_set [OF xs] p by simp
      ultimately show ?thesis using block_fields [OF ok, of p u t] False xs p by simp
    qed
    then show ?thesis using ok by (simp add: merge_prev_def r Let_def)
  qed
  then show "snd ?r = a1" "heap_ok (fst ?r) z (xs1 @ (a1, s1, 0) # ys)" "zused (fst ?r) z = zused m z"
    "zsize (fst ?r) z = zsize m z" "off_headers z (xs1 @ (a1, s1, 0) # ys) x \<Longrightarrow> fst ?r x = m x"
    by auto
qed

lemma merge_next_ok:
  assumes ok: "heap_ok m z (xs @ (a, s, 0) # ys)" and j: "join_next s ys = (s1, ys1)" and r: "zrover m z = a"
  shows "heap_ok (merge_next m z a) z (xs @ (a, s1, 0) # ys1)"
    "zused (merge_next m z a) z = zused m z" "zrover (merge_next m z a) z = a"
    "zsize (merge_next m z a) z = zsize m z"
    "off_headers z (xs @ (a, s1, 0) # ys1) x \<Longrightarrow> merge_next m z a x = m x"
proof -
  let ?m = "merge_next m z a"
  have "heap_ok ?m z (xs @ (a, s1, 0) # ys1) \<and> zused ?m z = zused m z \<and> zrover ?m z = a
    \<and> zsize ?m z = zsize m z \<and> (off_headers z (xs @ (a, s1, 0) # ys1) x \<longrightarrow> ?m x = m x)"
  proof (cases "\<exists>b u ys'. ys = (b, u, 0) # ys'")
    case True
    then obtain b u where ys: "ys = (b, u, 0) # ys1" and s1: "s1 = s + u" using j by auto
    have ok': "heap_ok m z (xs @ (a, s, 0) # (b, u, 0) # ys1)" using ok by (simp add: ys)
    have nb: "bnext m a = b" using prev_in_ring [OF ok] by (simp add: ys)
    have "btag m b = 0" using block_fields [OF ok', of b u 0] by simp
    moreover have "b \<noteq> a" using heap_sep(6) [OF ok] heap_sep(9) [OF ok, of b] by (auto simp: ys)
    ultimately have "?m = merge m a b"
      using heap_merge(3) [OF ok'] r by (simp add: merge_next_def nb Let_def)
    then show ?thesis using heap_merge [OF ok'] r by (auto simp: s1 off_headers_def)
  next
    case False
    then have e: "s1 = s" "ys1 = ys" using j by (cases ys; auto split: if_splits)+
    have "btag m (bnext m a) \<noteq> 0"
    proof (cases ys)
      case Nil
      then show ?thesis using prev_in_ring [OF ok] ok by (simp add: heap_ok_def)
    next
      case (Cons y zs)
      obtain b u v where y: "y = (b, u, v)" by (cases y)
      then show ?thesis
        using prev_in_ring [OF ok] block_fields [OF ok, of b u v] False Cons by auto
    qed
    then show ?thesis using ok r by (simp add: merge_next_def e Let_def)
  qed
  then show "heap_ok ?m z (xs @ (a, s1, 0) # ys1)" "zused ?m z = zused m z" "zrover ?m z = a"
    "zsize ?m z = zsize m z" "off_headers z (xs @ (a, s1, 0) # ys1) x \<Longrightarrow> ?m x = m x"
    by auto
qed


text \<open>The header of a swallowed block keeps its tag and its id.\<close>

lemma merge_keeps:
  assumes "hsep p h" "hsep (bnext m b) h" "hsep b p"
  shows "btag (merge m p b) h = btag m h" "bid (merge m p b) h = bid m h"
proof -
  have "hsep p b" using assms(3) by (auto simp: hsep_def)
  then show "btag (merge m p b) h = btag m h" "bid (merge m p b) h = bid m h"
    using assms by (simp_all add: merge_def Let_def ram_simps)
      (simp_all add: bnext_def ram_simps)
qed

lemma merge_prev_keeps:
  assumes "hsep (bprev m b) h" "hsep (bnext m b) h" "hsep b (bprev m b)" "zsep z h"
  shows "btag (fst (merge_prev m z b)) h = btag m h" "bid (fst (merge_prev m z b)) h = bid m h"
  using merge_keeps [OF assms(1,2,3)] assms(4) by (simp_all add: merge_prev_def Let_def ram_simps)

lemma merge_next_keeps:
  assumes "hsep b h" "hsep (bnext m (bnext m b)) h" "hsep (bnext m b) b" "zsep z h"
  shows "btag (merge_next m z b) h = btag m h" "bid (merge_next m z b) h = bid m h"
  using merge_keeps [OF assms(1,2,3)] assms(4) by (simp_all add: merge_next_def Let_def ram_simps)

lemma join_addrs:
  assumes "join_prev xs a s = (xs1, a1, s1)" "join_next s1 ys = (s2, ys1)"
  shows "set (addrs (xs1 @ (a1, s1, 0) # ys)) \<subseteq> set (addrs (xs @ (a, s, t) # ys))"
    "set (addrs (xs1 @ (a1, s2, 0) # ys1)) \<subseteq> set (addrs (xs @ (a, s, t) # ys))"
    "a1 \<in> set (addrs (xs @ (a, s, t) # ys))"
proof -
  have x: "set (addrs xs1) \<subseteq> set (addrs xs) \<and> (a1 = a \<or> a1 \<in> set (addrs xs))"
    using assms(1) by (auto simp: addrs_def split: if_splits dest: in_set_butlastD)
  moreover have "set (addrs ys1) \<subseteq> set (addrs ys)"
    using assms(2) by (cases "(s1, ys)" rule: join_next.cases) (auto split: if_splits)
  ultimately show "set (addrs (xs1 @ (a1, s1, 0) # ys)) \<subseteq> set (addrs (xs @ (a, s, t) # ys))"
    "set (addrs (xs1 @ (a1, s2, 0) # ys1)) \<subseteq> set (addrs (xs @ (a, s, t) # ys))"
    "a1 \<in> set (addrs (xs @ (a, s, t) # ys))" by auto
qed

lemma join_used:
  assumes "no_two_free (xs @ (a, s, t) # ys)" "t \<noteq> 0" "join_prev xs a s = (xs1, a1, s1)"
    "join_next s1 ys = (s2, ys1)"
  shows "no_two_free (xs1 @ (a1, s2, 0) # ys1)" "used_of (xs1 @ (a1, s2, 0) # ys1) = used_of xs + used_of ys"
proof -
  have n: "no_two_free xs" "no_two_free ys" using assms(1) by (simp_all add: no_two_free_at)
  have x: "no_two_free xs1 \<and> last_used xs1 \<and> used_of xs1 = used_of xs"
  proof (cases "xs \<noteq> [] \<and> snd (snd (last xs)) = 0")
    case True
    then obtain p u where xs: "xs = butlast xs @ [(p, u, 0)]"
      by (metis append_butlast_last_id prod.collapse)
    have "no_two_free (butlast xs) \<and> last_used (butlast xs) \<and> used_of (butlast xs) = used_of xs"
      using n(1) no_two_free_at [of "butlast xs" p u 0 "[]"] used_of_append [of "butlast xs" "[(p, u, 0)]"]
      unfolding xs [symmetric] by simp
    then show ?thesis using True assms(3) by auto
  next
    case False
    then show ?thesis using n assms(3) by (auto simp: last_used_def)
  qed
  have y: "no_two_free ys1 \<and> first_used ys1 \<and> used_of ys1 = used_of ys"
  proof (cases ys)
    case (Cons y zs)
    obtain b u v where y: "y = (b, u, v)" by (cases y)
    then show ?thesis
      using n(2) assms(4) Cons no_two_free_at [of "[]" b u v zs]
      by (auto simp: first_used_def split: if_splits)
  qed (use assms(4) in simp)
  show "no_two_free (xs1 @ (a1, s2, 0) # ys1)" "used_of (xs1 @ (a1, s2, 0) # ys1) = used_of xs + used_of ys"
    using x y by (simp_all add: no_two_free_at)
qed


lemma Z_Free_block:
  assumes ok: "zone_ok (ram st) z (xs @ (a, s, t) # ys)" and t: "t \<noteq> 0" "t \<noteq> TAG_STATIC"
    and z: "z = (if t = TAG_SMALL then smallzone st else mainzone st)"
  shows "\<exists>m'. Z_Free st (a + 20) = Inr (st\<lparr>ram := m'\<rparr>) \<and> zone_ok m' z (freed xs a s ys)
    \<and> zsize m' z = zsize (ram st) z \<and> others_same (ram st) m' z (xs @ ys)
    \<and> btag m' a = 0 \<and> bid m' a = ZONEID \<and> zrover m' z = fst (snd (join_prev xs a s))"
proof -
  define m where "m = ram st"
  have ok: "zone_ok m z (xs @ (a, s, t) # ys)" using ok by (simp add: m_def)
  then have h: "heap_ok m z (xs @ (a, s, t) # ys)" and two: "no_two_free (xs @ (a, s, t) # ys)"
    and us: "zused m z = used_of xs + s + used_of ys" using t(1) by (simp_all add: zone_ok_def)
  note sep = heap_sep [OF h]
  have f: "bsize m a = s" "btag m a = t" "bid m a = ZONEID" using block_fields [OF h, of a s t] by simp_all
  have mark: "rd_int m (a + s - 4) = ZONEID" using h t(1) by (simp add: heap_ok_def hdr_ok.simps)
  define u where "u = used_of xs + used_of ys"
  define m1 where "m1 = set_btag (fill (set_zused m z u) (a + 20) (s - 20) 0xaa) a 0"
  have tl: "tiled (z + 32) (xs @ (a, s, t) # ys) (z + zsize m z)" using h by (simp add: heap_ok_def)
  have u: "u = s32 (zused m z - s)" "0 \<le> u" "u < 2 ^ 31"
    using used_of_range [of "z + 32" xs a] used_of_range [of "a + s" ys "z + zsize m z"] tl sep(5,6)
      rd_int_range [of m z] by (simp_all add: us u_def tiled_block zsize_def)
  have same1: "m1 x = m x" if "\<not> (z + 4 \<le> x \<and> x < z + 8)" "\<not> (a + 4 \<le> x \<and> x < a + 8)"
      "\<not> (a + 16 \<le> x \<and> x < a + s)" for x
    using that by (auto simp: m1_def field_defs wr4_def fill_def)
  have zf: "zused m1 z = u"
  proof -
    have "same_in (set_zused m z u) m1 z (z + 32)"
      using sep(5) by (auto simp: same_in_def m1_def fill_def set_outside)
    then show ?thesis using u by (simp add: zone_same_in ram_simps)
  qed
  have "bid m1 a = bid (set_zused m z u) a"
  proof -
    have "same_in (set_zused m z u) m1 (a + 16) (a + 20)"
      by (auto simp: same_in_def m1_def field_defs wr4_def fill_def)
    then show ?thesis using rd_same_in(1) [of _ _ "a + 16" "a + 20" "a + 16"] by (simp add: bid_def)
  qed
  then have f1: "btag m1 a = 0" "bid m1 a = ZONEID" using f(3) sep(3) by (simp_all add: m1_def ram_simps)
  have h1: "heap_ok m1 z (xs @ (a, s, 0) # ys)" "zsize m1 z = zsize m z"
    using heap_retag [OF h, of m1 0] same1 f1 by auto
  obtain xs1 a1 s1 where jp: "join_prev xs a s = (xs1, a1, s1)" by (cases "join_prev xs a s") auto
  obtain s2 ys1 where jn: "join_next s1 ys = (s2, ys1)" by (cases "join_next s1 ys") auto
  note adr = join_addrs [OF jp jn, of 0]
  note P = merge_prev_ok [OF h1(1) jp]
  define m2 where "m2 = set_zrover (fst (merge_prev m1 z a)) z a1"
  have h2: "heap_ok m2 z (xs1 @ (a1, s1, 0) # ys)" using heap_rover_used(2) [OF P(2)] by (simp add: m2_def)
  have "0 \<le> a1 \<and> a1 < 2 ^ 32" using heap_sep(5,6,7) [OF h2] h2 by (auto simp: heap_ok_def)
  then have z2: "zrover m2 z = a1" "zused m2 z = u" "zsize m2 z = zsize m z"
    using P(3,4) zf h1(2) by (simp_all add: m2_def ram_simps)
  define m3 where "m3 = merge_next m2 z a1"
  note N = merge_next_ok [OF h2 jn z2(1), folded m3_def]
  have run: "Z_Free st (a + 20) = Inr (st\<lparr>ram := m3\<rparr>)"
  proof -
    have e: "s32 (zused m z - s) = u" and b: "bsize (set_zused m z u) a = s"
      using u(1) f(1) sep(3) by (simp_all add: ram_simps)
    have "a + 20 \<noteq> 0" using sep(5) h by (simp add: heap_ok_def)
    then show ?thesis
      using t sep(6) by (simp add: Z_Free_def m_def [symmetric] Let_def z [symmetric] f mark e b
          m1_def [symmetric] case_prod_beta P(1) m2_def [symmetric] m3_def)
  qed
  have "freed xs a s ys = xs1 @ (a1, s2, 0) # ys1"
    by (simp only: freed_def jp jn Let_def prod.case)
  then have "zone_ok m3 z (freed xs a s ys)"
    using N join_used [OF two t(1) jp jn] z2(2) by (simp add: zone_ok_def u_def)
  moreover have "others_same m m3 z (xs @ ys)"
  proof (rule others_same_outside [of z xs "[(a, s, t)]"])
    show "tiled (z + 32) (xs @ [(a, s, t)] @ ys) (z + zsize m z)" using tl by simp
    fix x assume x: "\<And>b. b \<in> insert (blocklist z) (set (addrs (xs @ [(a, s, t)] @ ys))) \<Longrightarrow> x < b \<or> b + 20 \<le> x"
      "x < z \<or> z + 32 \<le> x" "\<And>b u v. (b, u, v) \<in> set [(a, s, t)] \<Longrightarrow> x < b \<or> b + u \<le> x"
    have o: "off_headers z (xs @ (a, s, 0) # ys) x" using x(1,2) by (auto simp: off_headers_def)
    then have o1: "off_headers z (xs1 @ (a1, s1, 0) # ys) x" "off_headers z (xs1 @ (a1, s2, 0) # ys1) x"
      using adr by (auto simp: off_headers_def)
    have "m3 x = m2 x" using N(5) o1(2) .
    also have "\<dots> = fst (merge_prev m1 z a) x" using x(2) by (simp add: m2_def set_outside)
    also have "\<dots> = m1 x" using P(5) o1(1) .
    also have "\<dots> = m x" using x(2) x(3) [of a s t] sep(6) by (intro same1) auto
    finally show "m3 x = m x" .
  qed
  moreover have "btag m3 a = 0 \<and> bid m3 a = ZONEID"
  proof -
    let ?H = "insert (blocklist z) (set (addrs (xs @ (a, s, 0) # ys)))"
    have aH: "a \<in> ?H" by simp
    note hs = heap_hsep [OF h1(1)]
    have b1: "bprev m1 a \<in> ?H" "bnext m1 a \<in> ?H"
      using prev_in_ring [OF h1(1)] next_in_ring [OF h1(1) aH] by auto
    have "a1 \<in> insert (blocklist z) (set (addrs (xs1 @ (a1, s1, 0) # ys)))" by simp
    note n1 = next_in_ring [OF h2 this]
    have b2: "bnext m2 a1 \<in> ?H" "bnext m2 (bnext m2 a1) \<in> ?H" "a1 \<in> ?H"
      using n1 next_in_ring [OF h2 n1] adr(1,3) by blast+
    have "btag m2 a = btag m1 a \<and> bid m2 a = bid m1 a"
      using merge_prev_keeps [of m1 a a z] hs(1) [OF b1(1) aH] hs(1) [OF b1(2) aH] hs(1) [OF aH b1(1)]
        hs(2) [OF aH aH] by (simp add: m2_def ram_simps)
    moreover have "btag m3 a = btag m2 a \<and> bid m3 a = bid m2 a"
      using merge_next_keeps [of a1 a m2 z] hs(1) [OF b2(3) aH] hs(1) [OF b2(2) aH] hs(1) [OF b2(1) b2(3)]
        hs(2) [OF aH aH] by (simp add: m3_def)
    ultimately show ?thesis using f1 by simp
  qed
  moreover have "zrover m3 z = fst (snd (join_prev xs a s))" unfolding jp using N(3) by simp
  ultimately show ?thesis using run N(4) z2(3) by (auto simp: m_def)
qed

end
