(* ===== verification/ZoneSystem.thy ===== *)
theory ZoneSystem
  imports ZoneSafety
begin

text \<open>
  The two zones and the program that uses them: a program that allocates, frees and writes to
  its own allocations.  The state of such a program is the memory and, for every pointer it
  holds, the bytes it has put there.
\<close>

section \<open>Two zones\<close>

lemma zone_ok_cong:
  assumes ok: "zone_ok m z bs" and same: "same_in m m' z (z + zsize m z)"
  shows "zone_ok m' z bs" "zsize m' z = zsize m z"
proof -
  have h: "heap_ok m z bs" using ok by (simp add: zone_ok_def)
  have t: "tiled (z + 32) bs (z + zsize m z)" using h by (simp add: heap_ok_def)
  have zin: "same_in m m' z (z + 32)" using same tiled_le [OF t] by (simp add: same_in_def)
  have parts: "same_in m m' z (z + 4)" "same_in m m' (z + 8) (z + 28)" "same_in m m' (z + 32) (z + zsize m z)"
    using zin same by (simp_all add: same_in_def)
  show "zone_ok m' z bs"
    using ok heap_cong(1) [OF h parts] by (simp add: zone_ok_def zone_same_in [OF zin])
  show "zsize m' z = zsize m z" by (rule zone_same_in(1) [OF zin])
qed

definition pair_ok :: "ram \<Rightarrow> int \<Rightarrow> blk list \<Rightarrow> int \<Rightarrow> blk list \<Rightarrow> bool" where
  "pair_ok m z1 b1 z2 b2 \<longleftrightarrow> zone_ok m z1 b1 \<and> zone_ok m z2 b2
     \<and> (z1 + zsize m z1 \<le> z2 \<or> z2 + zsize m z2 \<le> z1)"

lemma pair_ok_sym: "pair_ok m z1 b1 z2 b2 \<longleftrightarrow> pair_ok m z2 b2 z1 b1"
  by (auto simp: pair_ok_def)

text \<open>What a program holds: every pointer leads to a block in use, whose first bytes are known.\<close>

definition holds_at :: "ram \<Rightarrow> int \<Rightarrow> bytes \<Rightarrow> bool" where
  "holds_at m p cs \<longleftrightarrow> (\<forall>i < length cs. m (p + int i) = cs ! i)"

definition live_ok :: "ram \<Rightarrow> (int \<Rightarrow> bytes option) \<Rightarrow> blk set \<Rightarrow> bool" where
  "live_ok m live B \<longleftrightarrow> (\<forall>p cs. live p = Some cs \<longrightarrow> holds_at m p cs
     \<and> (\<exists>a s t. (a, s, t) \<in> B \<and> p = a + 20 \<and> t \<noteq> 0 \<and> int (length cs) + 24 \<le> s))"

lemma holds_at_cong:
  "holds_at m p cs \<Longrightarrow> same_in m m' p (p + int (length cs)) \<Longrightarrow> holds_at m' p cs"
  by (simp add: holds_at_def same_in_def)

lemma pair_block:
  assumes "pair_ok m z1 b1 z2 b2" "(a, s, t) \<in> set b1 \<union> set b2"
  shows "bsize m a = s \<and> btag m a = t" "24 \<le> s"
  using assms block_fields [of m z1 b1 a s t] block_fields [of m z2 b2 a s t]
    tiled_mem [of "z1 + 32" b1 "z1 + zsize m z1" a s t] tiled_mem [of "z2 + 32" b2 "z2 + zsize m z2" a s t]
  by (auto simp: pair_ok_def zone_ok_def heap_ok_def)

lemma pair_unique:
  assumes "pair_ok m z1 b1 z2 b2" "(a, s, t) \<in> set b1 \<union> set b2" "(a, s', t') \<in> set b1 \<union> set b2"
  shows "s = s' \<and> t = t'"
  using pair_block(1) [OF assms(1,2)] pair_block(1) [OF assms(1,3)] by simp

lemma pair_apart:
  assumes ok: "pair_ok m z1 b1 z2 b2" and a: "(a, s, t) \<in> set b1 \<union> set b2" and b: "(b, u, v) \<in> set b1 \<union> set b2"
  shows "a = b \<or> a + s \<le> b \<or> b + u \<le> a"
proof -
  have t: "tiled (z1 + 32) b1 (z1 + zsize m z1)" "tiled (z2 + 32) b2 (z2 + zsize m z2)"
    and d: "z1 + zsize m z1 \<le> z2 \<or> z2 + zsize m z2 \<le> z1"
    using ok by (auto simp: pair_ok_def zone_ok_def heap_ok_def)
  consider "(a, s, t) \<in> set b1 \<and> (b, u, v) \<in> set b1" | "(a, s, t) \<in> set b2 \<and> (b, u, v) \<in> set b2"
    | "(a, s, t) \<in> set b1 \<and> (b, u, v) \<in> set b2" | "(a, s, t) \<in> set b2 \<and> (b, u, v) \<in> set b1"
    using a b by blast
  then show ?thesis
  proof cases
    case 1
    then show ?thesis using tiled_apart [OF t(1)] by fastforce
  next
    case 2
    then show ?thesis using tiled_apart [OF t(2)] by fastforce
  next
    case 3
    then show ?thesis using tiled_mem [OF t(1)] tiled_mem [OF t(2)] d by fastforce
  next
    case 4
    then show ?thesis using tiled_mem [OF t(1)] tiled_mem [OF t(2)] d by fastforce
  qed
qed

text \<open>A change of one zone that keeps the contents of its other blocks.\<close>

lemma pair_change:
  assumes ok: "pair_ok m z1 b1 z2 b2" and new: "zone_ok m' z1 b1'" "zsize m' z1 = zsize m z1"
    and same: "others_same m m' z1 rest"
  shows "pair_ok m' z1 b1' z2 b2"
    "(b, u, v) \<in> set rest \<union> set b2 \<Longrightarrow> same_in m m' (b + 20) (b + u)"
proof -
  have t2: "tiled (z2 + 32) b2 (z2 + zsize m z2)" and z2: "zone_ok m z2 b2"
    using ok by (simp_all add: pair_ok_def zone_ok_def heap_ok_def)
  have in2: "same_in m m' z2 (z2 + zsize m z2)"
    using ok same by (auto simp: pair_ok_def others_same_def same_in_def)
  show "pair_ok m' z1 b1' z2 b2"
    using ok new zone_ok_cong [OF z2 in2] by (auto simp: pair_ok_def)
  show "same_in m m' (b + 20) (b + u)" if "(b, u, v) \<in> set rest \<union> set b2"
    using that same in2 tiled_mem [OF t2, of b u v] by (auto simp: others_same_def same_in_def)
qed

lemma live_change:
  assumes "live_ok m live B" and "\<And>a s t p cs. live' p = Some cs \<Longrightarrow> live p = Some cs \<Longrightarrow>
    (a, s, t) \<in> B \<Longrightarrow> p = a + 20 \<Longrightarrow> t \<noteq> 0 \<Longrightarrow> (a, s, t) \<in> B' \<and> same_in m m' (a + 20) (a + s)"
    and "\<And>p cs. live' p = Some cs \<Longrightarrow> live p \<noteq> Some cs \<Longrightarrow> holds_at m' p cs
     \<and> (\<exists>a s t. (a, s, t) \<in> B' \<and> p = a + 20 \<and> t \<noteq> 0 \<and> int (length cs) + 24 \<le> s)"
  shows "live_ok m' live' B'"
  unfolding live_ok_def
proof (intro allI impI)
  fix p cs assume l: "live' p = Some cs"
  show "holds_at m' p cs \<and> (\<exists>a s t. (a, s, t) \<in> B' \<and> p = a + 20 \<and> t \<noteq> 0 \<and> int (length cs) + 24 \<le> s)"
  proof (cases "live p = Some cs")
    case True
    then obtain a s t where o: "holds_at m p cs" "(a, s, t) \<in> B" "p = a + 20" "t \<noteq> 0" "int (length cs) + 24 \<le> s"
      using assms(1) unfolding live_ok_def by blast
    have n: "(a, s, t) \<in> B'" "same_in m m' (a + 20) (a + s)" using assms(2) [OF l True o(2,3,4)] by simp_all
    have "same_in m m' p (p + int (length cs))" using n(2) o(3,5) by (simp add: same_in_def)
    then show ?thesis using holds_at_cong [OF o(1)] n(1) o(3,4,5) by blast
  qed (use l assms(3) in blast)
qed

section \<open>Initialisation and the heap check\<close>

lemma Z_ClearZone_ok:
  assumes "0 < z" "56 \<le> sz" "sz < 2 ^ 31" "z + sz \<le> 2 ^ 32"
  shows "zone_ok (Z_ClearZone m z sz) z [(z + 32, sz - 32, 0)]" "zsize (Z_ClearZone m z sz) z = sz"
    "x < z \<or> z + sz \<le> x \<Longrightarrow> Z_ClearZone m z sz x = m x"
proof -
  let ?c = "blocklist z" and ?b = "z + 32"
  have sep: "hsep ?c ?b" "hsep ?b ?c" "zsep z ?c" "zsep z ?b" "?c \<noteq> ?b" "?b \<noteq> ?c"
    by (simp_all add: hsep_def zsep_def blocklist_def)
  have num: "u32 ?c = ?c" "u32 ?b = ?b" "s32 sz = sz" "s32 (sz - 32) = sz - 32"
    using assms by (simp_all add: blocklist_def)
  show zs: "zsize (Z_ClearZone m z sz) z = sz"
    using sep by (simp add: Z_ClearZone_def Let_def ram_simps num)
  show "zone_ok (Z_ClearZone m z sz) z [(z + 32, sz - 32, 0)]"
    unfolding zone_ok_def heap_ok_def zs
    using sep assms
    by (simp add: Z_ClearZone_def Let_def ram_simps num hdr_ok.simps zring_def ZONEID_def)
  assume "x < z \<or> z + sz \<le> x"
  then have "x < z \<or> z + 32 \<le> x" "x < ?c \<or> ?c + 20 \<le> x" "x < ?b \<or> ?b + 20 \<le> x"
    using assms(2) by (auto simp: blocklist_def)
  then show "Z_ClearZone m z sz x = m x"
    by (simp add: Z_ClearZone_def Let_def set_outside)
qed

lemma check_from_ok:
  "heap_ok m z (xs @ (a, s, t) # ys) \<Longrightarrow> no_two_free ((a, s, t) # ys) \<Longrightarrow>
   check_from m z a = Some (Inr ())"
proof (induction ys arbitrary: xs a s t)
  case Nil
  then show ?case using prev_in_ring(2) [OF Nil.prems(1)] by (subst check_from.simps) simp
next
  case (Cons y ys)
  obtain b u v where y: "y = (b, u, v)" by (cases y)
  have h: "heap_ok m z ((xs @ [(a, s, t)]) @ (b, u, v) # ys)" using Cons.prems(1) by (simp add: y)
  have n: "bnext m a = b" "bprev m b = a"
    using prev_in_ring [OF Cons.prems(1)] prev_in_ring [OF h] by (simp_all add: y)
  have ab: "b = a + s" using h by (auto simp: heap_ok_def tiled_append)
  have "b \<noteq> blocklist z" using heap_sep(5) [OF h] by (simp add: blocklist_def)
  moreover have "bsize m a = s" "btag m a = t" "btag m b = v"
    using block_fields [OF h, of a s t] block_fields [OF h, of b u v] by simp_all
  moreover have "check_from m z b = Some (Inr ())"
    using Cons.IH [OF h] Cons.prems(2) by (simp add: y)
  ultimately show ?case
    using n ab Cons.prems(2) by (subst check_from.simps) (simp add: y)
qed

lemma Z_CheckHeap_ok:
  assumes "zone_ok (ram st) (mainzone st) bs"
  shows "Z_CheckHeap st = Some (Inr ())"
proof -
  obtain b bs' where bs: "bs = b # bs'" using assms by (cases bs) (auto simp: zone_ok_def)
  obtain a s t where b: "b = (a, s, t)" by (cases b)
  have h: "heap_ok (ram st) (mainzone st) ([] @ (a, s, t) # bs')" "no_two_free ((a, s, t) # bs')"
    using assms by (simp_all add: zone_ok_def bs b)
  have "bnext (ram st) (blocklist (mainzone st)) = a"
    using h(1) by (simp add: heap_ok_def zring_def)
  then show ?thesis using check_from_ok [OF h] by (simp add: Z_CheckHeap_def)
qed


section \<open>Allocating and freeing in the two zones\<close>

definition zone_of :: "zones \<Rightarrow> int \<Rightarrow> int" where
  "zone_of st tag = (if tag = TAG_SMALL then smallzone st else mainzone st)"

definition small_tags :: "blk list \<Rightarrow> bool" where
  "small_tags bs \<longleftrightarrow> (\<forall>(a, s, t) \<in> set bs. t = 0 \<or> t = TAG_SMALL)"

definition main_tags :: "blk list \<Rightarrow> bool" where
  "main_tags bs \<longleftrightarrow> (\<forall>(a, s, t) \<in> set bs. t \<noteq> TAG_SMALL)"

definition zones_ok :: "zones \<Rightarrow> blk list \<Rightarrow> blk list \<Rightarrow> bool" where
  "zones_ok st bm bs \<longleftrightarrow> pair_ok (ram st) (mainzone st) bm (smallzone st) bs \<and> main_tags bm \<and> small_tags bs"

definition blocks_of :: "int \<Rightarrow> blk list \<Rightarrow> blk list \<Rightarrow> blk list" where
  "blocks_of tag bm bs = (if tag = TAG_SMALL then bs else bm)"

lemma zones_ok_zone: "zones_ok st bm bs \<Longrightarrow> zone_ok (ram st) (zone_of st tag) (blocks_of tag bm bs)"
  by (simp add: zones_ok_def pair_ok_def zone_of_def blocks_of_def)

text \<open>
  \<open>alloc_result st z bl n tag r\<close>: what an allocation from zone \<open>z\<close> with the blocks \<open>bl\<close> does.
  The block taken is the first one that fits, from the rover on; the memory returned is zero,
  and nothing else changes outside of the headers of the zone.
\<close>

definition alloc_result ::
  "zones \<Rightarrow> int \<Rightarrow> blk list \<Rightarrow> int \<Rightarrow> int \<Rightarrow> (fault + zones \<times> int) option \<Rightarrow> bool" where
  "alloc_result st z bl n tag r \<longleftrightarrow>
     (case first_fit (zrover (ram st) z) z bl (block_size n) of
        None \<Rightarrow> (\<forall>(a, s, t) \<in> set bl. t = 0 \<longrightarrow> s < block_size n) \<and> r = Some (Inl (COM_ERROR ERR_FATAL))
      | Some a \<Rightarrow> \<exists>xs s ys m'. bl = xs @ (a, s, 0) # ys \<and> block_size n \<le> s
          \<and> r = Some (Inr (st\<lparr>ram := m'\<rparr>, a + 20))
          \<and> zone_ok m' z (xs @ taken a s (block_size n) tag @ ys) \<and> zsize m' z = zsize (ram st) z
          \<and> holds_at m' (a + 20) (replicate (nat n) 0) \<and> others_same (ram st) m' z (xs @ ys))"

lemma Z_TagMalloc_zone:
  assumes ok: "zone_ok (ram st) (zone_of st tag) bl" and tag: "tag \<noteq> 0" "int_range tag"
    and n: "0 \<le> n" "n < 2 ^ 31 - 28"
  shows "alloc_result st (zone_of st tag) bl n tag (Z_TagMalloc st n tag)"
proof -
  let ?z = "zone_of st tag" and ?m = "ram st" and ?n = "block_size n"
  have h: "heap_ok ?m ?z bl" and z0: "?z \<noteq> 0" using ok by (auto simp: zone_ok_def heap_ok_def)
  note ff = first_fit_cases [OF h, of "zrover ?m ?z" ?n]
  have run: "Z_TagMalloc st n tag = (case first_fit (zrover ?m ?z) ?z bl ?n of
      None \<Rightarrow> Some (Inl (COM_ERROR ERR_FATAL))
    | Some a \<Rightarrow> Some (Inr (st\<lparr>ram := fill (take_block ?m ?z a ?n tag) (a + 20) n 0\<rparr>, a + 20)))"
    using tag(1) n(1) z0 search_first_fit [OF ok, of ?n]
    by (simp add: Z_TagMalloc_def Let_def zone_of_def [symmetric] split: option.split)
  show ?thesis
  proof (cases "first_fit (zrover ?m ?z) ?z bl ?n")
    case None
    then show ?thesis using ff(1) run by (simp add: alloc_result_def)
  next
    case (Some a)
    then obtain s where s: "(a, s, 0) \<in> set bl" "?n \<le> s" using ff(2) by blast
    then obtain xs ys where bl: "bl = xs @ (a, s, 0) # ys" by (meson split_list)
    define m' where "m' = fill (take_block ?m ?z a ?n tag) (a + 20) n 0"
    note T = take_block_ok [OF ok [unfolded bl] block_size_eq(2) [OF n] s(2) tag n(1) block_size_eq(3) [OF n] m'_def]
    have "holds_at m' (a + 20) (replicate (nat n) 0)"
      using T(3) by (simp add: holds_at_def)
    then show ?thesis using Some run T s(2) bl by (fastforce simp: alloc_result_def m'_def)
  qed
qed

section \<open>A program that uses the zones\<close>

text \<open>
  The pointers it holds, with the bytes it has put there; \<open>p\<close> and \<open>q\<close> are what \<open>calloc\<close>
  returned for the zones.
\<close>

inductive zone_reach :: "zones \<Rightarrow> (int \<Rightarrow> bytes option) \<Rightarrow> bool" where
  start: "Com_InitSmallZoneMemory p st0 = Inr st1 \<Longrightarrow> Com_InitZoneMemory megs q st1 = Inr st \<Longrightarrow>
    0 < p \<Longrightarrow> p + 1024 * 1024 \<le> 2 ^ 32 \<Longrightarrow> 0 < q \<Longrightarrow> 0 < megs \<Longrightarrow> megs < 2048 \<Longrightarrow>
    q + megs * (1024 * 1024) \<le> 2 ^ 32 \<Longrightarrow> p + 1024 * 1024 \<le> q \<or> q + megs * (1024 * 1024) \<le> p \<Longrightarrow>
    zone_reach st Map.empty"
| alloc: "zone_reach st live \<Longrightarrow> 0 \<le> n \<Longrightarrow> n < 2 ^ 31 - 28 \<Longrightarrow> tag \<noteq> 0 \<Longrightarrow> int_range tag \<Longrightarrow>
    Z_TagMalloc st n tag = Some (Inr (st', r)) \<Longrightarrow> zone_reach st' (live(r \<mapsto> replicate (nat n) 0))"
| free: "zone_reach st live \<Longrightarrow> live r = Some cs \<Longrightarrow> Z_Free st r = Inr st' \<Longrightarrow>
    zone_reach st' (live(r := None))"
| store: "zone_reach st live \<Longrightarrow> live r = Some cs \<Longrightarrow> i < length cs \<Longrightarrow>
    zone_reach (st\<lparr>ram := (ram st)(r + int i := b)\<rparr>) (live(r \<mapsto> cs[i := b]))"

definition zone_inv :: "zones \<Rightarrow> (int \<Rightarrow> bytes option) \<Rightarrow> bool" where
  "zone_inv st live \<longleftrightarrow> (\<exists>bm bs. zones_ok st bm bs \<and> live_ok (ram st) live (set bm \<union> set bs))"

text \<open>A new allocation, seen from the zone it is taken from.\<close>

lemma alloc_pair:
  assumes ok: "pair_ok (ram st) z b1 z2 b2" and live: "live_ok (ram st) live (set b1 \<union> set b2)"
    and r: "alloc_result st z b1 n tag (Some (Inr (st', r)))" and n: "0 \<le> n" "n < 2 ^ 31 - 28" and tag: "tag \<noteq> 0"
  shows "live r = None" "\<exists>b1' m'. st' = st\<lparr>ram := m'\<rparr> \<and> pair_ok m' z b1' z2 b2
    \<and> live_ok m' (live(r \<mapsto> replicate (nat n) 0)) (set b1' \<union> set b2)
    \<and> (\<forall>(a, s, t) \<in> set b1'. t = 0 \<or> t = tag \<or> (a, s, t) \<in> set b1)"
proof -
  obtain a xs s ys m' where a: "b1 = xs @ (a, s, 0) # ys" "block_size n \<le> s" "st' = st\<lparr>ram := m'\<rparr>" "r = a + 20"
      "zone_ok m' z (xs @ taken a s (block_size n) tag @ ys)" "zsize m' z = zsize (ram st) z"
      "holds_at m' (a + 20) (replicate (nat n) 0)" "others_same (ram st) m' z (xs @ ys)"
    using r by (auto simp: alloc_result_def split: option.splits)
  note uniq = pair_unique [OF ok]
  have fresh: "(a, u, v) \<in> set b1 \<union> set b2 \<Longrightarrow> v = 0" for u v
    using uniq [of a s 0 u v] a(1) by auto
  show "live r = None"
  proof (rule ccontr)
    assume "live r \<noteq> None"
    then obtain cs where "live r = Some cs" by blast
    then obtain a' s' t' where "(a', s', t') \<in> set b1 \<union> set b2" "r = a' + 20" "t' \<noteq> 0"
      using live unfolding live_ok_def by blast
    then show False using fresh [of s' t'] a(4) by auto
  qed
  let ?b = "xs @ taken a s (block_size n) tag @ ys"
  note P = pair_change [OF ok a(5,6,8)]
  have "live_ok m' (live(r \<mapsto> replicate (nat n) 0)) (set ?b \<union> set b2)"
  proof (rule live_change [OF live])
    fix b u v p cs assume b: "(b, u, v) \<in> set b1 \<union> set b2" "v \<noteq> 0"
    then have "(b, u, v) \<in> set (xs @ ys) \<union> set b2" using a(1) by auto
    then show "(b, u, v) \<in> set ?b \<union> set b2 \<and> same_in (ram st) m' (b + 20) (b + u)"
      using P(2) by auto
  next
    fix p cs assume "(live(r \<mapsto> replicate (nat n) 0)) p = Some cs" "live p \<noteq> Some cs"
    then have p: "p = r" "cs = replicate (nat n) 0" by (auto split: if_splits)
    have "(a, if s - block_size n > MINFRAGMENT then block_size n else s, tag) \<in> set ?b"
      by (simp add: taken_def)
    moreover have "n + 24 \<le> block_size n" using block_size_eq(3) [OF n] .
    ultimately show "holds_at m' p cs \<and> (\<exists>a s t. (a, s, t) \<in> set ?b \<union> set b2 \<and> p = a + 20 \<and> t \<noteq> 0 \<and> int (length cs) + 24 \<le> s)"
      using p a(2,4,7) n(1) tag by (fastforce split: if_splits)
  qed
  then show "\<exists>b1' m'. st' = st\<lparr>ram := m'\<rparr> \<and> pair_ok m' z b1' z2 b2
    \<and> live_ok m' (live(r \<mapsto> replicate (nat n) 0)) (set b1' \<union> set b2)
    \<and> (\<forall>(a, s, t) \<in> set b1'. t = 0 \<or> t = tag \<or> (a, s, t) \<in> set b1)"
    using a(3) P(1) by (intro exI [of _ ?b] exI [of _ m']) (auto simp: a(1) taken_def split: if_splits)
qed


lemma freed_keeps: "v \<noteq> 0 \<Longrightarrow> (b, u, v) \<in> set xs \<union> set ys \<Longrightarrow> (b, u, v) \<in> set (freed xs a s ys)"
proof -
  assume v: "v \<noteq> 0" and b: "(b, u, v) \<in> set xs \<union> set ys"
  obtain xs1 a1 s1 where jp: "join_prev xs a s = (xs1, a1, s1)" by (cases "join_prev xs a s") auto
  obtain s2 ys1 where jn: "join_next s1 ys = (s2, ys1)" by (cases "join_next s1 ys") auto
  have "(b, u, v) \<in> set xs \<Longrightarrow> (b, u, v) \<in> set xs1"
  proof (cases "xs \<noteq> [] \<and> snd (snd (last xs)) = 0")
    case True
    then have "xs = butlast xs @ [last xs]" "xs1 = butlast xs" using jp by auto
    then show "(b, u, v) \<in> set xs \<Longrightarrow> (b, u, v) \<in> set xs1"
      using True v by (metis Un_iff empty_iff insert_iff list.set(1) list.simps(15) set_append snd_conv)
  qed (use jp in auto)
  moreover have "(b, u, v) \<in> set ys \<Longrightarrow> (b, u, v) \<in> set ys1"
    using jn v by (cases "(s1, ys)" rule: join_next.cases) (auto split: if_splits)
  moreover have "freed xs a s ys = xs1 @ (a1, s2, 0) # ys1"
    by (simp only: freed_def jp jn Let_def prod.case)
  ultimately show ?thesis using b by auto
qed

lemma freed_tags: "(b, u, v) \<in> set (freed xs a s ys) \<Longrightarrow> v = 0 \<or> (b, u, v) \<in> set xs \<union> set ys"
proof -
  assume b: "(b, u, v) \<in> set (freed xs a s ys)"
  obtain xs1 a1 s1 where jp: "join_prev xs a s = (xs1, a1, s1)" by (cases "join_prev xs a s") auto
  obtain s2 ys1 where jn: "join_next s1 ys = (s2, ys1)" by (cases "join_next s1 ys") auto
  have "set xs1 \<subseteq> set xs" using jp by (auto split: if_splits dest: in_set_butlastD)
  moreover have "set ys1 \<subseteq> set ys"
    using jn by (cases "(s1, ys)" rule: join_next.cases) (auto split: if_splits)
  moreover have "freed xs a s ys = xs1 @ (a1, s2, 0) # ys1"
    by (simp only: freed_def jp jn Let_def prod.case)
  ultimately show ?thesis using b by auto
qed

text \<open>Freeing a pointer, seen from the zone of its block.\<close>

lemma free_pair:
  assumes ok: "pair_ok (ram st) z b1 z2 b2" and live: "live_ok (ram st) live (set b1 \<union> set b2)"
    and a: "(a, s, t) \<in> set b1" "t \<noteq> 0" "t \<noteq> TAG_STATIC" and z: "z = zone_of st t"
  shows "\<exists>b1' m'. Z_Free st (a + 20) = Inr (st\<lparr>ram := m'\<rparr>) \<and> pair_ok m' z b1' z2 b2
    \<and> live_ok m' (live(a + 20 := None)) (set b1' \<union> set b2)
    \<and> (\<forall>(a, s, t) \<in> set b1'. t = 0 \<or> (a, s, t) \<in> set b1)"
proof -
  obtain xs ys where b1: "b1 = xs @ (a, s, t) # ys" using a(1) by (meson split_list)
  have "zone_ok (ram st) z (xs @ (a, s, t) # ys)" using ok by (simp add: pair_ok_def b1)
  from Z_Free_block [OF this a(2,3) z [unfolded zone_of_def]] obtain m' where
    m': "Z_Free st (a + 20) = Inr (st\<lparr>ram := m'\<rparr>)" "zone_ok m' z (freed xs a s ys)"
      "zsize m' z = zsize (ram st) z" "others_same (ram st) m' z (xs @ ys)" by blast
  note P = pair_change [OF ok m'(2,3,4)]
  have "live_ok m' (live(a + 20 := None)) (set (freed xs a s ys) \<union> set b2)"
  proof (rule live_change [OF live])
    fix b u v p cs assume p: "(live(a + 20 := None)) p = Some cs" "p = b + 20"
      and b: "(b, u, v) \<in> set b1 \<union> set b2" "v \<noteq> 0"
    have "b \<noteq> a" using p by (auto split: if_splits)
    then have "(b, u, v) \<in> set (xs @ ys) \<union> set b2" using b b1 by auto
    then show "(b, u, v) \<in> set (freed xs a s ys) \<union> set b2 \<and> same_in (ram st) m' (b + 20) (b + u)"
      using P(2) freed_keeps [OF b(2), of b u xs ys a s] by auto
  qed (auto split: if_splits)
  then show ?thesis
    using m'(1) P(1) freed_tags [of _ _ _ xs a s ys]
    by (intro exI [of _ "freed xs a s ys"] exI [of _ m']) (auto simp: b1)
qed

text \<open>Writing a byte of an allocation.\<close>

lemma store_zone:
  assumes zo: "zone_ok m z (xs @ (a, s, t) # ys)" and t: "t \<noteq> 0"
    and same: "\<And>x. \<not> (a + 20 \<le> x \<and> x < a + s - 4) \<Longrightarrow> m' x = m x"
  shows "zone_ok m' z (xs @ (a, s, t) # ys)" "zsize m' z = zsize m z" "others_same m m' z (xs @ ys)"
proof -
  have h: "heap_ok m z (xs @ (a, s, t) # ys)" using zo by (simp add: zone_ok_def)
  have tl: "tiled (z + 32) (xs @ [(a, s, t)] @ ys) (z + zsize m z)" using h by (simp add: heap_ok_def)
  note sep = heap_sep [OF h]
  have f: "same_in m m' z (z + 32)" "same_in m m' a (a + 20)" "same_in m m' (a + s - 4) (a + s)"
    using same sep(5,6) by (auto simp: same_in_def)
  have "hdr_ok m (a, s, t)" using h by (simp add: heap_ok_def)
  then have tag: "btag m' a = t" "bid m' a = ZONEID" "rd_int m' (a + s - 4) = ZONEID"
    using t fields_same_in [OF f(2)] rd_same_in(1) [OF f(3)] by (simp_all add: hdr_ok.simps)
  have w: "m' x = m x" if "\<not> (a + 16 \<le> x \<and> x < a + s)" for x using that by (intro same) auto
  have "heap_ok m' z (xs @ (a, s, t) # ys)"
  proof (rule heap_retag(1) [OF h])
    fix x assume "\<not> (a + 16 \<le> x \<and> x < a + s)"
    then show "m' x = m x" by (rule w)
  qed (use tag in simp_all)
  then show "zone_ok m' z (xs @ (a, s, t) # ys)" "zsize m' z = zsize m z"
    using zo zone_same_in [OF f(1)] by (simp_all add: zone_ok_def)
  show "others_same m m' z (xs @ ys)"
    by (rule others_same_outside [OF tl]) (use same in fastforce)
qed

lemma store_pair:
  assumes ok: "pair_ok m z b1 z2 b2" and live: "live_ok m live (set b1 \<union> set b2)"
    and a: "(a, s, t) \<in> set b1" "t \<noteq> 0" and l: "live (a + 20) = Some cs" "int (length cs) + 24 \<le> s"
    and i: "i < length cs" and m': "m' = m(a + 20 + int i := b)"
  shows "pair_ok m' z b1 z2 b2" "live_ok m' (live(a + 20 \<mapsto> cs[i := b])) (set b1 \<union> set b2)"
proof -
  obtain xs ys where b1: "b1 = xs @ (a, s, t) # ys" using a(1) by (meson split_list)
  have zo: "zone_ok m z (xs @ (a, s, t) # ys)" using ok by (simp add: pair_ok_def b1)
  have same: "m' x = m x" if "\<not> (a + 20 \<le> x \<and> x < a + s - 4)" for x
    using that i l(2) by (auto simp: m')
  have S: "zone_ok m' z b1" "zsize m' z = zsize m z" "others_same m m' z (xs @ ys)"
    using store_zone [OF zo a(2), of m'] same unfolding b1 by blast+
  note P = pair_change [OF ok S]
  show "pair_ok m' z b1 z2 b2" by (rule P(1))
  show "live_ok m' (live(a + 20 \<mapsto> cs[i := b])) (set b1 \<union> set b2)"
    unfolding live_ok_def
  proof (intro allI impI)
    fix p ds assume p: "(live(a + 20 \<mapsto> cs[i := b])) p = Some ds"
    show "holds_at m' p ds \<and> (\<exists>a s t. (a, s, t) \<in> set b1 \<union> set b2 \<and> p = a + 20 \<and> t \<noteq> 0 \<and> int (length ds) + 24 \<le> s)"
    proof (cases "p = a + 20")
      case True
      have "holds_at m (a + 20) cs" using live l(1) unfolding live_ok_def by blast
      then have "holds_at m' (a + 20) (cs[i := b])"
        by (auto simp: holds_at_def m' nth_list_update)
      then show ?thesis
        using True p a l(2) by (intro conjI exI [of _ a] exI [of _ s] exI [of _ t]) auto
    next
      case False
      then obtain a' s' t' where o: "holds_at m p ds" "(a', s', t') \<in> set b1 \<union> set b2" "p = a' + 20" "t' \<noteq> 0"
          "int (length ds) + 24 \<le> s'"
        using p live unfolding live_ok_def by (metis fun_upd_other)
      then have "(a', s', t') \<in> set (xs @ ys) \<union> set b2" using False b1 by auto
      from P(2) [OF this] have "same_in m m' p (p + int (length ds))" using o(3,5) by (simp add: same_in_def)
      then show ?thesis using holds_at_cong [OF o(1)] o by blast
    qed
  qed
qed

section \<open>The invariant\<close>

lemma calloc_zone:
  assumes "Com_InitSmallZoneMemory p st0 = Inr st1" "Com_InitZoneMemory megs q st1 = Inr st"
    "0 < p" "p + 1024 * 1024 \<le> 2 ^ 32" "0 < q" "0 < megs" "megs < 2048" "q + megs * (1024 * 1024) \<le> 2 ^ 32"
    "p + 1024 * 1024 \<le> q \<or> q + megs * (1024 * 1024) \<le> p"
  shows "zones_ok st [(q + 32, megs * (1024 * 1024) - 32, 0)] [(p + 32, 1024 * 1024 - 32, 0)]"
proof -
  let ?n = "megs * (1024 * 1024)" and ?k = "1024 * 1024 :: int"
  have n: "s32 (megs * 1024 * 1024) = ?n" "u32 ?n = ?n" using assms(6,7) by simp_all
  define m1 where "m1 = Z_ClearZone (fill (ram st0) p ?k 0) p ?k"
  define m2 where "m2 = Z_ClearZone (fill m1 q ?n 0) q ?n"
  have st: "ram st = m2" "mainzone st = q" "smallzone st = p"
    using assms(1,2) n unfolding m1_def m2_def
    by (auto simp: Com_InitSmallZoneMemory_def Com_InitZoneMemory_def Let_def split: if_splits)
  have S: "zone_ok m1 p [(p + 32, ?k - 32, 0)]" "zsize m1 p = ?k"
    unfolding m1_def using assms(3,4) by (intro Z_ClearZone_ok; simp)+
  have M: "zone_ok m2 q [(q + 32, ?n - 32, 0)]" "zsize m2 q = ?n"
    "x < q \<or> q + ?n \<le> x \<Longrightarrow> m2 x = m1 x" for x
    unfolding m2_def using assms(5-8) Z_ClearZone_ok [where z = q and sz = ?n and m = "fill m1 q ?n 0"]
    by (simp_all add: fill_outside)
  have "same_in m1 m2 p (p + zsize m1 p)" using assms(9) M(3) S(2) by (auto simp: same_in_def)
  from zone_ok_cong [OF S(1) this] show ?thesis
    using M(1,2) S(2) assms(9)
    by (auto simp: zones_ok_def pair_ok_def st main_tags_def small_tags_def TAG_SMALL_def)
qed


lemma zone_invI:
  assumes p: "pair_ok m z1 b1 z2 b2" and l: "live_ok m live (set b1 \<union> set b2)" and st: "st = st0\<lparr>ram := m\<rparr>"
    and z: "(z1 = mainzone st0 \<and> z2 = smallzone st0 \<and> main_tags b1 \<and> small_tags b2)
      \<or> (z1 = smallzone st0 \<and> z2 = mainzone st0 \<and> main_tags b2 \<and> small_tags b1)"
  shows "zone_inv st live"
proof -
  have p2: "pair_ok m z2 b2 z1 b1" and l2: "live_ok m live (set b2 \<union> set b1)"
    using p l by (auto simp: pair_ok_sym [of m z2] Un_commute)
  show ?thesis
    using z
  proof
    assume "z1 = mainzone st0 \<and> z2 = smallzone st0 \<and> main_tags b1 \<and> small_tags b2"
    then have "zones_ok st b1 b2" using p by (simp add: zones_ok_def st)
    then show ?thesis using l unfolding zone_inv_def by (auto simp: st)
  next
    assume "z1 = smallzone st0 \<and> z2 = mainzone st0 \<and> main_tags b2 \<and> small_tags b1"
    then have "zones_ok st b2 b1" using p2 by (simp add: zones_ok_def st)
    then show ?thesis using l2 unfolding zone_inv_def by (auto simp: st)
  qed
qed

text \<open>The zone of a tag in front, the other one behind.\<close>

definition sides :: "zones \<Rightarrow> (int \<Rightarrow> bytes option) \<Rightarrow> int \<Rightarrow> blk list \<Rightarrow> int \<Rightarrow> blk list \<Rightarrow> bool" where
  "sides st live tag b1 z2 b2 \<longleftrightarrow> pair_ok (ram st) (zone_of st tag) b1 z2 b2
    \<and> live_ok (ram st) live (set b1 \<union> set b2)
    \<and> (if tag = TAG_SMALL then z2 = mainzone st \<and> small_tags b1 \<and> main_tags b2
       else z2 = smallzone st \<and> main_tags b1 \<and> small_tags b2)"

lemma zones_sides:
  assumes "zones_ok st bm bs" "live_ok (ram st) live (set bm \<union> set bs)"
  shows "\<exists>z2. sides st live tag (blocks_of tag bm bs) z2 (if tag = TAG_SMALL then bm else bs)"
proof -
  have o: "pair_ok (ram st) (mainzone st) bm (smallzone st) bs" "main_tags bm" "small_tags bs"
    using assms(1) by (simp_all add: zones_ok_def)
  have p2: "pair_ok (ram st) (smallzone st) bs (mainzone st) bm" and l2: "live_ok (ram st) live (set bs \<union> set bm)"
    using o(1) assms(2) by (auto simp: pair_ok_sym [of _ "smallzone st"] Un_commute)
  show ?thesis
    using o p2 l2 assms(2) by (simp add: sides_def blocks_of_def zone_of_def)
qed

lemma sides_back:
  assumes "sides st live tag b1 z2 b2" "pair_ok m' (zone_of st tag) b1' z2 b2"
    "live_ok m' live' (set b1' \<union> set b2)" "st' = st\<lparr>ram := m'\<rparr>"
    "\<forall>(a, s, t) \<in> set b1'. t = 0 \<or> t = tag \<or> (a, s, t) \<in> set b1"
  shows "zone_inv st' live'"
  using assms(1,5)
  by (intro zone_invI [OF assms(2,3,4)])
    (auto simp: sides_def zone_of_def main_tags_def small_tags_def TAG_SMALL_def split: if_splits; blast)

text \<open>A pointer that is held belongs to a block of the zone its tag names.\<close>

lemma held_block:
  assumes "zone_inv st live" "live r = Some cs"
  shows "\<exists>a s t z2 b1 b2. r = a + 20 \<and> t \<noteq> 0 \<and> (a, s, t) \<in> set b1 \<and> int (length cs) + 24 \<le> s
    \<and> sides st live t b1 z2 b2"
proof -
  obtain bm bs where z: "zones_ok st bm bs" and l: "live_ok (ram st) live (set bm \<union> set bs)"
    using assms(1) by (auto simp: zone_inv_def)
  obtain a s t where a: "(a, s, t) \<in> set bm \<union> set bs" "r = a + 20" "t \<noteq> 0" "int (length cs) + 24 \<le> s"
    using l assms(2) unfolding live_ok_def by blast
  have "(a, s, t) \<in> set (blocks_of t bm bs)"
    using a(1,3) z by (auto simp: blocks_of_def zones_ok_def main_tags_def small_tags_def)
  then show ?thesis using a zones_sides [OF z l, of t] by blast
qed

lemma alloc_inv:
  assumes inv: "zone_inv st live" and n: "0 \<le> n" "n < 2 ^ 31 - 28" and tag: "tag \<noteq> 0" "int_range tag"
    and r: "Z_TagMalloc st n tag = Some (Inr (st', r))"
  shows "live r = None" "zone_inv st' (live(r \<mapsto> replicate (nat n) 0))"
proof -
  obtain z2 b1 b2 where s: "sides st live tag b1 z2 b2"
    using inv zones_sides [of st _ _ live tag] unfolding zone_inv_def by blast
  then have o: "pair_ok (ram st) (zone_of st tag) b1 z2 b2" "live_ok (ram st) live (set b1 \<union> set b2)"
    by (simp_all add: sides_def)
  have "zone_ok (ram st) (zone_of st tag) b1" using o(1) by (simp add: pair_ok_def)
  from Z_TagMalloc_zone [OF this tag n] r
  have res: "alloc_result st (zone_of st tag) b1 n tag (Some (Inr (st', r)))" by simp
  note A = alloc_pair [OF o res n tag(1)]
  show "live r = None" by (rule A(1))
  show "zone_inv st' (live(r \<mapsto> replicate (nat n) 0))"
    using A(2) sides_back [OF s] by blast
qed

lemma free_inv:
  assumes inv: "zone_inv st live" and l: "live r = Some cs"
  shows "\<exists>st'. Z_Free st r = Inr st' \<and> zone_inv st' (live(r := None))"
proof -
  obtain a s t z2 b1 b2 where o: "r = a + 20" "t \<noteq> 0" "(a, s, t) \<in> set b1" "sides st live t b1 z2 b2"
    using held_block [OF inv l] by blast
  then have p: "pair_ok (ram st) (zone_of st t) b1 z2 b2" "live_ok (ram st) live (set b1 \<union> set b2)"
    by (simp_all add: sides_def)
  show ?thesis
  proof (cases "t = TAG_STATIC")
    case True
    have h: "heap_ok (ram st) (zone_of st t) b1" using p(1) by (simp add: pair_ok_def zone_ok_def)
    then have "0 < zone_of st t" "tiled (zone_of st t + 32) b1 (zone_of st t + zsize (ram st) (zone_of st t))"
      by (simp_all add: heap_ok_def)
    then have "r \<noteq> 0" using tiled_mem [OF _ o(3)] o(1) by fastforce
    then have "Z_Free st r = Inr st"
      using block_fields [OF h o(3)] o(1) True by (simp add: Z_Free_def Let_def TAG_STATIC_def)
    moreover have "live_ok (ram st) (live(r := None)) B" if "live_ok (ram st) live B" for B
      using that by (auto simp: live_ok_def)
    then have "zone_inv st (live(r := None))" using inv unfolding zone_inv_def by blast
    ultimately show ?thesis by blast
  next
    case False
    from free_pair [OF p o(3,2) False refl] show ?thesis
      using sides_back [OF o(4)] o(1) by fast
  qed
qed

lemma zone_reach_inv: "zone_reach st live \<Longrightarrow> zone_inv st live"
proof (induction rule: zone_reach.induct)
  case (start p st0 st1 megs q st)
  then have "zones_ok st [(q + 32, megs * (1024 * 1024) - 32, 0)] [(p + 32, 1024 * 1024 - 32, 0)]"
    by (intro calloc_zone)
  then show ?case unfolding zone_inv_def live_ok_def by blast
next
  case (alloc st live n tag st' r)
  then show ?case using alloc_inv(2) by blast
next
  case (free st live r cs st')
  then show ?case using free_inv [OF free.IH free.hyps(2)] by (metis sum.inject(2))
next
  case (store st live r cs i b)
  obtain a s t z2 b1 b2 where o: "r = a + 20" "t \<noteq> 0" "(a, s, t) \<in> set b1" "int (length cs) + 24 \<le> s"
      "sides st live t b1 z2 b2"
    using held_block [OF store.IH store.hyps(2)] by blast
  then have p: "pair_ok (ram st) (zone_of st t) b1 z2 b2" "live_ok (ram st) live (set b1 \<union> set b2)"
    by (simp_all add: sides_def)
  note S = store_pair [OF p o(3,2) store.hyps(2) [unfolded o(1)] o(4) store.hyps(3) refl, of b]
  have "\<forall>(a, s, v) \<in> set b1. v = 0 \<or> v = t \<or> (a, s, v) \<in> set b1" by auto
  from sides_back [OF o(5) S refl this] show ?case by (simp only: o(1))
qed

section \<open>Freeing a tag\<close>

text \<open>The contents of the blocks that stay.\<close>

definition kept :: "ram \<Rightarrow> ram \<Rightarrow> int \<Rightarrow> blk list \<Rightarrow> blk list \<Rightarrow> bool" where
  "kept m m' tag bs bs' \<longleftrightarrow> (\<forall>(b, u, v) \<in> set bs. v \<noteq> 0 \<and> v \<noteq> tag \<longrightarrow>
     (b, u, v) \<in> set bs' \<and> same_in m m' (b + 20) (b + u))"

definition without_tag :: "int \<Rightarrow> blk list \<Rightarrow> bool" where
  "without_tag tag bs \<longleftrightarrow> (\<forall>(b, u, v) \<in> set bs. v \<noteq> tag)"

lemma kept_trans: "kept m m1 tag bs bs1 \<Longrightarrow> kept m1 m2 tag bs1 bs2 \<Longrightarrow> kept m m2 tag bs bs2"
  unfolding kept_def same_in_def by (fastforce split: prod.splits)

lemma zone_ok_rover:
  assumes ok: "zone_ok m z bs" and r: "r \<in> insert (blocklist z) (set (addrs bs))" "0 \<le> r" "r < 2 ^ 32"
  shows "zone_ok (set_zrover m z r) z bs" "zrover (set_zrover m z r) z = r"
    "zsize (set_zrover m z r) z = zsize m z" "kept m (set_zrover m z r) tag bs bs"
    "x < z \<or> z + zsize m z \<le> x \<Longrightarrow> set_zrover m z r x = m x"
proof -
  have h: "heap_ok m z bs" using ok by (simp add: zone_ok_def)
  then have t: "tiled (z + 32) bs (z + zsize m z)" by (simp add: heap_ok_def)
  show "zone_ok (set_zrover m z r) z bs" "zrover (set_zrover m z r) z = r"
    "zsize (set_zrover m z r) z = zsize m z"
    using ok r heap_rover_used(2) [OF h] by (simp_all add: zone_ok_def ram_simps)
  show "x < z \<or> z + zsize m z \<le> x \<Longrightarrow> set_zrover m z r x = m x"
    using tiled_le [OF t] by (auto simp: set_outside)
  have "same_in m (set_zrover m z r) (b + 20) (b + u)" if "(b, u, v) \<in> set bs" for b u v
    using tiled_mem [OF t that] by (auto simp: same_in_def set_outside)
  then show "kept m (set_zrover m z r) tag bs bs" by (auto simp: kept_def)
qed

lemma ring_address:
  assumes "heap_ok m z bs" "r \<in> insert (blocklist z) (set (addrs bs))"
  shows "0 \<le> r" "r < 2 ^ 32"
proof -
  have t: "tiled (z + 32) bs (z + zsize m z)" "0 < z" "z + zsize m z \<le> 2 ^ 32"
    using assms(1) by (simp_all add: heap_ok_def)
  have "r = blocklist z \<or> (\<exists>s v. (r, s, v) \<in> set bs)" using assms(2) addrs_mem by blast
  then show "0 \<le> r" "r < 2 ^ 32"
    using tiled_mem [OF t(1)] tiled_le [OF t(1)] t(2,3) by (fastforce simp: blocklist_def)+
qed

lemma free_tags_ok:
  assumes tag: "tag \<noteq> 0" "tag \<noteq> TAG_STATIC"
  shows "zone_ok (ram st) z (xs @ (a, s, t) # ys) \<Longrightarrow> z = zone_of st tag \<Longrightarrow> zrover (ram st) z = a \<Longrightarrow>
    without_tag tag xs \<Longrightarrow>
    \<exists>m' bs'. free_tags tag z st = Some (Inr (st\<lparr>ram := m'\<rparr>)) \<and> zone_ok m' z bs'
      \<and> zsize m' z = zsize (ram st) z \<and> without_tag tag bs'
      \<and> kept (ram st) m' tag (xs @ (a, s, t) # ys) bs'
      \<and> (\<forall>x. x < z \<or> z + zsize (ram st) z \<le> x \<longrightarrow> m' x = ram st x)"
proof (induction "2 * length ys + (if t = tag then 1 else 0)" arbitrary: st xs a s t ys rule: less_induct)
  case less
  note ok = less.prems(1) and z = less.prems(2) and r = less.prems(3)
  let ?bs = "xs @ (a, s, t) # ys" and ?m = "ram st"
  have h: "heap_ok ?m z ?bs" using ok by (simp add: zone_ok_def)
  have ta: "btag ?m a = t" using block_fields [OF h, of a s t] by simp
  have go: "\<exists>m' bs'. free_tags tag z (st\<lparr>ram := m1\<rparr>) = Some (Inr (st\<lparr>ram := m'\<rparr>)) \<and> zone_ok m' z bs'
      \<and> zsize m' z = zsize m1 z \<and> without_tag tag bs'
      \<and> kept m1 m' tag (xs1 @ (a1, s1, t1) # ys1) bs'
      \<and> (\<forall>x. x < z \<or> z + zsize m1 z \<le> x \<longrightarrow> m' x = m1 x)"
    if "2 * length ys1 + (if t1 = tag then 1 else 0) < 2 * length ys + (if t = tag then 1 else 0)"
      "zone_ok m1 z (xs1 @ (a1, s1, t1) # ys1)" "zrover m1 z = a1" "without_tag tag xs1"
    for m1 xs1 a1 s1 t1 ys1
  proof -
    have "z = zone_of (st\<lparr>ram := m1\<rparr>) tag" using z by (simp add: zone_of_def)
    then show ?thesis
      using less.hyps [OF that(1), of "st\<lparr>ram := m1\<rparr>" xs1 a1 s1] that(2,3,4) by simp
  qed
  show ?case
  proof (cases "t = tag")
    case True
    from Z_Free_block [OF ok] tag z True obtain m1 where m1: "Z_Free st (a + 20) = Inr (st\<lparr>ram := m1\<rparr>)"
        "zone_ok m1 z (freed xs a s ys)" "zsize m1 z = zsize ?m z" "others_same ?m m1 z (xs @ ys)"
        "zrover m1 z = fst (snd (join_prev xs a s))"
      by (auto simp: zone_of_def)
    obtain xs1 a1 s1 where jp: "join_prev xs a s = (xs1, a1, s1)" by (cases "join_prev xs a s") auto
    obtain s2 ys1 where jn: "join_next s1 ys = (s2, ys1)" by (cases "join_next s1 ys") auto
    have fr: "freed xs a s ys = xs1 @ (a1, s2, 0) # ys1"
      by (simp only: freed_def jp jn Let_def prod.case)
    have ok1: "zone_ok m1 z (xs1 @ (a1, s2, 0) # ys1)" using m1(2) by (simp only: fr)
    have r1: "zrover m1 z = a1" using m1(5) by (simp only: jp prod.sel)
    have "set xs1 \<subseteq> set xs" using jp by (auto split: if_splits dest: in_set_butlastD)
    then have w1: "without_tag tag xs1" using less.prems(4) by (auto simp: without_tag_def)
    have "length ys1 \<le> length ys" using jn by (cases "(s1, ys)" rule: join_next.cases) (auto split: if_splits)
    then have lt: "2 * length ys1 + (if 0 = tag then 1 else 0) < 2 * length ys + (if t = tag then 1 else 0)"
      using tag(1) True by simp
    obtain m' bs' where m': "free_tags tag z (st\<lparr>ram := m1\<rparr>) = Some (Inr (st\<lparr>ram := m'\<rparr>))" "zone_ok m' z bs'"
        "zsize m' z = zsize m1 z" "without_tag tag bs'" "kept m1 m' tag (xs1 @ (a1, s2, 0) # ys1) bs'"
        "\<forall>x. x < z \<or> z + zsize m1 z \<le> x \<longrightarrow> m' x = m1 x"
      using go [OF lt ok1 r1 w1] by blast
    have "a1 \<noteq> blocklist z" using heap_sep(5) ok1 by (fastforce simp: zone_ok_def blocklist_def)
    then have "free_tags tag z st = free_tags tag z (st\<lparr>ram := m1\<rparr>)"
      using r ta True m1(1) r1 by (subst free_tags.simps) (simp add: Let_def)
    moreover have "kept ?m m1 tag ?bs (xs1 @ (a1, s2, 0) # ys1)"
      using m1(4) freed_keeps [of _ _ _ xs ys a s] True unfolding fr
      by (fastforce simp: kept_def others_same_def)
    ultimately show ?thesis
      using m' m1(3,4) kept_trans [OF _ m'(5)]
      by (intro exI [of _ m'] exI [of _ bs']) (simp add: others_same_def)
  next
    case False
    let ?n = "bnext ?m a"
    let ?m1 = "set_zrover ?m z ?n"
    have n: "?n = hd (addrs ys @ [blocklist z])" using prev_in_ring [OF h] by simp
    have nr: "?n \<in> insert (blocklist z) (set (addrs ?bs))" using next_in_ring [OF h, of a] by simp
    note R = zone_ok_rover [OF ok nr ring_address [OF h nr]]
    have step: "free_tags tag z st =
        (if ?n = blocklist z then Some (Inr (st\<lparr>ram := ?m1\<rparr>)) else free_tags tag z (st\<lparr>ram := ?m1\<rparr>))"
      using r ta False R(2) by (subst free_tags.simps) (simp add: Let_def)
    show ?thesis
    proof (cases ys)
      case Nil
      have "without_tag tag ?bs" using less.prems(4) False Nil by (auto simp: without_tag_def)
      then show ?thesis
        using R step n Nil by (intro exI [of _ ?m1] exI [of _ ?bs]) (simp add: addrs_def)
    next
      case (Cons y ys')
      obtain b u v where y: "y = (b, u, v)" by (cases y)
      have bs: "?bs = (xs @ [(a, s, t)]) @ (b, u, v) # ys'" by (simp add: Cons y)
      have nb: "?n = b" using n by (simp add: Cons y)
      have "b \<noteq> blocklist z" using heap_sep(5) h unfolding bs by (fastforce simp: blocklist_def)
      then have st1: "free_tags tag z st = free_tags tag z (st\<lparr>ram := ?m1\<rparr>)" using step nb by simp
      have lt: "2 * length ys' + (if v = tag then 1 else 0) < 2 * length ys + (if t = tag then 1 else 0)"
        using False by (simp add: Cons)
      have w: "without_tag tag (xs @ [(a, s, t)])" using less.prems(4) False by (auto simp: without_tag_def)
      obtain m' bs' where m': "free_tags tag z (st\<lparr>ram := ?m1\<rparr>) = Some (Inr (st\<lparr>ram := m'\<rparr>))" "zone_ok m' z bs'"
          "zsize m' z = zsize ?m1 z" "without_tag tag bs'" "kept ?m1 m' tag ?bs bs'"
          "\<forall>x. x < z \<or> z + zsize ?m1 z \<le> x \<longrightarrow> m' x = ?m1 x"
        using go [OF lt R(1) [unfolded bs] trans [OF R(2) nb] w] unfolding bs by blast
      show ?thesis
        using m' st1 R(3,5) kept_trans [OF R(4) m'(5)] by (intro exI [of _ m'] exI [of _ bs']) auto
    qed
  qed
qed

section \<open>The properties\<close>

text \<open>A memory with a small zone and a main zone of 8 megabytes.\<close>

definition zone_sample :: zones where
  "zone_sample =
     (let small = Z_ClearZone (fill (\<lambda>_. 0) 4096 (1024 * 1024) 0) 4096 (1024 * 1024)
      in \<lparr>ram = Z_ClearZone (fill small 2097152 (8 * 1024 * 1024) 0) 2097152 (8 * 1024 * 1024),
          mainzone = 2097152, smallzone = 4096, emptystring = 64, numberstring = 128\<rparr>)"

lemma zone_sample_start:
  "\<exists>st0 st1. Com_InitSmallZoneMemory 4096 st0 = Inr st1 \<and> Com_InitZoneMemory 8 2097152 st1 = Inr zone_sample"
  by (intro exI [of _ "\<lparr>ram = \<lambda>_. 0, mainzone = 0, smallzone = 0, emptystring = 64, numberstring = 128\<rparr>"]
        exI [of _ "\<lparr>ram = Z_ClearZone (fill (\<lambda>_. 0) 4096 (1024 * 1024) 0) 4096 (1024 * 1024),
          mainzone = 0, smallzone = 4096, emptystring = 64, numberstring = 128\<rparr>"])
    (simp add: Com_InitSmallZoneMemory_def Com_InitZoneMemory_def zone_sample_def Let_def)

lemma zone_sample_ok: "zones_ok zone_sample [(2097184, 8388576, 0)] [(4128, 1048544, 0)]"
proof -
  obtain st0 st1 where s: "Com_InitSmallZoneMemory 4096 st0 = Inr st1" "Com_InitZoneMemory 8 2097152 st1 = Inr zone_sample"
    using zone_sample_start by blast
  show ?thesis using calloc_zone [OF s] by simp
qed

lemma zone_sample_reach: "zone_reach zone_sample Map.empty"
proof -
  obtain st0 st1 where s: "Com_InitSmallZoneMemory 4096 st0 = Inr st1" "Com_InitZoneMemory 8 2097152 st1 = Inr zone_sample"
    using zone_sample_start by blast
  show ?thesis using zone_reach.start [OF s] by simp
qed

text \<open>
  Claim C15.  \<open>Z_TagMalloc\<close> takes the first free block that fits, going around the ring from the
  rover; it splits it when more than 64 bytes are left, returns zeroed memory behind the header
  and changes nothing else but headers.  The search always ends, and the allocation fails only
  when no free block of the zone is large enough.
\<close>

theorem Z_TagMalloc_first_fit:
  assumes "zones_ok st bm bs" "tag \<noteq> 0" "int_range tag" "0 \<le> n" "n < 2 ^ 31 - 28"
  shows "alloc_result st (zone_of st tag) (blocks_of tag bm bs) n tag (Z_TagMalloc st n tag)"
  using Z_TagMalloc_zone [OF zones_ok_zone [OF assms(1)] assms(2-5)] .

lemma Z_TagMalloc_first_fit_witness:
  "\<exists>m r. Z_TagMalloc zone_sample 100 TAG_GENERAL = Some (Inr (zone_sample\<lparr>ram := m\<rparr>, r))"
  using Z_TagMalloc_first_fit [OF zone_sample_ok, of TAG_GENERAL 100]
  by (auto simp: alloc_result_def TAG_GENERAL_def TAG_SMALL_def blocks_of_def int_range_def block_size_eq
      split: option.splits)

text \<open>
  \<open>Z_Free\<close> of a block in use gives it back: it is joined with a free block in
  front of it and a free block behind it, so that no two neighbours are free, the other
  contents stay the same, and freeing the pointer once more is the error of \<open>Z_Free\<close>.
\<close>

theorem Z_Free_joins:
  assumes "zones_ok st bm bs" "blocks_of t bm bs = xs @ (a, s, t) # ys" "t \<noteq> 0" "t \<noteq> TAG_STATIC"
  shows "\<exists>m'. Z_Free st (a + 20) = Inr (st\<lparr>ram := m'\<rparr>)
    \<and> zone_ok m' (zone_of st t) (freed xs a s ys) \<and> others_same (ram st) m' (zone_of st t) (xs @ ys)
    \<and> Z_Free (st\<lparr>ram := m'\<rparr>) (a + 20) = Inl (COM_ERROR ERR_FATAL)"
proof -
  have z: "zone_ok (ram st) (zone_of st t) (xs @ (a, s, t) # ys)"
    using zones_ok_zone [OF assms(1), of t] by (simp add: assms(2))
  have "a + 20 \<noteq> 0" using heap_sep(5) z by (fastforce simp: zone_ok_def heap_ok_def)
  then show ?thesis
    using Z_Free_block [OF z assms(3,4) zone_of_def] by (fastforce simp: Z_Free_def Let_def)
qed

lemma Z_Free_joins_witness:
  "\<exists>st m'. Z_Free st (4128 + 20) = Inr (st\<lparr>ram := m'\<rparr>) \<and> zone_ok m' 4096 [(4128, 1048544, 0)]
     \<and> Z_Free (st\<lparr>ram := m'\<rparr>) (4128 + 20) = Inl (COM_ERROR ERR_FATAL)"
proof -
  have t: "TAG_SMALL \<noteq> 0" "int_range TAG_SMALL" "TAG_SMALL \<noteq> TAG_STATIC"
    by (simp_all add: TAG_SMALL_def TAG_STATIC_def int_range_def)
  have zo: "zone_of zone_sample TAG_SMALL = 4096" "smallzone zone_sample = 4096" "mainzone zone_sample = 2097152"
    by (simp_all add: zone_of_def zone_sample_def Let_def)
  have p: "pair_ok (ram zone_sample) 4096 [(4128, 1048544, 0)] 2097152 [(2097184, 8388576, 0)]"
    using zone_sample_ok pair_ok_sym by (simp add: zones_ok_def zo)
  have "alloc_result zone_sample 4096 [(4128, 1048544, 0)] 3 TAG_SMALL (Z_TagMalloc zone_sample 3 TAG_SMALL)"
    using Z_TagMalloc_zone [OF zones_ok_zone [OF zone_sample_ok] t(1,2), of 3] by (simp add: blocks_of_def zo)
  then obtain m where m: "zone_ok m 4096 [(4128, 28, TAG_SMALL), (4156, 1048516, 0)]"
      "zsize m 4096 = zsize (ram zone_sample) 4096" "others_same (ram zone_sample) m 4096 []"
    by (auto simp: alloc_result_def block_size_eq taken_def MINFRAGMENT_def Cons_eq_append_conv split: option.splits)
  define st where "st = zone_sample\<lparr>ram := m\<rparr>"
  have "pair_ok m 4096 [(4128, 28, TAG_SMALL), (4156, 1048516, 0)] 2097152 [(2097184, 8388576, 0)]"
    by (rule pair_change(1) [OF p m])
  then have ok: "zones_ok st [(2097184, 8388576, 0)] [(4128, 28, TAG_SMALL), (4156, 1048516, 0)]"
    using pair_ok_sym by (simp add: zones_ok_def st_def zo main_tags_def small_tags_def TAG_SMALL_def)
  have b: "blocks_of TAG_SMALL [(2097184, 8388576, 0)] [(4128, 28, TAG_SMALL), (4156, 1048516, 0)]
      = [] @ (4128, 28, TAG_SMALL) # [(4156, 1048516, 0)]" by (simp add: blocks_of_def)
  have z: "zone_of st TAG_SMALL = 4096" using zo by (simp add: zone_of_def st_def)
  have f: "freed [] 4128 28 [(4156, 1048516, 0)] = [(4128, 1048544, 0)]" by (simp add: freed_def)
  show ?thesis
    using Z_Free_joins [OF ok b t(1,3)] unfolding z f by blast
qed

text \<open>
  Claim C2.  A program that allocates, frees and writes inside its allocations, in any order,
  is safe: its allocations do not overlap and hold what it has last written to them, every one
  of them can be freed, the heap check passes, and a new allocation either is a pointer it does
  not hold yet or stops the server because the zone is full; no call runs forever.
\<close>

theorem zone_client_safe:
  assumes "zone_reach st live"
  shows "Z_CheckHeap st = Some (Inr ())
    \<and> (\<forall>r cs. live r = Some cs \<longrightarrow> holds_at (ram st) r cs \<and> (\<exists>st'. Z_Free st r = Inr st'))
    \<and> (\<forall>r cs q ds. live r = Some cs \<and> live q = Some ds \<and> r \<noteq> q \<longrightarrow>
         r + int (length cs) \<le> q \<or> q + int (length ds) \<le> r)
    \<and> (\<forall>n tag. 0 \<le> n \<and> n < 2 ^ 31 - 28 \<and> tag \<noteq> 0 \<and> int_range tag \<longrightarrow>
         Z_TagMalloc st n tag = Some (Inl (COM_ERROR ERR_FATAL))
         \<or> (\<exists>st' r. Z_TagMalloc st n tag = Some (Inr (st', r)) \<and> live r = None))"
proof (intro conjI allI impI)
  have inv: "zone_inv st live" by (rule zone_reach_inv [OF assms])
  obtain bm bs where z: "zones_ok st bm bs" and l: "live_ok (ram st) live (set bm \<union> set bs)"
    using inv by (auto simp: zone_inv_def)
  have p: "pair_ok (ram st) (mainzone st) bm (smallzone st) bs" using z by (simp add: zones_ok_def)
  show "Z_CheckHeap st = Some (Inr ())" using Z_CheckHeap_ok [of st bm] p by (simp add: pair_ok_def)
  show "holds_at (ram st) r cs" if "live r = Some cs" for r cs using l that by (simp add: live_ok_def)
  show "\<exists>st'. Z_Free st r = Inr st'" if "live r = Some cs" for r cs using free_inv [OF inv that] by blast
  show "r + int (length cs) \<le> q \<or> q + int (length ds) \<le> r"
    if h: "live r = Some cs \<and> live q = Some ds \<and> r \<noteq> q" for r cs q ds
  proof -
    obtain a s t where a: "(a, s, t) \<in> set bm \<union> set bs" "r = a + 20" "int (length cs) + 24 \<le> s"
      using l h unfolding live_ok_def by blast
    obtain b u v where b: "(b, u, v) \<in> set bm \<union> set bs" "q = b + 20" "int (length ds) + 24 \<le> u"
      using l h unfolding live_ok_def by blast
    show ?thesis using pair_apart [OF p a(1) b(1)] a(2,3) b(2,3) h by auto
  qed
  show "Z_TagMalloc st n tag = Some (Inl (COM_ERROR ERR_FATAL))
      \<or> (\<exists>st' r. Z_TagMalloc st n tag = Some (Inr (st', r)) \<and> live r = None)"
    if n: "0 \<le> n \<and> n < 2 ^ 31 - 28 \<and> tag \<noteq> 0 \<and> int_range tag" for n tag
  proof -
    have "alloc_result st (zone_of st tag) (blocks_of tag bm bs) n tag (Z_TagMalloc st n tag)"
      using Z_TagMalloc_zone [OF zones_ok_zone [OF z]] n by blast
    then consider "Z_TagMalloc st n tag = Some (Inl (COM_ERROR ERR_FATAL))"
      | st' r where "Z_TagMalloc st n tag = Some (Inr (st', r))"
      by (auto simp: alloc_result_def split: option.splits)
    then show ?thesis using alloc_inv(1) [OF inv] n by cases blast+
  qed
qed

lemma zone_client_safe_witness:
  "\<exists>st r. Z_TagMalloc zone_sample 3 TAG_SMALL = Some (Inr (st, r)) \<and> holds_at (ram st) r [0, 0, 0]
     \<and> (\<exists>st'. Z_Free st r = Inr st')"
proof -
  have t: "TAG_SMALL \<noteq> 0" "int_range TAG_SMALL" by (simp_all add: TAG_SMALL_def int_range_def)
  have "alloc_result zone_sample (zone_of zone_sample TAG_SMALL) [(4128, 1048544, 0)] 3 TAG_SMALL (Z_TagMalloc zone_sample 3 TAG_SMALL)"
    using Z_TagMalloc_zone [OF zones_ok_zone [OF zone_sample_ok] t, of 3] by (simp add: blocks_of_def)
  then obtain st r where a: "Z_TagMalloc zone_sample 3 TAG_SMALL = Some (Inr (st, r))"
    by (auto simp: alloc_result_def block_size_eq split: option.splits)
  have "zone_reach st [r \<mapsto> [0, 0, 0]]"
    using zone_reach.alloc [OF zone_sample_reach _ _ t a] by (simp add: numeral_3_eq_3)
  from zone_client_safe [OF this] show ?thesis using a by auto
qed


text \<open>
  Claim C37.  \<open>Z_FreeTags\<close> comes to an end and frees every block of the tag: the zone is in
  order afterwards, no block has the tag, and the blocks with other tags keep their contents.
\<close>

theorem Z_FreeTags_frees:
  assumes "zones_ok st bm bs" "tag \<noteq> 0" "tag \<noteq> TAG_STATIC"
  shows "\<exists>m' bl. Z_FreeTags st tag = Some (Inr (st\<lparr>ram := m'\<rparr>)) \<and> zone_ok m' (zone_of st tag) bl
    \<and> without_tag tag bl \<and> kept (ram st) m' tag (blocks_of tag bm bs) bl"
proof -
  let ?z = "zone_of st tag" and ?m = "ram st"
  have ok: "zone_ok ?m ?z (blocks_of tag bm bs)" by (rule zones_ok_zone [OF assms(1)])
  then obtain a s t ys where bl: "blocks_of tag bm bs = (a, s, t) # ys"
    by (cases "blocks_of tag bm bs") (auto simp: zone_ok_def)
  have h: "heap_ok ?m ?z ((a, s, t) # ys)" using ok by (simp add: zone_ok_def bl)
  then have first: "bnext ?m (blocklist ?z) = a" by (simp add: heap_ok_def zring_def)
  have mem: "a \<in> insert (blocklist ?z) (set (addrs ((a, s, t) # ys)))" by simp
  note R = zone_ok_rover [OF ok [unfolded bl] mem ring_address [OF h mem]]
  have "\<exists>m' bs'. free_tags tag ?z (st\<lparr>ram := set_zrover ?m ?z a\<rparr>)
        = Some (Inr (st\<lparr>ram := set_zrover ?m ?z a, ram := m'\<rparr>)) \<and> zone_ok m' ?z bs'
      \<and> zsize m' ?z = zsize (ram (st\<lparr>ram := set_zrover ?m ?z a\<rparr>)) ?z \<and> without_tag tag bs'
      \<and> kept (ram (st\<lparr>ram := set_zrover ?m ?z a\<rparr>)) m' tag ([] @ (a, s, t) # ys) bs'
      \<and> (\<forall>x. x < ?z \<or> ?z + zsize (ram (st\<lparr>ram := set_zrover ?m ?z a\<rparr>)) ?z \<le> x \<longrightarrow>
           m' x = ram (st\<lparr>ram := set_zrover ?m ?z a\<rparr>) x)"
    by (rule free_tags_ok [OF assms(2,3)]) (use R(1,2) in \<open>simp_all add: zone_of_def without_tag_def\<close>)
  then obtain m' bs' where m': "free_tags tag ?z (st\<lparr>ram := set_zrover ?m ?z a\<rparr>) = Some (Inr (st\<lparr>ram := m'\<rparr>))"
      "zone_ok m' ?z bs'" "without_tag tag bs'" "kept (set_zrover ?m ?z a) m' tag ((a, s, t) # ys) bs'"
    by auto
  then show ?thesis
    using first kept_trans [OF R(4) m'(4)] bl
    by (auto simp: Z_FreeTags_def Let_def zone_of_def [symmetric])
qed

lemma Z_FreeTags_frees_witness: "\<exists>m. Z_FreeTags zone_sample TAG_GENERAL = Some (Inr (zone_sample\<lparr>ram := m\<rparr>))"
  using Z_FreeTags_frees [OF zone_sample_ok, of TAG_GENERAL]
  by (auto simp: TAG_GENERAL_def TAG_STATIC_def)

section \<open>Where the code does not do what it is for\<close>

text \<open>With \<open>TAG_STATIC\<close> the loop of \<open>Z_FreeTags\<close> stays at the first block of that tag for ever.\<close>

lemma free_tags_static_never:
  assumes "btag (ram st) (zrover (ram st) z) = TAG_STATIC" "bid (ram st) (zrover (ram st) z) = ZONEID"
    "zrover (ram st) z \<noteq> blocklist z" "zrover (ram st) z + 20 \<noteq> 0"
  shows "free_tags TAG_STATIC z st = None"
proof -
  have stay: "Z_Free st (zrover (ram st) z + 20) = Inr st"
    using assms by (simp add: Z_Free_def Let_def TAG_STATIC_def)
  have "\<not> (tag = TAG_STATIC \<and> y = z \<and> s = st)" if "free_tags tag y s = Some r" for tag y s r
    using that by (rule free_tags.raw_induct [rotated]) (use assms stay in \<open>auto simp: Let_def; blast\<close>)
  then show ?thesis by (cases "free_tags TAG_STATIC z st") auto
qed

text \<open>The report leaves out the last block of the zone.\<close>

lemma count_from_misses_last:
  "heap_ok m z (xs @ (a, s, t) # ys) \<Longrightarrow> ys = [] \<Longrightarrow> count_from m z a acc = Some acc"
  using prev_in_ring(2) [of m z xs a s t ys] by (subst count_from.simps) simp

lemma Z_PrintZoneHeap_misses_last:
  assumes "heap_ok m z [(a, s, t)]"
  shows "Z_PrintZoneHeap m z = Some (0, 0, 0)"
proof -
  have "bnext m (blocklist z) = a" using assms by (simp add: heap_ok_def zring_def)
  moreover have "count_from m z a (0, 0) = Some (0, 0)"
    using count_from_misses_last [of m z "[]" a s t "[]"] assms by simp
  ultimately show ?thesis by (simp add: Z_PrintZoneHeap_def)
qed

text \<open>\<open>Mem_AlignedAlloc\<close> adds the remainder instead of what is missing to the next multiple.\<close>

lemma Mem_AlignedAlloc_not_aligned: "Mem_AlignedAlloc 0x1000 0x1008 mod 0x1000 = 0x10"
  by (simp add: Mem_AlignedAlloc_def)

end
