(* ===== verification/ZoneStrings.thy ===== *)
theory ZoneStrings
  imports ZoneSystem
begin

text \<open>
  The allocator as an interface: what a caller of \<open>S_Malloc\<close>, \<open>Z_Free\<close> and stores through a
  pointer relies on, and a caller, \<open>CopyString\<close>.  The interface is a locale over any state
  and any of its operations; its laws hold for the zones.
\<close>

section \<open>The interface\<close>

fun store_bytes :: "('s \<Rightarrow> int \<Rightarrow> byte \<Rightarrow> 's) \<Rightarrow> 's \<Rightarrow> int \<Rightarrow> bytes \<Rightarrow> 's" where
  "store_bytes wr s p [] = s"
| "store_bytes wr s p (b # bs) = store_bytes wr (wr s p b) (p + 1) bs"

locale allocator =
  fixes owns :: "'s \<Rightarrow> (int \<Rightarrow> bytes option) \<Rightarrow> bool"
    and malloc :: "'s \<Rightarrow> int \<Rightarrow> (fault + 's \<times> int) option"
    and release :: "'s \<Rightarrow> int \<Rightarrow> fault + 's"
    and wr :: "'s \<Rightarrow> int \<Rightarrow> byte \<Rightarrow> 's"
    and peek :: "'s \<Rightarrow> int \<Rightarrow> byte"
  assumes malloc_fresh: "owns s live \<Longrightarrow> 0 \<le> n \<Longrightarrow> n < 2 ^ 31 - 28 \<Longrightarrow> malloc s n = Some (Inr (s', p)) \<Longrightarrow> live p = None"
    and malloc_owns: "owns s live \<Longrightarrow> 0 \<le> n \<Longrightarrow> n < 2 ^ 31 - 28 \<Longrightarrow> malloc s n = Some (Inr (s', p)) \<Longrightarrow>
      owns s' (live(p \<mapsto> replicate (nat n) 0))"
    and malloc_returns: "owns s live \<Longrightarrow> 0 \<le> n \<Longrightarrow> n < 2 ^ 31 - 28 \<Longrightarrow>
      malloc s n = Some (Inl (COM_ERROR ERR_FATAL)) \<or> (\<exists>s' p. malloc s n = Some (Inr (s', p)))"
    and release_owns: "owns s live \<Longrightarrow> live p = Some cs \<Longrightarrow> \<exists>s'. release s p = Inr s' \<and> owns s' (live(p := None))"
    and wr_owns: "owns s live \<Longrightarrow> live p = Some cs \<Longrightarrow> i < length cs \<Longrightarrow>
      owns (wr s (p + int i) b) (live(p \<mapsto> cs[i := b]))"
    and peek_owned: "owns s live \<Longrightarrow> live p = Some cs \<Longrightarrow> i < length cs \<Longrightarrow> peek s (p + int i) = cs ! i"
begin

lemma store_bytes_owns:
  "owns s live \<Longrightarrow> live p = Some (pre @ old) \<Longrightarrow> length old = length bs \<Longrightarrow>
   owns (store_bytes wr s (p + int (length pre)) bs) (live(p \<mapsto> pre @ bs))"
proof (induction bs arbitrary: s live pre old)
  case Nil
  then show ?case by (simp add: fun_upd_idem)
next
  case (Cons b bs)
  obtain o1 old' where old: "old = o1 # old'" "length old' = length bs" using Cons.prems(3) by (cases old) auto
  let ?s = "wr s (p + int (length pre)) b" and ?live = "live(p \<mapsto> (pre @ [b]) @ old')"
  have own: "owns ?s ?live"
    using wr_owns [OF Cons.prems(1,2), of "length pre" b] by (simp add: old(1) list_update_append)
  have "?live p = Some ((pre @ [b]) @ old')" by simp
  note I = Cons.IH [OF own this old(2)]
  have "?live(p \<mapsto> (pre @ [b]) @ bs) = live(p \<mapsto> pre @ b # bs)" by simp
  then show ?case using I by (simp only: store_bytes.simps length_append_singleton of_nat_Suc) (simp add: ac_simps)
qed

text \<open>A copy: a fresh allocation that holds the bytes, and gives them back.\<close>

lemma copy_owned:
  assumes "owns s live" "int (length bs) < 2 ^ 31 - 28" "malloc s (int (length bs)) = Some (Inr (s1, p))"
  shows "live p = None" "owns (store_bytes wr s1 p bs) (live(p \<mapsto> bs))"
    "i < length bs \<Longrightarrow> peek (store_bytes wr s1 p bs) (p + int i) = bs ! i"
    "\<exists>s2. release (store_bytes wr s1 p bs) p = Inr s2 \<and> owns s2 live"
proof -
  note a = assms(1) _ assms(2,3)
  show fresh: "live p = None" by (rule malloc_fresh [OF a]) simp
  have "owns s1 (live(p \<mapsto> replicate (length bs) 0))" using malloc_owns [OF a] by simp
  from store_bytes_owns [OF this, of p "[]" "replicate (length bs) 0" bs]
  show o: "owns (store_bytes wr s1 p bs) (live(p \<mapsto> bs))" by simp
  show "i < length bs \<Longrightarrow> peek (store_bytes wr s1 p bs) (p + int i) = bs ! i"
    using peek_owned [OF o] by simp
  have "live(p := None) = live" using fresh by auto
  then show "\<exists>s2. release (store_bytes wr s1 p bs) p = Inr s2 \<and> owns s2 live"
    using release_owns [OF o, of p bs] by simp
qed

end

section \<open>The zones are an allocator\<close>

definition poke :: "zones \<Rightarrow> int \<Rightarrow> byte \<Rightarrow> zones" where
  "poke st a b = st\<lparr>ram := (ram st)(a := b)\<rparr>"

lemma small_tag: "TAG_SMALL \<noteq> 0" "int_range TAG_SMALL"
  by (simp_all add: TAG_SMALL_def int_range_def)

lemma S_Malloc_returns:
  assumes "zone_reach st live" "0 \<le> n" "n < 2 ^ 31 - 28"
  shows "S_Malloc st n = Some (Inl (COM_ERROR ERR_FATAL)) \<or> (\<exists>st' p. S_Malloc st n = Some (Inr (st', p)))"
proof -
  obtain bm bs where z: "zones_ok st bm bs"
    using zone_reach_inv [OF assms(1)] by (auto simp: zone_inv_def)
  have "alloc_result st (zone_of st TAG_SMALL) bs n TAG_SMALL (S_Malloc st n)"
    using Z_TagMalloc_zone [OF zones_ok_zone [OF z] small_tag assms(2,3)]
    by (simp add: S_Malloc_def blocks_of_def)
  then show ?thesis by (auto simp: alloc_result_def split: option.splits)
qed

interpretation zh: allocator zone_reach S_Malloc Z_Free poke ram
proof unfold_locales
  fix s live n s' p
  assume a: "zone_reach s live" "0 \<le> (n :: int)" "n < 2 ^ 31 - 28"
  then show "S_Malloc s n = Some (Inl (COM_ERROR ERR_FATAL)) \<or> (\<exists>s' p. S_Malloc s n = Some (Inr (s', p)))"
    by (rule S_Malloc_returns)
  assume "S_Malloc s n = Some (Inr (s', p))"
  then have m: "Z_TagMalloc s n TAG_SMALL = Some (Inr (s', p))" by (simp add: S_Malloc_def)
  show "live p = None" by (rule alloc_inv(1) [OF zone_reach_inv [OF a(1)] a(2,3) small_tag m])
  show "zone_reach s' (live(p \<mapsto> replicate (nat n) 0))" by (rule zone_reach.alloc [OF a small_tag m])
next
  fix s live p cs i b
  assume a: "zone_reach s live" "live p = Some (cs :: bytes)"
  show "\<exists>s'. Z_Free s p = Inr s' \<and> zone_reach s' (live(p := None))"
    using free_inv [OF zone_reach_inv [OF a(1)] a(2)] zone_reach.free [OF a] by blast
  assume i: "i < length cs"
  show "zone_reach (poke s (p + int i) b) (live(p \<mapsto> cs[i := b]))"
    unfolding poke_def by (rule zone_reach.store [OF a i])
  obtain bm bs where "live_ok (ram s) live (set bm \<union> set bs)"
    using zone_reach_inv [OF a(1)] by (auto simp: zone_inv_def)
  then show "ram s (p + int i) = cs ! i" using a(2) i by (auto simp: live_ok_def holds_at_def)
qed

section \<open>Copying a string\<close>

lemma strcpy_store: "st\<lparr>ram := strcpy (ram st) p s\<rparr> = store_bytes poke st p (string_bytes s)"
proof (induction s arbitrary: st p)
  case Nil
  then show ?case by (simp add: string_bytes_def poke_def fun_upd_def)
next
  case (Cons c s)
  show ?case using Cons [of "poke st p (byte_of_char c)" "p + 1"] by (simp add: string_bytes_def poke_def fun_upd_def)
qed

text \<open>
  A copy of a string of two or more characters is a fresh allocation of the small
  zone that holds the characters and the terminator and stays apart from everything the caller
  holds; \<open>FreeString\<close> gives it back, after which the caller owns what it owned before.
\<close>

theorem CopyString_owned:
  assumes "zone_reach st live" "2 \<le> length s" "int (length s) < 2 ^ 31 - 30"
  shows "CopyString st s = Some (Inl (COM_ERROR ERR_FATAL))
    \<or> (\<exists>st1 p. CopyString st s = Some (Inr (st1, p)) \<and> live p = None
         \<and> zone_reach st1 (live(p \<mapsto> string_bytes s)) \<and> holds_at (ram st1) p (string_bytes s)
         \<and> (\<exists>st2. FreeString st1 p = Inr st2 \<and> zone_reach st2 live))"
proof -
  obtain c1 c2 r where c: "s = c1 # c2 # r" using assms(2) by (cases s; cases "tl s") auto
  have n: "s32 (int (length s) + 1) = int (length (string_bytes s))"
    "int (length (string_bytes s)) < 2 ^ 31 - 28" using assms(3) by (simp_all add: string_bytes_def)
  have copy: "CopyString st s = (case S_Malloc st (int (length (string_bytes s))) of
      None \<Rightarrow> None | Some (Inl e) \<Rightarrow> Some (Inl e)
    | Some (Inr (st1, out)) \<Rightarrow> Some (Inr (store_bytes poke st1 out (string_bytes s), out)))"
    using n(1) unfolding strcpy_store [symmetric]
    by (auto simp: CopyString_def c split: option.split sum.split)
  consider "S_Malloc st (int (length (string_bytes s))) = Some (Inl (COM_ERROR ERR_FATAL))"
    | st1 p where "S_Malloc st (int (length (string_bytes s))) = Some (Inr (st1, p))"
    using zh.malloc_returns [OF assms(1) _ n(2)] by auto
  then show ?thesis
  proof cases
    case 1
    then show ?thesis by (simp add: copy)
  next
    case 2
    note o = zh.copy_owned [OF assms(1) n(2) 2]
    have "p \<noteq> 0"
    proof
      assume "p = 0"
      then have "Z_Free (store_bytes poke st1 p (string_bytes s)) p = Inl (COM_ERROR ERR_DROP)"
        by (simp add: Z_Free_def)
      then show False using o(4) by simp
    qed
    then show ?thesis
      using o 2 by (auto simp: copy FreeString_def holds_at_def)
  qed
qed

lemma CopyString_owned_witness:
  "CopyString zone_sample ''map'' = Some (Inl (COM_ERROR ERR_FATAL))
   \<or> (\<exists>st p. CopyString zone_sample ''map'' = Some (Inr (st, p)) \<and> (\<exists>st2. FreeString st p = Inr st2))"
  using CopyString_owned [OF zone_sample_reach, of "''map''"] by auto

end
