(* ===== verification/ServerCommands.thy ===== *)
theory ServerCommands
  imports Netchan
begin

text \<open>
  The reliable commands of a client of the server: the ring of commands of
  src/src/netchan.h and server.h, their queueing (src/src/sv_main.c), their transmission
  (src/src/sv_snapshot.c), the encoding of the packets with the last commands
  (src/src/sv_net_chan.c) and the flood protected commands in the other direction
  (src/src/sv_client.c).

  A client is the part of \<open>client_t\<close> these operations use.  A command is kept as the 1024
  cells of its array, since the comparison and the encoding read behind the terminator of an
  empty string.  The counters are C integers; the loops over the pending numbers
  \<open>acknowledged + 1 .. sequence\<close> are folds over the interval, which is the C loop as long as
  the upper bound is below 2^31-1.
\<close>

section \<open>State\<close>

definition MAX_RELIABLE_COMMANDS :: int where "MAX_RELIABLE_COMMANDS = 128"

datatype clientConnectState = CS_FREE | CS_ZOMBIE | CS_CONNECTED | CS_PRIMED | CS_ACTIVE

primrec connect_rank :: "clientConnectState \<Rightarrow> nat" where
  "connect_rank CS_FREE = 0"
| "connect_rank CS_ZOMBIE = 1"
| "connect_rank CS_CONNECTED = 2"
| "connect_rank CS_PRIMED = 3"
| "connect_rank CS_ACTIVE = 4"

lemma connect_rank_inj: "connect_rank a = connect_rank b \<Longrightarrow> a = b"
  by (cases a; cases b) simp_all

text \<open>The comparisons of the code are those of the enumeration's values.\<close>

instantiation clientConnectState :: linorder
begin

definition less_eq_clientConnectState :: "clientConnectState \<Rightarrow> clientConnectState \<Rightarrow> bool" where
  "less_eq_clientConnectState a b \<longleftrightarrow> connect_rank a \<le> connect_rank b"

definition less_clientConnectState :: "clientConnectState \<Rightarrow> clientConnectState \<Rightarrow> bool" where
  "less_clientConnectState a b \<longleftrightarrow> connect_rank a < connect_rank b"

instance
  by standard (auto simp: less_eq_clientConnectState_def less_clientConnectState_def connect_rank_inj)

end

record rcmd =
  rc_buffer :: "char list"
  rc_time :: int
  rc_type :: int

record client =
  cl_state :: clientConnectState
  cl_netchan :: netchan
  canNotReliable :: bool
  needupdate :: bool
  updateconnOK :: bool
  delayDropMsg :: "string option"
  configDataAcknowledge :: int
  reliableCommands :: "rcmd list"
  reliableSequence :: int
  reliableAcknowledge :: int
  reliableSent :: int
  messageAcknowledge :: int
  challenge :: int
  serverId :: int
  lastClientCommand :: int
  lastClientCommandString :: "char list"
  nextReliableTime :: int
  floodprotect :: int
  lastPacketTime :: int
  wwwDl_var01 :: int
  wwwDownloadStarted :: bool
  wwwDlAck :: bool
  gamestateSent :: bool
  gamestateMessageNum :: int

text \<open>The slot of a number, its text, and a store to the slot.\<close>

definition rcmd_at :: "rcmd list \<Rightarrow> int \<Rightarrow> rcmd" where
  "rcmd_at R i = idx R (i AND (MAX_RELIABLE_COMMANDS - 1))"

definition rcmd_put :: "int \<Rightarrow> rcmd \<Rightarrow> rcmd list \<Rightarrow> rcmd list" where
  "rcmd_put i r R = put (i AND (MAX_RELIABLE_COMMANDS - 1)) r R"

definition rcmd_text :: "rcmd \<Rightarrow> string" where
  "rcmd_text r = cstr (rc_buffer r)"

text \<open>The array after the terminated string \<open>s\<close> has been stored; the rest keeps its cells.\<close>

definition rcmd_store :: "string \<Rightarrow> int \<Rightarrow> int \<Rightarrow> rcmd \<Rightarrow> rcmd" where
  "rcmd_store s now type r =
     r\<lparr>rc_buffer := blit 0 (MSG_WriteReliableCommandToBuffer s 1024 @ [NUL]) (rc_buffer r),
       rc_time := now, rc_type := type\<rparr>"

section \<open>Queueing a command\<close>

text \<open>\<open>sub_5310E0\<close>: the commands not sent yet are compacted, those of type 0 go.\<close>

primrec compact_loop :: "int list \<Rightarrow> int \<Rightarrow> rcmd list \<Rightarrow> int \<times> rcmd list" where
  "compact_loop [] v1 R = (v1, R)"
| "compact_loop (i # is) v1 R =
     (if rc_type (rcmd_at R i) \<noteq> 0
      then compact_loop is (v1 + 1)
             (if v1 AND (MAX_RELIABLE_COMMANDS - 1) \<noteq> i AND (MAX_RELIABLE_COMMANDS - 1)
              then rcmd_put v1 (rcmd_at R i) R else R)
      else compact_loop is v1 R)"

definition unsent_numbers :: "client \<Rightarrow> int list" where
  "unsent_numbers c = [s32 (reliableSent c + 1)..reliableSequence c]"

definition sub_5310E0 :: "client \<Rightarrow> client" where
  "sub_5310E0 c =
     (let (v1, R) = compact_loop (unsent_numbers c) (s32 (reliableSent c + 1)) (reliableCommands c)
      in c\<lparr>reliableCommands := R, reliableSequence := s32 (v1 - 1)\<rparr>)"

definition unit_end :: "string \<Rightarrow> bool" where
  "unit_end s \<longleftrightarrow> s = [] \<or> hd s = CHR '' ''"

fun I_IsEqualUnitWSpace :: "string \<Rightarrow> string \<Rightarrow> bool" where
  "I_IsEqualUnitWSpace (a # as) (b # bs) =
     (if a = CHR '' '' \<or> b = CHR '' '' then unit_end (a # as) \<and> unit_end (b # bs)
      else if a \<noteq> b then False
      else I_IsEqualUnitWSpace as bs)"
| "I_IsEqualUnitWSpace s t \<longleftrightarrow> unit_end s \<and> unit_end t"

text \<open>
  One round of \<open>sub_530FC0\<close>: does the stored command \<open>r\<close> stand for \<open>cmd\<close>?  The cells of the
  argument behind its terminator, which the comparisons reach for an empty command and for
  the one-character commands d and v, are not known: the fault \<open>OUT_OF_BOUNDS\<close>.
\<close>

definition same_command :: "string \<Rightarrow> rcmd \<Rightarrow> fault + bool" where
  "same_command cmd r =
     (if rc_type r = 0 then Inr False
      else if chr0 (rcmd_text r) \<noteq> chr0 cmd then Inr False
      else if 120 \<le> chr0 cmd \<and> chr0 cmd \<le> 122 then Inr False
      else if cmd = [] then Inl OUT_OF_BOUNDS
      else if tl cmd = cstr (drop 1 (rc_buffer r)) then Inr True
      else if chr0 cmd \<in> {100, 118} then
        (if tl cmd = [] then Inl OUT_OF_BOUNDS
         else Inr (I_IsEqualUnitWSpace (drop 2 cmd) (cstr (drop 2 (rc_buffer r)))))
      else Inr (chr0 cmd \<in> {67, 68, 97, 98, 111, 112, 113, 114, 116}))"

primrec find_loop :: "string \<Rightarrow> rcmd list \<Rightarrow> int list \<Rightarrow> fault + int" where
  "find_loop cmd R [] = Inr (-1)"
| "find_loop cmd R (i # is) =
     (case same_command cmd (rcmd_at R i) of
        Inl e \<Rightarrow> Inl e
      | Inr same \<Rightarrow> if same then Inr i else find_loop cmd R is)"

definition sub_530FC0 :: "client \<Rightarrow> string \<Rightarrow> fault + int" where
  "sub_530FC0 c cmd = find_loop cmd (reliableCommands c) (unsent_numbers c)"

text \<open>The commands behind a replaced one move down by one slot.\<close>

primrec shift_loop :: "int list \<Rightarrow> rcmd list \<Rightarrow> rcmd list" where
  "shift_loop [] R = R"
| "shift_loop (i # is) R = shift_loop is (rcmd_put (i - 1) (rcmd_at R i) R)"

definition SV_DelayDropClient :: "string \<Rightarrow> client \<Rightarrow> client" where
  "SV_DelayDropClient dropmsg c =
     (if cl_state c \<noteq> CS_ZOMBIE \<and> delayDropMsg c = None then c\<lparr>delayDropMsg := Some dropmsg\<rparr> else c)"

text \<open>\<open>txt\<close> is the formatted text; the 4 bytes of the header are in the same array.\<close>

definition NET_OutOfBandPrint ::
  "netenv \<Rightarrow> netsrc \<Rightarrow> netadr \<Rightarrow> string \<Rightarrow> netio \<Rightarrow> fault + (bool \<times> netio)" where
  "NET_OutOfBandPrint env sock adr txt io =
     NET_SendPacket env sock
       ([0xff, 0xff, 0xff, 0xff] @ map byte_of_char (take (nat (MAX_MSGLEN - 5)) txt)) adr io"

definition overflow_command :: string where
  "overflow_command = ''w '' @ [DQUOTE] @ ''EXE_SERVERCOMMANDOVERFLOW'' @ [DQUOTE]"

definition store_command :: "int \<Rightarrow> int \<Rightarrow> string \<Rightarrow> client \<Rightarrow> client" where
  "store_command now type cmd c =
     c\<lparr>reliableCommands := rcmd_put (reliableSequence c)
         (rcmd_store cmd now type (rcmd_at (reliableCommands c) (reliableSequence c)))
         (reliableCommands c)\<rparr>"

text \<open>\<open>now\<close> is \<open>svs.time\<close>.\<close>

definition SV_AddServerCommand ::
  "netenv \<Rightarrow> int \<Rightarrow> int \<Rightarrow> string \<Rightarrow> client \<Rightarrow> netio \<Rightarrow> fault + (client \<times> netio)" where
  "SV_AddServerCommand env now type cmd c io =
     (if adr_type (nc_remoteAddress (cl_netchan c)) = NA_BOT then Inr (c, io)
      else if canNotReliable c then Inr (c, io)
      else let full = (MAX_RELIABLE_COMMANDS div 2 \<le> s32 (reliableSequence c - reliableAcknowledge c)
                       \<or> cl_state c \<noteq> CS_ACTIVE);
               c1 = (if full then sub_5310E0 c else c)
        in if full \<and> type = 0 then Inr (c1, io)
        else case sub_530FC0 c1 cmd of
            Inl e \<Rightarrow> Inl e
          | Inr v4 \<Rightarrow>
              let c2 = (if v4 < 0 then c1\<lparr>reliableSequence := s32 (reliableSequence c1 + 1)\<rparr>
                        else c1\<lparr>reliableCommands :=
                               shift_loop [v4 + 1..reliableSequence c1] (reliableCommands c1)\<rparr>)
              in if s32 (reliableSequence c2 - reliableAcknowledge c2) = MAX_RELIABLE_COMMANDS + 1
                 then (case NET_OutOfBandPrint env NS_SERVER
                              (nc_remoteAddress (cl_netchan c2)) ''disconnect'' io of
                         Inl e \<Rightarrow> Inl e
                       | Inr (ok, io1) \<Rightarrow>
                           Inr (store_command now 1 overflow_command
                                  (SV_DelayDropClient ''EXE_SERVERCOMMANDOVERFLOW'' c2), io1))
                 else Inr (store_command now type cmd c2, io))"

text \<open>
  \<open>SV_SendServerCommandString\<close>: one client, or every client of the table that is at least
  primed.  The console echo of broadcast \<open>say\<close> commands is not modelled.
\<close>

fun broadcast_loop ::
  "netenv \<Rightarrow> int \<Rightarrow> int \<Rightarrow> string \<Rightarrow> client list \<Rightarrow> netio \<Rightarrow> fault + (client list \<times> netio)" where
  "broadcast_loop env now type message [] io = Inr ([], io)"
| "broadcast_loop env now type message (c # cs) io =
     (case (if cl_state c < CS_PRIMED then Inr (c, io)
            else SV_AddServerCommand env now type message c io) of
        Inl e \<Rightarrow> Inl e
      | Inr (c1, io1) \<Rightarrow>
          (case broadcast_loop env now type message cs io1 of
             Inl e \<Rightarrow> Inl e
           | Inr (cs1, io2) \<Rightarrow> Inr (c1 # cs1, io2)))"

definition SV_SendServerCommandString ::
  "netenv \<Rightarrow> int \<Rightarrow> nat option \<Rightarrow> int \<Rightarrow> string \<Rightarrow> client list \<Rightarrow> netio \<Rightarrow>
   fault + (client list \<times> netio)" where
  "SV_SendServerCommandString env now cl type message cs io =
     (case cl of
        None \<Rightarrow> broadcast_loop env now type message cs io
      | Some j \<Rightarrow>
          (case SV_AddServerCommand env now type message (cs ! j) io of
             Inl e \<Rightarrow> Inl e
           | Inr (c, io1) \<Rightarrow> Inr (cs[j := c], io1)))"

section \<open>Transmitting the pending commands\<close>

definition svc_serverCommand :: int where "svc_serverCommand = 4"

definition pending_numbers :: "client \<Rightarrow> int list" where
  "pending_numbers c = [s32 (reliableAcknowledge c + 1)..reliableSequence c]"

definition write_command :: "rcmd list \<Rightarrow> int \<Rightarrow> msg \<Rightarrow> msg" where
  "write_command R i m =
     MSG_WriteString (Some (rcmd_text (rcmd_at R i))) (MSG_WriteLong i (MSG_WriteByte svc_serverCommand m))"

definition SV_UpdateServerCommandsToClient :: "client \<Rightarrow> msg \<Rightarrow> client \<times> msg" where
  "SV_UpdateServerCommandsToClient c m =
     (c\<lparr>reliableSent := reliableSequence c\<rparr>,
      fold (write_command (reliableCommands c)) (pending_numbers c) m)"

text \<open>
  Only as many as fit.  \<open>cmdlen\<close> is an \<open>int\<close>, so the comparison is signed.  The loop also
  returns its counter \<open>i\<close>.
\<close>

primrec recover_loop :: "rcmd list \<Rightarrow> int list \<Rightarrow> int \<Rightarrow> msg \<Rightarrow> int \<times> msg" where
  "recover_loop R [] i m = (i, m)"
| "recover_loop R (j # js) i m =
     (if maxsize m \<le> int (length (rcmd_text (rcmd_at R j))) + cursize m + 6 then (j, m)
      else recover_loop R js (j + 1) (write_command R j m))"

definition SV_UpdateServerCommandsToClientRecover :: "client \<Rightarrow> msg \<Rightarrow> client \<times> msg" where
  "SV_UpdateServerCommandsToClientRecover c m =
     (let (i, m1) = recover_loop (reliableCommands c) (pending_numbers c)
                      (s32 (reliableAcknowledge c + 1)) m
      in (if reliableSent c < i - 1 then c\<lparr>reliableSent := i - 1\<rparr> else c, m1))"

section \<open>The encoding of the packets\<close>

text \<open>
  The common loop of \<open>SV_Netchan_Decode\<close> and \<open>SV_Netchan_Encode\<close>: the key runs over the
  string again and again.  \<open>str\<close> is the array that holds the string.
\<close>

fun xor_stream :: "char list \<Rightarrow> nat \<Rightarrow> nat \<Rightarrow> byte \<Rightarrow> bytes \<Rightarrow> bytes" where
  "xor_stream str i index key [] = []"
| "xor_stream str i index key (d # ds) =
     (let index1 = (if str ! index = NUL then 0 else index);
          key1 = key XOR push_bit (i mod 2) (byte_of_char (str ! index1))
      in (d XOR key1) # xor_stream str (Suc i) (Suc index1) key1 ds)"

definition SV_Netchan_Decode :: "client \<Rightarrow> bytes \<Rightarrow> bytes" where
  "SV_Netchan_Decode c bs =
     xor_stream (rc_buffer (rcmd_at (reliableCommands c) (reliableAcknowledge c))) 0 0
       (word_of_int (challenge c XOR serverId c mod 256 XOR messageAcknowledge c)) bs"

text \<open>The first four bytes stay as they are.\<close>

definition SV_Netchan_Encode :: "client \<Rightarrow> bytes \<Rightarrow> bytes" where
  "SV_Netchan_Encode c bs =
     take 4 bs @
     xor_stream (lastClientCommandString c) 0 0
       (word_of_int (challenge c XOR outgoingSequence (cl_netchan c))) (drop 4 bs)"

definition SV_Netchan_Transmit ::
  "netenv \<Rightarrow> client \<Rightarrow> bytes \<Rightarrow> netio \<Rightarrow> fault + (bool \<times> client \<times> netio)" where
  "SV_Netchan_Transmit env c bs io =
     (case Netchan_Transmit env (cl_netchan c)
             (if int (length bs) - 4 \<noteq> 0 then SV_Netchan_Encode c bs else bs) io of
        Inl e \<Rightarrow> Inl e
      | Inr (ok, nc, io1) \<Rightarrow> Inr (ok, c\<lparr>cl_netchan := nc\<rparr>, io1))"

end
