(* ===== verification/ServerQueue.thy ===== *)
theory ServerQueue
  imports ServerCommands
begin

text \<open>
  The queue of reliable commands as a list: the slots of the numbers behind the last sent one
  are compacted, searched and shifted like the list of their commands, and what has been sent
  keeps its slots.  The array provides the ring interface of the prelude.
\<close>

section \<open>The array as a ring\<close>

lemma and_127: "(i :: int) AND 127 = i mod 128"
  using take_bit_eq_mask [of 7 i] by (simp add: take_bit_eq_mod mask_eq_exp_minus_1)

lemma slot_127: "i AND (MAX_RELIABLE_COMMANDS - 1) = i mod 128"
  by (simp add: MAX_RELIABLE_COMMANDS_def and_127)

lemma slot_127_eq: "\<bar>i - j\<bar> < 128 \<Longrightarrow> i mod 128 = j mod (128::int) \<longleftrightarrow> i = j"
  using mod_slot_eq [of 128 i j] by simp

interpretation cmd_ring: ring rcmd_at rcmd_put "\<lambda>_. 128" "\<lambda>R. length R = 128"
proof unfold_locales
  fix R :: "rcmd list" and i :: int and r
  assume "length R = 128" "0 \<le> i"
  then show "rcmd_at (rcmd_put i r R) i = r"
    by (simp add: rcmd_at_def rcmd_put_def slot_127 idx_put_same nat_less_iff)
next
  fix R :: "rcmd list" and i j :: int and r
  assume h: "length R = 128" "0 \<le> i" "0 \<le> j" "i \<noteq> j" "\<bar>i - j\<bar> < 128"
  then have "i mod 128 \<noteq> j mod 128" using slot_127_eq [of i j] by simp
  then show "rcmd_at (rcmd_put i r R) j = rcmd_at R j"
    by (simp add: rcmd_at_def rcmd_put_def slot_127 idx_put_other)
qed (simp_all add: rcmd_put_def)

lemmas ring_read = cmd_ring.get_put_same cmd_ring.get_put_other cmd_ring.put_inv

definition commands_of :: "rcmd list \<Rightarrow> int \<Rightarrow> int \<Rightarrow> rcmd list" where
  "commands_of R i j = map (rcmd_at R) [i..j]"

lemma commands_of_Nil: "j < i \<Longrightarrow> commands_of R i j = []"
  by (simp add: commands_of_def)

lemma commands_of_Cons: "i \<le> j \<Longrightarrow> commands_of R i j = rcmd_at R i # commands_of R (i + 1) j"
  by (simp add: commands_of_def upto_rec1)

lemma commands_of_snoc: "i \<le> j \<Longrightarrow> commands_of R i j = commands_of R i (j - 1) @ [rcmd_at R j]"
  by (simp add: commands_of_def upto_rec2)

lemma length_commands_of: "int (length (commands_of R i j)) = max 0 (j - i + 1)"
  by (simp add: commands_of_def)

lemma commands_of_cong:
  "(\<And>k. i \<le> k \<Longrightarrow> k \<le> j \<Longrightarrow> rcmd_at R k = rcmd_at S k) \<Longrightarrow> commands_of R i j = commands_of S i j"
  by (simp add: commands_of_def)

lemma commands_of_append:
  assumes "i \<le> k + 1" "k \<le> j"
  shows "commands_of R i j = commands_of R i k @ commands_of R (k + 1) j"
proof (cases "k < i")
  case True
  then have "i = k + 1" using assms by simp
  then show ?thesis by (simp add: commands_of_Nil)
next
  case False
  then show ?thesis using assms upto_split2 [of i k j] by (simp add: commands_of_def)
qed

section \<open>Compaction, search, shift\<close>

abbreviation wanted :: "rcmd \<Rightarrow> bool" where "wanted r \<equiv> rc_type r \<noteq> 0"

definition same_below :: "int \<Rightarrow> int \<Rightarrow> rcmd list \<Rightarrow> rcmd list \<Rightarrow> bool" where
  "same_below lo hi R S \<longleftrightarrow> (\<forall>j. lo \<le> j \<and> j < hi \<longrightarrow> rcmd_at S j = rcmd_at R j)"

lemma compact_step:
  assumes "length R = 128" "0 \<le> lo" "lo \<le> v" "v \<le> i" "i - lo < 128"
  shows "(if v AND (MAX_RELIABLE_COMMANDS - 1) \<noteq> i AND (MAX_RELIABLE_COMMANDS - 1)
          then rcmd_put v (rcmd_at R i) R else R) = rcmd_put v (rcmd_at R i) R"
proof (cases "v = i")
  case True
  have "nat (i mod 128) < length R" using assms by (simp add: nat_less_iff)
  then show ?thesis using True
    by (simp add: rcmd_put_def rcmd_at_def put_def idx_def slot_127)
next
  case False
  then show ?thesis using assms slot_127_eq [of v i] by (simp add: slot_127)
qed

lemma compact_loop_spec:
  "length R = 128 \<Longrightarrow> 0 \<le> lo \<Longrightarrow> lo \<le> v1 \<Longrightarrow> v1 \<le> i \<Longrightarrow> hi - lo < 128 \<Longrightarrow>
   compact_loop [i..hi] v1 R = (v, S) \<Longrightarrow>
   length S = 128 \<and> v1 \<le> v \<and> same_below lo v1 R S \<and>
   commands_of S v1 (v - 1) = filter wanted (commands_of R i hi)"
proof (induction "nat (hi - i + 1)" arbitrary: i v1 R)
  case 0
  then show ?case by (simp add: commands_of_Nil same_below_def)
next
  case (Suc n)
  then have i: "i \<le> hi" "[i..hi] = i # [i + 1..hi]" by (simp_all add: upto_rec1)
  have n: "n = nat (hi - (i + 1) + 1)" using Suc.hyps(2) by simp
  show ?case
  proof (cases "wanted (rcmd_at R i)")
    case False
    then have L: "compact_loop [i + 1..hi] v1 R = (v, S)" using Suc.prems(6) i by simp
    show ?thesis
      using Suc.hyps(1) [OF n Suc.prems(1-3) _ Suc.prems(5) L] Suc.prems(4) i False
      by (simp add: commands_of_Cons)
  next
    case True
    define R1 where "R1 = rcmd_put v1 (rcmd_at R i) R"
    have L: "compact_loop [i + 1..hi] (v1 + 1) R1 = (v, S)"
      using Suc.prems i True compact_step [of R lo v1 i] by (simp add: R1_def)
    have R1: "length R1 = 128" using Suc.prems by (simp add: R1_def cmd_ring.put_inv)
    have IH: "length S = 128 \<and> v1 + 1 \<le> v \<and> same_below lo (v1 + 1) R1 S \<and>
        commands_of S (v1 + 1) (v - 1) = filter wanted (commands_of R1 (i + 1) hi)"
      using Suc.prems by (intro Suc.hyps(1) [OF n R1 _ _ _ _ L]) auto
    have o: "rcmd_at R1 j = rcmd_at R j" if "lo \<le> j" "j \<le> hi" "j \<noteq> v1" for j
      unfolding R1_def using Suc.prems that i by (intro cmd_ring.get_put_other) auto
    have "rcmd_at S v1 = rcmd_at R1 v1" using IH Suc.prems by (simp add: same_below_def)
    also have "\<dots> = rcmd_at R i" unfolding R1_def using Suc.prems by (intro cmd_ring.get_put_same) auto
    finally have h: "rcmd_at S v1 = rcmd_at R i" .
    have c: "commands_of R1 (i + 1) hi = commands_of R (i + 1) hi"
      using o Suc.prems by (intro commands_of_cong) auto
    have b: "same_below lo v1 R S"
      using IH o Suc.prems i by (simp add: same_below_def)
    show ?thesis using IH h c b i True by (simp add: commands_of_Cons)
  qed
qed

lemma shift_loop_spec:
  "length R = 128 \<Longrightarrow> 0 \<le> lo \<Longrightarrow> lo \<le> v \<Longrightarrow> hi - lo < 128 \<Longrightarrow> v \<le> hi \<Longrightarrow>
   S = shift_loop [v + 1..hi] R \<Longrightarrow>
   length S = 128 \<and> same_below lo v R S \<and> commands_of S v (hi - 1) = commands_of R (v + 1) hi"
proof (induction "nat (hi - v)" arbitrary: v R)
  case 0
  then show ?case by (simp add: commands_of_Nil same_below_def)
next
  case (Suc n)
  then have i: "v + 1 \<le> hi" "[v + 1..hi] = (v + 1) # [v + 1 + 1..hi]" by (simp_all add: upto_rec1)
  have n: "n = nat (hi - (v + 1))" using Suc.hyps(2) by simp
  define R1 where "R1 = rcmd_put v (rcmd_at R (v + 1)) R"
  have R1: "length R1 = 128" using Suc.prems by (simp add: R1_def cmd_ring.put_inv)
  have L: "S = shift_loop [v + 1 + 1..hi] R1" using Suc.prems i by (simp add: R1_def)
  have IH: "length S = 128 \<and> same_below lo (v + 1) R1 S \<and>
      commands_of S (v + 1) (hi - 1) = commands_of R1 (v + 1 + 1) hi"
    using Suc.prems i by (intro Suc.hyps(1) [OF n R1 _ _ _ _ L]) auto
  have o: "rcmd_at R1 j = rcmd_at R j" if "lo \<le> j" "j \<le> hi" "j \<noteq> v" for j
    unfolding R1_def using Suc.prems that i by (intro cmd_ring.get_put_other) auto
  have "rcmd_at S v = rcmd_at R1 v" using IH Suc.prems by (simp add: same_below_def)
  also have "\<dots> = rcmd_at R (v + 1)" unfolding R1_def using Suc.prems by (intro cmd_ring.get_put_same) auto
  finally have h: "rcmd_at S v = rcmd_at R (v + 1)" .
  have c: "commands_of R1 (v + 1 + 1) hi = commands_of R (v + 1 + 1) hi"
    using o Suc.prems by (intro commands_of_cong) auto
  show ?case using IH h c o Suc.prems i by (simp add: commands_of_Cons same_below_def)
qed

text \<open>The abstract operation on the list of unsent commands: the first match goes.\<close>

primrec drop_first :: "('a \<Rightarrow> bool) \<Rightarrow> 'a list \<Rightarrow> 'a list" where
  "drop_first P [] = []"
| "drop_first P (x # xs) = (if P x then xs else x # drop_first P xs)"

lemma drop_first_none: "\<forall>x \<in> set xs. \<not> P x \<Longrightarrow> drop_first P xs = xs"
  by (induction xs) auto

lemma drop_first_append:
  "\<forall>x \<in> set xs. \<not> P x \<Longrightarrow> drop_first P (xs @ ys) = xs @ drop_first P ys"
  by (induction xs) auto

definition stands_for :: "string \<Rightarrow> rcmd \<Rightarrow> bool" where
  "stands_for cmd r \<longleftrightarrow> same_command cmd r = Inr True"

text \<open>Commands whose comparison stays within their text.\<close>

definition comparable :: "string \<Rightarrow> bool" where
  "comparable cmd \<longleftrightarrow> nul_free cmd \<and> cmd \<noteq> [] \<and> (chr0 cmd \<in> {100, 118} \<longrightarrow> tl cmd \<noteq> [])"

lemma same_command_total: "comparable cmd \<Longrightarrow> \<exists>b. same_command cmd r = Inr b"
  by (auto simp: comparable_def same_command_def)

lemma find_loop_spec:
  assumes "comparable cmd"
  shows "find_loop cmd R [i..hi] = Inr (-1) \<and> (\<forall>r \<in> set (commands_of R i hi). \<not> stands_for cmd r) \<or>
    (\<exists>v. find_loop cmd R [i..hi] = Inr v \<and> i \<le> v \<and> v \<le> hi \<and> stands_for cmd (rcmd_at R v) \<and>
         (\<forall>r \<in> set (commands_of R i (v - 1)). \<not> stands_for cmd r))"
proof (induction "nat (hi - i + 1)" arbitrary: i)
  case 0
  then show ?case by (simp add: commands_of_Nil)
next
  case (Suc n)
  then have i: "i \<le> hi" "[i..hi] = i # [i + 1..hi]" by (simp_all add: upto_rec1)
  have n: "n = nat (hi - (i + 1) + 1)" using Suc.hyps(2) by simp
  obtain b where b: "same_command cmd (rcmd_at R i) = Inr b" using same_command_total [OF assms] by blast
  show ?case
  proof (cases b)
    case True
    then have "find_loop cmd R [i..hi] = Inr i" "stands_for cmd (rcmd_at R i)"
      using i b by (simp_all add: stands_for_def)
    then show ?thesis using i by (intro disjI2 exI [of _ i]) (simp add: commands_of_Nil)
  next
    case False
    then have f: "find_loop cmd R [i..hi] = find_loop cmd R [i + 1..hi]" "\<not> stands_for cmd (rcmd_at R i)"
      using i b by (simp_all add: stands_for_def)
    from Suc.hyps(1) [OF n] show ?thesis
    proof (elim disjE exE conjE)
      fix v assume v: "find_loop cmd R [i + 1..hi] = Inr v" "i + 1 \<le> v" "v \<le> hi"
        "stands_for cmd (rcmd_at R v)" "\<forall>r \<in> set (commands_of R (i + 1) (v - 1)). \<not> stands_for cmd r"
      then show ?thesis using f by (intro disjI2 exI [of _ v]) (simp add: commands_of_Cons)
    qed (use f i in \<open>simp add: commands_of_Cons\<close>)
  qed
qed

section \<open>The queue of a client\<close>

definition rcmd_ok :: "rcmd \<Rightarrow> bool" where
  "rcmd_ok r \<longleftrightarrow> length (rc_buffer r) = 1024 \<and> rc_buffer r ! 1023 = NUL"

definition cells_fine :: "rcmd list \<Rightarrow> bool" where
  "cells_fine R \<longleftrightarrow> length R = 128 \<and> (\<forall>r \<in> set R. rcmd_ok r)"

definition queue_ok :: "client \<Rightarrow> bool" where
  "queue_ok c \<longleftrightarrow> cells_fine (reliableCommands c) \<and> 0 \<le> reliableAcknowledge c \<and>
     reliableAcknowledge c \<le> reliableSent c \<and> reliableSent c \<le> reliableSequence c \<and>
     reliableSequence c < 2 ^ 31 - 2"

definition unsent :: "client \<Rightarrow> rcmd list" where
  "unsent c = commands_of (reliableCommands c) (reliableSent c + 1) (reliableSequence c)"

text \<open>
  \<open>c'\<close> is \<open>c\<close> with the unsent commands \<open>xs\<close>; the numbers from \<open>lo\<close> to the last sent one
  keep their commands.
\<close>

definition requeued :: "int \<Rightarrow> client \<Rightarrow> rcmd list \<Rightarrow> client \<Rightarrow> bool" where
  "requeued lo c xs c' \<longleftrightarrow>
     c' = c\<lparr>reliableCommands := reliableCommands c', reliableSequence := reliableSequence c'\<rparr> \<and>
     cells_fine (reliableCommands c') \<and>
     reliableSequence c' = reliableSent c + int (length xs) \<and>
     commands_of (reliableCommands c') (reliableSent c + 1) (reliableSequence c') = xs \<and>
     same_below lo (reliableSent c + 1) (reliableCommands c) (reliableCommands c')"

lemma queue_okD:
  assumes "queue_ok c"
  shows "cells_fine (reliableCommands c)" "length (reliableCommands c) = 128"
    "0 \<le> reliableAcknowledge c" "reliableAcknowledge c \<le> reliableSent c"
    "reliableSent c \<le> reliableSequence c" "reliableSequence c < 2 ^ 31 - 2"
    "s32 (reliableSent c + 1) = reliableSent c + 1"
    "s32 (reliableAcknowledge c + 1) = reliableAcknowledge c + 1"
    "s32 (reliableSequence c + 1) = reliableSequence c + 1"
    "s32 (reliableSequence c - reliableAcknowledge c) = reliableSequence c - reliableAcknowledge c"
  using assms by (auto simp: queue_ok_def cells_fine_def)

lemma length_unsent:
  "queue_ok c \<Longrightarrow> int (length (unsent c)) = reliableSequence c - reliableSent c"
  by (auto simp: unsent_def length_commands_of dest: queue_okD(5))

lemma requeued_fields:
  assumes "requeued lo c xs c'"
  shows "reliableAcknowledge c' = reliableAcknowledge c" "reliableSent c' = reliableSent c"
    "cl_state c' = cl_state c" "cl_netchan c' = cl_netchan c" "unsent c' = xs"
    "canNotReliable c' = canNotReliable c" "delayDropMsg c' = delayDropMsg c"
    "reliableSequence c' = reliableSent c + int (length xs)"
proof -
  have c: "c' = c\<lparr>reliableCommands := reliableCommands c', reliableSequence := reliableSequence c'\<rparr>"
    using assms unfolding requeued_def by blast
  show f: "reliableAcknowledge c' = reliableAcknowledge c" "reliableSent c' = reliableSent c"
    "cl_state c' = cl_state c" "cl_netchan c' = cl_netchan c"
    "canNotReliable c' = canNotReliable c" "delayDropMsg c' = delayDropMsg c"
    by (subst c, simp)+
  show "unsent c' = xs" "reliableSequence c' = reliableSent c + int (length xs)"
    using assms f unfolding requeued_def unsent_def by metis+
qed

lemma requeued_ok:
  assumes "queue_ok c" "requeued lo c xs c'" "reliableSent c + int (length xs) < 2 ^ 31 - 2"
  shows "queue_ok c'"
  using assms queue_okD [OF assms(1)] requeued_fields [OF assms(2)]
  by (simp add: queue_ok_def requeued_def)

lemma requeued_trans:
  assumes "requeued lo c xs c1" "requeued lo c1 ys c2"
  shows "requeued lo c ys c2"
proof -
  have c1: "c1 = c\<lparr>reliableCommands := reliableCommands c1, reliableSequence := reliableSequence c1\<rparr>"
    and c2: "c2 = c1\<lparr>reliableCommands := reliableCommands c2, reliableSequence := reliableSequence c2\<rparr>"
    using assms unfolding requeued_def by blast+
  have c: "c2 = c\<lparr>reliableCommands := reliableCommands c2, reliableSequence := reliableSequence c2\<rparr>"
    by (subst c2, subst c1, simp)
  show ?thesis
    unfolding requeued_def
    by (intro conjI, rule c)
       (use assms requeued_fields(2) [OF assms(1)] in \<open>auto simp: requeued_def same_below_def\<close>)
qed

lemma rcmd_at_mem: "length R = 128 \<Longrightarrow> rcmd_at R i \<in> set R"
  by (simp add: rcmd_at_def idx_def slot_127 nat_less_iff)

lemma cells_fine_at: "cells_fine R \<Longrightarrow> rcmd_ok (rcmd_at R i)"
  by (simp add: cells_fine_def rcmd_at_mem)

lemma cells_fine_put: "cells_fine R \<Longrightarrow> rcmd_ok r \<Longrightarrow> cells_fine (rcmd_put i r R)"
  using set_update_subset_insert [of R "nat (i mod 128)" r]
  by (auto simp: cells_fine_def rcmd_put_def put_def slot_127)

lemma compact_loop_fine: "cells_fine R \<Longrightarrow> cells_fine (snd (compact_loop is v R))"
  by (induction "is" arbitrary: v R) (auto simp: cells_fine_put cells_fine_at)

lemma shift_loop_fine: "cells_fine R \<Longrightarrow> cells_fine (shift_loop is R)"
  by (induction "is" arbitrary: R) (auto simp: cells_fine_put cells_fine_at)

lemma sub_5310E0_requeued:
  assumes ok: "queue_ok c" and lo: "0 \<le> lo" "lo \<le> reliableSent c + 1" "reliableSequence c - lo < 128"
  shows "requeued lo c (filter wanted (unsent c)) (sub_5310E0 c)"
proof -
  note q = queue_okD [OF ok]
  obtain v S where L: "compact_loop (unsent_numbers c) (reliableSent c + 1) (reliableCommands c) = (v, S)"
    by fastforce
  have spec: "length S = 128 \<and> reliableSent c + 1 \<le> v \<and>
      same_below lo (reliableSent c + 1) (reliableCommands c) S \<and>
      commands_of S (reliableSent c + 1) (v - 1) = filter wanted (unsent c)"
    unfolding unsent_def using q lo L
    by (intro compact_loop_spec) (simp_all add: unsent_numbers_def)
  have fine: "cells_fine S" using compact_loop_fine [OF q(1)] L by (metis snd_conv)
  have "int (length (filter wanted (unsent c))) = v - 1 - reliableSent c"
    using spec length_commands_of [of S "reliableSent c + 1" "v - 1"] by simp
  moreover have "int (length (filter wanted (unsent c))) \<le> reliableSequence c - reliableSent c"
    using length_filter_le [of wanted "unsent c"] length_unsent [OF ok] by linarith
  ultimately have v: "v - 1 = reliableSent c + int (length (filter wanted (unsent c)))" "v - 1 < 2 ^ 31 - 2"
    using q(6) by linarith+
  then have s: "s32 (v - 1) = v - 1" using spec q by simp
  have "sub_5310E0 c = c\<lparr>reliableCommands := S, reliableSequence := v - 1\<rparr>"
    using L q s by (simp add: sub_5310E0_def)
  then show ?thesis using spec fine v by (simp add: requeued_def)
qed

lemma clean_char_NUL: "clean_command_char c = NUL \<longleftrightarrow> c = NUL"
proof -
  have "char_of (39 :: int) = CHR 0x27" by (simp add: char_of_eq_iff)
  then show ?thesis
    by (auto simp: clean_command_char_def I_CleanChar_def Let_def char_of_uc uc_def [of NUL])
qed

abbreviation cleaned :: "string \<Rightarrow> string" where
  "cleaned s \<equiv> MSG_WriteReliableCommandToBuffer s 1024"

lemma cleaned_fits: "nul_free s \<Longrightarrow> nul_free (cleaned s) \<and> length (cleaned s) \<le> 1023"
  unfolding MSG_WriteReliableCommandToBuffer_def nul_free_def
  by (auto dest!: in_set_takeD) (metis clean_char_NUL)

lemma rcmd_store_ok:
  assumes "rcmd_ok r" "nul_free s"
  shows "rcmd_ok (rcmd_store s now ty r)" "rcmd_text (rcmd_store s now ty r) = cleaned s"
    "rc_type (rcmd_store s now ty r) = ty" "rc_time (rcmd_store s now ty r) = now"
proof -
  define w where "w = cleaned s"
  have w: "nul_free w" "length w \<le> 1023" using cleaned_fits [OF assms(2)] by (simp_all add: w_def)
  have b: "rc_buffer (rcmd_store s now ty r) = w @ NUL # drop (Suc (length w)) (rc_buffer r)"
    using assms(1) w by (simp add: rcmd_store_def rcmd_ok_def blit_eq w_def)
  show "rcmd_ok (rcmd_store s now ty r)"
    using assms(1) w unfolding rcmd_ok_def b
    by (cases "length w = 1023") (auto simp: nth_append nth_Cons')
  show "rcmd_text (rcmd_store s now ty r) = cleaned s"
    using w unfolding rcmd_text_def b by (simp add: cstr_string w_def)
qed (simp_all add: rcmd_store_def)

lemma append_requeued:
  assumes ok: "queue_ok c" and lo: "0 \<le> lo" "lo \<le> reliableSent c + 1" "reliableSequence c + 1 - lo < 128"
    and r: "rcmd_ok r"
    and c': "c' = c\<lparr>reliableSequence := reliableSequence c + 1,
                   reliableCommands := rcmd_put (reliableSequence c + 1) r (reliableCommands c)\<rparr>"
  shows "requeued lo c (unsent c @ [r]) c'"
proof -
  note q = queue_okD [OF ok]
  let ?R = "reliableCommands c" and ?n = "reliableSequence c + 1"
  have o: "rcmd_at (rcmd_put ?n r ?R) j = rcmd_at ?R j" if "lo \<le> j" "j < ?n" for j
    using q lo that by (intro cmd_ring.get_put_other) auto
  have "commands_of (rcmd_put ?n r ?R) (reliableSent c + 1) ?n =
      commands_of (rcmd_put ?n r ?R) (reliableSent c + 1) (reliableSequence c) @
      [rcmd_at (rcmd_put ?n r ?R) ?n]"
    using commands_of_snoc [of "reliableSent c + 1" ?n "rcmd_put ?n r ?R"] q(5) by simp
  moreover have "commands_of (rcmd_put ?n r ?R) (reliableSent c + 1) (reliableSequence c) = unsent c"
    unfolding unsent_def using lo by (intro commands_of_cong o) simp_all
  moreover have "rcmd_at (rcmd_put ?n r ?R) ?n = r"
    using q by (intro cmd_ring.get_put_same) auto
  moreover have "same_below lo (reliableSent c + 1) ?R (rcmd_put ?n r ?R)"
    using o q by (simp add: same_below_def)
  moreover have "cells_fine (rcmd_put ?n r ?R)" using q(1) r by (rule cells_fine_put)
  ultimately show ?thesis
    using length_unsent [OF ok] by (simp add: requeued_def c')
qed

lemma replace_requeued:
  assumes ok: "queue_ok c" and lo: "0 \<le> lo" "lo \<le> reliableSent c + 1" "reliableSequence c - lo < 128"
    and v: "reliableSent c < v" "v \<le> reliableSequence c" and r: "rcmd_ok r"
    and c': "c' = c\<lparr>reliableCommands := rcmd_put (reliableSequence c) r
                       (shift_loop [v + 1..reliableSequence c] (reliableCommands c))\<rparr>"
  shows "requeued lo c (commands_of (reliableCommands c) (reliableSent c + 1) (v - 1) @
           commands_of (reliableCommands c) (v + 1) (reliableSequence c) @ [r]) c'"
proof -
  note q = queue_okD [OF ok]
  let ?R = "reliableCommands c" and ?n = "reliableSequence c" and ?s = "reliableSent c + 1"
  define S where "S = shift_loop [v + 1..?n] ?R"
  have sh: "length S = 128 \<and> same_below lo v ?R S \<and> commands_of S v (?n - 1) = commands_of ?R (v + 1) ?n"
    using q lo v by (intro shift_loop_spec) (auto simp: S_def)
  have o: "rcmd_at (rcmd_put ?n r S) j = rcmd_at S j" if "lo \<le> j" "j < ?n" for j
    using q sh lo that by (intro cmd_ring.get_put_other) auto
  have b: "same_below lo v ?R (rcmd_put ?n r S)"
    using sh o v by (simp add: same_below_def)
  have "commands_of (rcmd_put ?n r S) ?s ?n = commands_of (rcmd_put ?n r S) ?s (v - 1) @
      commands_of (rcmd_put ?n r S) v (?n - 1) @ [rcmd_at (rcmd_put ?n r S) ?n]"
    using commands_of_append [of ?s "v - 1" ?n "rcmd_put ?n r S"]
      commands_of_snoc [of v ?n "rcmd_put ?n r S"] v by simp
  moreover have "commands_of (rcmd_put ?n r S) ?s (v - 1) = commands_of ?R ?s (v - 1)"
    using b lo(2) by (intro commands_of_cong) (simp add: same_below_def)
  moreover have "commands_of (rcmd_put ?n r S) v (?n - 1) = commands_of S v (?n - 1)"
    using lo(2) v(1) by (intro commands_of_cong o) simp_all
  moreover have "rcmd_at (rcmd_put ?n r S) ?n = r"
    using q sh v by (intro cmd_ring.get_put_same) auto
  moreover have "cells_fine (rcmd_put ?n r S)"
    using q r by (simp add: S_def cells_fine_put shift_loop_fine)
  moreover have "same_below lo ?s ?R (rcmd_put ?n r S)"
    using b v by (simp add: same_below_def)
  moreover have "int (length (commands_of ?R ?s (v - 1) @ commands_of ?R (v + 1) ?n @ [r])) = ?n - reliableSent c"
    using v q by (simp add: length_commands_of)
  ultimately show ?thesis using sh by (simp add: requeued_def c' S_def [symmetric])
qed

lemma drop_first_commands:
  assumes "i \<le> v" "v \<le> j" "stands_for cmd (rcmd_at R v)"
    and "\<forall>r \<in> set (commands_of R i (v - 1)). \<not> stands_for cmd r"
  shows "drop_first (stands_for cmd) (commands_of R i j) =
    commands_of R i (v - 1) @ commands_of R (v + 1) j"
proof -
  have "commands_of R i j = commands_of R i (v - 1) @ rcmd_at R v # commands_of R (v + 1) j"
    using commands_of_append [of i "v - 1" j R] commands_of_Cons [of v j R] assms by simp
  then show ?thesis using assms by (simp add: drop_first_append)
qed

end
