(* ===== verification/ServerPackets.thy ===== *)
theory ServerPackets
  imports ServerCommands MsgBits
begin

text \<open>
  Packets from the clients: finding the client of a datagram, the part of \<open>SV_PacketEvent\<close>
  (src/src/sv_main.c) that reads the acknowledgements and decodes the rest, and the reliable
  commands of a client with their flood protection (src/src/sv_client.c).  The execution of a
  command and the dropping of a client, whose effects reach into the game, are parameters
  (\<open>cmdenv\<close>).
\<close>

section \<open>The client of a packet\<close>

definition fix_port :: "netadr \<Rightarrow> client \<Rightarrow> client" where
  "fix_port from c =
     (if adr_port (nc_remoteAddress (cl_netchan c)) \<noteq> adr_port from
      then c\<lparr>cl_netchan := (cl_netchan c)
               \<lparr>nc_remoteAddress := (nc_remoteAddress (cl_netchan c))\<lparr>adr_port := adr_port from\<rparr>\<rparr>\<rparr>
      else c)"

text \<open>The table is the list of its first \<open>sv_maxclients\<close> slots.\<close>

fun SV_ReadPackets :: "netadr \<Rightarrow> int \<Rightarrow> client list \<Rightarrow> (nat \<times> client list) option" where
  "SV_ReadPackets from qport [] = None"
| "SV_ReadPackets from qport (c # cs) =
     (if cl_state c = CS_FREE \<or> \<not> NET_CompareBaseAdr from (nc_remoteAddress (cl_netchan c))
         \<or> nc_qport (cl_netchan c) \<noteq> qport
      then (case SV_ReadPackets from qport cs of
              None \<Rightarrow> None
            | Some (i, cs1) \<Rightarrow> Some (Suc i, c # cs1))
      else Some (0, fix_port from c # cs))"

section \<open>Acknowledgements\<close>

text \<open>
  The head of a client message; the flag tells whether the rest is to be executed.  The
  subtraction of the range check wraps.
\<close>

definition read_client_header :: "client \<Rightarrow> msg \<Rightarrow> bool \<times> client \<times> msg" where
  "read_client_header c m =
     (let (sid, m1) = MSG_ReadLong m;
          (mack, m2) = MSG_ReadLong m1;
          c1 = c\<lparr>serverId := sid, messageAcknowledge := mack\<rparr>
      in if mack < 0 then (False, c1, m2)
         else let (rack, m3) = MSG_ReadLong m2;
                  c2 = c1\<lparr>reliableAcknowledge := rack\<rparr>
           in if MAX_RELIABLE_COMMANDS - 1 < s32 (reliableSequence c2 - rack)
              then (False, c2\<lparr>reliableAcknowledge := reliableSequence c2\<rparr>, m3)
              else let (csack, m4) = MSG_ReadLong m3;
                       c3 = (if configDataAcknowledge c2 < csack
                             then c2\<lparr>configDataAcknowledge := csack\<rparr> else c2)
                in (True, c3, m4\<lparr>data := blit (nat (readcount m4))
                                   (SV_Netchan_Decode c3 (unread m4)) (data m4)\<rparr>))"

definition receive_client_message :: "int \<Rightarrow> client \<Rightarrow> msg \<Rightarrow> fault + (bool \<times> client \<times> msg)" where
  "receive_client_message now c m =
     (case Netchan_Process (cl_netchan c) m of
        Inl e \<Rightarrow> Inl e
      | Inr (ok, nc, m1) \<Rightarrow>
          let c1 = c\<lparr>cl_netchan := nc\<rparr> in
          if \<not> ok then Inr (False, c1, m1)
          else let (ok1, c2, m2) = read_client_header c1 m1 in
            if \<not> ok1 \<or> cl_state c2 = CS_ZOMBIE then Inr (False, c2, m2)
            else Inr (True, c2\<lparr>lastPacketTime := now\<rparr>, m2))"

text \<open>
  What \<open>SV_PacketEvent\<close> does with a datagram: nothing, one of the handlers that are not part
  of this component, or a client message (executed when the flag is set).
\<close>

datatype packet_event =
  PacketIgnored
| PacketConnectionless msg
| PacketFromUpdateProxy msg
| PacketUnknown "bool \<times> netio"
| PacketReliable nat "client list" msg
| PacketToUpdateProxy nat "client list" msg
| PacketClient bool nat "client list" msg

definition SV_PacketEvent ::
  "netenv \<Rightarrow> bool \<Rightarrow> int \<Rightarrow> netadr \<Rightarrow> msg \<Rightarrow> client list \<Rightarrow> netio \<Rightarrow> fault + packet_event" where
  "SV_PacketEvent env running now from m0 cs io =
     (if \<not> running \<or> cursize m0 < 4 then Inr PacketIgnored
      else let (seq, m1) = MSG_ReadLong (MSG_BeginReading m0) in
        if seq = -1 then Inr (PacketConnectionless m1)
        else if u32 seq = 0xfffffffe then Inr (PacketFromUpdateProxy m1)
        else let (qport, m2) = MSG_ReadShort m1 in
          case SV_ReadPackets from (u16 qport) cs of
            None \<Rightarrow>
              (case NET_OutOfBandPrint env NS_SERVER from ''disconnect'' io of
                 Inl e \<Rightarrow> Inl e
               | Inr r \<Rightarrow> Inr (PacketUnknown r))
          | Some (i, cs1) \<Rightarrow>
              if u32 seq = 0xfffffff0 then Inr (PacketReliable i cs1 m2)
              else let c = cs1 ! i in
                if needupdate c \<and> updateconnOK c
                then Inr (PacketToUpdateProxy i (cs1[i := c\<lparr>lastPacketTime := now\<rparr>]) m2)
                else (case receive_client_message now c m2 of
                        Inl e \<Rightarrow> Inl e
                      | Inr (ok, c1, m3) \<Rightarrow> Inr (PacketClient ok i (cs1[i := c1]) m3)))"

section \<open>Commands of a client\<close>

text \<open>
  The parameters: \<open>SV_ExecuteClientCommand\<close>, \<open>SV_UserMove\<close>, \<open>SV_DropClient\<close>, and the
  value of \<open>sv_floodProtect\<close>.
\<close>

record cmdenv =
  execute_command :: "client \<Rightarrow> string \<Rightarrow> bool \<Rightarrow> bool \<Rightarrow> client"
  user_move :: "client \<Rightarrow> msg \<Rightarrow> bool \<Rightarrow> client \<times> msg"
  drop_client :: "client \<Rightarrow> string \<Rightarrow> client"
  sv_floodProtect :: int

text \<open>Commands the flood protection does not count.\<close>

definition flood_exempt :: "cmdenv \<Rightarrow> client \<Rightarrow> string \<Rightarrow> bool" where
  "flood_exempt env c s \<longleftrightarrow>
     sv_floodProtect env = 0 \<or> cl_state c = CS_PRIMED
     \<or> adr_type (nc_remoteAddress (cl_netchan c)) = NA_LOOPBACK
     \<or> Q_strncmp ''team'' s 4 = 0 \<or> Q_strncmp ''mr'' s 2 = 0 \<or> Q_strncmp ''score'' s 5 = 0"

definition flood_ok :: "int \<Rightarrow> bool \<Rightarrow> client \<Rightarrow> bool" where
  "flood_ok now inDl c \<longleftrightarrow> \<not> (\<not> inDl \<and> floodprotect c = 0 \<and> now < nextReliableTime c)"

definition flood_count :: "cmdenv \<Rightarrow> int \<Rightarrow> client \<Rightarrow> client" where
  "flood_count env now c =
     (let c1 = (if nextReliableTime c < now
                then c\<lparr>floodprotect := s32 (sv_floodProtect env - 1)\<rparr>
                else c\<lparr>floodprotect := max 0 (s32 (floodprotect c - 1))\<rparr>)
      in c1\<lparr>nextReliableTime := s32 (now + 800)\<rparr>)"

text \<open>
  The result: whether the packet is processed further, the client, the message, and the
  command handed to the execution with the flag the game sees, if one was.
\<close>

definition SV_ClientCommand ::
  "cmdenv \<Rightarrow> int \<Rightarrow> bool \<Rightarrow> client \<Rightarrow> msg \<Rightarrow> bool \<times> client \<times> msg \<times> (int \<times> string \<times> bool) option" where
  "SV_ClientCommand env now inDl c m =
     (let (seq, m1) = MSG_ReadLong m;
          (s, m2) = MSG_ReadString 1024 m1
      in if seq \<le> lastClientCommand c then (True, c, m2, None)
         else if s32 (lastClientCommand c + 1) < seq
           then (False, drop_client env c ''EXE_LOSTRELIABLECOMMANDS'', m2, None)
         else let counted = \<not> flood_exempt env c s;
                  ok = (\<not> inDl \<and> (counted \<longrightarrow> flood_ok now inDl c));
                  c1 = (if counted then flood_count env now c else c);
                  c2 = execute_command env c1 s ok inDl
           in (True, c2\<lparr>lastClientCommand := seq,
                        lastClientCommandString := strncpy_cells s 1023 @ [NUL]\<rparr>, m2, Some (seq, s, ok)))"

text \<open>
  The loop of \<open>SV_ExecuteClientMessage\<close>: the commands of the packet are executed in their
  order, a move (\<open>SV_UserMove\<close>, a parameter) ends it.  It ends for every packet: each round
  takes bits of the message, and reading behind its end gives -1.
\<close>

definition clc_move :: int where "clc_move = 0"
definition clc_moveNoDelta :: int where "clc_moveNoDelta = 1"
definition clc_clientCommand :: int where "clc_clientCommand = 2"

definition bits_left :: "msg \<Rightarrow> nat" where
  "bits_left m =
     8 * nat (cursize m + splitSize m - readcount m) +
     (if bitpos m mod 8 = 0 then 0 else nat (8 - bitpos m mod 8))"

definition no_more_left :: "msg \<Rightarrow> msg \<Rightarrow> bool" where
  "no_more_left m m1 \<longleftrightarrow> bits_left m1 \<le> bits_left m \<and> bitpos m1 = bitpos m"

lemma bits_left_adv: "0 \<le> n \<Longrightarrow> no_more_left m (msg_adv n m)"
  by (simp add: no_more_left_def bits_left_def msg_adv_def)

lemma no_more_left_trans: "no_more_left a b \<Longrightarrow> no_more_left b c \<Longrightarrow> no_more_left a c"
  by (simp add: no_more_left_def)

lemma no_more_left_overflow: "no_more_left m (m\<lparr>overflowed := x\<rparr>)"
  by (simp add: no_more_left_def bits_left_def)

lemma ReadByte_left: "MSG_ReadByte m = (v, m1) \<Longrightarrow> no_more_left m m1"
  by (auto simp: MSG_ReadByte_def bits_left_adv no_more_left_overflow split: if_splits)

lemma ReadLong_left: "MSG_ReadLong m = (v, m1) \<Longrightarrow> no_more_left m m1"
  by (auto simp: MSG_ReadLong_def bits_left_adv no_more_left_overflow split: if_splits)

lemma read_string_left: "read_string stops len l m = (s, m1) \<Longrightarrow> no_more_left m m1"
proof (induction stops len l m arbitrary: s m1 rule: read_string.induct)
  case (1 stops len l m)
  obtain c m2 where b: "MSG_ReadByte m = (c, m2)" by fastforce
  have l: "no_more_left m m2" by (rule ReadByte_left [OF b])
  obtain s2 m3 where r: "read_string stops len (l + 1) m2 = (s2, m3)" by fastforce
  have "no_more_left m2 m3" if "\<not> (c = -1 \<or> c = 0 \<or> c \<in> stops)" "l + 1 < len - 1"
    using 1 b r that by (metis (no_types, lifting))
  then show ?case
    using 1(2) b r l no_more_left_trans [OF l]
    by (subst (asm) read_string.simps) (auto simp: Let_def split: if_splits)
qed

lemma ReadString_left: "MSG_ReadString len m = (s, m1) \<Longrightarrow> no_more_left m m1"
  by (simp add: MSG_ReadString_def read_string_left)

lemma readbits_round_left:
  assumes "readbits_round m = (e, b, m1)"
  shows "bits_left m1 \<le> bits_left m \<and> (e = None \<longrightarrow> bits_left m1 < bits_left m) \<and> e \<in> {None, Some (-1), Some 0}"
proof (cases "bitpos m mod 8 = 0")
  case True
  show ?thesis
  proof (cases "splitSize m + cursize m \<le> readcount m")
    case True
    then show ?thesis using assms \<open>bitpos m mod 8 = 0\<close>
      by (auto simp: readbits_round_def bits_left_def)
  next
    case False
    define d where "d = nat (cursize m + splitSize m - readcount m)"
    have d: "0 < d" "nat (cursize m + splitSize m - (readcount m + 1)) = d - 1"
      using False by (auto simp: d_def)
    have old: "bits_left m = 8 * d" using True by (simp add: bits_left_def d_def)
    let ?r = "readcount m"
    have b: "(8 * ?r + 1) mod 8 = 1" by presburger
    have "(m1 = m\<lparr>bitpos := 8 * ?r, readcount := ?r + 1\<rparr> \<and> e = Some 0) \<or>
        (m1 = m\<lparr>bitpos := 8 * ?r + 1, readcount := ?r + 1\<rparr> \<and> e = None)"
      using assms True False by (auto simp: readbits_round_def Let_def split: if_splits)
    moreover have "bits_left (m\<lparr>bitpos := 8 * ?r, readcount := ?r + 1\<rparr>) = 8 * (d - 1)"
      using d by (simp add: bits_left_def)
    moreover have "bits_left (m\<lparr>bitpos := 8 * ?r + 1, readcount := ?r + 1\<rparr>) = 8 * (d - 1) + 7"
      using d b by (simp add: bits_left_def)
    ultimately show ?thesis using old d by auto
  qed
next
  case False
  let ?b = "bitpos m mod 8"
  have p: "0 < ?b" "?b < 8" using False pos_mod_bound [of 8 "bitpos m"] pos_mod_sign [of 8 "bitpos m"]
    by linarith+
  have m1: "(m1 = m \<and> e = Some 0) \<or> (m1 = m\<lparr>bitpos := bitpos m + 1\<rparr> \<and> e = None)"
    using assms False by (auto simp: readbits_round_def Let_def split: if_splits)
  define k where "k = ?b"
  have n: "(bitpos m + 1) mod 8 = (if k = 7 then 0 else k + 1)"
    using mod_add_left_eq [of "bitpos m" 8 1] p by (auto simp: k_def simp del: mod_add_left_eq)
  have "bits_left (m\<lparr>bitpos := bitpos m + 1\<rparr>) < bits_left m"
    using p unfolding bits_left_def k_def [symmetric] by (simp add: n k_def [symmetric])
  then show ?thesis using m1 by auto
qed

lemma readbits_loop_left:
  "readbits_loop n i rv m = (v, m1) \<Longrightarrow>
   bits_left m1 \<le> bits_left m \<and> (0 < n \<and> v \<noteq> -1 \<and> v \<noteq> 0 \<longrightarrow> bits_left m1 < bits_left m)"
proof (induction n arbitrary: i rv m)
  case 0
  then show ?case by simp
next
  case (Suc n)
  obtain e b m2 where r: "readbits_round m = (e, b, m2)" by (cases "readbits_round m") auto
  note p = readbits_round_left [OF r]
  show ?case
  proof (cases e)
    case None
    then have "readbits_loop n (Suc i) (s32 (rv OR push_bit i (of_bool b))) m2 = (v, m1)"
      using Suc.prems r by simp
    from Suc.IH [OF this] show ?thesis using p None by linarith
  next
    case (Some x)
    then show ?thesis using Suc.prems r p by auto
  qed
qed

lemma clientCommand_op_left:
  "MSG_ReadBits 3 m = (clc_clientCommand, m1) \<Longrightarrow> bits_left m1 < bits_left m"
  using readbits_loop_left [of 3 0 0 m clc_clientCommand m1]
  by (simp add: MSG_ReadBits_def clc_clientCommand_def)

lemma SV_ClientCommand_left:
  assumes "SV_ClientCommand env now inDl c m = (cont, c1, m1, x)"
  shows "bits_left m1 \<le> bits_left m"
proof -
  obtain seq m2 where l: "MSG_ReadLong m = (seq, m2)" by fastforce
  obtain s m3 where r: "MSG_ReadString 1024 m2 = (s, m3)" by fastforce
  have "m1 = m3" using assms l r by (auto simp: SV_ClientCommand_def Let_def split: if_splits)
  then show ?thesis using no_more_left_trans [OF ReadLong_left [OF l] ReadString_left [OF r]]
    by (simp add: no_more_left_def)
qed

function client_ops ::
  "cmdenv \<Rightarrow> int \<Rightarrow> client \<Rightarrow> msg \<Rightarrow> client \<times> msg \<times> (int \<times> string \<times> bool) list" where
  "client_ops env now c m =
     (case MSG_ReadBits 3 m of (opc, m1) \<Rightarrow>
      if opc = clc_clientCommand then
        (case SV_ClientCommand env now False c m1 of (cont, c1, m2, x) \<Rightarrow>
           let done_cmds = (case x of None \<Rightarrow> [] | Some e \<Rightarrow> [e]) in
           if \<not> cont \<or> cl_state c1 = CS_ZOMBIE then (c1, m2, done_cmds)
           else (case client_ops env now c1 m2 of (c2, m3, later) \<Rightarrow> (c2, m3, done_cmds @ later)))
      else if opc = clc_move then
        (case user_move env c m1 True of (c1, m2) \<Rightarrow> (c1, m2, []))
      else if opc = clc_moveNoDelta then
        (case user_move env c m1 False of (c1, m2) \<Rightarrow> (c1, m2, []))
      else (c, m1, []))"
  by pat_completeness auto
termination
proof (relation "measure (\<lambda>(env, now, c, m). bits_left m)", goal_cases)
  case 1
  show ?case by simp
next
  case (2 env now c m opc m1 cont ya c1 yb m2 x done_cmds)
  then have "MSG_ReadBits 3 m = (clc_clientCommand, m1)"
    "SV_ClientCommand env now False c m1 = (cont, c1, m2, x)" by auto
  then have "bits_left m2 < bits_left m"
    using clientCommand_op_left SV_ClientCommand_left by (meson order_le_less_trans)
  then show ?case by simp
qed

declare client_ops.simps [simp del]

section \<open>A client to evaluate on\<close>

definition zero_rcmd :: rcmd where
  "zero_rcmd = \<lparr>rc_buffer = replicate 1024 NUL, rc_time = 0, rc_type = 0\<rparr>"

definition demo_address :: netadr where
  "demo_address = \<lparr>adr_type = NA_IP, scope_id = 0, adr_port = 28960, adr_sock = 0,
     adr_bytes = [10, 0, 0, 1] @ replicate 12 0\<rparr>"

definition demo_client :: client where
  "demo_client = \<lparr>cl_state = CS_ACTIVE,
     cl_netchan = Netchan_Setup NS_SERVER demo_address 7 [] 0 (replicate 16 0) 16,
     canNotReliable = False, needupdate = False, updateconnOK = False, delayDropMsg = None,
     configDataAcknowledge = 0, reliableCommands = replicate 128 zero_rcmd, reliableSequence = 0,
     reliableAcknowledge = 0, reliableSent = 0, messageAcknowledge = 0, challenge = 99, serverId = 5,
     lastClientCommand = 0, lastClientCommandString = replicate 1024 NUL, nextReliableTime = 0,
     floodprotect = 0, lastPacketTime = 0, wwwDl_var01 = 0, wwwDownloadStarted = False,
     wwwDlAck = False, gamestateSent = True, gamestateMessageNum = 0\<rparr>"

text \<open>A packet: sequence number, qport, server id, message and command acknowledged, configuration.\<close>

definition demo_packet :: msg where
  "demo_packet = (MSG_Init (le_bytes 4 1 @ le_bytes 2 7 @ le_bytes 4 5 @ le_bytes 4 1 @
     le_bytes 4 1 @ le_bytes 4 0) 22)\<lparr>cursize := 22\<rparr>"

definition demo_netchan :: netchan where
  "demo_netchan = (Netchan_Setup NS_SERVER demo_address 7 [] 0 (replicate 16 0) 16)
     \<lparr>incomingSequence := 1, dropped := 0\<rparr>"

lemma demo_packet_received:
  "Netchan_Process (cl_netchan demo_client) demo_packet = Inr (True, demo_netchan, demo_packet\<lparr>readcount := 6\<rparr>)"
  by code_simp

lemma demo_packet_header:
  "MSG_ReadLong (demo_packet\<lparr>readcount := 6\<rparr>) = (5, demo_packet\<lparr>readcount := 10\<rparr>)"
  "MSG_ReadLong (demo_packet\<lparr>readcount := 10\<rparr>) = (1, demo_packet\<lparr>readcount := 14\<rparr>)"
  "MSG_ReadLong (demo_packet\<lparr>readcount := 14\<rparr>) = (1, demo_packet\<lparr>readcount := 18\<rparr>)"
  "MSG_ReadLong (demo_packet\<lparr>readcount := 18\<rparr>) = (0, demo_packet\<lparr>readcount := 22\<rparr>)"
  by code_simp+

text \<open>The server's parameters: commands and moves change nothing, two commands in a burst.\<close>

definition demo_cmdenv :: cmdenv where
  "demo_cmdenv = \<lparr>execute_command = (\<lambda>c s ok d. c), user_move = (\<lambda>c m d. (c, m)),
     drop_client = (\<lambda>c s. c\<lparr>cl_state := CS_ZOMBIE\<rparr>), sv_floodProtect = 2\<rparr>"

definition demo_command :: "int \<Rightarrow> msg" where
  "demo_command n = (MSG_Init (le_bytes 4 n @ map byte_of_char ''hi'' @ [0]) 7)\<lparr>cursize := 7\<rparr>"

lemma demo_command_read:
  "MSG_ReadLong (demo_command 1) = (1, (demo_command 1)\<lparr>readcount := 4\<rparr>)"
  "MSG_ReadString 1024 ((demo_command 1)\<lparr>readcount := 4\<rparr>) = (''hi'', (demo_command 1)\<lparr>readcount := 7\<rparr>)"
  "MSG_ReadLong (demo_command 2) = (2, (demo_command 2)\<lparr>readcount := 4\<rparr>)"
  "MSG_ReadString 1024 ((demo_command 2)\<lparr>readcount := 4\<rparr>) = (''hi'', (demo_command 2)\<lparr>readcount := 7\<rparr>)"
  "MSG_ReadLong (demo_command 3) = (3, (demo_command 3)\<lparr>readcount := 4\<rparr>)"
  "MSG_ReadString 1024 ((demo_command 3)\<lparr>readcount := 4\<rparr>) = (''hi'', (demo_command 3)\<lparr>readcount := 7\<rparr>)"
  by code_simp+

lemma demo_command_counted:
  "cl_state c = CS_ACTIVE \<Longrightarrow> adr_type (nc_remoteAddress (cl_netchan c)) = NA_IP \<Longrightarrow>
   \<not> flood_exempt demo_cmdenv c ''hi''"
proof -
  have "Q_strncmp ''team'' ''hi'' 4 \<noteq> 0" "Q_strncmp ''mr'' ''hi'' 2 \<noteq> 0" "Q_strncmp ''score'' ''hi'' 5 \<noteq> 0"
    by code_simp+
  then show "cl_state c = CS_ACTIVE \<Longrightarrow> adr_type (nc_remoteAddress (cl_netchan c)) = NA_IP \<Longrightarrow> ?thesis"
    by (simp add: flood_exempt_def demo_cmdenv_def)
qed

end
