(* ===== verification/ServerChannel.thy ===== *)
theory ServerChannel
  imports ServerQueue ServerPackets
begin

text \<open>
  Properties of the reliable commands: queueing a command is the abstract operation on the
  list of unsent commands, and over every run of a client whose acknowledgements are honest
  a number always carries the same text.
\<close>

section \<open>Queueing\<close>

definition reachable_client :: "client \<Rightarrow> bool" where
  "reachable_client c \<longleftrightarrow>
     adr_type (nc_remoteAddress (cl_netchan c)) \<noteq> NA_BOT \<and> \<not> canNotReliable c"

text \<open>Half of the ring is in use, or the client is not in the game yet.\<close>

definition crowded :: "client \<Rightarrow> bool" where
  "crowded c \<longleftrightarrow> 64 \<le> reliableSequence c - reliableAcknowledge c \<or> cl_state c \<noteq> CS_ACTIVE"

definition kept_commands :: "client \<Rightarrow> rcmd list" where
  "kept_commands c = (if crowded c then filter wanted (unsent c) else unsent c)"

definition queued :: "int \<Rightarrow> string \<Rightarrow> client \<Rightarrow> rcmd \<Rightarrow> rcmd list" where
  "queued type cmd c new =
     (if crowded c \<and> type = 0 then kept_commands c
      else drop_first (stands_for cmd) (kept_commands c) @ [new])"

lemma length_kept: "length (kept_commands c) \<le> length (unsent c)"
  by (simp add: kept_commands_def)

lemma length_drop_first: "length (drop_first P xs) \<le> length xs"
  by (induction xs) auto

lemma length_queued: "length (queued type cmd c new) \<le> Suc (length (unsent c))"
  using length_kept [of c] length_drop_first [of "stands_for cmd" "kept_commands c"]
  by (auto simp: queued_def simp del: length_drop_first)

lemma requeued_refl: "queue_ok c \<Longrightarrow> requeued lo c (unsent c) c"
  using length_unsent [of c] by (simp add: requeued_def queue_okD same_below_def unsent_def)

lemma compacted_requeued:
  assumes "queue_ok c" "0 \<le> lo" "lo \<le> reliableSent c + 1" "reliableSequence c - lo < 128"
  shows "requeued lo c (kept_commands c) (if crowded c then sub_5310E0 c else c)"
  using sub_5310E0_requeued [OF assms] requeued_refl [OF assms(1)] by (simp add: kept_commands_def)

text \<open>The search, the shift and the store on a queue without overflow.\<close>

lemma store_requeued:
  assumes ok: "queue_ok c" "0 \<le> lo" "lo \<le> reliableSent c + 1" "reliableSequence c + 1 - lo < 128"
    and cmd: "comparable cmd"
  shows "\<exists>v new. sub_530FC0 c cmd = Inr v \<and>
    requeued lo c (drop_first (stands_for cmd) (unsent c) @ [new])
      (store_command now type cmd
        (if v < 0 then c\<lparr>reliableSequence := s32 (reliableSequence c + 1)\<rparr>
         else c\<lparr>reliableCommands := shift_loop [v + 1..reliableSequence c] (reliableCommands c)\<rparr>)) \<and>
    (v < 0 \<or> reliableSent c < v) \<and>
    rcmd_text new = cleaned cmd \<and> rc_type new = type \<and> rc_time new = now"
proof -
  note q = queue_okD [OF ok(1)]
  have nf: "nul_free cmd" using cmd by (simp add: comparable_def)
  have un: "unsent_numbers c = [reliableSent c + 1..reliableSequence c]"
    using q by (simp add: unsent_numbers_def)
  from find_loop_spec [OF cmd, of "reliableCommands c" "reliableSent c + 1" "reliableSequence c"]
  show ?thesis
  proof (elim disjE exE conjE)
    assume f: "find_loop cmd (reliableCommands c) [reliableSent c + 1..reliableSequence c] = Inr (-1)"
      "\<forall>r \<in> set (commands_of (reliableCommands c) (reliableSent c + 1) (reliableSequence c)).
         \<not> stands_for cmd r"
    let ?r = "rcmd_store cmd now type (rcmd_at (reliableCommands c) (reliableSequence c + 1))"
    note r = rcmd_store_ok [OF cells_fine_at [OF q(1), of "reliableSequence c + 1"] nf, of now type]
    have "requeued lo c (unsent c @ [?r]) (store_command now type cmd
        (c\<lparr>reliableSequence := s32 (reliableSequence c + 1)\<rparr>))"
      using ok r(1) q(9) by (intro append_requeued) (simp_all add: store_command_def)
    moreover have "drop_first (stands_for cmd) (unsent c) = unsent c"
      using f(2) by (simp add: unsent_def drop_first_none)
    ultimately show ?thesis
      using f(1) r un by (intro exI [of _ "-1"] exI [of _ ?r]) (simp add: sub_530FC0_def)
  next
    fix v
    assume f: "find_loop cmd (reliableCommands c) [reliableSent c + 1..reliableSequence c] = Inr v"
      "reliableSent c + 1 \<le> v" "v \<le> reliableSequence c" "stands_for cmd (rcmd_at (reliableCommands c) v)"
      "\<forall>r \<in> set (commands_of (reliableCommands c) (reliableSent c + 1) (v - 1)). \<not> stands_for cmd r"
    let ?S = "shift_loop [v + 1..reliableSequence c] (reliableCommands c)"
    let ?r = "rcmd_store cmd now type (rcmd_at ?S (reliableSequence c))"
    note r = rcmd_store_ok [OF cells_fine_at [OF shift_loop_fine [OF q(1)]] nf]
    have "requeued lo c (commands_of (reliableCommands c) (reliableSent c + 1) (v - 1) @
           commands_of (reliableCommands c) (v + 1) (reliableSequence c) @ [?r])
        (store_command now type cmd (c\<lparr>reliableCommands := ?S\<rparr>))"
      using ok r(1) f(2,3) by (intro replace_requeued) (simp_all add: store_command_def)
    moreover have "drop_first (stands_for cmd) (unsent c) =
        commands_of (reliableCommands c) (reliableSent c + 1) (v - 1) @
        commands_of (reliableCommands c) (v + 1) (reliableSequence c)"
      unfolding unsent_def by (rule drop_first_commands [OF f(2-5)])
    ultimately show ?thesis
      using f(1,2) r un q by (intro exI [of _ v] exI [of _ ?r]) (simp add: sub_530FC0_def)
  qed
qed

lemma SV_AddServerCommand_requeued:
  assumes ok: "queue_ok c" "0 \<le> lo" "lo \<le> reliableSent c + 1" "reliableSequence c + 1 - lo < 128"
    and pend: "reliableSequence c - reliableAcknowledge c \<le> 127" "reliableSequence c < 2 ^ 31 - 3"
    and cl: "reachable_client c" and cmd: "comparable cmd"
  shows "\<exists>c' new. SV_AddServerCommand env now type cmd c io = Inr (c', io) \<and>
    requeued lo c (queued type cmd c new) c' \<and>
    rcmd_text new = cleaned cmd \<and> rc_type new = type \<and> rc_time new = now"
proof -
  note q = queue_okD [OF ok(1)]
  define c1 where "c1 = (if crowded c then sub_5310E0 c else c)"
  have r1: "requeued lo c (kept_commands c) c1"
    unfolding c1_def using ok by (intro compacted_requeued) auto
  note f1 = requeued_fields [OF r1]
  have len: "int (length (kept_commands c)) \<le> reliableSequence c - reliableSent c"
    using length_kept [of c] length_unsent [OF ok(1)] by linarith
  have ok1: "queue_ok c1" using requeued_ok [OF ok(1) r1] len q(6) by linarith
  have s1: "reliableSequence c1 \<le> reliableSequence c" using f1 len by simp
  have full: "crowded c \<longleftrightarrow> MAX_RELIABLE_COMMANDS div 2 \<le> s32 (reliableSequence c - reliableAcknowledge c) \<or>
      cl_state c \<noteq> CS_ACTIVE"
    using q(10) by (simp add: crowded_def MAX_RELIABLE_COMMANDS_def)
  have start: "SV_AddServerCommand env now type cmd c io =
      (if crowded c \<and> type = 0 then Inr (c1, io)
       else case sub_530FC0 c1 cmd of
          Inl e \<Rightarrow> Inl e
        | Inr v4 \<Rightarrow>
            let c2 = (if v4 < 0 then c1\<lparr>reliableSequence := s32 (reliableSequence c1 + 1)\<rparr>
                      else c1\<lparr>reliableCommands :=
                             shift_loop [v4 + 1..reliableSequence c1] (reliableCommands c1)\<rparr>)
            in if s32 (reliableSequence c2 - reliableAcknowledge c2) = MAX_RELIABLE_COMMANDS + 1
               then (case NET_OutOfBandPrint env NS_SERVER
                            (nc_remoteAddress (cl_netchan c2)) ''disconnect'' io of
                       Inl e \<Rightarrow> Inl e
                     | Inr (ok, io1) \<Rightarrow>
                         Inr (store_command now 1 overflow_command
                                (SV_DelayDropClient ''EXE_SERVERCOMMANDOVERFLOW'' c2), io1))
               else Inr (store_command now type cmd c2, io))"
    using cl unfolding SV_AddServerCommand_def Let_def full [symmetric] c1_def reachable_client_def
    by (simp only: if_False simp_thms)
  show ?thesis
  proof (cases "crowded c \<and> type = 0")
    case True
    have "\<exists>new. rcmd_text new = cleaned cmd \<and> rc_type new = type \<and> rc_time new = now"
      using rcmd_store_ok [OF cells_fine_at [OF q(1), of 0], of cmd now type] cmd
      by (intro exI [of _ "rcmd_store cmd now type (rcmd_at (reliableCommands c) 0)"])
         (simp add: comparable_def)
    moreover have "SV_AddServerCommand env now type cmd c io = Inr (c1, io)"
      unfolding start using True by simp
    ultimately show ?thesis using True r1 by (auto simp: queued_def)
  next
    case False
    obtain v new where v: "sub_530FC0 c1 cmd = Inr v"
      and rq: "requeued lo c1 (drop_first (stands_for cmd) (unsent c1) @ [new])
        (store_command now type cmd
          (if v < 0 then c1\<lparr>reliableSequence := s32 (reliableSequence c1 + 1)\<rparr>
           else c1\<lparr>reliableCommands := shift_loop [v + 1..reliableSequence c1] (reliableCommands c1)\<rparr>))"
        (is "requeued lo c1 _ (store_command now type cmd ?c2)")
      and new: "rcmd_text new = cleaned cmd" "rc_type new = type" "rc_time new = now"
      using store_requeued [OF ok1 ok(2) _ _ cmd, of now type] ok f1(2) s1 by fastforce
    have "s32 (reliableSequence ?c2 - reliableAcknowledge ?c2) \<noteq> MAX_RELIABLE_COMMANDS + 1"
      using queue_okD [OF ok1] s1 f1(1) pend by (auto simp: MAX_RELIABLE_COMMANDS_def)
    then have "SV_AddServerCommand env now type cmd c io = Inr (store_command now type cmd ?c2, io)"
      unfolding start v using False by (simp only: if_False sum.case Let_def)
    moreover have "requeued lo c (queued type cmd c new) (store_command now type cmd ?c2)"
      using requeued_trans [OF r1 rq] False f1(5) by (auto simp: queued_def)
    ultimately show ?thesis using new by blast
  qed
qed

lemma demo_client_queue:
  "queue_ok demo_client" "reachable_client demo_client" "reliableSequence demo_client = 0"
  "reliableAcknowledge demo_client = 0" "reliableSent demo_client = 0"
  by (simp_all add: queue_ok_def demo_client_def cells_fine_def rcmd_ok_def zero_rcmd_def
      reachable_client_def Netchan_Setup_def demo_address_def)

lemma demo_comparable: "comparable ''e hi''" "cleaned ''e hi'' = ''e hi''"
  by (simp add: comparable_def chr0_def sc_def uc_def s8_def, code_simp)

text \<open>
  Claim C13. While fewer than 127 commands are pending, queueing a command is the abstract
  operation on the list of unsent commands: when half of the ring is used (or the client is
  not in the game) the unsent commands of type 0 go and a new one of type 0 is not queued at
  all; otherwise the first unsent command that the new one stands for is removed and the
  cleaned new command is put at the end.  Nothing that was sent changes its number or text.
\<close>

theorem SV_AddServerCommand_queue:
  assumes "queue_ok c" "reachable_client c" "comparable cmd"
    and "reliableSequence c - reliableAcknowledge c < 127" "reliableSequence c < 2 ^ 31 - 3"
  shows "\<exists>c' new. SV_AddServerCommand env now type cmd c io = Inr (c', io) \<and>
    unsent c' = queued type cmd c new \<and>
    rcmd_text new = cleaned cmd \<and> rc_type new = type \<and> rc_time new = now \<and>
    queue_ok c' \<and> reliableAcknowledge c' = reliableAcknowledge c \<and> reliableSent c' = reliableSent c \<and>
    (\<forall>j. reliableAcknowledge c \<le> j \<and> j \<le> reliableSent c \<longrightarrow>
       rcmd_at (reliableCommands c') j = rcmd_at (reliableCommands c) j)"
proof -
  note q = queue_okD [OF assms(1)]
  obtain c' new where c': "SV_AddServerCommand env now type cmd c io = Inr (c', io)"
    and n: "requeued (reliableAcknowledge c) c (queued type cmd c new) c'"
    and new: "rcmd_text new = cleaned cmd \<and> rc_type new = type \<and> rc_time new = now"
    using SV_AddServerCommand_requeued [OF assms(1), of "reliableAcknowledge c" cmd env now type io]
      q assms by fastforce
  have "int (length (queued type cmd c new)) \<le> reliableSequence c - reliableSent c + 1"
    using length_queued [of type cmd c new] length_unsent [OF assms(1)] by linarith
  then have "queue_ok c'" using requeued_ok [OF assms(1) n] assms(5) by linarith
  moreover have "\<forall>j. reliableAcknowledge c \<le> j \<and> j \<le> reliableSent c \<longrightarrow>
      rcmd_at (reliableCommands c') j = rcmd_at (reliableCommands c) j"
    using n by (simp add: requeued_def same_below_def)
  ultimately show ?thesis using c' new requeued_fields [OF n] by blast
qed

theorem SV_AddServerCommand_queue_witness:
  "\<exists>c' new. SV_AddServerCommand quiet_env 50 1 ''e hi'' demo_client empty_io = Inr (c', empty_io) \<and>
    unsent c' = [new] \<and> rcmd_text new = ''e hi'' \<and> rc_type new = 1 \<and> rc_time new = 50 \<and> queue_ok c'"
proof -
  have "unsent demo_client = []"
    by (simp add: unsent_def commands_of_Nil demo_client_queue)
  then have q: "queued 1 ''e hi'' demo_client new = [new]" for new
    by (simp add: queued_def kept_commands_def)
  obtain c' new where
    "SV_AddServerCommand quiet_env 50 1 ''e hi'' demo_client empty_io = Inr (c', empty_io)"
    "unsent c' = queued 1 ''e hi'' demo_client new" "rcmd_text new = cleaned ''e hi''"
    "rc_type new = 1" "rc_time new = 50" "queue_ok c'"
    using SV_AddServerCommand_queue [OF demo_client_queue(1,2) demo_comparable(1), of quiet_env 50 1 empty_io]
    by (auto simp: demo_client_queue)
  then show ?thesis using q demo_comparable(2) by metis
qed

lemma rcmd_at_put:
  "length R = 128 \<Longrightarrow> j mod 128 = i mod 128 \<Longrightarrow> rcmd_at (rcmd_put i r R) j = r"
  by (simp add: rcmd_at_def rcmd_put_def slot_127 idx_put_same nat_less_iff)

lemma overflow_cleaned: "nul_free overflow_command" "cleaned overflow_command = overflow_command"
  by (simp add: overflow_command_def, code_simp)

text \<open>
  Claim C24. A command that finds all 128 slots pending and none to drop or replace: the peer is
  told to disconnect, the client is marked to be dropped unless it already was, and the
  overflow command is queued instead, in the slot of the oldest pending command, which is
  lost.
\<close>

theorem SV_AddServerCommand_overflow:
  assumes ok: "queue_ok c" "reachable_client c" "comparable cmd" "reliableSequence c < 2 ^ 31 - 3"
    and full: "reliableSequence c - reliableAcknowledge c = 128" "type \<noteq> 0"
      "\<forall>r \<in> set (unsent c). wanted r \<and> \<not> stands_for cmd r"
    and oob: "NET_OutOfBandPrint env NS_SERVER (nc_remoteAddress (cl_netchan c)) ''disconnect'' io = Inr (sent, io')"
  shows "\<exists>c'. SV_AddServerCommand env now type cmd c io = Inr (c', io') \<and>
    reliableSequence c' = reliableSequence c + 1 \<and>
    (cl_state c \<noteq> CS_ZOMBIE \<longrightarrow> delayDropMsg c' \<noteq> None) \<and>
    rcmd_text (rcmd_at (reliableCommands c') (reliableSequence c')) = overflow_command \<and>
    rcmd_text (rcmd_at (reliableCommands c') (reliableAcknowledge c + 1)) = overflow_command"
proof -
  note q = queue_okD [OF ok(1)]
  have cr: "MAX_RELIABLE_COMMANDS div 2 \<le> s32 (reliableSequence c - reliableAcknowledge c)"
    using full(1) q(10) by (simp add: MAX_RELIABLE_COMMANDS_def)
  define c1 where "c1 = sub_5310E0 c"
  have "filter wanted (unsent c) = unsent c" using full(3) by (simp add: filter_id_conv)
  then have r1: "requeued (reliableAcknowledge c + 1) c (unsent c) c1"
    using sub_5310E0_requeued [OF ok(1), of "reliableAcknowledge c + 1"] q full(1) by (simp add: c1_def)
  note f = requeued_fields [OF r1]
  have s: "reliableSequence c1 = reliableSequence c" using f(8) length_unsent [OF ok(1)] by simp
  have ok1: "queue_ok c1" using requeued_ok [OF ok(1) r1] f(8) s q(6) by simp
  note q1 = queue_okD [OF ok1]
  have "find_loop cmd (reliableCommands c1) [reliableSent c1 + 1..reliableSequence c1] = Inr (-1)"
  proof -
    have "\<not> stands_for cmd r" if "r \<in> set (commands_of (reliableCommands c1) (reliableSent c1 + 1) (reliableSequence c1))" for r
      using that full(3) f(5) by (simp add: unsent_def)
    moreover have "rcmd_at (reliableCommands c1) v \<in> set (commands_of (reliableCommands c1) (reliableSent c1 + 1) (reliableSequence c1))"
      if "reliableSent c1 + 1 \<le> v" "v \<le> reliableSequence c1" for v
      using that by (simp add: commands_of_def)
    ultimately show ?thesis
      using find_loop_spec [OF ok(3), of "reliableCommands c1" "reliableSent c1 + 1" "reliableSequence c1"] by blast
  qed
  then have fd: "sub_530FC0 c1 cmd = Inr (-1)" by (simp add: sub_530FC0_def unsent_numbers_def q1)
  define c2 where "c2 = c1\<lparr>reliableSequence := reliableSequence c + 1\<rparr>"
  have d: "s32 (reliableSequence c2 - reliableAcknowledge c2) = MAX_RELIABLE_COMMANDS + 1"
    using full(1) f(1) by (simp add: c2_def MAX_RELIABLE_COMMANDS_def)
  let ?c' = "store_command now 1 overflow_command (SV_DelayDropClient ''EXE_SERVERCOMMANDOVERFLOW'' c2)"
  have run: "SV_AddServerCommand env now type cmd c io = Inr (?c', io')"
    using ok(2) cr full(2) fd d oob f(4) s q(9)
    by (simp add: SV_AddServerCommand_def reachable_client_def c1_def [symmetric] c2_def)
  have fields: "reliableSequence ?c' = reliableSequence c + 1"
    "cl_state c \<noteq> CS_ZOMBIE \<longrightarrow> delayDropMsg ?c' \<noteq> None"
    using f(3,7) by (simp_all add: store_command_def SV_DelayDropClient_def c2_def)
  have text_at: "rcmd_text (rcmd_at (reliableCommands ?c') j) = overflow_command"
    if "j mod 128 = (reliableSequence c + 1) mod 128" for j
  proof -
    let ?r = "rcmd_store overflow_command now 1 (rcmd_at (reliableCommands c1) (reliableSequence c + 1))"
    have "reliableCommands ?c' = rcmd_put (reliableSequence c + 1) ?r (reliableCommands c1)"
      by (simp add: store_command_def SV_DelayDropClient_def c2_def)
    moreover have "rcmd_text ?r = overflow_command"
      using rcmd_store_ok(2) [OF cells_fine_at [OF q1(1)], of overflow_command] overflow_cleaned by simp
    ultimately show ?thesis using rcmd_at_put [OF q1(2) that] by simp
  qed
  have "reliableSequence c + 1 = reliableAcknowledge c + 1 + 128" using full(1) by simp
  then have "(reliableAcknowledge c + 1) mod 128 = (reliableSequence c + 1) mod 128" by (metis mod_add_self2)
  then show ?thesis
    using run fields text_at by (intro exI [of _ ?c']) (simp only: simp_thms)
qed

theorem SV_AddServerCommand_overflow_witness:
  "\<exists>c' io'. SV_AddServerCommand quiet_env 50 1 ''e hi''
      (demo_client\<lparr>reliableSequence := 128, reliableSent := 128\<rparr>) empty_io = Inr (c', io') \<and>
    delayDropMsg c' \<noteq> None \<and> rcmd_text (rcmd_at (reliableCommands c') 1) = overflow_command"
proof -
  let ?c = "demo_client\<lparr>reliableSequence := 128, reliableSent := 128\<rparr>"
  have q: "queue_ok ?c" "reachable_client ?c" "unsent ?c = []" "cl_state ?c \<noteq> CS_ZOMBIE"
    using demo_client_queue by (simp_all add: queue_ok_def reachable_client_def unsent_def commands_of_Nil)
      (simp_all add: demo_client_def)
  obtain ok io' where o: "NET_OutOfBandPrint quiet_env NS_SERVER (nc_remoteAddress (cl_netchan ?c)) ''disconnect'' empty_io
      = Inr (ok, io')"
    by (simp add: NET_OutOfBandPrint_def NET_SendPacket_def demo_client_def Netchan_Setup_def
        demo_address_def quiet_env_def)
  show ?thesis
    using SV_AddServerCommand_overflow [OF q(1,2) demo_comparable(1) _ _ _ _ o, of 1 50] q demo_client_queue
    by auto
qed

section \<open>Transmission\<close>

definition command_bytes :: "int \<Rightarrow> string \<Rightarrow> bytes" where
  "command_bytes i s = le_bytes 1 svc_serverCommand @ le_bytes 4 i @ string_bytes s"

text \<open>The numbered texts a client has not acknowledged.\<close>

definition numbered :: "rcmd list \<Rightarrow> int list \<Rightarrow> (int \<times> string) list" where
  "numbered R is = map (\<lambda>i. (i, rcmd_text (rcmd_at R i))) is"

definition encoded_commands :: "(int \<times> string) list \<Rightarrow> bytes" where
  "encoded_commands xs = concat (map (\<lambda>(i, s). command_bytes i s) xs)"

lemma encoded_simps [simp]:
  "encoded_commands [] = []"
  "encoded_commands ((i, s) # xs) = command_bytes i s @ encoded_commands xs"
  "numbered R [] = []"
  "numbered R (i # is) = (i, rcmd_text (rcmd_at R i)) # numbered R is"
  by (simp_all add: encoded_commands_def numbered_def)

lemma length_numbered: "length (numbered R is) = length is"
  by (simp add: numbered_def)

lemma rcmd_text_short: "rcmd_ok r \<Longrightarrow> length (rcmd_text r) < 1024"
proof (rule ccontr)
  assume r: "rcmd_ok r" and "\<not> length (rcmd_text r) < 1024"
  then have "1023 < length (rcmd_text r)" by simp
  then have "rc_buffer r ! 1023 \<in> set (cstr (rc_buffer r))"
    by (metis cstr_def nth_mem rcmd_text_def takeWhile_nth)
  then show False using r by (auto simp: rcmd_ok_def cstr_def dest: set_takeWhileD)
qed

lemma write_command_room:
  assumes "cells_fine R" "msg_ok m" "room (6 + length (rcmd_text (rcmd_at R i))) m"
  shows "write_command R i m = msg_app (command_bytes i (rcmd_text (rcmd_at R i))) m"
proof -
  let ?s = "rcmd_text (rcmd_at R i)"
  have s: "length ?s < 1024" by (intro rcmd_text_short cells_fine_at assms(1))
  define m1 where "m1 = msg_app (le_bytes 1 svc_serverCommand) m"
  define m2 where "m2 = msg_app (le_bytes 4 i) m1"
  have r: "room 1 m" "room 5 m" using assms(3) by (auto intro: room_mono)
  have m1: "msg_ok m1" "room 4 m1" "MSG_WriteByte svc_serverCommand m = m1"
    using assms(2) r by (simp_all add: m1_def msg_app_ok room_app write_room)
  have m2: "msg_ok m2" "room (length ?s + 1) m2" "MSG_WriteLong i m1 = m2"
    using assms(3) m1 by (simp_all add: m2_def msg_app_ok room_app write_room m1_def)
  have "write_command R i m = msg_app (string_bytes ?s) m2"
    using WriteString_room [OF m2(1,2) s] m1 m2 by (simp add: write_command_def)
  then show ?thesis using assms(2) m1(1)
    by (simp add: m2_def m1_def msg_app_app command_bytes_def)
qed

lemma length_command_bytes: "length (command_bytes i s) = 6 + length s"
  by (simp add: command_bytes_def)

lemma recover_loop_spec:
  "cells_fine R \<Longrightarrow> msg_ok m \<Longrightarrow> js = [i..hi] \<Longrightarrow> recover_loop R js i m = (i', m') \<Longrightarrow>
   \<exists>k \<le> length js. i' = i + int k \<and> msg_ok m' \<and> overflowed m' = overflowed m \<and> maxsize m' = maxsize m \<and>
     content m' = content m @ encoded_commands (numbered R (take k js)) \<and> (k = 0 \<longrightarrow> m' = m) \<and>
     (0 < k \<longrightarrow> cursize m' < maxsize m) \<and>
     (k < length js \<longrightarrow> maxsize m \<le> int (length (rcmd_text (rcmd_at R i'))) + cursize m' + 6)"
proof (induction js arbitrary: i m)
  case Nil
  then show ?case by simp
next
  case (Cons j js)
  then have j: "j = i" "js = [i + 1..hi]" by (auto simp: upto.simps [of i hi] split: if_splits)
  let ?s = "rcmd_text (rcmd_at R i)"
  show ?case
  proof (cases "maxsize m \<le> int (length ?s) + cursize m + 6")
    case True
    then have "i' = i" "m' = m" using Cons.prems(4) j(1) by simp_all
    then show ?thesis using True Cons.prems(2) by (intro exI [of _ 0]) auto
  next
    case False
    define m1 where "m1 = msg_app (command_bytes i ?s) m"
    have rm: "room (length (command_bytes i ?s)) m"
      using False by (simp add: room_def length_command_bytes)
    have w: "write_command R i m = m1"
      using write_command_room [OF Cons.prems(1,2)] rm by (simp add: m1_def length_command_bytes)
    have m1: "msg_ok m1" "content m1 = content m @ command_bytes i ?s"
      using Cons.prems(2) rm by (simp_all add: m1_def msg_app_ok content_app)
    have f: "overflowed m1 = overflowed m" "maxsize m1 = maxsize m" "cursize m1 < maxsize m"
      using False by (simp_all add: m1_def msg_app_def length_command_bytes)
    have "recover_loop R js (i + 1) m1 = (i', m')" using Cons.prems(4) False w j by simp
    from Cons.IH [OF Cons.prems(1) m1(1) j(2) this] obtain k where
      k: "k \<le> length js" "i' = i + 1 + int k" "msg_ok m'" "overflowed m' = overflowed m1" "maxsize m' = maxsize m1"
        "content m' = content m1 @ encoded_commands (numbered R (take k js))"
        "0 < k \<longrightarrow> cursize m' < maxsize m1" "k = 0 \<longrightarrow> m' = m1"
        "k < length js \<longrightarrow> maxsize m1 \<le> int (length (rcmd_text (rcmd_at R i'))) + cursize m' + 6" by blast
    have "cursize m' < maxsize m" using k(7,8) f(2,3) by (cases "k = 0") simp_all
    then show ?thesis using k m1 f j by (intro exI [of _ "Suc k"]) simp
  qed
qed

lemma recover_result:
  assumes "queue_ok c" "msg_ok m" "SV_UpdateServerCommandsToClientRecover c m = (c', m')"
  shows "\<exists>k \<le> length (pending_numbers c).
    content m' = content m @ encoded_commands (numbered (reliableCommands c) (take k (pending_numbers c))) \<and>
    msg_ok m' \<and> overflowed m' = overflowed m \<and>
    c' = c\<lparr>reliableSent := max (reliableSent c) (reliableAcknowledge c + int k)\<rparr> \<and>
    (0 < k \<longrightarrow> cursize m' < maxsize m) \<and>
    (k < length (pending_numbers c) \<longrightarrow>
       maxsize m \<le> cursize m' + 6 + int (length (rcmd_text
         (rcmd_at (reliableCommands c) (reliableAcknowledge c + 1 + int k)))))"
proof -
  note q = queue_okD [OF assms(1)]
  have p: "pending_numbers c = [reliableAcknowledge c + 1..reliableSequence c]"
    by (simp add: pending_numbers_def q)
  obtain i m1 where r: "recover_loop (reliableCommands c) (pending_numbers c) (reliableAcknowledge c + 1) m = (i, m1)"
    by fastforce
  obtain k where k: "k \<le> length (pending_numbers c)" "i = reliableAcknowledge c + 1 + int k" "msg_ok m1"
      "overflowed m1 = overflowed m" "maxsize m1 = maxsize m"
      "content m1 = content m @ encoded_commands (numbered (reliableCommands c) (take k (pending_numbers c)))"
      "0 < k \<longrightarrow> cursize m1 < maxsize m" "k < length (pending_numbers c) \<longrightarrow>
        maxsize m \<le> int (length (rcmd_text (rcmd_at (reliableCommands c) i))) + cursize m1 + 6"
    using recover_loop_spec [OF q(1) assms(2) p r] by blast
  have "m' = m1" "c' = c\<lparr>reliableSent := max (reliableSent c) (reliableAcknowledge c + int k)\<rparr>"
    using assms(3) r q k(2) by (auto simp: SV_UpdateServerCommandsToClientRecover_def max_def)
  then show ?thesis using k by (intro exI [of _ k]) (simp add: algebra_simps)
qed

text \<open>The number of commands in an encoding is determined by its bytes.\<close>

lemma encoded_longer:
  "j < k \<Longrightarrow> k \<le> length xs \<Longrightarrow> length (encoded_commands (take j xs)) < length (encoded_commands (take k xs))"
proof (induction xs arbitrary: j k)
  case Nil
  then show ?case by simp
next
  case (Cons x xs)
  then obtain k1 where k: "k = Suc k1" by (cases k) auto
  obtain i s where x: "x = (i, s)" by force
  show ?case
  proof (cases j)
    case 0
    then show ?thesis by (simp add: k x length_command_bytes)
  next
    case (Suc j1)
    then show ?thesis using Cons k x by simp
  qed
qed

lemma encoded_inj:
  assumes "encoded_commands (take j xs) = encoded_commands (take k xs)" "j \<le> length xs" "k \<le> length xs"
  shows "j = k"
  using encoded_longer [of j k xs] encoded_longer [of k j xs] assms by (metis linorder_neqE_nat order_less_irrefl)

lemma demo_queued:
  obtains c new where "SV_AddServerCommand quiet_env 50 1 ''e hi'' demo_client empty_io = Inr (c, empty_io)"
    "queue_ok c" "reliableSequence c = 1" "reliableAcknowledge c = 0" "reliableSent c = 0"
    "cl_netchan c = cl_netchan demo_client" "unsent c = [new]" "rcmd_at (reliableCommands c) 1 = new"
    "rcmd_text new = ''e hi''"
proof -
  have un: "unsent demo_client = []" by (simp add: unsent_def commands_of_Nil demo_client_queue)
  obtain c new where a: "SV_AddServerCommand quiet_env 50 1 ''e hi'' demo_client empty_io = Inr (c, empty_io)"
    and n: "requeued 0 demo_client (queued 1 ''e hi'' demo_client new) c" "rcmd_text new = ''e hi''"
    using SV_AddServerCommand_requeued [OF demo_client_queue(1), of 0 "''e hi''" quiet_env 50 1 empty_io]
      demo_client_queue demo_comparable by auto
  have q: "queued 1 ''e hi'' demo_client new = [new]" by (simp add: queued_def kept_commands_def un)
  have f: "reliableSequence c = 1" "reliableAcknowledge c = 0" "reliableSent c = 0"
      "cl_netchan c = cl_netchan demo_client" "unsent c = [new]"
    using requeued_fields [OF n(1)] q demo_client_queue by simp_all
  have "rcmd_at (reliableCommands c) 1 = new" using f by (simp add: unsent_def commands_of_def)
  moreover have "queue_ok c" using requeued_ok [OF demo_client_queue(1) n(1)] q demo_client_queue by simp
  ultimately show ?thesis using that a f n(2) by blast
qed

text \<open>
  Claim C40. Resending after a snapshot that became too long: the message is extended by the
  longest run of the pending commands, from the oldest on, that leaves at least one byte of it
  free (a command that would fill the message exactly is refused); it never overflows, and the
  last number written becomes the last sent one unless more had been sent before.
\<close>

theorem SV_UpdateServerCommandsToClientRecover_fits:
  assumes "queue_ok c" "msg_ok m" "SV_UpdateServerCommandsToClientRecover c m = (c', m')"
  shows "\<exists>k \<le> length (pending_numbers c).
    content m' = content m @ encoded_commands (numbered (reliableCommands c) (take k (pending_numbers c))) \<and>
    msg_ok m' \<and> overflowed m' = overflowed m \<and>
    c' = c\<lparr>reliableSent := max (reliableSent c) (reliableAcknowledge c + int k)\<rparr> \<and>
    (0 < k \<longrightarrow> cursize m' < maxsize m) \<and>
    (k < length (pending_numbers c) \<longrightarrow>
       maxsize m \<le> cursize m' + 6 + int (length (rcmd_text
         (rcmd_at (reliableCommands c) (reliableAcknowledge c + 1 + int k)))))"
  using recover_result [OF assms] .

text \<open>One pending command of ten bytes is refused by a message of ten bytes and fits one of eleven.\<close>

theorem SV_UpdateServerCommandsToClientRecover_fits_witness:
  "\<exists>c io. SV_AddServerCommand quiet_env 50 1 ''e hi'' demo_client empty_io = Inr (c, io) \<and>
     content (snd (SV_UpdateServerCommandsToClientRecover c (MSG_Init (replicate 10 0) 10))) = [] \<and>
     content (snd (SV_UpdateServerCommandsToClientRecover c (MSG_Init (replicate 11 0) 11))) = command_bytes 1 ''e hi''"
proof -
  obtain c new where a: "SV_AddServerCommand quiet_env 50 1 ''e hi'' demo_client empty_io = Inr (c, empty_io)"
    and f: "queue_ok c" "reliableSequence c = 1" "reliableAcknowledge c = 0"
      "rcmd_at (reliableCommands c) 1 = new" "rcmd_text new = ''e hi''"
    by (rule demo_queued)
  have p: "pending_numbers c = [1]" by (simp add: pending_numbers_def f)
  have m: "msg_ok (MSG_Init (replicate k 0) (int k))" "content (MSG_Init (replicate k 0) (int k)) = []"
    "maxsize (MSG_Init (replicate k 0) (int k)) = int k" if "k \<le> 20" for k
    using that by (simp_all add: msg_ok_def MSG_Init_def content_def)
  have "content (snd (SV_UpdateServerCommandsToClientRecover c (MSG_Init (replicate k 0) (int k)))) =
      (if 11 \<le> k then command_bytes 1 ''e hi'' else [])" if k: "k \<le> 20" for k
  proof -
    obtain c' m' where u: "SV_UpdateServerCommandsToClientRecover c (MSG_Init (replicate k 0) (int k)) = (c', m')"
      by fastforce
    let ?m = "MSG_Init (replicate k 0) (int k)"
    obtain n where r: "n \<le> length (pending_numbers c)" "msg_ok m'" "0 < n \<longrightarrow> cursize m' < maxsize ?m"
        "content m' = content ?m @ encoded_commands (numbered (reliableCommands c) (take n (pending_numbers c)))"
        "n < length (pending_numbers c) \<longrightarrow> maxsize ?m \<le> cursize m' + 6 +
           int (length (rcmd_text (rcmd_at (reliableCommands c) (reliableAcknowledge c + 1 + int n))))"
      using SV_UpdateServerCommandsToClientRecover_fits [OF f(1) m(1) [OF k] u] by blast
    have n: "n \<le> 1" "content m' = encoded_commands (numbered (reliableCommands c) (take n [1]))"
      "0 < n \<longrightarrow> cursize m' < int k" "n = 0 \<longrightarrow> int k \<le> 10 + cursize m'"
      using r m(2,3) [OF k] p f by simp_all
    have size: "cursize m' = int (length (content m'))" using r(2) by (auto simp: msg_ok_def content_def min_def)
    show ?thesis
    proof (cases "n = 0")
      case True
      then show ?thesis using n size u by (simp add: numbered_def encoded_commands_def)
    next
      case False
      then have "content m' = command_bytes 1 ''e hi''"
        using n(1,2) f by (cases n) (simp_all add: numbered_def encoded_commands_def)
      then show ?thesis using n(3) size u False by (simp add: length_command_bytes)
    qed
  qed
  from this [of 10] this [of 11] show ?thesis using a by auto
qed

section \<open>Runs\<close>

text \<open>
  A run of a connected client: commands are queued while fewer than 127 are pending,
  messages carry the pending commands, and packets arrive whose acknowledgement lies between
  the one before and the last number sent, as a client that acknowledges what it received in
  order sends them.  The log has every command written to a message, with its number.
\<close>

inductive command_run :: "client \<Rightarrow> client \<Rightarrow> (int \<times> string) list \<Rightarrow> bool" for c0 where
  run_start: "command_run c0 c0 []"
| run_queue: "command_run c0 c log \<Longrightarrow> comparable cmd \<Longrightarrow>
    reliableSequence c - reliableAcknowledge c < 127 \<Longrightarrow> reliableSequence c < 2 ^ 31 - 3 \<Longrightarrow>
    SV_AddServerCommand env now type cmd c io = Inr (c', io') \<Longrightarrow> command_run c0 c' log"
| run_send: "command_run c0 c log \<Longrightarrow> SV_UpdateServerCommandsToClient c m = (c', m') \<Longrightarrow>
    command_run c0 c' (log @ numbered (reliableCommands c) (pending_numbers c))"
| run_resend: "command_run c0 c log \<Longrightarrow> msg_ok m \<Longrightarrow>
    SV_UpdateServerCommandsToClientRecover c m = (c', m') \<Longrightarrow>
    k \<le> length (pending_numbers c) \<Longrightarrow>
    content m' = content m @ encoded_commands (numbered (reliableCommands c) (take k (pending_numbers c))) \<Longrightarrow>
    command_run c0 c' (log @ numbered (reliableCommands c) (take k (pending_numbers c)))"
| run_packet: "command_run c0 c log \<Longrightarrow> receive_client_message now c m = Inr (ok, c', m') \<Longrightarrow>
    reliableAcknowledge c \<le> reliableAcknowledge c' \<Longrightarrow> reliableAcknowledge c' \<le> reliableSent c \<Longrightarrow>
    command_run c0 c' log"

text \<open>The invariant: the log is a function, and what can still be asked for is in its slot.\<close>

definition log_ok :: "client \<Rightarrow> (int \<times> string) list \<Rightarrow> bool" where
  "log_ok c log \<longleftrightarrow>
     (\<forall>n s t. (n, s) \<in> set log \<and> (n, t) \<in> set log \<longrightarrow> s = t) \<and>
     (\<forall>n s. (n, s) \<in> set log \<longrightarrow> n \<le> reliableSent c \<and>
        (reliableAcknowledge c \<le> n \<longrightarrow> rcmd_text (rcmd_at (reliableCommands c) n) = s))"

definition run_ok :: "client \<Rightarrow> (int \<times> string) list \<Rightarrow> bool" where
  "run_ok c log \<longleftrightarrow> queue_ok c \<and> reachable_client c \<and>
     reliableSequence c - reliableAcknowledge c \<le> 127 \<and> log_ok c log"

lemma run_queue_ok:
  assumes r: "run_ok c log" and cmd: "comparable cmd"
    and pend: "reliableSequence c - reliableAcknowledge c < 127" "reliableSequence c < 2 ^ 31 - 3"
    and step: "SV_AddServerCommand env now type cmd c io = Inr (c', io')"
  shows "run_ok c' log"
proof -
  have ok: "queue_ok c" "reachable_client c" "log_ok c log" using r by (simp_all add: run_ok_def)
  note q = queue_okD [OF ok(1)]
  obtain new where n: "requeued (reliableAcknowledge c) c (queued type cmd c new) c'"
    using SV_AddServerCommand_requeued [OF ok(1), of "reliableAcknowledge c" cmd env now type io]
      q pend cmd ok(2) step by fastforce
  note f = requeued_fields [OF n]
  have len: "int (length (queued type cmd c new)) \<le> reliableSequence c - reliableSent c + 1"
    using length_queued [of type cmd c new] length_unsent [OF ok(1)] by linarith
  have "queue_ok c'" using requeued_ok [OF ok(1) n] len pend by linarith
  moreover have "rcmd_at (reliableCommands c') j = rcmd_at (reliableCommands c) j"
    if "reliableAcknowledge c \<le> j" "j \<le> reliableSent c" for j
    using n that by (simp add: requeued_def same_below_def)
  ultimately show ?thesis
    using ok f len pend by (simp add: run_ok_def log_ok_def reachable_client_def)
qed

lemma run_write_ok:
  assumes r: "run_ok c log" and k: "k \<le> length (pending_numbers c)"
    and c': "c' = c\<lparr>reliableSent := n\<rparr>" "reliableSent c \<le> n" "reliableAcknowledge c + int k \<le> n"
      "n \<le> reliableSequence c"
  shows "run_ok c' (log @ numbered (reliableCommands c) (take k (pending_numbers c)))"
proof -
  have ok: "queue_ok c" "reachable_client c" "log_ok c log" using r by (simp_all add: run_ok_def)
  note q = queue_okD [OF ok(1)]
  have p: "pending_numbers c = [reliableAcknowledge c + 1..reliableSequence c]"
    by (simp add: pending_numbers_def q)
  have new: "reliableAcknowledge c < i \<and> i \<le> n \<and> s = rcmd_text (rcmd_at (reliableCommands c) i)"
    if "(i, s) \<in> set (numbered (reliableCommands c) (take k (pending_numbers c)))" for i s
  proof -
    have i: "i \<in> set (take k (pending_numbers c))" "s = rcmd_text (rcmd_at (reliableCommands c) i)"
      using that by (auto simp: numbered_def)
    then obtain j where "j < k" "j < length (pending_numbers c)" "i = pending_numbers c ! j"
      by (auto simp: in_set_conv_nth)
    then show ?thesis using i(2) c'(3) by (simp add: p)
  qed
  let ?L = "log @ numbered (reliableCommands c) (take k (pending_numbers c))"
  have old: "i \<le> n \<and> (reliableAcknowledge c \<le> i \<longrightarrow> s = rcmd_text (rcmd_at (reliableCommands c) i))"
    if "(i, s) \<in> set log" for i s
    using ok(3) that c'(2) unfolding log_ok_def by force
  have all: "i \<le> n \<and> (reliableAcknowledge c \<le> i \<longrightarrow> s = rcmd_text (rcmd_at (reliableCommands c) i))"
    if "(i, s) \<in> set ?L" for i s
    using that old new by auto
  have "s = t" if "(i, s) \<in> set ?L" "(i, t) \<in> set ?L" for i s t
  proof (cases "reliableAcknowledge c \<le> i")
    case True
    then show ?thesis using all that by metis
  next
    case False
    then have "(i, s) \<in> set log" "(i, t) \<in> set log" using that False new [of i s] new [of i t] by auto
    then show ?thesis using ok(3) unfolding log_ok_def by blast
  qed
  then have "log_ok c' ?L" using all c'(1) unfolding log_ok_def by auto
  then show ?thesis using r q c' by (simp add: run_ok_def queue_ok_def reachable_client_def)
qed

lemma run_resend_ok:
  assumes r: "run_ok c log" and m: "msg_ok m" "SV_UpdateServerCommandsToClientRecover c m = (c', m')"
    and k: "k \<le> length (pending_numbers c)"
      "content m' = content m @ encoded_commands (numbered (reliableCommands c) (take k (pending_numbers c)))"
  shows "run_ok c' (log @ numbered (reliableCommands c) (take k (pending_numbers c)))"
proof -
  have ok: "queue_ok c" using r by (simp add: run_ok_def)
  note q = queue_okD [OF ok]
  obtain j where j: "j \<le> length (pending_numbers c)"
      "content m' = content m @ encoded_commands (numbered (reliableCommands c) (take j (pending_numbers c)))"
      "c' = c\<lparr>reliableSent := max (reliableSent c) (reliableAcknowledge c + int j)\<rparr>"
    using recover_result [OF ok m] by blast
  have "encoded_commands (take j (numbered (reliableCommands c) (pending_numbers c))) =
      encoded_commands (take k (numbered (reliableCommands c) (pending_numbers c)))"
    using j(2) k(2) by (simp add: numbered_def take_map)
  then have "j = k" by (rule encoded_inj) (simp_all add: length_numbered j(1) k(1))
  then have c': "c' = c\<lparr>reliableSent := max (reliableSent c) (reliableAcknowledge c + int k)\<rparr>"
    using j(3) by simp
  have "int k \<le> reliableSequence c - reliableAcknowledge c"
    using k(1) q(3-5,8) by (simp add: pending_numbers_def)
  then have n: "max (reliableSent c) (reliableAcknowledge c + int k) \<le> reliableSequence c" using q(5) by simp
  show ?thesis by (rule run_write_ok [OF r k(1) c' max.cobounded1 max.cobounded2 n])
qed

lemma Netchan_Process_address:
  "Netchan_Process nc m = Inr (ok, nc1, m1) \<Longrightarrow> nc_remoteAddress nc1 = nc_remoteAddress nc"
  by (auto simp: Netchan_Process_def deliver_fragments_def Let_def split: prod.splits if_splits)

lemma header_fields:
  assumes "read_client_header c m = (ok, c1, m1)"
  shows "reliableCommands c1 = reliableCommands c" "reliableSequence c1 = reliableSequence c"
    "reliableSent c1 = reliableSent c" "canNotReliable c1 = canNotReliable c" "cl_netchan c1 = cl_netchan c"
  using assms by (auto simp: read_client_header_def Let_def split: prod.splits if_splits)

lemma receive_fields:
  assumes "receive_client_message now c m = Inr (ok, c1, m1)"
  shows "reliableCommands c1 = reliableCommands c" "reliableSequence c1 = reliableSequence c"
    "reliableSent c1 = reliableSent c" "canNotReliable c1 = canNotReliable c"
    "nc_remoteAddress (cl_netchan c1) = nc_remoteAddress (cl_netchan c)"
proof -
  obtain ok1 nc m2 where n: "Netchan_Process (cl_netchan c) m = Inr (ok1, nc, m2)"
    using assms by (auto simp: receive_client_message_def split: sum.splits)
  obtain ok2 c2 m3 where h: "read_client_header (c\<lparr>cl_netchan := nc\<rparr>) m2 = (ok2, c2, m3)"
    by (cases "read_client_header (c\<lparr>cl_netchan := nc\<rparr>) m2") auto
  have "c1 \<in> {c\<lparr>cl_netchan := nc\<rparr>, c2, c2\<lparr>lastPacketTime := now\<rparr>}"
    using assms n h by (auto simp: receive_client_message_def Let_def split: if_splits)
  then show "reliableCommands c1 = reliableCommands c" "reliableSequence c1 = reliableSequence c"
    "reliableSent c1 = reliableSent c" "canNotReliable c1 = canNotReliable c"
    "nc_remoteAddress (cl_netchan c1) = nc_remoteAddress (cl_netchan c)"
    using header_fields [OF h] Netchan_Process_address [OF n] by auto
qed

lemma run_packet_ok:
  assumes r: "run_ok c log" and m: "receive_client_message now c m = Inr (ok, c', m')"
    and a: "reliableAcknowledge c \<le> reliableAcknowledge c'" "reliableAcknowledge c' \<le> reliableSent c"
  shows "run_ok c' log"
  using r a receive_fields [OF m]
  unfolding run_ok_def log_ok_def queue_ok_def reachable_client_def by auto

lemma command_run_ok: "command_run c0 c log \<Longrightarrow> run_ok c0 [] \<Longrightarrow> run_ok c log"
proof (induction rule: command_run.induct)
  case run_start
  then show ?case by simp
next
  case (run_queue c log cmd env now type io c' io')
  then show ?case using run_queue_ok by blast
next
  case (run_send c log m c' m')
  then have r: "run_ok c log" by simp
  have "c' = c\<lparr>reliableSent := reliableSequence c\<rparr>"
    using run_send by (simp add: SV_UpdateServerCommandsToClient_def)
  moreover have "queue_ok c" using r by (simp add: run_ok_def)
  ultimately show ?case
    using run_write_ok [OF r, of "length (pending_numbers c)" c' "reliableSequence c"] queue_okD [of c]
    by (simp add: pending_numbers_def)
next
  case (run_resend c log m c' m' k)
  then show ?case using run_resend_ok by blast
next
  case (run_packet c log now m ok c' m')
  then show ?case using run_packet_ok by blast
qed

section \<open>The key stream\<close>

lemma xor_twice [simp]: "(d XOR k) XOR k = (d :: byte)"
  by (simp add: xor.assoc)

lemma xor_stream_inverse [simp]: "xor_stream str i k key (xor_stream str i k key bs) = bs"
  by (induction str i k key bs rule: xor_stream.induct) (simp_all add: Let_def)

text \<open>A text of at least one character is all the stream depends on.\<close>

lemma xor_stream_text:
  "nul_free s \<Longrightarrow> s \<noteq> [] \<Longrightarrow> k \<le> length s \<Longrightarrow>
   xor_stream (s @ NUL # rest) i k key bs = xor_stream (s @ [NUL]) i k key bs"
proof (induction bs arbitrary: i k key)
  case Nil
  then show ?case by simp
next
  case (Cons d ds)
  define k1 where "k1 = (if k = length s then 0 else k)"
  have nz: "s ! j \<noteq> NUL" if "j < length s" for j using Cons.prems(1) that unfolding nul_free_def by (metis nth_mem)
  have k1: "k1 < length s" using Cons.prems by (simp add: k1_def)
  have "(if (s @ NUL # r) ! k = NUL then 0 else k) = k1" for r
    using Cons.prems nz by (auto simp: k1_def nth_append)
  moreover have "(s @ NUL # r) ! k1 = s ! k1" for r using k1 by (simp add: nth_append)
  ultimately show ?case using Cons.IH [of "Suc k1"] Cons.prems k1 by (simp add: Let_def)
qed

lemma rcmd_cells: "rcmd_ok r \<Longrightarrow> \<exists>rest. rc_buffer r = rcmd_text r @ NUL # rest"
proof -
  assume r: "rcmd_ok r"
  let ?b = "rc_buffer r"
  have len: "length (takeWhile (\<lambda>c. c \<noteq> NUL) ?b) < length ?b"
    using r rcmd_text_short [OF r] by (simp add: rcmd_ok_def rcmd_text_def cstr_def)
  obtain d ds where d: "dropWhile (\<lambda>c. c \<noteq> NUL) ?b = d # ds"
    using len by (metis dropWhile_eq_Nil_conv less_irrefl list.exhaust takeWhile_eq_all_conv)
  then have "d = NUL" using hd_dropWhile [of "\<lambda>c. c \<noteq> NUL" ?b] by simp
  then show ?thesis
    using takeWhile_dropWhile_id [of "\<lambda>c. c \<noteq> NUL" ?b] d by (auto simp: rcmd_text_def cstr_def intro: exI [of _ ds])
qed

text \<open>
  Claim C4. Over every run, a number is never written to two messages with different texts,
  and the server decodes a packet with the text it sent under the number the client
  acknowledges: what the client encoded with the challenge, the server id, the message number
  and that text (of at least one character) comes back unchanged.
\<close>

theorem server_commands_consistent:
  assumes "run_ok c0 []" "command_run c0 c log"
  shows "(\<forall>n s t. (n, s) \<in> set log \<and> (n, t) \<in> set log \<longrightarrow> s = t) \<and>
    (\<forall>s bs. (reliableAcknowledge c, s) \<in> set log \<and> s \<noteq> [] \<longrightarrow>
       SV_Netchan_Decode c (xor_stream (s @ [NUL]) 0 0
         (word_of_int (challenge c XOR serverId c mod 256 XOR messageAcknowledge c)) bs) = bs)"
proof (intro conjI allI impI)
  have ok: "run_ok c log" using command_run_ok assms by blast
  then show "s = t" if "(n, s) \<in> set log \<and> (n, t) \<in> set log" for n s t
    using that unfolding run_ok_def log_ok_def by blast
  fix s bs assume s: "(reliableAcknowledge c, s) \<in> set log \<and> s \<noteq> []"
  let ?r = "rcmd_at (reliableCommands c) (reliableAcknowledge c)"
  have t: "rcmd_text ?r = s" using ok s unfolding run_ok_def log_ok_def by blast
  have "rcmd_ok ?r" using ok cells_fine_at by (simp add: run_ok_def queue_ok_def)
  then obtain rest where b: "rc_buffer ?r = s @ NUL # rest" using rcmd_cells t by blast
  have "nul_free s" using t by (auto simp: rcmd_text_def)
  then show "SV_Netchan_Decode c (xor_stream (s @ [NUL]) 0 0
      (word_of_int (challenge c XOR serverId c mod 256 XOR messageAcknowledge c)) bs) = bs"
    using s xor_stream_text [of s 0 rest] by (simp add: SV_Netchan_Decode_def b)
qed

theorem server_commands_consistent_witness:
  "\<exists>c. command_run demo_client c [(1, ''e hi'')] \<and> reliableAcknowledge c = 1 \<and>
     SV_Netchan_Decode c (xor_stream (''e hi'' @ [NUL]) 0 0
       (word_of_int (challenge c XOR serverId c mod 256 XOR messageAcknowledge c)) [3, 1, 4, 1, 5]) = [3, 1, 4, 1, 5]"
proof -
  have start: "run_ok demo_client []"
    using demo_client_queue by (simp add: run_ok_def log_ok_def)
  obtain c1 new where a: "SV_AddServerCommand quiet_env 50 1 ''e hi'' demo_client empty_io = Inr (c1, empty_io)"
    and f: "reliableSequence c1 = 1" "reliableAcknowledge c1 = 0" "reliableSent c1 = 0"
      "cl_netchan c1 = cl_netchan demo_client" "unsent c1 = [new]"
    and w: "rcmd_at (reliableCommands c1) 1 = new" and n: "rcmd_text new = ''e hi''"
    by (rule demo_queued)
  have r1: "command_run demo_client c1 []"
    using run_queue [OF run_start demo_comparable(1) _ _ a] by (simp add: demo_client_queue)
  define c2 where "c2 = c1\<lparr>reliableSent := 1\<rparr>"
  have "SV_UpdateServerCommandsToClient c1 demo_packet =
      (c2, fold (write_command (reliableCommands c1)) (pending_numbers c1) demo_packet)"
    by (simp add: SV_UpdateServerCommandsToClient_def c2_def f)
  from run_send [OF r1 this] have r2: "command_run demo_client c2 [(1, ''e hi'')]"
    by (simp add: pending_numbers_def f w n)
  have "\<exists>ok c3 m3. receive_client_message 60 c2 demo_packet = Inr (ok, c3, m3) \<and> reliableAcknowledge c3 = 1"
    using demo_packet_received
    by (auto simp: receive_client_message_def c2_def f read_client_header_def demo_packet_header
        MAX_RELIABLE_COMMANDS_def Let_def)
  then obtain ok c4 m4 where p: "receive_client_message 60 c2 demo_packet = Inr (ok, c4, m4)"
    "reliableAcknowledge c4 = 1" by blast
  have r3: "command_run demo_client c4 [(1, ''e hi'')]"
    using run_packet [OF r2 p(1)] p(2) by (simp add: c2_def f)
  then show ?thesis
    using server_commands_consistent [OF start r3] p(2)
    by (intro exI [of _ c4]) (simp del: xor_stream.simps)
qed

end
