(* ===== verification/ServerMessages.thy ===== *)
theory ServerMessages
  imports ServerPackets Huffman
begin

text \<open>
  \<open>SV_ExecuteClientMessage\<close> (src/src/sv_client.c): the rest of a client packet is
  decompressed, checked against the running level and executed.  Properties: the commands of
  a client are executed exactly in the order of their numbers, each once, and a burst of
  commands is cut off after the number the flood protection allows.
\<close>

section \<open>Executing a packet\<close>

text \<open>
  \<open>frame\<close> is \<open>sv.start_frameTime\<close>.  \<open>send_gamestate\<close> stands for \<open>SV_SendClientGameState\<close>.
  The decoded bytes are in a buffer of \<open>NETCHAN_FRAGMENTBUFFER_SIZE + 1\<close> bytes; None would
  mean that the decoder does not return.
\<close>

definition decode_size :: int where "decode_size = 0x800 + 1"

definition other_level :: "int \<Rightarrow> client \<Rightarrow> bool" where
  "other_level frame c \<longleftrightarrow>
     u32 (serverId c) AND 0xffffff00 \<noteq> u32 frame AND 0xffffff00
     \<and> wwwDl_var01 c = 0 \<and> \<not> wwwDownloadStarted c \<and> \<not> wwwDlAck c"

definition SV_ExecuteClientMessage ::
  "cmdenv \<Rightarrow> (client \<Rightarrow> client) \<Rightarrow> huff \<Rightarrow> int \<Rightarrow> int \<Rightarrow> client \<Rightarrow> msg \<Rightarrow>
   (client \<times> (int \<times> string \<times> bool) list) option" where
  "SV_ExecuteClientMessage env send_gamestate h now frame c m =
     (case MSG_ReadBitsCompress h (\<lambda>k. idx (data m) (readcount m + int k))
             (cursize m - readcount m) decode_size of
        None \<Rightarrow> None
      | Some bs \<Rightarrow>
          if int (length bs) = decode_size
          then Some (drop_client env c ''SV_ExecuteClientMessage: Client sent oversize message'', [])
          else if other_level frame c then
            (if gamestateSent c then Some (c, [])
             else if gamestateMessageNum c < messageAcknowledge c then Some (send_gamestate c, [])
             else Some (c, []))
          else (case client_ops env now c
                       ((MSG_Init (blit 0 bs (replicate (nat decode_size) 0)) decode_size)
                          \<lparr>cursize := int (length bs)\<rparr>) of
                  (c1, m1, cmds) \<Rightarrow> Some (c1, cmds)))"

section \<open>Commands in order\<close>

text \<open>
  What the parameters must not touch: only \<open>SV_ClientCommand\<close> moves the number and the text
  of the last command.
\<close>

definition same_last :: "client \<Rightarrow> client \<Rightarrow> bool" where
  "same_last c c1 \<longleftrightarrow> lastClientCommand c1 = lastClientCommand c \<and>
     lastClientCommandString c1 = lastClientCommandString c"

definition keeps_last :: "cmdenv \<Rightarrow> bool" where
  "keeps_last env \<longleftrightarrow> (\<forall>c s. same_last c (drop_client env c s)) \<and>
     (\<forall>c m d. same_last c (fst (user_move env c m d)))"

text \<open>The log of a run: consecutive numbers, and the text of the last one is remembered.\<close>

definition command_log :: "client \<Rightarrow> client \<Rightarrow> (int \<times> string \<times> bool) list \<Rightarrow> bool" where
  "command_log c c1 xs \<longleftrightarrow>
     map fst xs = [lastClientCommand c + 1..lastClientCommand c + int (length xs)] \<and>
     lastClientCommand c1 = lastClientCommand c + int (length xs) \<and> int_range (lastClientCommand c1) \<and>
     (if xs = [] then lastClientCommandString c1 = lastClientCommandString c
      else cstr (lastClientCommandString c1) = fst (snd (last xs)))"

lemma ReadByte_range:
  assumes "MSG_ReadByte m = (c, m1)"
  shows "c = -1 \<or> (0 \<le> c \<and> c < 256)"
proof -
  let ?b = "bytes_at (readcount m) 1 (data m)"
  have "(256 :: int) ^ length ?b \<le> 256 ^ 1" by (intro power_increasing) (simp_all add: bytes_at_def)
  then have "0 \<le> le_uint ?b" "le_uint ?b < 256" using le_uint_range [of ?b] by simp_all
  then show ?thesis using assms by (auto simp: MSG_ReadByte_def split: if_splits)
qed

lemma read_string_text:
  "read_string stops len l m = (s, m1) \<Longrightarrow> nul_free s \<and> (0 \<le> l \<and> l < len - 1 \<longrightarrow> int (length s) \<le> len - 1 - l)"
proof (induction stops len l m arbitrary: s m1 rule: read_string.induct)
  case (1 stops len l m)
  obtain c m2 where b: "MSG_ReadByte m = (c, m2)" by fastforce
  obtain s2 m3 where r: "read_string stops len (l + 1) m2 = (s2, m3)" by fastforce
  define ch where "ch = (if c = 37 then CHR ''.'' else char_of c)"
  show ?case
  proof (cases "c = -1 \<or> c = 0 \<or> c \<in> stops")
    case True
    then have "s = []" using 1(2) b by (subst (asm) read_string.simps) auto
    then show ?thesis by simp
  next
    case False
    then have "0 < c" "c < 256" using ReadByte_range [OF b] by auto
    then have ch: "ch \<noteq> NUL" by (auto simp: ch_def char_of_eq_iff take_bit_eq_mod)
    show ?thesis
    proof (cases "l + 1 < len - 1")
      case True
      then have "s = ch # s2" using 1(2) b r False
        by (subst (asm) read_string.simps) (auto simp: Let_def ch_def split: if_splits)
      moreover have "nul_free s2 \<and> (0 \<le> l + 1 \<and> l + 1 < len - 1 \<longrightarrow> int (length s2) \<le> len - 1 - (l + 1))"
        using 1(1) [OF b [symmetric] refl False ch_def True r] .
      ultimately show ?thesis using ch True by auto
    next
      case short: False
      then have "s = [ch]" using 1(2) b False
        by (subst (asm) read_string.simps) (auto simp: Let_def ch_def split: if_splits)
      then show ?thesis using ch by simp
    qed
  qed
qed

lemma SV_ClientCommand_log:
  assumes env: "keeps_last env" and c: "int_range (lastClientCommand c)"
    and step: "SV_ClientCommand env now inDl c m = (cont, c1, m1, x)"
  shows "command_log c c1 (case x of None \<Rightarrow> [] | Some e \<Rightarrow> [e])"
proof -
  obtain seq m2 where l: "MSG_ReadLong m = (seq, m2)" by fastforce
  obtain s m3 where r: "MSG_ReadString 1024 m2 = (s, m3)" by fastforce
  have s: "nul_free s" "length s \<le> 1023"
    using read_string_text [of "{}" 1024 0 m2 s m3] r by (auto simp: MSG_ReadString_def)
  then have t: "cstr (strncpy_cells s 1023 @ [NUL]) = s"
    by (simp add: strncpy_cells_cstr cstr_string)
  consider (old) "seq \<le> lastClientCommand c" | (lost) "s32 (lastClientCommand c + 1) < seq" "\<not> seq \<le> lastClientCommand c"
    | (new) "\<not> seq \<le> lastClientCommand c" "\<not> s32 (lastClientCommand c + 1) < seq" by blast
  then show ?thesis
  proof cases
    case old
    then show ?thesis using step l r c by (auto simp: SV_ClientCommand_def command_log_def)
  next
    case lost
    then have "x = None" "same_last c c1"
      using step l r env by (auto simp: SV_ClientCommand_def keeps_last_def)
    then show ?thesis using c by (simp add: command_log_def same_last_def)
  next
    case new
    have "seq < 2 ^ 31" using l ReadLong_range [of m] by (simp add: s32_range)
    then have "s32 (lastClientCommand c + 1) = lastClientCommand c + 1"
      using c new by (simp add: int_range_def)
    then have q: "seq = lastClientCommand c + 1" using new by simp
    then show ?thesis using step l r c new t \<open>seq < 2 ^ 31\<close>
      by (auto simp: SV_ClientCommand_def command_log_def int_range_def Let_def)
  qed
qed

lemma command_log_trans:
  assumes "command_log c c1 xs" "command_log c1 c2 ys"
  shows "command_log c c2 (xs @ ys)"
proof -
  let ?a = "lastClientCommand c" and ?n = "int (length xs)" and ?k = "int (length ys)"
  have "[?a + 1..?a + (?n + ?k)] = [?a + 1..?a + ?n] @ [?a + ?n + 1..?a + (?n + ?k)]"
    using upto_split2 [of "?a + 1" "?a + ?n" "?a + (?n + ?k)"]
    by (cases "xs = []") (simp_all add: Suc_le_eq)
  then show ?thesis using assms by (auto simp: command_log_def add.assoc split: if_splits)
qed

lemma command_log_same:
  "int_range (lastClientCommand c) \<Longrightarrow> same_last c c1 \<Longrightarrow> command_log c c1 []"
  by (simp add: command_log_def same_last_def)

lemma client_ops_log:
  "keeps_last env \<Longrightarrow> int_range (lastClientCommand c) \<Longrightarrow> client_ops env now c m = (c', m', xs) \<Longrightarrow>
   command_log c c' xs"
proof (induction env now c m arbitrary: c' m' xs rule: client_ops.induct)
  case (1 env now c m)
  note env = 1(2) and c = 1(3)
  have moved: "command_log c c1 []" if "user_move env c m1 d = (c1, m2)" for m1 d c1 m2
    using env that c unfolding keeps_last_def by (metis command_log_same fst_conv)
  obtain opc m1 where o: "MSG_ReadBits 3 m = (opc, m1)" by fastforce
  show ?case
  proof (cases "opc = clc_clientCommand")
    case False
    then show ?thesis using 1(4) o moved command_log_same [OF c, of c]
      by (subst (asm) client_ops.simps) (auto simp: same_last_def split: if_splits prod.splits)
  next
    case True
    obtain cont c1 m2 x where s: "SV_ClientCommand env now False c m1 = (cont, c1, m2, x)"
      by (cases "SV_ClientCommand env now False c m1") auto
    define d where "d = (case x of None \<Rightarrow> [] | Some e \<Rightarrow> [e])"
    have l: "command_log c c1 d" unfolding d_def by (rule SV_ClientCommand_log [OF env c s])
    show ?thesis
    proof (cases "\<not> cont \<or> cl_state c1 = CS_ZOMBIE")
      case stop: True
      then have "c' = c1 \<and> xs = d" using 1(4) o s True
        by (subst (asm) client_ops.simps) (auto simp: Let_def d_def)
      then show ?thesis using l by simp
    next
      case False
      obtain c2 m3 ys where r: "client_ops env now c1 m2 = (c2, m3, ys)"
        by (cases "client_ops env now c1 m2") auto
      have "command_log c1 c2 ys"
      proof (rule 1(1) [OF o [symmetric] True s [symmetric] refl refl d_def False env _ r])
        show "int_range (lastClientCommand c1)" using l unfolding command_log_def by blast
      qed
      moreover have "c' = c2 \<and> xs = d @ ys" using 1(4) o s True False r
        by (subst (asm) client_ops.simps) (auto simp: Let_def d_def)
      ultimately show ?thesis using command_log_trans [OF l] by simp
    qed
  qed
qed

lemma decompress_returns:
  "\<exists>bs. MSG_ReadBitsCompress msgHuff fin n k = Some bs \<and> length bs \<le> nat k"
proof -
  obtain q where q: "tree msgHuff = Some q" "symbol (nodeList msgHuff ! q) = INTERNAL_NODE"
    using coder_tree_root [OF coder_tree_msgHuff] by blast
  show ?thesis
    using read_symbols_total [OF msgHuff_tree(1) q, of "nat k" fin "s32 (n * 8)" 0]
    by (auto simp: MSG_ReadBitsCompress_def Let_def)
qed

text \<open>
  Claim C11. Whatever a packet holds, its execution returns (the decoder and the loop over the
  operations end), the commands it executes have the consecutive numbers that follow the last
  one executed before, and the client remembers the number and the text of the last one: no
  command is executed twice, skipped or reordered.
\<close>

theorem client_commands_in_order:
  assumes env: "keeps_last env" "\<forall>c. same_last c (send_gamestate c)"
    and c: "int_range (lastClientCommand c)"
  shows "\<exists>c' xs. SV_ExecuteClientMessage env send_gamestate msgHuff now frame c m = Some (c', xs) \<and>
    map fst xs = [lastClientCommand c + 1..lastClientCommand c + int (length xs)] \<and>
    lastClientCommand c' = lastClientCommand c + int (length xs) \<and>
    (xs \<noteq> [] \<longrightarrow> cstr (lastClientCommandString c') = fst (snd (last xs)))"
proof -
  obtain bs where bs: "MSG_ReadBitsCompress msgHuff (\<lambda>k. idx (data m) (readcount m + int k))
      (cursize m - readcount m) decode_size = Some bs" using decompress_returns by blast
  let ?m = "(MSG_Init (blit 0 bs (replicate (nat decode_size) 0)) decode_size)\<lparr>cursize := int (length bs)\<rparr>"
  obtain c1 m1 cmds where r: "client_ops env now c ?m = (c1, m1, cmds)"
    by (cases "client_ops env now c ?m") auto
  have "same_last c c" "same_last c (drop_client env c s)" for s
    using env by (simp_all add: keeps_last_def same_last_def)
  then have "\<exists>c' xs. SV_ExecuteClientMessage env send_gamestate msgHuff now frame c m = Some (c', xs) \<and>
      command_log c c' xs"
    using command_log_same [OF c] client_ops_log [OF env(1) c r] env(2) r bs
    by (simp add: SV_ExecuteClientMessage_def)
  then show ?thesis unfolding command_log_def by metis
qed

definition keeps_flood :: "cmdenv \<Rightarrow> bool" where
  "keeps_flood env \<longleftrightarrow> (\<forall>c s ok d. floodprotect (execute_command env c s ok d) = floodprotect c \<and>
     nextReliableTime (execute_command env c s ok d) = nextReliableTime c)"

lemma demo_keeps: "keeps_last demo_cmdenv" "keeps_flood demo_cmdenv"
  by (simp_all add: keeps_last_def keeps_flood_def same_last_def demo_cmdenv_def)

theorem client_commands_in_order_witness:
  "\<exists>c' xs. SV_ExecuteClientMessage demo_cmdenv id msgHuff 50 5 demo_client demo_packet = Some (c', xs) \<and>
     map fst xs = [1..int (length xs)] \<and> lastClientCommand c' = int (length xs)"
  using client_commands_in_order [OF demo_keeps(1), of id demo_client 50 5 demo_packet]
  by (auto simp: same_last_def demo_client_def int_range_def)

section \<open>The flood protection\<close>

text \<open>A burst: counted commands handed to the execution at the times \<open>ts\<close>, with the flags.\<close>

inductive burst :: "cmdenv \<Rightarrow> client \<Rightarrow> int list \<Rightarrow> bool list \<Rightarrow> bool" for env where
  burst_end: "burst env c [] []"
| burst_command: "SV_ClientCommand env t False c m = (True, c1, m1, Some (n, s, ok)) \<Longrightarrow>
    \<not> flood_exempt env c s \<Longrightarrow> burst env c1 ts oks \<Longrightarrow> burst env c (t # ts) (ok # oks)"

inductive_cases burst_ConsE: "burst env c (t # ts) oks"
inductive_cases burst_NilE: "burst env c [] oks"

text \<open>Times of a burst: in order, less than 800 milliseconds apart.\<close>

fun close_times :: "int list \<Rightarrow> bool" where
  "close_times (t # u # ts) \<longleftrightarrow> t \<le> u \<and> u < t + 800 \<and> close_times (u # ts)"
| "close_times ts = True"

lemma counted_step:
  assumes "keeps_flood env" "SV_ClientCommand env t False c m = (True, c1, m1, Some (n, s, ok))"
    "\<not> flood_exempt env c s"
  shows "ok = flood_ok t False c" "floodprotect c1 = floodprotect (flood_count env t c)"
    "nextReliableTime c1 = s32 (t + 800)"
  using assms by (auto simp: SV_ClientCommand_def keeps_flood_def flood_count_def Let_def split: prod.splits if_splits)

lemma burst_spent:
  assumes "keeps_flood env"
  shows "burst env c ts oks \<Longrightarrow> 0 \<le> floodprotect c \<Longrightarrow> floodprotect c < 2 ^ 31 \<Longrightarrow> close_times (u # ts) \<Longrightarrow>
    nextReliableTime c = u + 800 \<Longrightarrow> \<forall>t \<in> set ts. 0 \<le> t \<and> t < 2 ^ 31 - 801 \<Longrightarrow>
    oks = replicate (min (nat (floodprotect c)) (length ts)) True @
          replicate (length ts - nat (floodprotect c)) False"
proof (induction ts arbitrary: c oks u)
  case Nil
  then show ?case by (auto elim: burst_NilE)
next
  case (Cons t ts)
  from Cons.prems(1) obtain m c1 m1 n s ok oks1 where
    st: "SV_ClientCommand env t False c m = (True, c1, m1, Some (n, s, ok))" "\<not> flood_exempt env c s"
    and r: "burst env c1 ts oks1" "oks = ok # oks1" by (auto elim: burst_ConsE)
  note f = counted_step [OF assms st]
  have t: "t < nextReliableTime c" "close_times (t # ts)" "s32 (t + 800) = t + 800"
    using Cons.prems by simp_all
  have fp: "floodprotect c1 = max 0 (floodprotect c - 1)"
    using f(2) t(1) Cons.prems by (simp add: flood_count_def Let_def)
  have "ok \<longleftrightarrow> floodprotect c \<noteq> 0" using f(1) t(1) by (simp add: flood_ok_def)
  moreover have "oks1 = replicate (min (nat (floodprotect c1)) (length ts)) True @
      replicate (length ts - nat (floodprotect c1)) False"
    using Cons.prems fp f(3) t by (intro Cons.IH [OF r(1)]) auto
  ultimately have o: "oks = (floodprotect c \<noteq> 0) # replicate (min (nat (floodprotect c1)) (length ts)) True @
      replicate (length ts - nat (floodprotect c1)) False" using r(2) by simp
  show ?case
  proof (cases "floodprotect c = 0")
    case True
    then show ?thesis using o fp by simp
  next
    case False
    then have "nat (floodprotect c) = Suc (nat (floodprotect c1))" using fp Cons.prems(2) by simp
    then show ?thesis using o False by simp
  qed
qed

text \<open>
  Claim C23. After a pause of more than 800 milliseconds, in a burst of counted commands that
  follow each other within 800 milliseconds exactly the first \<open>sv_floodProtect\<close> ones are
  accepted and all others are refused, however long the burst is.
\<close>

theorem flood_protection_burst:
  assumes "keeps_flood env" "burst env c (t # ts) oks" "1 \<le> sv_floodProtect env" "sv_floodProtect env < 2 ^ 31"
    and "nextReliableTime c < t" "close_times (t # ts)" "\<forall>u \<in> set (t # ts). 0 \<le> u \<and> u < 2 ^ 31 - 801"
  shows "oks = replicate (min (nat (sv_floodProtect env)) (Suc (length ts))) True @
               replicate (Suc (length ts) - nat (sv_floodProtect env)) False"
proof -
  from assms(2) obtain m c1 m1 n s ok oks1 where
    st: "SV_ClientCommand env t False c m = (True, c1, m1, Some (n, s, ok))" "\<not> flood_exempt env c s"
    and r: "burst env c1 ts oks1" "oks = ok # oks1" by (auto elim: burst_ConsE)
  note f = counted_step [OF assms(1) st]
  have fp: "floodprotect c1 = sv_floodProtect env - 1" "nextReliableTime c1 = t + 800"
    using f assms by (simp_all add: flood_count_def Let_def)
  have "oks1 = replicate (min (nat (floodprotect c1)) (length ts)) True @
      replicate (length ts - nat (floodprotect c1)) False"
    using assms fp by (intro burst_spent [OF assms(1) r(1)]) auto
  moreover have "ok" using f(1) assms(5) by (simp add: flood_ok_def)
  moreover have "nat (sv_floodProtect env) = Suc (nat (floodprotect c1))"
    using fp assms(3) by (simp add: Suc_nat_eq_nat_zadd1)
  ultimately show ?thesis using r(2) by simp
qed

lemma demo_burst_step:
  assumes "lastClientCommand c = n - 1" "n \<in> {1, 2, 3}" "cl_state c = CS_ACTIVE"
    "adr_type (nc_remoteAddress (cl_netchan c)) = NA_IP" "burst demo_cmdenv c1 ts oks"
    and c1: "c1 = (flood_count demo_cmdenv t c)\<lparr>lastClientCommand := n,
                  lastClientCommandString := strncpy_cells ''hi'' 1023 @ [NUL]\<rparr>"
  shows "burst demo_cmdenv c (t # ts) (flood_ok t False c # oks)"
proof -
  have n: "MSG_ReadLong (demo_command n) = (n, (demo_command n)\<lparr>readcount := 4\<rparr>)"
    "MSG_ReadString 1024 ((demo_command n)\<lparr>readcount := 4\<rparr>) = (''hi'', (demo_command n)\<lparr>readcount := 7\<rparr>)"
    using demo_command_read assms(2) by auto
  have s: "s32 n = n" using assms(2) by auto
  have "SV_ClientCommand demo_cmdenv t False c (demo_command n) =
      (True, c1, (demo_command n)\<lparr>readcount := 7\<rparr>, Some (n, ''hi'', flood_ok t False c))"
    using demo_command_counted [OF assms(3,4)] assms(1)
    by (simp add: SV_ClientCommand_def n c1 s) (simp add: demo_cmdenv_def)
  then show ?thesis using burst_command [OF _ demo_command_counted [OF assms(3,4)] assms(5)] by blast
qed

theorem flood_protection_burst_witness:
  "burst demo_cmdenv demo_client [1000, 1200, 1400] [True, True, False]"
proof -
  let ?s = "strncpy_cells ''hi'' 1023 @ [NUL]"
  define c1 where "c1 = (flood_count demo_cmdenv 1000 demo_client)\<lparr>lastClientCommand := 1, lastClientCommandString := ?s\<rparr>"
  define c2 where "c2 = (flood_count demo_cmdenv 1200 c1)\<lparr>lastClientCommand := 2, lastClientCommandString := ?s\<rparr>"
  define c3 where "c3 = (flood_count demo_cmdenv 1400 c2)\<lparr>lastClientCommand := 3, lastClientCommandString := ?s\<rparr>"
  have kept: "cl_state (flood_count e t c) = cl_state c" "cl_netchan (flood_count e t c) = cl_netchan c"
    for e t c by (simp_all add: flood_count_def Let_def)
  have d: "cl_state demo_client = CS_ACTIVE" "adr_type (nc_remoteAddress (cl_netchan demo_client)) = NA_IP"
      "lastClientCommand demo_client = 0" "nextReliableTime demo_client = 0"
    by (simp_all add: demo_client_def Netchan_Setup_def demo_address_def)
  have b3: "burst demo_cmdenv c2 [1400] [flood_ok 1400 False c2]"
    by (rule demo_burst_step [OF _ _ _ _ burst_end c3_def]) (simp_all add: c2_def c1_def kept d)
  have b2: "burst demo_cmdenv c1 [1200, 1400] [flood_ok 1200 False c1, flood_ok 1400 False c2]"
    by (rule demo_burst_step [OF _ _ _ _ b3 c2_def]) (simp_all add: c1_def kept d)
  have b1: "burst demo_cmdenv demo_client [1000, 1200, 1400]
      [flood_ok 1000 False demo_client, flood_ok 1200 False c1, flood_ok 1400 False c2]"
    by (rule demo_burst_step [OF _ _ _ _ b2 c1_def]) (simp_all add: d)
  have "[flood_ok 1000 False demo_client, flood_ok 1200 False c1, flood_ok 1400 False c2] = [True, True, False]"
    using flood_protection_burst [OF demo_keeps(2) b1] d
    by (simp add: demo_cmdenv_def numeral_eq_Suc)
  then show ?thesis using b1 by simp
qed

end
