(* ===== verification/QueryLimit.thy ===== *)
theory QueryLimit
  imports NetAddr QString "HOL-Library.Signed_Division"
begin

text \<open>
  The limiter of connectionless queries in src/src/sv_main.c (\<open>SVC_RateLimit*\<close>) and the test
  for local networks it starts with (\<open>Sys_IsLANAddress\<close> of src/src/sys_net.c).  The buckets lie
  in one array; a pointer to a bucket is its index.  A bucket in use hangs in the doubly linked
  chain of the hash of its address.  The clock \<open>com_uFrameTime\<close> is the argument \<open>now\<close>, in
  microseconds; the number \<open>psvs.randint\<close> drawn at start-up is the argument \<open>randint\<close>.  The chain
  is followed by a partial function: \<open>None\<close> would be a chain that does not end.
\<close>

section \<open>Local networks\<close>

text \<open>
  The networks of the computer as the system reports them: type, address and mask.  Bytes are
  compared under the mask.
\<close>

record localnet =
  ln_type :: netadrtype
  ln_addr :: bytes
  ln_mask :: bytes

definition masked_same :: "nat \<Rightarrow> localnet \<Rightarrow> bytes \<Rightarrow> bool" where
  "masked_same addrsize n compareadr \<longleftrightarrow>
     (\<forall>run \<in> {..<addrsize}. ln_addr n ! run AND ln_mask n ! run = compareadr ! run AND ln_mask n ! run)"

definition Sys_IsLANAddress :: "localnet list \<Rightarrow> netadr \<Rightarrow> bool" where
  "Sys_IsLANAddress localIP adr =
     (let t = adr_type adr; b = adr_bytes adr; v4 = (t = NA_IP \<or> t = NA_TCP) in
      t = NA_LOOPBACK \<or>
      v4 \<and> (b ! 0 = 10 \<or> b ! 0 = 172 \<and> b ! 1 AND 0xF0 = 16 \<or> b ! 0 = 192 \<and> b ! 1 = 168 \<or> b ! 0 = 127) \<or>
      (t = NA_IP6 \<or> t = NA_TCP6) \<and>
        (b ! 0 = 0xFE \<and> b ! 1 AND 0xC0 = 0x80 \<or> b ! 0 AND 0xFE = 0xFC) \<or>
      (\<exists>n \<in> set localIP. ln_type n = t \<and> masked_same (if v4 then 4 else 16) n b))"

section \<open>Buckets\<close>

record bucket =
  bk_type :: netadrtype
  bk_ipv :: bytes
  bk_lastTime :: int
  bk_burst :: int
  bk_hash :: int
  bk_prev :: "nat option"
  bk_next :: "nat option"

definition zero_bucket :: bucket where
  "zero_bucket =
     \<lparr>bk_type = NA_BAD, bk_ipv = replicate 16 0, bk_lastTime = 0, bk_burst = 0, bk_hash = 0,
      bk_prev = None, bk_next = None\<rparr>"

record querylimit =
  max_buckets :: int
  max_hashes :: int
  buckets :: "bucket list"
  bucketHashes :: "nat option list"
  queryLimitsEnabled :: int
  infoBucket :: bucket
  statusBucket :: bucket
  rconBucket :: bucket

text \<open>
  \<open>SVC_RateLimitInit\<close>: a bucket takes 44 bytes on the target.  \<open>alloc\<close> is what the allocator
  returns, cleared memory or NULL; after the NULL branch the function goes on (there is no
  return), so the table is enabled without an array.
\<close>

definition SVC_RateLimitInit :: "int \<Rightarrow> bool \<Rightarrow> querylimit \<Rightarrow> querylimit" where
  "SVC_RateLimitInit megs alloc Q =
     (if megs = 0 then Q\<lparr>queryLimitsEnabled := 0\<rparr>
      else
        let n = s32 (megs * 1024 * 1024) div 44 in
        Q\<lparr>max_buckets := n, max_hashes := 4096,
          buckets := (if alloc then replicate (nat n) zero_bucket else []),
          bucketHashes := (if alloc then replicate 4096 None else []),
          queryLimitsEnabled := 1\<rparr>)"

section \<open>The hash of an address\<close>

primrec sum_bytes :: "nat \<Rightarrow> bytes \<Rightarrow> int" where
  "sum_bytes i [] = 0"
| "sum_bytes i (b # bs) = uint b * (int i + 119) + sum_bytes (i + 1) bs"

definition hashed_bytes :: "netadr \<Rightarrow> bytes" where
  "hashed_bytes address =
     (case adr_type address of NA_IP \<Rightarrow> take 4 (adr_bytes address)
      | NA_IP6 \<Rightarrow> take 16 (adr_bytes address) | _ \<Rightarrow> [])"

definition SVC_HashForAddress :: "int \<Rightarrow> int \<Rightarrow> netadr \<Rightarrow> int" where
  "SVC_HashForAddress randint hashes address =
     (let hash = sum_bytes 0 (hashed_bytes address) in
      (hash XOR drop_bit 10 hash XOR drop_bit 20 hash XOR randint) AND (hashes - 1))"

section \<open>Finding and allocating a bucket\<close>

definition bucket_matches :: "netadr \<Rightarrow> bucket \<Rightarrow> bool" where
  "bucket_matches address b =
     (case bk_type b of
        NA_IP \<Rightarrow> take 4 (bk_ipv b) = take 4 (adr_bytes address)
      | NA_IP6 \<Rightarrow> take 16 (bk_ipv b) = take 16 (adr_bytes address)
      | _ \<Rightarrow> False)"

partial_function (option) find_bucket ::
  "bucket list \<Rightarrow> netadr \<Rightarrow> nat option \<Rightarrow> nat option option" where
  "find_bucket bs address p =
     (case p of None \<Rightarrow> Some None
      | Some i \<Rightarrow> if bucket_matches address (bs ! i) then Some (Some i)
                  else find_bucket bs address (bk_next (bs ! i)))"

text \<open>Unlinking bucket \<open>i\<close> from its chain and clearing it.\<close>

definition unlink_prev :: "bucket \<Rightarrow> querylimit \<Rightarrow> querylimit" where
  "unlink_prev b Q =
     (case bk_prev b of
        Some p \<Rightarrow> Q\<lparr>buckets := (buckets Q)[p := (buckets Q ! p)\<lparr>bk_next := bk_next b\<rparr>]\<rparr>
      | None \<Rightarrow> Q\<lparr>bucketHashes := put (bk_hash b) (bk_next b) (bucketHashes Q)\<rparr>)"

definition unlink_next :: "bucket \<Rightarrow> querylimit \<Rightarrow> querylimit" where
  "unlink_next b Q =
     (case bk_next b of
        Some n \<Rightarrow> Q\<lparr>buckets := (buckets Q)[n := (buckets Q ! n)\<lparr>bk_prev := bk_prev b\<rparr>]\<rparr>
      | None \<Rightarrow> Q)"

definition reclaim :: "nat \<Rightarrow> querylimit \<Rightarrow> querylimit" where
  "reclaim i Q =
     (let b = buckets Q ! i; Q1 = unlink_next b (unlink_prev b Q) in
      Q1\<lparr>buckets := (buckets Q1)[i := zero_bucket]\<rparr>)"

definition bucket_expired :: "int \<Rightarrow> int \<Rightarrow> int \<Rightarrow> bucket \<Rightarrow> bool" where
  "bucket_expired now burst period b =
     (let interval = s32 (now - bk_lastTime b) in
      0 < bk_lastTime b \<and> (s32 (burst * period) < interval \<or> interval < 0))"

text \<open>Taking the free bucket \<open>i\<close>: an address of another kind marks it and gives up.\<close>

definition take_bucket :: "nat \<Rightarrow> netadr \<Rightarrow> int \<Rightarrow> int \<Rightarrow> querylimit \<Rightarrow> nat option \<times> querylimit" where
  "take_bucket i address hash now Q =
     (let b = (buckets Q ! i)\<lparr>bk_type := adr_type address\<rparr> in
      if adr_type address \<noteq> NA_IP \<and> adr_type address \<noteq> NA_IP6
      then (None, Q\<lparr>buckets := (buckets Q)[i := b]\<rparr>)
      else
        let n = (if adr_type address = NA_IP then 4 else 16);
            head = idx (bucketHashes Q) hash;
            b1 = b\<lparr>bk_ipv := take n (adr_bytes address) @ drop n (bk_ipv b), bk_lastTime := now,
                   bk_burst := 0, bk_hash := hash, bk_next := head, bk_prev := None\<rparr>;
            bs = (buckets Q)[i := b1];
            bs1 = (case head of None \<Rightarrow> bs | Some h \<Rightarrow> bs[h := (bs ! h)\<lparr>bk_prev := Some i\<rparr>])
        in (Some i, Q\<lparr>buckets := bs1, bucketHashes := put hash (Some i) (bucketHashes Q)\<rparr>))"

primrec alloc_loop ::
  "nat \<Rightarrow> nat \<Rightarrow> netadr \<Rightarrow> int \<Rightarrow> int \<Rightarrow> int \<Rightarrow> int \<Rightarrow> querylimit \<Rightarrow> nat option \<times> querylimit" where
  "alloc_loop 0 i address hash now burst period Q = (None, Q)"
| "alloc_loop (Suc n) i address hash now burst period Q =
     (let Q1 = (if bucket_expired now burst period (buckets Q ! i) then reclaim i Q else Q) in
      if bk_type (buckets Q1 ! i) = NA_BAD then take_bucket i address hash now Q1
      else alloc_loop n (i + 1) address hash now burst period Q1)"

definition SVC_BucketForAddress ::
  "int \<Rightarrow> int \<Rightarrow> netadr \<Rightarrow> int \<Rightarrow> int \<Rightarrow> querylimit \<Rightarrow> (nat option \<times> querylimit) option" where
  "SVC_BucketForAddress randint now address burst period Q =
     (let hash = SVC_HashForAddress randint (max_hashes Q) address in
      case find_bucket (buckets Q) address (idx (bucketHashes Q) hash) of
        None \<Rightarrow> None
      | Some (Some i) \<Rightarrow> Some (Some i, Q)
      | Some None \<Rightarrow> Some (alloc_loop (nat (max_buckets Q)) 0 address hash now burst period Q))"

section \<open>The limit\<close>

text \<open>
  The bucket leaks one unit every \<open>period\<close>.  The interval is cut to an \<open>int\<close>, the number of
  units to a \<open>signed char\<close>, and division rounds towards zero.  The first component says that
  the query is to be dropped.
\<close>

definition leaked :: "int \<Rightarrow> int \<Rightarrow> bucket \<Rightarrow> bucket" where
  "leaked now period b =
     (let interval = s32 (now - bk_lastTime b);
          expired = interval sdiv period; expiredRemainder = interval smod period in
      if bk_burst b < expired then b\<lparr>bk_burst := 0, bk_lastTime := now\<rparr>
      else b\<lparr>bk_burst := s8 (bk_burst b - expired), bk_lastTime := (now - expiredRemainder) mod 2 ^ 64\<rparr>)"

definition SVC_RateLimit :: "int \<Rightarrow> bucket \<Rightarrow> int \<Rightarrow> int \<Rightarrow> bool \<times> bucket" where
  "SVC_RateLimit now b burst period =
     (let b1 = leaked now period b in
      if bk_burst b1 < burst then (False, b1\<lparr>bk_burst := s8 (bk_burst b1 + 1)\<rparr>) else (True, b1))"

definition SVC_RateLimitAddress ::
  "localnet list \<Rightarrow> int \<Rightarrow> int \<Rightarrow> netadr \<Rightarrow> int \<Rightarrow> int \<Rightarrow> querylimit \<Rightarrow> (bool \<times> querylimit) option" where
  "SVC_RateLimitAddress localIP randint now from burst period Q =
     (if Sys_IsLANAddress localIP from then Some (False, Q)
      else if queryLimitsEnabled Q = 1 then
        (case SVC_BucketForAddress randint now from burst period Q of
           None \<Rightarrow> None
         | Some (None, Q1) \<Rightarrow> Some (True, Q1)
         | Some (Some i, Q1) \<Rightarrow>
             let (dropped, b) = SVC_RateLimit now (buckets Q1 ! i) burst period
             in Some (dropped, Q1\<lparr>buckets := (buckets Q1)[i := b]\<rparr>))
      else Some (queryLimitsEnabled Q \<noteq> 0, Q))"

section \<open>The queries\<close>

text \<open>
  The guards of \<open>SVC_Status\<close>, \<open>SVC_Info\<close> and \<open>SVC_SourceEngineQuery_Info\<close> (which share
  \<open>info_limited\<close>): first the limit of the address, then the one of all addresses together;
  \<open>ignore\<close> is the variable \<open>sv_queryIgnoreTime\<close> in milliseconds.  A wrong remote console
  password is answered under the limit \<open>rcon_limited\<close>.
\<close>

definition status_limited ::
  "localnet list \<Rightarrow> int \<Rightarrow> int \<Rightarrow> int \<Rightarrow> netadr \<Rightarrow> querylimit \<Rightarrow> (bool \<times> querylimit) option" where
  "status_limited localIP randint now ignore from Q =
     (case SVC_RateLimitAddress localIP randint now from 2 (s32 (ignore * 1000)) Q of
        None \<Rightarrow> None
      | Some (True, Q1) \<Rightarrow> Some (True, Q1)
      | Some (False, Q1) \<Rightarrow>
          let (dropped, b) = SVC_RateLimit now (statusBucket Q1) 20 20000
          in Some (dropped, Q1\<lparr>statusBucket := b\<rparr>))"

definition info_limited ::
  "localnet list \<Rightarrow> int \<Rightarrow> int \<Rightarrow> int \<Rightarrow> netadr \<Rightarrow> querylimit \<Rightarrow> (bool \<times> querylimit) option" where
  "info_limited localIP randint now ignore from Q =
     (case SVC_RateLimitAddress localIP randint now from 4 (s32 (ignore * 1000)) Q of
        None \<Rightarrow> None
      | Some (True, Q1) \<Rightarrow> Some (True, Q1)
      | Some (False, Q1) \<Rightarrow>
          let (dropped, b) = SVC_RateLimit now (infoBucket Q1) 100 100000
          in Some (dropped, Q1\<lparr>infoBucket := b\<rparr>))"

definition rcon_limited :: "int \<Rightarrow> querylimit \<Rightarrow> bool \<times> querylimit" where
  "rcon_limited now Q =
     (let (dropped, b) = SVC_RateLimit now (rconBucket Q) 1 100 in (dropped, Q\<lparr>rconBucket := b\<rparr>))"

end
