(* ===== verification/QueryChains.thy ===== *)
theory QueryChains
  imports QueryLimit
begin

text \<open>
  The table of the query limiter: its hash chains are doubly linked lists, disjoint, and hold
  exactly the buckets in use; finding, reclaiming and taking a bucket keep that.
\<close>

section \<open>Doubly linked paths\<close>

text \<open>
  \<open>dpath bs q p is q' p'\<close>: from the pointer \<open>p\<close> the buckets \<open>is\<close> follow one another and lead to
  \<open>p'\<close>; the bucket before them is \<open>q\<close> and the last one \<open>q'\<close>.
\<close>

primrec dpath ::
  "bucket list \<Rightarrow> nat option \<Rightarrow> nat option \<Rightarrow> nat list \<Rightarrow> nat option \<Rightarrow> nat option \<Rightarrow> bool" where
  "dpath bs q p [] q' p' \<longleftrightarrow> q = q' \<and> p = p'"
| "dpath bs q p (i # is) q' p' \<longleftrightarrow>
     p = Some i \<and> i < length bs \<and> bk_prev (bs ! i) = q \<and> dpath bs (Some i) (bk_next (bs ! i)) is q' p'"

lemma dpath_append:
  "dpath bs q p (xs @ ys) q' p' \<longleftrightarrow> (\<exists>q1 p1. dpath bs q p xs q1 p1 \<and> dpath bs q1 p1 ys q' p')"
  by (induction xs arbitrary: q p) auto

lemma dpath_frame:
  "\<forall>i \<in> set is. length bs' = length bs \<and> bk_prev (bs' ! i) = bk_prev (bs ! i) \<and> bk_next (bs' ! i) = bk_next (bs ! i) \<Longrightarrow>
   dpath bs' q p is q' p' = dpath bs q p is q' p'"
  by (induction "is" arbitrary: q p) auto

lemma dpath_update: "j \<notin> set is \<Longrightarrow> dpath (bs[j := b]) q p is q' p' = dpath bs q p is q' p'"
  by (intro dpath_frame) (metis length_list_update nth_list_update_neq)

lemma dpath_update_same:
  "bk_prev b = bk_prev (bs ! j) \<Longrightarrow> bk_next b = bk_next (bs ! j) \<Longrightarrow>
   dpath (bs[j := b]) q p is q' p' = dpath bs q p is q' p'"
  by (intro dpath_frame) (metis length_list_update nth_list_update_eq nth_list_update_neq list_update_beyond not_le)

lemma dpath_below: "dpath bs q p is q' p' \<Longrightarrow> \<forall>i \<in> set is. i < length bs"
  by (induction "is" arbitrary: q p) auto

text \<open>Another bucket behind the path, or before it.\<close>

lemma dpath_set_next:
  "dpath bs q p (xs @ [l]) q' p' \<Longrightarrow> l \<notin> set xs \<Longrightarrow>
   dpath (bs[l := (bs ! l)\<lparr>bk_next := r\<rparr>]) q p (xs @ [l]) (Some l) r"
  by (auto simp: dpath_append dpath_update)

lemma dpath_set_prev:
  "dpath bs q p (i # is) q' p' \<Longrightarrow> i \<notin> set is \<Longrightarrow>
   dpath (bs[i := (bs ! i)\<lparr>bk_prev := r\<rparr>]) r p (i # is) q' p'"
  by (simp add: dpath_update)

section \<open>Finding\<close>

lemma find_bucket_path:
  "dpath bs q p is q' None \<Longrightarrow>
   find_bucket bs a p = Some (List.find (\<lambda>i. bucket_matches a (bs ! i)) is)"
  by (induction "is" arbitrary: q p) (subst find_bucket.simps, auto)+

section \<open>The chains of the table\<close>

definition in_use :: "bucket \<Rightarrow> bool" where
  "in_use b \<longleftrightarrow> bk_type b = NA_IP \<or> bk_type b = NA_IP6"

definition chained :: "(nat \<Rightarrow> nat list) \<Rightarrow> querylimit \<Rightarrow> bool" where
  "chained cs Q \<longleftrightarrow>
     max_hashes Q = 4096 \<and> length (bucketHashes Q) = 4096 \<and> int (length (buckets Q)) = max_buckets Q \<and>
     (\<forall>h < 4096. \<exists>q. dpath (buckets Q) None (bucketHashes Q ! h) (cs h) q None) \<and>
     (\<forall>h < 4096. distinct (cs h)) \<and>
     (\<forall>i < length (buckets Q). let b = buckets Q ! i in
        (if in_use b then 0 \<le> bk_hash b \<and> bk_hash b < 4096 \<and> i \<in> set (cs (nat (bk_hash b)))
         else bk_type b = NA_BAD \<and> bk_lastTime b = 0)) \<and>
     (\<forall>h < 4096. \<forall>i \<in> set (cs h). in_use (buckets Q ! i) \<and> bk_hash (buckets Q ! i) = int h)"


text \<open>The bucket before and behind one in the chain.\<close>

lemma dpath_middle:
  assumes "dpath bs q p (xs @ i # ys) q' None"
  shows "bk_prev (bs ! i) = (if xs = [] then q else Some (last xs))"
    and "bk_next (bs ! i) = (if ys = [] then None else Some (hd ys))"
    and "\<exists>q1. dpath bs q p xs q1 (Some i)" and "dpath bs (Some i) (bk_next (bs ! i)) ys q' None"
proof -
  obtain q1 where 1: "dpath bs q p xs q1 (Some i)" and 2: "bk_prev (bs ! i) = q1"
      and 3: "dpath bs (Some i) (bk_next (bs ! i)) ys q' None"
    using assms by (auto simp: dpath_append)
  have "q1 = (if xs = [] then q else Some (last xs))"
    using 1 by (cases xs rule: rev_cases) (auto simp: dpath_append)
  then show "bk_prev (bs ! i) = (if xs = [] then q else Some (last xs))" using 2 by simp
  show "bk_next (bs ! i) = (if ys = [] then None else Some (hd ys))" using 3 by (cases ys) auto
  show "\<exists>q1. dpath bs q p xs q1 (Some i)" using 1 by blast
  show "dpath bs (Some i) (bk_next (bs ! i)) ys q' None" by (rule 3)
qed

definition relinked :: "bucket list \<Rightarrow> nat \<Rightarrow> bucket list" where
  "relinked bs i =
     (let b = bs ! i;
          bs1 = (case bk_prev b of Some p \<Rightarrow> bs[p := (bs ! p)\<lparr>bk_next := bk_next b\<rparr>] | None \<Rightarrow> bs)
      in (case bk_next b of Some n \<Rightarrow> bs1[n := (bs1 ! n)\<lparr>bk_prev := bk_prev b\<rparr>] | None \<Rightarrow> bs1))"

lemma reclaim_relinked:
  "reclaim i Q = Q\<lparr>buckets := (relinked (buckets Q) i)[i := zero_bucket],
     bucketHashes := (if bk_prev (buckets Q ! i) = None
       then put (bk_hash (buckets Q ! i)) (bk_next (buckets Q ! i)) (bucketHashes Q) else bucketHashes Q)\<rparr>"
  by (simp add: reclaim_def relinked_def unlink_prev_def unlink_next_def Let_def split: option.splits)

lemma relinked_path:
  assumes path: "dpath bs None p (xs @ i # ys) q None" and d: "distinct (xs @ i # ys)"
  shows "\<exists>q'. dpath (relinked bs i) None (if xs = [] then bk_next (bs ! i) else p) (xs @ ys) q' None"
proof -
  note M = dpath_middle [OF path]
  let ?n = "bk_next (bs ! i)"
  define bs1 where "bs1 = (case bk_prev (bs ! i) of Some l \<Rightarrow> bs[l := (bs ! l)\<lparr>bk_next := ?n\<rparr>] | None \<Rightarrow> bs)"
  define q0 where "q0 = (if xs = [] then None else Some (last xs))"
  have prev: "bk_prev (bs ! i) = q0" using M(1) by (simp add: q0_def)
  have front: "dpath bs1 None (if xs = [] then ?n else p) xs q0 ?n"
  proof (cases xs rule: rev_cases)
    case Nil
    then show ?thesis by (simp add: q0_def)
  next
    case (snoc xs' l)
    then show ?thesis
      using M(1,3) d dpath_set_next [of bs None p xs' l _ "Some i" ?n] by (auto simp: bs1_def q0_def)
  qed
  have tail1: "dpath bs1 (Some i) ?n ys q None"
  proof (cases "bk_prev (bs ! i)")
    case None
    then show ?thesis using M(4) by (simp add: bs1_def)
  next
    case (Some l)
    then have "xs \<noteq> []" "l = last xs" using M(1) by (auto split: if_splits)
    then have "l \<in> set xs" by simp
    then have "l \<notin> set ys" using d by auto
    then show ?thesis using M(4) Some by (simp add: bs1_def dpath_update)
  qed
  show ?thesis
  proof (cases ys)
    case Nil
    then show ?thesis using front M(2) by (auto simp: relinked_def bs1_def Let_def)
  next
    case (Cons n ys')
    then have n: "?n = Some n" using M(2) by simp
    have tail: "dpath (bs1[n := (bs1 ! n)\<lparr>bk_prev := q0\<rparr>]) q0 ?n ys q None"
      using dpath_set_prev [of bs1 "Some i" ?n n ys' q None q0] tail1 d Cons by simp
    have "dpath (bs1[n := (bs1 ! n)\<lparr>bk_prev := q0\<rparr>]) None (if xs = [] then ?n else p) xs q0 ?n"
      using front d Cons by (subst dpath_update) auto
    moreover have "relinked bs i = bs1[n := (bs1 ! n)\<lparr>bk_prev := q0\<rparr>]"
      using n prev by (simp add: relinked_def bs1_def Let_def)
    ultimately show ?thesis using tail unfolding dpath_append by metis
  qed
qed

definition same_but_links :: "bucket \<Rightarrow> bucket \<Rightarrow> bool" where
  "same_but_links b b' \<longleftrightarrow>
     bk_type b' = bk_type b \<and> bk_ipv b' = bk_ipv b \<and> bk_hash b' = bk_hash b \<and>
     bk_burst b' = bk_burst b \<and> bk_lastTime b' = bk_lastTime b"

lemma same_but_links_refl [simp]: "same_but_links b b"
  by (simp add: same_but_links_def)

lemma same_but_links_trans [trans]: "same_but_links b c \<Longrightarrow> same_but_links c d \<Longrightarrow> same_but_links b d"
  by (simp add: same_but_links_def)

lemma same_set_link:
  "same_but_links (bs ! j) (bs[k := (bs ! k)\<lparr>bk_next := r\<rparr>] ! j)"
  "same_but_links (bs ! j) (bs[k := (bs ! k)\<lparr>bk_prev := r\<rparr>] ! j)"
  by (cases "k < length bs"; simp add: nth_list_update same_but_links_def list_update_beyond)+

text \<open>Nothing but links changes, and only in the chain of the bucket.\<close>

lemma relinked_other:
  assumes "dpath bs None p (xs @ i # ys) q None"
  shows "length (relinked bs i) = length bs"
    and "same_but_links (bs ! j) (relinked bs i ! j)"
    and "j \<notin> set (xs @ ys) \<Longrightarrow> relinked bs i ! j = bs ! j"
proof -
  note M = dpath_middle [OF assms]
  show "length (relinked bs i) = length bs" by (simp add: relinked_def Let_def split: option.splits)
  show "same_but_links (bs ! j) (relinked bs i ! j)"
  proof -
    define bs1 where "bs1 = (case bk_prev (bs ! i) of Some p \<Rightarrow> bs[p := (bs ! p)\<lparr>bk_next := bk_next (bs ! i)\<rparr>] | None \<Rightarrow> bs)"
    have "same_but_links (bs ! j) (bs1 ! j)" by (simp add: bs1_def same_set_link split: option.split)
    also have "same_but_links (bs1 ! j) (relinked bs i ! j)"
      by (simp add: relinked_def bs1_def [symmetric] Let_def same_set_link split: option.split)
    finally show ?thesis .
  qed
  show "j \<notin> set (xs @ ys) \<Longrightarrow> relinked bs i ! j = bs ! j"
  proof -
    assume j: "j \<notin> set (xs @ ys)"
    have "bk_prev (bs ! i) \<noteq> Some j" "bk_next (bs ! i) \<noteq> Some j" using j M(1,2) by auto
    then show ?thesis by (auto simp: relinked_def Let_def split: option.split)
  qed
qed


lemma in_use_same: "same_but_links b b' \<Longrightarrow> in_use b' = in_use b"
  by (simp add: same_but_links_def in_use_def)

lemma chainedD:
  assumes "chained cs Q"
  shows "max_hashes Q = 4096" "length (bucketHashes Q) = 4096" "int (length (buckets Q)) = max_buckets Q"
    and "\<And>h. h < 4096 \<Longrightarrow> \<exists>q. dpath (buckets Q) None (bucketHashes Q ! h) (cs h) q None"
    and "\<And>h. h < 4096 \<Longrightarrow> distinct (cs h)"
    and "\<And>i. i < length (buckets Q) \<Longrightarrow> in_use (buckets Q ! i) \<Longrightarrow>
       0 \<le> bk_hash (buckets Q ! i) \<and> bk_hash (buckets Q ! i) < 4096 \<and> i \<in> set (cs (nat (bk_hash (buckets Q ! i))))"
    and "\<And>i. i < length (buckets Q) \<Longrightarrow> \<not> in_use (buckets Q ! i) \<Longrightarrow>
       bk_type (buckets Q ! i) = NA_BAD \<and> bk_lastTime (buckets Q ! i) = 0"
    and "\<And>h i. h < 4096 \<Longrightarrow> i \<in> set (cs h) \<Longrightarrow> in_use (buckets Q ! i) \<and> bk_hash (buckets Q ! i) = int h"
  using assms unfolding chained_def by (auto simp: Let_def split: if_splits)

lemma chained_index:
  assumes "chained cs Q" "h < 4096" "i \<in> set (cs h)"
  shows "i < length (buckets Q)"
  using chainedD(4) [OF assms(1,2)] dpath_below assms(3) by blast

lemma reclaim_buckets:
  assumes "chained cs Q" "i < length (buckets Q)" "in_use (buckets Q ! i)"
  shows "length (buckets (reclaim i Q)) = length (buckets Q)" "buckets (reclaim i Q) ! i = zero_bucket"
    and "j \<noteq> i \<Longrightarrow> same_but_links (buckets Q ! j) (buckets (reclaim i Q) ! j)"
    and "chained (cs(nat (bk_hash (buckets Q ! i)) := removeAll i (cs (nat (bk_hash (buckets Q ! i)))))) (reclaim i Q)"
proof -
  note C = chainedD [OF assms(1)]
  let ?b = "buckets Q ! i"
  define h where "h = nat (bk_hash ?b)"
  have h: "h < 4096" "int h = bk_hash ?b" "i \<in> set (cs h)" using C(6) [OF assms(2,3)] by (auto simp: h_def)
  then obtain xs ys where s: "cs h = xs @ i # ys" by (meson split_list)
  obtain q where path: "dpath (buckets Q) None (bucketHashes Q ! h) (xs @ i # ys) q None"
    using C(4) [OF h(1)] s by auto
  have d: "distinct (xs @ i # ys)" using C(5) [OF h(1)] s by simp
  note R = relinked_other [OF path] and M = dpath_middle [OF path]
  have rest: "removeAll i (cs h) = xs @ ys" using d by (simp add: s)
  let ?bs = "(relinked (buckets Q) i)[i := zero_bucket]"
  let ?cs = "cs(h := removeAll i (cs h))"
  have bs: "buckets (reclaim i Q) = ?bs" by (simp add: reclaim_relinked)
  show len: "length (buckets (reclaim i Q)) = length (buckets Q)" using R(1) by (simp add: bs)
  show zero: "buckets (reclaim i Q) ! i = zero_bucket" using R(1) assms(2) by (simp add: bs)
  have same: "\<And>j. j \<noteq> i \<Longrightarrow> same_but_links (buckets Q ! j) (buckets (reclaim i Q) ! j)"
    using R(2) by (simp add: bs)
  then show "j \<noteq> i \<Longrightarrow> same_but_links (buckets Q ! j) (buckets (reclaim i Q) ! j)" .
  have heads: "bucketHashes (reclaim i Q) =
      (bucketHashes Q)[h := (if xs = [] then bk_next ?b else bucketHashes Q ! h)]"
    using M(1) h(2) by (auto simp: reclaim_relinked put_def h_def [symmetric])
  have other: "k < 4096 \<Longrightarrow> k \<noteq> h \<Longrightarrow> j \<in> set (cs k) \<Longrightarrow> j \<notin> set (cs h)" for k j
    using C(8) [OF h(1), of j] C(8) [of k j] by auto
  have paths: "\<exists>q. dpath ?bs None (bucketHashes (reclaim i Q) ! k) (?cs k) q None" if k: "k < 4096" for k
  proof (cases "k = h")
    case True
    then show ?thesis
      using relinked_path [OF path d] d k C(2) by (simp add: heads rest dpath_update)
  next
    case False
    have f: "j \<noteq> i \<and> relinked (buckets Q) i ! j = buckets Q ! j" if "j \<in> set (cs k)" for j
      using other [OF k False that] R(3) [of j] by (auto simp: s)
    obtain q where "dpath (buckets Q) None (bucketHashes Q ! k) (cs k) q None" using C(4) [OF k] by blast
    moreover have "dpath ?bs None (bucketHashes Q ! k) (cs k) q None = dpath (buckets Q) None (bucketHashes Q ! k) (cs k) q None"
    proof (rule dpath_frame, intro ballI)
      fix j assume "j \<in> set (cs k)"
      then have "?bs ! j = buckets Q ! j" using f [of j] by (metis nth_list_update_neq)
      then show "length ?bs = length (buckets Q) \<and> bk_prev (?bs ! j) = bk_prev (buckets Q ! j) \<and>
          bk_next (?bs ! j) = bk_next (buckets Q ! j)" using R(1) by simp
    qed
    ultimately show ?thesis using False by (auto simp: heads)
  qed
  have chain_mem: "k < 4096 \<Longrightarrow> j \<in> set (?cs k) \<Longrightarrow> j \<noteq> i \<and> j \<in> set (cs k)" for k j
    using C(8) [of k i] h by (auto split: if_splits)
  have "chained ?cs (reclaim i Q)"
    unfolding chained_def Let_def
  proof (intro conjI allI impI ballI)
    show "max_hashes (reclaim i Q) = 4096" "int (length (buckets (reclaim i Q))) = max_buckets (reclaim i Q)"
      using C(1,3) len by (simp_all add: reclaim_relinked)
    show "length (bucketHashes (reclaim i Q)) = 4096" using C(2) by (simp add: heads)
    show "\<And>k. k < 4096 \<Longrightarrow> \<exists>q. dpath (buckets (reclaim i Q)) None (bucketHashes (reclaim i Q) ! k) (?cs k) q None"
      using paths by (simp add: bs)
    show "\<And>k. k < 4096 \<Longrightarrow> distinct (?cs k)" using C(5) by (simp add: distinct_removeAll)
  next
    fix j assume j: "j < length (buckets (reclaim i Q))"
    show "if in_use (buckets (reclaim i Q) ! j)
        then 0 \<le> bk_hash (buckets (reclaim i Q) ! j) \<and> bk_hash (buckets (reclaim i Q) ! j) < 4096 \<and>
          j \<in> set (?cs (nat (bk_hash (buckets (reclaim i Q) ! j))))
        else bk_type (buckets (reclaim i Q) ! j) = NA_BAD \<and> bk_lastTime (buckets (reclaim i Q) ! j) = 0"
    proof (cases "j = i")
      case True
      then show ?thesis using zero by (simp add: zero_bucket_def in_use_def)
    next
      case False
      then show ?thesis
        using same [OF False] C(6) [of j] C(7) [of j] j len in_use_same [OF same [OF False]]
        by (auto simp: same_but_links_def)
    qed
  next
    fix k j assume "k < 4096" "j \<in> set (?cs k)"
    from this(1) chain_mem [OF this]
    show "in_use (buckets (reclaim i Q) ! j)" "bk_hash (buckets (reclaim i Q) ! j) = int k"
      using same [of j] C(8) [of k j] in_use_same [OF same [of j]] by (auto simp: same_but_links_def)
  qed
  then show "chained (cs(nat (bk_hash ?b) := removeAll i (cs (nat (bk_hash ?b))))) (reclaim i Q)"
    by (simp add: h_def)
qed

text \<open>Taking a free bucket.\<close>

definition fresh_bucket :: "netadr \<Rightarrow> int \<Rightarrow> int \<Rightarrow> bucket \<Rightarrow> bool" where
  "fresh_bucket address hash now b \<longleftrightarrow>
     bk_type b = adr_type address \<and> bucket_matches address b \<and> bk_lastTime b = now \<and> bk_burst b = 0 \<and>
     bk_hash b = hash"

lemma take_bucket_result:
  assumes C0: "chained cs Q" and i: "i < length (buckets Q)" "\<not> in_use (buckets Q ! i)"
    and a: "adr_type address = NA_IP \<or> adr_type address = NA_IP6" "length (adr_bytes address) = 16"
    and h: "0 \<le> hash" "hash < 4096"
  shows "\<exists>Q'. take_bucket i address hash now Q = (Some i, Q') \<and> length (buckets Q') = length (buckets Q) \<and>
    fresh_bucket address hash now (buckets Q' ! i) \<and>
    (\<forall>j. j \<noteq> i \<longrightarrow> same_but_links (buckets Q ! j) (buckets Q' ! j)) \<and>
    chained (cs(nat hash := i # cs (nat hash))) Q'"
proof -
  note C = chainedD [OF C0]
  define b1 where "b1 = snd (snd (0::nat, 0::nat, (buckets Q ! i)\<lparr>bk_type := adr_type address,
      bk_ipv := take (if adr_type address = NA_IP then 4 else 16) (adr_bytes address) @
        drop (if adr_type address = NA_IP then 4 else 16) (bk_ipv (buckets Q ! i)),
      bk_lastTime := now, bk_burst := 0, bk_hash := hash, bk_next := idx (bucketHashes Q) hash, bk_prev := None\<rparr>))"
  let ?head = "bucketHashes Q ! nat hash"
  let ?bs = "(buckets Q)[i := b1]"
  define bs1 where "bs1 = (case ?head of None \<Rightarrow> ?bs | Some k \<Rightarrow> ?bs[k := (?bs ! k)\<lparr>bk_prev := Some i\<rparr>])"
  define Q' where "Q' = Q\<lparr>buckets := bs1, bucketHashes := (bucketHashes Q)[nat hash := Some i]\<rparr>"
  have take: "take_bucket i address hash now Q = (Some i, Q')"
    using a(1) h by (auto simp: take_bucket_def Q'_def bs1_def b1_def Let_def idx_def put_def split: option.splits)
  have hn: "nat hash < 4096" using h by simp
  obtain q where path: "dpath (buckets Q) None ?head (cs (nat hash)) q None" using C(4) [OF hn] by blast
  have fresh_out: "k < 4096 \<Longrightarrow> i \<notin> set (cs k)" for k using C(8) [of k i] i(2) by blast
  have head_in: "?head = Some k \<Longrightarrow> k \<in> set (cs (nat hash)) \<and> k \<noteq> i" for k
    using path fresh_out [OF hn] by (cases "cs (nat hash)") auto
  have len: "length bs1 = length (buckets Q)" by (simp add: bs1_def split: option.splits)
  have at_i: "bs1 ! i = b1" using i(1) head_in by (auto simp: bs1_def split: option.splits)
  have same: "same_but_links (buckets Q ! j) (bs1 ! j)" if "j \<noteq> i" for j
  proof -
    have "same_but_links (buckets Q ! j) (?bs ! j)" using that by simp
    also have "same_but_links (?bs ! j) (bs1 ! j)" by (simp only: bs1_def) (simp add: same_set_link del: nth_list_update_neq split: option.split)
    finally show ?thesis .
  qed
  have fresh: "fresh_bucket address hash now b1"
    using a by (auto simp: fresh_bucket_def b1_def bucket_matches_def)
  have use1: "in_use b1" using a(1) by (auto simp: b1_def in_use_def)
  have link1: "bk_prev b1 = None" "bk_next b1 = ?head" using h by (simp_all add: b1_def idx_def)
  have path1: "\<exists>q. dpath bs1 None (Some i) (i # cs (nat hash)) q None"
  proof (cases "cs (nat hash)")
    case Nil
    then show ?thesis using path at_i len i(1) link1 by simp
  next
    case (Cons k ks)
    then have k: "?head = Some k" using path by simp
    have "dpath ?bs None ?head (k # ks) q None" using path Cons fresh_out [OF hn] by (subst dpath_update) auto
    then have "dpath bs1 (Some i) ?head (k # ks) q None"
      using dpath_set_prev [of ?bs None ?head k ks q None "Some i"] C(5) [OF hn] Cons k by (simp add: bs1_def)
    then show ?thesis using Cons at_i len i(1) link1 by auto
  qed
  have other: "k < 4096 \<Longrightarrow> k \<noteq> nat hash \<Longrightarrow> j \<in> set (cs k) \<Longrightarrow> j \<notin> set (cs (nat hash))" for k j
    using C(8) [OF hn, of j] C(8) [of k j] by (metis of_nat_eq_iff)
  have path2: "\<exists>q. dpath bs1 None (bucketHashes Q ! k) (cs k) q None" if k: "k < 4096" "k \<noteq> nat hash" for k
  proof -
    obtain q where "dpath (buckets Q) None (bucketHashes Q ! k) (cs k) q None" using C(4) [OF k(1)] by blast
    moreover have "bs1 ! j = buckets Q ! j" if "j \<in> set (cs k)" for j
    proof -
      have "j \<noteq> i" "?head \<noteq> Some j" using other [OF k that] fresh_out [OF k(1)] that head_in by auto
      then show ?thesis by (auto simp: bs1_def split: option.split)
    qed
    ultimately have "dpath bs1 None (bucketHashes Q ! k) (cs k) q None"
      using len by (subst dpath_frame [where bs = "buckets Q"]) auto
    then show ?thesis by blast
  qed
  let ?cs = "cs(nat hash := i # cs (nat hash))"
  have "chained ?cs Q'"
    unfolding chained_def Let_def
  proof (intro conjI allI impI ballI)
    show "max_hashes Q' = 4096" "length (bucketHashes Q') = 4096" "int (length (buckets Q')) = max_buckets Q'"
      using C(1,2,3) len by (simp_all add: Q'_def)
    show "\<And>k. k < 4096 \<Longrightarrow> \<exists>q. dpath (buckets Q') None (bucketHashes Q' ! k) (?cs k) q None"
      using path1 path2 C(2) by (auto simp: Q'_def)
    show "\<And>k. k < 4096 \<Longrightarrow> distinct (?cs k)" using C(5) fresh_out by auto
  next
    fix j assume j: "j < length (buckets Q')"
    show "if in_use (buckets Q' ! j)
        then 0 \<le> bk_hash (buckets Q' ! j) \<and> bk_hash (buckets Q' ! j) < 4096 \<and>
          j \<in> set (?cs (nat (bk_hash (buckets Q' ! j))))
        else bk_type (buckets Q' ! j) = NA_BAD \<and> bk_lastTime (buckets Q' ! j) = 0"
    proof (cases "j = i")
      case True
      then show ?thesis using use1 fresh h at_i by (simp add: Q'_def fresh_bucket_def)
    next
      case False
      then show ?thesis
        using same [OF False] C(6) [of j] C(7) [of j] j len in_use_same [OF same [OF False]]
        by (auto simp: same_but_links_def Q'_def)
    qed
  next
    fix k j assume kj: "k < 4096" "j \<in> set (?cs k)"
    have "in_use (bs1 ! j) \<and> bk_hash (bs1 ! j) = int k"
    proof (cases "j = i")
      case True
      then have "k = nat hash" using kj fresh_out by (auto split: if_splits)
      then show ?thesis using True at_i use1 fresh h by (simp add: fresh_bucket_def)
    next
      case False
      then have "j \<in> set (cs k)" using kj(2) by (auto split: if_splits)
      then show ?thesis using same [OF False] C(8) [OF kj(1)] in_use_same [OF same [OF False]] by (simp add: same_but_links_def)
    qed
    then show "in_use (buckets Q' ! j)" "bk_hash (buckets Q' ! j) = int k" by (simp_all add: Q'_def)
  qed
  then show ?thesis using take len at_i fresh same by (auto simp: Q'_def)
qed

end
