(* ===== verification/QueryBound.thy ===== *)
theory QueryBound
  imports QueryChains
begin

text \<open>
  What the query limiter promises: over any stretch of time an address gets no more answers
  than its burst and the periods of that time allow, whatever other addresses send and
  whenever buckets are reclaimed.  The proof is by a potential: the debt of an address grows
  by one period with every answer and shrinks as time passes.
\<close>

section \<open>One bucket\<close>

definition debt :: "int \<Rightarrow> int \<Rightarrow> int \<Rightarrow> int \<Rightarrow> bucket \<Rightarrow> int" where
  "debt lo hi period t b = lo * (bk_burst b * period) - hi * (t - bk_lastTime b)"

definition bucket_ok :: "int \<Rightarrow> int \<Rightarrow> int \<Rightarrow> bucket \<Rightarrow> bool" where
  "bucket_ok hi period t b \<longleftrightarrow>
     0 \<le> bk_burst b \<and> bk_burst b \<le> hi \<and> 0 \<le> bk_lastTime b \<and> bk_lastTime b \<le> t \<and> t - bk_lastTime b < period"

lemma s8_id: "- 128 \<le> x \<Longrightarrow> x < 128 \<Longrightarrow> s8 x = x"
  unfolding s8_def by (rule signed_take_bit_id) simp_all

lemma sdiv_smod_pos: "0 \<le> d \<Longrightarrow> 0 < p \<Longrightarrow> d sdiv p = d div p \<and> d smod p = d mod (p::int)"
  by (auto simp: signed_divide_int_def signed_modulo_int_def sgn_if)

lemma leaked_eq:
  assumes "0 < period" "0 \<le> now - bk_lastTime b" "now - bk_lastTime b < 2 ^ 31" "0 \<le> bk_lastTime b" "now < 2 ^ 63"
    "0 \<le> bk_burst b" "bk_burst b \<le> 127"
  shows "leaked now period b =
    (let q = (now - bk_lastTime b) div period; r = (now - bk_lastTime b) mod period in
     if bk_burst b < q then b\<lparr>bk_burst := 0, bk_lastTime := now\<rparr>
     else b\<lparr>bk_burst := bk_burst b - q, bk_lastTime := now - r\<rparr>)"
proof -
  have s: "s32 (now - bk_lastTime b) = now - bk_lastTime b" using assms(2,3) by simp
  note D = sdiv_smod_pos [OF assms(2,1)]
  have q: "0 \<le> (now - bk_lastTime b) div period" using assms(1,2) by (simp add: pos_imp_zdiv_nonneg_iff)
  have "(now - bk_lastTime b) mod period \<le> now - bk_lastTime b" using assms(1,2) by (simp add: zmod_le_nonneg_dividend)
  then have "0 \<le> now - (now - bk_lastTime b) mod period" using assms(4) by linarith
  moreover have "now - (now - bk_lastTime b) mod period < 2 ^ 64"
  proof -
    have "0 \<le> (now - bk_lastTime b) mod period" using assms(1) by simp
    moreover have "now < 2 ^ 64" using assms(5) by simp
    ultimately show ?thesis by linarith
  qed
  ultimately have m: "(now - (now - bk_lastTime b) mod period) mod 2 ^ 64 = now - (now - bk_lastTime b) mod period"
    by simp
  have "\<not> bk_burst b < (now - bk_lastTime b) div period \<Longrightarrow>
      s8 (bk_burst b - (now - bk_lastTime b) div period) = bk_burst b - (now - bk_lastTime b) div period"
    using q assms(6,7) by (intro s8_id) linarith+
  then show ?thesis unfolding leaked_def Let_def s using D m by simp
qed

lemma leaked_debt:
  assumes "0 < period" "0 \<le> now - bk_lastTime b" "now - bk_lastTime b < 2 ^ 31" "0 \<le> bk_lastTime b" "now < 2 ^ 63"
    "0 \<le> bk_burst b" "bk_burst b \<le> hi" "hi \<le> 127" "0 < lo" "lo \<le> hi"
  shows "bucket_ok hi period now (leaked now period b)"
    and "debt lo hi period now b \<le> debt lo hi period now (leaked now period b)"
proof -
  define d q r where "d = now - bk_lastTime b" and "q = d div period" and "r = d mod period"
  have dq: "d = q * period + r" "0 \<le> r" "r < period" using assms(1) by (simp_all add: q_def r_def)
  have q0: "0 \<le> q" using assms(1,2) by (simp add: q_def d_def pos_imp_zdiv_nonneg_iff)
  have r: "r \<le> d" using assms(1,2) by (simp add: r_def d_def zmod_le_nonneg_dividend)
  have L: "leaked now period b = (if bk_burst b < q then b\<lparr>bk_burst := 0, bk_lastTime := now\<rparr>
      else b\<lparr>bk_burst := bk_burst b - q, bk_lastTime := now - r\<rparr>)"
    using leaked_eq [OF assms(1-6)] assms(7,8) by (simp add: Let_def q_def r_def d_def)
  show "bucket_ok hi period now (leaked now period b)"
  proof -
    have "r \<le> now" using r assms(4) by (simp add: d_def)
    then show ?thesis using assms dq q0 by (auto simp: L bucket_ok_def d_def)
  qed
  show "debt lo hi period now b \<le> debt lo hi period now (leaked now period b)"
  proof (cases "bk_burst b < q")
    case True
    have "lo * (bk_burst b * period) \<le> lo * (q * period)"
      using True assms(1,9) by (intro mult_left_mono mult_right_mono) simp_all
    also have "\<dots> \<le> hi * (q * period)" using assms(1,10) q0 by (intro mult_right_mono) simp_all
    also have "\<dots> \<le> hi * d" using dq assms(9,10) by (intro mult_left_mono) simp_all
    finally show ?thesis using True by (simp add: L debt_def d_def)
  next
    case False
    have "lo * (q * period) \<le> hi * (q * period)" using assms(1,10) q0 by (intro mult_right_mono) simp_all
    moreover have "debt lo hi period now b = lo * (bk_burst b * period) - hi * (q * period + r)"
      using dq(1) by (simp add: debt_def d_def)
    moreover have "debt lo hi period now (leaked now period b) =
        lo * (bk_burst b * period) - lo * (q * period) - hi * r"
      using False by (simp add: L debt_def algebra_simps)
    ultimately show ?thesis by (simp add: distrib_left)
  qed
qed

lemma RateLimit_debt:
  assumes "0 < period" "0 \<le> now - bk_lastTime b" "now - bk_lastTime b < 2 ^ 31" "0 \<le> bk_lastTime b" "now < 2 ^ 63"
    "0 \<le> bk_burst b" "bk_burst b \<le> hi" "hi \<le> 127" "0 < lo" "lo \<le> L" "L \<le> hi"
    and r: "SVC_RateLimit now b L period = (dropped, b')"
  shows "bucket_ok hi period now b'"
    and "debt lo hi period now b + (if dropped then 0 else lo * period) \<le> debt lo hi period now b'"
    and "\<not> dropped \<Longrightarrow> 1 \<le> bk_burst b'"
    and "bk_type b' = bk_type b \<and> bk_ipv b' = bk_ipv b \<and> bk_hash b' = bk_hash b \<and> bk_prev b' = bk_prev b \<and>
      bk_next b' = bk_next b"
proof -
  let ?c = "leaked now period b"
  have lohi: "lo \<le> hi" using assms(10,11) by simp
  note D = leaked_debt [OF assms(1-9) lohi]
  have kept: "bk_type ?c = bk_type b \<and> bk_ipv ?c = bk_ipv b \<and> bk_hash ?c = bk_hash b \<and>
      bk_prev ?c = bk_prev b \<and> bk_next ?c = bk_next b"
    by (simp add: leaked_def Let_def)
  have b': "dropped = (\<not> bk_burst ?c < L)" "b' = (if bk_burst ?c < L then ?c\<lparr>bk_burst := s8 (bk_burst ?c + 1)\<rparr> else ?c)"
    using r by (auto simp: SVC_RateLimit_def Let_def split: if_splits)
  have s: "bk_burst ?c < L \<Longrightarrow> s8 (bk_burst ?c + 1) = bk_burst ?c + 1"
    using D(1) assms(8,11) by (intro s8_id) (auto simp: bucket_ok_def)
  show "bucket_ok hi period now b'" using D(1) s assms(11) by (auto simp: b' bucket_ok_def)
  show "\<not> dropped \<Longrightarrow> 1 \<le> bk_burst b'" using D(1) s by (auto simp: b' bucket_ok_def)
  show "debt lo hi period now b + (if dropped then 0 else lo * period) \<le> debt lo hi period now b'"
    using D(2) s by (auto simp: b' debt_def algebra_simps)
  show "bk_type b' = bk_type b \<and> bk_ipv b' = bk_ipv b \<and> bk_hash b' = bk_hash b \<and> bk_prev b' = bk_prev b \<and>
      bk_next b' = bk_next b"
    using kept by (simp add: b')
qed

text \<open>A bucket that is reclaimed owes nothing any more.\<close>

lemma expired_debt:
  assumes "bucket_expired now L period b" "0 \<le> now - bk_lastTime b" "0 \<le> bk_burst b" "bk_burst b \<le> hi"
    "0 < lo" "lo \<le> L" "L \<le> hi" "0 < period" "hi * period < 2 ^ 31"
  shows "debt lo hi period now b \<le> 0"
proof -
  define d where "d = now - bk_lastTime b"
  have Lp: "L * period \<le> hi * period" "lo * period \<le> L * period"
    using assms(6-8) by simp_all
  have "0 < L * period" using assms(5,6,8) by simp
  then have sL: "s32 (L * period) = L * period" using Lp(1) assms(9) by (intro s32_id) linarith+
  have "lo * period \<le> d"
  proof (cases "s32 d < 0")
    case True
    have "2 ^ 31 \<le> d"
    proof (rule ccontr)
      assume "\<not> 2 ^ 31 \<le> d"
      then have "s32 d = d" using assms(2) by (simp add: d_def)
      then show False using True assms(2) by (simp add: d_def)
    qed
    then show ?thesis using Lp assms(9) by linarith
  next
    case False
    have "s32 d \<le> d"
    proof (cases "d < 2 ^ 31")
      case True
      then show ?thesis using assms(2) by (simp add: d_def)
    next
      case False
      then show ?thesis using s32_range [of d] by linarith
    qed
    then show ?thesis using False assms(1) Lp sL by (auto simp: bucket_expired_def d_def Let_def)
  qed
  then have "hi * (lo * period) \<le> hi * d" using assms(5-7) by (intro mult_left_mono) simp_all
  moreover have "lo * (bk_burst b * period) \<le> lo * (hi * period)"
    using assms(4,5,8) by (intro mult_left_mono mult_right_mono) simp_all
  ultimately show ?thesis by (simp add: debt_def d_def [symmetric] mult.left_commute)
qed

section \<open>One bucket for each client\<close>

text \<open>
  Clients are told apart by the kind of address and its bytes.  The look-up compares four bytes
  with a bucket of an IPv4 address even when the sender is an IPv6 address, so the population
  \<open>A\<close> of addresses is one where no such pair agrees in the first four bytes.
\<close>

definition same_client :: "netadr \<Rightarrow> netadr \<Rightarrow> bool" where
  "same_client a b \<longleftrightarrow> adr_type a = adr_type b \<and> hashed_bytes a = hashed_bytes b"

definition population :: "netadr set \<Rightarrow> bool" where
  "population A \<longleftrightarrow>
     (\<forall>a \<in> A. (adr_type a = NA_IP \<or> adr_type a = NA_IP6) \<and> length (adr_bytes a) = 16) \<and>
     (\<forall>a \<in> A. \<forall>b \<in> A. adr_type a \<noteq> adr_type b \<longrightarrow> take 4 (adr_bytes a) \<noteq> take 4 (adr_bytes b))"

definition owned :: "int \<Rightarrow> netadr \<Rightarrow> bucket \<Rightarrow> bool" where
  "owned randint a b \<longleftrightarrow>
     bk_type b = adr_type a \<and> bucket_matches a b \<and> bk_hash b = SVC_HashForAddress randint 4096 a"

definition table_inv :: "int \<Rightarrow> netadr set \<Rightarrow> querylimit \<Rightarrow> bool" where
  "table_inv randint A Q \<longleftrightarrow>
     (\<exists>cs. chained cs Q) \<and>
     (\<forall>i < length (buckets Q). in_use (buckets Q ! i) \<longrightarrow> (\<exists>a \<in> A. owned randint a (buckets Q ! i))) \<and>
     (\<forall>a \<in> A. \<forall>i < length (buckets Q). \<forall>j < length (buckets Q).
        bucket_matches a (buckets Q ! i) \<and> bucket_matches a (buckets Q ! j) \<longrightarrow> i = j)"

definition slot :: "querylimit \<Rightarrow> netadr \<Rightarrow> nat option" where
  "slot Q a = List.find (\<lambda>i. bucket_matches a (buckets Q ! i)) [0..<length (buckets Q)]"

lemma matches_in_use: "bucket_matches a b \<Longrightarrow> in_use b"
  by (auto simp: bucket_matches_def in_use_def split: netadrtype.splits)

lemma matches_same: "same_but_links b b' \<Longrightarrow> bucket_matches a b' = bucket_matches a b"
  by (simp add: bucket_matches_def same_but_links_def split: netadrtype.split)

lemma owned_same: "same_but_links b b' \<Longrightarrow> owned r a b' = owned r a b"
  using matches_same [of b b' a] by (auto simp: owned_def same_but_links_def)

lemma hash_same: "same_client a b \<Longrightarrow> SVC_HashForAddress r n a = SVC_HashForAddress r n b"
  by (simp add: SVC_HashForAddress_def same_client_def)

lemma bucket_hash_range: "0 \<le> SVC_HashForAddress r 4096 a \<and> SVC_HashForAddress r 4096 a < 4096"
proof -
  have "x AND 4095 = take_bit 12 x" for x :: int
    by (simp add: take_bit_eq_mask mask_eq_exp_minus_1)
  then show ?thesis by (simp add: SVC_HashForAddress_def Let_def take_bit_eq_mod)
qed

lemma owned_matches:
  assumes "population A" "a \<in> A" "a' \<in> A" "owned r a' b"
  shows "bucket_matches a b \<longleftrightarrow> same_client a a'"
proof -
  have l: "length (adr_bytes a) = 16" "length (adr_bytes a') = 16" using assms(1-3) by (auto simp: population_def)
  have t: "adr_type a = NA_IP \<or> adr_type a = NA_IP6" "adr_type a' = NA_IP \<or> adr_type a' = NA_IP6"
    using assms(1-3) by (auto simp: population_def)
  have clash: "adr_type a \<noteq> adr_type a' \<Longrightarrow> take 4 (adr_bytes a) \<noteq> take 4 (adr_bytes a')"
    using assms(1-3) by (auto simp: population_def)
  have four: "take 16 xs = take 16 ys \<Longrightarrow> take 4 xs = take 4 ys" for xs ys :: bytes
    by (metis take_take min.absorb1 numeral_le_iff semiring_norm(69,73,76,78,71,70,68,72))
  have b: "bk_type b = adr_type a'" "bucket_matches a' b" using assms(4) by (simp_all add: owned_def)
  show ?thesis
    using t b clash four [of "adr_bytes a" "adr_bytes a'"]
    by (auto simp: bucket_matches_def same_client_def hashed_bytes_def)
qed

lemma slot_iff:
  assumes "table_inv r A Q" "a \<in> A"
  shows "slot Q a = Some i \<longleftrightarrow> i < length (buckets Q) \<and> bucket_matches a (buckets Q ! i)"
proof
  assume "slot Q a = Some i"
  then show "i < length (buckets Q) \<and> bucket_matches a (buckets Q ! i)"
    by (auto simp: slot_def find_Some_iff)
next
  assume i: "i < length (buckets Q) \<and> bucket_matches a (buckets Q ! i)"
  then have "slot Q a \<noteq> None" by (auto simp: slot_def find_None_iff)
  then obtain j where j: "slot Q a = Some j" by blast
  then have "j < length (buckets Q) \<and> bucket_matches a (buckets Q ! j)"
    by (auto simp: slot_def find_Some_iff)
  then have "j = i" using i assms unfolding table_inv_def by blast
  then show "slot Q a = Some i" using j by simp
qed

lemma find_is_slot:
  assumes "population A" "table_inv r A Q" "a \<in> A"
  shows "find_bucket (buckets Q) a (idx (bucketHashes Q) (SVC_HashForAddress r (max_hashes Q) a)) = Some (slot Q a)"
proof -
  obtain cs where cs: "chained cs Q" using assms(2) by (auto simp: table_inv_def)
  note C = chainedD [OF cs]
  let ?h = "SVC_HashForAddress r 4096 a"
  have h: "nat ?h < 4096" using bucket_hash_range [of r a] by linarith
  obtain q where "dpath (buckets Q) None (bucketHashes Q ! nat ?h) (cs (nat ?h)) q None" using C(4) [OF h] by blast
  then have F: "find_bucket (buckets Q) a (bucketHashes Q ! nat ?h) =
      Some (List.find (\<lambda>i. bucket_matches a (buckets Q ! i)) (cs (nat ?h)))"
    by (rule find_bucket_path)
  have "List.find (\<lambda>i. bucket_matches a (buckets Q ! i)) (cs (nat ?h)) = slot Q a"
  proof (cases "List.find (\<lambda>i. bucket_matches a (buckets Q ! i)) (cs (nat ?h))")
    case None
    have "slot Q a = None"
    proof (rule ccontr)
      assume "slot Q a \<noteq> None"
      then obtain i where i: "i < length (buckets Q)" "bucket_matches a (buckets Q ! i)"
        using slot_iff [OF assms(2,3)] by blast
      then have u: "in_use (buckets Q ! i)" using matches_in_use by blast
      then obtain a' where a': "a' \<in> A" "owned r a' (buckets Q ! i)" using assms(2) i(1) by (auto simp: table_inv_def)
      then have "same_client a a'" using owned_matches [OF assms(1,3)] i(2) by blast
      then have "bk_hash (buckets Q ! i) = ?h" using a'(2) hash_same by (simp add: owned_def)
      then have "i \<in> set (cs (nat ?h))" using C(6) [OF i(1) u] by simp
      then show False using None i(2) by (auto simp: find_None_iff)
    qed
    then show ?thesis using None by simp
  next
    case (Some i)
    then have "i \<in> set (cs (nat ?h))" "bucket_matches a (buckets Q ! i)" by (auto simp: find_Some_iff)
    then have "slot Q a = Some i" using chained_index [OF cs h] slot_iff [OF assms(2,3)] by blast
    then show ?thesis using Some by simp
  qed
  then show ?thesis using F C(1) by (simp add: idx_def)
qed

section \<open>The search for a free bucket\<close>

text \<open>
  What happens to the buckets: nothing but to their links, or they expired and were cleared.
  Those of \<open>K\<close> were free or expired.
\<close>

definition swept :: "int \<Rightarrow> int \<Rightarrow> int \<Rightarrow> nat set \<Rightarrow> querylimit \<Rightarrow> querylimit \<Rightarrow> bool" where
  "swept now L period K Q Q' \<longleftrightarrow>
     length (buckets Q') = length (buckets Q) \<and>
     (\<forall>j < length (buckets Q).
        if j \<in> K then \<not> in_use (buckets Q ! j) \<or> bucket_expired now L period (buckets Q ! j)
        else same_but_links (buckets Q ! j) (buckets Q' ! j) \<or>
          bucket_expired now L period (buckets Q ! j) \<and> \<not> in_use (buckets Q' ! j))"

lemma reclaim_table:
  assumes "table_inv r A Q" "i < length (buckets Q)" "in_use (buckets Q ! i)"
  shows "table_inv r A (reclaim i Q)"
proof -
  obtain cs where cs: "chained cs Q" using assms(1) by (auto simp: table_inv_def)
  note R = reclaim_buckets [OF cs assms(2,3)]
  have m: "bucket_matches a (buckets (reclaim i Q) ! j) \<longrightarrow> j \<noteq> i \<and> bucket_matches a (buckets Q ! j)" for a j
    using R(2) R(3) [of j] matches_same [OF R(3), of j a] by (cases "j = i") (auto simp: zero_bucket_def bucket_matches_def)
  show ?thesis
    unfolding table_inv_def
  proof (intro conjI allI impI ballI)
    show "\<exists>cs. chained cs (reclaim i Q)" using R(4) by blast
  next
    fix j assume j: "j < length (buckets (reclaim i Q))" "in_use (buckets (reclaim i Q) ! j)"
    then have ne: "j \<noteq> i" using R(2) by (auto simp: zero_bucket_def in_use_def)
    then have "in_use (buckets Q ! j)" using j(2) in_use_same [OF R(3)] by simp
    then show "\<exists>a \<in> A. owned r a (buckets (reclaim i Q) ! j)"
      using assms(1) j(1) R(1) owned_same [OF R(3) [OF ne]] by (auto simp: table_inv_def)
  next
    fix a j k assume "a \<in> A" "j < length (buckets (reclaim i Q))" "k < length (buckets (reclaim i Q))"
      "bucket_matches a (buckets (reclaim i Q) ! j) \<and> bucket_matches a (buckets (reclaim i Q) ! k)"
    then show "j = k" using m R(1) assms(1) unfolding table_inv_def by metis
  qed
qed

lemma expired_in_use: "chained cs Q \<Longrightarrow> i < length (buckets Q) \<Longrightarrow> bucket_expired now L period (buckets Q ! i) \<Longrightarrow> in_use (buckets Q ! i)"
  using chainedD(7) [of cs Q i] by (cases "in_use (buckets Q ! i)") (simp_all add: bucket_expired_def)

lemma sweep_step:
  fixes now L period :: int
  assumes "table_inv r A Q" "i < length (buckets Q)"
  defines "Q1 \<equiv> (if bucket_expired now L period (buckets Q ! i) then reclaim i Q else Q)"
  shows "table_inv r A Q1 \<and> swept now L period {} Q Q1"
proof -
  obtain cs where cs: "chained cs Q" using assms(1) by (auto simp: table_inv_def)
  show ?thesis
  proof (cases "bucket_expired now L period (buckets Q ! i)")
    case True
    note u = expired_in_use [OF cs assms(2) True]
    note R = reclaim_buckets [OF cs assms(2) u]
    have "swept now L period {} Q (reclaim i Q)"
      unfolding swept_def
    proof (intro conjI allI impI)
      fix j assume "j < length (buckets Q)"
      show "if j \<in> {} then \<not> in_use (buckets Q ! j) \<or> bucket_expired now L period (buckets Q ! j)
          else same_but_links (buckets Q ! j) (buckets (reclaim i Q) ! j) \<or>
            bucket_expired now L period (buckets Q ! j) \<and> \<not> in_use (buckets (reclaim i Q) ! j)"
        using True R(2) R(3) [of j] by (cases "j = i") (auto simp: zero_bucket_def in_use_def)
    qed (rule R(1))
    then show ?thesis using True reclaim_table [OF assms(1,2) u] by (simp add: Q1_def)
  next
    case False
    then show ?thesis using assms(1) by (simp add: Q1_def swept_def)
  qed
qed

lemma swept_trans:
  assumes "swept now L period {} Q Q1" "swept now L period K Q1 Q2"
  shows "swept now L period K Q Q2"
proof -
  have e: "same_but_links b b' \<Longrightarrow> bucket_expired now L period b' = bucket_expired now L period b" for b b'
    by (simp add: same_but_links_def bucket_expired_def)
  have n: "\<not> in_use b \<Longrightarrow> same_but_links b b' \<Longrightarrow> \<not> in_use b'" for b b' using in_use_same by blast
  show ?thesis
    unfolding swept_def
  proof (intro conjI allI impI)
    show "length (buckets Q2) = length (buckets Q)" using assms by (simp add: swept_def)
    fix j assume j: "j < length (buckets Q)"
    have 1: "same_but_links (buckets Q ! j) (buckets Q1 ! j) \<or>
        bucket_expired now L period (buckets Q ! j) \<and> \<not> in_use (buckets Q1 ! j)"
      using assms(1) j by (simp add: swept_def)
    have 2: "if j \<in> K then \<not> in_use (buckets Q1 ! j) \<or> bucket_expired now L period (buckets Q1 ! j)
        else same_but_links (buckets Q1 ! j) (buckets Q2 ! j) \<or>
          bucket_expired now L period (buckets Q1 ! j) \<and> \<not> in_use (buckets Q2 ! j)"
      using assms j unfolding swept_def by metis
    show "if j \<in> K then \<not> in_use (buckets Q ! j) \<or> bucket_expired now L period (buckets Q ! j)
        else same_but_links (buckets Q ! j) (buckets Q2 ! j) \<or>
          bucket_expired now L period (buckets Q ! j) \<and> \<not> in_use (buckets Q2 ! j)"
    proof (cases "j \<in> K")
      case True
      then show ?thesis using 1 2 e in_use_same by auto
    next
      case False
      then show ?thesis using 1 2 e n same_but_links_trans by auto
    qed
  qed
qed

text \<open>The bucket \<open>k\<close> that the search returns was free or has been reclaimed.\<close>

lemma take_table:
  assumes P: "population A" and inv: "table_inv r A Q" and a: "a \<in> A" and i: "i < length (buckets Q)"
    and free: "\<not> in_use (buckets Q ! i)" and none: "slot Q a = None"
  shows "\<exists>Q'. take_bucket i a (SVC_HashForAddress r 4096 a) now Q = (Some i, Q') \<and> table_inv r A Q' \<and>
    swept now L period {i} Q Q' \<and> fresh_bucket a (SVC_HashForAddress r 4096 a) now (buckets Q' ! i)"
proof -
  let ?h = "SVC_HashForAddress r 4096 a"
  obtain cs where cs: "chained cs Q" using inv by (auto simp: table_inv_def)
  have ta: "adr_type a = NA_IP \<or> adr_type a = NA_IP6" "length (adr_bytes a) = 16"
    using P a by (auto simp: population_def)
  have h: "0 \<le> ?h" "?h < 4096" using bucket_hash_range [of r a] by auto
  obtain Q' where Q': "take_bucket i a ?h now Q = (Some i, Q')" "length (buckets Q') = length (buckets Q)"
      "fresh_bucket a ?h now (buckets Q' ! i)"
      "\<forall>j. j \<noteq> i \<longrightarrow> same_but_links (buckets Q ! j) (buckets Q' ! j)"
      "chained (cs(nat ?h := i # cs (nat ?h))) Q'"
    using take_bucket_result [OF cs i free ta h] by blast
  have own: "owned r a (buckets Q' ! i)" using Q'(3) by (simp add: fresh_bucket_def owned_def)
  have others: "\<exists>a \<in> A. owned r a (buckets Q' ! j)" if "j < length (buckets Q')" "in_use (buckets Q' ! j)" for j
  proof (cases "j = i")
    case True
    then show ?thesis using own a by blast
  next
    case False
    then have s: "same_but_links (buckets Q ! j) (buckets Q' ! j)" using Q'(4) by blast
    then show ?thesis using that inv Q'(2) in_use_same [OF s] owned_same [OF s] by (simp add: table_inv_def)
  qed
  have not_i: "\<not> bucket_matches b (buckets Q ! j)" if "b \<in> A" "bucket_matches b (buckets Q' ! i)" "j < length (buckets Q)" for b j
  proof
    note T = that
    assume m: "bucket_matches b (buckets Q ! j)"
    then have "in_use (buckets Q ! j)" by (rule matches_in_use)
    then obtain c where c: "c \<in> A" "owned r c (buckets Q ! j)" using inv T(3) by (auto simp: table_inv_def)
    have "same_client b c" using owned_matches [OF P T(1) c] m by simp
    moreover have "same_client b a" using owned_matches [OF P T(1) a own] T(2) by simp
    ultimately have "same_client a c" by (simp add: same_client_def)
    then have "bucket_matches a (buckets Q ! j)" using owned_matches [OF P a c] by simp
    then show False using none slot_iff [OF inv a, of j] T(3) by simp
  qed
  have uniq: "j = k" if "b \<in> A" "j < length (buckets Q')" "k < length (buckets Q')"
      "bucket_matches b (buckets Q' ! j)" "bucket_matches b (buckets Q' ! k)" for b j k
  proof -
    have o: "l \<noteq> i \<Longrightarrow> bucket_matches b (buckets Q' ! l) = bucket_matches b (buckets Q ! l)" for l
      using Q'(4) matches_same by blast
    show ?thesis
      using that o not_i [of b j] not_i [of b k] Q'(2) inv unfolding table_inv_def
      by (cases "j = i"; cases "k = i") auto
  qed
  have "table_inv r A Q'" unfolding table_inv_def using Q'(5) others uniq by blast
  moreover have "swept now L period {i} Q Q'" using Q'(2,4) free by (simp add: swept_def)
  ultimately show ?thesis using Q'(1,3) by blast
qed

lemma slot_swept_none:
  assumes "table_inv r A Q" "table_inv r A Q'" "a \<in> A" "swept now L period {} Q Q'" "slot Q a = None"
  shows "slot Q' a = None"
proof (rule ccontr)
  assume "slot Q' a \<noteq> None"
  then obtain i where i: "i < length (buckets Q')" "bucket_matches a (buckets Q' ! i)"
    using slot_iff [OF assms(2,3)] by blast
  then have "same_but_links (buckets Q ! i) (buckets Q' ! i)"
    using assms(4) matches_in_use by (auto simp: swept_def)
  then have "bucket_matches a (buckets Q ! i)" using i(2) matches_same by blast
  then show False using assms(4,5) slot_iff [OF assms(1,3), of i] i(1) by (simp add: swept_def)
qed

lemma alloc_loop_result:
  assumes "population A" "table_inv r A Q" "a \<in> A" "slot Q a = None" "i + n = length (buckets Q)"
  shows "\<exists>p Q'. alloc_loop n i a (SVC_HashForAddress r 4096 a) now L period Q = (p, Q') \<and> table_inv r A Q' \<and>
    (case p of None \<Rightarrow> swept now L period {} Q Q' \<and> slot Q' a = None
     | Some k \<Rightarrow> k < length (buckets Q) \<and> swept now L period {k} Q Q' \<and>
         fresh_bucket a (SVC_HashForAddress r 4096 a) now (buckets Q' ! k))"
  using assms
proof (induction n arbitrary: i Q)
  case 0
  then show ?case by (auto simp: swept_def)
next
  case (Suc n)
  have i: "i < length (buckets Q)" using Suc.prems(5) by simp
  define Q1 where "Q1 = (if bucket_expired now L period (buckets Q ! i) then reclaim i Q else Q)"
  have S: "table_inv r A Q1" "swept now L period {} Q Q1" using sweep_step [OF Suc.prems(2) i] by (simp_all add: Q1_def)
  have none: "slot Q1 a = None" using slot_swept_none [OF Suc.prems(2) S(1) Suc.prems(3) S(2) Suc.prems(4)] .
  have len: "length (buckets Q1) = length (buckets Q)" using S(2) by (simp add: swept_def)
  show ?case
  proof (cases "bk_type (buckets Q1 ! i) = NA_BAD")
    case True
    then have "\<not> in_use (buckets Q1 ! i)" by (simp add: in_use_def)
    from take_table [OF Suc.prems(1) S(1) Suc.prems(3) _ this none, of now L period]
    obtain Q' where Q': "take_bucket i a (SVC_HashForAddress r 4096 a) now Q1 = (Some i, Q')" "table_inv r A Q'"
        "swept now L period {i} Q1 Q'" "fresh_bucket a (SVC_HashForAddress r 4096 a) now (buckets Q' ! i)"
      using i len by auto
    have "swept now L period {i} Q Q'" using S(2) Q'(3) by (rule swept_trans)
    then show ?thesis using Q' True i by (auto simp: Q1_def [symmetric])
  next
    case False
    obtain p Q' where IH: "alloc_loop n (i + 1) a (SVC_HashForAddress r 4096 a) now L period Q1 = (p, Q')"
        "table_inv r A Q'" "case p of None \<Rightarrow> swept now L period {} Q1 Q' \<and> slot Q' a = None
           | Some k \<Rightarrow> k < length (buckets Q1) \<and> swept now L period {k} Q1 Q' \<and>
               fresh_bucket a (SVC_HashForAddress r 4096 a) now (buckets Q' ! k)"
      using Suc.IH [OF Suc.prems(1) S(1) Suc.prems(3) none, of "i + 1"] Suc.prems(5) len by auto
    have "alloc_loop (Suc n) i a (SVC_HashForAddress r 4096 a) now L period Q = (p, Q')"
      using False IH(1) by (simp add: Q1_def [symmetric])
    then show ?thesis using IH(2,3) swept_trans [OF S(2)] len by (auto split: option.splits)
  qed
qed

section \<open>One request\<close>

lemma update_chains:
  assumes "chained cs Q" "i < length (buckets Q)" "bk_type b = bk_type (buckets Q ! i)" "bk_hash b = bk_hash (buckets Q ! i)"
    "bk_prev b = bk_prev (buckets Q ! i)" "bk_next b = bk_next (buckets Q ! i)" "in_use b"
  shows "chained cs (Q\<lparr>buckets := (buckets Q)[i := b]\<rparr>)"
proof -
  note C = chainedD [OF assms(1)]
  have u: "in_use (buckets Q ! i)" using assms(3,7) by (simp add: in_use_def)
  show ?thesis
    unfolding chained_def Let_def
  proof (intro conjI allI impI ballI)
    show "max_hashes (Q\<lparr>buckets := (buckets Q)[i := b]\<rparr>) = 4096"
      "length (bucketHashes (Q\<lparr>buckets := (buckets Q)[i := b]\<rparr>)) = 4096"
      "int (length (buckets (Q\<lparr>buckets := (buckets Q)[i := b]\<rparr>))) = max_buckets (Q\<lparr>buckets := (buckets Q)[i := b]\<rparr>)"
      using C(1-3) by simp_all
    show "\<And>h. h < 4096 \<Longrightarrow> distinct (cs h)" by (rule C(5))
    show "\<And>h. h < 4096 \<Longrightarrow> \<exists>q. dpath (buckets (Q\<lparr>buckets := (buckets Q)[i := b]\<rparr>)) None
        (bucketHashes (Q\<lparr>buckets := (buckets Q)[i := b]\<rparr>) ! h) (cs h) q None"
      using C(4) dpath_update_same [OF assms(5,6)] by simp
    fix j assume "j < length (buckets (Q\<lparr>buckets := (buckets Q)[i := b]\<rparr>))"
    then show "if in_use (buckets (Q\<lparr>buckets := (buckets Q)[i := b]\<rparr>) ! j)
        then 0 \<le> bk_hash (buckets (Q\<lparr>buckets := (buckets Q)[i := b]\<rparr>) ! j) \<and>
          bk_hash (buckets (Q\<lparr>buckets := (buckets Q)[i := b]\<rparr>) ! j) < 4096 \<and>
          j \<in> set (cs (nat (bk_hash (buckets (Q\<lparr>buckets := (buckets Q)[i := b]\<rparr>) ! j))))
        else bk_type (buckets (Q\<lparr>buckets := (buckets Q)[i := b]\<rparr>) ! j) = NA_BAD \<and>
          bk_lastTime (buckets (Q\<lparr>buckets := (buckets Q)[i := b]\<rparr>) ! j) = 0"
      using C(6) [of j] C(7) [of j] C(6) [OF assms(2) u] assms(2,4,7) by (cases "j = i") auto
  next
    fix h j assume "h < 4096" "j \<in> set (cs h)"
    then show "in_use (buckets (Q\<lparr>buckets := (buckets Q)[i := b]\<rparr>) ! j)"
      "bk_hash (buckets (Q\<lparr>buckets := (buckets Q)[i := b]\<rparr>) ! j) = int h"
      using C(8) [of h j] assms(2,4,7) by (cases "j = i"; simp)+
  qed
qed

lemma update_table:
  assumes "table_inv r A Q" "i < length (buckets Q)" "in_use (buckets Q ! i)"
    and k: "bk_type b = bk_type (buckets Q ! i) \<and> bk_ipv b = bk_ipv (buckets Q ! i) \<and>
      bk_hash b = bk_hash (buckets Q ! i) \<and> bk_prev b = bk_prev (buckets Q ! i) \<and> bk_next b = bk_next (buckets Q ! i)"
  shows "table_inv r A (Q\<lparr>buckets := (buckets Q)[i := b]\<rparr>)"
proof -
  obtain cs where cs: "chained cs Q" using assms(1) by (auto simp: table_inv_def)
  have u: "in_use b" using assms(3) k by (simp add: in_use_def)
  have "chained cs (Q\<lparr>buckets := (buckets Q)[i := b]\<rparr>)" using update_chains [OF cs assms(2)] k u by blast
  moreover have m: "bucket_matches a ((buckets Q)[i := b] ! j) = bucket_matches a (buckets Q ! j)" for a j
    using k assms(2) by (cases "j = i") (simp_all add: bucket_matches_def split: netadrtype.split)
  moreover have "owned r a ((buckets Q)[i := b] ! j) = owned r a (buckets Q ! j)" for a j
    using k assms(2) m [of a j] by (cases "j = i") (auto simp: owned_def)
  moreover have "in_use ((buckets Q)[i := b] ! j) = in_use (buckets Q ! j)" for j
    using k assms(2) by (cases "j = i") (simp_all add: in_use_def)
  ultimately show ?thesis using assms(1) unfolding table_inv_def by (simp del: nth_list_update_neq nth_list_update_eq) blast
qed

end
