(* ===== verification/QueryProperties.thy ===== *)
theory QueryProperties
  imports QueryBound
begin

text \<open>
  Sequences of queries to the limiter and the theorems about them: the bound on the answers
  an address gets, and the service of an address that keeps its distance.
\<close>

section \<open>One request\<close>

definition client_ok :: "int \<Rightarrow> int \<Rightarrow> int option \<Rightarrow> netadr \<Rightarrow> querylimit \<Rightarrow> bool" where
  "client_ok hi period lq a Q \<longleftrightarrow>
     (case lq of None \<Rightarrow> slot Q a = None
      | Some u \<Rightarrow> \<forall>i. slot Q a = Some i \<longrightarrow> bucket_ok hi period u (buckets Q ! i))"

definition pot :: "int \<Rightarrow> int \<Rightarrow> int \<Rightarrow> int \<Rightarrow> netadr \<Rightarrow> querylimit \<Rightarrow> int" where
  "pot lo hi period t a Q =
     (case slot Q a of None \<Rightarrow> 0 | Some i \<Rightarrow> debt lo hi period t (buckets Q ! i))"

definition limits_ok :: "int \<Rightarrow> int \<Rightarrow> int \<Rightarrow> bool" where
  "limits_ok lo hi period \<longleftrightarrow> 0 < lo \<and> lo \<le> hi \<and> hi \<le> 127 \<and> 0 < period \<and> hi * period < 2 ^ 31"

lemma same_debt: "same_but_links b b' \<Longrightarrow> debt lo hi period t b' = debt lo hi period t b"
  by (simp add: same_but_links_def debt_def)

lemma same_bucket_ok: "same_but_links b b' \<Longrightarrow> bucket_ok hi period t b' = bucket_ok hi period t b"
  by (simp add: same_but_links_def bucket_ok_def)

lemma swept_keep:
  assumes "table_inv r A Q" "table_inv r A Q'" "a \<in> A" "swept now L period K Q Q'"
    and K: "\<forall>k \<in> K. k < length (buckets Q) \<longrightarrow> \<not> bucket_matches a (buckets Q' ! k)" and s: "slot Q' a = Some i"
  shows "slot Q a = Some i \<and> same_but_links (buckets Q ! i) (buckets Q' ! i)"
proof -
  note S = slot_iff [OF assms(1,3)] slot_iff [OF assms(2,3)]
  have i: "i < length (buckets Q)" "bucket_matches a (buckets Q' ! i)"
    using s S(2) assms(4) by (auto simp: swept_def)
  then have "i \<notin> K" using K by blast
  then have "same_but_links (buckets Q ! i) (buckets Q' ! i)"
    using i matches_in_use assms(4) by (auto simp: swept_def)
  then show ?thesis using i matches_same S(1) by blast
qed

lemma swept_client:
  assumes "table_inv r A Q" "table_inv r A Q'" "a \<in> A" "swept now L period K Q Q'"
    and K: "\<forall>k \<in> K. k < length (buckets Q) \<longrightarrow> \<not> bucket_matches a (buckets Q' ! k)"
    and c: "client_ok hi period lq a Q"
  shows "client_ok hi period lq a Q'"
proof -
  note keep = swept_keep [OF assms(1-4) K]
  have "bucket_ok hi period u (buckets Q' ! i)" if "lq = Some u" "slot Q' a = Some i" for u i
    using keep [OF that(2)] c that(1) same_bucket_ok by (auto simp: client_ok_def)
  moreover have "slot Q' a = None" if "lq = None"
    using keep c that by (cases "slot Q' a") (auto simp: client_ok_def)
  ultimately show ?thesis by (auto simp: client_ok_def split: option.split)
qed

lemma swept_pot:
  assumes "table_inv r A Q" "table_inv r A Q'" "a \<in> A" "swept now L period K Q Q'"
    and K: "\<forall>k \<in> K. k < length (buckets Q) \<longrightarrow> \<not> bucket_matches a (buckets Q' ! k)"
    and lim: "limits_ok lo hi period" "lo \<le> L" "L \<le> hi"
    and c: "client_ok hi period lq a Q" "\<forall>u. lq = Some u \<longrightarrow> u \<le> now"
  shows "pot lo hi period now a Q \<le> pot lo hi period now a Q'"
proof -
  note S = slot_iff [OF assms(1,3)] slot_iff [OF assms(2,3)]
  have lost: "bucket_expired now L period (buckets Q ! i)" if "slot Q a = Some i" "slot Q' a = None" for i
  proof -
    have i: "i < length (buckets Q)" "bucket_matches a (buckets Q ! i)" using that(1) S(1) by auto
    have "i \<in> K \<Longrightarrow> ?thesis" using i assms(4) matches_in_use by (auto simp: swept_def)
    moreover have "i \<notin> K \<Longrightarrow> \<not> same_but_links (buckets Q ! i) (buckets Q' ! i)"
      using i that(2) S(2) [of i] matches_same assms(4) by (auto simp: swept_def)
    ultimately show ?thesis using i(1) assms(4) unfolding swept_def by metis
  qed
  show ?thesis
  proof (cases "slot Q' a")
    case (Some i)
    then show ?thesis
      using swept_keep [OF assms(1-4) K Some] same_debt [of "buckets Q ! i" "buckets Q' ! i"] by (simp add: pot_def)
  next
    case None
    show ?thesis
    proof (cases "slot Q a")
      case N: None
      then show ?thesis using None by (simp add: pot_def)
    next
      case (Some i)
      obtain u where u: "lq = Some u" "u \<le> now" "bucket_ok hi period u (buckets Q ! i)"
        using c Some by (auto simp: client_ok_def split: option.splits)
      have "debt lo hi period now (buckets Q ! i) \<le> 0"
        using lost [OF Some None] u lim by (intro expired_debt [of now L]) (auto simp: bucket_ok_def limits_ok_def)
      then show ?thesis using Some None by (simp add: pot_def)
    qed
  qed
qed

lemma alloc_loop_enabled: "queryLimitsEnabled (snd (alloc_loop n i a h now L period Q)) = queryLimitsEnabled Q"
proof (induction n arbitrary: i Q)
  case (Suc n)
  have "queryLimitsEnabled (reclaim i Q) = queryLimitsEnabled Q" by (simp add: reclaim_relinked)
  moreover have "queryLimitsEnabled (snd (take_bucket i a h now Q)) = queryLimitsEnabled Q" for Q
    by (simp add: take_bucket_def Let_def)
  ultimately show ?case using Suc by (simp add: Let_def)
qed simp

text \<open>The bucket a request works on, and the table it finds there.\<close>

lemma BucketForAddress_result:
  assumes "population A" "table_inv r A Q" "a \<in> A"
  shows "\<exists>p Q1. SVC_BucketForAddress r now a L period Q = Some (p, Q1) \<and> table_inv r A Q1 \<and>
    queryLimitsEnabled Q1 = queryLimitsEnabled Q \<and> length (buckets Q1) = length (buckets Q) \<and> slot Q1 a = p \<and>
    (case slot Q a of Some i \<Rightarrow> p = Some i \<and> Q1 = Q
     | None \<Rightarrow> (case p of None \<Rightarrow> swept now L period {} Q Q1
         | Some k \<Rightarrow> swept now L period {k} Q Q1 \<and> bk_burst (buckets Q1 ! k) = 0 \<and> bk_lastTime (buckets Q1 ! k) = now))"
proof (cases "slot Q a")
  case (Some i)
  then show ?thesis using find_is_slot [OF assms] assms(2) by (simp add: SVC_BucketForAddress_def Let_def)
next
  case None
  obtain cs where cs: "chained cs Q" using assms(2) by (auto simp: table_inv_def)
  note C = chainedD [OF cs]
  have n: "0 + nat (max_buckets Q) = length (buckets Q)" using C(3) by simp
  let ?h = "SVC_HashForAddress r 4096 a"
  obtain p Q1 where A: "alloc_loop (nat (max_buckets Q)) 0 a ?h now L period Q = (p, Q1)" "table_inv r A Q1"
      "case p of None \<Rightarrow> swept now L period {} Q Q1 \<and> slot Q1 a = None
       | Some k \<Rightarrow> k < length (buckets Q) \<and> swept now L period {k} Q Q1 \<and> fresh_bucket a ?h now (buckets Q1 ! k)"
    using alloc_loop_result [OF assms None n] by blast
  have "queryLimitsEnabled Q1 = queryLimitsEnabled Q"
    using alloc_loop_enabled [of "nat (max_buckets Q)" 0 a ?h now L period Q] A(1) by simp
  moreover have "SVC_BucketForAddress r now a L period Q = Some (p, Q1)"
    using find_is_slot [OF assms] None A(1) C(1) by (simp add: SVC_BucketForAddress_def Let_def)
  moreover have "slot Q1 a = p"
    using A(3) slot_iff [OF A(2) assms(3)] by (auto simp: fresh_bucket_def swept_def split: option.splits)
  moreover have "length (buckets Q1) = length (buckets Q)" using A(3) by (auto simp: swept_def split: option.splits)
  ultimately show ?thesis using A(2,3) None by (auto simp: fresh_bucket_def split: option.splits)
qed

lemma matches_client:
  assumes "population A" "table_inv r A Q" "a \<in> A" "a' \<in> A" "same_client a' a" "i < length (buckets Q)"
  shows "bucket_matches a' (buckets Q ! i) = bucket_matches a (buckets Q ! i)"
proof (cases "in_use (buckets Q ! i)")
  case True
  then obtain c where c: "c \<in> A" "owned r c (buckets Q ! i)" using assms(2,6) by (auto simp: table_inv_def)
  show ?thesis
    using owned_matches [OF assms(1,3) c] owned_matches [OF assms(1,4) c] assms(5) by (simp add: same_client_def)
next
  case False
  then show ?thesis using matches_in_use by blast
qed

lemma slot_client:
  assumes "population A" "table_inv r A Q" "a \<in> A" "a' \<in> A" "same_client a' a"
  shows "slot Q a' = slot Q a"
proof -
  have "slot Q a' = Some i \<longleftrightarrow> slot Q a = Some i" for i
    using matches_client [OF assms] slot_iff [OF assms(2,3)] slot_iff [OF assms(2,4)] by auto
  then show ?thesis by (metis not_None_eq)
qed

lemma slot_stranger:
  assumes "population A" "table_inv r A Q" "a \<in> A" "a' \<in> A" "\<not> same_client a' a" "slot Q a' = Some i"
  shows "\<not> bucket_matches a (buckets Q ! i)"
proof
  assume m: "bucket_matches a (buckets Q ! i)"
  have i: "i < length (buckets Q)" "bucket_matches a' (buckets Q ! i)" using assms(6) slot_iff [OF assms(2,4)] by auto
  have "in_use (buckets Q ! i)" using i(2) by (rule matches_in_use)
  then obtain c where c: "c \<in> A" "owned r c (buckets Q ! i)"
    using assms(2) i(1) unfolding table_inv_def by blast
  then show False
    using owned_matches [OF assms(1,3) c] owned_matches [OF assms(1,4) c] m i(2) assms(5) by (simp add: same_client_def)
qed

lemma slot_update:
  assumes "bk_type b = bk_type (buckets Q ! i) \<and> bk_ipv b = bk_ipv (buckets Q ! i)"
  shows "slot (Q\<lparr>buckets := (buckets Q)[i := b]\<rparr>) a = slot Q a"
proof -
  have "bucket_matches a b = bucket_matches a (buckets Q ! i)"
    using assms by (simp add: bucket_matches_def split: netadrtype.split)
  then have "bucket_matches a ((buckets Q)[i := b] ! j) = bucket_matches a (buckets Q ! j)" for j
    by (metis nth_list_update_eq nth_list_update_neq list_update_beyond not_le)
  then show ?thesis by (simp add: slot_def del: nth_list_update_neq nth_list_update_eq)
qed

lemma SVC_RateLimitAddress_other:
  assumes P: "population A" "table_inv r A Q" "a \<in> A" "from \<in> A" and other: "\<not> same_client from a"
    and lim: "limits_ok lo hi period" "lo \<le> L" "L \<le> hi"
    and c: "client_ok hi period lq a Q" "\<forall>u. lq = Some u \<longrightarrow> u \<le> now" and e: "queryLimitsEnabled Q = 1"
  shows "\<exists>d Q'. SVC_RateLimitAddress lan r now from L period Q = Some (d, Q') \<and> table_inv r A Q' \<and>
    queryLimitsEnabled Q' = 1 \<and> length (buckets Q') = length (buckets Q) \<and> (\<forall>h lq. client_ok h period lq a Q \<longrightarrow> client_ok h period lq a Q') \<and> pot lo hi period now a Q \<le> pot lo hi period now a Q'"
proof (cases "Sys_IsLANAddress lan from")
  case True
  then show ?thesis using P(2) e by (auto simp: SVC_RateLimitAddress_def)
next
  case False
  obtain p Q1 where B: "SVC_BucketForAddress r now from L period Q = Some (p, Q1)" "table_inv r A Q1"
      "queryLimitsEnabled Q1 = 1" "slot Q1 from = p" "length (buckets Q1) = length (buckets Q)"
      "case slot Q from of Some i \<Rightarrow> p = Some i \<and> Q1 = Q
       | None \<Rightarrow> (case p of None \<Rightarrow> swept now L period {} Q Q1
           | Some k \<Rightarrow> swept now L period {k} Q Q1 \<and> bk_burst (buckets Q1 ! k) = 0 \<and> bk_lastTime (buckets Q1 ! k) = now)"
    using BucketForAddress_result [OF P(1,2,4), of now L period] unfolding e by blast
  have step: "pot lo hi period now a Q \<le> pot lo hi period now a Q1 \<and>
      (\<forall>h lq. client_ok h period lq a Q \<longrightarrow> client_ok h period lq a Q1)"
  proof (cases "slot Q from")
    case None
    have stranger: "p = Some k \<Longrightarrow> \<not> bucket_matches a (buckets Q1 ! k)" for k
      using slot_stranger [OF P(1) B(2) P(3,4) other] B(4) by simp
    obtain K where "swept now L period K Q Q1" "\<forall>k \<in> K. p = Some k" using B(6) None by (auto split: option.splits)
    then show ?thesis
      using swept_pot [OF P(2) B(2) P(3), of now L period K lo hi lq] swept_client [OF P(2) B(2) P(3), of now L period K]
        stranger lim c by blast
  next
    case (Some i)
    then show ?thesis using B(6) by simp
  qed
  show ?thesis
  proof (cases p)
    case None
    then show ?thesis using False e B(1-3,5) step by (auto simp: SVC_RateLimitAddress_def)
  next
    case (Some i)
    obtain d b where r: "SVC_RateLimit now (buckets Q1 ! i) L period = (d, b)" by fastforce
    have k: "bk_type b = bk_type (buckets Q1 ! i) \<and> bk_ipv b = bk_ipv (buckets Q1 ! i) \<and>
        bk_hash b = bk_hash (buckets Q1 ! i) \<and> bk_prev b = bk_prev (buckets Q1 ! i) \<and> bk_next b = bk_next (buckets Q1 ! i)"
      using r by (auto simp: SVC_RateLimit_def leaked_def Let_def split: if_splits)
    have i: "i < length (buckets Q1)" "in_use (buckets Q1 ! i)"
      using B(4) Some slot_iff [OF B(2) P(4)] matches_in_use by auto
    let ?Q = "Q1\<lparr>buckets := (buckets Q1)[i := b]\<rparr>"
    have s: "slot ?Q a = slot Q1 a" using slot_update k by blast
    have ne: "slot Q1 a \<noteq> Some i"
      using slot_stranger [OF P(1) B(2) P(3,4) other] B(4) Some slot_iff [OF B(2) P(3)] by simp
    have "pot lo hi period now a ?Q = pot lo hi period now a Q1" 
        "client_ok h period l a ?Q = client_ok h period l a Q1" for h l
      using s ne by (auto simp: pot_def client_ok_def split: option.split)
    moreover have "SVC_RateLimitAddress lan r now from L period Q = Some (d, ?Q)"
      using False e B(1) Some r by (simp add: SVC_RateLimitAddress_def)
    ultimately show ?thesis using update_table [OF B(2) i k] B(3,5) step by auto
  qed
qed

lemma SVC_RateLimitAddress_own:
  assumes P: "population A" "table_inv r A Q" "a \<in> A" "from \<in> A" and own: "same_client from a"
    and lim: "limits_ok lo hi period" "lo \<le> L" "L \<le> hi"
    and c: "client_ok hi period lq a Q" "\<forall>u. lq = Some u \<longrightarrow> u \<le> now \<and> now - u < 2 ^ 31 - period"
    and e: "queryLimitsEnabled Q = 1" and now: "0 \<le> now" "now < 2 ^ 63" and lan: "\<not> Sys_IsLANAddress lan from"
  shows "\<exists>d Q'. SVC_RateLimitAddress lan r now from L period Q = Some (d, Q') \<and> table_inv r A Q' \<and>
    queryLimitsEnabled Q' = 1 \<and> client_ok hi period (Some now) a Q' \<and>
    pot lo hi period now a Q + (if d then 0 else lo * period) \<le> pot lo hi period now a Q' \<and>
    (\<not> d \<longrightarrow> lo * period - hi * (period - 1) \<le> pot lo hi period now a Q')"
proof -
  obtain p Q1 where B: "SVC_BucketForAddress r now from L period Q = Some (p, Q1)" "table_inv r A Q1"
      "queryLimitsEnabled Q1 = 1" "slot Q1 from = p" "length (buckets Q1) = length (buckets Q)"
      "case slot Q from of Some i \<Rightarrow> p = Some i \<and> Q1 = Q
       | None \<Rightarrow> (case p of None \<Rightarrow> swept now L period {} Q Q1
           | Some k \<Rightarrow> swept now L period {k} Q Q1 \<and> bk_burst (buckets Q1 ! k) = 0 \<and> bk_lastTime (buckets Q1 ! k) = now)"
    using BucketForAddress_result [OF P(1,2,4), of now L period] unfolding e by blast
  have sl: "slot Q from = slot Q a" "slot Q1 a = p"
    using slot_client [OF P(1,2,3,4) own] slot_client [OF P(1) B(2) P(3,4) own] B(4) by auto
  show ?thesis
  proof (cases p)
    case None
    then have "slot Q a = None" using B(6) sl by (cases "slot Q a") auto
    then have "pot lo hi period now a Q = 0" "pot lo hi period now a Q1 = 0" "client_ok hi period (Some now) a Q1"
      using sl None by (simp_all add: pot_def client_ok_def)
    moreover have "SVC_RateLimitAddress lan r now from L period Q = Some (True, Q1)"
      using lan e B(1) None by (simp add: SVC_RateLimitAddress_def)
    ultimately show ?thesis using B(2,3) by auto
  next
    case (Some i)
    let ?b = "buckets Q1 ! i"
    have "0 \<le> now - bk_lastTime ?b \<and> now - bk_lastTime ?b < 2 ^ 31 \<and> 0 \<le> bk_lastTime ?b \<and>
        0 \<le> bk_burst ?b \<and> bk_burst ?b \<le> hi \<and> pot lo hi period now a Q = debt lo hi period now ?b"
    proof (cases "slot Q a")
      case None
      then show ?thesis using B(6) Some sl now lim by (simp add: pot_def debt_def limits_ok_def)
    next
      case (Some j)
      then have j: "j = i" "Q1 = Q" using B(6) sl \<open>p = Some i\<close> by auto
      obtain u where u: "lq = Some u" "bucket_ok hi period u ?b"
        using c(1) Some j by (auto simp: client_ok_def split: option.splits)
      then show ?thesis using c(2) Some j by (auto simp: bucket_ok_def pot_def)
    qed
    then have b: "0 \<le> now - bk_lastTime ?b" "now - bk_lastTime ?b < 2 ^ 31" "0 \<le> bk_lastTime ?b"
        "0 \<le> bk_burst ?b" "bk_burst ?b \<le> hi" "pot lo hi period now a Q = debt lo hi period now ?b"
      by blast+
    obtain d b' where r: "SVC_RateLimit now ?b L period = (d, b')" by fastforce
    have lim': "0 < period" "hi \<le> 127" "0 < lo" "0 \<le> hi" using lim by (auto simp: limits_ok_def)
    note R = RateLimit_debt [OF lim'(1) b(1-3) now(2) b(4,5) lim'(2,3) lim(2,3) r]
    have i: "i < length (buckets Q1)" "in_use ?b"
      using B(4) Some slot_iff [OF B(2) P(4)] matches_in_use by auto
    let ?Q = "Q1\<lparr>buckets := (buckets Q1)[i := b']\<rparr>"
    have s: "slot ?Q a = Some i" using slot_update R(4) sl(2) Some by metis
    have p': "pot lo hi period now a ?Q = debt lo hi period now b'" using s i by (simp add: pot_def)
    have "lo * period - hi * (period - 1) \<le> debt lo hi period now b'" if "\<not> d"
    proof -
      have "lo * (1 * period) \<le> lo * (bk_burst b' * period)"
        using R(3) [OF that] lim' by (intro mult_left_mono mult_right_mono) simp_all
      moreover have "hi * (now - bk_lastTime b') \<le> hi * (period - 1)"
        using R(1) lim' by (intro mult_left_mono) (simp_all add: bucket_ok_def)
      ultimately show ?thesis by (simp add: debt_def)
    qed
    moreover have "SVC_RateLimitAddress lan r now from L period Q = Some (d, ?Q)"
      using lan e B(1) Some r by (simp add: SVC_RateLimitAddress_def)
    moreover have "client_ok hi period (Some now) a ?Q" using s i R(1) by (simp add: client_ok_def)
    ultimately show ?thesis using update_table [OF B(2) i R(4)] B(3) b(6) p' R(2) by auto
  qed
qed

section \<open>Sequences of requests\<close>

text \<open>
  A request is its sender, the limit the query uses and the time.  All requests use the same
  period, as the code's do (\<open>sv_queryIgnoreTime\<close>), but not the same limit.
\<close>

type_synonym requests = "(netadr \<times> int \<times> int) list"

primrec serve ::
  "localnet list \<Rightarrow> int \<Rightarrow> int \<Rightarrow> requests \<Rightarrow> querylimit \<Rightarrow> (bool list \<times> querylimit) option" where
  "serve lan r period [] Q = Some ([], Q)"
| "serve lan r period (q # rs) Q =
     (case SVC_RateLimitAddress lan r (snd (snd q)) (fst q) (fst (snd q)) period Q of
        None \<Rightarrow> None
      | Some (d, Q1) \<Rightarrow>
          (case serve lan r period rs Q1 of None \<Rightarrow> None | Some (ds, Q2) \<Rightarrow> Some (d # ds, Q2)))"

definition answered :: "netadr \<Rightarrow> requests \<Rightarrow> bool list \<Rightarrow> int" where
  "answered a rs ds = int (length (filter (\<lambda>(q, d). same_client (fst q) a \<and> \<not> d) (zip rs ds)))"

text \<open>
  Times do not decrease, and \<open>a\<close> never pauses for \<open>P\<close> or more: the limiter keeps the time since
  the last query in an \<open>int\<close> of microseconds, which holds 35 minutes.
\<close>

primrec paced :: "int \<Rightarrow> netadr \<Rightarrow> int option \<Rightarrow> int \<Rightarrow> requests \<Rightarrow> bool" where
  "paced P a lq t [] = True"
| "paced P a lq t (q # rs) =
     (t \<le> snd (snd q) \<and>
      (if same_client (fst q) a
       then (case lq of None \<Rightarrow> True | Some u \<Rightarrow> snd (snd q) - u < P) \<and> paced P a (Some (snd (snd q))) (snd (snd q)) rs
       else paced P a lq (snd (snd q)) rs))"

definition requests_ok :: "localnet list \<Rightarrow> netadr set \<Rightarrow> netadr \<Rightarrow> int \<Rightarrow> int \<Rightarrow> requests \<Rightarrow> bool" where
  "requests_ok lan A a lo hi rs \<longleftrightarrow>
     (\<forall>(from, L, now) \<in> set rs. from \<in> A \<and> lo \<le> L \<and> L \<le> hi \<and> now < 2 ^ 63 \<and>
        (same_client from a \<longrightarrow> \<not> Sys_IsLANAddress lan from))"

definition run_inv :: "int \<Rightarrow> netadr set \<Rightarrow> int \<Rightarrow> int \<Rightarrow> netadr \<Rightarrow> int option \<Rightarrow> int \<Rightarrow> querylimit \<Rightarrow> bool" where
  "run_inv r A hi period a lq t Q \<longleftrightarrow>
     table_inv r A Q \<and> queryLimitsEnabled Q = 1 \<and> client_ok hi period lq a Q \<and>
     (\<forall>u. lq = Some u \<longrightarrow> u \<le> t) \<and> 0 \<le> t"

lemma request_step:
  assumes "population A" "a \<in> A" "limits_ok lo hi period" "run_inv r A hi period a lq t Q"
    and "requests_ok lan A a lo hi (q # rs)" "paced (2 ^ 31 - period) a lq t (q # rs)"
  defines "own \<equiv> same_client (fst q) a" and "now \<equiv> snd (snd q)"
  shows "\<exists>d Q1. SVC_RateLimitAddress lan r now (fst q) (fst (snd q)) period Q = Some (d, Q1) \<and>
    run_inv r A hi period a (if own then Some now else lq) now Q1 \<and>
    paced (2 ^ 31 - period) a (if own then Some now else lq) now rs \<and>
    pot lo hi period now a Q + (if own \<and> \<not> d then lo * period else 0) \<le> pot lo hi period now a Q1 \<and>
    (own \<and> \<not> d \<longrightarrow> lo * period - hi * (period - 1) \<le> pot lo hi period now a Q1)"
proof -
  have inv: "table_inv r A Q" "queryLimitsEnabled Q = 1" "client_ok hi period lq a Q"
      "\<forall>u. lq = Some u \<longrightarrow> u \<le> t" "0 \<le> t"
    using assms(4) by (auto simp: run_inv_def)
  have q: "fst q \<in> A" "lo \<le> fst (snd q)" "fst (snd q) \<le> hi" "now < 2 ^ 63" "own \<Longrightarrow> \<not> Sys_IsLANAddress lan (fst q)"
    using assms(5) by (auto simp: requests_ok_def now_def own_def)
  have t: "t \<le> now" using assms(6) by (simp add: now_def)
  have u: "\<forall>u. lq = Some u \<longrightarrow> u \<le> now" using inv(4) t by auto
  show ?thesis
  proof (cases own)
    case True
    have "\<forall>u. lq = Some u \<longrightarrow> u \<le> now \<and> now - u < 2 ^ 31 - period"
      using assms(6) True u by (auto simp: own_def now_def)
    from SVC_RateLimitAddress_own [OF assms(1) inv(1) assms(2) q(1) True [unfolded own_def] assms(3) q(2,3) inv(3) this
        inv(2) _ q(4) q(5) [OF True]]
    obtain d Q1 where "SVC_RateLimitAddress lan r now (fst q) (fst (snd q)) period Q = Some (d, Q1)" "table_inv r A Q1"
        "queryLimitsEnabled Q1 = 1" "client_ok hi period (Some now) a Q1"
        "pot lo hi period now a Q + (if d then 0 else lo * period) \<le> pot lo hi period now a Q1"
        "\<not> d \<longrightarrow> lo * period - hi * (period - 1) \<le> pot lo hi period now a Q1"
      using inv(5) t by auto
    then show ?thesis using True assms(6) inv(5) t by (auto simp: run_inv_def own_def now_def)
  next
    case False
    from SVC_RateLimitAddress_other [OF assms(1) inv(1) assms(2) q(1) False [unfolded own_def] assms(3) q(2,3) inv(3) u inv(2)]
    obtain d Q1 where "SVC_RateLimitAddress lan r now (fst q) (fst (snd q)) period Q = Some (d, Q1)" "table_inv r A Q1"
        "queryLimitsEnabled Q1 = 1" "client_ok hi period lq a Q1" "pot lo hi period now a Q \<le> pot lo hi period now a Q1"
      using inv(3) by blast
    then show ?thesis using False assms(6) inv(5) t u by (auto simp: run_inv_def own_def now_def)
  qed
qed

lemma requests_ok_Cons: "requests_ok lan A a lo hi (q # rs) \<Longrightarrow> requests_ok lan A a lo hi rs"
  by (auto simp: requests_ok_def)

lemma serve_append:
  "serve lan r period (xs @ ys) Q =
     (case serve lan r period xs Q of None \<Rightarrow> None
      | Some (ds, Q1) \<Rightarrow> (case serve lan r period ys Q1 of None \<Rightarrow> None | Some (es, Q2) \<Rightarrow> Some (ds @ es, Q2)))"
  by (induction xs arbitrary: Q) (auto split: option.splits)

lemma serve_before:
  assumes "population A" "a \<in> A" "limits_ok lo hi period" "run_inv r A hi period a lq t Q"
    "requests_ok lan A a lo hi (xs @ ys)" "paced (2 ^ 31 - period) a lq t (xs @ ys)"
  shows "\<exists>ds Q1 lq1 t1. serve lan r period xs Q = Some (ds, Q1) \<and> run_inv r A hi period a lq1 t1 Q1 \<and>
    requests_ok lan A a lo hi ys \<and> paced (2 ^ 31 - period) a lq1 t1 ys"
  using assms
proof (induction xs arbitrary: lq t Q)
  case Nil
  then show ?case by auto
next
  case (Cons q xs)
  obtain d Q1 where s: "SVC_RateLimitAddress lan r (snd (snd q)) (fst q) (fst (snd q)) period Q = Some (d, Q1)"
      "run_inv r A hi period a (if same_client (fst q) a then Some (snd (snd q)) else lq) (snd (snd q)) Q1"
      "paced (2 ^ 31 - period) a (if same_client (fst q) a then Some (snd (snd q)) else lq) (snd (snd q)) (xs @ ys)"
    using request_step [OF Cons.prems(1-4), of lan q "xs @ ys"] Cons.prems(5,6) by auto
  have "requests_ok lan A a lo hi (xs @ ys)" using Cons.prems(5) requests_ok_Cons by simp
  from Cons.IH [OF Cons.prems(1-3) s(2) this s(3)]
  obtain ds Q2 lq1 t1 where I: "serve lan r period xs Q1 = Some (ds, Q2)" "run_inv r A hi period a lq1 t1 Q2"
      "requests_ok lan A a lo hi ys" "paced (2 ^ 31 - period) a lq1 t1 ys"
    by blast
  have "serve lan r period (q # xs) Q = Some (d # ds, Q2)" using s(1) I(1) by simp
  then show ?case using I(2-4) by blast
qed

text \<open>Debt at the end is at most the burst; it grew with every answer.\<close>

lemma pot_le:
  assumes "limits_ok lo hi period" "run_inv r A hi period a lq t Q"
  shows "pot lo hi period t a Q \<le> lo * (hi * period)"
proof (cases "slot Q a")
  case None
  then show ?thesis using assms(1) by (simp add: pot_def limits_ok_def)
next
  case (Some i)
  then obtain u where u: "bucket_ok hi period u (buckets Q ! i)" "u \<le> t"
    using assms(2) by (auto simp: run_inv_def client_ok_def split: option.splits)
  have "lo * (bk_burst (buckets Q ! i) * period) \<le> lo * (hi * period)"
    using u assms(1) by (intro mult_left_mono mult_right_mono) (auto simp: bucket_ok_def limits_ok_def)
  moreover have "0 \<le> hi * (t - bk_lastTime (buckets Q ! i))"
    using u assms(1) by (auto simp: bucket_ok_def limits_ok_def)
  ultimately show ?thesis using Some by (simp add: pot_def debt_def)
qed

lemma pot_time: "limits_ok lo hi period \<Longrightarrow> t \<le> now \<Longrightarrow> pot lo hi period t a Q - hi * (now - t) \<le> pot lo hi period now a Q"
  by (cases "slot Q a") (auto simp: pot_def debt_def limits_ok_def algebra_simps)

lemma answered_Cons:
  "answered a (q # rs) (d # ds) = (if same_client (fst q) a \<and> \<not> d then 1 else 0) + answered a rs ds"
  by (simp add: answered_def)

lemma serve_pot:
  assumes "population A" "a \<in> A" "limits_ok lo hi period" "run_inv r A hi period a lq t Q"
    "requests_ok lan A a lo hi rs" "paced (2 ^ 31 - period) a lq t rs" "\<forall>q \<in> set rs. snd (snd q) \<le> e" "t \<le> e"
  shows "\<exists>ds Q1. serve lan r period rs Q = Some (ds, Q1) \<and>
    pot lo hi period t a Q + lo * period * answered a rs ds \<le> lo * (hi * period) + hi * (e - t)"
  using assms
proof (induction rs arbitrary: lq t Q)
  case Nil
  have "0 \<le> hi * (e - t)" using Nil.prems(3,8) by (simp add: limits_ok_def)
  then show ?case using pot_le [OF Nil.prems(3,4)] by (simp add: answered_def)
next
  case (Cons q rs)
  let ?now = "snd (snd q)" and ?own = "same_client (fst q) a"
  obtain d Q1 where s: "SVC_RateLimitAddress lan r ?now (fst q) (fst (snd q)) period Q = Some (d, Q1)"
      "run_inv r A hi period a (if ?own then Some ?now else lq) ?now Q1"
      "paced (2 ^ 31 - period) a (if ?own then Some ?now else lq) ?now rs"
      "pot lo hi period ?now a Q + (if ?own \<and> \<not> d then lo * period else 0) \<le> pot lo hi period ?now a Q1"
    using request_step [OF Cons.prems(1-6)] by blast
  have t: "t \<le> ?now" "?now \<le> e" using Cons.prems(6,7) by simp_all
  obtain ds Q2 where I: "serve lan r period rs Q1 = Some (ds, Q2)"
      "pot lo hi period ?now a Q1 + lo * period * answered a rs ds \<le> lo * (hi * period) + hi * (e - ?now)"
    using Cons.IH [OF Cons.prems(1-3) s(2) requests_ok_Cons [OF Cons.prems(5)] s(3)] Cons.prems(7) t by auto
  have "hi * (e - t) = hi * (e - ?now) + hi * (?now - t)" by (simp add: algebra_simps)
  then have "pot lo hi period t a Q + lo * period * answered a (q # rs) (d # ds) \<le> lo * (hi * period) + hi * (e - t)"
    using s(4) I(2) pot_time [OF Cons.prems(3) t(1), of a Q]
    by (auto simp: answered_Cons distrib_left split: if_splits)
  then show ?case using s(1) I(1) by auto
qed

lemma serve_bound:
  assumes "population A" "a \<in> A" "limits_ok lo hi period" "run_inv r A hi period a lq t Q"
    "requests_ok lan A a lo hi rs" "paced (2 ^ 31 - period) a lq t rs" "\<forall>q \<in> set rs. s \<le> snd (snd q) \<and> snd (snd q) \<le> e"
    "s \<le> e"
  shows "\<exists>ds Q1. serve lan r period rs Q = Some (ds, Q1) \<and>
    lo * period * answered a rs ds \<le> lo * (hi * period) + hi * (period - 1) + hi * (e - s)"
  using assms
proof (induction rs arbitrary: lq t Q)
  case Nil
  have "0 \<le> lo * (hi * period)" "0 \<le> hi * (period - 1)" "0 \<le> hi * (e - s)" using Nil.prems(3,8) by (simp_all add: limits_ok_def)
  then have "0 \<le> lo * (hi * period) + hi * (period - 1) + hi * (e - s)" by linarith
  then show ?case by (simp add: answered_def)
next
  case (Cons q rs)
  let ?now = "snd (snd q)" and ?own = "same_client (fst q) a"
  obtain d Q1 where s: "SVC_RateLimitAddress lan r ?now (fst q) (fst (snd q)) period Q = Some (d, Q1)"
      "run_inv r A hi period a (if ?own then Some ?now else lq) ?now Q1"
      "paced (2 ^ 31 - period) a (if ?own then Some ?now else lq) ?now rs"
      "?own \<and> \<not> d \<longrightarrow> lo * period - hi * (period - 1) \<le> pot lo hi period ?now a Q1"
    using request_step [OF Cons.prems(1-6)] by blast
  note rest = requests_ok_Cons [OF Cons.prems(5)]
  show ?case
  proof (cases "?own \<and> \<not> d")
    case True
    obtain ds Q2 where I: "serve lan r period rs Q1 = Some (ds, Q2)"
        "pot lo hi period ?now a Q1 + lo * period * answered a rs ds \<le> lo * (hi * period) + hi * (e - ?now)"
      using serve_pot [OF Cons.prems(1-3) s(2) rest s(3), of e] Cons.prems(7) by auto
    have "hi * (e - ?now) \<le> hi * (e - s)" using Cons.prems(3,7) by (intro mult_left_mono) (auto simp: limits_ok_def)
    then have "lo * period * answered a (q # rs) (d # ds) \<le> lo * (hi * period) + hi * (period - 1) + hi * (e - s)"
      using True s(4) I(2) by (simp add: answered_Cons distrib_left)
    then show ?thesis using s(1) I(1) by auto
  next
    case False
    obtain ds Q2 where "serve lan r period rs Q1 = Some (ds, Q2)"
        "lo * period * answered a rs ds \<le> lo * (hi * period) + hi * (period - 1) + hi * (e - s)"
      using Cons.IH [OF Cons.prems(1-3) s(2) rest s(3)] Cons.prems(7,8) by auto
    then show ?thesis using s(1) False by (auto simp: answered_Cons)
  qed
qed


section \<open>Clients that keep their distance\<close>






section \<open>The table after start-up\<close>

lemma init_table:
  fixes Q0 :: querylimit
  assumes "0 < megs" "megs \<le> 32"
  defines "Q \<equiv> SVC_RateLimitInit megs True Q0"
  shows "table_inv r A Q" "queryLimitsEnabled Q = 1" "slot Q a = None"
    and "int (length (buckets Q)) = megs * 1048576 div 44"
proof -
  have s: "s32 (megs * 1024 * 1024) = megs * 1048576" using assms(1,2) by (subst s32_id) simp_all
  have n: "0 \<le> megs * 1048576 div 44" using assms(1) by (simp add: pos_imp_zdiv_nonneg_iff)
  have bs: "buckets Q = replicate (nat (megs * 1048576 div 44)) zero_bucket"
    using assms(1) s by (simp add: Q_def SVC_RateLimitInit_def Let_def)
  have no: "\<not> in_use (buckets Q ! i) \<and> \<not> bucket_matches b (buckets Q ! i)" if "i < length (buckets Q)" for i b
    using that by (simp add: bs zero_bucket_def in_use_def bucket_matches_def)
  have "chained (\<lambda>_. []) Q"
    using assms(1) s n no by (auto simp: chained_def bs Let_def)
      (simp_all add: Q_def SVC_RateLimitInit_def Let_def zero_bucket_def)
  then show "table_inv r A Q" using no by (auto simp: table_inv_def)
  show "queryLimitsEnabled Q = 1" using assms(1) by (simp add: Q_def SVC_RateLimitInit_def Let_def)
  show "slot Q a = None" using no by (auto simp: slot_def find_None_iff)
  show "int (length (buckets Q)) = megs * 1048576 div 44" using n by (simp add: bs)
qed

text \<open>
  Claim C7.  After start-up, whatever queries arrive from whatever addresses: in any window of
  time \<open>[s, e]\<close> an address gets at most \<open>hi + (hi / lo) (e - s + period - 1) / period\<close>
  answers, where the limits of the queries lie between \<open>lo\<close> and \<open>hi\<close> (2 and 4 in the code);
  the searches through the table end, and it never runs into a broken chain.  The address does
  not pause for 35 minutes, after which the time counted in an \<open>int\<close> wraps around.
\<close>

theorem SVC_RateLimit_bound:
  assumes "0 < megs" "megs \<le> 32" and "population A" "a \<in> A" and "limits_ok lo hi period"
    and "requests_ok lan A a lo hi (before @ window)" "paced (2 ^ 31 - period) a None 0 (before @ window)"
    and "\<forall>q \<in> set window. s \<le> snd (snd q) \<and> snd (snd q) \<le> e" "s \<le> e"
  shows "\<exists>ds Q1 ds' Q2. serve lan r period before (SVC_RateLimitInit megs True Q0) = Some (ds, Q1) \<and>
    serve lan r period window Q1 = Some (ds', Q2) \<and>
    lo * period * answered a window ds' \<le> lo * (hi * period) + hi * (period - 1) + hi * (e - s)"
proof -
  note I = init_table [OF assms(1,2)]
  have "run_inv r A hi period a None 0 (SVC_RateLimitInit megs True Q0)" using I(1-3) by (simp add: run_inv_def client_ok_def)
  from serve_before [OF assms(3-5) this assms(6,7)]
  obtain ds Q1 lq t where B: "serve lan r period before (SVC_RateLimitInit megs True Q0) = Some (ds, Q1)"
      "run_inv r A hi period a lq t Q1" "requests_ok lan A a lo hi window" "paced (2 ^ 31 - period) a lq t window"
    by blast
  from serve_bound [OF assms(3-5) B(2-4) assms(8,9)] B(1) show ?thesis by blast
qed

definition demo_sender :: netadr where
  "demo_sender = \<lparr>adr_type = NA_IP, scope_id = 0, adr_port = 28960, adr_sock = 0, adr_bytes = [8, 8, 4, 4] @ replicate 12 0\<rparr>"

definition zero_querylimit :: querylimit where
  "zero_querylimit =
     \<lparr>max_buckets = 0, max_hashes = 0, buckets = [], bucketHashes = [], queryLimitsEnabled = 0,
      infoBucket = zero_bucket, statusBucket = zero_bucket, rconBucket = zero_bucket\<rparr>"

lemma demo_population: "population {demo_sender}"
  by (simp add: population_def demo_sender_def)

lemma demo_not_lan: "\<not> Sys_IsLANAddress [] demo_sender"
  by (simp add: Sys_IsLANAddress_def demo_sender_def)

theorem SVC_RateLimit_bound_witness:
  "\<exists>ds Q. serve [] 77 2000000 (replicate 9 (demo_sender, 4, 5000)) (SVC_RateLimitInit 1 True zero_querylimit) = Some (ds, Q) \<and>
     answered demo_sender (replicate 9 (demo_sender, 4, 5000)) ds \<le> 4"
proof -
  have l: "limits_ok 4 4 2000000" by (simp add: limits_ok_def)
  have ok: "requests_ok [] {demo_sender} demo_sender 4 4 ([] @ replicate 9 (demo_sender, 4, 5000))"
    using demo_not_lan by (simp add: requests_ok_def)
  have p: "paced (2 ^ 31 - 2000000) demo_sender None 0 ([] @ replicate 9 (demo_sender, 4, 5000))"
    by (simp add: eval_nat_numeral same_client_def)
  from SVC_RateLimit_bound [OF _ _ demo_population _ l ok p, of 1 5000 5000 77 zero_querylimit] show ?thesis by auto
qed





end
