(* ===== verification/CvarTypes.thy ===== *)
theory CvarTypes
  imports QString
begin

text \<open>
  Data of src/src/cvar.c and the parsing of values in src/src/qshared.c.  A console variable
  keeps its current, latched and reset value in unions of four 32-bit cells; what a cell
  means is decided by the variable's type alone.  A cell is a machine word or an address: of
  a string, or of the array of names of an enumeration.  The null address is the word 0.
  Reading a word as an address, or an address as a number, is undefined in C and is the
  second fault value.  A float is its IEEE bit pattern, compared as the hardware compares;
  what converts floats (\<open>atof\<close>, \<open>%g\<close>, casts) is the parameter \<open>fpu\<close>.
\<close>

section \<open>Floats as bit patterns\<close>

definition fl_isnan :: "32 word \<Rightarrow> bool" where
  "fl_isnan w \<longleftrightarrow> w AND 0x7F800000 = 0x7F800000 \<and> w AND 0x007FFFFF \<noteq> 0"

definition fl_key :: "32 word \<Rightarrow> int" where
  "fl_key w = (let m = uint (w AND 0x7FFFFFFF) in if bit w 31 then - m else m)"

definition fl_less :: "32 word \<Rightarrow> 32 word \<Rightarrow> bool" where
  "fl_less a b \<longleftrightarrow> \<not> fl_isnan a \<and> \<not> fl_isnan b \<and> fl_key a < fl_key b"

definition fl_eq :: "32 word \<Rightarrow> 32 word \<Rightarrow> bool" where
  "fl_eq a b \<longleftrightarrow> \<not> fl_isnan a \<and> \<not> fl_isnan b \<and> fl_key a = fl_key b"

record fpu =
  fp_atof :: "string \<Rightarrow> 32 word"
  fp_of_int :: "int \<Rightarrow> 32 word"
  fp_to_int :: "32 word \<Rightarrow> int"
  fp_byte :: "32 word \<Rightarrow> 8 word"
  fp_g :: "32 word \<Rightarrow> string"
  fp_g3 :: "8 word \<Rightarrow> string"

text \<open>
  \<open>fp_byte f\<close> is \<open>(byte)((float)0xff * f)\<close> and \<open>fp_g3 b\<close> is \<open>b / 255\<close> printed with \<open>%.3g\<close>.
\<close>

section \<open>Cells and unions\<close>

datatype cell = Cell "32 word" | Text string | Names "string list"

abbreviation NULL :: cell where "NULL \<equiv> Cell 0"

definition as_word :: "cell \<Rightarrow> fault + 32 word" where
  "as_word c = (case c of Cell w \<Rightarrow> Inr w | _ \<Rightarrow> Inl OUT_OF_BOUNDS)"

definition as_text :: "cell \<Rightarrow> fault + string option" where
  "as_text c =
     (case c of Text s \<Rightarrow> Inr (Some s) | Cell w \<Rightarrow> if w = 0 then Inr None else Inl OUT_OF_BOUNDS
      | Names _ \<Rightarrow> Inl OUT_OF_BOUNDS)"

definition as_names :: "cell \<Rightarrow> fault + string list option" where
  "as_names c =
     (case c of Names ns \<Rightarrow> Inr (Some ns) | Cell w \<Rightarrow> if w = 0 then Inr None else Inl OUT_OF_BOUNDS
      | Text _ \<Rightarrow> Inl OUT_OF_BOUNDS)"

primrec as_words :: "cell list \<Rightarrow> fault + 32 word list" where
  "as_words [] = Inr []"
| "as_words (c # cs) = and_then (as_word c) (\<lambda>w. and_then (as_words cs) (\<lambda>ws. Inr (w # ws)))"

type_synonym ounion = "cell list"

definition zero_union :: ounion where
  "zero_union = replicate 4 NULL"

text \<open>The member \<open>boolean\<close> is the low byte of the first cell.\<close>

definition get_bool :: "ounion \<Rightarrow> fault + bool" where
  "get_bool u = and_then (as_word (u ! 0)) (\<lambda>w. Inr (w AND 255 \<noteq> 0))"

definition get_byte :: "ounion \<Rightarrow> fault + 32 word" where
  "get_byte u = and_then (as_word (u ! 0)) (\<lambda>w. Inr (w AND 255))"

definition put_byte :: "32 word \<Rightarrow> ounion \<Rightarrow> fault + ounion" where
  "put_byte b u =
     and_then (as_word (u ! 0)) (\<lambda>w. Inr (u[0 := Cell ((w AND 0xFFFFFF00) OR (b AND 255))]))"

definition put_cells :: "nat \<Rightarrow> ounion \<Rightarrow> ounion \<Rightarrow> ounion" where
  "put_cells n src dst = take n src @ drop n dst"

definition word_union :: "32 word list \<Rightarrow> ounion" where
  "word_union ws = map Cell ws @ replicate (4 - length ws) NULL"

definition text_union :: "string \<Rightarrow> ounion" where
  "text_union s = Text s # replicate 3 NULL"

definition enum_union :: "int \<Rightarrow> string list option \<Rightarrow> ounion" where
  "enum_union i ns =
     [Cell (word_of_int i), (case ns of None \<Rightarrow> NULL | Some l \<Rightarrow> Names l), NULL, NULL]"

text \<open>A colour packs its four bytes, red first, into the first cell.\<close>

definition color_word :: "8 word \<Rightarrow> 8 word \<Rightarrow> 8 word \<Rightarrow> 8 word \<Rightarrow> 32 word" where
  "color_word r g b a = word_of_int (le_uint [r, g, b, a])"

definition color_byte :: "nat \<Rightarrow> 32 word \<Rightarrow> 8 word" where
  "color_byte k w = ucast (drop_bit (8 * k) w)"

section \<open>The variable\<close>

datatype cvarType =
  CVAR_BOOL | CVAR_FLOAT | CVAR_VEC2 | CVAR_VEC3 | CVAR_VEC4 | CVAR_INT | CVAR_ENUM | CVAR_STRING
  | CVAR_COLOR

definition CVAR_ARCHIVE :: "16 word" where "CVAR_ARCHIVE = 1"
definition CVAR_USERINFO :: "16 word" where "CVAR_USERINFO = 2"
definition CVAR_SERVERINFO :: "16 word" where "CVAR_SERVERINFO = 4"
definition CVAR_INIT :: "16 word" where "CVAR_INIT = 16"
definition CVAR_LATCH :: "16 word" where "CVAR_LATCH = 32"
definition CVAR_ROM :: "16 word" where "CVAR_ROM = 64"
definition CVAR_CHEAT :: "16 word" where "CVAR_CHEAT = 128"
definition CVAR_NORESTART :: "16 word" where "CVAR_NORESTART = 1024"
definition CVAR_USER_CREATED :: "16 word" where "CVAR_USER_CREATED = 16384"

record cvar =
  cv_name :: "string option"
  cv_description :: "string option"
  cv_flags :: "16 word"
  cv_type :: cvarType
  cv_modified :: bool
  cv_value :: ounion
  cv_latched :: ounion
  cv_reset :: ounion
  cv_min :: cell
  cv_max :: cell

definition has_flag :: "16 word \<Rightarrow> 16 word \<Rightarrow> bool" where
  "has_flag f fl \<longleftrightarrow> fl AND f \<noteq> 0"

definition zero_cvar :: cvar where
  "zero_cvar =
     \<lparr>cv_name = None, cv_description = None, cv_flags = 0, cv_type = CVAR_BOOL, cv_modified = False,
      cv_value = zero_union, cv_latched = zero_union, cv_reset = zero_union,
      cv_min = NULL, cv_max = NULL\<rparr>"

definition vec_dim :: "cvarType \<Rightarrow> nat" where
  "vec_dim t = (case t of CVAR_VEC2 \<Rightarrow> 2 | CVAR_VEC3 \<Rightarrow> 3 | CVAR_VEC4 \<Rightarrow> 4 | _ \<Rightarrow> 0)"

section \<open>Is it an integer, a float, a vector?\<close>

definition scan_end :: "int \<Rightarrow> bool" where
  "scan_end c \<longleftrightarrow> c = 0 \<or> c = 10"

fun float_loop :: "string \<Rightarrow> int \<Rightarrow> int \<Rightarrow> bool \<Rightarrow> bool \<Rightarrow> bool \<Rightarrow> bool" where
  "float_loop [] i lim dot sign ended = True"
| "float_loop (c # s) i lim dot sign ended =
     (if lim \<le> i \<or> scan_end (sc c) then True
      else if c = CHR '' '' then (if ended then True else float_loop s (i + 1) lim dot sign ended)
      else if c = CHR ''-'' \<and> \<not> sign then float_loop s (i + 1) lim dot True True
      else if c = CHR ''.'' \<and> \<not> dot then float_loop s (i + 1) lim True sign True
      else if sc c < 48 \<or> 57 < sc c then False
      else float_loop s (i + 1) lim dot sign True)"

definition isFloat :: "string \<Rightarrow> int \<Rightarrow> bool" where
  "isFloat s lim = float_loop s 0 (if lim = 0 then 0x10000 else lim) False False False"

fun integer_loop :: "string \<Rightarrow> int \<Rightarrow> int \<Rightarrow> bool \<Rightarrow> bool \<Rightarrow> bool" where
  "integer_loop [] i lim sign ended = True"
| "integer_loop (c # s) i lim sign ended =
     (if lim \<le> i \<or> scan_end (sc c) \<or> c = CRETURN then True
      else if c = CHR '' '' then (if ended then True else integer_loop s (i + 1) lim sign ended)
      else if c = CHR ''-'' \<and> \<not> sign then integer_loop s (i + 1) lim True True
      else if sc c < 48 \<or> 57 < sc c then False
      else integer_loop s (i + 1) lim sign True)"

definition isInteger :: "string \<Rightarrow> int \<Rightarrow> bool" where
  "isInteger s lim = integer_loop s 0 (if lim = 0 then 0x10000 else lim) False False"

text \<open>The inner loop of \<open>isVector\<close> and \<open>strToVect\<close>: to the end of the word.\<close>

fun skip_word :: "string \<Rightarrow> int \<Rightarrow> int \<Rightarrow> string \<times> int" where
  "skip_word [] i lim = ([], i)"
| "skip_word (c # s) i lim =
     (if c \<noteq> CHR '' '' \<and> \<not> scan_end (sc c) \<and> i < lim then skip_word s (i + 1) lim else (c # s, i))"

lemma skip_word_shorter: "skip_word s i lim = (s', i') \<Longrightarrow> length s' \<le> length s"
  by (induction s i lim rule: skip_word.induct) (fastforce split: if_splits)+

function vector_loop :: "string \<Rightarrow> int \<Rightarrow> int \<Rightarrow> int \<Rightarrow> bool" where
  "vector_loop s i lim dim =
     (if lim \<le> i \<or> scan_end (chr0 s) \<or> dim \<le> 0 then dim = 0
      else if hd s = CHR '' '' then vector_loop (tl s) (i + 1) lim dim
      else if \<not> isFloat s (lim - i) then False
      else case skip_word s i lim of (s', i') \<Rightarrow>
        if chr0 s' \<noteq> 32 then dim - 1 = 0
        else vector_loop (tl s') (i' + 1) lim (dim - 1))"
  by pat_completeness auto
termination
proof (relation "measure (\<lambda>(s, i, lim, dim). length s)", goal_cases)
  case (2 s i lim dim)
  then show ?case by (cases s) (auto simp: scan_end_def chr0_def)
next
  case (3 s i lim dim s' i')
  then have "length s' \<le> length s" using skip_word_shorter by metis
  moreover have "s' \<noteq> []" using 3 by (auto simp: chr0_def)
  ultimately show ?case by (cases s') auto
qed simp

declare vector_loop.simps [simp del]

definition isVector :: "string \<Rightarrow> int \<Rightarrow> int \<Rightarrow> bool" where
  "isVector s lim dim = vector_loop s 0 (if lim = 0 then 0x10000 else lim) dim"

text \<open>
  \<open>strToVect\<close> fills the vector from the front; \<open>vect_loop\<close> gives the floats it stores.  Its
  word scan has no size bound, which is the bound of the string itself.
\<close>

function vect_loop :: "fpu \<Rightarrow> string \<Rightarrow> nat \<Rightarrow> 32 word list" where
  "vect_loop fp s dim =
     (if scan_end (chr0 s) \<or> dim = 0 then []
      else if hd s = CHR '' '' then vect_loop fp (tl s) dim
      else fp_atof fp s #
        (case skip_word s 0 (int (length s)) of (s', i') \<Rightarrow>
           if chr0 s' \<noteq> 32 then [] else vect_loop fp (tl s') (dim - 1)))"
  by pat_completeness auto
termination
proof (relation "measure (\<lambda>(fp, s, dim). length s)", goal_cases)
  case (2 fp s dim)
  then show ?case by (cases s) (auto simp: scan_end_def chr0_def)
next
  case (3 fp s dim s' i')
  then have "length s' \<le> length s" using skip_word_shorter by metis
  moreover have "s' \<noteq> []" using 3 by (auto simp: chr0_def)
  ultimately show ?case by (cases s') auto
qed simp

declare vect_loop.simps [simp del]

definition strToVect :: "fpu \<Rightarrow> string \<Rightarrow> nat \<Rightarrow> bool \<times> 32 word list" where
  "strToVect fp s dim = (let ws = vect_loop fp s dim in (length ws = dim, ws))"

end
