(* ===== verification/CvarSystem.thy ===== *)
theory CvarSystem
  imports CvarTypes CmdTokenizer QInfo
begin

text \<open>
  The operations of src/src/cvar.c.  A variable is named by its index in the array
  \<open>cvar_indexes\<close>; the linked list \<open>cvar_vars\<close> and the 512 hash chains are lists of indices,
  head first.  Strings are values, so \<open>CopyString\<close> and \<open>FreeString\<close> leave no trace here (the
  allocator has its own theories).  What is printed on the console is not part of the state,
  and the critical section makes each operation one step.
\<close>

record cvarsys =
  cvar_indexes :: "cvar list"
  cvar_vars :: "nat list"
  hashTable :: "nat list list"
  cvar_modifiedFlags :: "32 word"
  cvar_archivedset :: bool
  cheating_enabled :: bool
  cvar_cheats :: "nat option"

definition MAX_CVARS :: nat where "MAX_CVARS = 8192"
definition FILE_HASH_SIZE :: nat where "FILE_HASH_SIZE = 512"

abbreviation var_at :: "cvarsys \<Rightarrow> nat \<Rightarrow> cvar" where
  "var_at S i \<equiv> cvar_indexes S ! i"

definition set_var :: "nat \<Rightarrow> cvar \<Rightarrow> cvarsys \<Rightarrow> cvarsys" where
  "set_var i v S = S\<lparr>cvar_indexes := (cvar_indexes S)[i := v]\<rparr>"

section \<open>Names\<close>

text \<open>The sum wraps in a 32-bit \<open>long\<close>, which the nine bits kept do not see.\<close>

primrec hash_from :: "nat \<Rightarrow> string \<Rightarrow> int" where
  "hash_from i [] = 0"
| "hash_from i (c # s) = sc (tolower_c c) * (int i + 119) + hash_from (i + 1) s"

definition generateHashValue :: "string \<Rightarrow> nat" where
  "generateHashValue fname = nat (s32 (hash_from 0 fname) AND (int FILE_HASH_SIZE - 1))"

definition Cvar_ValidateString :: "string option \<Rightarrow> bool" where
  "Cvar_ValidateString p =
     (case p of None \<Rightarrow> False
      | Some s \<Rightarrow> BSLASH \<notin> set s \<and> DQUOTE \<notin> set s \<and> CHR '';'' \<notin> set s)"

definition Cvar_FindVar :: "cvarsys \<Rightarrow> string \<Rightarrow> nat option" where
  "Cvar_FindVar S var_name =
     List.find (\<lambda>i. Q_stricmp (Some var_name) (cv_name (var_at S i)) = 0)
       (hashTable S ! generateHashValue var_name)"

definition Cvar_AddFlags :: "16 word \<Rightarrow> cvar \<Rightarrow> cvar" where
  "Cvar_AddFlags flags var = var\<lparr>cv_flags := cv_flags var OR flags\<rparr>"

definition Cvar_ClearFlags :: "16 word \<Rightarrow> cvar \<Rightarrow> cvar" where
  "Cvar_ClearFlags flags var = var\<lparr>cv_flags := cv_flags var AND NOT flags\<rparr>"

definition Cvar_IsDefined :: "cvarsys \<Rightarrow> string \<Rightarrow> bool" where
  "Cvar_IsDefined S cvarname = (Cvar_FindVar S cvarname \<noteq> None)"

definition Cvar_CommandCompletion :: "cvarsys \<Rightarrow> string option list" where
  "Cvar_CommandCompletion S = map (\<lambda>i. cv_name (var_at S i)) (cvar_vars S)"

section \<open>Values as strings\<close>

definition sprintf_to :: "int \<Rightarrow> string \<Rightarrow> string" where
  "sprintf_to size_buf s = take (nat (size_buf - 1)) s"

primrec enum_scan :: "string list \<Rightarrow> int \<Rightarrow> int \<Rightarrow> string option" where
  "enum_scan [] i k = None"
| "enum_scan (s # ss) i k = (if i = k then Some s else enum_scan ss (i + 1) k)"

definition words_str :: "fpu \<Rightarrow> 32 word list \<Rightarrow> string" where
  "words_str fp ws = concat (map (\<lambda>(k, w). (if k = 0 then [] else '' '') @ fp_g fp w) (enumerate 0 ws))"

definition color_str :: "fpu \<Rightarrow> 32 word \<Rightarrow> string" where
  "color_str fp w =
     fp_g3 fp (color_byte 0 w) @ '' '' @ fp_g3 fp (color_byte 1 w) @ '' '' @
     fp_g3 fp (color_byte 2 w) @ '' '' @ fp_g3 fp (color_byte 3 w)"

text \<open>
  One of the three strings \<open>Cvar_ValueToStr\<close> makes, from the union it prints; the server's
  \<open>printf\<close> shows a null string as \<open>(null)\<close>.  An enumeration without names leaves the
  caller's buffer as it was, uninitialised.
\<close>

definition union_str :: "fpu \<Rightarrow> cvar \<Rightarrow> ounion \<Rightarrow> fault + string" where
  "union_str fp v u =
     (case cv_type v of
        CVAR_BOOL \<Rightarrow> and_then (get_bool u) (\<lambda>b. Inr (if b then ''1'' else ''0''))
      | CVAR_FLOAT \<Rightarrow> and_then (as_word (u ! 0)) (\<lambda>w. Inr (fp_g fp w))
      | CVAR_VEC2 \<Rightarrow> and_then (as_words (take 2 u)) (\<lambda>ws. Inr (words_str fp ws))
      | CVAR_VEC3 \<Rightarrow> and_then (as_words (take 3 u)) (\<lambda>ws. Inr (words_str fp ws))
      | CVAR_VEC4 \<Rightarrow> and_then (as_words (take 4 u)) (\<lambda>ws. Inr (words_str fp ws))
      | CVAR_COLOR \<Rightarrow> and_then (as_word (u ! 0)) (\<lambda>w. Inr (color_str fp w))
      | CVAR_INT \<Rightarrow> and_then (as_word (u ! 0)) (\<lambda>w. Inr (int_dec (sint w)))
      | CVAR_STRING \<Rightarrow> and_then (as_text (u ! 0)) (\<lambda>p.
          Inr (case p of None \<Rightarrow> ''(null)'' | Some s \<Rightarrow> s))
      | CVAR_ENUM \<Rightarrow> and_then (as_names (cv_max v)) (\<lambda>p.
          case p of None \<Rightarrow> Inl OUT_OF_BOUNDS
          | Some names \<Rightarrow> and_then (as_word (u ! 0)) (\<lambda>w.
              Inr (case enum_scan names 0 (sint w) of Some s \<Rightarrow> s | None \<Rightarrow> ''Out of Range value''))))"

definition Cvar_ValueToStr :: "fpu \<Rightarrow> cvar \<Rightarrow> int \<Rightarrow> ounion \<Rightarrow> fault + string" where
  "Cvar_ValueToStr fp v size_buf u = and_then (union_str fp v u) (\<lambda>s. Inr (sprintf_to size_buf s))"

definition Cvar_DisplayableValue :: "fpu \<Rightarrow> cvar \<Rightarrow> fault + string" where
  "Cvar_DisplayableValue fp v = Cvar_ValueToStr fp v 8192 (cv_value v)"

definition Cvar_VariableString :: "fpu \<Rightarrow> cvarsys \<Rightarrow> string \<Rightarrow> fault + string" where
  "Cvar_VariableString fp S var_name =
     (case Cvar_FindVar S var_name of None \<Rightarrow> Inr []
      | Some i \<Rightarrow> Cvar_DisplayableValue fp (var_at S i))"

definition Cvar_VariableStringBuffer :: "fpu \<Rightarrow> cvarsys \<Rightarrow> string \<Rightarrow> int \<Rightarrow> fault + string" where
  "Cvar_VariableStringBuffer fp S var_name bufsize =
     (case Cvar_FindVar S var_name of None \<Rightarrow> Inr []
      | Some i \<Rightarrow> Cvar_ValueToStr fp (var_at S i) bufsize (cv_value (var_at S i)))"

section \<open>Values as numbers\<close>

definition Cvar_VariableValue :: "fpu \<Rightarrow> cvarsys \<Rightarrow> string \<Rightarrow> fault + 32 word" where
  "Cvar_VariableValue fp S var_name =
     (case Cvar_FindVar S var_name of None \<Rightarrow> Inr 0
      | Some i \<Rightarrow> let v = var_at S i; c = cv_value v ! 0 in
          (case cv_type v of
             CVAR_FLOAT \<Rightarrow> as_word c
           | CVAR_INT \<Rightarrow> and_then (as_word c) (\<lambda>w. Inr (fp_of_int fp (sint w)))
           | CVAR_STRING \<Rightarrow> and_then (as_text c) (\<lambda>p.
               Inr (case p of None \<Rightarrow> 0 | Some s \<Rightarrow> fp_atof fp s))
           | _ \<Rightarrow> Inr 0))"

definition Cvar_VariableIntegerValue :: "fpu \<Rightarrow> cvarsys \<Rightarrow> string \<Rightarrow> fault + int" where
  "Cvar_VariableIntegerValue fp S var_name =
     (case Cvar_FindVar S var_name of None \<Rightarrow> Inr 0
      | Some i \<Rightarrow> let v = var_at S i; c = cv_value v ! 0 in
          (case cv_type v of
             CVAR_BOOL \<Rightarrow> and_then (get_byte (cv_value v)) (\<lambda>w. Inr (uint w))
           | CVAR_FLOAT \<Rightarrow> and_then (as_word c) (\<lambda>w. Inr (fp_to_int fp w))
           | CVAR_INT \<Rightarrow> and_then (as_word c) (\<lambda>w. Inr (sint w))
           | CVAR_STRING \<Rightarrow> and_then (as_text c) (\<lambda>p.
               Inr (case p of None \<Rightarrow> 0 | Some s \<Rightarrow> atoi s))
           | _ \<Rightarrow> Inr 0))"

text \<open>As written, a float that is not zero reads as false, and zero as true.\<close>

definition Cvar_VariableBooleanValue :: "cvarsys \<Rightarrow> string \<Rightarrow> fault + bool" where
  "Cvar_VariableBooleanValue S var_name =
     (case Cvar_FindVar S var_name of None \<Rightarrow> Inr False
      | Some i \<Rightarrow> let v = var_at S i; c = cv_value v ! 0 in
          (case cv_type v of
             CVAR_BOOL \<Rightarrow> get_bool (cv_value v)
           | CVAR_FLOAT \<Rightarrow> and_then (as_word c) (\<lambda>w. Inr (fl_eq w 0))
           | CVAR_INT \<Rightarrow> and_then (as_word c) (\<lambda>w. Inr (w \<noteq> 0))
           | CVAR_STRING \<Rightarrow> and_then (as_text c) (\<lambda>p.
               Inr (case p of None \<Rightarrow> False | Some s \<Rightarrow> atoi s \<noteq> 0))
           | _ \<Rightarrow> Inr False))"

section \<open>Setting a variable\<close>

definition store_cells :: "bool \<Rightarrow> nat \<Rightarrow> ounion \<Rightarrow> cvar \<Rightarrow> cvar" where
  "store_cells latched n val v =
     v\<lparr>cv_value := (if latched then cv_value v else put_cells n val (cv_value v)),
       cv_latched := put_cells n val (cv_latched v)\<rparr>"

text \<open>A float outside the limits; a number that is not one compares as false.\<close>

definition out_of_limits :: "32 word \<Rightarrow> 32 word \<Rightarrow> 32 word \<Rightarrow> bool" where
  "out_of_limits lo hi w \<longleftrightarrow> fl_less w lo \<or> fl_less hi w"

text \<open>
  The switch of \<open>Cvar_SetVariant\<close>: the code it returns (-1 outside the domain, 0 nothing to
  do, 1 changed) and the variable.
\<close>

definition set_bool :: "bool \<Rightarrow> cvar \<Rightarrow> ounion \<Rightarrow> fault + int \<times> cvar" where
  "set_bool latched v val =
     and_then (get_bool (cv_value v)) (\<lambda>old. and_then (get_bool val) (\<lambda>new.
       if old = new then Inr (0, v)
       else
         let b = (if new then 1 else 0) in
         and_then (if latched then Inr (cv_value v) else put_byte b (cv_value v)) (\<lambda>u.
         and_then (put_byte b (cv_latched v)) (\<lambda>l.
           Inr (1, v\<lparr>cv_value := u, cv_latched := l\<rparr>)))))"

definition set_float :: "bool \<Rightarrow> cvar \<Rightarrow> ounion \<Rightarrow> fault + int \<times> cvar" where
  "set_float latched v val =
     and_then (as_word (cv_value v ! 0)) (\<lambda>old. and_then (as_word (val ! 0)) (\<lambda>new.
       if fl_eq old new then Inr (0, v)
       else if fl_isnan new then Inr (-1, v)
       else and_then (as_word (cv_min v)) (\<lambda>lo. and_then (as_word (cv_max v)) (\<lambda>hi.
         if out_of_limits lo hi new then Inr (-1, v)
         else Inr (1, store_cells latched 1 val v)))))"

definition set_vec :: "nat \<Rightarrow> bool \<Rightarrow> cvar \<Rightarrow> ounion \<Rightarrow> fault + int \<times> cvar" where
  "set_vec n latched v val =
     and_then (as_words (take n val)) (\<lambda>ws.
     and_then (as_word (cv_min v)) (\<lambda>lo. and_then (as_word (cv_max v)) (\<lambda>hi.
       if \<exists>w \<in> set ws. fl_isnan w \<or> out_of_limits lo hi w then Inr (-1, v)
       else Inr (1, store_cells latched n val v))))"

definition set_color :: "bool \<Rightarrow> cvar \<Rightarrow> ounion \<Rightarrow> fault + int \<times> cvar" where
  "set_color latched v val =
     and_then (as_word (val ! 0)) (\<lambda>w. Inr (1, store_cells latched 1 val v))"

definition set_enum :: "bool \<Rightarrow> cvar \<Rightarrow> ounion \<Rightarrow> fault + int \<times> cvar" where
  "set_enum latched v val =
     and_then (as_word (cv_value v ! 0)) (\<lambda>old. and_then (as_word (val ! 0)) (\<lambda>new.
       if old = new then Inr (0, v)
       else and_then (as_names (cv_max v)) (\<lambda>p.
         case p of None \<Rightarrow> Inr (-1, v)
         | Some names \<Rightarrow>
             if enum_scan names 0 (sint new) = None then Inr (-1, v)
             else Inr (1, store_cells latched 1 val v))))"

definition set_int :: "bool \<Rightarrow> cvar \<Rightarrow> ounion \<Rightarrow> fault + int \<times> cvar" where
  "set_int latched v val =
     and_then (as_word (cv_value v ! 0)) (\<lambda>old. and_then (as_word (val ! 0)) (\<lambda>new.
       if old = new then Inr (0, v)
       else and_then (as_word (cv_min v)) (\<lambda>lo. and_then (as_word (cv_max v)) (\<lambda>hi.
         if sint new < sint lo \<or> sint hi < sint new then Inr (-1, v)
         else Inr (1, store_cells latched 1 val v)))))"

definition set_string :: "bool \<Rightarrow> cvar \<Rightarrow> ounion \<Rightarrow> fault + int \<times> cvar" where
  "set_string latched v val =
     and_then (as_text (val ! 0)) (\<lambda>new.
       if new = None then Inr (0, v)
       else and_then (as_text (cv_value v ! 0)) (\<lambda>old.
         if old \<noteq> None \<and> Q_stricmp old new = 0 then Inr (0, v)
         else Inr (1, store_cells latched 1 val v)))"

definition set_switch :: "bool \<Rightarrow> cvar \<Rightarrow> ounion \<Rightarrow> fault + int \<times> cvar" where
  "set_switch latched v val =
     (case cv_type v of
        CVAR_BOOL \<Rightarrow> set_bool latched v val
      | CVAR_FLOAT \<Rightarrow> set_float latched v val
      | CVAR_VEC2 \<Rightarrow> set_vec 2 latched v val
      | CVAR_VEC3 \<Rightarrow> set_vec 3 latched v val
      | CVAR_VEC4 \<Rightarrow> set_vec 4 latched v val
      | CVAR_COLOR \<Rightarrow> set_color latched v val
      | CVAR_ENUM \<Rightarrow> set_enum latched v val
      | CVAR_INT \<Rightarrow> set_int latched v val
      | CVAR_STRING \<Rightarrow> set_string latched v val)"

definition refused :: "cvarsys \<Rightarrow> cvar \<Rightarrow> bool \<Rightarrow> fault + bool" where
  "refused S v force =
     (if force then Inr False
      else if has_flag CVAR_ROM (cv_flags v) then Inr True
      else if has_flag CVAR_INIT (cv_flags v) then Inr True
      else if has_flag CVAR_CHEAT (cv_flags v)
        then (case cvar_cheats S of None \<Rightarrow> Inl OUT_OF_BOUNDS
              | Some c \<Rightarrow> and_then (get_bool (cv_value (var_at S c))) (\<lambda>b. Inr (\<not> b)))
      else Inr False)"

definition Cvar_SetVariant :: "nat option \<Rightarrow> ounion \<Rightarrow> bool \<Rightarrow> cvarsys \<Rightarrow> fault + int \<times> cvarsys" where
  "Cvar_SetVariant p val force S =
     (case p of None \<Rightarrow> Inr (0, S)
      | Some i \<Rightarrow>
          let v = var_at S i in
          and_then (refused S v force) (\<lambda>no.
            if no then Inr (0, S)
            else
              and_then (set_switch (\<not> force \<and> has_flag CVAR_LATCH (cv_flags v)) v val) (\<lambda>(code, v').
                if code \<noteq> 1 then Inr (code, S)
                else Inr (1, (set_var i (v'\<lparr>cv_modified := True\<rparr>) S)
                       \<lparr>cvar_modifiedFlags := cvar_modifiedFlags S OR scast (cv_flags v)\<rparr>))))"

end
