(* ===== verification/CvarOps.thy ===== *)
theory CvarOps
  imports CvarSystem
begin

text \<open>
  Registering, setting by name, resetting and listing console variables (src/src/cvar.c).
  \<open>Cvar_Register\<close> and \<open>Cvar_Set2\<close> call each other: \<open>Cvar_Set2\<close> registers a name it does not
  find, and \<open>Cvar_Register\<close> sets a variable it did find from its latched value.  So the part of
  \<open>Cvar_Set2\<close> behind a successful search is the function \<open>set_found\<close>, which both use.
\<close>

section \<open>Setting from a string\<close>

definition str_value :: "fpu \<Rightarrow> cvar \<Rightarrow> string \<Rightarrow> ounion option" where
  "str_value fp v s =
     (case cv_type v of
        CVAR_BOOL \<Rightarrow>
          (if isInteger s 0 then Some (word_union [word_of_int (atoi s) AND 255])
           else if Q_stricmp (Some s) (Some ''true'') = 0 then Some (word_union [1])
           else if Q_stricmp (Some s) (Some ''false'') = 0 then Some (word_union [0])
           else None)
      | CVAR_FLOAT \<Rightarrow> (if isFloat s 0 then Some (word_union [fp_atof fp s]) else None)
      | CVAR_VEC2 \<Rightarrow> (if isVector s 0 2 then Some (word_union (snd (strToVect fp s 2))) else None)
      | CVAR_VEC3 \<Rightarrow> (if isVector s 0 3 then Some (word_union (snd (strToVect fp s 3))) else None)
      | CVAR_VEC4 \<Rightarrow> (if isVector s 0 4 then Some (word_union (snd (strToVect fp s 4))) else None)
      | CVAR_COLOR \<Rightarrow>
          (if isVector s 0 4
           then (let ws = snd (strToVect fp s 4) in
                 Some (word_union [color_word (fp_byte fp (ws ! 0)) (fp_byte fp (ws ! 1))
                                     (fp_byte fp (ws ! 2)) (fp_byte fp (ws ! 3))]))
           else if isVector s 0 3
           then (let ws = snd (strToVect fp s 3) in
                 Some (word_union [color_word (fp_byte fp (ws ! 0)) (fp_byte fp (ws ! 1))
                                     (fp_byte fp (ws ! 2)) 0]))
           else None)
      | CVAR_ENUM \<Rightarrow> (if isInteger s 0 then Some (word_union [word_of_int (atoi s)]) else None)
      | CVAR_INT \<Rightarrow> (if isInteger s 0 then Some (word_union [word_of_int (atoi s)]) else None)
      | CVAR_STRING \<Rightarrow> Some (text_union s))"

definition set_found :: "fpu \<Rightarrow> nat \<Rightarrow> string \<Rightarrow> bool \<Rightarrow> cvarsys \<Rightarrow> fault + cvarsys" where
  "set_found fp i s force S =
     (let v = var_at S i in
      if \<not> force \<and> has_flag CVAR_ROM (cv_flags v) then Inr S
      else if \<not> force \<and> has_flag CVAR_INIT (cv_flags v) then Inr S
      else case str_value fp v s of
          None \<Rightarrow> Inr S
        | Some val \<Rightarrow> and_then (Cvar_SetVariant (Some i) val force S) (\<lambda>(code, S'). Inr S'))"

section \<open>Registration\<close>

text \<open>
  \<open>Cvar_ValidateNewVar\<close> repairs a value outside its limits, but its only caller raises an
  error whenever it does, so what it decides is all that matters.
\<close>

definition vec_valid :: "nat \<Rightarrow> ounion \<Rightarrow> cell \<Rightarrow> cell \<Rightarrow> fault + bool" where
  "vec_valid n val lmin lmax =
     and_then (as_words (take n val)) (\<lambda>ws. and_then (as_word lmin) (\<lambda>lo. and_then (as_word lmax) (\<lambda>hi.
       Inr (\<forall>w \<in> set ws. \<not> fl_isnan w \<and> \<not> out_of_limits lo hi w))))"

definition enum_count :: "string list \<Rightarrow> int \<Rightarrow> int" where
  "enum_count names k = (if k \<le> 0 then 0 else min k (int (length names)))"

definition value_valid :: "cvarType \<Rightarrow> ounion \<Rightarrow> cell \<Rightarrow> cell \<Rightarrow> fault + bool" where
  "value_valid t val lmin lmax =
     (case t of
        CVAR_BOOL \<Rightarrow> and_then (get_byte val) (\<lambda>b. Inr (b \<le> 1))
      | CVAR_FLOAT \<Rightarrow>
          and_then (as_word (val ! 0)) (\<lambda>w. and_then (as_word lmin) (\<lambda>lo. and_then (as_word lmax) (\<lambda>hi.
            Inr (\<not> fl_isnan hi \<and> \<not> fl_isnan lo \<and> \<not> fl_isnan w \<and> \<not> fl_less hi lo \<and>
                 \<not> out_of_limits lo hi w))))
      | CVAR_VEC2 \<Rightarrow> vec_valid 2 val lmin lmax
      | CVAR_VEC3 \<Rightarrow> vec_valid 3 val lmin lmax
      | CVAR_VEC4 \<Rightarrow> vec_valid 4 val lmin lmax
      | CVAR_COLOR \<Rightarrow> Inr True
      | CVAR_ENUM \<Rightarrow> and_then (as_names (val ! 1)) (\<lambda>p.
          case p of None \<Rightarrow> Inr False
          | Some names \<Rightarrow> and_then (as_word (val ! 0)) (\<lambda>w. Inr (enum_count names (sint w) = sint w)))
      | CVAR_INT \<Rightarrow>
          and_then (as_word (val ! 0)) (\<lambda>w. and_then (as_word lmin) (\<lambda>lo. and_then (as_word lmax) (\<lambda>hi.
            Inr (sint lo \<le> sint hi \<and> sint lo \<le> sint w \<and> sint w \<le> sint hi))))
      | CVAR_STRING \<Rightarrow> and_then (as_text (val ! 0)) (\<lambda>p. Inr (p \<noteq> None)))"

definition Cvar_ValidateNewVar :: "string option \<Rightarrow> cvarType \<Rightarrow> ounion \<Rightarrow> cell \<Rightarrow> cell \<Rightarrow> fault + bool" where
  "Cvar_ValidateNewVar var_name t val lmin lmax =
     (if var_name = None then Inl (COM_ERROR ERR_FATAL)
      else if \<not> Cvar_ValidateString var_name then Inl (COM_ERROR ERR_FATAL)
      else value_valid t val lmin lmax)"

definition stored_desc :: "string option \<Rightarrow> string option" where
  "stored_desc d = (case d of None \<Rightarrow> Some [] | Some s \<Rightarrow> Some s)"

text \<open>The value, latched value and reset value of a fresh variable, on cleared memory.\<close>

definition fresh_union :: "cvarType \<Rightarrow> ounion \<Rightarrow> ounion" where
  "fresh_union t val =
     (case t of
        CVAR_BOOL \<Rightarrow> (case val ! 0 of Cell w \<Rightarrow> word_union [w AND 255] | _ \<Rightarrow> zero_union)
      | CVAR_VEC2 \<Rightarrow> put_cells 4 val zero_union
      | CVAR_VEC3 \<Rightarrow> put_cells 4 val zero_union
      | CVAR_VEC4 \<Rightarrow> put_cells 4 val zero_union
      | _ \<Rightarrow> put_cells 1 val zero_union)"

definition fresh_limits :: "cvarType \<Rightarrow> ounion \<Rightarrow> cell \<Rightarrow> cell \<Rightarrow> cell \<times> cell" where
  "fresh_limits t val lmin lmax =
     (case t of
        CVAR_FLOAT \<Rightarrow> (lmin, lmax)
      | CVAR_VEC2 \<Rightarrow> (lmin, lmax)
      | CVAR_VEC3 \<Rightarrow> (lmin, lmax)
      | CVAR_VEC4 \<Rightarrow> (lmin, lmax)
      | CVAR_INT \<Rightarrow> (lmin, lmax)
      | CVAR_ENUM \<Rightarrow> (NULL, val ! 1)
      | _ \<Rightarrow> (NULL, NULL))"

definition fresh_var ::
  "string \<Rightarrow> cvarType \<Rightarrow> 16 word \<Rightarrow> ounion \<Rightarrow> cell \<Rightarrow> cell \<Rightarrow> string option \<Rightarrow> cvar" where
  "fresh_var name t flags val lmin lmax desc =
     (let u = fresh_union t val in
      zero_cvar\<lparr>cv_name := Some name, cv_description := stored_desc desc, cv_flags := flags,
        cv_type := t, cv_modified := True, cv_value := u, cv_latched := u, cv_reset := u,
        cv_min := fst (fresh_limits t val lmin lmax), cv_max := snd (fresh_limits t val lmin lmax)\<rparr>)"

text \<open>
  Registering a variable that exists: its strings go, it gets the new reset value, limits,
  description, flags and type.  Only the scalar types get a reset value; the cells of the
  value keep what they held under the old type.
\<close>

definition drop_strings :: "cvar \<Rightarrow> cvar" where
  "drop_strings v =
     (if cv_type v = CVAR_STRING
      then v\<lparr>cv_value := (cv_value v)[0 := NULL], cv_latched := (cv_latched v)[0 := NULL],
             cv_reset := (cv_reset v)[0 := NULL]\<rparr>
      else v)"

definition new_reset :: "cvarType \<Rightarrow> ounion \<Rightarrow> ounion \<Rightarrow> fault + ounion" where
  "new_reset t val old =
     (case t of
        CVAR_BOOL \<Rightarrow> and_then (get_byte val) (\<lambda>b. put_byte b old)
      | CVAR_VEC2 \<Rightarrow> Inr old
      | CVAR_VEC3 \<Rightarrow> Inr old
      | CVAR_VEC4 \<Rightarrow> Inr old
      | _ \<Rightarrow> Inr (put_cells 1 val old))"

definition new_limits :: "cvarType \<Rightarrow> ounion \<Rightarrow> cell \<Rightarrow> cell \<Rightarrow> cvar \<Rightarrow> cell \<times> cell" where
  "new_limits t val lmin lmax v =
     (if t \<in> {CVAR_BOOL, CVAR_COLOR, CVAR_STRING} then (cv_min v, cv_max v)
      else fresh_limits t val lmin lmax)"

definition reregistered ::
  "cvarType \<Rightarrow> 16 word \<Rightarrow> ounion \<Rightarrow> cell \<Rightarrow> cell \<Rightarrow> string option \<Rightarrow> cvar \<Rightarrow> fault + cvar" where
  "reregistered t flags val lmin lmax desc v0 =
     (let v1 = drop_strings v0;
          v2 = (if has_flag CVAR_USER_CREATED (cv_flags v1) \<and> \<not> has_flag CVAR_USER_CREATED flags
                then Cvar_ClearFlags CVAR_USER_CREATED v1 else v1) in
      and_then (new_reset t val (cv_reset v2)) (\<lambda>r.
        Inr (Cvar_AddFlags flags (v2\<lparr>cv_reset := r, cv_min := fst (new_limits t val lmin lmax v2),
               cv_max := snd (new_limits t val lmin lmax v2), cv_description := stored_desc desc,
               cv_type := t\<rparr>))))"

definition reregister ::
  "fpu \<Rightarrow> nat \<Rightarrow> cvarType \<Rightarrow> 16 word \<Rightarrow> ounion \<Rightarrow> cell \<Rightarrow> cell \<Rightarrow> string option \<Rightarrow> cvarsys \<Rightarrow>
   fault + nat \<times> cvarsys" where
  "reregister fp i t flags val lmin lmax desc S =
     (let v = var_at S i in
      if cv_type v \<noteq> t \<and> \<not> has_flag CVAR_USER_CREATED (cv_flags v) then Inl (COM_ERROR ERR_FATAL)
      else
        and_then (Cvar_ValueToStr fp v 8192 (cv_latched v)) (\<lambda>latchedStr.
        and_then (reregistered t flags val lmin lmax desc v) (\<lambda>v'.
          let modified = (if has_flag CVAR_USER_CREATED (cv_flags v) \<and> \<not> has_flag CVAR_USER_CREATED flags
                          then cvar_modifiedFlags S OR ucast flags else cvar_modifiedFlags S);
              S1 = (set_var i v' S)\<lparr>cvar_modifiedFlags := modified\<rparr>
          in and_then (set_found fp i latchedStr True S1) (\<lambda>S2. Inr (i, S2)))))"

definition Cvar_Register ::
  "fpu \<Rightarrow> string option \<Rightarrow> cvarType \<Rightarrow> 16 word \<Rightarrow> ounion \<Rightarrow> cell \<Rightarrow> cell \<Rightarrow> string option \<Rightarrow> cvarsys \<Rightarrow>
   fault + nat \<times> cvarsys" where
  "Cvar_Register fp var_name t flags val lmin lmax desc S =
     and_then (Cvar_ValidateNewVar var_name t val lmin lmax) (\<lambda>isvalid.
       if \<not> isvalid then Inl (COM_ERROR ERR_FATAL)
       else
         let name = the var_name;
             fresh = fresh_var name t flags val lmin lmax desc;
             modified = cvar_modifiedFlags S OR scast flags in
         case Cvar_FindVar S name of
           Some i \<Rightarrow>
             if (has_flag CVAR_ROM flags \<or> has_flag CVAR_CHEAT flags \<and> \<not> cheating_enabled S) \<and>
                has_flag CVAR_USER_CREATED (cv_flags (var_at S i))
             then Inr (i, (set_var i fresh S)\<lparr>cvar_modifiedFlags := modified\<rparr>)
             else reregister fp i t flags val lmin lmax desc S
         | None \<Rightarrow>
             let n = length (cvar_indexes S); h = generateHashValue name in
             if MAX_CVARS \<le> n then Inl (COM_ERROR ERR_FATAL)
             else Inr (n, S\<lparr>cvar_indexes := cvar_indexes S @ [fresh], cvar_vars := n # cvar_vars S,
                    hashTable := (hashTable S)[h := n # hashTable S ! h], cvar_modifiedFlags := modified\<rparr>))"

section \<open>Setting by name\<close>

definition Cvar_Set2 :: "fpu \<Rightarrow> string \<Rightarrow> string option \<Rightarrow> bool \<Rightarrow> cvarsys \<Rightarrow> fault + cvarsys" where
  "Cvar_Set2 fp var_name valueStr force S =
     (if \<not> Cvar_ValidateString (Some var_name) then Inr S
      else case valueStr of
        None \<Rightarrow> Inr S
      | Some s \<Rightarrow>
          (case Cvar_FindVar S var_name of
             Some i \<Rightarrow> set_found fp i s force S
           | None \<Rightarrow>
               and_then (Cvar_Register fp (Some var_name) CVAR_STRING
                   (if force then 0 else CVAR_USER_CREATED) (text_union s) NULL NULL (Some []) S)
                 (\<lambda>(i, S'). Inr S')))"

definition Cvar_SetWithType ::
  "fpu \<Rightarrow> string \<Rightarrow> ounion \<Rightarrow> cvarType \<Rightarrow> bool \<Rightarrow> cvarsys \<Rightarrow> fault + cvarsys" where
  "Cvar_SetWithType fp var_name val t force S =
     (let create = (\<lambda>lmin lmax. and_then (Cvar_Register fp (Some var_name) CVAR_STRING
                      (if force then 0 else CVAR_USER_CREATED) val lmin lmax (Some ''External Cvar'') S)
                    (\<lambda>(i, S'). Inr S'));
          new_one = (if t = CVAR_INT then create (Cell 0x80000000) (Cell 0x7FFFFFFF)
                     else if t = CVAR_FLOAT then create (Cell 0xFF7FFFFF) (Cell 0x7F7FFFFF)
                     else create NULL NULL)
      in
      if \<not> Cvar_ValidateString (Some var_name) then Inr S
      else case Cvar_FindVar S var_name of
          None \<Rightarrow> new_one
        | Some i \<Rightarrow>
            if t = cv_type (var_at S i)
            then and_then (Cvar_SetVariant (Some i) val force S) (\<lambda>(code, S'). Inr S')
            else if force \<and> \<not> has_flag CVAR_USER_CREATED (cv_flags (var_at S i))
            then Inl (COM_ERROR ERR_FATAL)
            else new_one)"

definition Cvar_Set :: "fpu \<Rightarrow> string \<Rightarrow> string option \<Rightarrow> cvarsys \<Rightarrow> fault + cvarsys" where
  "Cvar_Set fp var_name s S = Cvar_Set2 fp var_name s True S"

definition Cvar_SetLatched :: "fpu \<Rightarrow> string \<Rightarrow> string option \<Rightarrow> cvarsys \<Rightarrow> fault + cvarsys" where
  "Cvar_SetLatched fp var_name s S = Cvar_Set2 fp var_name s False S"

definition Cvar_SetAllowCheatOnly :: "fpu \<Rightarrow> string \<Rightarrow> string option \<Rightarrow> cvarsys \<Rightarrow> fault + cvarsys" where
  "Cvar_SetAllowCheatOnly fp var_name s S =
     (case Cvar_FindVar S var_name of
        None \<Rightarrow> Cvar_Set2 fp var_name s False S
      | Some i \<Rightarrow>
          if has_flag CVAR_CHEAT (cv_flags (var_at S i))
          then and_then (Cvar_Set2 fp var_name s False (set_var i (Cvar_ClearFlags CVAR_CHEAT (var_at S i)) S))
                 (\<lambda>S'. Inr (set_var i (Cvar_AddFlags CVAR_CHEAT (var_at S' i)) S'))
          else Cvar_Set2 fp var_name s False S)"

definition Cvar_SetStringByName :: "fpu \<Rightarrow> string \<Rightarrow> string \<Rightarrow> cvarsys \<Rightarrow> fault + cvarsys" where
  "Cvar_SetStringByName fp var_name s S = Cvar_SetWithType fp var_name (text_union s) CVAR_STRING True S"

definition Cvar_SetFloatByName :: "fpu \<Rightarrow> string \<Rightarrow> 32 word \<Rightarrow> cvarsys \<Rightarrow> fault + cvarsys" where
  "Cvar_SetFloatByName fp var_name x S = Cvar_SetWithType fp var_name (word_union [x]) CVAR_FLOAT True S"

definition Cvar_SetIntByName :: "fpu \<Rightarrow> string \<Rightarrow> int \<Rightarrow> cvarsys \<Rightarrow> fault + cvarsys" where
  "Cvar_SetIntByName fp var_name x S =
     Cvar_SetWithType fp var_name (word_union [word_of_int x]) CVAR_INT True S"

definition Cvar_SetBoolByName :: "fpu \<Rightarrow> string \<Rightarrow> bool \<Rightarrow> cvarsys \<Rightarrow> fault + cvarsys" where
  "Cvar_SetBoolByName fp var_name x S =
     Cvar_SetWithType fp var_name (word_union [if x then 1 else 0]) CVAR_BOOL True S"

section \<open>Setting by address\<close>

text \<open>These trust the caller to use the setter of the variable's type.\<close>

definition Cvar_SetFloat :: "nat option \<Rightarrow> 32 word \<Rightarrow> cvarsys \<Rightarrow> fault + int \<times> cvarsys" where
  "Cvar_SetFloat p x S = Cvar_SetVariant p (word_union [x]) True S"

definition Cvar_SetInt :: "nat option \<Rightarrow> int \<Rightarrow> cvarsys \<Rightarrow> fault + int \<times> cvarsys" where
  "Cvar_SetInt p x S = Cvar_SetVariant p (word_union [word_of_int x]) True S"

definition Cvar_SetEnum :: "nat option \<Rightarrow> int \<Rightarrow> cvarsys \<Rightarrow> fault + int \<times> cvarsys" where
  "Cvar_SetEnum p x S = Cvar_SetVariant p (word_union [word_of_int x]) True S"

definition Cvar_SetBool :: "nat option \<Rightarrow> bool \<Rightarrow> cvarsys \<Rightarrow> fault + int \<times> cvarsys" where
  "Cvar_SetBool p x S = Cvar_SetVariant p (word_union [if x then 1 else 0]) True S"

definition Cvar_SetString :: "nat option \<Rightarrow> string \<Rightarrow> cvarsys \<Rightarrow> fault + int \<times> cvarsys" where
  "Cvar_SetString p s S = Cvar_SetVariant p (text_union s) True S"

definition Cvar_SetVec2 :: "nat option \<Rightarrow> 32 word \<Rightarrow> 32 word \<Rightarrow> cvarsys \<Rightarrow> fault + int \<times> cvarsys" where
  "Cvar_SetVec2 p x y S = Cvar_SetVariant p (word_union [x, y]) True S"

definition Cvar_SetVec3 ::
  "nat option \<Rightarrow> 32 word \<Rightarrow> 32 word \<Rightarrow> 32 word \<Rightarrow> cvarsys \<Rightarrow> fault + int \<times> cvarsys" where
  "Cvar_SetVec3 p x y z S = Cvar_SetVariant p (word_union [x, y, z]) True S"

definition Cvar_SetVec4 ::
  "nat option \<Rightarrow> 32 word \<Rightarrow> 32 word \<Rightarrow> 32 word \<Rightarrow> 32 word \<Rightarrow> cvarsys \<Rightarrow> fault + int \<times> cvarsys" where
  "Cvar_SetVec4 p x y z imag S = Cvar_SetVariant p (word_union [x, y, z, imag]) True S"

definition Cvar_SetColor ::
  "fpu \<Rightarrow> nat option \<Rightarrow> 32 word \<Rightarrow> 32 word \<Rightarrow> 32 word \<Rightarrow> 32 word \<Rightarrow> cvarsys \<Rightarrow> fault + int \<times> cvarsys" where
  "Cvar_SetColor fp p r g b alpha S =
     Cvar_SetVariant p
       (word_union [color_word (fp_byte fp r) (fp_byte fp g) (fp_byte fp b) (fp_byte fp alpha)]) True S"

section \<open>Reset values\<close>

text \<open>What \<open>Cvar_ResetVar\<close> and \<open>Cvar_SetCheatState\<close> copy into a \<open>CvarValue\<close>: the member of the type.\<close>

definition reset_value :: "cvar \<Rightarrow> ounion" where
  "reset_value v =
     (case cv_type v of
        CVAR_VEC2 \<Rightarrow> put_cells 4 (cv_reset v) zero_union
      | CVAR_VEC3 \<Rightarrow> put_cells 4 (cv_reset v) zero_union
      | CVAR_VEC4 \<Rightarrow> put_cells 4 (cv_reset v) zero_union
      | _ \<Rightarrow> put_cells 1 (cv_reset v) zero_union)"

definition Cvar_ResetVar :: "nat option \<Rightarrow> cvarsys \<Rightarrow> fault + cvarsys" where
  "Cvar_ResetVar p S =
     (case p of None \<Rightarrow> Inr S
      | Some i \<Rightarrow> and_then (Cvar_SetVariant (Some i) (reset_value (var_at S i)) True S) (\<lambda>(code, S'). Inr S'))"

definition Cvar_Reset :: "string \<Rightarrow> cvarsys \<Rightarrow> fault + cvarsys" where
  "Cvar_Reset var_name S = Cvar_ResetVar (Cvar_FindVar S var_name) S"

primrec cheat_loop :: "nat list \<Rightarrow> cvarsys \<Rightarrow> fault + cvarsys" where
  "cheat_loop [] S = Inr S"
| "cheat_loop (i # is) S =
     (let v = var_at S i in
      if has_flag CVAR_CHEAT (cv_flags v)
      then and_then (Cvar_SetVariant (Some i) (reset_value v) (\<not> has_flag CVAR_LATCH (cv_flags v)) S)
             (\<lambda>(code, S'). cheat_loop is S')
      else cheat_loop is S)"

definition Cvar_SetCheatState :: "cvarsys \<Rightarrow> fault + cvarsys" where
  "Cvar_SetCheatState S = cheat_loop (cvar_vars S) S"

text \<open>
  \<open>Cvar_ChangeResetValue\<close>: a vector is stored component by component up to the first that is
  not a number and is not held to the limits; a colour is treated as four floats.
\<close>

primrec reset_cells :: "nat \<Rightarrow> nat \<Rightarrow> ounion \<Rightarrow> ounion \<Rightarrow> fault + ounion" where
  "reset_cells 0 k val u = Inr u"
| "reset_cells (Suc n) k val u =
     and_then (as_word (val ! k)) (\<lambda>w.
       if fl_isnan w then Inr u else reset_cells n (k + 1) val (u[k := val ! k]))"

definition changed_reset :: "cvar \<Rightarrow> ounion \<Rightarrow> fault + ounion" where
  "changed_reset v val =
     (let u = cv_reset v in
      case cv_type v of
        CVAR_BOOL \<Rightarrow>
          and_then (get_bool u) (\<lambda>old. and_then (get_bool val) (\<lambda>new.
            if old = new then Inr u else put_byte (if new then 1 else 0) u))
      | CVAR_FLOAT \<Rightarrow>
          and_then (as_word (u ! 0)) (\<lambda>old. and_then (as_word (val ! 0)) (\<lambda>new.
            if fl_eq old new then Inr u else if fl_isnan new then Inr u
            else and_then (as_word (cv_min v)) (\<lambda>lo. and_then (as_word (cv_max v)) (\<lambda>hi.
              if out_of_limits lo hi new then Inr u else Inr (put_cells 1 val u)))))
      | CVAR_VEC2 \<Rightarrow> reset_cells 2 0 val u
      | CVAR_VEC3 \<Rightarrow> reset_cells 3 0 val u
      | CVAR_COLOR \<Rightarrow> reset_cells 4 0 val u
      | CVAR_VEC4 \<Rightarrow> reset_cells 4 0 val u
      | CVAR_ENUM \<Rightarrow>
          and_then (as_word (u ! 0)) (\<lambda>old. and_then (as_word (val ! 0)) (\<lambda>new.
            if old = new then Inr u
            else and_then (as_names (cv_max v)) (\<lambda>p.
              case p of None \<Rightarrow> Inr u
              | Some names \<Rightarrow>
                  Inr (if enum_scan names 0 (sint new) = None then u else put_cells 1 val u))))
      | CVAR_INT \<Rightarrow>
          and_then (as_word (u ! 0)) (\<lambda>old. and_then (as_word (val ! 0)) (\<lambda>new.
            if old = new then Inr u
            else and_then (as_word (cv_min v)) (\<lambda>lo. and_then (as_word (cv_max v)) (\<lambda>hi.
              if sint new < sint lo \<or> sint hi < sint new then Inr u else Inr (put_cells 1 val u)))))
      | CVAR_STRING \<Rightarrow>
          and_then (as_text (val ! 0)) (\<lambda>new.
            if new = None then Inr u
            else and_then (as_text (u ! 0)) (\<lambda>old.
              if old \<noteq> None \<and> Q_stricmp old new = 0 then Inr u else Inr (put_cells 1 val u))))"

definition Cvar_ChangeResetValue :: "nat \<Rightarrow> ounion \<Rightarrow> cvarsys \<Rightarrow> fault + cvarsys" where
  "Cvar_ChangeResetValue i val S =
     and_then (changed_reset (var_at S i) val) (\<lambda>u. Inr (set_var i ((var_at S i)\<lparr>cv_reset := u\<rparr>) S))"

end
