(* ===== verification/CvarCommands.thy ===== *)
theory CvarCommands
  imports CvarOps
begin

text \<open>
  The typed registration functions, the console commands on variables, the listings
  (information strings, the configuration file) and the restart of src/src/cvar.c.  Console
  commands look at the tokenized line \<open>t\<close> of the command tokenizer.
\<close>

section \<open>Typed registration\<close>

definition Cvar_RegisterString ::
  "fpu \<Rightarrow> string option \<Rightarrow> string option \<Rightarrow> 16 word \<Rightarrow> string option \<Rightarrow> cvarsys \<Rightarrow> fault + nat \<times> cvarsys" where
  "Cvar_RegisterString fp name p flags desc S =
     Cvar_Register fp name CVAR_STRING flags (case p of None \<Rightarrow> zero_union | Some s \<Rightarrow> text_union s)
       NULL NULL desc S"

definition Cvar_RegisterBool ::
  "fpu \<Rightarrow> string option \<Rightarrow> int \<Rightarrow> 16 word \<Rightarrow> string option \<Rightarrow> cvarsys \<Rightarrow> fault + nat \<times> cvarsys" where
  "Cvar_RegisterBool fp name boolean flags desc S =
     Cvar_Register fp name CVAR_BOOL flags (word_union [word_of_int boolean AND 255]) NULL NULL desc S"

definition Cvar_RegisterInt ::
  "fpu \<Rightarrow> string option \<Rightarrow> int \<Rightarrow> int \<Rightarrow> int \<Rightarrow> 16 word \<Rightarrow> string option \<Rightarrow> cvarsys \<Rightarrow>
   fault + nat \<times> cvarsys" where
  "Cvar_RegisterInt fp name integer lo hi flags desc S =
     Cvar_Register fp name CVAR_INT flags (word_union [word_of_int integer])
       (Cell (word_of_int lo)) (Cell (word_of_int hi)) desc S"

definition Cvar_RegisterFloat ::
  "fpu \<Rightarrow> string option \<Rightarrow> 32 word \<Rightarrow> 32 word \<Rightarrow> 32 word \<Rightarrow> 16 word \<Rightarrow> string option \<Rightarrow> cvarsys \<Rightarrow>
   fault + nat \<times> cvarsys" where
  "Cvar_RegisterFloat fp name x lo hi flags desc S =
     Cvar_Register fp name CVAR_FLOAT flags (word_union [x]) (Cell lo) (Cell hi) desc S"

definition Cvar_RegisterVec2 ::
  "fpu \<Rightarrow> string option \<Rightarrow> 32 word \<Rightarrow> 32 word \<Rightarrow> 32 word \<Rightarrow> 32 word \<Rightarrow> 16 word \<Rightarrow> string option \<Rightarrow>
   cvarsys \<Rightarrow> fault + nat \<times> cvarsys" where
  "Cvar_RegisterVec2 fp name x y lo hi flags desc S =
     Cvar_Register fp name CVAR_VEC2 flags (word_union [x, y]) (Cell lo) (Cell hi) desc S"

definition Cvar_RegisterVec3 ::
  "fpu \<Rightarrow> string option \<Rightarrow> 32 word \<Rightarrow> 32 word \<Rightarrow> 32 word \<Rightarrow> 32 word \<Rightarrow> 32 word \<Rightarrow> 16 word \<Rightarrow>
   string option \<Rightarrow> cvarsys \<Rightarrow> fault + nat \<times> cvarsys" where
  "Cvar_RegisterVec3 fp name x y z lo hi flags desc S =
     Cvar_Register fp name CVAR_VEC3 flags (word_union [x, y, z]) (Cell lo) (Cell hi) desc S"

definition Cvar_RegisterVec4 ::
  "fpu \<Rightarrow> string option \<Rightarrow> 32 word \<Rightarrow> 32 word \<Rightarrow> 32 word \<Rightarrow> 32 word \<Rightarrow> 32 word \<Rightarrow> 32 word \<Rightarrow>
   16 word \<Rightarrow> string option \<Rightarrow> cvarsys \<Rightarrow> fault + nat \<times> cvarsys" where
  "Cvar_RegisterVec4 fp name x y z imag lo hi flags desc S =
     Cvar_Register fp name CVAR_VEC4 flags (word_union [x, y, z, imag]) (Cell lo) (Cell hi) desc S"

definition Cvar_RegisterColor ::
  "fpu \<Rightarrow> string option \<Rightarrow> 32 word \<Rightarrow> 32 word \<Rightarrow> 32 word \<Rightarrow> 32 word \<Rightarrow> 16 word \<Rightarrow> string option \<Rightarrow>
   cvarsys \<Rightarrow> fault + nat \<times> cvarsys" where
  "Cvar_RegisterColor fp name r g b alpha flags desc S =
     Cvar_Register fp name CVAR_COLOR flags
       (word_union [color_word (fp_byte fp r) (fp_byte fp g) (fp_byte fp b) (fp_byte fp alpha)])
       NULL NULL desc S"

definition Cvar_RegisterEnum ::
  "fpu \<Rightarrow> string option \<Rightarrow> string list option \<Rightarrow> int \<Rightarrow> 16 word \<Rightarrow> string option \<Rightarrow> cvarsys \<Rightarrow>
   fault + nat \<times> cvarsys" where
  "Cvar_RegisterEnum fp name strings integer flags desc S =
     Cvar_Register fp name CVAR_ENUM flags (enum_union integer strings) NULL NULL desc S"

text \<open>Before \<open>Cvar_Init\<close>, and the part of it that is not the registration of commands.\<close>

definition no_cvars :: cvarsys where
  "no_cvars =
     \<lparr>cvar_indexes = [], cvar_vars = [], hashTable = replicate FILE_HASH_SIZE [],
      cvar_modifiedFlags = 0, cvar_archivedset = False, cheating_enabled = False, cvar_cheats = None\<rparr>"

definition Cvar_Init :: "fpu \<Rightarrow> cvarsys \<Rightarrow> fault + cvarsys" where
  "Cvar_Init fp S =
     and_then (Cvar_RegisterBool fp (Some ''cvar_cheats'') 0 CVAR_INIT (Some ''Enable cheating'') S)
       (\<lambda>(i, S1). and_then (get_bool (cv_value (var_at S1 i))) (\<lambda>b.
          Inr (S1\<lparr>cvar_cheats := Some i, cheating_enabled := b\<rparr>)))"

section \<open>Console commands\<close>

text \<open>\<open>Cvar_Command\<close>: the name of a variable alone prints it, with a value sets it.\<close>

definition Cvar_Command :: "fpu \<Rightarrow> tokenizer \<Rightarrow> cvarsys \<Rightarrow> fault + bool \<times> cvarsys" where
  "Cvar_Command fp t S =
     and_then (Cmd_Argv t 0) (\<lambda>name.
       case Cvar_FindVar S name of
         None \<Rightarrow> Inr (False, S)
       | Some i \<Rightarrow>
           let v = var_at S i in
           if Cmd_Argc t = 1
           then and_then (Cvar_ValueToStr fp v 8192 (cv_value v)) (\<lambda>value.
                and_then (Cvar_ValueToStr fp v 8192 (cv_reset v)) (\<lambda>reset.
                and_then (Cvar_ValueToStr fp v 8192 (cv_latched v)) (\<lambda>latch. Inr (True, S))))
           else and_then (Cmd_Argv t 1) (\<lambda>arg.
                  and_then (Cvar_Set2 fp (case cv_name v of None \<Rightarrow> [] | Some n \<Rightarrow> n) (Some arg) False S)
                    (\<lambda>S'. Inr (True, S'))))"

definition Cvar_Toggle_f :: "fpu \<Rightarrow> tokenizer \<Rightarrow> cvarsys \<Rightarrow> fault + cvarsys" where
  "Cvar_Toggle_f fp t S =
     (if Cmd_Argc t \<noteq> 2 then Inr S
      else and_then (Cmd_Argv t 1) (\<lambda>name.
             and_then (Cvar_VariableValue fp S name) (\<lambda>x.
               Cvar_Set2 fp name (Some (int_dec (if fp_to_int fp x = 0 then 1 else 0))) False S)))"

text \<open>
  \<open>Cvar_Set_f\<close> joins the arguments from the second on.  The length it counts for one is
  \<open>strlen\<close> of the address behind the first character, two less than what the argument and its
  blank take; for an empty argument this is the string behind its terminator.
\<close>

definition argv_pointer :: "tokenizer \<Rightarrow> int \<Rightarrow> nat option" where
  "argv_pointer t arg =
     (let argc = Cmd_Argc t in
      if int argc \<le> arg then None
      else cmd_argv t ! nat (int (cmd_argc t) - int argc + arg))"

definition tail_length :: "tokenizer \<Rightarrow> int \<Rightarrow> string \<Rightarrow> fault + int" where
  "tail_length t i arg =
     (if arg \<noteq> [] then Inr (int (length arg) - 1)
      else case argv_pointer t i of
          None \<Rightarrow> Inl OUT_OF_BOUNDS
        | Some p \<Rightarrow>
            if NUL \<in> set (drop (p + 1) (cmd_tokenized t))
            then Inr (int (length (cstr (drop (p + 1) (cmd_tokenized t)))))
            else Inl OUT_OF_BOUNDS)"

primrec combine_loop :: "nat \<Rightarrow> int \<Rightarrow> int \<Rightarrow> tokenizer \<Rightarrow> string \<Rightarrow> fault + string" where
  "combine_loop 0 i l t combined = Inr combined"
| "combine_loop (Suc n) i l t combined =
     and_then (Cmd_Argv t i) (\<lambda>arg. and_then (tail_length t i arg) (\<lambda>len.
       if 8192 - 2 \<le> l + len then Inr combined
       else
         let joined = combined @ arg @ (if n = 0 then [] else '' '') in
         if 8192 \<le> length joined then Inl OUT_OF_BOUNDS
         else combine_loop n (i + 1) (l + len) t joined))"

definition Cvar_Set_f :: "fpu \<Rightarrow> tokenizer \<Rightarrow> cvarsys \<Rightarrow> fault + cvarsys" where
  "Cvar_Set_f fp t S =
     (if Cmd_Argc t < 3 then Inr S
      else and_then (combine_loop (Cmd_Argc t - 2) 2 0 t []) (\<lambda>combined.
             and_then (Cmd_Argv t 1) (\<lambda>name. Cvar_Set2 fp name (Some combined) False S)))"

definition flag_named :: "16 word \<Rightarrow> tokenizer \<Rightarrow> cvarsys \<Rightarrow> fault + cvarsys" where
  "flag_named flag t S =
     and_then (Cmd_Argv t 1) (\<lambda>name.
       case Cvar_FindVar S name of None \<Rightarrow> Inr S
       | Some i \<Rightarrow> Inr (set_var i (Cvar_AddFlags flag (var_at S i)) S))"

definition Cvar_SetU_f :: "fpu \<Rightarrow> tokenizer \<Rightarrow> cvarsys \<Rightarrow> fault + cvarsys" where
  "Cvar_SetU_f fp t S =
     (if Cmd_Argc t < 3 then Inr S
      else and_then (Cvar_Set_f fp t S) (flag_named CVAR_USERINFO t))"

definition Cvar_SetS_f :: "fpu \<Rightarrow> tokenizer \<Rightarrow> cvarsys \<Rightarrow> fault + cvarsys" where
  "Cvar_SetS_f fp t S =
     (if Cmd_Argc t < 3 then Inr S
      else and_then (Cvar_Set_f fp t S) (flag_named CVAR_SERVERINFO t))"

definition Cvar_SetA_f :: "fpu \<Rightarrow> tokenizer \<Rightarrow> cvarsys \<Rightarrow> fault + cvarsys" where
  "Cvar_SetA_f fp t S =
     (if Cmd_Argc t < 3 then Inr S
      else and_then (Cvar_Set_f fp t S) (\<lambda>S1. and_then (Cmd_Argv t 1) (\<lambda>name.
        case Cvar_FindVar S1 name of None \<Rightarrow> Inr S1
        | Some i \<Rightarrow> Inr ((set_var i (Cvar_AddFlags CVAR_ARCHIVE (var_at S1 i)) S1)\<lparr>cvar_archivedset := True\<rparr>))))"

definition Cvar_SetFromCvar_f :: "fpu \<Rightarrow> tokenizer \<Rightarrow> cvarsys \<Rightarrow> fault + cvarsys" where
  "Cvar_SetFromCvar_f fp t S =
     (if Cmd_Argc t < 3 then Inr S
      else and_then (Cmd_Argv t 2) (\<lambda>source.
        case Cvar_FindVar S source of None \<Rightarrow> Inr S
        | Some i \<Rightarrow>
            and_then (Cvar_ValueToStr fp (var_at S i) 8192 (cv_value (var_at S i))) (\<lambda>value.
            and_then (Cmd_Argv t 1) (\<lambda>name. Cvar_Set2 fp name (Some value) False S))))"

definition Cvar_SetToTime_f :: "fpu \<Rightarrow> int \<Rightarrow> tokenizer \<Rightarrow> cvarsys \<Rightarrow> fault + cvarsys" where
  "Cvar_SetToTime_f fp now t S =
     (if Cmd_Argc t \<noteq> 2 then Inr S
      else and_then (Cmd_Argv t 1) (\<lambda>name. Cvar_Set2 fp name (Some (int_dec now)) False S))"

definition Cvar_Reset_f :: "tokenizer \<Rightarrow> cvarsys \<Rightarrow> fault + cvarsys" where
  "Cvar_Reset_f t S =
     (if Cmd_Argc t \<noteq> 2 then Inr S
      else and_then (Cmd_Argv t 1) (\<lambda>name. Cvar_Reset name S))"

section \<open>Listings\<close>

definition cvar_key :: "cvar \<Rightarrow> string" where
  "cvar_key v = (case cv_name v of None \<Rightarrow> [] | Some n \<Rightarrow> n)"

text \<open>\<open>Cvar_InfoString\<close>: the flagged variables, in the order of the list.\<close>

primrec info_loop :: "fpu \<Rightarrow> 16 word \<Rightarrow> cvarsys \<Rightarrow> nat list \<Rightarrow> string \<Rightarrow> fault + string" where
  "info_loop fp flag S [] info = Inr info"
| "info_loop fp flag S (i # is) info =
     (let v = var_at S i in
      if has_flag flag (cv_flags v)
      then and_then (if cv_type v \<noteq> CVAR_BOOL then Cvar_ValueToStr fp v 8192 (cv_value v)
                     else and_then (get_byte (cv_value v)) (\<lambda>w. Inr (int_dec (uint w)))) (\<lambda>value.
             case Info_SetValueForKey info (cvar_key v) value of
               None \<Rightarrow> Inl OUT_OF_BOUNDS | Some info' \<Rightarrow> info_loop fp flag S is info')
      else info_loop fp flag S is info)"

definition Cvar_InfoString :: "fpu \<Rightarrow> 16 word \<Rightarrow> cvarsys \<Rightarrow> fault + string" where
  "Cvar_InfoString fp flag S = info_loop fp flag S (cvar_vars S) []"

primrec big_info_loop :: "fpu \<Rightarrow> 16 word \<Rightarrow> cvarsys \<Rightarrow> nat list \<Rightarrow> string \<Rightarrow> fault + string" where
  "big_info_loop fp flag S [] info = Inr info"
| "big_info_loop fp flag S (i # is) info =
     (let v = var_at S i in
      if has_flag flag (cv_flags v)
      then and_then (if cv_type v \<noteq> CVAR_BOOL then Cvar_ValueToStr fp v 8192 (cv_value v)
                     else and_then (get_byte (cv_value v)) (\<lambda>w. Inr (int_dec (uint w)))) (\<lambda>value.
             case BigInfo_SetValueForKey (Some info) (Some (cvar_key v)) (Some value) of
               None \<Rightarrow> Inl OUT_OF_BOUNDS | Some info' \<Rightarrow> big_info_loop fp flag S is info')
      else big_info_loop fp flag S is info)"

definition Cvar_InfoString_Big ::
  "fpu \<Rightarrow> 16 word \<Rightarrow> char list \<Rightarrow> int \<Rightarrow> cvarsys \<Rightarrow> fault + char list" where
  "Cvar_InfoString_Big fp flag buf len S =
     and_then (big_info_loop fp flag S (cvar_vars S) []) (\<lambda>info.
       case Q_strncpyz buf 0 info len of Inl e \<Rightarrow> Inl (COM_ERROR e) | Inr b \<Rightarrow> Inr b)"

text \<open>The lines \<open>Cvar_WriteVariables\<close> writes; a line of more than 8191 characters is left out.\<close>

definition seta_line :: "string \<Rightarrow> string \<Rightarrow> string" where
  "seta_line name value = ''seta '' @ name @ '' '' @ [DQUOTE] @ value @ [DQUOTE, NEWLINE]"

primrec write_loop :: "fpu \<Rightarrow> cvarsys \<Rightarrow> nat list \<Rightarrow> fault + string list" where
  "write_loop fp S [] = Inr []"
| "write_loop fp S (i # is) =
     (let v = var_at S i in
      if has_flag CVAR_ARCHIVE (cv_flags v)
      then and_then (Cvar_ValueToStr fp v 8192 (cv_value v)) (\<lambda>bufferval.
           and_then (Cvar_ValueToStr fp v 8192 (cv_latched v)) (\<lambda>bufferlatch.
           and_then (write_loop fp S is) (\<lambda>rest.
             let written = (if bufferlatch \<noteq> [] then bufferlatch else bufferval) in
             Inr (if 8192 < int (length (cvar_key v)) + int (length written) + 10 then rest
                  else sprintf_to 8192 (seta_line (cvar_key v) written) # rest))))
      else write_loop fp S is)"

definition Cvar_WriteVariables :: "fpu \<Rightarrow> cvarsys \<Rightarrow> fault + string list" where
  "Cvar_WriteVariables fp S = write_loop fp S (cvar_vars S)"

section \<open>Restart\<close>

definition Cvar_AddFlagsByName :: "string \<Rightarrow> 16 word \<Rightarrow> cvarsys \<Rightarrow> fault + cvarsys" where
  "Cvar_AddFlagsByName var_name flags S =
     (case Cvar_FindVar S var_name of
        None \<Rightarrow> Inl OUT_OF_BOUNDS
      | Some i \<Rightarrow> Inr (set_var i (Cvar_AddFlags flags (var_at S i)) S))"

definition Cvar_ClearFlagsForEach :: "16 word \<Rightarrow> cvarsys \<Rightarrow> cvarsys" where
  "Cvar_ClearFlagsForEach flags S =
     fold (\<lambda>i S'. set_var i (Cvar_ClearFlags flags (var_at S' i)) S') (cvar_vars S) S"

text \<open>
  \<open>Cvar_Restart_f\<close> clears a user-created variable where it stands.  It takes it out of the
  list but not out of its hash chain: the clearing ends the chain there.
\<close>

definition cut_after :: "nat \<Rightarrow> nat list \<Rightarrow> nat list" where
  "cut_after i chain = (if i \<in> set chain then takeWhile (\<lambda>j. j \<noteq> i) chain @ [i] else chain)"

primrec restart_loop :: "nat list \<Rightarrow> cvarsys \<Rightarrow> fault + cvarsys" where
  "restart_loop [] S = Inr S"
| "restart_loop (i # is) S =
     (let v = var_at S i in
      if has_flag (CVAR_ROM OR CVAR_INIT OR CVAR_NORESTART) (cv_flags v) then restart_loop is S
      else if has_flag CVAR_USER_CREATED (cv_flags v)
      then restart_loop is ((set_var i zero_cvar S)
             \<lparr>cvar_vars := removeAll i (cvar_vars S), hashTable := map (cut_after i) (hashTable S)\<rparr>)
      else and_then (Cvar_Reset (cvar_key v) S) (restart_loop is))"

definition Cvar_Restart_f :: "cvarsys \<Rightarrow> fault + cvarsys" where
  "Cvar_Restart_f S = restart_loop (cvar_vars S) S"

end
