(* ===== verification/CvarSafety.thy ===== *)
theory CvarSafety
  imports CvarCommands
begin

text \<open>
  What holds of the console variables in every state the operations reach: the cells of a
  variable fit its type, its value and latched value lie in its domain, its name is unique
  (ignoring case) and the hash chains hold exactly the variables of the list.
\<close>

section \<open>Names and hashing\<close>

definition ok_name :: "string \<Rightarrow> bool" where
  "ok_name s \<longleftrightarrow> nul_free s \<and> length s < 99999"

lemma same_name_folded: "ok_name a \<Longrightarrow> ok_name b \<Longrightarrow> same_name a b \<longleftrightarrow> folded a = folded b"
  by (simp add: ok_name_def Q_stricmp_zero_iff)

lemma lower_of_fold:
  assumes "fold_up (sc c) = fold_up (sc d)"
  shows "tolower_c c = tolower_c d"
  using assms uc_range [of c] uc_range [of d]
  by (auto simp: fold_up_def sc_alt tolower_c_def Q_isupper_def split: if_splits)
    (metis char_of_uc diff_add_cancel)+

lemma hash_folded: "folded a = folded b \<Longrightarrow> hash_from i a = hash_from i b"
proof (induction a arbitrary: b i)
  case Nil
  then show ?case by (cases b) (simp_all add: folded_def)
next
  case (Cons c a)
  then obtain d t where b: "b = d # t" "fold_up (sc c) = fold_up (sc d)" "folded a = folded t"
    by (cases b) (auto simp: folded_def simp del: sc_inj)
  then show ?case using Cons.IH [OF b(3)] lower_of_fold [OF b(2)] by simp
qed

lemma same_name_hash:
  assumes "ok_name a" "ok_name b" "same_name a b"
  shows "generateHashValue a = generateHashValue b"
proof -
  have "folded a = folded b" using same_name_folded assms by blast
  then show ?thesis using hash_folded [of a b 0] by (simp add: generateHashValue_def)
qed

lemma hash_range: "generateHashValue s < 512"
proof -
  have "s32 (hash_from 0 s) AND 511 \<le> 511" by (rule AND_upper2) simp
  then show ?thesis by (simp add: generateHashValue_def FILE_HASH_SIZE_def nat_less_iff)
qed

section \<open>Cells that fit a type\<close>

definition is_word :: "cell \<Rightarrow> bool" where
  "is_word c \<longleftrightarrow> (\<exists>w. c = Cell w)"

definition is_text :: "cell \<Rightarrow> bool" where
  "is_text c \<longleftrightarrow> (\<exists>s. c = Text s) \<or> c = NULL"

definition fits_type :: "cvarType \<Rightarrow> ounion \<Rightarrow> bool" where
  "fits_type t u \<longleftrightarrow> length u = 4 \<and> (if t = CVAR_STRING then is_text (u ! 0) else is_word (u ! 0)) \<and>
     is_word (u ! 1) \<and> is_word (u ! 2) \<and> is_word (u ! 3)"

definition limited :: "cvarType \<Rightarrow> bool" where
  "limited t \<longleftrightarrow> t \<in> {CVAR_FLOAT, CVAR_VEC2, CVAR_VEC3, CVAR_VEC4, CVAR_INT}"

definition limits_fit :: "cvarType \<Rightarrow> cell \<Rightarrow> cell \<Rightarrow> bool" where
  "limits_fit t lo hi \<longleftrightarrow>
     (limited t \<longrightarrow> is_word lo \<and> is_word hi) \<and> (t = CVAR_ENUM \<longrightarrow> (\<exists>ns. hi = Names ns))"

definition var_typed :: "cvar \<Rightarrow> bool" where
  "var_typed v \<longleftrightarrow> fits_type (cv_type v) (cv_value v) \<and> fits_type (cv_type v) (cv_latched v) \<and>
     fits_type (cv_type v) (cv_reset v) \<and> limits_fit (cv_type v) (cv_min v) (cv_max v)"

named_theorems cell_simps \<open>reading and writing the cells of a union\<close>

lemma as_word_word [cell_simps]: "is_word c \<Longrightarrow> \<exists>w. as_word c = Inr w \<and> c = Cell w"
  by (auto simp: is_word_def as_word_def)

lemma as_word_Cell [simp]: "as_word (Cell w) = Inr w"
  by (simp add: as_word_def)

lemma is_word_Cell [simp]: "is_word (Cell w)"
  by (simp add: is_word_def)

lemma is_text_Text [simp]: "is_text (Text s)" "is_text NULL"
  by (simp_all add: is_text_def)

lemma as_text_simps [simp]: "as_text (Text s) = Inr (Some s)" "as_text NULL = Inr None"
  by (simp_all add: as_text_def)

lemma as_names_simps [simp]: "as_names (Names ns) = Inr (Some ns)"
  by (simp add: as_names_def)

lemma four_cells:
  assumes "length u = 4"
  obtains a b c d where "u = [a, b, c, d]"
  using assms by (auto simp: numeral_eq_Suc length_Suc_conv)

text \<open>A union of a type is one of these.\<close>

lemma fits_cases:
  assumes "fits_type t u"
  obtains (str) s b c d where "t = CVAR_STRING" "u = [Text s, Cell b, Cell c, Cell d]"
  | (null) b c d where "t = CVAR_STRING" "u = [NULL, Cell b, Cell c, Cell d]"
  | (words) a b c d where "t \<noteq> CVAR_STRING" "u = [Cell a, Cell b, Cell c, Cell d]"
proof -
  have "length u = 4" using assms by (simp add: fits_type_def)
  then obtain a b c d where u: "u = [a, b, c, d]" by (rule four_cells)
  then have w: "is_word b" "is_word c" "is_word d" "if t = CVAR_STRING then is_text a else is_word a"
    using assms by (auto simp: fits_type_def numeral_eq_Suc)
  then show ?thesis using str null words unfolding is_word_def is_text_def u by (metis (full_types))
qed

lemma fits_words [intro]:
  "t \<noteq> CVAR_STRING \<Longrightarrow> length ws \<le> 4 \<Longrightarrow> fits_type t (word_union ws)"
  by (auto simp: fits_type_def word_union_def nth_append is_word_def)

lemma fits_text [intro]: "fits_type CVAR_STRING (text_union s)"
  by (simp add: fits_type_def text_union_def)

lemma fits_put_cells:
  assumes "fits_type t val" "fits_type t u" "n \<le> 4" "t = CVAR_STRING \<Longrightarrow> 0 < n"
  shows "fits_type t (put_cells n val u)"
  using assms(3,4)
  by (cases rule: fits_cases [OF assms(1)]; cases rule: fits_cases [OF assms(2)])
    (auto simp: fits_type_def put_cells_def numeral_eq_Suc le_Suc_eq nth_append)

section \<open>Values in their domain\<close>

definition the_word :: "cell \<Rightarrow> 32 word" where
  "the_word c = (case c of Cell w \<Rightarrow> w | _ \<Rightarrow> 0)"

lemma the_word_Cell [simp]: "the_word (Cell w) = w"
  by (simp add: the_word_def)

definition float_in :: "cell \<Rightarrow> cell \<Rightarrow> cell \<Rightarrow> bool" where
  "float_in lo hi c \<longleftrightarrow>
     \<not> fl_isnan (the_word c) \<and> \<not> out_of_limits (the_word lo) (the_word hi) (the_word c)"

text \<open>
  The domain of a variable.  An enumeration may be up to \<open>k\<close> past its last name: the default it is
  registered with may be one past it, and no operation goes further.
\<close>

definition in_domain :: "nat \<Rightarrow> cvarType \<Rightarrow> cell \<Rightarrow> cell \<Rightarrow> ounion \<Rightarrow> bool" where
  "in_domain k t lo hi u =
     (case t of
        CVAR_BOOL \<Rightarrow> the_word (u ! 0) AND 255 \<in> {0, 1}
      | CVAR_FLOAT \<Rightarrow> float_in lo hi (u ! 0)
      | CVAR_VEC2 \<Rightarrow> list_all (float_in lo hi) (take 2 u)
      | CVAR_VEC3 \<Rightarrow> list_all (float_in lo hi) (take 3 u)
      | CVAR_VEC4 \<Rightarrow> list_all (float_in lo hi) (take 4 u)
      | CVAR_INT \<Rightarrow> sint (the_word lo) \<le> sint (the_word (u ! 0)) \<and> sint (the_word (u ! 0)) \<le> sint (the_word hi)
      | CVAR_ENUM \<Rightarrow> (case hi of Names ns \<Rightarrow> 0 \<le> sint (the_word (u ! 0)) \<and>
                        sint (the_word (u ! 0)) < int (length ns + k) | _ \<Rightarrow> False)
      | CVAR_STRING \<Rightarrow> True
      | CVAR_COLOR \<Rightarrow> True)"

lemma in_domain_mono: "in_domain 0 t lo hi u \<Longrightarrow> in_domain k t lo hi u"
  by (cases t) (auto simp: in_domain_def split: cell.splits)

definition var_in_domain :: "nat \<Rightarrow> cvar \<Rightarrow> bool" where
  "var_in_domain k v \<longleftrightarrow> in_domain k (cv_type v) (cv_min v) (cv_max v) (cv_value v) \<and>
     in_domain k (cv_type v) (cv_min v) (cv_max v) (cv_latched v)"

definition cells_of :: "cvarType \<Rightarrow> nat" where
  "cells_of t = (if vec_dim t = 0 then 1 else vec_dim t)"

lemma cells_of_bounds [simp]: "0 < cells_of t" "cells_of t \<le> 4"
  by (simp_all add: cells_of_def vec_dim_def split: cvarType.split)

lemma enum_scan_iff: "enum_scan names i k \<noteq> None \<longleftrightarrow> i \<le> k \<and> k < i + int (length names)"
  by (induction names arbitrary: i) auto

text \<open>Only the cells a type uses count.\<close>

lemma domain_put:
  assumes "length val = 4" "length u = 4" "t \<noteq> CVAR_BOOL"
  shows "in_domain k t lo hi (put_cells (cells_of t) val u) = in_domain k t lo hi val"
proof -
  obtain a b c d where val: "val = [a, b, c, d]" using assms(1) by (rule four_cells)
  obtain e f g h where u: "u = [e, f, g, h]" using assms(2) by (rule four_cells)
  show ?thesis using assms(3) unfolding val u
    by (cases t) (simp_all add: in_domain_def put_cells_def cells_of_def vec_dim_def numeral_eq_Suc
        split: cell.split)
qed

text \<open>What a setter does: nothing, or both unions replaced by ones that fit, in the domain.\<close>

definition set_result :: "cvar \<Rightarrow> fault + int \<times> cvar \<Rightarrow> bool" where
  "set_result v r \<longleftrightarrow>
     (\<exists>code u l. r = Inr (code, v\<lparr>cv_value := u, cv_latched := l\<rparr>) \<and>
        fits_type (cv_type v) u \<and> fits_type (cv_type v) l \<and>
        (\<forall>k. var_in_domain k v \<longrightarrow> in_domain k (cv_type v) (cv_min v) (cv_max v) u \<and>
           in_domain k (cv_type v) (cv_min v) (cv_max v) l))"

lemma set_resultI:
  assumes "fits_type (cv_type v) u" "fits_type (cv_type v) l"
    and "\<And>k. var_in_domain k v \<Longrightarrow> in_domain k (cv_type v) (cv_min v) (cv_max v) u"
    and "\<And>k. var_in_domain k v \<Longrightarrow> in_domain k (cv_type v) (cv_min v) (cv_max v) l"
  shows "set_result v (Inr (code, v\<lparr>cv_value := u, cv_latched := l\<rparr>))"
  using assms unfolding set_result_def by blast

lemma set_result_same: "var_typed v \<Longrightarrow> set_result v (Inr (code, v))"
  unfolding set_result_def
  by (intro exI [of _ code] exI [of _ "cv_value v"] exI [of _ "cv_latched v"])
    (simp add: var_typed_def var_in_domain_def)

lemma set_result_store:
  assumes v: "var_typed v" and val: "fits_type (cv_type v) val" and t: "cv_type v \<noteq> CVAR_BOOL"
    and n: "n = cells_of (cv_type v)" and dom: "in_domain 0 (cv_type v) (cv_min v) (cv_max v) val"
  shows "set_result v (Inr (code, store_cells latched n val v))"
proof -
  have V: "fits_type (cv_type v) (cv_value v)" "fits_type (cv_type v) (cv_latched v)"
    using v by (simp_all add: var_typed_def)
  have L: "length val = 4" "length (cv_value v) = 4" "length (cv_latched v) = 4"
    using V val by (simp_all add: fits_type_def)
  have "fits_type (cv_type v) (put_cells n val u)" if "fits_type (cv_type v) u" for u
    using fits_put_cells [OF val that] n by simp
  moreover have "in_domain k (cv_type v) (cv_min v) (cv_max v) (put_cells n val u)" if "length u = 4" for k u
    using domain_put [OF L(1) that t] in_domain_mono [OF dom] n by simp
  ultimately show ?thesis
    unfolding set_result_def store_cells_def using V L
    by (intro exI [of _ code] exI [of _ "if latched then cv_value v else put_cells n val (cv_value v)"]
        exI [of _ "put_cells n val (cv_latched v)"])
      (simp add: var_in_domain_def)
qed

lemma put_byte_word:
  "put_byte b [Cell w, x, y, z] = Inr [Cell ((w AND 0xFFFFFF00) OR (b AND 255)), x, y, z]"
  by (simp add: put_byte_def)

lemma low_byte_put: "((w AND 0xFFFFFF00) OR (b AND 255)) AND 255 = b AND (255 :: 32 word)"
proof -
  have "(0xFFFFFF00 AND 255) = (0 :: 32 word)" by simp
  then have "w AND 0xFFFFFF00 AND 255 = 0" by (metis and.assoc and_zero_eq)
  then show ?thesis by (simp add: bit.conj_disj_distrib2 and.assoc)
qed

lemma set_bool_ok:
  assumes v: "var_typed v" and t: "cv_type v = CVAR_BOOL" and val: "fits_type CVAR_BOOL val"
  shows "set_result v (set_bool latched v val)"
proof -
  have V: "fits_type CVAR_BOOL (cv_value v)" "fits_type CVAR_BOOL (cv_latched v)"
    using v t by (simp_all add: var_typed_def)
  obtain a b c d where u: "cv_value v = [Cell a, Cell b, Cell c, Cell d]"
    using V(1) by (cases rule: fits_cases) auto
  obtain e f g h where l: "cv_latched v = [Cell e, Cell f, Cell g, Cell h]"
    using V(2) by (cases rule: fits_cases) auto
  obtain p q r s where val: "val = [Cell p, Cell q, Cell r, Cell s]"
    using val by (cases rule: fits_cases) auto
  let ?b = "if p AND 255 \<noteq> 0 then 1 else 0 :: 32 word"
  let ?put = "\<lambda>w. (w AND 0xFFFFFF00) OR (?b AND 255)"
  have fit: "fits_type CVAR_BOOL [Cell w, Cell x, Cell y, Cell z]" for w x y z
    by (simp add: fits_type_def numeral_eq_Suc)
  have dom: "in_domain k CVAR_BOOL lo hi [Cell (?put w), Cell x, Cell y, Cell z]" for k lo hi w x y z
    using low_byte_put [of w ?b] by (simp add: in_domain_def)
  have "set_bool latched v val =
      (if (a AND 255 \<noteq> 0) = (p AND 255 \<noteq> 0) then Inr (0, v)
       else Inr (1, v\<lparr>cv_value := (if latched then cv_value v else [Cell (?put a), Cell b, Cell c, Cell d]),
                     cv_latched := [Cell (?put e), Cell f, Cell g, Cell h]\<rparr>))"
    by (simp add: set_bool_def get_bool_def u l val put_byte_word Let_def)
  moreover have "set_result v (Inr (1, v\<lparr>cv_value := (if latched then cv_value v
      else [Cell (?put a), Cell b, Cell c, Cell d]), cv_latched := [Cell (?put e), Cell f, Cell g, Cell h]\<rparr>))"
    using V(1) fit dom by (intro set_resultI) (simp_all add: t var_in_domain_def)
  ultimately show ?thesis using set_result_same [OF v] by presburger
qed

lemma set_scalar_ok:
  assumes v: "var_typed v" and val: "fits_type (cv_type v) val"
  shows "cv_type v = CVAR_FLOAT \<Longrightarrow> set_result v (set_float latched v val)"
    "cv_type v = CVAR_COLOR \<Longrightarrow> set_result v (set_color latched v val)"
    "cv_type v = CVAR_ENUM \<Longrightarrow> set_result v (set_enum latched v val)"
    "cv_type v = CVAR_INT \<Longrightarrow> set_result v (set_int latched v val)"
    "cv_type v = CVAR_STRING \<Longrightarrow> set_result v (set_string latched v val)"
proof -
  note same = set_result_same [OF v]
  note store = set_result_store [OF v val, where n = 1]
  have V: "fits_type (cv_type v) (cv_value v)" "limits_fit (cv_type v) (cv_min v) (cv_max v)"
    using v by (simp_all add: var_typed_def)
  have words: "\<exists>x w. as_word (cv_value v ! 0) = Inr x \<and> val ! 0 = Cell w" if "cv_type v \<noteq> CVAR_STRING"
    using V(1) val that by (auto simp: fits_type_def is_word_def)
  have lims: "\<exists>a b. cv_min v = Cell a \<and> cv_max v = Cell b" if "limited (cv_type v)"
    using V(2) that by (auto simp: limits_fit_def is_word_def)
  show "cv_type v = CVAR_FLOAT \<Longrightarrow> set_result v (set_float latched v val)"
    using words lims same store
    by (auto simp: set_float_def limited_def in_domain_def float_in_def cells_of_def vec_dim_def)
  show "cv_type v = CVAR_COLOR \<Longrightarrow> set_result v (set_color latched v val)"
    using words store by (auto simp: set_color_def in_domain_def cells_of_def vec_dim_def)
  show "cv_type v = CVAR_ENUM \<Longrightarrow> set_result v (set_enum latched v val)"
    using words V(2) same store enum_scan_iff [of _ 0]
    by (auto simp: set_enum_def limits_fit_def in_domain_def cells_of_def vec_dim_def)
  show "cv_type v = CVAR_INT \<Longrightarrow> set_result v (set_int latched v val)"
    using words lims same store
    by (auto simp: set_int_def limited_def in_domain_def cells_of_def vec_dim_def)
  show "cv_type v = CVAR_STRING \<Longrightarrow> set_result v (set_string latched v val)"
    using V(1) val same store
    by (auto simp: set_string_def fits_type_def is_text_def in_domain_def cells_of_def vec_dim_def)
qed

lemma as_words_ok: "list_all is_word u \<Longrightarrow> as_words u = Inr (map the_word u)"
  by (induction u) (auto simp: is_word_def)

lemma set_vec_ok:
  assumes v: "var_typed v" and val: "fits_type (cv_type v) val" and n: "vec_dim (cv_type v) = n" "0 < n"
  shows "set_result v (set_vec n latched v val)"
proof -
  have t: "cv_type v \<noteq> CVAR_STRING" "cv_type v \<noteq> CVAR_BOOL" "limited (cv_type v)" "n = cells_of (cv_type v)"
    using n by (auto simp: vec_dim_def limited_def cells_of_def split: cvarType.splits)
  obtain a b where lims: "cv_min v = Cell a" "cv_max v = Cell b"
    using v t(3) by (auto simp: var_typed_def limits_fit_def is_word_def)
  have "list_all is_word val"
    using val t(1) by (cases rule: fits_cases) auto
  then have w: "as_words (take n val) = Inr (map the_word (take n val))"
    by (metis as_words_ok list_all_append append_take_drop_id)
  have "in_domain 0 (cv_type v) (cv_min v) (cv_max v) val"
    if "\<not> (\<exists>w \<in> set (map the_word (take n val)). fl_isnan w \<or> out_of_limits a b w)"
    using that n by (auto simp: in_domain_def vec_dim_def float_in_def list_all_iff lims split: cvarType.splits)
  then show ?thesis
    using set_result_same [OF v] set_result_store [OF v val t(2,4)]
    by (simp add: set_vec_def w lims)
qed

lemma set_switch_ok:
  "var_typed v \<Longrightarrow> fits_type (cv_type v) val \<Longrightarrow> set_result v (set_switch latched v val)"
  using set_bool_ok [of v val latched] set_scalar_ok [of v val latched] set_vec_ok [of v val _ latched]
  by (cases "cv_type v") (simp_all add: set_switch_def vec_dim_def)

section \<open>The table of variables\<close>

abbreviation key_at :: "cvarsys \<Rightarrow> nat \<Rightarrow> string" where
  "key_at S i \<equiv> cvar_key (var_at S i)"

abbreviation count :: "cvarsys \<Rightarrow> nat" where
  "count S \<equiv> length (cvar_indexes S)"

definition var_cells :: "cvar \<Rightarrow> bool" where
  "var_cells v \<longleftrightarrow> var_typed v \<and> (has_flag CVAR_USER_CREATED (cv_flags v) \<longrightarrow> cv_type v = CVAR_STRING)"

definition var_ok :: "cvar \<Rightarrow> bool" where
  "var_ok v \<longleftrightarrow> (\<exists>nm. cv_name v = Some nm \<and> ok_name nm) \<and> var_cells v"

definition chains_ok :: "cvarsys \<Rightarrow> bool" where
  "chains_ok S \<longleftrightarrow> length (hashTable S) = 512 \<and>
     (\<forall>h < 512. hashTable S ! h = filter (\<lambda>i. generateHashValue (key_at S i) = h) (cvar_vars S))"

definition cheats_ok :: "cvarsys \<Rightarrow> bool" where
  "cheats_ok S \<longleftrightarrow> (\<exists>c < count S. cvar_cheats S = Some c \<and> cv_type (var_at S c) = CVAR_BOOL \<and>
     \<not> has_flag CVAR_USER_CREATED (cv_flags (var_at S c)))"

text \<open>
  What every state keeps: the cells fit, the list and the chains name variables, and the flag
  that allows cheating is there.
\<close>

definition typed_ok :: "cvarsys \<Rightarrow> bool" where
  "typed_ok S \<longleftrightarrow> (\<forall>v \<in> set (cvar_indexes S). var_cells v) \<and> set (cvar_vars S) \<subseteq> {..<count S} \<and>
     length (hashTable S) = 512 \<and> (\<forall>c \<in> set (hashTable S). set c \<subseteq> {..<count S}) \<and> cheats_ok S"

text \<open>
  What holds as long as no restart clears a variable: the list holds every variable, names are
  unique and each chain holds the variables that hash to it.
\<close>

definition cvars_ok :: "cvarsys \<Rightarrow> bool" where
  "cvars_ok S \<longleftrightarrow> cvar_vars S = rev [0..<count S] \<and> (\<forall>v \<in> set (cvar_indexes S). var_ok v) \<and>
     inj_on (\<lambda>i. folded (key_at S i)) {..<count S} \<and> chains_ok S \<and> cheats_ok S"

lemma cvars_okD:
  assumes "cvars_ok S"
  shows "cvar_vars S = rev [0..<count S]" "i < count S \<Longrightarrow> var_ok (var_at S i)"
    "i < count S \<Longrightarrow> j < count S \<Longrightarrow> folded (key_at S i) = folded (key_at S j) \<Longrightarrow> i = j"
    "chains_ok S" "cheats_ok S"
  using assms by (auto simp: cvars_ok_def inj_on_def)

lemma var_okD:
  assumes "var_ok v"
  shows "cv_name v = Some (cvar_key v)" "ok_name (cvar_key v)" "var_typed v"
    "has_flag CVAR_USER_CREATED (cv_flags v) \<Longrightarrow> cv_type v = CVAR_STRING"
  using assms by (auto simp: var_ok_def var_cells_def cvar_key_def)

lemma typed_okD:
  assumes "typed_ok S"
  shows "i < count S \<Longrightarrow> var_cells (var_at S i)" "i \<in> set (cvar_vars S) \<Longrightarrow> i < count S" "cheats_ok S"
    "c \<in> set (hashTable S) \<Longrightarrow> i \<in> set c \<Longrightarrow> i < count S" "length (hashTable S) = 512"
  using assms by (auto simp: typed_ok_def)

lemma var_cellsD:
  assumes "var_cells v"
  shows "var_typed v" "has_flag CVAR_USER_CREATED (cv_flags v) \<Longrightarrow> cv_type v = CVAR_STRING"
  using assms by (simp_all add: var_cells_def)

lemma cvars_typed_ok:
  assumes "cvars_ok S"
  shows "typed_ok S"
proof -
  have "length (hashTable S) = 512" "set (hashTable S ! h) \<subseteq> {..<count S}" if "h < 512" for h
    using assms that by (auto simp: cvars_ok_def chains_ok_def)
  then have "length (hashTable S) = 512 \<and> (\<forall>c \<in> set (hashTable S). set c \<subseteq> {..<count S})"
    using cvars_okD(4) [OF assms] by (metis chains_ok_def in_set_conv_nth)
  then show ?thesis using assms by (auto simp: typed_ok_def cvars_ok_def var_ok_def)
qed

lemma FindVar_range: "typed_ok S \<Longrightarrow> Cvar_FindVar S name = Some i \<Longrightarrow> i < count S"
  using typed_okD(4,5) [of S] hash_range [of name]
  by (auto simp: Cvar_FindVar_def find_Some_iff) (metis nth_mem)

lemma find_filter: "(\<And>x. P x \<Longrightarrow> Q x) \<Longrightarrow> List.find P (filter Q xs) = List.find P xs"
  by (induction xs) auto

text \<open>Looking up the hash chain is looking through the whole list.\<close>

lemma FindVar_list:
  assumes S: "cvars_ok S" and name: "ok_name name"
  shows "Cvar_FindVar S name = List.find (\<lambda>i. same_name name (key_at S i)) (cvar_vars S)"
proof -
  let ?h = "generateHashValue name"
  have chain: "hashTable S ! ?h = filter (\<lambda>i. generateHashValue (key_at S i) = ?h) (cvar_vars S)"
    using cvars_okD(4) [OF S] hash_range by (simp add: chains_ok_def)
  have k: "cv_name (var_at S i) = Some (key_at S i)" "ok_name (key_at S i)" if "i \<in> set (cvar_vars S)" for i
    using that cvars_okD(1) [OF S] var_okD(1,2) cvars_okD(2) [OF S] by auto
  have "Cvar_FindVar S name = List.find (\<lambda>i. i \<in> set (cvar_vars S) \<and> same_name name (key_at S i))
      (filter (\<lambda>i. generateHashValue (key_at S i) = ?h) (cvar_vars S))"
    unfolding Cvar_FindVar_def chain using k by (intro find_cong) auto
  also have "\<dots> = List.find (\<lambda>i. i \<in> set (cvar_vars S) \<and> same_name name (key_at S i)) (cvar_vars S)"
    using same_name_hash [OF name k(2)] by (intro find_filter) metis
  also have "\<dots> = List.find (\<lambda>i. same_name name (key_at S i)) (cvar_vars S)"
    by (intro find_cong) auto
  finally show ?thesis .
qed

lemma FindVar_Some:
  assumes S: "cvars_ok S" and name: "ok_name name"
  shows "Cvar_FindVar S name = Some i \<longleftrightarrow> i < count S \<and> folded name = folded (key_at S i)"
proof -
  have f: "same_name name (key_at S j) \<longleftrightarrow> folded name = folded (key_at S j)" if "j < count S" for j
    using same_name_folded [OF name var_okD(2) [OF cvars_okD(2) [OF S that]]] .
  show ?thesis
  proof
    assume "Cvar_FindVar S name = Some i"
    then have "i \<in> set (cvar_vars S)" "same_name name (key_at S i)"
      unfolding FindVar_list [OF assms] find_Some_iff by auto
    then show "i < count S \<and> folded name = folded (key_at S i)"
      using f cvars_okD(1) [OF S] by auto
  next
    assume i: "i < count S \<and> folded name = folded (key_at S i)"
    then have "List.find (\<lambda>i. same_name name (key_at S i)) (cvar_vars S) \<noteq> None"
      using f cvars_okD(1) [OF S] by (auto simp: find_None_iff)
    then obtain j where j: "List.find (\<lambda>i. same_name name (key_at S i)) (cvar_vars S) = Some j" by blast
    then have "j \<in> set (cvar_vars S)" "same_name name (key_at S j)"
      unfolding find_Some_iff by auto
    then have "j < count S" "same_name name (key_at S j)"
      using cvars_okD(1) [OF S] by auto
    then have "j = i" using f i cvars_okD(3) [OF S] by metis
    then show "Cvar_FindVar S name = Some i" using j FindVar_list [OF assms] by simp
  qed
qed

lemma FindVar_None:
  assumes "cvars_ok S" "ok_name name"
  shows "Cvar_FindVar S name = None \<longleftrightarrow> (\<forall>i < count S. folded name \<noteq> folded (key_at S i))"
  using FindVar_Some [OF assms] by (metis not_Some_eq)

section \<open>Changing one variable\<close>

lemma set_var_simps [simp]:
  "cvar_vars (set_var i v S) = cvar_vars S" "hashTable (set_var i v S) = hashTable S"
  "cvar_cheats (set_var i v S) = cvar_cheats S" "cheating_enabled (set_var i v S) = cheating_enabled S"
  "count (set_var i v S) = count S" "cvar_modifiedFlags (set_var i v S) = cvar_modifiedFlags S"
  "cvar_indexes (set_var i v S) = (cvar_indexes S)[i := v]"
  by (simp_all add: set_var_def)

lemma cvars_ok_counters [simp]:
  "cvars_ok (S\<lparr>cvar_modifiedFlags := m\<rparr>) = cvars_ok S" "cvars_ok (S\<lparr>cvar_archivedset := b\<rparr>) = cvars_ok S"
  by (simp_all add: cvars_ok_def chains_ok_def cheats_ok_def)

lemma typed_ok_counters [simp]:
  "typed_ok (S\<lparr>cvar_modifiedFlags := m\<rparr>) = typed_ok S" "typed_ok (S\<lparr>cvar_archivedset := b\<rparr>) = typed_ok S"
  by (simp_all add: typed_ok_def cheats_ok_def)

text \<open>A variable may be replaced by one whose cells fit.\<close>

lemma cheats_ok_replace:
  assumes S: "cheats_ok S" and i: "i < count S"
    and c: "cvar_cheats S = Some i \<Longrightarrow> cv_type v = CVAR_BOOL \<and> \<not> has_flag CVAR_USER_CREATED (cv_flags v)"
  shows "cheats_ok (set_var i v S)"
proof -
  obtain k where "k < count S" "cvar_cheats S = Some k" "cv_type (var_at S k) = CVAR_BOOL"
    "\<not> has_flag CVAR_USER_CREATED (cv_flags (var_at S k))"
    using S by (auto simp: cheats_ok_def)
  then show ?thesis using c i by (cases "k = i") (simp_all add: cheats_ok_def)
qed

lemma typed_ok_replace:
  assumes S: "typed_ok S" and i: "i < count S" and v: "var_cells v"
    and c: "cvar_cheats S = Some i \<Longrightarrow> cv_type v = CVAR_BOOL \<and> \<not> has_flag CVAR_USER_CREATED (cv_flags v)"
  shows "typed_ok (set_var i v S)"
proof -
  have "\<forall>w \<in> set ((cvar_indexes S)[i := v]). var_cells w"
    using S v by (auto simp: typed_ok_def dest!: set_update_subset_insert [THEN subsetD])
  then show ?thesis using S cheats_ok_replace [OF typed_okD(3) [OF S] i c] by (simp add: typed_ok_def)
qed

text \<open>A variable may be replaced by one of the same name, up to case.\<close>

lemma cvars_ok_replace:
  assumes S: "cvars_ok S" and i: "i < count S" and v: "var_ok v" "folded (cvar_key v) = folded (key_at S i)"
    and c: "cvar_cheats S = Some i \<Longrightarrow> cv_type v = CVAR_BOOL \<and> \<not> has_flag CVAR_USER_CREATED (cv_flags v)"
  shows "cvars_ok (set_var i v S)"
proof -
  have f: "folded (cvar_key ((cvar_indexes S)[i := v] ! j)) = folded (key_at S j)" for j
    using v(2) i by (cases "j = i") simp_all
  then have k: "generateHashValue (cvar_key ((cvar_indexes S)[i := v] ! j)) = generateHashValue (key_at S j)" for j
    unfolding generateHashValue_def using hash_folded by metis
  have "chains_ok (set_var i v S)"
    using cvars_okD(4) [OF S] by (simp add: chains_ok_def k)
  moreover have "cheats_ok (set_var i v S)" by (rule cheats_ok_replace [OF cvars_okD(5) [OF S] i c])
  moreover have "\<forall>w \<in> set ((cvar_indexes S)[i := v]). var_ok w"
    using S v(1) by (auto simp: cvars_ok_def dest!: set_update_subset_insert [THEN subsetD])
  ultimately show ?thesis using S by (simp add: cvars_ok_def f)
qed

lemma cheats_var:
  "typed_ok S \<Longrightarrow> cvar_cheats S = Some i \<Longrightarrow>
   cv_type (var_at S i) = CVAR_BOOL \<and> \<not> has_flag CVAR_USER_CREATED (cv_flags (var_at S i))"
  using typed_okD(3) [of S] by (auto simp: cheats_ok_def)

text \<open>Setting changes the two unions and the mark of one variable.\<close>

definition revalued :: "cvar \<Rightarrow> cvar \<Rightarrow> bool" where
  "revalued v v' \<longleftrightarrow> (\<exists>u l m. v' = v\<lparr>cv_value := u, cv_latched := l, cv_modified := m\<rparr>)"

lemma revalued_refl [simp]: "revalued v v"
  unfolding revalued_def by (rule exI [of _ "cv_value v"], rule exI [of _ "cv_latched v"],
      rule exI [of _ "cv_modified v"]) simp

lemma revalued_fields:
  assumes "revalued v v'"
  shows "cv_name v' = cv_name v" "cv_flags v' = cv_flags v" "cv_type v' = cv_type v" "cv_reset v' = cv_reset v"
    "cv_min v' = cv_min v" "cv_max v' = cv_max v" "cvar_key v' = cvar_key v"
  using assms by (auto simp: revalued_def cvar_key_def)

text \<open>What an operation that sets values leaves of the system.\<close>

definition sets_values :: "cvarsys \<Rightarrow> cvarsys \<Rightarrow> bool" where
  "sets_values S S' \<longleftrightarrow> count S' = count S \<and> cvar_vars S' = cvar_vars S \<and> hashTable S' = hashTable S \<and>
     cvar_cheats S' = cvar_cheats S \<and> cheating_enabled S' = cheating_enabled S \<and>
     (\<forall>i < count S. revalued (var_at S i) (var_at S' i))"

definition domains_ok :: "nat \<Rightarrow> cvarsys \<Rightarrow> bool" where
  "domains_ok k S \<longleftrightarrow> (\<forall>v \<in> set (cvar_indexes S). var_in_domain k v)"

lemma domains_ok_counters [simp]:
  "domains_ok k (S\<lparr>cvar_modifiedFlags := m\<rparr>) = domains_ok k S" "domains_ok k (S\<lparr>cvar_archivedset := b\<rparr>) = domains_ok k S"
  by (simp_all add: domains_ok_def)

lemma domains_ok_replace:
  "domains_ok k S \<Longrightarrow> (i < count S \<Longrightarrow> var_in_domain k v) \<Longrightarrow> domains_ok k (set_var i v S)"
  by (cases "i < count S")
    (auto simp: domains_ok_def list_update_beyond dest!: set_update_subset_insert [THEN subsetD])

text \<open>What any operation keeps: the cells, the table and the domains, each where it held.\<close>

definition still_ok :: "cvarsys \<Rightarrow> cvarsys \<Rightarrow> bool" where
  "still_ok S S' \<longleftrightarrow> typed_ok S' \<and> (cvars_ok S \<longrightarrow> cvars_ok S') \<and> (\<forall>k. domains_ok k S \<longrightarrow> domains_ok k S')"

lemma still_okD:
  assumes "still_ok S S'"
  shows "typed_ok S'" "cvars_ok S \<Longrightarrow> cvars_ok S'" "domains_ok k S \<Longrightarrow> domains_ok k S'"
  using assms by (simp_all add: still_ok_def)

lemma still_ok_refl [simp]: "still_ok S S \<longleftrightarrow> typed_ok S"
  by (simp add: still_ok_def)

lemma still_ok_trans: "still_ok S T \<Longrightarrow> still_ok T U \<Longrightarrow> still_ok S U"
  by (simp add: still_ok_def)

lemma still_ok_counters [simp]:
  "still_ok S (S'\<lparr>cvar_modifiedFlags := m\<rparr>) = still_ok S S'" "still_ok S (S'\<lparr>cvar_archivedset := b\<rparr>) = still_ok S S'"
  by (simp_all add: still_ok_def)

lemma still_ok_replace:
  assumes S: "typed_ok S" and i: "i < count S" and v: "var_cells v"
    and name: "cv_name v = cv_name (var_at S i)"
    and c: "cvar_cheats S = Some i \<Longrightarrow> cv_type v = CVAR_BOOL \<and> \<not> has_flag CVAR_USER_CREATED (cv_flags v)"
    and d: "\<And>k. var_in_domain k (var_at S i) \<Longrightarrow> var_in_domain k v"
  shows "still_ok S (set_var i v S)"
proof -
  have "cvars_ok (set_var i v S)" if "cvars_ok S"
  proof (rule cvars_ok_replace [OF that i _ _ c])
    show "var_ok v" using cvars_okD(2) [OF that i] v name by (simp add: var_ok_def)
    show "folded (cvar_key v) = folded (key_at S i)" by (simp add: cvar_key_def name)
  qed
  moreover have "domains_ok k (set_var i v S)" if "domains_ok k S" for k
  proof (rule domains_ok_replace [OF that])
    have "var_in_domain k (var_at S i)" using that i unfolding domains_ok_def by (metis nth_mem)
    then show "var_in_domain k v" by (rule d)
  qed
  ultimately show ?thesis using typed_ok_replace [OF S i v c] by (simp add: still_ok_def)
qed

lemma sets_values_refl [simp]: "sets_values S S"
  by (simp add: sets_values_def)

lemma revalued_trans: "revalued a b \<Longrightarrow> revalued b c \<Longrightarrow> revalued a c"
  unfolding revalued_def by (elim exE) (simp, blast)

lemma sets_values_trans: "sets_values S T \<Longrightarrow> sets_values T U \<Longrightarrow> sets_values S U"
  using revalued_trans by (fastforce simp: sets_values_def)

text \<open>An outcome: a new state that keeps the invariants, or a deliberate error of the program.\<close>

definition no_fault :: "fault + 'a \<Rightarrow> bool" where
  "no_fault r \<longleftrightarrow> r \<noteq> Inl OUT_OF_BOUNDS"

lemma get_bool_fits: "fits_type t u \<Longrightarrow> t \<noteq> CVAR_STRING \<Longrightarrow> \<exists>b. get_bool u = Inr b"
  by (auto simp: get_bool_def fits_type_def is_word_def)

lemma refused_ok: "typed_ok S \<Longrightarrow> \<exists>b. refused S v force = Inr b"
proof -
  assume S: "typed_ok S"
  obtain c where c: "c < count S" "cvar_cheats S = Some c" "cv_type (var_at S c) = CVAR_BOOL"
    using typed_okD(3) [OF S] by (auto simp: cheats_ok_def)
  have "fits_type CVAR_BOOL (cv_value (var_at S c))"
    using var_cellsD(1) [OF typed_okD(1) [OF S c(1)]] c(3) by (simp add: var_typed_def)
  then obtain b where "get_bool (cv_value (var_at S c)) = Inr b" using get_bool_fits by blast
  then show ?thesis by (auto simp: refused_def c(2))
qed

lemma SetVariant_ok:
  assumes S: "typed_ok S" and i: "i < count S" and val: "fits_type (cv_type (var_at S i)) val"
  obtains code S' where "Cvar_SetVariant (Some i) val force S = Inr (code, S')" "still_ok S S'"
    "sets_values S S'"
proof -
  let ?v = "var_at S i"
  let ?latch = "\<not> force \<and> has_flag CVAR_LATCH (cv_flags ?v)"
  have v: "var_cells ?v" by (rule typed_okD(1) [OF S i])
  obtain no where no: "refused S ?v force = Inr no" using refused_ok [OF S] by blast
  obtain code u l where r: "set_switch ?latch ?v val = Inr (code, ?v\<lparr>cv_value := u, cv_latched := l\<rparr>)"
    "fits_type (cv_type ?v) u" "fits_type (cv_type ?v) l"
    "\<And>k. var_in_domain k ?v \<Longrightarrow> in_domain k (cv_type ?v) (cv_min ?v) (cv_max ?v) u \<and>
       in_domain k (cv_type ?v) (cv_min ?v) (cv_max ?v) l"
    using set_switch_ok [OF var_cellsD(1) [OF v] val, of ?latch] unfolding set_result_def by blast
  let ?w = "?v\<lparr>cv_value := u, cv_latched := l, cv_modified := True\<rparr>"
  let ?S' = "(set_var i ?w S)\<lparr>cvar_modifiedFlags := cvar_modifiedFlags S OR scast (cv_flags ?v)\<rparr>"
  have run: "Cvar_SetVariant (Some i) val force S =
      (if no then Inr (0, S) else if code \<noteq> 1 then Inr (code, S) else Inr (1, ?S'))"
    by (simp add: Cvar_SetVariant_def Let_def no r(1))
  have w: "var_cells ?w" using v r(2,3) by (simp add: var_cells_def var_typed_def)
  have "still_ok S (set_var i ?w S)"
    using r(4) cheats_var [OF S] by (intro still_ok_replace [OF S i w]) (simp_all add: var_in_domain_def)
  moreover have "revalued ?v ?w" by (auto simp: revalued_def)
  then have "sets_values S ?S'"
    using i by (simp add: sets_values_def nth_list_update)
  moreover have "Cvar_SetVariant (Some i) val force S = Inr (if no then 0 else code, S)" if "no \<or> code \<noteq> 1"
    using that by (auto simp: run)
  moreover have "Cvar_SetVariant (Some i) val force S = Inr (1, ?S')" if "\<not> (no \<or> code \<noteq> 1)"
    using that by (auto simp: run)
  ultimately show ?thesis using that S sets_values_refl by (metis still_ok_counters(1) still_ok_refl)
qed

section \<open>Vectors in strings\<close>

lemma skip_word_free:
  "i + int (length s) \<le> lim \<Longrightarrow>
   \<exists>k. skip_word s i lim = (dropWhile (\<lambda>c. c \<noteq> CHR '' '' \<and> \<not> scan_end (sc c)) s, i + int k) \<and>
     k + length (dropWhile (\<lambda>c. c \<noteq> CHR '' '' \<and> \<not> scan_end (sc c)) s) = length s"
proof (induction s arbitrary: i)
  case (Cons c s)
  show ?case
  proof (cases "c \<noteq> CHR '' '' \<and> \<not> scan_end (sc c)")
    case True
    obtain k where "skip_word s (i + 1) lim =
        (dropWhile (\<lambda>c. c \<noteq> CHR '' '' \<and> \<not> scan_end (sc c)) s, i + 1 + int k)"
      "k + length (dropWhile (\<lambda>c. c \<noteq> CHR '' '' \<and> \<not> scan_end (sc c)) s) = length s"
      using Cons.IH [of "i + 1"] Cons.prems by auto
    then show ?thesis using True Cons.prems by (intro exI [of _ "Suc k"]) simp
  qed (auto intro!: exI [of _ 0])
qed simp

lemma vect_loop_length: "length (vect_loop fp s dim) \<le> dim"
proof (induction fp s dim rule: vect_loop.induct)
  case (1 fp s dim)
  then show ?case by (subst vect_loop.simps) (auto split: prod.splits)
qed

text \<open>A string that passes \<open>isVector\<close> fills the whole vector.\<close>

lemma vector_loop_fills:
  "vector_loop s i lim dim \<Longrightarrow> i + int (length s) \<le> lim \<Longrightarrow> 0 \<le> dim \<Longrightarrow>
   length (vect_loop fp s (nat dim)) = nat dim"
proof (induction s i lim dim rule: vector_loop.induct)
  case (1 s i lim dim)
  note prems = "1.prems" and step = "1.prems" (1) [unfolded vector_loop.simps [of s]]
  show ?case
  proof (cases "lim \<le> i \<or> scan_end (chr0 s) \<or> dim \<le> 0")
    case True
    then have "dim = 0" using step by simp
    then show ?thesis by (subst vect_loop.simps) simp
  next
    case go: False
    then have s: "s \<noteq> []" by (auto simp: scan_end_def)
    then have len: "int (length (tl s)) = int (length s) - 1" by (cases s) simp_all
    show ?thesis
    proof (cases "hd s = CHR '' ''")
      case True
      then have "length (vect_loop fp (tl s) (nat dim)) = nat dim"
        using "1.IH" (1) go step prems len by simp
      then show ?thesis using go True by (subst vect_loop.simps) simp
    next
      case word: False
      define rest where "rest = dropWhile (\<lambda>c. c \<noteq> CHR '' '' \<and> \<not> scan_end (sc c)) s"
      obtain k where k: "skip_word s i lim = (rest, i + int k)" "k + length rest = length s"
        using skip_word_free [OF prems(2)] unfolding rest_def by blast
      obtain k' where k': "skip_word s 0 (int (length s)) = (rest, int k')"
        using skip_word_free [of 0 s "int (length s)"] unfolding rest_def by force
      have eq: "vect_loop fp s (nat dim) =
          fp_atof fp s # (if chr0 rest \<noteq> 32 then [] else vect_loop fp (tl rest) (nat dim - 1))"
        using go word by (subst vect_loop.simps) (simp add: k')
      have float: "isFloat s (lim - i)"
        by (rule ccontr) (use step in \<open>simp only: if_not_P [OF go] if_not_P [OF word] not_False_eq_True if_True\<close>)
      then have vec: "if chr0 rest \<noteq> 32 then dim - 1 = 0
          else vector_loop (tl rest) (i + int k + 1) lim (dim - 1)"
        using step by (simp only: if_not_P [OF go] if_not_P [OF word] k(1) prod.case not_True_eq_False if_False)
      show ?thesis
      proof (cases "chr0 rest = 32")
        case True
        then have "rest \<noteq> []" by auto
        then have "int (length (tl rest)) = int (length rest) - 1" by (cases rest) simp_all
        then have "i + int k + 1 + int (length (tl rest)) \<le> lim" using prems(2) k(2) by simp
        then have "length (vect_loop fp (tl rest) (nat (dim - 1))) = nat (dim - 1)"
          using "1.IH" (2) [OF go word _ k(1) [symmetric]] float vec True go by simp
        then show ?thesis using eq True go by (simp add: nat_diff_distrib')
      next
        case False
        then show ?thesis using eq vec go by simp
      qed
    qed
  qed
qed

lemma isVector_fills:
  "isVector s 0 (int dim) \<Longrightarrow> length s < 65536 \<Longrightarrow> strToVect fp s dim = (True, vect_loop fp s dim)"
  using vector_loop_fills [of s 0 65536 "int dim" fp] by (simp add: isVector_def strToVect_def)

end
