(* ===== verification/CvarReach.thy ===== *)
theory CvarReach
  imports CvarSafety
begin

text \<open>
  Every operation on console variables keeps the invariants of \<open>CvarSafety\<close>; the states that
  any sequence of operations reaches, and the theorems about them.
\<close>

section \<open>Setting from a string\<close>

lemma str_value_fits:
  assumes "str_value fp v s = Some val"
  shows "fits_type (cv_type v) val"
proof -
  have "length (snd (strToVect fp s n)) \<le> 4" if "n \<le> 4" for n
    using vect_loop_length [of fp s n] that by (simp add: strToVect_def Let_def)
  then have w: "fits_type t (word_union (snd (strToVect fp s n)))" if "n \<le> 4" "t \<noteq> CVAR_STRING" for n t
    using that by blast
  have w1: "fits_type t (word_union [x])" if "t \<noteq> CVAR_STRING" for t x
    using that by (intro fits_words) simp_all
  show ?thesis
    using assms w w1 fits_text
    by (cases "cv_type v") (auto simp: str_value_def Let_def split: if_splits)
qed

text \<open>The operations that only set values, as one predicate on their results.\<close>

definition sets_ok :: "cvarsys \<Rightarrow> fault + cvarsys \<Rightarrow> bool" where
  "sets_ok S r \<longleftrightarrow> (\<exists>S'. r = Inr S' \<and> still_ok S S' \<and> sets_values S S')"

lemma sets_ok_same [simp]: "typed_ok S \<Longrightarrow> sets_ok S (Inr S)"
  by (simp add: sets_ok_def)

lemma sets_ok_variant:
  assumes "typed_ok S" "i < count S" "fits_type (cv_type (var_at S i)) val"
  shows "sets_ok S (and_then (Cvar_SetVariant (Some i) val force S) (\<lambda>(code, S'). Inr S'))"
proof -
  obtain code S' where "Cvar_SetVariant (Some i) val force S = Inr (code, S')" "still_ok S S'"
    "sets_values S S'"
    using SetVariant_ok [OF assms] by metis
  then show ?thesis by (simp add: sets_ok_def)
qed

lemma set_found_ok:
  assumes "typed_ok S" "i < count S"
  shows "sets_ok S (set_found fp i s force S)"
  using assms sets_ok_variant [OF assms str_value_fits]
  by (auto simp: set_found_def Let_def split: option.split)

lemma reset_value_fits:
  assumes "var_typed v"
  shows "fits_type (cv_type v) (reset_value v)"
proof -
  have r: "fits_type (cv_type v) (cv_reset v)" using assms by (simp add: var_typed_def)
  then show ?thesis
    by (cases rule: fits_cases)
      (auto simp: reset_value_def put_cells_def zero_union_def numeral_eq_Suc fits_type_def
        split: cvarType.split)
qed

lemma ResetVar_ok:
  assumes "typed_ok S" "\<And>i. p = Some i \<Longrightarrow> i < count S"
  shows "sets_ok S (Cvar_ResetVar p S)"
proof (cases p)
  case (Some i)
  then have i: "i < count S" using assms(2) by simp
  show ?thesis
    using sets_ok_variant [OF assms(1) i reset_value_fits [OF var_cellsD(1) [OF typed_okD(1) [OF assms(1) i]]]]
    by (simp add: Cvar_ResetVar_def Some)
qed (simp add: Cvar_ResetVar_def assms(1))

lemma Cvar_Reset_ok: "typed_ok S \<Longrightarrow> sets_ok S (Cvar_Reset name S)"
  unfolding Cvar_Reset_def using FindVar_range by (intro ResetVar_ok)

lemma sets_ok_trans:
  assumes "still_ok S S'" "sets_values S S'" "sets_ok S' r"
  shows "sets_ok S r"
  using assms still_ok_trans sets_values_trans unfolding sets_ok_def by blast

lemma cheat_loop_ok:
  "typed_ok S \<Longrightarrow> \<forall>i \<in> set is. i < count S \<Longrightarrow> sets_ok S (cheat_loop is S)"
proof (induction "is" arbitrary: S)
  case (Cons i "is")
  have i: "i < count S" "var_typed (var_at S i)"
    using Cons.prems typed_okD(1) var_cellsD(1) by auto
  show ?case
  proof (cases "has_flag CVAR_CHEAT (cv_flags (var_at S i))")
    case True
    obtain code S' where 1: "Cvar_SetVariant (Some i) (reset_value (var_at S i))
        (\<not> has_flag CVAR_LATCH (cv_flags (var_at S i))) S = Inr (code, S')" "still_ok S S'" "sets_values S S'"
      using SetVariant_ok [OF Cons.prems(1) i(1) reset_value_fits [OF i(2)]] by metis
    have "count S' = count S" using 1(3) by (simp add: sets_values_def)
    then have "sets_ok S' (cheat_loop is S')" using Cons.IH still_okD(1) [OF 1(2)] Cons.prems(2) by simp
    then show ?thesis using True 1(1) sets_ok_trans [OF 1(2,3)] by (simp add: Let_def)
  next
    case False
    then show ?thesis using Cons by (simp add: Let_def)
  qed
qed simp

lemma SetCheatState_ok: "typed_ok S \<Longrightarrow> sets_ok S (Cvar_SetCheatState S)"
  unfolding Cvar_SetCheatState_def using typed_okD(2) by (intro cheat_loop_ok) auto

section \<open>Registration\<close>

text \<open>What the typed registration functions pass: a value and limits that fit the type.\<close>

definition reg_fits :: "cvarType \<Rightarrow> ounion \<Rightarrow> cell \<Rightarrow> cell \<Rightarrow> bool" where
  "reg_fits t val lo hi \<longleftrightarrow>
     (if t = CVAR_ENUM then (\<exists>k p. val = enum_union k p) else fits_type t val) \<and>
     (limited t \<longrightarrow> is_word lo \<and> is_word hi)"

definition default_named :: "cvarType \<Rightarrow> ounion \<Rightarrow> bool" where
  "default_named t val \<longleftrightarrow>
     (t = CVAR_ENUM \<longrightarrow> (case val ! 1 of Names ns \<Rightarrow> sint (the_word (val ! 0)) < int (length ns) | _ \<Rightarrow> False))"

lemma fits_words_only: "fits_type t u \<Longrightarrow> t \<noteq> CVAR_STRING \<Longrightarrow> list_all is_word u \<and> length u = 4"
  by (cases rule: fits_cases) auto

lemma vec_valid_eval:
  assumes "fits_type t val" "t \<noteq> CVAR_STRING" "is_word lo" "is_word hi"
  shows "vec_valid n val lo hi = Inr (list_all (float_in lo hi) (take n val))"
proof -
  have "list_all is_word (take n val)"
    using fits_words_only [OF assms(1,2)] by (metis list_all_append append_take_drop_id)
  then have "as_words (take n val) = Inr (map the_word (take n val))" by (rule as_words_ok)
  then show ?thesis
    using assms(3,4) by (auto simp: vec_valid_def is_word_def list_all_iff float_in_def)
qed

text \<open>Validation decides whether the value is in its domain; an enumeration may be one past it.\<close>

lemma value_valid_ok:
  assumes "reg_fits t val lo hi"
  obtains b where "value_valid t val lo hi = Inr b"
    "b \<Longrightarrow> t \<noteq> CVAR_ENUM \<Longrightarrow> in_domain 0 t lo hi val"
    "b \<Longrightarrow> t = CVAR_ENUM \<Longrightarrow> \<exists>ns. val ! 1 = Names ns \<and> 0 \<le> sint (the_word (val ! 0)) \<and>
       sint (the_word (val ! 0)) \<le> int (length ns)"
proof (cases "t = CVAR_ENUM")
  case True
  then obtain k p where val: "val = enum_union k p" using assms by (auto simp: reg_fits_def)
  show ?thesis
  proof (cases p)
    case None
    then show ?thesis using that [of False] True val
      by (simp add: value_valid_def enum_union_def as_names_def)
  next
    case (Some ns)
    then show ?thesis
      using that [of "enum_count ns (sint (word_of_int k :: 32 word)) = sint (word_of_int k :: 32 word)"] True val
      by (auto simp: value_valid_def enum_union_def enum_count_def split: if_splits)
  qed
next
  case False
  then have f: "fits_type t val" using assms by (simp add: reg_fits_def)
  have lim: "is_word lo" "is_word hi" if "limited t" using assms that by (simp_all add: reg_fits_def)
  note vec = vec_valid_eval [OF f]
  show ?thesis
  proof (cases "t = CVAR_STRING")
    case True
    then have "\<exists>p. as_text (val ! 0) = Inr p" using f by (auto simp: fits_type_def is_text_def)
    then show ?thesis using that True by (auto simp: value_valid_def in_domain_def)
  next
    case notstr: False
    have w: "\<exists>w. val ! 0 = Cell w" using f notstr by (auto simp: fits_type_def is_word_def)
    have byte: "x AND 255 = 0 \<or> x AND 255 = 1" if "x AND 255 \<le> 1" for x :: "32 word"
      using that by (metis word_le_0_iff word_gt_0 inc_le linorder_not_le antisym_conv2 le_less add_0)
    show ?thesis
      using False notstr w lim vec byte
      by (cases t) (auto simp: value_valid_def limited_def in_domain_def float_in_def get_byte_def is_word_def
          intro!: that)
  qed
qed

lemma is_word_limits: "limits_fit t lo hi \<Longrightarrow> limited t \<Longrightarrow> is_word lo \<and> is_word hi"
  by (simp add: limits_fit_def)

lemma fresh_union_ok:
  assumes "reg_fits t val lo hi"
  shows "fits_type t (fresh_union t val)" "\<lbrakk>in_domain k t lo' hi' val; t \<noteq> CVAR_ENUM\<rbrakk> \<Longrightarrow>
    in_domain k t lo' hi' (fresh_union t val)" "the_word (fresh_union t val ! 0) =
    (if t = CVAR_BOOL then the_word (val ! 0) AND 255 else the_word (val ! 0))"
proof -
  have z: "length zero_union = 4" "fits_type t zero_union" for t
    by (simp_all add: zero_union_def fits_type_def numeral_eq_Suc)
  have "fits_type t (fresh_union t val) \<and>
      (in_domain k t lo' hi' val \<and> t \<noteq> CVAR_ENUM \<longrightarrow> in_domain k t lo' hi' (fresh_union t val)) \<and>
      the_word (fresh_union t val ! 0) = (if t = CVAR_BOOL then the_word (val ! 0) AND 255 else the_word (val ! 0))"
  proof (cases "t = CVAR_ENUM")
    case True
    then obtain k p where "val = enum_union k p" using assms by (auto simp: reg_fits_def)
    then show ?thesis
      by (simp add: True fresh_union_def enum_union_def put_cells_def zero_union_def fits_type_def numeral_eq_Suc)
  next
    case False
    then have f: "fits_type t val" using assms by (simp add: reg_fits_def)
    then show ?thesis
      using False
      by (cases rule: fits_cases; cases t)
        (simp_all add: fresh_union_def put_cells_def zero_union_def fits_type_def word_union_def
          numeral_eq_Suc in_domain_def and.assoc)
  qed
  then show "fits_type t (fresh_union t val)" "\<lbrakk>in_domain k t lo' hi' val; t \<noteq> CVAR_ENUM\<rbrakk> \<Longrightarrow>
    in_domain k t lo' hi' (fresh_union t val)" "the_word (fresh_union t val ! 0) =
    (if t = CVAR_BOOL then the_word (val ! 0) AND 255 else the_word (val ! 0))"
    by blast+
qed

lemma fresh_var_fields:
  fixes t flags val lo hi desc nm
  defines "v \<equiv> fresh_var nm t flags val lo hi desc"
  shows "cv_type v = t" "cv_value v = fresh_union t val" "cv_latched v = fresh_union t val"
    "cv_reset v = fresh_union t val" "cv_name v = Some nm" "cvar_key v = nm" "cv_flags v = flags"
    "cv_min v = fst (fresh_limits t val lo hi)" "cv_max v = snd (fresh_limits t val lo hi)"
  by (simp_all add: v_def fresh_var_def Let_def cvar_key_def)

lemma fresh_var_ok:
  assumes fit: "reg_fits t val lo hi" and valid: "value_valid t val lo hi = Inr True"
    and flags: "has_flag CVAR_USER_CREATED flags \<Longrightarrow> t = CVAR_STRING"
  shows "var_cells (fresh_var nm t flags val lo hi desc)"
    "ok_name nm \<Longrightarrow> var_ok (fresh_var nm t flags val lo hi desc)"
    "(k = 0 \<Longrightarrow> default_named t val) \<Longrightarrow> var_in_domain k (fresh_var nm t flags val lo hi desc)"
proof -
  let ?v = "fresh_var nm t flags val lo hi desc"
  note F = fresh_var_fields
  obtain ns where V: "t = CVAR_ENUM \<Longrightarrow> val ! 1 = Names ns \<and> 0 \<le> sint (the_word (val ! 0)) \<and>
      sint (the_word (val ! 0)) \<le> int (length ns)"
    and D: "t \<noteq> CVAR_ENUM \<Longrightarrow> in_domain 0 t lo hi val"
    using value_valid_ok [OF fit] valid by (metis sum.inject(2))
  have "limits_fit t (fst (fresh_limits t val lo hi)) (snd (fresh_limits t val lo hi))"
    using V fit by (cases t) (auto simp: limits_fit_def limited_def fresh_limits_def reg_fits_def)
  then show cells: "var_cells ?v"
    using fresh_union_ok(1) [OF fit] flags by (simp add: var_cells_def var_typed_def F)
  show "var_ok ?v" if "ok_name nm" using cells that by (simp add: var_ok_def F)
  show "var_in_domain k ?v" if "k = 0 \<Longrightarrow> default_named t val"
  proof (cases "t = CVAR_ENUM")
    case True
    then show ?thesis
      using that V fresh_union_ok(3) [OF fit]
      by (cases "k = 0") (simp_all add: var_in_domain_def F in_domain_def fresh_limits_def default_named_def)
  next
    case False
    have "in_domain k t (fst (fresh_limits t val lo hi)) (snd (fresh_limits t val lo hi)) val"
      using in_domain_mono [OF D [OF False], of k] False by (cases t) (simp_all add: in_domain_def fresh_limits_def)
    then show ?thesis using fresh_union_ok(2) [OF fit _ False] by (simp add: var_in_domain_def F)
  qed
qed

text \<open>A new variable in front of the list and of its chain.\<close>

lemma cvars_ok_new:
  assumes S: "cvars_ok S" and v: "var_ok v" and new: "Cvar_FindVar S (cvar_key v) = None"
  defines "h \<equiv> generateHashValue (cvar_key v)"
  shows "cvars_ok (S\<lparr>cvar_indexes := cvar_indexes S @ [v], cvar_vars := count S # cvar_vars S,
           hashTable := (hashTable S)[h := count S # hashTable S ! h], cvar_modifiedFlags := m\<rparr>)"
    (is "cvars_ok ?S'")
proof -
  let ?n = "count S"
  have n: "\<forall>i < ?n. folded (cvar_key v) \<noteq> folded (key_at S i)"
    using new FindVar_None [OF S var_okD(2) [OF v]] by simp
  have key: "key_at ?S' i = (if i = ?n then cvar_key v else key_at S i)" if "i \<le> ?n" for i
    using that by (simp add: nth_append)
  have chain: "filter (\<lambda>i. generateHashValue (key_at ?S' i) = g) (cvar_vars S) =
      filter (\<lambda>i. generateHashValue (key_at S i) = g) (cvar_vars S)" for g
    using cvars_okD(1) [OF S] by (intro filter_cong) (auto simp: nth_append)
  have ch: "length (hashTable S) = 512"
    "\<And>g. g < 512 \<Longrightarrow> hashTable S ! g = filter (\<lambda>i. generateHashValue (key_at S i) = g) (cvar_vars S)"
    using cvars_okD(4) [OF S] by (auto simp: chains_ok_def)
  have "chains_ok ?S'"
    unfolding chains_ok_def
  proof (intro conjI allI impI)
    fix g :: nat assume g: "g < 512"
    have "hashTable ?S' ! g = (if g = h then ?n # hashTable S ! g else hashTable S ! g)"
      using ch(1) hash_range by (simp add: h_def nth_list_update)
    also have "\<dots> = filter (\<lambda>i. generateHashValue (key_at ?S' i) = g) (cvar_vars ?S')"
      using key [of ?n] ch(2) [OF g] chain [of g] by (auto simp: h_def)
    finally show "hashTable ?S' ! g = filter (\<lambda>i. generateHashValue (key_at ?S' i) = g) (cvar_vars ?S')" .
  qed (use ch(1) in simp)
  moreover have "inj_on (\<lambda>i. folded (key_at ?S' i)) {..<count ?S'}"
  proof (rule inj_onI)
    fix i j assume "i \<in> {..<count ?S'}" "j \<in> {..<count ?S'}" "folded (key_at ?S' i) = folded (key_at ?S' j)"
    moreover from this have le: "i \<le> ?n" "j \<le> ?n" by simp_all
    ultimately have "folded (if i = ?n then cvar_key v else key_at S i) =
        folded (if j = ?n then cvar_key v else key_at S j)"
      unfolding key [OF le(1)] key [OF le(2)] by simp
    then show "i = j"
      using n [rule_format, of i] n [rule_format, of j] cvars_okD(3) [OF S, of i j] le
      by (cases "i = ?n"; cases "j = ?n") simp_all
  qed
  moreover have "cheats_ok ?S'"
    using cvars_okD(5) [OF S] by (auto simp: cheats_ok_def nth_append)
  ultimately show ?thesis
    using S v by (simp add: cvars_ok_def)
qed

lemma typed_ok_new:
  assumes S: "typed_ok S" and v: "var_cells v" and h: "h < 512"
  shows "typed_ok (S\<lparr>cvar_indexes := cvar_indexes S @ [v], cvar_vars := count S # cvar_vars S,
           hashTable := (hashTable S)[h := count S # hashTable S ! h], cvar_modifiedFlags := m\<rparr>)"
    (is "typed_ok ?S'")
proof -
  have "hashTable S ! h \<in> set (hashTable S)" using typed_okD(5) [OF S] h by simp
  then have "x < Suc (count S)" if "x \<in> set (hashTable S ! h)" for x
    using typed_okD(4) [OF S _ that] by (simp add: less_SucI)
  then have "set c \<subseteq> {..<Suc (count S)}" if "c \<in> set (hashTable ?S')" for c
    using that typed_okD(4) [OF S] by (auto dest!: set_update_subset_insert [THEN subsetD] intro: less_SucI)
  moreover have "cheats_ok ?S'"
    using typed_okD(3) [OF S] by (auto simp: cheats_ok_def nth_append)
  moreover have "set (cvar_vars ?S') \<subseteq> {..<Suc (count S)}"
    using typed_okD(2) [OF S] by (auto intro: less_SucI)
  ultimately show ?thesis using S v by (simp add: typed_ok_def)
qed

section \<open>Registering again\<close>

lemma union_str_ok:
  assumes "var_typed v" "fits_type (cv_type v) u"
  shows "\<exists>s. union_str fp v u = Inr s"
proof (cases "cv_type v = CVAR_ENUM")
  case True
  then obtain ns where "cv_max v = Names ns" using assms(1) by (auto simp: var_typed_def limits_fit_def)
  then show ?thesis using assms(2) True by (auto simp: union_str_def fits_type_def is_word_def)
next
  case False
  show ?thesis
    using assms(2) False
    by (cases rule: fits_cases; cases "cv_type v") (simp_all add: union_str_def get_bool_def numeral_eq_Suc)
qed

lemma ValueToStr_ok:
  assumes "var_typed v" "fits_type (cv_type v) u"
  obtains s where "Cvar_ValueToStr fp v n u = Inr s" "length s \<le> nat (n - 1)"
proof -
  obtain s where "union_str fp v u = Inr s" using union_str_ok [OF assms] by blast
  then show ?thesis using that [of "sprintf_to n s"] by (simp add: Cvar_ValueToStr_def sprintf_to_def)
qed

lemma has_flag_or [simp]: "has_flag f (a OR b) \<longleftrightarrow> has_flag f a \<or> has_flag f b"
  by (auto simp: has_flag_def bit.conj_disj_distrib2 or_eq_0_iff)

lemma has_flag_cleared [simp]: "\<not> has_flag f (a AND NOT f)"
  by (simp add: has_flag_def and.assoc)

lemma drop_strings_fields [simp]:
  "cv_type (drop_strings v) = cv_type v" "cv_flags (drop_strings v) = cv_flags v"
  "cv_name (drop_strings v) = cv_name v" "cv_min (drop_strings v) = cv_min v"
  "cv_max (drop_strings v) = cv_max v"
  by (simp_all add: drop_strings_def)

lemma drop_strings_fits:
  assumes "var_typed v" "cv_type v = t \<or> cv_type v = CVAR_STRING"
  shows "fits_type t (cv_value (drop_strings v))" "fits_type t (cv_latched (drop_strings v))"
    "fits_type t (cv_reset (drop_strings v))"
proof -
  have d: "fits_type t (u[0 := NULL])" if "fits_type CVAR_STRING u" for u
    using that by (cases rule: fits_cases) (auto simp: fits_type_def numeral_eq_Suc)
  show "fits_type t (cv_value (drop_strings v))" "fits_type t (cv_latched (drop_strings v))"
    "fits_type t (cv_reset (drop_strings v))"
    using assms d by (auto simp: drop_strings_def var_typed_def)
qed

lemma new_reset_ok:
  assumes "reg_fits t val lo hi" "fits_type t u"
  shows "\<exists>r. new_reset t val u = Inr r \<and> fits_type t r"
proof (cases "t = CVAR_ENUM")
  case True
  then obtain k p where "val = enum_union k p" using assms by (auto simp: reg_fits_def)
  then show ?thesis
    by (cases rule: fits_cases [OF assms(2)]) (auto simp: True new_reset_def put_cells_def enum_union_def fits_type_def numeral_eq_Suc)
next
  case False
  then have f: "fits_type t val" using assms by (simp add: reg_fits_def)
  have p: "fits_type t (put_cells 1 val u)" by (rule fits_put_cells [OF f assms(2)]) simp_all
  show ?thesis
  proof (cases "t = CVAR_BOOL")
    case True
    then show ?thesis
      by (cases rule: fits_cases [OF f]; cases rule: fits_cases [OF assms(2)])
        (simp_all add: new_reset_def get_byte_def put_byte_def fits_type_def numeral_eq_Suc)
  next
    case notbool: False
    then show ?thesis using p assms(2) by (cases t) (simp_all add: new_reset_def)
  qed
qed

lemma reregistered_ok:
  assumes v: "var_cells v" and fit: "reg_fits t val lo hi" and valid: "value_valid t val lo hi = Inr True"
    and t: "cv_type v = t \<or> has_flag CVAR_USER_CREATED (cv_flags v)"
    and flags: "has_flag CVAR_USER_CREATED flags \<Longrightarrow> t = CVAR_STRING"
  obtains v' where "reregistered t flags val lo hi desc v = Inr v'" "var_cells v'" "cv_type v' = t"
    "cv_name v' = cv_name v" "has_flag CVAR_USER_CREATED (cv_flags v') \<Longrightarrow> t = CVAR_STRING"
    "\<And>k. \<lbrakk>var_in_domain k v; cv_type v = t; new_limits t val lo hi v = (cv_min v, cv_max v)\<rbrakk> \<Longrightarrow>
       var_in_domain k v'"
proof -
  have t': "cv_type v = t \<or> cv_type v = CVAR_STRING" using t var_cellsD(2) [OF v] by blast
  note fits = drop_strings_fits [OF var_cellsD(1) [OF v] t']
  obtain r where r: "new_reset t val (cv_reset (drop_strings v)) = Inr r" "fits_type t r"
    using new_reset_ok [OF fit fits(3)] by blast
  let ?fl = "if has_flag CVAR_USER_CREATED (cv_flags v) \<and> \<not> has_flag CVAR_USER_CREATED flags
      then cv_flags v AND NOT CVAR_USER_CREATED else cv_flags v"
  let ?v = "(drop_strings v)\<lparr>cv_flags := ?fl OR flags, cv_reset := r, cv_min := fst (new_limits t val lo hi v),
      cv_max := snd (new_limits t val lo hi v), cv_description := stored_desc desc, cv_type := t\<rparr>"
  have nl: "new_limits t val lo hi (drop_strings v) = new_limits t val lo hi v"
    "new_limits t val lo hi (Cvar_ClearFlags f (drop_strings v)) = new_limits t val lo hi v" for f
    by (simp_all add: new_limits_def Cvar_ClearFlags_def)
  have run: "reregistered t flags val lo hi desc v = Inr ?v"
    using r(1) nl by (simp add: reregistered_def Let_def Cvar_AddFlags_def Cvar_ClearFlags_def)
  have "val ! 1 = Names ns \<longrightarrow> limits_fit CVAR_ENUM NULL (val ! 1)" for ns by (simp add: limits_fit_def limited_def)
  moreover have "t = CVAR_ENUM \<Longrightarrow> \<exists>ns. val ! 1 = Names ns"
    using value_valid_ok [OF fit] valid by (metis sum.inject(2))
  ultimately have "limits_fit t (fst (new_limits t val lo hi v)) (snd (new_limits t val lo hi v))"
    using fit by (cases t) (auto simp: new_limits_def fresh_limits_def limits_fit_def limited_def reg_fits_def)
  moreover have uc: "has_flag CVAR_USER_CREATED (?fl OR flags) \<Longrightarrow> t = CVAR_STRING"
    using flags t' var_cellsD(2) [OF v] by (auto split: if_splits)
  ultimately have ok: "var_cells ?v"
    using fits r(2) by (auto simp: var_cells_def var_typed_def)
  have "var_in_domain k ?v"
    if "var_in_domain k v" "cv_type v = t" "new_limits t val lo hi v = (cv_min v, cv_max v)" for k
    using that by (cases "t = CVAR_STRING") (simp_all add: var_in_domain_def drop_strings_def in_domain_def)
  then show ?thesis using that [OF run ok] uc by simp
qed

lemma reregister_ok:
  assumes S: "typed_ok S" and i: "i < count S" and fit: "reg_fits t val lo hi"
    and valid: "value_valid t val lo hi = Inr True"
    and flags: "has_flag CVAR_USER_CREATED flags \<Longrightarrow> t = CVAR_STRING"
  shows "reregister fp i t flags val lo hi desc S = Inl (COM_ERROR ERR_FATAL) \<or>
    (\<exists>S'. reregister fp i t flags val lo hi desc S = Inr (i, S') \<and> typed_ok S' \<and>
      (cvars_ok S \<longrightarrow> cvars_ok S') \<and> count S' = count S \<and>
      (\<forall>k. domains_ok k S \<and> cv_type (var_at S i) = t \<and>
       new_limits t val lo hi (var_at S i) = (cv_min (var_at S i), cv_max (var_at S i)) \<longrightarrow> domains_ok k S'))"
proof (cases "cv_type (var_at S i) \<noteq> t \<and> \<not> has_flag CVAR_USER_CREATED (cv_flags (var_at S i))")
  case True
  then show ?thesis by (simp add: reregister_def)
next
  case False
  let ?v = "var_at S i"
  have v: "var_cells ?v" by (rule typed_okD(1) [OF S i])
  obtain str where str: "Cvar_ValueToStr fp ?v 8192 (cv_latched ?v) = Inr str"
    using ValueToStr_ok [OF var_cellsD(1) [OF v], of "cv_latched ?v" fp 8192] var_cellsD(1) [OF v]
    by (auto simp: var_typed_def)
  have "cv_type ?v = t \<or> has_flag CVAR_USER_CREATED (cv_flags ?v)" using False by blast
  from reregistered_ok [OF v fit valid this flags, where desc = desc]
  obtain v' where v': "reregistered t flags val lo hi desc ?v = Inr v'" "var_cells v'" "cv_type v' = t"
    "cv_name v' = cv_name ?v" "has_flag CVAR_USER_CREATED (cv_flags v') \<Longrightarrow> t = CVAR_STRING"
    "\<And>k. var_in_domain k ?v \<Longrightarrow> cv_type ?v = t \<Longrightarrow> new_limits t val lo hi ?v = (cv_min ?v, cv_max ?v) \<Longrightarrow> var_in_domain k v'"
    by metis
  define m where "m = (if has_flag CVAR_USER_CREATED (cv_flags ?v) \<and> \<not> has_flag CVAR_USER_CREATED flags
      then cvar_modifiedFlags S OR ucast flags else cvar_modifiedFlags S)"
  let ?S1 = "(set_var i v' S)\<lparr>cvar_modifiedFlags := m\<rparr>"
  have c: "cvar_cheats S = Some i \<Longrightarrow> cv_type v' = CVAR_BOOL \<and> \<not> has_flag CVAR_USER_CREATED (cv_flags v')"
    using cheats_var [OF S] False v'(3,5) by auto
  have S1: "typed_ok ?S1" using typed_ok_replace [OF S i v'(2) c] by simp
  have S1': "cvars_ok ?S1" if "cvars_ok S"
  proof -
    have "var_ok v'" using var_okD(1,2) [OF cvars_okD(2) [OF that i]] v'(2,4) by (simp add: var_ok_def)
    moreover have "cvar_key v' = key_at S i" by (simp add: cvar_key_def v'(4))
    ultimately show ?thesis using cvars_ok_replace [OF that i _ _ c] by simp
  qed
  have "sets_ok ?S1 (set_found fp i str True ?S1)" by (rule set_found_ok [OF S1]) (simp add: i)
  then obtain S2 where S2: "set_found fp i str True ?S1 = Inr S2" "still_ok ?S1 S2" "sets_values ?S1 S2"
    by (auto simp: sets_ok_def)
  have "reregister fp i t flags val lo hi desc S = Inr (i, S2)"
    unfolding reregister_def Let_def if_not_P [OF False] str and_then_simps v'(1) m_def [symmetric] S2(1) ..
  moreover have "domains_ok k S2" if "domains_ok k S" "cv_type ?v = t" "new_limits t val lo hi ?v = (cv_min ?v, cv_max ?v)" for k
  proof -
    have "var_in_domain k ?v" using that(1) i by (simp add: domains_ok_def)
    then show ?thesis using still_okD(3) [OF S2(2), of k] domains_ok_replace [OF that(1), of i v'] v'(6) that(2,3) by simp
  qed
  moreover have "cvars_ok S \<longrightarrow> cvars_ok S2" using still_okD(2) [OF S2(2)] S1' by blast
  ultimately show ?thesis using still_okD(1) [OF S2(2)] S2(3) by (auto simp: sets_values_def)
qed

text \<open>
  A registration that does not change what a variable already is; with no slack it also gives
  an enumeration a default that has a name.
\<close>

definition same_domain :: "nat \<Rightarrow> cvarsys \<Rightarrow> string \<Rightarrow> cvarType \<Rightarrow> ounion \<Rightarrow> cell \<Rightarrow> cell \<Rightarrow> bool" where
  "same_domain k S name t val lo hi \<longleftrightarrow> (k = 0 \<longrightarrow> default_named t val) \<and>
     (case Cvar_FindVar S name of None \<Rightarrow> True
      | Some i \<Rightarrow> cv_type (var_at S i) = t \<and>
          new_limits t val lo hi (var_at S i) = (cv_min (var_at S i), cv_max (var_at S i)))"

lemma Register_ok:
  assumes S: "typed_ok S" and name: "\<And>nm. name = Some nm \<Longrightarrow> ok_name nm" and fit: "reg_fits t val lo hi"
    and flags: "has_flag CVAR_USER_CREATED flags \<Longrightarrow> t = CVAR_STRING"
  shows "Cvar_Register fp name t flags val lo hi desc S = Inl (COM_ERROR ERR_FATAL) \<or>
    (\<exists>i S'. Cvar_Register fp name t flags val lo hi desc S = Inr (i, S') \<and> typed_ok S' \<and>
      (cvars_ok S \<longrightarrow> cvars_ok S') \<and> i < count S' \<and> (\<forall>k. domains_ok k S \<and> same_domain k S (the name) t val lo hi \<longrightarrow> domains_ok k S'))"
proof -
  obtain b where b: "value_valid t val lo hi = Inr b" using value_valid_ok [OF fit] by metis
  show ?thesis
  proof (cases "name \<noteq> None \<and> Cvar_ValidateString name \<and> b")
    case False
    then show ?thesis using b by (auto simp: Cvar_Register_def Cvar_ValidateNewVar_def)
  next
    case True
    then obtain nm where nm: "name = Some nm" "Cvar_ValidateNewVar name t val lo hi = Inr True"
      using b by (auto simp: Cvar_ValidateNewVar_def)
    have ok: "ok_name nm" using name nm(1) by simp
    have valid: "value_valid t val lo hi = Inr True" using b True by simp
    let ?v = "fresh_var nm t flags val lo hi desc"
    have fresh: "var_cells ?v" "var_ok ?v"
      by (rule fresh_var_ok [OF fit valid], erule flags; fact ok)+
    have fresh_domain: "var_in_domain k ?v" if "k = 0 \<longrightarrow> default_named t val" for k
      by (rule fresh_var_ok(3) [OF fit valid]) (use flags that in blast)+
    show ?thesis
    proof (cases "Cvar_FindVar S nm")
      case None
      show ?thesis
      proof (cases "MAX_CVARS \<le> count S")
        case True
        then show ?thesis using None nm by (simp add: Cvar_Register_def Let_def)
      next
        case False
        let ?S' = "S\<lparr>cvar_indexes := cvar_indexes S @ [?v], cvar_vars := count S # cvar_vars S,
            hashTable := (hashTable S)[generateHashValue nm := count S # hashTable S ! generateHashValue nm],
            cvar_modifiedFlags := cvar_modifiedFlags S OR scast flags\<rparr>"
        have run: "Cvar_Register fp name t flags val lo hi desc S = Inr (count S, ?S')"
          using None nm False by (simp add: Cvar_Register_def Let_def)
        have "cvars_ok S \<longrightarrow> cvars_ok ?S'"
          using cvars_ok_new [OF _ fresh(2)] None by (simp add: fresh_var_fields)
        moreover have "typed_ok ?S'" using typed_ok_new [OF S fresh(1) hash_range] .
        moreover have "domains_ok k S \<Longrightarrow> (k = 0 \<longrightarrow> default_named t val) \<Longrightarrow> domains_ok k ?S'" for k
          using fresh_domain by (simp add: domains_ok_def)
        ultimately show ?thesis using run nm(1) by (simp add: same_domain_def)
      qed
    next
      case (Some i)
      then have i: "i < count S" "cvars_ok S \<Longrightarrow> folded nm = folded (key_at S i)"
        using FindVar_range [OF S] FindVar_Some [OF _ ok] by simp_all
      show ?thesis
      proof (cases "(has_flag CVAR_ROM flags \<or> has_flag CVAR_CHEAT flags \<and> \<not> cheating_enabled S) \<and>
          has_flag CVAR_USER_CREATED (cv_flags (var_at S i))")
        case True
        let ?S' = "(set_var i ?v S)\<lparr>cvar_modifiedFlags := cvar_modifiedFlags S OR scast flags\<rparr>"
        have run: "Cvar_Register fp name t flags val lo hi desc S = Inr (i, ?S')"
          using Some nm True by (simp add: Cvar_Register_def Let_def)
        have c: "cvar_cheats S \<noteq> Some i" using cheats_var [OF S] True by auto
        then have "cvars_ok S \<longrightarrow> cvars_ok ?S'"
          using cvars_ok_replace [OF _ i(1) fresh(2)] i(2) by (simp add: fresh_var_fields)
        moreover have "typed_ok ?S'" using typed_ok_replace [OF S i(1) fresh(1)] c by simp
        moreover have "domains_ok k S \<Longrightarrow> (k = 0 \<longrightarrow> default_named t val) \<Longrightarrow> domains_ok k ?S'" for k
          using domains_ok_replace [OF _ fresh_domain] by simp
        ultimately show ?thesis using run nm(1) i(1) Some by (simp add: same_domain_def)
      next
        case False
        have "Cvar_Register fp name t flags val lo hi desc S = reregister fp i t flags val lo hi desc S"
          unfolding Cvar_Register_def nm(1) option.sel Some option.case Let_def if_not_P [OF False]
          using nm by simp
        then show ?thesis
          using reregister_ok [OF S i(1) fit valid flags, of flags fp desc] nm(1) i(1) Some
          by (fastforce simp: same_domain_def)
      qed
    qed
  qed
qed

section \<open>The operations keep the invariants\<close>

lemma ok_name_Nil [simp]: "ok_name []"
  by (simp add: ok_name_def nul_free_def)

lemma reg_fits_text: "reg_fits CVAR_STRING (text_union s) lo hi"
  by (auto simp: reg_fits_def limited_def)

text \<open>\<open>keeps_cvars\<close>: an error of the program, or a state in which the invariants hold.\<close>

definition keeps_cvars :: "cvarsys \<Rightarrow> fault + cvarsys \<Rightarrow> bool" where
  "keeps_cvars S r \<longleftrightarrow> r = Inl (COM_ERROR ERR_FATAL) \<or> (\<exists>S'. r = Inr S' \<and> still_ok S S')"

lemma keeps_sets: "sets_ok S r \<Longrightarrow> keeps_cvars S r"
  by (auto simp: sets_ok_def keeps_cvars_def)

lemma keeps_same [simp]: "typed_ok S \<Longrightarrow> keeps_cvars S (Inr S)"
  by (simp add: keeps_cvars_def)

lemma keeps_string:
  assumes S: "typed_ok S" and name: "ok_name name" and val: "fits_type CVAR_STRING val"
  shows "keeps_cvars S (and_then (Cvar_Register fp (Some name) CVAR_STRING flags val lo hi desc S)
    (\<lambda>(i, S'). Inr S'))"
proof -
  have fit: "reg_fits CVAR_STRING val lo hi" using val by (auto simp: reg_fits_def limited_def)
  consider "Cvar_Register fp (Some name) CVAR_STRING flags val lo hi desc S = Inl (COM_ERROR ERR_FATAL)"
    | i S' where "Cvar_Register fp (Some name) CVAR_STRING flags val lo hi desc S = Inr (i, S')"
        "typed_ok S'" "cvars_ok S \<longrightarrow> cvars_ok S'"
        "\<forall>k. domains_ok k S \<and> same_domain k S name CVAR_STRING val lo hi \<longrightarrow> domains_ok k S'"
    using Register_ok [OF S _ fit, of "Some name" flags fp desc] name by auto
  then show ?thesis
  proof cases
    case 1
    then show ?thesis by (simp add: keeps_cvars_def)
  next
    case 2
    have "cv_type (var_at S i) = CVAR_STRING" if "Cvar_FindVar S name = Some i" for i
    proof (rule ccontr)
      assume t: "cv_type (var_at S i) \<noteq> CVAR_STRING"
      then have "\<not> has_flag CVAR_USER_CREATED (cv_flags (var_at S i))"
        using var_cellsD(2) [OF typed_okD(1) [OF S FindVar_range [OF S that]]] by blast
      then have "Cvar_Register fp (Some name) CVAR_STRING flags val lo hi desc S = Inl (COM_ERROR ERR_FATAL)"
        using that t val by (auto simp: Cvar_Register_def Cvar_ValidateNewVar_def value_valid_def
            fits_type_def is_text_def reregister_def Let_def)
      then show False using 2(1) by simp
    qed
    then have "same_domain k S name CVAR_STRING val lo hi" for k
      by (auto simp: same_domain_def default_named_def new_limits_def split: option.split)
    then show ?thesis using 2 by (simp add: keeps_cvars_def still_ok_def)
  qed
qed

lemma Set2_ok:
  assumes "typed_ok S" "ok_name name"
  shows "keeps_cvars S (Cvar_Set2 fp name p force S)"
  using assms keeps_string [OF assms fits_text] keeps_sets [OF set_found_ok [OF assms(1)]] FindVar_range [OF assms(1)]
  by (auto simp: Cvar_Set2_def split: option.split)

text \<open>
  \<open>Cvar_SetWithType\<close> creates a variable as a string whatever the type: the bits of a number
  that are not all zero are then taken as the address of the string.
\<close>

definition number_as_text :: "cvarsys \<Rightarrow> string \<Rightarrow> ounion \<Rightarrow> cvarType \<Rightarrow> bool \<Rightarrow> bool" where
  "number_as_text S name val t force \<longleftrightarrow>
     Cvar_ValidateString (Some name) \<and> t \<noteq> CVAR_STRING \<and> val ! 0 \<noteq> NULL \<and>
     (case Cvar_FindVar S name of None \<Rightarrow> True
      | Some i \<Rightarrow> cv_type (var_at S i) \<noteq> t \<and> (force \<longrightarrow> has_flag CVAR_USER_CREATED (cv_flags (var_at S i))))"

lemma Register_number:
  assumes "fits_type t val" "t \<noteq> CVAR_STRING" "Cvar_ValidateString (Some name)"
  shows "Cvar_Register fp (Some name) CVAR_STRING flags val lo hi desc S =
    Inl (if val ! 0 = NULL then COM_ERROR ERR_FATAL else OUT_OF_BOUNDS)"
proof -
  obtain w where "val ! 0 = Cell w" using assms(1,2) by (auto simp: fits_type_def is_word_def)
  then show ?thesis
    using assms(3) by (simp add: Cvar_Register_def Cvar_ValidateNewVar_def value_valid_def as_text_def)
qed

lemma SetWithType_ok:
  assumes S: "typed_ok S" and name: "ok_name name" and val: "fits_type t val"
  shows "if number_as_text S name val t force then Cvar_SetWithType fp name val t force S = Inl OUT_OF_BOUNDS
    else keeps_cvars S (Cvar_SetWithType fp name val t force S)"
proof -
  let ?run = "Cvar_SetWithType fp name val t force S"
  let ?reg = "\<lambda>lo hi. and_then (Cvar_Register fp (Some name) CVAR_STRING (if force then 0 else CVAR_USER_CREATED)
      val lo hi (Some ''External Cvar'') S) (\<lambda>(i, S'). Inr S')"
  obtain lo hi where new: "(if t = CVAR_INT then ?reg (Cell 0x80000000) (Cell 0x7FFFFFFF)
      else if t = CVAR_FLOAT then ?reg (Cell 0xFF7FFFFF) (Cell 0x7F7FFFFF) else ?reg NULL NULL) = ?reg lo hi"
    by metis
  consider (invalid) "\<not> Cvar_ValidateString (Some name)"
    | (same) i where "Cvar_ValidateString (Some name)" "Cvar_FindVar S name = Some i" "cv_type (var_at S i) = t"
    | (refused) i where "Cvar_ValidateString (Some name)" "Cvar_FindVar S name = Some i" "cv_type (var_at S i) \<noteq> t"
        "force \<and> \<not> has_flag CVAR_USER_CREATED (cv_flags (var_at S i))"
    | (fresh) "Cvar_ValidateString (Some name)" "\<And>i. Cvar_FindVar S name = Some i \<Longrightarrow> cv_type (var_at S i) \<noteq> t \<and>
          \<not> (force \<and> \<not> has_flag CVAR_USER_CREATED (cv_flags (var_at S i)))"
    by (metis option.sel)
  then show ?thesis
  proof cases
    case invalid
    then show ?thesis using S by (simp add: Cvar_SetWithType_def Let_def number_as_text_def)
  next
    case same
    then have "sets_ok S (and_then (Cvar_SetVariant (Some i) val force S) (\<lambda>(code, S'). Inr S'))"
      using sets_ok_variant [OF S FindVar_range [OF S same(2)]] val by simp
    then show ?thesis using same keeps_sets by (simp add: Cvar_SetWithType_def Let_def number_as_text_def)
  next
    case refused
    then have "?run = Inl (COM_ERROR ERR_FATAL)" "\<not> number_as_text S name val t force"
      by (auto simp: Cvar_SetWithType_def Let_def number_as_text_def)
    then show ?thesis by (simp add: keeps_cvars_def)
  next
    case fresh
    have "?run = ?reg lo hi" unfolding Cvar_SetWithType_def Let_def new
      using fresh by (auto split: option.split)
    moreover have "number_as_text S name val t force \<longleftrightarrow> t \<noteq> CVAR_STRING \<and> val ! 0 \<noteq> NULL"
      using fresh by (auto simp: number_as_text_def split: option.split)
    moreover have "if t \<noteq> CVAR_STRING \<and> val ! 0 \<noteq> NULL then ?reg lo hi = Inl OUT_OF_BOUNDS else keeps_cvars S (?reg lo hi)"
    proof (cases "t = CVAR_STRING")
      case True
      then show ?thesis
        using keeps_string [OF S name] val by simp
    next
      case False
      then show ?thesis
        using Register_number [OF val False fresh(1)] by (simp add: keeps_cvars_def)
    qed
    ultimately show ?thesis by presburger
  qed
qed

lemma flags_ok:
  assumes S: "typed_ok S" and i: "i < count S"
    and fl: "has_flag CVAR_USER_CREATED fl \<Longrightarrow> has_flag CVAR_USER_CREATED (cv_flags (var_at S i))"
  shows "still_ok S (set_var i ((var_at S i)\<lparr>cv_flags := fl\<rparr>) S)"
proof (rule still_ok_replace [OF S i])
  show "var_cells ((var_at S i)\<lparr>cv_flags := fl\<rparr>)"
    using fl typed_okD(1) [OF S i] by (auto simp: var_cells_def var_typed_def)
qed (use cheats_var [OF S, of i] fl in \<open>auto simp: var_in_domain_def\<close>)

lemma FindVar_renamed: "cv_name v = cv_name (var_at S i) \<Longrightarrow> Cvar_FindVar (set_var i v S) name = Cvar_FindVar S name"
  unfolding Cvar_FindVar_def by (cases "i < count S"; intro find_cong) (auto simp: nth_list_update list_update_beyond)

lemma AllowCheat_ok:
  assumes S: "typed_ok S" and name: "ok_name name"
  shows "keeps_cvars S (Cvar_SetAllowCheatOnly fp name p S)"
proof -
  consider i where "Cvar_FindVar S name = Some i" "has_flag CVAR_CHEAT (cv_flags (var_at S i))"
    | "Cvar_SetAllowCheatOnly fp name p S = Cvar_Set2 fp name p False S"
    by (cases "Cvar_FindVar S name";
        cases "has_flag CVAR_CHEAT (cv_flags (var_at S (the (Cvar_FindVar S name))))")
      (simp_all add: Cvar_SetAllowCheatOnly_def)
  then show ?thesis
  proof cases
    case 1
    have i: "i < count S" using FindVar_range [OF S 1(1)] .
    let ?S1 = "set_var i (Cvar_ClearFlags CVAR_CHEAT (var_at S i)) S"
    have "has_flag CVAR_USER_CREATED (cv_flags (var_at S i) AND NOT CVAR_CHEAT) \<Longrightarrow>
        has_flag CVAR_USER_CREATED (cv_flags (var_at S i))"
      by (auto simp: has_flag_def and.assoc and.left_commute)
    then have S1: "still_ok S ?S1" using flags_ok [OF S i] by (simp add: Cvar_ClearFlags_def)
    have "Cvar_FindVar ?S1 name = Some i"
      using 1(1) FindVar_renamed [of "Cvar_ClearFlags CVAR_CHEAT (var_at S i)"] by (simp add: Cvar_ClearFlags_def)
    then have "sets_ok ?S1 (Cvar_Set2 fp name p False ?S1)"
      using set_found_ok [OF still_okD(1) [OF S1], of i] still_okD(1) [OF S1] i
      by (simp add: Cvar_Set2_def split: option.split)
    then obtain S2 where S2: "Cvar_Set2 fp name p False ?S1 = Inr S2" "still_ok ?S1 S2" "sets_values ?S1 S2"
      by (auto simp: sets_ok_def)
    have c: "i < count S2" using S2(3) i by (simp add: sets_values_def)
    have "\<not> has_flag CVAR_USER_CREATED CVAR_CHEAT" by (simp add: has_flag_def CVAR_USER_CREATED_def CVAR_CHEAT_def)
    then have "still_ok S2 (set_var i (Cvar_AddFlags CVAR_CHEAT (var_at S2 i)) S2)"
      using flags_ok [OF still_okD(1) [OF S2(2)] c, of "cv_flags (var_at S2 i) OR CVAR_CHEAT"]
      by (simp add: Cvar_AddFlags_def)
    then have "still_ok S (set_var i (Cvar_AddFlags CVAR_CHEAT (var_at S2 i)) S2)"
      using still_ok_trans S1 S2(2) by blast
    then show ?thesis using 1 S2(1) by (auto simp: keeps_cvars_def Cvar_SetAllowCheatOnly_def)
  next
    case 2
    then show ?thesis using Set2_ok [OF S name] by simp
  qed
qed

lemma reset_cells_ok:
  "list_all is_word val \<Longrightarrow> length val = 4 \<Longrightarrow> k + n \<le> 4 \<Longrightarrow> list_all is_word u \<Longrightarrow> length u = 4 \<Longrightarrow>
   \<exists>r. reset_cells n k val u = Inr r \<and> list_all is_word r \<and> length r = 4"
proof (induction n arbitrary: k u)
  case (Suc n)
  have w: "is_word (val ! k)" using Suc.prems by (simp add: list_all_length)
  then obtain x where x: "val ! k = Cell x" by (auto simp: is_word_def)
  have "list_all is_word (u[k := val ! k])"
    using Suc.prems(3-5) w by (auto simp: list_all_length nth_list_update)
  then show ?case using Suc.IH [of "k + 1" "u[k := val ! k]"] Suc.prems by (auto simp: x)
qed simp

lemma words_fit: "list_all is_word u \<Longrightarrow> length u = 4 \<Longrightarrow> t \<noteq> CVAR_STRING \<Longrightarrow> fits_type t u"
  by (simp add: fits_type_def list_all_length)

lemma changed_reset_ok:
  assumes v: "var_typed v" and val: "fits_type (cv_type v) val"
  shows "\<exists>u. changed_reset v val = Inr u \<and> fits_type (cv_type v) u"
proof (cases "cv_type v = CVAR_STRING")
  case True
  have f: "fits_type CVAR_STRING val" "fits_type CVAR_STRING (cv_reset v)"
    using v val True by (simp_all add: var_typed_def)
  have p: "fits_type CVAR_STRING (put_cells 1 val (cv_reset v))" by (rule fits_put_cells [OF f]) simp_all
  show ?thesis
    by (cases rule: fits_cases [OF f(1)]; cases rule: fits_cases [OF f(2)])
      (use p f True in \<open>auto simp: changed_reset_def Let_def\<close>)
next
  case False
  have f: "fits_type (cv_type v) (cv_reset v)" "limits_fit (cv_type v) (cv_min v) (cv_max v)"
    using v by (simp_all add: var_typed_def)
  have p: "fits_type (cv_type v) (put_cells 1 val (cv_reset v))" by (rule fits_put_cells [OF val f(1)]) simp_all
  have r: "\<exists>r. reset_cells n 0 val (cv_reset v) = Inr r \<and> fits_type (cv_type v) r" if "n \<le> 4" for n
    using reset_cells_ok [of val 0 n "cv_reset v"] fits_words_only [OF val False] fits_words_only [OF f(1) False]
      words_fit [OF _ _ False] that by auto
  obtain a b c d where u: "cv_reset v = [Cell a, Cell b, Cell c, Cell d]"
    using fits_cases [OF f(1)] False by metis
  obtain e where e: "val ! 0 = Cell e" using val False by (auto simp: fits_type_def is_word_def)
  have b: "fits_type (cv_type v) [Cell w, Cell b, Cell c, Cell d]" for w
    using False by (simp add: fits_type_def numeral_eq_Suc)
  show ?thesis
    using f p r [of 2] r [of 3] r [of 4] False b
    by (cases "cv_type v")
      (auto simp: changed_reset_def get_bool_def put_byte_word u e Let_def limits_fit_def limited_def is_word_def)
qed

lemma ChangeReset_ok:
  assumes S: "typed_ok S" and i: "i < count S" and val: "fits_type (cv_type (var_at S i)) val"
  shows "keeps_cvars S (Cvar_ChangeResetValue i val S)"
proof -
  let ?v = "var_at S i"
  have v: "var_cells ?v" by (rule typed_okD(1) [OF S i])
  obtain u where u: "changed_reset ?v val = Inr u" "fits_type (cv_type ?v) u"
    using changed_reset_ok [OF var_cellsD(1) [OF v] val] by blast
  have "var_cells (?v\<lparr>cv_reset := u\<rparr>)" using v u(2) by (simp add: var_cells_def var_typed_def)
  then have "still_ok S (set_var i (?v\<lparr>cv_reset := u\<rparr>) S)"
    by (rule still_ok_replace [OF S i]) (use cheats_var [OF S, of i] in \<open>simp_all add: var_in_domain_def\<close>)
  then show ?thesis by (simp add: keeps_cvars_def Cvar_ChangeResetValue_def u(1))
qed

section \<open>Restart\<close>

text \<open>
  A restart keeps the cells and the domains.  It keeps the table too unless it clears a
  variable the user created.
\<close>

definition cleared :: "cvarsys \<Rightarrow> nat \<Rightarrow> bool" where
  "cleared S i \<longleftrightarrow> \<not> has_flag (CVAR_ROM OR CVAR_INIT OR CVAR_NORESTART) (cv_flags (var_at S i)) \<and>
     has_flag CVAR_USER_CREATED (cv_flags (var_at S i))"

lemma cut_after_subset: "set (cut_after i c) \<subseteq> set c"
  by (auto simp: cut_after_def dest: set_takeWhileD)

lemma zero_cvar_ok: "var_cells zero_cvar" "var_in_domain k zero_cvar"
  by (simp_all add: var_cells_def var_typed_def zero_cvar_def zero_union_def fits_type_def limits_fit_def
      limited_def has_flag_def var_in_domain_def in_domain_def numeral_eq_Suc)

lemma clear_ok:
  assumes S: "typed_ok S" and i: "i < count S" and uc: "has_flag CVAR_USER_CREATED (cv_flags (var_at S i))"
  defines "S' \<equiv> (set_var i zero_cvar S)
    \<lparr>cvar_vars := removeAll i (cvar_vars S), hashTable := map (cut_after i) (hashTable S)\<rparr>"
  shows "typed_ok S'" "domains_ok k S \<Longrightarrow> domains_ok k S'" "count S' = count S"
proof -
  have "cvar_cheats S \<noteq> Some i" using cheats_var [OF S, of i] uc by auto
  then have Z: "typed_ok (set_var i zero_cvar S)" using typed_ok_replace [OF S i zero_cvar_ok(1)] by simp
  have "set c \<subseteq> {..<count S}" if "c \<in> set (map (cut_after i) (hashTable S))" for c
    using that cut_after_subset typed_okD(4) [OF S] by fastforce
  then show "typed_ok S'" using Z by (auto simp: typed_ok_def S'_def cheats_ok_def)
  show "domains_ok k S'" if "domains_ok k S"
    using domains_ok_replace [OF that zero_cvar_ok(2), of i] by (simp add: domains_ok_def S'_def)
  show "count S' = count S" by (simp add: S'_def)
qed

lemma restart_loop_ok:
  "typed_ok S \<Longrightarrow> \<forall>i \<in> set is. i < count S \<Longrightarrow>
   \<exists>S'. restart_loop is S = Inr S' \<and> typed_ok S' \<and> count S' = count S \<and> (\<forall>k. domains_ok k S \<longrightarrow> domains_ok k S')"
proof (induction "is" arbitrary: S)
  case (Cons i "is")
  consider "has_flag (CVAR_ROM OR CVAR_INIT OR CVAR_NORESTART) (cv_flags (var_at S i))"
    | "\<not> has_flag (CVAR_ROM OR CVAR_INIT OR CVAR_NORESTART) (cv_flags (var_at S i))"
        "has_flag CVAR_USER_CREATED (cv_flags (var_at S i))"
    | "\<not> has_flag (CVAR_ROM OR CVAR_INIT OR CVAR_NORESTART) (cv_flags (var_at S i))"
        "\<not> has_flag CVAR_USER_CREATED (cv_flags (var_at S i))"
    by blast
  then show ?case
  proof cases
    case 1
    then show ?thesis using Cons by (simp add: Let_def)
  next
    case 2
    note C = clear_ok [OF Cons.prems(1) _ 2(2)]
    show ?thesis using 2 Cons.IH [OF C(1)] C(2,3) Cons.prems(2) by (simp add: Let_def) blast
  next
    case 3
    obtain S1 where S1: "Cvar_Reset (cvar_key (var_at S i)) S = Inr S1" "still_ok S S1" "count S1 = count S"
      using Cvar_Reset_ok [OF Cons.prems(1), of "cvar_key (var_at S i)"] by (auto simp: sets_ok_def sets_values_def)
    show ?thesis
      using 3 S1 Cons.IH [OF still_okD(1) [OF S1(2)]] Cons.prems(2) still_okD(3) [OF S1(2)]
      by (simp add: Let_def) blast
  qed
qed simp

lemma Restart_ok:
  assumes "typed_ok S"
  obtains S' where "Cvar_Restart_f S = Inr S'" "typed_ok S'" "\<And>k. domains_ok k S \<Longrightarrow> domains_ok k S'"
  using restart_loop_ok [OF assms, of "cvar_vars S"] typed_okD(2) [OF assms] unfolding Cvar_Restart_f_def by auto

lemma restart_loop_sets:
  "typed_ok S \<Longrightarrow> \<forall>i \<in> set is. i < count S \<and> \<not> cleared S i \<Longrightarrow> sets_ok S (restart_loop is S)"
proof (induction "is" arbitrary: S)
  case (Cons i "is")
  show ?case
  proof (cases "has_flag (CVAR_ROM OR CVAR_INIT OR CVAR_NORESTART) (cv_flags (var_at S i))")
    case True
    then show ?thesis using Cons by (simp add: Let_def)
  next
    case False
    obtain S1 where S1: "Cvar_Reset (cvar_key (var_at S i)) S = Inr S1" "still_ok S S1" "sets_values S S1"
      using Cvar_Reset_ok [OF Cons.prems(1), of "cvar_key (var_at S i)"] by (auto simp: sets_ok_def)
    have "j < count S1 \<and> \<not> cleared S1 j" if "j \<in> set is" for j
    proof -
      have j: "j < count S" "\<not> cleared S j" using Cons.prems(2) that by simp_all
      then have "count S1 = count S" "revalued (var_at S j) (var_at S1 j)" using S1(3) by (simp_all add: sets_values_def)
      then show ?thesis using j revalued_fields(2) by (simp add: cleared_def)
    qed
    then have "sets_ok S1 (restart_loop is S1)" using Cons.IH [OF still_okD(1) [OF S1(2)]] by blast
    then show ?thesis
      using False Cons.prems(2) S1(1) sets_ok_trans [OF S1(2,3)] by (simp add: Let_def cleared_def)
  qed
qed simp

lemma Restart_sets:
  "typed_ok S \<Longrightarrow> \<forall>i \<in> set (cvar_vars S). \<not> cleared S i \<Longrightarrow> sets_ok S (Cvar_Restart_f S)"
  unfolding Cvar_Restart_f_def using restart_loop_sets typed_okD(2) by metis

text \<open>What a restart that clears variables leaves of a chain: all up to the first of them.\<close>

primrec cut_at :: "nat set \<Rightarrow> nat list \<Rightarrow> nat list" where
  "cut_at D [] = []"
| "cut_at D (x # xs) = (if x \<in> D then [x] else x # cut_at D xs)"

lemma cut_after_at: "cut_after d c = cut_at {d} c"
  by (induction c) (auto simp: cut_after_def)

lemma cut_at_Un: "cut_at D (cut_at E c) = cut_at (D \<union> E) c"
  by (induction c) auto

lemma cut_at_empty [simp]: "cut_at {} c = c"
  by (induction c) auto

lemma cut_at_kept: "i \<notin> D \<Longrightarrow> i \<in> set (cut_at D c) \<longleftrightarrow> i \<in> set (takeWhile (\<lambda>j. j \<notin> D) c)"
  by (induction c) auto

lemma restart_loop_chains:
  "typed_ok S \<Longrightarrow> \<forall>i \<in> set is. i < count S \<Longrightarrow> distinct is \<Longrightarrow> restart_loop is S = Inr S' \<Longrightarrow>
   hashTable S' = map (cut_at {i \<in> set is. cleared S i}) (hashTable S) \<and>
   (\<forall>j < count S. cv_name (var_at S' j) = (if j \<in> set is \<and> cleared S j then None else cv_name (var_at S j)))"
proof (induction "is" arbitrary: S)
  case Nil
  then show ?case by (simp add: map_idI)
next
  case (Cons i "is")
  let ?keep = "has_flag (CVAR_ROM OR CVAR_INIT OR CVAR_NORESTART) (cv_flags (var_at S i))"
  let ?D = "{j \<in> set is. cleared S j}"
  have i: "i < count S" "\<forall>j \<in> set is. j < count S" "i \<notin> set is" "distinct is" using Cons.prems by simp_all
  show ?case
  proof (cases "cleared S i")
    case True
    then have uc: "has_flag CVAR_USER_CREATED (cv_flags (var_at S i))" "\<not> ?keep" by (simp_all add: cleared_def)
    let ?S1 = "(set_var i zero_cvar S)
      \<lparr>cvar_vars := removeAll i (cvar_vars S), hashTable := map (cut_after i) (hashTable S)\<rparr>"
    note C = clear_ok [OF Cons.prems(1) i(1) uc(1)]
    have same: "cleared ?S1 j = cleared S j" if "j \<in> set is" for j
    proof -
      have "i \<noteq> j" using that i(3) by blast
      then show ?thesis by (simp add: cleared_def)
    qed
    have "restart_loop is ?S1 = Inr S'" using Cons.prems(4) uc by (simp add: Let_def)
    then have R: "hashTable S' = map (cut_at {j \<in> set is. cleared ?S1 j}) (hashTable ?S1)"
      "\<forall>j < count S. cv_name (var_at S' j) = (if j \<in> set is \<and> cleared ?S1 j then None else cv_name (var_at ?S1 j))"
      using Cons.IH [OF C(1) _ i(4)] i(2) C(3) by simp_all
    have D: "{j \<in> set (i # is). cleared S j} = ?D \<union> {i}" "{j \<in> set is. cleared ?S1 j} = ?D"
      using True same by auto
    have "cv_name zero_cvar = None" by (simp add: zero_cvar_def)
    then have "cv_name (var_at S' j) = (if j \<in> set (i # is) \<and> cleared S j then None else cv_name (var_at S j))"
      if j: "j < count S" for j
    proof (cases "j = i")
      case True
      then show ?thesis using R(2) j \<open>cv_name zero_cvar = None\<close> \<open>cleared S i\<close> by simp
    next
      case False
      then show ?thesis using R(2) [rule_format, OF j] same [of j] by (cases "j \<in> set is") simp_all
    qed
    moreover have "hashTable S' = map (cut_at (?D \<union> {i})) (hashTable S)"
      using R(1) unfolding D(2) by (simp add: cut_after_at cut_at_Un)
    ultimately show ?thesis unfolding D(1) by blast
  next
    case False
    have D: "{j \<in> set (i # is). cleared S j} = ?D" using False by auto
    show ?thesis
    proof (cases ?keep)
      case True
      then have "restart_loop is S = Inr S'" using Cons.prems(4) by (simp add: Let_def)
      then show ?thesis using Cons.IH [OF Cons.prems(1) i(2,4)] False unfolding D by auto
    next
      case keep: False
      obtain S1 where S1: "Cvar_Reset (cvar_key (var_at S i)) S = Inr S1" "still_ok S S1" "sets_values S S1"
        using Cvar_Reset_ok [OF Cons.prems(1), of "cvar_key (var_at S i)"] by (auto simp: sets_ok_def)
      have run: "restart_loop is S1 = Inr S'"
        using Cons.prems(4) keep False S1(1) by (simp add: Let_def cleared_def)
      have V: "count S1 = count S" "hashTable S1 = hashTable S"
        "\<And>j. j < count S \<Longrightarrow> revalued (var_at S j) (var_at S1 j)"
        using S1(3) by (simp_all add: sets_values_def)
      have same: "cleared S1 j = cleared S j" "cv_name (var_at S1 j) = cv_name (var_at S j)" if "j < count S" for j
        using revalued_fields(1,2) [OF V(3) [OF that]] by (simp_all add: cleared_def)
      have "{j \<in> set is. cleared S1 j} = ?D" using same(1) i(2) by auto
      then show ?thesis
        using Cons.IH [OF still_okD(1) [OF S1(2)] _ i(4) run] V(1,2) i(2) same False unfolding D by auto
    qed
  qed
qed

lemma takeWhile_filter_rev:
  "i \<in> set (takeWhile (\<lambda>j. j \<notin> D) (filter Q (rev [0..<n]))) \<longleftrightarrow>
   i < n \<and> Q i \<and> (\<forall>j. i \<le> j \<and> j < n \<and> Q j \<longrightarrow> j \<notin> D)"
  by (induction n) (auto simp: less_Suc_eq)

text \<open>
  After a restart a name is found unless its variable, or one in front of it in its chain, was
  cleared.
\<close>

lemma Restart_FindVar:
  assumes S: "cvars_ok S" and name: "ok_name name" and run: "Cvar_Restart_f S = Inr S'"
  shows "Cvar_FindVar S' name = Some i \<longleftrightarrow> Cvar_FindVar S name = Some i \<and>
    (\<forall>j. i \<le> j \<and> j < count S \<and> generateHashValue (key_at S j) = generateHashValue name \<longrightarrow> \<not> cleared S j)"
proof -
  let ?h = "generateHashValue name" and ?D = "{j \<in> set (cvar_vars S). cleared S j}"
  have vars: "cvar_vars S = rev [0..<count S]" by (rule cvars_okD(1) [OF S])
  have R: "hashTable S' = map (cut_at ?D) (hashTable S)"
    "\<And>j. j < count S \<Longrightarrow> cv_name (var_at S' j) = (if j \<in> set (cvar_vars S) \<and> cleared S j then None else cv_name (var_at S j))"
    using restart_loop_chains [OF cvars_typed_ok [OF S] _ _ run [unfolded Cvar_Restart_f_def]] vars by auto
  have chain: "hashTable S ! ?h = filter (\<lambda>j. generateHashValue (key_at S j) = ?h) (rev [0..<count S])"
    "length (hashTable S) = 512"
    using cvars_okD(4) [OF S] hash_range vars by (simp_all add: chains_ok_def)
  have hit: "Q_stricmp (Some name) (cv_name (var_at S' j)) = 0 \<longleftrightarrow> j \<notin> ?D \<and> folded name = folded (key_at S j)"
    if "j < count S" for j
    using R(2) [OF that] var_okD(1,2) [OF cvars_okD(2) [OF S that]] same_name_folded [OF name] vars that
    by (auto simp: Q_stricmp_def)
  have "set (cut_at ?D c) \<subseteq> set c" for c by (induction c) auto
  then have sub: "j < count S" if "j \<in> set (cut_at ?D (hashTable S ! ?h))" for j
    using that unfolding chain(1) by fastforce
  have "Cvar_FindVar S' name = List.find (\<lambda>j. j \<notin> ?D \<and> folded name = folded (key_at S j)) (cut_at ?D (hashTable S ! ?h))"
  proof -
    have "hashTable S' ! ?h = cut_at ?D (hashTable S ! ?h)" using R(1) chain(2) hash_range [of name] by simp
    then show ?thesis
      unfolding Cvar_FindVar_def by (simp only:) (rule find_cong [OF refl], rule hit, rule sub)
  qed
  also have "\<dots> = Some i \<longleftrightarrow> i \<in> set (cut_at ?D (hashTable S ! ?h)) \<and> i \<notin> ?D \<and> folded name = folded (key_at S i)"
  proof
    assume "List.find (\<lambda>j. j \<notin> ?D \<and> folded name = folded (key_at S j)) (cut_at ?D (hashTable S ! ?h)) = Some i"
    then show "i \<in> set (cut_at ?D (hashTable S ! ?h)) \<and> i \<notin> ?D \<and> folded name = folded (key_at S i)"
      unfolding find_Some_iff by (auto simp del: cut_at.simps)
  next
    assume i: "i \<in> set (cut_at ?D (hashTable S ! ?h)) \<and> i \<notin> ?D \<and> folded name = folded (key_at S i)"
    then obtain j where j: "List.find (\<lambda>j. j \<notin> ?D \<and> folded name = folded (key_at S j)) (cut_at ?D (hashTable S ! ?h)) = Some j"
      by (metis (mono_tags, lifting) find_None_iff not_Some_eq)
    then have "j \<in> set (cut_at ?D (hashTable S ! ?h))" "folded name = folded (key_at S j)"
      unfolding find_Some_iff by (auto simp del: cut_at.simps)
    moreover from this have "j < count S" "i < count S" using sub i by blast+
    ultimately have "j = i" using cvars_okD(3) [OF S, of j i] i by argo
    then show "List.find (\<lambda>j. j \<notin> ?D \<and> folded name = folded (key_at S j)) (cut_at ?D (hashTable S ! ?h)) = Some i"
      using j by simp
  qed
  also have "\<dots> \<longleftrightarrow> i \<in> set (takeWhile (\<lambda>j. j \<notin> ?D) (hashTable S ! ?h)) \<and> i \<notin> ?D \<and> folded name = folded (key_at S i)"
    using cut_at_kept [of i ?D "hashTable S ! ?h"] by argo
  also have "\<dots> \<longleftrightarrow> i < count S \<and> generateHashValue (key_at S i) = ?h \<and>
      (\<forall>j. i \<le> j \<and> j < count S \<and> generateHashValue (key_at S j) = ?h \<longrightarrow> \<not> cleared S j) \<and> folded name = folded (key_at S i)"
    unfolding chain(1) takeWhile_filter_rev using vars by auto
  also have "\<dots> \<longleftrightarrow> Cvar_FindVar S name = Some i \<and>
      (\<forall>j. i \<le> j \<and> j < count S \<and> generateHashValue (key_at S j) = ?h \<longrightarrow> \<not> cleared S j)"
    using FindVar_Some [OF S name, of i] hash_folded [of name "key_at S i" 0] by (auto simp: generateHashValue_def)
  finally show ?thesis .
qed

text \<open>The state behind \<open>Cvar_Init\<close>.\<close>

definition cheats_var0 :: cvar where
  "cheats_var0 = fresh_var ''cvar_cheats'' CVAR_BOOL CVAR_INIT (word_union [0]) NULL NULL (Some ''Enable cheating'')"

definition first_cvars :: cvarsys where
  "first_cvars =
     no_cvars\<lparr>cvar_indexes := [cheats_var0], cvar_vars := [0],
       hashTable := (hashTable no_cvars)[generateHashValue ''cvar_cheats'' := [0]],
       cvar_modifiedFlags := scast CVAR_INIT, cvar_cheats := Some 0\<rparr>"

lemma no_cvars_chain: "h < 512 \<Longrightarrow> hashTable no_cvars ! h = []"
  by (simp add: no_cvars_def FILE_HASH_SIZE_def)

lemma Cvar_Init_first: "Cvar_Init fp no_cvars = Inr first_cvars"
proof -
  have "Cvar_FindVar no_cvars ''cvar_cheats'' = None"
    by (simp add: Cvar_FindVar_def no_cvars_chain hash_range)
  moreover have "Cvar_ValidateNewVar (Some ''cvar_cheats'') CVAR_BOOL (word_union [0]) NULL NULL = Inr True"
    by (simp add: Cvar_ValidateNewVar_def Cvar_ValidateString_def value_valid_def get_byte_def word_union_def)
  ultimately have "Cvar_RegisterBool fp (Some ''cvar_cheats'') 0 CVAR_INIT (Some ''Enable cheating'') no_cvars =
      Inr (0, first_cvars\<lparr>cvar_cheats := None\<rparr>)"
    by (simp add: Cvar_RegisterBool_def Cvar_Register_def Let_def cheats_var0_def first_cvars_def MAX_CVARS_def
        no_cvars_chain hash_range) (simp add: no_cvars_def)
  moreover have "get_bool (cv_value cheats_var0) = Inr False"
    by (simp add: cheats_var0_def fresh_var_fields fresh_union_def get_bool_def word_union_def)
  ultimately show ?thesis by (simp add: Cvar_Init_def first_cvars_def no_cvars_def)
qed

lemma cheats_var0_ok: "var_ok cheats_var0" "var_in_domain k cheats_var0"
proof -
  have r: "reg_fits CVAR_BOOL (word_union [0]) NULL NULL" by (auto simp: reg_fits_def limited_def)
  have "value_valid CVAR_BOOL (word_union [0]) NULL NULL = Inr True"
    by (simp add: value_valid_def get_byte_def word_union_def)
  note V = fresh_var_ok [OF r this, of CVAR_INIT, where nm = "''cvar_cheats''" and desc = "Some ''Enable cheating''"]
  have "\<not> has_flag CVAR_USER_CREATED CVAR_INIT"
    by (simp add: has_flag_def CVAR_USER_CREATED_def CVAR_INIT_def)
  then show "var_ok cheats_var0" "var_in_domain k cheats_var0"
    using V(2,3) by (simp_all add: cheats_var0_def default_named_def ok_name_def nul_free_def)
qed

lemma first_cvars_ok: "cvars_ok first_cvars" "domains_ok k first_cvars"
proof -
  let ?h = "generateHashValue ''cvar_cheats''"
  have v: "cvar_key cheats_var0 = ''cvar_cheats''" "cv_type cheats_var0 = CVAR_BOOL" "cv_flags cheats_var0 = CVAR_INIT"
    by (simp_all add: cheats_var0_def fresh_var_fields)
  have "hashTable first_cvars ! g = (if g = ?h then [0] else [])" if "g < 512" for g
    using that hash_range no_cvars_chain by (simp add: first_cvars_def nth_list_update no_cvars_def FILE_HASH_SIZE_def)
  then have "chains_ok first_cvars"
    by (auto simp: chains_ok_def v first_cvars_def no_cvars_def FILE_HASH_SIZE_def)
  moreover have "cheats_ok first_cvars"
    by (simp add: cheats_ok_def first_cvars_def v has_flag_def CVAR_INIT_def CVAR_USER_CREATED_def)
  ultimately show "cvars_ok first_cvars" "domains_ok k first_cvars"
    using cheats_var0_ok by (simp_all add: cvars_ok_def domains_ok_def first_cvars_def inj_on_def)
qed

end
