(* ===== verification/CvarProperties.thy ===== *)
theory CvarProperties
  imports CvarReach
begin

text \<open>
  The states any sequence of operations on console variables reaches, as a step relation,
  and the theorems about them: type safety, values in their domains, look-up, setting and
  reading back.  Restarts are steps as well; without \<open>clears\<close> only those which throw no
  variable of the user out.  With \<open>slack = Some k\<close> no registration of a variable that exists
  changes its type or its limits, and with \<open>slack = Some 0\<close> the default an enumeration is
  registered with names one of its strings.
\<close>

inductive cvar_step :: "bool \<Rightarrow> nat option \<Rightarrow> fpu \<Rightarrow> cvarsys \<Rightarrow> cvarsys \<Rightarrow> bool"
  for clears :: bool and slack :: "nat option" and fp :: fpu where
  register: "ok_name name \<Longrightarrow> reg_fits t val lo hi \<Longrightarrow> \<not> has_flag CVAR_USER_CREATED flags \<Longrightarrow>
     (\<forall>k. slack = Some k \<longrightarrow> same_domain k S name t val lo hi) \<Longrightarrow>
     Cvar_Register fp (Some name) t flags val lo hi desc S = Inr (i, S') \<Longrightarrow> cvar_step clears slack fp S S'"
| set_name: "ok_name name \<Longrightarrow> Cvar_Set2 fp name p force S = Inr S' \<Longrightarrow> cvar_step clears slack fp S S'"
| set_cheat: "ok_name name \<Longrightarrow> Cvar_SetAllowCheatOnly fp name p S = Inr S' \<Longrightarrow> cvar_step clears slack fp S S'"
| set_typed: "ok_name name \<Longrightarrow> fits_type t val \<Longrightarrow>
     Cvar_SetWithType fp name val t force S = Inr S' \<Longrightarrow> cvar_step clears slack fp S S'"
| set_address: "i < count S \<Longrightarrow> fits_type (cv_type (var_at S i)) val \<Longrightarrow>
     Cvar_SetVariant (Some i) val force S = Inr (code, S') \<Longrightarrow> cvar_step clears slack fp S S'"
| change_reset: "i < count S \<Longrightarrow> fits_type (cv_type (var_at S i)) val \<Longrightarrow>
     Cvar_ChangeResetValue i val S = Inr S' \<Longrightarrow> cvar_step clears slack fp S S'"
| reset: "Cvar_Reset name S = Inr S' \<Longrightarrow> cvar_step clears slack fp S S'"
| cheat_state: "Cvar_SetCheatState S = Inr S' \<Longrightarrow> cvar_step clears slack fp S S'"
| restart: "(\<not> clears \<Longrightarrow> \<forall>i \<in> set (cvar_vars S). \<not> cleared S i) \<Longrightarrow>
     Cvar_Restart_f S = Inr S' \<Longrightarrow> cvar_step clears slack fp S S'"
| add_flags: "i < count S \<Longrightarrow> \<not> has_flag CVAR_USER_CREATED flags \<Longrightarrow>
     cvar_step clears slack fp S (set_var i (Cvar_AddFlags flags (var_at S i)) S)"
| clear_flags: "i < count S \<Longrightarrow> cvar_step clears slack fp S (set_var i (Cvar_ClearFlags flags (var_at S i)) S)"
| counters: "cvar_step clears slack fp S (S\<lparr>cvar_modifiedFlags := m, cvar_archivedset := b\<rparr>)"

lemma keeps_cvarsD: "keeps_cvars S r \<Longrightarrow> r = Inr S' \<Longrightarrow> still_ok S S'"
  by (auto simp: keeps_cvars_def)

text \<open>What a step keeps: all of it, but for the domains and the table where the parameters say so.\<close>

definition step_keeps :: "bool \<Rightarrow> nat option \<Rightarrow> cvarsys \<Rightarrow> cvarsys \<Rightarrow> bool" where
  "step_keeps clears slack S S' \<longleftrightarrow> typed_ok S' \<and> (\<not> clears \<and> cvars_ok S \<longrightarrow> cvars_ok S') \<and>
     (\<forall>k. slack = Some k \<and> domains_ok k S \<longrightarrow> domains_ok k S')"

lemma still_ok_step: "still_ok S S' \<Longrightarrow> step_keeps clears slack S S'"
  by (simp add: still_ok_def step_keeps_def)

lemma cvar_step_keeps:
  assumes "cvar_step clears slack fp S S'" "typed_ok S"
  shows "step_keeps clears slack S S'"
  using assms(1)
proof cases
  case (register name t val lo hi flags desc i)
  then show ?thesis
    using Register_ok [OF assms(2), of "Some name" t val lo hi flags fp desc] by (auto simp: step_keeps_def)
next
  case (set_address i val force code)
  then have "still_ok S S'" using SetVariant_ok [OF assms(2)] by (metis Pair_inject sum.inject(2))
  then show ?thesis by (rule still_ok_step)
next
  case (set_typed name t val force)
  then have "keeps_cvars S (Cvar_SetWithType fp name val t force S)"
    using SetWithType_ok [OF assms(2), of name t val force fp] by (auto split: if_splits)
  then show ?thesis using keeps_cvarsD still_ok_step set_typed by blast
next
  case restart
  show ?thesis
  proof (cases "\<forall>i \<in> set (cvar_vars S). \<not> cleared S i")
    case True
    then show ?thesis using Restart_sets [OF assms(2)] still_ok_step restart(2) by (auto simp: sets_ok_def)
  next
    case False
    then show ?thesis using Restart_ok [OF assms(2)] restart by (auto simp: step_keeps_def)
  qed
next
  case (add_flags i flags)
  then show ?thesis
    using flags_ok [OF assms(2), of i "cv_flags (var_at S i) OR flags"] by (simp add: Cvar_AddFlags_def still_ok_step)
next
  case (clear_flags i flags)
  have "has_flag CVAR_USER_CREATED (cv_flags (var_at S i) AND NOT flags) \<Longrightarrow>
      has_flag CVAR_USER_CREATED (cv_flags (var_at S i))"
    by (auto simp: has_flag_def and.assoc and.left_commute)
  then show ?thesis using flags_ok [OF assms(2)] clear_flags by (simp add: Cvar_ClearFlags_def still_ok_step)
next
  case (counters b m)
  then show ?thesis using assms(2) by (simp add: still_ok_step)
next
  case (set_name name p force)
  then show ?thesis using keeps_cvarsD [OF Set2_ok [OF assms(2)]] still_ok_step by blast
next
  case (set_cheat name p)
  then show ?thesis using keeps_cvarsD [OF AllowCheat_ok [OF assms(2)]] still_ok_step by blast
next
  case (change_reset i val)
  then show ?thesis using keeps_cvarsD [OF ChangeReset_ok [OF assms(2)]] still_ok_step by blast
next
  case (reset name)
  then show ?thesis using keeps_cvarsD [OF keeps_sets [OF Cvar_Reset_ok [OF assms(2)]]] still_ok_step by blast
next
  case cheat_state
  then show ?thesis using keeps_cvarsD [OF keeps_sets [OF SetCheatState_ok [OF assms(2)]]] still_ok_step by blast
qed

lemma cvars_reached:
  assumes "(cvar_step clears slack fp)\<^sup>*\<^sup>* first_cvars S"
  shows "typed_ok S" "\<not> clears \<Longrightarrow> cvars_ok S" "slack = Some k \<Longrightarrow> domains_ok k S"
proof -
  have "typed_ok S \<and> (\<not> clears \<longrightarrow> cvars_ok S) \<and> (slack = Some k \<longrightarrow> domains_ok k S)"
    using assms
  proof (induction rule: rtranclp_induct)
    case base
    then show ?case using first_cvars_ok cvars_typed_ok by simp
  next
    case (step S S')
    then show ?case using cvar_step_keeps [OF step(2)] by (auto simp: step_keeps_def)
  qed
  then show "typed_ok S" "\<not> clears \<Longrightarrow> cvars_ok S" "slack = Some k \<Longrightarrow> domains_ok k S" by blast+
qed

section \<open>Reading a variable\<close>

lemma found_typed:
  assumes "typed_ok S" "Cvar_FindVar S name = Some i"
  shows "i < count S" "var_typed (var_at S i)" "fits_type (cv_type (var_at S i)) (cv_value (var_at S i))"
proof -
  show "i < count S" using FindVar_range [OF assms] .
  then show "var_typed (var_at S i)" using typed_okD(1) [OF assms(1)] var_cellsD(1) by blast
  then show "fits_type (cv_type (var_at S i)) (cv_value (var_at S i))" by (simp add: var_typed_def)
qed

lemma reads_ok:
  assumes S: "typed_ok S"
  shows "\<exists>x. Cvar_VariableString fp S name = Inr x" "\<exists>x. Cvar_VariableValue fp S name = Inr x"
    "\<exists>x. Cvar_VariableIntegerValue fp S name = Inr x" "\<exists>x. Cvar_VariableBooleanValue S name = Inr x"
proof -
  have 1: "\<exists>x. Cvar_VariableString fp S name = Inr x"
  proof (cases "Cvar_FindVar S name")
    case (Some i)
    then show ?thesis
      using ValueToStr_ok [OF found_typed(2,3) [OF S Some], of fp 8192]
      by (auto simp: Cvar_VariableString_def Cvar_DisplayableValue_def)
  qed (simp add: Cvar_VariableString_def)
  have u: "(\<exists>a. cv_value (var_at S i) ! 0 = Cell a \<and> cv_type (var_at S i) \<noteq> CVAR_STRING) \<or>
      cv_type (var_at S i) = CVAR_STRING \<and> (\<exists>p. as_text (cv_value (var_at S i) ! 0) = Inr p)"
    if "Cvar_FindVar S name = Some i" for i
    using found_typed(3) [OF S that] by (cases rule: fits_cases) auto
  have 2: "\<exists>x. Cvar_VariableValue fp S name = Inr x"
    using u by (cases "Cvar_FindVar S name") (fastforce simp: Cvar_VariableValue_def Let_def split: cvarType.split)+
  have 3: "\<exists>x. Cvar_VariableIntegerValue fp S name = Inr x"
    using u by (cases "Cvar_FindVar S name")
      (fastforce simp: Cvar_VariableIntegerValue_def Let_def get_byte_def split: cvarType.split)+
  have 4: "\<exists>x. Cvar_VariableBooleanValue S name = Inr x"
    using u by (cases "Cvar_FindVar S name")
      (fastforce simp: Cvar_VariableBooleanValue_def Let_def get_bool_def split: cvarType.split)+
  from 1 2 3 4 show "\<exists>x. Cvar_VariableString fp S name = Inr x" "\<exists>x. Cvar_VariableValue fp S name = Inr x"
    "\<exists>x. Cvar_VariableIntegerValue fp S name = Inr x" "\<exists>x. Cvar_VariableBooleanValue S name = Inr x"
    by blast+
qed

lemma keeps_no_fault: "keeps_cvars S r \<Longrightarrow> no_fault r"
  by (auto simp: keeps_cvars_def no_fault_def)

section \<open>Type safety\<close>

text \<open>
  Claim C5.  Console variables are type safe.  In every state that registering, setting by
  name, by address or by type, resetting, changing reset values and flags, and restarting
  reaches, the cells of each variable's current, latched and reset value and its limits fit
  its type.  Then no look-up, no conversion to a string or a number and no further operation
  reads a number as an address or an address as a number: each returns, or stops with the
  program's own error.  There is one exception, stated exactly: \<open>Cvar_SetWithType\<close> with a
  number that is not zero and no variable of that type to set creates a string variable and
  takes the number as the address of its text.  A setter by address is given a value of the
  variable's type.
\<close>

theorem cvar_type_safe:
  assumes "(cvar_step True None fp)\<^sup>*\<^sup>* first_cvars S" and "ok_name name" and "reg_fits t val lo hi"
    and "\<not> has_flag CVAR_USER_CREATED flags" and "fits_type u new"
  shows "(\<forall>v \<in> set (cvar_indexes S). var_typed v) \<and>
    no_fault (Cvar_Register fp (Some name) t flags val lo hi desc S) \<and>
    no_fault (Cvar_Set2 fp name p force S) \<and> no_fault (Cvar_SetAllowCheatOnly fp name p S) \<and>
    (no_fault (Cvar_SetWithType fp name new u force S) \<longleftrightarrow> \<not> number_as_text S name new u force) \<and>
    (\<forall>i < length (cvar_indexes S). cv_type (var_at S i) = u \<longrightarrow>
       no_fault (Cvar_SetVariant (Some i) new force S) \<and> no_fault (Cvar_ChangeResetValue i new S)) \<and>
    no_fault (Cvar_Reset name S) \<and> no_fault (Cvar_SetCheatState S) \<and> no_fault (Cvar_Restart_f S) \<and>
    (\<exists>x. Cvar_VariableString fp S name = Inr x) \<and> (\<exists>x. Cvar_VariableValue fp S name = Inr x) \<and>
    (\<exists>x. Cvar_VariableIntegerValue fp S name = Inr x) \<and> (\<exists>x. Cvar_VariableBooleanValue S name = Inr x)"
proof -
  have S: "typed_ok S" using cvars_reached(1) [OF assms(1)] .
  have "\<forall>v \<in> set (cvar_indexes S). var_typed v" using S var_cellsD(1) by (auto simp: typed_ok_def)
  moreover have "no_fault (Cvar_Register fp (Some name) t flags val lo hi desc S)"
    using Register_ok [OF S _ assms(3), of "Some name" flags fp desc] assms(2,4) by (auto simp: no_fault_def)
  moreover have "no_fault (Cvar_SetWithType fp name new u force S) \<longleftrightarrow> \<not> number_as_text S name new u force"
    using SetWithType_ok [OF S assms(2,5), of force fp] keeps_no_fault by (auto simp: no_fault_def split: if_splits)
  moreover have "no_fault (Cvar_SetVariant (Some i) new force S) \<and> no_fault (Cvar_ChangeResetValue i new S)"
    if i: "i < count S" "cv_type (var_at S i) = u" for i
  proof -
    have "fits_type (cv_type (var_at S i)) new" using assms(5) i(2) by simp
    then show ?thesis
      using SetVariant_ok [OF S i(1)] ChangeReset_ok [OF S i(1)] keeps_no_fault
      by (metis no_fault_def sum.distinct(1))
  qed
  moreover have "no_fault (Cvar_Restart_f S)" using Restart_ok [OF S] by (metis no_fault_def sum.distinct(1))
  moreover note reads_ok [OF S] keeps_no_fault [OF Set2_ok [OF S assms(2)]]
    keeps_no_fault [OF AllowCheat_ok [OF S assms(2)]]
    keeps_no_fault [OF keeps_sets [OF Cvar_Reset_ok [OF S]]]
    keeps_no_fault [OF keeps_sets [OF SetCheatState_ok [OF S]]]
  ultimately show ?thesis by blast
qed

definition demo_fpu :: fpu where
  "demo_fpu = \<lparr>fp_atof = (\<lambda>_. 0), fp_of_int = (\<lambda>_. 0), fp_to_int = (\<lambda>_. 0), fp_byte = (\<lambda>_. 0),
     fp_g = (\<lambda>_. ''0''), fp_g3 = (\<lambda>_. ''0'')\<rparr>"

definition fps_var :: cvar where
  "fps_var = fresh_var ''sv_fps'' CVAR_INT CVAR_ARCHIVE (word_union [20]) (Cell 10) (Cell 1000) None"

definition demo_cvars :: cvarsys where
  "demo_cvars =
     first_cvars\<lparr>cvar_indexes := [cheats_var0, fps_var], cvar_vars := [1, 0],
       hashTable := (hashTable first_cvars)
         [generateHashValue ''sv_fps'' := 1 # hashTable first_cvars ! generateHashValue ''sv_fps''],
       cvar_modifiedFlags := cvar_modifiedFlags first_cvars OR scast CVAR_ARCHIVE\<rparr>"

lemma demo_fps_fits: "reg_fits CVAR_INT (word_union [20]) (Cell 10) (Cell 1000)"
  by (auto simp: reg_fits_def)

lemma demo_names: "ok_name ''sv_fps''" "\<not> has_flag CVAR_USER_CREATED CVAR_ARCHIVE"
  by (simp_all add: ok_name_def nul_free_def has_flag_def CVAR_USER_CREATED_def CVAR_ARCHIVE_def)

lemma demo_fps_new: "Cvar_FindVar first_cvars ''sv_fps'' = None"
proof -
  have "count first_cvars = 1" "key_at first_cvars 0 = ''cvar_cheats''"
    by (simp_all add: first_cvars_def cheats_var0_def fresh_var_fields)
  then show ?thesis
    using FindVar_None [OF first_cvars_ok(1) demo_names(1)] by (auto simp: folded_def)
qed

lemma demo_register:
  "Cvar_RegisterInt fp (Some ''sv_fps'') 20 10 1000 CVAR_ARCHIVE None first_cvars = Inr (1, demo_cvars)"
proof -
  have "Cvar_ValidateNewVar (Some ''sv_fps'') CVAR_INT (word_union [20]) (Cell 10) (Cell 1000) = Inr True"
    by (simp add: Cvar_ValidateNewVar_def Cvar_ValidateString_def value_valid_def word_union_def)
  then show ?thesis
    by (simp add: Cvar_RegisterInt_def Cvar_Register_def Let_def demo_fps_new demo_cvars_def fps_var_def)
      (simp add: first_cvars_def MAX_CVARS_def)
qed

lemma demo_step: "cvar_step clears slack demo_fpu first_cvars demo_cvars"
proof (rule cvar_step.register [OF demo_names(1) demo_fps_fits demo_names(2)])
  show "\<forall>k. slack = Some k \<longrightarrow> same_domain k first_cvars ''sv_fps'' CVAR_INT (word_union [20]) (Cell 10) (Cell 1000)"
    by (simp add: same_domain_def demo_fps_new default_named_def)
  show "Cvar_Register demo_fpu (Some ''sv_fps'') CVAR_INT CVAR_ARCHIVE (word_union [20]) (Cell 10) (Cell 1000)
      None first_cvars = Inr (1, demo_cvars)"
    using demo_register by (simp add: Cvar_RegisterInt_def)
qed

lemma demo_var: "cvar_key (var_at demo_cvars 1) = ''sv_fps''" "cv_type (var_at demo_cvars 1) = CVAR_INT"
    "cv_flags (var_at demo_cvars 1) = CVAR_ARCHIVE" "count demo_cvars = 2"
  by (simp_all add: demo_cvars_def fps_var_def fresh_var_fields)

lemma demo_reached: "(cvar_step clears slack demo_fpu)\<^sup>*\<^sup>* first_cvars demo_cvars"
  using demo_step by (rule r_into_rtranclp)

lemma demo_find: "Cvar_FindVar demo_cvars ''sv_fps'' = Some 1"
proof -
  have "cvars_ok demo_cvars" using cvars_reached(2) [OF demo_reached [where clears = False]] by simp
  then show ?thesis using FindVar_Some [OF _ demo_names(1)] demo_var by simp
qed

theorem cvar_type_safe_witness:
  "no_fault (Cvar_Set2 demo_fpu ''sv_fps'' (Some ''abc'') False demo_cvars) \<and>
   no_fault (Cvar_SetIntByName demo_fpu ''sv_fps'' 40 demo_cvars) \<and> no_fault (Cvar_Restart_f demo_cvars) \<and>
   (\<exists>x. Cvar_VariableString demo_fpu demo_cvars ''sv_fps'' = Inr x)"
proof -
  have f: "fits_type CVAR_INT (word_union [word_of_int 40])" by (rule fits_words) simp_all
  note T = cvar_type_safe [OF demo_reached demo_names(1) demo_fps_fits demo_names(2) f]
  have "\<not> number_as_text demo_cvars ''sv_fps'' (word_union [word_of_int 40]) CVAR_INT True"
    using demo_find demo_var by (simp add: number_as_text_def)
  then show ?thesis using T [where force = True] T [where force = False and p = "Some ''abc''"]
    by (simp add: Cvar_SetIntByName_def)
qed

section \<open>Values stay in their domains\<close>

text \<open>
  Claim C14.  Values stay in their domains.  As long as no registration of an existing
  variable changes its type or limits, every variable's current and latched value are in its
  domain after any sequence of operations, restarts included: a flag is 0 or 1, a float or every
  component of a vector is a number within the limits, an integer lies between its minimum and
  maximum, an enumeration names one of its strings.  The last holds with \<open>k = 0\<close>, if every
  enumeration is registered with a default that has a name; \<open>Cvar_ValidateNewVar\<close> also lets a
  default through that is one past the last, and with \<open>k = 1\<close> and any registration an
  enumeration is never more than that one past its names.
\<close>

theorem cvar_values_in_domain:
  assumes "(cvar_step True (Some k) fp)\<^sup>*\<^sup>* first_cvars S" and "i < length (cvar_indexes S)"
  shows "in_domain k (cv_type (var_at S i)) (cv_min (var_at S i)) (cv_max (var_at S i)) (cv_value (var_at S i)) \<and>
    in_domain k (cv_type (var_at S i)) (cv_min (var_at S i)) (cv_max (var_at S i)) (cv_latched (var_at S i))"
proof -
  have "domains_ok k S" using cvars_reached(3) [OF assms(1)] by blast
  then show ?thesis using assms(2) by (simp add: domains_ok_def var_in_domain_def)
qed

theorem cvar_values_in_domain_witness:
  "in_domain 0 CVAR_INT (Cell 10) (Cell 1000) (cv_value (var_at demo_cvars 1)) \<and> count demo_cvars = 2"
  using cvar_values_in_domain [OF demo_reached, of 1]
  by (simp add: demo_cvars_def fps_var_def fresh_var_fields fresh_limits_def)

section \<open>Look-up\<close>

text \<open>
  Claim C38.  The hash table is the list, until a restart throws a variable out.  In every state
  that operations other than such a restart reach, the search of one hash chain finds what a
  search of the whole list of variables for the name, ignoring case, would find: the index of the
  only variable of that name, or nothing if there is none.  \<open>Cvar_Restart_f\<close> always returns from
  such a state, and behind it a name is found at the same index unless its variable was thrown
  out, or a newer variable of the same hash chain was: the rest of that chain is lost.
\<close>

theorem Cvar_FindVar_list:
  assumes "(cvar_step False slack fp)\<^sup>*\<^sup>* first_cvars S" and "ok_name name"
  shows "Cvar_FindVar S name = List.find (\<lambda>i. same_name name (cvar_key (var_at S i))) (cvar_vars S) \<and>
    (\<forall>i. Cvar_FindVar S name = Some i \<longleftrightarrow>
       i < length (cvar_indexes S) \<and> same_name name (cvar_key (var_at S i))) \<and>
    (\<exists>S'. Cvar_Restart_f S = Inr S' \<and>
       (\<forall>i. Cvar_FindVar S' name = Some i \<longleftrightarrow> Cvar_FindVar S name = Some i \<and>
          (\<forall>j. i \<le> j \<and> j < length (cvar_indexes S) \<and>
             generateHashValue (cvar_key (var_at S j)) = generateHashValue name \<longrightarrow> \<not> cleared S j)))"
proof -
  have S: "cvars_ok S" using cvars_reached(2) [OF assms(1)] by blast
  have "same_name name (key_at S i) \<longleftrightarrow> folded name = folded (key_at S i)" if "i < count S" for i
    using same_name_folded [OF assms(2) var_okD(2) [OF cvars_okD(2) [OF S that]]] .
  moreover obtain S' where S': "Cvar_Restart_f S = Inr S'" using Restart_ok [OF cvars_typed_ok [OF S]] by metis
  ultimately show ?thesis
    using FindVar_list [OF S assms(2)] FindVar_Some [OF S assms(2)] Restart_FindVar [OF S assms(2) S'] by blast
qed

theorem Cvar_FindVar_list_witness:
  "Cvar_FindVar demo_cvars ''SV_FPS'' = Some 1 \<and>
   (\<exists>S'. Cvar_Restart_f demo_cvars = Inr S' \<and> Cvar_FindVar S' ''SV_FPS'' = Some 1)"
proof -
  have "ok_name ''SV_FPS''" by (simp add: ok_name_def nul_free_def)
  note F = Cvar_FindVar_list [OF demo_reached this]
  have "same_name ''SV_FPS'' ''sv_fps''" by code_simp
  then have found: "Cvar_FindVar demo_cvars ''SV_FPS'' = Some 1"
    using conjunct1 [OF conjunct2 [OF F], rule_format, of 1] demo_var by simp
  have "\<not> cleared demo_cvars j" if "1 \<le> j" "j < count demo_cvars" for j
  proof -
    have "j = 1" using that demo_var by simp
    then show ?thesis using demo_var by (simp add: cleared_def has_flag_def CVAR_ARCHIVE_def CVAR_USER_CREATED_def)
  qed
  then show ?thesis using F found by (metis (no_types, lifting))
qed

section \<open>Setting and reading back\<close>

lemma integer_loop_digits:
  "\<forall>c \<in> set s. 48 \<le> uc c \<and> uc c \<le> 57 \<Longrightarrow> integer_loop s i lim sign ended"
  by (induction s i lim sign ended rule: integer_loop.induct) (auto simp: sc_alt)

lemma isInteger_int_dec: "isInteger (int_dec k) 0"
proof (cases "k < 0")
  case True
  then show ?thesis
    using integer_loop_digits [of "nat_dec (nat (- k))"] nat_dec_digits
    by (simp add: isInteger_def int_dec_def sc_alt uc_def scan_end_def)
next
  case False
  then show ?thesis
    using integer_loop_digits [of "nat_dec (nat k)"] nat_dec_digits by (simp add: isInteger_def int_dec_def)
qed

lemma sint_word_of_int: "int_range k \<Longrightarrow> sint (word_of_int k :: 32 word) = k"
  by (simp add: sint_sbintrunc' int_range_def signed_take_bit_id)

text \<open>Setting a value keeps every name where it is.\<close>

lemma FindVar_sets_values:
  assumes "typed_ok S" "sets_values S S'"
  shows "Cvar_FindVar S' name = Cvar_FindVar S name"
proof -
  have V: "hashTable S' = hashTable S" "\<And>i. i < count S \<Longrightarrow> cv_name (var_at S' i) = cv_name (var_at S i)"
    using assms(2) revalued_fields(1) by (auto simp: sets_values_def)
  have "i < count S" if "i \<in> set (hashTable S ! generateHashValue name)" for i
    using typed_okD(4,5) [OF assms(1)] hash_range [of name] that by (metis nth_mem)
  then show ?thesis unfolding Cvar_FindVar_def V(1) using V(2) by (intro find_cong) auto
qed

lemma Cvar_Set_found:
  assumes S: "typed_ok S" and name: "Cvar_ValidateString (Some name)" and i: "Cvar_FindVar S name = Some i"
    and val: "str_value fp (var_at S i) s = Some val"
    and sw: "set_switch False (var_at S i) val = Inr (code, v')"
  obtains S' where "Cvar_Set fp name (Some s) S = Inr S'" "Cvar_FindVar S' name = Some i"
    "var_at S' i = (if code = 1 then v'\<lparr>cv_modified := True\<rparr> else var_at S i)"
    "\<And>j. j \<noteq> i \<Longrightarrow> var_at S' j = var_at S j"
proof -
  have n: "i < count S" by (rule found_typed(1) [OF S i])
  let ?S1 = "(set_var i (v'\<lparr>cv_modified := True\<rparr>) S)
      \<lparr>cvar_modifiedFlags := cvar_modifiedFlags S OR scast (cv_flags (var_at S i))\<rparr>"
  define S' where "S' = (if code = 1 then ?S1 else S)"
  have run: "Cvar_Set fp name (Some s) S = Inr S'"
    using name i val sw
    by (simp add: Cvar_Set_def Cvar_Set2_def set_found_def Let_def Cvar_SetVariant_def refused_def S'_def)
  have "sets_ok S (set_found fp i s True S)" by (rule set_found_ok [OF S n])
  moreover have "set_found fp i s True S = Inr S'"
    using run name i by (simp add: Cvar_Set_def Cvar_Set2_def)
  ultimately have ok: "sets_values S S'" by (auto simp: sets_ok_def)
  show ?thesis
    using that [OF run] FindVar_sets_values [OF S ok] i n by (simp add: S'_def)
qed

text \<open>
  Claim C39.  What is set is what is read.  Take a variable that \<open>name\<close> finds in a reachable
  state.  An integer set from its decimal form is read back as that number if it lies within
  the variable's limits, and otherwise the variable keeps its number; a string set is read
  back, up to the 8191 characters of the buffer, unless it equals the old one except for
  case, in which case the old one stays.  No other variable changes.
\<close>

theorem Cvar_Set_get:
  assumes "(cvar_step True None fp)\<^sup>*\<^sup>* first_cvars S" and "Cvar_ValidateString (Some name)"
    and "Cvar_FindVar S name = Some i" and "int_range k"
  shows "(cv_type (var_at S i) = CVAR_INT \<longrightarrow>
      (\<exists>S' lo hi old. cv_min (var_at S i) = Cell lo \<and> cv_max (var_at S i) = Cell hi \<and>
         Cvar_VariableIntegerValue fp S name = Inr old \<and>
         Cvar_Set fp name (Some (int_dec k)) S = Inr S' \<and>
         Cvar_VariableIntegerValue fp S' name = Inr (if sint lo \<le> k \<and> k \<le> sint hi then k else old) \<and>
         (\<forall>j. j \<noteq> i \<longrightarrow> var_at S' j = var_at S j))) \<and>
    (cv_type (var_at S i) = CVAR_STRING \<longrightarrow> cv_value (var_at S i) ! 0 = Text old_text \<longrightarrow>
      (\<exists>S'. Cvar_Set fp name (Some str) S = Inr S' \<and>
         Cvar_VariableString fp S' name = Inr (take 8191 (if same_name old_text str then old_text else str)) \<and>
         (\<forall>j. j \<noteq> i \<longrightarrow> var_at S' j = var_at S j)))"
proof -
  have S: "typed_ok S" using cvars_reached(1) [OF assms(1)] .
  let ?v = "var_at S i"
  note F = found_typed [OF S assms(3)]
  note set = Cvar_Set_found [OF S assms(2,3)]
  have int: "\<exists>S' lo hi old. cv_min ?v = Cell lo \<and> cv_max ?v = Cell hi \<and>
         Cvar_VariableIntegerValue fp S name = Inr old \<and>
         Cvar_Set fp name (Some (int_dec k)) S = Inr S' \<and>
         Cvar_VariableIntegerValue fp S' name = Inr (if sint lo \<le> k \<and> k \<le> sint hi then k else old) \<and>
         (\<forall>j. j \<noteq> i \<longrightarrow> var_at S' j = var_at S j)" if t: "cv_type ?v = CVAR_INT"
  proof -
    obtain lo hi where lim: "cv_min ?v = Cell lo" "cv_max ?v = Cell hi"
      using F(2) t by (auto simp: var_typed_def limits_fit_def limited_def is_word_def)
    obtain a b c d where u: "cv_value ?v = [Cell a, Cell b, Cell c, Cell d]"
      by (cases rule: fits_cases [OF F(3)]) (use t in auto)
    let ?w = "word_of_int k :: 32 word"
    let ?ok = "a \<noteq> ?w \<and> sint lo \<le> k \<and> k \<le> sint hi"
    have val: "str_value fp ?v (int_dec k) = Some (word_union [?w])"
      using t isInteger_int_dec atoi_int_dec assms(4) by (simp add: str_value_def int_range_def)
    have sw: "set_switch False ?v (word_union [?w]) = Inr (if ?ok then (1, store_cells False 1 (word_union [?w]) ?v)
        else (if a = ?w then 0 else -1, ?v))"
      using t lim u sint_word_of_int [OF assms(4)]
      by (auto simp: set_switch_def set_int_def word_union_def)
    obtain code :: int and v' where cv: "(code, v') = (if ?ok then (1, store_cells False 1 (word_union [?w]) ?v)
        else (if a = ?w then 0 else -1, ?v))" by (metis surj_pair)
    obtain S' where S': "Cvar_Set fp name (Some (int_dec k)) S = Inr S'" "Cvar_FindVar S' name = Some i"
      "var_at S' i = (if code = 1 then v'\<lparr>cv_modified := True\<rparr> else ?v)" "\<And>j. j \<noteq> i \<Longrightarrow> var_at S' j = var_at S j"
      using set [OF val sw [folded cv]] by metis
    have "cv_type (var_at S' i) = CVAR_INT \<and> cv_value (var_at S' i) ! 0 = Cell (if ?ok then ?w else a)"
      using S'(3) cv t u by (auto simp: store_cells_def put_cells_def word_union_def split: if_splits)
    then have "Cvar_VariableIntegerValue fp S' name = Inr (sint (if ?ok then ?w else a))"
      using S'(2) by (simp add: Cvar_VariableIntegerValue_def)
    moreover have "Cvar_VariableIntegerValue fp S name = Inr (sint a)"
      using assms(3) t u by (simp add: Cvar_VariableIntegerValue_def)
    moreover have "sint (if ?ok then ?w else a) = (if sint lo \<le> k \<and> k \<le> sint hi then k else sint a)"
      using sint_word_of_int [OF assms(4)] by auto
    ultimately show ?thesis using lim S'(1,4) by auto
  qed
  have str: "\<exists>S'. Cvar_Set fp name (Some str) S = Inr S' \<and>
         Cvar_VariableString fp S' name = Inr (take 8191 (if same_name old_text str then old_text else str)) \<and>
         (\<forall>j. j \<noteq> i \<longrightarrow> var_at S' j = var_at S j)"
    if t: "cv_type ?v = CVAR_STRING" "cv_value ?v ! 0 = Text old_text"
  proof -
    let ?same = "same_name old_text str"
    have val: "str_value fp ?v str = Some (text_union str)" using t by (simp add: str_value_def)
    have sw: "set_switch False ?v (text_union str) =
        Inr (if ?same then (0, ?v) else (1, store_cells False 1 (text_union str) ?v))"
      using t by (simp add: set_switch_def set_string_def text_union_def)
    obtain code :: int and v' where cv: "(code, v') = (if ?same then (0, ?v) else (1, store_cells False 1 (text_union str) ?v))"
      by (metis surj_pair)
    obtain S' where S': "Cvar_Set fp name (Some str) S = Inr S'" "Cvar_FindVar S' name = Some i"
      "var_at S' i = (if code = 1 then v'\<lparr>cv_modified := True\<rparr> else ?v)" "\<And>j. j \<noteq> i \<Longrightarrow> var_at S' j = var_at S j"
      using set [OF val sw [folded cv]] by metis
    have "cv_type (var_at S' i) = CVAR_STRING \<and>
        cv_value (var_at S' i) ! 0 = Text (if ?same then old_text else str)"
      using S'(3) cv t by (auto simp: store_cells_def put_cells_def text_union_def split: if_splits)
    then have "Cvar_VariableString fp S' name = Inr (take 8191 (if ?same then old_text else str))"
      using S'(2) by (simp add: Cvar_VariableString_def Cvar_DisplayableValue_def Cvar_ValueToStr_def union_str_def
          sprintf_to_def)
    then show ?thesis using S'(1,4) by auto
  qed
  show ?thesis using int str by blast
qed

theorem Cvar_Set_get_witness:
  "\<exists>S'. Cvar_Set demo_fpu ''sv_fps'' (Some (int_dec 30)) demo_cvars = Inr S' \<and>
     Cvar_VariableIntegerValue demo_fpu S' ''sv_fps'' = Inr 30"
proof -
  have v: "var_at demo_cvars 1 = fps_var" "count demo_cvars = 2" by (simp_all add: demo_cvars_def)
  have f: "cv_type fps_var = CVAR_INT" "cv_min fps_var = Cell 10" "cv_max fps_var = Cell 1000"
    "cvar_key fps_var = ''sv_fps''"
    by (simp_all add: fps_var_def fresh_var_fields fresh_limits_def)
  have "Cvar_ValidateString (Some ''sv_fps'')" by (simp add: Cvar_ValidateString_def)
  moreover have "int_range 30" by (simp add: int_range_def)
  ultimately show ?thesis
    using Cvar_Set_get [OF demo_reached _ demo_find, of 30] v(1) f by auto
qed

section \<open>Console commands are runs of these steps\<close>

lemma Cmd_Argv_ok_name:
  assumes "Cmd_Argv t i = Inr s" "length (cmd_tokenized t) < 99999"
  shows "ok_name s"
proof (cases "s = []")
  case False
  then obtain p where s: "s = cstr (drop p (cmd_tokenized t))"
    using assms(1) by (auto simp: Cmd_Argv_def Let_def split: if_splits option.splits)
  have "NUL \<notin> set s" unfolding s cstr_def by (auto dest: set_takeWhileD)
  moreover have "length s \<le> length (drop p (cmd_tokenized t))"
    unfolding s cstr_def by (rule length_takeWhile_le)
  ultimately show ?thesis using assms(2) by (simp add: ok_name_def nul_free_def)
qed simp

lemma flagged_steps:
  assumes S: "cvars_ok S" and name: "Cmd_Argv t 1 = Inr name" "ok_name name" "Cvar_FindVar S name = Some i"
    and fl: "\<not> has_flag CVAR_USER_CREATED flag"
  shows "cvar_step clears slack fp S (set_var i (Cvar_AddFlags flag (var_at S i)) S)"
  using FindVar_Some [OF S name(2), of i] name(3) fl by (intro cvar_step.add_flags) simp_all

lemma Cvar_Command_steps:
  assumes S: "cvars_ok S" and t: "length (cmd_tokenized t) < 99999" and run: "Cvar_Command fp t S = Inr (b, S')"
  shows "(cvar_step clears slack fp)\<^sup>*\<^sup>* S S'"
proof -
  obtain name where name: "Cmd_Argv t 0 = Inr name"
    using run by (auto simp: Cvar_Command_def and_then_Inr)
  show ?thesis
  proof (cases "Cvar_FindVar S name")
    case None
    then show ?thesis using run name by (simp add: Cvar_Command_def)
  next
    case (Some i)
    then have i: "i < count S" using FindVar_Some [OF S Cmd_Argv_ok_name [OF name t]] by simp
    have "S' = S \<or> (\<exists>arg. Cvar_Set2 fp (key_at S i) (Some arg) False S = Inr S')"
      using run name Some
      by (auto simp: Cvar_Command_def Let_def and_then_Inr cvar_key_def split: if_splits)
    then show ?thesis
      using cvar_step.set_name [OF var_okD(2) [OF cvars_okD(2) [OF S i]]] by blast
  qed
qed

lemma Cvar_Set_f_steps:
  assumes t: "length (cmd_tokenized t) < 99999" and run: "Cvar_Set_f fp t S = Inr S'"
  shows "(cvar_step clears slack fp)\<^sup>*\<^sup>* S S'"
proof (cases "Cmd_Argc t < 3")
  case True
  then show ?thesis using run by (simp add: Cvar_Set_f_def)
next
  case False
  then obtain s name where "Cmd_Argv t 1 = Inr name" "Cvar_Set2 fp name (Some s) False S = Inr S'"
    using run by (auto simp: Cvar_Set_f_def and_then_Inr)
  then show ?thesis using cvar_step.set_name [OF Cmd_Argv_ok_name [OF _ t]] by blast
qed

lemma Cvar_SetA_f_steps:
  assumes S: "cvars_ok S" and t: "length (cmd_tokenized t) < 99999" and run: "Cvar_SetA_f fp t S = Inr S'"
  shows "(cvar_step clears slack fp)\<^sup>*\<^sup>* S S'"
proof (cases "Cmd_Argc t < 3")
  case True
  then show ?thesis using run by (simp add: Cvar_SetA_f_def)
next
  case False
  then obtain S1 name where 1: "Cvar_Set_f fp t S = Inr S1" "Cmd_Argv t 1 = Inr name"
    "(case Cvar_FindVar S1 name of None \<Rightarrow> Inr S1
      | Some i \<Rightarrow> Inr ((set_var i (Cvar_AddFlags CVAR_ARCHIVE (var_at S1 i)) S1)\<lparr>cvar_archivedset := True\<rparr>)) = (Inr S' :: fault + cvarsys)"
    using run unfolding Cvar_SetA_f_def if_not_P [OF False] and_then_Inr by blast
  have steps: "(cvar_step False None fp)\<^sup>*\<^sup>* S S1" "(cvar_step clears slack fp)\<^sup>*\<^sup>* S S1"
    using Cvar_Set_f_steps [OF t 1(1)] by blast+
  have S1: "cvars_ok S1"
    using steps(1) S by (induction rule: rtranclp_induct)
      (use cvar_step_keeps cvars_typed_ok in \<open>auto simp: step_keeps_def\<close>)
  show ?thesis
  proof (cases "Cvar_FindVar S1 name")
    case None
    then show ?thesis using 1(3) steps(2) by simp
  next
    case (Some i)
    let ?S2 = "set_var i (Cvar_AddFlags CVAR_ARCHIVE (var_at S1 i)) S1"
    have "cvar_step clears slack fp S1 ?S2"
      using flagged_steps [OF S1 1(2) Cmd_Argv_ok_name [OF 1(2) t] Some] demo_names(2) by blast
    moreover have "cvar_step clears slack fp ?S2 (?S2\<lparr>cvar_modifiedFlags := cvar_modifiedFlags ?S2, cvar_archivedset := True\<rparr>)"
      by (rule cvar_step.counters)
    moreover have "S' = ?S2\<lparr>cvar_modifiedFlags := cvar_modifiedFlags ?S2, cvar_archivedset := True\<rparr>"
      using 1(3) Some by (cases S1) (simp add: set_var_def)
    ultimately show ?thesis using steps(2) by (metis rtranclp.rtrancl_into_rtrancl)
  qed
qed

end
