(* ===== verification/CvarFindings.thy ===== *)
theory CvarFindings
  imports CvarProperties
begin

text \<open>
  Where the variables do not do what they are meant to: concrete runs and small laws of the
  model that show the behaviours listed in the header.
\<close>

text \<open>\<open>Cvar_VariableBooleanValue\<close> is inverted for floats: it is true exactly for zero.\<close>

lemma boolean_value_inverted:
  assumes "Cvar_FindVar S name = Some i" "cv_type (var_at S i) = CVAR_FLOAT" "cv_value (var_at S i) ! 0 = Cell w"
  shows "Cvar_VariableBooleanValue S name = Inr (fl_eq w 0)"
  using assms by (simp add: Cvar_VariableBooleanValue_def)

text \<open>\<open>toggle\<close> reads a flag as the float 0, so it can only switch it on.\<close>

lemma toggle_reads_flag_as_zero:
  assumes "Cvar_FindVar S name = Some i" "cv_type (var_at S i) = CVAR_BOOL"
  shows "Cvar_VariableValue fp S name = Inr 0"
  using assms by (simp add: Cvar_VariableValue_def)

text \<open>An enumeration may be registered with an index one past its last name.\<close>

lemma enum_default_past_end:
  "value_valid CVAR_ENUM (enum_union 2 (Some [''off'', ''on''])) NULL NULL = Inr True \<and>
   \<not> in_domain 0 CVAR_ENUM NULL (Names [''off'', ''on'']) (enum_union 2 (Some [''off'', ''on'']))"
  by (simp add: value_valid_def enum_union_def enum_count_def in_domain_def)

text \<open>An enumeration is saved by name, but a name is not accepted when it is read back.\<close>

lemma enum_name_not_accepted: "cv_type v = CVAR_ENUM \<Longrightarrow> str_value fp v ''on'' = None"
  by (simp add: str_value_def isInteger_def sc_alt uc_def scan_end_def)

text \<open>Setting a number under a new name takes the number as the address of a string.\<close>

lemma SetIntByName_new_name_faults:
  "Cvar_SetIntByName fp ''fresh'' 5 first_cvars = Inl OUT_OF_BOUNDS"
proof -
  have "ok_name ''fresh''" by (simp add: ok_name_def nul_free_def)
  moreover have "count first_cvars = 1" "key_at first_cvars 0 = ''cvar_cheats''"
    by (simp_all add: first_cvars_def cheats_var0_def fresh_var_fields)
  ultimately have "Cvar_FindVar first_cvars ''fresh'' = None"
    using FindVar_None [OF first_cvars_ok(1)] by (auto simp: folded_def)
  then show ?thesis
    by (simp add: Cvar_SetIntByName_def Cvar_SetWithType_def Let_def Cvar_Register_def Cvar_ValidateNewVar_def
        Cvar_ValidateString_def value_valid_def word_union_def as_text_def)
qed

text \<open>
  A latched change cannot be taken back: setting the current value again is "nothing to do"
  and leaves the pending one.
\<close>

lemma latched_change_stays:
  assumes "cv_type v = CVAR_INT" "cv_value v = [Cell a, b, c, d]"
  shows "set_switch True v (word_union [a]) = Inr (0, v)"
  using assms by (simp add: set_switch_def set_int_def word_union_def)

text \<open>
  A value the user gave before the program registers the variable can leave its domain: with
  \<open>sv_fps\<close> set to \<open>abc\<close>, registering it as an integer between 10 and 1000 yields 0.
\<close>

lemma reregister_leaves_domain:
  "\<exists>S1 S2. Cvar_Set2 fp ''sv_fps'' (Some ''abc'') False first_cvars = Inr S1 \<and>
     Cvar_RegisterInt fp (Some ''sv_fps'') 20 10 1000 0 None S1 = Inr (1, S2) \<and>
     cv_min (var_at S2 1) = Cell 10 \<and> cv_value (var_at S2 1) ! 0 = Cell 0"
proof -
  let ?v = "fresh_var ''sv_fps'' CVAR_STRING CVAR_USER_CREATED (text_union ''abc'') NULL NULL (Some [])"
  let ?h = "generateHashValue ''sv_fps''"
  let ?S1 = "first_cvars\<lparr>cvar_indexes := [cheats_var0, ?v], cvar_vars := [1, 0],
      hashTable := (hashTable first_cvars)[?h := 1 # hashTable first_cvars ! ?h],
      cvar_modifiedFlags := cvar_modifiedFlags first_cvars OR scast CVAR_USER_CREATED\<rparr>"
  have set: "Cvar_Set2 fp ''sv_fps'' (Some ''abc'') False first_cvars = Inr ?S1"
    by (simp add: Cvar_Set2_def demo_fps_new Cvar_Register_def Cvar_ValidateNewVar_def Cvar_ValidateString_def
        value_valid_def text_union_def Let_def)
      (simp add: first_cvars_def MAX_CVARS_def)
  have "cvar_step False None fp first_cvars ?S1" by (rule cvar_step.set_name [OF demo_names(1) set])
  then have "cvars_ok ?S1" using cvars_reached(2) by blast
  then have find: "Cvar_FindVar ?S1 ''sv_fps'' = Some 1"
    using FindVar_Some [OF _ demo_names(1), of ?S1 1] by (simp add: fresh_var_fields)
  have uc: "has_flag CVAR_USER_CREATED CVAR_USER_CREATED" by (simp add: has_flag_def CVAR_USER_CREATED_def)
  have v: "cv_type ?v = CVAR_STRING" "cv_value ?v = text_union ''abc''" "cv_latched ?v = text_union ''abc''"
    "cv_reset ?v = text_union ''abc''" "cv_flags ?v = CVAR_USER_CREATED"
    by (simp_all add: fresh_var_fields fresh_union_def put_cells_def text_union_def zero_union_def
        numeral_eq_Suc)
  have "Cvar_ValueToStr fp w 8192 (text_union ''abc'') = Inr ''abc''" if "cv_type w = CVAR_STRING" for w
    using that by (simp add: Cvar_ValueToStr_def union_str_def text_union_def sprintf_to_def)
  then have str: "Cvar_ValueToStr fp ?v 8192 (cv_latched ?v) = Inr ''abc''" using v(1,3) by simp
  have int: "\<not> isInteger ''abc'' 0"
    by (simp add: isInteger_def sc_alt uc_def scan_end_def)
  have fl: "\<not> has_flag f 0" for f by (simp add: has_flag_def)
  define v where "v = ?v"
  have at: "var_at ?S1 1 = v" by (simp add: v_def)
  have valid: "Cvar_ValidateNewVar (Some ''sv_fps'') CVAR_INT (word_union [20]) (Cell 10) (Cell 1000) = Inr True"
    by (simp add: Cvar_ValidateNewVar_def Cvar_ValidateString_def value_valid_def word_union_def)
  obtain v' where v': "reregistered CVAR_INT 0 (word_union [20]) (Cell 10) (Cell 1000) None v = Inr v'"
    "cv_type v' = CVAR_INT" "cv_min v' = Cell 10" "cv_value v' ! 0 = Cell 0"
    using v unfolding v_def [symmetric]
    by (simp add: reregistered_def Let_def new_reset_def Cvar_AddFlags_def Cvar_ClearFlags_def drop_strings_def
        new_limits_def fresh_limits_def text_union_def)
  have "Cvar_RegisterInt fp (Some ''sv_fps'') 20 10 1000 0 None ?S1 =
      reregister fp 1 CVAR_INT 0 (word_union [20]) (Cell 10) (Cell 1000) None ?S1"
    using valid find by (simp add: Cvar_RegisterInt_def Cvar_Register_def Let_def fl)
  moreover have "\<exists>S2. reregister fp 1 CVAR_INT 0 (word_union [20]) (Cell 10) (Cell 1000) None ?S1 = Inr (1, S2) \<and>
      var_at S2 1 = v'"
    using v(1,5) uc str v' unfolding reregister_def Let_def at
    by (simp add: v_def [symmetric] set_found_def str_value_def int)
  ultimately show ?thesis using set v'(3,4) by metis
qed

end
