(* ===== verification/SnapWire.thy ===== *)
theory SnapWire
  imports MsgBits "HOL-Library.State_Monad"
begin

text \<open>
  Bits and bytes in one message.  The writers of src/src/msg.c put bits into a byte that stays
  open while whole bytes are appended behind it; the readers follow the same two cursors.  A
  reader in the state monad \<open>transfers\<close> a value over a write when it gives the value on every
  later state of the buffer and ends where the writer ended, so the round trips of composed
  encodings follow from those of the primitives.
\<close>

section \<open>Bits that no later write changes\<close>

definition fixed_bit :: "msg \<Rightarrow> int \<Rightarrow> bool" where
  "fixed_bit m p \<longleftrightarrow> 0 \<le> p \<and> p div 8 < cursize m \<and>
     (bitpos m mod 8 \<noteq> 0 \<and> p div 8 = bitpos m div 8 \<longrightarrow> p < bitpos m)"

definition wr_ok :: "msg \<Rightarrow> bool" where
  "wr_ok m \<longleftrightarrow> msg_ok m \<and> 0 \<le> bitpos m \<and>
     (bitpos m mod 8 \<noteq> 0 \<longrightarrow> bitpos m div 8 < cursize m \<and>
        (\<forall>p. bitpos m \<le> p \<and> p div 8 = bitpos m div 8 \<longrightarrow> \<not> stream_bit (data m) p))"

definition agrees :: "bytes \<Rightarrow> msg \<Rightarrow> bool" where
  "agrees F m \<longleftrightarrow> (\<forall>p. fixed_bit m p \<longrightarrow> stream_bit F p = stream_bit (data m) p)"

text \<open>A step of the writer: what was fixed stays, nothing but the buffer and the cursors moves.\<close>

definition grows :: "msg \<Rightarrow> msg \<Rightarrow> bool" where
  "grows m m1 \<longleftrightarrow> wr_ok m \<and> wr_ok m1 \<and> cursize m \<le> cursize m1 \<and>
     (\<forall>p. fixed_bit m p \<longrightarrow> fixed_bit m1 p \<and> stream_bit (data m1) p = stream_bit (data m) p)"

lemma grows_agrees: "grows m m1 \<Longrightarrow> agrees F m1 \<Longrightarrow> agrees F m"
  by (auto simp: grows_def agrees_def)

lemma grows_trans: "grows m m1 \<Longrightarrow> grows m1 m2 \<Longrightarrow> grows m m2"
  by (auto simp: grows_def)

lemma grows_refl: "wr_ok m \<Longrightarrow> grows m m"
  by (simp add: grows_def)

text \<open>The position of the next bit.\<close>

definition next_bit :: "msg \<Rightarrow> int" where
  "next_bit m = (if bitpos m mod 8 = 0 then 8 * cursize m else bitpos m)"

lemma last_bit_of_byte:
  assumes "(q + 1) mod 8 = 0" "p div 8 = q div (8::int)"
  shows "p \<le> q"
proof -
  define k where "k = q div 8"
  have "q + 1 = 8 * (k + 1)"
    using div_mod_8 [of "q + 1"] next_bit_new_byte [OF assms(1)] assms(1) by (simp add: k_def)
  moreover have "p = 8 * k + p mod 8" using div_mod_8 [of p] assms(2) by (simp add: k_def)
  moreover have "p mod 8 \<le> 7" using pos_mod_bound [of 8 p] by simp
  ultimately show ?thesis by simp
qed

lemma step_bit_grows:
  assumes ok: "wr_ok m" and room: "bitpos m mod 8 = 0 \<Longrightarrow> cursize m < maxsize m"
    and m1: "m1 = step_bit b m"
  shows "grows m m1" "fixed_bit m1 (next_bit m)" "stream_bit (data m1) (next_bit m) = b"
    "bitpos m1 = next_bit m + 1" "cursize m1 = (if bitpos m mod 8 = 0 then cursize m + 1 else cursize m)"
    "maxsize m1 = maxsize m" "lastRefEntity m1 = lastRefEntity m" "overflowed m1 = overflowed m"
proof -
  have mok: "msg_ok m" and bp: "0 \<le> bitpos m" using ok by (auto simp: wr_ok_def)
  note M = msg_okD [OF mok]
  let ?q = "next_bit m"
  define d where "d = (if bitpos m mod 8 = 0 then put (cursize m) 0 (data m) else data m)"
  have q: "0 \<le> ?q" "?q mod 8 = bitpos m mod 8"
    "?q div 8 = (if bitpos m mod 8 = 0 then cursize m else bitpos m div 8)"
    using M bp by (simp_all add: next_bit_def)
  show c1: "bitpos m1 = ?q + 1" "cursize m1 = (if bitpos m mod 8 = 0 then cursize m + 1 else cursize m)"
    "maxsize m1 = maxsize m" "lastRefEntity m1 = lastRefEntity m" "overflowed m1 = overflowed m"
    by (simp_all add: m1 step_bit_def fresh_bit_byte_def next_bit_def Let_def)
  have d1: "data m1 = (if b then set_bit_at ?q d else d)"
    by (simp add: m1 step_bit_def fresh_bit_byte_def next_bit_def d_def Let_def)
  have r1: "readcount m1 = readcount m" "length (data m1) = length (data m)"
    by (simp_all add: m1 step_bit_def fresh_bit_byte_def Let_def)
  have qin: "?q div 8 < cursize m1" "?q div 8 < int (length (data m))"
    using ok room M q(3) by (auto simp: c1 wr_ok_def)
  have len: "?q div 8 < int (length d)" using qin(2) by (simp add: d_def)
  have zero: "stream_bit (put (cursize m) 0 (data m)) p \<longleftrightarrow> p div 8 \<noteq> cursize m \<and> stream_bit (data m) p"
    if "bitpos m mod 8 = 0" "0 \<le> p" for p
    using that(2) M(2) qin(2) q(3) that(1) by (intro stream_bit_zero_byte) simp_all
  have old: "stream_bit d p = stream_bit (data m) p" if "fixed_bit m p" for p
  proof -
    have "0 \<le> p" "p div 8 \<noteq> cursize m" using that by (simp_all add: fixed_bit_def)
    then show ?thesis using zero [of p] by (simp add: d_def)
  qed
  have clear: "\<not> stream_bit d p" if p: "?q \<le> p" "p div 8 = ?q div 8" for p
  proof (cases "bitpos m mod 8 = 0")
    case True
    then show ?thesis using p q(1,3) zero [of p] by (simp add: d_def)
  next
    case False
    then have "?q = bitpos m" by (simp add: next_bit_def)
    then show ?thesis using p ok False by (simp add: d_def wr_ok_def)
  qed
  have set1: "stream_bit (data m1) p = (b \<and> p = ?q \<or> stream_bit d p)" if "0 \<le> p" for p
    using stream_bit_set [OF q(1) that len] by (simp add: d1)
  show "stream_bit (data m1) ?q = b" using set1 [OF q(1)] clear [of ?q] by simp
  have fix1: "fixed_bit m1 p \<longleftrightarrow> 0 \<le> p \<and> p div 8 < cursize m1 \<and> (p div 8 = ?q div 8 \<longrightarrow> p \<le> ?q)" for p
  proof (cases "(?q + 1) mod 8 = 0")
    case True
    have "p \<le> ?q" if "p div 8 = ?q div 8"
      using last_bit_of_byte [OF True that] .
    then show ?thesis using True by (auto simp: fixed_bit_def c1)
  next
    case False
    then show ?thesis using next_bit_same_byte [OF False] by (auto simp: fixed_bit_def c1)
  qed
  show "fixed_bit m1 ?q" unfolding fix1 using q(1) qin(1) by blast
  have keep: "fixed_bit m1 p \<and> stream_bit (data m1) p = stream_bit (data m) p" if p: "fixed_bit m p" for p
  proof -
    have lt: "p < ?q" if "p div 8 = ?q div 8"
      using that p q(3) by (auto simp: fixed_bit_def next_bit_def split: if_splits)
    have p0: "0 \<le> p" "p div 8 < cursize m1" using p by (simp_all add: fixed_bit_def c1(2))
    then have "p \<noteq> ?q" using lt by blast
    then have "stream_bit (data m1) p = stream_bit (data m) p" using set1 [OF p0(1)] old [OF p] by blast
    moreover have "fixed_bit m1 p" unfolding fix1 using p0 lt by (auto intro: less_imp_le)
    ultimately show ?thesis by blast
  qed
  have "msg_ok m1"
    using mok c1 r1 room by (auto simp: msg_ok_def)
  moreover have "\<not> stream_bit (data m1) p" if "(?q + 1) mod 8 \<noteq> 0" "?q + 1 \<le> p" "p div 8 = (?q + 1) div 8" for p
    using that set1 [of p] clear [of p] next_bit_same_byte [OF that(1)] q(1) by auto
  ultimately have "wr_ok m1"
    using q(1) qin(1) next_bit_same_byte [of ?q] by (auto simp: wr_ok_def c1(1))
  then show "grows m m1" using ok keep by (auto simp: grows_def c1(2))
qed

section \<open>Readers\<close>

text \<open>The reader at the position of the writer, over the final bytes \<open>F\<close> of which \<open>n\<close> count.\<close>

definition reads_at :: "bytes \<Rightarrow> int \<Rightarrow> msg \<Rightarrow> msg \<Rightarrow> bool" where
  "reads_at F n m r \<longleftrightarrow> data r = F \<and> cursize r = n \<and> n \<le> int (length F) \<and> n < 2 ^ 27 \<and>
     readcount r = cursize m \<and> bitpos r mod 8 = bitpos m mod 8 \<and>
     (bitpos m mod 8 \<noteq> 0 \<longrightarrow> bitpos r = bitpos m) \<and> splitSize r = 0 \<and> splitData r = None \<and>
     lastRefEntity r = lastRefEntity m"

type_synonym 'a reader = "(msg, 'a) state"

definition transfers :: "'a reader \<Rightarrow> msg \<Rightarrow> msg \<Rightarrow> 'a \<Rightarrow> bool" where
  "transfers D m m1 v \<longleftrightarrow> grows m m1 \<and>
     (\<forall>F n r. agrees F m1 \<and> reads_at F n m r \<and> cursize m1 \<le> n \<longrightarrow>
        (\<exists>r1. run_state D r = (v, r1) \<and> reads_at F n m1 r1))"

lemma transfers_ok: "transfers D m m1 v \<Longrightarrow> wr_ok m \<and> wr_ok m1"
  by (simp add: transfers_def grows_def)

lemma transfers_return: "wr_ok m \<Longrightarrow> transfers (State_Monad.return v) m m v"
  by (simp add: transfers_def grows_refl)

lemma transfers_bind:
  assumes "transfers D m m1 v" "transfers (E v) m1 m2 w"
  shows "transfers (State_Monad.bind D E) m m2 w"
  unfolding transfers_def
proof (intro conjI allI impI)
  have g: "grows m m1" "grows m1 m2" using assms by (simp_all add: transfers_def)
  then show "grows m m2" by (rule grows_trans)
  fix F n r assume r: "agrees F m2 \<and> reads_at F n m r \<and> cursize m2 \<le> n"
  then have "agrees F m1" "cursize m1 \<le> n"
    using grows_agrees [OF g(2)] g(2) by (auto simp: grows_def)
  then obtain r1 where r1: "run_state D r = (v, r1)" "reads_at F n m1 r1"
    using assms(1) r unfolding transfers_def by blast
  then obtain r2 where "run_state (E v) r1 = (w, r2)" "reads_at F n m2 r2"
    using assms(2) r unfolding transfers_def by blast
  with r1(1) show "\<exists>r2. run_state (State_Monad.bind D E) r = (w, r2) \<and> reads_at F n m2 r2" by simp
qed

text \<open>One bit.\<close>

lemma reads_bit:
  assumes "reads_at F n m r" "agrees F m1" "grows m m1" "fixed_bit m1 (next_bit m)"
    "stream_bit (data m1) (next_bit m) = b" "bitpos m1 = next_bit m + 1"
    "cursize m1 = (if bitpos m mod 8 = 0 then cursize m + 1 else cursize m)" "cursize m1 \<le> n"
    "lastRefEntity m1 = lastRefEntity m"
  shows "\<exists>r1. MSG_ReadBit r = (of_bool b, r1) \<and> readbits_round r = (None, b, r1) \<and> reads_at F n m1 r1"
proof -
  have ok: "wr_ok m" "0 \<le> cursize m" using assms(3) by (auto simp: grows_def wr_ok_def msg_ok_def)
  let ?q = "next_bit m"
  have q: "?q mod 8 = bitpos m mod 8" "?q div 8 = (if bitpos m mod 8 = 0 then cursize m else bitpos m div 8)"
    by (simp_all add: next_bit_def)
  have "?q div 8 < n" using assms(4,8) by (simp add: fixed_bit_def)
  then have src: "idx F (?q div 8) = idx (data r) (?q div 8)" "?q div 8 < cursize r"
    using assms(1) by (simp_all add: reads_at_def)
  have b: "bit (idx F (?q div 8)) (nat (?q mod 8)) = b"
    using assms(2,4,5) by (simp add: agrees_def stream_bit_def)
  define r1 where "r1 = (if bitpos r mod 8 = 0
    then r\<lparr>bitpos := 8 * readcount r, readcount := readcount r + 1\<rparr> else r)\<lparr>bitpos := ?q + 1\<rparr>"
  have at: "bitpos r mod 8 = bitpos m mod 8" "readcount r = cursize m" "splitSize r = 0" "splitData r = None"
    "bitpos m mod 8 \<noteq> 0 \<longrightarrow> bitpos r = bitpos m" "cursize r = n" "data r = F"
    using assms(1) by (simp_all add: reads_at_def)
  have in_n: "bitpos m mod 8 = 0 \<Longrightarrow> cursize m < n" using assms(7,8) by simp
  define r0 where "r0 = (if bitpos r mod 8 = 0
    then r\<lparr>bitpos := 8 * readcount r, readcount := readcount r + 1\<rparr> else r)"
  have r0: "bitpos r0 = ?q" "cursize r0 = n" "data r0 = F" "splitData r0 = None"
    using at by (simp_all add: r0_def next_bit_def)
  have r1: "r1 = r0\<lparr>bitpos := bitpos r0 + 1\<rparr>" 
    unfolding r0(1) by (simp add: r1_def r0_def)
  have "bit_source r0 (?q div 8) = idx F (?q div 8)" using src(2) r0 at by (simp add: bit_source_def)
  then have bs: "bit (bit_source r0 (bitpos r0 div 8)) (nat (bitpos r mod 8)) = b"
    using b q(1) at(1) r0(1) by simp
  have go: "\<not> (bitpos r mod 8 = 0 \<and> splitSize r + cursize r \<le> readcount r)"
    "\<not> (bitpos r mod 8 = 0 \<and> cursize r + splitSize r \<le> readcount r)"
    "\<not> (cursize r0 \<le> bitpos r0 div 8 \<and> splitData r0 = None)"
    using at in_n src(2) r0 by auto
  have rm: "bitpos r mod 8 = bitpos r0 mod 8" using at(1) q(1) r0(1) by simp
  have "MSG_ReadBit r = (of_bool b, r1)"
    unfolding MSG_ReadBit_def Let_def r0_def [symmetric] r1 using go(2) bs by (simp only: if_False)
  moreover have "readbits_round r = (None, b, r1)"
    unfolding readbits_round_def Let_def r0_def [symmetric] r1 using go(1,3) bs rm by (simp only: if_False)
  moreover have "reads_at F n m1 r1"
    using assms(1,6,7,9) at by (auto simp: reads_at_def r1_def)
  ultimately show ?thesis by blast
qed

section \<open>The writers\<close>

named_theorems transfer_rules \<open>what the readers make of the writers\<close>
named_theorems sticky \<open>an overflow is kept\<close>

lemma overflow_sticky [sticky]:
  "overflowed m \<Longrightarrow> overflowed (MSG_WriteBit0 m)" "overflowed m \<Longrightarrow> overflowed (MSG_WriteBit1 m)"
  "overflowed m \<Longrightarrow> overflowed (MSG_WriteByte c m)" "overflowed m \<Longrightarrow> overflowed (MSG_WriteShort c m)"
  "overflowed m \<Longrightarrow> overflowed (MSG_WriteLong c m)"
  by (simp_all add: MSG_WriteBit0_def MSG_WriteBit1_def MSG_WriteByte_def MSG_WriteShort_def MSG_WriteLong_def
      fresh_bit_byte_def msg_app_def Let_def)

lemma writebits_sticky: "overflowed m \<Longrightarrow> overflowed (writebits_loop n v m)"
  by (induction n arbitrary: v m) (simp_all add: Let_def fresh_bit_byte_def)

lemma WriteBits_sticky [sticky]: "overflowed m \<Longrightarrow> overflowed (MSG_WriteBits v n m)"
  by (simp add: MSG_WriteBits_def writebits_sticky)

lemma bit_transfers:
  assumes "wr_ok m" "bitpos m mod 8 = 0 \<Longrightarrow> cursize m < maxsize m"
  shows "transfers (State MSG_ReadBit) m (step_bit b m) (of_bool b)"
proof -
  note s = step_bit_grows [OF assms refl, of b]
  have "\<exists>r1. MSG_ReadBit r = (of_bool b, r1) \<and> reads_at F n (step_bit b m) r1"
    if "agrees F (step_bit b m) \<and> reads_at F n m r \<and> cursize (step_bit b m) \<le> n" for F n r
    using reads_bit [OF _ _ s(1-5) _ s(7)] that by blast
  then show ?thesis unfolding transfers_def state.sel using s(1) by blast
qed

lemma WriteBit_writes:
  "\<not> overflowed (MSG_WriteBit0 m) \<Longrightarrow>
     MSG_WriteBit0 m = step_bit False m \<and> (bitpos m mod 8 = 0 \<longrightarrow> cursize m < maxsize m)"
  "\<not> overflowed (MSG_WriteBit1 m) \<Longrightarrow>
     MSG_WriteBit1 m = step_bit True m \<and> (bitpos m mod 8 = 0 \<longrightarrow> cursize m < maxsize m)"
  by (auto simp: MSG_WriteBit0_def MSG_WriteBit1_def step_bit_def fresh_bit_byte_def Let_def split: if_splits)

lemma WriteBit_transfers [transfer_rules]:
  "wr_ok m \<Longrightarrow> \<not> overflowed (MSG_WriteBit0 m) \<Longrightarrow> transfers (State MSG_ReadBit) m (MSG_WriteBit0 m) 0"
  "wr_ok m \<Longrightarrow> \<not> overflowed (MSG_WriteBit1 m) \<Longrightarrow> transfers (State MSG_ReadBit) m (MSG_WriteBit1 m) 1"
  using WriteBit_writes bit_transfers [of m False] bit_transfers [of m True] by fastforce+

text \<open>Several bits: the loop writes without a check, the reader takes one bit per round.\<close>

definition bit_room :: "nat \<Rightarrow> msg \<Rightarrow> bool" where
  "bit_room n m \<longleftrightarrow> int n \<le> 8 * (maxsize m - cursize m) + (if bitpos m mod 8 = 0 then 0 else 8 - bitpos m mod 8)"

lemma bit_room_step:
  assumes "wr_ok m" "bit_room (Suc n) m"
  shows "bitpos m mod 8 = 0 \<Longrightarrow> cursize m < maxsize m" "bit_room n (step_bit b m)"
proof -
  show r: "bitpos m mod 8 = 0 \<Longrightarrow> cursize m < maxsize m" using assms(2) by (simp add: bit_room_def)
  note s = step_bit_grows [OF assms(1) r refl, of b]
  show "bit_room n (step_bit b m)"
  proof (cases "bitpos m mod 8 = 0")
    case True
    then have "(next_bit m + 1) mod 8 = 1" by (simp add: next_bit_def)
    then show ?thesis using assms(2) True s by (simp add: bit_room_def)
  next
    case False
    define k where "k = bitpos m mod 8"
    have k: "0 < k" "k \<le> 7" using False pos_mod_bound [of 8 "bitpos m"] pos_mod_sign [of 8 "bitpos m"]
      by (simp_all add: k_def)
    have "(bitpos m + 1) mod 8 = (if k = 7 then 0 else k + 1)"
      using mod_add_left_eq [of "bitpos m" 8 1] k by (auto simp: k_def simp del: mod_add_left_eq)
    then show ?thesis using assms(2) False s k by (simp add: bit_room_def next_bit_def k_def [symmetric])
  qed
qed

lemma writebits_loop_transfers:
  "wr_ok m \<Longrightarrow> bit_room n m \<Longrightarrow>
   transfers (State (readbits_loop n i (s32 (take_bit i w)))) m (writebits_loop n (w div 2 ^ i) m)
     (s32 (take_bit (i + n) w))"
proof (induction n arbitrary: m i)
  case 0
  then show ?case using transfers_return [of m "s32 (take_bit i w)"]
    by (simp add: transfers_def)
next
  case (Suc n)
  let ?b = "bit w i" and ?m = "step_bit (bit w i) m"
  note room = bit_room_step [OF Suc.prems]
  note s = step_bit_grows [OF Suc.prems(1) room(1) refl, of ?b]
  have w: "writebits_loop (Suc n) (w div 2 ^ i) m = writebits_loop n (w div 2 ^ Suc i) ?m"
    unfolding writebits_step power_Suc2 zdiv_zmult2_eq [of 2 w "2 ^ i", simplified] by (simp add: bit_iff_odd)
  have IH: "transfers (State (readbits_loop n (Suc i) (s32 (take_bit (Suc i) w)))) ?m
      (writebits_loop n (w div 2 ^ Suc i) ?m) (s32 (take_bit (Suc i + n) w))"
    using s(1) room(2) by (intro Suc.IH) (simp_all add: grows_def)
  show ?case unfolding transfers_def w
  proof (intro conjI allI impI)
    show g: "grows m (writebits_loop n (w div 2 ^ Suc i) ?m)"
      using grows_trans [OF s(1)] IH by (simp add: transfers_def)
    fix F k r
    assume r: "agrees F (writebits_loop n (w div 2 ^ Suc i) ?m) \<and> reads_at F k m r \<and>
      cursize (writebits_loop n (w div 2 ^ Suc i) ?m) \<le> k"
    have g1: "grows ?m (writebits_loop n (w div 2 ^ Suc i) ?m)" using IH by (simp add: transfers_def)
    then have "agrees F ?m" "cursize ?m \<le> k" using grows_agrees r by (auto simp: grows_def)
    then obtain r1 where r1: "readbits_round r = (None, ?b, r1)" "reads_at F k ?m r1"
      using reads_bit [OF _ _ s(1-5) _ s(7)] r by blast
    obtain r2 where "readbits_loop n (Suc i) (s32 (take_bit (Suc i) w)) r1 = (s32 (take_bit (Suc i + n) w), r2)"
      "reads_at F k (writebits_loop n (w div 2 ^ Suc i) ?m) r2"
      using IH r r1(2) unfolding transfers_def state.sel by blast
    then show "\<exists>r2. run_state (State (readbits_loop (Suc n) i (s32 (take_bit i w)))) r =
        (s32 (take_bit (i + Suc n) w), r2) \<and> reads_at F k (writebits_loop n (w div 2 ^ Suc i) ?m) r2"
      using r1(1) by (simp add: take_bit_snoc)
  qed
qed

text \<open>Up to 32 bits fit the four bytes that \<open>MSG_WriteBits\<close> asks for.\<close>

lemma WriteBits_transfers [transfer_rules]:
  assumes "wr_ok m" "\<not> overflowed (MSG_WriteBits v n m)" "n \<le> 32" "k = int n"
  shows "transfers (State (MSG_ReadBits k)) m (MSG_WriteBits v n m) (s32 (take_bit n v))"
proof -
  have M: "msg_ok m" using assms(1) by (simp add: wr_ok_def)
  have "\<not> s32 (maxsize m - cursize m) < 4" using assms(2) by (auto simp: MSG_WriteBits_def split: if_splits)
  moreover have "s32 (maxsize m - cursize m) = maxsize m - cursize m" using msg_okD [OF M] by simp
  ultimately have "4 \<le> maxsize m - cursize m" by simp
  moreover have "0 \<le> bitpos m mod 8" "bitpos m mod 8 < 8" by simp_all
  ultimately have "bit_room n m" using assms(3) by (auto simp: bit_room_def)
  from writebits_loop_transfers [OF assms(1) this, of 0 v]
  show ?thesis using \<open>\<not> s32 (maxsize m - cursize m) < 4\<close> assms(4)
    by (simp add: MSG_WriteBits_def MSG_ReadBits_def [abs_def])
qed

section \<open>Bytes\<close>

lemma byte_bit:
  assumes "0 \<le> j" "j < (8::int)"
  shows "(8 * k + j) div 8 = k" "(8 * k + j) mod 8 = j"
  using assms by simp_all

lemma app_grows:
  assumes ok: "wr_ok m" and room: "room (length bs) m"
  shows "grows m (msg_app bs m)"
    "\<forall>k < length bs. \<forall>j. 0 \<le> j \<and> j < 8 \<longrightarrow> fixed_bit (msg_app bs m) (8 * (cursize m + int k) + j) \<and>
       stream_bit (data (msg_app bs m)) (8 * (cursize m + int k) + j) = bit (bs ! k) (nat j)"
proof -
  have M: "msg_ok m" using ok by (simp add: wr_ok_def)
  note m = msg_okD [OF M]
  have fit: "nat (cursize m) + length bs \<le> length (data m)" using m room by (simp add: room_def)
  let ?d = "data (msg_app bs m)"
  have d: "?d = take (nat (cursize m)) (data m) @ bs @ drop (nat (cursize m) + length bs) (data m)"
    using fit by (simp add: msg_app_def blit_eq)
  have f: "bitpos (msg_app bs m) = bitpos m" "cursize (msg_app bs m) = cursize m + int (length bs)"
    by (simp_all add: msg_app_def)
  have old: "stream_bit ?d p = stream_bit (data m) p" if "0 \<le> p" "p div 8 < cursize m" for p
  proof -
    have "0 \<le> p div 8" using that(1) by simp
    then have "nat (p div 8) < nat (cursize m)" using that(2) by simp
    then show ?thesis using fit by (simp add: stream_bit_def idx_def d nth_append)
  qed
  have new: "idx ?d (cursize m + int k) = bs ! k" if "k < length bs" for k
    using that m fit by (simp add: idx_def d nth_append nat_add_distrib)
  have "wr_ok (msg_app bs m)"
    using ok msg_app_ok [OF M room] old by (auto simp: wr_ok_def f)
  then show "grows m (msg_app bs m)"
    using ok old by (auto simp: grows_def f fixed_bit_def)
  show "\<forall>k < length bs. \<forall>j. 0 \<le> j \<and> j < 8 \<longrightarrow> fixed_bit (msg_app bs m) (8 * (cursize m + int k) + j) \<and>
       stream_bit ?d (8 * (cursize m + int k) + j) = bit (bs ! k) (nat j)"
  proof (intro allI impI)
    fix k j assume k: "k < length bs" and j: "0 \<le> j \<and> j < (8::int)"
    have p: "(8 * (cursize m + int k) + j) div 8 = cursize m + int k" "(8 * (cursize m + int k) + j) mod 8 = j"
      using byte_bit [of j "cursize m + int k"] j by blast+
    have "bitpos m div 8 \<noteq> cursize m + int k" if "bitpos m mod 8 \<noteq> 0"
      using ok that by (auto simp: wr_ok_def)
    then show "fixed_bit (msg_app bs m) (8 * (cursize m + int k) + j) \<and>
        stream_bit ?d (8 * (cursize m + int k) + j) = bit (bs ! k) (nat j)"
      using k j p m new [OF k] by (auto simp: fixed_bit_def f stream_bit_def)
  qed
qed

lemma reads_bytes:
  assumes ok: "wr_ok m" "room (length bs) m"
    and r: "agrees F (msg_app bs m)" "reads_at F n m r" "cursize (msg_app bs m) \<le> n"
  shows "bytes_at (readcount r) (int (length bs)) (data r) = bs"
    "readcount r + int (length bs) \<le> cursize r" "0 \<le> readcount r" "cursize r < 2 ^ 27"
    "reads_at F n (msg_app bs m) (msg_adv (int (length bs)) r)"
proof -
  have m: "0 \<le> cursize m" using ok(1) by (simp add: wr_ok_def msg_ok_def)
  have at: "data r = F" "cursize r = n" "n \<le> int (length F)" "readcount r = cursize m" "n < 2 ^ 27"
    using r(2) by (simp_all add: reads_at_def)
  have n: "cursize m + int (length bs) \<le> n" using r(3) by (simp add: msg_app_def)
  then show "readcount r + int (length bs) \<le> cursize r" "0 \<le> readcount r" "cursize r < 2 ^ 27"
    using at m by simp_all
  have "idx F (cursize m + int k) = bs ! k" if k: "k < length bs" for k
  proof (rule bit_word_eqI)
    fix j assume j: "j < LENGTH(8)"
    let ?p = "8 * (cursize m + int k) + int j"
    have p: "?p div 8 = cursize m + int k" "?p mod 8 = int j"
      using byte_bit [of "int j" "cursize m + int k"] j by simp_all
    have "0 \<le> int j \<and> int j < 8" using j by simp
    from app_grows(2) [OF ok, rule_format, OF k this]
    have "fixed_bit (msg_app bs m) ?p \<and> stream_bit (data (msg_app bs m)) ?p = bit (bs ! k) j" by simp
    then have "stream_bit F ?p = bit (bs ! k) j" using r(1) by (simp add: agrees_def)
    then show "bit (idx F (cursize m + int k)) j = bit (bs ! k) j"
      unfolding stream_bit_def p by simp
  qed
  then show "bytes_at (readcount r) (int (length bs)) (data r) = bs"
    using at n m by (intro nth_equalityI) (auto simp: bytes_at_def idx_def nat_add_distrib)
  show "reads_at F n (msg_app bs m) (msg_adv (int (length bs)) r)"
    using r(2) by (simp add: reads_at_def msg_app_def msg_adv_def)
qed

text \<open>A reader that consumes the bytes it finds transfers their value.\<close>

lemma app_transfers:
  assumes ok: "wr_ok m" "room (length bs) m"
    and read: "\<And>r. bytes_at (readcount r) (int (length bs)) (data r) = bs \<Longrightarrow> 0 \<le> readcount r \<Longrightarrow>
      readcount r + int (length bs) \<le> cursize r \<Longrightarrow> cursize r < 2 ^ 27 \<Longrightarrow>
      f r = (v, msg_adv (int (length bs)) r)"
  shows "transfers (State f) m (msg_app bs m) v"
  unfolding transfers_def state.sel
proof (intro conjI allI impI)
  show "grows m (msg_app bs m)" by (rule app_grows(1) [OF ok])
  fix F n r assume "agrees F (msg_app bs m) \<and> reads_at F n m r \<and> cursize (msg_app bs m) \<le> n"
  then have r: "agrees F (msg_app bs m)" "reads_at F n m r" "cursize (msg_app bs m) \<le> n" by simp_all
  show "\<exists>r1. f r = (v, r1) \<and> reads_at F n (msg_app bs m) r1"
    using read [OF reads_bytes(1,3,2,4) [OF ok r]] reads_bytes(5) [OF ok r] by blast
qed

lemma write_not_overflowed:
  assumes "wr_ok m"
  shows "\<not> overflowed (MSG_WriteByte c m) \<Longrightarrow> room 1 m" "\<not> overflowed (MSG_WriteShort c m) \<Longrightarrow> room 2 m"
    "\<not> overflowed (MSG_WriteLong c m) \<Longrightarrow> room 4 m"
proof -
  have M: "msg_ok m" using assms by (simp add: wr_ok_def)
  show "\<not> overflowed (MSG_WriteByte c m) \<Longrightarrow> room 1 m"
    by (rule ccontr) (simp add: write_no_room(1) [OF M])
  show "\<not> overflowed (MSG_WriteShort c m) \<Longrightarrow> room 2 m"
    by (rule ccontr) (simp add: write_no_room(2) [OF M])
  show "\<not> overflowed (MSG_WriteLong c m) \<Longrightarrow> room 4 m"
    by (rule ccontr) (simp add: write_no_room(3) [OF M])
qed

lemma WriteByte_transfers [transfer_rules]:
  assumes "wr_ok m" "\<not> overflowed (MSG_WriteByte c m)"
  shows "transfers (State MSG_ReadByte) m (MSG_WriteByte c m) (c mod 256)"
proof -
  have m: "room 1 m" "MSG_WriteByte c m = msg_app (le_bytes 1 c) m"
    using write_not_overflowed(1) [OF assms] write_room(1) assms(1) by (auto simp: wr_ok_def)
  show ?thesis unfolding m(2)
    using assms(1) m(1) by (intro app_transfers) (simp_all add: MSG_ReadByte_def le_uint_bytes uint_word_of_int)
qed

lemma WriteShort_transfers [transfer_rules]:
  assumes "wr_ok m" "\<not> overflowed (MSG_WriteShort c m)"
  shows "transfers (State MSG_ReadShort) m (MSG_WriteShort c m) (s16 c)"
proof -
  have m: "room 2 m" "MSG_WriteShort c m = msg_app (le_bytes 2 c) m"
    using write_not_overflowed(2) [OF assms] write_room(2) assms(1) by (auto simp: wr_ok_def)
  show ?thesis unfolding m(2)
    using assms(1) m(1) by (intro app_transfers) (simp_all add: MSG_ReadShort_def s16_le_uint)
qed

lemma WriteLong_transfers [transfer_rules]:
  assumes "wr_ok m" "\<not> overflowed (MSG_WriteLong c m)"
  shows "transfers (State MSG_ReadLong) m (MSG_WriteLong c m) (s32 c)"
proof -
  have m: "room 4 m" "MSG_WriteLong c m = msg_app (le_bytes 4 c) m"
    using write_not_overflowed(3) [OF assms] write_room(3) assms(1) by (auto simp: wr_ok_def)
  show ?thesis unfolding m(2)
    using assms(1) m(1) by (intro app_transfers) (simp_all add: MSG_ReadLong_def s32_le_uint)
qed

section \<open>Writers that readers undo\<close>

text \<open>
  Writers and readers compose: an overflow is kept, the last entity number is left alone, and
  without an overflow at the end the reader gives the value.  The second form is for writers
  that can stop with an error.
\<close>

definition transmits :: "'a reader \<Rightarrow> (msg \<Rightarrow> msg) \<Rightarrow> 'a \<Rightarrow> bool" where
  "transmits D W v \<longleftrightarrow> (\<forall>m. (overflowed m \<longrightarrow> overflowed (W m)) \<and> lastRefEntity (W m) = lastRefEntity m \<and>
     (wr_ok m \<and> \<not> overflowed (W m) \<longrightarrow> transfers D m (W m) v))"

definition conveys :: "'a reader \<Rightarrow> (msg \<Rightarrow> 'e + msg) \<Rightarrow> 'a \<Rightarrow> bool" where
  "conveys D W v \<longleftrightarrow> (\<forall>m m1. W m = Inr m1 \<longrightarrow> (overflowed m \<longrightarrow> overflowed m1) \<and>
     lastRefEntity m1 = lastRefEntity m \<and> (wr_ok m \<and> \<not> overflowed m1 \<longrightarrow> transfers D m m1 v))"

lemma conveys_Inr: "transmits D W v \<Longrightarrow> conveys D (\<lambda>m. Inr (W m)) v"
  by (simp add: transmits_def conveys_def)

lemma conveysD:
  assumes "conveys D W v" "W m = Inr m1"
  shows "overflowed m \<Longrightarrow> overflowed m1" "lastRefEntity m1 = lastRefEntity m"
    "wr_ok m \<Longrightarrow> \<not> overflowed m1 \<Longrightarrow> transfers D m m1 v"
  using assms by (simp_all add: conveys_def)

lemma transmits_return: "transmits (State_Monad.return v) (\<lambda>m. m) v"
  by (simp add: transmits_def transfers_return)

lemma transmits_bind:
  assumes "transmits D V v" "transmits (E v) W w"
  shows "transmits (State_Monad.bind D E) (\<lambda>m. W (V m)) w"
  unfolding transmits_def
proof (intro allI conjI impI)
  fix m
  show "overflowed m \<Longrightarrow> overflowed (W (V m))" "lastRefEntity (W (V m)) = lastRefEntity m"
    using assms by (simp_all add: transmits_def)
  assume m: "wr_ok m \<and> \<not> overflowed (W (V m))"
  then have 1: "transfers D m (V m) v" using assms by (auto simp: transmits_def)
  then have "wr_ok (V m)" by (blast dest: transfers_ok)
  then have "transfers (E v) (V m) (W (V m)) w" using m assms(2) by (auto simp: transmits_def)
  with 1 show "transfers (State_Monad.bind D E) m (W (V m)) w" by (rule transfers_bind)
qed

lemma transmits_last:
  assumes "transmits D V v"
  shows "transmits (State_Monad.bind D (\<lambda>x. State_Monad.return (f x))) V (f v)"
  using transmits_bind [OF assms transmits_return, of f] .

lemma conveys_bind:
  assumes "conveys D V v" "conveys (E v) W w"
  shows "conveys (State_Monad.bind D E) (\<lambda>m. case V m of Inl x \<Rightarrow> Inl x | Inr m1 \<Rightarrow> W m1) w"
  unfolding conveys_def
proof (intro allI conjI impI)
  fix m m2 assume "(case V m of Inl x \<Rightarrow> Inl x | Inr m1 \<Rightarrow> W m1) = Inr m2"
  then obtain m1 where 1: "V m = Inr m1" and 2: "W m1 = Inr m2" by (auto split: sum.splits)
  note a = conveysD [OF assms(1) 1] and b = conveysD [OF assms(2) 2]
  show "overflowed m \<Longrightarrow> overflowed m2" "lastRefEntity m2 = lastRefEntity m" using a(1,2) b(1,2) by simp_all
  assume m: "wr_ok m \<and> \<not> overflowed m2"
  then have 3: "transfers D m m1 v" using a b(1) by blast
  then have "wr_ok m1" by (blast dest: transfers_ok)
  then have "transfers (E v) m1 m2 w" using b(3) m by blast
  with 3 show "transfers (State_Monad.bind D E) m m2 w" by (rule transfers_bind)
qed

lemma conveys_after:
  assumes "transmits D V v" "conveys (E v) W w"
  shows "conveys (State_Monad.bind D E) (\<lambda>m. W (V m)) w"
  using conveys_bind [where V = "\<lambda>m. Inr (V m)", OF conveys_Inr [OF assms(1)], where E = E] assms(2) by simp

abbreviation read_bit :: "int reader" where "read_bit \<equiv> State MSG_ReadBit"
abbreviation read_bits :: "nat \<Rightarrow> int reader" where "read_bits n \<equiv> State (MSG_ReadBits (int n))"
abbreviation read_byte :: "int reader" where "read_byte \<equiv> State MSG_ReadByte"
abbreviation read_short :: "int reader" where "read_short \<equiv> State MSG_ReadShort"
abbreviation read_long :: "int reader" where "read_long \<equiv> State MSG_ReadLong"

lemma writebits_last: "lastRefEntity (writebits_loop n v m) = lastRefEntity m"
  by (induction n arbitrary: v m) (simp_all add: Let_def fresh_bit_byte_def)

lemma last_entity_kept [simp]:
  "lastRefEntity (MSG_WriteBit0 m) = lastRefEntity m" "lastRefEntity (MSG_WriteBit1 m) = lastRefEntity m"
  "lastRefEntity (MSG_WriteByte c m) = lastRefEntity m" "lastRefEntity (MSG_WriteShort c m) = lastRefEntity m"
  "lastRefEntity (MSG_WriteLong c m) = lastRefEntity m" "lastRefEntity (MSG_WriteBits v n m) = lastRefEntity m"
  by (simp_all add: MSG_WriteBit0_def MSG_WriteBit1_def MSG_WriteByte_def MSG_WriteShort_def MSG_WriteLong_def
      MSG_WriteBits_def fresh_bit_byte_def msg_app_def Let_def writebits_last)

lemma writes_transmit:
  "transmits read_bit MSG_WriteBit0 0" "transmits read_bit MSG_WriteBit1 1"
  "transmits read_byte (MSG_WriteByte c) (c mod 256)" "transmits read_short (MSG_WriteShort c) (s16 c)"
  "transmits read_long (MSG_WriteLong c) (s32 c)"
  by (auto simp: transmits_def sticky intro: transfer_rules)

lemma bits_transmit: "n \<le> 32 \<Longrightarrow> transmits (read_bits n) (MSG_WriteBits v n) (s32 (take_bit n v))"
  by (auto simp: transmits_def sticky intro: transfer_rules)

lemma few_bits_transmit:
  assumes "n < 32"
  shows "transmits (read_bits n) (MSG_WriteBits v n) (take_bit n v)"
proof -
  have "take_bit n v < 2 ^ n" by simp
  also have "(2::int) ^ n \<le> 2 ^ 31" using assms by (intro power_increasing) simp_all
  finally have "take_bit n v < 2 ^ 31" .
  moreover have "0 \<le> take_bit n v" by simp
  ultimately have "s32 (take_bit n v) = take_bit n v" by (intro s32_id; linarith)
  then show ?thesis using bits_transmit [of n v] assms by simp
qed

end
