(* ===== verification/SnapTables.thy ===== *)
theory SnapTables
  imports SnapWire
begin

text \<open>
  The tables of src/src/msg.c that say which 32-bit words of a structure travel in a snapshot, in
  which order and in which coding.  A row gives the member as the source names it and its offset
  in the structure (entity.h, player.h, q\_shared.h), all of whose members are 32 bits wide or
  arrays of bytes whose words are sent whole.
\<close>

section \<open>Rows\<close>

record netField =
  member :: string
  offset :: nat
  bits :: int
  changeHints :: nat

definition NETF :: "string \<Rightarrow> nat \<Rightarrow> int \<Rightarrow> nat \<Rightarrow> netField" where
  "NETF x off b h = \<lparr>member = x, offset = off, bits = b, changeHints = h\<rparr>"

lemma NETF_simps [simp]:
  "offset (NETF x off b h) = off" "bits (NETF x off b h) = b" "changeHints (NETF x off b h) = h"
  by (simp_all add: NETF_def)

text \<open>The number of bits of a count: \<open>32 - clz(x)\<close>.\<close>

fun GetMinBitCount :: "nat \<Rightarrow> nat" where
  "GetMinBitCount x = (if x = 0 then 0 else Suc (GetMinBitCount (x div 2)))"

declare GetMinBitCount.simps [simp del]

lemma GetMinBitCount_bound: "x < 2 ^ GetMinBitCount x"
proof (induction x rule: GetMinBitCount.induct)
  case (1 x)
  show ?case
  proof (cases "x = 0")
    case True
    then show ?thesis by simp
  next
    case False
    then show ?thesis using "1.IH" by (simp add: GetMinBitCount.simps [of x])
  qed
qed

lemma GetMinBitCount_least: "x < 2 ^ n \<Longrightarrow> GetMinBitCount x \<le> n"
proof (induction x arbitrary: n rule: GetMinBitCount.induct)
  case (1 x)
  show ?case
  proof (cases "x = 0")
    case True
    then show ?thesis by (simp add: GetMinBitCount.simps)
  next
    case False
    then obtain k where k: "n = Suc k" using "1.prems" by (cases n) simp_all
    then have "GetMinBitCount (x div 2) \<le> k" using "1.IH" [OF False] "1.prems" by simp
    then show ?thesis using False k by (simp add: GetMinBitCount.simps [of x])
  qed
qed

section \<open>Entities\<close>

definition entityStateFields :: "netField list" where
  "entityStateFields = [
    NETF ''eType'' 4 8 0,
    NETF ''lerp.eFlags'' 8 (-98) 0,
    NETF ''lerp.pos.trBase[0]'' 24 (-92) 0,
    NETF ''lerp.pos.trBase[1]'' 28 (-91) 0,
    NETF ''lerp.pos.trBase[2]'' 32 (-90) 0,
    NETF ''events[0]'' 164 (-94) 0,
    NETF ''eventSequence'' 160 8 0,
    NETF ''weapon'' 196 7 0,
    NETF ''weaponModel'' 200 4 0,
    NETF ''eventParms[0]'' 180 (-93) 0,
    NETF ''surfType'' 132 8 0,
    NETF ''lerp.u.anonymous.data[0]'' 84 32 0,
    NETF ''time2'' 112 (-97) 0,
    NETF ''index'' 136 10 0,
    NETF ''solid'' 152 24 0,
    NETF ''un2'' 216 32 0,
    NETF ''groundEntityNum'' 124 (-96) 0,
    NETF ''un1'' 212 8 0,
    NETF ''lerp.apos.trBase[1]'' 64 (-100) 0,
    NETF ''lerp.apos.trBase[0]'' 60 (-100) 0,
    NETF ''clientNum'' 140 7 0,
    NETF ''lerp.pos.trDelta[0]'' 36 0 0,
    NETF ''lerp.pos.trDelta[1]'' 40 0 0,
    NETF ''lerp.pos.trDelta[2]'' 44 0 0,
    NETF ''events[1]'' 168 (-94) 0,
    NETF ''events[2]'' 172 (-94) 0,
    NETF ''eventParms[1]'' 184 (-93) 0,
    NETF ''eventParms[2]'' 188 (-93) 0,
    NETF ''lerp.pos.trTime'' 16 (-97) 0,
    NETF ''lerp.pos.trType'' 12 8 0,
    NETF ''eventParm'' 156 (-93) 0,
    NETF ''lerp.apos.trType'' 48 8 0,
    NETF ''events[3]'' 176 (-94) 0,
    NETF ''lerp.apos.trBase[2]'' 68 (-100) 0,
    NETF ''lerp.apos.trTime'' 52 32 0,
    NETF ''lerp.apos.trDelta[0]'' 72 0 0,
    NETF ''lerp.apos.trDelta[2]'' 80 0 0,
    NETF ''eventParms[3]'' 192 (-93) 0,
    NETF ''lerp.pos.trDuration'' 20 32 0,
    NETF ''lerp.apos.trDelta[1]'' 76 0 0,
    NETF ''attackerEntityNum'' 120 10 0,
    NETF ''fWaistPitch'' 224 0 0,
    NETF ''fTorsoPitch'' 220 0 0,
    NETF ''iHeadIcon'' 144 4 0,
    NETF ''iHeadIconTeam'' 148 2 0,
    NETF ''lerp.apos.trDuration'' 56 32 0,
    NETF ''torsoAnim'' 208 10 0,
    NETF ''legsAnim'' 204 10 0,
    NETF ''loopSound'' 128 8 0,
    NETF ''otherEntityNum'' 116 10 0,
    NETF ''lerp.u.anonymous.data[1]'' 88 32 0,
    NETF ''lerp.u.anonymous.data[2]'' 92 32 0,
    NETF ''lerp.u.anonymous.data[3]'' 96 32 0,
    NETF ''lerp.u.anonymous.data[4]'' 100 32 0,
    NETF ''lerp.u.anonymous.data[5]'' 104 32 0,
    NETF ''partBits[0]'' 228 32 0,
    NETF ''partBits[1]'' 232 32 0,
    NETF ''partBits[2]'' 236 32 0,
    NETF ''partBits[3]'' 240 32 0]"

definition playerEntityStateFields :: "netField list" where
  "playerEntityStateFields = [
    NETF ''eType'' 4 8 1,
    NETF ''lerp.pos.trBase[0]'' 24 (-92) 2,
    NETF ''lerp.pos.trBase[1]'' 28 (-91) 2,
    NETF ''lerp.u.player.movementDir'' 88 (-8) 0,
    NETF ''lerp.apos.trBase[1]'' 64 (-100) 0,
    NETF ''lerp.pos.trBase[2]'' 32 (-90) 0,
    NETF ''eventSequence'' 160 8 0,
    NETF ''lerp.apos.trBase[0]'' 60 (-100) 0,
    NETF ''legsAnim'' 204 10 0,
    NETF ''torsoAnim'' 208 10 0,
    NETF ''lerp.eFlags'' 8 (-98) 0,
    NETF ''events[0]'' 164 (-94) 0,
    NETF ''events[1]'' 168 (-94) 0,
    NETF ''events[2]'' 172 (-94) 0,
    NETF ''events[3]'' 176 (-94) 0,
    NETF ''eventParms[1]'' 184 (-93) 0,
    NETF ''eventParms[0]'' 180 (-93) 0,
    NETF ''eventParms[2]'' 188 (-93) 0,
    NETF ''eventParms[3]'' 192 (-93) 0,
    NETF ''groundEntityNum'' 124 (-96) 0,
    NETF ''fTorsoPitch'' 220 0 0,
    NETF ''fWaistPitch'' 224 0 0,
    NETF ''solid'' 152 24 0,
    NETF ''weapon'' 196 7 0,
    NETF ''eventParm'' 156 (-93) 0,
    NETF ''lerp.pos.trType'' 12 8 0,
    NETF ''lerp.apos.trType'' 48 8 0,
    NETF ''lerp.apos.trBase[2]'' 68 (-100) 0,
    NETF ''clientNum'' 140 7 0,
    NETF ''otherEntityNum'' 116 10 0,
    NETF ''weaponModel'' 200 4 0,
    NETF ''iHeadIcon'' 144 4 0,
    NETF ''iHeadIconTeam'' 148 2 0,
    NETF ''lerp.u.player.leanf'' 84 0 0,
    NETF ''lerp.pos.trDelta[1]'' 40 0 1,
    NETF ''lerp.pos.trDelta[0]'' 36 0 1,
    NETF ''lerp.pos.trDuration'' 20 32 1,
    NETF ''lerp.pos.trTime'' 16 (-97) 1,
    NETF ''lerp.pos.trDelta[2]'' 44 0 1,
    NETF ''surfType'' 132 8 1,
    NETF ''un1'' 212 8 1,
    NETF ''index'' 136 10 1,
    NETF ''lerp.apos.trDelta[0]'' 72 0 1,
    NETF ''lerp.apos.trDelta[1]'' 76 0 1,
    NETF ''lerp.apos.trDelta[2]'' 80 0 1,
    NETF ''time2'' 112 (-97) 1,
    NETF ''loopSound'' 128 8 1,
    NETF ''attackerEntityNum'' 120 10 1,
    NETF ''lerp.apos.trTime'' 52 32 1,
    NETF ''lerp.apos.trDuration'' 56 32 1,
    NETF ''lerp.u.anonymous.data[2]'' 92 32 1,
    NETF ''lerp.u.anonymous.data[3]'' 96 32 1,
    NETF ''lerp.u.anonymous.data[4]'' 100 32 1,
    NETF ''lerp.u.anonymous.data[5]'' 104 32 1,
    NETF ''un2'' 216 32 1,
    NETF ''partBits[0]'' 228 32 1,
    NETF ''partBits[1]'' 232 32 1,
    NETF ''partBits[2]'' 236 32 1,
    NETF ''partBits[3]'' 240 32 1]"

definition corpseEntityStateFields :: "netField list" where
  "corpseEntityStateFields = [
    NETF ''eType'' 4 8 1,
    NETF ''lerp.eFlags'' 8 (-98) 0,
    NETF ''lerp.pos.trTime'' 16 (-97) 0,
    NETF ''lerp.pos.trBase[0]'' 24 (-92) 0,
    NETF ''lerp.pos.trBase[1]'' 28 (-91) 0,
    NETF ''lerp.pos.trBase[2]'' 32 (-90) 0,
    NETF ''lerp.pos.trType'' 12 8 0,
    NETF ''lerp.apos.trType'' 48 8 0,
    NETF ''lerp.apos.trBase[1]'' 64 (-100) 0,
    NETF ''clientNum'' 140 7 0,
    NETF ''legsAnim'' 204 10 0,
    NETF ''lerp.apos.trBase[0]'' 60 (-100) 0,
    NETF ''lerp.apos.trBase[2]'' 68 (-100) 0,
    NETF ''torsoAnim'' 208 10 0,
    NETF ''groundEntityNum'' 124 (-96) 0,
    NETF ''lerp.pos.trDelta[0]'' 36 0 0,
    NETF ''lerp.pos.trDelta[1]'' 40 0 0,
    NETF ''lerp.pos.trDelta[2]'' 44 0 0,
    NETF ''lerp.u.player.movementDir'' 88 (-8) 1,
    NETF ''eventSequence'' 160 8 1,
    NETF ''events[0]'' 164 (-94) 1,
    NETF ''events[1]'' 168 (-94) 1,
    NETF ''events[2]'' 172 (-94) 1,
    NETF ''events[3]'' 176 (-94) 1,
    NETF ''fTorsoPitch'' 220 0 1,
    NETF ''eventParms[1]'' 184 (-93) 1,
    NETF ''eventParms[0]'' 180 (-93) 1,
    NETF ''eventParms[2]'' 188 (-93) 1,
    NETF ''weapon'' 196 7 1,
    NETF ''weaponModel'' 200 4 1,
    NETF ''eventParms[3]'' 192 (-93) 1,
    NETF ''solid'' 152 24 1,
    NETF ''lerp.pos.trDuration'' 20 32 1,
    NETF ''fWaistPitch'' 224 0 1,
    NETF ''eventParm'' 156 (-93) 1,
    NETF ''iHeadIcon'' 144 4 1,
    NETF ''iHeadIconTeam'' 148 2 1,
    NETF ''surfType'' 132 8 1,
    NETF ''un1'' 212 8 1,
    NETF ''otherEntityNum'' 116 10 1,
    NETF ''index'' 136 10 1,
    NETF ''lerp.apos.trDelta[0]'' 72 0 1,
    NETF ''lerp.apos.trDelta[1]'' 76 0 1,
    NETF ''lerp.apos.trDelta[2]'' 80 0 1,
    NETF ''time2'' 112 (-97) 1,
    NETF ''loopSound'' 128 8 1,
    NETF ''attackerEntityNum'' 120 10 1,
    NETF ''lerp.apos.trTime'' 52 32 1,
    NETF ''lerp.u.player.leanf'' 84 0 1,
    NETF ''lerp.apos.trDuration'' 56 32 1,
    NETF ''un2'' 216 32 1,
    NETF ''lerp.u.anonymous.data[2]'' 92 32 1,
    NETF ''lerp.u.anonymous.data[3]'' 96 32 1,
    NETF ''lerp.u.anonymous.data[4]'' 100 32 1,
    NETF ''lerp.u.anonymous.data[5]'' 104 32 1,
    NETF ''partBits[0]'' 228 32 1,
    NETF ''partBits[1]'' 232 32 1,
    NETF ''partBits[2]'' 236 32 1,
    NETF ''partBits[3]'' 240 32 1]"

definition itemEntityStateFields :: "netField list" where
  "itemEntityStateFields = [
    NETF ''eType'' 4 8 0,
    NETF ''lerp.pos.trBase[2]'' 32 (-90) 0,
    NETF ''lerp.pos.trBase[1]'' 28 (-91) 0,
    NETF ''lerp.pos.trBase[0]'' 24 (-92) 0,
    NETF ''lerp.pos.trTime'' 16 (-97) 0,
    NETF ''lerp.pos.trType'' 12 8 2,
    NETF ''lerp.pos.trDelta[2]'' 44 0 2,
    NETF ''lerp.pos.trDelta[0]'' 36 0 2,
    NETF ''lerp.pos.trDelta[1]'' 40 0 0,
    NETF ''clientNum'' 140 7 2,
    NETF ''lerp.apos.trBase[1]'' 64 (-100) 0,
    NETF ''lerp.apos.trType'' 48 8 2,
    NETF ''lerp.apos.trTime'' 52 (-97) 2,
    NETF ''lerp.apos.trDelta[0]'' 72 0 2,
    NETF ''lerp.apos.trDelta[1]'' 76 0 2,
    NETF ''lerp.apos.trDelta[2]'' 80 0 0,
    NETF ''index'' 136 10 0,
    NETF ''lerp.apos.trBase[2]'' 68 (-100) 0,
    NETF ''groundEntityNum'' 124 (-96) 0,
    NETF ''lerp.pos.trDuration'' 20 32 0,
    NETF ''lerp.apos.trBase[0]'' 60 (-100) 0,
    NETF ''solid'' 152 24 0,
    NETF ''eventParm'' 156 (-93) 0,
    NETF ''lerp.eFlags'' 8 (-98) 0,
    NETF ''eventSequence'' 160 8 0,
    NETF ''events[0]'' 164 (-94) 0,
    NETF ''eventParms[0]'' 180 (-93) 0,
    NETF ''weapon'' 196 7 0,
    NETF ''weaponModel'' 200 4 0,
    NETF ''surfType'' 132 8 0,
    NETF ''otherEntityNum'' 116 10 0,
    NETF ''lerp.u.anonymous.data[0]'' 84 32 0,
    NETF ''lerp.u.anonymous.data[1]'' 88 32 0,
    NETF ''lerp.u.anonymous.data[2]'' 92 32 0,
    NETF ''eventParms[1]'' 184 (-93) 0,
    NETF ''eventParms[2]'' 188 (-93) 0,
    NETF ''eventParms[3]'' 192 (-93) 0,
    NETF ''events[1]'' 168 (-94) 0,
    NETF ''events[2]'' 172 (-94) 0,
    NETF ''events[3]'' 176 (-94) 0,
    NETF ''attackerEntityNum'' 120 10 0,
    NETF ''un1'' 212 8 0,
    NETF ''time2'' 112 (-97) 0,
    NETF ''loopSound'' 128 8 0,
    NETF ''un2'' 216 32 0,
    NETF ''legsAnim'' 204 10 1,
    NETF ''torsoAnim'' 208 10 1,
    NETF ''fTorsoPitch'' 220 0 1,
    NETF ''fWaistPitch'' 224 0 1,
    NETF ''iHeadIcon'' 144 4 1,
    NETF ''iHeadIconTeam'' 148 2 1,
    NETF ''lerp.apos.trDuration'' 56 32 1,
    NETF ''lerp.u.anonymous.data[3]'' 96 32 1,
    NETF ''lerp.u.anonymous.data[4]'' 100 32 1,
    NETF ''lerp.u.anonymous.data[5]'' 104 32 1,
    NETF ''partBits[0]'' 228 32 1,
    NETF ''partBits[1]'' 232 32 1,
    NETF ''partBits[2]'' 236 32 1,
    NETF ''partBits[3]'' 240 32 1]"

definition missleEntityStateFields :: "netField list" where
  "missleEntityStateFields = [
    NETF ''eType'' 4 8 0,
    NETF ''lerp.pos.trBase[1]'' 28 (-91) 0,
    NETF ''lerp.pos.trBase[0]'' 24 (-92) 0,
    NETF ''lerp.pos.trDelta[0]'' 36 0 0,
    NETF ''lerp.pos.trDelta[1]'' 40 0 0,
    NETF ''lerp.pos.trDelta[2]'' 44 0 0,
    NETF ''lerp.apos.trBase[2]'' 68 (-100) 0,
    NETF ''lerp.apos.trBase[0]'' 60 (-100) 0,
    NETF ''lerp.pos.trBase[2]'' 32 (-90) 0,
    NETF ''lerp.pos.trTime'' 16 (-97) 0,
    NETF ''lerp.apos.trTime'' 52 (-97) 0,
    NETF ''lerp.apos.trDelta[0]'' 72 0 0,
    NETF ''eventSequence'' 160 8 0,
    NETF ''groundEntityNum'' 124 (-96) 0,
    NETF ''lerp.apos.trBase[1]'' 64 (-100) 0,
    NETF ''lerp.pos.trType'' 12 8 0,
    NETF ''lerp.apos.trType'' 48 8 0,
    NETF ''lerp.eFlags'' 8 (-98) 0,
    NETF ''surfType'' 132 8 0,
    NETF ''lerp.apos.trDelta[2]'' 80 0 0,
    NETF ''lerp.u.missile.launchTime'' 84 (-97) 0,
    NETF ''weapon'' 196 7 0,
    NETF ''eventParms[0]'' 180 (-93) 0,
    NETF ''events[0]'' 164 (-94) 0,
    NETF ''events[1]'' 168 (-94) 0,
    NETF ''index'' 136 10 0,
    NETF ''clientNum'' 140 7 0,
    NETF ''eventParms[1]'' 184 (-93) 0,
    NETF ''events[2]'' 172 (-94) 0,
    NETF ''eventParms[2]'' 188 (-93) 0,
    NETF ''un2'' 216 1 0,
    NETF ''events[3]'' 176 (-94) 0,
    NETF ''eventParms[3]'' 192 (-93) 0,
    NETF ''weaponModel'' 200 4 0,
    NETF ''eventParm'' 156 (-93) 0,
    NETF ''un1'' 212 8 0,
    NETF ''otherEntityNum'' 116 10 0,
    NETF ''lerp.apos.trDelta[1]'' 76 0 0,
    NETF ''attackerEntityNum'' 120 10 0,
    NETF ''lerp.pos.trDuration'' 20 32 0,
    NETF ''loopSound'' 128 8 0,
    NETF ''lerp.u.anonymous.data[1]'' 88 32 0,
    NETF ''lerp.u.anonymous.data[2]'' 92 32 0,
    NETF ''solid'' 152 24 0,
    NETF ''time2'' 112 (-97) 0,
    NETF ''legsAnim'' 204 10 1,
    NETF ''torsoAnim'' 208 10 1,
    NETF ''fTorsoPitch'' 220 0 1,
    NETF ''fWaistPitch'' 224 0 1,
    NETF ''iHeadIcon'' 144 4 1,
    NETF ''iHeadIconTeam'' 148 2 1,
    NETF ''lerp.apos.trDuration'' 56 32 1,
    NETF ''lerp.u.anonymous.data[3]'' 96 32 1,
    NETF ''lerp.u.anonymous.data[4]'' 100 32 1,
    NETF ''lerp.u.anonymous.data[5]'' 104 32 1,
    NETF ''partBits[0]'' 228 32 1,
    NETF ''partBits[1]'' 232 32 1,
    NETF ''partBits[2]'' 236 32 1,
    NETF ''partBits[3]'' 240 32 1]"

definition scriptMoverStateFields :: "netField list" where
  "scriptMoverStateFields = [
    NETF ''eType'' 4 8 0,
    NETF ''lerp.pos.trBase[0]'' 24 (-92) 0,
    NETF ''lerp.pos.trBase[1]'' 28 (-91) 0,
    NETF ''lerp.pos.trBase[2]'' 32 (-90) 0,
    NETF ''eventSequence'' 160 8 0,
    NETF ''lerp.pos.trTime'' 16 (-97) 0,
    NETF ''index'' 136 10 0,
    NETF ''lerp.pos.trDuration'' 20 32 0,
    NETF ''lerp.pos.trType'' 12 8 0,
    NETF ''lerp.apos.trBase[1]'' 64 (-100) 0,
    NETF ''lerp.pos.trDelta[2]'' 44 0 0,
    NETF ''lerp.apos.trDelta[0]'' 72 0 0,
    NETF ''lerp.apos.trType'' 48 8 0,
    NETF ''lerp.pos.trDelta[0]'' 36 0 0,
    NETF ''lerp.pos.trDelta[1]'' 40 0 0,
    NETF ''lerp.apos.trDelta[1]'' 76 0 0,
    NETF ''lerp.apos.trDelta[2]'' 80 0 0,
    NETF ''lerp.apos.trBase[2]'' 68 (-100) 0,
    NETF ''lerp.apos.trBase[0]'' 60 (-100) 0,
    NETF ''eventParms[0]'' 180 (-93) 0,
    NETF ''partBits[0]'' 228 32 0,
    NETF ''events[0]'' 164 (-94) 0,
    NETF ''lerp.apos.trTime'' 52 32 0,
    NETF ''partBits[1]'' 232 32 0,
    NETF ''events[1]'' 168 (-94) 0,
    NETF ''eventParms[1]'' 184 (-93) 0,
    NETF ''eventParms[2]'' 188 (-93) 0,
    NETF ''events[2]'' 172 (-94) 0,
    NETF ''lerp.apos.trDuration'' 56 32 0,
    NETF ''eventParms[3]'' 192 (-93) 0,
    NETF ''events[3]'' 176 (-94) 0,
    NETF ''loopSound'' 128 8 0,
    NETF ''solid'' 152 24 0,
    NETF ''lerp.eFlags'' 8 (-98) 0,
    NETF ''groundEntityNum'' 124 (-96) 0,
    NETF ''clientNum'' 140 7 0,
    NETF ''eventParm'' 156 (-93) 0,
    NETF ''weapon'' 196 7 0,
    NETF ''surfType'' 132 8 0,
    NETF ''otherEntityNum'' 116 10 0,
    NETF ''lerp.u.anonymous.data[0]'' 84 32 0,
    NETF ''lerp.u.anonymous.data[1]'' 88 32 0,
    NETF ''lerp.u.anonymous.data[2]'' 92 32 0,
    NETF ''weaponModel'' 200 4 0,
    NETF ''time2'' 112 (-97) 0,
    NETF ''un2'' 216 32 0,
    NETF ''un1'' 212 8 0,
    NETF ''attackerEntityNum'' 120 10 0,
    NETF ''fWaistPitch'' 224 0 0,
    NETF ''fTorsoPitch'' 220 0 0,
    NETF ''iHeadIcon'' 144 4 0,
    NETF ''iHeadIconTeam'' 148 2 0,
    NETF ''torsoAnim'' 208 10 0,
    NETF ''legsAnim'' 204 10 0,
    NETF ''lerp.u.anonymous.data[3]'' 96 32 0,
    NETF ''lerp.u.anonymous.data[4]'' 100 32 0,
    NETF ''lerp.u.anonymous.data[5]'' 104 32 0,
    NETF ''partBits[2]'' 236 32 0,
    NETF ''partBits[3]'' 240 32 0]"

definition soundBlendEntityStateFields :: "netField list" where
  "soundBlendEntityStateFields = [
    NETF ''eType'' 4 8 1,
    NETF ''lerp.pos.trTime'' 16 (-97) 0,
    NETF ''lerp.pos.trBase[0]'' 24 (-92) 0,
    NETF ''lerp.pos.trBase[1]'' 28 (-91) 0,
    NETF ''lerp.pos.trDelta[0]'' 36 0 0,
    NETF ''lerp.pos.trDelta[1]'' 40 0 0,
    NETF ''lerp.apos.trBase[1]'' 64 (-100) 0,
    NETF ''lerp.pos.trBase[2]'' 32 (-90) 0,
    NETF ''lerp.pos.trDelta[2]'' 44 0 0,
    NETF ''lerp.apos.trBase[0]'' 60 (-100) 0,
    NETF ''eventSequence'' 160 8 0,
    NETF ''legsAnim'' 204 10 0,
    NETF ''surfType'' 132 8 0,
    NETF ''otherEntityNum'' 116 10 0,
    NETF ''un1'' 212 8 0,
    NETF ''lerp.eFlags'' 8 (-98) 0,
    NETF ''groundEntityNum'' 124 (-96) 0,
    NETF ''clientNum'' 140 7 0,
    NETF ''events[0]'' 164 (-94) 0,
    NETF ''events[1]'' 168 (-94) 0,
    NETF ''events[2]'' 172 (-94) 0,
    NETF ''weapon'' 196 7 0,
    NETF ''weaponModel'' 200 4 0,
    NETF ''eventParms[1]'' 184 (-93) 0,
    NETF ''eventParms[0]'' 180 (-93) 0,
    NETF ''eventParms[2]'' 188 (-93) 0,
    NETF ''index'' 136 10 0,
    NETF ''lerp.pos.trType'' 12 8 0,
    NETF ''lerp.apos.trType'' 48 8 0,
    NETF ''events[3]'' 176 (-94) 0,
    NETF ''lerp.apos.trBase[2]'' 68 (-100) 0,
    NETF ''lerp.apos.trTime'' 52 32 0,
    NETF ''lerp.apos.trDelta[0]'' 72 0 0,
    NETF ''lerp.apos.trDelta[2]'' 80 0 0,
    NETF ''torsoAnim'' 208 10 0,
    NETF ''eventParms[3]'' 192 (-93) 0,
    NETF ''solid'' 152 24 0,
    NETF ''lerp.pos.trDuration'' 20 32 0,
    NETF ''lerp.apos.trDelta[1]'' 76 0 0,
    NETF ''un2'' 216 32 0,
    NETF ''time2'' 112 (-97) 0,
    NETF ''loopSound'' 128 8 0,
    NETF ''attackerEntityNum'' 120 10 0,
    NETF ''fWaistPitch'' 224 0 0,
    NETF ''fTorsoPitch'' 220 0 0,
    NETF ''iHeadIcon'' 144 4 0,
    NETF ''iHeadIconTeam'' 148 2 0,
    NETF ''eventParm'' 156 (-93) 0,
    NETF ''lerp.u.soundBlend.lerp'' 84 0 0,
    NETF ''lerp.apos.trDuration'' 56 32 0,
    NETF ''lerp.u.anonymous.data[1]'' 88 32 1,
    NETF ''lerp.u.anonymous.data[2]'' 92 32 1,
    NETF ''lerp.u.anonymous.data[3]'' 96 32 1,
    NETF ''lerp.u.anonymous.data[4]'' 100 32 1,
    NETF ''lerp.u.anonymous.data[5]'' 104 32 1,
    NETF ''partBits[0]'' 228 32 1,
    NETF ''partBits[1]'' 232 32 1,
    NETF ''partBits[2]'' 236 32 1,
    NETF ''partBits[3]'' 240 32 1]"

definition fxStateFields :: "netField list" where
  "fxStateFields = [
    NETF ''eType'' 4 8 0,
    NETF ''time2'' 112 (-97) 0,
    NETF ''lerp.apos.trBase[0]'' 60 (-100) 0,
    NETF ''lerp.pos.trBase[0]'' 24 (-92) 0,
    NETF ''lerp.pos.trBase[1]'' 28 (-91) 0,
    NETF ''un1'' 212 8 0,
    NETF ''lerp.pos.trBase[2]'' 32 (-90) 0,
    NETF ''lerp.apos.trBase[2]'' 68 (-100) 0,
    NETF ''lerp.apos.trBase[1]'' 64 (-100) 0,
    NETF ''lerp.pos.trTime'' 16 (-97) 0,
    NETF ''lerp.pos.trType'' 12 8 0,
    NETF ''lerp.pos.trDelta[2]'' 44 0 0,
    NETF ''lerp.pos.trDelta[0]'' 36 0 0,
    NETF ''lerp.pos.trDelta[1]'' 40 0 0,
    NETF ''clientNum'' 140 7 0,
    NETF ''lerp.apos.trType'' 48 8 0,
    NETF ''lerp.apos.trTime'' 52 (-97) 0,
    NETF ''lerp.apos.trDelta[0]'' 72 0 0,
    NETF ''lerp.apos.trDelta[1]'' 76 0 0,
    NETF ''lerp.apos.trDelta[2]'' 80 0 0,
    NETF ''index'' 136 10 0,
    NETF ''groundEntityNum'' 124 (-96) 0,
    NETF ''lerp.pos.trDuration'' 20 32 0,
    NETF ''solid'' 152 24 0,
    NETF ''eventParm'' 156 (-93) 0,
    NETF ''lerp.eFlags'' 8 (-98) 0,
    NETF ''eventSequence'' 160 8 0,
    NETF ''events[0]'' 164 (-94) 0,
    NETF ''eventParms[0]'' 180 (-93) 0,
    NETF ''weapon'' 196 7 0,
    NETF ''weaponModel'' 200 4 0,
    NETF ''surfType'' 132 8 0,
    NETF ''otherEntityNum'' 116 10 0,
    NETF ''lerp.u.anonymous.data[0]'' 84 32 0,
    NETF ''lerp.u.anonymous.data[1]'' 88 32 0,
    NETF ''lerp.u.anonymous.data[2]'' 92 32 0,
    NETF ''eventParms[1]'' 184 (-93) 0,
    NETF ''eventParms[2]'' 188 (-93) 0,
    NETF ''eventParms[3]'' 192 (-93) 0,
    NETF ''events[1]'' 168 (-94) 0,
    NETF ''events[2]'' 172 (-94) 0,
    NETF ''events[3]'' 176 (-94) 0,
    NETF ''attackerEntityNum'' 120 10 0,
    NETF ''loopSound'' 128 8 0,
    NETF ''un2'' 216 32 0,
    NETF ''legsAnim'' 204 10 1,
    NETF ''torsoAnim'' 208 10 1,
    NETF ''fTorsoPitch'' 220 0 1,
    NETF ''fWaistPitch'' 224 0 1,
    NETF ''iHeadIcon'' 144 4 1,
    NETF ''iHeadIconTeam'' 148 2 1,
    NETF ''lerp.apos.trDuration'' 56 32 1,
    NETF ''lerp.u.anonymous.data[3]'' 96 32 1,
    NETF ''lerp.u.anonymous.data[4]'' 100 32 1,
    NETF ''lerp.u.anonymous.data[5]'' 104 32 1,
    NETF ''partBits[0]'' 228 32 1,
    NETF ''partBits[1]'' 232 32 1,
    NETF ''partBits[2]'' 236 32 1,
    NETF ''partBits[3]'' 240 32 1]"

definition loopFxEntityStateFields :: "netField list" where
  "loopFxEntityStateFields = [
    NETF ''eType'' 4 8 1,
    NETF ''lerp.pos.trTime'' 16 (-97) 0,
    NETF ''lerp.pos.trBase[0]'' 24 (-92) 0,
    NETF ''lerp.pos.trBase[1]'' 28 (-91) 0,
    NETF ''lerp.pos.trDelta[0]'' 36 0 0,
    NETF ''lerp.pos.trDelta[1]'' 40 0 0,
    NETF ''lerp.apos.trBase[1]'' 64 (-100) 0,
    NETF ''lerp.pos.trBase[2]'' 32 (-90) 0,
    NETF ''lerp.pos.trDelta[2]'' 44 0 0,
    NETF ''lerp.apos.trBase[0]'' 60 (-100) 0,
    NETF ''lerp.u.loopFx.cullDist'' 84 0 0,
    NETF ''lerp.u.loopFx.period'' 88 32 0,
    NETF ''eventSequence'' 160 8 0,
    NETF ''legsAnim'' 204 10 0,
    NETF ''surfType'' 132 8 0,
    NETF ''otherEntityNum'' 116 10 0,
    NETF ''un1'' 212 8 0,
    NETF ''lerp.eFlags'' 8 (-98) 0,
    NETF ''groundEntityNum'' 124 (-96) 0,
    NETF ''clientNum'' 140 7 0,
    NETF ''events[0]'' 164 (-94) 0,
    NETF ''events[1]'' 168 (-94) 0,
    NETF ''events[2]'' 172 (-94) 0,
    NETF ''weapon'' 196 7 0,
    NETF ''weaponModel'' 200 4 0,
    NETF ''eventParms[1]'' 184 (-93) 0,
    NETF ''eventParms[0]'' 180 (-93) 0,
    NETF ''eventParms[2]'' 188 (-93) 0,
    NETF ''index'' 136 10 0,
    NETF ''lerp.pos.trType'' 12 8 0,
    NETF ''lerp.apos.trType'' 48 8 0,
    NETF ''events[3]'' 176 (-94) 0,
    NETF ''lerp.apos.trBase[2]'' 68 (-100) 0,
    NETF ''lerp.apos.trTime'' 52 32 0,
    NETF ''lerp.apos.trDelta[0]'' 72 0 0,
    NETF ''lerp.apos.trDelta[2]'' 80 0 0,
    NETF ''torsoAnim'' 208 10 0,
    NETF ''eventParms[3]'' 192 (-93) 0,
    NETF ''solid'' 152 24 0,
    NETF ''lerp.pos.trDuration'' 20 32 0,
    NETF ''lerp.apos.trDelta[1]'' 76 0 0,
    NETF ''un2'' 216 32 0,
    NETF ''time2'' 112 (-97) 0,
    NETF ''loopSound'' 128 8 0,
    NETF ''attackerEntityNum'' 120 10 0,
    NETF ''fWaistPitch'' 224 0 0,
    NETF ''fTorsoPitch'' 220 0 0,
    NETF ''iHeadIcon'' 144 4 0,
    NETF ''iHeadIconTeam'' 148 2 0,
    NETF ''eventParm'' 156 (-93) 0,
    NETF ''lerp.apos.trDuration'' 56 32 0,
    NETF ''lerp.u.anonymous.data[2]'' 92 32 1,
    NETF ''lerp.u.anonymous.data[3]'' 96 32 1,
    NETF ''lerp.u.anonymous.data[4]'' 100 32 1,
    NETF ''lerp.u.anonymous.data[5]'' 104 32 1,
    NETF ''partBits[0]'' 228 32 1,
    NETF ''partBits[1]'' 232 32 1,
    NETF ''partBits[2]'' 236 32 1,
    NETF ''partBits[3]'' 240 32 1]"

definition helicopterEntityStateFields :: "netField list" where
  "helicopterEntityStateFields = [
    NETF ''eType'' 4 8 1,
    NETF ''lerp.pos.trBase[0]'' 24 (-92) 0,
    NETF ''lerp.apos.trBase[0]'' 60 (-100) 0,
    NETF ''lerp.apos.trBase[2]'' 68 (-100) 0,
    NETF ''lerp.u.vehicle.gunPitch'' 100 0 0,
    NETF ''lerp.pos.trBase[1]'' 28 (-91) 0,
    NETF ''lerp.apos.trBase[1]'' 64 (-100) 0,
    NETF ''lerp.pos.trBase[2]'' 32 (-90) 0,
    NETF ''lerp.u.vehicle.gunYaw'' 104 0 0,
    NETF ''eventSequence'' 160 8 0,
    NETF ''un1.helicopterStage'' 212 3 0,
    NETF ''time2'' 112 (-97) 0,
    NETF ''events[0]'' 164 (-94) 0,
    NETF ''events[1]'' 168 (-94) 0,
    NETF ''events[2]'' 172 (-94) 0,
    NETF ''events[3]'' 176 (-94) 0,
    NETF ''eventParms[1]'' 184 (-93) 0,
    NETF ''eventParms[0]'' 180 (-93) 0,
    NETF ''eventParms[2]'' 188 (-93) 0,
    NETF ''eventParms[3]'' 192 (-93) 0,
    NETF ''loopSound'' 128 8 0,
    NETF ''lerp.pos.trType'' 12 8 0,
    NETF ''lerp.apos.trType'' 48 8 0,
    NETF ''un2'' 216 32 0,
    NETF ''weapon'' 196 7 0,
    NETF ''lerp.u.vehicle.teamAndOwnerIndex'' 108 8 0,
    NETF ''weaponModel'' 200 4 0,
    NETF ''groundEntityNum'' 124 (-96) 0,
    NETF ''eventParm'' 156 (-93) 0,
    NETF ''lerp.pos.trDelta[0]'' 36 0 0,
    NETF ''lerp.pos.trDelta[1]'' 40 0 0,
    NETF ''lerp.pos.trDelta[2]'' 44 0 0,
    NETF ''lerp.pos.trTime'' 16 (-97) 0,
    NETF ''legsAnim'' 204 10 0,
    NETF ''surfType'' 132 8 0,
    NETF ''otherEntityNum'' 116 10 0,
    NETF ''lerp.eFlags'' 8 (-98) 0,
    NETF ''index'' 136 10 0,
    NETF ''lerp.u.vehicle.materialTime'' 96 (-97) 0,
    NETF ''lerp.apos.trTime'' 52 32 0,
    NETF ''lerp.apos.trDelta[0]'' 72 0 0,
    NETF ''lerp.apos.trDelta[2]'' 80 0 0,
    NETF ''torsoAnim'' 208 10 0,
    NETF ''solid'' 152 24 0,
    NETF ''lerp.pos.trDuration'' 20 32 0,
    NETF ''lerp.apos.trDelta[1]'' 76 0 0,
    NETF ''attackerEntityNum'' 120 10 0,
    NETF ''fWaistPitch'' 224 0 0,
    NETF ''fTorsoPitch'' 220 0 0,
    NETF ''lerp.u.vehicle.bodyPitch'' 84 (-100) 0,
    NETF ''lerp.u.vehicle.bodyRoll'' 88 (-100) 0,
    NETF ''iHeadIcon'' 144 4 0,
    NETF ''iHeadIconTeam'' 148 2 0,
    NETF ''lerp.apos.trDuration'' 56 32 0,
    NETF ''partBits[0]'' 228 32 1,
    NETF ''partBits[1]'' 232 32 1,
    NETF ''partBits[2]'' 236 32 1,
    NETF ''partBits[3]'' 240 32 1]"

definition planeStateFields :: "netField list" where
  "planeStateFields = [
    NETF ''eType'' 4 8 1,
    NETF ''lerp.pos.trBase[0]'' 24 0 2,
    NETF ''lerp.pos.trBase[1]'' 28 0 2,
    NETF ''lerp.pos.trBase[2]'' 32 0 2,
    NETF ''index'' 136 10 2,
    NETF ''lerp.pos.trDelta[0]'' 36 0 2,
    NETF ''lerp.pos.trDelta[1]'' 40 0 2,
    NETF ''lerp.pos.trTime'' 16 (-97) 2,
    NETF ''lerp.pos.trType'' 12 8 2,
    NETF ''lerp.pos.trDuration'' 20 32 2,
    NETF ''lerp.u.vehicle.teamAndOwnerIndex'' 108 8 2,
    NETF ''lerp.apos.trBase[1]'' 64 (-100) 2,
    NETF ''lerp.pos.trDelta[2]'' 44 0 0,
    NETF ''events[0]'' 164 (-94) 0,
    NETF ''eventSequence'' 160 8 0,
    NETF ''eventParms[0]'' 180 (-93) 0,
    NETF ''events[1]'' 168 (-94) 0,
    NETF ''eventParms[1]'' 184 (-93) 0,
    NETF ''loopSound'' 128 8 0,
    NETF ''lerp.apos.trType'' 48 8 0,
    NETF ''eventParm'' 156 (-93) 0,
    NETF ''weapon'' 196 7 0,
    NETF ''weaponModel'' 200 4 0,
    NETF ''surfType'' 132 8 0,
    NETF ''lerp.u.anonymous.data[0]'' 84 32 0,
    NETF ''time2'' 112 (-97) 0,
    NETF ''solid'' 152 24 0,
    NETF ''un2'' 216 32 0,
    NETF ''groundEntityNum'' 124 (-96) 0,
    NETF ''un1'' 212 8 0,
    NETF ''lerp.apos.trBase[0]'' 60 (-100) 0,
    NETF ''clientNum'' 140 7 0,
    NETF ''events[2]'' 172 (-94) 0,
    NETF ''eventParms[2]'' 188 (-93) 0,
    NETF ''events[3]'' 176 (-94) 0,
    NETF ''lerp.apos.trBase[2]'' 68 (-100) 0,
    NETF ''lerp.apos.trTime'' 52 32 0,
    NETF ''lerp.apos.trDelta[0]'' 72 0 0,
    NETF ''lerp.apos.trDelta[2]'' 80 0 0,
    NETF ''eventParms[3]'' 192 (-93) 0,
    NETF ''lerp.apos.trDelta[1]'' 76 0 0,
    NETF ''attackerEntityNum'' 120 10 0,
    NETF ''fWaistPitch'' 224 0 0,
    NETF ''fTorsoPitch'' 220 0 0,
    NETF ''iHeadIcon'' 144 4 0,
    NETF ''iHeadIconTeam'' 148 2 0,
    NETF ''lerp.apos.trDuration'' 56 32 0,
    NETF ''torsoAnim'' 208 10 0,
    NETF ''lerp.eFlags'' 8 (-98) 0,
    NETF ''legsAnim'' 204 10 0,
    NETF ''otherEntityNum'' 116 10 0,
    NETF ''lerp.u.anonymous.data[1]'' 88 32 0,
    NETF ''lerp.u.anonymous.data[2]'' 92 32 0,
    NETF ''lerp.u.anonymous.data[3]'' 96 32 1,
    NETF ''lerp.u.anonymous.data[4]'' 100 32 1,
    NETF ''lerp.u.anonymous.data[5]'' 104 32 1,
    NETF ''partBits[0]'' 228 32 1,
    NETF ''partBits[1]'' 232 32 1,
    NETF ''partBits[2]'' 236 32 1,
    NETF ''partBits[3]'' 240 32 1]"

definition vehicleEntityStateFields :: "netField list" where
  "vehicleEntityStateFields = [
    NETF ''eType'' 4 8 1,
    NETF ''lerp.pos.trTime'' 16 (-97) 0,
    NETF ''lerp.pos.trBase[0]'' 24 (-92) 0,
    NETF ''lerp.pos.trBase[1]'' 28 (-91) 0,
    NETF ''lerp.pos.trDelta[0]'' 36 0 0,
    NETF ''lerp.pos.trDelta[1]'' 40 0 0,
    NETF ''lerp.u.vehicle.gunYaw'' 104 0 0,
    NETF ''lerp.apos.trBase[1]'' 64 (-100) 0,
    NETF ''lerp.pos.trBase[2]'' 32 (-90) 0,
    NETF ''lerp.pos.trDelta[2]'' 44 0 0,
    NETF ''lerp.apos.trBase[0]'' 60 (-100) 0,
    NETF ''eventSequence'' 160 8 0,
    NETF ''legsAnim'' 204 10 0,
    NETF ''surfType'' 132 8 0,
    NETF ''otherEntityNum'' 116 10 0,
    NETF ''un1'' 212 8 0,
    NETF ''lerp.eFlags'' 8 (-98) 0,
    NETF ''groundEntityNum'' 124 (-96) 0,
    NETF ''clientNum'' 140 7 0,
    NETF ''events[0]'' 164 (-94) 0,
    NETF ''events[1]'' 168 (-94) 0,
    NETF ''events[2]'' 172 (-94) 0,
    NETF ''weapon'' 196 7 0,
    NETF ''weaponModel'' 200 4 0,
    NETF ''eventParms[1]'' 184 (-93) 0,
    NETF ''eventParms[0]'' 180 (-93) 0,
    NETF ''eventParms[2]'' 188 (-93) 0,
    NETF ''index'' 136 10 0,
    NETF ''lerp.u.vehicle.materialTime'' 96 (-97) 0,
    NETF ''lerp.pos.trType'' 12 8 0,
    NETF ''lerp.apos.trType'' 48 8 0,
    NETF ''events[3]'' 176 (-94) 0,
    NETF ''lerp.apos.trBase[2]'' 68 (-100) 0,
    NETF ''lerp.apos.trTime'' 52 32 0,
    NETF ''lerp.apos.trDelta[0]'' 72 0 0,
    NETF ''lerp.apos.trDelta[2]'' 80 0 0,
    NETF ''torsoAnim'' 208 10 0,
    NETF ''eventParms[3]'' 192 (-93) 0,
    NETF ''lerp.u.vehicle.gunPitch'' 100 0 0,
    NETF ''solid'' 152 24 0,
    NETF ''lerp.pos.trDuration'' 20 32 0,
    NETF ''lerp.apos.trDelta[1]'' 76 0 0,
    NETF ''un2'' 216 32 0,
    NETF ''time2'' 112 (-97) 0,
    NETF ''loopSound'' 128 8 0,
    NETF ''attackerEntityNum'' 120 10 0,
    NETF ''fWaistPitch'' 224 0 0,
    NETF ''fTorsoPitch'' 220 0 0,
    NETF ''lerp.u.vehicle.bodyPitch'' 84 (-100) 0,
    NETF ''lerp.u.vehicle.bodyRoll'' 88 (-100) 0,
    NETF ''iHeadIcon'' 144 4 0,
    NETF ''iHeadIconTeam'' 148 2 0,
    NETF ''eventParm'' 156 (-93) 0,
    NETF ''lerp.u.vehicle.steerYaw'' 92 0 0,
    NETF ''lerp.apos.trDuration'' 56 32 0,
    NETF ''partBits[0]'' 228 32 1,
    NETF ''partBits[1]'' 232 32 1,
    NETF ''partBits[2]'' 236 32 1,
    NETF ''partBits[3]'' 240 32 1]"

definition eventEntityStateFields :: "netField list" where
  "eventEntityStateFields = [
    NETF ''eType'' 4 8 0,
    NETF ''lerp.pos.trBase[0]'' 24 (-92) 0,
    NETF ''lerp.pos.trBase[1]'' 28 (-91) 0,
    NETF ''lerp.pos.trBase[2]'' 32 (-90) 0,
    NETF ''eventParm'' 156 (-93) 0,
    NETF ''surfType'' 132 8 0,
    NETF ''otherEntityNum'' 116 10 0,
    NETF ''un1'' 212 8 0,
    NETF ''lerp.u.anonymous.data[0]'' 84 32 0,
    NETF ''lerp.u.anonymous.data[1]'' 88 32 0,
    NETF ''attackerEntityNum'' 120 10 0,
    NETF ''lerp.apos.trBase[0]'' 60 (-100) 0,
    NETF ''clientNum'' 140 7 0,
    NETF ''weapon'' 196 7 0,
    NETF ''weaponModel'' 200 4 0,
    NETF ''lerp.u.anonymous.data[2]'' 92 32 0,
    NETF ''index'' 136 10 0,
    NETF ''solid'' 152 24 0,
    NETF ''lerp.apos.trBase[1]'' 64 (-100) 0,
    NETF ''lerp.apos.trBase[2]'' 68 (-100) 0,
    NETF ''groundEntityNum'' 124 (-96) 0,
    NETF ''lerp.u.anonymous.data[4]'' 100 32 0,
    NETF ''lerp.u.anonymous.data[5]'' 104 32 0,
    NETF ''iHeadIcon'' 144 4 0,
    NETF ''iHeadIconTeam'' 148 2 0,
    NETF ''events[0]'' 164 (-94) 0,
    NETF ''eventParms[0]'' 180 (-93) 0,
    NETF ''lerp.pos.trType'' 12 8 0,
    NETF ''lerp.apos.trType'' 48 8 0,
    NETF ''lerp.apos.trTime'' 52 32 0,
    NETF ''lerp.apos.trDelta[0]'' 72 0 0,
    NETF ''lerp.apos.trDelta[2]'' 80 0 0,
    NETF ''lerp.pos.trDelta[0]'' 36 0 0,
    NETF ''lerp.pos.trDelta[1]'' 40 0 0,
    NETF ''lerp.pos.trDelta[2]'' 44 0 0,
    NETF ''eventSequence'' 160 8 0,
    NETF ''lerp.pos.trTime'' 16 (-97) 0,
    NETF ''events[1]'' 168 (-94) 0,
    NETF ''events[2]'' 172 (-94) 0,
    NETF ''eventParms[1]'' 184 (-93) 0,
    NETF ''eventParms[2]'' 188 (-93) 0,
    NETF ''events[3]'' 176 (-94) 0,
    NETF ''eventParms[3]'' 192 (-93) 0,
    NETF ''lerp.eFlags'' 8 (-98) 0,
    NETF ''lerp.pos.trDuration'' 20 32 0,
    NETF ''lerp.apos.trDelta[1]'' 76 0 0,
    NETF ''time2'' 112 (-97) 0,
    NETF ''loopSound'' 128 8 0,
    NETF ''un2'' 216 32 0,
    NETF ''torsoAnim'' 208 10 1,
    NETF ''legsAnim'' 204 10 1,
    NETF ''fWaistPitch'' 224 0 1,
    NETF ''fTorsoPitch'' 220 0 1,
    NETF ''lerp.u.anonymous.data[3]'' 96 32 1,
    NETF ''lerp.apos.trDuration'' 56 32 1,
    NETF ''partBits[0]'' 228 32 1,
    NETF ''partBits[1]'' 232 32 1,
    NETF ''partBits[2]'' 236 32 1,
    NETF ''partBits[3]'' 240 32 1]"

text \<open>The table for each type of entity, indexed by \<open>eType\<close>.\<close>

definition netFieldList :: "netField list list" where
  "netFieldList =
     [entityStateFields, playerEntityStateFields, corpseEntityStateFields, itemEntityStateFields,
      missleEntityStateFields, entityStateFields, scriptMoverStateFields, soundBlendEntityStateFields,
      fxStateFields, loopFxEntityStateFields, entityStateFields, entityStateFields,
      helicopterEntityStateFields, planeStateFields, vehicleEntityStateFields, entityStateFields,
      entityStateFields, eventEntityStateFields]"

section \<open>Players\<close>

definition playerStateFields :: "netField list" where
  "playerStateFields = [
    NETF ''commandTime'' 0 (-97) 0,
    NETF ''viewangles[1]'' 268 (-87) 0,
    NETF ''viewangles[0]'' 264 (-87) 0,
    NETF ''viewangles[2]'' 272 (-87) 0,
    NETF ''origin[0]'' 28 (-88) 3,
    NETF ''origin[1]'' 32 (-88) 3,
    NETF ''bobCycle'' 8 8 3,
    NETF ''velocity[1]'' 44 (-88) 3,
    NETF ''velocity[0]'' 40 (-88) 3,
    NETF ''movementDir'' 172 (-8) 3,
    NETF ''eventSequence'' 180 8 0,
    NETF ''legsAnim'' 140 10 0,
    NETF ''origin[2]'' 36 (-88) 3,
    NETF ''weaponTime'' 60 (-16) 0,
    NETF ''aimSpreadScale'' 1576 (-88) 0,
    NETF ''torsoTimer'' 144 16 0,
    NETF ''pm_flags'' 12 21 0,
    NETF ''weapAnim'' 1572 10 0,
    NETF ''weaponstate'' 236 5 0,
    NETF ''velocity[2]'' 48 (-88) 3,
    NETF ''events[0]'' 184 8 0,
    NETF ''events[1]'' 188 8 0,
    NETF ''events[2]'' 192 8 0,
    NETF ''events[3]'' 196 8 0,
    NETF ''eventParms[0]'' 200 8 0,
    NETF ''eventParms[1]'' 204 8 0,
    NETF ''eventParms[2]'' 208 8 0,
    NETF ''eventParms[3]'' 212 8 0,
    NETF ''torsoAnim'' 148 10 0,
    NETF ''holdBreathScale'' 1492 (-88) 0,
    NETF ''eFlags'' 176 (-98) 0,
    NETF ''viewHeightCurrent'' 280 (-88) 0,
    NETF ''fWeaponPosFrac'' 244 (-88) 0,
    NETF ''legsTimer'' 136 16 0,
    NETF ''viewHeightTarget'' 276 (-8) 0,
    NETF ''sprintState.lastSprintStart'' 1472 (-97) 0,
    NETF ''sprintState.lastSprintEnd'' 1476 (-97) 0,
    NETF ''weapon'' 232 7 0,
    NETF ''weaponDelay'' 64 (-16) 0,
    NETF ''sprintState.sprintStartMaxLength'' 1480 14 0,
    NETF ''weapFlags'' 16 9 0,
    NETF ''groundEntityNum'' 112 10 0,
    NETF ''damageTimer'' 160 10 0,
    NETF ''weapons[0]'' 1372 32 0,
    NETF ''weapons[1]'' 1376 32 0,
    NETF ''weaponold[0]'' 1388 32 0,
    NETF ''delta_angles[1]'' 104 (-100) 0,
    NETF ''offHandIndex'' 224 7 0,
    NETF ''pm_time'' 24 (-16) 0,
    NETF ''otherFlags'' 20 5 0,
    NETF ''moveSpeedScaleMultiplier'' 1500 0 0,
    NETF ''perks'' 1532 32 0,
    NETF ''killCamEntity'' 2208 10 0,
    NETF ''throwBackGrenadeOwner'' 72 10 0,
    NETF ''actionSlotType[2]'' 1544 2 0,
    NETF ''delta_angles[0]'' 100 (-100) 0,
    NETF ''speed'' 96 16 0,
    NETF ''viewlocked_entNum'' 1436 16 0,
    NETF ''gravity'' 88 16 0,
    NETF ''actionSlotType[0]'' 1536 2 0,
    NETF ''dofNearBlur'' 1608 0 0,
    NETF ''dofFarBlur'' 1612 0 0,
    NETF ''clientNum'' 220 8 0,
    NETF ''damageEvent'' 312 8 0,
    NETF ''viewHeightLerpTarget'' 288 (-8) 0,
    NETF ''damageYaw'' 316 8 0,
    NETF ''viewmodelIndex'' 260 9 0,
    NETF ''damageDuration'' 164 16 0,
    NETF ''damagePitch'' 320 8 0,
    NETF ''flinchYawAnim'' 168 2 0,
    NETF ''weaponShotCount'' 240 3 0,
    NETF ''viewHeightLerpDown'' 292 1 2,
    NETF ''cursorHint'' 1440 8 0,
    NETF ''cursorHintString'' 1444 (-8) 0,
    NETF ''cursorHintEntIndex'' 1448 10 0,
    NETF ''viewHeightLerpTime'' 284 32 0,
    NETF ''offhandSecondary'' 228 1 2,
    NETF ''radarEnabled'' 1456 1 2,
    NETF ''pm_type'' 4 8 0,
    NETF ''fTorsoPitch'' 1484 0 0,
    NETF ''holdBreathTimer'' 1496 16 0,
    NETF ''actionSlotParam[2]'' 1560 7 0,
    NETF ''jumpTime'' 128 32 0,
    NETF ''mantleState.flags'' 1516 5 0,
    NETF ''fWaistPitch'' 1488 0 0,
    NETF ''grenadeTimeLeft'' 68 (-16) 0,
    NETF ''proneDirection'' 1420 0 0,
    NETF ''mantleState.timer'' 1508 32 0,
    NETF ''damageCount'' 324 7 0,
    NETF ''shellshockTime'' 1584 (-97) 0,
    NETF ''shellshockDuration'' 1588 16 2,
    NETF ''sprintState.sprintButtonUpRequired'' 1464 1 2,
    NETF ''shellshockIndex'' 1580 4 0,
    NETF ''proneTorsoPitch'' 1428 0 0,
    NETF ''sprintState.sprintDelay'' 1468 1 2,
    NETF ''actionSlotParam[3]'' 1564 7 0,
    NETF ''weapons[3]'' 1384 32 0,
    NETF ''actionSlotType[3]'' 1548 2 0,
    NETF ''proneDirectionPitch'' 1424 0 0,
    NETF ''jumpOriginZ'' 132 0 0,
    NETF ''mantleState.yaw'' 1504 0 0,
    NETF ''mantleState.transIndex'' 1512 4 0,
    NETF ''weaponrechamber[0]'' 1404 32 0,
    NETF ''throwBackGrenadeTimeLeft'' 76 (-16) 0,
    NETF ''weaponold[3]'' 1400 32 0,
    NETF ''weaponold[1]'' 1392 32 0,
    NETF ''foliageSoundTime'' 84 (-97) 0,
    NETF ''vLadderVec[0]'' 116 0 0,
    NETF ''viewlocked'' 1432 2 0,
    NETF ''deltaTime'' 2204 32 0,
    NETF ''viewAngleClampRange[1]'' 308 0 0,
    NETF ''viewAngleClampBase[1]'' 300 0 0,
    NETF ''viewAngleClampRange[0]'' 304 0 0,
    NETF ''vLadderVec[1]'' 120 0 0,
    NETF ''locationSelectionInfo'' 1460 8 0,
    NETF ''meleeChargeTime'' 1528 (-97) 0,
    NETF ''meleeChargeYaw'' 1520 (-100) 0,
    NETF ''meleeChargeDist'' 1524 8 0,
    NETF ''iCompassPlayerInfo'' 1452 32 0,
    NETF ''weapons[2]'' 1380 32 0,
    NETF ''actionSlotType[1]'' 1540 2 0,
    NETF ''weaponold[2]'' 1396 32 0,
    NETF ''vLadderVec[2]'' 124 0 0,
    NETF ''weaponRestrictKickTime'' 80 (-16) 0,
    NETF ''delta_angles[2]'' 108 (-100) 0,
    NETF ''spreadOverride'' 252 6 0,
    NETF ''spreadOverrideState'' 256 2 0,
    NETF ''actionSlotParam[0]'' 1552 7 0,
    NETF ''actionSlotParam[1]'' 1556 7 0,
    NETF ''dofNearStart'' 1592 0 0,
    NETF ''dofNearEnd'' 1596 0 0,
    NETF ''dofFarStart'' 1600 0 0,
    NETF ''dofFarEnd'' 1604 0 0,
    NETF ''dofViewmodelStart'' 1616 0 0,
    NETF ''dofViewmodelEnd'' 1620 0 0,
    NETF ''viewAngleClampBase[0]'' 296 0 0,
    NETF ''weaponrechamber[1]'' 1408 32 0,
    NETF ''weaponrechamber[2]'' 1412 32 0,
    NETF ''weaponrechamber[3]'' 1416 32 0,
    NETF ''leanf'' 92 0 0,
    NETF ''adsDelayTime'' 248 32 1]"

section \<open>Objectives and elements of the head-up display\<close>

definition objectiveFields :: "netField list" where
  "objectiveFields = [
    NETF ''origin[0]'' 4 0 0,
    NETF ''origin[1]'' 8 0 0,
    NETF ''origin[2]'' 12 0 0,
    NETF ''icon'' 24 12 0,
    NETF ''entNum'' 16 10 0,
    NETF ''teamNum'' 20 4 0]"

definition hudElemFields :: "netField list" where
  "hudElemFields = [
    NETF ''color.rgba'' 36 (-85) 0,
    NETF ''fadeStartTime'' 44 (-97) 0,
    NETF ''fromColor.rgba'' 40 (-85) 0,
    NETF ''y'' 8 (-91) 0,
    NETF ''type'' 0 4 0,
    NETF ''materialIndex'' 64 8 0,
    NETF ''height'' 60 10 0,
    NETF ''width'' 56 10 0,
    NETF ''x'' 4 (-92) 0,
    NETF ''fadeTime'' 48 16 0,
    NETF ''z'' 12 (-90) 0,
    NETF ''value'' 120 0 0,
    NETF ''alignScreen'' 32 6 0,
    NETF ''sort'' 128 0 0,
    NETF ''alignOrg'' 28 4 0,
    NETF ''offscreenMaterialIdx'' 68 8 0,
    NETF ''fontScale'' 20 (-86) 0,
    NETF ''text'' 124 9 0,
    NETF ''font'' 24 4 0,
    NETF ''scaleStartTime'' 80 (-97) 0,
    NETF ''scaleTime'' 84 16 0,
    NETF ''fromWidth'' 72 10 0,
    NETF ''fromHeight'' 76 10 0,
    NETF ''targetEntNum'' 16 10 0,
    NETF ''glowColor.rgba'' 132 (-85) 0,
    NETF ''fxBirthTime'' 136 (-97) 0,
    NETF ''soundID'' 152 5 0,
    NETF ''fxLetterTime'' 140 12 0,
    NETF ''fxDecayStartTime'' 144 16 0,
    NETF ''fxDecayDuration'' 148 16 0,
    NETF ''flags'' 156 3 0,
    NETF ''label'' 52 9 0,
    NETF ''time'' 112 (-97) 0,
    NETF ''moveStartTime'' 104 (-97) 0,
    NETF ''moveTime'' 108 16 0,
    NETF ''fromX'' 88 (-99) 0,
    NETF ''fromY'' 92 (-99) 0,
    NETF ''fromAlignScreen'' 100 6 0,
    NETF ''fromAlignOrg'' 96 4 0,
    NETF ''duration'' 116 32 0]"

section \<open>Clients\<close>

definition clientStateFields :: "netField list" where
  "clientStateFields = [
    NETF ''modelindex'' 8 9 0,
    NETF ''netname[0]'' 60 32 0,
    NETF ''rank'' 80 8 0,
    NETF ''prestige'' 84 8 0,
    NETF ''team'' 4 2 0,
    NETF ''attachedVehEntNum'' 92 10 0,
    NETF ''netname[4]'' 64 32 0,
    NETF ''attachModelIndex[0]'' 12 9 0,
    NETF ''netname[8]'' 68 32 0,
    NETF ''perks'' 88 32 0,
    NETF ''netname[12]'' 72 32 0,
    NETF ''attachModelIndex[1]'' 16 9 0,
    NETF ''maxSprintTimeMultiplier'' 76 0 0,
    NETF ''attachedVehSlotIndex'' 96 2 0,
    NETF ''attachTagIndex[5]'' 56 5 0,
    NETF ''attachTagIndex[0]'' 36 5 0,
    NETF ''attachTagIndex[1]'' 40 5 0,
    NETF ''attachTagIndex[2]'' 44 5 0,
    NETF ''attachTagIndex[3]'' 48 5 0,
    NETF ''attachTagIndex[4]'' 52 5 0,
    NETF ''attachModelIndex[2]'' 20 9 0,
    NETF ''attachModelIndex[3]'' 24 9 0,
    NETF ''attachModelIndex[4]'' 28 9 0,
    NETF ''attachModelIndex[5]'' 32 9 0]"

end
