(* ===== verification/SnapDelta.thy ===== *)
theory SnapDelta
  imports SnapTables CvarTypes "HOL-Library.Signed_Division"
begin

text \<open>
  Delta encoding of structures (src/src/msg.c).  A structure is the map from the offsets of its
  32-bit words to their values; a field is written against the same word of an older copy, in
  the coding its row of the table names.  What depends on floating-point arithmetic (the casts,
  the rounding of coordinates, the scaling of angles) and on the map is the parameter
  \<open>snapenv\<close>; comparisons of floats are those of their bit patterns.
\<close>

section \<open>Parameters and words\<close>

record snapenv =
  fp_cast :: "32 word \<Rightarrow> int"
  fp_from :: "int \<Rightarrow> 32 word"
  fp_round :: "32 word \<Rightarrow> int"
  fp_angle :: "32 word \<Rightarrow> int"
  fp_scale :: "32 word \<Rightarrow> int"
  map_center :: "nat \<Rightarrow> int"
  ffa_block :: bool
  friendly_block :: bool
  team_of :: "int \<Rightarrow> int option"

text \<open>
  \<open>fp_cast f\<close> is \<open>(signed int)f\<close>, \<open>fp_from i\<close> is \<open>(float)i\<close>, \<open>fp_round f\<close> is
  \<open>(signed int)floorf(f + 0.5f)\<close>, \<open>fp_angle f\<close> is \<open>(int)(f * 65536.0f / 360.0f + 0.5f)\<close>,
  \<open>fp_scale f\<close> is \<open>floorf((f - 1.4) * 10.0 + 0.5)\<close> and \<open>map_center k\<close> is
  \<open>(signed int)(center[k] + 0.5)\<close> for the centre of the map.  \<open>ffa_block\<close> and \<open>friendly_block\<close>
  are what \<open>SV_FFAPlayerCanBlock\<close> and \<open>SV_FriendlyPlayerCanBlock\<close> answer, \<open>team_of n\<close> is the team
  of the player with entity number \<open>n\<close>, if it has one.
\<close>

type_synonym cstruct = "nat \<Rightarrow> 32 word"

datatype snap_error = BAD_ENTITY_NUMBER | OUT_OF_TABLE | NULL_CLIENT | ENDLESS_SCAN

definition byte_at :: "nat \<Rightarrow> 32 word \<Rightarrow> int" where
  "byte_at k w = uint w div 256 ^ k mod 256"

definition ANGLE2SHORT :: "snapenv \<Rightarrow> 32 word \<Rightarrow> int" where
  "ANGLE2SHORT e x = fp_angle e x AND 65535"

section \<open>Comparison\<close>

definition MSG_ValuesAreEqual :: "snapenv \<Rightarrow> int \<Rightarrow> 32 word \<Rightarrow> 32 word \<Rightarrow> bool" where
  "MSG_ValuesAreEqual e b fromF toF \<longleftrightarrow>
     (if fromF = toF then True
      else let k = b + 100 in
        if k = 0 \<or> k = 13 then s16 (ANGLE2SHORT e toF) = s16 (ANGLE2SHORT e fromF)
        else if k = 8 \<or> k = 9 \<or> k = 10 then fp_round e fromF = fp_round e toF
        else if k = 5 then sint fromF sdiv 100 = sint toF sdiv 100
        else False)"

section \<open>One field\<close>

definition MSG_WriteAngle16 :: "snapenv \<Rightarrow> 32 word \<Rightarrow> msg \<Rightarrow> msg" where
  "MSG_WriteAngle16 e f m = MSG_WriteShort (ANGLE2SHORT e f) m"

definition MSG_WriteOriginFloat :: "snapenv \<Rightarrow> int \<Rightarrow> 32 word \<Rightarrow> 32 word \<Rightarrow> msg \<Rightarrow> msg" where
  "MSG_WriteOriginFloat e b value oldValue m =
     (let ival = fp_round e value; ioldval = fp_round e oldValue; delta = s32 (ival - ioldval) in
      if u32 (delta + 64) > 127 then
        let mcenterbits = map_center e (if b \<noteq> -92 then 1 else 0)
        in MSG_WriteBits ((ival - mcenterbits + 0x8000) XOR (ioldval - mcenterbits + 0x8000)) 16
             (MSG_WriteBit1 m)
      else MSG_WriteBits (delta + 64) 7 (MSG_WriteBit0 m))"

definition MSG_WriteOriginZFloat :: "snapenv \<Rightarrow> 32 word \<Rightarrow> 32 word \<Rightarrow> msg \<Rightarrow> msg" where
  "MSG_WriteOriginZFloat e value oldValue m =
     (let ival = fp_round e value; ioldval = fp_round e oldValue in
      if u32 (s32 (ival - ioldval) + 64) > 127 then
        let mcenterbits = map_center e 2
        in MSG_WriteBits ((ival - mcenterbits + 0x8000) XOR (ioldval - mcenterbits + 0x8000)) 16
             (MSG_WriteBit1 m)
      else MSG_WriteBits (s32 (ival - ioldval) + 64) 7 (MSG_WriteBit0 m))"

text \<open>Low bits first, the rest in one byte.\<close>

definition write_bits_byte :: "int \<Rightarrow> nat \<Rightarrow> msg \<Rightarrow> msg" where
  "write_bits_byte x n m = MSG_WriteByte (x div 2 ^ n) (MSG_WriteBits x n m)"

text \<open>The float is an integer that fits \<open>2 * bias\<close> values around zero.\<close>

definition small_float :: "snapenv \<Rightarrow> int \<Rightarrow> 32 word \<Rightarrow> bool" where
  "small_float e bias t \<longleftrightarrow> t \<noteq> 0x80000000 \<and> fl_eq t (fp_from e (fp_cast e t)) \<and>
     0 \<le> s32 (fp_cast e t + bias) \<and> s32 (fp_cast e t + bias) \<le> 2 * bias - 1"

definition small_int :: "snapenv \<Rightarrow> int \<Rightarrow> 32 word \<Rightarrow> bool" where
  "small_int e bias f \<longleftrightarrow> 0 \<le> s32 (fp_cast e f + bias) \<and> s32 (fp_cast e f + bias) \<le> 2 * bias - 1"

definition float_xor :: "snapenv \<Rightarrow> int \<Rightarrow> 32 word \<Rightarrow> 32 word \<Rightarrow> int" where
  "float_xor e bias f t = s32 (fp_cast e f + bias) XOR s32 (fp_cast e t + bias)"

definition write_long_xor :: "32 word \<Rightarrow> 32 word \<Rightarrow> msg \<Rightarrow> msg" where
  "write_long_xor f t m = MSG_WriteLong (sint (t XOR f)) m"

definition write_float :: "snapenv \<Rightarrow> 32 word \<Rightarrow> 32 word \<Rightarrow> msg \<Rightarrow> msg" where
  "write_float e f t m =
     (if fl_eq t 0 then
        let m1 = MSG_WriteBit0 m in
        if t = 0x80000000 then MSG_WriteBit1 m1 else MSG_WriteBit0 m1
      else let m1 = MSG_WriteBit1 m in
        if \<not> small_float e 4096 t \<or> \<not> small_int e 4096 f
        then write_long_xor f t (MSG_WriteBit1 m1)
        else write_bits_byte (float_xor e 4096 f t) 5 (MSG_WriteBit0 m1))"

definition write_float89 :: "snapenv \<Rightarrow> 32 word \<Rightarrow> 32 word \<Rightarrow> msg \<Rightarrow> msg" where
  "write_float89 e f t m =
     (if \<not> small_float e 4096 t then write_long_xor f t (MSG_WriteBit1 m)
      else write_bits_byte (float_xor e 4096 t f) 5 (MSG_WriteBit0 m))"

definition write_float99 :: "snapenv \<Rightarrow> 32 word \<Rightarrow> 32 word \<Rightarrow> msg \<Rightarrow> msg" where
  "write_float99 e f t m =
     (if \<not> fl_eq t 0 \<or> t = 0x80000000 then
        let m1 = MSG_WriteBit1 m in
        if small_float e 2048 t then write_bits_byte (float_xor e 2048 t f) 4 (MSG_WriteBit0 m1)
        else write_long_xor f t (MSG_WriteBit1 m1)
      else MSG_WriteBit0 m)"

text \<open>Colours: the fourth byte (alpha) loses its three low bits.  Bytes are compared with -1.\<close>

definition same_color :: "32 word \<Rightarrow> 32 word \<Rightarrow> bool" where
  "same_color f t \<longleftrightarrow> byte_at 0 f = byte_at 0 t \<and> byte_at 1 f = byte_at 1 t \<and> byte_at 2 f = byte_at 2 t"

definition write_color :: "32 word \<Rightarrow> 32 word \<Rightarrow> msg \<Rightarrow> msg" where
  "write_color f t m =
     (if \<not> (byte_at 3 f = -1 \<and> byte_at 3 t \<noteq> 0 \<or> byte_at 3 f \<noteq> -1 \<and> (byte_at 3 f \<noteq> 0 \<or> byte_at 3 t \<noteq> -1)) \<and>
         same_color f t
      then MSG_WriteBit1 m
      else let m1 = MSG_WriteBit0 m;
               m2 = (if \<not> same_color f t
                     then MSG_WriteByte (byte_at 2 t) (MSG_WriteByte (byte_at 1 t)
                            (MSG_WriteByte (byte_at 0 t) (MSG_WriteBit0 m1)))
                     else MSG_WriteBit1 m1)
           in MSG_WriteBits (byte_at 3 t div 8) 5 m2)"

definition write_time :: "int \<Rightarrow> 32 word \<Rightarrow> msg \<Rightarrow> msg" where
  "write_time time t m =
     (let timetodata = s32 (uint t - time) in
      if u32 timetodata \<ge> 0xFFFFFF01 \<or> timetodata = 0
      then MSG_WriteBits (- timetodata) 8 (MSG_WriteBit0 m)
      else MSG_WriteLong (sint t) (MSG_WriteBit1 m))"

definition write_ground :: "32 word \<Rightarrow> msg \<Rightarrow> msg" where
  "write_ground t m =
     (if t \<noteq> 1022 then
        let m1 = MSG_WriteBit0 m in
        if t \<noteq> 0 then write_bits_byte (uint t) 2 (MSG_WriteBit0 m1) else MSG_WriteBit1 m1
      else MSG_WriteBit1 m)"

primrec write_bytes_of :: "nat \<Rightarrow> int \<Rightarrow> msg \<Rightarrow> msg" where
  "write_bytes_of 0 x m = m"
| "write_bytes_of (Suc k) x m = write_bytes_of k (x div 256) (MSG_WriteByte x m)"

definition write_plain :: "int \<Rightarrow> 32 word \<Rightarrow> 32 word \<Rightarrow> msg \<Rightarrow> msg" where
  "write_plain b f t m =
     (if t \<noteq> 0 then
        let absbits = nat \<bar>b\<bar>; x = sint (t XOR f); abs3bits = absbits mod 8; m1 = MSG_WriteBit1 m in
        if abs3bits \<noteq> 0
        then write_bytes_of (absbits div 8) (x div 2 ^ abs3bits) (MSG_WriteBits x abs3bits m1)
        else write_bytes_of (absbits div 8) x m1
      else MSG_WriteBit0 m)"

text \<open>The switch over the coding.\<close>

definition write_payload :: "snapenv \<Rightarrow> int \<Rightarrow> int \<Rightarrow> 32 word \<Rightarrow> 32 word \<Rightarrow> msg \<Rightarrow> snap_error + msg" where
  "write_payload e time b f t m =
     (if b = 0 then Inr (write_float e f t m)
      else if b = -89 then Inr (write_float89 e f t m)
      else if b = -88 then Inr (write_long_xor f t m)
      else if b = -99 then Inr (write_float99 e f t m)
      else if b = -100 then
        Inr (if t \<noteq> 0 then MSG_WriteAngle16 e t (MSG_WriteBit1 m) else MSG_WriteBit0 m)
      else if b = -87 then Inr (MSG_WriteAngle16 e t m)
      else if b = -86 then Inr (MSG_WriteBits (fp_scale e t) 5 m)
      else if b = -85 then Inr (write_color f t m)
      else if b = -97 then Inr (write_time time t m)
      else if b = -98 then
        (case MSG_Write24BitFlag (sint f) (sint t) m of None \<Rightarrow> Inl ENDLESS_SCAN | Some m1 \<Rightarrow> Inr m1)
      else if b = -96 then Inr (write_ground t m)
      else if b = -93 \<or> b = -94 then Inr (MSG_WriteByte (sint t) m)
      else if b = -91 \<or> b = -92 then Inr (MSG_WriteOriginFloat e b t f m)
      else if b = -90 then Inr (MSG_WriteOriginZFloat e t f m)
      else if b = -95 then Inr (MSG_WriteBits (uint t div 100) 7 m)
      else Inr (write_plain b f t m))"

definition MSG_WriteDeltaField ::
  "snapenv \<Rightarrow> int \<Rightarrow> cstruct \<Rightarrow> cstruct \<Rightarrow> netField \<Rightarrow> bool \<Rightarrow> msg \<Rightarrow> snap_error + msg" where
  "MSG_WriteDeltaField e time from to field forceSend m =
     (let fromdata = (if forceSend then 0 else from (offset field)); todata = to (offset field) in
      if changeHints field \<noteq> 2 then
        if \<not> forceSend \<and> MSG_ValuesAreEqual e (bits field) fromdata todata then Inr (MSG_WriteBit0 m)
        else write_payload e time (bits field) fromdata todata (MSG_WriteBit1 m)
      else write_payload e time (bits field) fromdata todata m)"

section \<open>A structure\<close>

primrec write_fields ::
  "snapenv \<Rightarrow> int \<Rightarrow> cstruct \<Rightarrow> cstruct \<Rightarrow> netField list \<Rightarrow> msg \<Rightarrow> snap_error + msg" where
  "write_fields e time from to [] m = Inr m"
| "write_fields e time from to (f # fs) m =
     and_then (MSG_WriteDeltaField e time from to f False m) (write_fields e time from to fs)"

text \<open>One more than the index of the last changed field.\<close>

primrec last_changed :: "snapenv \<Rightarrow> cstruct \<Rightarrow> cstruct \<Rightarrow> nat \<Rightarrow> nat \<Rightarrow> netField list \<Rightarrow> nat" where
  "last_changed e from to i lc [] = lc"
| "last_changed e from to i lc (f # fs) =
     last_changed e from to (Suc i)
       (if \<not> MSG_ValuesAreEqual e (bits f) (from (offset f)) (to (offset f)) then i + 1 else lc) fs"

definition entity_number :: "cstruct \<Rightarrow> int" where
  "entity_number s = sint (s 0)"

definition MSG_WriteEntityRemoval :: "cstruct \<Rightarrow> int \<Rightarrow> bool \<Rightarrow> msg \<Rightarrow> msg" where
  "MSG_WriteEntityRemoval from indexBits changeBit m =
     MSG_WriteBit1 (MSG_WriteEntityIndex (entity_number from) indexBits
       (if changeBit then MSG_WriteBit1 m else m))"

definition MSG_WriteDeltaStruct ::
  "snapenv \<Rightarrow> int \<Rightarrow> cstruct \<Rightarrow> cstruct \<Rightarrow> bool \<Rightarrow> int \<Rightarrow> netField list \<Rightarrow> bool \<Rightarrow> msg \<Rightarrow>
   snap_error + (int \<times> msg)" where
  "MSG_WriteDeltaStruct e time from to force indexBits stateFields bChangeBit m =
     (let entityNumber = entity_number to; lc = last_changed e from to 0 0 stateFields;
          m1 = (if bChangeBit then MSG_WriteBit1 m else m) in
      if lc = 0 then
        if \<not> force then Inr (0, m)
        else let m2 = MSG_WriteBit0 (MSG_WriteBit0 (MSG_WriteEntityIndex entityNumber indexBits m1))
             in Inr (MSG_GetUsedBitCount m2 - MSG_GetUsedBitCount m, m2)
      else
        let m2 = MSG_WriteBits (int lc) (GetMinBitCount (length stateFields))
                   (MSG_WriteBit1 (MSG_WriteBit0 (MSG_WriteEntityIndex entityNumber indexBits m1)))
        in and_then (write_fields e time from to (take lc stateFields) m2)
             (\<lambda>m3. Inr (MSG_GetUsedBitCount m3 - MSG_GetUsedBitCount m, m3)))"

section \<open>Entities and clients\<close>

definition MAX_GENTITIES :: int where "MAX_GENTITIES = 1024"
definition PLAYER_SOLIDMASK :: "32 word" where "PLAYER_SOLIDMASK = 0x00600000"
definition TEAM_FREE :: int where "TEAM_FREE = 0"

definition OnSameTeam :: "snapenv \<Rightarrow> int \<Rightarrow> int \<Rightarrow> bool" where
  "OnSameTeam e ent1 ent2 \<longleftrightarrow>
     (case (team_of e ent1, team_of e ent2) of
        (Some t1, Some t2) \<Rightarrow> (if t1 = TEAM_FREE then False else t1 = t2)
      | _ \<Rightarrow> False)"

text \<open>Offsets 4 and 152 hold \<open>eType\<close> and \<open>solid\<close>.  The copy kept by the server is changed.\<close>

definition clear_solid :: "cstruct \<Rightarrow> cstruct" where
  "clear_solid to = to(152 := to 152 AND NOT PLAYER_SOLIDMASK)"

definition pass_through :: "snapenv \<Rightarrow> int \<Rightarrow> cstruct \<Rightarrow> snap_error + cstruct" where
  "pass_through e clnum to =
     (if entity_number to < 64 then
        case team_of e clnum of
          None \<Rightarrow> Inl NULL_CLIENT
        | Some team \<Rightarrow>
            if team = TEAM_FREE then Inr (if \<not> ffa_block e then clear_solid to else to)
            else if \<not> friendly_block e \<and> OnSameTeam e (entity_number to) clnum
            then Inr (clear_solid to) else Inr to
      else Inr to)"

definition entity_fields :: "cstruct \<Rightarrow> snap_error + netField list" where
  "entity_fields to =
     (if sint (to 4) \<le> 17 then
        if sint (to 4) < 0 then Inl OUT_OF_TABLE else Inr (netFieldList ! nat (sint (to 4)))
      else Inr (netFieldList ! 17))"

definition MSG_WriteEntityDelta ::
  "snapenv \<Rightarrow> int \<Rightarrow> cstruct \<Rightarrow> cstruct \<Rightarrow> bool \<Rightarrow> int \<Rightarrow> netField list \<Rightarrow> msg \<Rightarrow> snap_error + (int \<times> msg)" where
  "MSG_WriteEntityDelta e time from to force indexBits stateFields m =
     MSG_WriteDeltaStruct e time from to force indexBits stateFields False m"

definition MSG_WriteDeltaEntity ::
  "snapenv \<Rightarrow> int \<Rightarrow> int \<Rightarrow> cstruct \<Rightarrow> cstruct option \<Rightarrow> bool \<Rightarrow> msg \<Rightarrow>
   snap_error + (cstruct option \<times> msg)" where
  "MSG_WriteDeltaEntity e clnum time from to force m =
     (case to of
        None \<Rightarrow> Inr (None, MSG_WriteEntityRemoval from 10 False m)
      | Some to0 \<Rightarrow>
          and_then (pass_through e clnum to0) (\<lambda>to1.
            if entity_number to1 < 0 \<or> MAX_GENTITIES \<le> entity_number to1 then Inl BAD_ENTITY_NUMBER
            else and_then (entity_fields to1) (\<lambda>fields.
              and_then (MSG_WriteEntityDelta e time from to1 force 10 fields m) (\<lambda>(n, m1).
                Inr (Some to1, m1)))))"

definition null_struct :: cstruct where "null_struct = (\<lambda>off. 0)"

definition MSG_WriteDeltaClient ::
  "snapenv \<Rightarrow> int \<Rightarrow> cstruct option \<Rightarrow> cstruct option \<Rightarrow> bool \<Rightarrow> msg \<Rightarrow> snap_error + msg" where
  "MSG_WriteDeltaClient e time from to force m =
     (let from1 = (case from of None \<Rightarrow> null_struct | Some s \<Rightarrow> s) in
      case to of
        Some to1 \<Rightarrow> and_then (MSG_WriteDeltaStruct e time from1 to1 force 6 clientStateFields True m)
                       (\<lambda>(n, m1). Inr m1)
      | None \<Rightarrow> Inr (MSG_WriteEntityRemoval from1 6 True m))"

end
