(* ===== verification/SnapRead.thy ===== *)
theory SnapRead
  imports SnapDelta
begin

text \<open>
  The client's side of the codings, as a reference: a reader for every coding and the relation
  \<open>sees\<close> between a word of the client's copy and the server's word.  Exact codings keep the
  word; the lossy ones keep an angle in 16 bits, a coordinate rounded to an integer modulo
  \<open>2^16\<close> around the centre of the map, or the low bits that the table reserves.  A field that is
  written and read, or left out because the writer finds it equal, keeps the relation.
\<close>

section \<open>Readers\<close>

record decoder =
  short_angle :: "int \<Rightarrow> 32 word"
  scale_font :: "int \<Rightarrow> 32 word"

definition read_bits_byte :: "nat \<Rightarrow> int reader" where
  "read_bits_byte n = do { lo \<leftarrow> read_bits n; hi \<leftarrow> read_byte; State_Monad.return (lo + 2 ^ n * hi) }"

definition unfloat :: "snapenv \<Rightarrow> int \<Rightarrow> nat \<Rightarrow> 32 word \<Rightarrow> int \<Rightarrow> 32 word" where
  "unfloat e bias n c x = fp_from e (take_bit n (x XOR s32 (fp_cast e c + bias)) - bias)"

definition read_small :: "snapenv \<Rightarrow> int \<Rightarrow> nat \<Rightarrow> 32 word \<Rightarrow> 32 word reader" where
  "read_small e bias n c = do { x \<leftarrow> read_bits_byte n; State_Monad.return (unfloat e bias (n + 8) c x) }"

definition read_long_xor :: "32 word \<Rightarrow> 32 word reader" where
  "read_long_xor c = do { x \<leftarrow> read_long; State_Monad.return (word_of_int x XOR c) }"

definition read_float89 :: "snapenv \<Rightarrow> 32 word \<Rightarrow> 32 word reader" where
  "read_float89 e c = do { l \<leftarrow> read_bit; if l = 0 then read_small e 4096 5 c else read_long_xor c }"

definition read_float :: "snapenv \<Rightarrow> 32 word \<Rightarrow> 32 word reader" where
  "read_float e c = do { z \<leftarrow> read_bit;
     if z = 0 then do { s \<leftarrow> read_bit; State_Monad.return (if s = 0 then 0 else 0x80000000) }
     else read_float89 e c }"

definition read_float99 :: "snapenv \<Rightarrow> 32 word \<Rightarrow> 32 word reader" where
  "read_float99 e c = do { z \<leftarrow> read_bit;
     if z = 0 then State_Monad.return 0
     else do { l \<leftarrow> read_bit; if l = 0 then read_small e 2048 4 c else read_long_xor c } }"

definition read_angle :: "decoder \<Rightarrow> 32 word reader" where
  "read_angle d = do { x \<leftarrow> read_short; State_Monad.return (short_angle d (x mod 65536)) }"

definition read_angle_or_zero :: "decoder \<Rightarrow> 32 word reader" where
  "read_angle_or_zero d = do { z \<leftarrow> read_bit; if z = 0 then State_Monad.return 0 else read_angle d }"

definition read_scale :: "decoder \<Rightarrow> 32 word reader" where
  "read_scale d = do { x \<leftarrow> read_bits 5; State_Monad.return (scale_font d x) }"

text \<open>A one bit first would mean that only alpha changed, between 0 and 255.\<close>

definition flip_alpha :: "32 word \<Rightarrow> 32 word" where
  "flip_alpha c = (if byte_at 3 c = 0 then c OR 0xFF000000 else c AND 0x00FFFFFF)"

definition read_color :: "32 word \<Rightarrow> 32 word reader" where
  "read_color c = do { k \<leftarrow> read_bit;
     if k = 0 then do { same \<leftarrow> read_bit;
       if same = 0 then do { r \<leftarrow> read_byte; g \<leftarrow> read_byte; b \<leftarrow> read_byte; a \<leftarrow> read_bits 5;
         State_Monad.return (word_of_int (r + 256 * g + 65536 * b + 2 ^ 27 * a)) }
       else do { a \<leftarrow> read_bits 5; State_Monad.return (word_of_int (uint c mod 2 ^ 24 + 2 ^ 27 * a)) } }
     else State_Monad.return (flip_alpha c) }"

definition read_time :: "int \<Rightarrow> 32 word reader" where
  "read_time time = do { k \<leftarrow> read_bit;
     if k = 0 then do { x \<leftarrow> read_bits 8; State_Monad.return (word_of_int (time - x)) }
     else do { x \<leftarrow> read_long; State_Monad.return (word_of_int x) } }"

definition read_flags :: "32 word \<Rightarrow> 32 word reader" where
  "read_flags c = do { k \<leftarrow> read_bit;
     if k = 0 then do { i \<leftarrow> read_bits 5; State_Monad.return (c XOR push_bit (nat i) 1) }
     else do { x \<leftarrow> read_byte; y \<leftarrow> read_byte; z \<leftarrow> read_byte;
       State_Monad.return (word_of_int (x + 256 * y + 65536 * z)) } }"

definition read_ground :: "32 word reader" where
  "read_ground = do { k \<leftarrow> read_bit;
     if k = 0 then do { z \<leftarrow> read_bit;
       if z = 0 then do { x \<leftarrow> read_bits_byte 2; State_Monad.return (word_of_int x) }
       else State_Monad.return 0 }
     else State_Monad.return 1022 }"

definition origin_near :: "snapenv \<Rightarrow> nat \<Rightarrow> int \<Rightarrow> 32 word" where
  "origin_near e k y = fp_from e (map_center e k - 0x8000 + take_bit 16 y)"

definition read_origin :: "snapenv \<Rightarrow> nat \<Rightarrow> 32 word \<Rightarrow> 32 word reader" where
  "read_origin e k c = do { far \<leftarrow> read_bit;
     let base = fp_round e c - map_center e k + 0x8000 in
     if far = 0 then do { x \<leftarrow> read_bits 7; State_Monad.return (origin_near e k (base + x - 64)) }
     else do { x \<leftarrow> read_bits 16; State_Monad.return (origin_near e k (x XOR base)) } }"

primrec read_bytes_of :: "nat \<Rightarrow> int reader" where
  "read_bytes_of 0 = State_Monad.return 0"
| "read_bytes_of (Suc k) = do { b \<leftarrow> read_byte; x \<leftarrow> read_bytes_of k; State_Monad.return (b + 256 * x) }"

definition unplain :: "nat \<Rightarrow> 32 word \<Rightarrow> int \<Rightarrow> 32 word" where
  "unplain n c x = word_of_int (take_bit n (x XOR uint c))"

definition read_plain :: "int \<Rightarrow> 32 word \<Rightarrow> 32 word reader" where
  "read_plain b c = (let n = nat \<bar>b\<bar>; r = n mod 8 in
     do { z \<leftarrow> read_bit;
       if z = 0 then State_Monad.return 0
       else if r = 0 then do { hi \<leftarrow> read_bytes_of (n div 8); State_Monad.return (unplain n c hi) }
       else do { lo \<leftarrow> read_bits r; hi \<leftarrow> read_bytes_of (n div 8);
         State_Monad.return (unplain n c (lo + 2 ^ r * hi)) } })"

definition read_payload :: "snapenv \<Rightarrow> decoder \<Rightarrow> int \<Rightarrow> int \<Rightarrow> 32 word \<Rightarrow> 32 word reader" where
  "read_payload e d time b c =
     (if b = 0 then read_float e c
      else if b = -89 then read_float89 e c
      else if b = -88 then read_long_xor c
      else if b = -99 then read_float99 e c
      else if b = -100 then read_angle_or_zero d
      else if b = -87 then read_angle d
      else if b = -86 then read_scale d
      else if b = -85 then read_color c
      else if b = -97 then read_time time
      else if b = -98 then read_flags c
      else if b = -96 then read_ground
      else if b = -93 \<or> b = -94 then do { x \<leftarrow> read_byte; State_Monad.return (word_of_int x) }
      else if b = -91 then read_origin e 1 c
      else if b = -92 then read_origin e 0 c
      else if b = -90 then read_origin e 2 c
      else if b = -95 then do { x \<leftarrow> read_bits 7; State_Monad.return (word_of_int (100 * x)) }
      else read_plain b c)"

section \<open>What the client's word stands for\<close>

definition sees :: "snapenv \<Rightarrow> int \<Rightarrow> 32 word \<Rightarrow> 32 word \<Rightarrow> bool" where
  "sees e b c s \<longleftrightarrow>
     (if b \<in> {0, -88, -89, -97, -99} then c = s
      else if b \<in> {-87, -100} then ANGLE2SHORT e c = ANGLE2SHORT e s
      else if b = -86 then fp_scale e c mod 32 = fp_scale e s mod 32
      else if b = -85 then take_bit 24 (uint c) = take_bit 24 (uint s) \<and> uint c div 2 ^ 27 = uint s div 2 ^ 27
      else if b = -98 then take_bit 24 c = take_bit 24 s
      else if b = -96 then take_bit 10 c = take_bit 10 s
      else if b \<in> {-93, -94} then take_bit 8 c = take_bit 8 s
      else if b \<in> {-90, -91, -92} then take_bit 16 (fp_round e c) = take_bit 16 (fp_round e s)
      else if b = -95 then take_bit 7 (uint c div 100) = take_bit 7 (uint s div 100)
      else take_bit (nat \<bar>b\<bar>) c = take_bit (nat \<bar>b\<bar>) s)"

lemma sees_refl [simp]: "sees e b s s"
  by (simp add: sees_def)

text \<open>
  What is relied on of the arithmetic: a cast yields an \<open>int\<close>, an integer never becomes the
  negative zero, integers of up to 22 bits survive the rounding of coordinates, the centre of the
  map lies within 2^20, and the client's inverses of the angle and font codings are inverses.
  \<open>SnapFloat\<close> proves it for the arithmetic of the processor.
\<close>

definition arith_ok :: "snapenv \<Rightarrow> decoder \<Rightarrow> bool" where
  "arith_ok e d \<longleftrightarrow> (\<forall>w. int_range (fp_cast e w)) \<and> (\<forall>i. fp_from e i \<noteq> 0x80000000) \<and>
     (\<forall>i. \<bar>i\<bar> \<le> 2 ^ 22 \<longrightarrow> fp_round e (fp_from e i) = i) \<and> (\<forall>k. \<bar>map_center e k\<bar> \<le> 2 ^ 20) \<and>
     (\<forall>k. 0 \<le> k \<and> k < 65536 \<longrightarrow> ANGLE2SHORT e (short_angle d k) = k) \<and>
     (\<forall>k. 0 \<le> k \<and> k < 32 \<longrightarrow> fp_scale e (scale_font d k) mod 32 = k)"

section \<open>Round trips of the codings\<close>

text \<open>One primitive at a time; the reader's test on the bit just written is decided.\<close>

lemma bit_then:
  "transmits A W w \<Longrightarrow> transmits (do { z \<leftarrow> read_bit; if z = 0 then A else B z }) (\<lambda>m. W (MSG_WriteBit0 m)) w"
  "transmits (B 1) W w \<Longrightarrow> transmits (do { z \<leftarrow> read_bit; if z = 0 then A else B z }) (\<lambda>m. W (MSG_WriteBit1 m)) w"
  by (rule transmits_bind [where V = MSG_WriteBit0], rule writes_transmit, simp)
    (rule transmits_bind [where V = MSG_WriteBit1], rule writes_transmit, simp)

lemma bit_last:
  "transmits (do { z \<leftarrow> read_bit; if z = 0 then State_Monad.return w else B z }) MSG_WriteBit0 w"
  "transmits (do { z \<leftarrow> read_bit; if z = 0 then A else State_Monad.return w }) MSG_WriteBit1 w"
  using bit_then(1) [where W = "\<lambda>m. m", OF transmits_return [of w], of B]
    bit_then(2) [where W = "\<lambda>m. m" and B = "\<lambda>z. State_Monad.return w", OF transmits_return [of w], of A]
  by simp_all

lemma bits_byte_transmits:
  assumes "n < 24"
  shows "transmits (read_bits_byte n) (write_bits_byte x n) (take_bit (n + 8) x)"
proof -
  have "take_bit n x + 2 ^ n * (x div 2 ^ n mod 256) = take_bit (n + 8) x"
    using zmod_zmult2_eq [of 256 x "2 ^ n"] by (simp add: take_bit_eq_mod power_add)
  moreover have "transmits (read_bits_byte n) (\<lambda>m. MSG_WriteByte (x div 2 ^ n) (MSG_WriteBits x n m))
      (take_bit n x + 2 ^ n * (x div 2 ^ n mod 256))"
    unfolding read_bits_byte_def
    by (rule transmits_bind [where V = "MSG_WriteBits x n"], rule few_bits_transmit)
      (use assms in simp, rule transmits_last, rule writes_transmit)
  ultimately show ?thesis by (simp add: write_bits_byte_def [abs_def])
qed

text \<open>Floats.\<close>

lemma fl_key_inj:
  assumes "fl_key a = fl_key b" "a \<noteq> 0x80000000" "b \<noteq> 0x80000000"
  shows "a = b"
proof -
  have hb: "bit (0x80000000 :: 32 word) n \<longleftrightarrow> n = 31" for n
  proof -
    have "(0x80000000 :: 32 word) = push_bit 31 1" by simp
    then have "bit (0x80000000 :: 32 word) n \<longleftrightarrow> bit (push_bit 31 (1 :: 32 word)) n" by (rule arg_cong)
    also have "\<dots> \<longleftrightarrow> n = 31" by (auto simp only: bit_push_bit_iff bit_1_iff possible_bit_word) simp_all
    finally show ?thesis .
  qed
  have lm: "(0x7FFFFFFF :: 32 word) = mask 31" by (simp add: mask_eq_exp_minus_1)
  have s: "w = (w AND 0x7FFFFFFF) OR (if bit w 31 then 0x80000000 else 0)" for w :: "32 word"
  proof (rule bit_word_eqI)
    fix n assume "n < LENGTH(32)"
    then have "n < 31 \<or> n = 31" by auto
    then show "bit w n = bit ((w AND 0x7FFFFFFF) OR (if bit w 31 then 0x80000000 else 0)) n"
      using hb [of n] unfolding lm by (auto simp: bit_or_iff bit_and_iff bit_mask_iff)
  qed
  define m where "m w = uint (w AND (0x7FFFFFFF :: 32 word))" for w
  have k: "fl_key w = (if bit w 31 then - m w else m w)" "0 \<le> m w" for w
    by (simp_all add: fl_key_def m_def Let_def)
  have nz: "m w \<noteq> 0" if "w \<noteq> 0x80000000" "bit w 31" for w
  proof
    assume "m w = 0"
    then have "w AND 0x7FFFFFFF = 0" by (simp add: m_def uint_0_iff)
    then have "w = 0 OR 0x80000000" using s [of w] that(2) by metis
    then show False using that(1) by simp
  qed
  have "bit a 31 = bit b 31 \<and> m a = m b"
    using assms(1) k [of a] k [of b] nz [OF assms(2)] nz [OF assms(3)] by (auto split: if_splits)
  then have "bit a 31 = bit b 31" "a AND 0x7FFFFFFF = b AND 0x7FFFFFFF"
    unfolding m_def by (simp, metis word_of_int_uint)
  then show ?thesis using s [of a] s [of b] by simp
qed

lemma small_float_exact:
  assumes "arith_ok e d" "small_float e (2 ^ n) t" "n \<le> 20"
  shows "unfloat e (2 ^ n) (Suc n) f (take_bit (Suc n) (float_xor e (2 ^ n) t f)) = t"
    "float_xor e (2 ^ n) f t = float_xor e (2 ^ n) t f"
proof -
  show "float_xor e (2 ^ n) f t = float_xor e (2 ^ n) t f" by (simp add: float_xor_def ac_simps)
  let ?i = "fp_cast e t" and ?g = "s32 (fp_cast e f + 2 ^ n)"
  have "(2::int) ^ n \<le> 2 ^ 20" using assms(3) by (intro power_increasing) simp_all
  moreover have "int_range ?i" using assms(1) by (simp add: arith_ok_def)
  ultimately have n: "(0::int) \<le> 2 ^ n" "2 ^ n \<le> (1048576::int)" "- (2 ^ 31) \<le> ?i" "?i < 2 ^ 31" by (simp_all add: int_range_def)
  have r: "0 \<le> s32 (?i + 2 ^ n)" "s32 (?i + 2 ^ n) < 2 ^ Suc n"
    using assms(2) by (simp_all add: small_float_def)
  have "?i + 2 ^ n < 2 ^ 31"
  proof (rule ccontr)
    assume c: "\<not> ?i + 2 ^ n < 2 ^ 31"
    have "s32 (?i + 2 ^ n) = s32 (?i + 2 ^ n - 2 ^ 32)"
      using s32_mod [of "?i + 2 ^ n"] s32_mod [of "?i + 2 ^ n - 2 ^ 32"] by simp
    also have "\<dots> = ?i + 2 ^ n - 2 ^ 32" using c n by (intro s32_id) simp_all
    finally show False using r n by simp
  qed
  then have w: "s32 (?i + 2 ^ n) = ?i + 2 ^ n" using n by (intro s32_id; linarith)
  have "take_bit (Suc n) (take_bit (Suc n) (s32 (?i + 2 ^ n) XOR ?g) XOR ?g) = take_bit (Suc n) (s32 (?i + 2 ^ n))"
    by (rule bit_eqI) (auto simp: bit_simps)
  also have "\<dots> = ?i + 2 ^ n" using r unfolding w by (intro take_bit_int_eq_self) simp_all
  finally have "unfloat e (2 ^ n) (Suc n) f (take_bit (Suc n) (float_xor e (2 ^ n) t f)) = fp_from e ?i"
    by (simp add: unfloat_def float_xor_def)
  moreover have "fl_key t = fl_key (fp_from e ?i)" "t \<noteq> 0x80000000"
    using assms(2) by (simp_all add: small_float_def fl_eq_def)
  moreover have "fp_from e ?i \<noteq> 0x80000000" using assms(1) by (simp add: arith_ok_def)
  ultimately show "unfloat e (2 ^ n) (Suc n) f (take_bit (Suc n) (float_xor e (2 ^ n) t f)) = t"
    using fl_key_inj by metis
qed

lemma small_transmits:
  assumes "arith_ok e d"
  shows "small_float e 4096 t \<Longrightarrow> transmits (read_small e 4096 5 f) (write_bits_byte (float_xor e 4096 t f) 5) t"
    "small_float e 2048 t \<Longrightarrow> transmits (read_small e 2048 4 f) (write_bits_byte (float_xor e 2048 t f) 4) t"
  using transmits_last [OF bits_byte_transmits [of 5 "float_xor e 4096 t f"], of "unfloat e 4096 13 f"]
    small_float_exact(1) [OF assms, of 12 t f]
    transmits_last [OF bits_byte_transmits [of 4 "float_xor e 2048 t f"], of "unfloat e 2048 12 f"]
    small_float_exact(1) [OF assms, of 11 t f]
  by (simp_all add: read_small_def)

lemma long_xor_transmits: "transmits (read_long_xor f) (write_long_xor f t) t"
proof -
  have "word_of_int (s32 (sint (t XOR f))) XOR f = (t XOR f) XOR f"
    using sint_range_size [of "t XOR f"] by (subst s32_id) (simp_all add: word_size)
  also have "\<dots> = t" by (simp add: xor.assoc)
  finally have "word_of_int (s32 (sint (t XOR f))) XOR f = t" .
  then show ?thesis
    using transmits_last [OF writes_transmit(5) [of "sint (t XOR f)"], of "\<lambda>x. word_of_int x XOR f"]
    by (simp add: read_long_xor_def write_long_xor_def [abs_def])
qed

lemma float89_transmits:
  assumes "arith_ok e d"
  shows "transmits (read_float89 e f) (write_float89 e f t) t"
proof (cases "small_float e 4096 t")
  case True
  then show ?thesis unfolding read_float89_def write_float89_def [abs_def]
    using bit_then(1) [OF small_transmits(1) [OF assms True]] by simp
next
  case False
  then show ?thesis unfolding read_float89_def write_float89_def [abs_def]
    using bit_then(2) [OF long_xor_transmits] by simp
qed

lemma float_transmits:
  assumes "arith_ok e d"
  shows "transmits (read_float e f) (write_float e f t) t"
proof (cases "fl_eq t 0")
  case True
  have t: "t = 0" if "t \<noteq> 0x80000000"
    using that True fl_key_inj [of t 0] by (simp add: fl_eq_def)
  show ?thesis
  proof (cases "t = 0x80000000")
    case neg: True
    show ?thesis unfolding read_float_def write_float_def [abs_def]
      using bit_then(1) [OF transmits_last [OF writes_transmit(2), of "\<lambda>s. if s = 0 then 0 else 0x80000000"]] True neg
      by simp
  next
    case False
    show ?thesis unfolding read_float_def write_float_def [abs_def]
      using bit_then(1) [OF transmits_last [OF writes_transmit(1), of "\<lambda>s. if s = 0 then 0 else 0x80000000"]]
        True False t by simp
  qed
next
  case False
  have "transmits (read_float89 e f)
      (if \<not> small_float e 4096 t \<or> \<not> small_int e 4096 f then (\<lambda>m. write_long_xor f t (MSG_WriteBit1 m))
       else (\<lambda>m. write_bits_byte (float_xor e 4096 f t) 5 (MSG_WriteBit0 m))) t"
    using bit_then(2) [OF long_xor_transmits [of f t]] bit_then(1) [OF small_transmits(1) [OF assms]]
      small_float_exact(2) [OF assms, of 12 t f]
    by (auto simp: read_float89_def)
  from bit_then(2) [OF this] False show ?thesis
    unfolding read_float_def write_float_def [abs_def]
    by (cases "small_float e 4096 t \<longrightarrow> \<not> small_int e 4096 f") (simp_all add: Let_def)
qed

lemma float99_transmits:
  assumes "arith_ok e d"
  shows "transmits (read_float99 e f) (write_float99 e f t) t"
proof (cases "\<not> fl_eq t 0 \<or> t = 0x80000000")
  case True
  have "transmits (do { l \<leftarrow> read_bit; if l = 0 then read_small e 2048 4 f else read_long_xor f })
      (if small_float e 2048 t then (\<lambda>m. write_bits_byte (float_xor e 2048 t f) 4 (MSG_WriteBit0 m))
       else (\<lambda>m. write_long_xor f t (MSG_WriteBit1 m))) t"
    using bit_then(2) [OF long_xor_transmits [of f t]] bit_then(1) [OF small_transmits(2) [OF assms]] by auto
  from bit_then(2) [OF this] True show ?thesis
    unfolding read_float99_def write_float99_def [abs_def]
    by (cases "small_float e 2048 t") (auto simp: Let_def)
next
  case False
  then have "t = 0" using fl_key_inj [of t 0] by (simp add: fl_eq_def)
  with False show ?thesis unfolding read_float99_def write_float99_def [abs_def] using bit_last(1) by simp
qed

text \<open>Angles and font sizes.\<close>

lemma ANGLE2SHORT_range: "0 \<le> ANGLE2SHORT e x" "ANGLE2SHORT e x < 65536"
proof -
  have "ANGLE2SHORT e x = take_bit 16 (fp_angle e x)"
    using take_bit_eq_mask [of 16 "fp_angle e x"] by (simp add: ANGLE2SHORT_def mask_eq_exp_minus_1)
  then show "0 \<le> ANGLE2SHORT e x" "ANGLE2SHORT e x < 65536"
    using take_bit_int_less_exp [of 16 "fp_angle e x"] by simp_all
qed

lemma s16_mod_word: "s16 x mod 65536 = x mod 65536"
  using take_bit_signed_take_bit [of 16 15 x] by (simp add: s16_def take_bit_eq_mod)

lemma angle_transmits:
  assumes "arith_ok e d"
  shows "\<exists>w. transmits (read_angle d) (MSG_WriteAngle16 e t) w \<and> ANGLE2SHORT e w = ANGLE2SHORT e t"
proof -
  let ?k = "ANGLE2SHORT e t"
  have "transmits (read_angle d) (MSG_WriteAngle16 e t) (short_angle d (s16 ?k mod 65536))"
    unfolding read_angle_def MSG_WriteAngle16_def [abs_def] by (rule transmits_last) (rule writes_transmit)
  moreover have "s16 ?k mod 65536 = ?k" using s16_mod_word [of ?k] ANGLE2SHORT_range [of e t] by simp
  ultimately show ?thesis using assms ANGLE2SHORT_range [of e t] by (auto simp: arith_ok_def)
qed

lemma angle_or_zero_transmits:
  assumes "arith_ok e d"
  shows "\<exists>w. transmits (read_angle_or_zero d)
      (\<lambda>m. if t \<noteq> 0 then MSG_WriteAngle16 e t (MSG_WriteBit1 m) else MSG_WriteBit0 m) w \<and>
    ANGLE2SHORT e w = ANGLE2SHORT e t"
proof (cases "t = 0")
  case True
  then show ?thesis unfolding read_angle_or_zero_def
    using bit_last(1) [of 0 "\<lambda>z. read_angle d"] by auto
next
  case False
  obtain w where "transmits (read_angle d) (MSG_WriteAngle16 e t) w" "ANGLE2SHORT e w = ANGLE2SHORT e t"
    using angle_transmits [OF assms] by blast
  then show ?thesis unfolding read_angle_or_zero_def
    using bit_then(2) [of "\<lambda>z. read_angle d" "MSG_WriteAngle16 e t" w "State_Monad.return 0"] False by auto
qed

lemma scale_transmits:
  assumes "arith_ok e d"
  shows "\<exists>w. transmits (read_scale d) (MSG_WriteBits (fp_scale e t) 5) w \<and> fp_scale e w mod 32 = fp_scale e t mod 32"
proof -
  have "transmits (read_scale d) (MSG_WriteBits (fp_scale e t) 5) (scale_font d (take_bit 5 (fp_scale e t)))"
    unfolding read_scale_def by (rule transmits_last) (rule few_bits_transmit, simp)
  moreover have "fp_scale e (scale_font d (fp_scale e t mod 32)) mod 32 = fp_scale e t mod 32"
    using assms by (simp add: arith_ok_def)
  ultimately show ?thesis by (auto simp: take_bit_eq_mod)
qed

lemma s32_cong: "s32 x mod 2 ^ 32 = x mod 2 ^ 32"
  using take_bit_signed_take_bit [of 32 31 x] by (simp add: s32_def take_bit_eq_mod)

lemma u32_s32: "u32 (s32 x) = (if s32 x < 0 then s32 x + 2 ^ 32 else s32 x)"
proof (cases "s32 x < 0")
  case True
  then have "(s32 x + 2 ^ 32) mod 2 ^ 32 = s32 x + 2 ^ 32"
    using s32_range [of x] by (intro mod_pos_pos_trivial) simp_all
  then show ?thesis using True unfolding u32_def mod_add_self2 by simp
next
  case False
  then show ?thesis using s32_range [of x] by (simp add: u32_def)
qed

text \<open>Times, the ground entity and small numbers.\<close>

lemma time_transmits: "transmits (read_time time) (write_time time t) t"
proof (cases "u32 (s32 (uint t - time)) \<ge> 0xFFFFFF01 \<or> s32 (uint t - time) = 0")
  case True
  let ?d = "s32 (uint t - time)"
  have m: "?d mod 2 ^ 32 = (uint t - time) mod 2 ^ 32" by (rule s32_cong)
  have "- 255 \<le> ?d" "?d \<le> 0" using True u32_s32 [of "uint t - time"] s32_range [of "uint t - time"] by (auto split: if_splits)
  then have "take_bit 8 (- ?d) = - ?d" by (intro take_bit_int_eq_self) simp_all
  moreover have "(word_of_int ?d :: 32 word) = word_of_int (uint t - time)"
    unfolding word_of_int_eq_iff take_bit_eq_mod using m by simp
  then have "word_of_int (time + ?d) = t" by simp
  ultimately have v: "(word_of_int (time - take_bit 8 (- ?d)) :: 32 word) = t" by simp
  have w: "write_time time t = (\<lambda>m. MSG_WriteBits (- ?d) 8 (MSG_WriteBit0 m))"
    using True by (simp add: write_time_def [abs_def] Let_def)
  have "transmits (do { x \<leftarrow> read_bits 8; State_Monad.return (word_of_int (time - x)) }) (MSG_WriteBits (- ?d) 8)
      (word_of_int (time - take_bit 8 (- ?d)) :: 32 word)"
    by (rule transmits_last) (rule few_bits_transmit, simp)
  from this [unfolded v] show ?thesis unfolding read_time_def w by (rule bit_then(1))
next
  case False
  have v: "(word_of_int (s32 (sint t)) :: 32 word) = t"
    using sint_range_size [of t] by (subst s32_id) (simp_all add: word_size)
  have w: "write_time time t = (\<lambda>m. MSG_WriteLong (sint t) (MSG_WriteBit1 m))"
    using False by (simp add: write_time_def [abs_def] Let_def)
  have "transmits (do { x \<leftarrow> read_long; State_Monad.return (word_of_int x) }) (MSG_WriteLong (sint t))
      (word_of_int (s32 (sint t)) :: 32 word)"
    by (rule transmits_last) (rule writes_transmit)
  from this [unfolded v] show ?thesis unfolding read_time_def w by (rule bit_then(2))
qed

text \<open>Colours: sent whole, with the rounded alpha.\<close>

lemma byte_at_range: "0 \<le> byte_at k w \<and> byte_at k w < 256"
  by (simp add: byte_at_def)

lemma low_byte:
  assumes "0 \<le> a \<and> a < (256 :: int)" "0 \<le> a' \<and> a' < 256"
  shows "a + 256 * x = a' + 256 * x' \<longleftrightarrow> a = a' \<and> x = x'"
proof
  assume e: "a + 256 * x = a' + 256 * x'"
  have "a = (a + 256 * x) mod 256" "a' = (a' + 256 * x') mod 256" using assms by simp_all
  then have "a = a'" using e by simp
  with e show "a = a' \<and> x = x'" by simp
qed simp

lemma same_color_iff: "same_color f t \<longleftrightarrow> take_bit 24 (uint f) = take_bit 24 (uint t)"
proof -
  have "byte_at 0 w + 256 * byte_at 1 w + 65536 * byte_at 2 w = take_bit 24 (uint w)" for w
    using zmod_zmult2_eq [of 256 "uint w" 256] zmod_zmult2_eq [of 256 "uint w" 65536]
    by (simp add: byte_at_def take_bit_eq_mod)
  then show ?thesis
    using low_byte [OF byte_at_range byte_at_range, of 0 f "byte_at 1 f + 256 * byte_at 2 f" 0 t "byte_at 1 t + 256 * byte_at 2 t"]
      low_byte [OF byte_at_range byte_at_range, of 1 f "byte_at 2 f" 1 t "byte_at 2 t"]
    by (simp add: same_color_def algebra_simps)
qed

lemma color_seen:
  assumes "x = take_bit 24 (uint t)" "v = word_of_int (x + 2 ^ 27 * take_bit 5 (byte_at 3 t div 8))"
  shows "sees e (-85) v t"
proof -
  have "uint t div 2 ^ 27 < 32" "0 \<le> uint t div 2 ^ 27" using uint_bounded [of t] by (simp_all add: pos_imp_zdiv_nonneg_iff)
  moreover have "byte_at 3 t div 8 = uint t div 2 ^ 27"
  proof -
    have "uint t div 2 ^ 24 < 256" "0 \<le> uint t div 2 ^ 24"
      using uint_bounded [of t] by (simp_all add: pos_imp_zdiv_nonneg_iff)
    then have "byte_at 3 t = uint t div 2 ^ 24" by (simp add: byte_at_def)
    then show ?thesis using zdiv_zmult2_eq [of 8 "uint t" "2 ^ 24"] by simp
  qed
  ultimately have a: "take_bit 5 (byte_at 3 t div 8) = uint t div 2 ^ 27" by (simp add: take_bit_eq_mod)
  have x: "0 \<le> x" "x < 2 ^ 24" using take_bit_int_less_exp [of 24 "uint t"] by (simp_all add: assms(1))
  have "uint v = x + 2 ^ 27 * (uint t div 2 ^ 27)"
    unfolding assms(2) a uint_word_of_int
    using x \<open>uint t div 2 ^ 27 < 32\<close> \<open>0 \<le> uint t div 2 ^ 27\<close> by simp
  moreover have "(x + 2 ^ 27 * k) mod 2 ^ 24 = x" for k
    using x mod_mult_self2 [of x "2 ^ 24" "8 * k"] by (simp add: mult.assoc [symmetric])
  ultimately show ?thesis using x assms(1) by (simp add: sees_def take_bit_eq_mod)
qed

lemma color_transmits:
  assumes "sees e (-85) c f"
  shows "\<exists>w. transmits (read_color c) (write_color f t) w \<and> sees e (-85) w t"
proof -
  let ?a = "take_bit 5 (byte_at 3 t div 8)"
  have nt: "byte_at 3 f \<noteq> -1" "byte_at 3 t \<noteq> -1" using byte_at_range [of 3 f] byte_at_range [of 3 t] by auto
  have alpha: "transmits (do { a \<leftarrow> read_bits 5; State_Monad.return (word_of_int (x + 2 ^ 27 * a)) })
      (MSG_WriteBits (byte_at 3 t div 8) 5) (word_of_int (x + 2 ^ 27 * ?a))" for x
    by (rule transmits_last) (rule few_bits_transmit, simp)
  show ?thesis
  proof (cases "same_color f t")
    case True
    let ?x = "uint c mod 2 ^ 24"
    have w: "write_color f t = (\<lambda>m. MSG_WriteBits (byte_at 3 t div 8) 5 (MSG_WriteBit1 (MSG_WriteBit0 m)))"
      using nt True by (simp add: write_color_def [abs_def] Let_def)
    have "transmits (read_color c) (write_color f t) (word_of_int (?x + 2 ^ 27 * ?a))"
      unfolding read_color_def w by (rule bit_then(1), rule bit_then(2), rule alpha)
    moreover have "?x = take_bit 24 (uint t)"
      using assms True same_color_iff [of f t] by (simp add: sees_def take_bit_eq_mod)
    ultimately show ?thesis using color_seen [OF _ refl] by blast
  next
    case False
    let ?x = "byte_at 0 t mod 256 + 256 * (byte_at 1 t mod 256) + 65536 * (byte_at 2 t mod 256)"
    note b = writes_transmit(3)
    have "transmits (do { r \<leftarrow> read_byte; g \<leftarrow> read_byte; b \<leftarrow> read_byte; a \<leftarrow> read_bits 5;
         State_Monad.return (word_of_int (r + 256 * g + 65536 * b + 2 ^ 27 * a)) })
       (\<lambda>m. MSG_WriteBits (byte_at 3 t div 8) 5 (MSG_WriteByte (byte_at 2 t)
         (MSG_WriteByte (byte_at 1 t) (MSG_WriteByte (byte_at 0 t) m))))
       (word_of_int (?x + 2 ^ 27 * ?a))" (is "transmits ?D ?W ?v")
      by (rule transmits_bind [where V = "MSG_WriteByte (byte_at 0 t)", OF b],
          rule transmits_bind [where V = "MSG_WriteByte (byte_at 1 t)", OF b],
          rule transmits_bind [where V = "MSG_WriteByte (byte_at 2 t)", OF b], rule alpha)
    moreover have w: "write_color f t = (\<lambda>m. ?W (MSG_WriteBit0 (MSG_WriteBit0 m)))"
      using nt False by (simp add: write_color_def [abs_def] Let_def)
    ultimately have "transmits (read_color c) (write_color f t) ?v"
      unfolding read_color_def w by (intro bit_then(1))
    moreover have "?x = take_bit 24 (uint t)"
      using zmod_zmult2_eq [of 256 "uint t" 256] zmod_zmult2_eq [of 256 "uint t" 65536]
      by (simp add: byte_at_def take_bit_eq_mod)
    ultimately show ?thesis using color_seen [OF _ refl] by blast
  qed
qed

text \<open>The ground entity, and coordinates relative to the centre of the map.\<close>

lemma ground_transmits:
  "\<exists>w. transmits read_ground (write_ground t) w \<and> take_bit 10 w = take_bit 10 t"
proof -
  have x: "transmits (do { x \<leftarrow> read_bits_byte 2; State_Monad.return (word_of_int x) })
      (write_bits_byte (uint t) 2) (word_of_int (take_bit 10 (uint t)))"
    using transmits_last [OF bits_byte_transmits [of 2 "uint t"], of word_of_int] by simp
  have k: "take_bit 10 (word_of_int (take_bit 10 (uint t)) :: 32 word) = take_bit 10 t"
    by (rule bit_word_eqI) (simp add: bit_simps)
  consider "t = 1022" | "t = 0" | "t \<noteq> 0" "t \<noteq> 1022" by blast
  then show ?thesis
  proof cases
    case 1
    have "transmits read_ground (write_ground t) 1022"
      by (simp add: 1 read_ground_def write_ground_def [abs_def] Let_def bit_last(2))
    then show ?thesis using 1 by blast
  next
    case 2
    have "transmits read_ground (write_ground t) 0" unfolding read_ground_def write_ground_def [abs_def]
      using bit_then(1) [OF bit_last(2)] by (simp add: 2 Let_def)
    then show ?thesis using 2 by blast
  next
    case 3
    then have w: "write_ground t = (\<lambda>m. write_bits_byte (uint t) 2 (MSG_WriteBit0 (MSG_WriteBit0 m)))"
      by (simp add: write_ground_def [abs_def] Let_def)
    have "transmits read_ground (write_ground t) (word_of_int (take_bit 10 (uint t)))"
      unfolding read_ground_def w by (intro bit_then(1) x)
    then show ?thesis using k by blast
  qed
qed

text \<open>Flags: the index of the one bit that changed, or 24 bits.\<close>

lemma lowest_bit_Some:
  "lowest_bit n x i = Some j \<Longrightarrow> \<exists>k < n. j = i + int k \<and> bit x k \<and> (\<forall>l < k. \<not> bit x l)"
proof (induction n arbitrary: x i)
  case 0
  then show ?case by simp
next
  case (Suc n)
  show ?case
  proof (cases "odd x")
    case True
    then show ?thesis using Suc.prems by (intro exI [of _ 0]) (simp add: and_one_eq bit_0 odd_iff_mod_2_eq_one)
  next
    case False
    then have "lowest_bit n (x div 2) (i + 1) = Some j" using Suc.prems by (simp add: and_one_eq even_iff_mod_2_eq_zero)
    from Suc.IH [OF this] obtain k where k: "k < n" "j = i + 1 + int k" "bit (x div 2) k" "\<forall>l < k. \<not> bit (x div 2) l"
      by blast
    have "\<not> bit x l" if "l < Suc k" for l
      using that k(4) False by (cases l) (simp_all add: bit_0 bit_Suc)
    then show ?thesis using k by (intro exI [of _ "Suc k"]) (simp add: bit_Suc)
  qed
qed

lemma bit_pred_above:
  "bit x k \<Longrightarrow> \<forall>l < k. \<not> bit x l \<Longrightarrow> k < j \<Longrightarrow> bit (x - 1) j = bit (x :: int) j"
proof (induction k arbitrary: x j)
  case 0
  then obtain i where "j = Suc i" using gr0_implies_Suc by blast
  moreover have "(x - 1) div 2 = x div 2" using 0(1) by (simp add: bit_0) presburger
  ultimately show ?case by (simp add: bit_Suc)
next
  case (Suc k)
  then obtain i where i: "j = Suc i" "k < i" using Suc_lessE by blast
  have "even x" using Suc.prems(2) by (auto simp: bit_0)
  then have "(x - 1) div 2 = x div 2 - 1" by presburger
  moreover have "bit (x div 2 - 1) i = bit (x div 2) i"
    using Suc.prems i(2) by (intro Suc.IH) (auto simp: bit_Suc [symmetric])
  ultimately show ?case by (simp add: i(1) bit_Suc)
qed

lemma one_bit:
  assumes "s32 (x - 1) AND x = 0" "lowest_bit 32 x 0 = Some i"
  obtains k where "k < 32" "i = int k" "take_bit 32 x = 2 ^ k"
proof -
  obtain k where k: "k < 32" "i = int k" "bit x k" "\<forall>l < k. \<not> bit x l"
    using lowest_bit_Some [OF assms(2)] by auto
  have "\<not> bit x j" if "k < j" "j < 32" for j
  proof
    assume "bit x j"
    then have "bit (s32 (x - 1) AND x) j"
      using that bit_pred_above [OF k(3,4) that(1)] by (simp add: s32_def bit_and_iff bit_signed_take_bit_iff)
    with assms(1) show False by simp
  qed
  then have "take_bit 32 x = 2 ^ k"
    using k by (intro bit_eqI) (auto simp: bit_take_bit_iff bit_exp_iff, metis linorder_neqE_nat)
  with k show ?thesis using that by blast
qed

lemma bit_sint32: "n < 32 \<Longrightarrow> bit (sint (w :: 32 word)) n = bit w n"
proof -
  assume n: "n < 32"
  then have "min 31 n = n" by simp
  with n show "bit (sint w) n = bit w n" by (simp add: bit_sint_iff)
qed

lemma flags_conveys:
  assumes "take_bit 24 c = take_bit 24 f"
  shows "\<exists>w. conveys (read_flags c)
      (\<lambda>m. case MSG_Write24BitFlag (sint f) (sint t) m of None \<Rightarrow> Inl ENDLESS_SCAN | Some m1 \<Rightarrow> Inr m1) w \<and>
    take_bit 24 w = take_bit 24 t"
proof -
  let ?x = "sint t XOR sint f"
  have cf: "bit c j = bit f j" if "j < 24" for j
    using arg_cong [OF assms, of "\<lambda>w. bit w j"] that by (simp add: bit_take_bit_iff)
  consider (full) "s32 (?x - 1) AND ?x \<noteq> 0"
    | (one) i where "s32 (?x - 1) AND ?x = 0" "lowest_bit 32 ?x 0 = Some i"
    | (none) "s32 (?x - 1) AND ?x = 0" "lowest_bit 32 ?x 0 = None" by fastforce
  then show ?thesis
  proof cases
    case full
    let ?v = "sint t mod 256 + 256 * (sint t div 256 mod 256) + 65536 * (sint t div 65536 mod 256)"
    have "?v = take_bit 24 (sint t)"
      using zmod_zmult2_eq [of 256 "sint t" 256] zmod_zmult2_eq [of 256 "sint t" 65536]
      by (simp add: take_bit_eq_mod)
    moreover have "take_bit 24 (word_of_int (take_bit 24 (sint t)) :: 32 word) = take_bit 24 t"
      by (rule bit_word_eqI) (auto simp: bit_simps)
    moreover note b = writes_transmit(3)
    have "transmits (do { x \<leftarrow> read_byte; y \<leftarrow> read_byte; z \<leftarrow> read_byte;
        State_Monad.return (word_of_int (x + 256 * y + 65536 * z)) })
      (\<lambda>m. MSG_WriteByte (sint t div 65536) (MSG_WriteByte (sint t div 256) (MSG_WriteByte (sint t) m)))
      (word_of_int ?v :: 32 word)"
      by (rule transmits_bind [where V = "MSG_WriteByte (sint t)", OF b],
          rule transmits_bind [where V = "MSG_WriteByte (sint t div 256)", OF b], rule transmits_last, rule b)
    then have "transmits (read_flags c) (\<lambda>m. MSG_WriteByte (sint t div 65536) (MSG_WriteByte (sint t div 256)
      (MSG_WriteByte (sint t) (MSG_WriteBit1 m)))) (word_of_int ?v)"
      unfolding read_flags_def by (rule bit_then(2))
    ultimately show ?thesis using full
      by (intro exI [of _ "word_of_int ?v"]) (simp add: MSG_Write24BitFlag_def Let_def conveys_Inr)
  next
    case one
    then obtain k where k: "k < 32" "i = int k" "take_bit 32 ?x = 2 ^ k" by (rule one_bit)
    have "take_bit 32 ?x = uint (t XOR f)"
    proof (rule bit_eqI)
      fix n show "bit (take_bit 32 ?x) n = bit (uint (t XOR f)) n"
        by (cases "n < 32") (simp_all add: bit_take_bit_iff bit_xor_iff bit_sint32 bit_uint_iff)
    qed
    then have "bit (uint (t XOR f)) j = bit ((2::int) ^ k) j" for j using k by simp
    then have "t XOR f = push_bit k 1"
      using k(1) by (intro bit_word_eqI) (auto simp: bit_uint_iff bit_exp_iff bit_push_bit_iff bit_1_iff)
    then have "bit (f XOR push_bit k 1) j = bit t j" for j
      by (metis xor.assoc xor.commute xor_self_eq xor.right_neutral)
    then have s: "take_bit 24 (c XOR push_bit k 1) = take_bit 24 t"
      using cf by (intro bit_word_eqI) (auto simp: bit_take_bit_iff bit_xor_iff)
    have "take_bit 5 i = i" using k by (intro take_bit_int_eq_self) simp_all
    then have "transmits (do { i \<leftarrow> read_bits 5; State_Monad.return (c XOR push_bit (nat i) 1) }) (MSG_WriteBits i 5)
        (c XOR push_bit k 1)"
      using transmits_last [OF few_bits_transmit [of 5 i], of "\<lambda>i. c XOR push_bit (nat i) 1"] k(2) by simp
    then have "transmits (read_flags c) (\<lambda>m. MSG_WriteBits i 5 (MSG_WriteBit0 m)) (c XOR push_bit k 1)"
      unfolding read_flags_def by (rule bit_then(1))
    then show ?thesis using one s
      by (intro exI [of _ "c XOR push_bit k 1"]) (simp add: MSG_Write24BitFlag_def Let_def conveys_Inr)
  next
    case none
    then show ?thesis by (intro exI [of _ t]) (simp add: MSG_Write24BitFlag_def Let_def conveys_def)
  qed
qed

lemma flags_written: "f \<noteq> (t :: 32 word) \<Longrightarrow> MSG_Write24BitFlag (sint f) (sint t) m \<noteq> None"
proof -
  assume "f \<noteq> t"
  then have "sint f \<noteq> sint t" by (auto intro: signed_word_eqI)
  moreover have "sint t XOR sint f = s32 (uint (t XOR f))"
    by (rule bit_eqI) (auto simp: s32_def bit_simps)
  then have "int_range (sint t XOR sint f)" using s32_range by (simp add: int_range_def)
  ultimately show ?thesis using MSG_Write24BitFlag_terminates by blast
qed

text \<open>Coordinates: both writers are the same for the three axes.\<close>

definition write_origin :: "snapenv \<Rightarrow> nat \<Rightarrow> 32 word \<Rightarrow> 32 word \<Rightarrow> msg \<Rightarrow> msg" where
  "write_origin e k t f m =
     (let delta = s32 (fp_round e t - fp_round e f); base = map_center e k in
      if u32 (delta + 64) > 127
      then MSG_WriteBits ((fp_round e t - base + 0x8000) XOR (fp_round e f - base + 0x8000)) 16 (MSG_WriteBit1 m)
      else MSG_WriteBits (delta + 64) 7 (MSG_WriteBit0 m))"

lemma write_origin_axes:
  "MSG_WriteOriginFloat e (-92) t f = write_origin e 0 t f" "MSG_WriteOriginFloat e (-91) t f = write_origin e 1 t f"
  "MSG_WriteOriginZFloat e t f = write_origin e 2 t f"
  by (simp_all add: fun_eq_iff MSG_WriteOriginFloat_def MSG_WriteOriginZFloat_def write_origin_def Let_def)

lemma take_bit_cong_add: "take_bit n a = take_bit n (b :: int) \<Longrightarrow> take_bit n (a + x) = take_bit n (b + x)"
  by (metis take_bit_add)

lemma origin_near_round:
  assumes "arith_ok e d"
  shows "take_bit 16 (fp_round e (origin_near e k y)) = take_bit 16 (y + map_center e k - 0x8000)"
proof -
  let ?y = "take_bit 16 y" and ?c = "map_center e k"
  have "\<bar>?c\<bar> \<le> 1048576" using assms by (simp add: arith_ok_def)
  moreover have "0 \<le> ?y" "?y < 65536" using take_bit_int_less_exp [of 16 y] by simp_all
  ultimately have "\<bar>?c - 0x8000 + ?y\<bar> \<le> 4194304" by linarith
  then have "fp_round e (origin_near e k y) = ?y + (?c - 0x8000)"
    using assms by (simp add: origin_near_def arith_ok_def)
  moreover have "take_bit 16 (?y + (?c - 0x8000)) = take_bit 16 (y + (?c - 0x8000))"
    by (rule take_bit_cong_add) simp
  moreover have "y + (?c - 0x8000) = y + ?c - 0x8000" by simp
  ultimately show ?thesis by (simp only:)
qed

lemma s32_take_bit: "n \<le> 32 \<Longrightarrow> take_bit n (s32 x) = take_bit n x"
proof -
  assume n: "n \<le> 32"
  have "take_bit 32 (s32 x) = take_bit 32 x" using s32_cong [of x] by (simp add: take_bit_eq_mod)
  then have "take_bit n (take_bit 32 (s32 x)) = take_bit n (take_bit 32 x)" by simp
  then show ?thesis using n by (simp add: min_def)
qed

lemma origin_transmits:
  assumes "arith_ok e d" "take_bit 16 (fp_round e c) = take_bit 16 (fp_round e f)"
  shows "\<exists>w. transmits (read_origin e k c) (write_origin e k t f) w \<and>
    take_bit 16 (fp_round e w) = take_bit 16 (fp_round e t)"
proof -
  let ?t = "fp_round e t" and ?f = "fp_round e f" and ?r = "fp_round e c" and ?b = "0x8000 - map_center e k"
  let ?d = "s32 (?t - ?f)"
  show ?thesis
  proof (cases "u32 (?d + 64) > 127")
    case True
    let ?x = "take_bit 16 ((?t + ?b) XOR (?f + ?b)) XOR (?r + ?b)"
    have "take_bit 16 (?r + ?b) = take_bit 16 (?f + ?b)" by (rule take_bit_cong_add [OF assms(2)])
    then have "take_bit 16 ?x = take_bit 16 ((?t + ?b) XOR (?f + ?b) XOR (?f + ?b))" by (simp add: xor.assoc)
    also have "(?t + ?b) XOR (?f + ?b) XOR (?f + ?b) = ?t + ?b" by (simp add: xor.assoc)
    finally have "take_bit 16 (?x + (- ?b)) = take_bit 16 (?t + ?b + (- ?b))" by (rule take_bit_cong_add)
    moreover have "?x + (- ?b) = ?x + map_center e k - 0x8000" "?t + ?b + (- ?b) = ?t" by simp_all
    ultimately have v: "take_bit 16 (fp_round e (origin_near e k ?x)) = take_bit 16 ?t"
      using origin_near_round [OF assms(1), of k ?x] by (simp only:)
    have w: "write_origin e k t f = (\<lambda>m. MSG_WriteBits ((?t + ?b) XOR (?f + ?b)) 16 (MSG_WriteBit1 m))"
      using True by (simp add: fun_eq_iff write_origin_def Let_def algebra_simps)
    have "transmits (do { x \<leftarrow> read_bits 16; State_Monad.return (origin_near e k (x XOR (?r - map_center e k + 0x8000))) })
        (MSG_WriteBits ((?t + ?b) XOR (?f + ?b)) 16)
        (origin_near e k (take_bit 16 ((?t + ?b) XOR (?f + ?b)) XOR (?r - map_center e k + 0x8000)))"
      by (rule transmits_last) (rule few_bits_transmit, simp)
    then have "transmits (read_origin e k c) (write_origin e k t f)
        (origin_near e k (take_bit 16 ((?t + ?b) XOR (?f + ?b)) XOR (?r - map_center e k + 0x8000)))"
      unfolding read_origin_def w Let_def by (rule bit_then(2))
    then show ?thesis using v by (auto simp: algebra_simps)
  next
    case False
    let ?x = "?r - map_center e k + 0x8000 + take_bit 7 (?d + 64) - 64"
    have "u32 (?d + 64) = ?d + 64" "0 \<le> ?d + 64" "?d + 64 < 128"
    proof -
      have r: "- (2 ^ 31) \<le> ?d" "?d < 2 ^ 31" using s32_range [of "?t - ?f"] by simp_all
      have "?d + 64 \<ge> 0"
      proof (rule ccontr)
        assume n: "\<not> ?d + 64 \<ge> 0"
        then have "(?d + 64 + 2 ^ 32) mod 2 ^ 32 = ?d + 64 + 2 ^ 32" using r by (intro mod_pos_pos_trivial) simp_all
        then show False using False n r unfolding u32_def mod_add_self2 by simp
      qed
      then show "u32 (?d + 64) = ?d + 64" "0 \<le> ?d + 64" using r by (simp_all add: u32_def)
      then show "?d + 64 < 128" using False by simp
    qed
    then have x: "take_bit 7 (?d + 64) = ?d + 64" by (intro take_bit_int_eq_self) simp_all
    have "take_bit 16 (?r + ?d) = take_bit 16 (?f + ?d)" by (rule take_bit_cong_add [OF assms(2)])
    also have "\<dots> = take_bit 16 (?d + ?f)" by (simp add: add.commute)
    also have "\<dots> = take_bit 16 (?t - ?f + ?f)" by (rule take_bit_cong_add) (simp add: s32_take_bit)
    finally have v: "take_bit 16 (fp_round e (origin_near e k ?x)) = take_bit 16 ?t"
      using origin_near_round [OF assms(1), of k ?x] by (simp add: x)
    have w: "write_origin e k t f = (\<lambda>m. MSG_WriteBits (?d + 64) 7 (MSG_WriteBit0 m))"
      using False by (simp add: fun_eq_iff write_origin_def Let_def)
    have "transmits (do { x \<leftarrow> read_bits 7; State_Monad.return (origin_near e k (?r - map_center e k + 0x8000 + x - 64)) })
        (MSG_WriteBits (?d + 64) 7) (origin_near e k ?x)"
      by (rule transmits_last) (rule few_bits_transmit, simp)
    then have "transmits (read_origin e k c) (write_origin e k t f) (origin_near e k ?x)"
      unfolding read_origin_def w Let_def by (rule bit_then(1))
    then show ?thesis using v by blast
  qed
qed

text \<open>Numbers in the bits that the table reserves.\<close>

lemma take_bit_split: "take_bit r x + 2 ^ r * take_bit q (x div 2 ^ r) = take_bit (r + q) (x :: int)"
  using zmod_zmult2_eq [of "2 ^ q" x "2 ^ r"] by (simp add: take_bit_eq_mod power_add)

lemma bytes_of_transmits: "transmits (read_bytes_of k) (write_bytes_of k x) (take_bit (8 * k) x)"
proof (induction k arbitrary: x)
  case 0
  have "write_bytes_of 0 x = (\<lambda>m. m)" by (simp add: fun_eq_iff)
  then show ?case using transmits_return [of "0 :: int"] by simp
next
  case (Suc k)
  have w: "write_bytes_of (Suc k) x = (\<lambda>m. write_bytes_of k (x div 256) (MSG_WriteByte x m))"
    by (simp add: fun_eq_iff)
  have "x mod 256 + 256 * take_bit (8 * k) (x div 256) = take_bit (8 * Suc k) x"
    using take_bit_split [of 8 x "8 * k"] by (simp add: take_bit_eq_mod)
  moreover have "transmits (read_bytes_of (Suc k)) (write_bytes_of (Suc k) x)
      (x mod 256 + 256 * take_bit (8 * k) (x div 256))"
    unfolding w read_bytes_of.simps
    by (rule transmits_bind [where V = "MSG_WriteByte x"], rule writes_transmit, rule transmits_last, rule Suc.IH)
  ultimately show ?case by (simp only:)
qed

lemma unplain_seen:
  assumes "take_bit n c = take_bit n f"
  shows "take_bit n (unplain n c (take_bit n (sint (t XOR f)))) = take_bit n t"
proof (rule bit_word_eqI)
  fix j assume j: "j < LENGTH(32)"
  have "bit c j = bit f j" if "j < n" using arg_cong [OF assms, of "\<lambda>w. bit w j"] that by (simp add: bit_take_bit_iff)
  then show "bit (take_bit n (unplain n c (take_bit n (sint (t XOR f))))) j = bit (take_bit n t) j"
    using j by (auto simp: unplain_def bit_take_bit_iff bit_word_of_int_iff bit_xor_iff bit_uint_iff bit_sint32)
qed

lemma plain_transmits:
  assumes "take_bit (nat \<bar>b\<bar>) c = take_bit (nat \<bar>b\<bar>) f"
  shows "\<exists>w. transmits (read_plain b c) (write_plain b f t) w \<and> take_bit (nat \<bar>b\<bar>) w = take_bit (nat \<bar>b\<bar>) t"
proof (cases "t = 0")
  case True
  have "transmits (read_plain b c) (write_plain b f t) 0"
    unfolding read_plain_def write_plain_def [abs_def] Let_def using True by (simp add: bit_last(1))
  with True show ?thesis by blast
next
  case False
  let ?n = "nat \<bar>b\<bar>" and ?x = "sint (t XOR f)"
  let ?r = "?n mod 8"
  have "transmits (read_plain b c) (write_plain b f t) (unplain ?n c (take_bit ?n ?x))"
  proof (cases "?r = 0")
    case True
    then have n: "8 * (?n div 8) = ?n" using mult_div_mod_eq [of 8 ?n] by simp
    have w: "write_plain b f t = (\<lambda>m. write_bytes_of (?n div 8) ?x (MSG_WriteBit1 m))"
      using False True by (simp add: write_plain_def [abs_def] Let_def)
    have "transmits (do { hi \<leftarrow> read_bytes_of (?n div 8); State_Monad.return (unplain ?n c hi) })
        (write_bytes_of (?n div 8) ?x) (unplain ?n c (take_bit (8 * (?n div 8)) ?x))"
      by (rule transmits_last) (rule bytes_of_transmits)
    then show ?thesis unfolding read_plain_def w Let_def n using True by (intro bit_then(2)) simp
  next
    case r: False
    have n: "?r + 8 * (?n div 8) = ?n" using mult_div_mod_eq [of 8 ?n] by simp
    have w: "write_plain b f t = (\<lambda>m. write_bytes_of (?n div 8) (?x div 2 ^ ?r) (MSG_WriteBits ?x ?r (MSG_WriteBit1 m)))"
      using False r by (simp add: write_plain_def [abs_def] Let_def)
    have "?r < 32" by (rule less_trans [of _ 8]) simp_all
    then have "transmits (do { lo \<leftarrow> read_bits ?r; hi \<leftarrow> read_bytes_of (?n div 8);
          State_Monad.return (unplain ?n c (lo + 2 ^ ?r * hi)) })
        (\<lambda>m. write_bytes_of (?n div 8) (?x div 2 ^ ?r) (MSG_WriteBits ?x ?r m))
        (unplain ?n c (take_bit ?r ?x + 2 ^ ?r * take_bit (8 * (?n div 8)) (?x div 2 ^ ?r)))"
      by (rule transmits_bind [where V = "MSG_WriteBits ?x ?r", OF few_bits_transmit])
        (rule transmits_last, rule bytes_of_transmits)
    then have "transmits (do { lo \<leftarrow> read_bits ?r; hi \<leftarrow> read_bytes_of (?n div 8);
          State_Monad.return (unplain ?n c (lo + 2 ^ ?r * hi)) })
        (\<lambda>m. write_bytes_of (?n div 8) (?x div 2 ^ ?r) (MSG_WriteBits ?x ?r m)) (unplain ?n c (take_bit ?n ?x))"
      unfolding take_bit_split n .
    then show ?thesis unfolding read_plain_def w Let_def using r by (intro bit_then(2)) simp
  qed
  then show ?thesis using unplain_seen [OF assms] by blast
qed

section \<open>Every coding\<close>

lemma byte_transmits:
  "\<exists>w. transmits (do { x \<leftarrow> read_byte; State_Monad.return (word_of_int x) }) (MSG_WriteByte (sint t)) w \<and>
     take_bit 8 w = take_bit 8 (t :: 32 word)"
proof -
  have "transmits (do { x \<leftarrow> read_byte; State_Monad.return (word_of_int x) }) (MSG_WriteByte (sint t))
      (word_of_int (take_bit 8 (sint t)) :: 32 word)"
    using transmits_last [OF writes_transmit(3) [of "sint t"], of word_of_int] by (simp add: take_bit_eq_mod)
  moreover have "take_bit 8 (word_of_int (take_bit 8 (sint t)) :: 32 word) = take_bit 8 t"
    by (rule bit_word_eqI) (auto simp: bit_take_bit_iff bit_word_of_int_iff bit_sint32)
  ultimately show ?thesis by blast
qed

lemma hundredth_transmits:
  "\<exists>w. transmits (do { x \<leftarrow> read_bits 7; State_Monad.return (word_of_int (100 * x)) })
       (MSG_WriteBits (uint t div 100) 7) w \<and> take_bit 7 (uint (w :: 32 word) div 100) = take_bit 7 (uint t div 100)"
proof -
  let ?k = "take_bit 7 (uint t div 100)"
  have "transmits (do { x \<leftarrow> read_bits 7; State_Monad.return (word_of_int (100 * x)) })
      (MSG_WriteBits (uint t div 100) 7) (word_of_int (100 * ?k) :: 32 word)"
    by (rule transmits_last) (rule few_bits_transmit, simp)
  moreover have k: "0 \<le> ?k" "?k < 128" using take_bit_int_less_exp [of 7 "uint t div 100"] by simp_all
  then have "uint (word_of_int (100 * ?k) :: 32 word) = 100 * ?k"
    unfolding uint_word_of_int by (intro mod_pos_pos_trivial) simp_all
  then have "take_bit 7 (uint (word_of_int (100 * ?k) :: 32 word) div 100) = ?k" by simp
  ultimately show ?thesis by blast
qed

lemma payload_exact:
  assumes "arith_ok e d" "b \<in> {0, -88, -89, -97, -99}"
  shows "conveys (read_payload e d time b f) (write_payload e time b f t) t"
  using assms(2) float_transmits [OF assms(1)] float89_transmits [OF assms(1)] float99_transmits [OF assms(1)]
    long_xor_transmits time_transmits
  by (auto simp: read_payload_def write_payload_def [abs_def] intro!: conveys_Inr)

lemma payload_case:
  assumes "\<exists>w. transmits D W w \<and> R w" "read_payload e d time b c = D"
    "write_payload e time b f t = (\<lambda>m. Inr (W m))" "\<And>w. R w \<Longrightarrow> sees e b w t"
  shows "\<exists>w. conveys (read_payload e d time b c) (write_payload e time b f t) w \<and> sees e b w t"
proof -
  obtain w where "transmits D W w" "R w" using assms(1) by blast
  then show ?thesis unfolding assms(2,3) using assms(4) by (intro exI [of _ w] conjI conveys_Inr)
qed

lemmas payload_defs = read_payload_def write_payload_def [abs_def] sees_def

lemma payload_lossy:
  assumes "arith_ok e d" "sees e b c f"
  shows "b \<in> {-87, -100, -86} \<Longrightarrow>
      \<exists>w. conveys (read_payload e d time b c) (write_payload e time b f t) w \<and> sees e b w t"
    "b \<in> {-93, -94, -95, -96} \<Longrightarrow>
      \<exists>w. conveys (read_payload e d time b c) (write_payload e time b f t) w \<and> sees e b w t"
    "b \<in> {-90, -91, -92} \<Longrightarrow>
      \<exists>w. conveys (read_payload e d time b c) (write_payload e time b f t) w \<and> sees e b w t"
    "b = -85 \<Longrightarrow>
      \<exists>w. conveys (read_payload e d time b c) (write_payload e time b f t) w \<and> sees e b w t"
proof -
  assume "b \<in> {-87, -100, -86}"
  then consider "b = -87" | "b = -100" | "b = -86" by blast
  then show "\<exists>w. conveys (read_payload e d time b c) (write_payload e time b f t) w \<and> sees e b w t"
  proof cases
    case 1
    show ?thesis by (rule payload_case [OF angle_transmits [OF assms(1)]]) (simp_all add: 1 payload_defs)
  next
    case 2
    show ?thesis by (rule payload_case [OF angle_or_zero_transmits [OF assms(1)]]) (simp_all add: 2 payload_defs)
  next
    case 3
    show ?thesis by (rule payload_case [OF scale_transmits [OF assms(1)]]) (simp_all add: 3 payload_defs)
  qed
next
  assume "b \<in> {-93, -94, -95, -96}"
  then consider "b = -93 \<or> b = -94" | "b = -95" | "b = -96" by blast
  then show "\<exists>w. conveys (read_payload e d time b c) (write_payload e time b f t) w \<and> sees e b w t"
  proof cases
    case 1
    show ?thesis by (rule payload_case [OF byte_transmits]) (use 1 in \<open>auto simp: payload_defs\<close>)
  next
    case 2
    show ?thesis by (rule payload_case [OF hundredth_transmits]) (simp_all add: 2 payload_defs)
  next
    case 3
    show ?thesis by (rule payload_case [OF ground_transmits]) (simp_all add: 3 payload_defs)
  qed
next
  assume b: "b \<in> {-90, -91, -92}"
  then have o: "take_bit 16 (fp_round e c) = take_bit 16 (fp_round e f)"
    using assms(2) by (auto simp: sees_def)
  from b consider "b = -90" | "b = -91" | "b = -92" by blast
  then show "\<exists>w. conveys (read_payload e d time b c) (write_payload e time b f t) w \<and> sees e b w t"
  proof cases
    case 1
    show ?thesis by (rule payload_case [OF origin_transmits [OF assms(1) o, of 2]])
      (simp_all add: 1 payload_defs write_origin_axes)
  next
    case 2
    show ?thesis by (rule payload_case [OF origin_transmits [OF assms(1) o, of 1]])
      (simp_all add: 2 payload_defs write_origin_axes)
  next
    case 3
    show ?thesis by (rule payload_case [OF origin_transmits [OF assms(1) o, of 0]])
      (simp_all add: 3 payload_defs write_origin_axes)
  qed
next
  assume b: "b = -85"
  with assms(2) have "sees e (-85) c f" by simp
  then show "\<exists>w. conveys (read_payload e d time b c) (write_payload e time b f t) w \<and> sees e b w t"
    by (rule payload_case [OF color_transmits]) (simp_all add: b read_payload_def write_payload_def [abs_def])
qed

definition special_codings :: "int set" where
  "special_codings = {0, -85, -86, -87, -88, -89, -90, -91, -92, -93, -94, -95, -96, -97, -98, -99, -100}"

text \<open>
  Whatever the coding: a reader whose word stands for the server's old word ends with a word that
  stands for the new one.
\<close>

theorem payload_conveys:
  assumes "arith_ok e d" "sees e b c f"
  shows "\<exists>w. conveys (read_payload e d time b c) (write_payload e time b f t) w \<and> sees e b w t"
proof -
  consider "b \<in> {0, -88, -89, -97, -99}" | "b \<in> {-87, -100, -86}" | "b \<in> {-93, -94, -95, -96}"
    | "b \<in> {-90, -91, -92}" | "b = -85" | "b = -98" | "b \<notin> special_codings"
    by (auto simp: special_codings_def)
  then show ?thesis
  proof cases
    case 1
    then have "c = f" using assms(2) by (auto simp: sees_def)
    then show ?thesis using payload_exact [OF assms(1) 1] by (intro exI [of _ t]) simp
  next
    case 6
    then have "take_bit 24 c = take_bit 24 f" using assms(2) by (simp add: sees_def)
    from flags_conveys [OF this, of t] show ?thesis using 6 by (auto simp: payload_defs)
  next
    case 7
    then have "take_bit (nat \<bar>b\<bar>) c = take_bit (nat \<bar>b\<bar>) f"
      using assms(2) by (simp add: special_codings_def sees_def)
    from plain_transmits [OF this] show ?thesis
      by (rule payload_case) (use 7 in \<open>simp_all add: special_codings_def payload_defs\<close>)
  qed (use payload_lossy [OF assms] in blast)+
qed

end
