(* ===== verification/SnapStruct.thy ===== *)
theory SnapStruct
  imports SnapRead
begin

text \<open>
  Structures in a snapshot: reading the fields of a table, what a field left out means, and the
  entities, whose table is known only after the first field.  The client's copy \<open>sees_struct\<close> the
  server's structure when every word of the table stands for the server's word.
\<close>

section \<open>Tables\<close>

definition table_ok :: "netField list \<Rightarrow> bool" where
  "table_ok fs \<longleftrightarrow> distinct (map offset fs) \<and> 0 \<notin> set (map offset fs) \<and> length fs < 2 ^ 10 \<and>
     list_all (\<lambda>f. bits f \<noteq> -95 \<and> (bits f = -98 \<longrightarrow> changeHints f \<noteq> 2)) fs"

definition entity_table_ok :: "netField list \<Rightarrow> bool" where
  "entity_table_ok fs \<longleftrightarrow> table_ok fs \<and> fs \<noteq> [] \<and> offset (hd fs) = 4 \<and> bits (hd fs) = 8 \<and>
     changeHints (hd fs) \<noteq> 2 \<and> GetMinBitCount (length fs) = 6"

definition sees_struct :: "snapenv \<Rightarrow> netField list \<Rightarrow> cstruct \<Rightarrow> cstruct \<Rightarrow> bool" where
  "sees_struct e fs c s \<longleftrightarrow> c 0 = s 0 \<and> (\<forall>f \<in> set fs. sees e (bits f) (c (offset f)) (s (offset f)))"

lemma count_six:
  assumes "32 \<le> n" "n < 64"
  shows "GetMinBitCount n = 6"
proof (rule antisym)
  show "GetMinBitCount n \<le> 6" using assms by (intro GetMinBitCount_least) simp
  show "6 \<le> GetMinBitCount n"
  proof (rule ccontr)
    assume "\<not> 6 \<le> GetMinBitCount n"
    then have "GetMinBitCount n \<le> 5" by simp
    then have "(2::nat) ^ GetMinBitCount n \<le> 2 ^ 5" by (rule power_increasing) simp
    then show False using GetMinBitCount_bound [of n] assms(1) by simp
  qed
qed

lemmas entity_tables_def = entityStateFields_def playerEntityStateFields_def corpseEntityStateFields_def
  itemEntityStateFields_def missleEntityStateFields_def scriptMoverStateFields_def
  soundBlendEntityStateFields_def fxStateFields_def loopFxEntityStateFields_def
  helicopterEntityStateFields_def planeStateFields_def vehicleEntityStateFields_def eventEntityStateFields_def

lemma entity_table_okI:
  assumes "distinct (map offset fs)" "0 \<notin> set (map offset fs)" "32 \<le> length fs" "length fs < 64"
    "list_all (\<lambda>f. bits f \<noteq> -95 \<and> (bits f = -98 \<longrightarrow> changeHints f \<noteq> 2)) fs"
    "offset (hd fs) = 4" "bits (hd fs) = 8" "changeHints (hd fs) \<noteq> 2"
  shows "entity_table_ok fs"
  using assms count_six [of "length fs"] by (auto simp: entity_table_ok_def table_ok_def)

lemma tables_ok:
  "entity_table_ok entityStateFields" "entity_table_ok playerEntityStateFields"
  "entity_table_ok corpseEntityStateFields" "entity_table_ok itemEntityStateFields"
  "entity_table_ok missleEntityStateFields" "entity_table_ok scriptMoverStateFields"
  "entity_table_ok soundBlendEntityStateFields" "entity_table_ok fxStateFields"
  "entity_table_ok loopFxEntityStateFields" "entity_table_ok helicopterEntityStateFields"
  "entity_table_ok planeStateFields" "entity_table_ok vehicleEntityStateFields"
  "entity_table_ok eventEntityStateFields"
  by (rule entity_table_okI; simp add: entity_tables_def)+

lemma netFieldList_ok: "k < 18 \<Longrightarrow> entity_table_ok (netFieldList ! k)"
proof -
  assume "k < 18"
  then have "netFieldList ! k \<in> set netFieldList" by (intro nth_mem) (simp add: netFieldList_def)
  then show ?thesis by (auto simp: netFieldList_def tables_ok)
qed

lemma client_table_ok: "table_ok clientStateFields"
  by (simp add: table_ok_def clientStateFields_def)

section \<open>Fields\<close>

text \<open>\<open>base\<close> is the client's copy of the old structure.\<close>

definition read_word :: "snapenv \<Rightarrow> decoder \<Rightarrow> int \<Rightarrow> netField \<Rightarrow> cstruct \<Rightarrow> 32 word reader" where
  "read_word e d time f base =
     (if changeHints f \<noteq> 2
      then do { z \<leftarrow> read_bit; if z = 0 then State_Monad.return (base (offset f))
                else read_payload e d time (bits f) (base (offset f)) }
      else read_payload e d time (bits f) (base (offset f)))"

primrec read_words :: "snapenv \<Rightarrow> decoder \<Rightarrow> int \<Rightarrow> cstruct \<Rightarrow> netField list \<Rightarrow> cstruct \<Rightarrow> cstruct reader" where
  "read_words e d time base [] cur = State_Monad.return cur"
| "read_words e d time base (f # fs) cur =
     do { w \<leftarrow> read_word e d time f base; read_words e d time base fs (cur(offset f := w)) }"

text \<open>A field that is left out is one whose words are equal for the writer.\<close>

lemma unsent_seen:
  assumes "MSG_ValuesAreEqual e b f t" "sees e b c f" "b \<noteq> -95"
  shows "sees e b c t"
proof (cases "f = t")
  case True
  then show ?thesis using assms(2) by simp
next
  case False
  show ?thesis
  proof (cases "b = -100 \<or> b = -87")
    case True
    then have "s16 (ANGLE2SHORT e t) = s16 (ANGLE2SHORT e f)"
      using assms(1) False by (elim disjE) (simp_all add: MSG_ValuesAreEqual_def)
    then have "ANGLE2SHORT e t mod 65536 = ANGLE2SHORT e f mod 65536" by (metis s16_mod_word)
    then have "ANGLE2SHORT e t = ANGLE2SHORT e f"
      using mod_pos_pos_trivial [OF ANGLE2SHORT_range, of e t] mod_pos_pos_trivial [OF ANGLE2SHORT_range, of e f]
      by (simp only:)
    then show ?thesis using assms(2) True by (elim disjE) (simp_all add: sees_def)
  next
    case no_angle: False
    have "b + 100 = 8 \<or> b + 100 = 9 \<or> b + 100 = 10"
    proof (rule ccontr)
      assume "\<not> (b + 100 = 8 \<or> b + 100 = 9 \<or> b + 100 = 10)"
      moreover have "b + 100 \<noteq> 0" "b + 100 \<noteq> 13" "b + 100 \<noteq> 5" using no_angle assms(3) by linarith+
      ultimately have "\<not> MSG_ValuesAreEqual e b f t"
        unfolding MSG_ValuesAreEqual_def Let_def using False by (simp only: if_False simp_thms)
      then show False using assms(1) by blast
    qed
    then have "b = -90 \<or> b = -91 \<or> b = -92" by linarith
    moreover from this have "fp_round e f = fp_round e t"
      using assms(1) False by (elim disjE) (simp_all add: MSG_ValuesAreEqual_def)
    ultimately show ?thesis using assms(2) by (elim disjE) (simp_all add: sees_def)
  qed
qed

lemma bit_then_conveys:
  "conveys (do { z \<leftarrow> read_bit; if z = 0 then State_Monad.return w else B }) (\<lambda>m. Inr (MSG_WriteBit0 m)) w"
  "conveys B W w \<Longrightarrow> conveys (do { z \<leftarrow> read_bit; if z = 0 then A else B }) (\<lambda>m. W (MSG_WriteBit1 m)) w"
proof -
  show "conveys (do { z \<leftarrow> read_bit; if z = 0 then State_Monad.return w else B }) (\<lambda>m. Inr (MSG_WriteBit0 m)) w"
    by (rule conveys_Inr) (rule bit_last(1))
  assume "conveys B W w"
  then show "conveys (do { z \<leftarrow> read_bit; if z = 0 then A else B }) (\<lambda>m. W (MSG_WriteBit1 m)) w"
    by (intro conveys_after [OF writes_transmit(2), where W = W]) simp
qed

lemma field_conveys:
  assumes "arith_ok e d" "sees e (bits f) (base (offset f)) (from (offset f))" "bits f \<noteq> -95"
  shows "\<exists>w. conveys (read_word e d time f base) (MSG_WriteDeltaField e time from to f False) w \<and>
    sees e (bits f) w (to (offset f))"
proof -
  let ?f = "from (offset f)" and ?t = "to (offset f)" and ?c = "base (offset f)"
  obtain w where w: "conveys (read_payload e d time (bits f) ?c) (write_payload e time (bits f) ?f ?t) w"
    "sees e (bits f) w ?t"
    using payload_conveys [OF assms(1,2)] by blast
  consider "changeHints f = 2" | "changeHints f \<noteq> 2" "MSG_ValuesAreEqual e (bits f) ?f ?t"
    | "changeHints f \<noteq> 2" "\<not> MSG_ValuesAreEqual e (bits f) ?f ?t" by blast
  then show ?thesis
  proof cases
    case 1
    then have "MSG_WriteDeltaField e time from to f False = write_payload e time (bits f) ?f ?t"
      by (simp add: fun_eq_iff MSG_WriteDeltaField_def Let_def)
    then show ?thesis using w 1 by (intro exI [of _ w]) (simp add: read_word_def)
  next
    case 2
    then have m: "MSG_WriteDeltaField e time from to f False = (\<lambda>m. Inr (MSG_WriteBit0 m))"
      by (simp add: fun_eq_iff MSG_WriteDeltaField_def Let_def)
    have "conveys (read_word e d time f base) (MSG_WriteDeltaField e time from to f False) ?c"
      unfolding m read_word_def using 2 by (simp add: bit_then_conveys(1))
    then show ?thesis using unsent_seen [OF 2(2) assms(2,3)] by blast
  next
    case 3
    then have m: "MSG_WriteDeltaField e time from to f False =
        (\<lambda>m. write_payload e time (bits f) ?f ?t (MSG_WriteBit1 m))"
      by (simp add: fun_eq_iff MSG_WriteDeltaField_def Let_def)
    have "conveys (read_word e d time f base) (MSG_WriteDeltaField e time from to f False) w"
      unfolding m read_word_def using 3 by (simp add: bit_then_conveys(2) [OF w(1)])
    then show ?thesis using w(2) by blast
  qed
qed

lemma fields_convey:
  assumes "arith_ok e d" "distinct (map offset fs)" "\<forall>f \<in> set fs. bits f \<noteq> -95"
    "\<forall>f \<in> set fs. sees e (bits f) (base (offset f)) (from (offset f))"
  shows "\<exists>new. conveys (read_words e d time base fs cur) (write_fields e time from to fs) new \<and>
    (\<forall>f \<in> set fs. sees e (bits f) (new (offset f)) (to (offset f))) \<and>
    (\<forall>k. k \<notin> offset ` set fs \<longrightarrow> new k = cur k)"
  using assms(2-)
proof (induction fs arbitrary: cur)
  case Nil
  have "write_fields e time from to [] = (\<lambda>m. Inr m)" by (simp add: fun_eq_iff)
  then show ?case using conveys_Inr [OF transmits_return, of cur] by auto
next
  case (Cons f fs)
  obtain w where w: "conveys (read_word e d time f base) (MSG_WriteDeltaField e time from to f False) w"
    "sees e (bits f) w (to (offset f))"
    using field_conveys [OF assms(1), of f base "from" time to] Cons.prems by auto
  have p: "distinct (map offset fs)" "\<forall>f \<in> set fs. bits f \<noteq> -95"
    "\<forall>f \<in> set fs. sees e (bits f) (base (offset f)) (from (offset f))"
    using Cons.prems by simp_all
  obtain new where new: "conveys (read_words e d time base fs (cur(offset f := w))) (write_fields e time from to fs) new"
    "\<forall>f \<in> set fs. sees e (bits f) (new (offset f)) (to (offset f))"
    "\<forall>k. k \<notin> offset ` set fs \<longrightarrow> new k = (cur(offset f := w)) k"
    using Cons.IH [OF p, of "cur(offset f := w)"] by blast
  have "write_fields e time from to (f # fs) =
      (\<lambda>m. case MSG_WriteDeltaField e time from to f False m of Inl x \<Rightarrow> Inl x | Inr m1 \<Rightarrow> write_fields e time from to fs m1)"
    by (simp add: fun_eq_iff and_then_def)
  then have "conveys (read_words e d time base (f # fs) cur) (write_fields e time from to (f # fs)) new"
    using conveys_bind [where E = "\<lambda>w. read_words e d time base fs (cur(offset f := w))", OF w(1) new(1)] by simp
  moreover have "offset f \<notin> offset ` set fs" using Cons.prems(1) by simp
  then have "new (offset f) = w" using new(3) by simp
  then have "\<forall>g \<in> set (f # fs). sees e (bits g) (new (offset g)) (to (offset g))" using new(2) w(2) by simp
  moreover have "\<forall>k. k \<notin> offset ` set (f # fs) \<longrightarrow> new k = cur k" using new(3) by simp
  ultimately show ?case by blast
qed

text \<open>Writing the fields of a good table ends.\<close>

lemma payload_written:
  assumes "b = -98 \<Longrightarrow> f \<noteq> t"
  obtains m1 where "write_payload e time b f t m = Inr m1"
proof (cases "b = -98")
  case True
  then have "MSG_Write24BitFlag (sint f) (sint t) m \<noteq> None" using assms flags_written by blast
  then obtain m1 where "MSG_Write24BitFlag (sint f) (sint t) m = Some m1" by blast
  then show ?thesis using True that by (simp add: write_payload_def)
next
  case False
  then have "isl (write_payload e time b f t m) = False" by (simp add: write_payload_def)
  then show ?thesis using that by (cases "write_payload e time b f t m") auto
qed

lemma fields_written:
  assumes "list_all (\<lambda>f. bits f = -98 \<longrightarrow> changeHints f \<noteq> 2) fs"
  shows "\<exists>m1. write_fields e time from to fs m = Inr m1"
  using assms
proof (induction fs arbitrary: m)
  case Nil
  then show ?case by simp
next
  case (Cons f fs)
  have "\<exists>m1. MSG_WriteDeltaField e time from to f False m = Inr m1"
  proof (cases "changeHints f \<noteq> 2 \<and> MSG_ValuesAreEqual e (bits f) (from (offset f)) (to (offset f))")
    case True
    then show ?thesis by (simp add: MSG_WriteDeltaField_def Let_def)
  next
    case False
    have d: "from (offset f) \<noteq> to (offset f)" if "bits f = -98"
      using that False Cons.prems by (auto simp: MSG_ValuesAreEqual_def)
    show ?thesis
    proof (cases "changeHints f = 2")
      case True
      then show ?thesis using payload_written [OF d, where e = e and time = time and m = m] by (simp add: MSG_WriteDeltaField_def Let_def) metis
    next
      case h: False
      then show ?thesis using False payload_written [OF d, where e = e and time = time and m = "MSG_WriteBit1 m"]
        by (simp add: MSG_WriteDeltaField_def Let_def) metis
    qed
  qed
  then show ?case using Cons by auto
qed

section \<open>Structures\<close>

lemma last_changed_cases:
  "last_changed e from to i lc fs = lc \<and> (\<forall>f \<in> set fs. MSG_ValuesAreEqual e (bits f) (from (offset f)) (to (offset f))) \<or>
   (\<exists>k < length fs. last_changed e from to i lc fs = i + k + 1 \<and>
      (\<forall>f \<in> set (drop (Suc k) fs). MSG_ValuesAreEqual e (bits f) (from (offset f)) (to (offset f))))"
proof (induction fs arbitrary: i lc)
  case Nil
  then show ?case by simp
next
  case (Cons f fs)
  let ?eq = "MSG_ValuesAreEqual e (bits f) (from (offset f)) (to (offset f))"
  let ?lc = "if \<not> ?eq then i + 1 else lc"
  from Cons.IH [of "Suc i" ?lc] show ?case
  proof (elim disjE exE conjE)
    assume a: "last_changed e from to (Suc i) ?lc fs = ?lc"
      "\<forall>f \<in> set fs. MSG_ValuesAreEqual e (bits f) (from (offset f)) (to (offset f))"
    show ?thesis
    proof (cases ?eq)
      case True
      then show ?thesis using a by simp
    next
      case False
      then show ?thesis using a by (intro disjI2 exI [of _ 0]) simp
    qed
  next
    fix k assume k: "k < length fs" "last_changed e from to (Suc i) ?lc fs = Suc i + k + 1"
      "\<forall>f \<in> set (drop (Suc k) fs). MSG_ValuesAreEqual e (bits f) (from (offset f)) (to (offset f))"
    then show ?thesis by (intro disjI2 exI [of _ "Suc k"]) simp
  qed
qed

lemma last_changed_rest:
  assumes "lc = last_changed e from to 0 0 fs"
  shows "lc \<le> length fs"
    "f \<in> set (drop lc fs) \<Longrightarrow> MSG_ValuesAreEqual e (bits f) (from (offset f)) (to (offset f))"
  using last_changed_cases [of e "from" to 0 0 fs] assms by auto

text \<open>What the writer sends after the entity number, and its reader.\<close>

definition delta_body :: "snapenv \<Rightarrow> int \<Rightarrow> cstruct \<Rightarrow> cstruct \<Rightarrow> netField list \<Rightarrow> msg \<Rightarrow> snap_error + msg" where
  "delta_body e time from to fs m =
     (let lc = last_changed e from to 0 0 fs in
      if lc = 0 then Inr (MSG_WriteBit0 m)
      else write_fields e time from to (take lc fs)
             (MSG_WriteBits (int lc) (GetMinBitCount (length fs)) (MSG_WriteBit1 m)))"

definition read_delta :: "snapenv \<Rightarrow> decoder \<Rightarrow> int \<Rightarrow> netField list \<Rightarrow> cstruct \<Rightarrow> 32 word \<Rightarrow> cstruct reader" where
  "read_delta e d time fs base num = do { k \<leftarrow> read_bit;
     if k = 0 then State_Monad.return (base(0 := num))
     else do { lc \<leftarrow> read_bits (GetMinBitCount (length fs));
               read_words e d time base (take (nat lc) fs) (base(0 := num)) } }"

text \<open>Entities: the first field is the type, which selects the table of the others.\<close>

definition type_field :: netField where "type_field = NETF ''eType'' 4 8 0"

definition type_table :: "32 word \<Rightarrow> netField list" where
  "type_table w = netFieldList ! min 17 (nat (uint w mod 256))"

definition read_entity :: "snapenv \<Rightarrow> decoder \<Rightarrow> int \<Rightarrow> cstruct \<Rightarrow> 32 word \<Rightarrow> cstruct reader" where
  "read_entity e d time base num = do { k \<leftarrow> read_bit;
     if k = 0 then State_Monad.return (base(0 := num))
     else do { lc \<leftarrow> read_bits 6; w \<leftarrow> read_word e d time type_field base;
               read_words e d time base (take (nat lc - 1) (tl (type_table w))) (base(0 := num, 4 := w)) } }"

text \<open>The words of the fields that are read, and those left out.\<close>

lemma seen_after:
  assumes t: "table_ok fs" "lc = last_changed e from to 0 0 fs"
    and base: "\<forall>f \<in> set fs. sees e (bits f) (base (offset f)) (from (offset f))"
    and new: "\<forall>f \<in> set (take lc fs). sees e (bits f) (new (offset f)) (to (offset f))"
      "\<forall>k. k \<notin> offset ` set (take lc fs) \<longrightarrow> new k = (base(0 := num)) k"
  shows "new 0 = num \<and> (\<forall>f \<in> set fs. sees e (bits f) (new (offset f)) (to (offset f)))"
proof (intro conjI ballI)
  have z: "0 \<notin> offset ` set fs" "distinct (map offset fs)" "\<forall>f \<in> set fs. bits f \<noteq> -95"
    using t(1) by (auto simp: table_ok_def list_all_iff)
  have "set (take lc fs) \<subseteq> set fs" by (rule set_take_subset)
  then have "0 \<notin> offset ` set (take lc fs)" using z(1) by blast
  then show "new 0 = num" using new(2) by simp
  fix f assume f: "f \<in> set fs"
  then consider "f \<in> set (take lc fs)" | "f \<in> set (drop lc fs)"
    using append_take_drop_id [of lc fs] by (metis Un_iff set_append)
  then show "sees e (bits f) (new (offset f)) (to (offset f))"
  proof cases
    case 1
    then show ?thesis using new(1) by blast
  next
    case 2
    have "map offset fs = map offset (take lc fs) @ map offset (drop lc fs)"
      by (simp add: map_append [symmetric] del: map_append)
    then have "offset f \<notin> offset ` set (take lc fs)" using z(2) 2 by auto
    then have "new (offset f) = base (offset f)" using new(2) z(1) f by (metis fun_upd_apply image_eqI)
    then show ?thesis using unsent_seen [OF last_changed_rest(2) [OF t(2) 2]] base z(3) f by metis
  qed
qed

lemma delta_conveys:
  assumes "arith_ok e d" "table_ok fs" "\<forall>f \<in> set fs. sees e (bits f) (base (offset f)) (from (offset f))"
  shows "\<exists>new. conveys (read_delta e d time fs base num) (delta_body e time from to fs) new \<and>
    new 0 = num \<and> (\<forall>f \<in> set fs. sees e (bits f) (new (offset f)) (to (offset f)))"
proof -
  define lc where "lc = last_changed e from to 0 0 fs"
  let ?fs = "take lc fs"
  have sub: "set ?fs \<subseteq> set fs" by (rule set_take_subset)
  have p: "distinct (map offset ?fs)" "\<forall>f \<in> set ?fs. bits f \<noteq> -95"
    "\<forall>f \<in> set ?fs. sees e (bits f) (base (offset f)) (from (offset f))"
    using assms(2,3) sub by (auto simp: table_ok_def list_all_iff take_map [symmetric] distinct_take)
  obtain new where new: "conveys (read_words e d time base ?fs (base(0 := num))) (write_fields e time from to ?fs) new"
    "\<forall>f \<in> set ?fs. sees e (bits f) (new (offset f)) (to (offset f))"
    "\<forall>k. k \<notin> offset ` set ?fs \<longrightarrow> new k = (base(0 := num)) k"
    using fields_convey [OF assms(1) p, where to = to and cur = "base(0 := num)" and time = time] by blast
  have seen: "new 0 = num \<and> (\<forall>f \<in> set fs. sees e (bits f) (new (offset f)) (to (offset f)))"
    by (rule seen_after [OF assms(2) lc_def assms(3) new(2,3)])
  show ?thesis
  proof (cases "lc = 0")
    case True
    then have w: "delta_body e time from to fs = (\<lambda>m. Inr (MSG_WriteBit0 m))"
      by (simp add: fun_eq_iff delta_body_def lc_def Let_def)
    have "new = base(0 := num)" using new(3) True by auto
    then have "conveys (read_delta e d time fs base num) (delta_body e time from to fs) new"
      unfolding w read_delta_def by (simp add: bit_then_conveys(1))
    then show ?thesis using seen by blast
  next
    case False
    let ?n = "GetMinBitCount (length fs)"
    have "lc < 2 ^ ?n" using last_changed_rest(1) [OF lc_def] GetMinBitCount_bound [of "length fs"] by simp
    then have "int lc < int (2 ^ ?n)" by (simp only: of_nat_less_iff)
    then have tb: "take_bit ?n (int lc) = int lc" by (intro take_bit_int_eq_self) simp_all
    have "?n \<le> 10" using assms(2) by (intro GetMinBitCount_least) (simp add: table_ok_def)
    then have lcw: "transmits (read_bits ?n) (MSG_WriteBits (int lc) ?n) (int lc)"
      using few_bits_transmit [of ?n "int lc"] tb by simp
    have w: "delta_body e time from to fs =
        (\<lambda>m. write_fields e time from to ?fs (MSG_WriteBits (int lc) ?n (MSG_WriteBit1 m)))"
      using False by (simp add: fun_eq_iff delta_body_def lc_def Let_def)
    have "conveys (do { lc \<leftarrow> read_bits ?n; read_words e d time base (take (nat lc) fs) (base(0 := num)) })
        (\<lambda>m. write_fields e time from to ?fs (MSG_WriteBits (int lc) ?n m)) new"
      by (rule conveys_after [OF lcw]) (simp add: new(1))
    then have "conveys (read_delta e d time fs base num) (delta_body e time from to fs) new"
      unfolding w read_delta_def by (rule bit_then_conveys(2))
    then show ?thesis using seen by blast
  qed
qed

text \<open>An entity is read like its structure once the type is known.\<close>

lemma type_table_written:
  assumes "entity_fields to = Inr fs" "sint (to 4) < 256" "take_bit 8 w = take_bit 8 (to 4)"
  shows "type_table w = fs" "entity_table_ok fs"
proof -
  have p: "0 \<le> sint (to 4)" using assms(1) by (auto simp: entity_fields_def split: if_splits)
  have "uint w mod 256 = uint (to 4) mod 256"
    using arg_cong [OF assms(3), of uint] unfolding unsigned_take_bit_eq by (simp add: take_bit_eq_mod)
  moreover have "uint (to 4) = sint (to 4)"
    using p uint_sint [of "to 4"] sint_range_size [of "to 4"] by (simp add: word_size take_bit_int_eq_self)
  ultimately have k: "nat (uint w mod 256) = nat (sint (to 4))" using p assms(2) by simp
  have fs: "fs = netFieldList ! min 17 (nat (sint (to 4)))"
  proof (cases "sint (to 4) \<le> 17")
    case True
    then have "min 17 (nat (sint (to 4))) = nat (sint (to 4))" by simp
    then show ?thesis using assms(1) p True by (simp add: entity_fields_def)
  next
    case False
    then have "min 17 (nat (sint (to 4))) = 17" by simp
    then show ?thesis using assms(1) False by (simp add: entity_fields_def)
  qed
  then show "type_table w = fs" by (simp add: type_table_def k)
  show "entity_table_ok fs" unfolding fs by (rule netFieldList_ok) simp
qed

lemma entity_conveys:
  assumes "arith_ok e d" "entity_fields to = Inr fs" "sint (to 4) < 256"
    "\<forall>f \<in> set fs. sees e (bits f) (base (offset f)) (from (offset f))"
  shows "\<exists>new. conveys (read_entity e d time base num) (delta_body e time from to fs) new \<and>
    new 0 = num \<and> (\<forall>f \<in> set fs. sees e (bits f) (new (offset f)) (to (offset f)))"
proof -
  have ok: "entity_table_ok fs" using type_table_written(2) [OF assms(2,3) refl] .
  then obtain f0 fs0 where fs: "fs = f0 # fs0" by (cases fs) (auto simp: entity_table_ok_def)
  have f0: "offset f0 = 4" "bits f0 = 8" "changeHints f0 \<noteq> 2" and tab: "table_ok fs" "GetMinBitCount (length fs) = 6"
    using ok fs by (simp_all add: entity_table_ok_def)
  define lc where "lc = last_changed e from to 0 0 fs"
  show ?thesis
  proof (cases "lc = 0")
    case True
    then have w: "delta_body e time from to fs = (\<lambda>m. Inr (MSG_WriteBit0 m))"
      by (simp add: fun_eq_iff delta_body_def lc_def Let_def)
    have "(base(0 := num)) 0 = num \<and> (\<forall>f \<in> set fs. sees e (bits f) ((base(0 := num)) (offset f)) (to (offset f)))"
      by (rule seen_after [OF tab(1) lc_def assms(4)]) (use True in simp_all)
    moreover have "conveys (read_entity e d time base num) (delta_body e time from to fs) (base(0 := num))"
      unfolding w read_entity_def by (simp add: bit_then_conveys(1))
    ultimately show ?thesis by blast
  next
    case False
    then obtain l where l: "lc = Suc l" using not0_implies_Suc by blast
    have tk: "take lc fs = f0 # take l fs0" by (simp add: fs l)
    have sub: "set (take l fs0) \<subseteq> set fs" using set_take_subset [of l fs0] by (auto simp: fs)
    have p: "distinct (map offset (take l fs0))" "\<forall>f \<in> set (take l fs0). bits f \<noteq> -95"
      "\<forall>f \<in> set (take l fs0). sees e (bits f) (base (offset f)) (from (offset f))"
      using tab(1) assms(4) sub by (auto simp: table_ok_def list_all_iff take_map [symmetric] distinct_take fs)
    obtain w where w: "conveys (read_word e d time f0 base) (MSG_WriteDeltaField e time from to f0 False) w"
      "sees e (bits f0) w (to (offset f0))"
      using field_conveys [OF assms(1), of f0 base "from" time to] assms(4) f0 by (auto simp: fs)
    let ?cur = "base(0 := num, 4 := w)"
    obtain new where new: "conveys (read_words e d time base (take l fs0) ?cur) (write_fields e time from to (take l fs0)) new"
      "\<forall>f \<in> set (take l fs0). sees e (bits f) (new (offset f)) (to (offset f))"
      "\<forall>k. k \<notin> offset ` set (take l fs0) \<longrightarrow> new k = ?cur k"
      using fields_convey [OF assms(1) p, where to = to and cur = ?cur and time = time] by blast
    have d0: "4 \<notin> offset ` set (take l fs0)" using tab(1) f0(1) set_take_subset [of l fs0] by (auto simp: table_ok_def fs)
    then have n4: "new 4 = w" using new(3) by simp
    have seen: "new 0 = num \<and> (\<forall>f \<in> set fs. sees e (bits f) (new (offset f)) (to (offset f)))"
    proof (rule seen_after [OF tab(1) lc_def assms(4)])
      show "\<forall>f \<in> set (take lc fs). sees e (bits f) (new (offset f)) (to (offset f))"
        using new(2) n4 w(2) f0(1) by (simp add: tk)
      show "\<forall>k. k \<notin> offset ` set (take lc fs) \<longrightarrow> new k = (base(0 := num)) k"
        using new(3) f0(1) by (simp add: tk)
    qed
    have "take_bit 8 w = take_bit 8 (to 4)" using w(2) f0 by (simp add: sees_def)
    from type_table_written(1) [OF assms(2,3) this] have tt: "tl (type_table w) = fs0" by (simp add: fs)
    have rw: "read_word e d time type_field base = read_word e d time f0 base"
      unfolding read_word_def type_field_def NETF_simps f0(1,2) using f0(3) by simp
    have "lc < 64" using last_changed_rest(1) [OF lc_def] GetMinBitCount_bound [of "length fs"] tab(2) by simp
    then have lcw: "transmits (read_bits 6) (MSG_WriteBits (int lc) 6) (int lc)"
      using few_bits_transmit [of 6 "int lc"] by (simp add: take_bit_int_eq_self)
    have body: "delta_body e time from to fs = (\<lambda>m. write_fields e time from to (take lc fs)
        (MSG_WriteBits (int lc) 6 (MSG_WriteBit1 m)))"
      using False tab(2) by (simp add: fun_eq_iff delta_body_def lc_def Let_def)
    have wf: "write_fields e time from to (take lc fs) = (\<lambda>m. case MSG_WriteDeltaField e time from to f0 False m of
        Inl x \<Rightarrow> Inl x | Inr m1 \<Rightarrow> write_fields e time from to (take l fs0) m1)"
      by (simp add: fun_eq_iff and_then_def tk)
    have "conveys (do { w \<leftarrow> read_word e d time type_field base;
          read_words e d time base (take l (tl (type_table w))) (base(0 := num, 4 := w)) })
        (write_fields e time from to (take lc fs)) new"
      unfolding wf rw by (rule conveys_bind [OF w(1)]) (simp add: tt new(1))
    then have "conveys (do { lc \<leftarrow> read_bits 6; w \<leftarrow> read_word e d time type_field base;
          read_words e d time base (take (nat lc - 1) (tl (type_table w))) (base(0 := num, 4 := w)) })
        (\<lambda>m. write_fields e time from to (take lc fs) (MSG_WriteBits (int lc) 6 m)) new"
      by (intro conveys_after [OF lcw]) (simp only: nat_int l diff_Suc_1)
    then have "conveys (read_entity e d time base num) (delta_body e time from to fs) new"
      unfolding body read_entity_def by (rule bit_then_conveys(2))
    then show ?thesis using seen by blast
  qed
qed

end
