(* ===== verification/SnapPlayer.thy ===== *)
theory SnapPlayer
  imports SnapStruct
begin

text \<open>
  The state of a player in a snapshot (src/src/msg.c): the fields of its table, then the arrays of
  statistics, ammunition, objectives, elements of the head-up display and weapon models.  The
  structure is addressed by the offsets of player.h; an element of an array of structures is a
  structure at an offset.
\<close>

section \<open>Operations\<close>

definition struct_at :: "nat \<Rightarrow> cstruct \<Rightarrow> cstruct" where
  "struct_at base s = (\<lambda>off. s (base + off))"

text \<open>\<open>memcmp\<close> over \<open>n\<close> words.\<close>

definition same_words :: "nat \<Rightarrow> cstruct \<Rightarrow> cstruct \<Rightarrow> bool" where
  "same_words n a b \<longleftrightarrow> list_all (\<lambda>k. a (4 * k) = b (4 * k)) [0..<n]"

primrec last_different :: "snapenv \<Rightarrow> cstruct \<Rightarrow> cstruct \<Rightarrow> netField list \<Rightarrow> nat \<Rightarrow> int" where
  "last_different e from to fs 0 = -1"
| "last_different e from to fs (Suc j) =
     (if \<not> MSG_ValuesAreEqual e (bits (fs ! j)) (from (offset (fs ! j))) (to (offset (fs ! j))) then int j
      else last_different e from to fs j)"

definition MSG_WriteDelta_LastChangedField :: "snapenv \<Rightarrow> cstruct \<Rightarrow> cstruct \<Rightarrow> netField list \<Rightarrow> int" where
  "MSG_WriteDelta_LastChangedField e from to fs = last_different e from to fs (length fs)"

definition MSG_WriteDeltaObjective ::
  "snapenv \<Rightarrow> int \<Rightarrow> cstruct \<Rightarrow> cstruct \<Rightarrow> msg \<Rightarrow> snap_error + msg" where
  "MSG_WriteDeltaObjective e time from to m =
     (if MSG_WriteDelta_LastChangedField e from to objectiveFields = -1 then Inr (MSG_WriteBit0 m)
      else write_fields e time from to objectiveFields (MSG_WriteBit1 m))"

definition MAX_HUDELEMENTS :: nat where "MAX_HUDELEMENTS = 31"
definition HE_TYPE_FREE :: "32 word" where "HE_TYPE_FREE = 0"

text \<open>An array of \<open>hudelem_t\<close>, 160 bytes each, up to the first free element.\<close>

primrec used_elements :: "cstruct \<Rightarrow> nat \<Rightarrow> nat \<Rightarrow> nat" where
  "used_elements to i 0 = i"
| "used_elements to i (Suc n) =
     (if struct_at (160 * i) to 0 = HE_TYPE_FREE then i else used_elements to (Suc i) n)"

definition write_element :: "snapenv \<Rightarrow> int \<Rightarrow> cstruct \<Rightarrow> cstruct \<Rightarrow> msg \<Rightarrow> snap_error + msg" where
  "write_element e time from to m =
     (let lc0 = MSG_WriteDelta_LastChangedField e from to hudElemFields;
          lc = (if lc0 = -1 then 0 else lc0)
      in write_fields e time from to (take (nat lc + 1) hudElemFields)
           (MSG_WriteBits lc (GetMinBitCount (length hudElemFields)) m))"

primrec write_elements :: "snapenv \<Rightarrow> int \<Rightarrow> cstruct \<Rightarrow> cstruct \<Rightarrow> nat list \<Rightarrow> msg \<Rightarrow> snap_error + msg" where
  "write_elements e time from to [] m = Inr m"
| "write_elements e time from to (k # ks) m =
     and_then (write_element e time (struct_at (160 * k) from) (struct_at (160 * k) to) m)
       (write_elements e time from to ks)"

definition MSG_WriteDeltaHudElems ::
  "snapenv \<Rightarrow> int \<Rightarrow> cstruct \<Rightarrow> cstruct \<Rightarrow> msg \<Rightarrow> snap_error + msg" where
  "MSG_WriteDeltaHudElems e time from to m =
     (let numHE = used_elements to 0 MAX_HUDELEMENTS
      in write_elements e time from to [0..<numHE] (MSG_WriteBits (int numHE) 5 m))"

text \<open>
  What the snapshot says of its receiver: whether it is an archived one, whether the archive is
  on, and what the client predicted (\<open>near\<close> compares the predicted with the real origin:
  \<open>MSG_WithinAllowedPredictionError\<close> of the squared distance).
\<close>

record snapinfo =
  clnum :: int
  archived :: bool
  clientArchive :: bool
  predictedTime :: int
  near :: "cstruct \<Rightarrow> bool"

definition MSG_ShouldSendPSField ::
  "snapenv \<Rightarrow> snapinfo \<Rightarrow> bool \<Rightarrow> cstruct \<Rightarrow> cstruct \<Rightarrow> netField \<Rightarrow> bool" where
  "MSG_ShouldSendPSField e info sendOriginAndVel ps oldPs field \<longleftrightarrow>
     (if bits field = -87 then
        archived info \<or> ps 20 AND 2 \<noteq> 0 \<or> ((oldPs 176 AND 255) XOR (ps 176 AND 255)) AND 2 \<noteq> 0 \<or>
        ps 1436 \<noteq> 1023 \<or> ps 4 = 5
      else if changeHints field \<noteq> 3 \<or> archived info then
        \<not> MSG_ValuesAreEqual e (bits field) (oldPs (offset field)) (ps (offset field))
      else sendOriginAndVel)"

primrec last_sent :: "(netField \<Rightarrow> bool) \<Rightarrow> nat \<Rightarrow> nat \<Rightarrow> netField list \<Rightarrow> nat" where
  "last_sent send i lc [] = lc"
| "last_sent send i lc (f # fs) = last_sent send (Suc i) (if send f then i + 1 else lc) fs"

primrec write_ps_fields :: "snapenv \<Rightarrow> snapinfo \<Rightarrow> (netField \<Rightarrow> bool) \<Rightarrow> int \<Rightarrow> cstruct \<Rightarrow> cstruct \<Rightarrow>
    netField list \<Rightarrow> msg \<Rightarrow> snap_error + msg" where
  "write_ps_fields e info send time from to [] m = Inr m"
| "write_ps_fields e info send time from to (f # fs) m =
     and_then (if changeHints f = 2 \<or> send f
               then MSG_WriteDeltaField e time from to f (\<not> archived info \<and> changeHints f = 3) m
               else Inr (MSG_WriteBit0 m))
       (write_ps_fields e info send time from to fs)"

text \<open>Arrays of \<open>int\<close>: the bits of the elements that differ, then those elements.\<close>

definition changed_bits :: "nat \<Rightarrow> nat \<Rightarrow> cstruct \<Rightarrow> cstruct \<Rightarrow> nat" where
  "changed_bits off n from to =
     horner_sum of_bool 2 (map (\<lambda>i. to (off + 4 * i) \<noteq> from (off + 4 * i)) [0..<n])"

primrec write_shorts :: "nat \<Rightarrow> cstruct \<Rightarrow> nat \<Rightarrow> nat list \<Rightarrow> msg \<Rightarrow> msg" where
  "write_shorts off to b [] m = m"
| "write_shorts off to b (i # is) m =
     write_shorts off to b is (if bit b i then MSG_WriteShort (sint (to (off + 4 * i))) m else m)"

definition write_stats :: "cstruct \<Rightarrow> cstruct \<Rightarrow> msg \<Rightarrow> msg" where
  "write_stats from to m =
     (let statsbits = changed_bits 328 5 from to in
      if statsbits \<noteq> 0 then
        let m1 = write_shorts 328 to statsbits [0..<3] (MSG_WriteBits (int statsbits) 5 (MSG_WriteBit1 m));
            m2 = (if bit statsbits 3 then MSG_WriteBits (sint (to 340)) 6 m1 else m1)
        in if bit statsbits 4 then MSG_WriteByte (sint (to 344)) m2 else m2
      else MSG_WriteBit0 m)"

definition write_group :: "nat \<Rightarrow> cstruct \<Rightarrow> cstruct \<Rightarrow> msg \<Rightarrow> msg" where
  "write_group off from to m =
     (let b = changed_bits off 16 from to in
      if b \<noteq> 0 then write_shorts off to b [0..<16] (MSG_WriteShort (int b) (MSG_WriteBit1 m))
      else MSG_WriteBit0 m)"

primrec write_groups :: "nat list \<Rightarrow> cstruct \<Rightarrow> cstruct \<Rightarrow> msg \<Rightarrow> msg" where
  "write_groups [] from to m = m"
| "write_groups (off # offs) from to m = write_groups offs from to (write_group off from to m)"

definition ammo_groups :: "nat list" where "ammo_groups = map (\<lambda>j. 348 + 64 * j) [0..<4]"
definition clip_groups :: "nat list" where "clip_groups = map (\<lambda>j. 860 + 64 * j) [0..<8]"

definition write_ammo :: "cstruct \<Rightarrow> cstruct \<Rightarrow> msg \<Rightarrow> msg" where
  "write_ammo from to m =
     (if list_ex (\<lambda>off. changed_bits off 16 from to \<noteq> 0) ammo_groups
      then write_groups ammo_groups from to (MSG_WriteBit1 m) else MSG_WriteBit0 m)"

primrec write_objectives :: "snapenv \<Rightarrow> int \<Rightarrow> cstruct \<Rightarrow> cstruct \<Rightarrow> nat list \<Rightarrow> msg \<Rightarrow> snap_error + msg" where
  "write_objectives e time from to [] m = Inr m"
| "write_objectives e time from to (i # is) m =
     and_then (MSG_WriteDeltaObjective e time (struct_at (1628 + 28 * i) from) (struct_at (1628 + 28 * i) to)
                (MSG_WriteBits (sint (to (1628 + 28 * i))) 3 m))
       (write_objectives e time from to is)"

primrec write_models :: "cstruct \<Rightarrow> nat list \<Rightarrow> msg \<Rightarrow> msg" where
  "write_models to [] m = m"
| "write_models to (i # is) m =
     write_models to is (MSG_WriteByte (byte_at (i mod 4) (to (2076 + 4 * (i div 4)))) m)"

text \<open>Everything after the fields of the table.\<close>

definition write_ps_arrays :: "snapenv \<Rightarrow> int \<Rightarrow> cstruct \<Rightarrow> cstruct \<Rightarrow> msg \<Rightarrow> snap_error + msg" where
  "write_ps_arrays e time from to m =
     (let m1 = write_groups clip_groups from to (write_ammo from to (write_stats from to m)) in
      and_then (if same_words 112 (struct_at 1628 from) (struct_at 1628 to) then Inr (MSG_WriteBit0 m1)
                else write_objectives e time from to [0..<16] (MSG_WriteBit1 m1)) (\<lambda>m2.
      and_then (if same_words 2480 (struct_at 2212 from) (struct_at 2212 to) then Inr (MSG_WriteBit0 m2)
                else and_then (MSG_WriteDeltaHudElems e time (struct_at (2212 + 4960) from) (struct_at (2212 + 4960) to)
                                (MSG_WriteBit1 m2))
                       (MSG_WriteDeltaHudElems e time (struct_at 2212 from) (struct_at 2212 to))) (\<lambda>m3.
      Inr (if same_words 32 (struct_at 2076 from) (struct_at 2076 to) then MSG_WriteBit0 m3
           else write_models to [0..<128] (MSG_WriteBit1 m3)))))"

definition MSG_WriteDeltaPlayerstate ::
  "snapenv \<Rightarrow> snapinfo \<Rightarrow> int \<Rightarrow> cstruct option \<Rightarrow> cstruct \<Rightarrow> msg \<Rightarrow> snap_error + msg" where
  "MSG_WriteDeltaPlayerstate e info time from to m =
     (let from1 = (case from of None \<Rightarrow> null_struct | Some s \<Rightarrow> s);
          sendOriginAndVel = (archived info \<or>
            \<not> (clientArchive info \<and> near info to \<and> predictedTime info = sint (to 0)));
          m1 = (if sendOriginAndVel then MSG_WriteBit1 m else MSG_WriteBit0 m);
          send = MSG_ShouldSendPSField e info sendOriginAndVel to from1;
          lc = last_sent send 0 0 playerStateFields;
          m2 = MSG_WriteBits (int lc) (GetMinBitCount (length playerStateFields)) m1
      in and_then (write_ps_fields e info send time from1 to (take lc playerStateFields) m2)
           (write_ps_arrays e time from1 to))"

end
