(* ===== verification/SnapFrame.thy ===== *)
theory SnapFrame
  imports SnapPlayer ServerCommands
begin

text \<open>
  A whole snapshot (src/src/sv\_snapshot.c): the older frame it is encoded against, the player, the
  entities and the clients.  Frames are windows into two circular arrays that all clients share;
  the loops walk the old and the new window in the order of the numbers.
\<close>

section \<open>State\<close>

record clientSnapshot =
  ps :: cstruct
  num_entities :: int
  num_clients :: int
  first_entity :: int
  first_client :: int
  var_03 :: int

text \<open>The fields of \<open>client_t\<close> that snapshots add to those of \<open>client\<close>.\<close>

record snapclient =
  sc_client :: client
  deltaMessage :: int
  rateDelayed :: bool
  unksnapshotvar :: bool
  demorecording :: bool
  demowaiting :: bool
  demoMaxDeltaFrames :: int
  demoDeltaFrameCount :: int
  frames :: "clientSnapshot list"

record svsHeader =
  sh_time :: int
  snapFlagServerBit :: int
  numSnapshotEntities :: int
  numSnapshotClients :: int
  nextSnapshotEntities :: int
  nextSnapshotClients :: int
  snapshotEntities :: "cstruct list"
  snapshotClients :: "cstruct list"
  svEntities :: "cstruct list"

text \<open>\<open>svEntities\<close> are the baselines (\<open>baseline.s\<close>).\<close>

definition PACKET_BACKUP :: int where "PACKET_BACKUP = 32"
definition PACKET_MASK :: int where "PACKET_MASK = PACKET_BACKUP - 1"
definition svc_snapshot :: int where "svc_snapshot = 6"
definition GENTITYNUM_BITS :: int where "GENTITYNUM_BITS = 10"

section \<open>The older frame\<close>

definition outgoing :: "snapclient \<Rightarrow> int" where
  "outgoing c = outgoingSequence (cl_netchan (sc_client c))"

definition in_window :: "svsHeader \<Rightarrow> clientSnapshot \<Rightarrow> bool" where
  "in_window h f \<longleftrightarrow> \<not> first_entity f < nextSnapshotEntities h - numSnapshotEntities h \<and>
     \<not> first_client f < nextSnapshotClients h - numSnapshotClients h"

text \<open>The client, the old frame and \<open>lastframe\<close>; a frame whose entities are gone is not used.\<close>

definition choose_frame :: "svsHeader \<Rightarrow> snapclient \<Rightarrow> snapclient \<times> clientSnapshot option \<times> int" where
  "choose_frame h c =
     (if deltaMessage c \<le> 0 \<or> cl_state (sc_client c) \<noteq> CS_ACTIVE then (c, None, 0)
      else if outgoing c - deltaMessage c \<ge> PACKET_BACKUP - 3 then (c, None, 0)
      else if demoDeltaFrameCount c \<le> 0 \<and> demorecording c then
        let maxframes = (if demoMaxDeltaFrames c < 1024 then demoMaxDeltaFrames c * 2 else demoMaxDeltaFrames c)
        in (c\<lparr>demowaiting := False, demoMaxDeltaFrames := maxframes, demoDeltaFrameCount := maxframes\<rparr>, None, 0)
      else
        let oldframe = idx (frames c) (deltaMessage c AND PACKET_MASK);
            c1 = c\<lparr>demoDeltaFrameCount := demoDeltaFrameCount c - 1\<rparr>
        in if in_window h oldframe then (c1, Some oldframe, outgoing c - deltaMessage c) else (c1, None, 0))"

section \<open>Entities\<close>

definition ring_slot :: "cstruct list \<Rightarrow> int \<Rightarrow> int \<Rightarrow> cstruct" where
  "ring_slot R num i = idx R (i mod num)"

text \<open>
  A window: the position of its first element and their number.  9999 is past every number.  A
  loop that leaves an index behind for ever (an old number above 9999) runs out of fuel.
\<close>

type_synonym window = "int \<times> int"

definition element_at :: "cstruct list \<Rightarrow> int \<Rightarrow> window \<Rightarrow> int \<Rightarrow> cstruct option" where
  "element_at R num w i = (if snd w \<le> i then None else Some (ring_slot R num (fst w + i)))"

definition number_of :: "cstruct option \<Rightarrow> int" where
  "number_of s = (case s of None \<Rightarrow> 9999 | Some x \<Rightarrow> entity_number x)"

definition store_sent :: "int \<Rightarrow> cstruct option \<Rightarrow> cstruct list \<Rightarrow> cstruct list" where
  "store_sent i sent R = (case sent of None \<Rightarrow> R | Some s \<Rightarrow> put i s R)"

primrec entities_loop :: "nat \<Rightarrow> snapenv \<Rightarrow> int \<Rightarrow> int \<Rightarrow> cstruct list \<Rightarrow> int \<Rightarrow> window \<Rightarrow> window \<Rightarrow>
    cstruct list \<Rightarrow> int \<Rightarrow> int \<Rightarrow> msg \<Rightarrow> snap_error + (cstruct list \<times> msg)" where
  "entities_loop 0 e cl time bl num new old R newindex oldindex m =
     (if newindex < snd new \<or> oldindex < snd old then Inl ENDLESS_SCAN else Inr (R, m))"
| "entities_loop (Suc n) e cl time bl num new old R newindex oldindex m =
     (if \<not> (newindex < snd new \<or> oldindex < snd old) then Inr (R, m)
      else
        let newent = element_at R num new newindex; newnum = number_of newent;
            oldent = ring_slot R num (fst old + oldindex); oldnum = number_of (element_at R num old oldindex);
            at = (fst new + newindex) mod num
        in if newnum = oldnum then
             and_then (MSG_WriteDeltaEntity e cl time oldent newent False m) (\<lambda>(sent, m1).
               entities_loop n e cl time bl num new old (store_sent at sent R) (newindex + 1) (oldindex + 1) m1)
           else if newnum < oldnum then
             and_then (MSG_WriteDeltaEntity e cl time (idx bl newnum) newent True m) (\<lambda>(sent, m1).
               entities_loop n e cl time bl num new old (store_sent at sent R) (newindex + 1) oldindex m1)
           else
             and_then (MSG_WriteDeltaEntity e cl time oldent None True m) (\<lambda>(sent, m1).
               entities_loop n e cl time bl num new old R newindex (oldindex + 1) m1))"

section \<open>Clients\<close>

primrec clients_loop :: "nat \<Rightarrow> snapenv \<Rightarrow> int \<Rightarrow> int \<Rightarrow> window \<Rightarrow> window \<Rightarrow>
    cstruct list \<Rightarrow> int \<Rightarrow> int \<Rightarrow> msg \<Rightarrow> snap_error + msg" where
  "clients_loop 0 e time num new old R newindex oldindex m =
     (if newindex < snd new \<or> oldindex < snd old then Inl ENDLESS_SCAN else Inr m)"
| "clients_loop (Suc n) e time num new old R newindex oldindex m =
     (if \<not> (newindex < snd new \<or> oldindex < snd old) then Inr m
      else
        let newcs = element_at R num new newindex; newnum = number_of newcs;
            oldcs = element_at R num old oldindex; oldnum = number_of oldcs
        in if newnum = oldnum then
             and_then (MSG_WriteDeltaClient e time oldcs newcs False m)
               (clients_loop n e time num new old R (newindex + 1) (oldindex + 1))
           else if newnum < oldnum then
             and_then (MSG_WriteDeltaClient e time None newcs True m)
               (clients_loop n e time num new old R (newindex + 1) oldindex)
           else
             and_then (MSG_WriteDeltaClient e time oldcs None True m)
               (clients_loop n e time num new old R newindex (oldindex + 1)))"

section \<open>The snapshot\<close>

definition set_bits :: "bool \<Rightarrow> int \<Rightarrow> int \<Rightarrow> int" where
  "set_bits b k flags = (if b then flags OR k else flags)"

definition mark_active :: "snapclient \<Rightarrow> snapclient" where
  "mark_active c =
     (if cl_state (sc_client c) = CS_ACTIVE then c\<lparr>unksnapshotvar := True\<rparr>
      else if cl_state (sc_client c) \<noteq> CS_ZOMBIE then c\<lparr>unksnapshotvar := False\<rparr> else c)"

primrec write_nops :: "nat \<Rightarrow> msg \<Rightarrow> msg" where
  "write_nops 0 m = m"
| "write_nops (Suc n) m = write_nops n (MSG_WriteByte 0 m)"

definition window_fuel :: "window \<Rightarrow> window \<Rightarrow> nat" where
  "window_fuel new old = nat (snd new) + nat (snd old)"

text \<open>\<open>pad\<close> is \<open>sv_padPackets\<close>.\<close>

definition SV_WriteSnapshotToClient ::
  "snapenv \<Rightarrow> snapinfo \<Rightarrow> int \<Rightarrow> svsHeader \<Rightarrow> snapclient \<Rightarrow> msg \<Rightarrow>
   snap_error + (svsHeader \<times> snapclient \<times> msg)" where
  "SV_WriteSnapshotToClient e info pad h c m =
     (let slot = outgoing c AND PACKET_MASK;
          frame = (idx (frames c) slot)\<lparr>var_03 := sh_time h\<rparr>;
          c1 = c\<lparr>frames := put slot frame (frames c)\<rparr>;
          (c2, oldframe, lastframe) = choose_frame h c1;
          m1 = MSG_WriteByte lastframe (MSG_WriteLong (sh_time h) (MSG_WriteByte svc_snapshot m));
          c3 = mark_active c2;
          snapFlags = set_bits (\<not> unksnapshotvar c3) 2 (set_bits (rateDelayed c3) 1 (snapFlagServerBit h));
          m2 = MSG_WriteByte snapFlags m1;
          oldents = (case oldframe of None \<Rightarrow> (0, 0) | Some f \<Rightarrow> (first_entity f, num_entities f));
          oldclients = (case oldframe of None \<Rightarrow> (0, 0) | Some f \<Rightarrow> (first_client f, num_clients f));
          newents = (first_entity frame, num_entities frame);
          newclients = (first_client frame, num_clients frame);
          info1 = info\<lparr>archived := False\<rparr>
      in and_then (MSG_WriteDeltaPlayerstate e info1 (sh_time h) (map_option ps oldframe) (ps frame) m2) (\<lambda>m3.
         and_then (entities_loop (window_fuel newents oldents) e (clnum info) (sh_time h) (svEntities h)
             (numSnapshotEntities h) newents oldents (snapshotEntities h) 0 0 (MSG_ClearLastReferencedEntity m3))
           (\<lambda>(R, m4).
         let m5 = MSG_ClearLastReferencedEntity (MSG_WriteEntityIndex (MAX_GENTITIES - 1) GENTITYNUM_BITS m4) in
         and_then (clients_loop (window_fuel newclients oldclients) e (sh_time h) (numSnapshotClients h)
             newclients oldclients (snapshotClients h) 0 0 m5) (\<lambda>m6.
         Inr (h\<lparr>snapshotEntities := R\<rparr>, c3, write_nops (nat pad) (MSG_WriteBit0 m6))))))"

end
