(* ===== verification/SnapFill.thy ===== *)
theory SnapFill
  imports SnapPlayer
begin

text \<open>
  Readers of a part of a structure.  Such a reader is given the structure read so far, fills the words
  of its part and leaves the others alone; parts compose without further conditions when they
  agree on what a word may stand for.
\<close>

section \<open>Parts\<close>

definition fills :: "(cstruct \<Rightarrow> cstruct reader) \<Rightarrow> (msg \<Rightarrow> snap_error + msg) \<Rightarrow> nat set \<Rightarrow>
    (nat \<Rightarrow> 32 word \<Rightarrow> bool) \<Rightarrow> bool" where
  "fills D W A R \<longleftrightarrow> (\<forall>cur. \<exists>new. conveys (D cur) W new \<and> (\<forall>k \<in> A. R k (new k)) \<and>
     (\<forall>k. k \<notin> A \<longrightarrow> new k = cur k))"

lemma fillsE:
  assumes "fills D W A R"
  obtains new where "conveys (D cur) W new" "\<forall>k \<in> A. R k (new k)" "\<forall>k. k \<notin> A \<longrightarrow> new k = cur k"
  using spec [OF assms [unfolded fills_def], of cur] by blast

lemma fillsI:
  "(\<And>cur. \<exists>new. conveys (D cur) W new \<and> (\<forall>k \<in> A. R k (new k)) \<and> (\<forall>k. k \<notin> A \<longrightarrow> new k = cur k)) \<Longrightarrow> fills D W A R"
  by (simp add: fills_def)

lemma and_then_case: "and_then r f = (case r of Inl x \<Rightarrow> Inl x | Inr m \<Rightarrow> f m)"
  by (simp add: and_then_def)

lemma fills_then:
  assumes "fills D W A R" "fills E V B R"
  shows "fills (\<lambda>cur. State_Monad.bind (D cur) E) (\<lambda>m. and_then (W m) V) (A \<union> B) R"
proof (rule fillsI)
  fix cur
  obtain s where s: "conveys (D cur) W s" "\<forall>k \<in> A. R k (s k)" "\<forall>k. k \<notin> A \<longrightarrow> s k = cur k" by (rule fillsE [OF assms(1)])
  obtain t where t: "conveys (E s) V t" "\<forall>k \<in> B. R k (t k)" "\<forall>k. k \<notin> B \<longrightarrow> t k = s k" by (rule fillsE [OF assms(2)])
  have "conveys (State_Monad.bind (D cur) E) (\<lambda>m. and_then (W m) V) t"
    unfolding and_then_case by (rule conveys_bind [where E = E, OF s(1) t(1)])
  moreover have "R k (t k)" if "k \<in> A \<union> B" for k using that s(2) t(2,3) by (cases "k \<in> B") auto
  ultimately show "\<exists>new. conveys (State_Monad.bind (D cur) E) (\<lambda>m. and_then (W m) V) new \<and>
      (\<forall>k \<in> A \<union> B. R k (new k)) \<and> (\<forall>k. k \<notin> A \<union> B \<longrightarrow> new k = cur k)"
    using s(3) t(3) by auto
qed

lemma fills_after:
  assumes "transmits D V v" "fills (E v) W A R"
  shows "fills (\<lambda>cur. State_Monad.bind D (\<lambda>x. E x cur)) (\<lambda>m. W (V m)) A R"
proof (rule fillsI)
  fix cur
  obtain s where s: "conveys (E v cur) W s" "\<forall>k \<in> A. R k (s k)" "\<forall>k. k \<notin> A \<longrightarrow> s k = cur k" by (rule fillsE [OF assms(2)])
  then show "\<exists>new. conveys (State_Monad.bind D (\<lambda>x. E x cur)) (\<lambda>m. W (V m)) new \<and>
      (\<forall>k \<in> A. R k (new k)) \<and> (\<forall>k. k \<notin> A \<longrightarrow> new k = cur k)"
    using conveys_after [where E = "\<lambda>x. E x cur", OF assms(1) s(1)] by blast
qed

lemma fills_done: "fills State_Monad.return (\<lambda>m. Inr m) {} R"
  unfolding fills_def
proof
  fix cur
  show "\<exists>new. conveys (State_Monad.return cur) (\<lambda>m. Inr m) new \<and> (\<forall>k \<in> {}. R k (new k)) \<and>
      (\<forall>k. k \<notin> {} \<longrightarrow> new k = cur k)"
    using conveys_Inr [OF transmits_return] by (intro exI [of _ cur]) simp
qed

lemma fills_word:
  assumes "conveys D W w" "R k w"
  shows "fills (\<lambda>cur. State_Monad.bind D (\<lambda>x. State_Monad.return (cur(k := x)))) W {k} R"
proof (rule fillsI)
  fix cur :: cstruct
  have "conveys (State_Monad.bind D (\<lambda>x. State_Monad.return (cur(k := x)))) (\<lambda>m. and_then (W m) (\<lambda>m. Inr m)) (cur(k := w))"
    unfolding and_then_case
    by (rule conveys_bind [where E = "\<lambda>x. State_Monad.return (cur(k := x))", OF assms(1)]) (simp add: conveys_Inr transmits_return)
  moreover have "(\<lambda>m. and_then (W m) (\<lambda>m. Inr m)) = W" by (simp add: fun_eq_iff and_then_def split: sum.split)
  ultimately show "\<exists>new. conveys (State_Monad.bind D (\<lambda>x. State_Monad.return (cur(k := x)))) W new \<and>
      (\<forall>l \<in> {k}. R l (new l)) \<and> (\<forall>l. l \<notin> {k} \<longrightarrow> new l = cur l)"
    using assms(2) by (intro exI [of _ "cur(k := w)"]) simp
qed

lemma fills_mono: "fills D W A R \<Longrightarrow> (\<And>k w. k \<in> A \<Longrightarrow> R k w \<Longrightarrow> Q k w) \<Longrightarrow> fills D W A Q"
  unfolding fills_def by blast

lemma fills_wider:
  assumes "fills D W A R" "A \<subseteq> B" "\<And>k w. k \<in> B \<Longrightarrow> k \<notin> A \<Longrightarrow> R k w"
  shows "fills D W B R"
  using assms unfolding fills_def by (metis subsetD)

text \<open>Words that are kept are those of the client's old copy.\<close>

definition keep :: "nat list \<Rightarrow> cstruct \<Rightarrow> cstruct \<Rightarrow> cstruct" where
  "keep ks base cur = (\<lambda>k. if k \<in> set ks then base k else cur k)"

lemma fills_over:
  assumes "fills D W B R" "B \<subseteq> set ks" "\<forall>k \<in> set ks - B. R k (base k)"
  shows "fills (\<lambda>cur. D (keep ks base cur)) W (set ks) R"
proof (rule fillsI)
  fix cur
  obtain s where s: "conveys (D (keep ks base cur)) W s" "\<forall>k \<in> B. R k (s k)" "\<forall>k. k \<notin> B \<longrightarrow> s k = keep ks base cur k"
    by (rule fillsE [OF assms(1)])
  then show "\<exists>new. conveys (D (keep ks base cur)) W new \<and> (\<forall>k \<in> set ks. R k (new k)) \<and>
      (\<forall>k. k \<notin> set ks \<longrightarrow> new k = cur k)"
    using assms(2,3) by (intro exI [of _ s]) (auto simp: keep_def)
qed

text \<open>A bit says whether the part was sent.\<close>

definition optional :: "nat list \<Rightarrow> cstruct \<Rightarrow> (cstruct \<Rightarrow> cstruct reader) \<Rightarrow> cstruct \<Rightarrow> cstruct reader" where
  "optional ks base D cur = do { z \<leftarrow> read_bit; if z = 0 then State_Monad.return (keep ks base cur) else D cur }"

lemma optional_same:
  assumes "\<forall>k \<in> set ks. R k (base k)"
  shows "fills (optional ks base D) (\<lambda>m. Inr (MSG_WriteBit0 m)) (set ks) R"
proof (rule fillsI)
  fix cur
  show "\<exists>new. conveys (optional ks base D cur) (\<lambda>m. Inr (MSG_WriteBit0 m)) new \<and> (\<forall>k \<in> set ks. R k (new k)) \<and>
      (\<forall>k. k \<notin> set ks \<longrightarrow> new k = cur k)"
    unfolding optional_def using assms
    by (intro exI [of _ "keep ks base cur"] conjI bit_then_conveys(1)) (simp_all add: keep_def)
qed

lemma optional_sent:
  assumes "fills D W (set ks) R"
  shows "fills (optional ks base D) (\<lambda>m. W (MSG_WriteBit1 m)) (set ks) R"
proof (rule fillsI)
  fix cur
  obtain s where s: "conveys (D cur) W s" "\<forall>k \<in> set ks. R k (s k)" "\<forall>k. k \<notin> set ks \<longrightarrow> s k = cur k"
    by (rule fillsE [OF assms])
  then show "\<exists>new. conveys (optional ks base D cur) (\<lambda>m. W (MSG_WriteBit1 m)) new \<and> (\<forall>k \<in> set ks. R k (new k)) \<and>
      (\<forall>k. k \<notin> set ks \<longrightarrow> new k = cur k)"
    unfolding optional_def by (intro exI [of _ s] conjI bit_then_conveys(2))
qed

text \<open>Writers that cannot fail.\<close>

lemma fills_then_plain:
  assumes "fills D (\<lambda>m. Inr (W m)) A R" "fills E V B R"
  shows "fills (\<lambda>cur. State_Monad.bind (D cur) E) (\<lambda>m. V (W m)) (A \<union> B) R"
  using fills_then [OF assms] by simp

section \<open>The fields of the player's table\<close>

definition read_ps_word :: "snapenv \<Rightarrow> decoder \<Rightarrow> bool \<Rightarrow> int \<Rightarrow> netField \<Rightarrow> cstruct \<Rightarrow> 32 word reader" where
  "read_ps_word e d arch time f base =
     (let old = (if \<not> arch \<and> changeHints f = 3 then 0 else base (offset f)) in
      if changeHints f \<noteq> 2
      then do { z \<leftarrow> read_bit; if z = 0 then State_Monad.return (base (offset f))
                else read_payload e d time (bits f) old }
      else read_payload e d time (bits f) old)"

primrec read_ps_fields :: "snapenv \<Rightarrow> decoder \<Rightarrow> bool \<Rightarrow> int \<Rightarrow> cstruct \<Rightarrow> netField list \<Rightarrow> cstruct \<Rightarrow> cstruct reader" where
  "read_ps_fields e d arch time base [] cur = State_Monad.return cur"
| "read_ps_fields e d arch time base (f # fs) cur =
     do { s \<leftarrow> do { w \<leftarrow> read_ps_word e d arch time f base; State_Monad.return (cur(offset f := w)) };
          read_ps_fields e d arch time base fs s }"

text \<open>
  The fields the client must know: not those that are left to its prediction (hint 3) and not the
  view angles, unless they are sent.
\<close>

definition due :: "(netField \<Rightarrow> bool) \<Rightarrow> netField \<Rightarrow> bool" where
  "due send f \<longleftrightarrow> send f \<or> changeHints f \<noteq> 3 \<and> bits f \<noteq> -87"

definition field_rel :: "snapenv \<Rightarrow> (netField \<Rightarrow> bool) \<Rightarrow> cstruct \<Rightarrow> nat \<Rightarrow> 32 word \<Rightarrow> bool" where
  "field_rel e send to k w \<longleftrightarrow>
     (\<forall>f \<in> set playerStateFields. offset f = k \<and> due send f \<longrightarrow> sees e (bits f) w (to k))"

definition sends_changes :: "snapenv \<Rightarrow> bool \<Rightarrow> (netField \<Rightarrow> bool) \<Rightarrow> cstruct \<Rightarrow> cstruct \<Rightarrow> bool" where
  "sends_changes e arch send from to \<longleftrightarrow> (\<forall>f. \<not> send f \<and> (changeHints f \<noteq> 3 \<or> arch) \<and> bits f \<noteq> -87 \<longrightarrow>
     MSG_ValuesAreEqual e (bits f) (from (offset f)) (to (offset f)))"

lemma should_send_changes:
  "sends_changes e (archived info) (MSG_ShouldSendPSField e info orig to from) from to"
  by (simp add: sends_changes_def MSG_ShouldSendPSField_def)

lemma unsent_due:
  assumes "sends_changes e arch send from to" "\<not> send f" "bits f \<noteq> -95" "sees e (bits f) c (from (offset f))" "due send f"
  shows "sees e (bits f) c (to (offset f))"
  using assms unsent_seen [OF _ assms(4,3)] by (auto simp: sends_changes_def due_def)

lemma ps_word_conveys:
  assumes A: "arith_ok e d" "sends_changes e arch send from to" "bits f \<noteq> -95"
    "sees e (bits f) (base (offset f)) (from (offset f))"
  shows "\<exists>w. conveys (read_ps_word e d arch time f base)
      (\<lambda>m. if changeHints f = 2 \<or> send f then MSG_WriteDeltaField e time from to f (\<not> arch \<and> changeHints f = 3) m
           else Inr (MSG_WriteBit0 m)) w \<and>
    (due send f \<longrightarrow> sees e (bits f) w (to (offset f)))"
proof -
  consider (left) "changeHints f \<noteq> 2" "\<not> send f" | (forced) "changeHints f = 3" "send f" "\<not> arch"
    | (delta) "changeHints f = 2 \<or> send f" "changeHints f \<noteq> 3 \<or> arch"
    by (cases "changeHints f = 3"; cases "send f"; cases arch) auto
  then show ?thesis
  proof cases
    case left
    have "conveys (read_ps_word e d arch time f base) (\<lambda>m. Inr (MSG_WriteBit0 m)) (base (offset f))"
      unfolding read_ps_word_def Let_def using left(1) by (simp add: bit_then_conveys(1))
    then show ?thesis using left unsent_due [OF A(2) left(2) A(3,4)] by auto
  next
    case forced
    obtain w where w: "conveys (read_payload e d time (bits f) 0) (write_payload e time (bits f) 0 (to (offset f))) w"
      "sees e (bits f) w (to (offset f))"
      using payload_conveys [OF A(1) sees_refl] by blast
    have "conveys (read_ps_word e d arch time f base)
        (\<lambda>m. write_payload e time (bits f) 0 (to (offset f)) (MSG_WriteBit1 m)) w"
      unfolding read_ps_word_def Let_def using forced by (simp add: bit_then_conveys(2) [OF w(1)])
    then show ?thesis using forced w(2) by (auto simp: MSG_WriteDeltaField_def Let_def)
  next
    case delta
    have "read_ps_word e d arch time f base = read_word e d time f base"
      using delta(2) by (auto simp: read_ps_word_def read_word_def)
    moreover have "\<exists>w. conveys (read_word e d time f base) (MSG_WriteDeltaField e time from to f False) w \<and>
        sees e (bits f) w (to (offset f))" by (rule field_conveys [OF A(1)]) (use A in simp_all)
    ultimately show ?thesis using delta by auto
  qed
qed

lemma ps_fields_fill:
  assumes A: "arith_ok e d" "sends_changes e arch send from to" and fs: "set fs \<subseteq> set playerStateFields"
    "distinct (map offset playerStateFields)" "\<forall>f \<in> set fs. bits f \<noteq> -95"
    "\<forall>f \<in> set fs. sees e (bits f) (base (offset f)) (from (offset f))"
    and info: "arch = archived info"
  shows "fills (read_ps_fields e d arch time base fs) (write_ps_fields e info send time from to fs)
    (offset ` set fs) (field_rel e send to)"
  using fs(1,3,4)
proof (induction fs)
  case Nil
  have "write_ps_fields e info send time from to [] = (\<lambda>m. Inr m)" "read_ps_fields e d arch time base [] = State_Monad.return"
    by (simp_all add: fun_eq_iff)
  then show ?case by (simp add: fills_done)
next
  case (Cons f fs)
  let ?W = "\<lambda>m. if changeHints f = 2 \<or> send f then MSG_WriteDeltaField e time from to f (\<not> arch \<and> changeHints f = 3) m
      else Inr (MSG_WriteBit0 m)"
  obtain w where w: "conveys (read_ps_word e d arch time f base) ?W w" "due send f \<longrightarrow> sees e (bits f) w (to (offset f))"
    using ps_word_conveys [OF A, of f base time] Cons.prems by auto
  have "g = f" if "g \<in> set playerStateFields" "offset g = offset f" for g
    using that Cons.prems(1) fs(2) by (auto simp: distinct_map inj_on_def)
  then have "field_rel e send to (offset f) w" using w(2) by (auto simp: field_rel_def)
  then have one: "fills (\<lambda>cur. do { w \<leftarrow> read_ps_word e d arch time f base; State_Monad.return (cur(offset f := w)) })
      ?W {offset f} (field_rel e send to)" by (rule fills_word [OF w(1)])
  have "fills (read_ps_fields e d arch time base fs) (write_ps_fields e info send time from to fs) (offset ` set fs)
      (field_rel e send to)" using Cons by simp
  from fills_then [OF one this] show ?case by (simp add: info fun_eq_iff cong: if_cong)
qed

end
