(* ===== verification/SnapArrays.thy ===== *)
theory SnapArrays
  imports SnapFill
begin

text \<open>
  Reading the arrays of a player: statistics, ammunition, objectives, the head-up display and
  the weapon models.  Each array is a part of the structure; what a word stands for is given by
  the number of bits that are sent of it.
\<close>

section \<open>Arrays of integers\<close>

text \<open>The low \<open>n\<close> bits are those of the server's word.\<close>

definition low :: "nat \<Rightarrow> 32 word \<Rightarrow> 32 word \<Rightarrow> bool" where
  "low n w t \<longleftrightarrow> take_bit n w = take_bit n t"

lemma low_refl [simp]: "low n w w"
  by (simp add: low_def)

lemma low_of_int:
  assumes "take_bit n x = take_bit n (sint t)"
  shows "low n (word_of_int x) t"
proof -
  have "take_bit n (word_of_int x :: 32 word) = word_of_int (take_bit n x)" by transfer (simp add: take_bit_take_bit min.commute)
  moreover have "take_bit n t = word_of_int (take_bit n (sint t))"
    by transfer (simp add: take_bit_take_bit take_bit_signed_take_bit min.commute)
  ultimately show ?thesis using assms by (simp add: low_def)
qed

lemma short_transmits: "transmits read_short (MSG_WriteShort (sint t)) (s16 (sint t))"
  by (rule writes_transmit)

lemma short_low: "low 16 (word_of_int (s16 (sint t))) t"
  by (rule low_of_int) (simp add: s16_def take_bit_signed_take_bit)

definition word_reader :: "int reader \<Rightarrow> 32 word reader" where
  "word_reader D = do { x \<leftarrow> D; State_Monad.return (word_of_int x) }"

lemma word_reader_conveys: "transmits D W x \<Longrightarrow> conveys (word_reader D) (\<lambda>m. Inr (W m)) (word_of_int x)"
  unfolding word_reader_def by (rule conveys_Inr) (rule transmits_last)

definition sent_or :: "bool \<Rightarrow> 32 word reader \<Rightarrow> 32 word \<Rightarrow> 32 word reader" where
  "sent_or c D w = (if c then D else State_Monad.return w)"

lemma sent_or_fills:
  assumes "c \<Longrightarrow> transmits D W x" "c \<Longrightarrow> R k (word_of_int x)" "\<not> c \<Longrightarrow> R k w"
  shows "fills (\<lambda>cur. do { v \<leftarrow> sent_or c (word_reader D) w; State_Monad.return (cur(k := v)) })
    (\<lambda>m. Inr (if c then W m else m)) {k} R"
proof (rule fills_word)
  show "conveys (sent_or c (word_reader D) w) (\<lambda>m. Inr (if c then W m else m)) (if c then word_of_int x else w)"
    using assms(1) by (simp add: sent_or_def word_reader_conveys conveys_Inr transmits_return)
  show "R k (if c then word_of_int x else w)" using assms(2,3) by simp
qed

lemma changed_bits_bit:
  "bit (changed_bits off n from to) i \<longleftrightarrow> i < n \<and> to (off + 4 * i) \<noteq> from (off + 4 * i)"
  by (auto simp: changed_bits_def bit_horner_sum_bit_iff)

lemma changed_bits_less: "changed_bits off n from to < 2 ^ n"
  using horner_sum_of_bool_2_less [of "map (\<lambda>i. to (off + 4 * i) \<noteq> from (off + 4 * i)) [0..<n]"]
  by (simp add: changed_bits_def)

lemma no_changed_bits: "changed_bits off n from to = 0 \<Longrightarrow> i < n \<Longrightarrow> to (off + 4 * i) = from (off + 4 * i)"
  using changed_bits_bit [of off n "from" to i] by auto

primrec read_shorts :: "nat \<Rightarrow> cstruct \<Rightarrow> nat \<Rightarrow> nat list \<Rightarrow> cstruct \<Rightarrow> cstruct reader" where
  "read_shorts off base b [] cur = State_Monad.return cur"
| "read_shorts off base b (i # is) cur =
     do { s \<leftarrow> do { v \<leftarrow> sent_or (bit b i) (word_reader read_short) (base (off + 4 * i)); State_Monad.return (cur(off + 4 * i := v)) };
          read_shorts off base b is s }"

lemma shorts_fill:
  assumes "\<forall>i \<in> set is. R (off + 4 * i) (if bit b i then word_of_int (s16 (sint (to (off + 4 * i)))) else base (off + 4 * i))"
  shows "fills (read_shorts off base b is) (\<lambda>m. Inr (write_shorts off to b is m)) ((\<lambda>i. off + 4 * i) ` set is) R"
  using assms
proof (induction "is")
  case Nil
  have "read_shorts off base b [] = State_Monad.return" by (simp add: fun_eq_iff)
  then show ?case by (simp add: fills_done)
next
  case (Cons i "is")
  have one: "fills (\<lambda>cur. do { v \<leftarrow> sent_or (bit b i) (word_reader read_short) (base (off + 4 * i)); State_Monad.return (cur(off + 4 * i := v)) })
      (\<lambda>m. Inr (if bit b i then MSG_WriteShort (sint (to (off + 4 * i))) m else m)) {off + 4 * i} R"
    using Cons.prems by (intro sent_or_fills [OF short_transmits]) simp_all
  from fills_then_plain [OF one] Cons show ?case by (simp add: fun_eq_iff)
qed

definition offsets :: "nat \<Rightarrow> nat \<Rightarrow> nat list" where
  "offsets off n = map (\<lambda>i. off + 4 * i) [0..<n]"

lemma set_offsets: "set (offsets off n) = (\<lambda>i. off + 4 * i) ` {0..<n}"
  by (simp add: offsets_def)

text \<open>A group of 16.\<close>

definition read_group :: "nat \<Rightarrow> cstruct \<Rightarrow> cstruct \<Rightarrow> cstruct reader" where
  "read_group off base = optional (offsets off 16) base
     (\<lambda>cur. do { b \<leftarrow> read_short; read_shorts off base (nat (b mod 65536)) [0..<16] cur })"

definition shorts_rel :: "cstruct \<Rightarrow> nat \<Rightarrow> 32 word \<Rightarrow> bool" where
  "shorts_rel to k w \<longleftrightarrow> low 16 w (to k)"

lemma group_fills:
  assumes "\<forall>k \<in> set (offsets off 16). shorts_rel from k (base k)"
  shows "fills (read_group off base) (\<lambda>m. Inr (write_group off from to m)) (set (offsets off 16)) (shorts_rel to)"
proof -
  define b where "b = changed_bits off 16 from to"
  have base: "low 16 (base (off + 4 * i)) (from (off + 4 * i))" if "i < 16" for i
    using assms that by (auto simp: shorts_rel_def set_offsets)
  show ?thesis
  proof (cases "b = 0")
    case True
    then have w: "write_group off from to = MSG_WriteBit0" by (simp add: fun_eq_iff write_group_def b_def Let_def)
    have "\<forall>k \<in> set (offsets off 16). shorts_rel to k (base k)"
      using base no_changed_bits [OF True [unfolded b_def]] by (auto simp: shorts_rel_def set_offsets)
    then show ?thesis unfolding w read_group_def by (rule optional_same)
  next
    case False
    then have w: "write_group off from to = (\<lambda>m. write_shorts off to b [0..<16] (MSG_WriteShort (int b) (MSG_WriteBit1 m)))"
      by (simp add: fun_eq_iff write_group_def b_def Let_def)
    have "b < 65536" using changed_bits_less [of off 16 "from" to] by (simp add: b_def)
    then have nb: "nat (s16 (int b) mod 65536) = b" by (simp add: s16_mod_word)
    have "fills (read_shorts off base b [0..<16]) (\<lambda>m. Inr (write_shorts off to b [0..<16] m)) (set (offsets off 16)) (shorts_rel to)"
      using shorts_fill [of "[0..<16]" "shorts_rel to" off b to base] base
      by (simp add: set_offsets b_def changed_bits_bit shorts_rel_def short_low)
    then have "fills (\<lambda>cur. do { b \<leftarrow> read_short; read_shorts off base (nat (b mod 65536)) [0..<16] cur })
        (\<lambda>m. Inr (write_shorts off to b [0..<16] (MSG_WriteShort (int b) m))) (set (offsets off 16)) (shorts_rel to)"
      by (intro fills_after [OF writes_transmit(4), where E = "\<lambda>b. read_shorts off base (nat (b mod 65536)) [0..<16]"
          and W = "\<lambda>m. Inr (write_shorts off to b [0..<16] m)"]) (simp add: nb)
    then show ?thesis unfolding w read_group_def by (rule optional_sent)
  qed
qed

primrec read_groups :: "nat list \<Rightarrow> cstruct \<Rightarrow> cstruct \<Rightarrow> cstruct reader" where
  "read_groups [] base cur = State_Monad.return cur"
| "read_groups (off # offs) base cur = do { s \<leftarrow> read_group off base cur; read_groups offs base s }"

definition groups_region :: "nat list \<Rightarrow> nat list" where
  "groups_region offs = concat (map (\<lambda>off. offsets off 16) offs)"

lemma groups_fill:
  "\<forall>k \<in> set (groups_region offs). shorts_rel from k (base k) \<Longrightarrow>
   fills (read_groups offs base) (\<lambda>m. Inr (write_groups offs from to m)) (set (groups_region offs)) (shorts_rel to)"
proof (induction offs)
  case Nil
  have "read_groups [] base = State_Monad.return" by (simp add: fun_eq_iff)
  then show ?case by (simp add: groups_region_def fills_done)
next
  case (Cons off offs)
  have one: "fills (read_group off base) (\<lambda>m. Inr (write_group off from to m)) (set (offsets off 16)) (shorts_rel to)"
    using Cons.prems by (intro group_fills) (simp add: groups_region_def)
  have "fills (read_groups offs base) (\<lambda>m. Inr (write_groups offs from to m)) (set (groups_region offs)) (shorts_rel to)"
    using Cons by (simp add: groups_region_def)
  from fills_then_plain [OF one this] show ?case by (simp add: groups_region_def fun_eq_iff)
qed

definition read_ammo :: "cstruct \<Rightarrow> cstruct \<Rightarrow> cstruct reader" where
  "read_ammo base = optional (groups_region ammo_groups) base (read_groups ammo_groups base)"

lemma ammo_fills:
  assumes "\<forall>k \<in> set (groups_region ammo_groups). shorts_rel from k (base k)"
  shows "fills (read_ammo base) (\<lambda>m. Inr (write_ammo from to m)) (set (groups_region ammo_groups)) (shorts_rel to)"
proof (cases "list_ex (\<lambda>off. changed_bits off 16 from to \<noteq> 0) ammo_groups")
  case True
  then have "write_ammo from to = (\<lambda>m. write_groups ammo_groups from to (MSG_WriteBit1 m))"
    by (simp add: fun_eq_iff write_ammo_def)
  then show ?thesis unfolding read_ammo_def using optional_sent [OF groups_fill [OF assms]] by simp
next
  case False
  then have w: "write_ammo from to = MSG_WriteBit0" by (simp add: fun_eq_iff write_ammo_def)
  have "shorts_rel to k (base k)" if k: "k \<in> set (groups_region ammo_groups)" for k
  proof -
    obtain off i where k: "off \<in> set ammo_groups" "i < 16" "k = off + 4 * i"
      using k by (auto simp: groups_region_def set_offsets)
    then have "changed_bits off 16 from to = 0" using False by (auto simp: list_ex_iff)
    then show ?thesis using no_changed_bits [of off 16 "from" to i] k assms that by (auto simp: shorts_rel_def)
  qed
  then show ?thesis unfolding w read_ammo_def by (intro optional_same) simp
qed

section \<open>Statistics\<close>

definition read_stats :: "cstruct \<Rightarrow> cstruct \<Rightarrow> cstruct reader" where
  "read_stats base = optional (offsets 328 5) base (\<lambda>cur. do { x \<leftarrow> read_bits 5; let b = nat x in
     do { s \<leftarrow> read_shorts 328 base b [0..<3] cur;
     do { s1 \<leftarrow> do { v \<leftarrow> sent_or (bit b 3) (word_reader (read_bits 6)) (base 340); State_Monad.return (s(340 := v)) };
          do { v \<leftarrow> sent_or (bit b 4) (word_reader read_byte) (base 344); State_Monad.return (s1(344 := v)) } } } })"

definition stats_rel :: "cstruct \<Rightarrow> nat \<Rightarrow> 32 word \<Rightarrow> bool" where
  "stats_rel to k w \<longleftrightarrow> low (if k = 340 then 6 else if k = 344 then 8 else 16) w (to k)"

lemma stats_region: "set (offsets 328 5) = (\<lambda>i. 328 + 4 * i) ` set [0..<3] \<union> ({340} \<union> {344})"
  by (auto simp: offsets_def upt_rec)

lemma stats_fill:
  assumes "\<forall>k \<in> set (offsets 328 5). stats_rel from k (base k)"
  shows "fills (read_stats base) (\<lambda>m. Inr (write_stats from to m)) (set (offsets 328 5)) (stats_rel to)"
proof -
  define b where "b = changed_bits 328 5 from to"
  have base: "stats_rel to (328 + 4 * i) (base (328 + 4 * i))" if "i < 5" "\<not> bit b i" for i
    using assms that changed_bits_bit [of 328 5 "from" to i] by (auto simp: stats_rel_def set_offsets b_def)
  show ?thesis
  proof (cases "b = 0")
    case True
    then have w: "write_stats from to = MSG_WriteBit0" by (simp add: fun_eq_iff write_stats_def b_def Let_def)
    have "\<forall>k \<in> set (offsets 328 5). stats_rel to k (base k)" using base True by (auto simp: set_offsets)
    then show ?thesis unfolding w read_stats_def by (rule optional_same)
  next
    case False
    define W where "W m = (let m1 = write_shorts 328 to b [0..<3] m;
      m2 = (if bit b 3 then MSG_WriteBits (sint (to 340)) 6 m1 else m1) in
      if bit b 4 then MSG_WriteByte (sint (to 344)) m2 else m2)" for m
    have w: "write_stats from to = (\<lambda>m. W (MSG_WriteBits (int b) 5 (MSG_WriteBit1 m)))"
      using False by (simp add: fun_eq_iff write_stats_def b_def Let_def W_def)
    have "b < 32" using changed_bits_less [of 328 5 "from" to] by (simp add: b_def)
    then have b5: "transmits (read_bits 5) (MSG_WriteBits (int b) 5) (int b)"
      using few_bits_transmit [of 5 "int b"] by (simp add: take_bit_int_eq_self)
    have s: "fills (read_shorts 328 base b [0..<3]) (\<lambda>m. Inr (write_shorts 328 to b [0..<3] m)) ((\<lambda>i. 328 + 4 * i) ` set [0..<3]) (stats_rel to)"
    proof (intro shorts_fill ballI)
      fix i assume "i \<in> set [0..<3]"
      then show "stats_rel to (328 + 4 * i) (if bit b i then word_of_int (s16 (sint (to (328 + 4 * i)))) else base (328 + 4 * i))"
        using base [of i] by (cases "bit b i") (auto simp: stats_rel_def short_low)
    qed
    have t3: "fills (\<lambda>cur. do { v \<leftarrow> sent_or (bit b 3) (word_reader (read_bits 6)) (base 340); State_Monad.return (cur(340 := v)) })
        (\<lambda>m. Inr (if bit b 3 then MSG_WriteBits (sint (to 340)) 6 m else m)) {340} (stats_rel to)"
      using base [of 3] few_bits_transmit [of 6 "sint (to 340)"]
      by (intro sent_or_fills) (auto simp: stats_rel_def intro!: low_of_int)
    have t4: "fills (\<lambda>cur. do { v \<leftarrow> sent_or (bit b 4) (word_reader read_byte) (base 344); State_Monad.return (cur(344 := v)) })
        (\<lambda>m. Inr (if bit b 4 then MSG_WriteByte (sint (to 344)) m else m)) {344} (stats_rel to)"
      using base [of 4] writes_transmit(3) [of "sint (to 344)"]
      by (intro sent_or_fills) (auto simp: stats_rel_def take_bit_eq_mod intro!: low_of_int)
    note all = fills_then_plain [OF s fills_then_plain [OF t3 t4]]
    have "fills (\<lambda>cur. do { x \<leftarrow> read_bits 5; let b = nat x in
     do { s \<leftarrow> read_shorts 328 base b [0..<3] cur;
     do { s1 \<leftarrow> do { v \<leftarrow> sent_or (bit b 3) (word_reader (read_bits 6)) (base 340); State_Monad.return (s(340 := v)) };
          do { v \<leftarrow> sent_or (bit b 4) (word_reader read_byte) (base 344); State_Monad.return (s1(344 := v)) } } } })
      (\<lambda>m. Inr (W (MSG_WriteBits (int b) 5 m))) (set (offsets 328 5)) (stats_rel to)"
      unfolding stats_region
      by (rule fills_after [OF b5, where W = "\<lambda>m. Inr (W m)"]) (use all in \<open>simp add: W_def Let_def\<close>)
    then show ?thesis unfolding w read_stats_def by (rule optional_sent)
  qed
qed

end
