(* ===== verification/SnapHud.thy ===== *)
theory SnapHud
  imports SnapArrays
begin

text \<open>
  Reading the arrays of structures of a player, the objectives and the elements of the head-up
  display, and the weapon models.
\<close>

section \<open>A structure within a structure\<close>

definition put_struct :: "nat \<Rightarrow> nat \<Rightarrow> cstruct \<Rightarrow> cstruct \<Rightarrow> cstruct" where
  "put_struct p n s cur = (\<lambda>k. if p \<le> k \<and> k < p + n then s (k - p) else cur k)"

lemma struct_at_at: "struct_at a (struct_at b s) = struct_at (b + a) s"
  by (simp add: struct_at_def fun_eq_iff add.assoc)

lemma conveys_last:
  assumes "conveys D W v"
  shows "conveys (do { x \<leftarrow> D; State_Monad.return (f x) }) W (f v)"
proof -
  have "conveys (do { x \<leftarrow> D; State_Monad.return (f x) }) (\<lambda>m. case W m of Inl x \<Rightarrow> Inl x | Inr m \<Rightarrow> Inr m) (f v)"
    by (rule conveys_bind [where E = "\<lambda>x. State_Monad.return (f x)", OF assms]) (simp add: conveys_Inr transmits_return)
  moreover have "(\<lambda>m. case W m of Inl x \<Rightarrow> Inl x | Inr m \<Rightarrow> Inr m) = W" by (simp add: fun_eq_iff split: sum.split)
  ultimately show ?thesis by simp
qed

lemma struct_fills:
  assumes "conveys D W s" "\<forall>j < n. R (p + j) (s j)"
  shows "fills (\<lambda>cur. do { s \<leftarrow> D; State_Monad.return (put_struct p n s cur) }) W {p..<p + n} R"
proof (rule fillsI)
  fix cur
  have "R k (s (k - p))" if "p \<le> k" "k < p + n" for k using assms(2) [rule_format, of "k - p"] that by simp
  then show "\<exists>new. conveys (do { s \<leftarrow> D; State_Monad.return (put_struct p n s cur) }) W new \<and>
      (\<forall>k \<in> {p..<p + n}. R k (new k)) \<and> (\<forall>k. k \<notin> {p..<p + n} \<longrightarrow> new k = cur k)"
    using conveys_last [OF assms(1), of "\<lambda>s. put_struct p n s cur"]
    by (intro exI [of _ "put_struct p n s cur"]) (auto simp: put_struct_def)
qed

lemma last_different_cases:
  "last_different e from to fs n = -1 \<and> (\<forall>j < n. MSG_ValuesAreEqual e (bits (fs ! j)) (from (offset (fs ! j))) (to (offset (fs ! j)))) \<or>
   (\<exists>j < n. last_different e from to fs n = int j \<and>
      (\<forall>i. j < i \<and> i < n \<longrightarrow> MSG_ValuesAreEqual e (bits (fs ! i)) (from (offset (fs ! i))) (to (offset (fs ! i)))))"
  by (induction n) (auto simp: less_Suc_eq)

section \<open>Objectives\<close>

definition objective_rel :: "snapenv \<Rightarrow> cstruct \<Rightarrow> nat \<Rightarrow> 32 word \<Rightarrow> bool" where
  "objective_rel e to k w \<longleftrightarrow> ((k - 1628) mod 28 = 0 \<longrightarrow> low 3 w (to k)) \<and>
     (\<forall>f \<in> set objectiveFields. offset f = (k - 1628) mod 28 \<longrightarrow> sees e (bits f) w (to k))"

definition read_objective :: "snapenv \<Rightarrow> decoder \<Rightarrow> int \<Rightarrow> cstruct \<Rightarrow> cstruct reader" where
  "read_objective e d time base = do { st \<leftarrow> read_bits 3;
     do { s \<leftarrow> do { z \<leftarrow> read_bit; if z = 0 then State_Monad.return base else read_words e d time base objectiveFields base };
          State_Monad.return (s(0 := word_of_int st)) } }"

primrec read_objectives :: "snapenv \<Rightarrow> decoder \<Rightarrow> int \<Rightarrow> cstruct \<Rightarrow> nat list \<Rightarrow> cstruct \<Rightarrow> cstruct reader" where
  "read_objectives e d time base [] cur = State_Monad.return cur"
| "read_objectives e d time base (i # is) cur =
     do { t \<leftarrow> do { s \<leftarrow> read_objective e d time (struct_at (1628 + 28 * i) base);
                 State_Monad.return (put_struct (1628 + 28 * i) 28 s cur) };
          read_objectives e d time base is t }"

lemma objective_table: "distinct (map offset objectiveFields)"
  "\<forall>f \<in> set objectiveFields. bits f \<noteq> -95 \<and> 0 < offset f \<and> offset f < 28 \<and> offset f mod 4 = 0"
  by (simp_all add: objectiveFields_def)

lemma nth_all: "(\<forall>j < length fs. P (fs ! j)) \<longleftrightarrow> (\<forall>f \<in> set fs. P f)"
  by (auto simp: all_set_conv_all_nth)

lemma objective_conveys:
  assumes "arith_ok e d" "\<forall>f \<in> set objectiveFields. sees e (bits f) (base (offset f)) (from (offset f))"
  obtains s where "conveys (read_objective e d time base)
      (\<lambda>m. MSG_WriteDeltaObjective e time from to (MSG_WriteBits (sint (to 0)) 3 m)) s"
    "low 3 (s 0) (to 0)" "\<forall>f \<in> set objectiveFields. sees e (bits f) (s (offset f)) (to (offset f))"
proof -
  let ?D = "do { z \<leftarrow> read_bit; if z = 0 then State_Monad.return base else read_words e d time base objectiveFields base }"
  let ?st = "take_bit 3 (sint (to 0))"
  have st: "transmits (read_bits 3) (MSG_WriteBits (sint (to 0)) 3) ?st" using few_bits_transmit [of 3] by simp
  have "\<exists>s. conveys ?D (MSG_WriteDeltaObjective e time from to) s \<and>
      (\<forall>f \<in> set objectiveFields. sees e (bits f) (s (offset f)) (to (offset f)))"
  proof (cases "MSG_WriteDelta_LastChangedField e from to objectiveFields = -1")
    case True
    then have w: "MSG_WriteDeltaObjective e time from to = (\<lambda>m. Inr (MSG_WriteBit0 m))"
      by (simp add: fun_eq_iff MSG_WriteDeltaObjective_def)
    have eq: "\<forall>f \<in> set objectiveFields. MSG_ValuesAreEqual e (bits f) (from (offset f)) (to (offset f))"
      using True last_different_cases [of e "from" to objectiveFields "length objectiveFields"]
        nth_all [of objectiveFields "\<lambda>f. MSG_ValuesAreEqual e (bits f) (from (offset f)) (to (offset f))"]
      by (auto simp: MSG_WriteDelta_LastChangedField_def)
    have "conveys ?D (MSG_WriteDeltaObjective e time from to) base" unfolding w by (rule bit_then_conveys(1))
    then show ?thesis using eq assms(2) unsent_seen objective_table(2) by blast
  next
    case False
    then have w: "MSG_WriteDeltaObjective e time from to = (\<lambda>m. write_fields e time from to objectiveFields (MSG_WriteBit1 m))"
      by (simp add: fun_eq_iff MSG_WriteDeltaObjective_def)
    obtain s where s: "conveys (read_words e d time base objectiveFields base) (write_fields e time from to objectiveFields) s"
      "\<forall>f \<in> set objectiveFields. sees e (bits f) (s (offset f)) (to (offset f))"
      using fields_convey [OF assms(1) objective_table(1) _ assms(2), where cur = base and time = time and to = to] objective_table(2) by blast
    have "conveys ?D (MSG_WriteDeltaObjective e time from to) s" unfolding w by (rule bit_then_conveys(2) [OF s(1)])
    then show ?thesis using s(2) by blast
  qed
  then obtain s where s: "conveys ?D (MSG_WriteDeltaObjective e time from to) s"
    "\<forall>f \<in> set objectiveFields. sees e (bits f) (s (offset f)) (to (offset f))" by blast
  let ?s = "s(0 := word_of_int ?st)"
  have "conveys (read_objective e d time base) (\<lambda>m. MSG_WriteDeltaObjective e time from to (MSG_WriteBits (sint (to 0)) 3 m)) ?s"
    unfolding read_objective_def by (rule conveys_after [OF st]) (rule conveys_last [OF s(1)])
  moreover have "\<forall>f \<in> set objectiveFields. sees e (bits f) (?s (offset f)) (to (offset f))"
    using s(2) objective_table(2) by auto
  moreover have "low 3 (?s 0) (to 0)" by (simp add: low_of_int)
  ultimately show ?thesis using that by blast
qed

lemma objective_word: "j < 28 \<Longrightarrow> (1628 + 28 * i + j - 1628) mod 28 = (j :: nat)"
  by simp

lemma objectives_fill:
  assumes "arith_ok e d"
  shows "\<forall>i \<in> set is. \<forall>f \<in> set objectiveFields. sees e (bits f) (base (1628 + 28 * i + offset f)) (from (1628 + 28 * i + offset f)) \<Longrightarrow>
    fills (read_objectives e d time base is) (write_objectives e time from to is)
      (\<Union>i \<in> set is. {1628 + 28 * i..<1628 + 28 * i + 28}) (objective_rel e to)"
proof (induction "is")
  case Nil
  have "write_objectives e time from to [] = (\<lambda>m. Inr m)" "read_objectives e d time base [] = State_Monad.return"
    by (simp_all add: fun_eq_iff)
  then show ?case by (simp add: fills_done)
next
  case (Cons i "is")
  let ?p = "1628 + 28 * i"
  obtain s where s: "conveys (read_objective e d time (struct_at ?p base))
      (\<lambda>m. MSG_WriteDeltaObjective e time (struct_at ?p from) (struct_at ?p to) (MSG_WriteBits (sint (struct_at ?p to 0)) 3 m)) s"
    "low 3 (s 0) (struct_at ?p to 0)" "\<forall>f \<in> set objectiveFields. sees e (bits f) (s (offset f)) (struct_at ?p to (offset f))"
    using objective_conveys [OF assms, of "struct_at ?p base" "struct_at ?p from" time "struct_at ?p to"] Cons.prems
    by (auto simp: struct_at_def)
  have "\<forall>j < 28. objective_rel e to (?p + j) (s j)" using s(2,3) by (auto simp: objective_rel_def struct_at_def)
  then have one: "fills (\<lambda>cur. do { s \<leftarrow> read_objective e d time (struct_at ?p base); State_Monad.return (put_struct ?p 28 s cur) })
      (\<lambda>m. MSG_WriteDeltaObjective e time (struct_at ?p from) (struct_at ?p to) (MSG_WriteBits (sint (struct_at ?p to 0)) 3 m))
      {?p..<?p + 28} (objective_rel e to)"
    by (rule struct_fills [OF s(1)])
  have more: "fills (read_objectives e d time base is) (write_objectives e time from to is)
      (\<Union>i \<in> set is. {1628 + 28 * i..<1628 + 28 * i + 28}) (objective_rel e to)" using Cons by simp
  from fills_then [OF one more] show ?case by (simp add: struct_at_def fun_eq_iff)
qed

section \<open>Elements of the head-up display\<close>

lemma hud_table: "distinct (map offset hudElemFields)" "length hudElemFields = 40"
  "\<forall>f \<in> set hudElemFields. bits f \<noteq> -95 \<and> offset f < 160 \<and> offset f mod 4 = 0"
  by (simp_all add: hudElemFields_def)

definition read_element :: "snapenv \<Rightarrow> decoder \<Rightarrow> int \<Rightarrow> cstruct \<Rightarrow> cstruct reader" where
  "read_element e d time base = do { lc \<leftarrow> read_bits 6; read_words e d time base (take (nat lc + 1) hudElemFields) base }"

lemma element_conveys:
  assumes "arith_ok e d" "\<forall>f \<in> set hudElemFields. sees e (bits f) (base (offset f)) (from (offset f))"
  obtains s where "conveys (read_element e d time base) (write_element e time from to) s"
    "\<forall>f \<in> set hudElemFields. sees e (bits f) (s (offset f)) (to (offset f))"
proof -
  define lc0 where "lc0 = MSG_WriteDelta_LastChangedField e from to hudElemFields"
  define lc where "lc = (if lc0 = -1 then 0 else lc0)"
  have lc: "0 \<le> lc \<and> lc < 40" and rest: "\<forall>i. nat lc < i \<and> i < 40 \<longrightarrow>
      MSG_ValuesAreEqual e (bits (hudElemFields ! i)) (from (offset (hudElemFields ! i))) (to (offset (hudElemFields ! i)))"
    using last_different_cases [of e "from" to hudElemFields 40]
    by (auto simp: lc_def lc0_def MSG_WriteDelta_LastChangedField_def hud_table(2))
  let ?fs = "take (nat lc + 1) hudElemFields"
  have sub: "set ?fs \<subseteq> set hudElemFields" by (rule set_take_subset)
  have p: "distinct (map offset ?fs)" "\<forall>f \<in> set ?fs. bits f \<noteq> -95"
    "\<forall>f \<in> set ?fs. sees e (bits f) (base (offset f)) (from (offset f))"
    using hud_table(1,3) assms(2) sub by (auto simp: take_map [symmetric] distinct_take)
  obtain s where s: "conveys (read_words e d time base ?fs base) (write_fields e time from to ?fs) s"
    "\<forall>f \<in> set ?fs. sees e (bits f) (s (offset f)) (to (offset f))"
    "\<forall>k. k \<notin> offset ` set ?fs \<longrightarrow> s k = base k"
    using fields_convey [OF assms(1) p, where to = to and cur = base and time = time] by blast
  have six: "GetMinBitCount (length hudElemFields) = 6" by (rule count_six) (simp_all add: hud_table(2))
  have w: "write_element e time from to = (\<lambda>m. write_fields e time from to ?fs (MSG_WriteBits lc 6 m))"
    by (simp add: fun_eq_iff write_element_def lc_def lc0_def Let_def six)
  have "transmits (read_bits 6) (MSG_WriteBits lc 6) lc"
    using few_bits_transmit [of 6 lc] lc by (simp add: take_bit_int_eq_self)
  then have "conveys (read_element e d time base) (write_element e time from to) s"
    unfolding w read_element_def by (rule conveys_after) (rule s(1))
  moreover have "sees e (bits f) (s (offset f)) (to (offset f))" if f: "f \<in> set hudElemFields" for f
  proof (cases "f \<in> set ?fs")
    case False
    obtain i where i: "i < 40" "f = hudElemFields ! i" using f by (auto simp: in_set_conv_nth hud_table(2))
    have "nat lc < i"
    proof (rule ccontr)
      assume "\<not> nat lc < i"
      then have "f \<in> set ?fs" using i by (auto simp: in_set_conv_nth hud_table(2) intro!: exI [of _ i])
      then show False using False by simp
    qed
    then have eq: "MSG_ValuesAreEqual e (bits f) (from (offset f)) (to (offset f))" using rest i by simp
    have "offset f \<notin> offset ` set ?fs"
      using hud_table(1) f sub False by (auto simp: distinct_map inj_on_def)
    then have "s (offset f) = base (offset f)" using s(3) by simp
    then show ?thesis using unsent_seen [OF eq] assms(2) hud_table(3) f by metis
  qed (use s(2) in blast)
  ultimately show ?thesis using that by blast
qed

text \<open>\<open>b\<close> is the address of the array.  The first free element ends what is sent.\<close>

definition hud_used :: "nat \<Rightarrow> cstruct \<Rightarrow> nat" where
  "hud_used b to = used_elements (struct_at b to) 0 31"

definition hud_rel :: "snapenv \<Rightarrow> cstruct \<Rightarrow> nat \<Rightarrow> nat \<Rightarrow> 32 word \<Rightarrow> bool" where
  "hud_rel e to b k w \<longleftrightarrow>
     ((k - b) div 160 < hud_used b to \<or> (k - b) div 160 = hud_used b to \<and> (k - b) mod 160 = 0 \<longrightarrow>
      (\<forall>f \<in> set hudElemFields. offset f = (k - b) mod 160 \<longrightarrow> sees e (bits f) w (to k)))"

primrec read_elements :: "snapenv \<Rightarrow> decoder \<Rightarrow> int \<Rightarrow> cstruct \<Rightarrow> nat \<Rightarrow> nat list \<Rightarrow> cstruct \<Rightarrow> cstruct reader" where
  "read_elements e d time base b [] cur = State_Monad.return cur"
| "read_elements e d time base b (i # is) cur =
     do { t \<leftarrow> do { s \<leftarrow> read_element e d time (struct_at (b + 160 * i) base);
                 State_Monad.return (put_struct (b + 160 * i) 160 s cur) };
          read_elements e d time base b is t }"

definition read_hud :: "snapenv \<Rightarrow> decoder \<Rightarrow> int \<Rightarrow> cstruct \<Rightarrow> nat \<Rightarrow> cstruct \<Rightarrow> cstruct reader" where
  "read_hud e d time base b cur = do { n \<leftarrow> read_bits 5;
     do { s \<leftarrow> read_elements e d time base b [0..<nat n] cur;
          State_Monad.return (if n < 31 then s(b + 160 * nat n := HE_TYPE_FREE) else s) } }"

lemma elements_fill:
  assumes "arith_ok e d"
  shows "\<forall>i \<in> set is. \<forall>f \<in> set hudElemFields. sees e (bits f) (base (b + 160 * i + offset f)) (from (b + 160 * i + offset f)) \<Longrightarrow>
    fills (read_elements e d time base b is) (write_elements e time (struct_at b from) (struct_at b to) is)
      (\<Union>i \<in> set is. {b + 160 * i..<b + 160 * i + 160}) (hud_rel e to b)"
proof (induction "is")
  case Nil
  have "write_elements e time (struct_at b from) (struct_at b to) [] = (\<lambda>m. Inr m)"
    "read_elements e d time base b [] = State_Monad.return" by (simp_all add: fun_eq_iff)
  then show ?case by (simp add: fills_done)
next
  case (Cons i "is")
  let ?p = "b + 160 * i"
  obtain s where s: "conveys (read_element e d time (struct_at ?p base)) (write_element e time (struct_at ?p from) (struct_at ?p to)) s"
    "\<forall>f \<in> set hudElemFields. sees e (bits f) (s (offset f)) (struct_at ?p to (offset f))"
    using element_conveys [OF assms, of "struct_at ?p base" "struct_at ?p from" time "struct_at ?p to"] Cons.prems
    by (auto simp: struct_at_def)
  have "\<forall>j < 160. hud_rel e to b (?p + j) (s j)" using s(2) by (auto simp: hud_rel_def struct_at_def)
  then have one: "fills (\<lambda>cur. do { s \<leftarrow> read_element e d time (struct_at ?p base); State_Monad.return (put_struct ?p 160 s cur) })
      (write_element e time (struct_at ?p from) (struct_at ?p to)) {?p..<?p + 160} (hud_rel e to b)"
    by (rule struct_fills [OF s(1)])
  have more: "fills (read_elements e d time base b is) (write_elements e time (struct_at b from) (struct_at b to) is)
      (\<Union>i \<in> set is. {b + 160 * i..<b + 160 * i + 160}) (hud_rel e to b)" using Cons by simp
  from fills_then [OF one more] show ?case by (simp add: struct_at_at fun_eq_iff)
qed

lemma used_elements_cases:
  "i \<le> used_elements to i n \<and> used_elements to i n \<le> i + n \<and>
   (used_elements to i n < i + n \<longrightarrow> struct_at (160 * used_elements to i n) to 0 = HE_TYPE_FREE)"
proof (induction n arbitrary: i)
  case (Suc n)
  show ?case using Suc.IH [of "Suc i"] by auto
qed simp

lemma hud_used_cases: "hud_used b to \<le> 31" "hud_used b to < 31 \<Longrightarrow> to (b + 160 * hud_used b to) = HE_TYPE_FREE"
  using used_elements_cases [of 0 "struct_at b to" 31] by (auto simp: hud_used_def struct_at_def)

lemma hud_fills:
  assumes "arith_ok e d" "\<forall>i < 31. \<forall>f \<in> set hudElemFields.
      sees e (bits f) (base (b + 160 * i + offset f)) (from (b + 160 * i + offset f))"
  shows "fills (read_hud e d time base b) (MSG_WriteDeltaHudElems e time (struct_at b from) (struct_at b to))
    {b..<b + 4960} (hud_rel e to b)"
proof -
  let ?n = "hud_used b to"
  let ?A = "\<Union>i \<in> set [0..<?n]. {b + 160 * i..<b + 160 * i + 160}" and ?B = "if ?n < 31 then {b + 160 * ?n} else {}"
  have n: "?n \<le> 31" by (rule hud_used_cases)
  have "transmits (read_bits 5) (MSG_WriteBits (int ?n) 5) (int ?n)"
    using few_bits_transmit [of 5 "int ?n"] n by (simp add: take_bit_int_eq_self)
  note t = this
  have A: "fills (read_elements e d time base b [0..<?n])
      (write_elements e time (struct_at b from) (struct_at b to) [0..<?n]) ?A (hud_rel e to b)"
    using assms(2) n by (intro elements_fill [OF assms(1)]) auto
  have B: "fills (\<lambda>s. State_Monad.return (if int ?n < 31 then s(b + 160 * nat (int ?n) := HE_TYPE_FREE) else s)) (\<lambda>m. Inr m) ?B (hud_rel e to b)"
  proof (rule fillsI)
    fix cur :: cstruct
    let ?new = "if int ?n < 31 then cur(b + 160 * nat (int ?n) := HE_TYPE_FREE) else cur"
    have "hud_rel e to b (b + 160 * ?n) HE_TYPE_FREE" if "?n < 31"
      using hud_used_cases(2) [OF that] by (simp add: hud_rel_def)
    then have "\<forall>k \<in> ?B. hud_rel e to b k (?new k)" by simp
    moreover have "\<forall>k. k \<notin> ?B \<longrightarrow> ?new k = cur k" by simp
    moreover have "conveys (State_Monad.return ?new) (\<lambda>m. Inr m) ?new" by (rule conveys_Inr [OF transmits_return])
    ultimately show "\<exists>new. conveys (State_Monad.return ?new) (\<lambda>m. Inr m) new \<and> (\<forall>k \<in> ?B. hud_rel e to b k (new k)) \<and>
        (\<forall>k. k \<notin> ?B \<longrightarrow> new k = cur k)"
      by (intro exI [of _ ?new] conjI)
  qed
  have "fills (read_hud e d time base b) (MSG_WriteDeltaHudElems e time (struct_at b from) (struct_at b to)) (?A \<union> ?B) (hud_rel e to b)"
  proof -
    have w: "MSG_WriteDeltaHudElems e time (struct_at b from) (struct_at b to) =
        (\<lambda>m. and_then (write_elements e time (struct_at b from) (struct_at b to) [0..<?n] (MSG_WriteBits (int ?n) 5 m)) (\<lambda>m. Inr m))"
      by (simp add: fun_eq_iff MSG_WriteDeltaHudElems_def hud_used_def MAX_HUDELEMENTS_def and_then_def Let_def split: sum.split)
    show ?thesis unfolding w read_hud_def
      by (rule fills_after [OF t, where W = "\<lambda>m. and_then (write_elements e time (struct_at b from) (struct_at b to) [0..<?n] m) (\<lambda>m. Inr m)"])
        (use fills_then [OF A B] in simp)
  qed
  then show ?thesis
  proof (rule fills_wider)
    show "?A \<union> ?B \<subseteq> {b..<b + 4960}" using n by auto
    fix k w assume k: "k \<in> {b..<b + 4960}" "k \<notin> ?A \<union> ?B"
    define i j where "i = (k - b) div 160" and "j = (k - b) mod 160"
    have kd: "k = b + 160 * i + j" "j < 160" using k(1) by (simp_all add: i_def j_def)
    have "\<not> i < ?n"
    proof
      assume "i < ?n"
      then have "k \<in> ?A" using kd by (auto intro!: bexI [of _ i])
      then show False using k(2) by blast
    qed
    moreover have "\<not> (i = ?n \<and> j = 0)" using k kd by (auto split: if_splits)
    ultimately show "hud_rel e to b k w" by (auto simp: hud_rel_def i_def j_def)
  qed
qed

end
