(* ===== verification/SnapPlayerRead.thy ===== *)
theory SnapPlayerRead
  imports SnapHud
begin

text \<open>
  The weapon models, and the player as a whole: the client that has a copy of the old player ends
  with a copy of the new one.
\<close>

section \<open>Weapon models\<close>

definition models_rel :: "cstruct \<Rightarrow> nat \<Rightarrow> 32 word \<Rightarrow> bool" where
  "models_rel to k w \<longleftrightarrow> (k mod 4 = 0 \<longrightarrow> w = to k)"

definition read_model_word :: "32 word reader" where
  "read_model_word = word_reader (do { b0 \<leftarrow> read_byte; b1 \<leftarrow> read_byte; b2 \<leftarrow> read_byte; b3 \<leftarrow> read_byte;
     State_Monad.return (b0 + 256 * b1 + 65536 * b2 + 16777216 * b3) })"

definition model_word :: "32 word \<Rightarrow> msg \<Rightarrow> msg" where
  "model_word w m = MSG_WriteByte (byte_at 3 w) (MSG_WriteByte (byte_at 2 w) (MSG_WriteByte (byte_at 1 w)
     (MSG_WriteByte (byte_at 0 w) m)))"

lemma plain_byte_transmits: "transmits read_byte (MSG_WriteByte (byte_at k w)) (byte_at k w)"
  using writes_transmit(3) [of "byte_at k w"] byte_at_range [of k w] by simp

lemma bytes_of_word: "byte_at 0 w + 256 * byte_at 1 w + 65536 * byte_at 2 w + 16777216 * byte_at 3 w = uint w"
proof -
  have "x mod 256 + 256 * (x div 256 mod 256) + 65536 * (x div 65536 mod 256) + 16777216 * (x div 16777216 mod 256) =
      x mod 4294967296" for x :: int
    using zmod_zmult2_eq [of 256 x 256] zmod_zmult2_eq [of 256 x 65536] zmod_zmult2_eq [of 256 x 16777216] by simp
  moreover have "uint w mod 4294967296 = uint w" using uint_lt2p [of w] by (intro mod_pos_pos_trivial) simp_all
  moreover have "byte_at 0 w = uint w mod 256" "byte_at 1 w = uint w div 256 mod 256"
    "byte_at 2 w = uint w div 65536 mod 256" "byte_at 3 w = uint w div 16777216 mod 256"
    by (simp_all add: byte_at_def)
  ultimately show ?thesis by metis
qed

lemma model_conveys: "conveys read_model_word (\<lambda>m. Inr (model_word w m)) w"
proof -
  let ?v = "byte_at 0 w + 256 * byte_at 1 w + 65536 * byte_at 2 w + 16777216 * byte_at 3 w"
  have "transmits (do { b0 \<leftarrow> read_byte; b1 \<leftarrow> read_byte; b2 \<leftarrow> read_byte; b3 \<leftarrow> read_byte;
      State_Monad.return (b0 + 256 * b1 + 65536 * b2 + 16777216 * b3) }) (model_word w) ?v"
    unfolding model_word_def [abs_def]
    by (rule transmits_bind [OF plain_byte_transmits], rule transmits_bind [OF plain_byte_transmits],
      rule transmits_bind [OF plain_byte_transmits], rule transmits_last [OF plain_byte_transmits])
  from word_reader_conveys [OF this] show ?thesis unfolding read_model_word_def bytes_of_word word_of_int_uint .
qed

primrec read_models :: "nat list \<Rightarrow> cstruct \<Rightarrow> cstruct reader" where
  "read_models [] cur = State_Monad.return cur"
| "read_models (j # js) cur = do { s \<leftarrow> do { w \<leftarrow> read_model_word; State_Monad.return (cur(2076 + 4 * j := w)) };
     read_models js s }"

primrec write_model_words :: "cstruct \<Rightarrow> nat list \<Rightarrow> msg \<Rightarrow> msg" where
  "write_model_words to [] m = m"
| "write_model_words to (j # js) m = write_model_words to js (model_word (to (2076 + 4 * j)) m)"

lemma write_models_append: "write_models to (xs @ ys) m = write_models to ys (write_models to xs m)"
  by (induction xs arbitrary: m) simp_all

lemma write_models_words:
  "write_models to (concat (map (\<lambda>j. [4 * j, 4 * j + 1, 4 * j + 2, 4 * j + 3]) js)) m = write_model_words to js m"
proof (induction js arbitrary: m)
  case (Cons j js)
  have "(4 * j) mod 4 = 0" "(4 * j + 1) mod 4 = 1" "(4 * j + 2) mod 4 = 2" "(4 * j + 3) mod 4 = 3"
    "(4 * j) div 4 = j" "(4 * j + 1) div 4 = j" "(4 * j + 2) div 4 = j" "(4 * j + 3) div 4 = j"
    by presburger+
  then show ?case using Cons by (simp add: model_word_def)
qed simp

lemma all_models: "[0..<128] = concat (map (\<lambda>j. [4 * j, 4 * j + 1, 4 * j + 2, 4 * j + 3]) [0..<32])"
  by code_simp

lemma models_fill:
  "fills (read_models js) (\<lambda>m. Inr (write_model_words to js m)) ((\<lambda>j. 2076 + 4 * j) ` set js) (models_rel to)"
proof (induction js)
  case Nil
  have "read_models [] = State_Monad.return" by (simp add: fun_eq_iff)
  then show ?case by (simp add: fills_done)
next
  case (Cons j js)
  have "models_rel to (2076 + 4 * j) (to (2076 + 4 * j))" by (simp add: models_rel_def)
  from fills_then_plain [OF fills_word [where R = "models_rel to", OF model_conveys this] Cons.IH] show ?case by (simp add: fun_eq_iff)
qed

section \<open>All arrays\<close>

text \<open>The parts by their addresses; only the first 64 of the 128 ammunition counts are sent.\<close>

definition array_rel :: "snapenv \<Rightarrow> cstruct \<Rightarrow> nat \<Rightarrow> 32 word \<Rightarrow> bool" where
  "array_rel e to k w \<longleftrightarrow>
     (if k < 348 then stats_rel to k w else if k < 1372 then shorts_rel to k w
      else if k < 2076 then objective_rel e to k w else if k < 2212 then models_rel to k w
      else if k < 7172 then hud_rel e to 2212 k w else hud_rel e to 7172 k w)"

definition objectives_region :: "nat list" where "objectives_region = [1628..<2076]"
definition models_region :: "nat list" where "models_region = offsets 2076 32"
definition hud_region :: "nat list" where "hud_region = [2212..<12132]"

definition read_ps_arrays :: "snapenv \<Rightarrow> decoder \<Rightarrow> int \<Rightarrow> cstruct \<Rightarrow> cstruct \<Rightarrow> cstruct reader" where
  "read_ps_arrays e d time base cur = do {
     s1 \<leftarrow> read_stats base cur;
     do { s2 \<leftarrow> read_ammo base s1;
     do { s3 \<leftarrow> read_groups clip_groups base s2;
     do { s4 \<leftarrow> optional objectives_region base (read_objectives e d time base [0..<16]) s3;
     do { s5 \<leftarrow> optional hud_region base (\<lambda>s. do { t \<leftarrow> read_hud e d time base 7172 s; read_hud e d time base 2212 t }) s4;
          optional models_region base (read_models [0..<32]) s5 } } } } }"

text \<open>The client's old copy; of the head-up display also the elements that were not in use.\<close>

definition arrays_base :: "snapenv \<Rightarrow> cstruct \<Rightarrow> cstruct \<Rightarrow> bool" where
  "arrays_base e base from \<longleftrightarrow>
     (\<forall>k \<in> set (offsets 328 5). stats_rel from k (base k)) \<and>
     (\<forall>k \<in> set (groups_region ammo_groups) \<union> set (groups_region clip_groups). shorts_rel from k (base k)) \<and>
     (\<forall>k \<in> set objectives_region. objective_rel e from k (base k)) \<and>
     (\<forall>k \<in> set models_region. base k = from k) \<and>
     (\<forall>b \<in> {2212, 7172}. \<forall>i < 31. \<forall>f \<in> set hudElemFields.
        sees e (bits f) (base (b + 160 * i + offset f)) (from (b + 160 * i + offset f)))"

definition arrays_region :: "nat set" where
  "arrays_region = set (offsets 328 5) \<union> (set (groups_region ammo_groups) \<union> (set (groups_region clip_groups) \<union>
     (set objectives_region \<union> (set hud_region \<union> set models_region))))"

lemma same_words_at:
  assumes "same_words n (struct_at b from) (struct_at b to)" "k = b + 4 * j" "j < n"
  shows "from k = to k"
  using assms by (simp add: same_words_def struct_at_def list_all_iff)

lemma aligned_in:
  assumes "(b :: nat) \<le> k" "k < b + 4 * n" "(k - b) mod 4 = 0"
  obtains j where "k = b + 4 * j" "j < n"
  using that [of "(k - b) div 4"] assms by (simp add: less_mult_imp_div_less minus_mod_eq_mult_div [symmetric])

lemma set_regions: "set objectives_region = {1628..<2076}" "set hud_region = {2212..<12132}"
  by (simp_all only: objectives_region_def hud_region_def set_upt)

lemma objectives_kept:
  assumes "same_words 112 (struct_at 1628 from) (struct_at 1628 to)" "k \<in> set objectives_region" "objective_rel e from k w"
  shows "objective_rel e to k w"
proof -
  have eq: "from k = to k" if "(k - 1628) mod 28 mod 4 = 0"
  proof -
    have "(k - 1628) mod 4 = 0" using that mod_mod_cancel [of 4 28 "k - 1628"] by simp
    then obtain j where "k = 1628 + 4 * j" "j < 112"
      using assms(2) by (auto simp: set_regions intro: aligned_in [of 1628 k 112])
    then show ?thesis by (rule same_words_at [OF assms(1)])
  qed
  show ?thesis unfolding objective_rel_def
  proof (intro conjI impI ballI)
    assume "(k - 1628) mod 28 = 0"
    then show "low 3 w (to k)" using eq assms(3) by (simp add: objective_rel_def)
  next
    fix f assume f: "f \<in> set objectiveFields" "offset f = (k - 1628) mod 28"
    then have "(k - 1628) mod 28 mod 4 = 0" using objective_table(2) by (metis)
    then show "sees e (bits f) w (to k)" using eq assms(3) f by (simp add: objective_rel_def)
  qed
qed

lemma hud_kept:
  assumes "same_words 2480 (struct_at 2212 from) (struct_at 2212 to)" "b = 2212 \<or> b = 7172" "b \<le> k" "k < b + 4960"
    "\<forall>i < 31. \<forall>f \<in> set hudElemFields. sees e (bits f) (base (b + 160 * i + offset f)) (from (b + 160 * i + offset f))"
  shows "hud_rel e to b k (base k)"
  unfolding hud_rel_def
proof (intro impI ballI)
  fix f assume f: "f \<in> set hudElemFields" "offset f = (k - b) mod 160"
  define i where "i = (k - b) div 160"
  have k: "k = b + 160 * i + offset f" "i < 31" using assms(3,4) f(2) by (simp_all add: i_def less_mult_imp_div_less)
  have "offset f mod 4 = 0" using hud_table(3) f(1) by blast
  then have "(k - 2212) mod 4 = 0" using k(1) assms(2) by presburger
  then obtain j where "k = 2212 + 4 * j" "j < 2480"
    using assms(2-4) by (auto intro: aligned_in [of 2212 k 2480])
  then have "from k = to k" by (rule same_words_at [OF assms(1)])
  then show "sees e (bits f) (base k) (to k)" using assms(5) [rule_format, OF k(2) f(1)] k(1) by simp
qed

lemma region_bounds:
  "k \<in> set (offsets 328 5) \<Longrightarrow> 328 \<le> k \<and> k < 348" "k \<in> set (groups_region ammo_groups) \<Longrightarrow> 348 \<le> k \<and> k < 1372"
  "k \<in> set (groups_region clip_groups) \<Longrightarrow> 348 \<le> k \<and> k < 1372" "k \<in> set models_region \<Longrightarrow> 2076 \<le> k \<and> k < 2204"
  by (auto simp: offsets_def groups_region_def ammo_groups_def clip_groups_def models_region_def)

lemma objectives_part:
  assumes "arith_ok e d" "arrays_base e base from"
  shows "fills (optional objectives_region base (read_objectives e d time base [0..<16]))
    (\<lambda>m. if same_words 112 (struct_at 1628 from) (struct_at 1628 to) then Inr (MSG_WriteBit0 m)
         else write_objectives e time from to [0..<16] (MSG_WriteBit1 m)) (set objectives_region) (objective_rel e to)"
proof (cases "same_words 112 (struct_at 1628 from) (struct_at 1628 to)")
  case True
  have "\<forall>k \<in> set objectives_region. objective_rel e to k (base k)"
    using assms(2) objectives_kept [OF True] by (simp add: arrays_base_def)
  then show ?thesis using True by (simp add: optional_same)
next
  case False
  have r: "(\<Union>i \<in> set [0..<16]. {1628 + 28 * i..<1628 + 28 * i + 28}) = set objectives_region"
  proof (unfold set_regions set_upt, rule antisym; rule subsetI)
    fix k :: nat assume k: "k \<in> {1628..<2076}"
    define i where "i = (k - 1628) div 28"
    have "k = 1628 + 28 * i + (k - 1628) mod 28" "(k - 1628) mod 28 < 28" "i < 16"
      using k by (auto simp: i_def div_less_iff_less_mult)
    then have "i < 16" "k \<in> {1628 + 28 * i..<1628 + 28 * i + 28}" by (simp, unfold atLeastLessThan_iff, linarith)
    then show "k \<in> (\<Union>i \<in> {0..<16}. {1628 + 28 * i..<1628 + 28 * i + 28})" by auto
  qed auto
  have "sees e (bits f) (base (1628 + 28 * i + offset f)) (from (1628 + 28 * i + offset f))"
    if "i < 16" "f \<in> set objectiveFields" for i f
  proof -
    have "offset f < 28" using objective_table(2) that(2) by blast
    moreover from this have "1628 + 28 * i + offset f \<in> set objectives_region" using that(1) by (simp add: set_regions)
    ultimately show ?thesis using assms(2) that(2) by (auto simp: arrays_base_def objective_rel_def)
  qed
  then have "\<forall>i \<in> set [0..<16]. \<forall>f \<in> set objectiveFields.
      sees e (bits f) (base (1628 + 28 * i + offset f)) (from (1628 + 28 * i + offset f))" unfolding set_upt by simp
  note parts = objectives_fill [OF assms(1) this, where time = time and to = to, unfolded r]
  from optional_sent [OF parts] show ?thesis using False by simp
qed

lemma hud_part:
  assumes "arith_ok e d" "arrays_base e base from"
  shows "fills (optional hud_region base (\<lambda>s. do { t \<leftarrow> read_hud e d time base 7172 s; read_hud e d time base 2212 t }))
    (\<lambda>m. if same_words 2480 (struct_at 2212 from) (struct_at 2212 to) then Inr (MSG_WriteBit0 m)
         else and_then (MSG_WriteDeltaHudElems e time (struct_at (2212 + 4960) from) (struct_at (2212 + 4960) to) (MSG_WriteBit1 m))
                (MSG_WriteDeltaHudElems e time (struct_at 2212 from) (struct_at 2212 to)))
    (set hud_region) (array_rel e to)"
proof -
  have base: "\<forall>i < 31. \<forall>f \<in> set hudElemFields. sees e (bits f) (base (b + 160 * i + offset f)) (from (b + 160 * i + offset f))"
    if "b = 2212 \<or> b = 7172" for b using assms(2) that by (auto simp: arrays_base_def)
  show ?thesis
  proof (cases "same_words 2480 (struct_at 2212 from) (struct_at 2212 to)")
    case True
    have "array_rel e to k (base k)" if "k \<in> set hud_region" for k
      using that hud_kept [OF True _ _ _ base, of 2212 k] hud_kept [OF True _ _ _ base, of 7172 k]
      by (auto simp: set_regions array_rel_def)
    then show ?thesis using True by (simp add: optional_same)
  next
    case False
    have a: "fills (read_hud e d time base 7172) (MSG_WriteDeltaHudElems e time (struct_at 7172 from) (struct_at 7172 to))
        {7172..<7172 + 4960} (array_rel e to)"
      by (rule fills_mono [OF hud_fills [OF assms(1) base]]) (simp_all add: array_rel_def)
    have c: "fills (read_hud e d time base 2212) (MSG_WriteDeltaHudElems e time (struct_at 2212 from) (struct_at 2212 to))
        {2212..<2212 + 4960} (array_rel e to)"
      by (rule fills_mono [OF hud_fills [OF assms(1) base]]) (simp_all add: array_rel_def)
    have "{7172..<7172 + 4960} \<union> {2212..<2212 + 4960} = set hud_region" by (auto simp: set_regions)
    from optional_sent [where ks = hud_region, OF fills_then [OF a c, unfolded this]] False show ?thesis by simp
  qed
qed

lemma models_part:
  assumes "arrays_base e base from"
  shows "fills (optional models_region base (read_models [0..<32]))
    (\<lambda>m. Inr (if same_words 32 (struct_at 2076 from) (struct_at 2076 to) then MSG_WriteBit0 m
         else write_models to [0..<128] (MSG_WriteBit1 m))) (set models_region) (models_rel to)"
proof (cases "same_words 32 (struct_at 2076 from) (struct_at 2076 to)")
  case True
  have "models_rel to k (base k)" if k: "k \<in> set models_region" for k
  proof -
    obtain j where "k = 2076 + 4 * j" "j < 32" using k by (auto simp: models_region_def set_offsets)
    then show ?thesis using same_words_at [OF True] assms k by (auto simp: models_rel_def arrays_base_def)
  qed
  then show ?thesis using True by (simp add: optional_same)
next
  case False
  have "fills (read_models [0..<32]) (\<lambda>m. Inr (write_models to [0..<128] m)) (set models_region) (models_rel to)"
    using models_fill [of "[0..<32]" to] unfolding all_models write_models_words models_region_def by (simp add: set_offsets)
  from optional_sent [OF this] show ?thesis using False by simp
qed

lemma arrays_fill:
  assumes "arith_ok e d" "arrays_base e base from"
  shows "fills (read_ps_arrays e d time base) (write_ps_arrays e time from to) arrays_region (array_rel e to)"
proof -
  have "\<forall>k \<in> set (offsets 328 5). stats_rel from k (base k)" using assms(2) by (simp add: arrays_base_def)
  then have stats: "fills (read_stats base) (\<lambda>m. Inr (write_stats from to m)) (set (offsets 328 5)) (array_rel e to)"
    by (intro fills_mono [OF stats_fill]) (simp_all add: array_rel_def region_bounds(1))
  have "\<forall>k \<in> set (groups_region ammo_groups). shorts_rel from k (base k)" using assms(2) by (simp add: arrays_base_def)
  then have ammo: "fills (read_ammo base) (\<lambda>m. Inr (write_ammo from to m)) (set (groups_region ammo_groups)) (array_rel e to)"
    by (intro fills_mono [OF ammo_fills]) (auto simp: array_rel_def dest: region_bounds(2))
  have "\<forall>k \<in> set (groups_region clip_groups). shorts_rel from k (base k)" using assms(2) by (simp add: arrays_base_def)
  then have clip: "fills (read_groups clip_groups base) (\<lambda>m. Inr (write_groups clip_groups from to m))
      (set (groups_region clip_groups)) (array_rel e to)"
    by (intro fills_mono [OF groups_fill]) (auto simp: array_rel_def dest: region_bounds(3))
  have objs: "fills (optional objectives_region base (read_objectives e d time base [0..<16]))
    (\<lambda>m. if same_words 112 (struct_at 1628 from) (struct_at 1628 to) then Inr (MSG_WriteBit0 m)
         else write_objectives e time from to [0..<16] (MSG_WriteBit1 m)) (set objectives_region) (array_rel e to)"
    by (rule fills_mono [OF objectives_part [OF assms]]) (simp add: array_rel_def set_regions)
  have mods: "fills (optional models_region base (read_models [0..<32]))
    (\<lambda>m. Inr (if same_words 32 (struct_at 2076 from) (struct_at 2076 to) then MSG_WriteBit0 m
         else write_models to [0..<128] (MSG_WriteBit1 m))) (set models_region) (array_rel e to)"
    by (rule fills_mono [OF models_part [OF assms(2)]]) (auto simp: array_rel_def dest: region_bounds(4))
  show ?thesis
    unfolding read_ps_arrays_def [abs_def] write_ps_arrays_def [abs_def] arrays_region_def Let_def
    using fills_then_plain [OF stats fills_then_plain [OF ammo fills_then_plain [OF clip
      fills_then [OF objs fills_then [OF hud_part [OF assms] mods]]]]] .
qed

section \<open>The player\<close>

lemma player_offsets: "map offset playerStateFields =
    [0, 268, 264, 272, 28, 32, 8, 44, 40, 172, 180, 140, 36, 60, 1576, 144, 12, 1572, 236, 48, 184, 188,
     192, 196, 200, 204, 208, 212, 148, 1492, 176, 280, 244, 136, 276, 1472, 1476, 232, 64, 1480, 16,
     112, 160, 1372, 1376, 1388, 104, 224, 24, 20, 1500, 1532, 2208, 72, 1544, 100, 96, 1436, 88, 1536,
     1608, 1612, 220, 312, 288, 316, 260, 164, 320, 168, 240, 292, 1440, 1444, 1448, 284, 228, 1456, 4,
     1484, 1496, 1560, 128, 1516, 1488, 68, 1420, 1508, 324, 1584, 1588, 1464, 1580, 1428, 1468, 1564,
     1384, 1548, 1424, 132, 1504, 1512, 1404, 76, 1400, 1392, 84, 116, 1432, 2204, 308, 300, 304, 120,
     1460, 1528, 1520, 1524, 1452, 1380, 1540, 1396, 124, 80, 108, 252, 256, 1552, 1556, 1592, 1596,
     1600, 1604, 1616, 1620, 296, 1408, 1412, 1416, 92, 248]"
  by (simp add: playerStateFields_def)

lemma player_bits: "list_all (\<lambda>f. bits f \<noteq> -95) playerStateFields"
  by (simp add: playerStateFields_def)

lemma player_table: "distinct (map offset playerStateFields)" "length playerStateFields < 2 ^ 10"
  "\<forall>f \<in> set playerStateFields. bits f \<noteq> -95 \<and>
     (offset f < 328 \<or> 1372 \<le> offset f \<and> offset f < 1628 \<or> 2204 \<le> offset f \<and> offset f < 2212)"
proof -
  show "distinct (map offset playerStateFields)" unfolding player_offsets by simp
  show "length playerStateFields < 2 ^ 10" by (simp add: playerStateFields_def)
  have "list_all (\<lambda>k. k < 328 \<or> 1372 \<le> k \<and> k < 1628 \<or> 2204 \<le> k \<and> k < 2212) (map offset playerStateFields)"
    unfolding player_offsets by simp
  then show "\<forall>f \<in> set playerStateFields. bits f \<noteq> -95 \<and>
     (offset f < 328 \<or> 1372 \<le> offset f \<and> offset f < 1628 \<or> 2204 \<le> offset f \<and> offset f < 2212)"
    using player_bits by (simp add: list_all_iff)
qed

lemma arrays_region_bounds:
  "k \<in> arrays_region \<Longrightarrow> 328 \<le> k \<and> k < 1372 \<or> 1628 \<le> k \<and> k < 2204 \<or> 2212 \<le> k"
  unfolding arrays_region_def set_regions Un_iff atLeastLessThan_iff using region_bounds [of k] by linarith

lemma no_field_in_arrays: "f \<in> set playerStateFields \<Longrightarrow> offset f \<notin> arrays_region"
  using player_table(3) arrays_region_bounds by force

lemma last_sent_cases:
  "last_sent send i lc fs = lc \<and> (\<forall>f \<in> set fs. \<not> send f) \<or>
   (\<exists>k < length fs. last_sent send i lc fs = i + k + 1 \<and> (\<forall>f \<in> set (drop (Suc k) fs). \<not> send f))"
proof (induction fs arbitrary: i lc)
  case (Cons f fs)
  let ?lc = "if send f then i + 1 else lc"
  from Cons.IH [of "Suc i" ?lc] show ?case
  proof (elim disjE exE conjE)
    assume "last_sent send (Suc i) ?lc fs = ?lc" "\<forall>f \<in> set fs. \<not> send f"
    then show ?thesis by (cases "send f") (auto intro!: exI [of _ 0])
  next
    fix k assume "k < length fs" "last_sent send (Suc i) ?lc fs = Suc i + k + 1" "\<forall>f \<in> set (drop (Suc k) fs). \<not> send f"
    then show ?thesis by (intro disjI2 exI [of _ "Suc k"]) simp
  qed
qed simp

lemma last_sent_rest:
  assumes "lc = last_sent send 0 0 fs"
  shows "lc \<le> length fs" "f \<in> set (drop lc fs) \<Longrightarrow> \<not> send f"
  using last_sent_cases [of send 0 0 fs] assms by auto

definition read_player :: "snapenv \<Rightarrow> decoder \<Rightarrow> bool \<Rightarrow> int \<Rightarrow> cstruct \<Rightarrow> (bool \<times> cstruct) reader" where
  "read_player e d arch time base = do { orig \<leftarrow> read_bit;
     do { new \<leftarrow> do { lc \<leftarrow> read_bits (GetMinBitCount (length playerStateFields));
            do { s \<leftarrow> read_ps_fields e d arch time base (take (nat lc) playerStateFields)
                     (keep (map offset playerStateFields) base base);
                 read_ps_arrays e d time base s } };
          State_Monad.return (orig \<noteq> 0, new) } }"

definition old_player :: "cstruct option \<Rightarrow> cstruct" where
  "old_player from = (case from of None \<Rightarrow> null_struct | Some s \<Rightarrow> s)"

definition player_base :: "snapenv \<Rightarrow> cstruct \<Rightarrow> cstruct \<Rightarrow> bool" where
  "player_base e base from \<longleftrightarrow>
     (\<forall>f \<in> set playerStateFields. sees e (bits f) (base (offset f)) (from (offset f))) \<and> arrays_base e base from"

definition send_origin :: "snapinfo \<Rightarrow> cstruct \<Rightarrow> bool" where
  "send_origin info to \<longleftrightarrow> archived info \<or> \<not> (clientArchive info \<and> near info to \<and> predictedTime info = sint (to 0))"

definition field_sent :: "snapenv \<Rightarrow> snapinfo \<Rightarrow> cstruct \<Rightarrow> cstruct \<Rightarrow> netField \<Rightarrow> bool" where
  "field_sent e info from to = MSG_ShouldSendPSField e info (send_origin info to) to from"

text \<open>What the client's new player stands for.\<close>

definition player_seen :: "snapenv \<Rightarrow> snapinfo \<Rightarrow> cstruct \<Rightarrow> cstruct \<Rightarrow> cstruct \<Rightarrow> bool" where
  "player_seen e info from to new \<longleftrightarrow>
     (\<forall>f \<in> set playerStateFields. due (field_sent e info from to) f \<longrightarrow> sees e (bits f) (new (offset f)) (to (offset f))) \<and>
     (\<forall>k \<in> arrays_region. array_rel e to k (new k))"

lemma player_fields_fill:
  assumes "arith_ok e d" "player_base e base from" "lc = last_sent (field_sent e info from to) 0 0 playerStateFields"
  shows "fills (\<lambda>cur. read_ps_fields e d (archived info) time base (take lc playerStateFields)
      (keep (map offset playerStateFields) base cur))
    (write_ps_fields e info (field_sent e info from to) time from to (take lc playerStateFields))
    (set (map offset playerStateFields)) (field_rel e (field_sent e info from to) to)"
proof (rule fills_over)
  let ?fs = "take lc playerStateFields" and ?send = "field_sent e info from to"
  have sub: "set ?fs \<subseteq> set playerStateFields" by (rule set_take_subset)
  have ch: "sends_changes e (archived info) ?send from to"
    unfolding field_sent_def by (rule should_send_changes)
  have seen: "\<forall>f \<in> set playerStateFields. sees e (bits f) (base (offset f)) (from (offset f))"
    using assms(2) by (simp add: player_base_def)
  show "fills (read_ps_fields e d (archived info) time base ?fs) (write_ps_fields e info ?send time from to ?fs)
      (offset ` set ?fs) (field_rel e ?send to)"
    using sub seen player_table(3) by (intro ps_fields_fill [OF assms(1) ch sub player_table(1)]) auto
  show "offset ` set ?fs \<subseteq> set (map offset playerStateFields)" using sub by auto
  show "\<forall>k \<in> set (map offset playerStateFields) - offset ` set ?fs. field_rel e ?send to k (base k)"
  proof
    fix k assume k: "k \<in> set (map offset playerStateFields) - offset ` set ?fs"
    have "sees e (bits f) (base k) (to k)" if f: "f \<in> set playerStateFields" "offset f = k" "due ?send f" for f
    proof -
      have "f \<notin> set ?fs" using k f(2) by auto
      then have "f \<in> set (drop lc playerStateFields)" using f(1) append_take_drop_id [of lc playerStateFields]
        by (metis Un_iff set_append)
      then have "\<not> ?send f" using last_sent_rest(2) [OF assms(3)] by blast
      then show ?thesis using unsent_due [OF ch _ _ _ f(3)] seen player_table(3) f(1,2) by blast
    qed
    then show "field_rel e ?send to k (base k)" by (simp add: field_rel_def)
  qed
qed

theorem player_conveys:
  assumes "arith_ok e d" "player_base e base (old_player from)"
  shows "\<exists>new. conveys (read_player e d (archived info) time base) (MSG_WriteDeltaPlayerstate e info time from to)
      (send_origin info to, new) \<and> player_seen e info (old_player from) to new"
proof -
  let ?from = "old_player from" and ?send = "field_sent e info (old_player from) to"
  let ?n = "GetMinBitCount (length playerStateFields)"
  define lc where "lc = last_sent ?send 0 0 playerStateFields"
  have "lc < 2 ^ ?n" using last_sent_rest(1) [OF lc_def] GetMinBitCount_bound [of "length playerStateFields"] by simp
  then have "int lc < int (2 ^ ?n)" by (simp only: of_nat_less_iff)
  then have tb: "take_bit ?n (int lc) = int lc" by (intro take_bit_int_eq_self) simp_all
  have "?n \<le> 10" by (rule GetMinBitCount_least [OF player_table(2)])
  then have lcw: "transmits (read_bits ?n) (MSG_WriteBits (int lc) ?n) (int lc)"
    using few_bits_transmit [of ?n "int lc"] tb by simp
  let ?W = "\<lambda>m. and_then (write_ps_fields e info ?send time ?from to (take lc playerStateFields) m) (write_ps_arrays e time ?from to)"
  have arr: "arrays_base e base ?from" using assms(2) by (simp add: player_base_def)
  obtain s where s: "conveys (read_ps_fields e d (archived info) time base (take lc playerStateFields)
        (keep (map offset playerStateFields) base base))
      (write_ps_fields e info ?send time ?from to (take lc playerStateFields)) s"
    "\<forall>k \<in> set (map offset playerStateFields). field_rel e ?send to k (s k)"
    by (rule fillsE [OF player_fields_fill [OF assms lc_def, where time = time]])
  obtain new where new: "conveys (read_ps_arrays e d time base s) (write_ps_arrays e time ?from to) new"
    "\<forall>k \<in> arrays_region. array_rel e to k (new k)" "\<forall>k. k \<notin> arrays_region \<longrightarrow> new k = s k"
    by (rule fillsE [OF arrays_fill [OF assms(1) arr]])
  have "conveys (do { s \<leftarrow> read_ps_fields e d (archived info) time base (take lc playerStateFields)
        (keep (map offset playerStateFields) base base); read_ps_arrays e d time base s }) ?W new"
    unfolding and_then_case by (rule conveys_bind [where E = "read_ps_arrays e d time base", OF s(1) new(1)])
  then have "conveys (do { lc \<leftarrow> read_bits ?n;
      do { s \<leftarrow> read_ps_fields e d (archived info) time base (take (nat lc) playerStateFields)
             (keep (map offset playerStateFields) base base); read_ps_arrays e d time base s } })
      (\<lambda>m. ?W (MSG_WriteBits (int lc) ?n m)) new"
    by (intro conveys_after [OF lcw, where W = ?W]) simp
  note body = conveys_last [OF this, of "\<lambda>new. (z \<noteq> 0, new)" for z]
  have bit: "transmits read_bit (\<lambda>m. if send_origin info to then MSG_WriteBit1 m else MSG_WriteBit0 m) (of_bool (send_origin info to))"
    using writes_transmit(1,2) by (cases "send_origin info to") simp_all
  have w: "MSG_WriteDeltaPlayerstate e info time from to = (\<lambda>m. ?W (MSG_WriteBits (int lc) ?n
      (if send_origin info to then MSG_WriteBit1 m else MSG_WriteBit0 m)))"
    by (simp add: fun_eq_iff MSG_WriteDeltaPlayerstate_def Let_def lc_def field_sent_def send_origin_def old_player_def)
  have "conveys (read_player e d (archived info) time base) (MSG_WriteDeltaPlayerstate e info time from to) (send_origin info to, new)"
    unfolding w read_player_def
    by (rule conveys_after [OF bit, where W = "\<lambda>m. ?W (MSG_WriteBits (int lc) ?n m)"])
      (use body [of "of_bool (send_origin info to)"] in simp)
  moreover have "player_seen e info ?from to new"
    using s(2) new(2,3) no_field_in_arrays by (auto simp: player_seen_def field_rel_def)
  ultimately show ?thesis by blast
qed

end
