(* ===== verification/SnapWalk.thy ===== *)
theory SnapWalk
  imports SnapFrame
begin

text \<open>
  Lists of structures in a snapshot.  The server merges its old and its new list, both sorted by
  number, and sends the differences; the client walks its own old list while it reads the numbers
  and ends with a list that stands for the new one.  The locale \<open>sent_list\<close> states what the encoding of
  one element has to ensure; entities and clients are its instances.
\<close>

section \<open>The merge of two lists\<close>

type_synonym element_writer = "cstruct \<Rightarrow> cstruct option \<Rightarrow> bool \<Rightarrow> msg \<Rightarrow> snap_error + (cstruct option \<times> msg)"

fun merge_lists :: "element_writer \<Rightarrow> (int \<Rightarrow> cstruct) \<Rightarrow> cstruct list \<Rightarrow> cstruct list \<Rightarrow> msg \<Rightarrow>
    snap_error + (cstruct list \<times> msg)" where
  "merge_lists wr base [] [] m = Inr ([], m)"
| "merge_lists wr base (x # os) [] m = and_then (wr x None True m) (\<lambda>(s, m1). merge_lists wr base os [] m1)"
| "merge_lists wr base [] (n # ns) m =
     and_then (wr (base (entity_number n)) (Some n) True m) (\<lambda>(s, m1).
       and_then (merge_lists wr base [] ns m1) (\<lambda>(ss, m2). Inr (the s # ss, m2)))"
| "merge_lists wr base (x # os) (n # ns) m =
     (if entity_number n = entity_number x then
        and_then (wr x (Some n) False m) (\<lambda>(s, m1).
          and_then (merge_lists wr base os ns m1) (\<lambda>(ss, m2). Inr (the s # ss, m2)))
      else if entity_number n < entity_number x then
        and_then (wr (base (entity_number n)) (Some n) True m) (\<lambda>(s, m1).
          and_then (merge_lists wr base (x # os) ns m1) (\<lambda>(ss, m2). Inr (the s # ss, m2)))
      else and_then (wr x None True m) (\<lambda>(s, m1). merge_lists wr base os (n # ns) m1))"

lemma merge_pairs [case_names none gone fresh both]:
  assumes "P [] []" "\<And>x os. P os [] \<Longrightarrow> P (x # os) []" "\<And>n ns. P [] ns \<Longrightarrow> P [] (n # ns)"
    "\<And>x os n ns. P os ns \<Longrightarrow> P (x # os) ns \<Longrightarrow> P os (n # ns) \<Longrightarrow> P (x # os) (n # ns)"
  shows "P olds news"
proof (induction "length olds + length news" arbitrary: olds news rule: less_induct)
  case less
  then show ?case using assms by (cases olds; cases news) simp_all
qed

lemma merge_length: "merge_lists wr base olds news m = Inr (sent, m1) \<Longrightarrow> length sent = length news"
  by (induction wr base olds news m arbitrary: sent m1 rule: merge_lists.induct)
    (auto simp: and_then_Inr split: if_splits)

section \<open>The client's walk\<close>

text \<open>\<open>olds\<close> is the client's old list; a number that it does not have starts from \<open>base\<close>.\<close>

definition walk_base :: "(int \<Rightarrow> cstruct) \<Rightarrow> int \<Rightarrow> cstruct list \<Rightarrow> cstruct" where
  "walk_base base i rest = (case rest of [] \<Rightarrow> base i | c # cs \<Rightarrow> if entity_number c = i then c else base i)"

definition walk_rest :: "int \<Rightarrow> cstruct list \<Rightarrow> cstruct list" where
  "walk_rest i rest = (case rest of [] \<Rightarrow> [] | c # cs \<Rightarrow> if entity_number c = i then cs else rest)"

primrec read_walk :: "int option reader \<Rightarrow> (cstruct \<Rightarrow> 32 word \<Rightarrow> cstruct reader) \<Rightarrow> (int \<Rightarrow> cstruct) \<Rightarrow> nat \<Rightarrow>
    cstruct list \<Rightarrow> cstruct list reader" where
  "read_walk head body base 0 olds = State_Monad.return olds"
| "read_walk head body base (Suc n) olds = do { h \<leftarrow> head;
     case h of None \<Rightarrow> State_Monad.return olds
     | Some i \<Rightarrow> do { gone \<leftarrow> read_bit;
       let kept = takeWhile (\<lambda>c. entity_number c < i) olds; rest = dropWhile (\<lambda>c. entity_number c < i) olds in
       if gone = 0 then do { new \<leftarrow> body (walk_base base i rest) (word_of_int i);
         more \<leftarrow> read_walk head body base n (walk_rest i rest); State_Monad.return (kept @ new # more) }
       else do { more \<leftarrow> read_walk head body base n (walk_rest i rest); State_Monad.return (kept @ more) } } }"

text \<open>The tail of a walk, after the copies \<open>pre\<close> that are already passed.\<close>

lemma walk_split:
  assumes "\<forall>c \<in> set pre. entity_number c < i" "cs = [] \<or> i \<le> entity_number (hd cs)"
  shows "takeWhile (\<lambda>c. entity_number c < i) (pre @ cs) = pre" "dropWhile (\<lambda>c. entity_number c < i) (pre @ cs) = cs"
  using assms by (cases cs; auto)+

lemma present_walk:
  assumes i: "transfers head m m0 (Some i)"
    and p: "transfers read_bit m0 m1 0" "transfers (body (walk_base base i cs) (word_of_int i)) m1 m2 new"
    and pre: "\<forall>c \<in> set pre. entity_number c < i" "cs = [] \<or> i \<le> entity_number (hd cs)"
    and more: "transfers (read_walk head body base n (walk_rest i cs)) m2 m3 vs"
  shows "transfers (read_walk head body base (Suc n) (pre @ cs)) m m3 (pre @ new # vs)"
proof -
  have "transfers (do { new \<leftarrow> body (walk_base base i cs) (word_of_int i);
      more \<leftarrow> read_walk head body base n (walk_rest i cs); State_Monad.return (pre @ new # more) }) m1 m3 (pre @ new # vs)"
    using transfers_ok [OF more] by (intro transfers_bind [OF p(2)] transfers_bind [OF more] transfers_return) simp
  then show ?thesis unfolding read_walk.simps Let_def
    by (intro transfers_bind [OF i(1)]) (simp, intro transfers_bind [OF p(1)], simp add: walk_split [OF pre])
qed

lemma removed_walk:
  assumes i: "transfers head m m0 (Some i)" and p: "transfers read_bit m0 m1 1"
    and pre: "\<forall>c \<in> set pre. entity_number c < i" "cs = [] \<or> i \<le> entity_number (hd cs)"
    and more: "transfers (read_walk head body base n (walk_rest i cs)) m1 m2 vs"
  shows "transfers (read_walk head body base (Suc n) (pre @ cs)) m m2 (pre @ vs)"
proof -
  have "transfers (do { more \<leftarrow> read_walk head body base n (walk_rest i cs); State_Monad.return (pre @ more) }) m1 m2 (pre @ vs)"
    using transfers_ok [OF more] by (intro transfers_bind [OF more] transfers_return) simp
  then show ?thesis unfolding read_walk.simps Let_def
    by (intro transfers_bind [OF i(1)]) (simp, intro transfers_bind [OF p], simp add: walk_split [OF pre])
qed

lemma last_walk:
  assumes "transfers head m m1 None"
  shows "transfers (read_walk head body base (Suc n) cs) m m1 cs"
  unfolding read_walk.simps
  using transfers_ok [OF assms] by (intro transfers_bind [OF assms]) (simp add: transfers_return)

section \<open>What the client ends with\<close>

text \<open>
  The client's list stands for what was sent, which is the new list up to what the server itself
  changes in its copies.
\<close>

definition received :: "(cstruct \<Rightarrow> cstruct \<Rightarrow> bool) \<Rightarrow> (cstruct \<Rightarrow> cstruct \<Rightarrow> bool) \<Rightarrow> (cstruct list \<Rightarrow> cstruct list reader) \<Rightarrow>
    cstruct list \<Rightarrow> cstruct list \<Rightarrow> cstruct list \<Rightarrow> cstruct list \<Rightarrow> msg \<Rightarrow> msg \<Rightarrow> bool" where
  "received stands sent_for reader pre colds sent news m m2 \<longleftrightarrow>
     list_all2 sent_for sent news \<and> (\<exists>cnews. list_all2 stands cnews sent \<and>
       transfers (reader (pre @ colds)) m m2 (pre @ cnews))"

lemma received_sent:
  assumes s: "sent_for s n" "stands new s" "i = entity_number n"
    and t: "transfers head m m0 (Some i)" "transfers read_bit m0 m' 0"
      "transfers (body (walk_base base i cs) (word_of_int i)) m' m1 new"
    and pre: "\<forall>c \<in> set pre. entity_number c < i" "cs = [] \<or> i \<le> entity_number (hd cs)"
    and more: "received stands sent_for (read_walk head body base k) [] (walk_rest i cs) sent news m1 m2"
  shows "received stands sent_for (read_walk head body base (Suc k)) pre cs (s # sent) (n # news) m m2"
proof -
  obtain cnews where c: "list_all2 stands cnews sent" "list_all2 sent_for sent news"
    "transfers (read_walk head body base k (walk_rest i cs)) m1 m2 cnews"
    using more by (auto simp: received_def)
  show ?thesis using present_walk [where body = body and base = base, OF t pre c(3)] c(1,2) s(1,2)
    by (auto simp: received_def intro!: exI [of _ "new # cnews"])
qed

lemma received_removed:
  assumes "transfers head m m0 (Some i)" "transfers read_bit m0 m1 1"
    and pre: "\<forall>c \<in> set pre. entity_number c < i" "cs = [] \<or> i \<le> entity_number (hd cs)"
    and more: "received stands sent_for (read_walk head body base k) [] (walk_rest i cs) sent news m1 m2"
  shows "received stands sent_for (read_walk head body base (Suc k)) pre cs sent news m m2"
proof -
  obtain cnews where c: "list_all2 stands cnews sent" "list_all2 sent_for sent news"
    "transfers (read_walk head body base k (walk_rest i cs)) m1 m2 cnews"
    using more by (auto simp: received_def)
  show ?thesis using removed_walk [OF assms(1,2) pre c(3)] c(1,2) by (auto simp: received_def)
qed

definition old_copy :: "(cstruct \<Rightarrow> cstruct \<Rightarrow> cstruct \<Rightarrow> bool) \<Rightarrow> cstruct list \<Rightarrow> cstruct \<Rightarrow> cstruct \<Rightarrow> bool" where
  "old_copy based news c x \<longleftrightarrow> c 0 = x 0 \<and> (\<forall>n \<in> set news. entity_number n = entity_number x \<longrightarrow> based n c x)"

lemma old_copy_number: "old_copy based news c x \<Longrightarrow> entity_number c = entity_number x"
  by (simp add: old_copy_def entity_number_def)

lemma old_copy_less:
  assumes "list_all2 (old_copy based news) cs xs" "set ns \<subseteq> set news"
  shows "list_all2 (old_copy based ns) cs xs"
  using assms(1) by (rule list_all2_mono) (use assms(2) in \<open>auto simp: old_copy_def\<close>)

lemma same_number: "entity_number a = entity_number b \<longleftrightarrow> a 0 = b 0"
  by (auto simp: entity_number_def intro: signed_word_eqI)

text \<open>
  Both lists are sorted, and the client has copies of the old list and of the bases.  \<open>l\<close> is the
  last number written, \<open>limit\<close> lies above all numbers.
\<close>

definition merge_ready :: "(cstruct \<Rightarrow> cstruct \<Rightarrow> cstruct \<Rightarrow> bool) \<Rightarrow> (cstruct \<Rightarrow> bool) \<Rightarrow> int \<Rightarrow> (int \<Rightarrow> cstruct) \<Rightarrow>
    (int \<Rightarrow> cstruct) \<Rightarrow> int \<Rightarrow> cstruct list \<Rightarrow> cstruct list \<Rightarrow> cstruct list \<Rightarrow> bool" where
  "merge_ready based sendable limit cbase base l colds olds news \<longleftrightarrow>
     sorted_wrt (<) (map entity_number olds) \<and> sorted_wrt (<) (map entity_number news) \<and>
     (\<forall>x \<in> set olds \<union> set news. l < entity_number x \<and> entity_number x < limit) \<and>
     (\<forall>n \<in> set news. sendable n) \<and> list_all2 (old_copy based news) colds olds \<and>
     (\<forall>n \<in> set news. (\<forall>x \<in> set olds. entity_number x \<noteq> entity_number n) \<longrightarrow>
        based n (cbase (entity_number n)) (base (entity_number n)))"

lemma merge_ready_both:
  assumes "merge_ready P Q limit cb b l (c # cs) (x # os) (n # ns)" "entity_number n = entity_number x"
    "l' = l \<or> l' = entity_number x"
  shows "merge_ready P Q limit cb b l' cs os ns"
  using assms old_copy_less [of P "n # ns" cs os ns] by (auto simp: merge_ready_def)

lemma merge_ready_new:
  assumes "merge_ready P Q limit cb b l cs os (n # ns)" "\<forall>x \<in> set os. entity_number n < entity_number x"
  shows "merge_ready P Q limit cb b (entity_number n) cs os ns"
  using assms old_copy_less [of P "n # ns" cs os ns] by (auto simp: merge_ready_def)

lemma merge_ready_gone:
  assumes "merge_ready P Q limit cb b l (c # cs) (x # os) ns" "\<forall>n \<in> set ns. entity_number x < entity_number n"
  shows "merge_ready P Q limit cb b (entity_number x) cs os ns"
  using assms by (auto simp: merge_ready_def)

lemma merge_ready_old:
  assumes "merge_ready P Q limit cb b l (c # cs) (x # os) news"
  shows "entity_number c = entity_number x" "\<forall>y \<in> set os. entity_number x < entity_number y"
    "l < entity_number x" "entity_number x < limit" "old_copy P news c x"
  using assms old_copy_number by (auto simp: merge_ready_def)

lemma merge_ready_first:
  assumes "merge_ready P Q limit cb b l cs os (n # ns)"
  shows "l < entity_number n" "entity_number n < limit" "Q n" "\<forall>y \<in> set ns. entity_number n < entity_number y"
    "\<forall>x \<in> set os. entity_number x \<noteq> entity_number n \<Longrightarrow> P n (cb (entity_number n)) (b (entity_number n))"
  using assms by (auto simp: merge_ready_def)

lemma merge_ready_heads:
  assumes "merge_ready P Q limit cb b l cs os news"
  shows "cs = [] \<longleftrightarrow> os = []" "os \<noteq> [] \<Longrightarrow> entity_number (hd cs) = entity_number (hd os)"
  using assms old_copy_number by (cases cs; cases os; auto simp: merge_ready_def)+

section \<open>The laws of an encoding, and what follows\<close>

locale sent_list =
  fixes wr :: element_writer
    and removal :: "cstruct \<Rightarrow> msg \<Rightarrow> msg"
    and finish :: "msg \<Rightarrow> msg"
    and head :: "int option reader"
    and body :: "cstruct \<Rightarrow> 32 word \<Rightarrow> cstruct reader"
    and based :: "cstruct \<Rightarrow> cstruct \<Rightarrow> cstruct \<Rightarrow> bool"
    and sendable :: "cstruct \<Rightarrow> bool"
    and stands :: "cstruct \<Rightarrow> cstruct \<Rightarrow> bool"
    and sent_for :: "cstruct \<Rightarrow> cstruct \<Rightarrow> bool"
    and limit :: int
  assumes removal_written: "wr x None True m = Inr (None, removal x m)"
    and removal_sticky: "overflowed m \<Longrightarrow> overflowed (removal x m)"
    and removal_last: "lastRefEntity (removal x m) = entity_number x"
    and removal_read: "wr_ok m \<Longrightarrow> \<not> overflowed (removal x m) \<Longrightarrow> - 1 \<le> lastRefEntity m \<Longrightarrow>
      lastRefEntity m < entity_number x \<Longrightarrow> entity_number x < limit \<Longrightarrow>
      \<exists>m0. transfers head m m0 (Some (entity_number x)) \<and> transfers read_bit m0 (removal x m) 1"
    and element_sticky: "wr from (Some n) force m = Inr (s, m1) \<Longrightarrow> sendable n \<Longrightarrow> overflowed m \<Longrightarrow> overflowed m1"
    and element_sent: "wr from (Some n) force m = Inr (s, m1) \<Longrightarrow> sendable n \<Longrightarrow> sent_for (the s) n"
    and element_read: "wr from (Some n) force m = Inr (s, m1) \<Longrightarrow> sendable n \<Longrightarrow> based n base from \<Longrightarrow> wr_ok m \<Longrightarrow>
      \<not> overflowed m1 \<Longrightarrow> - 1 \<le> lastRefEntity m \<Longrightarrow> lastRefEntity m < entity_number n \<Longrightarrow> entity_number n < limit \<Longrightarrow>
      \<not> force \<and> m1 = m \<and> (base 0 = n 0 \<longrightarrow> stands base (the s)) \<or>
      (\<exists>m0 m' new. stands new (the s) \<and> lastRefEntity m1 = entity_number n \<and>
        transfers head m m0 (Some (entity_number n)) \<and> transfers read_bit m0 m' 0 \<and>
        transfers (body base (word_of_int (entity_number n))) m' m1 new)"
    and finish_sticky: "overflowed m \<Longrightarrow> overflowed (finish m)"
    and finish_read: "wr_ok m \<Longrightarrow> \<not> overflowed (finish m) \<Longrightarrow> - 1 \<le> lastRefEntity m \<Longrightarrow> lastRefEntity m < limit \<Longrightarrow>
      transfers head m (finish m) None"
begin

lemma merge_sticky:
  "merge_lists wr base olds news m = Inr (sent, m1) \<Longrightarrow> \<forall>n \<in> set news. sendable n \<Longrightarrow> overflowed m \<Longrightarrow> overflowed m1"
proof (induction olds news arbitrary: m sent m1 rule: merge_pairs)
  case (fresh n ns)
  then obtain s m2 ss where "wr (base (entity_number n)) (Some n) True m = Inr (s, m2)"
    "merge_lists wr base [] ns m2 = Inr (ss, m1)"
    by (auto simp: and_then_Inr)
  then show ?case using fresh element_sticky by auto
next
  case (both x os n ns)
  show ?case
  proof (cases "entity_number n \<le> entity_number x")
    case True
    then obtain x0 force s m2 os' ss where w: "wr x0 (Some n) force m = Inr (s, m2)"
      "merge_lists wr base os' ns m2 = Inr (ss, m1)" "os' = os \<or> os' = x # os"
      using both.prems(1) by (auto simp: and_then_Inr split: if_splits)
    then have "overflowed m2" using both.prems(2,3) element_sticky by auto
    then show ?thesis using both.IH(1,2) w(2,3) both.prems(2) by auto
  next
    case False
    then show ?thesis using both removal_sticky by (simp add: removal_written)
  qed
qed (simp_all add: removal_written removal_sticky)

lemma ends_sticky:
  assumes "merge_lists wr base olds news m = Inr (sent, m1)" "merge_ready based sendable limit cb b l cs os news"
    "\<not> overflowed (finish m1)"
  shows "\<not> overflowed m"
  using merge_sticky [OF assms(1)] assms(2,3) finish_sticky by (auto simp: merge_ready_def)

text \<open>An element of the new list: either its record is read, or nothing was written.\<close>

lemma element_cases:
  assumes "wr from (Some n) force m = Inr (s, m1)" "sendable n" "based n base from" "wr_ok m" "\<not> overflowed m1"
    "- 1 \<le> lastRefEntity m" "lastRefEntity m < entity_number n" "entity_number n < limit"
  obtains (kept) "\<not> force" "m1 = m" "base 0 = n 0 \<Longrightarrow> stands base (the s)"
    | (sent) m0 m' new where "stands new (the s)" "lastRefEntity m1 = entity_number n"
      "transfers head m m0 (Some (entity_number n))" "transfers read_bit m0 m' 0"
      "transfers (body base (word_of_int (entity_number n))) m' m1 new" "wr_ok m1"
proof -
  consider "\<not> force \<and> m1 = m \<and> (base 0 = n 0 \<longrightarrow> stands base (the s))"
    | "\<exists>m0 m' new. stands new (the s) \<and> lastRefEntity m1 = entity_number n \<and>
        transfers head m m0 (Some (entity_number n)) \<and> transfers read_bit m0 m' 0 \<and>
        transfers (body base (word_of_int (entity_number n))) m' m1 new"
    using element_read [OF assms] by (elim disjE)
  then show ?thesis
  proof cases
    case 1
    then show ?thesis using kept by simp
  next
    case 2
    then obtain m0 m' new where "stands new (the s)" "lastRefEntity m1 = entity_number n"
      "transfers head m m0 (Some (entity_number n))" "transfers read_bit m0 m' 0"
      and t: "transfers (body base (word_of_int (entity_number n))) m' m1 new"
      by (elim exE conjE)
    then show ?thesis using transfers_ok [OF t] by (intro sent) simp_all
  qed
qed

abbreviation walks :: "(int \<Rightarrow> cstruct) \<Rightarrow> nat \<Rightarrow> cstruct list \<Rightarrow> cstruct list reader" where
  "walks cbase k \<equiv> read_walk head body cbase k"

text \<open>An element without an older copy starts from the base.\<close>

lemma fresh_received:
  assumes A: "merge_ready based sendable limit cb b (lastRefEntity m) colds olds (n # ns)" "- 1 \<le> lastRefEntity m" "wr_ok m"
    and w: "wr (b (entity_number n)) (Some n) True m = Inr (s, m1)" "\<not> overflowed m1"
    and less: "\<forall>x \<in> set olds. entity_number n < entity_number x" "\<forall>c \<in> set pre. entity_number c < entity_number n"
    and more: "wr_ok m1 \<Longrightarrow> lastRefEntity m1 = entity_number n \<Longrightarrow>
      received stands sent_for (walks cb k) [] colds sent ns m1 m2"
  shows "received stands sent_for (walks cb (Suc k)) pre colds (the s # sent) (n # ns) m m2"
proof -
  note f = merge_ready_first [OF A(1)]
  have h: "colds = [] \<or> entity_number n < entity_number (hd colds)"
    using merge_ready_heads [OF A(1)] less(1) by (cases olds) auto
  then have wk: "walk_base cb (entity_number n) colds = cb (entity_number n)" "walk_rest (entity_number n) colds = colds"
    by (auto simp: walk_base_def walk_rest_def split: list.splits)
  have "based n (cb (entity_number n)) (b (entity_number n))" using f(5) less(1) by force
  from element_cases [OF w(1) f(3) this A(3) w(2) A(2) f(1,2)] show ?thesis
  proof cases
    case 1
    then show ?thesis by simp
  next
    case (2 m0 m' new)
    from received_sent [where sent_for = sent_for and stands = stands and body = body and base = cb and cs = colds,
        OF element_sent [OF w(1) f(3)] 2(1) refl 2(3,4) 2(5) [folded wk(1)] less(2)]
    show ?thesis using h more 2(2,6) wk(2) by (auto simp: less_imp_le)
  qed
qed

text \<open>An old element that is gone.\<close>

lemma gone_received:
  assumes A: "merge_ready based sendable limit cb b (lastRefEntity m) (c # cs) (x # os) news" "- 1 \<le> lastRefEntity m" "wr_ok m"
    and o: "\<not> overflowed (removal x m)" and pre: "\<forall>c \<in> set pre. entity_number c < entity_number x"
    and more: "wr_ok (removal x m) \<Longrightarrow> received stands sent_for (walks cb k) [] cs sent news (removal x m) m2"
  shows "received stands sent_for (walks cb (Suc k)) pre (c # cs) sent news m m2"
proof -
  note old = merge_ready_old [OF A(1)]
  obtain m0 where t: "transfers head m m0 (Some (entity_number x))" "transfers read_bit m0 (removal x m) 1"
    using removal_read [OF A(3) o A(2) old(3,4)] by blast
  have "walk_rest (entity_number x) (c # cs) = cs" using old(1) by (simp add: walk_rest_def)
  then show ?thesis using received_removed [OF t pre, where cs = "c # cs"] more transfers_ok [OF t(2)] old(1) by simp
qed

text \<open>An element of both lists.\<close>

lemma both_received:
  assumes A: "merge_ready based sendable limit cb b (lastRefEntity m) (c # cs) (x # os) (n # ns)" "- 1 \<le> lastRefEntity m" "wr_ok m"
    and eq: "entity_number n = entity_number x"
    and w: "wr x (Some n) False m = Inr (s, m1)" "\<not> overflowed m1"
    and pre: "\<forall>c \<in> set pre. entity_number c < entity_number n"
    and more: "\<And>pre' k'. wr_ok m1 \<Longrightarrow> lastRefEntity m1 = lastRefEntity m \<and> pre' = pre @ [c] \<and> k' = Suc k \<or>
        lastRefEntity m1 = entity_number n \<and> pre' = [] \<and> k' = k \<Longrightarrow>
      received stands sent_for (walks cb k') pre' cs sent ns m1 m2"
  shows "received stands sent_for (walks cb (Suc k)) pre (c # cs) (the s # sent) (n # ns) m m2"
proof -
  note f = merge_ready_first [OF A(1)] and old = merge_ready_old [OF A(1)]
  have base: "based n c x" using old(5) eq by (simp add: old_copy_def)
  have c0: "c 0 = n 0" using old(1) eq by (simp add: same_number)
  from element_cases [OF w(1) f(3) base A(3) w(2) A(2) f(1,2)] show ?thesis
  proof cases
    case 1
    then have "received stands sent_for (walks cb (Suc k)) (pre @ [c]) cs sent ns m m2"
      using more [of "pre @ [c]" "Suc k"] A(3) by simp
    then show ?thesis using 1(3) c0 element_sent [OF w(1) f(3)] by (auto simp: received_def)
  next
    case (2 m0 m' new)
    have wk: "walk_base cb (entity_number n) (c # cs) = c" "walk_rest (entity_number n) (c # cs) = cs"
      using old(1) eq by (simp_all add: walk_base_def walk_rest_def)
    from received_sent [where sent_for = sent_for and stands = stands and body = body and base = cb and cs = "c # cs",
        OF element_sent [OF w(1) f(3)] 2(1) refl 2(3,4) _ pre]
    show ?thesis using more [of "[]" k] 2(2,5,6) wk old(1) eq by simp
  qed
qed

lemma merge_received:
  "merge_lists wr b olds news m = Inr (sent, m1) \<Longrightarrow> wr_ok m \<Longrightarrow> \<not> overflowed (finish m1) \<Longrightarrow>
   - 1 \<le> lastRefEntity m \<Longrightarrow> lastRefEntity m < limit \<Longrightarrow>
   merge_ready based sendable limit cb b (lastRefEntity m) colds olds news \<Longrightarrow>
   \<forall>c \<in> set pre. entity_number c < limit \<and> (\<forall>x \<in> set olds \<union> set news. entity_number c < entity_number x) \<Longrightarrow>
   length olds + length news < k \<Longrightarrow>
   received stands sent_for (walks cb k) pre colds sent news m (finish m1)"
proof (induction olds news arbitrary: m sent m1 pre colds k rule: merge_pairs)
  case none
  then have m: "m1 = m" "sent = []" "colds = []" by (simp_all add: merge_ready_def)
  obtain k' where k: "k = Suc k'" using none(8) by (cases k) simp_all
  have "transfers head m (finish m) None" using none m by (intro finish_read) simp_all
  from last_walk [OF this] show ?case by (simp add: received_def m k)
next
  case (gone x os)
  then obtain c cs where colds: "colds = c # cs" by (cases colds) (auto simp: merge_ready_def)
  note A = gone.prems(6) [unfolded colds]
  have rest: "merge_lists wr b os [] (removal x m) = Inr (sent, m1)" using gone.prems(1) by (simp add: removal_written)
  have ready: "merge_ready based sendable limit cb b (entity_number x) cs os []" using merge_ready_gone [OF A] by simp
  obtain k' where k: "k = Suc k'" using gone.prems(8) by (cases k) simp_all
  show ?case unfolding colds k
  proof (rule gone_received [OF A gone.prems(4,2) ends_sticky [OF rest ready gone.prems(3)]])
    assume "wr_ok (removal x m)"
    then show "received stands sent_for (walks cb k') [] cs sent [] (removal x m) (finish m1)"
      using gone.prems(4,8) merge_ready_old [OF A] ready k
      by (intro gone.IH [OF rest]) (simp_all add: gone.prems(3) removal_last)
  qed (use gone.prems(7) in simp)
next
  case (fresh n ns)
  then obtain s m2 ss where w: "wr (b (entity_number n)) (Some n) True m = Inr (s, m2)"
    "merge_lists wr b [] ns m2 = Inr (ss, m1)" "sent = the s # ss"
    by (auto simp: and_then_Inr)
  note A = fresh.prems(6)
  have ready: "merge_ready based sendable limit cb b (entity_number n) colds [] ns" using merge_ready_new [OF A] by simp
  obtain k' where k: "k = Suc k'" using fresh.prems(8) by (cases k) simp_all
  show ?case unfolding w(3) k
  proof (rule fresh_received [OF A fresh.prems(4,2) w(1) ends_sticky [OF w(2) ready fresh.prems(3)]])
    assume "wr_ok m2" "lastRefEntity m2 = entity_number n"
    then show "received stands sent_for (walks cb k') [] colds ss ns m2 (finish m1)"
      using fresh.prems(4,8) merge_ready_first [OF A] ready k
      by (intro fresh.IH [OF w(2)]) (simp_all add: fresh.prems(3))
  qed (use fresh.prems(7) in simp_all)
next
  case (both x os n ns)
  then obtain c cs where colds: "colds = c # cs" by (cases colds) (auto simp: merge_ready_def)
  note A = both.prems(6) and A' = both.prems(6) [unfolded colds]
  note old = merge_ready_old [OF A'] and f = merge_ready_first [OF A]
  obtain k' where k: "k = Suc k'" using both.prems(8) by (cases k) simp_all
  consider (eq) "entity_number n = entity_number x" | (new) "entity_number n < entity_number x"
    | (gone) "entity_number x < entity_number n" by linarith
  then show ?case
  proof cases
    case eq
    then obtain s m2 ss where w: "wr x (Some n) False m = Inr (s, m2)" "merge_lists wr b os ns m2 = Inr (ss, m1)"
      "sent = the s # ss"
      using both.prems(1) by (auto simp: and_then_Inr)
    have ready: "merge_ready based sendable limit cb b (lastRefEntity m) cs os ns"
      "merge_ready based sendable limit cb b (entity_number x) cs os ns"
      using merge_ready_both [OF A' eq] by simp_all
    show ?thesis unfolding w(3) k colds
    proof (rule both_received [OF A' both.prems(4,2) eq w(1) ends_sticky [OF w(2) ready(1) both.prems(3)]])
      fix pre' k'' assume "wr_ok m2" and or: "lastRefEntity m2 = lastRefEntity m \<and> pre' = pre @ [c] \<and> k'' = Suc k' \<or>
        lastRefEntity m2 = entity_number n \<and> pre' = [] \<and> k'' = k'"
      show "received stands sent_for (walks cb k'') pre' cs ss ns m2 (finish m1)"
        by (rule both.IH(1) [OF w(2)], insert \<open>wr_ok m2\<close> or both.prems(4,5,7,8) old f eq ready k)
          (auto simp: both.prems(3))
    qed (use both.prems(7) in simp_all)
  next
    case new
    then obtain s m2 ss where w: "wr (b (entity_number n)) (Some n) True m = Inr (s, m2)"
      "merge_lists wr b (x # os) ns m2 = Inr (ss, m1)" "sent = the s # ss"
      using both.prems(1) by (auto simp: and_then_Inr)
    have less: "\<forall>y \<in> set (x # os). entity_number n < entity_number y" using new old(2) by auto
    note ready = merge_ready_new [OF A less]
    show ?thesis unfolding w(3) k
    proof (rule fresh_received [OF A both.prems(4,2) w(1) ends_sticky [OF w(2) ready both.prems(3)] less])
      assume "wr_ok m2" "lastRefEntity m2 = entity_number n"
      then show "received stands sent_for (walks cb k') [] colds ss ns m2 (finish m1)"
        using both.prems(4,8) f(1,2) ready k by (intro both.IH(2) [OF w(2)]) (simp_all add: both.prems(3))
    qed (use both.prems(7) in simp_all)
  next
    case gone
    have rest: "merge_lists wr b os (n # ns) (removal x m) = Inr (sent, m1)"
      using both.prems(1) gone by (simp add: removal_written)
    have less: "\<forall>y \<in> set (n # ns). entity_number x < entity_number y" using gone f(4) by auto
    note ready = merge_ready_gone [OF A' less]
    show ?thesis unfolding colds k
    proof (rule gone_received [OF A' both.prems(4,2) ends_sticky [OF rest ready both.prems(3)]])
      assume "wr_ok (removal x m)"
      then show "received stands sent_for (walks cb k') [] cs sent (n # ns) (removal x m) (finish m1)"
        using both.prems(4,8) old ready k by (intro both.IH(3) [OF rest]) (simp_all add: both.prems(3) removal_last)
    qed (use both.prems(7) in simp_all)
  qed
qed

end

end
