(* ===== verification/SnapEntities.thy ===== *)
theory SnapEntities
  imports SnapWalk
begin

text \<open>
  Lists of entities and clients in a snapshot.  The loops over the windows of the circular arrays
  are merges of two lists sorted by number; the client walks its own old list while it reads the
  numbers, and ends with a list that stands for the new one.
\<close>

section \<open>Entity numbers\<close>

definition set_last :: "(int \<Rightarrow> int) \<Rightarrow> int reader" where
  "set_last f = State (\<lambda>m. let e = f (lastRefEntity m) in (e, m\<lparr>lastRefEntity := e\<rparr>))"

lemma ReadEntityIndex_bind:
  "State (MSG_ReadEntityIndex n) = do { b \<leftarrow> read_bit;
     if b \<noteq> 0 then set_last (\<lambda>l. s32 (l + 1))
     else do { full \<leftarrow> (if n \<noteq> 10 then State_Monad.return 1 else read_bit);
       if full \<noteq> 0 then do { e \<leftarrow> State (MSG_ReadBits n); set_last (\<lambda>l. e) }
       else do { d \<leftarrow> State (MSG_ReadBits 4); set_last (\<lambda>l. s32 (l + d)) } } }"
proof (rule state.expand, rule ext)
  fix m
  obtain b m1 where b: "MSG_ReadBit m = (b, m1)" by (cases "MSG_ReadBit m")
  obtain full m2 where f: "(if n \<noteq> 10 then (1, m1) else MSG_ReadBit m1) = (full, m2)" by (metis surj_pair)
  show "run_state (State (MSG_ReadEntityIndex n)) m = run_state (do { b \<leftarrow> read_bit;
     if b \<noteq> 0 then set_last (\<lambda>l. s32 (l + 1))
     else do { full \<leftarrow> (if n \<noteq> 10 then State_Monad.return 1 else read_bit);
       if full \<noteq> 0 then do { e \<leftarrow> State (MSG_ReadBits n); set_last (\<lambda>l. e) }
       else do { d \<leftarrow> State (MSG_ReadBits 4); set_last (\<lambda>l. s32 (l + d)) } } }) m"
    using f by (auto simp: MSG_ReadEntityIndex_def b set_last_def Let_def split: prod.splits if_splits)
qed

lemma wr_ok_last [simp]: "wr_ok (m\<lparr>lastRefEntity := i\<rparr>) = wr_ok m"
  by (simp add: wr_ok_def msg_ok_def)

lemma grows_last [simp]: "wr_ok m \<Longrightarrow> grows m (m\<lparr>lastRefEntity := i\<rparr>)"
  by (simp add: grows_def fixed_bit_def)

lemma set_last_transfers:
  "wr_ok m \<Longrightarrow> f (lastRefEntity m) = i \<Longrightarrow> transfers (set_last f) m (m\<lparr>lastRefEntity := i\<rparr>) i"
  by (auto simp: transfers_def set_last_def reads_at_def Let_def)

lemma transmits_transfers:
  "transmits D W v \<Longrightarrow> wr_ok m \<Longrightarrow> \<not> overflowed (W m) \<Longrightarrow> transfers D m (W m) v"
  by (simp add: transmits_def)

lemma then_last:
  assumes "transmits D W v" "wr_ok m" "\<not> overflowed (W m)" "f v (lastRefEntity m) = i"
  shows "transfers (do { x \<leftarrow> D; set_last (f x) }) m ((W m)\<lparr>lastRefEntity := i\<rparr>) i"
proof (rule transfers_bind)
  show t: "transfers D m (W m) v" by (rule transmits_transfers [OF assms(1-3)])
  show "transfers (set_last (f v)) (W m) ((W m)\<lparr>lastRefEntity := i\<rparr>) i"
    using assms(1,4) transfers_ok [OF t] by (intro set_last_transfers) (simp_all add: transmits_def)
qed

lemma WriteEntityIndex_sticky: "overflowed m \<Longrightarrow> overflowed (MSG_WriteEntityIndex i n m)"
  by (auto simp: MSG_WriteEntityIndex_def Let_def sticky)

lemma WriteEntityIndex_last [simp]: "lastRefEntity (MSG_WriteEntityIndex i n m) = i"
  by (simp add: MSG_WriteEntityIndex_def Let_def)

lemma index_transfers:
  assumes "wr_ok m" "- 1 \<le> lastRefEntity m" "lastRefEntity m < i" "\<not> overflowed (MSG_WriteEntityIndex i n m)"
    "n = 10 \<and> i < 1024 \<or> n = 6 \<and> i < 64"
  shows "transfers (State (MSG_ReadEntityIndex n)) m (MSG_WriteEntityIndex i n m) i"
proof -
  let ?l = "lastRefEntity m"
  have d: "s32 (i - ?l) = i - ?l" using assms(2,3,5) by (intro s32_id) auto
  have i: "s32 i = i" using assms(2,3,5) by (intro s32_id) auto
  have bits: "transmits (State (MSG_ReadBits n)) (MSG_WriteBits i (nat n)) i"
    using few_bits_transmit [of "nat n" i] assms(2,3,5) by (auto simp: take_bit_int_eq_self)
  let ?set = "\<lambda>m. m\<lparr>lastRefEntity := i\<rparr>"
  note no = assms(4)
  consider "i - ?l = 1" | "i - ?l \<noteq> 1" "n = 6" | "15 < i - ?l" "n = 10" | "2 \<le> i - ?l" "i - ?l \<le> 15" "n = 10"
    using assms(3,5) by linarith
  then show ?thesis
  proof cases
    case 1
    then have w: "MSG_WriteEntityIndex i n m = ?set (MSG_WriteBit1 m)"
      using d by (simp add: MSG_WriteEntityIndex_def)
    have b: "transfers read_bit m (MSG_WriteBit1 m) 1"
      using no assms(1) by (intro transmits_transfers writes_transmit) (simp_all add: w)
    then have t: "transfers (set_last (\<lambda>l. s32 (l + 1))) (MSG_WriteBit1 m) (?set (MSG_WriteBit1 m)) i"
      using 1 i by (intro set_last_transfers) (auto dest: transfers_ok simp: algebra_simps)
    show ?thesis unfolding w ReadEntityIndex_bind by (rule transfers_bind [OF b]) (use t in simp)
  next
    case 2
    then have w: "MSG_WriteEntityIndex i n m = ?set (MSG_WriteBits i (nat n) (MSG_WriteBit0 m))"
      using d by (simp add: MSG_WriteEntityIndex_def Let_def)
    have o: "\<not> overflowed (MSG_WriteBit0 m)" using no sticky(6) by (auto simp: w)
    have b: "transfers read_bit m (MSG_WriteBit0 m) 0"
      using o assms(1) by (intro transmits_transfers writes_transmit)
    have "transfers (do { e \<leftarrow> State (MSG_ReadBits n); set_last (\<lambda>l. e) }) (MSG_WriteBit0 m) (MSG_WriteEntityIndex i n m) i"
      unfolding w using no transfers_ok [OF b] by (intro then_last [OF bits]) (simp_all add: w)
    then show ?thesis unfolding ReadEntityIndex_bind using 2 by (intro transfers_bind [OF b]) simp
  next
    case 3
    then have w: "MSG_WriteEntityIndex i n m = ?set (MSG_WriteBits i (nat n) (MSG_WriteBit1 (MSG_WriteBit0 m)))"
      using d by (simp add: MSG_WriteEntityIndex_def Let_def)
    have o: "\<not> overflowed (MSG_WriteBit1 (MSG_WriteBit0 m))" "\<not> overflowed (MSG_WriteBit0 m)"
      using no sticky(2,6) by (auto simp: w)
    have b: "transfers read_bit m (MSG_WriteBit0 m) 0"
      using o assms(1) by (intro transmits_transfers writes_transmit)
    have b1: "transfers read_bit (MSG_WriteBit0 m) (MSG_WriteBit1 (MSG_WriteBit0 m)) 1"
      using o transfers_ok [OF b] by (intro transmits_transfers writes_transmit) simp_all
    have t: "transfers (do { e \<leftarrow> State (MSG_ReadBits n); set_last (\<lambda>l. e) }) (MSG_WriteBit1 (MSG_WriteBit0 m))
        (MSG_WriteEntityIndex i n m) i"
      unfolding w using no transfers_ok [OF b1] by (intro then_last [OF bits]) (simp_all add: w)
    show ?thesis unfolding ReadEntityIndex_bind
      by (rule transfers_bind [OF b]) (simp add: 3, rule transfers_bind [OF b1], use t 3 in simp)
  next
    case 4
    then have w: "MSG_WriteEntityIndex i n m = ?set (MSG_WriteBits (i - ?l) 4 (MSG_WriteBit0 (MSG_WriteBit0 m)))"
      using d by (simp add: MSG_WriteEntityIndex_def Let_def)
    have o: "\<not> overflowed (MSG_WriteBit0 (MSG_WriteBit0 m))" "\<not> overflowed (MSG_WriteBit0 m)"
      using no sticky(1,6) by (auto simp: w)
    have b: "transfers read_bit m (MSG_WriteBit0 m) 0"
      using o assms(1) by (intro transmits_transfers writes_transmit)
    have b1: "transfers read_bit (MSG_WriteBit0 m) (MSG_WriteBit0 (MSG_WriteBit0 m)) 0"
      using o transfers_ok [OF b] by (intro transmits_transfers writes_transmit) simp_all
    have four: "transmits (State (MSG_ReadBits 4)) (MSG_WriteBits (i - ?l) 4) (i - ?l)"
      using few_bits_transmit [of 4 "i - ?l"] 4 by (simp add: take_bit_int_eq_self)
    have t: "transfers (do { d \<leftarrow> State (MSG_ReadBits 4); set_last (\<lambda>l. s32 (l + d)) }) (MSG_WriteBit0 (MSG_WriteBit0 m))
        (MSG_WriteEntityIndex i n m) i"
      unfolding w using no transfers_ok [OF b1] i by (intro then_last [OF four]) (simp_all add: w)
    show ?thesis unfolding ReadEntityIndex_bind
      by (rule transfers_bind [OF b]) (simp add: 4, rule transfers_bind [OF b1], use t 4 in simp)
  qed
qed

section \<open>What is sent of one entity\<close>

text \<open>The copy that is sent: player models may lose the bits that block the receiver.\<close>

definition sent_as :: "cstruct \<Rightarrow> cstruct \<Rightarrow> bool" where
  "sent_as s n \<longleftrightarrow> s = n \<or> s = clear_solid n"

lemma clear_solid_kept [simp]:
  "entity_number (clear_solid s) = entity_number s" "clear_solid s 0 = s 0" "clear_solid s 4 = s 4"
  "entity_fields (clear_solid s) = entity_fields s"
  by (simp_all add: clear_solid_def entity_number_def entity_fields_def)

lemma sent_as_kept:
  "sent_as s n \<Longrightarrow> entity_number s = entity_number n \<and> s 0 = n 0 \<and> s 4 = n 4 \<and> entity_fields s = entity_fields n"
  by (auto simp: sent_as_def)

lemma pass_through_sent: "pass_through e cl n = Inr s \<Longrightarrow> sent_as s n"
  by (auto simp: pass_through_def sent_as_def split: if_splits option.splits)

lemma struct_written:
  assumes "MSG_WriteDeltaStruct e time from to force ib fs cb m = Inr (k, m1)"
  shows "last_changed e from to 0 0 fs = 0 \<and> \<not> force \<and> m1 = m \<or>
    delta_body e time from to fs (MSG_WriteBit0 (MSG_WriteEntityIndex (entity_number to) ib
      (if cb then MSG_WriteBit1 m else m))) = Inr m1"
proof -
  note body = assms [unfolded MSG_WriteDeltaStruct_def Let_def]
  show ?thesis
  proof (cases "last_changed e from to 0 0 fs = 0")
    case True
    then show ?thesis using body by (auto simp: delta_body_def split: if_splits)
  next
    case False
    then show ?thesis using body by (auto simp: delta_body_def Let_def and_then_Inr)
  qed
qed

lemma entity_written:
  assumes "MSG_WriteDeltaEntity e cl time from (Some n) force m = Inr (s, m1)"
  obtains to fs where "s = Some to" "sent_as to n" "entity_fields to = Inr fs"
    "0 \<le> entity_number to" "entity_number to < 1024"
    "last_changed e from to 0 0 fs = 0 \<and> \<not> force \<and> m1 = m \<or>
     delta_body e time from to fs (MSG_WriteBit0 (MSG_WriteEntityIndex (entity_number to) 10 m)) = Inr m1"
proof -
  obtain to fs k where w: "pass_through e cl n = Inr to" "entity_fields to = Inr fs" "s = Some to"
    "\<not> (entity_number to < 0 \<or> MAX_GENTITIES \<le> entity_number to)"
    "MSG_WriteDeltaStruct e time from to force 10 fs False m = Inr (k, m1)"
    using assms by (auto simp: MSG_WriteDeltaEntity_def MSG_WriteEntityDelta_def and_then_Inr split: if_splits)
  show ?thesis
    using that [OF w(3) pass_through_sent [OF w(1)] w(2)] w(4) struct_written [OF w(5)]
    by (simp add: MAX_GENTITIES_def not_less)
qed

text \<open>The client's word for word relation under the table of an entity's type.\<close>

definition base_sees :: "snapenv \<Rightarrow> cstruct \<Rightarrow> cstruct \<Rightarrow> cstruct \<Rightarrow> bool" where
  "base_sees e n c s \<longleftrightarrow> (\<forall>fs. entity_fields n = Inr fs \<longrightarrow>
     (\<forall>f \<in> set fs. sees e (bits f) (c (offset f)) (s (offset f))))"

definition sees_entity :: "snapenv \<Rightarrow> cstruct \<Rightarrow> cstruct \<Rightarrow> bool" where
  "sees_entity e c s \<longleftrightarrow> c 0 = s 0 \<and> base_sees e s c s"

text \<open>After the number come a zero bit and the fields.\<close>

lemma present_transfers:
  assumes A: "arith_ok e d" "entity_fields to = Inr fs" "sint (to 4) < 256" "base_sees e to base from"
    and w: "delta_body e time from to fs (MSG_WriteBit0 m) = Inr m1" "wr_ok m" "\<not> overflowed m1"
  shows "\<exists>new. sees_entity e new to \<and> transfers read_bit m (MSG_WriteBit0 m) 0 \<and>
    transfers (read_entity e d time base (to 0)) (MSG_WriteBit0 m) m1 new \<and>
    lastRefEntity m1 = lastRefEntity m"
proof -
  obtain new where new: "conveys (read_entity e d time base (to 0)) (delta_body e time from to fs) new"
    "new 0 = to 0" "\<forall>f \<in> set fs. sees e (bits f) (new (offset f)) (to (offset f))"
    using entity_conveys [OF A(1-3), of base "from" time "to 0"] A(2,4) by (auto simp: base_sees_def)
  note c = conveysD [OF new(1) w(1)]
  have o: "\<not> overflowed (MSG_WriteBit0 m)" using c(1) w(3) by blast
  then have b: "transfers read_bit m (MSG_WriteBit0 m) 0" using w(2) by (intro transmits_transfers writes_transmit)
  then have "wr_ok (MSG_WriteBit0 m)" by (blast dest: transfers_ok)
  then have "transfers (read_entity e d time base (to 0)) (MSG_WriteBit0 m) m1 new"
    using c(3) w(3) by blast
  then show ?thesis using new(2,3) A(2) b c(2) by (auto simp: sees_entity_def base_sees_def)
qed

lemma delta_body_sticky:
  assumes "arith_ok e d" "entity_fields to = Inr fs" "sint (to 4) < 256"
    "delta_body e time from to fs m = Inr m1" "overflowed m"
  shows "overflowed m1"
proof -
  obtain new where c: "conveys (read_entity e d time from (to 0)) (delta_body e time from to fs) new"
    using entity_conveys [OF assms(1-3), of "from" "from" time "to 0"] by auto
  show ?thesis by (rule conveysD(1) [OF c assms(4,5)])
qed

lemma word_of_number: "word_of_int (entity_number s) = s 0"
  by (simp add: entity_number_def)

section \<open>Entities as a list\<close>

text \<open>1023 ends the list.\<close>

definition entity_head :: "int option reader" where
  "entity_head = do { i \<leftarrow> State (MSG_ReadEntityIndex 10); State_Monad.return (if i = 1023 then None else Some i) }"

lemma entity_head_transfers:
  "transfers (State (MSG_ReadEntityIndex 10)) m m1 i \<Longrightarrow>
   transfers entity_head m m1 (if i = 1023 then None else Some i)"
  unfolding entity_head_def by (rule transfers_bind) (auto dest: transfers_ok intro: transfers_return)

definition entity_sendable :: "snapenv \<Rightarrow> decoder \<Rightarrow> cstruct \<Rightarrow> bool" where
  "entity_sendable e d n \<longleftrightarrow> arith_ok e d \<and> sint (n 4) < 256"

definition entity_removal :: "cstruct \<Rightarrow> msg \<Rightarrow> msg" where
  "entity_removal x m = MSG_WriteBit1 (MSG_WriteEntityIndex (entity_number x) 10 m)"

definition entities_end :: "msg \<Rightarrow> msg" where
  "entities_end m = MSG_WriteEntityIndex (MAX_GENTITIES - 1) GENTITYNUM_BITS m"

lemma entities_end_bits: "entities_end m = MSG_WriteEntityIndex 1023 10 m"
  by (simp add: entities_end_def MAX_GENTITIES_def GENTITYNUM_BITS_def)

lemma entity_element_sticky:
  assumes "MSG_WriteDeltaEntity e cl time from (Some n) force m = Inr (s, m1)" "entity_sendable e d n" "overflowed m"
  shows "overflowed m1"
proof (rule entity_written [OF assms(1)])
  fix to fs assume w: "sent_as to n" "entity_fields to = Inr fs"
    "last_changed e from to 0 0 fs = 0 \<and> \<not> force \<and> m1 = m \<or>
     delta_body e time from to fs (MSG_WriteBit0 (MSG_WriteEntityIndex (entity_number to) 10 m)) = Inr m1"
  have "arith_ok e d" "sint (to 4) < 256" using sent_as_kept [OF w(1)] assms(2) by (auto simp: entity_sendable_def)
  then show "overflowed m1"
    using w(3) assms(3) delta_body_sticky [OF _ w(2)] sticky(1) WriteEntityIndex_sticky by blast
qed

lemma entity_element_sent:
  assumes "MSG_WriteDeltaEntity e cl time from (Some n) force m = Inr (s, m1)"
  shows "sent_as (the s) n"
  by (rule entity_written [OF assms]) simp

text \<open>An entity of the new list: either its record is read, or nothing was written.\<close>

lemma entity_element_read:
  assumes w: "MSG_WriteDeltaEntity e cl time from (Some n) force m = Inr (s, m1)" "entity_sendable e d n"
    "base_sees e n base from" "wr_ok m" "\<not> overflowed m1" "- 1 \<le> lastRefEntity m" "lastRefEntity m < entity_number n"
    "entity_number n < 1023"
  shows "\<not> force \<and> m1 = m \<and> (base 0 = n 0 \<longrightarrow> sees_entity e base (the s)) \<or>
      (\<exists>m0 m' new. sees_entity e new (the s) \<and> lastRefEntity m1 = entity_number n \<and>
        transfers entity_head m m0 (Some (entity_number n)) \<and> transfers read_bit m0 m' 0 \<and>
        transfers (read_entity e d time base (word_of_int (entity_number n))) m' m1 new)"
proof (rule entity_written [OF w(1)])
  fix to fs
  assume s: "s = Some to" and to: "sent_as to n" "entity_fields to = Inr fs" "entity_number to < 1024"
    and cases: "last_changed e from to 0 0 fs = 0 \<and> \<not> force \<and> m1 = m \<or>
      delta_body e time from to fs (MSG_WriteBit0 (MSG_WriteEntityIndex (entity_number to) 10 m)) = Inr m1"
  have A: "arith_ok e d" "sint (n 4) < 256" using w(2) by (simp_all add: entity_sendable_def)
  note k = sent_as_kept [OF to(1)]
  have t: "sint (to 4) < 256" "base_sees e to base from" using A(2) w(3) k by (simp_all add: base_sees_def)
  have b: "\<forall>f \<in> set fs. sees e (bits f) (base (offset f)) (from (offset f))" using t(2) to(2) by (simp add: base_sees_def)
  let ?i = "MSG_WriteEntityIndex (entity_number n) 10 m"
  from cases show ?thesis
  proof
    assume z: "last_changed e from to 0 0 fs = 0 \<and> \<not> force \<and> m1 = m"
    have "table_ok fs" using type_table_written(2) [OF to(2) t(1) refl] by (simp add: entity_table_ok_def)
    then have "base 0 = base 0 \<and> (\<forall>f \<in> set fs. sees e (bits f) (base (offset f)) (to (offset f)))"
      by (rule seen_after [where lc = 0 and num = "base 0", OF _ _ b]) (simp_all add: z)
    then have "sees_entity e base to" if "base 0 = n 0"
      using that k by (auto simp: sees_entity_def base_sees_def to(2))
    then show ?thesis using z s by simp
  next
    assume body: "delta_body e time from to fs (MSG_WriteBit0 (MSG_WriteEntityIndex (entity_number to) 10 m)) = Inr m1"
    then have body': "delta_body e time from to fs (MSG_WriteBit0 ?i) = Inr m1" using k by simp
    have "\<not> overflowed (MSG_WriteBit0 ?i)" using delta_body_sticky [OF A(1) to(2) t(1) body'] w(5) by blast
    then have "\<not> overflowed ?i" using sticky(1) by blast
    then have i: "transfers (State (MSG_ReadEntityIndex 10)) m ?i (entity_number n)"
      using w(4,6,7,8) by (intro index_transfers) simp_all
    then have h: "transfers entity_head m ?i (Some (entity_number n))" and "wr_ok ?i"
      using entity_head_transfers [OF i] w(8) by (auto dest: transfers_ok)
    from present_transfers [OF A(1) to(2) t body' this(2) w(5)] obtain new where new: "sees_entity e new to"
      "transfers read_bit ?i (MSG_WriteBit0 ?i) 0"
      "transfers (read_entity e d time base (to 0)) (MSG_WriteBit0 ?i) m1 new" "lastRefEntity m1 = entity_number n"
      by auto
    have "to 0 = word_of_int (entity_number n)" using k by (simp add: word_of_number)
    then show ?thesis using new s h by (intro disjI2 exI [of _ ?i] exI [of _ "MSG_WriteBit0 ?i"] exI [of _ new]) simp
  qed
qed

lemma removal_transfers:
  assumes "wr_ok m" "\<not> overflowed (entity_removal x m)" "- 1 \<le> lastRefEntity m"
    "lastRefEntity m < entity_number x" "entity_number x < 1023"
  shows "\<exists>m0. transfers entity_head m m0 (Some (entity_number x)) \<and> transfers read_bit m0 (entity_removal x m) 1"
proof -
  let ?i = "MSG_WriteEntityIndex (entity_number x) 10 m"
  have "\<not> overflowed ?i" using assms(2) sticky(2) by (auto simp: entity_removal_def)
  then have i: "transfers (State (MSG_ReadEntityIndex 10)) m ?i (entity_number x)"
    using assms by (intro index_transfers) simp_all
  have "transfers read_bit ?i (entity_removal x m) 1"
    using transfers_ok [OF i] assms(2) unfolding entity_removal_def by (intro transmits_transfers writes_transmit) simp_all
  then show ?thesis using entity_head_transfers [OF i] assms(5) by auto
qed

lemma entities_end_transfers:
  assumes "wr_ok m" "\<not> overflowed (entities_end m)" "- 1 \<le> lastRefEntity m" "lastRefEntity m < 1023"
  shows "transfers entity_head m (entities_end m) None"
proof -
  have "transfers (State (MSG_ReadEntityIndex 10)) m (entities_end m) 1023"
    unfolding entities_end_bits using assms by (intro index_transfers) (simp_all add: entities_end_bits)
  from entity_head_transfers [OF this] show ?thesis by simp
qed

lemma entity_removed:
  "MSG_WriteDeltaEntity e cl time x None True m = Inr (None, entity_removal x m)"
  by (simp add: MSG_WriteDeltaEntity_def MSG_WriteEntityRemoval_def entity_removal_def)

interpretation ents: sent_list "MSG_WriteDeltaEntity e cl time" entity_removal entities_end entity_head
    "read_entity e d time" "base_sees e" "entity_sendable e d" "sees_entity e" sent_as 1023
  for e cl time d
proof
  show "overflowed m \<Longrightarrow> overflowed (entity_removal x m)" for m x
    by (simp add: entity_removal_def sticky WriteEntityIndex_sticky)
  show "lastRefEntity (entity_removal x m) = entity_number x" for m x by (simp add: entity_removal_def)
  show "overflowed m \<Longrightarrow> overflowed (entities_end m)" for m by (simp add: entities_end_def WriteEntityIndex_sticky)
qed (rule entity_removed entity_element_sticky entity_element_sent entity_element_read removal_transfers
  entities_end_transfers; assumption)+

end
