(* ===== verification/SnapRing.thy ===== *)
theory SnapRing
  imports SnapEntities
begin

text \<open>
  The loops over the circular arrays are the merges of the two windows as lists, and the new window
  holds afterwards what was sent.  The windows must not overlap, which \<open>in_window\<close> ensures for the
  frames that the server keeps.
\<close>

section \<open>Windows as lists\<close>

definition window_list :: "cstruct list \<Rightarrow> int \<Rightarrow> window \<Rightarrow> int \<Rightarrow> cstruct list" where
  "window_list R num w i = map (\<lambda>k. ring_slot R num (fst w + k)) [i..snd w - 1]"

lemma window_list_step:
  "window_list R num w i = (if i < snd w then ring_slot R num (fst w + i) # window_list R num w (i + 1) else [])"
  by (simp add: window_list_def upto.simps [of i])

lemma element_at_window:
  "element_at R num w i = (case window_list R num w i of [] \<Rightarrow> None | x # xs \<Rightarrow> Some x)"
  by (simp add: element_at_def window_list_step [of R num w i])

definition apart :: "int \<Rightarrow> window \<Rightarrow> window \<Rightarrow> bool" where
  "apart num new old \<longleftrightarrow> 0 < num \<and> 0 \<le> snd old \<and> 0 \<le> snd new \<and> snd new \<le> num \<and>
     (0 < snd old \<longrightarrow> fst old + snd old \<le> fst new \<and> fst new + snd new \<le> fst old + num)"

lemma mod_apart:
  assumes "(a :: int) < b" "b < a + num" "0 < num"
  shows "a mod num \<noteq> b mod num"
proof
  assume "a mod num = b mod num"
  then have "num dvd b - a" by (simp add: mod_eq_dvd_iff [symmetric])
  moreover have "0 < b - a" "b - a < num" using assms by simp_all
  ultimately show False using zdvd_imp_le by fastforce
qed

lemma ring_at_put:
  "a mod num \<noteq> b mod num \<Longrightarrow> 0 < num \<Longrightarrow> ring_slot (put (a mod num) s R) num b = ring_slot R num b"
  by (simp add: ring_slot_def idx_def put_def nat_eq_iff)

lemma window_list_put:
  assumes "\<forall>k. i \<le> k \<and> k < snd w \<longrightarrow> a mod num \<noteq> (fst w + k) mod num" "0 < num"
  shows "window_list (put (a mod num) s R) num w i = window_list R num w i"
  unfolding window_list_def using assms by (intro map_cong refl ring_at_put) auto

lemma put_new_keeps:
  assumes "apart num new old" "0 \<le> ni" "ni < snd new" "0 \<le> oi"
  shows "window_list (put ((fst new + ni) mod num) s R) num old oi = window_list R num old oi"
    "window_list (put ((fst new + ni) mod num) s R) num new (ni + 1) = window_list R num new (ni + 1)"
proof -
  have num: "0 < num" using assms(1) by (simp add: apart_def)
  have "(fst new + ni) mod num \<noteq> (fst old + k) mod num" if "oi \<le> k" "k < snd old" for k
    using mod_apart [of "fst old + k" "fst new + ni" num] that assms by (simp add: apart_def)
  then show "window_list (put ((fst new + ni) mod num) s R) num old oi = window_list R num old oi"
    by (intro window_list_put num) simp
  have "(fst new + ni) mod num \<noteq> (fst new + k) mod num" if "ni + 1 \<le> k" "k < snd new" for k
    using mod_apart [of "fst new + ni" "fst new + k" num] that assms by (simp add: apart_def)
  then show "window_list (put ((fst new + ni) mod num) s R) num new (ni + 1) = window_list R num new (ni + 1)"
    by (intro window_list_put num) simp
qed

section \<open>Entities\<close>

text \<open>The array after the sent copies have been stored from index \<open>i\<close> on.\<close>

primrec store_window :: "int \<Rightarrow> window \<Rightarrow> int \<Rightarrow> cstruct list \<Rightarrow> cstruct list \<Rightarrow> cstruct list" where
  "store_window num w i [] R = R"
| "store_window num w i (s # ss) R = store_window num w (i + 1) ss (put ((fst w + i) mod num) s R)"

definition with_stored :: "int \<Rightarrow> window \<Rightarrow> int \<Rightarrow> cstruct list \<Rightarrow> snap_error + (cstruct list \<times> msg) \<Rightarrow>
    snap_error + (cstruct list \<times> msg)" where
  "with_stored num w i R r = and_then r (\<lambda>(sent, m). Inr (store_window num w i sent R, m))"

definition known_numbers :: "cstruct list \<Rightarrow> bool" where
  "known_numbers xs \<longleftrightarrow> (\<forall>x \<in> set xs. entity_number x < 9999)"

lemma delta_entity_sent:
  assumes "MSG_WriteDeltaEntity e cl time from (Some n) force m = Inr (s, m1)"
  obtains s' where "s = Some s'"
  using entity_written [OF assms] by blast

lemma number_of_Some [simp]: "number_of (Some x) = entity_number x" "number_of None = 9999"
  by (simp_all add: number_of_def)

lemma with_stored_Inl [simp]: "with_stored num w i R (Inl x) = Inl x"
  by (simp add: with_stored_def)

text \<open>A step that stores a copy, and one that does not.\<close>

lemma with_stored_step:
  assumes "\<And>s m1. W = Inr (s, m1) \<Longrightarrow> \<exists>s'. s = Some s' \<and>
    loop (put ((fst w + i) mod num) s' R) m1 = with_stored num w (i + 1) (put ((fst w + i) mod num) s' R) (rest m1)"
  shows "and_then W (\<lambda>(s, m1). loop (store_sent ((fst w + i) mod num) s R) m1) =
    with_stored num w i R (and_then W (\<lambda>(s, m1). and_then (rest m1) (\<lambda>(ss, m2). Inr (the s # ss, m2))))"
proof (cases W)
  case (Inr r)
  then obtain s m1 where W: "W = Inr (s, m1)" by (cases r) simp
  from assms [OF this] obtain s' where "s = Some s'"
    "loop (put ((fst w + i) mod num) s' R) m1 = with_stored num w (i + 1) (put ((fst w + i) mod num) s' R) (rest m1)"
    by blast
  then show ?thesis using W by (cases "rest m1") (auto simp: store_sent_def with_stored_def)
qed simp

lemma loop_is_merge:
  assumes "apart num new old"
  shows "0 \<le> ni \<Longrightarrow> 0 \<le> oi \<Longrightarrow> nat (snd new - ni) + nat (snd old - oi) \<le> k \<Longrightarrow>
    known_numbers (window_list R num old oi) \<Longrightarrow> known_numbers (window_list R num new ni) \<Longrightarrow>
    entities_loop k e cl time bl num new old R ni oi m =
      with_stored num new ni R (merge_lists (MSG_WriteDeltaEntity e cl time) (idx bl) (window_list R num old oi) (window_list R num new ni) m)"
proof (induction k arbitrary: R ni oi m)
  case 0
  then have "\<not> ni < snd new" "\<not> oi < snd old" by simp_all
  then show ?case by (simp add: window_list_step with_stored_def)
next
  case (Suc k)
  let ?x = "ring_slot R num (fst old + oi)" and ?n = "ring_slot R num (fst new + ni)"
  let ?os = "window_list R num old (oi + 1)" and ?ns = "window_list R num new (ni + 1)"
  have ol: "window_list R num old oi = (if oi < snd old then ?x # ?os else [])"
    and nl: "window_list R num new ni = (if ni < snd new then ?n # ?ns else [])"
    by (simp_all only: window_list_step [of R num _ oi] window_list_step [of R num _ ni])
  have known: "oi < snd old \<Longrightarrow> entity_number ?x < 9999 \<and> known_numbers ?os"
    "ni < snd new \<Longrightarrow> entity_number ?n < 9999 \<and> known_numbers ?ns"
    using Suc.prems(4,5) by (simp_all add: ol nl known_numbers_def)
  have num: "0 < num" using assms by (simp add: apart_def)
  note keeps = put_new_keeps [OF assms]
  have gone: "entities_loop k e cl time bl num new old R ni (oi + 1) m1 = with_stored num new ni R
      (merge_lists (MSG_WriteDeltaEntity e cl time) (idx bl) ?os (window_list R num new ni) m1)" if "oi < snd old" for m1
    using that Suc.prems known by (intro Suc.IH) simp_all
  have same: "and_then (MSG_WriteDeltaEntity e cl time ?x (Some ?n) False m) (\<lambda>(s, m1).
      entities_loop k e cl time bl num new old (store_sent ((fst new + ni) mod num) s R) (ni + 1) (oi + 1) m1) =
    with_stored num new ni R (and_then (MSG_WriteDeltaEntity e cl time ?x (Some ?n) False m) (\<lambda>(s, m1).
      and_then (merge_lists (MSG_WriteDeltaEntity e cl time) (idx bl) ?os ?ns m1) (\<lambda>(ss, m2). Inr (the s # ss, m2))))"
    if n: "ni < snd new" and o: "oi < snd old"
  proof (rule with_stored_step)
    fix s m1 assume "MSG_WriteDeltaEntity e cl time ?x (Some ?n) False m = Inr (s, m1)"
    then obtain s' where "s = Some s'" by (rule delta_entity_sent)
    moreover let ?R = "put ((fst new + ni) mod num) s' R"
    have "window_list ?R num old (oi + 1) = ?os" "window_list ?R num new (ni + 1) = ?ns"
      using n Suc.prems by (intro keeps; simp)+
    then have "entities_loop k e cl time bl num new old ?R (ni + 1) (oi + 1) m1 =
      with_stored num new (ni + 1) ?R (merge_lists (MSG_WriteDeltaEntity e cl time) (idx bl) ?os ?ns m1)"
      using n o Suc.prems known by (subst Suc.IH) simp_all
    ultimately show "\<exists>s'. s = Some s' \<and> entities_loop k e cl time bl num new old
        (put ((fst new + ni) mod num) s' R) (ni + 1) (oi + 1) m1 = with_stored num new (ni + 1)
        (put ((fst new + ni) mod num) s' R) (merge_lists (MSG_WriteDeltaEntity e cl time) (idx bl) ?os ?ns m1)" by blast
  qed
  have fresh: "and_then (MSG_WriteDeltaEntity e cl time b (Some ?n) True m) (\<lambda>(s, m1).
      entities_loop k e cl time bl num new old (store_sent ((fst new + ni) mod num) s R) (ni + 1) oi m1) =
    with_stored num new ni R (and_then (MSG_WriteDeltaEntity e cl time b (Some ?n) True m) (\<lambda>(s, m1).
      and_then (merge_lists (MSG_WriteDeltaEntity e cl time) (idx bl) (window_list R num old oi) ?ns m1) (\<lambda>(ss, m2). Inr (the s # ss, m2))))"
    if n: "ni < snd new" for b
  proof (rule with_stored_step)
    fix s m1 assume "MSG_WriteDeltaEntity e cl time b (Some ?n) True m = Inr (s, m1)"
    then obtain s' where "s = Some s'" by (rule delta_entity_sent)
    moreover let ?R = "put ((fst new + ni) mod num) s' R"
    have "window_list ?R num old oi = window_list R num old oi" "window_list ?R num new (ni + 1) = ?ns"
      using n Suc.prems by (intro keeps; simp)+
    then have "entities_loop k e cl time bl num new old ?R (ni + 1) oi m1 =
      with_stored num new (ni + 1) ?R (merge_lists (MSG_WriteDeltaEntity e cl time) (idx bl) (window_list R num old oi) ?ns m1)"
      using n Suc.prems known by (subst Suc.IH) simp_all
    ultimately show "\<exists>s'. s = Some s' \<and> entities_loop k e cl time bl num new old
        (put ((fst new + ni) mod num) s' R) (ni + 1) oi m1 = with_stored num new (ni + 1)
        (put ((fst new + ni) mod num) s' R) (merge_lists (MSG_WriteDeltaEntity e cl time) (idx bl) (window_list R num old oi) ?ns m1)" by blast
  qed
  consider "\<not> ni < snd new" "\<not> oi < snd old" | "\<not> ni < snd new" "oi < snd old"
    | "ni < snd new" "\<not> oi < snd old" | "ni < snd new" "oi < snd old" by blast
  then show ?case
  proof cases
    case 1
    then show ?thesis by (simp add: ol nl with_stored_def)
  next
    case 2
    then show ?thesis using known gone [OF 2(2)] by (simp add: ol nl element_at_def entity_removed)
  next
    case 3
    then show ?thesis using known fresh [OF 3(1)] by (simp add: ol nl element_at_def)
  next
    case 4
    consider "entity_number ?n = entity_number ?x" | "entity_number ?n < entity_number ?x"
      | "entity_number ?x < entity_number ?n" by linarith
    then show ?thesis
    proof cases
      case 1
      then show ?thesis using 4 same by (simp add: ol nl element_at_def)
    next
      case 2
      then show ?thesis using 4 fresh by (simp add: ol nl element_at_def)
    next
      case 3
      then show ?thesis using 4 gone [OF 4(2)] by (simp add: ol nl element_at_def entity_removed)
    qed
  qed
qed

section \<open>What the new window holds\<close>

lemma store_window_ring_at:
  assumes "0 < num" "j < i" "i + int (length ss) \<le> j + num"
  shows "ring_slot (store_window num w i ss R) num (fst w + j) = ring_slot R num (fst w + j)"
  using assms(2,3)
proof (induction ss arbitrary: i R)
  case (Cons s ss)
  have "(fst w + i) mod num \<noteq> (fst w + j) mod num"
    using mod_apart [of "fst w + j" "fst w + i" num] assms(1) Cons.prems by simp
  then show ?case using Cons assms(1) by (simp add: ring_at_put)
qed simp

lemma ring_at_put_same:
  "0 < num \<Longrightarrow> int (length R) = num \<Longrightarrow> ring_slot (put (a mod num) s R) num a = s"
  by (simp add: ring_slot_def idx_def put_def nat_less_iff leD)

lemma window_list_stored:
  assumes "0 < num" "snd w \<le> num" "int (length R) = num" "0 \<le> i" "i + int (length ss) = snd w"
  shows "window_list (store_window num w i ss R) num w i = ss"
  using assms(3-5)
proof (induction ss arbitrary: i R)
  case Nil
  then show ?case by (simp add: window_list_step)
next
  case (Cons s ss)
  have "ring_slot (store_window num w (i + 1) ss (put ((fst w + i) mod num) s R)) num (fst w + i) = s"
    using Cons.prems assms(1,2) by (simp add: store_window_ring_at ring_at_put_same)
  then show ?case using Cons by (subst window_list_step) simp
qed

lemma length_window_list [simp]: "length (window_list R num w i) = nat (snd w - i)"
  by (simp add: window_list_def)

lemma entities_loop_stored:
  assumes "apart num new old" "known_numbers (window_list R num old 0)" "known_numbers (window_list R num new 0)"
    "entities_loop (window_fuel new old) e cl time bl num new old R 0 0 m = Inr (R1, m1)"
  obtains sent where "merge_lists (MSG_WriteDeltaEntity e cl time) (idx bl) (window_list R num old 0) (window_list R num new 0) m =
      Inr (sent, m1)" "R1 = store_window num new 0 sent R" "int (length sent) = snd new"
proof -
  have "with_stored num new 0 R (merge_lists (MSG_WriteDeltaEntity e cl time) (idx bl) (window_list R num old 0)
      (window_list R num new 0) m) = Inr (R1, m1)"
    using assms(4) loop_is_merge [OF assms(1), of 0 0 "window_fuel new old" R e cl time bl m] assms(2,3)
    by (simp add: window_fuel_def)
  then obtain sent where s: "merge_lists (MSG_WriteDeltaEntity e cl time) (idx bl) (window_list R num old 0)
      (window_list R num new 0) m = Inr (sent, m1)" "R1 = store_window num new 0 sent R"
    by (auto simp: with_stored_def and_then_Inr)
  show ?thesis using that [OF s] merge_length [OF s(1)] assms(1) by (simp add: apart_def)
qed

lemma entities_loop_sent:
  assumes "apart num new old" "int (length R) = num" "known_numbers (window_list R num old 0)"
    "known_numbers (window_list R num new 0)"
    "entities_loop (window_fuel new old) e cl time bl num new old R 0 0 m = Inr (R1, m1)"
  shows "merge_lists (MSG_WriteDeltaEntity e cl time) (idx bl) (window_list R num old 0) (window_list R num new 0) m =
    Inr (window_list R1 num new 0, m1)"
proof (rule entities_loop_stored [OF assms(1,3-5)])
  fix sent assume s: "merge_lists (MSG_WriteDeltaEntity e cl time) (idx bl) (window_list R num old 0) (window_list R num new 0) m =
      Inr (sent, m1)" "R1 = store_window num new 0 sent R" "int (length sent) = snd new"
  have "window_list R1 num new 0 = sent"
    unfolding s(2) using assms(1,2) s(3) by (intro window_list_stored) (auto simp: apart_def)
  then show ?thesis using s(1) by simp
qed

lemma ready_known:
  assumes "merge_ready P Q limit cb b l colds olds news" "limit \<le> 9999"
  shows "known_numbers olds \<and> known_numbers news"
proof -
  have "entity_number x < 9999" if "x \<in> set olds \<union> set news" for x
    using assms that by (force simp: merge_ready_def)
  then show ?thesis by (simp add: known_numbers_def)
qed

definition entities_ready :: "snapenv \<Rightarrow> decoder \<Rightarrow> cstruct list \<Rightarrow> (int \<Rightarrow> cstruct) \<Rightarrow> cstruct list \<Rightarrow> cstruct list \<Rightarrow>
    cstruct list \<Rightarrow> bool" where
  "entities_ready e d bl cbl = merge_ready (base_sees e) (entity_sendable e d) 1023 cbl (idx bl) (-1)"

definition read_entities ::
  "snapenv \<Rightarrow> decoder \<Rightarrow> int \<Rightarrow> (int \<Rightarrow> cstruct) \<Rightarrow> nat \<Rightarrow> cstruct list \<Rightarrow> cstruct list reader" where
  "read_entities e d time = read_walk entity_head (read_entity e d time)"

text \<open>What is sent is the new window afterwards, and the client ends with copies of it.\<close>

lemma entities_loop_received:
  assumes "apart num new old" "int (length R) = num" "wr_ok m"
    "entities_ready e d bl cbl colds (window_list R num old 0) (window_list R num new 0)"
    "entities_loop (window_fuel new old) e cl time bl num new old R 0 0 (MSG_ClearLastReferencedEntity m) = Inr (R1, m1)"
    "\<not> overflowed (entities_end m1)" "window_fuel new old < k"
  shows "received (sees_entity e) sent_as (read_entities e d time cbl k) [] colds
    (window_list R1 num new 0) (window_list R num new 0) (MSG_ClearLastReferencedEntity m) (entities_end m1)"
proof -
  note r = assms(4) [unfolded entities_ready_def]
  have known: "known_numbers (window_list R num old 0)" "known_numbers (window_list R num new 0)"
    using ready_known [OF r] by simp_all
  note s = entities_loop_sent [OF assms(1,2) known assms(5)]
  show ?thesis unfolding read_entities_def using assms(3,6,7) r
    by (intro ents.merge_received [OF s]) (simp_all add: MSG_ClearLastReferencedEntity_def window_fuel_def add.commute)
qed

text \<open>The copies of one snapshot are the old copies of the next one, as long as no entity changes its table.\<close>

lemma next_old_copies:
  assumes "list_all2 (sees_entity e) cs sent"
    "\<forall>s \<in> set sent. \<forall>n \<in> set news. entity_number n = entity_number s \<longrightarrow> entity_fields n = entity_fields s"
  shows "list_all2 (old_copy (base_sees e) news) cs sent"
  using assms(1)
proof (rule list.rel_mono_strong)
  fix c s assume s: "s \<in> set sent" "sees_entity e c s"
  show "old_copy (base_sees e) news c s"
    using s assms(2) by (simp add: old_copy_def sees_entity_def base_sees_def)
qed

end
