(* ===== verification/SnapClients.thy ===== *)
theory SnapClients
  imports SnapRing
begin

text \<open>
  The clients of a snapshot: the second list, of which the server keeps no changed copy.  A bit
  says whether another number follows.
\<close>

section \<open>Clients as a list\<close>

definition client_head :: "int option reader" where
  "client_head = do { more \<leftarrow> read_bit;
     if more = 0 then State_Monad.return None
     else do { i \<leftarrow> State (MSG_ReadEntityIndex 6); State_Monad.return (Some i) } }"

definition client_writer :: "snapenv \<Rightarrow> int \<Rightarrow> element_writer" where
  "client_writer e time from to force m =
     and_then (MSG_WriteDeltaClient e time (Some from) to force m) (\<lambda>m1. Inr (to, m1))"

definition client_removal :: "cstruct \<Rightarrow> msg \<Rightarrow> msg" where
  "client_removal x m = MSG_WriteBit1 (MSG_WriteEntityIndex (entity_number x) 6 (MSG_WriteBit1 m))"

definition client_sees :: "snapenv \<Rightarrow> cstruct \<Rightarrow> cstruct \<Rightarrow> bool" where
  "client_sees e c s \<longleftrightarrow> (\<forall>f \<in> set clientStateFields. sees e (bits f) (c (offset f)) (s (offset f)))"

definition sees_client :: "snapenv \<Rightarrow> cstruct \<Rightarrow> cstruct \<Rightarrow> bool" where
  "sees_client e c s \<longleftrightarrow> c 0 = s 0 \<and> client_sees e c s"

definition client_sendable :: "snapenv \<Rightarrow> decoder \<Rightarrow> cstruct \<Rightarrow> bool" where
  "client_sendable e d n \<longleftrightarrow> arith_ok e d"

abbreviation read_client :: "snapenv \<Rightarrow> decoder \<Rightarrow> int \<Rightarrow> cstruct \<Rightarrow> 32 word \<Rightarrow> cstruct reader" where
  "read_client e d time \<equiv> read_delta e d time clientStateFields"

lemma client_written:
  assumes "client_writer e time from (Some n) force m = Inr (s, m1)"
  shows "s = Some n" "last_changed e from n 0 0 clientStateFields = 0 \<and> \<not> force \<and> m1 = m \<or>
    delta_body e time from n clientStateFields
      (MSG_WriteBit0 (MSG_WriteEntityIndex (entity_number n) 6 (MSG_WriteBit1 m))) = Inr m1"
  using assms struct_written [of e time "from" n force 6 clientStateFields True m]
  by (auto simp: client_writer_def MSG_WriteDeltaClient_def and_then_Inr)

lemma client_conveys:
  assumes "arith_ok e d" "client_sees e base from"
  obtains new where "conveys (read_client e d time base num) (delta_body e time from to clientStateFields) new"
    "new 0 = num" "client_sees e new to"
  using delta_conveys [OF assms(1) client_table_ok, of base "from" time num to] assms(2)
  by (auto simp: client_sees_def)

lemma client_body_sticky:
  assumes "arith_ok e d" "delta_body e time from to clientStateFields m = Inr m1" "overflowed m"
  shows "overflowed m1"
proof -
  obtain new where c: "conveys (read_client e d time from 0) (delta_body e time from to clientStateFields) new"
    by (rule client_conveys [OF assms(1), of "from" "from" time 0 to]) (simp_all add: client_sees_def sees_refl)
  show ?thesis by (rule conveysD(1) [OF c assms(2,3)])
qed

lemma client_element_sticky:
  assumes "client_writer e time from (Some n) force m = Inr (s, m1)" "client_sendable e d n" "overflowed m"
  shows "overflowed m1"
  using client_written(2) [OF assms(1)] client_body_sticky assms(2,3) sticky(1,2) WriteEntityIndex_sticky
  unfolding client_sendable_def by blast

lemma client_index_transfers:
  assumes "wr_ok m" "\<not> overflowed (MSG_WriteEntityIndex i 6 (MSG_WriteBit1 m))" "- 1 \<le> lastRefEntity m"
    "lastRefEntity m < i" "i < 64"
  shows "transfers client_head m (MSG_WriteEntityIndex i 6 (MSG_WriteBit1 m)) (Some i)"
proof -
  have "\<not> overflowed (MSG_WriteBit1 m)" using assms(2) WriteEntityIndex_sticky by blast
  then have b: "transfers read_bit m (MSG_WriteBit1 m) 1" using assms(1) by (intro transmits_transfers writes_transmit)
  then have i: "transfers (State (MSG_ReadEntityIndex 6)) (MSG_WriteBit1 m) (MSG_WriteEntityIndex i 6 (MSG_WriteBit1 m)) i"
    using assms by (intro index_transfers) (auto dest: transfers_ok)
  show ?thesis unfolding client_head_def using transfers_ok [OF i]
    by (intro transfers_bind [OF b]) (simp, intro transfers_bind [OF i] transfers_return, simp)
qed

lemma client_element_read:
  assumes w: "client_writer e time from (Some n) force m = Inr (s, m1)" "client_sendable e d n"
    "client_sees e base from" "wr_ok m" "\<not> overflowed m1" "- 1 \<le> lastRefEntity m" "lastRefEntity m < entity_number n"
    "entity_number n < 64"
  shows "\<not> force \<and> m1 = m \<and> (base 0 = n 0 \<longrightarrow> sees_client e base (the s)) \<or>
      (\<exists>m0 m' new. sees_client e new (the s) \<and> lastRefEntity m1 = entity_number n \<and>
        transfers client_head m m0 (Some (entity_number n)) \<and> transfers read_bit m0 m' 0 \<and>
        transfers (read_client e d time base (word_of_int (entity_number n))) m' m1 new)"
proof -
  have A: "arith_ok e d" using w(2) by (simp add: client_sendable_def)
  let ?i = "MSG_WriteEntityIndex (entity_number n) 6 (MSG_WriteBit1 m)"
  note s = client_written [OF w(1)]
  from s(2) show ?thesis
  proof
    assume z: "last_changed e from n 0 0 clientStateFields = 0 \<and> \<not> force \<and> m1 = m"
    have "base 0 = base 0 \<and> (\<forall>f \<in> set clientStateFields. sees e (bits f) (base (offset f)) (n (offset f)))"
      by (rule seen_after [where lc = 0 and num = "base 0", OF client_table_ok _ w(3) [unfolded client_sees_def]])
        (simp_all add: z)
    then show ?thesis using z s(1) by (simp add: sees_client_def client_sees_def)
  next
    assume body: "delta_body e time from n clientStateFields (MSG_WriteBit0 ?i) = Inr m1"
    obtain new where new: "conveys (read_client e d time base (word_of_int (entity_number n)))
        (delta_body e time from n clientStateFields) new" "new 0 = word_of_int (entity_number n)" "client_sees e new n"
      by (rule client_conveys [OF A w(3)])
    note c = conveysD [OF new(1) body]
    have o: "\<not> overflowed (MSG_WriteBit0 ?i)" using c(1) w(5) by blast
    then have "\<not> overflowed ?i" using sticky(1) by blast
    then have h: "transfers client_head m ?i (Some (entity_number n))" using w by (intro client_index_transfers)
    then have b: "transfers read_bit ?i (MSG_WriteBit0 ?i) 0"
      using o conjunct2 [OF transfers_ok [OF h]] by (intro transmits_transfers writes_transmit)
    have "transfers (read_client e d time base (word_of_int (entity_number n))) (MSG_WriteBit0 ?i) m1 new"
      by (rule c(3) [OF conjunct2 [OF transfers_ok [OF b]] w(5)])
    moreover have "sees_client e new n" using new(2,3) by (simp add: sees_client_def word_of_number)
    ultimately show ?thesis using h b s(1) c(2)
      by (intro disjI2 exI [of _ ?i] exI [of _ "MSG_WriteBit0 ?i"] exI [of _ new]) simp
  qed
qed

lemma client_removal_transfers:
  assumes "wr_ok m" "\<not> overflowed (client_removal x m)" "- 1 \<le> lastRefEntity m"
    "lastRefEntity m < entity_number x" "entity_number x < 64"
  shows "\<exists>m0. transfers client_head m m0 (Some (entity_number x)) \<and> transfers read_bit m0 (client_removal x m) 1"
proof -
  let ?i = "MSG_WriteEntityIndex (entity_number x) 6 (MSG_WriteBit1 m)"
  have "\<not> overflowed ?i" using assms(2) sticky(2) by (auto simp: client_removal_def)
  then have h: "transfers client_head m ?i (Some (entity_number x))" using assms by (intro client_index_transfers)
  then have "transfers read_bit ?i (client_removal x m) 1"
    using transfers_ok [OF h] assms(2) unfolding client_removal_def by (intro transmits_transfers writes_transmit) simp_all
  then show ?thesis using h by blast
qed

lemma client_end_transfers:
  assumes "wr_ok m" "\<not> overflowed (MSG_WriteBit0 m)"
  shows "transfers client_head m (MSG_WriteBit0 m) None"
proof -
  have b: "transfers read_bit m (MSG_WriteBit0 m) 0" using assms by (intro transmits_transfers writes_transmit)
  show ?thesis unfolding client_head_def using transfers_ok [OF b]
    by (intro transfers_bind [OF b]) (simp add: transfers_return)
qed

lemma client_removed: "client_writer e time x None True m = Inr (None, client_removal x m)"
  by (simp add: client_writer_def MSG_WriteDeltaClient_def MSG_WriteEntityRemoval_def client_removal_def)

interpretation clis: sent_list "client_writer e time" client_removal MSG_WriteBit0 client_head
    "read_client e d time" "\<lambda>n. client_sees e" "client_sendable e d" "sees_client e" "(=)" 64
  for e time d
proof
  show "overflowed m \<Longrightarrow> overflowed (client_removal x m)" for m x
    by (simp add: client_removal_def sticky WriteEntityIndex_sticky)
  show "lastRefEntity (client_removal x m) = entity_number x" for m x by (simp add: client_removal_def)
  show "client_writer e time from (Some n) force m = Inr (s, m1) \<Longrightarrow> the s = n" for "from" n force m s m1
    by (auto dest: client_written(1))
  show "wr_ok m \<Longrightarrow> \<not> overflowed (MSG_WriteBit0 m) \<Longrightarrow> transfers client_head m (MSG_WriteBit0 m) None" for m
    by (rule client_end_transfers)
qed (rule client_removed client_element_sticky client_element_read client_removal_transfers sticky(1); assumption)+

section \<open>The loop\<close>

definition known_clients :: "snap_error + (cstruct list \<times> msg) \<Rightarrow> snap_error + msg" where
  "known_clients r = and_then r (\<lambda>(sent, m). Inr m)"

lemma client_step:
  "known_clients (and_then (client_writer e time from to force m) (\<lambda>(s, m1).
     and_then (rest m1) (\<lambda>(ss, m2). Inr (the s # ss, m2)))) =
   and_then (MSG_WriteDeltaClient e time (Some from) to force m) (\<lambda>m1. known_clients (rest m1))"
proof (cases "MSG_WriteDeltaClient e time (Some from) to force m")
  case (Inr m1)
  show "known_clients (and_then (client_writer e time from to force m) (\<lambda>(s, m1).
     and_then (rest m1) (\<lambda>(ss, m2). Inr (the s # ss, m2)))) =
   and_then (MSG_WriteDeltaClient e time (Some from) to force m) (\<lambda>m1. known_clients (rest m1))"
    using Inr by (cases "rest m1") (auto simp: client_writer_def known_clients_def)
qed (simp_all add: client_writer_def known_clients_def)

lemma client_removal_step:
  "known_clients (and_then (client_writer e time from to force m) (\<lambda>(s, m1). rest m1)) =
   and_then (MSG_WriteDeltaClient e time (Some from) to force m) (\<lambda>m1. known_clients (rest m1))"
  by (cases "MSG_WriteDeltaClient e time (Some from) to force m") (simp_all add: client_writer_def known_clients_def)

lemma no_old_client: "MSG_WriteDeltaClient e time None = MSG_WriteDeltaClient e time (Some null_struct)"
  by (simp add: fun_eq_iff MSG_WriteDeltaClient_def)

lemma clients_loop_is_merge:
  "0 \<le> ni \<Longrightarrow> 0 \<le> oi \<Longrightarrow> nat (snd new - ni) + nat (snd old - oi) \<le> k \<Longrightarrow>
   known_numbers (window_list R num old oi) \<Longrightarrow> known_numbers (window_list R num new ni) \<Longrightarrow>
   clients_loop k e time num new old R ni oi m = known_clients
     (merge_lists (client_writer e time) (\<lambda>_. null_struct) (window_list R num old oi) (window_list R num new ni) m)"
proof (induction k arbitrary: ni oi m)
  case 0
  then have "\<not> ni < snd new" "\<not> oi < snd old" by simp_all
  then show ?case by (simp add: window_list_step known_clients_def)
next
  case (Suc k)
  let ?x = "ring_slot R num (fst old + oi)" and ?n = "ring_slot R num (fst new + ni)"
  let ?os = "window_list R num old (oi + 1)" and ?ns = "window_list R num new (ni + 1)"
  have ol: "window_list R num old oi = (if oi < snd old then ?x # ?os else [])"
    and nl: "window_list R num new ni = (if ni < snd new then ?n # ?ns else [])"
    by (simp_all only: window_list_step [of R num _ oi] window_list_step [of R num _ ni])
  have known: "oi < snd old \<Longrightarrow> entity_number ?x < 9999 \<and> known_numbers ?os"
    "ni < snd new \<Longrightarrow> entity_number ?n < 9999 \<and> known_numbers ?ns"
    using Suc.prems(4,5) by (simp_all add: ol nl known_numbers_def)
  have IH: "clients_loop k e time num new old R ni' oi' = (\<lambda>m1. known_clients
     (merge_lists (client_writer e time) (\<lambda>_. null_struct) (window_list R num old oi') (window_list R num new ni') m1))"
    if "ni' = ni \<or> ni < snd new \<and> ni' = ni + 1" "oi' = oi \<or> oi < snd old \<and> oi' = oi + 1" "ni' + oi' > ni + oi" for ni' oi'
    using that Suc.prems known by (intro ext Suc.IH) auto
  consider "\<not> ni < snd new" "\<not> oi < snd old" | "\<not> ni < snd new" "oi < snd old"
    | "ni < snd new" "\<not> oi < snd old" | "ni < snd new" "oi < snd old" by blast
  then show ?case
  proof cases
    case 1
    then show ?thesis by (simp add: ol nl known_clients_def)
  next
    case 2
    then show ?thesis using known IH [of ni "oi + 1"] by (simp add: ol nl element_at_def client_removal_step)
  next
    case 3
    then show ?thesis using known IH [of "ni + 1" oi] by (simp add: ol nl element_at_def client_step no_old_client)
  next
    case 4
    consider "entity_number ?n = entity_number ?x" | "entity_number ?n < entity_number ?x"
      | "entity_number ?x < entity_number ?n" by linarith
    then show ?thesis
    proof cases
      case 1
      then show ?thesis using 4 IH [of "ni + 1" "oi + 1"] by (simp add: ol nl element_at_def client_step)
    next
      case 2
      then show ?thesis using 4 IH [of "ni + 1" oi] by (simp add: ol nl element_at_def client_step no_old_client)
    next
      case 3
      then show ?thesis using 4 IH [of ni "oi + 1"] by (simp add: ol nl element_at_def client_removal_step)
    qed
  qed
qed

section \<open>What the client ends with\<close>

definition clients_ready :: "snapenv \<Rightarrow> decoder \<Rightarrow> cstruct list \<Rightarrow> cstruct list \<Rightarrow> cstruct list \<Rightarrow> bool" where
  "clients_ready e d =
     merge_ready (\<lambda>n. client_sees e) (client_sendable e d) 64 (\<lambda>_. null_struct) (\<lambda>_. null_struct) (-1)"

definition read_clients :: "snapenv \<Rightarrow> decoder \<Rightarrow> int \<Rightarrow> nat \<Rightarrow> cstruct list \<Rightarrow> cstruct list reader" where
  "read_clients e d time = read_walk client_head (read_client e d time) (\<lambda>_. null_struct)"

lemma clients_loop_received:
  assumes "wr_ok m" "clients_ready e d colds (window_list R num old 0) (window_list R num new 0)"
    "clients_loop (window_fuel new old) e time num new old R 0 0 (MSG_ClearLastReferencedEntity m) = Inr m1"
    "\<not> overflowed (MSG_WriteBit0 m1)" "window_fuel new old < k"
  obtains cnews where "list_all2 (sees_client e) cnews (window_list R num new 0)"
    "transfers (read_clients e d time k colds) (MSG_ClearLastReferencedEntity m)
       (MSG_WriteBit0 m1) cnews"
proof -
  note r = assms(2) [unfolded clients_ready_def]
  have known: "known_numbers (window_list R num old 0)" "known_numbers (window_list R num new 0)"
    using ready_known [OF r] by simp_all
  have "known_clients (merge_lists (client_writer e time) (\<lambda>_. null_struct) (window_list R num old 0)
      (window_list R num new 0) (MSG_ClearLastReferencedEntity m)) = Inr m1"
    using clients_loop_is_merge [of 0 0 new old "window_fuel new old" R num e time] known
    by (simp add: window_fuel_def assms(3) [symmetric])
  then obtain sent where s: "merge_lists (client_writer e time) (\<lambda>_. null_struct) (window_list R num old 0)
      (window_list R num new 0) (MSG_ClearLastReferencedEntity m) = Inr (sent, m1)"
    by (auto simp: known_clients_def and_then_Inr)
  have "received (sees_client e) (=) (read_clients e d time k) [] colds sent
      (window_list R num new 0) (MSG_ClearLastReferencedEntity m) (MSG_WriteBit0 m1)"
    unfolding read_clients_def using assms(1,4,5) r
    by (intro clis.merge_received [OF s]) (simp_all add: MSG_ClearLastReferencedEntity_def window_fuel_def add.commute)
  then show ?thesis using that by (auto simp: received_def list.rel_eq)
qed

end
