(* ===== verification/SnapSystem.thy ===== *)
theory SnapSystem
  imports SnapClients SnapPlayerRead
begin

text \<open>
  A whole snapshot is received: the client that still has the frame the snapshot is encoded against
  ends with the player, the entities and the clients of the new frame.
\<close>

section \<open>The frames of a snapshot\<close>

definition new_frame :: "svsHeader \<Rightarrow> snapclient \<Rightarrow> clientSnapshot" where
  "new_frame h c = (idx (frames c) (outgoing c AND PACKET_MASK))\<lparr>var_03 := sh_time h\<rparr>"

definition with_frame :: "svsHeader \<Rightarrow> snapclient \<Rightarrow> snapclient" where
  "with_frame h c = c\<lparr>frames := put (outgoing c AND PACKET_MASK) (new_frame h c) (frames c)\<rparr>"

definition old_frame :: "svsHeader \<Rightarrow> snapclient \<Rightarrow> clientSnapshot option" where
  "old_frame h c = fst (snd (choose_frame h (with_frame h c)))"

definition last_frame :: "svsHeader \<Rightarrow> snapclient \<Rightarrow> int" where
  "last_frame h c = snd (snd (choose_frame h (with_frame h c)))"

definition entity_window :: "clientSnapshot option \<Rightarrow> window" where
  "entity_window f = (case f of None \<Rightarrow> (0, 0) | Some f \<Rightarrow> (first_entity f, num_entities f))"

definition client_window :: "clientSnapshot option \<Rightarrow> window" where
  "client_window f = (case f of None \<Rightarrow> (0, 0) | Some f \<Rightarrow> (first_client f, num_clients f))"

definition frame_entities :: "svsHeader \<Rightarrow> clientSnapshot option \<Rightarrow> cstruct list" where
  "frame_entities h f = window_list (snapshotEntities h) (numSnapshotEntities h) (entity_window f) 0"

definition frame_clients :: "svsHeader \<Rightarrow> clientSnapshot option \<Rightarrow> cstruct list" where
  "frame_clients h f = window_list (snapshotClients h) (numSnapshotClients h) (client_window f) 0"

text \<open>
  The windows are allocated in order: the new one lies below \<open>nextSnapshotEntities\<close> and the old one
  below the new one.  Together with \<open>in_window\<close> they are then apart.
\<close>

definition in_order :: "svsHeader \<Rightarrow> clientSnapshot \<Rightarrow> clientSnapshot option \<Rightarrow> bool" where
  "in_order h frame old \<longleftrightarrow> 0 < numSnapshotEntities h \<and>
     int (length (snapshotEntities h)) = numSnapshotEntities h \<and>
     0 \<le> num_entities frame \<and> num_entities frame \<le> numSnapshotEntities h \<and>
     first_entity frame + num_entities frame \<le> nextSnapshotEntities h \<and>
     (\<forall>f. old = Some f \<longrightarrow> 0 \<le> num_entities f \<and> first_entity f + num_entities f \<le> first_entity frame)"

lemma choose_frame_in_window:
  "choose_frame h c = (c1, Some f, l) \<Longrightarrow> in_window h f"
  by (auto simp: choose_frame_def Let_def split: if_splits)

lemma old_frame_in_window: "old_frame h c = Some f \<Longrightarrow> in_window h f"
  using choose_frame_in_window [of h "with_frame h c"]
  by (cases "choose_frame h (with_frame h c)") (auto simp: old_frame_def)

lemma windows_apart:
  assumes "in_order h frame (old_frame h c)"
  shows "apart (numSnapshotEntities h) (entity_window (Some frame)) (entity_window (old_frame h c))"
proof (cases "old_frame h c")
  case None
  then show ?thesis using assms by (simp add: in_order_def apart_def entity_window_def)
next
  case (Some f)
  then have "\<not> first_entity f < nextSnapshotEntities h - numSnapshotEntities h"
    using old_frame_in_window by (auto simp: in_window_def)
  then show ?thesis using assms Some by (simp add: in_order_def apart_def entity_window_def)
qed

section \<open>The client\<close>

definition clear_last :: "unit reader" where
  "clear_last = State (\<lambda>m. ((), MSG_ClearLastReferencedEntity m))"

lemma clear_last_transfers: "wr_ok m \<Longrightarrow> transfers clear_last m (MSG_ClearLastReferencedEntity m) ()"
  by (auto simp: transfers_def clear_last_def reads_at_def MSG_ClearLastReferencedEntity_def)

text \<open>
  What the client knows of a frame: its player, entities and clients.  \<open>old\<close> finds the frame that the
  snapshot names (zero: none), \<open>fuel\<close> bounds the number of records.
\<close>

type_synonym client_frame = "cstruct \<times> cstruct list \<times> cstruct list"

record received_snapshot =
  rs_time :: int
  rs_flags :: int
  rs_origin :: bool
  rs_player :: cstruct
  rs_entities :: "cstruct list"
  rs_clients :: "cstruct list"

definition read_lists :: "snapenv \<Rightarrow> decoder \<Rightarrow> int \<Rightarrow> (int \<Rightarrow> cstruct) \<Rightarrow> nat \<Rightarrow> nat \<Rightarrow> client_frame \<Rightarrow>
    (cstruct list \<times> cstruct list) reader" where
  "read_lists e d time cbl k l old = do { _ \<leftarrow> clear_last;
     do { ents \<leftarrow> read_entities e d time cbl k (fst (snd old));
     do { _ \<leftarrow> clear_last;
     do { clis \<leftarrow> read_clients e d time l (snd (snd old)); State_Monad.return (ents, clis) } } } }"

definition read_snapshot :: "snapenv \<Rightarrow> decoder \<Rightarrow> (int \<Rightarrow> cstruct) \<Rightarrow> nat \<Rightarrow> nat \<Rightarrow> (int \<Rightarrow> client_frame) \<Rightarrow>
    received_snapshot option reader" where
  "read_snapshot e d cbl k l old = do { cmd \<leftarrow> read_byte;
     if cmd \<noteq> svc_snapshot then State_Monad.return None else
     do { time \<leftarrow> read_long;
     do { lf \<leftarrow> read_byte;
     do { flags \<leftarrow> read_byte;
     do { p \<leftarrow> read_player e d False time (fst (old lf));
     do { ls \<leftarrow> read_lists e d time cbl k l (old lf);
          State_Monad.return (Some \<lparr>rs_time = time, rs_flags = flags, rs_origin = fst p, rs_player = snd p,
            rs_entities = fst ls, rs_clients = snd ls\<rparr>) } } } } } }"

text \<open>The client's copy of the old frame is good enough for the new one.\<close>

definition snapshot_ready :: "snapenv \<Rightarrow> decoder \<Rightarrow> svsHeader \<Rightarrow> snapclient \<Rightarrow> (int \<Rightarrow> cstruct) \<Rightarrow> client_frame \<Rightarrow> bool" where
  "snapshot_ready e d h c cbl old \<longleftrightarrow> arith_ok e d \<and> s32 (sh_time h) = sh_time h \<and>
     in_order h (new_frame h c) (old_frame h c) \<and>
     player_base e (fst old) (old_player (map_option ps (old_frame h c))) \<and>
     entities_ready e d (svEntities h) cbl (fst (snd old)) (frame_entities h (old_frame h c)) (frame_entities h (Some (new_frame h c))) \<and>
     clients_ready e d (snd (snd old)) (frame_clients h (old_frame h c)) (frame_clients h (Some (new_frame h c)))"

text \<open>An exact copy of the old frame is always good enough.\<close>

lemma base_sees_refl: "base_sees e n s s"
  by (simp add: base_sees_def)

lemma old_copies_refl: "(\<And>n s. P n s s) \<Longrightarrow> list_all2 (old_copy P news) xs xs"
  by (simp add: list_all2_same old_copy_def)

lemma arrays_base_refl: "arrays_base e s s"
  by (auto simp: arrays_base_def stats_rel_def shorts_rel_def objective_rel_def)

lemma player_base_refl: "player_base e s s"
  by (simp add: player_base_def arrays_base_refl)

definition list_ok :: "(cstruct \<Rightarrow> bool) \<Rightarrow> int \<Rightarrow> cstruct list \<Rightarrow> bool" where
  "list_ok P limit xs \<longleftrightarrow> sorted_wrt (<) (map entity_number xs) \<and>
     list_all (\<lambda>x. 0 \<le> entity_number x \<and> entity_number x < limit \<and> P x) xs"

lemma exact_ready:
  assumes "arith_ok e d" "s32 (sh_time h) = sh_time h" "in_order h (new_frame h c) (old_frame h c)"
    "list_ok (\<lambda>_. True) 1023 (frame_entities h (old_frame h c))"
    "list_ok (\<lambda>x. sint (x 4) < 256) 1023 (frame_entities h (Some (new_frame h c)))"
    "list_ok (\<lambda>_. True) 64 (frame_clients h (old_frame h c))"
    "list_ok (\<lambda>_. True) 64 (frame_clients h (Some (new_frame h c)))"
  shows "snapshot_ready e d h c (idx (svEntities h)) (old_player (map_option ps (old_frame h c)),
    frame_entities h (old_frame h c), frame_clients h (old_frame h c))"
  using assms old_copies_refl [of "base_sees e"] old_copies_refl [of "\<lambda>n. client_sees e"]
  by (auto simp: snapshot_ready_def player_base_refl entities_ready_def clients_ready_def merge_ready_def list_ok_def
    list_all_iff entity_sendable_def client_sendable_def base_sees_refl client_sees_def)

section \<open>Reception\<close>

lemma write_nops_grow:
  "wr_ok m \<Longrightarrow> \<not> overflowed (write_nops n m) \<Longrightarrow> grows m (write_nops n m)"
  "overflowed m \<Longrightarrow> overflowed (write_nops n m)"
proof -
  show s: "overflowed m \<Longrightarrow> overflowed (write_nops n m)" for n m by (induction n arbitrary: m) (simp_all add: sticky)
  show "wr_ok m \<Longrightarrow> \<not> overflowed (write_nops n m) \<Longrightarrow> grows m (write_nops n m)"
  proof (induction n arbitrary: m)
    case 0
    then show ?case by (simp add: grows_refl)
  next
    case (Suc n)
    have "\<not> overflowed (MSG_WriteByte 0 m)" using Suc.prems(2) s by auto
    then have "transfers read_byte m (MSG_WriteByte 0 m) (0 mod 256)"
      using Suc.prems(1) by (intro transmits_transfers writes_transmit)
    then have "grows m (MSG_WriteByte 0 m)" "wr_ok (MSG_WriteByte 0 m)" by (simp_all add: transfers_def grows_def)
    then show ?case using Suc by (auto intro: grows_trans)
  qed
qed

lemma clients_loop_sticky:
  assumes "clients_loop (window_fuel new old) e time num new old R 0 0 m = Inr m1" "overflowed m"
    "clients_ready e d colds (window_list R num old 0) (window_list R num new 0)"
  shows "overflowed m1"
proof -
  note r = assms(3) [unfolded clients_ready_def]
  have k: "known_numbers (window_list R num old 0)" "known_numbers (window_list R num new 0)"
    using ready_known [OF r] by simp_all
  have "known_clients (merge_lists (client_writer e time) (\<lambda>_. null_struct) (window_list R num old 0)
      (window_list R num new 0) m) = Inr m1"
    using clients_loop_is_merge [of 0 0 new old "window_fuel new old" R num e time] k
    by (simp add: window_fuel_def assms(1) [symmetric])
  then obtain sent where s: "merge_lists (client_writer e time) (\<lambda>_. null_struct) (window_list R num old 0)
      (window_list R num new 0) m = Inr (sent, m1)"
    by (auto simp: known_clients_def and_then_Inr)
  have "\<forall>n \<in> set (window_list R num new 0). client_sendable e d n" using r by (simp add: merge_ready_def)
  then show ?thesis using clis.merge_sticky [OF s _ assms(2)] by blast
qed

lemma entities_loop_sticky:
  assumes "apart num new old" "int (length R) = num"
    "entities_ready e d bl cbl colds (window_list R num old 0) (window_list R num new 0)"
    "entities_loop (window_fuel new old) e cl time bl num new old R 0 0 m = Inr (R1, m1)" "overflowed m"
  shows "overflowed m1"
proof -
  note r = assms(3) [unfolded entities_ready_def]
  have known: "known_numbers (window_list R num old 0)" "known_numbers (window_list R num new 0)"
    using ready_known [OF r] by simp_all
  have "\<forall>n \<in> set (window_list R num new 0). entity_sendable e d n" using r by (simp add: merge_ready_def)
  then show ?thesis using ents.merge_sticky [OF entities_loop_sent [OF assms(1,2) known assms(4)] _ assms(5)] by blast
qed

lemma lists_received:
  assumes r: "snapshot_ready e d h c cbl old" and old: "oldf = old_frame h c" and new: "newf = new_frame h c"
    and ents: "entities_loop (window_fuel (entity_window (Some newf)) (entity_window oldf)) e cl (sh_time h) (svEntities h)
      (numSnapshotEntities h) (entity_window (Some newf)) (entity_window oldf) (snapshotEntities h) 0 0
      (MSG_ClearLastReferencedEntity m) = Inr (R, m1)"
    and clis: "clients_loop (window_fuel (client_window (Some newf)) (client_window oldf)) e (sh_time h) (numSnapshotClients h)
      (client_window (Some newf)) (client_window oldf) (snapshotClients h) 0 0
      (MSG_ClearLastReferencedEntity (entities_end m1)) = Inr m2"
    and m: "wr_ok m" "\<not> overflowed (MSG_WriteBit0 m2)"
    and fuel: "window_fuel (entity_window (Some newf)) (entity_window oldf) < k"
      "window_fuel (client_window (Some newf)) (client_window oldf) < l"
  obtains cents cclis where "transfers (read_lists e d (sh_time h) cbl k l old) m (MSG_WriteBit0 m2) (cents, cclis)"
    "list_all2 (sees_entity e) cents (frame_entities (h\<lparr>snapshotEntities := R\<rparr>) (Some newf))"
    "list_all2 sent_as (frame_entities (h\<lparr>snapshotEntities := R\<rparr>) (Some newf)) (frame_entities h (Some newf))"
    "list_all2 (sees_client e) cclis (frame_clients h (Some newf))"
proof -
  have rs: "in_order h newf oldf" "entities_ready e d (svEntities h) cbl (fst (snd old)) (frame_entities h oldf) (frame_entities h (Some newf))"
    "clients_ready e d (snd (snd old)) (frame_clients h oldf) (frame_clients h (Some newf))"
    using r by (simp_all add: snapshot_ready_def old new)
  have o: "\<not> overflowed (entities_end m1)"
  proof
    assume "overflowed (entities_end m1)"
    then have "overflowed (MSG_ClearLastReferencedEntity (entities_end m1))" by (simp add: MSG_ClearLastReferencedEntity_def)
    from clients_loop_sticky [OF clis this rs(3) [unfolded frame_clients_def]] show False using m(2) sticky(1) by blast
  qed
  have ap: "apart (numSnapshotEntities h) (entity_window (Some newf)) (entity_window oldf)"
    using windows_apart [of h newf c] rs(1) by (simp add: old)
  have len: "int (length (snapshotEntities h)) = numSnapshotEntities h" using rs(1) by (simp add: in_order_def)
  from entities_loop_received [OF ap len m(1) rs(2) [unfolded frame_entities_def] ents o fuel(1)]
  obtain cents where ce: "list_all2 (sees_entity e) cents (frame_entities (h\<lparr>snapshotEntities := R\<rparr>) (Some newf))"
    "list_all2 sent_as (frame_entities (h\<lparr>snapshotEntities := R\<rparr>) (Some newf)) (frame_entities h (Some newf))"
    "transfers (read_entities e d (sh_time h) cbl k (fst (snd old))) (MSG_ClearLastReferencedEntity m) (entities_end m1) cents"
    by (auto simp: received_def frame_entities_def)
  have ok: "wr_ok (entities_end m1)" using transfers_ok [OF ce(3)] by simp
  obtain cclis where cc: "list_all2 (sees_client e) cclis (frame_clients h (Some newf))"
    "transfers (read_clients e d (sh_time h) l (snd (snd old))) (MSG_ClearLastReferencedEntity (entities_end m1)) (MSG_WriteBit0 m2) cclis"
    using clients_loop_received [OF ok rs(3) [unfolded frame_clients_def] clis m(2) fuel(2)] by (auto simp: frame_clients_def)
  have "transfers (read_lists e d (sh_time h) cbl k l old) m (MSG_WriteBit0 m2) (cents, cclis)"
    unfolding read_lists_def using transfers_ok [OF cc(2)]
    by (intro transfers_bind [OF clear_last_transfers [OF m(1)]] transfers_bind [OF ce(3)]
      transfers_bind [OF clear_last_transfers [OF ok]] transfers_bind [OF cc(2)] transfers_return) simp
  then show ?thesis using that ce(1,2) cc(1) by blast
qed

lemma lists_sticky:
  assumes r: "snapshot_ready e d h c cbl old"
    and ents: "entities_loop (window_fuel (entity_window (Some (new_frame h c))) (entity_window (old_frame h c))) e cl (sh_time h)
      (svEntities h) (numSnapshotEntities h) (entity_window (Some (new_frame h c))) (entity_window (old_frame h c))
      (snapshotEntities h) 0 0 (MSG_ClearLastReferencedEntity m) = Inr (R, m1)"
    and clis: "clients_loop (window_fuel (client_window (Some (new_frame h c))) (client_window (old_frame h c))) e (sh_time h)
      (numSnapshotClients h) (client_window (Some (new_frame h c))) (client_window (old_frame h c)) (snapshotClients h) 0 0
      (MSG_ClearLastReferencedEntity (entities_end m1)) = Inr m2"
    and m: "overflowed m"
  shows "overflowed m2"
proof -
  have rs: "in_order h (new_frame h c) (old_frame h c)" "entities_ready e d (svEntities h) cbl (fst (snd old))
      (frame_entities h (old_frame h c)) (frame_entities h (Some (new_frame h c)))"
    "clients_ready e d (snd (snd old)) (frame_clients h (old_frame h c)) (frame_clients h (Some (new_frame h c)))"
    using r by (simp_all add: snapshot_ready_def)
  have len: "int (length (snapshotEntities h)) = numSnapshotEntities h" using rs(1) by (simp add: in_order_def)
  have "overflowed (MSG_ClearLastReferencedEntity m)" using m by (simp add: MSG_ClearLastReferencedEntity_def)
  from entities_loop_sticky [OF windows_apart [OF rs(1)] len rs(2) [unfolded frame_entities_def] ents this]
  have "overflowed (MSG_ClearLastReferencedEntity (entities_end m1))"
    by (simp add: MSG_ClearLastReferencedEntity_def entities_end_def WriteEntityIndex_sticky)
  then show ?thesis using clients_loop_sticky [OF clis _ rs(3) [unfolded frame_clients_def]] by blast
qed

text \<open>The four values before the player.\<close>

definition snapshot_head :: "svsHeader \<Rightarrow> int \<Rightarrow> int \<Rightarrow> msg \<Rightarrow> msg" where
  "snapshot_head h lastframe flags m =
     MSG_WriteByte flags (MSG_WriteByte lastframe (MSG_WriteLong (sh_time h) (MSG_WriteByte svc_snapshot m)))"

definition snapshot_flags :: "svsHeader \<Rightarrow> snapclient \<Rightarrow> int" where
  "snapshot_flags h c = (let c3 = mark_active (fst (choose_frame h (with_frame h c))) in
     set_bits (\<not> unksnapshotvar c3) 2 (set_bits (rateDelayed c3) 1 (snapFlagServerBit h)))"

lemma snapshot_steps:
  "SV_WriteSnapshotToClient e info pad h c m =
     and_then (MSG_WriteDeltaPlayerstate e (info\<lparr>archived := False\<rparr>) (sh_time h) (map_option ps (old_frame h c)) (ps (new_frame h c))
       (snapshot_head h (last_frame h c) (snapshot_flags h c) m)) (\<lambda>m3.
     and_then (entities_loop (window_fuel (entity_window (Some (new_frame h c))) (entity_window (old_frame h c))) e (clnum info) (sh_time h)
       (svEntities h) (numSnapshotEntities h) (entity_window (Some (new_frame h c))) (entity_window (old_frame h c))
       (snapshotEntities h) 0 0 (MSG_ClearLastReferencedEntity m3)) (\<lambda>(R, m4).
     and_then (clients_loop (window_fuel (client_window (Some (new_frame h c))) (client_window (old_frame h c))) e (sh_time h)
       (numSnapshotClients h) (client_window (Some (new_frame h c))) (client_window (old_frame h c)) (snapshotClients h) 0 0
       (MSG_ClearLastReferencedEntity (entities_end m4))) (\<lambda>m6.
     Inr (h\<lparr>snapshotEntities := R\<rparr>, mark_active (fst (choose_frame h (with_frame h c))), write_nops (nat pad) (MSG_WriteBit0 m6)))))"
proof -
  obtain c2 l where ch: "choose_frame h (with_frame h c) = (c2, old_frame h c, l)"
    by (cases "choose_frame h (with_frame h c)") (simp add: old_frame_def)
  then have l: "last_frame h c = l" by (simp add: last_frame_def)
  show ?thesis
    using ch unfolding SV_WriteSnapshotToClient_def Let_def with_frame_def new_frame_def l
    by (simp add: snapshot_head_def snapshot_flags_def with_frame_def new_frame_def entity_window_def client_window_def
      entities_end_def Let_def)
qed

lemma snapshot_written:
  assumes "SV_WriteSnapshotToClient e info pad h c m = Inr (h1, c1, mf)"
  obtains R m3 m4 m6 where
    "MSG_WriteDeltaPlayerstate e (info\<lparr>archived := False\<rparr>) (sh_time h) (map_option ps (old_frame h c)) (ps (new_frame h c))
       (snapshot_head h (last_frame h c) (snapshot_flags h c) m) = Inr m3"
    "entities_loop (window_fuel (entity_window (Some (new_frame h c))) (entity_window (old_frame h c))) e (clnum info) (sh_time h)
       (svEntities h) (numSnapshotEntities h) (entity_window (Some (new_frame h c))) (entity_window (old_frame h c))
       (snapshotEntities h) 0 0 (MSG_ClearLastReferencedEntity m3) = Inr (R, m4)"
    "clients_loop (window_fuel (client_window (Some (new_frame h c))) (client_window (old_frame h c))) e (sh_time h)
       (numSnapshotClients h) (client_window (Some (new_frame h c))) (client_window (old_frame h c)) (snapshotClients h) 0 0
       (MSG_ClearLastReferencedEntity (entities_end m4)) = Inr m6"
    "h1 = h\<lparr>snapshotEntities := R\<rparr>" "mf = write_nops (nat pad) (MSG_WriteBit0 m6)"
  using assms that by (auto simp: snapshot_steps and_then_Inr)

lemma svc_snapshot_byte: "svc_snapshot mod 256 = svc_snapshot"
  by (simp add: svc_snapshot_def)

lemma head_parts:
  fixes h m lf flags
  defines "a \<equiv> MSG_WriteByte svc_snapshot m"
  defines "b \<equiv> MSG_WriteLong (sh_time h) a"
  defines "c \<equiv> MSG_WriteByte lf b"
  assumes "wr_ok m" "\<not> overflowed (snapshot_head h lf flags m)"
  shows "transfers read_byte m a svc_snapshot" "transfers read_long a b (s32 (sh_time h))"
    "transfers read_byte b c (lf mod 256)" "transfers read_byte c (snapshot_head h lf flags m) (flags mod 256)"
proof -
  have head: "snapshot_head h lf flags m = MSG_WriteByte flags c" by (simp add: snapshot_head_def a_def b_def c_def)
  have oc: "\<not> overflowed c" using assms(5) sticky(3) [of c flags] unfolding head by blast
  then have ob: "\<not> overflowed b" using sticky(3) [of b lf] unfolding c_def by blast
  then have oa: "\<not> overflowed a" using sticky(5) [of a "sh_time h"] unfolding b_def by blast
  show ta: "transfers read_byte m a svc_snapshot"
    using transmits_transfers [OF writes_transmit(3) assms(4) oa [unfolded a_def]]
    unfolding a_def [symmetric] svc_snapshot_byte .
  show tb: "transfers read_long a b (s32 (sh_time h))"
    using transmits_transfers [OF writes_transmit(5) _ ob [unfolded b_def]] transfers_ok [OF ta] by (simp add: b_def)
  show tc: "transfers read_byte b c (lf mod 256)"
    using transmits_transfers [OF writes_transmit(3) _ oc [unfolded c_def]] transfers_ok [OF tb] by (simp add: c_def)
  show "transfers read_byte c (snapshot_head h lf flags m) (flags mod 256)"
    using transmits_transfers [OF writes_transmit(3) _ assms(5) [unfolded head]] transfers_ok [OF tc] by (simp add: head)
qed

lemma head_transfers:
  assumes "wr_ok m" "\<not> overflowed (snapshot_head h lf flags m)" "s32 (sh_time h) = sh_time h"
    "transfers (do { p \<leftarrow> read_player e d False (sh_time h) (fst (old (lf mod 256)));
        do { ls \<leftarrow> read_lists e d (sh_time h) cbl k l (old (lf mod 256));
          State_Monad.return (Some \<lparr>rs_time = sh_time h, rs_flags = flags mod 256, rs_origin = fst p, rs_player = snd p,
            rs_entities = fst ls, rs_clients = snd ls\<rparr>) } }) (snapshot_head h lf flags m) m1 v"
  shows "transfers (read_snapshot e d cbl k l old) m m1 v"
proof -
  let ?b = "MSG_WriteLong (sh_time h) (MSG_WriteByte svc_snapshot m)"
  let ?c = "MSG_WriteByte lf ?b"
  note p = head_parts [OF assms(1,2)]
  have rest: "transfers (do { flags' \<leftarrow> read_byte;
     do { p \<leftarrow> read_player e d False (sh_time h) (fst (old (lf mod 256)));
     do { ls \<leftarrow> read_lists e d (sh_time h) cbl k l (old (lf mod 256));
          State_Monad.return (Some \<lparr>rs_time = sh_time h, rs_flags = flags', rs_origin = fst p, rs_player = snd p,
            rs_entities = fst ls, rs_clients = snd ls\<rparr>) } } }) ?c m1 v"
    using assms(4) by (intro transfers_bind [OF p(4)]) simp
  show ?thesis unfolding read_snapshot_def
  proof (rule transfers_bind [OF p(1)], simp, rule transfers_bind [OF p(2)])
    show "transfers (do { lf \<leftarrow> read_byte;
       do { flags \<leftarrow> read_byte;
       do { p \<leftarrow> read_player e d False (s32 (sh_time h)) (fst (old lf));
       do { ls \<leftarrow> read_lists e d (s32 (sh_time h)) cbl k l (old lf);
          State_Monad.return (Some \<lparr>rs_time = s32 (sh_time h), rs_flags = flags, rs_origin = fst p, rs_player = snd p,
            rs_entities = fst ls, rs_clients = snd ls\<rparr>) } } } }) ?b m1 v"
      unfolding assms(3) using rest by (intro transfers_bind [OF p(3)])
  qed
qed

text \<open>
  The client's frame after the snapshot: the server's own copy of the entities is what was sent,
  and that is the frame the server built up to the bits that let players pass through each other.
\<close>

definition frame_received :: "snapenv \<Rightarrow> snapinfo \<Rightarrow> svsHeader \<Rightarrow> svsHeader \<Rightarrow> snapclient \<Rightarrow> received_snapshot \<Rightarrow> bool" where
  "frame_received e info h h1 c s \<longleftrightarrow> rs_time s = sh_time h \<and> rs_flags s = snapshot_flags h c mod 256 \<and>
     rs_origin s = send_origin (info\<lparr>archived := False\<rparr>) (ps (new_frame h c)) \<and>
     player_seen e (info\<lparr>archived := False\<rparr>) (old_player (map_option ps (old_frame h c))) (ps (new_frame h c)) (rs_player s) \<and>
     list_all2 (sees_entity e) (rs_entities s) (frame_entities h1 (Some (new_frame h c))) \<and>
     list_all2 sent_as (frame_entities h1 (Some (new_frame h c))) (frame_entities h (Some (new_frame h c))) \<and>
     list_all2 (sees_client e) (rs_clients s) (frame_clients h (Some (new_frame h c)))"

definition enough_fuel :: "svsHeader \<Rightarrow> snapclient \<Rightarrow> nat \<Rightarrow> nat \<Rightarrow> bool" where
  "enough_fuel h c k l \<longleftrightarrow> window_fuel (entity_window (Some (new_frame h c))) (entity_window (old_frame h c)) < k \<and>
     window_fuel (client_window (Some (new_frame h c))) (client_window (old_frame h c)) < l"

lemma snapshot_transfers:
  assumes w: "SV_WriteSnapshotToClient e info pad h c m = Inr (h1, c1, mf)"
    and r: "snapshot_ready e d h c cbl (old (last_frame h c mod 256))" and fuel: "enough_fuel h c k l"
    and m: "wr_ok m" "\<not> overflowed mf"
  obtains s m1 where "transfers (read_snapshot e d cbl k l old) m m1 (Some s)" "grows m1 mf" "frame_received e info h h1 c s"
proof (rule snapshot_written [OF w])
  let ?info = "info\<lparr>archived := False\<rparr>" and ?of = "old_frame h c" and ?nf = "new_frame h c"
  let ?old = "old (last_frame h c mod 256)" and ?head = "snapshot_head h (last_frame h c) (snapshot_flags h c) m"
  fix R m3 m4 m6
  assume player: "MSG_WriteDeltaPlayerstate e ?info (sh_time h) (map_option ps ?of) (ps ?nf) ?head = Inr m3"
    and ents: "entities_loop (window_fuel (entity_window (Some ?nf)) (entity_window ?of)) e (clnum info) (sh_time h)
       (svEntities h) (numSnapshotEntities h) (entity_window (Some ?nf)) (entity_window ?of)
       (snapshotEntities h) 0 0 (MSG_ClearLastReferencedEntity m3) = Inr (R, m4)"
    and clis: "clients_loop (window_fuel (client_window (Some ?nf)) (client_window ?of)) e (sh_time h)
       (numSnapshotClients h) (client_window (Some ?nf)) (client_window ?of) (snapshotClients h) 0 0
       (MSG_ClearLastReferencedEntity (entities_end m4)) = Inr m6"
    and h1: "h1 = h\<lparr>snapshotEntities := R\<rparr>" and mf: "mf = write_nops (nat pad) (MSG_WriteBit0 m6)"
  have A: "arith_ok e d" "s32 (sh_time h) = sh_time h" "player_base e (fst ?old) (old_player (map_option ps ?of))"
    using r by (simp_all add: snapshot_ready_def)
  have o6: "\<not> overflowed (MSG_WriteBit0 m6)" using m(2) write_nops_grow(2) unfolding mf by blast
  obtain new where new: "conveys (read_player e d False (sh_time h) (fst ?old))
      (MSG_WriteDeltaPlayerstate e ?info (sh_time h) (map_option ps ?of) (ps ?nf)) (send_origin ?info (ps ?nf), new)"
    "player_seen e ?info (old_player (map_option ps ?of)) (ps ?nf) new"
    using player_conveys [OF A(1,3), of ?info "sh_time h" "ps ?nf"] by auto
  note pl = conveysD [OF new(1) player]
  have o3: "\<not> overflowed m3" using lists_sticky [OF r ents clis] sticky(1) o6 by blast
  have oh: "\<not> overflowed ?head" using pl(1) o3 by blast
  have "\<exists>s. transfers (read_snapshot e d cbl k l old) m (MSG_WriteBit0 m6) (Some s) \<and> frame_received e info h h1 c s"
  proof -
    have wh: "wr_ok ?head" using head_parts(4) [OF m(1) oh] by (blast dest: transfers_ok)
    have t: "transfers (read_player e d False (sh_time h) (fst ?old)) ?head m3 (send_origin ?info (ps ?nf), new)"
      by (rule pl(3) [OF wh o3])
    then have w3: "wr_ok m3" by (blast dest: transfers_ok)
    obtain cents cclis where lists:
      "transfers (read_lists e d (sh_time h) cbl k l ?old) m3 (MSG_WriteBit0 m6) (cents, cclis)"
      "list_all2 (sees_entity e) cents (frame_entities (h\<lparr>snapshotEntities := R\<rparr>) (Some ?nf))"
      "list_all2 sent_as (frame_entities (h\<lparr>snapshotEntities := R\<rparr>) (Some ?nf)) (frame_entities h (Some ?nf))"
      "list_all2 (sees_client e) cclis (frame_clients h (Some ?nf))"
      using fuel by (auto intro: lists_received [OF r refl refl ents clis w3 o6, of k l] simp: enough_fuel_def)
    let ?s = "\<lparr>rs_time = sh_time h, rs_flags = snapshot_flags h c mod 256, rs_origin = send_origin ?info (ps ?nf),
      rs_player = new, rs_entities = cents, rs_clients = cclis\<rparr>"
    have "transfers (read_snapshot e d cbl k l old) m (MSG_WriteBit0 m6) (Some ?s)"
    proof (rule head_transfers [OF m(1) oh A(2)])
      show "transfers (do { p \<leftarrow> read_player e d False (sh_time h) (fst ?old);
        do { ls \<leftarrow> read_lists e d (sh_time h) cbl k l ?old;
          State_Monad.return (Some \<lparr>rs_time = sh_time h, rs_flags = snapshot_flags h c mod 256, rs_origin = fst p,
            rs_player = snd p, rs_entities = fst ls, rs_clients = snd ls\<rparr>) } }) ?head (MSG_WriteBit0 m6) (Some ?s)"
        using transfers_ok [OF lists(1)]
        by (intro transfers_bind [OF t] transfers_bind [OF lists(1)]) (simp add: transfers_return)
    qed
    moreover have "frame_received e info h h1 c ?s" using new(2) lists(2-4) by (simp add: frame_received_def h1)
    ultimately show ?thesis by blast
  qed
  then obtain s where s: "transfers (read_snapshot e d cbl k l old) m (MSG_WriteBit0 m6) (Some s)" "frame_received e info h h1 c s"
    by blast
  have "grows (MSG_WriteBit0 m6) mf"
    using write_nops_grow(1) [of "MSG_WriteBit0 m6" "nat pad"] transfers_ok [OF s(1)] m(2) by (simp add: mf)
  then show ?thesis using that s by blast
qed

end
