(* ===== verification/SnapFloat.thy ===== *)
theory SnapFloat
  imports SnapRead Complex_Main
begin

text \<open>
  The floating-point arithmetic of the snapshot codings: words of IEEE 754 in single precision as
  rational numbers, rounded to the nearest after each operation (a tie to the even one), and the
  conversions to \<open>int\<close> of the processor.  With it the casts, the rounding of coordinates and the
  scaling of angles and fonts in src/src/msg.c satisfy what \<open>arith_ok\<close> asks of the parameter
  \<open>snapenv\<close>.  The parameter stays, because the processor's older unit keeps the intermediate results
  longer than single precision does.
\<close>

section \<open>Rounding\<close>

abbreviation p2 :: "int \<Rightarrow> rat" where
  "p2 k \<equiv> 2 powi k"

text \<open>The bits of a positive integer; the exponent of the greatest power of two up to a number.\<close>

function ilen :: "int \<Rightarrow> int" where
  "ilen n = (if n \<le> 0 then 0 else ilen (n div 2) + 1)"
  by auto

termination
  by (relation "measure nat") auto

declare ilen.simps [simp del]

definition ilog :: "rat \<Rightarrow> int" where
  "ilog x =
     (let (a, b) = quotient_of x; e = ilen a - ilen b in
      if p2 e \<le> x then e else e - 1)"

definition round_even :: "rat \<Rightarrow> int" where
  "round_even y =
     (let n = \<lfloor>y\<rfloor>; f = y - of_int n in
      if f < 1 / 2 \<or> f = 1 / 2 \<and> even n then n else n + 1)"

text \<open>The nearest number of \<open>p\<close> bits, no finer than the multiples of \<open>2^emin\<close>.\<close>

definition rnd :: "nat \<Rightarrow> int \<Rightarrow> rat \<Rightarrow> rat" where
  "rnd p emin x =
     (if x = 0 then 0
      else let u = p2 (max (ilog \<bar>x\<bar> - int p + 1) emin) in of_int (round_even (x / u)) * u)"

definition sgl :: "rat \<Rightarrow> rat" where "sgl = rnd 24 (-149)"
definition dbl :: "rat \<Rightarrow> rat" where "dbl = rnd 53 (-1074)"

lemma p2_add: "p2 (a + b) = p2 a * p2 b"
  by (simp add: power_int_add)

lemma p2_pos [simp]: "0 < p2 a" "p2 a \<noteq> 0" "0 \<le> p2 a"
  by (simp_all add: less_imp_le)

lemma p2_mono: "a \<le> b \<Longrightarrow> p2 a \<le> p2 b"
  by (rule power_int_increasing) simp_all

lemma p2_less_iff [simp]: "p2 a < p2 b \<longleftrightarrow> a < b"
  by (metis linorder_not_less p2_mono power_int_strict_increasing one_less_numeral_iff semiring_norm(76))

lemma p2_int: "0 \<le> k \<Longrightarrow> p2 k = of_int (2 ^ nat k)"
  by (simp add: power_int_nonneg_exp)

lemma ilen_bounds: "0 < n \<Longrightarrow> 0 < ilen n \<and> p2 (ilen n - 1) \<le> of_int n \<and> of_int n < p2 (ilen n)"
proof (induction n rule: ilen.induct)
  case (1 n)
  let ?h = "n div 2"
  have n: "ilen n = ilen ?h + 1" using 1(2) by (subst ilen.simps) simp
  show ?case
  proof (cases "?h = 0")
    case True
    then have "n = 1" using 1(2) by presburger
    then show ?thesis using n by (simp add: ilen.simps [of 0])
  next
    case False
    then have IH: "0 < ilen ?h" "p2 (ilen ?h - 1) \<le> of_int ?h" "of_int ?h < p2 (ilen ?h)"
      using 1(1,2) by (simp_all add: not_le)
    have p: "p2 (ilen ?h) = p2 (ilen ?h - 1) * 2" "p2 (ilen ?h + 1) = p2 (ilen ?h) * 2"
      using p2_add [of "ilen ?h - 1" 1] p2_add [of "ilen ?h" 1] by simp_all
    have "p2 (ilen ?h) = of_int (2 ^ nat (ilen ?h))" using IH(1) by (simp add: p2_int)
    then have "?h < 2 ^ nat (ilen ?h)" using IH(3) by (simp only: of_int_less_iff)
    then have "n < 2 ^ nat (ilen ?h) * 2" by linarith
    then have "(of_int n :: rat) < of_int (2 ^ nat (ilen ?h) * 2)" by (simp only: of_int_less_iff)
    then have u: "of_int n < p2 (ilen ?h) * 2" using IH(1) by (simp add: p2_int)
    have "?h * 2 \<le> n" by linarith
    then have "(of_int (?h * 2) :: rat) \<le> of_int n" by (simp only: of_int_le_iff)
    then have "of_int ?h * 2 \<le> (of_int n :: rat)" by simp
    then show ?thesis using u IH p unfolding n by simp
  qed
qed

lemma ilog_bounds:
  assumes "0 < x"
  shows "p2 (ilog x) \<le> x" "x < p2 (ilog x + 1)"
proof -
  obtain a b where q: "quotient_of x = (a, b)" by fastforce
  have b: "0 < b" using quotient_of_denom_pos [OF q] .
  have x: "x = of_int a / of_int b" using quotient_of_div [OF q] .
  have a: "0 < a" using assms b unfolding x by (simp add: zero_less_divide_iff)
  let ?la = "ilen a" and ?lb = "ilen b"
  note bits = ilen_bounds
  have "x < p2 (?la - ?lb + 1)"
  proof -
    have "of_int a < p2 ?la" "p2 (?lb - 1) \<le> of_int b" using bits a b by blast+
    moreover from this(2) have "p2 (?la - ?lb + 1) * p2 (?lb - 1) \<le> p2 (?la - ?lb + 1) * of_int b"
      by (rule mult_left_mono) simp
    moreover have "p2 ?la = p2 (?la - ?lb + 1) * p2 (?lb - 1)" unfolding p2_add [symmetric] by simp
    ultimately have "of_int a < p2 (?la - ?lb + 1) * of_int b" by linarith
    then show ?thesis using b unfolding x by (simp add: pos_divide_less_eq)
  qed
  moreover have "p2 (?la - ?lb - 1) \<le> x"
  proof -
    have "p2 (?la - 1) \<le> of_int a" "of_int b \<le> p2 ?lb" using bits a b by (blast, simp add: less_imp_le)
    moreover from this(2) have "p2 (?la - ?lb - 1) * of_int b \<le> p2 (?la - ?lb - 1) * p2 ?lb"
      by (rule mult_left_mono) simp
    moreover have "p2 (?la - 1) = p2 (?la - ?lb - 1) * p2 ?lb" unfolding p2_add [symmetric] by simp
    ultimately have "p2 (?la - ?lb - 1) * of_int b \<le> of_int a" by linarith
    then show ?thesis using b unfolding x by (simp add: pos_le_divide_eq)
  qed
  ultimately show "p2 (ilog x) \<le> x" "x < p2 (ilog x + 1)"
    by (simp_all add: ilog_def q Let_def not_le)
qed

lemma ilog_less: "0 < x \<Longrightarrow> x < p2 k \<Longrightarrow> ilog x < k"
  using ilog_bounds(1) [of x] by (metis order_le_less_trans p2_less_iff)

lemma ilog_ge: "p2 k \<le> x \<Longrightarrow> k \<le> ilog x"
  using ilog_bounds(2) [of x] p2_pos(1) [of k] p2_less_iff [of k "ilog x + 1"] by linarith

lemma round_even_of_int [simp]: "round_even (of_int n) = n"
  by (simp add: round_even_def)

lemma round_even_near: "\<bar>of_int (round_even y) - y\<bar> \<le> 1 / 2"
  using floor_correct [of y] by (auto simp: round_even_def Let_def abs_le_iff)

text \<open>A number that has few enough bits is kept.\<close>

lemma rnd_exact:
  assumes x: "x = of_int m * p2 k" and m: "\<bar>m\<bar> < 2 ^ p" and k: "emin \<le> k"
  shows "rnd p emin x = x"
proof (cases "x = 0")
  case False
  define e where "e = max (ilog \<bar>x\<bar> - int p + 1) emin"
  have "\<bar>x\<bar> < p2 (int p + k)"
  proof -
    have "\<bar>x\<bar> = of_int \<bar>m\<bar> * p2 k" by (simp add: x abs_mult)
    also have "\<dots> < of_int (2 ^ p) * p2 k"
      by (rule mult_strict_right_mono [OF _ p2_pos(1)]) (use m in \<open>simp only: of_int_less_iff\<close>)
    finally show ?thesis by (simp add: p2_add)
  qed
  then have e: "e \<le> k" using ilog_less [of "\<bar>x\<bar>" "int p + k"] k False by (simp add: e_def)
  have "p2 k = p2 (k - e) * p2 e" unfolding p2_add [symmetric] by simp
  then have "x / p2 e = of_int m * p2 (k - e)" by (simp add: x)
  then have "x / p2 e = of_int (m * 2 ^ nat (k - e))" using e by (simp add: p2_int)
  then have "of_int (round_even (x / p2 e)) = x / p2 e" by (metis round_even_of_int)
  then show ?thesis using False by (simp add: rnd_def Let_def e_def)
qed (simp add: rnd_def)

lemma rnd_error:
  assumes "\<bar>x\<bar> < p2 b" "emin \<le> b - int p"
  shows "\<bar>rnd p emin x - x\<bar> \<le> p2 (b - int p - 1)"
proof (cases "x = 0")
  case False
  let ?u = "p2 (max (ilog \<bar>x\<bar> - int p + 1) emin)"
  have "ilog \<bar>x\<bar> < b" using ilog_less [of "\<bar>x\<bar>" b] assms(1) False by simp
  then have u: "?u \<le> p2 (b - int p)" using assms(2) by (intro p2_mono) simp
  have "rnd p emin x - x = (of_int (round_even (x / ?u)) - x / ?u) * ?u"
    using False by (simp add: rnd_def Let_def algebra_simps)
  then have "\<bar>rnd p emin x - x\<bar> \<le> 1 / 2 * ?u"
    using mult_right_mono [OF round_even_near [of "x / ?u"] p2_pos(3)] by (simp add: abs_mult)
  also have "\<dots> \<le> 1 / 2 * p2 (b - int p)" using u by simp
  also have "\<dots> = p2 (b - int p - 1)" using p2_add [of "b - int p" "-1"] by (simp add: power_int_minus)
  finally show ?thesis .
qed (simp add: rnd_def)

text \<open>What rounding yields.\<close>

lemma rnd_form:
  assumes "0 < p"
  obtains m k where "rnd p emin x = of_int m * p2 k" "\<bar>m\<bar> < 2 ^ p" "emin \<le> k"
proof (cases "x = 0")
  case True
  then show ?thesis using that [of 0 emin] by (simp add: rnd_def)
next
  case False
  define k where "k = max (ilog \<bar>x\<bar> - int p + 1) emin"
  define n where "n = round_even (x / p2 k)"
  have r: "rnd p emin x = of_int n * p2 k" using False by (simp add: rnd_def Let_def k_def n_def)
  have "\<bar>x\<bar> < p2 (int p + k)"
  proof -
    have "p2 (ilog \<bar>x\<bar> + 1) \<le> p2 (int p + k)" by (rule p2_mono) (simp add: k_def)
    then show ?thesis using ilog_bounds(2) [of "\<bar>x\<bar>"] False by simp
  qed
  then have "\<bar>x / p2 k\<bar> < of_int (2 ^ p)" by (simp add: pos_divide_less_eq p2_add abs_divide)
  moreover have "\<bar>of_int n - x / p2 k\<bar> \<le> 1 / 2" unfolding n_def by (rule round_even_near)
  ultimately have "\<bar>of_int n\<bar> < of_int (2 ^ p) + (1 :: rat)" by linarith
  then have "(of_int \<bar>n\<bar> :: rat) < of_int (2 ^ p + 1)" by simp
  then have n: "\<bar>n\<bar> < 2 ^ p + 1" by (simp only: of_int_less_iff)
  show ?thesis
  proof (cases "\<bar>n\<bar> < 2 ^ p")
    case True
    then show ?thesis using that [OF r] by (simp add: k_def)
  next
    case eq: False
    obtain q where q: "p = Suc q" using assms by (cases p) simp_all
    have "n = sgn n * 2 ^ p" using n eq by (simp add: sgn_if abs_if split: if_splits)
    then have "n = sgn n * 2 ^ q * 2" by (simp add: q)
    then have "of_int n = of_int (sgn n * 2 ^ q) * (2 :: rat)" by (metis of_int_mult of_int_numeral)
    then have "of_int n * p2 k = of_int (sgn n * 2 ^ q) * p2 (k + 1)" by (simp add: p2_add)
    moreover have "\<bar>sgn n * 2 ^ q\<bar> < (2 :: int) ^ p" by (simp add: abs_mult abs_sgn_eq q)
    ultimately show ?thesis using that [of "sgn n * 2 ^ q" "k + 1"] r by (simp add: k_def)
  qed
qed

section \<open>Words\<close>

definition fl_exp :: "32 word \<Rightarrow> int" where "fl_exp w = uint w div 2 ^ 23 mod 256"
definition fl_frac :: "32 word \<Rightarrow> int" where "fl_frac w = uint w mod 2 ^ 23"

definition fl_finite :: "32 word \<Rightarrow> bool" where
  "fl_finite w \<longleftrightarrow> fl_exp w \<noteq> 255"

definition fl_value :: "32 word \<Rightarrow> rat" where
  "fl_value w =
     (if uint w div 2 ^ 31 = 1 then -1 else 1) *
     (of_int (if fl_exp w = 0 then fl_frac w else fl_frac w + 2 ^ 23) * p2 (max (fl_exp w) 1 - 150))"

text \<open>The word nearest to a number; beyond the greatest one it is an infinity.\<close>

definition fl_word :: "rat \<Rightarrow> 32 word" where
  "fl_word x =
     (let y = sgl x; s = (if y < 0 then 2 ^ 31 else 0) in
      if y = 0 then 0
      else if p2 128 \<le> \<bar>y\<bar> then word_of_int (s + 255 * 2 ^ 23)
      else let e = max (ilog \<bar>y\<bar>) (-126) in
        word_of_int (s + (e + 126) * 2 ^ 23 + \<lfloor>\<bar>y\<bar> * p2 (23 - e)\<rfloor>))"

lemma fl_word_value:
  assumes "\<bar>sgl x\<bar> < p2 128"
  shows "fl_value (fl_word x) = sgl x" "fl_finite (fl_word x)" "fl_word x \<noteq> 0x80000000"
proof -
  define y where "y = sgl x"
  have "fl_value (fl_word x) = y \<and> fl_finite (fl_word x) \<and> fl_word x \<noteq> 0x80000000"
  proof (cases "y = 0")
    case True
    then show ?thesis by (simp add: fl_word_def y_def fl_value_def fl_frac_def fl_exp_def fl_finite_def)
  next
    case False
    then have y: "0 < \<bar>y\<bar>" by simp
    define e where "e = max (ilog \<bar>y\<bar>) (-126)"
    define M where "M = \<lfloor>\<bar>y\<bar> * p2 (23 - e)\<rfloor>"
    define s :: int where "s = (if y < 0 then 1 else 0)"
    have e: "-126 \<le> e" "e \<le> 127"
      using ilog_less [OF y, of 128] assms unfolding e_def y_def by simp_all
    obtain m k where mk: "y = of_int m * p2 k" "\<bar>m\<bar> < 2 ^ 24" "-149 \<le> k"
      unfolding y_def sgl_def by (rule rnd_form [of 24 "-149" x]) simp_all
    have k: "0 \<le> k + (23 - e)"
    proof (cases "e = -126")
      case False
      then have "p2 e \<le> \<bar>y\<bar>" using ilog_bounds(1) [OF y] by (simp add: e_def max_def split: if_splits)
      also have "\<bar>y\<bar> = of_int \<bar>m\<bar> * p2 k" by (simp add: mk(1) abs_mult)
      also have "\<dots> < of_int (2 ^ 24) * p2 k"
        by (rule mult_strict_right_mono [OF _ p2_pos(1)]) (use mk(2) in \<open>simp only: of_int_less_iff\<close>)
      also have "\<dots> = p2 (24 + k)" by (simp add: p2_add)
      finally show ?thesis by simp
    qed (use mk(3) in simp)
    have "\<bar>y\<bar> * p2 (23 - e) = of_int \<bar>m\<bar> * p2 (k + (23 - e))" by (simp add: mk(1) abs_mult p2_add)
    also have "\<dots> = of_int (\<bar>m\<bar> * 2 ^ nat (k + (23 - e)))" using k by (simp add: p2_int)
    finally have "\<bar>y\<bar> * p2 (23 - e) = of_int (\<bar>m\<bar> * 2 ^ nat (k + (23 - e)))" .
    then have M: "of_int M = \<bar>y\<bar> * p2 (23 - e)" unfolding M_def by (metis floor_of_int)
    have "0 < (of_int M :: rat)" unfolding M using y by simp
    then have M0: "0 < M" by simp
    have "(of_int M :: rat) < of_int (2 ^ 24)"
    proof -
      have "\<bar>y\<bar> < p2 (e + 1)"
        using ilog_bounds(2) [OF y] p2_mono [of "ilog \<bar>y\<bar> + 1" "e + 1"] by (simp add: e_def)
      then have "\<bar>y\<bar> * p2 (23 - e) < p2 (e + 1) * p2 (23 - e)" by (rule mult_strict_right_mono) simp
      then show ?thesis unfolding M p2_add [symmetric] by simp
    qed
    then have M1: "M < 2 ^ 24" by (simp only: of_int_less_iff)
    have M2: "2 ^ 23 \<le> M" if "e \<noteq> -126"
    proof -
      have "p2 e \<le> \<bar>y\<bar>" using ilog_bounds(1) [OF y] that by (simp add: e_def max_def split: if_splits)
      then have "p2 e * p2 (23 - e) \<le> of_int M" unfolding M by (rule mult_right_mono) simp
      then have "of_int (2 ^ 23) \<le> (of_int M :: rat)" unfolding p2_add [symmetric] by simp
      then show ?thesis by (simp only: of_int_le_iff)
    qed
    define E where "E = (if 2 ^ 23 \<le> M then e + 127 else 0)"
    define F where "F = (if 2 ^ 23 \<le> M then M - 2 ^ 23 else M)"
    define T where "T = s * 2 ^ 31 + E * 2 ^ 23 + F"
    have "T = s * 2 ^ 31 + (e + 126) * 2 ^ 23 + M"
      using M2 by (cases "e = -126") (auto simp: T_def E_def F_def)
    then have w: "fl_word x = word_of_int T"
      using False assms unfolding fl_word_def Let_def y_def [symmetric] e_def [symmetric] M_def [symmetric]
      by (simp add: s_def)
    have r: "0 \<le> E" "E < 255" "0 \<le> F" "F < 2 ^ 23" "s = 0 \<or> s = 1" "E \<noteq> 0 \<or> F \<noteq> 0"
      using e M0 M1 by (auto simp: E_def F_def s_def)
    have "0 \<le> T" "T < 2 ^ 32" using r unfolding T_def by auto
    then have T: "uint (fl_word x) = T" unfolding w by (simp add: uint_word_of_int)
    have f: "fl_exp (fl_word x) = E" "fl_frac (fl_word x) = F" "uint (fl_word x) div 2 ^ 31 = s"
    proof -
      have T1: "T = (s * 256 + E) * 2 ^ 23 + F" by (simp add: T_def)
      have "(a * 2 ^ 23 + F) div 2 ^ 23 = a" "(a * 2 ^ 23 + F) mod 2 ^ 23 = F" for a using r(3,4) by simp_all
      then have "T div 2 ^ 23 = s * 256 + E" "T mod 2 ^ 23 = F" unfolding T1 by blast+
      moreover have "(s * 256 + E) mod 256 = E" using r(1,2) by simp
      ultimately show "fl_exp (fl_word x) = E" "fl_frac (fl_word x) = F" by (simp_all add: fl_exp_def fl_frac_def T)
      have "0 \<le> E * 2 ^ 23 + F" "E * 2 ^ 23 + F < 2 ^ 31" using r by auto
      moreover have "T = s * 2 ^ 31 + (E * 2 ^ 23 + F)" by (simp add: T_def)
      ultimately show "uint (fl_word x) div 2 ^ 31 = s" unfolding T by simp
    qed
    have "(if E = 0 then F else F + 2 ^ 23) = M" using e by (auto simp: E_def F_def)
    moreover have "max E 1 - 150 = e - 23" using e M2 by (cases "e = -126") (auto simp: E_def)
    ultimately have "fl_value (fl_word x) = (if s = 1 then -1 else 1) * (of_int M * p2 (e - 23))"
      unfolding fl_value_def f by simp
    also have "of_int M * p2 (e - 23) = \<bar>y\<bar>" unfolding M mult.assoc p2_add [symmetric] by simp
    finally have "fl_value (fl_word x) = y" by (simp add: s_def)
    moreover have "fl_word x \<noteq> 0x80000000"
    proof
      assume "fl_word x = 0x80000000"
      then have "T = 2147483648" using T by simp
      moreover have "s = 0 \<or> s = 1" by (simp add: s_def)
      ultimately show False using r(1-4,6) unfolding T_def by (elim disjE; simp; presburger)
    qed
    ultimately show ?thesis using f(1) r(2) by (simp add: fl_finite_def)
  qed
  then show "fl_value (fl_word x) = sgl x" "fl_finite (fl_word x)" "fl_word x \<noteq> 0x80000000"
    by (simp_all add: y_def)
qed

section \<open>The conversions of the codings\<close>

text \<open>The processor's conversion cuts towards zero and marks what does not fit.\<close>

definition to_int :: "rat \<Rightarrow> int" where
  "to_int x = (let n = (if 0 \<le> x then \<lfloor>x\<rfloor> else \<lceil>x\<rceil>) in if int_range n then n else - (2 ^ 31))"

definition float_cast :: "32 word \<Rightarrow> int" where
  "float_cast w = (if fl_finite w then to_int (fl_value w) else - (2 ^ 31))"

definition float_from :: "int \<Rightarrow> 32 word" where
  "float_from i = fl_word (of_int (s32 i))"

definition float_round :: "32 word \<Rightarrow> int" where
  "float_round w = (if fl_finite w then to_int (of_int \<lfloor>sgl (fl_value w + 1 / 2)\<rfloor>) else - (2 ^ 31))"

definition float_angle :: "32 word \<Rightarrow> int" where
  "float_angle w =
     (if fl_finite w then to_int (sgl (sgl (sgl (fl_value w * 65536) / 360) + 1 / 2)) else - (2 ^ 31))"

text \<open>The constant 1.4 makes this one a computation in double precision, up to \<open>floorf\<close>.\<close>

definition float_scale :: "32 word \<Rightarrow> int" where
  "float_scale w =
     (if fl_finite w
      then to_int (of_int \<lfloor>sgl (dbl (dbl (dbl (fl_value w - dbl (7 / 5)) * 10) + 1 / 2))\<rfloor>)
      else - (2 ^ 31))"

definition with_floats :: "snapenv \<Rightarrow> snapenv" where
  "with_floats e = e\<lparr>fp_cast := float_cast, fp_from := float_from, fp_round := float_round,
     fp_angle := float_angle, fp_scale := float_scale\<rparr>"

definition float_decoder :: decoder where
  "float_decoder = \<lparr>short_angle = (\<lambda>k. fl_word (of_int k * 360 / 65536)),
     scale_font = (\<lambda>k. fl_word (7 / 5 + of_int k / 10))\<rparr>"

lemma sgl_exact: "x = of_int m * p2 k \<Longrightarrow> \<bar>m\<bar> < 2 ^ 24 \<Longrightarrow> -149 \<le> k \<Longrightarrow> sgl x = x"
  unfolding sgl_def by (rule rnd_exact)

lemma sgl_near: "\<bar>x\<bar> < 64 \<Longrightarrow> \<bar>sgl x - x\<bar> \<le> 1 / 500000"
  using rnd_error [of x 6 "-149" 24] by (simp add: sgl_def power_int_minus)

lemma dbl_near: "\<bar>x\<bar> < 64 \<Longrightarrow> \<bar>dbl x - x\<bar> \<le> 1 / 500000"
  using rnd_error [of x 6 "-1074" 53] by (simp add: dbl_def power_int_minus)

lemma int_range_to_int: "int_range (to_int x)"
  by (simp add: to_int_def Let_def int_range_def)

lemma to_int_of_int: "int_range n \<Longrightarrow> to_int (of_int n) = n"
  by (simp add: to_int_def)

lemma float_from_small:
  assumes "\<bar>i\<bar> \<le> 2 ^ 22"
  shows "fl_value (float_from i) = of_int i" "fl_finite (float_from i)"
proof -
  have "s32 i = i" using assms by (intro s32_id) simp_all
  moreover have e: "sgl (of_int i) = of_int i" by (rule sgl_exact [of _ i 0]) (use assms in simp_all)
  moreover have "\<bar>of_int i\<bar> < p2 128"
  proof -
    have "\<bar>of_int i\<bar> \<le> (2 ^ 22 :: rat)" using assms by (metis of_int_abs of_int_le_iff of_int_numeral of_int_power)
    then show ?thesis by simp
  qed
  ultimately show "fl_value (float_from i) = of_int i" "fl_finite (float_from i)"
    using fl_word_value [of "of_int i"] by (simp_all add: float_from_def)
qed

lemma float_from_sign: "float_from i \<noteq> 0x80000000"
proof -
  have r: "\<bar>of_int (s32 i)\<bar> < p2 32"
  proof -
    have "\<bar>s32 i\<bar> < 2 ^ 32" using s32_range [of i] by (auto simp: abs_less_iff)
    then have "of_int \<bar>s32 i\<bar> < (of_int (2 ^ 32) :: rat)" by (simp only: of_int_less_iff)
    then show ?thesis by simp
  qed
  then have "\<bar>sgl (of_int (s32 i)) - of_int (s32 i)\<bar> \<le> p2 7"
    using rnd_error [of "of_int (s32 i)" 32 "-149" 24] by (simp add: sgl_def)
  then have "\<bar>sgl (of_int (s32 i))\<bar> < p2 128" using r by (simp add: abs_less_iff abs_le_iff)
  then show ?thesis unfolding float_from_def by (rule fl_word_value(3))
qed

lemma float_round_from:
  assumes "\<bar>i\<bar> \<le> 2 ^ 22"
  shows "float_round (float_from i) = i"
proof -
  have "sgl (of_int i + 1 / 2) = of_int i + 1 / 2"
    by (rule sgl_exact [of _ "2 * i + 1" "-1"]) (use assms in \<open>simp_all add: power_int_minus field_simps\<close>)
  moreover have "\<lfloor>of_int i + 1 / 2 :: rat\<rfloor> = i" by (rule floor_unique) simp_all
  moreover have "int_range i" using assms by (auto simp: int_range_def abs_le_iff)
  ultimately show ?thesis by (simp add: float_round_def float_from_small [OF assms] to_int_of_int)
qed

lemma float_angle_short:
  assumes "0 \<le> k" "k < 65536"
  shows "float_angle (short_angle float_decoder k) = k"
proof -
  let ?x = "of_int k * 360 / 65536 :: rat"
  have x: "sgl ?x = ?x"
    by (rule sgl_exact [of _ "45 * k" "-13"]) (use assms in \<open>simp_all add: power_int_minus\<close>)
  have "of_int k < (65536 :: rat)" "0 \<le> (of_int k :: rat)" using assms by simp_all
  then have "\<bar>?x\<bar> < p2 128" by simp
  then have v: "fl_value (fl_word ?x) = ?x" "fl_finite (fl_word ?x)" using fl_word_value [of ?x] x by simp_all
  have "sgl (360 * of_int k) = 360 * of_int k"
    using sgl_exact [of "360 * of_int k" "45 * k" 3] assms by simp
  moreover have "sgl (of_int k) = of_int k" using sgl_exact [of "of_int k" k 0] assms by simp
  moreover have "sgl (of_int k + 1 / 2) = of_int k + 1 / 2"
    by (rule sgl_exact [of _ "2 * k + 1" "-1"]) (use assms in \<open>simp_all add: power_int_minus field_simps\<close>)
  moreover have "to_int (of_int k + 1 / 2) = k"
  proof -
    have "\<lfloor>of_int k + 1 / 2 :: rat\<rfloor> = k" by (rule floor_unique) simp_all
    moreover have "0 \<le> (of_int k + 1 / 2 :: rat)" using assms by simp
    ultimately show ?thesis using assms by (simp add: to_int_def int_range_def)
  qed
  moreover have "?x * 65536 = 360 * of_int k" "360 * of_int k / 360 = (of_int k :: rat)" by simp_all
  ultimately have "to_int (sgl (sgl (sgl (fl_value (fl_word ?x) * 65536) / 360) + 1 / 2)) = k"
    unfolding v(1) by (simp only:)
  then show ?thesis using v(2) unfolding float_angle_def float_decoder_def decoder.simps by (simp only: if_True)
qed

lemma float_scale_font:
  assumes "0 \<le> k" "k < 32"
  shows "float_scale (scale_font float_decoder k) = k"
proof -
  define q where "q = (of_int k :: rat)"
  have q: "0 \<le> q" "q \<le> 31" using assms by (simp_all add: q_def)
  define x where "x = sgl (7 / 5 + q / 10)"
  have x: "\<bar>x - (7 / 5 + q / 10)\<bar> \<le> 1 / 500000" unfolding x_def by (rule sgl_near) (use q in simp)
  then have "\<bar>x\<bar> < 64" using q by linarith
  also have "64 < p2 128" by simp
  finally have "\<bar>x\<bar> < p2 128" .
  then have v: "fl_value (fl_word (7 / 5 + q / 10)) = x" "fl_finite (fl_word (7 / 5 + q / 10))"
    unfolding x_def by (rule fl_word_value)+
  define c where "c = dbl (7 / 5)"
  have c: "\<bar>c - 7 / 5\<bar> \<le> 1 / 500000" unfolding c_def by (rule dbl_near) simp
  define y where "y = dbl (x - c)"
  have y: "\<bar>y - (x - c)\<bar> \<le> 1 / 500000" unfolding y_def by (rule dbl_near) (use x c q in linarith)
  define z where "z = dbl (y * 10)"
  have z: "\<bar>z - y * 10\<bar> \<le> 1 / 500000" unfolding z_def by (rule dbl_near) (use x c y q in linarith)
  define t where "t = dbl (z + 1 / 2)"
  have t: "\<bar>t - (z + 1 / 2)\<bar> \<le> 1 / 500000" unfolding t_def by (rule dbl_near) (use x c y z q in linarith)
  have r: "\<bar>sgl t - t\<bar> \<le> 1 / 500000" by (rule sgl_near) (use x c y z t q in linarith)
  have "of_int k \<le> sgl t \<and> sgl t < of_int k + 1"
    unfolding q_def [symmetric] using x c y z t r q by linarith
  then have "\<lfloor>sgl t\<rfloor> = k" by (intro floor_unique) simp_all
  moreover have "int_range k" using assms by (simp add: int_range_def)
  ultimately show ?thesis
    unfolding float_scale_def float_decoder_def decoder.simps q_def [symmetric] v(1)
    using v(2) by (simp add: c_def [symmetric] y_def [symmetric] z_def [symmetric] t_def [symmetric] to_int_of_int)
qed

lemma floats_arith_ok:
  assumes "\<forall>k. \<bar>map_center e k\<bar> \<le> 2 ^ 20"
  shows "arith_ok (with_floats e) float_decoder"
proof -
  have "int_range (float_cast w)" for w
    using int_range_to_int by (simp add: float_cast_def) (simp add: int_range_def)
  moreover have "k AND 65535 = k" if "0 \<le> k" "k < 65536" for k :: int
    using that take_bit_eq_mask [of 16 k] by (simp add: take_bit_int_eq_self mask_eq_exp_minus_1)
  ultimately show ?thesis
    using assms float_from_sign float_round_from float_angle_short float_scale_font
    by (simp add: arith_ok_def with_floats_def ANGLE2SHORT_def)
qed

text \<open>
  Words as the processor has them; and why the bound on integers is needed: one more than 2^23
  has no bit left for the half.
\<close>

lemma float_words:
  "fl_word (7 / 5) = 0x3FB33333" "fl_word (- 1 / 3) = 0xBEAAAAAB" "fl_word (1 / 2 ^ 149) = 1"
  "fl_word (10 ^ 39) = 0x7F800000" "float_from 16777217 = 0x4B800000" "float_cast 0xC0490FDB = -3"
  by code_simp+

lemma float_round_past_23_bits: "float_round (float_from 8388609) = 8388610"
  by code_simp

end
