(* ===== verification/SnapProperties.thy ===== *)
theory SnapProperties
  imports SnapSystem SnapFloat ServerPackets
begin

text \<open>
  Properties of snapshots: they are always written, only bad entities are refused, the older frames
  stay intact, and the client receives what was sent.
\<close>

section \<open>Writing ends\<close>

lemma field_written:
  assumes "bits f = -98 \<longrightarrow> changeHints f \<noteq> 2"
  shows "\<exists>m1. MSG_WriteDeltaField e time from to f False m = Inr m1"
  using fields_written [of "[f]" e time "from" to m] assms by (auto simp: and_then_Inr)

definition ps_table_ok :: "netField \<Rightarrow> bool" where
  "ps_table_ok f \<longleftrightarrow> (bits f = -98 \<longrightarrow> changeHints f \<noteq> 2 \<and> changeHints f \<noteq> 3)"

lemma ps_fields_written:
  "list_all ps_table_ok fs \<Longrightarrow> \<exists>m1. write_ps_fields e info send time from to fs m = Inr m1"
proof (induction fs arbitrary: m)
  case (Cons f fs)
  have "\<exists>m1. MSG_WriteDeltaField e time from to f (\<not> archived info \<and> changeHints f = 3) m = Inr m1"
  proof (cases "\<not> archived info \<and> changeHints f = 3")
    case True
    have "bits f \<noteq> -98" using Cons.prems True by (simp add: ps_table_ok_def)
    then obtain m1 where "write_payload e time (bits f) 0 (to (offset f)) (MSG_WriteBit1 m) = Inr m1"
      using payload_written [of "bits f" 0 "to (offset f)" e time "MSG_WriteBit1 m"] by blast
    then show ?thesis using True by (simp add: MSG_WriteDeltaField_def Let_def)
  next
    case False
    then have f: "(\<not> archived info \<and> changeHints f = 3) = False" by blast
    show ?thesis unfolding f using Cons.prems by (intro field_written) (simp add: ps_table_ok_def)
  qed
  then show ?case using Cons by auto
qed simp

lemma table_takes: "list_all P fs \<Longrightarrow> list_all P (take n fs)"
  by (auto simp: list_all_iff dest: in_set_takeD)

lemma struct_is_written:
  assumes "list_all (\<lambda>f. bits f = -98 \<longrightarrow> changeHints f \<noteq> 2) fs"
  shows "\<exists>k m1. MSG_WriteDeltaStruct e time from to force ib fs cb m = Inr (k, m1)"
proof -
  let ?lc = "last_changed e from to 0 0 fs"
  let ?m = "MSG_WriteBits (int ?lc) (GetMinBitCount (length fs)) (MSG_WriteBit1 (MSG_WriteBit0
    (MSG_WriteEntityIndex (entity_number to) ib (if cb then MSG_WriteBit1 m else m))))"
  obtain m1 where "write_fields e time from to (take ?lc fs) ?m = Inr m1"
    using fields_written [OF table_takes [OF assms]] by blast
  then show ?thesis by (simp add: MSG_WriteDeltaStruct_def Let_def)
qed

lemma hud_written: "\<exists>m1. MSG_WriteDeltaHudElems e time from to m = Inr m1"
proof -
  have ok: "list_all (\<lambda>f. bits f = -98 \<longrightarrow> changeHints f \<noteq> 2) hudElemFields" by (simp add: hudElemFields_def)
  have one: "\<exists>m1. write_element e time f t m = Inr m1" for f t m
    unfolding write_element_def Let_def by (rule fields_written [OF table_takes [OF ok]])
  have "\<exists>m1. write_elements e time from to ks m = Inr m1" for ks m
  proof (induction ks arbitrary: m)
    case (Cons k ks)
    then show ?case using one [of "struct_at (160 * k) from" "struct_at (160 * k) to" m] by auto
  qed simp
  then show ?thesis by (simp add: MSG_WriteDeltaHudElems_def Let_def)
qed

lemma objectives_written: "\<exists>m1. write_objectives e time from to ks m = Inr m1"
proof (induction ks arbitrary: m)
  case (Cons k ks)
  have ok: "list_all (\<lambda>f. bits f = -98 \<longrightarrow> changeHints f \<noteq> 2) objectiveFields" by (simp add: objectiveFields_def)
  have "\<exists>m1. MSG_WriteDeltaObjective e time f t m' = Inr m1" for f t m'
    unfolding MSG_WriteDeltaObjective_def using fields_written [OF ok] by auto
  then obtain m1 where "MSG_WriteDeltaObjective e time (struct_at (1628 + 28 * k) from) (struct_at (1628 + 28 * k) to)
      (MSG_WriteBits (sint (to (1628 + 28 * k))) 3 m) = Inr m1" by blast
  then show ?case using Cons [of m1] by simp
qed simp

lemma player_written: "\<exists>m1. MSG_WriteDeltaPlayerstate e info time from to m = Inr m1"
proof -
  have arrays: "\<exists>m1. write_ps_arrays e time f t m = Inr m1" for f t m
  proof -
    define a where "a = write_groups clip_groups f t (write_ammo f t (write_stats f t m))"
    have "\<exists>b. (if same_words 112 (struct_at 1628 f) (struct_at 1628 t) then Inr (MSG_WriteBit0 a)
        else write_objectives e time f t [0..<16] (MSG_WriteBit1 a)) = Inr b"
      using objectives_written [of e time f t "[0..<16]" "MSG_WriteBit1 a"] by simp
    then obtain b where b: "(if same_words 112 (struct_at 1628 f) (struct_at 1628 t) then Inr (MSG_WriteBit0 a)
        else write_objectives e time f t [0..<16] (MSG_WriteBit1 a)) = Inr b" ..
    obtain c0 where c0: "MSG_WriteDeltaHudElems e time (struct_at (2212 + 4960) f) (struct_at (2212 + 4960) t) (MSG_WriteBit1 b) = Inr c0"
      using hud_written by blast
    obtain c1 where c1: "MSG_WriteDeltaHudElems e time (struct_at 2212 f) (struct_at 2212 t) c0 = Inr c1" using hud_written by blast
    show ?thesis unfolding write_ps_arrays_def Let_def a_def [symmetric] b using c0 c1 by simp
  qed
  have ok: "list_all ps_table_ok playerStateFields" by (simp add: playerStateFields_def ps_table_ok_def)
  have "\<exists>m1. write_ps_fields e i send time f t (take n playerStateFields) m = Inr m1" for i send f t n m
    by (rule ps_fields_written [OF table_takes [OF ok]])
  then have "\<exists>m1. and_then (write_ps_fields e i send time f t (take n playerStateFields) m') (write_ps_arrays e time f t) = Inr m1"
    for i send f t n m' using arrays by (metis and_then_simps(2))
  then show ?thesis unfolding MSG_WriteDeltaPlayerstate_def Let_def by blast
qed

lemma merge_is_written:
  assumes "\<And>x m. \<exists>m1. wr x None True m = Inr (None, m1)"
    "\<And>n x force m. sendable n \<Longrightarrow> \<exists>s m1. wr x (Some n) force m = Inr (s, m1)"
  shows "\<forall>n \<in> set news. sendable n \<Longrightarrow> \<exists>sent m1. merge_lists wr base olds news m = Inr (sent, m1)"
proof (induction olds news arbitrary: m rule: merge_pairs)
  case none
  then show ?case by simp
next
  case (gone x os)
  then show ?case using assms(1) [of x m] by auto
next
  case (fresh n ns)
  then obtain s m1 where "wr (base (entity_number n)) (Some n) True m = Inr (s, m1)" using assms(2) by fastforce
  moreover obtain ss m2 where "merge_lists wr base [] ns m1 = Inr (ss, m2)" using fresh.IH fresh.prems by fastforce
  ultimately show ?case by simp
next
  case (both x os n ns)
  consider "entity_number n = entity_number x" | "entity_number n < entity_number x" | "entity_number x < entity_number n"
    by linarith
  then show ?case
  proof cases
    case 1
    obtain s m1 where "wr x (Some n) False m = Inr (s, m1)" using assms(2) both.prems by fastforce
    moreover obtain ss m2 where "merge_lists wr base os ns m1 = Inr (ss, m2)" using both.IH(1) both.prems by fastforce
    ultimately show ?thesis using 1 by simp
  next
    case 2
    obtain s m1 where "wr (base (entity_number n)) (Some n) True m = Inr (s, m1)" using assms(2) both.prems by fastforce
    moreover obtain ss m2 where "merge_lists wr base (x # os) ns m1 = Inr (ss, m2)" using both.IH(2) both.prems by fastforce
    ultimately show ?thesis using 2 by simp
  next
    case 3
    obtain m1 where "wr x None True m = Inr (None, m1)" using assms(1) by blast
    then show ?thesis using 3 both.IH(3) both.prems by simp
  qed
qed

text \<open>An entity that can be sent to client \<open>cl\<close>.\<close>

definition entity_valid :: "snapenv \<Rightarrow> int \<Rightarrow> cstruct \<Rightarrow> bool" where
  "entity_valid e cl n \<longleftrightarrow> 0 \<le> entity_number n \<and> entity_number n < MAX_GENTITIES \<and> 0 \<le> sint (n 4) \<and>
     (entity_number n < 64 \<longrightarrow> team_of e cl \<noteq> None)"

lemma entity_fields_ok: "entity_fields n = Inr fs \<Longrightarrow> table_ok fs"
  using netFieldList_ok [of "nat (sint (n 4))"] netFieldList_ok [of 17]
  by (auto simp: entity_fields_def entity_table_ok_def split: if_splits)

definition entity_error :: "snapenv \<Rightarrow> int \<Rightarrow> cstruct \<Rightarrow> snap_error option" where
  "entity_error e cl n =
     (if entity_number n < 64 \<and> team_of e cl = None then Some NULL_CLIENT
      else if entity_number n < 0 \<or> MAX_GENTITIES \<le> entity_number n then Some BAD_ENTITY_NUMBER
      else if sint (n 4) < 0 then Some OUT_OF_TABLE else None)"

lemma entity_outcome:
  "(case MSG_WriteDeltaEntity e cl time from (Some n) force m of Inl x \<Rightarrow> Some x | Inr _ \<Rightarrow> None) = entity_error e cl n"
proof (cases "pass_through e cl n")
  case (Inl x)
  then have "x = NULL_CLIENT \<and> entity_number n < 64 \<and> team_of e cl = None"
    by (auto simp: pass_through_def split: if_splits option.splits)
  then show ?thesis using Inl by (simp add: MSG_WriteDeltaEntity_def entity_error_def)
next
  case (Inr to)
  note k = sent_as_kept [OF pass_through_sent [OF Inr]]
  have t: "\<not> (entity_number n < 64 \<and> team_of e cl = None)" using Inr by (auto simp: pass_through_def split: option.splits)
  show ?thesis
  proof (cases "entity_number n < 0 \<or> MAX_GENTITIES \<le> entity_number n")
    case True
    then show ?thesis using Inr t k by (auto simp: MSG_WriteDeltaEntity_def entity_error_def)
  next
    case range: False
    show ?thesis
    proof (cases "sint (n 4) < 0")
      case True
      then have "entity_fields n = Inl OUT_OF_TABLE" by (simp add: entity_fields_def)
      then show ?thesis using Inr t k range True by (auto simp: MSG_WriteDeltaEntity_def entity_error_def)
    next
      case False
      then obtain fs where fs: "entity_fields n = Inr fs" by (cases "sint (n 4) \<le> 17") (auto simp: entity_fields_def)
      have "list_all (\<lambda>f. bits f = -98 \<longrightarrow> changeHints f \<noteq> 2) fs"
        using entity_fields_ok [OF fs] by (auto simp: table_ok_def list_all_iff)
      then obtain j m1 where "MSG_WriteDeltaStruct e time from to force 10 fs False m = Inr (j, m1)"
        using struct_is_written by blast
      then show ?thesis using Inr t k range False fs
        by (auto simp: MSG_WriteDeltaEntity_def MSG_WriteEntityDelta_def entity_error_def)
    qed
  qed
qed

lemma entity_is_written:
  assumes "entity_valid e cl n"
  shows "\<exists>s m1. MSG_WriteDeltaEntity e cl time from (Some n) force m = Inr (s, m1)"
proof -
  have "entity_error e cl n = None" using assms by (auto simp: entity_valid_def entity_error_def)
  then show ?thesis using entity_outcome [of e cl time "from" n force m]
    by (cases "MSG_WriteDeltaEntity e cl time from (Some n) force m") auto
qed

lemma client_is_written: "\<exists>m1. MSG_WriteDeltaClient e time from (Some n) force m = Inr m1"
proof -
  have "list_all (\<lambda>f. bits f = -98 \<longrightarrow> changeHints f \<noteq> 2) clientStateFields" by (simp add: clientStateFields_def)
  then obtain k m1 where "MSG_WriteDeltaStruct e time (old_player from) n force 6 clientStateFields True m = Inr (k, m1)"
    using struct_is_written by blast
  then show ?thesis by (simp add: MSG_WriteDeltaClient_def old_player_def)
qed

lemma entities_loop_written:
  assumes "apart num new old" "known_numbers (window_list R num old 0)" "known_numbers (window_list R num new 0)"
    "\<forall>n \<in> set (window_list R num new 0). entity_valid e cl n"
  shows "\<exists>R1 m1. entities_loop (window_fuel new old) e cl time bl num new old R 0 0 m = Inr (R1, m1)"
proof -
  have "\<exists>sent m1. merge_lists (MSG_WriteDeltaEntity e cl time) (idx bl) (window_list R num old 0) (window_list R num new 0) m =
      Inr (sent, m1)"
    using assms(4) by (intro merge_is_written [where sendable = "entity_valid e cl"]) (simp_all add: entity_removed entity_is_written)
  then show ?thesis
    using loop_is_merge [OF assms(1), of 0 0 "window_fuel new old" R e cl time bl m] assms(2,3)
    by (auto simp: window_fuel_def with_stored_def)
qed

lemma clients_loop_written:
  assumes "known_numbers (window_list R num old 0)" "known_numbers (window_list R num new 0)"
  shows "\<exists>m1. clients_loop (window_fuel new old) e time num new old R 0 0 m = Inr m1"
proof -
  have one: "\<exists>s m1. client_writer e time x (Some n) force m = Inr (s, m1)" for x n force m
    using client_is_written [of e time "Some x" n force m] by (auto simp: client_writer_def)
  have "\<exists>sent m1. merge_lists (client_writer e time) (\<lambda>_. null_struct) (window_list R num old 0) (window_list R num new 0) m =
      Inr (sent, m1)"
    by (rule merge_is_written [where sendable = "\<lambda>_. True"]) (simp_all add: client_removed one)
  then show ?thesis
    using clients_loop_is_merge [of 0 0 new old "window_fuel new old" R num e time m] assms
    by (auto simp: window_fuel_def known_clients_def)
qed

section \<open>The properties\<close>

text \<open>
  The message as the client has it, at the place where the snapshot begins: \<open>m\<close> is the message before
  and \<open>mf\<close> the one after the snapshot was written.
\<close>

definition incoming :: "msg \<Rightarrow> msg \<Rightarrow> msg" where
  "incoming m mf = m\<lparr>data := data mf, cursize := cursize mf, readcount := cursize m\<rparr>"

definition unsplit :: "msg \<Rightarrow> bool" where
  "unsplit m \<longleftrightarrow> splitSize m = 0 \<and> splitData m = None"

lemma incoming_reads:
  assumes "grows m1 mf" "unsplit m" "cursize mf < 2 ^ 27"
  shows "reads_at (data mf) (cursize mf) m (incoming m mf)" "agrees (data mf) m1" "cursize m1 \<le> cursize mf"
proof -
  have "cursize mf \<le> int (length (data mf))" using assms(1) by (simp add: grows_def wr_ok_def msg_ok_def)
  then show "reads_at (data mf) (cursize mf) m (incoming m mf)"
    using assms(2,3) by (simp add: reads_at_def incoming_def unsplit_def)
  show "agrees (data mf) m1" "cursize m1 \<le> cursize mf" using assms(1) by (simp_all add: grows_def agrees_def)
qed

lemma transfers_runs:
  assumes "transfers D m m1 v" "grows m1 mf" "unsplit m" "cursize mf < 2 ^ 27"
  shows "fst (run_state D (incoming m mf)) = v"
  using assms(1) incoming_reads [OF assms(2-4)] unfolding transfers_def by (metis fst_conv)

lemma transfers_runs_whole:
  assumes "transfers D m mf v" "unsplit m" "cursize mf < 2 ^ 27"
  shows "fst (run_state D (incoming m mf)) = v"
  using transfers_runs [OF assms(1) grows_refl assms(2,3)] transfers_ok [OF assms(1)] by simp

text \<open>
Claim C3.  The client that still has the frame a snapshot is encoded against, or none if the
snapshot is complete, reads the new frame from it: the time, the flags, every field and array of the
player that is due, the entities that the server keeps in its window, which are those of the frame up
to the bits that let players pass through each other, and the clients.
\<close>

theorem snapshot_received:
  assumes "SV_WriteSnapshotToClient e info pad h c m = Inr (h1, c1, mf)"
    "snapshot_ready e d h c cbl (old (last_frame h c mod 256))" "enough_fuel h c k l"
    "wr_ok m" "\<not> overflowed mf" "unsplit m" "cursize mf < 2 ^ 27"
  shows "\<exists>s. fst (run_state (read_snapshot e d cbl k l old) (incoming m mf)) = Some s \<and>
    frame_received e info h h1 c s"
proof (rule snapshot_transfers [where old = old, OF assms(1-5)])
  fix s m1 assume s: "transfers (read_snapshot e d cbl k l old) m m1 (Some s)" "grows m1 mf" "frame_received e info h h1 c s"
  then show ?thesis using transfers_runs [OF s(1,2) assms(6,7)] by blast
qed

definition numbers_known :: "svsHeader \<Rightarrow> clientSnapshot option \<Rightarrow> bool" where
  "numbers_known h f \<longleftrightarrow> known_numbers (frame_entities h f) \<and> known_numbers (frame_clients h f)"

text \<open>
Claim C6.  A snapshot is always written: with the fuel of its windows no loop runs out and no other
error occurs, as long as the entities of the new frame are valid and all numbers lie below 9999.
\<close>

theorem snapshot_is_written:
  assumes "in_order h (new_frame h c) (old_frame h c)" "numbers_known h (old_frame h c)"
    "numbers_known h (Some (new_frame h c))"
    "list_all (entity_valid e (clnum info)) (frame_entities h (Some (new_frame h c)))"
  shows "\<exists>h1 c1 mf. SV_WriteSnapshotToClient e info pad h c m = Inr (h1, c1, mf)"
proof -
  let ?of = "old_frame h c" and ?nf = "new_frame h c"
  note ap = windows_apart [OF assms(1)]
  obtain m3 where m3: "MSG_WriteDeltaPlayerstate e (info\<lparr>archived := False\<rparr>) (sh_time h) (map_option ps ?of) (ps ?nf)
      (snapshot_head h (last_frame h c) (snapshot_flags h c) m) = Inr m3" using player_written by blast
  obtain R m4 where m4: "entities_loop (window_fuel (entity_window (Some ?nf)) (entity_window ?of)) e (clnum info) (sh_time h)
      (svEntities h) (numSnapshotEntities h) (entity_window (Some ?nf)) (entity_window ?of) (snapshotEntities h) 0 0
      (MSG_ClearLastReferencedEntity m3) = Inr (R, m4)"
    using entities_loop_written [OF ap, of "snapshotEntities h" e "clnum info"] assms(2-4)
    unfolding numbers_known_def frame_entities_def list_all_iff by blast
  obtain m6 where m6: "clients_loop (window_fuel (client_window (Some ?nf)) (client_window ?of)) e (sh_time h)
      (numSnapshotClients h) (client_window (Some ?nf)) (client_window ?of) (snapshotClients h) 0 0
      (MSG_ClearLastReferencedEntity (entities_end m4)) = Inr m6"
    using clients_loop_written [of "snapshotClients h" "numSnapshotClients h"] assms(2,3)
    unfolding numbers_known_def frame_clients_def by blast
  show ?thesis by (simp add: snapshot_steps m3 m4 m6)
qed

text \<open>
Claim C25.  What makes an entity unsendable, in the order of the checks: a player number while the
receiver has no player, a number outside the table of entities, a negative type.  Every other
entity is written.
\<close>

theorem MSG_WriteDeltaEntity_errors:
  "(case MSG_WriteDeltaEntity e cl time from (Some n) force m of Inl x \<Rightarrow> Some x | Inr _ \<Rightarrow> None) =
     (if entity_number n < 64 \<and> team_of e cl = None then Some NULL_CLIENT
      else if entity_number n < 0 \<or> MAX_GENTITIES \<le> entity_number n then Some BAD_ENTITY_NUMBER
      else if sint (n 4) < 0 then Some OUT_OF_TABLE else None)"
  using entity_outcome [of e cl time "from" n force m] by (simp add: entity_error_def)

lemma store_window_slots:
  assumes "0 < num" "\<forall>k. i \<le> k \<and> k < i + int (length ss) \<longrightarrow> (fst w + k) mod num \<noteq> int j"
  shows "store_window num w i ss R ! j = R ! j"
  using assms(2)
proof (induction ss arbitrary: i R)
  case (Cons s ss)
  have "store_window num w (i + 1) ss (put ((fst w + i) mod num) s R) ! j = put ((fst w + i) mod num) s R ! j"
    using Cons.prems by (intro Cons.IH) simp
  moreover have "(fst w + i) mod num \<noteq> int j" using Cons.prems [rule_format, of i] by simp
  then have "nat ((fst w + i) mod num) \<noteq> j" using assms(1) by auto
  then have "put ((fst w + i) mod num) s R ! j = R ! j" by (simp add: put_def)
  ultimately show ?case by simp
qed simp

lemma store_window_length [simp]: "length (store_window num w i ss R) = length R"
  by (induction ss arbitrary: i R) simp_all

lemma old_window_kept:
  assumes "apart num new old" "int (length R) = num" "int (length ss) = snd new"
  shows "window_list (store_window num new 0 ss R) num old 0 = window_list R num old 0"
  unfolding window_list_def
proof (rule map_cong [OF refl])
  fix k assume "k \<in> set [0..snd old - 1]"
  then have k: "0 \<le> k" "k < snd old" by auto
  have num: "0 < num" using assms(1) by (simp add: apart_def)
  let ?j = "(fst old + k) mod num"
  have "\<forall>i. 0 \<le> i \<and> i < 0 + int (length ss) \<longrightarrow> (fst new + i) mod num \<noteq> int (nat ?j)"
  proof (intro allI impI)
    fix i assume "0 \<le> i \<and> i < 0 + int (length ss)"
    then have "fst old + k < fst new + i" "fst new + i < fst old + k + num" using k assms(1,3) by (auto simp: apart_def)
    from mod_apart [OF this num] show "(fst new + i) mod num \<noteq> int (nat ?j)" using num by simp
  qed
  from store_window_slots [OF num this] show "ring_slot (store_window num new 0 ss R) num (fst old + k) = ring_slot R num (fst old + k)"
    using num by (simp add: ring_slot_def idx_def)
qed

text \<open>
Claim C12.  Writing a snapshot changes only the slots of its own window; the older frame it is encoded
against stays as it was, so that it can be used again when this snapshot is lost.
\<close>

theorem snapshot_keeps_other_slots:
  assumes "SV_WriteSnapshotToClient e info pad h c m = Inr (h1, c1, mf)" "in_order h (new_frame h c) (old_frame h c)"
    "numbers_known h (old_frame h c)" "numbers_known h (Some (new_frame h c))"
  shows "h1 = h\<lparr>snapshotEntities := snapshotEntities h1\<rparr> \<and>
    length (snapshotEntities h1) = length (snapshotEntities h) \<and>
    (\<forall>j. (\<forall>k. 0 \<le> k \<and> k < num_entities (new_frame h c) \<longrightarrow>
        (first_entity (new_frame h c) + k) mod numSnapshotEntities h \<noteq> int j) \<longrightarrow>
      snapshotEntities h1 ! j = snapshotEntities h ! j) \<and>
    frame_entities h1 (old_frame h c) = frame_entities h (old_frame h c)"
proof (intro conjI)
  let ?new = "entity_window (Some (new_frame h c))" and ?old = "entity_window (old_frame h c)"
  have num: "0 < numSnapshotEntities h" "int (length (snapshotEntities h)) = numSnapshotEntities h"
    using assms(2) by (simp_all add: in_order_def)
  obtain R m3 m4 where r: "entities_loop (window_fuel ?new ?old) e (clnum info) (sh_time h) (svEntities h) (numSnapshotEntities h)
      ?new ?old (snapshotEntities h) 0 0 (MSG_ClearLastReferencedEntity m3) = Inr (R, m4)" "h1 = h\<lparr>snapshotEntities := R\<rparr>"
    by (rule snapshot_written [OF assms(1)])
  obtain sent where s: "R = store_window (numSnapshotEntities h) ?new 0 sent (snapshotEntities h)" "int (length sent) = snd ?new"
    by (rule entities_loop_stored [OF windows_apart [OF assms(2)] _ _ r(1)])
      (use assms(3,4) in \<open>simp_all add: numbers_known_def frame_entities_def\<close>)
  show "h1 = h\<lparr>snapshotEntities := snapshotEntities h1\<rparr>" by (simp add: r(2))
  show "length (snapshotEntities h1) = length (snapshotEntities h)" by (simp add: r(2) s(1))
  show "\<forall>j. (\<forall>k. 0 \<le> k \<and> k < num_entities (new_frame h c) \<longrightarrow>
        (first_entity (new_frame h c) + k) mod numSnapshotEntities h \<noteq> int j) \<longrightarrow>
      snapshotEntities h1 ! j = snapshotEntities h ! j"
    using store_window_slots [OF num(1), of 0 sent ?new] s(2) by (simp add: r(2) s(1) entity_window_def)
  show "frame_entities h1 (old_frame h c) = frame_entities h (old_frame h c)"
    using old_window_kept [OF windows_apart [OF assms(2)] num(2) s(2)] by (simp add: frame_entities_def r(2) s(1))
qed

text \<open>
Claim C10.  The state of a player is received, in a snapshot or from an archive: the client that has a
copy of the older state reads every field that is due and all arrays, each as exact as its coding,
and learns whether its own prediction of origin and velocity stands.
\<close>

theorem player_received:
  assumes "arith_ok e d" "player_base e base (old_player from)"
    "MSG_WriteDeltaPlayerstate e info time from to m = Inr mf"
    "wr_ok m" "\<not> overflowed mf" "unsplit m" "cursize mf < 2 ^ 27"
  shows "\<exists>new. fst (run_state (read_player e d (archived info) time base) (incoming m mf)) = (send_origin info to, new) \<and>
    player_seen e info (old_player from) to new"
proof -
  obtain new where new: "conveys (read_player e d (archived info) time base) (MSG_WriteDeltaPlayerstate e info time from to)
      (send_origin info to, new)" "player_seen e info (old_player from) to new"
    using player_conveys [OF assms(1,2)] by blast
  show ?thesis using transfers_runs_whole [OF conveysD(3) [OF new(1) assms(3-5)] assms(6,7)] new(2) by blast
qed

section \<open>A snapshot to evaluate on\<close>

text \<open>
  With the arithmetic of the processor.  Entity 1 changes, entity 2 goes, entity 3 is new; client 0
  changes, client 1 is new; of the player the time and a statistic change.
\<close>

definition sample_env :: snapenv where
  "sample_env = \<lparr>fp_cast = float_cast, fp_from = float_from, fp_round = float_round, fp_angle = float_angle,
     fp_scale = float_scale, map_center = (\<lambda>_. 0), ffa_block = False, friendly_block = False,
     team_of = (\<lambda>_. Some 2)\<rparr>"

definition sample_decoder :: decoder where
  "sample_decoder = float_decoder"

lemma sample_arith: "arith_ok sample_env sample_decoder"
  using floats_arith_ok [of sample_env] by (simp add: sample_env_def sample_decoder_def with_floats_def)

definition old_ps :: cstruct where "old_ps = null_struct(1436 := 1023)"
definition new_ps :: cstruct where "new_ps = null_struct(1436 := 1023, 0 := 50, 328 := 100)"

definition sample_info :: snapinfo where
  "sample_info = \<lparr>clnum = 0, archived = False, clientArchive = True, predictedTime = 50, near = (\<lambda>_. True)\<rparr>"

definition sample_message :: msg where
  "sample_message = (MSG_Init (replicate 128 0) 128)\<lparr>lastRefEntity := -1\<rparr>"

lemma sample_message_ok: "wr_ok sample_message" "unsplit sample_message"
  by (simp_all add: sample_message_def MSG_Init_def wr_ok_def msg_ok_def unsplit_def)

text \<open>What is written of the player.\<close>

definition player_message :: "msg \<Rightarrow> msg" where
  "player_message m = MSG_WriteBit0 (MSG_WriteBit0 (MSG_WriteBit0 (MSG_WriteBit0 (MSG_WriteBit0 (MSG_WriteBit0
     (MSG_WriteBit0 (MSG_WriteBit0 (MSG_WriteBit0 (MSG_WriteBit0 (MSG_WriteBit0 (MSG_WriteBit0
     (MSG_WriteShort 100 (MSG_WriteBits 1 5 (MSG_WriteBit1 (write_time 50 50 (MSG_WriteBit1
       (MSG_WriteBits 1 8 (MSG_WriteBit0 m))))))))))))))))))"

lemma same_words_below:
  "k < b \<Longrightarrow> struct_at b (s(k := v)) = struct_at b s"
  by (simp add: struct_at_def fun_eq_iff)

lemma same_words_refl: "same_words n s s"
  by (simp add: same_words_def list_all_iff)

lemma changed_bits_below:
  "k < off \<Longrightarrow> changed_bits off n s (t(k := v)) = changed_bits off n s t" "changed_bits off n s s = 0"
proof -
  show "k < off \<Longrightarrow> changed_bits off n s (t(k := v)) = changed_bits off n s t" by (simp add: changed_bits_def)
  show "changed_bits off n s s = 0" by (rule bit_eqI) (simp add: changed_bits_bit)
qed

lemma sample_last: "last_sent (MSG_ShouldSendPSField sample_env sample_info False new_ps old_ps) 0 0 playerStateFields = 1"
  by (simp add: playerStateFields_def MSG_ShouldSendPSField_def MSG_ValuesAreEqual_def new_ps_def old_ps_def null_struct_def
    sample_info_def)

lemma player_count: "GetMinBitCount (length playerStateFields) = 8"
  by code_simp

lemma sample_fields: "write_ps_fields sample_env sample_info send 50 old_ps new_ps (take (Suc 0) playerStateFields) m =
    (if send (NETF ''commandTime'' 0 (-97) 0) then Inr (write_time 50 50 (MSG_WriteBit1 m)) else Inr (MSG_WriteBit0 m))"
  by (simp add: playerStateFields_def MSG_WriteDeltaField_def MSG_ValuesAreEqual_def write_payload_def new_ps_def old_ps_def
    null_struct_def)

lemma sample_arrays: "write_ps_arrays sample_env 50 old_ps new_ps m = Inr (MSG_WriteBit0 (MSG_WriteBit0 (MSG_WriteBit0 (MSG_WriteBit0
    (MSG_WriteBit0 (MSG_WriteBit0 (MSG_WriteBit0 (MSG_WriteBit0 (MSG_WriteBit0 (MSG_WriteBit0 (MSG_WriteBit0 (MSG_WriteBit0
     (MSG_WriteShort 100 (MSG_WriteBits 1 5 (MSG_WriteBit1 m)))))))))))))))"
proof -
  have one: "bit (Suc 0) n \<longleftrightarrow> n = 0" for n using bit_1_iff [of n, where 'a = nat] by simp
  have stats: "changed_bits 328 5 old_ps new_ps = 1" by code_simp
  have same: "struct_at b new_ps = struct_at b old_ps" if "1436 < b" for b
    using that by (simp add: new_ps_def old_ps_def struct_at_def fun_eq_iff)
  have groups: "changed_bits off 16 old_ps new_ps = 0" if "348 \<le> off" for off
  proof (rule bit_eqI)
    fix n show "bit (changed_bits off 16 old_ps new_ps) n = bit 0 n"
      using that by (simp add: changed_bits_bit new_ps_def old_ps_def)
  qed
  have "write_stats old_ps new_ps m = MSG_WriteShort 100 (MSG_WriteBits 1 5 (MSG_WriteBit1 m))"
    unfolding write_stats_def stats Let_def by (simp add: upt_rec one new_ps_def)
  then show ?thesis
    by (simp add: write_ps_arrays_def same same_words_refl write_ammo_def ammo_groups_def clip_groups_def upt_rec groups
      write_group_def)
qed

lemma sample_player: "MSG_WriteDeltaPlayerstate sample_env sample_info 50 (Some old_ps) new_ps m = Inr (player_message m)"
proof -
  have origin: "\<not> (archived sample_info \<or> \<not> (clientArchive sample_info \<and> near sample_info new_ps \<and> predictedTime sample_info = sint (new_ps 0)))"
    by (simp add: sample_info_def new_ps_def)
  have send: "MSG_ShouldSendPSField sample_env sample_info False new_ps old_ps (NETF ''commandTime'' 0 (-97) 0)"
    by (simp add: MSG_ShouldSendPSField_def MSG_ValuesAreEqual_def new_ps_def old_ps_def null_struct_def sample_info_def)
  show ?thesis
    unfolding MSG_WriteDeltaPlayerstate_def Let_def using origin
    by (simp add: sample_last sample_fields send sample_arrays player_count player_message_def)
qed

definition sample_entity :: "32 word \<Rightarrow> 32 word \<Rightarrow> 32 word \<Rightarrow> cstruct" where
  "sample_entity n t v = null_struct(0 := n, 4 := t, 8 := v)"

definition sample_frame :: "cstruct \<Rightarrow> int \<Rightarrow> int \<Rightarrow> int \<Rightarrow> clientSnapshot" where
  "sample_frame p n fe fc = \<lparr>ps = p, num_entities = 2, num_clients = n, first_entity = fe, first_client = fc, var_03 = 0\<rparr>"

definition sample_client :: snapclient where
  "sample_client = \<lparr>sc_client = demo_client\<lparr>cl_netchan := (cl_netchan demo_client)\<lparr>outgoingSequence := 2\<rparr>\<rparr>,
     deltaMessage = 1, rateDelayed = False, unksnapshotvar = False, demorecording = False, demowaiting = False,
     demoMaxDeltaFrames = 1, demoDeltaFrameCount = 0,
     frames = [sample_frame null_struct 0 0 0, sample_frame old_ps 1 0 0, sample_frame new_ps 2 2 1]\<rparr>"

definition sample_header :: svsHeader where
  "sample_header = \<lparr>sh_time = 50, snapFlagServerBit = 4, numSnapshotEntities = 4, numSnapshotClients = 4,
     nextSnapshotEntities = 4, nextSnapshotClients = 3,
     snapshotEntities = [sample_entity 1 0 0, sample_entity 2 1 0, sample_entity 1 0 5, sample_entity 3 0 0],
     snapshotClients = [sample_entity 0 0 0, sample_entity 0 0 7, sample_entity 1 0 0],
     svEntities = replicate 5 null_struct\<rparr>"

lemma sample_frames:
  "new_frame sample_header sample_client = (sample_frame new_ps 2 2 1)\<lparr>var_03 := 50\<rparr>"
  "old_frame sample_header sample_client = Some (sample_frame old_ps 1 0 0)"
  "last_frame sample_header sample_client = 1"
proof -
  have o: "outgoing sample_client AND PACKET_MASK = 2" "outgoing sample_client = 2" "(2::int) AND PACKET_MASK = 2" "(1::int) AND PACKET_MASK = 1"
    "outgoing (with_frame sample_header sample_client) = 2" "deltaMessage (with_frame sample_header sample_client) = 1"
    "cl_state (sc_client (with_frame sample_header sample_client)) = CS_ACTIVE"
    "demorecording (with_frame sample_header sample_client) = False"
    by (simp_all add: outgoing_def sample_client_def demo_client_def PACKET_MASK_def PACKET_BACKUP_def with_frame_def)
  show n: "new_frame sample_header sample_client = (sample_frame new_ps 2 2 1)\<lparr>var_03 := 50\<rparr>"
    by (simp add: new_frame_def o) (simp add: sample_client_def sample_header_def idx_def numeral_2_eq_2)
  have f: "idx (frames (with_frame sample_header sample_client)) 1 = sample_frame old_ps 1 0 0"
    by (simp add: with_frame_def o) (simp add: sample_client_def idx_def put_def)
  have w: "in_window sample_header (sample_frame old_ps 1 0 0)"
    by (simp add: in_window_def sample_header_def sample_frame_def)
  have "\<exists>c'. choose_frame sample_header (with_frame sample_header sample_client) = (c', Some (sample_frame old_ps 1 0 0), 1)"
    by (simp add: choose_frame_def o f w PACKET_BACKUP_def Let_def)
  then show "old_frame sample_header sample_client = Some (sample_frame old_ps 1 0 0)"
    "last_frame sample_header sample_client = 1"
    by (auto simp: old_frame_def last_frame_def)
qed

lemma sample_lists:
  "frame_entities sample_header (Some (sample_frame old_ps 1 0 0)) = [sample_entity 1 0 0, sample_entity 2 1 0]"
  "frame_entities sample_header (Some ((sample_frame new_ps 2 2 1)\<lparr>var_03 := 50\<rparr>)) = [sample_entity 1 0 5, sample_entity 3 0 0]"
  "frame_clients sample_header (Some (sample_frame old_ps 1 0 0)) = [sample_entity 0 0 0]"
  "frame_clients sample_header (Some ((sample_frame new_ps 2 2 1)\<lparr>var_03 := 50\<rparr>)) = [sample_entity 0 0 7, sample_entity 1 0 0]"
  by (simp_all add: frame_entities_def frame_clients_def entity_window_def client_window_def sample_frame_def window_list_def
    upto.simps ring_slot_def idx_def sample_header_def)

lemma sample_numbers [simp]:
  "entity_number (sample_entity n t v) = sint n" "sample_entity n t v 4 = t"
  by (simp_all add: entity_number_def sample_entity_def)

lemma sample_in_order: "in_order sample_header (new_frame sample_header sample_client) (old_frame sample_header sample_client)"
  unfolding sample_frames by (simp add: in_order_def sample_header_def sample_frame_def)

lemma sample_known: "numbers_known sample_header (old_frame sample_header sample_client)"
  "numbers_known sample_header (Some (new_frame sample_header sample_client))"
  unfolding sample_frames by (simp_all add: numbers_known_def known_numbers_def sample_lists)

definition sample_old :: "int \<Rightarrow> client_frame" where
  "sample_old l = (if l = 1 then (old_ps, [sample_entity 1 0 0, sample_entity 2 1 0], [sample_entity 0 0 0])
     else (null_struct, [], []))"

lemma sample_ready: "snapshot_ready sample_env sample_decoder sample_header sample_client
  (idx (svEntities sample_header)) (sample_old (last_frame sample_header sample_client mod 256))"
proof -
  have "s32 (sh_time sample_header) = sh_time sample_header" by (simp add: sample_header_def)
  note r = exact_ready [OF sample_arith this sample_in_order]
  have p: "ps (sample_frame old_ps 1 0 0) = old_ps" by (simp add: sample_frame_def)
  show ?thesis using r by (simp add: sample_frames sample_lists list_ok_def sample_old_def old_player_def p)
qed


lemma sample_flags: "snapshot_flags sample_header sample_client = 4"
proof -
  have o: "outgoing (with_frame sample_header sample_client) = 2" "deltaMessage (with_frame sample_header sample_client) = 1"
    "cl_state (sc_client (with_frame sample_header sample_client)) = CS_ACTIVE"
    "demorecording (with_frame sample_header sample_client) = False" "rateDelayed (with_frame sample_header sample_client) = False"
    by (simp_all add: outgoing_def sample_client_def demo_client_def with_frame_def)
  have "cl_state (sc_client (fst (choose_frame sample_header (with_frame sample_header sample_client)))) = CS_ACTIVE"
    "rateDelayed (fst (choose_frame sample_header (with_frame sample_header sample_client))) = False"
    by (simp_all add: choose_frame_def o PACKET_BACKUP_def Let_def)
  then show ?thesis by (simp add: snapshot_flags_def mark_active_def set_bits_def Let_def) (simp add: sample_header_def)
qed

text \<open>What is written of the entities and clients.\<close>

lemma sample_changed_entity:
  "MSG_WriteDeltaEntity sample_env 0 50 (sample_entity 1 0 0) (Some (sample_entity 1 0 5)) False m =
     and_then (case MSG_Write24BitFlag 0 5 (MSG_WriteBit1 (MSG_WriteBit0 (MSG_WriteBits 2 6 (MSG_WriteBit1 (MSG_WriteBit0
       (MSG_WriteEntityIndex 1 10 m)))))) of None \<Rightarrow> Inl ENDLESS_SCAN | Some m1 \<Rightarrow> Inr m1)
     (\<lambda>m1. Inr (Some (clear_solid (sample_entity 1 0 5)), m1))"
proof -
  let ?to = "clear_solid (sample_entity 1 0 5)"
  have to: "pass_through sample_env 0 (sample_entity 1 0 5) = Inr ?to"
    by (simp add: pass_through_def sample_env_def TEAM_FREE_def OnSameTeam_def)
  have fs: "entity_fields ?to = Inr entityStateFields" "entity_number ?to = 1"
    by (simp_all add: entity_fields_def netFieldList_def)
  have lc: "last_changed sample_env (sample_entity 1 0 0) ?to 0 0 entityStateFields = 2"
    by (simp add: entityStateFields_def MSG_ValuesAreEqual_def clear_solid_def sample_entity_def null_struct_def)
  have six: "GetMinBitCount (length entityStateFields) = 6" by (rule count_six) (simp_all add: entityStateFields_def)
  have two: "take 2 entityStateFields = [NETF ''eType'' 4 8 0, NETF ''lerp.eFlags'' 8 (-98) 0]"
    by (simp add: entityStateFields_def numeral_2_eq_2)
  show ?thesis
    unfolding MSG_WriteDeltaEntity_def option.case to and_then_simps fs MSG_WriteEntityDelta_def MSG_WriteDeltaStruct_def Let_def lc six two
    by (simp add: MAX_GENTITIES_def MSG_WriteDeltaField_def MSG_ValuesAreEqual_def write_payload_def clear_solid_def
      sample_entity_def null_struct_def and_then_def split: option.split)
qed

lemma sample_new_entity:
  "MSG_WriteDeltaEntity sample_env 0 50 null_struct (Some (sample_entity 3 0 0)) True m =
     Inr (Some (clear_solid (sample_entity 3 0 0)), MSG_WriteBit0 (MSG_WriteBit0 (MSG_WriteEntityIndex 3 10 m)))"
proof -
  let ?to = "clear_solid (sample_entity 3 0 0)"
  have to: "pass_through sample_env 0 (sample_entity 3 0 0) = Inr ?to"
    by (simp add: pass_through_def sample_env_def TEAM_FREE_def OnSameTeam_def)
  have fs: "entity_fields ?to = Inr entityStateFields" "entity_number ?to = 3"
    by (simp_all add: entity_fields_def netFieldList_def)
  have lc: "last_changed sample_env null_struct ?to 0 0 entityStateFields = 0"
    by (simp add: entityStateFields_def MSG_ValuesAreEqual_def clear_solid_def sample_entity_def null_struct_def)
  show ?thesis
    unfolding MSG_WriteDeltaEntity_def option.case to and_then_simps fs MSG_WriteEntityDelta_def MSG_WriteDeltaStruct_def Let_def lc
    by (simp add: MAX_GENTITIES_def)
qed

lemma sample_changed_client:
  "MSG_WriteDeltaClient sample_env 50 (Some (sample_entity 0 0 0)) (Some (sample_entity 0 0 7)) False m =
     Inr (write_plain 9 0 7 (MSG_WriteBit1 (MSG_WriteBits 1 5 (MSG_WriteBit1 (MSG_WriteBit0
       (MSG_WriteEntityIndex 0 6 (MSG_WriteBit1 m)))))))"
proof -
  have lc: "last_changed sample_env (sample_entity 0 0 0) (sample_entity 0 0 7) 0 0 clientStateFields = 1"
    by (simp add: clientStateFields_def MSG_ValuesAreEqual_def sample_entity_def null_struct_def)
  have five: "GetMinBitCount (length clientStateFields) = 5" by code_simp
  have one: "take 1 clientStateFields = [NETF ''modelindex'' 8 9 0]" by (simp add: clientStateFields_def)
  show ?thesis
    unfolding MSG_WriteDeltaClient_def option.case MSG_WriteDeltaStruct_def Let_def lc five one
    by (simp add: MSG_WriteDeltaField_def MSG_ValuesAreEqual_def) (simp add: sample_entity_def null_struct_def write_payload_def)
qed

lemma sample_new_client:
  "MSG_WriteDeltaClient sample_env 50 None (Some (sample_entity 1 0 0)) True m =
     Inr (MSG_WriteBit0 (MSG_WriteBit0 (MSG_WriteEntityIndex 1 6 (MSG_WriteBit1 m))))"
proof -
  have lc: "last_changed sample_env null_struct (sample_entity 1 0 0) 0 0 clientStateFields = 0"
    by (simp add: clientStateFields_def MSG_ValuesAreEqual_def sample_entity_def null_struct_def)
  show ?thesis unfolding MSG_WriteDeltaClient_def option.case MSG_WriteDeltaStruct_def Let_def lc by simp
qed

definition entities_message :: "msg \<Rightarrow> snap_error + msg" where
  "entities_message m =
     (case MSG_Write24BitFlag 0 5 (MSG_WriteBit1 (MSG_WriteBit0 (MSG_WriteBits 2 6 (MSG_WriteBit1 (MSG_WriteBit0
       (MSG_WriteEntityIndex 1 10 m)))))) of None \<Rightarrow> Inl ENDLESS_SCAN
      | Some m1 \<Rightarrow> Inr (MSG_WriteBit0 (MSG_WriteBit0 (MSG_WriteEntityIndex 3 10 (entity_removal (sample_entity 2 1 0) m1)))))"

definition clients_message :: "msg \<Rightarrow> msg" where
  "clients_message m = MSG_WriteBit0 (MSG_WriteBit0 (MSG_WriteEntityIndex 1 6 (MSG_WriteBit1
     (write_plain 9 0 7 (MSG_WriteBit1 (MSG_WriteBits 1 5 (MSG_WriteBit1 (MSG_WriteBit0
       (MSG_WriteEntityIndex 0 6 (MSG_WriteBit1 m))))))))))"

lemma sample_entities: "\<exists>R. entities_loop 4 sample_env 0 50 (replicate 5 null_struct) 4 (2, 2) (0, 2)
    [sample_entity 1 0 0, sample_entity 2 1 0, sample_entity 1 0 5, sample_entity 3 0 0] 0 0 m =
  and_then (entities_message m) (\<lambda>m1. Inr (R, m1))"
proof (cases "MSG_Write24BitFlag 0 5 (MSG_WriteBit1 (MSG_WriteBit0 (MSG_WriteBits 2 6 (MSG_WriteBit1 (MSG_WriteBit0
       (MSG_WriteEntityIndex 1 10 m))))))")
  case None
  then show ?thesis by (simp add: numeral_eq_Suc element_at_def ring_slot_def idx_def sample_changed_entity entities_message_def)
next
  case (Some m1)
  then show ?thesis
    by (simp add: numeral_eq_Suc element_at_def ring_slot_def idx_def put_def store_sent_def sample_changed_entity
      sample_new_entity entity_removed entities_message_def Let_def)
qed

lemma sample_clients: "clients_loop 3 sample_env 50 4 (1, 2) (0, 1)
    [sample_entity 0 0 0, sample_entity 0 0 7, sample_entity 1 0 0] 0 0 m = Inr (clients_message m)"
  by (simp add: numeral_eq_Suc element_at_def ring_slot_def idx_def sample_changed_client sample_new_client clients_message_def)

lemma sample_fits: "case entities_message (MSG_ClearLastReferencedEntity (player_message
     (MSG_WriteByte 4 (MSG_WriteByte 1 (MSG_WriteLong 50 (MSG_WriteByte svc_snapshot sample_message)))))) of Inl x \<Rightarrow> False
   | Inr m \<Rightarrow> \<not> overflowed (MSG_WriteBit0 (clients_message (MSG_ClearLastReferencedEntity (entities_end m)))) \<and>
       cursize (MSG_WriteBit0 (clients_message (MSG_ClearLastReferencedEntity (entities_end m)))) < 128"
  by code_simp

lemma sample_written:
  obtains h1 c1 mf where "SV_WriteSnapshotToClient sample_env sample_info 0 sample_header sample_client sample_message = Inr (h1, c1, mf)"
    "\<not> overflowed mf" "cursize mf < 128"
proof -
  let ?m3 = "player_message (MSG_WriteByte 4 (MSG_WriteByte 1 (MSG_WriteLong 50 (MSG_WriteByte svc_snapshot sample_message))))"
  obtain m4 where m4: "entities_message (MSG_ClearLastReferencedEntity ?m3) = Inr m4"
    using sample_fits by (cases "entities_message (MSG_ClearLastReferencedEntity ?m3)") simp_all
  let ?mf = "MSG_WriteBit0 (clients_message (MSG_ClearLastReferencedEntity (entities_end m4)))"
  have fits: "\<not> overflowed ?mf" "cursize ?mf < 128" using sample_fits by (simp_all add: m4)
  obtain R where R: "entities_loop 4 sample_env 0 50 (replicate 5 null_struct) 4 (2, 2) (0, 2)
    [sample_entity 1 0 0, sample_entity 2 1 0, sample_entity 1 0 5, sample_entity 3 0 0] 0 0
      (MSG_ClearLastReferencedEntity ?m3) = Inr (R, m4)"
    using sample_entities [of "MSG_ClearLastReferencedEntity ?m3"] by (auto simp: m4)
  have i: "sample_info\<lparr>archived := False\<rparr> = sample_info" "clnum sample_info = 0" by (simp_all add: sample_info_def)
  have h: "sh_time sample_header = 50" "svEntities sample_header = replicate 5 null_struct" "numSnapshotEntities sample_header = 4"
    "numSnapshotClients sample_header = 4"
    "snapshotEntities sample_header = [sample_entity 1 0 0, sample_entity 2 1 0, sample_entity 1 0 5, sample_entity 3 0 0]"
    "snapshotClients sample_header = [sample_entity 0 0 0, sample_entity 0 0 7, sample_entity 1 0 0]"
    by (simp_all add: sample_header_def)
  have f: "ps ((sample_frame new_ps 2 2 1)\<lparr>var_03 := 50\<rparr>) = new_ps" "ps (sample_frame old_ps 1 0 0) = old_ps"
    "entity_window (Some ((sample_frame new_ps 2 2 1)\<lparr>var_03 := 50\<rparr>)) = (2, 2)" "entity_window (Some (sample_frame old_ps 1 0 0)) = (0, 2)"
    "client_window (Some ((sample_frame new_ps 2 2 1)\<lparr>var_03 := 50\<rparr>)) = (1, 2)" "client_window (Some (sample_frame old_ps 1 0 0)) = (0, 1)"
    "window_fuel (2, 2) (0, 2) = 4" "window_fuel (1, 2) (0, 1) = 3"
    by (simp_all add: sample_frame_def entity_window_def client_window_def window_fuel_def)
  have "SV_WriteSnapshotToClient sample_env sample_info 0 sample_header sample_client sample_message =
      Inr (sample_header\<lparr>snapshotEntities := R\<rparr>, mark_active (fst (choose_frame sample_header (with_frame sample_header sample_client))), ?mf)"
    unfolding snapshot_steps sample_frames sample_flags snapshot_head_def f h i option.map sample_player and_then_simps R case_prod_conv
      sample_clients by simp
  then show ?thesis using that fits by blast
qed

theorem snapshot_received_witness:
  "\<exists>h1 c1 mf s. SV_WriteSnapshotToClient sample_env sample_info 0 sample_header sample_client sample_message = Inr (h1, c1, mf) \<and>
     fst (run_state (read_snapshot sample_env sample_decoder (idx (svEntities sample_header)) 5 4 sample_old)
       (incoming sample_message mf)) = Some s \<and>
     frame_received sample_env sample_info sample_header h1 sample_client s"
proof -
  obtain h1 c1 mf where w: "SV_WriteSnapshotToClient sample_env sample_info 0 sample_header sample_client sample_message = Inr (h1, c1, mf)"
    "\<not> overflowed mf" "cursize mf < 128" by (rule sample_written)
  have "enough_fuel sample_header sample_client 5 4"
    unfolding enough_fuel_def sample_frames by (simp add: entity_window_def client_window_def window_fuel_def sample_frame_def)
  then show ?thesis
    using snapshot_received [where old = sample_old, OF w(1) sample_ready, of 5 4] sample_message_ok w by auto
qed

theorem snapshot_is_written_witness:
  "\<exists>h1 c1 mf. SV_WriteSnapshotToClient sample_env sample_info 0 sample_header sample_client sample_message = Inr (h1, c1, mf)"
proof (rule snapshot_is_written [OF sample_in_order sample_known])
  show "list_all (entity_valid sample_env (clnum sample_info)) (frame_entities sample_header (Some (new_frame sample_header sample_client)))"
    unfolding sample_frames sample_lists by (simp add: entity_valid_def MAX_GENTITIES_def sample_env_def)
qed

theorem snapshot_keeps_other_slots_witness:
  "\<exists>h1 c1 mf. SV_WriteSnapshotToClient sample_env sample_info 0 sample_header sample_client sample_message = Inr (h1, c1, mf) \<and>
     frame_entities h1 (Some (sample_frame old_ps 1 0 0)) = [sample_entity 1 0 0, sample_entity 2 1 0]"
proof -
  obtain h1 c1 mf where w: "SV_WriteSnapshotToClient sample_env sample_info 0 sample_header sample_client sample_message = Inr (h1, c1, mf)"
    by (rule sample_written)
  from snapshot_keeps_other_slots [OF w sample_in_order sample_known] show ?thesis
    using w by (auto simp: sample_frames sample_lists)
qed

lemma sample_player_fits: "\<not> overflowed (player_message sample_message) \<and> cursize (player_message sample_message) < 128"
  by code_simp

theorem player_received_witness:
  "\<exists>new. fst (run_state (read_player sample_env sample_decoder False 50 old_ps) (incoming sample_message (player_message sample_message))) =
      (False, new) \<and> player_seen sample_env sample_info old_ps new_ps new"
proof -
  have b: "player_base sample_env old_ps (old_player (Some old_ps))" by (simp add: old_player_def player_base_refl)
  have "archived sample_info = False" "send_origin sample_info new_ps = False"
    by (simp_all add: sample_info_def send_origin_def new_ps_def)
  then show ?thesis
    using player_received [OF sample_arith b sample_player sample_message_ok(1)] sample_player_fits sample_message_ok(2)
    by (simp add: old_player_def)
qed

end
