(* ===== verification/Spec2Isabelle.thy ===== *)
theory Spec2Isabelle
  imports Prelude QString QInfo QInfoCodec MsgBuffer MsgBits NetAddr Netchan ReliableChan ReliableWire
    ReliableSafety ReliableSystem ReliableLiveness CmdTokenizer CmdBuffer CmdTable HuffmanData Huffman ZoneMemory
    ZoneBlocks ZoneSafety ZoneSystem ZoneStrings
    ServerCommands ServerQueue ServerPackets ServerChannel ServerMessages
    QueryLimit QueryChains QueryBound QueryProperties
    CvarTypes CvarSystem CvarOps CvarCommands CvarSafety CvarReach CvarProperties CvarFindings
    SnapWire SnapTables SnapDelta SnapRead SnapStruct SnapPlayer SnapFrame SnapFill SnapArrays SnapHud
    SnapPlayerRead SnapWalk SnapEntities SnapRing SnapClients SnapSystem SnapProperties
begin

text \<open>
  Verification library of the CoD4X 1.8 game server (directory src/src of the repository).

  The program.  The server receives datagrams, which the sequenced channel (netchan.c) numbers,
  splits and joins; large transfers go through a reliable byte stream
  (net\_reliabletransport.c).  The contents of datagrams are written and read through message
  buffers (msg.c) and packed with a fixed Huffman code (huffman.c).  Console lines are
  collected in the command buffer, split into tokens and looked up in the command table
  (cmd.c); a line that is no command may name a console variable (cvar.c).  Settings travel
  as info strings (qshared.c).  Each client has a ring of reliable commands from the server,
  whose last acknowledged text encodes its packets, and sends numbered commands of its own
  (sv\_main.c, sv\_snapshot.c, sv\_net\_chan.c, sv\_client.c); queries of strangers are limited
  by leaky buckets (sv\_main.c).  Strings and small objects live in two zones of memory
  (qcommon\_mem.c).

  Theories, in the order of the imports:

    Prelude: C integers of the 32-bit target, bytes, arrays as lists, the locale \<open>ring\<close>.
    QString: character and string routines of qshared.c; QInfo and QInfoCodec: info strings and
      their percent encoding, with the locale \<open>info_store\<close>.
    MsgBuffer and MsgBits: \<open>msg_t\<close>, bytes and bits, with the locale \<open>wire_codec\<close>.
    NetAddr: addresses of sys\_net.c.  Netchan: netchan.c and its loopback queues.
    ReliableChan: net\_reliabletransport.c; ReliableWire: its datagrams; ReliableSafety: the
      invariant of an endpoint; ReliableSystem: two endpoints and a network that loses,
      repeats and reorders; ReliableLiveness: retransmission.
    CmdTokenizer, CmdBuffer, CmdTable: cmd.c, with the locale \<open>arg_stack\<close>.
    HuffmanData: the assignments that build the tree; Huffman: the coder.
    ZoneMemory: qcommon\_mem.c over the bytes of memory; ZoneBlocks: a zone as a list of
      blocks; ZoneSafety: the operations on it; ZoneSystem: a program that uses the zones;
      ZoneStrings: the locale \<open>allocator\<close> and CopyString.
    CvarTypes, CvarSystem, CvarOps, CvarCommands: cvar.c; CvarSafety and CvarReach: its
      invariants; CvarProperties: the theorems; CvarFindings: where it deviates.
    ServerCommands: the reliable commands to a client (\<open>client\<close>, the fields of \<open>client_t\<close> that
      are used); ServerQueue: the ring as a list; ServerChannel: its properties and the runs of
      a client.  ServerPackets: packets, acknowledgements and client commands; ServerMessages:
      executing a packet and the flood protection.
    QueryLimit: the buckets and hash chains of the query limits; QueryChains: the doubly
      linked chains; QueryBound and QueryProperties: the table as a map and its guarantees.

  How state corresponds.  A struct is a record with the fields of the source (prefixed where
  two structs share a field name), an array a list of its full length, a pointer into an
  array an index, a NULL pointer \<open>None\<close>.  A function of the source is the definition of the
  same name; it takes the state it reads and returns the state it leaves.  A \<open>Com_Error\<close>,
  which does not return, and a store or read outside an array are values of an error type
  (\<open>qerr\<close>, \<open>fault\<close>), so that the absence of faults is a theorem.  Only the zone allocator,
  whose headers lie in the memory it hands out, is modelled at the level of bytes and
  addresses.  An \<open>int\<close> is an \<open>int\<close> wrapped by \<open>s32\<close> where it can overflow; bytes, flags and bit
  patterns are words.

  What the lemmas show.  QInfo and QInfoCodec: setting and reading keys against an association
  list, round trips of the encoding and the bounds at which the buffer is overrun.
  MsgBuffer and MsgBits: what each writer appends and that readers give it back, at every
  bit position.  Netchan: bounds, growing sequence numbers, reassembly.  Reliable*: the bytes
  a receiver hands out are those the sender accepted, in order, and nothing is left waiting.
  Cmd*: the buffer is a string, its lines run in order, the tokens form a stack, powers are
  kept and can be saved.  Huffman: the code of the program is a prefix code and loses nothing.
  Zone*: first fit, no overlap, contents kept.  Cvar*: values fit their types and limits,
  look-up is by name, what is set is read back.  Server*: queueing refines an operation on
  lists, a number always carries the same text, client commands run in order and once, bursts
  are cut.  Query*: a potential bounds the answers an address gets in any window of time, and
  a patient client is always answered.

  Bounds and fuel.  Loops whose end depends on the data are \<open>partial_function (option)\<close> or
  take fuel, and their end is proved: Huffman codes have at most eleven bits, so twelve steps
  down the tree suffice; \<open>Cbuf_Execute\<close> takes fuel because a command can insert itself for
  ever, and it is proved to end exactly when the expansion of the text is finite; the walks of
  the zone allocator end because the ring of blocks is finite, except in
  \<open>Z_FreeTags\<close> of static blocks, which does not end in the code either; the operations of a
  client packet end because each takes bits of it.  A run of the command ring keeps at most
  127 commands pending: with 128 the code treats a correct acknowledgement as out of range.
  The query theorems speak of 35 minutes, within which the interval of microseconds that the
  code keeps in an \<open>int\<close> does not wrap, for a table of any number of buckets.

  Parameters, for code outside the repository or outside the model: the block \<open>malloc\<close> and
  \<open>realloc\<close> return (\<open>cbenv\<close>, an argument of the reliable transport), the socket and the plugin
  hook (\<open>netenv\<close>), what a command does (\<open>dispatch\<close>), the conversions of floats (\<open>fpu\<close>), the
  memory before a zone is set up, the clock and the random seed of the query hash, the local
  networks of the machine, and the execution of client commands and moves (\<open>cmdenv\<close>).  Where a theorem needs a law of a parameter it is a
  hypothesis, and its witness instantiates the parameter.

  Not modelled.  Console output; sockets, files and threads (critical sections make each
  operation one step); the operations over structures of the original game binary (game
  logic, snapshots, collision, script machine, assets), which the repository only reaches at
  fixed addresses; floating-point geometry; vendored libraries (mbedtls, tomcrypt, zlib) and
  the bot library; web, plugin and update services.
\<close>

end
